(* ===== verification/CS_Prelude.thy ===== *)
theory CS_Prelude
  imports "HOL-Library.Word"
begin

unbundle bit_operations_syntax

text \<open>
  Shared vocabulary of the development: the status codes of base/status.h, the
  result type of a function that returns a \<open>Code\<close> and fills an out-parameter,
  bytes and byte strings, and the lemmas on lists, results and words that the
  component theories share.

  Conventions used everywhere:
  \<^item> \<open>std::string\<close> is a list of bytes, a byte is an \<open>8 word\<close>;
  \<^item> a function \<open>Code f(in, T *out)\<close> that overwrites \<open>*out\<close> is a function into
    \<open>Code + T\<close>: \<open>Inr v\<close> is \<open>kOk\<close> with \<open>*out = v\<close>, \<open>Inl c\<close> is the early return of
    the error code \<open>c\<close>, after which the caller does not look at \<open>*out\<close>;
  \<^item> a function that appends to \<open>*out\<close> takes the old contents as an argument;
  \<^item> a method takes the object's state and returns the new one, also when it fails;
  \<^item> an out-parameter is a reference to an object, so the source's tests for a null
    out-parameter have no counterpart;
  \<^item> where the source's behaviour is undefined (a read or a write outside an array, a
    shift by the width or more) the model's value is \<open>None\<close>.
\<close>

section \<open>Status codes\<close>

text \<open>The enumerators of base/status.h that the modelled code returns.\<close>

datatype Code =
    kOtherFailed | kOk | kDataNotEnough | kInvalidParam | kInvalidPlace | kNotInit
  | kNotEqual | kLess | kInvalidSize | kInvalidData | kInternalError
  | kNotFound | kFileIsEnd | kReadError | kWriteError | kOpenFileFailed
  | kInvalidLength | kNewFailed | kMallocFailed | kExist
  | kNoDigits | kNotAllDigits | kStrtollFailed | kSubError
  | kInvalidUrlEncodingStr | kNotAllLowerCaseLetter | kRingEmpty
  | kKeySizeIsLarge | kCASFailed | kTimeWrong | kDataValueError | kInvalidFileName
  | kFilesNumIsFull | kInvalidBitCaskFileName | kStatFailed | kValueSizeIsLarger
  | kRegNotMatch | kInvalidRegExp | kInvalidRange | kInvalidInBracket | kInvalidMetaOperator
  | kInvalidRegEnd | kParenNumExceed | kNoNextNode | kInvalidRegNfa

section \<open>Bytes and results\<close>

type_synonym byte = "8 word"
type_synonym bytes = "byte list"
type_synonym 'a res = "Code + 'a"

text \<open>Character constants of the source, as the bytes they denote.\<close>

abbreviation c_space :: byte where "c_space \<equiv> 32"
abbreviation c_percent :: byte where "c_percent \<equiv> 37"
abbreviation c_plus :: byte where "c_plus \<equiv> 43"
abbreviation c_minus :: byte where "c_minus \<equiv> 45"
abbreviation c_dot :: byte where "c_dot \<equiv> 46"
abbreviation c_slash :: byte where "c_slash \<equiv> 47"
abbreviation c_0 :: byte where "c_0 \<equiv> 48"
abbreviation c_9 :: byte where "c_9 \<equiv> 57"
abbreviation c_eq :: byte where "c_eq \<equiv> 61"
abbreviation c_A :: byte where "c_A \<equiv> 65"
abbreviation c_Z :: byte where "c_Z \<equiv> 90"
abbreviation c_underscore :: byte where "c_underscore \<equiv> 95"
abbreviation c_a :: byte where "c_a \<equiv> 97"
abbreviation c_f :: byte where "c_f \<equiv> 102"
abbreviation c_z :: byte where "c_z \<equiv> 122"
abbreviation c_tilde :: byte where "c_tilde \<equiv> 126"

text \<open>Sequencing of fallible calls: \<open>ret = f(..); if (ret != kOk) return ret;\<close>.\<close>

primrec rbind :: "'a res \<Rightarrow> ('a \<Rightarrow> 'b res) \<Rightarrow> 'b res" where
  "rbind (Inl e) f = Inl e"
| "rbind (Inr x) f = f x"

text \<open>A loop that calls a fallible function on each element and appends its output.\<close>

fun rconcat :: "('a \<Rightarrow> 'b list res) \<Rightarrow> 'a list \<Rightarrow> 'b list res" where
  "rconcat f [] = Inr []"
| "rconcat f (x # xs) = rbind (f x) (\<lambda>y. rbind (rconcat f xs) (\<lambda>ys. Inr (y @ ys)))"

named_theorems res_simps \<open>equations about fallible computations\<close>

lemma rbind_Inr_iff [res_simps]: "rbind m f = Inr y \<longleftrightarrow> (\<exists>x. m = Inr x \<and> f x = Inr y)"
  by (cases m) auto

lemma rbind_Inl_iff [res_simps]:
  "rbind m f = Inl e \<longleftrightarrow> m = Inl e \<or> (\<exists>x. m = Inr x \<and> f x = Inl e)"
  by (cases m) auto

lemma rbind_cong: "m = m' \<Longrightarrow> (\<And>x. m' = Inr x \<Longrightarrow> f x = f' x) \<Longrightarrow> rbind m f = rbind m' f'"
  by (cases m') auto

lemma rbind_assoc: "rbind (rbind m f) g = rbind m (\<lambda>x. rbind (f x) g)"
  by (cases m) auto

lemma rbind_Inr_right [simp]: "rbind m Inr = m"
  by (cases m) auto

lemma rconcat_append:
  "rconcat f (xs @ ys) = rbind (rconcat f xs) (\<lambda>a. rbind (rconcat f ys) (\<lambda>b. Inr (a @ b)))"
  by (induction xs) (auto simp: rbind_assoc intro: rbind_cong)

lemma rconcat_total:
  assumes "\<And>x. x \<in> set xs \<Longrightarrow> f x = Inr (g x)"
  shows "rconcat f xs = Inr (concat (map g xs))"
  using assms by (induction xs) auto

text \<open>The character classes of \<open>ctype.h\<close> in the C locale.\<close>

definition isdigit :: "byte \<Rightarrow> bool" where
  "isdigit b \<longleftrightarrow> c_0 \<le> b \<and> b \<le> c_9"

definition isalnum :: "byte \<Rightarrow> bool" where
  "isalnum b \<longleftrightarrow> isdigit b \<or> (c_A \<le> b \<and> b \<le> c_Z) \<or> (c_a \<le> b \<and> b \<le> c_z)"

section \<open>Groups of a fixed size\<close>

text \<open>
  \<open>chunks n xs\<close> cuts a list into pieces of \<open>n\<close> elements, the last one possibly
  shorter: the view of a buffer that the block encoders walk over.
\<close>

function chunks :: "nat \<Rightarrow> 'a list \<Rightarrow> 'a list list" where
  "chunks n xs = (if xs = [] \<or> n = 0 then [] else take n xs # chunks n (drop n xs))"
  by pat_completeness auto
termination
  by (relation "measure (\<lambda>(n, xs). length xs)") auto

declare chunks.simps [simp del]

lemma chunks_Nil [simp]: "chunks n [] = []"
  by (subst chunks.simps) simp

lemma chunks_step: "xs \<noteq> [] \<Longrightarrow> 0 < n \<Longrightarrow> chunks n xs = take n xs # chunks n (drop n xs)"
  by (subst chunks.simps) simp

lemma chunks_short: "xs \<noteq> [] \<Longrightarrow> length xs \<le> n \<Longrightarrow> chunks n xs = [xs]"
  by (subst chunks.simps) (cases n, auto)

lemma concat_chunks: "0 < n \<Longrightarrow> concat (chunks n xs) = xs"
  by (induction n xs rule: chunks.induct) (subst chunks.simps, auto)

lemma chunks_length_le: "c \<in> set (chunks n xs) \<Longrightarrow> length c \<le> n \<and> c \<noteq> []"
  by (induction n xs rule: chunks.induct) (subst (asm) (2) chunks.simps, auto split: if_splits)

lemma chunks_append:
  "length ys = n \<Longrightarrow> 0 < n \<Longrightarrow> chunks n (ys @ zs) = ys # chunks n zs"
  by (subst chunks_step) auto

text \<open>Induction over a list \<open>n\<close> elements at a time.\<close>

lemma chunk_induct [consumes 1, case_names Nil Chunk]:
  assumes "0 < n"
    and "P []"
    and "\<And>xs. xs \<noteq> [] \<Longrightarrow> P (drop n xs) \<Longrightarrow> P xs"
  shows "P xs"
proof (induction xs rule: length_induct)
  case (1 xs)
  then show ?case using assms by (cases "xs = []") auto
qed

section \<open>Words and bytes\<close>

text \<open>A property of every word below a numeral, by cases on its value.\<close>

lemma word_less_cases:
  assumes "unat w < n" and "\<forall>k \<in> set [0..<n]. P (word_of_nat k)"
  shows "P w"
  using assms bspec [of "set [0..<n]" "\<lambda>k. P (word_of_nat k)" "unat w"] by simp

lemma unat_shiftr: "unat (drop_bit k w) = unat w div 2 ^ k"
  by (simp only: unat_drop_bit_eq drop_bit_eq_div [where 'a = nat])

lemma bit_0x80: "bit (0x80 :: int) n \<longleftrightarrow> n = 7"
proof -
  have eq: "(0x80 :: int) = push_bit 7 1" by simp
  show ?thesis unfolding eq by (simp only: bit_push_bit_iff) (auto simp: bit_1_iff)
qed

lemma mask_0x7f: "(0x7f :: 'a::len word) = mask 7"
  by (simp add: mask_eq_exp_minus_1)

text \<open>The bytes of a word, least significant first, and the word of such bytes.\<close>

primrec le_bytes :: "nat \<Rightarrow> 'a::len word \<Rightarrow> bytes" where
  "le_bytes 0 w = []"
| "le_bytes (Suc n) w = ucast w # le_bytes n (drop_bit 8 w)"

primrec of_le_bytes :: "bytes \<Rightarrow> 'a::len word" where
  "of_le_bytes [] = 0"
| "of_le_bytes (b # bs) = ucast b OR push_bit 8 (of_le_bytes bs)"

lemma length_le_bytes [simp]: "length (le_bytes n w) = n"
  by (induction n arbitrary: w) auto

lemma of_le_bytes_le_bytes: "of_le_bytes (le_bytes n w) = take_bit (8 * n) w"
proof (induction n arbitrary: w)
  case 0
  show ?case by simp
next
  case (Suc n)
  show ?case
    unfolding le_bytes.simps of_le_bytes.simps Suc
    by (rule bit_word_eqI) (auto simp: bit_simps)
qed

lemma le_bytes_take_bit: "8 * n \<le> m \<Longrightarrow> le_bytes n (take_bit m w) = le_bytes n w"
proof (induction n arbitrary: m w)
  case (Suc n)
  have "ucast (take_bit m w) = (ucast w :: byte)"
    using Suc.prems by (intro bit_word_eqI) (auto simp: bit_simps)
  moreover have "drop_bit 8 (take_bit m w) = take_bit (m - 8) (drop_bit 8 w)"
    by (rule drop_bit_take_bit)
  ultimately show ?case using Suc.IH [of "m - 8"] Suc.prems by simp
qed simp

lemma le_bytes_of_le_bytes:
  "length bs = n \<Longrightarrow> 8 * n \<le> LENGTH('a) \<Longrightarrow> le_bytes n (of_le_bytes bs :: 'a::len word) = bs"
proof (induction n arbitrary: bs)
  case 0
  then show ?case by simp
next
  case (Suc n)
  then obtain b cs where bs: "bs = b # cs" and len: "length cs = n" by (cases bs) auto
  have "ucast (ucast b OR push_bit 8 (of_le_bytes cs) :: 'a word) = b"
    using Suc.prems(2) by (intro bit_word_eqI) (auto simp: bit_simps)
  moreover have "le_bytes n (drop_bit 8 (ucast b OR push_bit 8 (of_le_bytes cs)) :: 'a word)
      = le_bytes n (of_le_bytes cs :: 'a word)"
  proof (rule arg_cong [where f = "le_bytes n", THEN trans])
    show "drop_bit 8 (ucast b OR push_bit 8 (of_le_bytes cs)) = take_bit (LENGTH('a) - 8) (of_le_bytes cs :: 'a word)"
      by (rule bit_word_eqI) (auto simp: bit_simps dest: bit_imp_le_length)
    show "le_bytes n (take_bit (LENGTH('a) - 8) (of_le_bytes cs :: 'a word)) = le_bytes n (of_le_bytes cs :: 'a word)"
      using Suc.prems(2) by (intro le_bytes_take_bit) simp
  qed
  ultimately show ?case using Suc len bs by simp
qed

section \<open>Sequences of operations\<close>

text \<open>
  A component is driven by a list of operations, each with an output; \<open>simulation\<close> is the
  contract between a component and its abstract specification, one operation at a time.
\<close>

fun run_ops :: "('op \<Rightarrow> 's \<Rightarrow> 'o \<times> 's) \<Rightarrow> 'op list \<Rightarrow> 's \<Rightarrow> 'o list \<times> 's" where
  "run_ops exec [] s = ([], s)"
| "run_ops exec (op # ops) s = (let (out, s) = exec op s; (outs, s) = run_ops exec ops s in (out # outs, s))"

locale simulation =
  fixes exec :: "'op \<Rightarrow> 's \<Rightarrow> 'o \<times> 's"
    and spec :: "'op \<Rightarrow> 'a \<Rightarrow> 'o \<times> 'a"
    and rel :: "'s \<Rightarrow> 'a \<Rightarrow> bool"
  assumes step_output: "rel s a \<Longrightarrow> fst (exec op s) = fst (spec op a)"
    and step_state: "rel s a \<Longrightarrow> rel (snd (exec op s)) (snd (spec op a))"
begin

lemma run_simulates:
  "rel s a \<Longrightarrow> fst (run_ops exec ops s) = fst (run_ops spec ops a) \<and>
     rel (snd (run_ops exec ops s)) (snd (run_ops spec ops a))"
proof (induction ops arbitrary: s a)
  case (Cons op ops)
  show ?case
    using Cons.IH [OF step_state [OF Cons.prems, of op]] step_output [OF Cons.prems, of op]
    by (simp add: Let_def split_beta)
qed simp

end

end
