(* ===== verification/Coding_Int.thy ===== *)
theory Coding_Int
  imports CS_Prelude
begin

unbundle bit_operations_syntax

text \<open>
  The integer codecs of base/coding.cc: fixed-width little-endian integers, base-128
  varints and zig-zag mapped signed integers, at the widths 32 and 64 of the source.
  The lemmas give the round trips, the exact set of inputs on which the varint decoder
  shifts out of range, and the bounds of the encoder's stack buffers.
\<close>

section \<open>Fixed-width integers\<close>

text \<open>
  Both preprocessor branches write the value little-endian; the model is the
  \<open>memcpy\<close> branch of a little-endian target.
\<close>

definition EncodeFixed32 :: "32 word \<Rightarrow> bytes \<Rightarrow> bytes" where
  "EncodeFixed32 num out = out @ le_bytes 4 num"

definition DecodeFixed32 :: "bytes \<Rightarrow> 32 word res" where
  "DecodeFixed32 inp = (if length inp < 4 then Inl kInvalidLength
     else Inr (of_le_bytes (take 4 inp)))"

definition EncodeFixed64 :: "64 word \<Rightarrow> bytes \<Rightarrow> bytes" where
  "EncodeFixed64 num out = out @ le_bytes 8 num"

definition DecodeFixed64 :: "bytes \<Rightarrow> 64 word res" where
  "DecodeFixed64 inp = (if length inp < 8 then Inl kInvalidLength
     else Inr (of_le_bytes (take 8 inp)))"

lemma DecodeFixed32_EncodeFixed32: "DecodeFixed32 (EncodeFixed32 num [] @ rest) = Inr num"
  by (simp add: DecodeFixed32_def EncodeFixed32_def of_le_bytes_le_bytes take_bit_word_eq_self)

lemma DecodeFixed64_EncodeFixed64: "DecodeFixed64 (EncodeFixed64 num [] @ rest) = Inr num"
  by (simp add: DecodeFixed64_def EncodeFixed64_def of_le_bytes_le_bytes take_bit_word_eq_self)

lemma EncodeFixed32_DecodeFixed32:
  "DecodeFixed32 inp = Inr v \<Longrightarrow> EncodeFixed32 v [] = take 4 inp"
  by (auto simp: DecodeFixed32_def EncodeFixed32_def le_bytes_of_le_bytes split: if_splits)

lemma EncodeFixed64_DecodeFixed64:
  "DecodeFixed64 inp = Inr v \<Longrightarrow> EncodeFixed64 v [] = take 8 inp"
  by (auto simp: DecodeFixed64_def EncodeFixed64_def le_bytes_of_le_bytes split: if_splits)

lemma length_EncodeFixed [simp]:
  "length (EncodeFixed32 num out) = length out + 4"
  "length (EncodeFixed64 num' out) = length out + 8"
  by (simp_all add: EncodeFixed32_def EncodeFixed64_def)

section \<open>Base-128 varints\<close>

text \<open>
  The encoder's loop: seven bits a byte, low group first, the top bit of every byte but
  the last one set. \<open>varint_bytes\<close> is the contents of the stack buffer when the loop
  and the last store are done.
\<close>

function varint_bytes :: "'a::len word \<Rightarrow> bytes" where
  "varint_bytes num =
     (if 0x7f < unat num
      then (ucast (num AND 0x7f) OR 0x80) # varint_bytes (drop_bit 7 num)
      else [ucast num])"
  by pat_completeness auto
termination
  by (relation "measure unat") (simp_all only: in_measure unat_shiftr wf_measure, simp)

declare varint_bytes.simps [simp del]

definition EncodeVar32 :: "32 word \<Rightarrow> bytes \<Rightarrow> bytes" where
  "EncodeVar32 num out = out @ varint_bytes num"

definition EncodeVar64 :: "64 word \<Rightarrow> bytes \<Rightarrow> bytes" where
  "EncodeVar64 num out = out @ varint_bytes num"

text \<open>
  The decoder's loop over the input from index \<open>i\<close>. The shift \<open>x << (7 * i)\<close> is
  undefined once \<open>7 * i\<close> reaches the width of the shifted operand, 32 bits for
  \<open>DecodeVar32\<close> (an \<open>int\<close>) and 64 bits for \<open>DecodeVar64\<close>: the value is then \<open>None\<close>.
\<close>

fun DecodeVar_loop :: "nat \<Rightarrow> 'a::len word \<Rightarrow> bytes \<Rightarrow> 'a word res option" where
  "DecodeVar_loop i value [] = Some (Inl kInvalidLength)"
| "DecodeVar_loop i value (ch # rest) =
     (if LENGTH('a) \<le> 7 * i then None
      else if ch AND 0x80 \<noteq> 0
      then DecodeVar_loop (Suc i) (value + push_bit (7 * i) (ucast (ch AND 0x7f))) rest
      else Some (Inr (value + push_bit (7 * i) (ucast ch))))"

definition DecodeVar32 :: "bytes \<Rightarrow> 32 word res option" where
  "DecodeVar32 inp = DecodeVar_loop 0 0 inp"

definition DecodeVar64 :: "bytes \<Rightarrow> 64 word res option" where
  "DecodeVar64 inp = DecodeVar_loop 0 0 inp"

lemma byte_cont_bit: "(ucast (x AND 0x7f) OR 0x80 :: byte) AND 0x80 \<noteq> 0"
proof -
  have "bit ((ucast (x AND 0x7f) OR 0x80 :: byte) AND 0x80) 7" by (simp add: bit_simps)
  then show ?thesis by auto
qed

lemma ucast_low7:
  fixes x :: "'a::len word"
  assumes "7 < LENGTH('a)"
  shows "ucast ((ucast (x AND 0x7f) OR 0x80 :: byte) AND 0x7f) = take_bit 7 x"
  unfolding mask_0x7f using assms
  by (intro bit_word_eqI) (auto simp: bit_simps bit_0x80)

lemma small_byte:
  fixes x :: "'a::len word"
  assumes "\<not> 0x7f < unat x"
  shows "(ucast x :: byte) AND 0x80 = 0" and "8 \<le> LENGTH('a) \<Longrightarrow> ucast (ucast x :: byte) = x"
proof -
  have "take_bit 7 x = x"
    using assms by (simp only: word_unat_eq_iff unsigned_take_bit_eq) (simp add: take_bit_nat_eq_self)
  then have low: "bit x n \<Longrightarrow> n < 7" for n by (metis bit_take_bit_iff)
  then show "(ucast x :: byte) AND 0x80 = 0"
    by (intro bit_word_eqI) (auto simp: bit_simps bit_0x80)
  assume "8 \<le> LENGTH('a)"
  then show "ucast (ucast x :: byte) = x"
    by (intro bit_word_eqI) (auto simp: bit_simps dest: low)
qed

lemma DecodeVar_loop_varint:
  fixes num :: "'a::len word"
  assumes "7 * i < LENGTH('a)" and "unat num < 2 ^ (LENGTH('a) - 7 * i)" and "8 \<le> LENGTH('a)"
  shows "DecodeVar_loop i v (varint_bytes num @ rest) = Some (Inr (v + push_bit (7 * i) num))"
  using assms
proof (induction num arbitrary: i v rule: varint_bytes.induct)
  case (1 num)
  show ?case
  proof (cases "0x7f < unat num")
    case True
    have lt: "7 * Suc i < LENGTH('a)"
    proof (rule ccontr)
      assume "\<not> ?thesis"
      then have "(2::nat) ^ (LENGTH('a) - 7 * i) \<le> 2 ^ 7" by (intro power_increasing) auto
      with True 1(3) show False by simp
    qed
    have "unat (drop_bit 7 num) < 2 ^ (LENGTH('a) - 7 * Suc i)"
    proof -
      have "unat num < 2 ^ (LENGTH('a) - 7 * Suc i) * 2 ^ 7"
        using 1(3) lt unfolding power_add [symmetric] by (simp add: diff_diff_left)
      then show ?thesis by (simp only: unat_shiftr less_mult_imp_div_less)
    qed
    from 1(1) [OF True lt this 1(4)]
    have IH: "DecodeVar_loop (Suc i) w (varint_bytes (drop_bit 7 num) @ rest)
        = Some (Inr (w + push_bit (7 * Suc i) (drop_bit 7 num)))" for w .
    have "push_bit (7 * i) (take_bit 7 num) + push_bit (7 * Suc i) (drop_bit 7 num)
        = push_bit (7 * i) (push_bit 7 (drop_bit 7 num) + take_bit 7 num)"
      by (simp add: push_bit_add add.commute)
    then have sum: "push_bit (7 * i) (take_bit 7 num) + push_bit (7 * Suc i) (drop_bit 7 num)
        = push_bit (7 * i) num" by (simp add: bits_ident)
    show ?thesis
      using True 1(2,4) byte_cont_bit [of num] ucast_low7 [of num] IH sum
      by (subst varint_bytes.simps) (simp add: add.assoc)
  next
    case False
    with small_byte [of num] 1(2,4) show ?thesis by (subst varint_bytes.simps) simp
  qed
qed

lemma DecodeVar32_EncodeVar32: "DecodeVar32 (EncodeVar32 num [] @ rest) = Some (Inr num)"
  using DecodeVar_loop_varint [of 0 num 0 rest] unsigned_less [of num]
  by (simp add: DecodeVar32_def EncodeVar32_def)

lemma DecodeVar64_EncodeVar64: "DecodeVar64 (EncodeVar64 num [] @ rest) = Some (Inr num)"
  using DecodeVar_loop_varint [of 0 num 0 rest] unsigned_less [of num]
  by (simp add: DecodeVar64_def EncodeVar64_def)

text \<open>The stack buffers \<open>char buf[5]\<close> and \<open>char buf[10]\<close> are long enough.\<close>

lemma length_varint_bytes: "0 < k \<Longrightarrow> unat num < 2 ^ (7 * k) \<Longrightarrow> length (varint_bytes num) \<le> k"
proof (induction num arbitrary: k rule: varint_bytes.induct)
  case (1 num)
  show ?case
  proof (cases "0x7f < unat num")
    case True
    with 1(3) have k: "0 < k - 1" by (cases k; cases "k - 1") auto
    then have "unat num < 2 ^ (7 * (k - 1)) * 2 ^ 7" using 1(3)
      unfolding power_add [symmetric] by (simp add: algebra_simps)
    then have "unat (drop_bit 7 num) < 2 ^ (7 * (k - 1))"
      by (simp only: unat_shiftr less_mult_imp_div_less)
    from 1(1) [OF True k this] True k show ?thesis by (subst varint_bytes.simps) simp
  next
    case False
    with 1(2) show ?thesis by (subst varint_bytes.simps) simp
  qed
qed

lemma EncodeVar_buffer_bounds:
  "length (varint_bytes (num :: 32 word)) \<le> 5" "length (varint_bytes (num' :: 64 word)) \<le> 10"
proof -
  have "unat num < 2 ^ 32" "unat num' < 2 ^ 64"
    using unsigned_less [of num] unsigned_less [of num'] by simp_all
  then show "length (varint_bytes num) \<le> 5" "length (varint_bytes num') \<le> 10"
    by (auto intro!: length_varint_bytes)
qed

text \<open>When the decoder's shift count is out of range.\<close>

lemma DecodeVar_loop_None_iff:
  fixes v :: "'a::len word"
  assumes "LENGTH('a) \<le> 7 * m" and "\<And>j. j < m \<Longrightarrow> 7 * j < LENGTH('a)" and "i \<le> m"
  shows "DecodeVar_loop i v inp = None \<longleftrightarrow>
    m - i < length inp \<and> (\<forall>b \<in> set (take (m - i) inp). b AND 0x80 \<noteq> 0)"
  using assms(3)
proof (induction inp arbitrary: i v)
  case (Cons ch rest)
  show ?case
  proof (cases "i = m")
    case False
    with Cons.prems have "Suc i \<le> m" and m: "m - i = Suc (m - Suc i)" by auto
    with Cons.IH [OF this(1)] assms(2) [of i] show ?thesis by (auto simp: not_le)
  qed (use assms(1) in simp)
qed simp

lemma DecodeVar32_None_iff:
  "DecodeVar32 inp = None \<longleftrightarrow> 5 < length inp \<and> (\<forall>b \<in> set (take 5 inp). b AND 0x80 \<noteq> 0)"
  unfolding DecodeVar32_def by (subst DecodeVar_loop_None_iff [where m = 5]) auto

lemma DecodeVar64_None_iff:
  "DecodeVar64 inp = None \<longleftrightarrow> 10 < length inp \<and> (\<forall>b \<in> set (take 10 inp). b AND 0x80 \<noteq> 0)"
  unfolding DecodeVar64_def by (subst DecodeVar_loop_None_iff [where m = 10]) auto

section \<open>Zig-zag\<close>

text \<open>
  \<open>num << 1\<close> and the arithmetic shift \<open>num >> 31\<close>; the decoder negates the low bit.
\<close>

definition EncodeZigZag32 :: "32 word \<Rightarrow> 32 word" where
  "EncodeZigZag32 num = push_bit 1 num XOR signed_drop_bit 31 num"

definition DecodeZigZag32 :: "32 word \<Rightarrow> 32 word" where
  "DecodeZigZag32 inp = drop_bit 1 inp XOR - (inp AND 1)"

definition EncodeZigZag64 :: "64 word \<Rightarrow> 64 word" where
  "EncodeZigZag64 num = push_bit 1 num XOR signed_drop_bit 63 num"

definition DecodeZigZag64 :: "64 word \<Rightarrow> 64 word" where
  "DecodeZigZag64 inp = drop_bit 1 inp XOR - (inp AND 1)"

lemma signed_drop_bit_top:
  fixes w :: "'a::len word"
  shows "signed_drop_bit (LENGTH('a) - 1) w = (if bit w (LENGTH('a) - 1) then - 1 else 0)"
proof (rule bit_word_eqI)
  fix n assume "n < LENGTH('a)"
  then have "LENGTH('a) - 1 + n < LENGTH('a) \<Longrightarrow> n = 0" by auto
  then show "bit (signed_drop_bit (LENGTH('a) - 1) w) n
      = bit (if bit w (LENGTH('a) - 1) then - 1 else 0 :: 'a word) n"
    using \<open>n < LENGTH('a)\<close>
    by (cases "n = 0") (auto simp: bit_signed_drop_bit_iff bit_simps)
qed

lemma minus_and_1: "- (w AND 1) = (if odd w then - 1 else (0 :: 'a::len word))"
  by (simp add: and_one_eq odd_iff_mod_2_eq_one)

lemma zigzag_roundtrip:
  fixes w :: "'a::len word"
  assumes "1 < LENGTH('a)"
  shows "drop_bit 1 (push_bit 1 w XOR signed_drop_bit (LENGTH('a) - 1) w)
      XOR - ((push_bit 1 w XOR signed_drop_bit (LENGTH('a) - 1) w) AND 1) = w" (is ?A)
    and "push_bit 1 (drop_bit 1 w XOR - (w AND 1))
      XOR signed_drop_bit (LENGTH('a) - 1) (drop_bit 1 w XOR - (w AND 1)) = w" (is ?B)
proof -
  have odd: "odd v \<longleftrightarrow> bit v 0" for v :: "'a word" by (simp add: bit_0)
  define dbl where "dbl = (\<lambda>v :: 'a word. push_bit 1 v)"
  have bit_dbl: "bit (dbl v) n \<longleftrightarrow> 0 < n \<and> n < LENGTH('a) \<and> bit v (n - 1)" for v :: "'a word" and n
    unfolding dbl_def by (simp only: bit_push_bit_iff) auto
  show ?A unfolding signed_drop_bit_top minus_and_1 odd dbl_def [symmetric, THEN fun_cong]
  proof (rule bit_word_eqI)
    fix n assume n: "n < LENGTH('a)"
    let ?e = "dbl w XOR (if bit w (LENGTH('a) - 1) then - 1 else 0)"
    have "n = LENGTH('a) - 1" if "\<not> Suc n < LENGTH('a)" using that n by simp
    with n assms show "bit (drop_bit 1 ?e XOR (if bit ?e 0 then - 1 else 0)) n = bit w n"
      by (cases "Suc n < LENGTH('a)") (auto simp: bit_xor_iff bit_dbl bit_drop_bit_eq)
  qed
  show ?B unfolding signed_drop_bit_top minus_and_1 odd dbl_def [symmetric, THEN fun_cong]
  proof (rule bit_word_eqI)
    fix n assume "n < LENGTH('a)"
    let ?e = "drop_bit 1 w XOR (if bit w 0 then - 1 else 0)"
    show "bit (dbl ?e XOR (if bit ?e (LENGTH('a) - 1) then - 1 else 0)) n = bit w n"
      using assms \<open>n < LENGTH('a)\<close> by (cases n) (auto simp: bit_xor_iff bit_dbl bit_drop_bit_eq)
  qed
qed

lemma DecodeZigZag_EncodeZigZag:
  "DecodeZigZag32 (EncodeZigZag32 num) = num" "DecodeZigZag64 (EncodeZigZag64 num') = num'"
  using zigzag_roundtrip(1) [of num] zigzag_roundtrip(1) [of num']
  by (simp_all add: DecodeZigZag32_def EncodeZigZag32_def DecodeZigZag64_def EncodeZigZag64_def)

lemma EncodeZigZag_DecodeZigZag:
  "EncodeZigZag32 (DecodeZigZag32 inp) = inp" "EncodeZigZag64 (DecodeZigZag64 inp') = inp'"
  using zigzag_roundtrip(2) [of inp] zigzag_roundtrip(2) [of inp']
  by (simp_all add: DecodeZigZag32_def EncodeZigZag32_def DecodeZigZag64_def EncodeZigZag64_def)

text \<open>A number of small magnitude maps to a small number: the purpose of the mapping.\<close>

lemma zigzag_value:
  fixes w :: "'a::len word"
  shows "uint (push_bit 1 w XOR signed_drop_bit (LENGTH('a) - 1) w)
    = (if sint w < 0 then - 2 * sint w - 1 else 2 * sint w)"
proof -
  have s: "sint w = uint w - (if sint w < 0 then 2 ^ LENGTH('a) else 0)"
    using bit_last_iff [of w]
    by (auto simp: sint_uint signed_take_bit_eq_take_bit_minus bit_uint_iff take_bit_int_eq_self)
  have d: "uint (push_bit 1 w) = (2 * uint w) mod 2 ^ LENGTH('a)"
    by (simp only: unsigned_push_bit_eq take_bit_eq_mod [where 'a = int]
        push_bit_eq_mult [where 'a = int] power_one_right mult.commute)
  show ?thesis
  proof (cases "sint w < 0")
    case True
    have n: "uint (v XOR - 1) = 2 ^ LENGTH('a) - 1 - uint v" for v :: "'a word"
      by (simp add: unsigned_not_eq take_bit_not_eq_mask_diff mask_eq_exp_minus_1 take_bit_int_eq_self)
    have "uint w < 2 ^ LENGTH('a)" by (rule uint_bounded)
    moreover have "2 ^ LENGTH('a) \<le> 2 * uint w"
      using True s sint_ge [of w] by (cases "LENGTH('a)") auto
    ultimately have "(2 * uint w) mod 2 ^ LENGTH('a) = 2 * uint w - 2 ^ LENGTH('a)"
      using mod_pos_pos_trivial [of "2 * uint w - 2 ^ LENGTH('a)" "2 ^ LENGTH('a)"]
      by (simp add: minus_mod_self2)
    moreover have "bit w (LENGTH('a) - 1)" using True bit_last_iff [of w] by simp
    ultimately show ?thesis using True s
      by (simp only: signed_drop_bit_top if_True n d) simp
  next
    case False
    with s sint_lt [of w] have "2 * uint w < 2 ^ LENGTH('a)"
      by (cases "LENGTH('a)") auto
    moreover have "\<not> bit w (LENGTH('a) - 1)" using False bit_last_iff [of w] by simp
    ultimately show ?thesis using False s
      by (simp only: signed_drop_bit_top if_False d xor.right_neutral) (simp add: mod_pos_pos_trivial)
  qed
qed

lemma EncodeZigZag32_value:
  "uint (EncodeZigZag32 num) = (if sint num < 0 then - 2 * sint num - 1 else 2 * sint num)"
  using zigzag_value [of num] by (simp add: EncodeZigZag32_def)

lemma EncodeZigZag64_value:
  "uint (EncodeZigZag64 num) = (if sint num < 0 then - 2 * sint num - 1 else 2 * sint num)"
  using zigzag_value [of num] by (simp add: EncodeZigZag64_def)

section \<open>Properties\<close>

text \<open>C7: decoding what the variable-length encoders wrote gives the number back, whatever
  follows it, and the encoding fits the buffers of 5 and 10 bytes.\<close>
theorem Varint_roundtrip:
  "DecodeVar32 (EncodeVar32 num [] @ rest) = Some (Inr num) \<and> length (EncodeVar32 num []) \<le> 5 \<and>
   DecodeVar64 (EncodeVar64 num' [] @ rest) = Some (Inr num') \<and> length (EncodeVar64 num' []) \<le> 10"
  using DecodeVar32_EncodeVar32 DecodeVar64_EncodeVar64 EncodeVar_buffer_bounds
  by (simp add: EncodeVar32_def EncodeVar64_def)

text \<open>the 32-bit variable-length decoder has undefined behaviour (a shift by 32 or more) exactly on
  inputs of more than five bytes of which the first five have the continuation bit.\<close>
theorem DecodeVar32_undefined:
  "DecodeVar32 inp = None \<longleftrightarrow> 5 < length inp \<and> (\<forall>b \<in> set (take 5 inp). b AND 0x80 \<noteq> 0)"
  by (rule DecodeVar32_None_iff)

theorem DecodeVar32_undefined_witness: "DecodeVar32 [0x80, 0x80, 0x80, 0x80, 0x80, 0x01] = None"
  using DecodeVar32_undefined [of "[0x80, 0x80, 0x80, 0x80, 0x80, 0x01]"] by simp

text \<open>C8: zig-zag encoding is a bijection that maps the signed numbers \<open>0, -1, 1, -2, ...\<close> to
  \<open>0, 1, 2, 3, ...\<close>.\<close>
theorem ZigZag_bijection:
  "DecodeZigZag64 (EncodeZigZag64 num) = num \<and> EncodeZigZag64 (DecodeZigZag64 inp) = inp \<and>
   uint (EncodeZigZag64 num) = (if sint num < 0 then - 2 * sint num - 1 else 2 * sint num) \<and>
   DecodeZigZag32 (EncodeZigZag32 num') = num' \<and> EncodeZigZag32 (DecodeZigZag32 inp') = inp' \<and>
   uint (EncodeZigZag32 num') = (if sint num' < 0 then - 2 * sint num' - 1 else 2 * sint num')"
  using DecodeZigZag_EncodeZigZag EncodeZigZag_DecodeZigZag EncodeZigZag32_value EncodeZigZag64_value by blast

end
