(* ===== verification/Coding_Text.thy ===== *)
theory Coding_Text
  imports CS_Prelude
begin

unbundle bit_operations_syntax

text \<open>
  The text codecs of base/coding.cc and base/util.cc that work byte by byte: the hex
  digits and the percent-encoding of \<open>UrlEncode\<close>/\<open>UrlDecode\<close>, and the hexadecimal
  (base 16) form of \<open>GetReadableStr\<close>/\<open>GetBinStr\<close>. The interface \<open>codec\<close> states what a
  client of such a pair relies on; every pair of the development interprets it.
\<close>

section \<open>The contract of an encoder and its decoder\<close>

locale codec =
  fixes enc :: "bytes \<Rightarrow> bytes res" and dec :: "bytes \<Rightarrow> bytes res"
  assumes enc_total: "\<exists>dst. enc src = Inr dst"
    and dec_enc: "enc src = Inr dst \<Longrightarrow> dec dst = Inr src"
begin

lemma roundtrip: "rbind (enc src) dec = Inr src"
  using enc_total [of src] dec_enc by auto

lemma enc_injective: "enc src = enc src' \<Longrightarrow> src = src'"
  using enc_total [of src] dec_enc by (metis sum.inject(2))

lemma enc_no_error: "enc src \<noteq> Inl e"
  using enc_total [of src] by auto

end

section \<open>Hex digits\<close>

definition ToHex :: "byte \<Rightarrow> byte" where
  "ToHex src_ch = (if 9 < src_ch AND 0x0f then c_a + (src_ch AND 0x0f)
     else c_0 + (src_ch AND 0x0f))"

definition ToBin :: "byte \<Rightarrow> byte res" where
  "ToBin src_hex_ch =
     (if c_a \<le> src_hex_ch \<and> src_hex_ch \<le> c_z then Inr (src_hex_ch - c_a)
      else if c_A \<le> src_hex_ch \<and> src_hex_ch \<le> c_Z then Inr (src_hex_ch - c_A)
      else if c_0 \<le> src_hex_ch \<and> src_hex_ch \<le> c_9 then Inr (src_hex_ch - c_0)
      else Inl kInvalidParam)"

text \<open>The pair of output characters is (high, low).\<close>

definition BinToAscii :: "byte \<Rightarrow> byte \<times> byte" where
  "BinToAscii src_ch = (ToHex (drop_bit 4 src_ch), ToHex (src_ch AND 0x0f))"

text \<open>The output is added to the old value \<open>dst\<close> of the out-parameter, as in the source.\<close>

definition AsciiToBin :: "byte \<Rightarrow> byte \<Rightarrow> byte \<Rightarrow> byte res" where
  "AsciiToBin src_high_ch src_low_ch dst =
     rbind (ToBin src_high_ch) (\<lambda>tmp. let dst = dst + push_bit 4 tmp in
     rbind (ToBin src_low_ch) (\<lambda>tmp. Inr (dst + tmp)))"

lemma nibble_bounds: "unat (drop_bit 4 (b :: byte)) < 16" "unat (b AND 0x0f) < 16"
proof -
  have "unat b < 256" using unsigned_less [where 'a = nat and w = b] by simp
  then show "unat (drop_bit 4 b) < 16" by (simp only: unat_shiftr) simp
  show "unat (b AND 0x0f) < 16"
    using word_and_le1 [of b "0x0f"] by (simp add: word_le_nat_alt)
qed

lemma ToHex_nibble: "ToHex (b AND 0x0f) = ToHex b"
proof -
  have "(b AND 0x0f) AND 0x0f = b AND 0x0f" by (rule bit_word_eqI) (auto simp: bit_simps)
  then show ?thesis by (simp only: ToHex_def)
qed

lemma ToBin_ToHex: "ToBin (ToHex src_ch) = Inr (src_ch AND 0x0f)"
proof -
  have "\<forall>k \<in> set [0..<16]. ToBin (ToHex (word_of_nat k)) = Inr (word_of_nat k AND 0x0f)"
    by (simp add: upt_rec ToBin_def ToHex_def)
  with nibble_bounds(2) have "ToBin (ToHex (src_ch AND 0x0f)) = Inr ((src_ch AND 0x0f) AND 0x0f)"
    by (rule word_less_cases)
  moreover have "(src_ch AND 0x0f) AND 0x0f = src_ch AND 0x0f"
    by (rule bit_word_eqI) (auto simp: bit_simps)
  ultimately show ?thesis by (simp only: ToHex_nibble)
qed

lemma isalnum_ToHex: "isalnum (ToHex b)"
proof -
  have "\<forall>k \<in> set [0..<16]. isalnum (ToHex (word_of_nat k))"
    by (simp add: upt_rec ToHex_def isalnum_def isdigit_def)
  with nibble_bounds(2) [of b] have "isalnum (ToHex (b AND 0x0f))" by (rule word_less_cases)
  then show ?thesis by (simp only: ToHex_nibble)
qed

lemma nibble_sum: "push_bit 4 (drop_bit 4 (b :: byte)) + (b AND 0x0f) = b"
proof -
  have "b AND 0x0f = take_bit 4 b" by (simp add: take_bit_eq_mask mask_eq_exp_minus_1)
  then show ?thesis by (simp only: bits_ident)
qed

lemma high_nibble: "drop_bit 4 (b :: byte) AND 0x0f = drop_bit 4 b"
proof -
  have m: "(0x0f :: byte) = mask 4" by (simp add: mask_eq_exp_minus_1)
  show ?thesis unfolding m
    by (rule bit_word_eqI) (auto simp: bit_simps dest: bit_imp_le_length)
qed

lemma AsciiToBin_BinToAscii:
  "BinToAscii b = (h, l) \<Longrightarrow> AsciiToBin h l 0 = Inr b"
  by (auto simp: BinToAscii_def AsciiToBin_def ToBin_ToHex ToHex_nibble high_nibble nibble_sum)

section \<open>Percent-encoding\<close>

definition url_unreserved :: "byte \<Rightarrow> bool" where
  "url_unreserved b \<longleftrightarrow> isalnum b \<or> b = c_minus \<or> b = c_underscore \<or> b = c_dot \<or> b = c_tilde"

primrec UrlEncode :: "bytes \<Rightarrow> bytes \<Rightarrow> bytes" where
  "UrlEncode [] dst = dst"
| "UrlEncode (b # src) dst =
     (if url_unreserved b then UrlEncode src (dst @ [b])
      else if b = c_space then UrlEncode src (dst @ [c_plus])
      else case BinToAscii b of (src_high_ch, src_low_ch) \<Rightarrow>
        UrlEncode src (dst @ [c_percent, src_high_ch, src_low_ch]))"

fun UrlDecode :: "bytes \<Rightarrow> bytes \<Rightarrow> bytes res" where
  "UrlDecode [] dst = Inr dst"
| "UrlDecode (b # src) dst =
     (if b = c_plus then UrlDecode src (dst @ [c_space])
      else if b = c_percent then
        (case src of
           h # l # src' \<Rightarrow> rbind (AsciiToBin h l 0) (\<lambda>bin_ch. UrlDecode src' (dst @ [bin_ch]))
         | _ \<Rightarrow> Inl kInvalidUrlEncodingStr)
      else UrlDecode src (dst @ [b]))"

lemma UrlEncode_append: "UrlEncode src dst = dst @ UrlEncode src []"
proof (induction src arbitrary: dst)
  case (Cons b src)
  show ?case
    by (simp split: prod.split) (metis Cons append.assoc append_Cons append_Nil)
qed simp

lemma unreserved_plain: "url_unreserved b \<Longrightarrow> b \<noteq> c_plus \<and> b \<noteq> c_percent"
  by (auto simp: url_unreserved_def isalnum_def isdigit_def)

lemma UrlDecode_UrlEncode: "UrlDecode (UrlEncode src [] @ rest) dst = UrlDecode rest (dst @ src)"
proof (induction src arbitrary: dst)
  case (Cons b src)
  show ?case
    using Cons [of "dst @ [b]"] unreserved_plain [of b]
    by (subst UrlEncode.simps, simp split: prod.split)
      (auto simp: UrlEncode_append [of src "_ # _"] AsciiToBin_BinToAscii)
qed simp

lemma UrlEncode_alphabet:
  "b \<in> set (UrlEncode src []) \<Longrightarrow> url_unreserved b \<or> b = c_plus \<or> b = c_percent"
proof (induction src)
  case (Cons a src)
  then show ?case
    using isalnum_ToHex [of "drop_bit 4 a"] isalnum_ToHex [of "a AND 0x0f"]
    by (auto simp: UrlEncode_append [of src "_ # _"] BinToAscii_def url_unreserved_def
        split: if_splits)
qed simp

interpretation url: codec "\<lambda>src. Inr (UrlEncode src [])" "\<lambda>src. UrlDecode src []"
  by unfold_locales (use UrlDecode_UrlEncode [of _ "[]" "[]"] in auto)

section \<open>Base 16\<close>

text \<open>\<open>snprintf(buf, 3, "%02x", b)\<close>: two lower-case digits.\<close>

definition hex_digit :: "byte \<Rightarrow> byte" where
  "hex_digit n = (if n < 10 then c_0 + n else c_a + (n - 10))"

definition GetReadableStr :: "bytes \<Rightarrow> bytes" where
  "GetReadableStr bin_str = concat (map (\<lambda>b. [hex_digit (drop_bit 4 b), hex_digit (b AND 0x0f)]) bin_str)"

definition GetBinChar :: "byte \<Rightarrow> byte res" where
  "GetBinChar src_ch =
     (if c_0 \<le> src_ch \<and> src_ch \<le> c_9 then Inr (src_ch - c_0)
      else if c_a \<le> src_ch \<and> src_ch \<le> c_f then Inr (src_ch - c_a + 0xa)
      else Inl kInvalidParam)"

fun bin_pairs :: "bytes \<Rightarrow> bytes res" where
  "bin_pairs (h # l # readable_str) =
     rbind (GetBinChar h) (\<lambda>tmp_ch. let num = push_bit 4 tmp_ch in
     rbind (GetBinChar l) (\<lambda>tmp_ch. let num = num + tmp_ch in
     rbind (bin_pairs readable_str) (\<lambda>bin_str. Inr (num # bin_str))))"
| "bin_pairs _ = Inr []"

definition GetBinStr :: "bytes \<Rightarrow> bytes res" where
  "GetBinStr readable_str =
     (if length readable_str mod 2 \<noteq> 0 then Inl kInvalidParam else bin_pairs readable_str)"

definition Base16Encode :: "bytes \<Rightarrow> bytes res" where
  "Base16Encode src = Inr (GetReadableStr src)"

definition Base16Decode :: "bytes \<Rightarrow> bytes res" where
  "Base16Decode src = GetBinStr src"

lemma GetBinChar_hex_digit: "unat n < 16 \<Longrightarrow> GetBinChar (hex_digit n) = Inr n"
  by (rule word_less_cases [of n 16]) (simp_all add: upt_rec GetBinChar_def hex_digit_def)

lemma bin_pairs_GetReadableStr: "bin_pairs (GetReadableStr bin_str) = Inr bin_str"
  by (induction bin_str)
    (simp_all add: GetReadableStr_def GetBinChar_hex_digit nibble_bounds nibble_sum)

lemma length_GetReadableStr: "length (GetReadableStr s) = 2 * length s"
  by (induction s) (simp_all add: GetReadableStr_def)

interpretation base16: codec Base16Encode Base16Decode
  by unfold_locales (auto simp: Base16Encode_def Base16Decode_def GetBinStr_def
      length_GetReadableStr bin_pairs_GetReadableStr)

section \<open>Properties\<close>

text \<open>C9: percent-decoding inverts percent-encoding on every byte string, and the encoded text
  has only letters, digits, \<open>-_.~\<close>, plus and percent signs.\<close>
theorem Url_roundtrip:
  "UrlDecode (UrlEncode src []) [] = Inr src \<and>
   (\<forall>b \<in> set (UrlEncode src []). url_unreserved b \<or> b = c_plus \<or> b = c_percent)"
  using url.roundtrip [of src] UrlEncode_alphabet by auto

theorem Url_roundtrip_witness:
  "UrlDecode (UrlEncode [0xff, c_space, c_a] []) [] = Inr [0xff, c_space, c_a] \<and>
   c_percent \<in> set (UrlEncode [0xff, c_space, c_a] [])"
  using Url_roundtrip [of "[0xff, c_space, c_a]"]
  by (simp add: BinToAscii_def url_unreserved_def isalnum_def isdigit_def)

text \<open>The hex digits above nine are \<open>k\<close> to \<open>p\<close>, so standard percent-encoding is not decoded.\<close>

lemma ToHex_not_hexadecimal: "ToHex 0x0a = 0x6b" "UrlDecode [c_percent, 50, 70] [] = Inr [0x25]"
  by (simp_all add: ToHex_def ToBin_def AsciiToBin_def)

end
