(* ===== verification/Coding_Base.thy ===== *)
theory Coding_Base
  imports Coding_Text
begin

unbundle bit_operations_syntax

text \<open>
  The block encoders of base/coding.cc: base 64 and base 32, the latter with the standard
  alphabet and with the one of geo-hashes. Two interfaces carry the proofs: \<open>char_table\<close>,
  what an encoder relies on in the pair of functions between numbers and characters
  (the function-pointer parameters of \<open>Base32EncodeInternal\<close>), and \<open>block_codec\<close>, which lifts the
  round trip of one unit to a whole string and so gives the contract \<open>codec\<close>.
\<close>

section \<open>Interfaces\<close>

text \<open>Several conversions in a row, up to the first that fails.\<close>

fun rmap :: "('a \<Rightarrow> 'b res) \<Rightarrow> 'a list \<Rightarrow> 'b list res" where
  "rmap f [] = Inr []"
| "rmap f (x # xs) = rbind (f x) (\<lambda>y. rbind (rmap f xs) (\<lambda>ys. Inr (y # ys)))"


lemma ceil_div_step:
  fixes n len :: nat
  assumes "0 < n" "0 < len"
  shows "(len + n - 1) div n = Suc ((len - n + n - 1) div n)"
proof (cases "n \<le> len")
  case True
  with assms have "len + n - 1 = n + (len - 1)" "len - n + n - 1 = len - 1" by linarith+
  with assms(1) show ?thesis by (simp only: div_add_self1)
next
  case False
  with assms have "len + n - 1 = n + (len - 1)" "len - n + n - 1 = n - 1" by linarith+
  with assms False show ?thesis by (simp only: div_add_self1) (simp add: div_less)
qed

abbreviation kEqualChar :: byte where "kEqualChar \<equiv> c_eq"

locale char_table =
  fixes width :: nat and to_visible_char :: "byte \<Rightarrow> byte res" and to_invisible_char :: "byte \<Rightarrow> byte res"
  assumes table: "unat num < 2 ^ width \<Longrightarrow>
    \<exists>c. to_visible_char num = Inr c \<and> to_invisible_char c = Inr num \<and> c \<noteq> kEqualChar"
    and table_error: "\<not> unat num < 2 ^ width \<Longrightarrow> to_visible_char num = Inl kInvalidParam"
begin

lemma table_bits:
  assumes "\<forall>n \<in> set [width..<8]. \<not> bit num n"
  shows "\<exists>c. to_visible_char num = Inr c \<and> to_invisible_char c = Inr num \<and> c \<noteq> kEqualChar"
proof (rule table)
  have "n < width" if "bit num n" for n
    using assms that bit_imp_le_length [OF that] by (cases "n < width") auto
  then have "take_bit width num = num" by (intro bit_word_eqI) (auto simp: bit_take_bit_iff)
  then have "take_bit width (unat num) = unat num" by (metis unsigned_take_bit_eq)
  then show "unat num < 2 ^ width" by (metis take_bit_nat_less_exp)
qed

end

locale block_codec =
  fixes unit_size visible_size :: nat and enc_unit :: "bytes \<Rightarrow> bytes res" and dec_unit :: "bytes \<Rightarrow> bytes res"
  assumes sizes: "0 < unit_size" "0 < visible_size"
    and unit_ok: "u \<noteq> [] \<Longrightarrow> length u \<le> unit_size \<Longrightarrow>
      \<exists>v. enc_unit u = Inr v \<and> length v = visible_size \<and> dec_unit v = Inr u"
begin

definition encode :: "bytes \<Rightarrow> bytes res" where
  "encode src = rconcat enc_unit (chunks unit_size src)"

definition decode :: "bytes \<Rightarrow> bytes res" where
  "decode src = (if length src mod visible_size \<noteq> 0 then Inl kInvalidParam
     else rconcat dec_unit (chunks visible_size src))"

lemma encode_units:
  "\<exists>dst. encode src = Inr dst \<and> rconcat dec_unit (chunks visible_size dst) = Inr src \<and>
    length dst = visible_size * ((length src + unit_size - 1) div unit_size)"
  using sizes(1)
proof (induction src rule: chunk_induct)
  case Nil
  then show ?case using sizes by (simp add: encode_def)
next
  case (Chunk src)
  from Chunk(1) sizes unit_ok [of "take unit_size src"] obtain v where
    v: "enc_unit (take unit_size src) = Inr v" "length v = visible_size" "dec_unit v = Inr (take unit_size src)"
    by auto
  from Chunk(2) obtain dst where
    dst: "encode (drop unit_size src) = Inr dst" "rconcat dec_unit (chunks visible_size dst) = Inr (drop unit_size src)"
      "length dst = visible_size * ((length (drop unit_size src) + unit_size - 1) div unit_size)" by blast
  have "chunks unit_size src = take unit_size src # chunks unit_size (drop unit_size src)"
    using Chunk(1) sizes by (intro chunks_step) auto
  then have "encode src = Inr (v @ dst)" using v dst by (simp add: encode_def)
  moreover have "rconcat dec_unit (chunks visible_size (v @ dst)) = Inr src"
    using v dst sizes by (simp add: chunks_append)
  moreover have "length (v @ dst) = visible_size * ((length src + unit_size - 1) div unit_size)"
    using v(2) dst(3) ceil_div_step [OF sizes(1), of "length src"] Chunk(1) by simp
  ultimately show ?case by blast
qed

end

sublocale block_codec \<subseteq> codec encode decode
proof
  show "\<exists>dst. encode src = Inr dst" for src using encode_units [of src] by auto
  show "decode dst = Inr src" if "encode src = Inr dst" for src dst
    using encode_units [of src] that by (auto simp: decode_def)
qed

text \<open>Shifts of bytes and their bits; two bytes are equal when their eight bits are.\<close>

abbreviation (input) shl :: "byte \<Rightarrow> nat \<Rightarrow> byte" where "shl b n \<equiv> push_bit n b"
abbreviation (input) shr :: "byte \<Rightarrow> nat \<Rightarrow> byte" where "shr b n \<equiv> drop_bit n b"

lemma byte_eqI:
  assumes "\<forall>n \<in> set [0..<8]. bit (a :: byte) n \<longleftrightarrow> bit b n"
  shows "a = b"
  using assms by (intro bit_word_eqI) simp

section \<open>Base 64\<close>

definition GetVisibleChar :: "byte \<Rightarrow> byte res" where
  "GetVisibleChar invisible_src =
     (if 64 \<le> invisible_src then Inl kInvalidParam
      else if 0 \<le> invisible_src \<and> invisible_src \<le> 25 then Inr (invisible_src + c_A)
      else if 26 \<le> invisible_src \<and> invisible_src \<le> 51 then Inr (invisible_src - 26 + c_a)
      else if 52 \<le> invisible_src \<and> invisible_src \<le> 61 then Inr (invisible_src - 52 + c_0)
      else if invisible_src = 62 then Inr c_plus
      else Inr c_slash)"

definition GetInvisibleChar :: "byte \<Rightarrow> byte res" where
  "GetInvisibleChar visible_src =
     (if c_A \<le> visible_src \<and> visible_src \<le> c_Z then Inr (visible_src - c_A)
      else if c_a \<le> visible_src \<and> visible_src \<le> c_z then Inr (visible_src - c_a + 26)
      else if c_0 \<le> visible_src \<and> visible_src \<le> c_9 then Inr (visible_src - c_0 + 52)
      else if visible_src = c_plus then Inr 62
      else if visible_src = c_slash then Inr 63
      else Inl kInvalidParam)"

text \<open>One unit: the four characters, in the order of the source's calls.\<close>

fun GetUnitVisibleChar :: "bytes \<Rightarrow> bytes res" where
  "GetUnitVisibleChar [a] =
     rbind (GetVisibleChar (shr (a AND 0xfc) 2)) (\<lambda>num1.
     rbind (GetVisibleChar (shl (a AND 0x03) 4)) (\<lambda>num2.
     Inr [num1, num2, kEqualChar, kEqualChar]))"
| "GetUnitVisibleChar [a, b] =
     rbind (GetVisibleChar (shr (a AND 0xfc) 2)) (\<lambda>num1.
     rbind (GetVisibleChar (shl (a AND 0x03) 4 OR shr (b AND 0xf0) 4)) (\<lambda>num2.
     rbind (GetVisibleChar (shl (b AND 0x0f) 2)) (\<lambda>num3.
     Inr [num1, num2, num3, kEqualChar])))"
| "GetUnitVisibleChar [a, b, c] =
     rbind (GetVisibleChar (shr (a AND 0xfc) 2)) (\<lambda>num1.
     rbind (GetVisibleChar (shl (a AND 0x03) 4 OR shr (b AND 0xf0) 4)) (\<lambda>num2.
     rbind (GetVisibleChar (shl (b AND 0x0f) 2 OR shr (c AND 0xc0) 6)) (\<lambda>num3.
     rbind (GetVisibleChar (c AND 0x3f)) (\<lambda>num4.
     Inr [num1, num2, num3, num4]))))"
| "GetUnitVisibleChar _ = Inl kInvalidParam"

fun GetUnitInvisibleChar :: "bytes \<Rightarrow> bytes res" where
  "GetUnitInvisibleChar [v1, v2, v3, v4] =
     (if v3 = kEqualChar \<and> v4 = kEqualChar then
        rbind (GetInvisibleChar v1) (\<lambda>t1.
        rbind (GetInvisibleChar v2) (\<lambda>t2.
        Inr [shl (t1 AND 0x3f) 2 OR shr (t2 AND 0x3f) 4]))
      else if v4 = kEqualChar then
        rbind (GetInvisibleChar v1) (\<lambda>t1.
        rbind (GetInvisibleChar v2) (\<lambda>t2.
        rbind (GetInvisibleChar v3) (\<lambda>t3.
        Inr [shl (t1 AND 0x3f) 2 OR shr (t2 AND 0x3f) 4,
             shl (t2 AND 0x3f) 4 OR shr (t3 AND 0x3f) 2])))
      else
        rbind (GetInvisibleChar v1) (\<lambda>t1.
        rbind (GetInvisibleChar v2) (\<lambda>t2.
        rbind (GetInvisibleChar v3) (\<lambda>t3.
        rbind (GetInvisibleChar v4) (\<lambda>t4.
        Inr [shl (t1 AND 0x3f) 2 OR shr (t2 AND 0x3f) 4,
             shl (t2 AND 0x3f) 4 OR shr (t3 AND 0x3f) 2,
             shl (t3 AND 0x3f) 6 OR (t4 AND 0x3f)])))))"
| "GetUnitInvisibleChar _ = Inl kInvalidParam"

definition Base64Encode :: "bytes \<Rightarrow> bytes res" where
  "Base64Encode src = rconcat GetUnitVisibleChar (chunks 3 src)"

definition Base64Decode :: "bytes \<Rightarrow> bytes res" where
  "Base64Decode src =
     (if length src mod 4 \<noteq> 0 then Inl kInvalidParam else rconcat GetUnitInvisibleChar (chunks 4 src))"

interpretation table64: char_table 6 GetVisibleChar GetInvisibleChar
proof
  fix num :: byte assume "unat num < 2 ^ 6"
  moreover have "\<forall>k \<in> set [0..<2 ^ 6]. \<exists>c. GetVisibleChar (word_of_nat k) = Inr c \<and>
      GetInvisibleChar c = Inr (word_of_nat k) \<and> c \<noteq> kEqualChar"
    by (simp add: upt_rec GetVisibleChar_def GetInvisibleChar_def word_le_nat_alt)
  ultimately show "\<exists>c. GetVisibleChar num = Inr c \<and> GetInvisibleChar c = Inr num \<and> c \<noteq> kEqualChar"
    by (rule word_less_cases)
qed (simp add: GetVisibleChar_def word_le_nat_alt)

lemma unit64_ok:
  assumes "u \<noteq> []" "length u \<le> 3"
  shows "\<exists>v. GetUnitVisibleChar u = Inr v \<and> length v = 4 \<and> GetUnitInvisibleChar v = Inr u"
proof -
  have bits: "\<forall>n \<in> set [6..<8]. \<not> bit (shr (a AND 0xfc) 2) n"
    "\<forall>n \<in> set [6..<8]. \<not> bit (shl (a AND 0x03) 4) n"
    "\<forall>n \<in> set [6..<8]. \<not> bit (shl (a AND 0x03) 4 OR shr (b AND 0xf0) 4) n"
    "\<forall>n \<in> set [6..<8]. \<not> bit (shl (b AND 0x0f) 2) n"
    "\<forall>n \<in> set [6..<8]. \<not> bit (shl (b AND 0x0f) 2 OR shr (c AND 0xc0) 6) n"
    "\<forall>n \<in> set [6..<8]. \<not> bit (c AND 0x3f) n" for a b c :: byte
    by (simp_all add: upt_rec bit_simps)
  note tab = bits [THEN table64.table_bits]
  have dec: 
    "shl (shr (a AND 0xfc) 2 AND 0x3f) 2 OR shr (shl (a AND 0x03) 4 AND 0x3f) 4 = a"
    "shl (shr (a AND 0xfc) 2 AND 0x3f) 2 OR shr ((shl (a AND 0x03) 4 OR shr (b AND 0xf0) 4) AND 0x3f) 4 = a"
    "shl ((shl (a AND 0x03) 4 OR shr (b AND 0xf0) 4) AND 0x3f) 4 OR shr (shl (b AND 0x0f) 2 AND 0x3f) 2 = b"
    "shl ((shl (a AND 0x03) 4 OR shr (b AND 0xf0) 4) AND 0x3f) 4 OR shr ((shl (b AND 0x0f) 2 OR shr (c AND 0xc0) 6) AND 0x3f) 2 = b"
    "shl ((shl (b AND 0x0f) 2 OR shr (c AND 0xc0) 6) AND 0x3f) 6 OR ((c AND 0x3f) AND 0x3f) = c" for a b c :: byte
    by (rule byte_eqI, (simp add: upt_rec bit_simps; simp add: numeral_eq_Suc))+
  consider a where "u = [a]" | a b where "u = [a, b]" | a b c where "u = [a, b, c]"
    using assms by (cases u rule: GetUnitVisibleChar.cases) auto
  then show ?thesis
  proof cases
    case (1 a)
    with tab(1,2) [of a] dec(1) [of a] show ?thesis by fastforce
  next
    case (2 a b)
    with tab(1) [of a] tab(3) [of a b] tab(4) [of b] dec(2,3) [of a b] show ?thesis by fastforce
  next
    case (3 a b c)
    with tab(1) [of a] tab(3) [of a b] tab(5) [of b c] tab(6) [of c] dec(2) [of a b] dec(4) [of a b c] dec(5) [of b c]
    show ?thesis by fastforce
  qed
qed


section \<open>Base 32\<close>

fun Base32GetUnitVisibleChar :: "(byte \<Rightarrow> byte res) \<Rightarrow> bytes \<Rightarrow> bytes res" where
  "Base32GetUnitVisibleChar to_visible_char [a] =
     rbind (rmap to_visible_char
       [shr (a AND 0xf8) 3,
        shl (a AND 0x07) 2])
     (\<lambda>nums. Inr (nums @ replicate 6 kEqualChar))"
| "Base32GetUnitVisibleChar to_visible_char [a, b] =
     rbind (rmap to_visible_char
       [shr (a AND 0xf8) 3,
        shl (a AND 0x07) 2 OR shr (b AND 0xc0) 6,
        shr (b AND 0x3e) 1,
        shl (b AND 0x01) 4])
     (\<lambda>nums. Inr (nums @ replicate 4 kEqualChar))"
| "Base32GetUnitVisibleChar to_visible_char [a, b, c] =
     rbind (rmap to_visible_char
       [shr (a AND 0xf8) 3,
        shl (a AND 0x07) 2 OR shr (b AND 0xc0) 6,
        shr (b AND 0x3e) 1,
        shl (b AND 0x01) 4 OR shr (c AND 0xf0) 4,
        shl (c AND 0x0f) 1])
     (\<lambda>nums. Inr (nums @ replicate 3 kEqualChar))"
| "Base32GetUnitVisibleChar to_visible_char [a, b, c, d] =
     rbind (rmap to_visible_char
       [shr (a AND 0xf8) 3,
        shl (a AND 0x07) 2 OR shr (b AND 0xc0) 6,
        shr (b AND 0x3e) 1,
        shl (b AND 0x01) 4 OR shr (c AND 0xf0) 4,
        shl (c AND 0x0f) 1 OR shr (d AND 0x80) 7,
        shr (d AND 0x7c) 2,
        shl (d AND 0x03) 3])
     (\<lambda>nums. Inr (nums @ replicate 1 kEqualChar))"
| "Base32GetUnitVisibleChar to_visible_char [a, b, c, d, e] =
     rmap to_visible_char
       [shr (a AND 0xf8) 3,
        shl (a AND 0x07) 2 OR shr (b AND 0xc0) 6,
        shr (b AND 0x3e) 1,
        shl (b AND 0x01) 4 OR shr (c AND 0xf0) 4,
        shl (c AND 0x0f) 1 OR shr (d AND 0x80) 7,
        shr (d AND 0x7c) 2,
        shl (d AND 0x03) 3 OR shr (e AND 0xe0) 5,
        e AND 0x1f]"
| "Base32GetUnitVisibleChar to_visible_char _ = Inl kInvalidParam"

text \<open>The bytes that the decoder assembles from the five-bit numbers, one equation per branch.\<close>

fun num32 :: "bytes \<Rightarrow> bytes" where
  "num32 [t1, t2] =
     [shl (t1 AND 0x1f) 3 OR shr (t2 AND 0x1f) 2]"
| "num32 [t1, t2, t3, t4] =
     [shl (t1 AND 0x1f) 3 OR shr (t2 AND 0x1f) 2,
      shl (t2 AND 0x1f) 6 OR shl (t3 AND 0x1f) 1 OR shr (t4 AND 0x1f) 4]"
| "num32 [t1, t2, t3, t4, t5] =
     [shl (t1 AND 0x1f) 3 OR shr (t2 AND 0x1f) 2,
      shl (t2 AND 0x1f) 6 OR shl (t3 AND 0x1f) 1 OR shr (t4 AND 0x1f) 4,
      shl (t4 AND 0x1f) 4 OR shr (t5 AND 0x1f) 1]"
| "num32 [t1, t2, t3, t4, t5, t6, t7] =
     [shl (t1 AND 0x1f) 3 OR shr (t2 AND 0x1f) 2,
      shl (t2 AND 0x1f) 6 OR shl (t3 AND 0x1f) 1 OR shr (t4 AND 0x1f) 4,
      shl (t4 AND 0x1f) 4 OR shr (t5 AND 0x1f) 1,
      shl (t5 AND 0x1f) 7 OR shl (t6 AND 0x1f) 2 OR shr (t7 AND 0x1f) 3]"
| "num32 [t1, t2, t3, t4, t5, t6, t7, t8] =
     [shl (t1 AND 0x1f) 3 OR shr (t2 AND 0x1f) 2,
      shl (t2 AND 0x1f) 6 OR shl (t3 AND 0x1f) 1 OR shr (t4 AND 0x1f) 4,
      shl (t4 AND 0x1f) 4 OR shr (t5 AND 0x1f) 1,
      shl (t5 AND 0x1f) 7 OR shl (t6 AND 0x1f) 2 OR shr (t7 AND 0x1f) 3,
      shl (t7 AND 0x1f) 5 OR (t8 AND 0x1f)]"
| "num32 _ = []"

fun Base32GetUnitInvisibleChar :: "(byte \<Rightarrow> byte res) \<Rightarrow> bytes \<Rightarrow> bytes res" where
  "Base32GetUnitInvisibleChar to_invisible_char [v1, v2, v3, v4, v5, v6, v7, v8] =
     (if [v3, v4, v5, v6, v7, v8] = replicate 6 kEqualChar then
        rbind (rmap to_invisible_char [v1, v2]) (\<lambda>t. Inr (num32 t))
      else if [v5, v6, v7, v8] = replicate 4 kEqualChar then
        rbind (rmap to_invisible_char [v1, v2, v3, v4]) (\<lambda>t. Inr (num32 t))
      else if [v6, v7, v8] = replicate 3 kEqualChar then
        rbind (rmap to_invisible_char [v1, v2, v3, v4, v5]) (\<lambda>t. Inr (num32 t))
      else if [v8] = [kEqualChar] then
        rbind (rmap to_invisible_char [v1, v2, v3, v4, v5, v6, v7]) (\<lambda>t. Inr (num32 t))
      else
        rbind (rmap to_invisible_char [v1, v2, v3, v4, v5, v6, v7, v8]) (\<lambda>t. Inr (num32 t)))"
| "Base32GetUnitInvisibleChar to_invisible_char _ = Inl kInvalidParam"

definition Base32EncodeInternal :: "(byte \<Rightarrow> byte res) \<Rightarrow> bytes \<Rightarrow> bytes res" where
  "Base32EncodeInternal to_visible_char src = rconcat (Base32GetUnitVisibleChar to_visible_char) (chunks 5 src)"

definition Base32DecodeInternal :: "(byte \<Rightarrow> byte res) \<Rightarrow> bytes \<Rightarrow> bytes res" where
  "Base32DecodeInternal to_invisible_char src =
     (if length src mod 8 \<noteq> 0 then Inl kInvalidParam
      else rconcat (Base32GetUnitInvisibleChar to_invisible_char) (chunks 8 src))"

definition Base32GetVisibleChar :: "byte \<Rightarrow> byte res" where
  "Base32GetVisibleChar invisible_src =
     (if 32 \<le> invisible_src then Inl kInvalidParam
      else if 0 \<le> invisible_src \<and> invisible_src \<le> 25 then Inr (invisible_src + c_A)
      else Inr (invisible_src - 26 + 50))"

definition Base32GetInvisibleChar :: "byte \<Rightarrow> byte res" where
  "Base32GetInvisibleChar visible_src =
     (if c_A \<le> visible_src \<and> visible_src \<le> c_Z then Inr (visible_src - c_A)
      else if 50 \<le> visible_src \<and> visible_src \<le> 55 then Inr (visible_src - 50 + 26)
      else Inl kInvalidParam)"

text \<open>The alphabet of geo-hashes: digits and lower-case letters without a, i, l and o.\<close>

definition Base32ForGeoHashGetVisibleChar :: "byte \<Rightarrow> byte res" where
  "Base32ForGeoHashGetVisibleChar invisible_src =
     (if 32 \<le> invisible_src then Inl kInvalidParam
      else if 0 \<le> invisible_src \<and> invisible_src \<le> 9 then Inr (invisible_src + c_0)
      else if 10 \<le> invisible_src \<and> invisible_src \<le> 16 then Inr (invisible_src - 10 + 98)
      else if 17 \<le> invisible_src \<and> invisible_src \<le> 18 then Inr (invisible_src - 17 + 106)
      else if 19 \<le> invisible_src \<and> invisible_src \<le> 20 then Inr (invisible_src - 19 + 109)
      else Inr (invisible_src - 21 + 112))"

definition Base32ForGeoHashGetInvisibleChar :: "byte \<Rightarrow> byte res" where
  "Base32ForGeoHashGetInvisibleChar visible_src =
     (if c_0 \<le> visible_src \<and> visible_src \<le> c_9 then Inr (visible_src - c_0)
      else if 98 \<le> visible_src \<and> visible_src \<le> 104 then Inr (visible_src - 98 + 10)
      else if 106 \<le> visible_src \<and> visible_src \<le> 107 then Inr (visible_src - 106 + 17)
      else if 109 \<le> visible_src \<and> visible_src \<le> 110 then Inr (visible_src - 109 + 19)
      else if 112 \<le> visible_src \<and> visible_src \<le> 122 then Inr (visible_src - 112 + 21)
      else Inl kInvalidParam)"

definition Base32Encode :: "bytes \<Rightarrow> bytes res" where
  "Base32Encode src = Base32EncodeInternal Base32GetVisibleChar src"

definition Base32Decode :: "bytes \<Rightarrow> bytes res" where
  "Base32Decode src = Base32DecodeInternal Base32GetInvisibleChar src"

definition Base32EncodeForGeoHash :: "bytes \<Rightarrow> bytes res" where
  "Base32EncodeForGeoHash src = Base32EncodeInternal Base32ForGeoHashGetVisibleChar src"

definition Base32DecodeForGeoHash :: "bytes \<Rightarrow> bytes res" where
  "Base32DecodeForGeoHash src = Base32DecodeInternal Base32ForGeoHashGetInvisibleChar src"

interpretation table32: char_table 5 Base32GetVisibleChar Base32GetInvisibleChar
proof
  fix num :: byte assume "unat num < 2 ^ 5"
  moreover have "\<forall>k \<in> set [0..<2 ^ 5]. \<exists>c. Base32GetVisibleChar (word_of_nat k) = Inr c \<and>
      Base32GetInvisibleChar c = Inr (word_of_nat k) \<and> c \<noteq> kEqualChar"
    by (simp add: upt_rec Base32GetVisibleChar_def Base32GetInvisibleChar_def word_le_nat_alt)
  ultimately show "\<exists>c. Base32GetVisibleChar num = Inr c \<and> Base32GetInvisibleChar c = Inr num \<and> c \<noteq> kEqualChar"
    by (rule word_less_cases)
qed (simp add: Base32GetVisibleChar_def word_le_nat_alt)

interpretation tableGeo: char_table 5 Base32ForGeoHashGetVisibleChar Base32ForGeoHashGetInvisibleChar
proof
  fix num :: byte assume "unat num < 2 ^ 5"
  moreover have "\<forall>k \<in> set [0..<2 ^ 5]. \<exists>c. Base32ForGeoHashGetVisibleChar (word_of_nat k) = Inr c \<and>
      Base32ForGeoHashGetInvisibleChar c = Inr (word_of_nat k) \<and> c \<noteq> kEqualChar"
    by (simp add: upt_rec Base32ForGeoHashGetVisibleChar_def Base32ForGeoHashGetInvisibleChar_def word_le_nat_alt)
  ultimately show "\<exists>c. Base32ForGeoHashGetVisibleChar num = Inr c \<and>
      Base32ForGeoHashGetInvisibleChar c = Inr num \<and> c \<noteq> kEqualChar"
    by (rule word_less_cases)
qed (simp add: Base32ForGeoHashGetVisibleChar_def word_le_nat_alt)

text \<open>Every number that the encoder looks up has five bits.\<close>

lemma bits32:
  fixes a b c d e :: byte
  shows
    "\<forall>n \<in> set [5..<8]. \<not> bit (shr (a AND 0xf8) 3) n"
    "\<forall>n \<in> set [5..<8]. \<not> bit (shl (a AND 0x07) 2) n"
    "\<forall>n \<in> set [5..<8]. \<not> bit (shl (a AND 0x07) 2 OR shr (b AND 0xc0) 6) n"
    "\<forall>n \<in> set [5..<8]. \<not> bit (shr (b AND 0x3e) 1) n"
    "\<forall>n \<in> set [5..<8]. \<not> bit (shl (b AND 0x01) 4) n"
    "\<forall>n \<in> set [5..<8]. \<not> bit (shl (b AND 0x01) 4 OR shr (c AND 0xf0) 4) n"
    "\<forall>n \<in> set [5..<8]. \<not> bit (shl (c AND 0x0f) 1) n"
    "\<forall>n \<in> set [5..<8]. \<not> bit (shl (c AND 0x0f) 1 OR shr (d AND 0x80) 7) n"
    "\<forall>n \<in> set [5..<8]. \<not> bit (shr (d AND 0x7c) 2) n"
    "\<forall>n \<in> set [5..<8]. \<not> bit (shl (d AND 0x03) 3) n"
    "\<forall>n \<in> set [5..<8]. \<not> bit (shl (d AND 0x03) 3 OR shr (e AND 0xe0) 5) n"
    "\<forall>n \<in> set [5..<8]. \<not> bit (e AND 0x1f) n"
  by (simp_all add: upt_rec bit_simps)

text \<open>The bytes assembled from the numbers of an encoded unit are the bytes of the unit.\<close>

lemma bit_times_2: "bit (w * 2 :: byte) n \<longleftrightarrow> 0 < n \<and> n < 8 \<and> bit w (n - 1)"
  using bit_double_iff [of w n] by (auto simp: mult.commute)

lemma assembled32:
  fixes a b c d e :: byte
  shows
    "shl ((shr (a AND 0xf8) 3) AND 0x1f) 3 OR shr ((shl (a AND 0x07) 2) AND 0x1f) 2 = a"
    "shl ((shr (a AND 0xf8) 3) AND 0x1f) 3 OR shr ((shl (a AND 0x07) 2 OR shr (b AND 0xc0) 6) AND 0x1f) 2 = a"
    "shl ((shl (a AND 0x07) 2 OR shr (b AND 0xc0) 6) AND 0x1f) 6 OR shl ((shr (b AND 0x3e) 1) AND 0x1f) 1 OR shr ((shl (b AND 0x01) 4) AND 0x1f) 4 = b"
    "shl ((shl (a AND 0x07) 2 OR shr (b AND 0xc0) 6) AND 0x1f) 6 OR shl ((shr (b AND 0x3e) 1) AND 0x1f) 1 OR shr ((shl (b AND 0x01) 4 OR shr (c AND 0xf0) 4) AND 0x1f) 4 = b"
    "shl ((shl (b AND 0x01) 4 OR shr (c AND 0xf0) 4) AND 0x1f) 4 OR shr ((shl (c AND 0x0f) 1) AND 0x1f) 1 = c"
    "shl ((shl (b AND 0x01) 4 OR shr (c AND 0xf0) 4) AND 0x1f) 4 OR shr ((shl (c AND 0x0f) 1 OR shr (d AND 0x80) 7) AND 0x1f) 1 = c"
    "shl ((shl (c AND 0x0f) 1 OR shr (d AND 0x80) 7) AND 0x1f) 7 OR shl ((shr (d AND 0x7c) 2) AND 0x1f) 2 OR shr ((shl (d AND 0x03) 3) AND 0x1f) 3 = d"
    "shl ((shl (c AND 0x0f) 1 OR shr (d AND 0x80) 7) AND 0x1f) 7 OR shl ((shr (d AND 0x7c) 2) AND 0x1f) 2 OR shr ((shl (d AND 0x03) 3 OR shr (e AND 0xe0) 5) AND 0x1f) 3 = d"
    "shl ((shl (d AND 0x03) 3 OR shr (e AND 0xe0) 5) AND 0x1f) 5 OR ((e AND 0x1f) AND 0x1f) = e"
  by (rule byte_eqI, (simp add: upt_rec bit_simps; simp add: numeral_eq_Suc bit_times_2 bit_drop_bit_eq))+

context char_table begin

lemma rmap_table:
  assumes "\<forall>x \<in> set xs. \<forall>n \<in> set [width..<8]. \<not> bit x n"
  shows "\<exists>cs. rmap to_visible_char xs = Inr cs \<and> rmap to_invisible_char cs = Inr xs \<and>
    kEqualChar \<notin> set cs \<and> length cs = length xs"
  using assms
proof (induction xs)
  case (Cons x xs)
  then obtain cs where cs: "rmap to_visible_char xs = Inr cs" "rmap to_invisible_char cs = Inr xs"
    "kEqualChar \<notin> set cs" "length cs = length xs" by auto
  obtain c where "to_visible_char x = Inr c" "to_invisible_char c = Inr x" "c \<noteq> kEqualChar"
    using table_bits [of x] Cons.prems by auto
  with cs show ?case by (intro exI [of _ "c # cs"]) auto
qed simp

lemma unit32_ok:
  assumes "width = 5" "u \<noteq> []" "length u \<le> 5"
  shows "\<exists>v. Base32GetUnitVisibleChar to_visible_char u = Inr v \<and> length v = 8 \<and>
    Base32GetUnitInvisibleChar to_invisible_char v = Inr u"
proof -
  have "length u = 1 \<or> length u = 2 \<or> length u = 3 \<or> length u = 4 \<or> length u = 5"
    using assms(2,3) by (cases "length u") auto
  then consider a where "u = [a]" | a b where "u = [a, b]" | a b c where "u = [a, b, c]"
    | a b c d where "u = [a, b, c, d]" | a b c d e where "u = [a, b, c, d, e]"
    by (auto simp: length_Suc_conv numeral_eq_Suc)
  then show ?thesis
  proof cases
    case (1 a)
    let ?xs = "[shr (a AND 0xf8) 3, shl (a AND 0x07) 2]"
    have "\<forall>x \<in> set ?xs. \<forall>n \<in> set [5..<8]. \<not> bit x n"
      by (simp only: list.set ball_simps simp_thms) (intro conjI bits32)
    from rmap_table [unfolded assms(1), OF this] obtain c1 c2 where
      t: "rmap to_visible_char ?xs = Inr [c1, c2]" "rmap to_invisible_char [c1, c2] = Inr ?xs"
        "kEqualChar \<notin> {c1, c2}"
      by (auto simp: length_Suc_conv)
    have "num32 ?xs = [a]" by (simp only: num32.simps assembled32)
    with t(2,3) have "Base32GetUnitInvisibleChar to_invisible_char ([c1, c2] @ replicate 6 kEqualChar) = Inr u"
      unfolding 1 by (simp add: numeral_eq_Suc del: rmap.simps num32.simps)
    with t(1) show ?thesis unfolding 1 Base32GetUnitVisibleChar.simps
      by (intro exI [of _ "[c1, c2] @ replicate 6 kEqualChar"]) simp
  next
    case (2 a b)
    let ?xs = "[shr (a AND 0xf8) 3, shl (a AND 0x07) 2 OR shr (b AND 0xc0) 6, shr (b AND 0x3e) 1, shl (b AND 0x01) 4]"
    have "\<forall>x \<in> set ?xs. \<forall>n \<in> set [5..<8]. \<not> bit x n"
      by (simp only: list.set ball_simps simp_thms) (intro conjI bits32)
    from rmap_table [unfolded assms(1), OF this] obtain c1 c2 c3 c4 where
      t: "rmap to_visible_char ?xs = Inr [c1, c2, c3, c4]" "rmap to_invisible_char [c1, c2, c3, c4] = Inr ?xs"
        "kEqualChar \<notin> {c1, c2, c3, c4}"
      by (auto simp: length_Suc_conv)
    have "num32 ?xs = [a, b]" by (simp only: num32.simps assembled32)
    with t(2,3) have "Base32GetUnitInvisibleChar to_invisible_char ([c1, c2, c3, c4] @ replicate 4 kEqualChar) = Inr u"
      unfolding 2 by (simp add: numeral_eq_Suc del: rmap.simps num32.simps)
    with t(1) show ?thesis unfolding 2 Base32GetUnitVisibleChar.simps
      by (intro exI [of _ "[c1, c2, c3, c4] @ replicate 4 kEqualChar"]) simp
  next
    case (3 a b c)
    let ?xs = "[shr (a AND 0xf8) 3, shl (a AND 0x07) 2 OR shr (b AND 0xc0) 6, shr (b AND 0x3e) 1, shl (b AND 0x01) 4 OR shr (c AND 0xf0) 4, shl (c AND 0x0f) 1]"
    have "\<forall>x \<in> set ?xs. \<forall>n \<in> set [5..<8]. \<not> bit x n"
      by (simp only: list.set ball_simps simp_thms) (intro conjI bits32)
    from rmap_table [unfolded assms(1), OF this] obtain c1 c2 c3 c4 c5 where
      t: "rmap to_visible_char ?xs = Inr [c1, c2, c3, c4, c5]" "rmap to_invisible_char [c1, c2, c3, c4, c5] = Inr ?xs"
        "kEqualChar \<notin> {c1, c2, c3, c4, c5}"
      by (auto simp: length_Suc_conv)
    have "num32 ?xs = [a, b, c]" by (simp only: num32.simps assembled32)
    with t(2,3) have "Base32GetUnitInvisibleChar to_invisible_char ([c1, c2, c3, c4, c5] @ replicate 3 kEqualChar) = Inr u"
      unfolding 3 by (simp add: numeral_eq_Suc del: rmap.simps num32.simps)
    with t(1) show ?thesis unfolding 3 Base32GetUnitVisibleChar.simps
      by (intro exI [of _ "[c1, c2, c3, c4, c5] @ replicate 3 kEqualChar"]) simp
  next
    case (4 a b c d)
    let ?xs = "[shr (a AND 0xf8) 3, shl (a AND 0x07) 2 OR shr (b AND 0xc0) 6, shr (b AND 0x3e) 1, shl (b AND 0x01) 4 OR shr (c AND 0xf0) 4, shl (c AND 0x0f) 1 OR shr (d AND 0x80) 7, shr (d AND 0x7c) 2, shl (d AND 0x03) 3]"
    have "\<forall>x \<in> set ?xs. \<forall>n \<in> set [5..<8]. \<not> bit x n"
      by (simp only: list.set ball_simps simp_thms) (intro conjI bits32)
    from rmap_table [unfolded assms(1), OF this] obtain c1 c2 c3 c4 c5 c6 c7 where
      t: "rmap to_visible_char ?xs = Inr [c1, c2, c3, c4, c5, c6, c7]" "rmap to_invisible_char [c1, c2, c3, c4, c5, c6, c7] = Inr ?xs"
        "kEqualChar \<notin> {c1, c2, c3, c4, c5, c6, c7}"
      by (auto simp: length_Suc_conv)
    have "num32 ?xs = [a, b, c, d]" by (simp only: num32.simps assembled32)
    with t(2,3) have "Base32GetUnitInvisibleChar to_invisible_char ([c1, c2, c3, c4, c5, c6, c7] @ replicate 1 kEqualChar) = Inr u"
      unfolding 4 by (simp add: numeral_eq_Suc del: rmap.simps num32.simps)
    with t(1) show ?thesis unfolding 4 Base32GetUnitVisibleChar.simps
      by (intro exI [of _ "[c1, c2, c3, c4, c5, c6, c7] @ replicate 1 kEqualChar"]) simp
  next
    case (5 a b c d e)
    let ?xs = "[shr (a AND 0xf8) 3, shl (a AND 0x07) 2 OR shr (b AND 0xc0) 6, shr (b AND 0x3e) 1, shl (b AND 0x01) 4 OR shr (c AND 0xf0) 4, shl (c AND 0x0f) 1 OR shr (d AND 0x80) 7, shr (d AND 0x7c) 2, shl (d AND 0x03) 3 OR shr (e AND 0xe0) 5, e AND 0x1f]"
    have "\<forall>x \<in> set ?xs. \<forall>n \<in> set [5..<8]. \<not> bit x n"
      by (simp only: list.set ball_simps simp_thms) (intro conjI bits32)
    from rmap_table [unfolded assms(1), OF this] obtain c1 c2 c3 c4 c5 c6 c7 c8 where
      t: "rmap to_visible_char ?xs = Inr [c1, c2, c3, c4, c5, c6, c7, c8]" "rmap to_invisible_char [c1, c2, c3, c4, c5, c6, c7, c8] = Inr ?xs"
        "kEqualChar \<notin> {c1, c2, c3, c4, c5, c6, c7, c8}"
      by (auto simp: length_Suc_conv)
    have "num32 ?xs = [a, b, c, d, e]" by (simp only: num32.simps assembled32)
    with t(2,3) have "Base32GetUnitInvisibleChar to_invisible_char ([c1, c2, c3, c4, c5, c6, c7, c8] @ replicate 0 kEqualChar) = Inr u"
      unfolding 5 by (simp add: numeral_eq_Suc del: rmap.simps num32.simps)
    with t(1) show ?thesis unfolding 5 Base32GetUnitVisibleChar.simps
      by (intro exI [of _ "[c1, c2, c3, c4, c5, c6, c7, c8] @ replicate 0 kEqualChar"]) simp
  qed
qed

end

interpretation unit64: block_codec 3 4 GetUnitVisibleChar GetUnitInvisibleChar
  by unfold_locales (simp_all add: unit64_ok)

interpretation unit32: block_codec 5 8 "Base32GetUnitVisibleChar Base32GetVisibleChar"
    "Base32GetUnitInvisibleChar Base32GetInvisibleChar"
  by unfold_locales (simp_all add: table32.unit32_ok)

interpretation unitGeo: block_codec 5 8 "Base32GetUnitVisibleChar Base32ForGeoHashGetVisibleChar"
    "Base32GetUnitInvisibleChar Base32ForGeoHashGetInvisibleChar"
  by unfold_locales (simp_all add: tableGeo.unit32_ok)

text \<open>The library's functions are the lifted encoders.\<close>

lemma base64_lifted: "Base64Encode = unit64.encode" "Base64Decode = unit64.decode"
  by (simp_all add: fun_eq_iff Base64Encode_def Base64Decode_def unit64.encode_def unit64.decode_def)

lemma base32_lifted: "Base32Encode = unit32.encode" "Base32Decode = unit32.decode"
  "Base32EncodeForGeoHash = unitGeo.encode" "Base32DecodeForGeoHash = unitGeo.decode"
  by (simp_all add: fun_eq_iff Base32Encode_def Base32Decode_def Base32EncodeForGeoHash_def
      Base32DecodeForGeoHash_def Base32EncodeInternal_def Base32DecodeInternal_def
      unit32.encode_def unit32.decode_def unitGeo.encode_def unitGeo.decode_def)

section \<open>Properties\<close>

text \<open>C10: base 64 encoding never fails, gives four characters for every three bytes begun, and
  decoding gives the bytes back.\<close>
theorem Base64_roundtrip:
  "\<exists>dst. Base64Encode src = Inr dst \<and> Base64Decode dst = Inr src \<and> length dst = 4 * ((length src + 2) div 3)"
  using unit64.encode_units [of src] unit64.dec_enc [of src] by (auto simp: base64_lifted)

text \<open>C11: base 32 encoding, with the standard and with the geo-hash alphabet, never fails, gives
  eight characters for every five bytes begun, and decoding gives the bytes back.\<close>
theorem Base32_roundtrip:
  "(\<exists>dst. Base32Encode src = Inr dst \<and> Base32Decode dst = Inr src \<and> length dst = 8 * ((length src + 4) div 5)) \<and>
   (\<exists>dst. Base32EncodeForGeoHash src = Inr dst \<and> Base32DecodeForGeoHash dst = Inr src \<and>
      length dst = 8 * ((length src + 4) div 5))"
  using unit32.encode_units [of src] unit32.dec_enc [of src]
    unitGeo.encode_units [of src] unitGeo.dec_enc [of src] by (auto simp: base32_lifted)

end
