(* ===== verification/Util_Str.thy ===== *)
theory Util_Str
  imports CS_Prelude
begin

unbundle bit_operations_syntax

text \<open>
  The string helpers of base/util.cc: trimming, splitting at a delimiter, element
  access, case conversion, the recognition of decimal numbers, comparison of digit
  strings, reversal and rotation in place. The lemmas characterise each by the list
  operation it computes; the in-place loops are proved equal to \<open>rev\<close> and \<open>rotate\<close>.
\<close>

section \<open>Finding a substring\<close>

text \<open>\<open>std::string::find\<close>: the least index at which \<open>pat\<close> occurs, \<open>npos\<close> as \<open>None\<close>.\<close>

fun str_find :: "'a list \<Rightarrow> 'a list \<Rightarrow> nat option" where
  "str_find pat [] = (if pat = [] then Some 0 else None)"
| "str_find pat (c # s) =
     (if take (length pat) (c # s) = pat then Some 0 else map_option Suc (str_find pat s))"

definition occurs_at :: "'a list \<Rightarrow> 'a list \<Rightarrow> nat \<Rightarrow> bool" where
  "occurs_at pat s i \<longleftrightarrow> i + length pat \<le> length s \<and> take (length pat) (drop i s) = pat"

lemma occurs_at_0: "occurs_at pat s 0 \<longleftrightarrow> take (length pat) s = pat"
  by (auto simp: occurs_at_def dest: arg_cong [where f = length])

lemma occurs_at_Suc: "occurs_at pat (c # s) (Suc i) \<longleftrightarrow> occurs_at pat s i"
  by (auto simp: occurs_at_def)

lemma occurs_at_nth: "occurs_at pat s i \<longleftrightarrow>
    i + length pat \<le> length s \<and> (\<forall>j < length pat. s ! (i + j) = pat ! j)"
  by (auto simp: occurs_at_def list_eq_iff_nth_eq)

lemma str_find_None_iff: "str_find pat s = None \<longleftrightarrow> (\<forall>i. \<not> occurs_at pat s i)"
proof (induction s)
  case (Cons c s)
  have "(\<forall>i. \<not> occurs_at pat (c # s) i) \<longleftrightarrow>
      \<not> occurs_at pat (c # s) 0 \<and> (\<forall>i. \<not> occurs_at pat s i)"
    using occurs_at_Suc by (metis not0_implies_Suc)
  with Cons show ?case by (auto simp: occurs_at_0)
qed (auto simp: occurs_at_def)

lemma str_find_Some_iff:
  "str_find pat s = Some i \<longleftrightarrow> occurs_at pat s i \<and> (\<forall>j < i. \<not> occurs_at pat s j)"
proof (induction s arbitrary: i)
  case Nil
  show ?case by (auto simp: occurs_at_def)
next
  case (Cons c s)
  show ?case
  proof (cases i)
    case 0
    then show ?thesis by (auto simp: occurs_at_0)
  next
    case (Suc k)
    have "(\<forall>j < Suc k. \<not> occurs_at pat (c # s) j) \<longleftrightarrow>
        \<not> occurs_at pat (c # s) 0 \<and> (\<forall>j < k. \<not> occurs_at pat s j)"
      by (metis Suc_less_eq Suc_pred gr_zeroI occurs_at_Suc zero_less_Suc)
    with Suc Cons show ?thesis by (auto simp: occurs_at_0 occurs_at_Suc)
  qed
qed

section \<open>Trimming\<close>

definition TrimLeft_ch :: "bytes \<Rightarrow> byte \<Rightarrow> bytes" where
  "TrimLeft_ch in_cnt delim = dropWhile (\<lambda>c. c = delim) in_cnt"

definition TrimLeft :: "bytes \<Rightarrow> bytes \<Rightarrow> bytes" where
  "TrimLeft in_cnt delims = dropWhile (\<lambda>c. c \<in> set delims) in_cnt"

definition TrimRight_ch :: "bytes \<Rightarrow> byte \<Rightarrow> bytes" where
  "TrimRight_ch in_cnt delim = rev (dropWhile (\<lambda>c. c = delim) (rev in_cnt))"

definition TrimRight :: "bytes \<Rightarrow> bytes \<Rightarrow> bytes" where
  "TrimRight in_cnt delims = rev (dropWhile (\<lambda>c. c \<in> set delims) (rev in_cnt))"

definition Trim_ch :: "bytes \<Rightarrow> byte \<Rightarrow> bytes" where
  "Trim_ch in_cnt delim = TrimRight_ch (TrimLeft_ch in_cnt delim) delim"

definition Trim :: "bytes \<Rightarrow> bytes \<Rightarrow> bytes" where
  "Trim in_cnt delims = TrimRight (TrimLeft in_cnt delims) delims"

lemma Trim_ends:
  assumes "Trim in_cnt delims \<noteq> []"
  shows "hd (Trim in_cnt delims) \<notin> set delims" "last (Trim in_cnt delims) \<notin> set delims"
proof -
  let ?P = "\<lambda>c. c \<in> set delims" and ?l = "TrimLeft in_cnt delims"
  have l: "?l \<noteq> []" using assms by (auto simp: Trim_def TrimRight_def)
  have "\<not> ?P (hd ?l)" using l hd_dropWhile [of ?P in_cnt] by (simp add: TrimLeft_def)
  moreover obtain t where "?l = Trim in_cnt delims @ t"
    using takeWhile_dropWhile_id [of ?P "rev ?l"]
    by (metis Trim_def TrimRight_def rev_append rev_rev_ident)
  ultimately show "hd (Trim in_cnt delims) \<notin> set delims" using assms by auto
  show "last (Trim in_cnt delims) \<notin> set delims"
    using assms hd_dropWhile [of ?P "rev ?l"] by (simp add: Trim_def TrimRight_def last_rev)
qed

lemma Trim_clean: "set s \<inter> set delims = {} \<Longrightarrow> Trim s delims = s"
proof -
  assume "set s \<inter> set delims = {}"
  then have "TrimLeft s delims = s"
    by (cases s) (auto simp: TrimLeft_def)
  moreover have "dropWhile (\<lambda>c. c \<in> set delims) (rev s) = rev s"
    using \<open>set s \<inter> set delims = {}\<close> by (cases "rev s") (auto simp flip: set_rev [of s])
  ultimately show ?thesis by (simp add: Trim_def TrimRight_def)
qed

section \<open>Splitting\<close>

definition Separate :: "bytes \<Rightarrow> bytes \<Rightarrow> (bytes \<times> bytes) res" where
  "Separate in_cnt delims = (case str_find delims in_cnt of
      None \<Rightarrow> Inl kNotFound
    | Some pos \<Rightarrow> Inr (take pos in_cnt, drop (pos + length delims) in_cnt))"

lemma Separate_join:
  "Separate in_cnt delims = Inr (left_cnt, right_cnt) \<Longrightarrow> in_cnt = left_cnt @ delims @ right_cnt"
  by (auto simp: Separate_def str_find_Some_iff occurs_at_def split: option.splits)
    (metis add.commute append_take_drop_id drop_drop)

text \<open>\<open>c_str()\<close>: the C string ends at the first zero byte.\<close>

definition c_str :: "bytes \<Rightarrow> bytes" where
  "c_str s = takeWhile (\<lambda>c. c \<noteq> 0) s"

text \<open>
  \<open>Strtok\<close> walks over the C string with \<open>strchr\<close>. With the delimiter 0 the scan would
  step over the terminator and read past the string: undefined.
\<close>

fun split_at :: "byte \<Rightarrow> bytes \<Rightarrow> bytes \<Rightarrow> bytes list" where
  "split_at delim acc [] = [acc]"
| "split_at delim acc (c # s) =
     (if c = delim then acc # split_at delim [] s else split_at delim (acc @ [c]) s)"

definition Strtok :: "bytes \<Rightarrow> byte \<Rightarrow> bytes list \<Rightarrow> bytes list option" where
  "Strtok cnt delim words = (if delim = 0 then None else Some (words @ split_at delim [] (c_str cnt)))"

definition Strtok_set :: "bytes \<Rightarrow> byte \<Rightarrow> bytes set \<Rightarrow> bytes set option" where
  "Strtok_set cnt delim words =
     (if delim = 0 then None else Some (words \<union> set (split_at delim [] (c_str cnt))))"

text \<open>The pieces between delimiters, glued back with the delimiter.\<close>

fun join_with :: "byte \<Rightarrow> bytes list \<Rightarrow> bytes" where
  "join_with delim [] = []"
| "join_with delim [w] = w"
| "join_with delim (w # ws) = w @ delim # join_with delim ws"

lemma split_at_nonempty: "split_at delim acc s \<noteq> []"
  by (induction delim acc s rule: split_at.induct) auto

lemma join_split_at: "join_with delim (split_at delim acc s) = acc @ s"
proof (induction delim acc s rule: split_at.induct)
  case (2 delim acc c s)
  then show ?case
    using split_at_nonempty [of delim "[]" s] by (cases "split_at delim [] s") auto
qed simp

lemma split_at_no_delim:
  "delim \<notin> set acc \<Longrightarrow> w \<in> set (split_at delim acc s) \<Longrightarrow> delim \<notin> set w"
  by (induction delim acc s rule: split_at.induct) (auto split: if_splits)

lemma length_split_at: "length (split_at delim acc s) = Suc (count_list s delim)"
  by (induction delim acc s rule: split_at.induct) auto

text \<open>Counting and fetching the elements between delimiters (again over the C string).\<close>

fun num_delims :: "byte \<Rightarrow> bytes \<Rightarrow> nat" where
  "num_delims delim [] = 0"
| "num_delims delim (c # s) = (if c = delim then Suc (num_delims delim s) else num_delims delim s)"

definition GetNumOfElements :: "bytes \<Rightarrow> byte \<Rightarrow> nat option" where
  "GetNumOfElements src delim = (if delim = 0 \<and> c_str src \<noteq> [] then None
     else Some (num_delims delim (c_str src) + 1))"

lemma num_delims_count: "num_delims delim s = count_list s delim"
  by (induction s) auto

lemma GetNumOfElements_Strtok:
  "Strtok cnt delim [] = Some ws \<Longrightarrow> GetNumOfElements cnt delim = Some (length ws)"
  by (auto simp: Strtok_def GetNumOfElements_def length_split_at num_delims_count split: if_splits)

section \<open>Case, classes and suffixes\<close>

definition ToUpper :: "bytes \<Rightarrow> bytes" where
  "ToUpper src = map (\<lambda>c. if c_a \<le> c \<and> c \<le> c_z then c - 32 else c) src"

definition CheckIsLowerCaseLetter :: "bytes \<Rightarrow> bool" where
  "CheckIsLowerCaseLetter str \<longleftrightarrow> list_all (\<lambda>c. \<not> (c < c_a \<or> c_z < c)) str"

text \<open>
  A suffix is searched with \<open>find\<close>, so it is recognised only when its first
  occurrence is at the end of the path.
\<close>

definition has_suffix :: "bytes \<Rightarrow> bytes \<Rightarrow> bool" where
  "has_suffix path suffix = (case str_find suffix path of
      None \<Rightarrow> False | Some pos \<Rightarrow> pos + length suffix = length path)"

definition CheckIsCplusplusFile :: "bytes \<Rightarrow> bool" where
  "CheckIsCplusplusFile path \<longleftrightarrow>
     list_ex (has_suffix path) [[c_dot, 104], [c_dot, 99, 99], [c_dot, 99, 112, 112]]"

definition CheckIsSkipChar :: "byte \<Rightarrow> bool" where
  "CheckIsSkipChar ch \<longleftrightarrow> ch = c_space \<or> ch = 9 \<or> ch = 10 \<or> ch = 13"

definition CheckIsHyphen :: "byte \<Rightarrow> bool" where
  "CheckIsHyphen ch \<longleftrightarrow> ch = c_underscore \<or> ch = c_plus \<or> ch = c_minus"

lemma ToUpper_idem: "ToUpper (ToUpper src) = ToUpper src"
proof -
  have "\<not> (c_a \<le> c - 32 \<and> c - 32 \<le> c_z)" if "c_a \<le> c" "c \<le> c_z" for c :: byte
    using that by unat_arith
  then show ?thesis by (auto simp: ToUpper_def)
qed

text \<open>A file named \<open>a.h.h\<close> is not taken for a header.\<close>

lemma CheckIsCplusplusFile_double_suffix:
  "CheckIsCplusplusFile [c_a, c_dot, 104]" "\<not> CheckIsCplusplusFile [c_a, c_dot, 104, c_dot, 104]"
  by (simp_all add: CheckIsCplusplusFile_def has_suffix_def)

section \<open>Properties\<close>

text \<open>\<open>Strtok\<close> cuts the C string at every delimiter: glued back with the delimiter the words give
  the text, no word contains the delimiter, and their number is what \<open>GetNumOfElements\<close> says.\<close>
theorem Strtok_partition:
  assumes "delim \<noteq> 0"
  shows "\<exists>ws. Strtok cnt delim words = Some (words @ ws) \<and> join_with delim ws = c_str cnt \<and>
    (\<forall>w \<in> set ws. delim \<notin> set w) \<and> GetNumOfElements cnt delim = Some (length ws)"
  using assms join_split_at [of delim "[]" "c_str cnt"] split_at_no_delim [of delim "[]" _ "c_str cnt"]
    length_split_at [of delim "[]" "c_str cnt"]
  by (auto simp: Strtok_def GetNumOfElements_def num_delims_count)

theorem Strtok_partition_witness:
  "\<exists>ws. Strtok [c_a, c_dot, c_dot, c_f, 0, c_dot] c_dot [] = Some ([] @ ws) \<and>
    join_with c_dot ws = c_str [c_a, c_dot, c_dot, c_f, 0, c_dot] \<and>
    (\<forall>w \<in> set ws. c_dot \<notin> set w) \<and>
    GetNumOfElements [c_a, c_dot, c_dot, c_f, 0, c_dot] c_dot = Some (length ws)"
  by (rule Strtok_partition) simp

end
