(* ===== verification/Coding_Match.thy ===== *)
theory Coding_Match
  imports Util_Str "HOL-Library.Sublist"
begin

text \<open>
  Substring search of base/coding.cc: \<open>BruteForce\<close>, \<open>RK\<close>, \<open>KMP\<close> with its failure table
  \<open>BuildNext\<close>, \<open>BM\<close>, and \<open>GetHighlighting\<close>. The interface \<open>str_search\<close> states what a caller
  may rely on. The loops of \<open>KMP\<close> and \<open>BM\<close> are partial functions: the value \<open>None\<close> is a
  loop that does not return, and \<open>Undefined\<close> an access outside an array.
\<close>

section \<open>The contract of a search\<close>

datatype 'a run = Undefined | Returns 'a

locale str_search =
  fixes search :: "bytes \<Rightarrow> bytes \<Rightarrow> nat res"
  assumes found: "search haystack needle = Inr pos \<Longrightarrow>
      occurs_at needle haystack pos \<and> (\<forall>i < pos. \<not> occurs_at needle haystack i)"
    and not_found: "search haystack needle = Inl e \<Longrightarrow> e = kNotFound \<and> (\<forall>i. \<not> occurs_at needle haystack i)"
begin

lemma search_eq:
  "search haystack needle = (case str_find needle haystack of None \<Rightarrow> Inl kNotFound | Some pos \<Rightarrow> Inr pos)"
proof (cases "search haystack needle")
  case (Inl e)
  with not_found have "e = kNotFound" "str_find needle haystack = None"
    by (auto simp: str_find_None_iff)
  with Inl show ?thesis by simp
next
  case (Inr pos)
  with found have "str_find needle haystack = Some pos" by (simp add: str_find_Some_iff)
  with Inr show ?thesis by simp
qed

end

section \<open>Brute force and RK\<close>

text \<open>The inner loop returns the index at which it stops.\<close>

function BruteForce_inner :: "bytes \<Rightarrow> bytes \<Rightarrow> nat \<Rightarrow> nat \<Rightarrow> nat" where
  "BruteForce_inner haystack needle i j =
     (if j < length needle then
        if haystack ! (i + j) \<noteq> needle ! j then j else BruteForce_inner haystack needle i (Suc j)
      else j)"
  by pat_completeness auto
termination by (relation "measure (\<lambda>(_, n, _, j). length n - j)") auto

declare BruteForce_inner.simps [simp del]

fun first_index :: "(nat \<Rightarrow> bool) \<Rightarrow> nat list \<Rightarrow> nat res" where
  "first_index ok [] = Inl kNotFound"
| "first_index ok (i # is) = (if ok i then Inr i else first_index ok is)"

definition BruteForce :: "bytes \<Rightarrow> bytes \<Rightarrow> nat res" where
  "BruteForce haystack needle =
     (if length haystack < length needle then Inl kNotFound
      else first_index (\<lambda>i. BruteForce_inner haystack needle i 0 = length needle)
        [0..<length haystack - length needle + 1])"

definition RK :: "bytes \<Rightarrow> bytes \<Rightarrow> nat res" where
  "RK haystack needle =
     (if length haystack < length needle then Inl kNotFound
      else let hash = {needle} in
        first_index (\<lambda>i. take (length needle) (drop i haystack) \<in> hash)
          [0..<length haystack - length needle + 1])"

lemma BruteForce_inner_iff:
  "j \<le> length needle \<Longrightarrow> BruteForce_inner haystack needle i j = length needle \<longleftrightarrow>
    (\<forall>k. j \<le> k \<longrightarrow> k < length needle \<longrightarrow> haystack ! (i + k) = needle ! k)"
proof (induction haystack needle i j rule: BruteForce_inner.induct)
  case (1 haystack needle i j)
  consider "j = length needle" | "j < length needle" "haystack ! (i + j) \<noteq> needle ! j"
    | "j < length needle" "haystack ! (i + j) = needle ! j" using 1(2) by linarith
  then show ?case
  proof cases
    case 2
    then have "BruteForce_inner haystack needle i j = j" by (subst BruteForce_inner.simps) simp
    with 2 show ?thesis by auto
  next
    case 3
    with 1(1) have "BruteForce_inner haystack needle i (Suc j) = length needle \<longleftrightarrow>
      (\<forall>k. Suc j \<le> k \<longrightarrow> k < length needle \<longrightarrow> haystack ! (i + k) = needle ! k)" by simp
    moreover have "BruteForce_inner haystack needle i j = BruteForce_inner haystack needle i (Suc j)"
      using 3 by (subst BruteForce_inner.simps) simp
    ultimately show ?thesis using 3(2) by (metis Suc_leI le_neq_implies_less Suc_leD)
  qed (subst BruteForce_inner.simps, auto)+
qed

lemma first_index_upt:
  "(first_index ok [0..<n] = Inr pos \<longrightarrow> pos < n \<and> ok pos \<and> (\<forall>i < pos. \<not> ok i)) \<and>
   (first_index ok [0..<n] = Inl e \<longrightarrow> e = kNotFound \<and> (\<forall>i < n. \<not> ok i))"
proof -
  have "first_index ok xs = (case find ok xs of None \<Rightarrow> Inl kNotFound | Some i \<Rightarrow> Inr i)" for xs
    by (induction xs) auto
  then show ?thesis
    by (auto simp: find_Some_iff find_None_iff split: option.splits)
qed

text \<open>A loop over the positions at which the needle fits meets the contract.\<close>

lemma first_index_search:
  fixes h n :: bytes
  assumes ok: "\<And>i. i + length n \<le> length h \<Longrightarrow> ok i \<longleftrightarrow> occurs_at n h i"
    and r: "r = (if length h < length n then Inl kNotFound else first_index ok [0..<length h - length n + 1])"
  shows "r = Inr pos \<Longrightarrow> occurs_at n h pos \<and> (\<forall>i < pos. \<not> occurs_at n h i)"
    and "r = Inl e \<Longrightarrow> e = kNotFound \<and> (\<forall>i. \<not> occurs_at n h i)"
proof -
  note upt = first_index_upt [of ok "length h - length n + 1"]
  have fits: "i + length n \<le> length h \<longleftrightarrow> i < length h - length n + 1" if "\<not> length h < length n" for i
    using that by linarith
  show "occurs_at n h pos \<and> (\<forall>i < pos. \<not> occurs_at n h i)" if e: "r = Inr pos"
  proof -
    have nl: "\<not> length h < length n" using e r by (auto split: if_splits)
    with e r upt have "pos < length h - length n + 1" "ok pos" "\<forall>i < pos. \<not> ok i" by auto
    with ok fits [OF nl] show ?thesis by (metis less_trans)
  qed
  show "e = kNotFound \<and> (\<forall>i. \<not> occurs_at n h i)" if e: "r = Inl e"
  proof (cases "length h < length n")
    case True
    with e r show ?thesis by (auto simp: occurs_at_def)
  next
    case False
    with e r upt have "e = kNotFound" "\<forall>i < length h - length n + 1. \<not> ok i" by auto
    with ok fits [OF False] show ?thesis by (metis occurs_at_def)
  qed
qed

interpretation bf: str_search BruteForce
proof
  fix h n :: bytes and pos e
  have ok: "BruteForce_inner h n i 0 = length n \<longleftrightarrow> occurs_at n h i" if "i + length n \<le> length h" for i
    using that by (simp add: BruteForce_inner_iff occurs_at_nth)
  note search = first_index_search [OF ok BruteForce_def [of h n]]
  show "BruteForce h n = Inr pos \<Longrightarrow> occurs_at n h pos \<and> (\<forall>i < pos. \<not> occurs_at n h i)" by (rule search(1))
  show "BruteForce h n = Inl e \<Longrightarrow> e = kNotFound \<and> (\<forall>i. \<not> occurs_at n h i)" by (rule search(2))
qed

interpretation rk: str_search RK
proof
  fix h n :: bytes and pos e
  have ok: "take (length n) (drop i h) \<in> {n} \<longleftrightarrow> occurs_at n h i" if "i + length n \<le> length h" for i
    using that by (simp add: occurs_at_def)
  note search = first_index_search [OF ok RK_def [of h n, unfolded Let_def]]
  show "RK h n = Inr pos \<Longrightarrow> occurs_at n h pos \<and> (\<forall>i < pos. \<not> occurs_at n h i)" by (rule search(1))
  show "RK h n = Inl e \<Longrightarrow> e = kNotFound \<and> (\<forall>i. \<not> occurs_at n h i)" by (rule search(2))
qed

section \<open>Highlighting\<close>

text \<open>
  \<open>std::string::append(str, pos, len)\<close> throws when \<open>pos\<close> lies behind the end (\<open>None\<close>);
  \<open>pos\<close> and \<open>len\<close> are unsigned, so a negative length is larger than any string.
\<close>

definition append_sub :: "bytes \<Rightarrow> bytes \<Rightarrow> int \<Rightarrow> int \<Rightarrow> bytes option" where
  "append_sub out str pos len =
     (if pos < 0 \<or> int (length str) < pos then None
      else let rest = drop (nat pos) str in
        Some (out @ (if len < 0 then rest else take (nat len) rest)))"

definition GetHighlighting :: "bytes \<Rightarrow> bytes \<Rightarrow> int \<Rightarrow> bytes \<Rightarrow> bytes \<Rightarrow> bytes \<Rightarrow> bytes res option" where
  "GetHighlighting haystack needle pos pre_tags post_tags hightlight =
     (if int (length haystack) < pos then Some (Inl kInvalidParam)
      else if int (length haystack) < pos + int (length needle) then Some (Inl kInvalidParam)
      else case append_sub hightlight haystack 0 pos of
          None \<Rightarrow> None
        | Some hightlight \<Rightarrow>
            (case append_sub (hightlight @ pre_tags @ needle @ post_tags) haystack (pos + int (length needle))
                (int (length haystack) - (pos + int (length needle))) of
              None \<Rightarrow> None
            | Some hightlight \<Rightarrow> Some (Inr hightlight)))"

text \<open>Highlighting a found occurrence only adds the two tags around it.\<close>

context str_search begin

lemma highlight_found:
  assumes "search haystack needle = Inr pos"
  shows "\<exists>p q. haystack = p @ needle @ q \<and>
    GetHighlighting haystack needle (int pos) pre post [] = Some (Inr (p @ pre @ needle @ post @ q))"
proof -
  from found [OF assms] have occ: "pos + length needle \<le> length haystack"
    "take (length needle) (drop pos haystack) = needle" by (auto simp: occurs_at_def)
  let ?q = "drop (pos + length needle) haystack"
  have "haystack = take pos haystack @ needle @ ?q"
    using occ by (metis append_take_drop_id drop_drop add.commute)
  moreover have "nat (int (length haystack) - (int pos + int (length needle))) = length ?q"
    "nat (int pos + int (length needle)) = pos + length needle" using occ by auto
  ultimately show ?thesis
    using occ by (intro exI [of _ "take pos haystack"] exI [of _ ?q])
      (simp add: GetHighlighting_def append_sub_def Let_def)
qed

end


section \<open>KMP\<close>

text \<open>
  The failure table is built in a deque of a fixed number of cells; a write behind its end
  is \<open>Undefined\<close>. \<open>KMP_cells cells\<close> is the function with a deque of \<open>cells\<close> cells, and \<open>KMP\<close>
  allocates as many as the needle has characters.
\<close>

partial_function (option) BuildNext_loop :: "bytes \<Rightarrow> nat \<Rightarrow> int \<Rightarrow> int list \<Rightarrow> int list run option" where
  "BuildNext_loop needle i j next =
     (if i < length needle then
        if j = - 1 \<or> needle ! i = needle ! nat j then
          if Suc i < length next then BuildNext_loop needle (Suc i) (j + 1) (next[Suc i := j + 1])
          else Some Undefined
        else BuildNext_loop needle i (next ! nat j) next
      else Some (Returns next))"

definition BuildNext :: "bytes \<Rightarrow> int list \<Rightarrow> int list res run option" where
  "BuildNext needle next =
     (if length needle = 0 \<or> length next < length needle then Some (Returns (Inl kInvalidParam))
      else map_option (map_run Inr) (BuildNext_loop needle 0 (- 1) (next[0 := - 1])))"

partial_function (option) KMP_loop :: "bytes \<Rightarrow> bytes \<Rightarrow> int list \<Rightarrow> nat \<Rightarrow> int \<Rightarrow> (nat \<times> int) option" where
  "KMP_loop haystack needle next i j =
     (if i < length haystack \<and> j < int (length needle) then
        if j = - 1 \<or> haystack ! i = needle ! nat j then KMP_loop haystack needle next (Suc i) (j + 1)
        else KMP_loop haystack needle next i (next ! nat j)
      else Some (i, j))"

definition KMP_cells :: "nat \<Rightarrow> bytes \<Rightarrow> bytes \<Rightarrow> nat res run option" where
  "KMP_cells cells haystack needle =
     (if needle = [] then Some (Returns (Inr 0))
      else if length haystack < length needle then Some (Returns (Inl kNotFound))
      else case BuildNext needle (replicate cells 0) of
          None \<Rightarrow> None
        | Some Undefined \<Rightarrow> Some Undefined
        | Some (Returns (Inl e)) \<Rightarrow> Some (Returns (Inl e))
        | Some (Returns (Inr next)) \<Rightarrow>
            (case KMP_loop haystack needle next 0 0 of
              None \<Rightarrow> None
            | Some (i, j) \<Rightarrow> Some (Returns (if j = int (length needle) then Inr (i - length needle) else Inl kNotFound))))"

definition KMP :: "bytes \<Rightarrow> bytes \<Rightarrow> nat res run option" where
  "KMP haystack needle = KMP_cells (length needle) haystack needle"

text \<open>\<open>border p i k\<close>: the first \<open>k\<close> characters of \<open>p\<close> end the first \<open>i\<close> ones.\<close>

definition border :: "bytes \<Rightarrow> bytes \<Rightarrow> nat \<Rightarrow> nat \<Rightarrow> bool" where
  "border p t i k \<longleftrightarrow> k \<le> i \<and> k \<le> length p \<and> suffix (take k p) (take i t)"

text \<open>The value of the failure table: the longest proper border, -1 at index 0.\<close>

definition next_ok :: "bytes \<Rightarrow> nat \<Rightarrow> int \<Rightarrow> bool" where
  "next_ok p i v \<longleftrightarrow> (if i = 0 then v = - 1 else 0 \<le> v \<and> v < int i \<and> border p p i (nat v) \<and>
     (\<forall>k. v < int k \<longrightarrow> k < i \<longrightarrow> \<not> border p p i k))"

lemma border_0: "border p t i 0"
  by (simp add: border_def)

lemma border_Suc:
  assumes "i < length t" "k < length p"
  shows "border p t (Suc i) (Suc k) \<longleftrightarrow> border p t i k \<and> p ! k = t ! i"
  using assms by (auto simp: border_def take_Suc_conv_app_nth)

lemma border_trans: "border p p j k \<Longrightarrow> border p t i j \<Longrightarrow> border p t i k"
  by (auto simp: border_def intro: suffix_order.order_trans)

lemma border_shorter: "border p t i j \<Longrightarrow> border p t i k \<Longrightarrow> k \<le> j \<Longrightarrow> border p p j k"
  by (auto simp: border_def intro: suffix_length_suffix)

text \<open>The state of both loops: \<open>j\<close> is a border of the text read, no longer one can be extended.\<close>

definition kmp_inv :: "bytes \<Rightarrow> bytes \<Rightarrow> nat \<Rightarrow> int \<Rightarrow> bool" where
  "kmp_inv p t i j \<longleftrightarrow> - 1 \<le> j \<and> j \<le> int i \<and> j \<le> int (length p) \<and> (j = - 1 \<or> border p t i (nat j))"

lemma kmp_inv_advance:
  assumes "kmp_inv p t i j" "i < length t" "j < int (length p)" "j = - 1 \<or> t ! i = p ! nat j"
  shows "kmp_inv p t (Suc i) (j + 1)"
proof (cases "j = - 1")
  case True
  then show ?thesis by (simp add: kmp_inv_def border_0)
next
  case False
  with assms have "nat (j + 1) = Suc (nat j)" "border p t i (nat j)" "nat j < length p"
    by (auto simp: kmp_inv_def nat_add_distrib)
  with assms False show ?thesis by (auto simp: kmp_inv_def border_Suc)
qed

lemma kmp_inv_fall:
  assumes "kmp_inv p t i j" "0 \<le> j" "next_ok p (nat j) v"
  shows "kmp_inv p t i v" "v < j" "- 1 \<le> v"
proof -
  show v: "v < j" "- 1 \<le> v" using assms(2,3) by (auto simp: next_ok_def split: if_splits)
  show "kmp_inv p t i v"
  proof (cases "v = - 1")
    case True
    then show ?thesis by (simp add: kmp_inv_def)
  next
    case False
    with assms(2,3) have "border p p (nat j) (nat v)" by (auto simp: next_ok_def split: if_splits)
    with assms(1,2) v show ?thesis by (auto simp: kmp_inv_def intro: border_trans)
  qed
qed

text \<open>Falling back skips no border that the next character extends.\<close>

lemma fall_complete:
  assumes "kmp_inv p t i j" "0 \<le> j" "next_ok p (nat j) v" "j < int (length p)" "i < length t"
    and "t ! i \<noteq> p ! nat j" "border p t (Suc i) (Suc k)" "v < int k" "int k \<le> j"
  shows False
proof -
  have "k < length p" using assms(4,9) by linarith
  with assms(5,7) have b: "border p t i k" "p ! k = t ! i" by (auto simp: border_Suc)
  with assms(6) have "k \<noteq> nat j" by auto
  with assms(9) have k: "k < nat j" by linarith
  have "border p t i (nat j)" using assms(1,2) by (auto simp: kmp_inv_def)
  from border_shorter [OF this b(1)] k have "border p p (nat j) k" by simp
  with assms(3,8) k show False by (auto simp: next_ok_def split: if_splits)
qed

lemma BuildNext_loop_correct:
  assumes "kmp_inv p p i j" "j < int i" "i \<le> length p" "i < length nxt \<and> length p \<le> length nxt"
    and "\<forall>m \<le> i. next_ok p m (nxt ! m)"
    and "i < length p \<longrightarrow> (\<forall>k. j < int k \<longrightarrow> k < i \<longrightarrow> \<not> border p p (Suc i) (Suc k))"
  shows "if length p < length nxt
    then \<exists>nxt'. BuildNext_loop p i j nxt = Some (Returns nxt') \<and> (\<forall>m \<le> length p. next_ok p m (nxt' ! m))
    else BuildNext_loop p i j nxt = Some Undefined"
  using assms
proof (induction "2 * (length p - i) + nat (j + 1)" arbitrary: i j nxt rule: less_induct)
  case less
  show ?case
  proof (cases "i < length p")
    case False
    with less.prems show ?thesis by (subst BuildNext_loop.simps) auto
  next
    case i: True
    consider "j = - 1 \<or> p ! i = p ! nat j" "\<not> Suc i < length nxt"
      | "j = - 1 \<or> p ! i = p ! nat j" "Suc i < length nxt" | "\<not> (j = - 1 \<or> p ! i = p ! nat j)" by blast
    then show ?thesis
    proof cases
      case 1
      then show ?thesis using i less.prems(4) by (subst BuildNext_loop.simps) auto
    next
      case 2
      note True = 2(1)
      let ?nxt = "nxt[Suc i := j + 1]"
      have inv: "kmp_inv p p (Suc i) (j + 1)"
        using less.prems(1,2) i True by (intro kmp_inv_advance) auto
      have max: "\<not> border p p (Suc i) k" if "j + 1 < int k" "k < Suc i" for k
        using that less.prems(6) i by (cases k) (use less.prems(1) in \<open>auto simp: kmp_inv_def\<close>)
      have "next_ok p (Suc i) (j + 1)"
        using inv max less.prems(1,2) by (auto simp: next_ok_def kmp_inv_def)
      with less.prems(4,5) i 2(2) have tab: "\<forall>m \<le> Suc i. next_ok p m (?nxt ! m)"
        by (auto simp: nth_list_update le_Suc_eq)
      have max': "Suc i < length p \<longrightarrow> (\<forall>k. j + 1 < int k \<longrightarrow> k < Suc i \<longrightarrow> \<not> border p p (Suc (Suc i)) (Suc k))"
        using max by (auto simp: border_Suc)
      have "2 * (length p - Suc i) + nat (j + 1 + 1) < 2 * (length p - i) + nat (j + 1)"
        using i less.prems(1) by (auto simp: kmp_inv_def nat_add_distrib)
      moreover have "BuildNext_loop p i j nxt = BuildNext_loop p (Suc i) (j + 1) ?nxt"
        using i 2 by (subst BuildNext_loop.simps) auto
      ultimately show ?thesis
        using less.hyps [OF _ inv _ _ _ tab max'] less.prems(2,4) i 2 by simp
    next
      case 3
      note False = this
      then have j: "0 \<le> j" "p ! i \<noteq> p ! nat j" using less.prems(1) by (auto simp: kmp_inv_def)
      have ok: "next_ok p (nat j) (nxt ! nat j)" using less.prems(2,5) j(1) by auto
      note fall = kmp_inv_fall [OF less.prems(1) j(1) ok]
      have max: "\<not> border p p (Suc i) (Suc k)" if "nxt ! nat j < int k" "k < i" for k
      proof (cases "j < int k")
        case True
        then show ?thesis using less.prems(6) i that(2) by auto
      next
        case False
        then show ?thesis
          using fall_complete [OF less.prems(1) j(1) ok _ i j(2) _ that(1)] less.prems(2) i by auto
      qed
      have "2 * (length p - i) + nat (nxt ! nat j + 1) < 2 * (length p - i) + nat (j + 1)"
        using fall(2,3) j(1) by auto
      moreover have "BuildNext_loop p i j nxt = BuildNext_loop p i (nxt ! nat j) nxt"
        using i j by (subst BuildNext_loop.simps) auto
      ultimately show ?thesis
        using less.hyps [OF _ fall(1) _ _ _ less.prems(5)] fall(2) less.prems(2-4) i max by simp
    qed
  qed
qed

text \<open>An occurrence that has begun is a border of the text read, extended by every next character.\<close>

lemma occurs_border:
  assumes "occurs_at n h s" "s \<le> i" "i \<le> s + length n"
  shows "border n h i (i - s)"
proof -
  have "s + length n \<le> length h" "take (length n) (drop s h) = n" using assms(1) by (auto simp: occurs_at_def)
  then have "take (i - s) n = take (i - s) (drop s h)"
    using assms(3) by (metis take_take min.absorb1 le_diff_conv add.commute)
  then have "take i h = take s h @ take (i - s) n"
    using assms(2) by (metis le_add_diff_inverse take_add)
  then show ?thesis using assms(3) by (auto simp: border_def suffix_def)
qed

lemma KMP_loop_correct:
  assumes "kmp_inv n h i j" "i \<le> length h" "\<forall>m \<le> length n. next_ok n m (nxt ! m)"
    and "\<forall>s. int s + j < int i \<longrightarrow> \<not> occurs_at n h s"
  shows "\<exists>i' j'. KMP_loop h n nxt i j = Some (i', j') \<and> kmp_inv n h i' j' \<and> i' \<le> length h \<and>
    (i' = length h \<or> j' = int (length n)) \<and> (\<forall>s. int s + j' < int i' \<longrightarrow> \<not> occurs_at n h s)"
  using assms
proof (induction "2 * (length h - i) + nat (j + 1)" arbitrary: i j rule: less_induct)
  case less
  show ?case
  proof (cases "i < length h \<and> j < int (length n)")
    case False
    then have "i = length h \<or> j = int (length n)" using less.prems by (auto simp: kmp_inv_def)
    with False less.prems show ?thesis by (subst KMP_loop.simps) auto
  next
    case run: True
    show ?thesis
    proof (cases "j = - 1 \<or> h ! i = n ! nat j")
      case True
      have inv: "kmp_inv n h (Suc i) (j + 1)" using less.prems(1) run True by (intro kmp_inv_advance) auto
      have "2 * (length h - Suc i) + nat (j + 1 + 1) < 2 * (length h - i) + nat (j + 1)"
        using run less.prems(1) by (auto simp: kmp_inv_def nat_add_distrib)
      from less.hyps [OF this inv _ less.prems(3)] less.prems(4) run True show ?thesis
        by (subst KMP_loop.simps) auto
    next
      case False
      then have j: "0 \<le> j" "h ! i \<noteq> n ! nat j" using less.prems(1) by (auto simp: kmp_inv_def)
      have ok: "next_ok n (nat j) (nxt ! nat j)" using run less.prems(3) j(1) by auto
      note fall = kmp_inv_fall [OF less.prems(1) j(1) ok]
      have none: "\<not> occurs_at n h s" if s: "int s + nxt ! nat j < int i" for s
      proof
        assume occ: "occurs_at n h s"
        with less.prems(4) have "int i \<le> int s + j" by force
        with s j run fall(3) have le: "s \<le> i" "Suc i \<le> s + length n" "int (i - s) \<le> j" "nxt ! nat j < int (i - s)" by auto
        have "border n h (Suc i) (Suc (i - s))"
          using occurs_border [OF occ, of "Suc i"] le by (simp add: Suc_diff_le)
        from fall_complete [OF less.prems(1) j(1) ok _ _ j(2) this le(4,3)] run show False by auto
      qed
      have "2 * (length h - i) + nat (nxt ! nat j + 1) < 2 * (length h - i) + nat (j + 1)"
        using fall(2,3) j(1) by auto
      from less.hyps [OF this fall(1) less.prems(2,3)] none run j show ?thesis
        by (subst KMP_loop.simps) auto
    qed
  qed
qed

text \<open>With one more cell than characters the search is right on every input.\<close>

lemma KMP_cells_correct:
  assumes "length needle < cells"
  shows "KMP_cells cells haystack needle = Some (Returns
    (case str_find needle haystack of None \<Rightarrow> Inl kNotFound | Some pos \<Rightarrow> Inr pos))"
proof -
  consider "needle = []" | "length haystack < length needle" | "needle \<noteq> []" "length needle \<le> length haystack"
    by linarith
  then show ?thesis
  proof cases
    case 1
    then have "str_find needle haystack = Some 0" by (cases haystack) auto
    with 1 show ?thesis by (simp add: KMP_cells_def)
  next
    case 2
    then have "str_find needle haystack = None" by (auto simp: str_find_None_iff occurs_at_def)
    with 2 show ?thesis by (auto simp: KMP_cells_def)
  next
    case 3
    let ?nxt = "(replicate cells 0)[0 := - 1] :: int list"
    have "next_ok needle 0 (?nxt ! 0)" using assms by (simp add: next_ok_def)
    with assms 3 obtain nxt where nxt: "BuildNext_loop needle 0 (- 1) ?nxt = Some (Returns nxt)"
      "\<forall>m \<le> length needle. next_ok needle m (nxt ! m)"
      using BuildNext_loop_correct [of needle 0 "- 1" ?nxt] by (auto simp: kmp_inv_def)
    have "\<forall>s. int s + 0 < int 0 \<longrightarrow> \<not> occurs_at needle haystack s" by simp
    from KMP_loop_correct [OF _ _ nxt(2) this, of] obtain i j where
      r: "KMP_loop haystack needle nxt 0 0 = Some (i, j)" "kmp_inv needle haystack i j" "i \<le> length haystack"
        "i = length haystack \<or> j = int (length needle)"
        "\<forall>s. int s + j < int i \<longrightarrow> \<not> occurs_at needle haystack s"
      by (auto simp: kmp_inv_def border_0)
    have "(case str_find needle haystack of None \<Rightarrow> Inl kNotFound | Some pos \<Rightarrow> Inr pos) =
      (if j = int (length needle) then Inr (i - length needle) else Inl kNotFound)"
    proof (cases "j = int (length needle)")
      case True
      with r(2,3) have "length needle \<le> i" "suffix needle (take i haystack)"
        by (auto simp: kmp_inv_def border_def)
      then have "take (length needle) (drop (i - length needle) haystack) = needle"
        using r(3) by (auto simp: suffix_def) (metis append_eq_conv_conj append_take_drop_id diff_diff_cancel
            drop_take length_append length_take min.absorb2 same_append_eq add_diff_cancel_right')
      with True r \<open>length needle \<le> i\<close> have "str_find needle haystack = Some (i - length needle)"
        unfolding str_find_Some_iff by (auto simp: occurs_at_def)
      with True show ?thesis by simp
    next
      case False
      with r(4) have "i = length haystack" by simp
      with r(2,5) False have "\<forall>s. \<not> occurs_at needle haystack s"
        by (auto simp: occurs_at_def kmp_inv_def)
      then have "str_find needle haystack = None" by (simp add: str_find_None_iff)
      with False show ?thesis by simp
    qed
    with 3 nxt(1) r(1) assms show ?thesis by (auto simp: KMP_cells_def BuildNext_def)
  qed
qed

text \<open>With as many cells as characters the table is written past its end.\<close>

lemma KMP_overrun:
  assumes "needle \<noteq> []" "length needle \<le> length haystack"
  shows "KMP haystack needle = Some Undefined"
proof -
  let ?nxt = "(replicate (length needle) 0)[0 := - 1] :: int list"
  have "next_ok needle 0 (?nxt ! 0)" using assms by (simp add: next_ok_def)
  with assms(1) have "BuildNext_loop needle 0 (- 1) ?nxt = Some Undefined"
    using BuildNext_loop_correct [of needle 0 "- 1" ?nxt] by (auto simp: kmp_inv_def)
  with assms show ?thesis by (auto simp: KMP_def KMP_cells_def BuildNext_def)
qed

section \<open>BM\<close>

text \<open>
  The scan of the needle from its last character: \<open>Matched\<close> when the loop runs out,
  \<open>Mismatch j c\<close> when character \<open>j\<close> differs from the character \<open>c\<close> of the text, and \<open>Outside\<close>
  when the text is read at a negative index (which converts to a huge unsigned one).
\<close>

datatype bm_scan = Matched | Mismatch nat byte | Outside

fun BM_scan :: "bytes \<Rightarrow> bytes \<Rightarrow> int \<Rightarrow> nat \<Rightarrow> bm_scan" where
  "BM_scan haystack needle i 0 = Matched"
| "BM_scan haystack needle i (Suc j) =
     (if i + int j < 0 then Outside
      else let c = haystack ! nat (i + int j) in
        if needle ! j \<noteq> c then Mismatch j c else BM_scan haystack needle i j)"

text \<open>The last index of every character of the needle.\<close>

definition bm_map :: "bytes \<Rightarrow> byte \<rightharpoonup> nat" where
  "bm_map needle = fold (\<lambda>k m. m(needle ! k \<mapsto> k)) [0..<length needle] Map.empty"

partial_function (option) BM_loop :: "bytes \<Rightarrow> bytes \<Rightarrow> int \<Rightarrow> int res run option" where
  "BM_loop haystack needle i =
     (if i \<le> int (length haystack) - int (length needle) then
        case BM_scan haystack needle i (length needle) of
          Matched \<Rightarrow> Some (Returns (Inr i))
        | Outside \<Rightarrow> Some Undefined
        | Mismatch j c \<Rightarrow>
            (case bm_map needle c of
              Some k \<Rightarrow> BM_loop haystack needle (i + (int j - int k))
            | None \<Rightarrow> BM_loop haystack needle (i + int j + 1))
      else Some (Returns (Inl kNotFound)))"

definition BM :: "bytes \<Rightarrow> bytes \<Rightarrow> int res run option" where
  "BM haystack needle =
     (if length haystack < length needle then Some (Returns (Inl kNotFound)) else BM_loop haystack needle 0)"

lemma bm_map_upt:
  "fold (\<lambda>k m. m(needle ! k \<mapsto> k)) [0..<n] Map.empty c = Some k \<longleftrightarrow>
    k < n \<and> needle ! k = c \<and> (\<forall>l. k < l \<longrightarrow> l < n \<longrightarrow> needle ! l \<noteq> c)"
  by (induction n) (auto simp: less_Suc_eq)

lemma bm_map_Some: "bm_map needle c = Some k \<longleftrightarrow>
    k < length needle \<and> needle ! k = c \<and> (\<forall>l. k < l \<longrightarrow> l < length needle \<longrightarrow> needle ! l \<noteq> c)"
  by (simp add: bm_map_def bm_map_upt)

lemma BM_scan_correct:
  "(BM_scan h n i j = Matched \<longrightarrow> (\<forall>k < j. 0 \<le> i + int k \<and> h ! nat (i + int k) = n ! k)) \<and>
   (BM_scan h n i j = Mismatch m c \<longrightarrow> m < j \<and> 0 \<le> i + int m \<and> c = h ! nat (i + int m) \<and> n ! m \<noteq> c)"
proof (induction h n i j rule: BM_scan.induct)
  case (2 h n i j)
  show ?case
  proof (cases "0 \<le> i + int j \<and> n ! j = h ! nat (i + int j)")
    case True
    with 2 show ?thesis by (auto simp: less_Suc_eq)
  next
    case False
    then show ?thesis by (auto simp: Let_def)
  qed
qed simp

lemma bm_map_Some_ex: "l < length needle \<Longrightarrow> needle ! l = c \<Longrightarrow> \<exists>k \<ge> l. bm_map needle c = Some k"
proof -
  have "l < n \<Longrightarrow> needle ! l = c \<Longrightarrow> \<exists>k \<ge> l. fold (\<lambda>k m. m(needle ! k \<mapsto> k)) [0..<n] Map.empty c = Some k" for n
  proof (induction n)
    case (Suc n)
    then show ?case by (cases "needle ! n = c") (auto simp: less_Suc_eq)
  qed simp
  then show "l < length needle \<Longrightarrow> needle ! l = c \<Longrightarrow> ?thesis" by (simp add: bm_map_def)
qed

text \<open>A shift skips no occurrence: the next position is the first that aligns the character.\<close>

lemma BM_shift:
  assumes "BM_scan h n i (length n) = Mismatch j c" "int s < i + (case bm_map n c of Some k \<Rightarrow> int j - int k | None \<Rightarrow> int j + 1)"
    and "\<forall>s. int s < i \<longrightarrow> \<not> occurs_at n h s"
  shows "\<not> occurs_at n h s"
proof
  assume occ: "occurs_at n h s"
  from BM_scan_correct [of h n i "length n"] assms(1) have
    m: "j < length n" "0 \<le> i + int j" "c = h ! nat (i + int j)" "n ! j \<noteq> c" by auto
  from occ assms(3) have "i \<le> int s" by force
  define l where "l = nat (i + int j - int s)"
  have "int s \<le> i + int j" using assms(2) by (auto split: option.splits)
  then have l: "l \<le> j" "nat (i + int j) = s + l" using \<open>i \<le> int s\<close> m(2) by (auto simp: l_def)
  then have "n ! l = c" using occ m by (auto simp: occurs_at_nth)
  then obtain k where k: "bm_map n c = Some k" "l \<le> k"
    using l m(1) bm_map_Some_ex [of l n c] by auto
  with assms(2) l show False by (auto simp: l_def)
qed

text \<open>What the loop returns, when it returns, is the first occurrence.\<close>

lemma BM_loop_partial:
  assumes "BM_loop h n i = Some (Returns r)" "\<forall>s. int s < i \<longrightarrow> \<not> occurs_at n h s"
    and "n = [] \<Longrightarrow> 0 \<le> i"
  shows "case r of Inr pos \<Rightarrow> 0 \<le> pos \<and> str_find n h = Some (nat pos)
    | Inl e \<Rightarrow> e = kNotFound \<and> str_find n h = None"
proof -
  let ?P = "\<lambda>h n i y. \<forall>r. y = Returns r \<longrightarrow> (\<forall>s. int s < i \<longrightarrow> \<not> occurs_at n h s) \<longrightarrow> (n = [] \<longrightarrow> 0 \<le> i) \<longrightarrow>
    (case r of Inr pos \<Rightarrow> 0 \<le> pos \<and> str_find n h = Some (nat pos)
      | Inl e \<Rightarrow> e = kNotFound \<and> str_find n h = None)"
  have "?P h n i (Returns r)"
  proof (rule BM_loop.raw_induct [OF _ assms(1), where P = ?P], intro allI impI)
    fix f h n i y r
    assume IH: "\<And>h n i y. f h n i = Some y \<Longrightarrow> ?P h n i y"
      and body: "(if i \<le> int (length h) - int (length n) then
        case BM_scan h n i (length n) of
          Matched \<Rightarrow> Some (Returns (Inr i))
        | Mismatch j c \<Rightarrow>
            (case bm_map n c of None \<Rightarrow> f h n (i + int j + 1) | Some k \<Rightarrow> f h n (i + (int j - int k)))
        | Outside \<Rightarrow> Some Undefined
      else Some (Returns (Inl kNotFound))) = Some y"
      and y: "y = Returns r" and none: "\<forall>s. int s < i \<longrightarrow> \<not> occurs_at n h s" and ne: "n = [] \<longrightarrow> 0 \<le> i"
    show "case r of Inr pos \<Rightarrow> 0 \<le> pos \<and> str_find n h = Some (nat pos)
      | Inl e \<Rightarrow> e = kNotFound \<and> str_find n h = None"
    proof (cases "i \<le> int (length h) - int (length n)")
      case False
      then have "\<forall>s. \<not> occurs_at n h s" using none by (auto simp: occurs_at_def)
      with False body y show ?thesis by (auto simp: str_find_None_iff)
    next
      case fits: True
      show ?thesis
      proof (cases "BM_scan h n i (length n)")
        case Matched
        with BM_scan_correct [of h n i "length n"] have
          m: "\<forall>k < length n. 0 \<le> i + int k \<and> h ! nat (i + int k) = n ! k" by simp
        have "0 \<le> i" using m ne by (cases n) auto
        with m fits have "occurs_at n h (nat i)" by (auto simp: occurs_at_nth nat_add_distrib)
        with \<open>0 \<le> i\<close> none have "str_find n h = Some (nat i)" by (auto simp: str_find_Some_iff)
        with Matched fits body y \<open>0 \<le> i\<close> show ?thesis by auto
      next
        case (Mismatch j c)
        let ?i = "i + (case bm_map n c of Some k \<Rightarrow> int j - int k | None \<Rightarrow> int j + 1)"
        have "f h n ?i = Some y"
          using body fits Mismatch by (simp add: add.assoc split: option.splits)
        moreover have "\<forall>s. int s < ?i \<longrightarrow> \<not> occurs_at n h s"
          using BM_shift [OF Mismatch _ none] by blast
        moreover have "n \<noteq> []" using Mismatch by (cases n) auto
        ultimately show ?thesis using IH y by blast
      next
        case Outside
        with body fits y show ?thesis by auto
      qed
    qed
  qed
  with assms(2,3) show ?thesis by blast
qed

lemma cycle_scans:
  "BM_scan [c_f, c_a, c_a] [c_0, c_a] 0 (Suc (Suc 0)) = Mismatch 0 c_f"
  "BM_scan [c_f, c_a, c_a] [c_0, c_a] 1 (Suc (Suc 0)) = Mismatch 0 c_a"
  "bm_map [c_0, c_a] c_f = None" "bm_map [c_0, c_a] c_a = Some 1"
  by (simp_all add: Let_def bm_map_def upt_rec)

text \<open>A state that leads back to itself: the loop does not return.\<close>

lemma BM_loop_cycle: "BM_loop [c_f, c_a, c_a] [c_0, c_a] 0 = None"
proof (rule ccontr)
  assume "BM_loop [c_f, c_a, c_a] [c_0, c_a] 0 \<noteq> None"
  then obtain y where "BM_loop [c_f, c_a, c_a] [c_0, c_a] 0 = Some y" by auto
  moreover have "\<forall>y. BM_loop h n i = Some y \<longrightarrow> \<not> (h = [c_f, c_a, c_a] \<and> n = [c_0, c_a] \<and> (i = 0 \<or> i = 1))" for h n i
  proof (intro allI impI)
    fix y assume "BM_loop h n i = Some y"
    then show "\<not> (h = [c_f, c_a, c_a] \<and> n = [c_0, c_a] \<and> (i = 0 \<or> i = 1))"
    proof (rule BM_loop.raw_induct [where P = "\<lambda>h n i y. \<not> (h = [c_f, c_a, c_a] \<and> n = [c_0, c_a] \<and> (i = 0 \<or> i = 1))", rotated], goal_cases)
      case (1 f h n i y)
      show ?case
      proof
        assume "h = [c_f, c_a, c_a] \<and> n = [c_0, c_a] \<and> (i = 0 \<or> i = 1)"
        with 1(2) 1(1) [of h n 0] 1(1) [of h n 1] show False
          by (auto simp: cycle_scans)
      qed
    qed
  qed
  ultimately show False by blast
qed

section \<open>Properties\<close>

text \<open>C12: \<open>BruteForce\<close> and \<open>RK\<close> return the first position at which the needle occurs, and
  \<open>kNotFound\<close> exactly when it occurs nowhere; an empty needle is found at 0.\<close>
theorem Search_first_occurrence:
  "BruteForce haystack needle = (case str_find needle haystack of None \<Rightarrow> Inl kNotFound | Some pos \<Rightarrow> Inr pos) \<and>
   RK haystack needle = BruteForce haystack needle"
  by (simp add: bf.search_eq rk.search_eq)

text \<open>C13: \<open>KMP\<close> writes its failure table one cell behind the end for every non-empty needle that is
  not longer than the text; with one cell more in the deque it returns on every input, and
  returns the first occurrence.\<close>
theorem KMP_table:
  "(needle \<noteq> [] \<and> length needle \<le> length haystack \<longrightarrow> KMP haystack needle = Some Undefined) \<and>
   KMP_cells (length needle + 1) haystack needle = Some (Returns
     (case str_find needle haystack of None \<Rightarrow> Inl kNotFound | Some pos \<Rightarrow> Inr pos))"
  using KMP_overrun [of needle haystack] KMP_cells_correct [of needle "length needle + 1" haystack] by simp

theorem KMP_table_witness: "KMP [c_a, c_f] [c_f] = Some Undefined"
  using KMP_table [of "[c_f]" "[c_a, c_f]"] by simp

text \<open>C14: whatever \<open>BM\<close> returns is right, the first occurrence or \<open>kNotFound\<close>; but the bad-character
  shift may be negative, and then the search reads before the text or does not return.\<close>
theorem BM_partial:
  "(BM haystack needle = Some (Returns r) \<longrightarrow>
      r = (case str_find needle haystack of None \<Rightarrow> Inl kNotFound | Some pos \<Rightarrow> Inr (int pos))) \<and>
   BM [c_a, c_a] [c_f, c_a] = Some Undefined \<and> BM [c_f, c_a, c_a] [c_0, c_a] = None"
proof (intro conjI impI)
  assume r: "BM haystack needle = Some (Returns r)"
  show "r = (case str_find needle haystack of None \<Rightarrow> Inl kNotFound | Some pos \<Rightarrow> Inr (int pos))"
  proof (cases "length haystack < length needle")
    case True
    then have "str_find needle haystack = None" by (auto simp: str_find_None_iff occurs_at_def)
    with True r show ?thesis by (auto simp: BM_def)
  next
    case False
    with r have "BM_loop haystack needle 0 = Some (Returns r)" by (simp add: BM_def)
    from BM_loop_partial [OF this] show ?thesis by (auto split: sum.splits)
  qed
next
  have "BM_scan [c_a, c_a] [c_f, c_a] 0 (Suc (Suc 0)) = Mismatch 0 c_a" "bm_map [c_f, c_a] c_a = Some 1"
    "BM_scan [c_a, c_a] [c_f, c_a] (- 1) (Suc (Suc 0)) = Outside"
    by (simp_all add: Let_def bm_map_def upt_rec)
  then show "BM [c_a, c_a] [c_f, c_a] = Some Undefined"
    by (simp add: BM_def) (subst BM_loop.simps, simp, subst BM_loop.simps, simp)
  show "BM [c_f, c_a, c_a] [c_0, c_a] = None"
    by (simp add: BM_def BM_loop_cycle)
qed

theorem BM_partial_witness: "BM [c_a] [c_a] = Some (Returns (Inr 0)) \<and> str_find [c_a] [c_a] = Some 0"
proof
  show r: "BM [c_a] [c_a] = Some (Returns (Inr 0))"
    by (simp add: BM_def) (subst BM_loop.simps, simp)
  have "(Inr 0 :: int res) = (case str_find [c_a] [c_a] of None \<Rightarrow> Inl kNotFound | Some pos \<Rightarrow> Inr (int pos))"
    using BM_partial [of "[c_a]" "[c_a]" "Inr 0"] r by blast
  then show "str_find [c_a] [c_a] = Some 0" by simp
qed

end
