(* ===== verification/Coding_Chunk.thy ===== *)
theory Coding_Chunk
  imports Coding_Text Util_Str "HOL-Library.List_Lexorder"
begin

unbundle bit_operations_syntax

text \<open>
  The chunked encodings of base/coding.cc: \<open>SplitUTF8\<close>, which cuts a text into words and
  characters, and the memory-comparable encoding, whose byte-wise order is the order of the
  encoded strings.
\<close>

section \<open>Memory-comparable encoding\<close>

definition kChunkSize :: nat where "kChunkSize = 8"

function MemcomparableEncode :: "bytes \<Rightarrow> bytes" where
  "MemcomparableEncode src =
     (if src = [] then []
      else let chunk_size = min (length src) kChunkSize; dst = take chunk_size src in
        if kChunkSize < length src then
          dst @ [word_of_nat (kChunkSize + 1)] @ MemcomparableEncode (drop kChunkSize src)
        else dst @ replicate (kChunkSize - chunk_size) 0 @ [word_of_nat chunk_size])"
  by pat_completeness auto
termination by (relation "measure length") (auto simp: kChunkSize_def)

declare MemcomparableEncode.simps [simp del]

definition mem_decode_chunk :: "bytes \<Rightarrow> bytes res" where
  "mem_decode_chunk chunk =
     (let chunk_size = chunk ! kChunkSize in
      if word_of_nat (kChunkSize + 1) < chunk_size \<or> chunk_size = 0 then Inl kInvalidParam
      else let chunk_size = (if chunk_size = word_of_nat (kChunkSize + 1) then word_of_nat kChunkSize else chunk_size)
        in Inr (take (unat chunk_size) chunk))"

definition MemcomparableDecode :: "bytes \<Rightarrow> bytes res" where
  "MemcomparableDecode src =
     (if length src mod (kChunkSize + 1) \<noteq> 0 then Inl kInvalidParam
      else rconcat mem_decode_chunk (chunks (kChunkSize + 1) src))"

text \<open>One chunk: the bytes padded with zeros, then the marker.\<close>

definition mem_chunk :: "bytes \<Rightarrow> byte \<Rightarrow> bytes" where
  "mem_chunk c m = c @ replicate (8 - length c) 0 @ [m]"

lemma MemcomparableEncode_step:
  "src \<noteq> [] \<Longrightarrow> MemcomparableEncode src =
    mem_chunk (take 8 src) (if 8 < length src then 9 else word_of_nat (length src)) @ MemcomparableEncode (drop 8 src)"
  by (subst MemcomparableEncode.simps)
    (auto simp: kChunkSize_def Let_def mem_chunk_def min_def MemcomparableEncode.simps [of "[]"])

lemma MemcomparableEncode_Nil [simp]: "MemcomparableEncode [] = []"
  by (simp add: MemcomparableEncode.simps)

lemma length_mem_chunk: "length c \<le> 8 \<Longrightarrow> length (mem_chunk c m) = 9"
  by (simp add: mem_chunk_def)

lemma small_size:
  assumes "0 < n" "n \<le> 8"
  shows "\<not> 9 < (word_of_nat n :: byte)" "word_of_nat n \<noteq> (0 :: byte)" "word_of_nat n \<noteq> (9 :: byte)"
    "unat (word_of_nat n :: byte) = n"
proof -
  show "unat (word_of_nat n :: byte) = n" using assms by (simp add: take_bit_nat_eq_self unsigned_of_nat)
  then show "\<not> 9 < (word_of_nat n :: byte)" "word_of_nat n \<noteq> (0 :: byte)" "word_of_nat n \<noteq> (9 :: byte)"
    using assms by (auto simp: word_less_nat_alt)
qed

lemma mem_decode_chunk:
  assumes "c \<noteq> []" "length c \<le> 8" "m = word_of_nat (length c) \<or> (m = 9 \<and> length c = 8)"
  shows "mem_decode_chunk (mem_chunk c m) = Inr c"
  using small_size [of "length c"] assms
  by (auto simp: mem_decode_chunk_def mem_chunk_def Let_def kChunkSize_def nth_append)

lemma mem_units:
  "rconcat mem_decode_chunk (chunks 9 (MemcomparableEncode src)) = Inr src \<and>
   length (MemcomparableEncode src) mod 9 = 0"
proof -
  have "0 < (8 :: nat)" by simp
  then show ?thesis
  proof (induction src rule: chunk_induct)
  case (Chunk src)
  let ?c = "mem_chunk (take 8 src) (if 8 < length src then 9 else word_of_nat (length src))"
  have "length ?c = 9" by (simp add: length_mem_chunk)
  moreover have "mem_decode_chunk ?c = Inr (take 8 src)"
    using Chunk(1) by (intro mem_decode_chunk) (auto simp: min_def)
  ultimately show ?case
    using Chunk by (simp add: MemcomparableEncode_step [OF Chunk(1)] chunks_append)
  qed simp_all
qed

interpretation memcomparable: codec "\<lambda>src. Inr (MemcomparableEncode src)" MemcomparableDecode
  by unfold_locales (use mem_units in \<open>auto simp: MemcomparableDecode_def kChunkSize_def\<close>)

text \<open>The order of the encodings.\<close>

lemma less_append_eq:
  fixes s t :: "bytes"
  shows "length x = length y \<Longrightarrow> x @ s < y @ t \<longleftrightarrow> x < y \<or> (x = y \<and> s < t)"
  by (induction x y rule: list_induct2) auto

lemma zeros_less:
  assumes "m1 < (m2 :: byte)" "length b \<le> k"
  shows "replicate k 0 @ m1 # s < (b @ replicate (k - length b) 0) @ m2 # t"
  using assms(2)
proof (induction k arbitrary: b)
  case 0
  with assms(1) show ?case by simp
next
  case (Suc k)
  show ?case
  proof (cases b)
    case Nil
    with Suc(1) [of "[]"] show ?thesis by simp
  next
    case (Cons c b')
    with Suc show ?thesis by (cases "c = 0") (auto simp: word_gt_0)
  qed
qed

lemma padded_less:
  assumes "a < b" "length a \<le> k" "length b \<le> k" "length a < length b \<longrightarrow> m1 < m2"
  shows "(a @ replicate (k - length a) 0) @ m1 # s < (b @ replicate (k - length b) 0) @ (m2 :: byte) # t"
  using assms
proof (induction k arbitrary: a b)
  case (Suc k)
  show ?case
  proof (cases a)
    case Nil
    with Suc.prems zeros_less [of m1 m2 b "Suc k" s t] show ?thesis by simp
  next
    case (Cons d a')
    with Suc.prems obtain c b' where b: "b = c # b'" by (cases b) auto
    with Cons Suc show ?thesis by auto
  qed
qed simp

lemma take_mono: "a \<le> b \<Longrightarrow> take n a \<le> take n (b :: bytes)"
proof (induction n arbitrary: a b)
  case (Suc n)
  show ?case
  proof (cases a)
    case (Cons x a')
    with Suc.prems obtain y b' where b: "b = y # b'" by (cases b) auto
    with Cons Suc.prems have "x < y \<or> (x = y \<and> a' \<le> b')" by (simp only: Cons_le_Cons)
    with Cons b Suc.IH [of a' b'] show ?thesis by (simp only: take_Suc_Cons Cons_le_Cons) blast
  qed simp
qed simp

lemma MemcomparableEncode_mono: "a < b \<Longrightarrow> MemcomparableEncode a < MemcomparableEncode b"
proof (induction "length a" arbitrary: a b rule: less_induct)
  case less
  let ?m = "\<lambda>s. (if 8 < length s then 9 else word_of_nat (length s)) :: byte"
  have step: "MemcomparableEncode s = (take 8 s @ replicate (8 - length (take 8 s)) 0) @ ?m s # MemcomparableEncode (drop 8 s)"
    if "s \<noteq> []" for s
    using that by (simp add: MemcomparableEncode_step mem_chunk_def)
  have "b \<noteq> []" using less.prems by auto
  show ?case
  proof (cases "a = []")
    case True
    have "MemcomparableEncode b \<noteq> []" using step [OF \<open>b \<noteq> []\<close>] by simp
    then have "[] < MemcomparableEncode b" by (cases "MemcomparableEncode b") simp_all
    with True show ?thesis by simp
  next
    case False
    have eq: "a = take 8 a @ drop 8 a" "b = take 8 b @ drop 8 b" by simp_all
    show ?thesis
    proof (cases "take 8 a = take 8 b")
      case True
      have "take 8 a @ drop 8 a < take 8 b @ drop 8 b" using less.prems by simp
      with True have d: "drop 8 a < drop 8 b" by (simp only: less_append_eq) simp
      then have "8 < length b" by (cases "8 < length b") auto
      show ?thesis
      proof (cases "8 < length a")
        case gt: True
        with less.hyps [OF _ d] True \<open>8 < length b\<close> show ?thesis
          unfolding step [OF False] step [OF \<open>b \<noteq> []\<close>] by (simp add: less_append_eq)
      next
        case le: False
        have "length (take 8 a) = length (take 8 b)" using True by simp
        with le \<open>8 < length b\<close> have "length a = 8" by simp
        with True \<open>8 < length b\<close> show ?thesis
          unfolding step [OF False] step [OF \<open>b \<noteq> []\<close>] by (simp add: less_append_eq)
      qed
    next
      case neq: False
      have "take 8 a < take 8 b"
        using take_mono [OF less_imp_le [OF less.prems], of 8] neq by (rule order.not_eq_order_implies_strict [rotated])
      moreover have "length (take 8 a) < length (take 8 b) \<longrightarrow> ?m a < ?m b"
        using small_size [of "length a"] small_size [of "length b"] False \<open>b \<noteq> []\<close>
        by (auto simp: min_def word_less_nat_alt)
      ultimately show ?thesis
        unfolding step [OF False] step [OF \<open>b \<noteq> []\<close>] by (intro padded_less) auto
    qed
  qed
qed

lemma MemcomparableEncode_less_iff: "MemcomparableEncode a < MemcomparableEncode b \<longleftrightarrow> a < b"
  using MemcomparableEncode_mono [of a b] MemcomparableEncode_mono [of b a] by (cases a b rule: linorder_cases) auto

section \<open>Splitting into words and characters\<close>

definition utf8_len :: "byte \<Rightarrow> nat" where
  "utf8_len b =
     (if b AND 0xf8 = 0xf0 then 4 else if b AND 0xf0 = 0xe0 then 3 else if b AND 0xe0 = 0xc0 then 2 else 1)"

definition substr :: "bytes \<Rightarrow> nat \<Rightarrow> nat \<Rightarrow> bytes" where
  "substr src pos len = take len (drop pos src)"

text \<open>
  The scan keeps the start of the word that is being read (\<open>index\<close>, -1 as \<open>None\<close>).
  \<open>flush_word\<close> pushes it.
\<close>

definition flush_word :: "bytes \<Rightarrow> nat \<Rightarrow> nat option \<Rightarrow> bytes list \<Rightarrow> bytes list" where
  "flush_word src i index out = (case index of None \<Rightarrow> out | Some k \<Rightarrow> out @ [substr src k (i - k)])"

function SplitUTF8_loop :: "bytes \<Rightarrow> nat \<Rightarrow> nat option \<Rightarrow> bytes list \<Rightarrow> bytes list" where
  "SplitUTF8_loop src i index out =
     (if i < length src then
        let len = utf8_len (src ! i);
            (out, index) = (if 1 < len then (flush_word src i index out, None) else (out, index));
            len = (if length src < i + len then 1 else len)
        in if len = 1 then
             if isalnum (src ! i) \<or> CheckIsHyphen (src ! i)
             then SplitUTF8_loop src (Suc i) (if index = None then Some i else index) out
             else SplitUTF8_loop src (Suc i) None (flush_word src i index out @ [substr src i len])
           else SplitUTF8_loop src (i + len) index (out @ [substr src i len])
      else flush_word src i index out)"
  by pat_completeness auto
termination
  by (relation "measure (\<lambda>(src, i, _). length src - i)") (auto simp: utf8_len_def split: if_splits)

declare SplitUTF8_loop.simps [simp del]

definition SplitUTF8 :: "bytes \<Rightarrow> bytes list \<Rightarrow> bytes list" where
  "SplitUTF8 src out = SplitUTF8_loop src 0 None out"

text \<open>The pieces pushed so far and the open word make up the text read.\<close>

definition word_char :: "byte \<Rightarrow> bool" where
  "word_char b \<longleftrightarrow> isalnum b \<or> CheckIsHyphen b"

definition piece_ok :: "bytes \<Rightarrow> bool" where
  "piece_ok w \<longleftrightarrow> w \<noteq> [] \<and> (list_all word_char w \<or> length w = 1 \<or> length w = utf8_len (hd w))"

definition split_inv :: "bytes \<Rightarrow> nat \<Rightarrow> nat option \<Rightarrow> bytes list \<Rightarrow> bool" where
  "split_inv src i index out \<longleftrightarrow> i \<le> length src \<and> list_all piece_ok (flush_word src i index out) \<and>
     concat (flush_word src i index out) = take i src \<and>
     (case index of None \<Rightarrow> True | Some k \<Rightarrow> k < i \<and> list_all word_char (substr src k (i - k)))"

lemma split_inv_flush: "split_inv src i index out \<Longrightarrow> split_inv src i None (flush_word src i index out)"
  by (auto simp: split_inv_def flush_word_def)

lemma substr_Suc: "k \<le> i \<Longrightarrow> i < length src \<Longrightarrow> substr src k (Suc i - k) = substr src k (i - k) @ [src ! i]"
  by (simp add: substr_def Suc_diff_le take_Suc_conv_app_nth)

lemma split_inv_char:
  assumes "split_inv src i index out" "i < length src" "word_char (src ! i)"
  shows "split_inv src (Suc i) (if index = None then Some i else index) out"
proof (cases index)
  case None
  have "substr src i (Suc i - i) = [src ! i]" using substr_Suc [of i i src] assms(2) by (simp add: substr_def)
  with None assms show ?thesis
    by (auto simp: split_inv_def flush_word_def piece_ok_def take_Suc_conv_app_nth)
next
  case (Some k)
  then have "k \<le> i" using assms(1) by (simp add: split_inv_def)
  with Some assms show ?thesis
    by (auto simp: split_inv_def flush_word_def piece_ok_def take_Suc_conv_app_nth substr_Suc)
qed

lemma split_inv_piece:
  assumes "split_inv src i None out" "i + len \<le> length src" "len = 1 \<or> len = utf8_len (src ! i)" "0 < len"
  shows "split_inv src (i + len) None (out @ [substr src i len])"
proof -
  have "substr src i len \<noteq> []" "hd (substr src i len) = src ! i" "length (substr src i len) = len"
    using assms(2,4) by (auto simp: substr_def hd_drop_conv_nth)
  with assms show ?thesis
    by (auto simp: split_inv_def flush_word_def piece_ok_def take_add substr_def)
qed

lemma SplitUTF8_loop_inv:
  assumes "split_inv src i index out"
  shows "list_all piece_ok (SplitUTF8_loop src i index out) \<and> concat (SplitUTF8_loop src i index out) = src"
  using assms
proof (induction "length src - i" arbitrary: i index out rule: less_induct)
  case less
  show ?case
  proof (cases "i < length src")
    case False
    then show ?thesis using less.prems by (subst (1 2) SplitUTF8_loop.simps) (auto simp: split_inv_def)
  next
    case i: True
    let ?n = "utf8_len (src ! i)"
    let ?out = "if 1 < ?n then flush_word src i index out else out"
    let ?index = "if 1 < ?n then None else index"
    let ?len = "if length src < i + ?n then 1 else ?n"
    have inv: "split_inv src i ?index ?out" using less.prems split_inv_flush by auto
    have "0 < ?n" by (simp add: utf8_len_def)
    then have len: "0 < ?len" "i + ?len \<le> length src" "?len = 1 \<or> ?len = ?n" using i by auto
    have unfold: "SplitUTF8_loop src i index out =
      (if ?len = 1 then
         if word_char (src ! i) then SplitUTF8_loop src (Suc i) (if ?index = None then Some i else ?index) ?out
         else SplitUTF8_loop src (Suc i) None (flush_word src i ?index ?out @ [substr src i ?len])
       else SplitUTF8_loop src (i + ?len) ?index (?out @ [substr src i ?len]))"
      using i by (subst SplitUTF8_loop.simps) (simp add: Let_def word_char_def)
    consider "?len = 1" "word_char (src ! i)" | "?len = 1" "\<not> word_char (src ! i)" | "?len \<noteq> 1" by blast
    then show ?thesis
    proof cases
      case 1
      from less.hyps [OF _ split_inv_char [OF inv i 1(2)]] i 1 show ?thesis by (simp add: unfold)
    next
      case 2
      from less.hyps [OF _ split_inv_piece [OF split_inv_flush [OF inv] len(2,3,1)]] i 2 len
      show ?thesis by (simp add: unfold)
    next
      case 3
      then have "1 < ?n" using len by (auto split: if_splits)
      then have "split_inv src i None ?out" "?index = None" using inv by simp_all
      from less.hyps [OF _ split_inv_piece [OF this(1) len(2,3,1)]] i 3 len \<open>?index = None\<close>
      show ?thesis by (simp only: unfold if_False)
    qed
  qed
qed

section \<open>Properties\<close>

text \<open>C15: the memory-comparable encoding is order-preserving, a byte string is smaller than another
  exactly when its encoding is, and decoding gives the bytes back.\<close>
theorem Memcomparable_order:
  "(MemcomparableEncode a < MemcomparableEncode b \<longleftrightarrow> a < b) \<and>
   MemcomparableDecode (MemcomparableEncode a) = Inr a"
  using MemcomparableEncode_less_iff memcomparable.roundtrip [of a] by simp

text \<open>\<open>SplitUTF8\<close> loses nothing: the pieces it appends are not empty, concatenated they are the
  text, and every piece is a word of letters, digits and hyphens, a single byte, or as many
  bytes as its lead byte announces.\<close>
theorem SplitUTF8_partition:
  "\<exists>ps. SplitUTF8 src [] = ps \<and> concat ps = src \<and> list_all piece_ok ps"
  using SplitUTF8_loop_inv [of src 0 None "[]"] by (simp add: SplitUTF8_def split_inv_def flush_word_def)

end
