(* ===== verification/Hash_Fun.thy ===== *)
theory Hash_Fun
  imports Coding_Int Util_Str
begin

unbundle bit_operations_syntax

text \<open>
  The hash functions of base/hash.cc: BKDR, CRC-32 with its table, Murmur32, \<open>HashString\<close> and
  \<open>HashCombine\<close>. The table-driven CRC is proved equal to the bitwise definition of the
  checksum for the polynomial that the source's comment names.
\<close>

section \<open>BKDR\<close>

text \<open>The characters are signed: \<open>scast\<close> extends the sign.\<close>

definition BKDR_loop :: "bytes \<Rightarrow> 32 word" where
  "BKDR_loop str = foldl (\<lambda>hash c. hash * 131 + scast c) 0 str"

definition BKDRHash :: "bytes \<Rightarrow> 32 word" where
  "BKDRHash str = BKDR_loop (c_str str) AND 0x7FFFFFFF"

text \<open>The format \<open>"%010u"\<close>: ten decimal digits with leading zeros.\<close>

primrec dec_digits :: "nat \<Rightarrow> nat \<Rightarrow> bytes" where
  "dec_digits 0 n = []"
| "dec_digits (Suc k) n = dec_digits k (n div 10) @ [c_0 + word_of_nat (n mod 10)]"

text \<open>The number of digits that \<open>"%u"\<close> prints.\<close>

fun dec_len :: "nat \<Rightarrow> nat" where
  "dec_len n = (if n < 10 then 1 else Suc (dec_len (n div 10)))"

declare dec_len.simps [simp del]

definition BKDRHash_num :: "32 word \<Rightarrow> 32 word" where
  "BKDRHash_num num = BKDRHash (dec_digits 10 (unat num))"

section \<open>CRC-32\<close>

definition crc32_tab :: "32 word list" where
  "crc32_tab =
    [0x00000000, 0x77073096, 0xee0e612c, 0x990951ba, 0x076dc419, 0x706af48f, 0xe963a535, 0x9e6495a3,
     0x0edb8832, 0x79dcb8a4, 0xe0d5e91e, 0x97d2d988, 0x09b64c2b, 0x7eb17cbd, 0xe7b82d07, 0x90bf1d91,
     0x1db71064, 0x6ab020f2, 0xf3b97148, 0x84be41de, 0x1adad47d, 0x6ddde4eb, 0xf4d4b551, 0x83d385c7,
     0x136c9856, 0x646ba8c0, 0xfd62f97a, 0x8a65c9ec, 0x14015c4f, 0x63066cd9, 0xfa0f3d63, 0x8d080df5,
     0x3b6e20c8, 0x4c69105e, 0xd56041e4, 0xa2677172, 0x3c03e4d1, 0x4b04d447, 0xd20d85fd, 0xa50ab56b,
     0x35b5a8fa, 0x42b2986c, 0xdbbbc9d6, 0xacbcf940, 0x32d86ce3, 0x45df5c75, 0xdcd60dcf, 0xabd13d59,
     0x26d930ac, 0x51de003a, 0xc8d75180, 0xbfd06116, 0x21b4f4b5, 0x56b3c423, 0xcfba9599, 0xb8bda50f,
     0x2802b89e, 0x5f058808, 0xc60cd9b2, 0xb10be924, 0x2f6f7c87, 0x58684c11, 0xc1611dab, 0xb6662d3d,
     0x76dc4190, 0x01db7106, 0x98d220bc, 0xefd5102a, 0x71b18589, 0x06b6b51f, 0x9fbfe4a5, 0xe8b8d433,
     0x7807c9a2, 0x0f00f934, 0x9609a88e, 0xe10e9818, 0x7f6a0dbb, 0x086d3d2d, 0x91646c97, 0xe6635c01,
     0x6b6b51f4, 0x1c6c6162, 0x856530d8, 0xf262004e, 0x6c0695ed, 0x1b01a57b, 0x8208f4c1, 0xf50fc457,
     0x65b0d9c6, 0x12b7e950, 0x8bbeb8ea, 0xfcb9887c, 0x62dd1ddf, 0x15da2d49, 0x8cd37cf3, 0xfbd44c65,
     0x4db26158, 0x3ab551ce, 0xa3bc0074, 0xd4bb30e2, 0x4adfa541, 0x3dd895d7, 0xa4d1c46d, 0xd3d6f4fb,
     0x4369e96a, 0x346ed9fc, 0xad678846, 0xda60b8d0, 0x44042d73, 0x33031de5, 0xaa0a4c5f, 0xdd0d7cc9,
     0x5005713c, 0x270241aa, 0xbe0b1010, 0xc90c2086, 0x5768b525, 0x206f85b3, 0xb966d409, 0xce61e49f,
     0x5edef90e, 0x29d9c998, 0xb0d09822, 0xc7d7a8b4, 0x59b33d17, 0x2eb40d81, 0xb7bd5c3b, 0xc0ba6cad,
     0xedb88320, 0x9abfb3b6, 0x03b6e20c, 0x74b1d29a, 0xead54739, 0x9dd277af, 0x04db2615, 0x73dc1683,
     0xe3630b12, 0x94643b84, 0x0d6d6a3e, 0x7a6a5aa8, 0xe40ecf0b, 0x9309ff9d, 0x0a00ae27, 0x7d079eb1,
     0xf00f9344, 0x8708a3d2, 0x1e01f268, 0x6906c2fe, 0xf762575d, 0x806567cb, 0x196c3671, 0x6e6b06e7,
     0xfed41b76, 0x89d32be0, 0x10da7a5a, 0x67dd4acc, 0xf9b9df6f, 0x8ebeeff9, 0x17b7be43, 0x60b08ed5,
     0xd6d6a3e8, 0xa1d1937e, 0x38d8c2c4, 0x4fdff252, 0xd1bb67f1, 0xa6bc5767, 0x3fb506dd, 0x48b2364b,
     0xd80d2bda, 0xaf0a1b4c, 0x36034af6, 0x41047a60, 0xdf60efc3, 0xa867df55, 0x316e8eef, 0x4669be79,
     0xcb61b38c, 0xbc66831a, 0x256fd2a0, 0x5268e236, 0xcc0c7795, 0xbb0b4703, 0x220216b9, 0x5505262f,
     0xc5ba3bbe, 0xb2bd0b28, 0x2bb45a92, 0x5cb36a04, 0xc2d7ffa7, 0xb5d0cf31, 0x2cd99e8b, 0x5bdeae1d,
     0x9b64c2b0, 0xec63f226, 0x756aa39c, 0x026d930a, 0x9c0906a9, 0xeb0e363f, 0x72076785, 0x05005713,
     0x95bf4a82, 0xe2b87a14, 0x7bb12bae, 0x0cb61b38, 0x92d28e9b, 0xe5d5be0d, 0x7cdcefb7, 0x0bdbdf21,
     0x86d3d2d4, 0xf1d4e242, 0x68ddb3f8, 0x1fda836e, 0x81be16cd, 0xf6b9265b, 0x6fb077e1, 0x18b74777,
     0x88085ae6, 0xff0f6a70, 0x66063bca, 0x11010b5c, 0x8f659eff, 0xf862ae69, 0x616bffd3, 0x166ccf45,
     0xa00ae278, 0xd70dd2ee, 0x4e048354, 0x3903b3c2, 0xa7672661, 0xd06016f7, 0x4969474d, 0x3e6e77db,
     0xaed16a4a, 0xd9d65adc, 0x40df0b66, 0x37d83bf0, 0xa9bcae53, 0xdebb9ec5, 0x47b2cf7f, 0x30b5ffe9,
     0xbdbdf21c, 0xcabac28a, 0x53b39330, 0x24b4a3a6, 0xbad03605, 0xcdd70693, 0x54de5729, 0x23d967bf,
     0xb3667a2e, 0xc4614ab8, 0x5d681b02, 0x2a6f2b94, 0xb40bbe37, 0xc30c8ea1, 0x5a05df1b, 0x2d02ef8d]"

definition CRC32_step :: "32 word \<Rightarrow> byte \<Rightarrow> 32 word" where
  "CRC32_step crc32_val c =
     crc32_tab ! unat ((crc32_val XOR scast c) AND 0xFF) XOR (drop_bit 8 crc32_val AND 0x00FFFFFF)"

text \<open>\<open>len\<close> is at most the length of the string, as in the library's calls.\<close>

definition CRC32 :: "bytes \<Rightarrow> nat \<Rightarrow> 32 word" where
  "CRC32 str len = foldl CRC32_step (0 XOR 0xFFFFFFFF) (take len str)"

text \<open>The reference: one division step per bit by the reflected polynomial.\<close>

definition crc_bit :: "32 word \<Rightarrow> 32 word" where
  "crc_bit c = (if bit c 0 then drop_bit 1 c XOR 0xEDB88320 else drop_bit 1 c)"

definition crc_byte :: "32 word \<Rightarrow> byte \<Rightarrow> 32 word" where
  "crc_byte crc b = (crc_bit ^^ 8) (crc XOR ucast b)"

section \<open>Murmur32\<close>

definition rotl32 :: "nat \<Rightarrow> 32 word \<Rightarrow> 32 word" where
  "rotl32 r k = push_bit r k OR drop_bit (32 - r) k"

text \<open>
  \<open>DecodeFixed32(ch, &k)\<close> builds its string from a \<open>char *\<close>, so it sees the rest of the key up to
  the first zero byte; when that is shorter than four bytes the call fails, its code is not
  looked at, and \<open>k\<close> stays 0.
\<close>

definition murmur_block :: "bytes \<Rightarrow> 32 word" where
  "murmur_block ch = (case DecodeFixed32 (c_str ch) of Inr k \<Rightarrow> k | Inl _ \<Rightarrow> 0)"

definition murmur_mix :: "32 word \<Rightarrow> 32 word" where
  "murmur_mix k = rotl32 15 (k * 0xcc9e2d51) * 0x1b873593"

function murmur_loop :: "32 word \<Rightarrow> bytes \<Rightarrow> 32 word \<times> bytes" where
  "murmur_loop hash ch =
     (if 4 \<le> length ch then murmur_loop (rotl32 13 (hash XOR murmur_mix (murmur_block ch)) * 5 + 0xe6546b64) (drop 4 ch)
      else (hash, ch))"
  by pat_completeness auto
termination by (relation "measure (\<lambda>(_, ch). length ch)") auto

declare murmur_loop.simps [simp del]

definition Murmur32 :: "bytes \<Rightarrow> 32 word \<Rightarrow> 32 word" where
  "Murmur32 key seed =
     (case murmur_loop seed key of (hash, ch) \<Rightarrow>
        let hash = (if ch \<noteq> [] then
              hash XOR murmur_mix (case DecodeFixed32 (ch @ replicate (4 - length ch) 0) of Inr n \<Rightarrow> n | Inl _ \<Rightarrow> 0)
            else hash);
            hash = hash XOR word_of_nat (length key);
            hash = hash XOR drop_bit 16 hash;
            hash = hash * 0x85ebca6b;
            hash = hash XOR drop_bit 13 hash;
            hash = hash * 0xc2b2ae35
        in hash XOR drop_bit 16 hash)"

section \<open>HashString and HashCombine\<close>

definition HashString :: "bytes \<Rightarrow> 64 word" where
  "HashString s = foldl (\<lambda>h c. 5 * h + scast c) 0 (c_str s)"

definition HashCombine :: "64 word \<Rightarrow> 64 word \<Rightarrow> 64 word" where
  "HashCombine lhs rhs = lhs XOR (rhs + 0x9e3779b9 + push_bit 6 lhs + drop_bit 2 lhs)"

section \<open>The table is the polynomial's\<close>

lemma crc_bit_8: "(crc_bit ^^ 8) w = crc_bit (crc_bit (crc_bit (crc_bit (crc_bit (crc_bit (crc_bit (crc_bit w)))))))"
  by (simp add: eval_nat_numeral)

text \<open>The entries from the index \<open>k\<close> on.\<close>

fun tab_ok :: "32 word \<Rightarrow> 32 word list \<Rightarrow> bool" where
  "tab_ok k [] = True"
| "tab_ok k (x # xs) = ((crc_bit ^^ 8) k = x \<and> tab_ok (k + 1) xs)"

lemma tab_ok_split: "n \<le> length xs \<Longrightarrow> tab_ok k xs \<longleftrightarrow> tab_ok k (take n xs) \<and> tab_ok (k + word_of_nat n) (drop n xs)"
proof (induction n arbitrary: k xs)
  case (Suc n)
  then obtain x ys where xs: "xs = x # ys" "n \<le> length ys" by (cases xs) auto
  have "k + 1 + word_of_nat n = k + word_of_nat (Suc n)" by simp
  with Suc.IH [OF xs(2), of "k + 1"] show ?case
    by (simp only: xs(1) tab_ok.simps take_Suc_Cons drop_Suc_Cons conj_assoc)
qed simp

lemma tab_ok_0: "tab_ok 0 (take 64 crc32_tab)"
  by (simp add: crc32_tab_def crc_bit_8 crc_bit_def)
lemma tab_ok_64: "tab_ok 64 (take 64 (drop 64 crc32_tab))"
  by (simp add: crc32_tab_def crc_bit_8 crc_bit_def)
lemma tab_ok_128: "tab_ok 128 (take 64 (drop 128 crc32_tab))"
  by (simp add: crc32_tab_def crc_bit_8 crc_bit_def)
lemma tab_ok_192: "tab_ok 192 (drop 192 crc32_tab)"
  by (simp add: crc32_tab_def crc_bit_8 crc_bit_def)

lemma length_crc32_tab: "length crc32_tab = 256"
  by (simp add: crc32_tab_def)

lemma tab_ok_all: "tab_ok 0 crc32_tab"
  using tab_ok_0 tab_ok_64 tab_ok_128 tab_ok_192
    tab_ok_split [of 64 crc32_tab 0] tab_ok_split [of 64 "drop 64 crc32_tab" 64]
    tab_ok_split [of 64 "drop 128 crc32_tab" 128]
  by (simp add: length_crc32_tab)

lemma tab_ok_nth: "tab_ok k xs \<Longrightarrow> i < length xs \<Longrightarrow> xs ! i = (crc_bit ^^ 8) (k + word_of_nat i)"
proof (induction xs arbitrary: k i)
  case (Cons x xs)
  then show ?case by (cases i) (simp_all add: add.assoc [symmetric] del: funpow.simps)
qed simp

lemma crc32_tab_nth:
  assumes "unat w < 256"
  shows "crc32_tab ! unat w = (crc_bit ^^ 8) w"
  using tab_ok_nth [OF tab_ok_all, of "unat w"] assms by (simp add: length_crc32_tab del: funpow.simps)

text \<open>The division is linear, and on a word without low bits it only shifts.\<close>

lemma crc_bit_xor: "crc_bit (a XOR b) = crc_bit a XOR crc_bit b"
  by (simp add: crc_bit_def bit_simps) (simp add: ac_simps)

lemma crc_bits_xor: "(crc_bit ^^ n) (a XOR b) = (crc_bit ^^ n) a XOR (crc_bit ^^ n) b"
  by (induction n) (simp_all add: crc_bit_xor)

lemma crc_bits_shift: "\<forall>i < n. \<not> bit y i \<Longrightarrow> (crc_bit ^^ n) y = drop_bit n y"
proof (induction n)
  case (Suc n)
  then show ?case by (simp add: crc_bit_def bit_drop_bit_eq add.commute)
qed simp

lemma unat_take_bit_8: "unat (take_bit 8 (w :: 32 word)) < 256"
  using take_bit_nat_less_exp [of 8 "unat w"] by (simp only: unsigned_take_bit_eq) simp

lemma CRC32_step_eq: "CRC32_step crc c = crc_byte crc c"
proof -
  let ?x = "crc XOR ucast c"
  have m: "(0xFF :: 32 word) = mask 8" "(0x00FFFFFF :: 32 word) = mask 24" by (simp_all add: mask_eq_exp_minus_1)
  have low: "(crc XOR scast c) AND 0xFF = take_bit 8 ?x"
    unfolding m by (rule bit_word_eqI) (auto simp: bit_simps)
  have tab: "crc32_tab ! unat (take_bit 8 ?x) = (crc_bit ^^ 8) (take_bit 8 ?x)"
    using unat_take_bit_8 by (rule crc32_tab_nth)
  have high: "drop_bit 8 crc AND 0x00FFFFFF = drop_bit 8 (?x AND NOT (mask 8))"
    unfolding m by (rule bit_word_eqI) (auto simp: bit_simps dest: bit_imp_le_length)
  have shift: "(crc_bit ^^ 8) (?x AND NOT (mask 8)) = drop_bit 8 (?x AND NOT (mask 8))"
    by (rule crc_bits_shift) (simp add: bit_simps)
  have "?x = take_bit 8 ?x XOR (?x AND NOT (mask 8))"
    by (rule bit_word_eqI) (auto simp: bit_simps)
  then have "(crc_bit ^^ 8) ?x = (crc_bit ^^ 8) (take_bit 8 ?x) XOR (crc_bit ^^ 8) (?x AND NOT (mask 8))"
    using crc_bits_xor [of 8 "take_bit 8 ?x" "?x AND NOT (mask 8)"] by simp
  then show ?thesis by (simp only: CRC32_step_def crc_byte_def low high tab shift)
qed

section \<open>Changed bytes\<close>

text \<open>Each step of the division loses nothing, so one changed byte always changes the checksum.\<close>

lemma crc_bit_0:
  assumes "crc_bit a = 0"
  shows "a = 0"
proof -
  have top: "bit (0xEDB88320 :: 32 word) 31" "\<not> bit a 32" using bit_imp_le_length [of a 32] by auto
  have low: "\<not> bit a 0"
  proof
    assume "bit a 0"
    with assms have "bit (drop_bit 1 a XOR 0xEDB88320) 31 = bit (0 :: 32 word) 31" by (simp only: crc_bit_def if_True)
    with top show False by (simp only: bit_xor_iff bit_drop_bit_eq) simp
  qed
  with assms have shifted: "drop_bit 1 a = 0" by (simp add: crc_bit_def)
  show ?thesis
  proof (rule bit_word_eqI)
    fix n
    show "bit a n = bit 0 n"
    proof (cases n)
      case (Suc m)
      have "bit (drop_bit 1 a) m = bit a (1 + m)" by (rule bit_drop_bit_eq [THEN fun_cong, unfolded comp_def])
      then show ?thesis using shifted Suc by simp
    qed (use low in simp)
  qed
qed

lemma crc_bits_0: "(crc_bit ^^ n) c = 0 \<Longrightarrow> c = 0"
  by (induction n arbitrary: c) (auto dest: crc_bit_0)

lemma xor_cancel:
  fixes x y z :: "32 word"
  shows "x XOR y = 0 \<longleftrightarrow> x = y" "x XOR z = y XOR z \<longleftrightarrow> x = y" "z XOR x = z XOR y \<longleftrightarrow> x = y"
proof -
  have twice: "(x XOR z) XOR z = x" for x z :: "32 word"
    by (simp only: xor.assoc xor_self_eq xor.right_neutral)
  have zero: "x = y" if "x XOR y = 0" for x y :: "32 word"
  proof -
    have "x = (x XOR y) XOR y" by (simp only: twice)
    also have "\<dots> = y" by (simp only: that xor.left_neutral)
    finally show ?thesis .
  qed
  have right: "x = y" if "x XOR z = y XOR z" for x y z :: "32 word"
  proof -
    have "x = (x XOR z) XOR z" by (simp only: twice)
    also have "\<dots> = y" by (simp only: that twice)
    finally show ?thesis .
  qed
  show "x XOR y = 0 \<longleftrightarrow> x = y" using zero [of x y] xor_self_eq [of y] by blast
  show "x XOR z = y XOR z \<longleftrightarrow> x = y" using right [of x z y] by blast
  show "z XOR x = z XOR y \<longleftrightarrow> x = y" using right [of x z y] unfolding xor.commute [of z] by blast
qed

lemma crc_bits_inj: "(crc_bit ^^ n) a = (crc_bit ^^ n) b \<longleftrightarrow> a = b"
  using crc_bits_0 [of n "a XOR b"] unfolding crc_bits_xor xor_cancel(1) by blast

lemma ucast_byte_inj: "(ucast (b :: byte) :: 32 word) = ucast b' \<longleftrightarrow> b = b'"
  by (simp add: word_uint_eq_iff unsigned_ucast_eq take_bit_int_eq_self uint_lt2p [THEN order_less_le_trans])

lemma crc_byte_inj: "crc_byte c b = crc_byte c' b \<longleftrightarrow> c = c'" "crc_byte c b = crc_byte c b' \<longleftrightarrow> b = b'"
  unfolding crc_byte_def crc_bits_inj xor_cancel ucast_byte_inj by (rule refl)+

lemma foldl_crc_inj: "foldl CRC32_step c bs = foldl CRC32_step c' bs \<longleftrightarrow> c = c'"
  by (induction bs arbitrary: c c') (simp_all add: CRC32_step_eq crc_byte_inj)

lemma CRC32_changed_byte:
  assumes "i < length bs" "b \<noteq> bs ! i"
  shows "CRC32 (bs[i := b]) (length bs) \<noteq> CRC32 bs (length bs)"
proof -
  define f where "f = foldl CRC32_step"
  have old: "f c bs = f (CRC32_step (f c (take i bs)) (bs ! i)) (drop (Suc i) bs)" for c
    unfolding f_def using id_take_nth_drop [OF assms(1)] by (metis foldl_Cons foldl_append)
  have new: "f c (bs[i := b]) = f (CRC32_step (f c (take i bs)) b) (drop (Suc i) bs)" for c
    unfolding f_def upd_conv_take_nth_drop [OF assms(1)] by simp
  have "f c (bs[i := b]) \<noteq> f c bs" for c
    unfolding old new unfolding f_def foldl_crc_inj CRC32_step_eq crc_byte_inj using assms(2) .
  then show ?thesis by (simp add: CRC32_def f_def)
qed

section \<open>Properties\<close>

text \<open>C16: the table-driven CRC-32 is the bitwise division by the reflected polynomial
  0xEDB88320, for every string: each of the 256 table entries is right.\<close>
theorem CRC32_polynomial: "CRC32 str len = foldl crc_byte 0xFFFFFFFF (take len str)"
proof -
  have "CRC32_step = crc_byte" by (intro ext) (rule CRC32_step_eq)
  then show ?thesis by (simp add: CRC32_def)
qed

text \<open>\<open>Murmur32\<close> ignores the bytes that follow a zero byte within a four-byte block, so keys
  that differ only there have the same hash under every seed.\<close>
theorem Murmur32_zero_collision:
  assumes "length b = 3" "length b' = 3"
  shows "Murmur32 (0 # b @ rest) seed = Murmur32 (0 # b' @ rest) seed"
proof -
  have block: "murmur_block (0 # s) = 0" for s
    by (simp add: murmur_block_def c_str_def DecodeFixed32_def)
  have "murmur_loop seed (0 # c @ rest) = murmur_loop (rotl32 13 (seed XOR murmur_mix 0) * 5 + 0xe6546b64) rest"
    if "length c = 3" for c
    using that by (subst murmur_loop.simps) (simp add: block)
  with assms show ?thesis by (simp add: Murmur32_def)
qed

theorem Murmur32_zero_collision_witness:
  "Murmur32 [0, 1, 2, 3, 9] 7 = Murmur32 [0, 4, 5, 6, 9] 7"
  using Murmur32_zero_collision [of "[1, 2, 3]" "[4, 5, 6]" "[9]" 7] by simp

end
