(* ===== verification/Util_Num.thy ===== *)
theory Util_Num
  imports Util_Str
begin

unbundle bit_operations_syntax

text \<open>
  The number and array helpers of base/util.cc: recognition of a signed decimal number,
  comparison of two digit strings, reversal of a string and of a buffer in place, and
  the rotation built from three reversals.
\<close>

section \<open>Decimal numbers\<close>

text \<open>
  The value of a digit string, most significant digit first, and a digit string
  without superfluous leading zeros.
\<close>

definition digit_val :: "byte \<Rightarrow> nat" where
  "digit_val c = unat (c - c_0)"

fun dec_val :: "nat \<Rightarrow> bytes \<Rightarrow> nat" where
  "dec_val acc [] = acc"
| "dec_val acc (c # s) = dec_val (10 * acc + digit_val c) s"

definition digits :: "bytes \<Rightarrow> bool" where
  "digits s \<longleftrightarrow> list_all isdigit s"

definition canonical :: "bytes \<Rightarrow> bool" where
  "canonical s \<longleftrightarrow> digits s \<and> s \<noteq> [] \<and> (hd s = c_0 \<longrightarrow> s = [c_0])"

text \<open>The delimiters \<open>" +\t\r\n"\<close> that are trimmed off a number.\<close>

definition num_delims_str :: bytes where
  "num_delims_str = [c_space, c_plus, 9, 13, 10]"

text \<open>The scan of the trimmed text: digits, with a minus sign allowed at index 0.\<close>

fun all_num_scan :: "nat \<Rightarrow> bool \<Rightarrow> bytes \<Rightarrow> bool option" where
  "all_num_scan i has_num [] = Some has_num"
| "all_num_scan i has_num (c # s) =
     (if c \<le> c_9 \<and> c_0 \<le> c then all_num_scan (Suc i) True s
      else if i = 0 \<and> c = c_minus then all_num_scan (Suc i) has_num s
      else None)"

text \<open>
  The result is \<open>None\<close> when \<open>*is_all_num\<close> stays false, otherwise the normalised digits
  and the sign.
\<close>

definition CheckAndGetIfIsAllNum :: "bytes \<Rightarrow> (bytes \<times> bool) option" where
  "CheckAndGetIfIsAllNum num =
     (let tmp_num = Trim num num_delims_str in
      case all_num_scan 0 False tmp_num of
        Some True \<Rightarrow>
          (let is_negative = (0 < length tmp_num \<and> hd tmp_num = c_minus);
               post_num = (if is_negative then TrimLeft_ch (tl tmp_num) c_0
                           else TrimLeft_ch tmp_num c_0)
           in Some (if post_num = [] then [c_0] else post_num, is_negative))
      | _ \<Rightarrow> None)"

definition CheckIsAllNum :: "bytes \<Rightarrow> bool" where
  "CheckIsAllNum num \<longleftrightarrow> CheckAndGetIfIsAllNum num \<noteq> None"

text \<open>What the recogniser accepts: optional minus sign, at least one digit.\<close>

definition is_number :: "bytes \<Rightarrow> bool" where
  "is_number t \<longleftrightarrow> t \<noteq> [] \<and> (digits t \<or> (hd t = c_minus \<and> tl t \<noteq> [] \<and> digits (tl t)))"

definition number_val :: "bytes \<Rightarrow> int" where
  "number_val t = (if t \<noteq> [] \<and> hd t = c_minus then - int (dec_val 0 (tl t)) else int (dec_val 0 t))"

lemma isdigit_minus [simp]: "\<not> isdigit c_minus" "isdigit c_0"
  by (simp_all add: isdigit_def)

lemma digits_simps [simp]: "digits []" "digits (c # s) \<longleftrightarrow> isdigit c \<and> digits s"
  "digits (s @ t) \<longleftrightarrow> digits s \<and> digits t" "digits (rev s) \<longleftrightarrow> digits s"
  "digits (replicate n c_0)"
  by (auto simp: digits_def list_all_iff)

lemma all_num_scan_Suc:
  "all_num_scan (Suc i) b s = (if digits s then Some (b \<or> s \<noteq> []) else None)"
  by (induction s arbitrary: i b) (auto simp: isdigit_def)

lemma all_num_scan_iff: "all_num_scan 0 False t = Some True \<longleftrightarrow> is_number t"
  by (cases t) (auto simp: all_num_scan_Suc is_number_def isdigit_def)

lemma dec_val_zeros: "dec_val 0 (dropWhile (\<lambda>c. c = c_0) s) = dec_val 0 s"
  by (induction s) (auto simp: digit_val_def)

lemma digits_dropWhile: "digits s \<Longrightarrow> digits (dropWhile P s)"
  by (auto simp: digits_def list_all_iff dest: set_dropWhileD)

lemma canonical_trim:
  assumes "digits s"
  defines "d \<equiv> TrimLeft_ch s c_0"
  shows "canonical (if d = [] then [c_0] else d)"
    and "dec_val 0 (if d = [] then [c_0] else d) = dec_val 0 s"
proof -
  have "digits d" using assms by (simp add: TrimLeft_ch_def digits_dropWhile)
  moreover have "d \<noteq> [] \<Longrightarrow> hd d \<noteq> c_0"
    using hd_dropWhile [of "\<lambda>c. c = c_0" s] by (auto simp: d_def TrimLeft_ch_def)
  ultimately show "canonical (if d = [] then [c_0] else d)" by (auto simp: canonical_def)
  show "dec_val 0 (if d = [] then [c_0] else d) = dec_val 0 s"
    using dec_val_zeros [of s, folded TrimLeft_ch_def, folded d_def]
    by (cases "d = []") (simp_all add: digit_val_def)
qed

text \<open>The recogniser's functional behaviour, on every input.\<close>

lemma CheckAndGetIfIsAllNum_None:
  "CheckAndGetIfIsAllNum num = None \<longleftrightarrow> \<not> is_number (Trim num num_delims_str)"
  by (auto simp: CheckAndGetIfIsAllNum_def Let_def all_num_scan_iff [symmetric]
      split: option.splits bool.splits)

lemma CheckAndGetIfIsAllNum_Some:
  assumes "CheckAndGetIfIsAllNum num = Some (post_num, is_negative)"
  shows "canonical post_num"
    and "number_val (Trim num num_delims_str)
      = (if is_negative then - int (dec_val 0 post_num) else int (dec_val 0 post_num))"
proof -
  let ?t = "Trim num num_delims_str"
  have t: "is_number ?t"
    using assms by (metis CheckAndGetIfIsAllNum_None option.distinct(1))
  then have scan: "all_num_scan 0 False ?t = Some True" by (simp add: all_num_scan_iff)
  have neg: "is_negative \<longleftrightarrow> hd ?t = c_minus"
    and post: "post_num = (let d = TrimLeft_ch (if is_negative then tl ?t else ?t) c_0
      in if d = [] then [c_0] else d)"
    using assms t by (auto simp: CheckAndGetIfIsAllNum_def scan Let_def is_number_def)
  have "digits (if is_negative then tl ?t else ?t)"
    using t neg by (cases ?t) (auto simp: is_number_def)
  from canonical_trim [OF this] show "canonical post_num"
    "number_val ?t = (if is_negative then - int (dec_val 0 post_num) else int (dec_val 0 post_num))"
    using t neg by (auto simp: post Let_def number_val_def is_number_def)
qed

section \<open>Comparing digit strings\<close>

text \<open>
  The result is (bigger, smaller, flag). On equal strings the two outputs stay empty,
  as in the source, and the flag is 0.
\<close>

fun first_diff :: "bytes \<Rightarrow> bytes \<Rightarrow> int" where
  "first_diff (l # ls) (r # rs) =
     (if r <s l then 1 else if l <s r then - 1 else first_diff ls rs)"
| "first_diff _ _ = 0"

definition GetBigAndLitteNum :: "bytes \<Rightarrow> bytes \<Rightarrow> bytes \<times> bytes \<times> int" where
  "GetBigAndLitteNum post_ln post_rn =
     (if length post_rn < length post_ln then (post_ln, post_rn, 1)
      else if length post_ln < length post_rn then (post_rn, post_ln, - 1)
      else let f = first_diff post_ln post_rn in
        if f = 1 then (post_ln, post_rn, 1)
        else if f = - 1 then (post_rn, post_ln, - 1)
        else ([], [], 0))"

section \<open>Reversal and rotation\<close>

definition Reverse :: "bytes \<Rightarrow> bytes" where
  "Reverse src = map (\<lambda>i. src ! (length src - 1 - i)) [0..<length src]"

lemma Reverse_rev [simp]: "Reverse src = rev src"
  by (rule nth_equalityI) (auto simp: Reverse_def rev_nth)

text \<open>The swap loop of \<open>Reverse(char *str, int len)\<close> on the first \<open>len\<close> cells of a buffer.\<close>

fun swap_ends :: "nat \<Rightarrow> nat \<Rightarrow> bytes \<Rightarrow> bytes" where
  "swap_ends len 0 str = str"
| "swap_ends len (Suc i) str = (let str = swap_ends len i str; tmp = str ! i in
     str[i := str ! (len - 1 - i), len - 1 - i := tmp])"

definition Reverse_buf :: "bytes \<Rightarrow> nat \<Rightarrow> bytes" where
  "Reverse_buf str len = swap_ends len (len div 2) str"

lemma length_swap_ends [simp]: "length (swap_ends len i str) = length str"
  by (induction i) (auto simp: Let_def)

lemma swap_ends_nth:
  assumes "i \<le> len div 2" and "len \<le> length str" and "k < length str"
  shows "swap_ends len i str ! k =
    (if k < i \<or> (k < len \<and> len - 1 - k < i) then str ! (len - 1 - k) else str ! k)"
  using assms
proof (induction i arbitrary: k)
  case (Suc i)
  then have "len - 1 - i \<noteq> i" "len - 1 - (len - 1 - i) = i" "i < length str" by auto
  with Suc.IH [of k] Suc.IH [of i] Suc.IH [of "len - 1 - i"] Suc.prems
  show ?case by (auto simp: Let_def nth_list_update)
qed auto

lemma Reverse_buf_correct:
  assumes "len \<le> length str"
  shows "Reverse_buf str len = rev (take len str) @ drop len str"
proof (rule nth_equalityI)
  show "length (Reverse_buf str len) = length (rev (take len str) @ drop len str)"
    using assms by (simp add: Reverse_buf_def)
next
  fix k assume "k < length (Reverse_buf str len)"
  then have k: "k < length str" by (simp add: Reverse_buf_def)
  have "k < len \<Longrightarrow> \<not> (k < len div 2 \<or> len - 1 - k < len div 2) \<Longrightarrow> len - 1 - k = k" by arith
  with swap_ends_nth [OF order_refl assms k] assms k
  show "Reverse_buf str len ! k = (rev (take len str) @ drop len str) ! k"
    by (auto simp: Reverse_buf_def nth_append rev_nth)
qed

datatype ShiftType = kLeftShift | kRightShift

text \<open>
  \<open>Reverse(str + n, m)\<close> works on the buffer from offset \<open>n\<close>; \<open>len\<close> is the length of the
  buffer, as in every call of the source.
\<close>

definition LoopShift :: "bytes \<Rightarrow> int \<Rightarrow> int \<Rightarrow> ShiftType \<Rightarrow> bytes res" where
  "LoopShift str len shift_num shift_type =
     (if len < 0 \<or> shift_num < 0 \<or> len < shift_num then Inl kInvalidParam
      else if len = 0 \<or> len = shift_num then Inr str
      else let len = nat len; n = nat shift_num in
        case shift_type of
          kLeftShift \<Rightarrow>
            (let str = Reverse_buf str n;
                 str = take n str @ Reverse_buf (drop n str) (len - n)
             in Inr (Reverse_buf str len))
        | kRightShift \<Rightarrow>
            (let str = Reverse_buf str (len - n);
                 str = take (len - n) str @ Reverse_buf (drop (len - n) str) n
             in Inr (Reverse_buf str len)))"

lemma three_reversals:
  assumes "n \<le> length str"
  shows "Reverse_buf (take n (Reverse_buf str n) @ Reverse_buf (drop n (Reverse_buf str n)) (length str - n))
    (length str) = drop n str @ take n str"
  using assms by (simp add: Reverse_buf_correct)

lemma LoopShift_left:
  "n \<le> length str \<Longrightarrow> LoopShift str (int (length str)) (int n) kLeftShift = Inr (rotate n str)"
  using three_reversals [of n str]
  by (auto simp: LoopShift_def Let_def rotate_drop_take)

lemma LoopShift_right:
  assumes "n \<le> length str"
  shows "LoopShift str (int (length str)) (int n) kRightShift = Inr (rotate (length str - n) str)"
proof -
  have "length str - (length str - n) = n" using assms by simp
  with three_reversals [of "length str - n" str] assms show ?thesis
    by (cases "n = 0") (auto simp: LoopShift_def Let_def rotate_drop_take nat_diff_distrib')
qed

section \<open>Properties\<close>

text \<open>the rotation built from three reversals rotates the buffer, for every shift up to its
  length, and refuses negative or larger shifts.\<close>
theorem LoopShift_rotates:
  "(n \<le> length str \<longrightarrow>
      LoopShift str (int (length str)) (int n) kLeftShift = Inr (rotate n str) \<and>
      LoopShift str (int (length str)) (int n) kRightShift = Inr (rotate (length str - n) str)) \<and>
   (len < 0 \<or> shift_num < 0 \<or> len < shift_num \<longleftrightarrow> LoopShift str len shift_num t = Inl kInvalidParam)"
  using LoopShift_left LoopShift_right
  by (auto simp: LoopShift_def Let_def split: ShiftType.splits)

theorem LoopShift_rotates_witness:
  "LoopShift [1, 2, 3] 3 1 kLeftShift = Inr [2, 3, 1] \<and> LoopShift [1, 2, 3] 3 1 kRightShift = Inr [3, 1, 2]"
  using LoopShift_rotates [of 1 "[1, 2, 3]"] by (simp add: rotate_drop_take)

end
