(* ===== verification/Big_Int.thy ===== *)
theory Big_Int
  imports Util_Num
begin

unbundle bit_operations_syntax

text \<open>
  The arbitrary-precision decimal arithmetic of base/int.cc on digit strings
  (\<open>BigAdd\<close>, \<open>BigSub\<close>, \<open>BigMultiply\<close>), with its carry, borrow and row loops, and the
  machine-integer helpers of the same file (\<open>GCD\<close>, \<open>LCM\<close>, \<open>GetUpDivValue\<close>,
  \<open>MaxContinuousSum\<close>). The three operations are proved to compute the sum, difference
  and product of the integers that their operands denote.
\<close>

section \<open>Values of reversed digit strings\<close>

text \<open>The loops run from the last digit to the first: least significant digit first.\<close>

primrec rval :: "bytes \<Rightarrow> nat" where
  "rval [] = 0"
| "rval (c # s) = digit_val c + 10 * rval s"

lemma rval_append: "rval (s @ t) = rval s + 10 ^ length s * rval t"
  by (induction s) (simp_all add: algebra_simps)

lemma dec_val_rev: "dec_val acc s = acc * 10 ^ length s + rval (rev s)"
  by (induction s arbitrary: acc) (simp_all add: rval_append algebra_simps)

lemma dec_val_rval: "dec_val 0 s = rval (rev s)"
  by (simp add: dec_val_rev)

lemma digit_val_le: "isdigit c \<Longrightarrow> digit_val c \<le> 9"
  unfolding isdigit_def digit_val_def by unat_arith

lemma rval_less: "digits s \<Longrightarrow> rval s < 10 ^ length s"
  by (induction s) (auto dest: digit_val_le)

lemma rval_zeros [simp]: "rval (replicate n c_0) = 0"
  by (induction n) (simp_all add: digit_val_def)

text \<open>A byte below ten as a digit character.\<close>

lemma digit_char:
  assumes "unat d < 10"
  shows "isdigit (d + c_0)" and "digit_val (d + c_0) = unat d"
proof -
  have "\<forall>k \<in> set [0..<10]. isdigit (word_of_nat k + c_0)
      \<and> digit_val (word_of_nat k + c_0) = unat (word_of_nat k :: byte)"
    by (simp add: upt_rec isdigit_def digit_val_def)
  with assms have "isdigit (d + c_0) \<and> digit_val (d + c_0) = unat d" by (rule word_less_cases)
  then show "isdigit (d + c_0)" "digit_val (d + c_0) = unat d" by auto
qed

lemma unat_digit: "isdigit c \<Longrightarrow> unat (c - c_0) = digit_val c"
  by (simp add: digit_val_def)

section \<open>Addition\<close>

text \<open>
  The three loops of \<open>BigAddIntelnal\<close> on the reversed operands: common positions, the
  rest of the left operand, the rest of the right operand, then the carry.
\<close>

fun BigAdd_loop :: "bytes \<Rightarrow> bytes \<Rightarrow> byte \<Rightarrow> bytes" where
  "BigAdd_loop (l # ls) (r # rs) carry_digit =
     (let sum_digit = (l - c_0) + (r - c_0) + carry_digit in
      if 10 \<le> sum_digit then (sum_digit - 10 + c_0) # BigAdd_loop ls rs 1
      else (sum_digit + c_0) # BigAdd_loop ls rs 0)"
| "BigAdd_loop (l # ls) [] carry_digit =
     (let sum_digit = (l - c_0) + carry_digit in
      if 10 \<le> sum_digit then (sum_digit - 10 + c_0) # BigAdd_loop ls [] 1
      else (sum_digit + c_0) # BigAdd_loop ls [] 0)"
| "BigAdd_loop [] (r # rs) carry_digit =
     (let sum_digit = (r - c_0) + carry_digit in
      if 10 \<le> sum_digit then (sum_digit - 10 + c_0) # BigAdd_loop [] rs 1
      else (sum_digit + c_0) # BigAdd_loop [] rs 0)"
| "BigAdd_loop [] [] carry_digit = (if 1 \<le> carry_digit then [carry_digit + c_0] else [])"

definition BigAddIntelnal :: "bytes \<Rightarrow> bytes \<Rightarrow> bytes" where
  "BigAddIntelnal post_ln post_rn = Reverse (BigAdd_loop (rev post_ln) (rev post_rn) 0)"

lemma add_step:
  assumes "unat (s :: byte) \<le> 19"
  shows "10 \<le> s \<Longrightarrow> isdigit (s - 10 + c_0) \<and> digit_val (s - 10 + c_0) + 10 = unat s"
    and "\<not> 10 \<le> s \<Longrightarrow> isdigit (s + c_0) \<and> digit_val (s + c_0) = unat s"
proof -
  assume "10 \<le> s"
  then have "unat (s - 10) = unat s - 10" "10 \<le> unat s"
    by (simp_all add: unat_sub word_le_nat_alt)
  with assms digit_char [of "s - 10"] show
    "isdigit (s - 10 + c_0) \<and> digit_val (s - 10 + c_0) + 10 = unat s" by auto
next
  assume "\<not> 10 \<le> s"
  then have "unat s < 10" by (simp add: word_le_nat_alt)
  with digit_char [of s] show "isdigit (s + c_0) \<and> digit_val (s + c_0) = unat s" by auto
qed

lemma unat_add3:
  assumes "unat a \<le> 9" "unat b \<le> 9" "unat c \<le> 1"
  shows "unat (a + b + c :: byte) = unat a + unat b + unat c" "unat (a + c) = unat a + unat c"
proof -
  have "unat (a + b) = unat a + unat b" using assms by (intro unat_add_lem [THEN iffD1]) simp
  moreover from this have "unat (a + b + c) = unat (a + b) + unat c"
    using assms by (intro unat_add_lem [THEN iffD1]) simp
  ultimately show "unat (a + b + c :: byte) = unat a + unat b + unat c" by simp
  show "unat (a + c) = unat a + unat c" using assms by (intro unat_add_lem [THEN iffD1]) simp
qed

lemma BigAdd_loop_correct:
  assumes "digits ls" "digits rs" "unat c \<le> 1"
  shows "digits (BigAdd_loop ls rs c) \<and> rval (BigAdd_loop ls rs c) = rval ls + rval rs + unat c"
  using assms
proof (induction ls rs c rule: BigAdd_loop.induct)
  case (1 l ls r rs c)
  let ?s = "(l - c_0) + (r - c_0) + c"
  have s: "unat ?s = digit_val l + digit_val r + unat c" "unat ?s \<le> 19"
    using 1(3-) digit_val_le [of l] digit_val_le [of r] unat_add3 [of "l - c_0" "r - c_0" c]
    by (auto simp: digit_val_def)
  show ?case using 1 s add_step [OF s(2)] by (cases "10 \<le> ?s") (auto simp: Let_def)
next
  case (2 l ls c)
  let ?s = "(l - c_0) + c"
  have s: "unat ?s = digit_val l + unat c" "unat ?s \<le> 19"
    using 2(3-) digit_val_le [of l] unat_add3 [of "l - c_0" 0 c] by (auto simp: digit_val_def)
  show ?case using 2 s add_step [OF s(2)] by (cases "10 \<le> ?s") (auto simp: Let_def)
next
  case (3 r rs c)
  let ?s = "(r - c_0) + c"
  have s: "unat ?s = digit_val r + unat c" "unat ?s \<le> 19"
    using 3(3-) digit_val_le [of r] unat_add3 [of "r - c_0" 0 c] by (auto simp: digit_val_def)
  show ?case using 3 s add_step [OF s(2)] by (cases "10 \<le> ?s") (auto simp: Let_def)
next
  case (4 c)
  then have "c = 0 \<or> c = 1" by unat_arith
  then show ?case by (auto simp: digit_val_def isdigit_def)
qed

lemma BigAddIntelnal_correct:
  assumes "digits l" "digits r"
  shows "digits (BigAddIntelnal l r)"
    and "dec_val 0 (BigAddIntelnal l r) = dec_val 0 l + dec_val 0 r"
  using BigAdd_loop_correct [of "rev l" "rev r" 0] assms
  by (simp_all add: BigAddIntelnal_def dec_val_rval)

section \<open>Subtraction\<close>

text \<open>
  The digits are \<open>int8_t\<close>, the difference is an \<open>int\<close>; the borrow is 0 or -1. The loop
  returns the reversed digits and the last borrow.
\<close>

fun BigSub_loop :: "bytes \<Rightarrow> bytes \<Rightarrow> int \<Rightarrow> bytes \<times> int" where
  "BigSub_loop (b # bs) (l # ls) borrow_digit =
     (let difference = sint (b - c_0) - sint (l - c_0) + borrow_digit;
          borrow_digit = (if difference < 0 then - 1 else 0);
          difference = (if difference < 0 then difference + 10 else difference);
          (ds, borrow_digit) = BigSub_loop bs ls borrow_digit
      in (word_of_int (difference + 48) # ds, borrow_digit))"
| "BigSub_loop (b # bs) [] borrow_digit =
     (let difference = sint (b - c_0) + borrow_digit;
          borrow_digit = (if difference < 0 then - 1 else 0);
          difference = (if difference < 0 then difference + 10 else difference);
          (ds, borrow_digit) = BigSub_loop bs [] borrow_digit
      in (word_of_int (difference + 48) # ds, borrow_digit))"
| "BigSub_loop [] ls borrow_digit = ([], borrow_digit)"

definition BigSubIntelnal :: "bytes \<Rightarrow> bytes \<Rightarrow> bytes res" where
  "BigSubIntelnal post_ln post_rn =
     (case GetBigAndLitteNum post_ln post_rn of (post_big, post_litte, sub_flags) \<Rightarrow>
      if sub_flags = 0 then Inr [c_0]
      else case BigSub_loop (rev post_big) (rev post_litte) 0 of (tmp_diff, borrow_digit) \<Rightarrow>
        if borrow_digit \<noteq> 0 then Inl kSubError
        else let tmp_result = TrimRight_ch tmp_diff c_0;
                 tmp_result = (if sub_flags < 0 then tmp_result @ [c_minus] else tmp_result)
             in Inr (Reverse tmp_result))"

lemma sint_digit: "isdigit c \<Longrightarrow> sint (c - c_0) = int (digit_val c)"
proof -
  assume c: "isdigit c"
  then have "unat (c - c_0) \<in> {..<10}" using digit_val_le [of c] by (simp add: digit_val_def)
  then have "unat (c - c_0) < 10" by simp
  then have "sint (c - c_0) = int (unat (c - c_0))"
    by (rule word_less_cases [where w = "c - c_0"]) (simp add: upt_rec)
  then show ?thesis by (simp add: digit_val_def)
qed

lemma sub_digit:
  assumes "0 \<le> d" "d < 10"
  shows "isdigit (word_of_int (d + 48)) \<and> digit_val (word_of_int (d + 48)) = nat d"
proof -
  from assms obtain n where n: "d = int n" "n \<in> set [0..<10]" by (auto elim: nonneg_int_cases)
  have "\<forall>n \<in> set [0..<10]. isdigit (word_of_int (int n + 48)) \<and> digit_val (word_of_int (int n + 48)) = n"
    by (simp add: upt_rec isdigit_def digit_val_def)
  with n show ?thesis by (metis nat_int)
qed

lemma sub_step:
  assumes "- 10 \<le> d" "d \<le> 9"
  shows "isdigit (word_of_int ((if d < 0 then d + 10 else d) + 48))"
    and "int (digit_val (word_of_int ((if d < 0 then d + 10 else d) + 48)))
      = d - 10 * (if d < 0 then - 1 else 0)"
  using assms sub_digit [of "if d < 0 then d + 10 else d"] by (auto split: if_splits)

lemma BigSub_loop_correct:
  assumes "digits bs" "digits ls" "length ls \<le> length bs" "c = 0 \<or> c = - 1"
    and "BigSub_loop bs ls c = (ds, c')"
  shows "digits ds" "length ds = length bs" "c' = 0 \<or> c' = - 1"
    "int (rval ds) = int (rval bs) - int (rval ls) + c - c' * 10 ^ length bs"
proof -
  have "digits ds \<and> length ds = length bs \<and> (c' = 0 \<or> c' = - 1) \<and>
    int (rval ds) = int (rval bs) - int (rval ls) + c - c' * 10 ^ length bs"
    using assms
  proof (induction bs ls c arbitrary: ds c' rule: BigSub_loop.induct)
    case (1 b bs l ls c)
    define d where "d = sint (b - c_0) - sint (l - c_0) + c"
    obtain es where es: "BigSub_loop bs ls (if d < 0 then - 1 else 0) = (es, c')"
      "ds = word_of_int ((if d < 0 then d + 10 else d) + 48) # es"
      using 1(6) by (auto simp: Let_def d_def [symmetric] split: prod.splits)
    have d: "d = int (digit_val b) - int (digit_val l) + c" "- 10 \<le> d" "d \<le> 9"
      using 1(2,3,5) digit_val_le [of b] digit_val_le [of l] by (auto simp: d_def sint_digit)
    from 1(1) [OF d_def refl refl _ _ _ _ es(1)] 1(2-4) have
      "digits es \<and> length es = length bs \<and> (c' = 0 \<or> c' = - 1) \<and>
        int (rval es) = int (rval bs) - int (rval ls) + (if d < 0 then - 1 else 0) - c' * 10 ^ length bs"
      by auto
    then show ?case using sub_step [OF d(2,3)] d(1) by (auto simp: es(2) algebra_simps split: if_splits)
  next
    case (2 b bs c)
    define d where "d = sint (b - c_0) + c"
    obtain es where es: "BigSub_loop bs [] (if d < 0 then - 1 else 0) = (es, c')"
      "ds = word_of_int ((if d < 0 then d + 10 else d) + 48) # es"
      using 2(6) by (auto simp: Let_def d_def [symmetric] split: prod.splits)
    have d: "d = int (digit_val b) + c" "- 10 \<le> d" "d \<le> 9"
      using 2(2,5) digit_val_le [of b] by (auto simp: d_def sint_digit)
    from 2(1) [OF d_def refl refl _ _ _ _ es(1)] 2(2-4) have
      "digits es \<and> length es = length bs \<and> (c' = 0 \<or> c' = - 1) \<and>
        int (rval es) = int (rval bs) + (if d < 0 then - 1 else 0) - c' * 10 ^ length bs"
      by auto
    then show ?case using sub_step [OF d(2,3)] d(1) by (auto simp: es(2) algebra_simps split: if_splits)
  qed auto
  then show "digits ds" "length ds = length bs" "c' = 0 \<or> c' = - 1"
    "int (rval ds) = int (rval bs) - int (rval ls) + c - c' * 10 ^ length bs" by auto
qed

text \<open>Comparing canonical digit strings compares their values.\<close>

lemma dec_val_Cons: "dec_val 0 (c # s) = digit_val c * 10 ^ length s + dec_val 0 s"
  by (simp add: dec_val_rev rval_append)

declare dec_val.simps(2) [simp del] dec_val_Cons [simp]

lemma dec_val_less: "digits s \<Longrightarrow> dec_val 0 s < 10 ^ length s"
  using rval_less [of "rev s"] by (simp add: dec_val_rval)

lemma sint_digit_char: "isdigit c \<Longrightarrow> sint c = 48 + int (digit_val c)"
proof -
  assume c: "isdigit c"
  have "\<forall>k \<in> set [0..<10]. sint (word_of_nat k + c_0) = 48 + int (unat (word_of_nat k :: byte))"
    by (simp add: upt_rec)
  moreover have "unat (c - c_0) < 10" using digit_val_le [OF c] by (simp add: digit_val_def)
  ultimately have "sint (c - c_0 + c_0) = 48 + int (unat (c - c_0))" by (intro word_less_cases)
  then show ?thesis by (simp add: digit_val_def)
qed

lemma digit_val_inj: "digit_val a = digit_val b \<Longrightarrow> a = b"
  by (simp add: digit_val_def flip: word_unat_eq_iff)

lemma first_diff_correct:
  assumes "length l = length r" "digits l" "digits r"
  shows "first_diff l r = (if dec_val 0 r < dec_val 0 l then 1
    else if dec_val 0 l < dec_val 0 r then - 1 else 0) \<and> (dec_val 0 l = dec_val 0 r \<longrightarrow> l = r)"
  using assms
proof (induction l r rule: list_induct2)
  case (Cons a l b r)
  have lt: "x < y \<Longrightarrow> dec_val 0 s < 10 ^ length s \<Longrightarrow>
      x * 10 ^ length s + dec_val 0 s < y * 10 ^ length s + dec_val 0 t" for x y s t
    using mult_le_mono1 [of "Suc x" y "10 ^ length s"] by simp
  have "a <s b \<longleftrightarrow> digit_val a < digit_val b" "b <s a \<longleftrightarrow> digit_val b < digit_val a"
    using Cons.prems by (auto simp: word_sless_alt sint_digit_char)
  then show ?case
    using Cons digit_val_inj [of a b] lt [of "digit_val a" "digit_val b" l r]
      lt [of "digit_val b" "digit_val a" r l] dec_val_less [of l] dec_val_less [of r]
    by (cases "digit_val a" "digit_val b" rule: linorder_cases) auto
qed simp

lemma canonical_iff: "canonical s \<longleftrightarrow>
    digits s \<and> s \<noteq> [] \<and> (length s = 1 \<or> 10 ^ (length s - 1) \<le> dec_val 0 s)"
proof (cases s)
  case (Cons c t)
  have "c = c_0 \<longleftrightarrow> digit_val c = 0"
    using digit_val_inj [of c c_0] by (auto simp: digit_val_def)
  moreover have "10 ^ length t \<le> digit_val c * 10 ^ length t + dec_val 0 t \<longleftrightarrow> 0 < digit_val c"
    if "digits t" using dec_val_less [OF that] by (cases "digit_val c") auto
  ultimately show ?thesis
    by (auto simp: canonical_def Cons)
qed (simp add: canonical_def)

lemma canonical_length_mono:
  assumes "canonical l" "canonical r" "length r < length l"
  shows "dec_val 0 r < dec_val 0 l"
proof -
  have "length r \<le> length l - 1" "length l \<noteq> 1" using assms by (auto simp: canonical_iff)
  then have "(10::nat) ^ length r \<le> 10 ^ (length l - 1)" by (intro power_increasing) auto
  moreover have "dec_val 0 r < 10 ^ length r" using assms by (intro dec_val_less) (simp add: canonical_iff)
  moreover have "10 ^ (length l - 1) \<le> dec_val 0 l"
    using assms(1) \<open>length l \<noteq> 1\<close> unfolding canonical_iff by blast
  ultimately show ?thesis by linarith
qed

text \<open>The specification of the comparison.\<close>

lemma GetBigAndLitteNum_correct:
  assumes "canonical l" "canonical r"
  shows "GetBigAndLitteNum l r =
    (if dec_val 0 r < dec_val 0 l then (l, r, 1)
     else if dec_val 0 l < dec_val 0 r then (r, l, - 1) else ([], [], 0))"
proof (cases "length l" "length r" rule: linorder_cases)
  case equal
  with first_diff_correct [of l r] assms show ?thesis
    by (auto simp: GetBigAndLitteNum_def canonical_def)
qed (use canonical_length_mono [of l r] canonical_length_mono [of r l] assms in
    \<open>auto simp: GetBigAndLitteNum_def\<close>)

lemma canonical_value_unique:
  assumes "canonical l" "canonical r" "dec_val 0 l = dec_val 0 r"
  shows "l = r"
  using assms canonical_length_mono [of l r] canonical_length_mono [of r l] first_diff_correct [of l r]
  by (cases "length l" "length r" rule: linorder_cases) (auto simp: canonical_def)

text \<open>\<open>BigSubIntelnal\<close> never fails on canonical operands and returns the signed difference.\<close>

definition signed_num :: "int \<Rightarrow> bytes \<Rightarrow> bool" where
  "signed_num v t \<longleftrightarrow> (if v < 0 then t \<noteq> [] \<and> hd t = c_minus \<and> canonical (tl t) \<and> int (dec_val 0 (tl t)) = - v
     else canonical t \<and> int (dec_val 0 t) = v)"

lemma signed_num_unique: "signed_num v s \<Longrightarrow> signed_num v t \<Longrightarrow> s = t"
  using canonical_value_unique [of s t] canonical_value_unique [of "tl s" "tl t"]
  by (auto simp: signed_num_def list.expand split: if_splits)

lemma signed_num_number_val: "signed_num v t \<Longrightarrow> is_number t \<and> number_val t = v"
  by (cases t) (auto simp: signed_num_def is_number_def number_val_def canonical_def split: if_splits)

lemma sub_digits:
  assumes "canonical b" "canonical l" "dec_val 0 l < dec_val 0 b"
  shows "\<exists>ds. BigSub_loop (rev b) (rev l) 0 = (ds, 0) \<and> digits ds \<and>
    rval ds = dec_val 0 b - dec_val 0 l"
proof -
  obtain ds c' where r: "BigSub_loop (rev b) (rev l) 0 = (ds, c')" by fastforce
  have "length l \<le> length b"
    using assms canonical_length_mono [of l b] by linarith
  from BigSub_loop_correct [OF _ _ _ _ r] assms this have
    d: "digits ds" "length ds = length b" "c' = 0 \<or> c' = - 1"
      "int (rval ds) = int (dec_val 0 b) - int (dec_val 0 l) - c' * 10 ^ length b"
    by (auto simp: canonical_def dec_val_rval)
  have "rval ds < 10 ^ length b" using rval_less [OF d(1)] d(2) by simp
  then have "int (rval ds) < 10 ^ length b" by (metis of_nat_less_iff of_nat_numeral of_nat_power)
  with d assms(3) have "c' = 0" by auto
  with d r assms(3) show ?thesis by auto
qed

lemma trimmed_diff:
  assumes "digits ds" "0 < rval ds"
  shows "canonical (rev (TrimRight_ch ds c_0))" "dec_val 0 (rev (TrimRight_ch ds c_0)) = rval ds"
proof -
  have eq: "rev (TrimRight_ch ds c_0) = TrimLeft_ch (rev ds) c_0"
    by (simp add: TrimRight_ch_def TrimLeft_ch_def)
  have "TrimLeft_ch (rev ds) c_0 \<noteq> []"
    using canonical_trim(2) [of "rev ds"] assms by (auto simp: dec_val_rval digit_val_def)
  with canonical_trim [of "rev ds"] assms show "canonical (rev (TrimRight_ch ds c_0))"
    "dec_val 0 (rev (TrimRight_ch ds c_0)) = rval ds"
    by (auto simp: eq dec_val_rval)
qed

lemma BigSubIntelnal_correct:
  assumes "canonical l" "canonical r"
  shows "\<exists>t. BigSubIntelnal l r = Inr t \<and> signed_num (int (dec_val 0 l) - int (dec_val 0 r)) t"
proof (cases "dec_val 0 l" "dec_val 0 r" rule: linorder_cases)
  case less
  with sub_digits [OF assms(2,1)] obtain ds where
    ds: "BigSub_loop (rev r) (rev l) 0 = (ds, 0)" "digits ds" "rval ds = dec_val 0 r - dec_val 0 l"
    by blast
  with trimmed_diff [of ds] less assms show ?thesis
    by (auto simp: BigSubIntelnal_def GetBigAndLitteNum_correct signed_num_def)
next
  case equal
  with assms show ?thesis
    by (auto simp: BigSubIntelnal_def GetBigAndLitteNum_correct signed_num_def canonical_def digit_val_def)
next
  case greater
  with sub_digits [OF assms] obtain ds where
    ds: "BigSub_loop (rev l) (rev r) 0 = (ds, 0)" "digits ds" "rval ds = dec_val 0 l - dec_val 0 r"
    by blast
  with trimmed_diff [of ds] greater assms show ?thesis
    by (auto simp: BigSubIntelnal_def GetBigAndLitteNum_correct signed_num_def)
qed

text \<open>The sum of canonical operands is canonical.\<close>

lemma carry_char: "unat c \<le> 1 \<Longrightarrow> 1 \<le> c \<Longrightarrow> digit_val (c + c_0) = 1"
  by (simp add: digit_val_def word_le_nat_alt)

lemma length_BigAdd_loop:
  assumes "unat c \<le> 1"
  shows "length (BigAdd_loop ls rs c) = max (length ls) (length rs) \<or>
    (length (BigAdd_loop ls rs c) = Suc (max (length ls) (length rs)) \<and>
     10 ^ max (length ls) (length rs) \<le> rval (BigAdd_loop ls rs c))"
  using assms
proof (induction ls rs c rule: BigAdd_loop.induct)
  case (1 l ls r rs c)
  then show ?case by (cases "10 \<le> (l - c_0) + (r - c_0) + c") (auto simp: Let_def)
next
  case (2 l ls c)
  then show ?case by (cases "10 \<le> (l - c_0) + c") (auto simp: Let_def)
next
  case (3 r rs c)
  then show ?case by (cases "10 \<le> (r - c_0) + c") (auto simp: Let_def)
qed (auto simp: carry_char)

lemma canonical_add:
  assumes "canonical l" "canonical r"
  shows "canonical (BigAddIntelnal l r)"
proof -
  let ?s = "BigAddIntelnal l r" and ?m = "max (length l) (length r)"
  have d: "digits ?s" "dec_val 0 ?s = dec_val 0 l + dec_val 0 r"
    using BigAddIntelnal_correct assms by (auto simp: canonical_def)
  have len: "length ?s = ?m \<or> (length ?s = Suc ?m \<and> 10 ^ ?m \<le> dec_val 0 ?s)"
    using length_BigAdd_loop [of 0 "rev l" "rev r"] by (simp add: BigAddIntelnal_def dec_val_rval)
  have "?m = 1 \<or> 10 ^ (?m - 1) \<le> dec_val 0 l + dec_val 0 r" "0 < ?m"
    using assms by (auto simp: canonical_iff max_def intro: trans_le_add1 trans_le_add2)
  with d len show ?thesis by (auto simp: canonical_iff)
qed

section \<open>Multiplication\<close>

text \<open>
  One row: every digit of the right operand times one digit of the left one, with the
  carry in a \<open>uint8_t\<close>. Row \<open>i\<close> starts with \<open>i\<close> zeros.
\<close>

fun BigMultiply_row :: "byte \<Rightarrow> bytes \<Rightarrow> byte \<Rightarrow> bytes" where
  "BigMultiply_row l (r # rs) carry_digit =
     (let sum_digit = (l - c_0) * (r - c_0) + carry_digit;
          carry_digit = sum_digit div 10; sum_digit = sum_digit mod 10
      in (sum_digit + c_0) # BigMultiply_row l rs carry_digit)"
| "BigMultiply_row l [] carry_digit = (if 0 < carry_digit then [carry_digit + c_0] else [])"

definition BigMultiply_rows :: "bytes \<Rightarrow> bytes \<Rightarrow> bytes list" where
  "BigMultiply_rows post_ln post_rn =
     map (\<lambda>i. Reverse (replicate i c_0 @ BigMultiply_row (post_ln ! (length post_ln - 1 - i)) (rev post_rn) 0))
       [0..<length post_ln]"

definition BigMultiplyInternal :: "bytes \<Rightarrow> bytes \<Rightarrow> bytes res" where
  "BigMultiplyInternal post_ln post_rn =
     (if post_ln = [] \<or> post_rn = [] then Inl kInvalidParam
      else case BigMultiply_rows post_ln post_rn of
          [] \<Rightarrow> Inl kInvalidParam
        | row # rows \<Rightarrow>
            let tmp_sum = foldl BigAddIntelnal row rows;
                result = TrimLeft_ch tmp_sum c_0
            in Inr (if result = [] then [c_0] else result))"

lemma BigMultiply_row_correct:
  assumes "isdigit l" "digits rs" "unat c \<le> 8"
  shows "digits (BigMultiply_row l rs c) \<and>
    rval (BigMultiply_row l rs c) = digit_val l * rval rs + unat c"
  using assms
proof (induction l rs c rule: BigMultiply_row.induct)
  case (1 l r rs c)
  let ?s = "(l - c_0) * (r - c_0) + c"
  have "digit_val l * digit_val r \<le> 9 * 9"
    using 1(2,3) by (intro mult_le_mono) (auto intro: digit_val_le)
  then have b: "unat (l - c_0) * unat (r - c_0) \<le> 81" by (simp add: digit_val_def)
  then have m: "unat ((l - c_0) * (r - c_0)) = unat (l - c_0) * unat (r - c_0)"
    by (intro unat_mult_lem [THEN iffD1]) simp
  with b 1(4) have s: "unat ?s = digit_val l * digit_val r + unat c" "unat ?s \<le> 89"
    using unat_add_lem [THEN iffD1, of "(l - c_0) * (r - c_0)" c] by (simp_all add: digit_val_def)
  then have c: "unat (?s div 10) \<le> 8" "unat (?s div 10) = unat ?s div 10" "unat (?s mod 10) = unat ?s mod 10"
    by (simp_all add: unat_div unat_mod)
  have "unat (?s mod 10) < 10" by (simp add: c)
  with 1(1) [OF refl refl refl 1(2) _ c(1)] 1(3) s digit_char [of "?s mod 10"] c show ?case
    by (auto simp: Let_def algebra_simps)
next
  case (2 l c)
  then have "\<not> 0 < c \<Longrightarrow> c = 0" by (simp add: word_neq_0_conv [symmetric])
  then show ?case using 2 digit_char [of c] by auto
qed

lemma rval_row: "rval (replicate i c_0 @ s) = 10 ^ i * rval s"
  by (simp add: rval_append)

text \<open>Every row is a digit string of the right value; their sum is the product.\<close>

definition row_vals :: "bytes \<Rightarrow> nat \<Rightarrow> nat list" where
  "row_vals post_ln v =
     map (\<lambda>i. 10 ^ i * (digit_val (post_ln ! (length post_ln - 1 - i)) * v)) [0..<length post_ln]"

lemma BigMultiply_rows_correct:
  assumes "digits l" "digits r"
  shows "list_all digits (BigMultiply_rows l r)"
    and "map (dec_val 0) (BigMultiply_rows l r) = row_vals l (dec_val 0 r)"
proof -
  have "isdigit (l ! (length l - 1 - i))" if "i < length l" for i
    using that assms(1) by (simp add: digits_def list_all_length)
  from BigMultiply_row_correct [OF this, of _ "rev r" 0] assms
  have row: "digits (BigMultiply_row (l ! (length l - 1 - i)) (rev r) 0)"
    "rval (BigMultiply_row (l ! (length l - 1 - i)) (rev r) 0) = digit_val (l ! (length l - 1 - i)) * dec_val 0 r"
    if "i < length l" for i
    using that by (auto simp: dec_val_rval)
  then show "list_all digits (BigMultiply_rows l r)"
    by (auto simp: BigMultiply_rows_def list_all_iff)
  show "map (dec_val 0) (BigMultiply_rows l r) = row_vals l (dec_val 0 r)"
    using row by (auto simp: BigMultiply_rows_def row_vals_def dec_val_rval rval_row rval_append)
qed

lemma sum_row_vals: "sum_list (row_vals l v) = dec_val 0 l * v"
proof -
  have rval_sum: "(\<Sum>i\<leftarrow>[0..<length s]. 10 ^ i * (digit_val (s ! i) * v)) = rval s * v" for s
  proof (induction s)
    case (Cons c s)
    have "(\<Sum>i\<leftarrow>[0..<length (c # s)]. 10 ^ i * (digit_val ((c # s) ! i) * v))
        = digit_val c * v + 10 * (\<Sum>i\<leftarrow>[0..<length s]. 10 ^ i * (digit_val (s ! i) * v))"
      by (simp add: upt_conv_Cons map_Suc_upt [symmetric] o_def sum_list_const_mult [symmetric] mult.assoc
          del: upt_Suc)
    then show ?case using Cons by (simp add: algebra_simps)
  qed simp
  have "row_vals l v = map (\<lambda>i. 10 ^ i * (digit_val (rev l ! i) * v)) [0..<length (rev l)]"
    by (auto simp: row_vals_def rev_nth)
  then show ?thesis by (simp only: rval_sum dec_val_rval)
qed

lemma foldl_BigAdd:
  assumes "digits t" "list_all digits ts"
  shows "digits (foldl BigAddIntelnal t ts)"
    and "dec_val 0 (foldl BigAddIntelnal t ts) = dec_val 0 t + sum_list (map (dec_val 0) ts)"
  using assms by (induction ts arbitrary: t) (auto simp: BigAddIntelnal_correct)

lemma BigMultiplyInternal_correct:
  assumes "canonical l" "canonical r"
  shows "\<exists>t. BigMultiplyInternal l r = Inr t \<and> canonical t \<and> dec_val 0 t = dec_val 0 l * dec_val 0 r"
proof -
  have d: "digits l" "digits r" "l \<noteq> []" "r \<noteq> []" using assms by (auto simp: canonical_def)
  then have "BigMultiply_rows l r \<noteq> []" by (simp add: BigMultiply_rows_def)
  then obtain row rows where rows: "BigMultiply_rows l r = row # rows" by (cases "BigMultiply_rows l r") auto
  from BigMultiply_rows_correct [OF d(1,2)] have
    "digits row" "list_all digits rows"
    "dec_val 0 row + sum_list (map (dec_val 0) rows) = dec_val 0 l * dec_val 0 r"
    using sum_row_vals [of l "dec_val 0 r"] by (auto simp: rows dest: arg_cong [where f = sum_list])
  with foldl_BigAdd [of row rows] canonical_trim [of "foldl BigAddIntelnal row rows"] d show ?thesis
    by (simp add: BigMultiplyInternal_def rows Let_def)
qed

section \<open>The signed operations\<close>

text \<open>The recognition of the two operands, shared by the three operations.\<close>

definition parse_nums :: "bytes \<Rightarrow> bytes \<Rightarrow> ((bytes \<times> bool) \<times> bytes \<times> bool) res" where
  "parse_nums ln rn =
     (case CheckAndGetIfIsAllNum ln of
        None \<Rightarrow> Inl kNotAllDigits
      | Some l \<Rightarrow> (case CheckAndGetIfIsAllNum rn of
            None \<Rightarrow> Inl kNotAllDigits
          | Some r \<Rightarrow> Inr (l, r)))"

definition BigAdd :: "bytes \<Rightarrow> bytes \<Rightarrow> bytes res" where
  "BigAdd ln rn =
     rbind (parse_nums ln rn) (\<lambda>((post_ln, is_ln_negative), (post_rn, is_rn_negative)).
       if is_ln_negative \<and> is_rn_negative then Inr (c_minus # BigAddIntelnal post_ln post_rn)
       else if \<not> is_ln_negative \<and> \<not> is_rn_negative then Inr (BigAddIntelnal post_ln post_rn)
       else if is_ln_negative \<and> \<not> is_rn_negative then BigSubIntelnal post_rn post_ln
       else BigSubIntelnal post_ln post_rn)"

definition BigSub :: "bytes \<Rightarrow> bytes \<Rightarrow> bytes res" where
  "BigSub ln rn =
     rbind (parse_nums ln rn) (\<lambda>((post_ln, is_ln_negative), (post_rn, is_rn_negative)).
       if is_ln_negative \<and> is_rn_negative then BigSubIntelnal post_rn post_ln
       else if \<not> is_ln_negative \<and> \<not> is_rn_negative then BigSubIntelnal post_ln post_rn
       else if is_ln_negative \<and> \<not> is_rn_negative then Inr (c_minus # BigAddIntelnal post_ln post_rn)
       else Inr (BigAddIntelnal post_ln post_rn))"

definition BigMultiply :: "bytes \<Rightarrow> bytes \<Rightarrow> bytes res" where
  "BigMultiply ln rn =
     rbind (parse_nums ln rn) (\<lambda>((post_ln, is_ln_negative), (post_rn, is_rn_negative)).
       rbind (BigMultiplyInternal post_ln post_rn) (\<lambda>result.
         Inr (if is_ln_negative \<noteq> is_rn_negative \<and> result \<noteq> [c_0] then c_minus # result else result)))"

text \<open>The integer that an operand denotes.\<close>

definition operand :: "bytes \<Rightarrow> int option" where
  "operand s = (let t = Trim s num_delims_str in if is_number t then Some (number_val t) else None)"

lemma parse_nums_Inl: "parse_nums ln rn = Inl e \<longleftrightarrow> e = kNotAllDigits \<and> (operand ln = None \<or> operand rn = None)"
  using CheckAndGetIfIsAllNum_None [of ln] CheckAndGetIfIsAllNum_None [of rn]
  by (auto simp: parse_nums_def operand_def Let_def split: option.splits)

lemma parse_nums_Inr:
  assumes "operand ln = Some a" "operand rn = Some b"
  obtains l ls r rs where "parse_nums ln rn = Inr ((l, ls), (r, rs))" "canonical l" "canonical r"
    "a = (if ls then - int (dec_val 0 l) else int (dec_val 0 l))"
    "b = (if rs then - int (dec_val 0 r) else int (dec_val 0 r))"
proof -
  have "is_number (Trim ln num_delims_str)" "is_number (Trim rn num_delims_str)"
    and v: "a = number_val (Trim ln num_delims_str)" "b = number_val (Trim rn num_delims_str)"
    using assms by (auto simp: operand_def Let_def split: if_splits)
  then obtain l ls r rs where
    "CheckAndGetIfIsAllNum ln = Some (l, ls)" "CheckAndGetIfIsAllNum rn = Some (r, rs)"
    using CheckAndGetIfIsAllNum_None by (metis option.exhaust surj_pair)
  with CheckAndGetIfIsAllNum_Some [of ln l ls] CheckAndGetIfIsAllNum_Some [of rn r rs] v show thesis
    by (intro that [of l ls r rs]) (simp_all add: parse_nums_def)
qed

lemma canonical_number: "canonical t \<Longrightarrow> is_number t \<and> number_val t = int (dec_val 0 t)
    \<and> is_number (c_minus # t) \<and> number_val (c_minus # t) = - int (dec_val 0 t)"
  by (cases t) (auto simp: is_number_def number_val_def canonical_def)

text \<open>
  \<open>is_result v t\<close>: the text denotes \<open>v\<close> and is canonical, except that zero may carry a
  minus sign when \<open>z\<close> holds.
\<close>

definition is_result :: "bool \<Rightarrow> int \<Rightarrow> bytes \<Rightarrow> bool" where
  "is_result z v t \<longleftrightarrow> signed_num v t \<or> (z \<and> v = 0 \<and> t = [c_minus, c_0])"

lemma signed_minus: "canonical t \<Longrightarrow> is_result True (- int (dec_val 0 t)) (c_minus # t)"
  using canonical_value_unique [of t "[c_0]"]
  by (auto simp: is_result_def signed_num_def canonical_def digit_val_def)

lemma signed_plus: "canonical t \<Longrightarrow> int (dec_val 0 t) = v \<Longrightarrow> signed_num v t"
  by (auto simp: signed_num_def)

lemma canonical_zero: "canonical t \<Longrightarrow> dec_val 0 t = 0 \<longleftrightarrow> t = [c_0]"
  using canonical_value_unique [of t "[c_0]"] by (auto simp: canonical_def digit_val_def)

lemma BigAdd_ok:
  assumes "operand ln = Some a" "operand rn = Some b"
  shows "\<exists>t. BigAdd ln rn = Inr t \<and> is_result True (a + b) t"
proof -
  from assms obtain l ls r rs where p: "parse_nums ln rn = Inr ((l, ls), (r, rs))" "canonical l" "canonical r"
    "a = (if ls then - int (dec_val 0 l) else int (dec_val 0 l))"
    "b = (if rs then - int (dec_val 0 r) else int (dec_val 0 r))" by (rule parse_nums_Inr)
  have sum: "canonical (BigAddIntelnal l r)" "dec_val 0 (BigAddIntelnal l r) = dec_val 0 l + dec_val 0 r"
    using p canonical_add BigAddIntelnal_correct by (auto simp: canonical_def)
  show ?thesis
    using BigSubIntelnal_correct [OF p(2,3)] BigSubIntelnal_correct [OF p(3,2)]
      signed_minus [OF sum(1)] signed_plus [OF sum(1) refl] sum(2) p(4,5)
    by (cases ls; cases rs) (auto simp: BigAdd_def p(1) is_result_def)
qed

lemma BigSub_ok:
  assumes "operand ln = Some a" "operand rn = Some b"
  shows "\<exists>t. BigSub ln rn = Inr t \<and> is_result True (a - b) t"
proof -
  from assms obtain l ls r rs where p: "parse_nums ln rn = Inr ((l, ls), (r, rs))" "canonical l" "canonical r"
    "a = (if ls then - int (dec_val 0 l) else int (dec_val 0 l))"
    "b = (if rs then - int (dec_val 0 r) else int (dec_val 0 r))" by (rule parse_nums_Inr)
  have sum: "canonical (BigAddIntelnal l r)" "dec_val 0 (BigAddIntelnal l r) = dec_val 0 l + dec_val 0 r"
    using p canonical_add BigAddIntelnal_correct by (auto simp: canonical_def)
  show ?thesis
    using BigSubIntelnal_correct [OF p(2,3)] BigSubIntelnal_correct [OF p(3,2)]
      signed_minus [OF sum(1)] signed_plus [OF sum(1) refl] sum(2) p(4,5)
    by (cases ls; cases rs) (auto simp: BigSub_def p(1) is_result_def)
qed

lemma BigMultiply_ok:
  assumes "operand ln = Some a" "operand rn = Some b"
  shows "\<exists>t. BigMultiply ln rn = Inr t \<and> signed_num (a * b) t"
proof -
  from assms obtain l ls r rs where p: "parse_nums ln rn = Inr ((l, ls), (r, rs))" "canonical l" "canonical r"
    "a = (if ls then - int (dec_val 0 l) else int (dec_val 0 l))"
    "b = (if rs then - int (dec_val 0 r) else int (dec_val 0 r))" by (rule parse_nums_Inr)
  from BigMultiplyInternal_correct [OF p(2,3)] obtain t where
    t: "BigMultiplyInternal l r = Inr t" "canonical t" "dec_val 0 t = dec_val 0 l * dec_val 0 r" by blast
  then have v: "a * b = (if ls = rs then int (dec_val 0 t) else - int (dec_val 0 t))"
    using p(4,5) by auto
  show ?thesis
    using canonical_zero [OF t(2)] t(2) unfolding v
    by (cases "ls = rs"; cases "t = [c_0]") (auto simp: BigMultiply_def p(1) t(1) signed_num_def)
qed

lemma BigNum_errors_aux:
  "(BigAdd ln rn = Inl e \<longleftrightarrow> parse_nums ln rn = Inl e) \<and>
   (BigSub ln rn = Inl e \<longleftrightarrow> parse_nums ln rn = Inl e) \<and>
   (BigMultiply ln rn = Inl e \<longleftrightarrow> parse_nums ln rn = Inl e) \<and>
   (parse_nums ln rn = Inl e \<longleftrightarrow> e = kNotAllDigits \<and> (operand ln = None \<or> operand rn = None))"
proof (cases "operand ln = None \<or> operand rn = None")
  case True
  then have "parse_nums ln rn = Inl kNotAllDigits" by (simp add: parse_nums_Inl)
  with True show ?thesis by (auto simp: BigAdd_def BigSub_def BigMultiply_def)
next
  case False
  then obtain a b where "operand ln = Some a" "operand rn = Some b" by auto
  with BigAdd_ok BigSub_ok BigMultiply_ok show ?thesis
    by (metis False parse_nums_Inl Inl_Inr_False)
qed

section \<open>Properties\<close>

text \<open>C1: multiplication of two decimal numerals returns the numeral of the product, canonical
  (no leading zeros, no minus sign on zero).\<close>
theorem BigMultiply_product:
  assumes "operand ln = Some a" "operand rn = Some b"
  shows "\<exists>t. BigMultiply ln rn = Inr t \<and> signed_num (a * b) t"
  using assms by (rule BigMultiply_ok)

lemma operand_samples:
  "operand [c_space, c_minus, 49, 50] = Some (- 12)" "operand [c_plus, 48, 55] = Some 7"
  by (simp_all add: operand_def Trim_def TrimLeft_def TrimRight_def num_delims_str_def is_number_def
      number_val_def isdigit_def digit_val_def)

theorem BigMultiply_product_witness:
  "\<exists>t. BigMultiply [c_space, c_minus, 49, 50] [c_plus, 48, 55] = Inr t \<and> signed_num (- 12 * 7) t"
  by (rule BigMultiply_product [OF operand_samples])

text \<open>C2: addition and subtraction of two decimal numerals return a numeral of the sum and of
  the difference; it is canonical, except that a zero may carry a minus sign.\<close>
theorem BigAdd_BigSub_value:
  assumes "operand ln = Some a" "operand rn = Some b"
  shows "(\<exists>t. BigAdd ln rn = Inr t \<and> is_result True (a + b) t) \<and>
    (\<exists>t. BigSub ln rn = Inr t \<and> is_result True (a - b) t)"
  using assms by (intro conjI BigAdd_ok BigSub_ok)

theorem BigAdd_BigSub_value_witness:
  "(\<exists>t. BigAdd [c_space, c_minus, 49, 50] [c_plus, 48, 55] = Inr t \<and> is_result True (- 12 + 7) t) \<and>
    (\<exists>t. BigSub [c_space, c_minus, 49, 50] [c_plus, 48, 55] = Inr t \<and> is_result True (- 12 - 7) t)"
  by (rule BigAdd_BigSub_value [OF operand_samples])

text \<open>C3: the three operations fail exactly when an operand, with its white space and plus signs
  trimmed off, is not an optional minus sign and digits; the code is always \<open>kNotAllDigits\<close>.\<close>
theorem BigNum_errors:
  "(BigAdd ln rn = Inl e \<longleftrightarrow> e = kNotAllDigits \<and> (operand ln = None \<or> operand rn = None)) \<and>
   (BigSub ln rn = Inl e \<longleftrightarrow> e = kNotAllDigits \<and> (operand ln = None \<or> operand rn = None)) \<and>
   (BigMultiply ln rn = Inl e \<longleftrightarrow> e = kNotAllDigits \<and> (operand ln = None \<or> operand rn = None))"
  using BigNum_errors_aux [of ln rn e] by auto

text \<open>The sum of two negative zeros is spelled with a minus sign, unlike the product.\<close>

lemma BigAdd_negative_zero:
  "BigAdd [c_minus, c_0] [c_minus, c_0] = Inr [c_minus, c_0] \<and>
   BigMultiply [c_minus, c_0] [c_minus, c_0] = Inr [c_0] \<and> BigSub [c_minus, c_0] [c_0] = Inr [c_minus, c_0]"
  by (simp add: BigAdd_def BigMultiply_def BigSub_def parse_nums_def CheckAndGetIfIsAllNum_def Trim_def
      TrimLeft_def TrimRight_def TrimLeft_ch_def num_delims_str_def BigAddIntelnal_def
      BigMultiplyInternal_def BigMultiply_rows_def Let_def)

end
