(* ===== verification/Int_Funs.thy ===== *)
theory Int_Funs
  imports Big_Int "HOL-Library.Sublist"
begin

unbundle bit_operations_syntax

text \<open>
  The machine-integer functions of base/int.cc: parsing of integers (\<open>GetInt64\<close> and its
  relatives, over the C library's \<open>strtoull\<close>, which is modelled with its skipping of white
  space, sign, prefix, overflow and end pointer), rounding division, greatest common
  divisor and least common multiple at their widths, bit reversal and the maximal sum of
  a contiguous segment with signed overflow written out.
\<close>

section \<open>The library function strtoull\<close>

datatype errno = ERANGE | EINVAL

definition isspace :: "byte \<Rightarrow> bool" where
  "isspace c \<longleftrightarrow> c = c_space \<or> (9 \<le> c \<and> c \<le> 13)"

definition char_digit :: "byte \<Rightarrow> nat" where
  "char_digit c =
     (if c_0 \<le> c \<and> c \<le> c_9 then unat c - 48
      else if c_a \<le> c \<and> c \<le> c_z then unat c - 87
      else if c_A \<le> c \<and> c \<le> c_Z then unat c - 55 else 36)"

fun base_val :: "nat \<Rightarrow> nat \<Rightarrow> bytes \<Rightarrow> nat" where
  "base_val base acc [] = acc"
| "base_val base acc (c # s) = base_val base (base * acc + char_digit c) s"

definition hex_prefix :: "bytes \<Rightarrow> bool" where
  "hex_prefix s \<longleftrightarrow> 2 < length s \<and> s ! 0 = c_0 \<and> (s ! 1 = 120 \<or> s ! 1 = 88) \<and> char_digit (s ! 2) < 16"

text \<open>The value, the error number and the text from \<open>end_ptr\<close> on.\<close>

definition strtoull :: "bytes \<Rightarrow> nat \<Rightarrow> 64 word \<times> errno option \<times> bytes" where
  "strtoull s base =
     (if base = 1 \<or> 36 < base then (0, Some EINVAL, s)
      else
        let t = dropWhile isspace s;
            negative = (t \<noteq> [] \<and> hd t = c_minus);
            t = (if t \<noteq> [] \<and> (hd t = c_minus \<or> hd t = c_plus) then tl t else t);
            (base, t) =
              (if (base = 0 \<or> base = 16) \<and> hex_prefix t then (16, drop 2 t)
               else if base = 0 then (if t \<noteq> [] \<and> hd t = c_0 then 8 else 10, t)
               else (base, t));
            ds = takeWhile (\<lambda>c. char_digit c < base) t
        in if ds = [] then (0, None, s)
           else let n = base_val base 0 ds; rest = drop (length ds) t in
             if 2 ^ 64 \<le> n then (- 1, Some ERANGE, rest)
             else (if negative then - word_of_nat n else word_of_nat n, None, rest))"

section \<open>Parsing of integers\<close>

definition GetUInt64_base :: "bytes \<Rightarrow> int \<Rightarrow> 64 word res" where
  "GetUInt64_base str base =
     (if base < 0 \<or> 36 < base then Inl kInvalidParam
      else case strtoull (c_str str) (nat base) of (v, errno, end_ptr) \<Rightarrow>
        if (errno = Some ERANGE \<and> v = - 1) \<or> (errno \<noteq> None \<and> v = 0) then Inl kStrtollFailed
        else if length end_ptr = length (c_str str) then Inl kNoDigits
        else if end_ptr \<noteq> [] then Inl kNotAllDigits
        else Inr v)"

text \<open>\<open>GetInt64\<close> has the same body and returns the same bits as an \<open>int64_t\<close>.\<close>

definition GetInt64_base :: "bytes \<Rightarrow> int \<Rightarrow> 64 word res" where
  "GetInt64_base str base =
     (if base < 0 \<or> 36 < base then Inl kInvalidParam
      else case strtoull (c_str str) (nat base) of (v, errno, end_ptr) \<Rightarrow>
        if (errno = Some ERANGE \<and> v = - 1) \<or> (errno \<noteq> None \<and> v = 0) then Inl kStrtollFailed
        else if length end_ptr = length (c_str str) then Inl kNoDigits
        else if end_ptr \<noteq> [] then Inl kNotAllDigits
        else Inr v)"

definition GetInt64 :: "bytes \<Rightarrow> 64 word res" where
  "GetInt64 str = GetInt64_base str 10"

definition GetUInt64 :: "bytes \<Rightarrow> 64 word res" where
  "GetUInt64 str = GetUInt64_base str 10"

definition GetInt64ByHex :: "bytes \<Rightarrow> 64 word res" where
  "GetInt64ByHex hex_str = GetInt64_base hex_str 16"

definition GetUInt64ByHex :: "bytes \<Rightarrow> 64 word res" where
  "GetUInt64ByHex hex_str = GetUInt64_base hex_str 16"

definition GetInt32 :: "bytes \<Rightarrow> 32 word res" where
  "GetInt32 str = rbind (GetInt64 str) (\<lambda>num_tmp. Inr (ucast num_tmp))"

definition GetUInt32 :: "bytes \<Rightarrow> 32 word res" where
  "GetUInt32 str = rbind (GetUInt64 str) (\<lambda>num_tmp. Inr (ucast num_tmp))"

definition GetInt32ByHex :: "bytes \<Rightarrow> 32 word res" where
  "GetInt32ByHex hex_str = rbind (GetInt64ByHex hex_str) (\<lambda>num_tmp. Inr (ucast num_tmp))"

definition GetUInt32ByHex :: "bytes \<Rightarrow> 32 word res" where
  "GetUInt32ByHex hex_str = rbind (GetUInt64ByHex hex_str) (\<lambda>num_tmp. Inr (ucast num_tmp))"

lemma char_digit_isdigit: "isdigit c \<Longrightarrow> char_digit c = digit_val c \<and> \<not> isspace c \<and> c \<noteq> c_minus \<and> c \<noteq> c_plus \<and> c \<noteq> 0"
proof -
  assume "isdigit c"
  then have "unat (c - c_0) < 10" using digit_val_le [of c] by (simp add: digit_val_def)
  moreover have "\<forall>k \<in> set [0..<10]. char_digit (word_of_nat k + c_0) = digit_val (word_of_nat k + c_0) \<and>
      \<not> isspace (word_of_nat k + c_0) \<and> word_of_nat k + c_0 \<noteq> c_minus \<and> word_of_nat k + c_0 \<noteq> c_plus \<and>
      word_of_nat k + c_0 \<noteq> 0"
    by (simp add: upt_rec char_digit_def digit_val_def isspace_def)
  ultimately have "char_digit (c - c_0 + c_0) = digit_val (c - c_0 + c_0) \<and> \<not> isspace (c - c_0 + c_0)
      \<and> c - c_0 + c_0 \<noteq> c_minus \<and> c - c_0 + c_0 \<noteq> c_plus \<and> c - c_0 + c_0 \<noteq> 0"
    by (rule word_less_cases)
  then show ?thesis by simp
qed

lemma base_val_digits: "digits s \<Longrightarrow> base_val 10 acc s = acc * 10 ^ length s + dec_val 0 s"
  by (induction s arbitrary: acc) (auto simp: char_digit_isdigit algebra_simps)

lemma takeWhile_digits: "digits s \<Longrightarrow> takeWhile (\<lambda>c. char_digit c < 10) s = s"
  by (induction s) (auto simp: char_digit_isdigit dest: digit_val_le)

lemma strtoull_digits:
  assumes "digits s" "s \<noteq> []"
  shows "strtoull s 10 = (if 2 ^ 64 \<le> dec_val 0 s then - 1 else word_of_nat (dec_val 0 s),
      if 2 ^ 64 \<le> dec_val 0 s then Some ERANGE else None, [])"
    and "strtoull (c_minus # s) 10 = (if 2 ^ 64 \<le> dec_val 0 s then - 1 else - word_of_nat (dec_val 0 s),
      if 2 ^ 64 \<le> dec_val 0 s then Some ERANGE else None, [])"
proof -
  obtain c t where s: "s = c # t" "isdigit c" using assms by (cases s) auto
  have "dropWhile isspace s = s" "hd s \<noteq> c_minus" "hd s \<noteq> c_plus" "\<not> isspace c_minus"
    using s char_digit_isdigit by (auto simp: isspace_def)
  note eqs = this takeWhile_digits [OF assms(1)] base_val_digits [OF assms(1), of 0] assms(2)
  show "strtoull s 10 = (if 2 ^ 64 \<le> dec_val 0 s then - 1 else word_of_nat (dec_val 0 s),
      if 2 ^ 64 \<le> dec_val 0 s then Some ERANGE else None, [])"
    "strtoull (c_minus # s) 10 = (if 2 ^ 64 \<le> dec_val 0 s then - 1 else - word_of_nat (dec_val 0 s),
      if 2 ^ 64 \<le> dec_val 0 s then Some ERANGE else None, [])"
    by (simp_all add: strtoull_def Let_def eqs)
qed

lemma c_str_digits: "digits s \<Longrightarrow> c_str s = s" "digits s \<Longrightarrow> c_str (c_minus # s) = c_minus # s"
  by (induction s) (auto simp: c_str_def char_digit_isdigit)

text \<open>What the decimal parsers do with a signed decimal numeral.\<close>

lemma number_cases:
  assumes "is_number t"
  obtains "digits t" "t \<noteq> []" "number_val t = int (dec_val 0 t)"
  | s where "t = c_minus # s" "digits s" "s \<noteq> []" "number_val t = - int (dec_val 0 s)"
proof (cases "hd t = c_minus")
  case True
  with assms that(2) [of "tl t"] show ?thesis by (cases t) (auto simp: is_number_def number_val_def)
next
  case False
  with assms that(1) show ?thesis by (auto simp: is_number_def number_val_def)
qed

lemma GetInt64_number:
  assumes "is_number t"
  shows "GetInt64 t = (if \<bar>number_val t\<bar> < 2 ^ 64 then Inr (word_of_int (number_val t)) else Inl kStrtollFailed)"
proof -
  have big: "2 ^ 64 \<le> n \<longleftrightarrow> \<not> int n < 2 ^ 64" for n :: nat
    by (metis of_nat_less_iff of_nat_numeral of_nat_power linorder_not_le)
  from assms show ?thesis
    by (cases rule: number_cases)
      (auto simp: GetInt64_def GetInt64_base_def strtoull_digits c_str_digits big split: if_splits)
qed

lemma GetUInt64_eq: "GetUInt64_base = GetInt64_base"
  by (intro ext) (simp add: GetUInt64_base_def GetInt64_base_def)

section \<open>Division, greatest common divisor, least common multiple\<close>

definition GetUpDivValue :: "64 word \<Rightarrow> 64 word \<Rightarrow> 64 word res" where
  "GetUpDivValue dividend divisor =
     (if divisor = 0 then Inl kInvalidParam else Inr ((dividend + divisor - 1) div divisor))"

function GCD_loop :: "64 word \<Rightarrow> 64 word \<Rightarrow> 64 word" where
  "GCD_loop tmp_first tmp_second =
     (let divisor = tmp_first mod tmp_second in
      if divisor \<noteq> 0 \<and> tmp_second \<noteq> 0 then GCD_loop tmp_second divisor else tmp_second)"
  by pat_completeness auto
termination
  by (relation "measure (\<lambda>(_, b). unat b)")
    (auto simp: unat_mod intro!: mod_less_divisor simp: unat_gt_0)

declare GCD_loop.simps [simp del]

definition GCD_u64 :: "64 word \<Rightarrow> 64 word \<Rightarrow> 64 word" where
  "GCD_u64 first second =
     (if first = 0 \<or> second = 0 \<or> first = 1 \<or> second = 1 then 1 else GCD_loop first second)"

definition LCM_u32 :: "32 word \<Rightarrow> 32 word \<Rightarrow> 64 word" where
  "LCM_u32 first second =
     (if first = 0 \<or> second = 0 then 0
      else ucast (first * second) div GCD_u64 (ucast first) (ucast second))"

lemma GCD_loop_correct: "b \<noteq> 0 \<Longrightarrow> unat (GCD_loop a b) = gcd (unat a) (unat b)"
proof (induction a b rule: GCD_loop.induct)
  case (1 a b)
  have "gcd (unat a) (unat b) = gcd (unat b) (unat (a mod b))"
    by (metis gcd.commute gcd_red_nat unat_mod)
  with 1 show ?case by (cases "a mod b = 0") (subst GCD_loop.simps, auto simp: Let_def)+
qed

lemma GCD_u64_spec: "unat (GCD_u64 a b) = (if a = 0 \<or> b = 0 then 1 else gcd (unat a) (unat b))"
  using GCD_loop_correct [of b a] by (auto simp: GCD_u64_def)

lemma unat_ucast_64: "unat (ucast (w :: 32 word) :: 64 word) = unat w"
  using unsigned_less [where 'a = nat, of w] by (simp add: unsigned_ucast_eq take_bit_nat_eq_self)

lemma LCM_u32_spec:
  "unat (LCM_u32 a b) = (if a = 0 \<or> b = 0 then 0 else unat a * unat b mod 2 ^ 32 div gcd (unat a) (unat b))"
proof -
  have "ucast w = (0 :: 64 word) \<longleftrightarrow> w = 0" for w :: "32 word"
    by (metis unat_eq_zero unat_ucast_64)
  then show ?thesis
    by (auto simp: LCM_u32_def unat_div GCD_u64_spec unat_ucast_64 unat_word_ariths)
qed

lemma GetUpDivValue_spec:
  assumes "b \<noteq> 0" "unat a + unat b \<le> 2 ^ 64"
  shows "\<exists>v. GetUpDivValue a b = Inr v \<and> unat v = (unat a + unat b - 1) div unat b"
proof -
  have b: "0 < unat b" using assms(1) by (simp add: unat_gt_0)
  have "a + b - 1 = word_of_nat (unat a + unat b - 1)"
    using b by (simp add: of_nat_diff)
  moreover have "unat a + unat b - 1 < 2 ^ LENGTH(64)" using assms(2) b by simp
  ultimately have "unat (a + b - 1) = unat a + unat b - 1" by (simp only: unsigned_of_nat take_bit_nat_eq_self of_nat_id)
  then show ?thesis using assms(1) by (simp add: GetUpDivValue_def unat_div)
qed

section \<open>Bit reversal\<close>

text \<open>The loop runs for \<open>loop\<close> = 32, 16, 8, 4, 2, 1.\<close>

definition ReverseBits_step :: "nat \<Rightarrow> 64 word \<times> 64 word \<Rightarrow> 64 word \<times> 64 word" where
  "ReverseBits_step loop st =
     (case st of (msk, tmp) \<Rightarrow>
        let msk = msk XOR drop_bit loop msk
        in (msk, (push_bit loop tmp AND msk) OR (drop_bit loop tmp AND NOT msk)))"

definition ReverseBits :: "64 word \<Rightarrow> 64 word" where
  "ReverseBits source = snd (fold ReverseBits_step [32, 16, 8, 4, 2, 1] (- 1, source))"

text \<open>Under a constant mask one step swaps neighbouring groups of bits.\<close>

definition swap_groups :: "nat \<Rightarrow> 64 word \<Rightarrow> 64 word \<Rightarrow> 64 word" where
  "swap_groups loop m w = (push_bit loop w AND m) OR (drop_bit loop w AND NOT m)"

lemma bit_swap_groups:
  "i < 64 \<Longrightarrow> bit (swap_groups loop m w) i =
    (if bit m i then loop \<le> i \<and> bit w (i - loop) else bit w (i + loop))"
  by (auto simp: swap_groups_def bit_simps add.commute)

lemma ReverseBits_step_groups:
  "ReverseBits_step loop (m, w) = (m XOR drop_bit loop m, swap_groups loop (m XOR drop_bit loop m) w)"
  by (simp add: ReverseBits_step_def swap_groups_def Let_def)

lemma ReverseBits_masks:
  "(- 1 :: 64 word) XOR drop_bit 32 (- 1) = 0xFFFFFFFF00000000"
  "(0xFFFFFFFF00000000 :: 64 word) XOR drop_bit 16 0xFFFFFFFF00000000 = 0xFFFF0000FFFF0000"
  "(0xFFFF0000FFFF0000 :: 64 word) XOR drop_bit 8 0xFFFF0000FFFF0000 = 0xFF00FF00FF00FF00"
  "(0xFF00FF00FF00FF00 :: 64 word) XOR drop_bit 4 0xFF00FF00FF00FF00 = 0xF0F0F0F0F0F0F0F0"
  "(0xF0F0F0F0F0F0F0F0 :: 64 word) XOR drop_bit 2 0xF0F0F0F0F0F0F0F0 = 0xCCCCCCCCCCCCCCCC"
  "(0xCCCCCCCCCCCCCCCC :: 64 word) XOR drop_bit 1 0xCCCCCCCCCCCCCCCC = 0xAAAAAAAAAAAAAAAA"
  by (simp_all add: drop_bit_eq_div mask_eq_exp_minus_1)

lemma ReverseBits_groups:
  "ReverseBits w =
    swap_groups 1 0xAAAAAAAAAAAAAAAA (swap_groups 2 0xCCCCCCCCCCCCCCCC
      (swap_groups 4 0xF0F0F0F0F0F0F0F0 (swap_groups 8 0xFF00FF00FF00FF00
        (swap_groups 16 0xFFFF0000FFFF0000 (swap_groups 32 0xFFFFFFFF00000000 w)))))"
  by (simp only: ReverseBits_def fold_simps ReverseBits_step_groups ReverseBits_masks snd_conv)

lemma bit_ReverseBits: "bit (ReverseBits w) i \<longleftrightarrow> i < 64 \<and> bit w (63 - i)"
proof -
  have "\<forall>k \<in> set [0..<64]. bit (ReverseBits w) k = bit w (63 - k)"
    unfolding ReverseBits_groups by (simp add: upt_rec bit_swap_groups) (simp add: numeral_2_eq_2 numeral_3_eq_3)
  moreover have "bit (ReverseBits w) i \<Longrightarrow> i < 64"
    using bit_imp_le_length [of "ReverseBits w" i] by simp
  ultimately show ?thesis by auto
qed

section \<open>Maximal sum of a contiguous segment\<close>

text \<open>
  Signed overflow of \<open>tmp_part_sum\<close> is undefined behaviour: \<open>None\<close>. The accumulator pair
  is the best sum so far (initially \<open>LLONG_MIN\<close>) and the running sum.
\<close>

definition in_int64 :: "int \<Rightarrow> bool" where
  "in_int64 v \<longleftrightarrow> - (2 ^ 63) \<le> v \<and> v < 2 ^ 63"

fun MaxSum_loop :: "64 word list \<Rightarrow> int \<Rightarrow> int \<Rightarrow> int option" where
  "MaxSum_loop [] max_continuous_sum tmp_part_sum = Some max_continuous_sum"
| "MaxSum_loop (a # arr) max_continuous_sum tmp_part_sum =
     (let tmp_part_sum = tmp_part_sum + sint a in
      if \<not> in_int64 tmp_part_sum then None
      else MaxSum_loop arr
        (if max_continuous_sum < tmp_part_sum then tmp_part_sum else max_continuous_sum)
        (if tmp_part_sum < 0 then 0 else tmp_part_sum))"

definition MaxContinuousSum :: "64 word list \<Rightarrow> int option" where
  "MaxContinuousSum arr = MaxSum_loop arr (- (2 ^ 63)) 0"

text \<open>The invariant of the loop after the elements \<open>ps\<close>.\<close>

definition max_inv :: "int list \<Rightarrow> int \<Rightarrow> int \<Rightarrow> bool" where
  "max_inv ps best part \<longleftrightarrow>
     (\<forall>zs. sublist zs ps \<longrightarrow> zs \<noteq> [] \<longrightarrow> sum_list zs \<le> best) \<and>
     (if ps = [] then best = - (2 ^ 63) else \<exists>zs. sublist zs ps \<and> zs \<noteq> [] \<and> sum_list zs = best) \<and>
     (\<forall>zs. suffix zs ps \<longrightarrow> sum_list zs \<le> part) \<and> (\<exists>zs. suffix zs ps \<and> sum_list zs = part)"

lemma max_inv_step:
  assumes inv: "max_inv ps best part" and "in_int64 (part + a)"
  shows "max_inv (ps @ [a]) (if best < part + a then part + a else best) (if part + a < 0 then 0 else part + a)"
proof -
  obtain s where s: "suffix s ps" "sum_list s = part" using inv by (auto simp: max_inv_def)
  have suf: "\<And>zs. suffix zs (ps @ [a]) \<Longrightarrow> zs \<noteq> [] \<Longrightarrow> sum_list zs \<le> part + a"
    using inv by (auto simp: max_inv_def)
  have wit: "suffix (s @ [a]) (ps @ [a])" "sum_list (s @ [a]) = part + a" using s by auto
  let ?best = "if best < part + a then part + a else best"
  let ?part = "if part + a < 0 then 0 else part + a"
  have "\<forall>zs. sublist zs (ps @ [a]) \<longrightarrow> zs \<noteq> [] \<longrightarrow> sum_list zs \<le> ?best"
  proof (intro allI impI)
    fix zs assume "sublist zs (ps @ [a])" "zs \<noteq> []"
    then consider "suffix zs (ps @ [a])" "zs \<noteq> []" | "sublist zs ps" "zs \<noteq> []"
      unfolding sublist_snoc by blast
    then show "sum_list zs \<le> ?best"
    proof cases
      case 1
      from suf [OF this] show ?thesis by simp
    next
      case 2
      then have "sum_list zs \<le> best" using inv unfolding max_inv_def by blast
      then show ?thesis by simp
    qed
  qed
  moreover have "\<exists>zs. sublist zs (ps @ [a]) \<and> zs \<noteq> [] \<and> sum_list zs = ?best"
  proof (cases "best < part + a \<or> ps = []")
    case True
    then have "?best = part + a" using inv assms(2) by (auto simp: max_inv_def in_int64_def)
    with wit show ?thesis by (intro exI [of _ "s @ [a]"]) auto
  next
    case False
    with inv show ?thesis by (auto simp: max_inv_def sublist_snoc)
  qed
  moreover have "\<forall>zs. suffix zs (ps @ [a]) \<longrightarrow> sum_list zs \<le> ?part"
  proof (intro allI impI)
    fix zs assume "suffix zs (ps @ [a])"
    with suf [of zs] show "sum_list zs \<le> ?part" by (cases "zs = []") (simp_all del: suffix_snoc)
  qed
  moreover have "\<exists>zs. suffix zs (ps @ [a]) \<and> sum_list zs = ?part"
  proof (cases "part + a < 0")
    case True
    then show ?thesis by (intro exI [of _ "[]"]) auto
  next
    case False
    then show ?thesis using wit by (intro exI [of _ "s @ [a]"]) auto
  qed
  ultimately show ?thesis by (simp add: max_inv_def)
qed

lemma MaxSum_loop_correct:
  assumes "max_inv ps best part"
    and "\<forall>zs. sublist zs (ps @ map sint arr) \<longrightarrow> in_int64 (sum_list zs)"
  shows "\<exists>m part'. MaxSum_loop arr best part = Some m \<and> max_inv (ps @ map sint arr) m part'"
  using assms
proof (induction arr arbitrary: ps best part)
  case (Cons a arr)
  obtain s where s: "suffix s ps" "sum_list s = part" using Cons.prems(1) by (auto simp: max_inv_def)
  then have "sublist (s @ [sint a]) (ps @ map sint (a # arr))"
    by (auto simp: suffix_def) (metis append.assoc append_Cons append_Nil sublist_appendI)
  with Cons.prems(2) s have ok: "in_int64 (part + sint a)" by force
  from Cons.IH [OF max_inv_step [OF Cons.prems(1) ok]] Cons.prems(2) ok show ?case
    by (simp add: Let_def)
qed auto

lemma max_inv_init: "max_inv [] (- (2 ^ 63)) 0"
  by (auto simp: max_inv_def)

section \<open>Properties\<close>

text \<open>C4: on a signed decimal numeral \<open>GetInt64\<close> returns the number modulo 2^64, whatever its
  sign, and fails with \<open>kStrtollFailed\<close> exactly when its magnitude is 2^64 or more: numbers
  outside the signed range are not refused.\<close>
theorem GetInt64_value:
  assumes "is_number t"
  shows "GetInt64 t = (if \<bar>number_val t\<bar> < 2 ^ 64 then Inr (word_of_int (number_val t)) else Inl kStrtollFailed)"
  using assms by (rule GetInt64_number)

theorem GetInt64_value_witness:
  "GetInt64 [57,50,50,51,51,55,50,48,51,54,56,53,52,55,55,53,56,48,56] = Inr (word_of_int (2 ^ 63)) \<and>
   sint (word_of_int (2 ^ 63) :: 64 word) = - (2 ^ 63)"
  using GetInt64_value [of "[57,50,50,51,51,55,50,48,51,54,56,53,52,55,55,53,56,48,56]"]
  by (simp add: is_number_def number_val_def isdigit_def digit_val_def)

text \<open>The Euclidean loop computes the greatest common divisor, except that zero operands give
  1; the least common multiple is exact whenever the 32-bit product does not wrap.\<close>
theorem GCD_LCM_value:
  "unat (GCD_u64 a b) = (if a = 0 \<or> b = 0 then 1 else gcd (unat a) (unat b)) \<and>
   (unat x * unat y < 2 ^ 32 \<longrightarrow> unat (LCM_u32 x y) = lcm (unat x) (unat y))"
  by (simp_all add: GCD_u64_spec LCM_u32_spec lcm_nat_def)

theorem GCD_LCM_value_witness: "unat (GCD_u64 12 18) = 6 \<and> unat (LCM_u32 12 18) = 36"
  using GCD_LCM_value [of 12 18 12 18] by (simp add: lcm_nat_def gcd_non_0_nat)

text \<open>\<open>ReverseBits\<close> puts bit \<open>63 - i\<close> of the source at position \<open>i\<close>, so it is its own inverse.\<close>
theorem ReverseBits_reverses:
  "(bit (ReverseBits w) i \<longleftrightarrow> i < 64 \<and> bit w (63 - i)) \<and> ReverseBits (ReverseBits w) = w"
proof
  show "bit (ReverseBits w) i \<longleftrightarrow> i < 64 \<and> bit w (63 - i)" by (rule bit_ReverseBits)
  show "ReverseBits (ReverseBits w) = w"
    by (rule bit_word_eqI) (auto simp: bit_ReverseBits)
qed

text \<open>C5: when no contiguous segment sums outside the 64-bit range, \<open>MaxContinuousSum\<close> returns
  the largest sum of a non-empty contiguous segment.\<close>
theorem MaxContinuousSum_max:
  assumes "arr \<noteq> []" "\<forall>zs. sublist zs (map sint arr) \<longrightarrow> in_int64 (sum_list zs)"
  shows "\<exists>m. MaxContinuousSum arr = Some m \<and>
    (\<exists>zs. sublist zs (map sint arr) \<and> zs \<noteq> [] \<and> sum_list zs = m) \<and>
    (\<forall>zs. sublist zs (map sint arr) \<longrightarrow> zs \<noteq> [] \<longrightarrow> sum_list zs \<le> m)"
proof -
  from MaxSum_loop_correct [OF max_inv_init, of arr] assms obtain m part where
    "MaxContinuousSum arr = Some m" "max_inv (map sint arr) m part"
    unfolding MaxContinuousSum_def by auto
  with assms(1) show ?thesis by (auto simp: max_inv_def)
qed

theorem MaxContinuousSum_max_witness:
  "\<exists>m. MaxContinuousSum [3, - 5, 4] = Some m \<and>
    (\<exists>zs. sublist zs (map sint [3, - 5, 4 :: 64 word]) \<and> zs \<noteq> [] \<and> sum_list zs = m) \<and>
    (\<forall>zs. sublist zs (map sint [3, - 5, 4 :: 64 word]) \<longrightarrow> zs \<noteq> [] \<longrightarrow> sum_list zs \<le> m)"
  by (rule MaxContinuousSum_max)
    (auto simp: sublist_Cons_right prefix_Cons in_int64_def)

text \<open>Both operands of \<open>LCM\<close> are multiplied at 32 bits, so the product of two page sizes wraps to 0.\<close>

lemma LCM_u32_wraps: "LCM_u32 65536 65536 = 0"
  by (simp add: LCM_u32_def)

lemma GetUpDivValue_wraps: "GetUpDivValue (- 1) 2 = Inr 0"
  by (simp add: GetUpDivValue_def)

end
