(* ===== verification/Bit_Arr.thy ===== *)
theory Bit_Arr
  imports CS_Prelude
begin

unbundle bit_operations_syntax

text \<open>
  The bit array of base/bit_arr.cc over an array of bytes, most significant bit first. The
  interface \<open>byte_bits\<close> states what the bit operations of an array of bytes rely on in their
  mask (one non-zero mask per position of a byte, disjoint from the others); the bit array
  and the Bloom filter, which counts from the other end, both provide it.
\<close>

section \<open>Bits of an array of bytes\<close>

locale byte_bits =
  fixes pos_mask :: "nat \<Rightarrow> byte"
  assumes mask_nonzero: "k < 8 \<Longrightarrow> pos_mask k \<noteq> 0"
    and mask_disjoint: "j < 8 \<Longrightarrow> k < 8 \<Longrightarrow> j \<noteq> k \<Longrightarrow> pos_mask j AND pos_mask k = 0"
begin

definition test_pos :: "bytes \<Rightarrow> nat \<Rightarrow> bool" where
  "test_pos bs p \<longleftrightarrow> bs ! (p div 8) AND pos_mask (p mod 8) \<noteq> 0"

definition set_pos :: "bytes \<Rightarrow> nat \<Rightarrow> bytes" where
  "set_pos bs p = bs[p div 8 := bs ! (p div 8) OR pos_mask (p mod 8)]"

definition clear_pos :: "bytes \<Rightarrow> nat \<Rightarrow> bytes" where
  "clear_pos bs p = bs[p div 8 := bs ! (p div 8) AND NOT (pos_mask (p mod 8))]"

lemma pos_eqI: "p div 8 = q div 8 \<Longrightarrow> p mod 8 = q mod 8 \<Longrightarrow> p = (q :: nat)"
  by (metis div_mult_mod_eq)

lemma or_mask: "j < 8 \<Longrightarrow> k < 8 \<Longrightarrow> (b OR pos_mask k) AND pos_mask j \<noteq> 0 \<longleftrightarrow> j = k \<or> b AND pos_mask j \<noteq> 0"
proof -
  assume jk: "j < 8" "k < 8"
  have split: "(b OR pos_mask k) AND pos_mask j = (b AND pos_mask j) OR (pos_mask k AND pos_mask j)"
    by (rule bit_word_eqI) (auto simp: bit_simps)
  show ?thesis using jk mask_disjoint [of k j] mask_nonzero [of k]
    by (cases "j = k") (auto simp: split or_eq_0_iff)
qed

lemma and_mask: "j < 8 \<Longrightarrow> k < 8 \<Longrightarrow> (b AND NOT (pos_mask k)) AND pos_mask j \<noteq> 0 \<longleftrightarrow> j \<noteq> k \<and> b AND pos_mask j \<noteq> 0"
proof -
  assume jk: "j < 8" "k < 8"
  have "(b AND NOT (pos_mask k)) AND pos_mask k = 0"
    by (rule bit_word_eqI) (auto simp: bit_simps)
  moreover have "(b AND NOT (pos_mask k)) AND pos_mask j = b AND pos_mask j" if "pos_mask j AND pos_mask k = 0"
  proof (rule bit_word_eqI)
    fix n assume "n < LENGTH(8)"
    have "\<not> bit (pos_mask j AND pos_mask k) n" by (simp add: that)
    then show "bit ((b AND NOT (pos_mask k)) AND pos_mask j) n = bit (b AND pos_mask j) n"
      using \<open>n < LENGTH(8)\<close> by (auto simp: bit_simps)
  qed
  ultimately show ?thesis using mask_disjoint [OF jk] by (cases "j = k") auto
qed

lemma test_set_pos:
  assumes "p div 8 < length bs"
  shows "test_pos (set_pos bs p) q \<longleftrightarrow> q = p \<or> test_pos bs q"
  using assms or_mask [of "q mod 8" "p mod 8"] pos_eqI [of q p]
  by (cases "q div 8 = p div 8") (auto simp: test_pos_def set_pos_def)

lemma test_clear_pos:
  assumes "p div 8 < length bs"
  shows "test_pos (clear_pos bs p) q \<longleftrightarrow> q \<noteq> p \<and> test_pos bs q"
  using assms and_mask [of "q mod 8" "p mod 8"] pos_eqI [of q p]
  by (cases "q div 8 = p div 8") (auto simp: test_pos_def clear_pos_def)

lemma length_pos [simp]: "length (set_pos bs p) = length bs" "length (clear_pos bs p) = length bs"
  by (simp_all add: set_pos_def clear_pos_def)

lemma test_zero: "q div 8 < n \<Longrightarrow> \<not> test_pos (replicate n 0) q"
  by (simp add: test_pos_def)

end

section \<open>The bit array\<close>

record BitArr =
  ba_bits_num :: "32 word"
  ba_bits :: bytes
  ba_is_init :: bool

definition BitArr_new :: "32 word \<Rightarrow> BitArr" where
  "BitArr_new bits_num = \<lparr>ba_bits_num = bits_num, ba_bits = [], ba_is_init = False\<rparr>"

text \<open>The number of bytes, computed at 32 bits.\<close>

definition bits_bytes_num :: "32 word \<Rightarrow> nat" where
  "bits_bytes_num bits_num = unat ((bits_num + 8 - 1) div 8)"

definition BitArr_Init :: "BitArr \<Rightarrow> Code \<times> BitArr" where
  "BitArr_Init a =
     (if ba_bits_num a = 0 then (kInvalidParam, a)
      else (kOk, a\<lparr>ba_bits := replicate (bits_bytes_num (ba_bits_num a)) 0, ba_is_init := True\<rparr>))"

definition bits_value :: "nat \<Rightarrow> byte" where
  "bits_value bits_index = push_bit (8 - bits_index - 1) 1"

text \<open>An access outside the allocated bytes is \<open>None\<close>.\<close>

definition BitArr_Put :: "BitArr \<Rightarrow> 32 word \<Rightarrow> bool \<Rightarrow> (Code \<times> BitArr) option" where
  "BitArr_Put a index value =
     (if ba_bits_num a \<le> index then Some (kInvalidParam, a)
      else if \<not> ba_is_init a then Some (kNotInit, a)
      else let bytes_index = unat (index div 8); bits_index = unat (index mod 8); v = bits_value bits_index in
        if length (ba_bits a) \<le> bytes_index then None
        else Some (kOk, a\<lparr>ba_bits := (ba_bits a)[bytes_index :=
               if value then ba_bits a ! bytes_index OR v else ba_bits a ! bytes_index AND NOT v]\<rparr>))"

definition BitArr_Get :: "BitArr \<Rightarrow> 32 word \<Rightarrow> bool res option" where
  "BitArr_Get a index =
     (if ba_bits_num a \<le> index then Some (Inl kInvalidParam)
      else if \<not> ba_is_init a then Some (Inl kNotInit)
      else let bytes_index = unat (index div 8); bits_index = unat (index mod 8) in
        if length (ba_bits a) \<le> bytes_index then None
        else Some (Inr (ba_bits a ! bytes_index AND bits_value bits_index \<noteq> 0)))"

definition BitArr_Clear :: "BitArr \<Rightarrow> Code \<times> BitArr" where
  "BitArr_Clear a =
     (if \<not> ba_is_init a then (kNotInit, a)
      else (kOk, a\<lparr>ba_bits := replicate (bits_bytes_num (ba_bits_num a)) 0\<rparr>))"

definition BitArr_Size :: "BitArr \<Rightarrow> 32 word res" where
  "BitArr_Size a = (if \<not> ba_is_init a then Inl kNotInit else Inr (ba_bits_num a))"

text \<open>
  From the last index down to 0. The index is an \<open>int32_t\<close>: a size above \<open>2 ^ 31\<close> is converted
  to a negative number and the loop does not start; for the size \<open>2 ^ 31\<close> the subtraction of 1
  itself overflows, which is \<open>None\<close>.
\<close>

fun BitArr_chars :: "BitArr \<Rightarrow> nat \<Rightarrow> bytes \<Rightarrow> bytes res option" where
  "BitArr_chars a 0 str = Some (Inr str)"
| "BitArr_chars a (Suc index) str =
     (case BitArr_Get a (word_of_nat index) of
        None \<Rightarrow> None
      | Some (Inl ret) \<Rightarrow> Some (Inl ret)
      | Some (Inr value) \<Rightarrow> BitArr_chars a index (str @ [if value then 49 else c_0]))"

definition BitArr_ToString :: "BitArr \<Rightarrow> bytes \<Rightarrow> bytes res option" where
  "BitArr_ToString a str =
     (if \<not> ba_is_init a then Some (Inl kNotInit)
      else if sint (ba_bits_num a) = - (2 ^ 31) then None
      else BitArr_chars a (nat (sint (ba_bits_num a))) str)"

interpretation msb: byte_bits bits_value
proof
  show "bits_value k \<noteq> 0" if "k < 8" for k
    using that by (simp add: bits_value_def)
  show "bits_value j AND bits_value k = 0" if "j < 8" "k < 8" "j \<noteq> k" for j k
    using that by (intro bit_word_eqI) (auto simp: bits_value_def bit_simps)
qed

text \<open>A usable array: initialised, with enough bytes for its bits.\<close>

definition BitArr_wf :: "BitArr \<Rightarrow> bool" where
  "BitArr_wf a \<longleftrightarrow> ba_is_init a \<and> length (ba_bits a) = bits_bytes_num (ba_bits_num a) \<and> unat (ba_bits_num a) \<le> 8 * length (ba_bits a)"

text \<open>The abstract contents: the value of every index in range.\<close>

definition BitArr_abs :: "BitArr \<Rightarrow> nat \<Rightarrow> bool" where
  "BitArr_abs a i = (i < unat (ba_bits_num a) \<and> msb.test_pos (ba_bits a) i)"

lemma unat_div_mod_8: "unat (index div 8) = unat (index :: 32 word) div 8" "unat (index mod 8) = unat index mod 8"
  by (simp_all add: unat_div unat_mod)

lemma wf_index: "BitArr_wf a \<Longrightarrow> index < ba_bits_num a \<Longrightarrow> unat index div 8 < length (ba_bits a)"
  by (auto simp: BitArr_wf_def word_less_nat_alt)

lemma BitArr_Get_wf:
  assumes "BitArr_wf a" "index < ba_bits_num a"
  shows "BitArr_Get a index = Some (Inr (BitArr_abs a (unat index)))"
  using assms wf_index [OF assms]
  by (auto simp: BitArr_Get_def BitArr_wf_def BitArr_abs_def msb.test_pos_def Let_def unat_div_mod_8
      not_le word_less_nat_alt)

lemma BitArr_Put_wf:
  assumes "BitArr_wf a" "index < ba_bits_num a"
  shows "\<exists>a'. BitArr_Put a index value = Some (kOk, a') \<and> BitArr_wf a' \<and> ba_bits_num a' = ba_bits_num a \<and>
    BitArr_abs a' = (BitArr_abs a)(unat index := value)"
proof -
  let ?bs = "if value then msb.set_pos (ba_bits a) (unat index) else msb.clear_pos (ba_bits a) (unat index)"
  have put: "BitArr_Put a index value = Some (kOk, a\<lparr>ba_bits := ?bs\<rparr>)"
    using assms wf_index [OF assms]
    by (auto simp: BitArr_Put_def BitArr_wf_def Let_def unat_div_mod_8 msb.set_pos_def msb.clear_pos_def)
  have "BitArr_abs (a\<lparr>ba_bits := ?bs\<rparr>) = (BitArr_abs a)(unat index := value)"
    using assms(2) wf_index [OF assms]
    by (intro ext) (auto simp: BitArr_abs_def msb.test_set_pos msb.test_clear_pos word_less_nat_alt)
  with put assms(1) show ?thesis by (intro exI [of _ "a\<lparr>ba_bits := ?bs\<rparr>"]) (auto simp: BitArr_wf_def)
qed

lemma bits_bytes_num_enough:
  assumes "unat bits_num < 2 ^ 32 - 7"
  shows "unat bits_num \<le> 8 * bits_bytes_num bits_num"
proof -
  have "unat (bits_num + 7) = unat bits_num + 7"
    using unat_add_lem [of bits_num 7, THEN iffD1] assms by simp
  then have "unat (bits_num + 8 - 1) = unat bits_num + 7" by (simp add: add.commute)
  then show ?thesis by (simp add: bits_bytes_num_def unat_div)
qed

lemma BitArr_Init_wf:
  assumes "BitArr_Init a = (kOk, a')" "unat (ba_bits_num a) < 2 ^ 32 - 7"
  shows "BitArr_wf a' \<and> ba_bits_num a' = ba_bits_num a \<and> BitArr_abs a' = (\<lambda>_. False)"
proof -
  have a': "a' = a\<lparr>ba_bits := replicate (bits_bytes_num (ba_bits_num a)) 0, ba_is_init := True\<rparr>"
    using assms(1) by (auto simp: BitArr_Init_def split: if_splits)
  have "i < unat (ba_bits_num a) \<Longrightarrow> \<not> msb.test_pos (replicate (bits_bytes_num (ba_bits_num a)) 0) i" for i
    using bits_bytes_num_enough [OF assms(2)] by (intro msb.test_zero) auto
  with bits_bytes_num_enough [OF assms(2)] show ?thesis
    by (auto simp: a' BitArr_wf_def BitArr_abs_def fun_eq_iff)
qed

lemma BitArr_Clear_wf:
  assumes "BitArr_wf a"
  shows "\<exists>a'. BitArr_Clear a = (kOk, a') \<and> BitArr_wf a' \<and> BitArr_abs a' = (\<lambda>_. False)"
proof -
  have "i < unat (ba_bits_num a) \<Longrightarrow> \<not> msb.test_pos (replicate (bits_bytes_num (ba_bits_num a)) 0) i" for i
    using assms by (intro msb.test_zero) (auto simp: BitArr_wf_def)
  with assms show ?thesis by (auto simp: BitArr_Clear_def BitArr_wf_def BitArr_abs_def fun_eq_iff)
qed

text \<open>The text of the array: the value of the last index first.\<close>

lemma BitArr_chars_wf:
  assumes "BitArr_wf a" "n \<le> unat (ba_bits_num a)"
  shows "BitArr_chars a n str = Some (Inr (str @ map (\<lambda>i. if BitArr_abs a i then 49 else c_0) (rev [0..<n])))"
  using assms(2)
proof (induction n arbitrary: str)
  case (Suc n)
  have n: "unat (word_of_nat n :: 32 word) = n"
    using Suc.prems unsigned_less [where 'a = nat, of "ba_bits_num a"]
    by (simp add: unsigned_of_nat take_bit_nat_eq_self)
  then have "word_of_nat n < ba_bits_num a" using Suc.prems by (simp add: word_less_nat_alt)
  from BitArr_Get_wf [OF assms(1) this] Suc n show ?case by simp
qed simp

lemma sint_le_unat: "nat (sint (w :: 32 word)) \<le> unat w"
proof -
  have "- 2147483648 \<le> uint w" using uint_ge_0 [of w] by linarith
  then have "sint w \<le> uint w" by (simp add: sint_uint signed_take_bit_int_less_eq_self_iff)
  then show ?thesis by (simp add: nat_le_iff)
qed

lemma BitArr_ToString_wf:
  assumes "BitArr_wf a"
  shows "BitArr_ToString a str =
    (if sint (ba_bits_num a) = - (2 ^ 31) then None
     else Some (Inr (str @ map (\<lambda>i. if BitArr_abs a i then 49 else c_0) (rev [0..<nat (sint (ba_bits_num a))]))))"
  using assms BitArr_chars_wf [OF assms sint_le_unat] by (simp add: BitArr_ToString_def BitArr_wf_def)

section \<open>A bit array and what its client sees\<close>

datatype bit_op = InitBits | PutBit "32 word" bool | GetBit "32 word" | ClearBits | SizeBits | BitsText bytes

datatype bit_out = BitCode Code | BitValue "bool res" | BitSize "32 word res" | BitText "bytes res"

text \<open>One operation on the array; undefined behaviour is \<open>None\<close>.\<close>

fun bit_step :: "BitArr \<Rightarrow> bit_op \<Rightarrow> (bit_out \<times> BitArr) option" where
  "bit_step a InitBits = Some (apfst BitCode (BitArr_Init a))"
| "bit_step a (PutBit index value) = map_option (apfst BitCode) (BitArr_Put a index value)"
| "bit_step a (GetBit index) = map_option (\<lambda>r. (BitValue r, a)) (BitArr_Get a index)"
| "bit_step a ClearBits = Some (apfst BitCode (BitArr_Clear a))"
| "bit_step a SizeBits = Some (BitSize (BitArr_Size a), a)"
| "bit_step a (BitsText str) = map_option (\<lambda>r. (BitText r, a)) (BitArr_ToString a str)"

text \<open>The promise: a map from indices to booleans, which exists once \<open>Init\<close> has succeeded.\<close>

fun bit_spec :: "32 word \<Rightarrow> (nat \<Rightarrow> bool) option \<Rightarrow> bit_op \<Rightarrow> (bit_out \<times> (nat \<Rightarrow> bool) option) option" where
  "bit_spec n m InitBits = Some (if n = 0 then (BitCode kInvalidParam, m) else (BitCode kOk, Some (\<lambda>_. False)))"
| "bit_spec n m (PutBit index value) = Some
     (if n \<le> index then (BitCode kInvalidParam, m)
      else case m of None \<Rightarrow> (BitCode kNotInit, m) | Some f \<Rightarrow> (BitCode kOk, Some (f(unat index := value))))"
| "bit_spec n m (GetBit index) = Some
     (BitValue (if n \<le> index then Inl kInvalidParam
        else case m of None \<Rightarrow> Inl kNotInit | Some f \<Rightarrow> Inr (f (unat index))), m)"
| "bit_spec n m ClearBits = Some
     (case m of None \<Rightarrow> (BitCode kNotInit, m) | Some _ \<Rightarrow> (BitCode kOk, Some (\<lambda>_. False)))"
| "bit_spec n m SizeBits = Some (BitSize (case m of None \<Rightarrow> Inl kNotInit | Some _ \<Rightarrow> Inr n), m)"
| "bit_spec n m (BitsText str) =
     (case m of None \<Rightarrow> Some (BitText (Inl kNotInit), m)
      | Some f \<Rightarrow> if n = 2 ^ 31 then None
          else Some (BitText (Inr (str @ (if n < 2 ^ 31 then map (\<lambda>i. if f i then 49 else c_0) (rev [0..<unat n])
            else []))), m))"

fun bit_run :: "('s \<Rightarrow> bit_op \<Rightarrow> (bit_out \<times> 's) option) \<Rightarrow> 's \<Rightarrow> bit_op list \<Rightarrow> bit_out list option" where
  "bit_run step s [] = Some []"
| "bit_run step s (x # xs) =
     (case step s x of None \<Rightarrow> None | Some (y, s') \<Rightarrow> map_option ((#) y) (bit_run step s' xs))"

text \<open>The array stands for \<open>m\<close>: nothing before \<open>Init\<close>, its contents afterwards.\<close>

definition bit_rel :: "32 word \<Rightarrow> BitArr \<Rightarrow> (nat \<Rightarrow> bool) option \<Rightarrow> bool" where
  "bit_rel n a m \<longleftrightarrow> ba_bits_num a = n \<and>
     (case m of None \<Rightarrow> \<not> ba_is_init a | Some f \<Rightarrow> BitArr_wf a \<and> f = BitArr_abs a)"

lemma bit_relE:
  assumes "bit_rel n a m"
  obtains "m = None" "\<not> ba_is_init a" "ba_bits_num a = n"
  | "m = Some (BitArr_abs a)" "BitArr_wf a" "ba_is_init a" "ba_bits_num a = n"
  using assms by (cases m) (auto simp: bit_rel_def BitArr_wf_def)

lemma sint_32_cases:
  "sint (n :: 32 word) = - (2 ^ 31) \<longleftrightarrow> n = 2 ^ 31"
  "nat (sint n) = (if n < 2 ^ 31 then unat n else 0)"
proof -
  have "uint n div 2 ^ 31 = (if uint n < 2 ^ 31 then 0 else 1)"
    using uint_lt2p [of n] uint_ge_0 [of n] by (auto simp: div_pos_pos_trivial intro: int_div_pos_eq [of _ _ _ "uint n - 2 ^ 31"])
  then have "bit (uint n) 31 \<longleftrightarrow> \<not> uint n < 2 ^ 31" by (simp only: bit_iff_odd) simp
  moreover have "sint n = take_bit 32 (uint n) - 2 ^ 32 * of_bool (bit (uint n) 31)"
    by (simp add: sint_uint signed_take_bit_eq_take_bit_minus)
  ultimately have s: "sint n = (if uint n < 2 ^ 31 then uint n else uint n - 2 ^ 32)"
    using uint_lt2p [of n] by (simp add: take_bit_int_eq_self)
  show "sint n = - (2 ^ 31) \<longleftrightarrow> n = 2 ^ 31"
  proof -
    obtain u where u: "uint n = u" "0 \<le> u" using uint_ge_0 [of n] by blast
    have "n = 2 ^ 31 \<longleftrightarrow> u = 2 ^ 31" by (simp add: word_uint_eq_iff u(1))
    with u(2) show ?thesis unfolding s u(1) by (cases "u < 2 ^ 31") auto
  qed
  show "nat (sint n) = (if n < 2 ^ 31 then unat n else 0)"
    using uint_lt2p [of n] by (auto simp: s word_less_def)
qed

lemma bit_step_spec:
  assumes "bit_rel n a m" "unat n < 2 ^ 32 - 7"
  shows "rel_option (rel_prod (=) (bit_rel n)) (bit_step a x) (bit_spec n m x)"
  using assms(1)
proof (cases rule: bit_relE)
  case 1
  show ?thesis
  proof (cases x)
    case InitBits
    show ?thesis
    proof (cases "n = 0")
      case False
      then obtain a' where a': "BitArr_Init a = (kOk, a')" using 1 by (simp add: BitArr_Init_def)
      from BitArr_Init_wf [OF this] 1 assms(2) a' False InitBits show ?thesis
        by (simp add: bit_rel_def)
    qed (use 1 InitBits assms(1) in \<open>simp add: BitArr_Init_def\<close>)
  qed (use 1 assms(1) in \<open>simp_all add: BitArr_Put_def BitArr_Get_def BitArr_Clear_def BitArr_Size_def BitArr_ToString_def\<close>)
next
  case 2
  show ?thesis
  proof (cases x)
    case InitBits
    show ?thesis
    proof (cases "n = 0")
      case False
      then obtain a' where a': "BitArr_Init a = (kOk, a')" using 2 by (simp add: BitArr_Init_def)
      from BitArr_Init_wf [OF this] 2 assms(2) a' False InitBits show ?thesis
        by (simp add: bit_rel_def)
    qed (use 2 InitBits assms(1) in \<open>simp add: BitArr_Init_def\<close>)
  next
    case (PutBit index v)
    show ?thesis
    proof (cases "index < n")
      case True
      then obtain a' where "BitArr_Put a index v = Some (kOk, a')" "BitArr_wf a'" "ba_bits_num a' = n"
        "BitArr_abs a' = (BitArr_abs a)(unat index := v)"
        using BitArr_Put_wf [OF 2(2), of index v] 2(4) by auto
      then show ?thesis using True 2 PutBit by (simp add: bit_rel_def not_le)
    qed (use 2 PutBit assms(1) in \<open>simp add: BitArr_Put_def not_less\<close>)
  next
    case (GetBit index)
    show ?thesis
    proof (cases "index < n")
      case True
      then show ?thesis using 2 GetBit assms(1) BitArr_Get_wf [OF 2(2), of index] by (simp add: not_le)
    qed (use 2 GetBit assms(1) in \<open>simp add: BitArr_Get_def not_less\<close>)
  next
    case ClearBits
    obtain a' where "BitArr_Clear a = (kOk, a')" "BitArr_wf a'" "BitArr_abs a' = (\<lambda>_. False)"
      using BitArr_Clear_wf [OF 2(2)] by auto
    moreover from this have "ba_bits_num a' = n" using 2 by (auto simp: BitArr_Clear_def)
    ultimately show ?thesis using 2 ClearBits by (simp add: bit_rel_def)
  next
    case SizeBits
    then show ?thesis using 2 assms(1) by (simp add: BitArr_Size_def)
  next
    case (BitsText str)
    then show ?thesis using 2 assms(1) sint_32_cases [of n] by (simp add: BitArr_ToString_wf)
  qed
qed

lemma bit_run_spec:
  assumes "unat n < 2 ^ 32 - 7"
  shows "bit_rel n a m \<Longrightarrow> bit_run bit_step a ops = bit_run (bit_spec n) m ops"
proof (induction ops arbitrary: a m)
  case (Cons x ops)
  from bit_step_spec [OF Cons.prems assms, of x] show ?case
    by (cases rule: option.rel_cases) (auto simp: Cons.IH)
qed simp

section \<open>Properties\<close>

text \<open>C17: the bit array of any size below \<open>2 ^ 32 - 7\<close>, over every sequence of calls from its
  construction on, answers as a map from the indices below its size to booleans: the calls are
  refused with \<open>kNotInit\<close> until \<open>Init\<close> has succeeded, which refuses the size 0; after \<open>Init\<close> all
  values are false, \<open>Put\<close> changes the one index only, \<open>Get\<close> reads it, \<open>Clear\<close> resets all, an index
  out of range is refused without a change, \<open>ToString\<close> appends the values, the last index first.
  The one undefined case is \<open>ToString\<close> of exactly \<open>2 ^ 31\<close> bits, whose loop counter overflows; above
  that size it appends nothing.\<close>
theorem BitArr_map:
  assumes "unat bits_num < 2 ^ 32 - 7"
  shows "bit_run bit_step (BitArr_new bits_num) ops = bit_run (bit_spec bits_num) None ops"
  by (rule bit_run_spec [OF assms]) (simp add: bit_rel_def BitArr_new_def)

theorem BitArr_map_witness:
  "bit_run bit_step (BitArr_new 12) [GetBit 3, InitBits, PutBit 11 True, PutBit 3 True, PutBit 12 True,
       GetBit 11, GetBit 10, PutBit 11 False, BitsText [65], ClearBits, GetBit 3] =
     Some [BitValue (Inl kNotInit), BitCode kOk, BitCode kOk, BitCode kOk, BitCode kInvalidParam,
       BitValue (Inr True), BitValue (Inr False), BitCode kOk,
       BitText (Inr [65, 48, 48, 48, 48, 48, 48, 48, 48, 49, 48, 48, 48]), BitCode kOk, BitValue (Inr False)]"
proof -
  have "unat (12 :: 32 word) < 2 ^ 32 - 7" by simp
  from BitArr_map [OF this] show ?thesis
    by (simp del: bit_run.simps(2) add: bit_run.simps(2) [of "bit_spec n" for n] upt_rec)
qed

text \<open>The computation of the number of bytes wraps: the largest size allocates nothing.\<close>

lemma BitArr_Init_wraps:
  "BitArr_Init (BitArr_new (- 1)) = (kOk, a) \<Longrightarrow> BitArr_Put a 0 True = None"
  by (auto simp: BitArr_Init_def BitArr_new_def BitArr_Put_def bits_bytes_num_def)

end
