(* ===== verification/Bloom_Filter.thy ===== *)
theory Bloom_Filter
  imports Bit_Arr Hash_Fun
begin

unbundle bit_operations_syntax

text \<open>
  The Bloom filter of base/bloom_filter.cc: its bit array (least significant bit first), the
  sequence of positions derived from one Murmur hash by rotation, and the promise of the
  header, no false negatives, for every sequence of insertions.
\<close>

section \<open>State and operations\<close>

record BloomFilter =
  bf_bits_per_key :: "32 word"
  bf_keys_num :: "32 word"
  bf_hash_num :: "32 word"
  bf_bytes :: bytes
  bf_bytes_size :: "32 word"
  bf_is_init :: bool

definition BloomFilter_new :: "32 word \<Rightarrow> 32 word \<Rightarrow> 32 word \<Rightarrow> BloomFilter" where
  "BloomFilter_new bits_per_key keys_num hash_num =
     \<lparr>bf_bits_per_key = bits_per_key, bf_keys_num = keys_num, bf_hash_num = hash_num,
      bf_bytes = [], bf_bytes_size = 0, bf_is_init = False\<rparr>"

text \<open>The product is taken at 32 bits and only then widened.\<close>

definition BloomFilter_Init :: "BloomFilter \<Rightarrow> Code \<times> BloomFilter" where
  "BloomFilter_Init f =
     (let bits_size = ucast (bf_keys_num f * bf_bits_per_key f) :: 64 word in
      if 0xFFFFFFFF < bits_size then (kInvalidLength, f)
      else let bytes_size = ucast ((bits_size + 7) div 8) in
        (kOk, f\<lparr>bf_bytes := replicate (unat bytes_size) 0, bf_bytes_size := bytes_size, bf_is_init := True\<rparr>))"

definition next_hash :: "32 word \<Rightarrow> 32 word" where
  "next_hash hash_value = hash_value + (drop_bit 17 hash_value OR push_bit 15 hash_value)"

definition lsb_mask :: "nat \<Rightarrow> byte" where
  "lsb_mask k = push_bit k 1"

text \<open>
  \<open>hash_value % (bytes_size_ * 8)\<close>: a zero modulus is undefined, and so is an access outside
  the allocated bytes.
\<close>

definition bits_pos :: "BloomFilter \<Rightarrow> 32 word \<Rightarrow> nat option" where
  "bits_pos f hash_value =
     (if bf_bytes_size f * 8 = 0 then None
      else let pos = unat (hash_value mod (bf_bytes_size f * 8)) in
        if length (bf_bytes f) \<le> pos div 8 then None else Some pos)"

fun Bloom_put_loop :: "nat \<Rightarrow> BloomFilter \<Rightarrow> 32 word \<Rightarrow> BloomFilter option" where
  "Bloom_put_loop 0 f hash_value = Some f"
| "Bloom_put_loop (Suc i) f hash_value =
     (case bits_pos f hash_value of
        None \<Rightarrow> None
      | Some pos \<Rightarrow>
          Bloom_put_loop i (f\<lparr>bf_bytes := (bf_bytes f)[pos div 8 := bf_bytes f ! (pos div 8) OR lsb_mask (pos mod 8)]\<rparr>)
            (next_hash hash_value))"

definition BloomFilter_Put :: "BloomFilter \<Rightarrow> bytes \<Rightarrow> (Code \<times> BloomFilter) option" where
  "BloomFilter_Put f key =
     (if \<not> bf_is_init f then Some (kNotInit, f)
      else map_option (\<lambda>f. (kOk, f)) (Bloom_put_loop (unat (bf_hash_num f)) f (Murmur32 key 0xefac1970)))"

fun Bloom_check_loop :: "nat \<Rightarrow> BloomFilter \<Rightarrow> 32 word \<Rightarrow> bool option" where
  "Bloom_check_loop 0 f hash_value = Some True"
| "Bloom_check_loop (Suc i) f hash_value =
     (case bits_pos f hash_value of
        None \<Rightarrow> None
      | Some pos \<Rightarrow>
          if bf_bytes f ! (pos div 8) AND lsb_mask (pos mod 8) = 0 then Some False
          else Bloom_check_loop i f (next_hash hash_value))"

definition BloomFilter_CheckExist :: "BloomFilter \<Rightarrow> bytes \<Rightarrow> bool res option" where
  "BloomFilter_CheckExist f key =
     (if \<not> bf_is_init f then Some (Inl kNotInit)
      else map_option Inr (Bloom_check_loop (unat (bf_hash_num f)) f (Murmur32 key 0xefac1970)))"

definition BloomFilter_GetBytesStr :: "BloomFilter \<Rightarrow> bytes res" where
  "BloomFilter_GetBytesStr f = (if \<not> bf_is_init f then Inl kNotInit else Inr (take (unat (bf_bytes_size f)) (bf_bytes f)))"

section \<open>The bits of a filter\<close>

interpretation lsb: byte_bits lsb_mask
proof
  show "lsb_mask k \<noteq> 0" if "k < 8" for k
    using that by (simp add: lsb_mask_def)
  show "lsb_mask j AND lsb_mask k = 0" if "j < 8" "k < 8" "j \<noteq> k" for j k
    using that by (intro bit_word_eqI) (auto simp: lsb_mask_def bit_simps)
qed

definition bit_of :: "BloomFilter \<Rightarrow> nat \<Rightarrow> bool" where
  "bit_of f p = lsb.test_pos (bf_bytes f) p"

text \<open>A usable filter: some bytes, and no wrap in the number of bits.\<close>

definition Bloom_wf :: "BloomFilter \<Rightarrow> bool" where
  "Bloom_wf f \<longleftrightarrow> bf_is_init f \<and> length (bf_bytes f) = unat (bf_bytes_size f) \<and> 0 < bf_bytes_size f \<and>
     unat (bf_bytes_size f) < 2 ^ 29"

text \<open>The positions that belong to a hash value.\<close>

definition positions :: "BloomFilter \<Rightarrow> nat \<Rightarrow> 32 word \<Rightarrow> nat set" where
  "positions f n h = (\<lambda>i. unat ((next_hash ^^ i) h mod (bf_bytes_size f * 8))) ` {..<n}"

lemma positions_Suc:
  "positions f (Suc n) h = insert (unat (h mod (bf_bytes_size f * 8))) (positions f n (next_hash h))"
  by (simp add: positions_def lessThan_Suc_eq_insert_0 image_image funpow_Suc_right del: funpow.simps)

lemma bits_pos_wf:
  assumes "Bloom_wf f"
  shows "bits_pos f h = Some (unat (h mod (bf_bytes_size f * 8)))"
    and "unat (h mod (bf_bytes_size f * 8)) div 8 < length (bf_bytes f)"
proof -
  have m: "unat (bf_bytes_size f * 8) = unat (bf_bytes_size f) * 8"
    using assms unat_mult_lem [of "bf_bytes_size f" 8, THEN iffD1] by (simp add: Bloom_wf_def)
  have pos: "0 < unat (bf_bytes_size f)" using assms by (simp add: Bloom_wf_def word_less_nat_alt)
  then have nz: "bf_bytes_size f * 8 \<noteq> 0" using m by auto
  have "unat h mod (unat (bf_bytes_size f) * 8) < unat (bf_bytes_size f) * 8" using pos by simp
  then show lt: "unat (h mod (bf_bytes_size f * 8)) div 8 < length (bf_bytes f)"
    using assms by (simp add: unat_mod m Bloom_wf_def div_less_iff_less_mult)
  show "bits_pos f h = Some (unat (h mod (bf_bytes_size f * 8)))"
    using nz lt by (simp add: bits_pos_def Let_def)
qed

lemma Bloom_put_loop_correct:
  assumes "Bloom_wf f"
  shows "\<exists>f'. Bloom_put_loop n f h = Some f' \<and> Bloom_wf f' \<and> bf_bytes_size f' = bf_bytes_size f \<and>
    bf_hash_num f' = bf_hash_num f \<and> (\<forall>p. bit_of f' p \<longleftrightarrow> p \<in> positions f n h \<or> bit_of f p)"
  using assms
proof (induction n arbitrary: f h)
  case 0
  then show ?case by (simp add: positions_def)
next
  case (Suc n)
  let ?p = "unat (h mod (bf_bytes_size f * 8))"
  let ?f = "f\<lparr>bf_bytes := lsb.set_pos (bf_bytes f) ?p\<rparr>"
  note pos = bits_pos_wf [OF Suc.prems, of h]
  have wf: "Bloom_wf ?f" using Suc.prems by (simp add: Bloom_wf_def)
  have set: "bit_of ?f q \<longleftrightarrow> q = ?p \<or> bit_of f q" for q
    using lsb.test_set_pos [OF pos(2)] by (simp add: bit_of_def)
  have same: "positions ?f n (next_hash h) = positions f n (next_hash h)" by (simp add: positions_def)
  from Suc.IH [OF wf, of "next_hash h"] obtain f' where
    f': "Bloom_put_loop n ?f (next_hash h) = Some f'" "Bloom_wf f'" "bf_bytes_size f' = bf_bytes_size f"
      "bf_hash_num f' = bf_hash_num f" "\<forall>p. bit_of f' p \<longleftrightarrow> p \<in> positions f n (next_hash h) \<or> bit_of ?f p"
    unfolding same by auto
  then have "Bloom_put_loop (Suc n) f h = Some f'" using pos(1) by (simp add: lsb.set_pos_def)
  with f' set show ?case by (auto simp: positions_Suc)
qed

lemma Bloom_check_loop_correct:
  assumes "Bloom_wf f"
  shows "Bloom_check_loop n f h = Some (\<forall>p \<in> positions f n h. bit_of f p)"
proof (induction n arbitrary: h)
  case 0
  show ?case by (simp add: positions_def)
next
  case (Suc n)
  with bits_pos_wf(1) [OF assms, of h] show ?case
    by (simp add: positions_Suc bit_of_def lsb.test_pos_def)
qed

definition key_positions :: "BloomFilter \<Rightarrow> bytes \<Rightarrow> nat set" where
  "key_positions f key = positions f (unat (bf_hash_num f)) (Murmur32 key 0xefac1970)"

lemma BloomFilter_CheckExist_wf:
  "Bloom_wf f \<Longrightarrow> BloomFilter_CheckExist f key = Some (Inr (\<forall>p \<in> key_positions f key. bit_of f p))"
  by (auto simp: BloomFilter_CheckExist_def Bloom_check_loop_correct key_positions_def Bloom_wf_def)

lemma BloomFilter_Put_wf:
  assumes "Bloom_wf f"
  shows "\<exists>f'. BloomFilter_Put f key = Some (kOk, f') \<and> Bloom_wf f' \<and> key_positions f' = key_positions f \<and>
    (\<forall>p. bit_of f' p \<longleftrightarrow> p \<in> key_positions f key \<or> bit_of f p)"
proof -
  from Bloom_put_loop_correct [OF assms, of "unat (bf_hash_num f)" "Murmur32 key 0xefac1970"] obtain f' where
    "Bloom_put_loop (unat (bf_hash_num f)) f (Murmur32 key 0xefac1970) = Some f'" "Bloom_wf f'"
    "bf_bytes_size f' = bf_bytes_size f" "bf_hash_num f' = bf_hash_num f"
    "\<forall>p. bit_of f' p \<longleftrightarrow> p \<in> key_positions f key \<or> bit_of f p" by (auto simp: key_positions_def)
  with assms show ?thesis
    by (auto simp: BloomFilter_Put_def Bloom_wf_def key_positions_def positions_def fun_eq_iff)
qed

text \<open>A sequence of insertions.\<close>

primrec Bloom_put_all :: "bytes list \<Rightarrow> BloomFilter \<Rightarrow> BloomFilter option" where
  "Bloom_put_all [] f = Some f"
| "Bloom_put_all (key # keys) f =
     (case BloomFilter_Put f key of Some (kOk, f') \<Rightarrow> Bloom_put_all keys f' | _ \<Rightarrow> None)"

lemma Bloom_put_all_correct:
  assumes "Bloom_wf f"
  shows "\<exists>f'. Bloom_put_all keys f = Some f' \<and> Bloom_wf f' \<and> key_positions f' = key_positions f \<and>
    (\<forall>p. bit_of f' p \<longleftrightarrow> bit_of f p \<or> (\<exists>key \<in> set keys. p \<in> key_positions f key))"
  using assms
proof (induction keys arbitrary: f)
  case (Cons key keys)
  from BloomFilter_Put_wf [OF Cons.prems] obtain f1 where
    f1: "BloomFilter_Put f key = Some (kOk, f1)" "Bloom_wf f1" "key_positions f1 = key_positions f"
      "\<forall>p. bit_of f1 p \<longleftrightarrow> p \<in> key_positions f key \<or> bit_of f p" by blast
  with Cons.IH [OF f1(2)] show ?case by auto
qed simp

lemma Bloom_Init_wf:
  assumes "0 < unat (bf_keys_num f) * unat (bf_bits_per_key f)"
    and "unat (bf_keys_num f) * unat (bf_bits_per_key f) < 2 ^ 32 - 7"
  shows "\<exists>f'. BloomFilter_Init f = (kOk, f') \<and> Bloom_wf f' \<and> bf_hash_num f' = bf_hash_num f \<and>
    (\<forall>p. p div 8 < length (bf_bytes f') \<longrightarrow> \<not> bit_of f' p)"
proof -
  let ?n = "unat (bf_keys_num f) * unat (bf_bits_per_key f)"
  let ?bits = "ucast (bf_keys_num f * bf_bits_per_key f) :: 64 word"
  have "unat (bf_keys_num f * bf_bits_per_key f) = ?n"
    using assms(2) unat_mult_lem [of "bf_keys_num f" "bf_bits_per_key f", THEN iffD1] by simp
  then have bits: "unat ?bits = ?n"
    using assms(2) by (simp add: unsigned_ucast_eq take_bit_nat_eq_self)
  then have small: "\<not> 0xFFFFFFFF < ?bits" using assms(2) by (simp add: word_less_nat_alt)
  have "unat (?bits + 7) = ?n + 7"
    using assms(2) bits unat_add_lem [of ?bits 7, THEN iffD1] by simp
  then have "unat ((?bits + 7) div 8) = (?n + 7) div 8" by (simp add: unat_div)
  moreover have le: "(?n + 7) div 8 < 2 ^ 29" "0 < (?n + 7) div 8"
    using assms by (simp_all only: div_greater_zero_iff) simp_all
  ultimately have size: "unat (ucast ((?bits + 7) div 8) :: 32 word) = (?n + 7) div 8"
    by (simp add: unsigned_ucast_eq take_bit_nat_eq_self)
  let ?f = "f\<lparr>bf_bytes := replicate ((?n + 7) div 8) 0, bf_bytes_size := ucast ((?bits + 7) div 8), bf_is_init := True\<rparr>"
  have "BloomFilter_Init f = (kOk, ?f)"
    using small size by (simp add: BloomFilter_Init_def Let_def)
  moreover have "Bloom_wf ?f" using size le by (simp add: Bloom_wf_def word_less_nat_alt)
  moreover have "p div 8 < length (bf_bytes ?f) \<longrightarrow> \<not> bit_of ?f p" for p
    using lsb.test_zero by (simp add: bit_of_def)
  ultimately show ?thesis by (intro exI [of _ ?f]) simp
qed

section \<open>Properties\<close>

text \<open>C18: no false negatives: a filter whose size in bits is positive and does not wrap accepts
  every sequence of insertions, and afterwards reports every inserted key as present.\<close>
theorem Bloom_no_false_negatives:
  assumes "0 < unat keys_num * unat bits_per_key" "unat keys_num * unat bits_per_key < 2 ^ 32 - 7"
  shows "\<exists>f f'. BloomFilter_Init (BloomFilter_new bits_per_key keys_num hash_num) = (kOk, f) \<and>
    Bloom_put_all keys f = Some f' \<and> (\<forall>key \<in> set keys. BloomFilter_CheckExist f' key = Some (Inr True))"
proof -
  obtain f where f: "BloomFilter_Init (BloomFilter_new bits_per_key keys_num hash_num) = (kOk, f)" "Bloom_wf f"
    using Bloom_Init_wf [of "BloomFilter_new bits_per_key keys_num hash_num"] assms
    by (auto simp: BloomFilter_new_def)
  from Bloom_put_all_correct [OF f(2), of keys] f(1) show ?thesis
    by (auto simp: BloomFilter_CheckExist_wf)
qed

theorem Bloom_no_false_negatives_witness:
  "\<exists>f f'. BloomFilter_Init (BloomFilter_new 10 1000 3) = (kOk, f) \<and>
    Bloom_put_all [[c_a], [c_f, 0]] f = Some f' \<and>
    (\<forall>key \<in> set [[c_a], [c_f, 0]]. BloomFilter_CheckExist f' key = Some (Inr True))"
  by (rule Bloom_no_false_negatives) simp_all

text \<open>C19: a filter whose size in bits is positive and does not wrap, after any sequence of insertions from
  \<open>Init\<close> on, reports a key as present exactly when each of the key's positions is a position of one of the
  inserted keys; so without insertions, when it uses at least one hash, it reports no key.\<close>
theorem Bloom_exact:
  assumes "0 < unat keys_num * unat bits_per_key" "unat keys_num * unat bits_per_key < 2 ^ 32 - 7"
  shows "\<exists>f f'. BloomFilter_Init (BloomFilter_new bits_per_key keys_num hash_num) = (kOk, f) \<and>
    Bloom_put_all keys f = Some f' \<and>
    (\<forall>key. BloomFilter_CheckExist f' key =
      Some (Inr (key_positions f key \<subseteq> (\<Union>k \<in> set keys. key_positions f k)))) \<and>
    (keys = [] \<and> 0 < hash_num \<longrightarrow> (\<forall>key. BloomFilter_CheckExist f' key = Some (Inr False)))"
proof -
  obtain f where f: "BloomFilter_Init (BloomFilter_new bits_per_key keys_num hash_num) = (kOk, f)" "Bloom_wf f"
    "bf_hash_num f = hash_num" "\<forall>p. p div 8 < length (bf_bytes f) \<longrightarrow> \<not> bit_of f p"
    using Bloom_Init_wf [of "BloomFilter_new bits_per_key keys_num hash_num"] assms
    by (auto simp: BloomFilter_new_def)
  obtain f' where f': "Bloom_put_all keys f = Some f'" "Bloom_wf f'" "key_positions f' = key_positions f"
    "\<forall>p. bit_of f' p \<longleftrightarrow> bit_of f p \<or> (\<exists>k \<in> set keys. p \<in> key_positions f k)"
    using Bloom_put_all_correct [OF f(2), of keys] by auto
  have "\<forall>p \<in> key_positions f key. \<not> bit_of f p" for key
    using f(4) bits_pos_wf(2) [OF f(2)] by (auto simp: key_positions_def positions_def)
  with f'(2-4) have exact: "BloomFilter_CheckExist f' key =
      Some (Inr (key_positions f key \<subseteq> (\<Union>k \<in> set keys. key_positions f k)))" for key
    by (auto simp: BloomFilter_CheckExist_wf)
  have "key_positions f key \<noteq> {}" if "0 < hash_num" for key
    using that f(3) by (auto simp: key_positions_def positions_def word_less_nat_alt)
  with exact have "keys = [] \<and> 0 < hash_num \<longrightarrow> (\<forall>key. BloomFilter_CheckExist f' key = Some (Inr False))"
    by simp
  with f(1) f'(1) exact show ?thesis by blast
qed

theorem Bloom_exact_witness:
  "(\<exists>f f'. BloomFilter_Init (BloomFilter_new 10 1000 3) = (kOk, f) \<and> Bloom_put_all [[c_a], [c_f, 0]] f = Some f' \<and>
      BloomFilter_CheckExist f' [c_z] = Some (Inr (key_positions f [c_z] \<subseteq> key_positions f [c_a] \<union> key_positions f [c_f, 0]))) \<and>
    (\<exists>f. BloomFilter_Init (BloomFilter_new 10 1000 3) = (kOk, f) \<and> BloomFilter_CheckExist f [c_z] = Some (Inr False))"
  using Bloom_exact [of 1000 10 3 "[[c_a], [c_f, 0]]"] Bloom_exact [of 1000 10 3 "[]"] by fastforce

text \<open>The 32-bit product may wrap to zero; then every insertion divides by zero.\<close>

lemma Bloom_Init_wraps:
  "BloomFilter_Init (BloomFilter_new 65536 65536 1) = (kOk, f) \<Longrightarrow> BloomFilter_Put f key = None"
  by (auto simp: BloomFilter_Init_def BloomFilter_new_def BloomFilter_Put_def bits_pos_def)

end
