(* ===== verification/Lru_Cache.thy ===== *)
theory Lru_Cache
  imports CS_Prelude "HOL-Library.AList"
begin

text \<open>
  The LRU cache of store/cache/lru_cache: a map from keys to nodes of a circular doubly
  linked list with a sentinel. The nodes live in an explicit heap (a map from addresses, the
  sentinel at address 0), so the pointer updates of \<open>RemoveHandleNode\<close> and
  \<open>InsertHandleNode\<close> are modelled one store at a time; a null or dangling dereference is
  \<open>None\<close>. The cache is proved to refine a list of entries, the most recently used first.
  The clock is an argument of the operations that read it, and the lock is not modelled:
  every operation runs as a whole.
\<close>

section \<open>The heap\<close>

type_synonym addr = nat

record HandleNode =
  hn_pre :: addr
  hn_next :: addr
  hn_key :: bytes
  hn_value :: bytes
  hn_access_time :: "64 word"

type_synonym heap = "addr \<rightharpoonup> HandleNode"

abbreviation cur_list :: addr where "cur_list \<equiv> 0"

definition upd_node :: "addr \<Rightarrow> (HandleNode \<Rightarrow> HandleNode) \<Rightarrow> heap \<Rightarrow> heap option" where
  "upd_node a f h = (case h a of None \<Rightarrow> None | Some n \<Rightarrow> Some (h(a \<mapsto> f n)))"

abbreviation set_next :: "addr \<Rightarrow> addr \<Rightarrow> heap \<Rightarrow> heap option" where
  "set_next a b \<equiv> upd_node a (\<lambda>n. n\<lparr>hn_next := b\<rparr>)"

abbreviation set_pre :: "addr \<Rightarrow> addr \<Rightarrow> heap \<Rightarrow> heap option" where
  "set_pre a b \<equiv> upd_node a (\<lambda>n. n\<lparr>hn_pre := b\<rparr>)"

definition RemoveHandleNode :: "addr \<Rightarrow> heap \<Rightarrow> heap option" where
  "RemoveHandleNode cur_node h =
     Option.bind (h cur_node) (\<lambda>n.
     Option.bind (set_next (hn_pre n) (hn_next n) h) (\<lambda>h.
     Option.bind (h cur_node) (\<lambda>n.
     set_pre (hn_next n) (hn_pre n) h)))"

definition InsertHandleNode :: "addr \<Rightarrow> heap \<Rightarrow> heap option" where
  "InsertHandleNode cur_node h =
     Option.bind (h cur_list) (\<lambda>c.
     Option.bind (set_next cur_node (hn_next c) h) (\<lambda>h.
     Option.bind (set_next cur_list cur_node h) (\<lambda>h.
     Option.bind (h cur_node) (\<lambda>n.
     Option.bind (h (hn_next n)) (\<lambda>x.
     Option.bind (set_pre cur_node (hn_pre x) h) (\<lambda>h.
     Option.bind (h cur_node) (\<lambda>n.
     set_pre (hn_next n) cur_node h)))))))"

section \<open>The cache\<close>

text \<open>The next address that \<open>new\<close> hands out is a counter of the state.\<close>

record LRUCache =
  lru_max_num :: "32 word"
  lru_time_interval :: "32 word"
  lru_caches :: "(bytes \<times> addr) list"
  lru_heap :: heap
  lru_fresh :: addr

definition LRUCache_new :: LRUCache where
  "LRUCache_new = \<lparr>lru_max_num = 0, lru_time_interval = 0, lru_caches = [],
     lru_heap = [cur_list \<mapsto> \<lparr>hn_pre = cur_list, hn_next = cur_list, hn_key = [], hn_value = [], hn_access_time = 0\<rparr>],
     lru_fresh = 1\<rparr>"

definition LRUCache_Init :: "32 word \<Rightarrow> 32 word \<Rightarrow> LRUCache \<Rightarrow> Code \<times> LRUCache" where
  "LRUCache_Init max_num time_interval s =
     (kOk, s\<lparr>lru_max_num := max_num, lru_time_interval := time_interval\<rparr>)"

text \<open>
  \<open>while (caches_.size() > max_num_)\<close>. \<open>None\<close> is undefined behaviour or a loop that does not
  return; the invariant below excludes both.
\<close>

partial_function (option) expire_loop :: "LRUCache \<Rightarrow> addr \<Rightarrow> LRUCache option" where
  "expire_loop s cur_node =
     (if unat (lru_max_num s) < length (lru_caches s) then
        Option.bind (RemoveHandleNode cur_node (lru_heap s)) (\<lambda>h.
        Option.bind (h cur_node) (\<lambda>n.
        let s = s\<lparr>lru_heap := h(cur_node := None), lru_caches := AList.delete (hn_key n) (lru_caches s)\<rparr> in
        Option.bind (lru_heap s cur_list) (\<lambda>c. expire_loop s (hn_pre c))))
      else Some s)"

definition RemoveExpiredNodes :: "LRUCache \<Rightarrow> LRUCache option" where
  "RemoveExpiredNodes s =
     (if lru_max_num s \<noteq> 0 \<and> unat (lru_max_num s) < length (lru_caches s) then
        Option.bind (lru_heap s cur_list) (\<lambda>c. expire_loop s (hn_pre c))
      else Some s)"

definition LRUCache_Put :: "bytes \<Rightarrow> bytes \<Rightarrow> 64 word \<Rightarrow> LRUCache \<Rightarrow> (Code \<times> LRUCache) option" where
  "LRUCache_Put key value now s =
     (case map_of (lru_caches s) key of
        Some a \<Rightarrow>
          Option.bind (upd_node a (\<lambda>n. n\<lparr>hn_value := value, hn_access_time := now\<rparr>) (lru_heap s)) (\<lambda>h.
          Option.bind (RemoveHandleNode a h) (\<lambda>h.
          Option.bind (InsertHandleNode a h) (\<lambda>h.
          Some (kOk, s\<lparr>lru_heap := h\<rparr>))))
      | None \<Rightarrow>
          let a = lru_fresh s;
              h = (lru_heap s)(a \<mapsto> \<lparr>hn_pre = 0, hn_next = 0, hn_key = key, hn_value = value, hn_access_time = now\<rparr>)
          in Option.bind (InsertHandleNode a h) (\<lambda>h.
             Option.bind (RemoveExpiredNodes
               (s\<lparr>lru_heap := h, lru_fresh := a + 1, lru_caches := (key, a) # lru_caches s\<rparr>)) (\<lambda>s.
             Some (kOk, s))))"

definition LRUCache_Get :: "bytes \<Rightarrow> 64 word \<Rightarrow> LRUCache \<Rightarrow> (bytes res \<times> LRUCache) option" where
  "LRUCache_Get key now s =
     Option.bind (RemoveExpiredNodes s) (\<lambda>s.
       case map_of (lru_caches s) key of
         Some a \<Rightarrow>
           Option.bind (lru_heap s a) (\<lambda>n.
             if lru_time_interval s \<noteq> 0 \<and> ucast (lru_time_interval s) < now - hn_access_time n then
               Option.bind (RemoveHandleNode a (lru_heap s)) (\<lambda>h.
               Some (Inl kNotFound, s\<lparr>lru_heap := h(a := None), lru_caches := AList.delete key (lru_caches s)\<rparr>))
             else
               Option.bind (upd_node a (\<lambda>n. n\<lparr>hn_access_time := now\<rparr>) (lru_heap s)) (\<lambda>h.
               Option.bind (RemoveHandleNode a h) (\<lambda>h.
               Option.bind (InsertHandleNode a h) (\<lambda>h.
               Option.bind (h a) (\<lambda>n.
               Some (Inr (hn_value n), s\<lparr>lru_heap := h\<rparr>))))))
       | None \<Rightarrow> Some (Inl kNotFound, s))"

definition LRUCache_Del :: "bytes \<Rightarrow> LRUCache \<Rightarrow> (Code \<times> LRUCache) option" where
  "LRUCache_Del key s =
     (case map_of (lru_caches s) key of
        Some a \<Rightarrow>
          Option.bind (RemoveHandleNode a (lru_heap s)) (\<lambda>h.
          Some (kOk, s\<lparr>lru_heap := h(a := None), lru_caches := AList.delete key (lru_caches s)\<rparr>))
      | None \<Rightarrow> Some (kNotFound, s))"

section \<open>The circular list\<close>

definition adj :: "heap \<Rightarrow> addr \<Rightarrow> addr \<Rightarrow> bool" where
  "adj h a b \<longleftrightarrow> (\<exists>n m. h a = Some n \<and> hn_next n = b \<and> h b = Some m \<and> hn_pre m = a)"

fun path :: "heap \<Rightarrow> addr list \<Rightarrow> bool" where
  "path h (a # b # xs) \<longleftrightarrow> adj h a b \<and> path h (b # xs)"
| "path h _ \<longleftrightarrow> True"

definition ring :: "heap \<Rightarrow> addr list \<Rightarrow> bool" where
  "ring h as \<longleftrightarrow> path h (cur_list # as @ [cur_list]) \<and> distinct (cur_list # as)"

text \<open>The contents of a node, without its links.\<close>

definition entry :: "heap \<Rightarrow> addr \<Rightarrow> (bytes \<times> bytes \<times> 64 word) option" where
  "entry h a = map_option (\<lambda>n. (hn_key n, hn_value n, hn_access_time n)) (h a)"

lemma path_append: "path h (xs @ a # ys) \<longleftrightarrow> path h (xs @ [a]) \<and> path h (a # ys)"
proof (induction xs)
  case (Cons x xs)
  then show ?case by (cases xs) auto
qed simp

lemma path_snoc: "path h (xs @ [a, b]) \<longleftrightarrow> path h (xs @ [a]) \<and> adj h a b"
  using path_append [of h xs a "[b]"] by simp

text \<open>Links are kept when the fields that they use are.\<close>

definition next_of :: "heap \<Rightarrow> addr \<Rightarrow> addr option" where "next_of h a = map_option hn_next (h a)"
definition pre_of :: "heap \<Rightarrow> addr \<Rightarrow> addr option" where "pre_of h a = map_option hn_pre (h a)"

lemma adj_fields: "adj h a b \<longleftrightarrow> next_of h a = Some b \<and> pre_of h b = Some a"
  by (auto simp: adj_def next_of_def pre_of_def)

lemma path_cong:
  assumes "path h xs" "\<And>x. x \<in> set (butlast xs) \<Longrightarrow> next_of h' x = next_of h x"
    "\<And>x. x \<in> set (tl xs) \<Longrightarrow> pre_of h' x = pre_of h x"
  shows "path h' xs"
  using assms
proof (induction h xs rule: path.induct)
  case (1 h a b xs)
  then have "path h' (b # xs)" by (cases xs) auto
  with 1 show ?case by (auto simp: adj_fields)
qed auto

named_theorems heap_fields \<open>the fields of an updated heap\<close>

lemma upd_node_dom: "a \<in> dom h \<longleftrightarrow> (\<exists>h'. upd_node a f h = Some h')"
  by (auto simp: upd_node_def split: option.splits)

lemma set_next_fields [heap_fields]:
  "set_next a b h = Some h' \<Longrightarrow> next_of h' = (next_of h)(a \<mapsto> b) \<and> pre_of h' = pre_of h \<and>
    entry h' = entry h \<and> dom h' = dom h"
proof -
  assume "set_next a b h = Some h'"
  then obtain n where "h a = Some n" "h' = h(a \<mapsto> n\<lparr>hn_next := b\<rparr>)"
    by (auto simp: upd_node_def split: option.splits)
  then show ?thesis by (auto simp: next_of_def pre_of_def entry_def fun_eq_iff split: if_splits)
qed

lemma set_pre_fields [heap_fields]:
  "set_pre a b h = Some h' \<Longrightarrow> pre_of h' = (pre_of h)(a \<mapsto> b) \<and> next_of h' = next_of h \<and>
    entry h' = entry h \<and> dom h' = dom h"
proof -
  assume "set_pre a b h = Some h'"
  then obtain n where "h a = Some n" "h' = h(a \<mapsto> n\<lparr>hn_pre := b\<rparr>)"
    by (auto simp: upd_node_def split: option.splits)
  then show ?thesis by (auto simp: next_of_def pre_of_def entry_def fun_eq_iff split: if_splits)
qed

lemma next_of_Some: "next_of h a = Some b \<longleftrightarrow> (\<exists>n. h a = Some n \<and> hn_next n = b)"
  and pre_of_Some: "pre_of h a = Some b \<longleftrightarrow> (\<exists>n. h a = Some n \<and> hn_pre n = b)"
  by (auto simp: next_of_def pre_of_def)

lemma path_dom: "path h (a # b # xs) \<Longrightarrow> set (a # b # xs) \<subseteq> dom h"
proof (induction xs arbitrary: a b)
  case (Cons c xs)
  then have "path h (b # c # xs)" "a \<in> dom h" by (simp_all only: path.simps) (auto simp: adj_def)
  with Cons.IH [of b c] show ?case by simp
qed (auto simp: adj_def)

lemma ring_dom: "ring h as \<Longrightarrow> set (cur_list # as) \<subseteq> dom h"
  using path_dom [of h cur_list "hd (as @ [cur_list])" "tl (as @ [cur_list])"]
  by (cases as) (auto simp: ring_def)

text \<open>Unlinking a node and linking a node in at the front.\<close>

lemma ring_split:
  assumes "ring h (us @ a # vs)"
  defines "p \<equiv> last (cur_list # us)" and "q \<equiv> hd (vs @ [cur_list])"
  shows "path h (cur_list # us)" "path h (vs @ [cur_list])" "adj h p a" "adj h a q"
    "a \<noteq> p" "a \<noteq> q" "p \<notin> set vs" "q \<notin> set us" "p \<in> dom h" "q \<in> dom h"
    "p \<notin> set (butlast (cur_list # us))" "q \<notin> set (tl (vs @ [cur_list]))"
proof -
  have d: "distinct (cur_list # us @ a # vs)" and path: "path h ((cur_list # us) @ a # vs @ [cur_list])"
    using assms(1) by (simp_all add: ring_def)
  have us: "cur_list # us = butlast (cur_list # us) @ [p]" by (simp add: p_def)
  have vs: "vs @ [cur_list] = q # tl (vs @ [cur_list])" by (cases vs) (simp_all add: q_def)
  have l: "path h ((cur_list # us) @ [a])" and r: "path h (a # vs @ [cur_list])"
    using path path_append by blast+
  then show "path h (cur_list # us)" "adj h p a"
    using path_snoc [of h "butlast (cur_list # us)" p a] us by (metis append.assoc append_Cons append_Nil)+
  show "path h (vs @ [cur_list])" "adj h a q" using r vs by (metis path.simps(1))+
  have "p \<in> set (cur_list # us)" by (simp add: p_def)
  then show "a \<noteq> p" "p \<notin> set vs" using d by auto
  show "a \<noteq> q" "q \<notin> set us" using d by (cases vs; auto simp: q_def)+
  show "p \<in> dom h" "q \<in> dom h" using \<open>adj h p a\<close> \<open>adj h a q\<close> by (auto simp: adj_def)
  have "distinct (cur_list # us)" using d by auto
  then show "p \<notin> set (butlast (cur_list # us))" using us by (metis distinct_append not_distinct_conv_prefix distinct_butlast Un_iff disjoint_iff list.set_intros(1))
  have "distinct (vs @ [cur_list])" using d by auto
  then show "q \<notin> set (tl (vs @ [cur_list]))" using vs by (metis distinct.simps(2))
qed

lemma RemoveHandleNode_ring:
  assumes "ring h (us @ a # vs)"
  shows "\<exists>h'. RemoveHandleNode a h = Some h' \<and> ring h' (us @ vs) \<and> entry h' = entry h \<and> dom h' = dom h"
proof -
  define p q where "p = last (cur_list # us)" and "q = hd (vs @ [cur_list])"
  note sp = ring_split [OF assms, folded p_def q_def]
  obtain n where n: "h a = Some n" "hn_pre n = p" "hn_next n = q"
    using sp(3,4) by (auto simp: adj_def)
  obtain h1 where h1: "set_next p q h = Some h1" using sp(9) upd_node_dom by blast
  note f1 = set_next_fields [OF h1]
  have "h1 a = h a" using h1 sp(5) by (auto simp: upd_node_def split: option.splits)
  obtain h2 where h2: "set_pre q p h1 = Some h2" using sp(10) f1 upd_node_dom by blast
  note f2 = set_pre_fields [OF h2]
  have "RemoveHandleNode a h = Some h2"
    using n h1 h2 \<open>h1 a = h a\<close> by (simp add: RemoveHandleNode_def)
  moreover have "ring h2 (us @ vs)"
  proof -
    have "path h2 (cur_list # us)"
      using sp(1) by (rule path_cong) (use sp(8,11) f1 f2 in auto)
    moreover have "path h2 (vs @ [cur_list])"
      using sp(2) by (rule path_cong) (use sp(7,12) f1 f2 in auto)
    moreover have "adj h2 p q" using f1 f2 by (auto simp: adj_fields)
    moreover have "cur_list # us = butlast (cur_list # us) @ [p]" "vs @ [cur_list] = q # tl (vs @ [cur_list])"
      by (simp add: p_def) (cases vs; simp add: q_def)
    ultimately have "path h2 ((cur_list # us) @ (vs @ [cur_list]))"
      by (metis append.assoc append_Cons append_Nil path_append path_snoc)
    with assms show ?thesis by (auto simp: ring_def)
  qed
  ultimately show ?thesis using f1 f2 by auto
qed

lemma InsertHandleNode_ring:
  assumes "ring h as" "a \<in> dom h" "a \<notin> set (cur_list # as)"
  shows "\<exists>h'. InsertHandleNode a h = Some h' \<and> ring h' (a # as) \<and> entry h' = entry h \<and> dom h' = dom h"
proof -
  obtain q qs where as: "as @ [cur_list] = q # qs" by (cases "as @ [cur_list]") auto
  have path: "path h (cur_list # as @ [cur_list])" and d: "distinct (cur_list # as)"
    using assms(1) by (simp_all add: ring_def)
  then have adj: "adj h cur_list q" and path': "path h (as @ [cur_list])" by (simp_all add: as)
  have "q \<in> set (as @ [cur_list])" by (simp add: as)
  then have q: "q \<in> set (cur_list # as)" "q \<in> dom h" using adj by (auto simp: adj_def)
  obtain c where c: "h cur_list = Some c" "hn_next c = q" using adj by (auto simp: adj_def)
  obtain h1 where h1: "set_next a q h = Some h1" using assms(2) upd_node_dom [THEN iffD1] by blast
  note f1 = set_next_fields [OF h1]
  have "cur_list \<in> dom h1" using c f1 by auto
  then obtain h2 where h2: "set_next cur_list a h1 = Some h2" using upd_node_dom [THEN iffD1] by blast
  note f2 = set_next_fields [OF h2]
  have na: "next_of h2 a = Some q" using f1 f2 assms(3) by simp
  then obtain n where n: "h2 a = Some n" "hn_next n = q" by (auto simp: next_of_Some)
  have "pre_of h2 q = Some cur_list" using adj f1 f2 by (simp add: adj_fields)
  then obtain x where x: "h2 q = Some x" "hn_pre x = cur_list" by (auto simp: pre_of_Some)
  have "a \<in> dom h2" using n by auto
  then obtain h3 where h3: "set_pre a cur_list h2 = Some h3" using upd_node_dom [THEN iffD1] by blast
  note f3 = set_pre_fields [OF h3]
  have "next_of h3 a = Some q" using f3 na by simp
  then obtain m where m: "h3 a = Some m" "hn_next m = q" by (auto simp: next_of_Some)
  have "q \<in> dom h3" using q f1 f2 f3 by simp
  then obtain h4 where h4: "set_pre q a h3 = Some h4" using upd_node_dom [THEN iffD1] by blast
  note f4 = set_pre_fields [OF h4]
  have nx: "next_of h4 = (next_of h)(a \<mapsto> q, cur_list \<mapsto> a)" and pr: "pre_of h4 = (pre_of h)(a \<mapsto> cur_list, q \<mapsto> a)"
    and keep: "entry h4 = entry h" "dom h4 = dom h" using f1 f2 f3 f4 by simp_all
  have ins: "InsertHandleNode a h = Some h4"
    using c h1 h2 n x h3 m h4 by (simp add: InsertHandleNode_def)
  have aq: "a \<noteq> q" "a \<noteq> cur_list" using q assms(3) by auto
  have dt: "distinct (as @ [cur_list])" using d by auto
  have "path h4 (as @ [cur_list])"
  proof (rule path_cong [OF path'])
    fix y assume "y \<in> set (butlast (as @ [cur_list]))"
    then have "y \<in> set as" by simp
    then have "y \<noteq> a" using assms(3) by auto
    moreover have "y \<noteq> cur_list"
    proof
      assume "y = cur_list"
      with \<open>y \<in> set as\<close> d show False by simp
    qed
    ultimately show "next_of h4 y = next_of h y" by (simp add: nx)
  next
    fix y assume y: "y \<in> set (tl (as @ [cur_list]))"
    then have "y \<noteq> q" using dt by (auto simp: as)
    moreover have "y \<in> set (as @ [cur_list])" using y by (simp add: as)
    then have "y \<noteq> a" using assms(3) by auto
    ultimately show "pre_of h4 y = pre_of h y" by (simp add: pr)
  qed
  moreover have "adj h4 cur_list a" "adj h4 a q" using aq by (simp_all add: adj_fields nx pr)
  ultimately have "path h4 (cur_list # a # as @ [cur_list])" by (simp add: as)
  with d assms(3) have "ring h4 (a # as)" by (simp add: ring_def)
  with ins keep show ?thesis by blast
qed

lemma ring_delete:
  assumes "ring h as" "a \<notin> set (cur_list # as)"
  shows "ring (h(a := None)) as"
proof -
  have "path (h(a := None)) (cur_list # as @ [cur_list])"
  proof (rule path_cong)
    show "path h (cur_list # as @ [cur_list])" using assms(1) by (simp add: ring_def)
    show "next_of (h(a := None)) x = next_of h x" if "x \<in> set (butlast (cur_list # as @ [cur_list]))" for x
      using that assms(2) by (auto simp: next_of_def butlast_append split: if_splits)
    show "pre_of (h(a := None)) x = pre_of h x" if "x \<in> set (tl (cur_list # as @ [cur_list]))" for x
      using that assms(2) by (auto simp: pre_of_def)
  qed
  with assms(1) show ?thesis by (simp add: ring_def)
qed

lemma ring_data:
  assumes "ring h as" "next_of h' = next_of h" "pre_of h' = pre_of h"
  shows "ring h' as"
  using assms path_cong [of h "cur_list # as @ [cur_list]" h'] by (simp add: ring_def)

lemma ring_last: "ring h as \<Longrightarrow> pre_of h cur_list = Some (last (cur_list # as))"
proof -
  assume r: "ring h as"
  then have "path h ((cur_list # as) @ [cur_list])" by (simp add: ring_def)
  then have "path h (butlast (cur_list # as) @ [last (cur_list # as), cur_list])"
    using append_butlast_last_id [of "cur_list # as"] by (metis append.assoc append_Cons append_Nil list.distinct(1))
  then show ?thesis by (simp only: path_snoc adj_fields)
qed

section \<open>The invariant\<close>

definition key_at :: "heap \<Rightarrow> addr \<Rightarrow> bytes" where
  "key_at h a = fst (the (entry h a))"

definition LRU_inv :: "LRUCache \<Rightarrow> addr list \<Rightarrow> bool" where
  "LRU_inv s as \<longleftrightarrow> ring (lru_heap s) as \<and> distinct (map (key_at (lru_heap s)) as) \<and>
     distinct (map fst (lru_caches s)) \<and> set (lru_caches s) = (\<lambda>a. (key_at (lru_heap s) a, a)) ` set as \<and>
     (\<forall>a \<in> set (cur_list # as). a < lru_fresh s)"

text \<open>The entries, the most recently used first.\<close>

definition LRU_abs :: "heap \<Rightarrow> addr list \<Rightarrow> (bytes \<times> bytes \<times> 64 word) list" where
  "LRU_abs h as = map (\<lambda>a. the (entry h a)) as"

lemma length_LRU_abs: "length (LRU_abs h as) = length as"
  by (simp add: LRU_abs_def)

lemma inv_lookup:
  assumes "LRU_inv s as"
  shows "map_of (lru_caches s) k = Some a \<longleftrightarrow> a \<in> set as \<and> key_at (lru_heap s) a = k"
  using assms by (auto simp: LRU_inv_def)

lemma inv_lookup_None:
  assumes "LRU_inv s as"
  shows "map_of (lru_caches s) k = None \<longleftrightarrow> k \<notin> key_at (lru_heap s) ` set as"
proof -
  have "map_of (lru_caches s) k \<noteq> None \<longleftrightarrow> (\<exists>a. a \<in> set as \<and> key_at (lru_heap s) a = k)"
    unfolding not_None_eq using inv_lookup [OF assms, of k] by blast
  then show ?thesis by auto
qed

lemma inv_length:
  assumes "LRU_inv s as"
  shows "length (lru_caches s) = length as"
proof -
  have "distinct (map fst (lru_caches s))" and c: "set (lru_caches s) = (\<lambda>a. (key_at (lru_heap s) a, a)) ` set as"
    and d: "distinct as" using assms by (simp_all add: LRU_inv_def ring_def)
  then have "distinct (lru_caches s)" by (simp only: distinct_map)
  then have "length (lru_caches s) = card (set (lru_caches s))" by (rule distinct_card [symmetric])
  moreover have "inj_on (\<lambda>a. (key_at (lru_heap s) a, a)) (set as)" by (rule inj_onI) simp
  then have "card ((\<lambda>a. (key_at (lru_heap s) a, a)) ` set as) = card (set as)" by (rule card_image)
  ultimately show ?thesis using distinct_card [OF d] c by simp
qed

lemma inv_node: "LRU_inv s as \<Longrightarrow> a \<in> set as \<Longrightarrow> \<exists>n. lru_heap s a = Some n"
  using ring_dom [of "lru_heap s" as] by (auto simp: LRU_inv_def)

text \<open>Deleting a node from the list, the map and the heap.\<close>

lemma inv_delete:
  assumes "LRU_inv s (us @ a # vs)" "k = key_at (lru_heap s) a"
  shows "\<exists>h. RemoveHandleNode a (lru_heap s) = Some h \<and> entry h = entry (lru_heap s) \<and>
    LRU_inv (s\<lparr>lru_heap := h(a := None), lru_caches := AList.delete k (lru_caches s)\<rparr>) (us @ vs) \<and>
    LRU_abs (h(a := None)) (us @ vs) = LRU_abs (lru_heap s) (us @ vs)"
proof -
  have ring: "ring (lru_heap s) (us @ a # vs)" and d: "distinct (cur_list # us @ a # vs)"
    using assms(1) by (auto simp: LRU_inv_def ring_def)
  from RemoveHandleNode_ring [OF ring] obtain h where
    h: "RemoveHandleNode a (lru_heap s) = Some h" "ring h (us @ vs)" "entry h = entry (lru_heap s)" by blast
  have a: "a \<notin> set (cur_list # us @ vs)" using d by auto
  have ne_a: "x \<noteq> a" if "x \<in> set (us @ vs)" for x using that a by auto
  have e: "entry (h(a := None)) x = entry (lru_heap s) x" if "x \<in> set (us @ vs)" for x
    using ne_a [OF that] h(3) [THEN fun_cong, of x] by (simp add: entry_def)
  then have key: "key_at (h(a := None)) x = key_at (lru_heap s) x" if "x \<in> set (us @ vs)" for x
    using that by (simp add: key_at_def)
  have keys: "map (key_at (h(a := None))) (us @ vs) = map (key_at (lru_heap s)) (us @ vs)"
    using key by (simp add: map_eq_conv)
  have "distinct (map (key_at (h(a := None))) (us @ vs))"
    unfolding keys using assms(1) by (simp add: LRU_inv_def)
  moreover have abs: "LRU_abs (h(a := None)) (us @ vs) = LRU_abs (lru_heap s) (us @ vs)"
    using e by (simp add: LRU_abs_def map_eq_conv)
  moreover have "set (AList.delete k (lru_caches s)) = (\<lambda>x. (key_at (h(a := None)) x, x)) ` set (us @ vs)"
  proof -
    have dk: "distinct (map (key_at (lru_heap s)) (us @ a # vs))"
      and setc: "set (lru_caches s) = (\<lambda>x. (key_at (lru_heap s) x, x)) ` set (us @ a # vs)"
      using assms(1) by (simp_all only: LRU_inv_def)
    have ne: "key_at (lru_heap s) x \<noteq> k" if "x \<in> set us \<or> x \<in> set vs" for x
      using that dk by (auto simp: assms(2) image_iff)
    have "set (AList.delete k (lru_caches s)) = {e \<in> set (lru_caches s). fst e \<noteq> k}"
      by (auto simp: AList.delete_eq)
    also have "\<dots> = (\<lambda>x. (key_at (lru_heap s) x, x)) ` set (us @ vs)"
      unfolding setc using ne assms(2) by (auto simp: image_iff)
    also have "\<dots> = (\<lambda>x. (key_at (h(a := None)) x, x)) ` set (us @ vs)"
      using key by (intro image_cong) auto
    finally show ?thesis .
  qed
  moreover have "distinct (map fst (AList.delete k (lru_caches s)))"
    "\<forall>x \<in> set (cur_list # us @ vs). x < lru_fresh s"
    using assms(1) by (auto simp: LRU_inv_def intro!: distinct_delete)
  ultimately have "LRU_inv (s\<lparr>lru_heap := h(a := None), lru_caches := AList.delete k (lru_caches s)\<rparr>) (us @ vs)"
    using ring_delete [OF h(2) a] by (simp add: LRU_inv_def)
  with h abs show ?thesis by blast
qed

text \<open>Moving a node to the front, after its value and time were stored.\<close>

lemma inv_front:
  assumes "LRU_inv s (us @ a # vs)" "upd_node a f (lru_heap s) = Some h0"
    and f: "\<And>n. hn_next (f n) = hn_next n \<and> hn_pre (f n) = hn_pre n \<and> hn_key (f n) = hn_key n"
  shows "\<exists>h1 h2. RemoveHandleNode a h0 = Some h1 \<and> InsertHandleNode a h1 = Some h2 \<and> entry h2 = entry h0 \<and>
    LRU_inv (s\<lparr>lru_heap := h2\<rparr>) (a # us @ vs) \<and>
    LRU_abs h2 (a # us @ vs) = the (entry h0 a) # LRU_abs (lru_heap s) (us @ vs)"
proof -
  from assms(2) obtain n where n: "lru_heap s a = Some n" "h0 = (lru_heap s)(a \<mapsto> f n)"
    by (auto simp: upd_node_def split: option.splits)
  have ring: "ring (lru_heap s) (us @ a # vs)" and d: "distinct (cur_list # us @ a # vs)"
    using assms(1) by (auto simp: LRU_inv_def ring_def)
  have "next_of h0 = next_of (lru_heap s)" "pre_of h0 = pre_of (lru_heap s)"
    using n f by (auto simp: next_of_def pre_of_def fun_eq_iff)
  with ring have "ring h0 (us @ a # vs)" by (rule ring_data)
  from RemoveHandleNode_ring [OF this] obtain h1 where
    h1: "RemoveHandleNode a h0 = Some h1" "ring h1 (us @ vs)" "entry h1 = entry h0" "dom h1 = dom h0" by blast
  have a: "a \<in> dom h1" "a \<notin> set (cur_list # us @ vs)" using h1(4) n d by auto
  from InsertHandleNode_ring [OF h1(2) a] obtain h2 where
    h2: "InsertHandleNode a h1 = Some h2" "ring h2 (a # us @ vs)" "entry h2 = entry h1" by blast
  have "x \<noteq> a" if "x \<in> set (us @ vs)" for x using that a by auto
  then have e: "entry h2 x = entry (lru_heap s) x" if "x \<in> set (us @ vs)" for x
    using that n by (simp only: h2(3) h1(3)) (simp add: entry_def)
  have "key_at h0 = key_at (lru_heap s)"
    using n f by (auto simp: key_at_def entry_def fun_eq_iff)
  then have key: "key_at h2 = key_at (lru_heap s)"
    by (simp add: key_at_def h2(3) h1(3) fun_eq_iff)
  have "LRU_inv (s\<lparr>lru_heap := h2\<rparr>) (a # us @ vs)"
    using assms(1) h2(2) by (auto simp: LRU_inv_def key)
  moreover have "LRU_abs h2 (us @ vs) = LRU_abs (lru_heap s) (us @ vs)"
    using e by (simp add: LRU_abs_def map_eq_conv)
  ultimately show ?thesis using h1 h2 by (auto simp: LRU_abs_def)
qed

text \<open>A new node at the front.\<close>

lemma inv_new:
  fixes v :: bytes and now :: "64 word"
  assumes "LRU_inv s as" "key \<notin> key_at (lru_heap s) ` set as"
  defines "a \<equiv> lru_fresh s"
  defines "h0 \<equiv> (lru_heap s)(a \<mapsto> \<lparr>hn_pre = 0, hn_next = 0, hn_key = key, hn_value = v, hn_access_time = now\<rparr>)"
  shows "\<exists>h. InsertHandleNode a h0 = Some h \<and>
    LRU_inv (s\<lparr>lru_heap := h, lru_fresh := a + 1, lru_caches := (key, a) # lru_caches s\<rparr>) (a # as) \<and>
    LRU_abs h (a # as) = (key, v, now) # LRU_abs (lru_heap s) as"
proof -
  have a: "a \<notin> set (cur_list # as)" using assms(1) by (auto simp: LRU_inv_def a_def)
  have "ring h0 as"
  proof -
    have "path h0 (cur_list # as @ [cur_list])"
    proof (rule path_cong)
      show "path (lru_heap s) (cur_list # as @ [cur_list])" using assms(1) by (simp add: LRU_inv_def ring_def)
      show "next_of h0 x = next_of (lru_heap s) x" if "x \<in> set (butlast (cur_list # as @ [cur_list]))" for x
        using that a by (auto simp: h0_def next_of_def butlast_append split: if_splits)
      show "pre_of h0 x = pre_of (lru_heap s) x" if "x \<in> set (tl (cur_list # as @ [cur_list]))" for x
        using that a by (auto simp: h0_def pre_of_def)
    qed
    with assms(1) show ?thesis by (simp add: LRU_inv_def ring_def)
  qed
  moreover have "a \<in> dom h0" by (simp add: h0_def)
  ultimately obtain h where h: "InsertHandleNode a h0 = Some h" "ring h (a # as)" "entry h = entry h0"
    using InsertHandleNode_ring a by blast
  have "x \<noteq> a" if "x \<in> set as" for x using that a by auto
  then have e: "entry h x = entry (lru_heap s) x" if "x \<in> set as" for x
    using that by (simp add: h(3)) (simp add: h0_def entry_def)
  then have key: "key_at h x = key_at (lru_heap s) x" if "x \<in> set as" for x
    using that by (simp add: key_at_def)
  have ea: "entry h a = Some (key, v, now)" by (simp add: h(3)) (simp add: h0_def entry_def)
  then have ka: "key_at h a = key" by (simp add: key_at_def)
  have same: "key_at h ` set as = key_at (lru_heap s) ` set as" "map (key_at h) as = map (key_at (lru_heap s)) as"
    "(\<lambda>x. (key_at h x, x)) ` set as = (\<lambda>x. (key_at (lru_heap s) x, x)) ` set as"
    using key by (auto simp: map_eq_conv intro!: image_cong)
  have "key \<notin> fst ` set (lru_caches s)" using assms(1,2) by (auto simp: LRU_inv_def)
  moreover have "distinct (map (key_at h) as)" unfolding same(2) using assms(1) by (simp add: LRU_inv_def)
  moreover have "key \<notin> key_at h ` set as" unfolding same(1) by (rule assms(2))
  moreover have "set (lru_caches s) = (\<lambda>x. (key_at h x, x)) ` set as"
    unfolding same(3) using assms(1) by (simp add: LRU_inv_def)
  moreover have "\<forall>x \<in> set (cur_list # a # as). x < a + 1"
    using assms(1) by (fastforce simp: LRU_inv_def a_def)
  ultimately have "LRU_inv (s\<lparr>lru_heap := h, lru_fresh := a + 1, lru_caches := (key, a) # lru_caches s\<rparr>) (a # as)"
    using assms(1) h(2) ka by (simp add: LRU_inv_def)
  moreover have "LRU_abs h (a # as) = (key, v, now) # LRU_abs (lru_heap s) as"
    using e ea by (simp add: LRU_abs_def map_eq_conv)
  ultimately show ?thesis using h(1) by blast
qed

text \<open>The eviction loop keeps the first \<open>max_num_\<close> nodes.\<close>

lemma expire_loop_correct:
  assumes "LRU_inv s as" "c = last (cur_list # as)"
  shows "\<exists>s'. expire_loop s c = Some s' \<and> LRU_inv s' (take (unat (lru_max_num s)) as) \<and>
    LRU_abs (lru_heap s') (take (unat (lru_max_num s)) as) = take (unat (lru_max_num s)) (LRU_abs (lru_heap s) as) \<and>
    lru_max_num s' = lru_max_num s \<and> lru_time_interval s' = lru_time_interval s"
  using assms
proof (induction as arbitrary: s c rule: rev_induct)
  case Nil
  then show ?case using inv_length [OF Nil(1)] by (subst expire_loop.simps) (simp add: LRU_abs_def)
next
  case (snoc a as)
  let ?m = "unat (lru_max_num s)"
  show ?case
  proof (cases "?m < length (as @ [a])")
    case False
    then show ?thesis
      using snoc.prems inv_length [OF snoc.prems(1)] by (subst expire_loop.simps) (simp add: LRU_abs_def)
  next
    case True
    from inv_delete [of s as a "[]" "key_at (lru_heap s) a"] snoc.prems(1) obtain h where
      h: "RemoveHandleNode a (lru_heap s) = Some h" "entry h = entry (lru_heap s)" and
      inv: "LRU_inv (s\<lparr>lru_heap := h(a := None), lru_caches := AList.delete (key_at (lru_heap s) a) (lru_caches s)\<rparr>) as"
      (is "LRU_inv ?s as") and
      abs: "LRU_abs (h(a := None)) as = LRU_abs (lru_heap s) as" by auto
    have "entry h a \<noteq> None" using h(2) inv_node [OF snoc.prems(1), of a] by (auto simp: entry_def)
    then obtain n where n: "h a = Some n" by (auto simp: entry_def)
    have k: "hn_key n = key_at (lru_heap s) a"
      using n h(2) by (simp add: key_at_def) (simp add: entry_def h(2) [symmetric])
    have "ring (lru_heap ?s) as" using inv by (simp only: LRU_inv_def)
    then obtain r where r: "lru_heap ?s cur_list = Some r" "hn_pre r = last (cur_list # as)"
      using ring_last unfolding pre_of_Some by blast
    have step: "expire_loop s c = expire_loop ?s (hn_pre r)"
      using True inv_length [OF snoc.prems(1)] snoc.prems(2) h n k r
      by (subst expire_loop.simps) (simp add: Let_def)
    have "take ?m (LRU_abs (lru_heap s) (as @ [a])) = take ?m (LRU_abs (lru_heap s) as)"
      "take ?m (as @ [a]) = take ?m as" using True by (simp_all add: LRU_abs_def)
    with snoc.IH [OF inv r(2)] show ?thesis unfolding step by (simp add: abs del: fun_upd_apply)
  qed
qed

lemma RemoveExpiredNodes_correct:
  assumes "LRU_inv s as"
  shows "\<exists>s' as'. RemoveExpiredNodes s = Some s' \<and> LRU_inv s' as' \<and>
    LRU_abs (lru_heap s') as' = (if lru_max_num s = 0 then id else take (unat (lru_max_num s))) (LRU_abs (lru_heap s) as) \<and>
    lru_max_num s' = lru_max_num s \<and> lru_time_interval s' = lru_time_interval s"
proof (cases "lru_max_num s \<noteq> 0 \<and> unat (lru_max_num s) < length (lru_caches s)")
  case True
  have "ring (lru_heap s) as" using assms(1) by (simp only: LRU_inv_def)
  then obtain r where "lru_heap s cur_list = Some r" "hn_pre r = last (cur_list # as)"
    using ring_last by (auto simp: pre_of_Some)
  with True expire_loop_correct [OF assms(1)] show ?thesis
    by (auto simp: RemoveExpiredNodes_def)
next
  case False
  with assms(1) inv_length [OF assms(1)] show ?thesis
    by (intro exI [of _ s] exI [of _ as]) (auto simp: RemoveExpiredNodes_def LRU_abs_def)
qed

section \<open>Refinement of a list of entries\<close>

text \<open>The abstract cache: entries (key, value, time of the last access), the newest first.\<close>

type_synonym lru_list = "(bytes \<times> bytes \<times> 64 word) list"

definition lru_cut :: "32 word \<Rightarrow> lru_list \<Rightarrow> lru_list" where
  "lru_cut max_num es = (if max_num = 0 then es else take (unat max_num) es)"

definition lru_drop :: "bytes \<Rightarrow> lru_list \<Rightarrow> lru_list" where
  "lru_drop key es = filter (\<lambda>e. fst e \<noteq> key) es"

definition lru_put :: "32 word \<Rightarrow> bytes \<Rightarrow> bytes \<Rightarrow> 64 word \<Rightarrow> lru_list \<Rightarrow> lru_list" where
  "lru_put max_num key val now es =
     (if key \<in> fst ` set es then (key, val, now) # lru_drop key es else lru_cut max_num ((key, val, now) # es))"

definition lru_get :: "32 word \<Rightarrow> 32 word \<Rightarrow> bytes \<Rightarrow> 64 word \<Rightarrow> lru_list \<Rightarrow> bytes res \<times> lru_list" where
  "lru_get max_num interval key now es =
     (let es = lru_cut max_num es in
      case map_of es key of
        None \<Rightarrow> (Inl kNotFound, es)
      | Some (val, last_time) \<Rightarrow>
          if interval \<noteq> 0 \<and> ucast interval < now - last_time then (Inl kNotFound, lru_drop key es)
          else (Inr val, (key, val, now) # lru_drop key es))"

text \<open>A state of the code that stands for the list \<open>es\<close>.\<close>

definition LRU_rel :: "LRUCache \<Rightarrow> lru_list \<Rightarrow> bool" where
  "LRU_rel s es \<longleftrightarrow> (\<exists>as. LRU_inv s as \<and> LRU_abs (lru_heap s) as = es)"

lemma abs_keys: "map fst (LRU_abs h as) = map (key_at h) as"
  by (simp add: LRU_abs_def key_at_def)

lemma abs_drop:
  assumes "LRU_inv s (us @ a # vs)" "key_at (lru_heap s) a = k"
  shows "lru_drop k (LRU_abs (lru_heap s) (us @ a # vs)) = LRU_abs (lru_heap s) (us @ vs)"
proof -
  have "distinct (map (key_at (lru_heap s)) (us @ a # vs))" using assms(1) by (simp only: LRU_inv_def)
  then have "\<forall>x \<in> set us \<union> set vs. fst (the (entry (lru_heap s) x)) \<noteq> k"
    using assms(2) by (auto simp: key_at_def image_iff)
  then show ?thesis using assms(2)
    by (auto simp: lru_drop_def LRU_abs_def key_at_def filter_id_conv)
qed

lemma abs_map_of:
  assumes "LRU_inv s as" "a \<in> set as" "key_at (lru_heap s) a = k"
  shows "map_of (LRU_abs (lru_heap s) as) k = Some (snd (the (entry (lru_heap s) a)))"
proof -
  have "distinct (map fst (LRU_abs (lru_heap s) as))" using assms(1) by (simp add: abs_keys LRU_inv_def)
  moreover have "(k, snd (the (entry (lru_heap s) a))) \<in> set (LRU_abs (lru_heap s) as)"
    using assms(2,3) by (force simp: LRU_abs_def key_at_def)
  ultimately show ?thesis by (rule map_of_is_SomeI)
qed

lemma abs_map_of_None:
  "map_of (LRU_abs h as) k = None \<longleftrightarrow> k \<notin> key_at h ` set as"
  by (simp add: map_of_eq_None_iff) (metis abs_keys image_set)

text \<open>The three operations; \<open>same_cfg\<close>: the limits are unchanged.\<close>

definition same_cfg :: "LRUCache \<Rightarrow> LRUCache \<Rightarrow> bool" where
  "same_cfg s s' \<longleftrightarrow> lru_max_num s' = lru_max_num s \<and> lru_time_interval s' = lru_time_interval s"

lemma found_split:
  assumes "LRU_inv s as" "map_of (lru_caches s) k = Some a"
  obtains us vs where "as = us @ a # vs" "key_at (lru_heap s) a = k"
  using assms inv_lookup [OF assms(1), of k a] by (metis split_list)

lemma expired_refines:
  assumes "LRU_inv s as"
  shows "\<exists>s' as'. RemoveExpiredNodes s = Some s' \<and> LRU_inv s' as' \<and>
    LRU_abs (lru_heap s') as' = lru_cut (lru_max_num s) (LRU_abs (lru_heap s) as) \<and> same_cfg s s'"
  using RemoveExpiredNodes_correct [OF assms] by (auto simp: lru_cut_def same_cfg_def split: if_splits)

lemma LRUCache_Put_refines:
  assumes "LRU_rel s es"
  shows "\<exists>s'. LRUCache_Put key val now s = Some (kOk, s') \<and> LRU_rel s' (lru_put (lru_max_num s) key val now es) \<and>
    same_cfg s s'"
proof -
  obtain as where inv: "LRU_inv s as" and es: "es = LRU_abs (lru_heap s) as"
    using assms by (auto simp: LRU_rel_def)
  have keys: "key \<in> fst ` set es \<longleftrightarrow> key \<in> key_at (lru_heap s) ` set as"
    by (simp add: es) (metis abs_keys image_set)
  show ?thesis
  proof (cases "map_of (lru_caches s) key")
    case (Some a)
    obtain us vs where a: "as = us @ a # vs" "key_at (lru_heap s) a = key" using found_split [OF inv Some] by blast
    let ?f = "\<lambda>n. n\<lparr>hn_value := val, hn_access_time := now\<rparr>"
    obtain n where n: "lru_heap s a = Some n" using inv_node [OF inv, of a] a by auto
    then obtain h0 where h0: "upd_node a ?f (lru_heap s) = Some h0" by (simp add: upd_node_def)
    from inv_front [OF inv [unfolded a(1)] h0] obtain h1 h2 where
      h: "RemoveHandleNode a h0 = Some h1" "InsertHandleNode a h1 = Some h2"
        "LRU_inv (s\<lparr>lru_heap := h2\<rparr>) (a # us @ vs)"
        "LRU_abs h2 (a # us @ vs) = the (entry h0 a) # LRU_abs (lru_heap s) (us @ vs)" by auto
    have "the (entry h0 a) = (key, val, now)"
      using h0 n a(2) by (auto simp: upd_node_def entry_def key_at_def)
    then have "LRU_abs h2 (a # us @ vs) = lru_put (lru_max_num s) key val now es"
      using h(4) keys abs_drop [OF inv [unfolded a(1)] a(2)] a by (auto simp: lru_put_def es)
    with h h0 Some show ?thesis
      by (auto simp: LRUCache_Put_def LRU_rel_def same_cfg_def intro!: exI [of _ "a # us @ vs"])
  next
    case None
    then have new: "key \<notin> key_at (lru_heap s) ` set as" using inv_lookup_None [OF inv] by simp
    let ?h0 = "(lru_heap s)(lru_fresh s \<mapsto> \<lparr>hn_pre = 0, hn_next = 0, hn_key = key, hn_value = val, hn_access_time = now\<rparr>)"
    from inv_new [OF inv new, of val now] obtain h where
      h: "InsertHandleNode (lru_fresh s) ?h0 = Some h"
        "LRU_inv (s\<lparr>lru_heap := h, lru_fresh := lru_fresh s + 1, lru_caches := (key, lru_fresh s) # lru_caches s\<rparr>) (lru_fresh s # as)"
        (is "LRU_inv ?s _")
        "LRU_abs h (lru_fresh s # as) = (key, val, now) # LRU_abs (lru_heap s) as" by auto
    from expired_refines [OF h(2)] obtain s' as' where
      s': "RemoveExpiredNodes ?s = Some s'" "LRU_inv s' as'" "same_cfg ?s s'"
        "LRU_abs (lru_heap s') as' = lru_cut (lru_max_num s) ((key, val, now) # es)"
      using h(3) by (auto simp: es)
    have "LRU_rel s' (lru_put (lru_max_num s) key val now es)"
      using s'(2,4) keys new by (auto simp: LRU_rel_def lru_put_def)
    moreover have "LRUCache_Put key val now s = Some (kOk, s')"
      using None h(1) s'(1) by (simp add: LRUCache_Put_def Let_def)
    moreover have "same_cfg s s'" using s'(3) by (simp add: same_cfg_def)
    ultimately show ?thesis by blast
  qed
qed

lemma LRUCache_Del_refines:
  assumes "LRU_rel s es"
  shows "\<exists>s'. LRUCache_Del key s = Some (if key \<in> fst ` set es then kOk else kNotFound, s') \<and>
    LRU_rel s' (lru_drop key es) \<and> same_cfg s s'"
proof -
  obtain as where inv: "LRU_inv s as" and es: "es = LRU_abs (lru_heap s) as"
    using assms by (auto simp: LRU_rel_def)
  have keys: "key \<in> fst ` set es \<longleftrightarrow> key \<in> key_at (lru_heap s) ` set as"
    by (simp add: es) (metis abs_keys image_set)
  show ?thesis
  proof (cases "map_of (lru_caches s) key")
    case (Some a)
    obtain us vs where a: "as = us @ a # vs" "key_at (lru_heap s) a = key" using found_split [OF inv Some] by blast
    from inv_delete [OF inv [unfolded a(1)] a(2) [symmetric]] obtain h where
      h: "RemoveHandleNode a (lru_heap s) = Some h"
        "LRU_inv (s\<lparr>lru_heap := h(a := None), lru_caches := AList.delete key (lru_caches s)\<rparr>) (us @ vs)"
        "LRU_abs (h(a := None)) (us @ vs) = LRU_abs (lru_heap s) (us @ vs)" by blast
    then have "LRU_rel (s\<lparr>lru_heap := h(a := None), lru_caches := AList.delete key (lru_caches s)\<rparr>) (lru_drop key es)"
      using abs_drop [OF inv [unfolded a(1)] a(2)] a(1) by (auto simp: LRU_rel_def es)
    with h(1) Some a keys show ?thesis by (auto simp: LRUCache_Del_def same_cfg_def)
  next
    case None
    then have "key \<notin> fst ` set es" using inv_lookup_None [OF inv] keys by simp
    moreover from this have "lru_drop key es = es" by (auto simp: lru_drop_def filter_id_conv)
    ultimately show ?thesis using None assms by (simp add: LRUCache_Del_def same_cfg_def)
  qed
qed

lemma LRUCache_Get_refines:
  assumes "LRU_rel s es"
  shows "\<exists>s'. LRUCache_Get key now s = Some (fst (lru_get (lru_max_num s) (lru_time_interval s) key now es), s') \<and>
    LRU_rel s' (snd (lru_get (lru_max_num s) (lru_time_interval s) key now es)) \<and> same_cfg s s'"
proof -
  obtain as0 where inv0: "LRU_inv s as0" and es0: "es = LRU_abs (lru_heap s) as0"
    using assms by (auto simp: LRU_rel_def)
  from expired_refines [OF inv0] obtain t as where
    t: "RemoveExpiredNodes s = Some t" and inv: "LRU_inv t as" and
    es: "LRU_abs (lru_heap t) as = lru_cut (lru_max_num s) es" and cfg: "same_cfg s t"
    by (auto simp: es0)
  show ?thesis
  proof (cases "map_of (lru_caches t) key")
    case None
    then have "map_of (LRU_abs (lru_heap t) as) key = None"
      using inv_lookup_None [OF inv] abs_map_of_None by simp
    with t None cfg inv show ?thesis
      by (auto simp: LRUCache_Get_def lru_get_def Let_def es [symmetric] LRU_rel_def)
  next
    case (Some a)
    obtain us vs where a: "as = us @ a # vs" "key_at (lru_heap t) a = key" using found_split [OF inv Some] by blast
    obtain n where n: "lru_heap t a = Some n" using inv_node [OF inv, of a] a by auto
    have look: "map_of (LRU_abs (lru_heap t) as) key = Some (hn_value n, hn_access_time n)"
      using abs_map_of [OF inv, of a key] a n by (simp add: entry_def)
    note drop = abs_drop [OF inv [unfolded a(1)] a(2), folded a(1)]
    have int: "lru_time_interval t = lru_time_interval s" using cfg by (simp add: same_cfg_def)
    show ?thesis
    proof (cases "lru_time_interval s \<noteq> 0 \<and> ucast (lru_time_interval s) < now - hn_access_time n")
      case True
      from inv_delete [OF inv [unfolded a(1)] a(2) [symmetric]] obtain h where
        h: "RemoveHandleNode a (lru_heap t) = Some h"
          "LRU_inv (t\<lparr>lru_heap := h(a := None), lru_caches := AList.delete key (lru_caches t)\<rparr>) (us @ vs)"
          "LRU_abs (h(a := None)) (us @ vs) = LRU_abs (lru_heap t) (us @ vs)" by blast
      then have "LRU_rel (t\<lparr>lru_heap := h(a := None), lru_caches := AList.delete key (lru_caches t)\<rparr>)
          (lru_drop key (lru_cut (lru_max_num s) es))"
        using drop by (auto simp: LRU_rel_def es)
      moreover have "lru_get (lru_max_num s) (lru_time_interval s) key now es
          = (Inl kNotFound, lru_drop key (lru_cut (lru_max_num s) es))"
        using look True by (simp add: lru_get_def Let_def es)
      moreover have "LRUCache_Get key now s = Some (Inl kNotFound,
          t\<lparr>lru_heap := h(a := None), lru_caches := AList.delete key (lru_caches t)\<rparr>)"
        using True t Some n h(1) by (simp add: LRUCache_Get_def int)
      ultimately show ?thesis using cfg by (simp add: same_cfg_def)
    next
      case False
      let ?f = "\<lambda>n. n\<lparr>hn_access_time := now\<rparr>"
      obtain h0 where h0: "upd_node a ?f (lru_heap t) = Some h0" using n by (simp add: upd_node_def)
      from inv_front [OF inv [unfolded a(1)] h0] obtain h1 h2 where
        h: "RemoveHandleNode a h0 = Some h1" "InsertHandleNode a h1 = Some h2" "entry h2 = entry h0"
          "LRU_inv (t\<lparr>lru_heap := h2\<rparr>) (a # us @ vs)"
          "LRU_abs h2 (a # us @ vs) = the (entry h0 a) # LRU_abs (lru_heap t) (us @ vs)" by auto
      have e: "entry h0 a = Some (key, hn_value n, now)"
        using h0 n a(2) by (auto simp: upd_node_def entry_def key_at_def)
      then have "entry h2 a = Some (key, hn_value n, now)" by (simp only: h(3))
      then obtain m where m: "h2 a = Some m" "hn_value m = hn_value n" by (auto simp: entry_def)
      have "LRU_rel (t\<lparr>lru_heap := h2\<rparr>) ((key, hn_value n, now) # lru_drop key (lru_cut (lru_max_num s) es))"
        using h(4,5) e drop by (auto simp: LRU_rel_def es)
      moreover have "lru_get (lru_max_num s) (lru_time_interval s) key now es
          = (Inr (hn_value n), (key, hn_value n, now) # lru_drop key (lru_cut (lru_max_num s) es))"
        using look False by (simp add: lru_get_def Let_def es)
      moreover have "LRUCache_Get key now s = Some (Inr (hn_value n), t\<lparr>lru_heap := h2\<rparr>)"
        using False t Some n h0 h(1,2) m unfolding LRUCache_Get_def by (cases "lru_time_interval s = 0") (simp_all add: int)
      ultimately show ?thesis using cfg by (simp add: same_cfg_def)
    qed
  qed
qed

lemma LRU_rel_new: "LRU_rel LRUCache_new []"
  by (auto simp: LRU_rel_def LRU_inv_def LRU_abs_def LRUCache_new_def ring_def adj_def intro!: exI [of _ "[]"])

section \<open>Runs\<close>

datatype lru_op = OpPut bytes bytes "64 word" | OpGet bytes "64 word" | OpDel bytes

text \<open>A run of the code and of the specification; the outcomes are the codes and values returned.\<close>

fun lru_exec :: "lru_op \<Rightarrow> LRUCache \<Rightarrow> (bytes res \<times> LRUCache) option" where
  "lru_exec (OpPut k v t) s = map_option (\<lambda>(c, s). (Inl c, s)) (LRUCache_Put k v t s)"
| "lru_exec (OpGet k t) s = LRUCache_Get k t s"
| "lru_exec (OpDel k) s = map_option (\<lambda>(c, s). (Inl c, s)) (LRUCache_Del k s)"

fun lru_spec :: "32 word \<Rightarrow> 32 word \<Rightarrow> lru_op \<Rightarrow> lru_list \<Rightarrow> bytes res \<times> lru_list" where
  "lru_spec m i (OpPut k v t) es = (Inl kOk, lru_put m k v t es)"
| "lru_spec m i (OpGet k t) es = lru_get m i k t es"
| "lru_spec m i (OpDel k) es = (Inl (if k \<in> fst ` set es then kOk else kNotFound), lru_drop k es)"

fun lru_run :: "lru_op list \<Rightarrow> LRUCache \<Rightarrow> (bytes res list \<times> LRUCache) option" where
  "lru_run [] s = Some ([], s)"
| "lru_run (op # ops) s = Option.bind (lru_exec op s) (\<lambda>(r, s). map_option (\<lambda>(rs, s). (r # rs, s)) (lru_run ops s))"

fun lru_spec_run :: "32 word \<Rightarrow> 32 word \<Rightarrow> lru_op list \<Rightarrow> lru_list \<Rightarrow> bytes res list \<times> lru_list" where
  "lru_spec_run m i [] es = ([], es)"
| "lru_spec_run m i (op # ops) es =
     (case lru_spec m i op es of (r, es) \<Rightarrow> case lru_spec_run m i ops es of (rs, es) \<Rightarrow> (r # rs, es))"

lemma lru_exec_refines:
  assumes "LRU_rel s es"
  shows "\<exists>s'. lru_exec op s = Some (fst (lru_spec (lru_max_num s) (lru_time_interval s) op es), s') \<and>
    LRU_rel s' (snd (lru_spec (lru_max_num s) (lru_time_interval s) op es)) \<and> same_cfg s s'"
  using LRUCache_Put_refines [OF assms] LRUCache_Get_refines [OF assms] LRUCache_Del_refines [OF assms]
  by (cases op) fastforce+

lemma lru_run_refines:
  assumes "LRU_rel s es"
  shows "\<exists>s'. lru_run ops s = Some (fst (lru_spec_run (lru_max_num s) (lru_time_interval s) ops es), s') \<and>
    LRU_rel s' (snd (lru_spec_run (lru_max_num s) (lru_time_interval s) ops es)) \<and> same_cfg s s'"
  using assms
proof (induction ops arbitrary: s es)
  case Nil
  then show ?case by (auto simp: same_cfg_def)
next
  case (Cons op ops)
  let ?sp = "lru_spec (lru_max_num s) (lru_time_interval s) op es"
  from lru_exec_refines [OF Cons.prems, of op] obtain s1 where
    s1: "lru_exec op s = Some (fst ?sp, s1)" "LRU_rel s1 (snd ?sp)" "same_cfg s s1" by blast
  from Cons.IH [OF s1(2)] s1(3) obtain s2 where
    "lru_run ops s1 = Some (fst (lru_spec_run (lru_max_num s) (lru_time_interval s) ops (snd ?sp)), s2)"
    "LRU_rel s2 (snd (lru_spec_run (lru_max_num s) (lru_time_interval s) ops (snd ?sp)))" "same_cfg s1 s2"
    by (auto simp: same_cfg_def)
  with s1 show ?case by (auto simp: same_cfg_def split: prod.splits)
qed

lemma lru_spec_bounded:
  assumes "m \<noteq> 0" "length es \<le> unat m"
  shows "length (snd (lru_spec m i op es)) \<le> unat m"
proof -
  have drop: "k \<in> fst ` set xs \<Longrightarrow> Suc (length (lru_drop k xs)) \<le> length xs" for k and xs :: lru_list
    using length_filter_less [of _ xs "\<lambda>e. fst e \<noteq> k"] by (fastforce simp: lru_drop_def Suc_le_eq)
  have drop': "length (lru_drop k xs) \<le> length xs" for k and xs :: lru_list by (simp add: lru_drop_def)
  have cut: "lru_cut m es = es" using assms by (simp add: lru_cut_def)
  show ?thesis
  proof (cases op)
    case (OpPut k v t)
    with drop [of k es] assms(2) show ?thesis
      by (cases "k \<in> fst ` set es") (simp_all add: lru_put_def lru_cut_def assms(1))
  next
    case (OpGet k t)
    have "map_of es k = Some x \<Longrightarrow> k \<in> fst ` set es" for x by (force dest: map_of_SomeD)
    then show ?thesis using OpGet drop [of k es] drop' [of k es] assms(2)
      by (fastforce simp: lru_get_def Let_def cut split: option.splits)
  next
    case (OpDel k)
    then show ?thesis using drop' [of k es] assms(2) by simp
  qed
qed

lemma lru_spec_run_bounded:
  assumes "m \<noteq> 0" "length es \<le> unat m"
  shows "length (snd (lru_spec_run m i ops es)) \<le> unat m"
  using assms(2)
proof (induction ops arbitrary: es)
  case (Cons op ops)
  from Cons.IH [OF lru_spec_bounded [OF assms(1) Cons.prems, of i op]] show ?case by (auto split: prod.splits)
qed simp

section \<open>Properties\<close>

text \<open>C20: the pointer structure refines the list of entries: from the empty cache with any limits,
  every sequence of \<open>Put\<close>, \<open>Get\<close> and \<open>Del\<close> with any clock readings runs without an invalid
  access, returns what the list specification returns (move to the front on use, eviction at
  the back, expiry on \<open>Get\<close>), and never holds more than \<open>max_num_\<close> entries when \<open>max_num_\<close> is
  not 0 (0 means no limit).\<close>
theorem LRU_refinement:
  "\<exists>s. lru_run ops (snd (LRUCache_Init m i LRUCache_new)) = Some (fst (lru_spec_run m i ops []), s) \<and>
    LRU_rel s (snd (lru_spec_run m i ops [])) \<and>
    (m \<noteq> 0 \<longrightarrow> length (lru_caches s) \<le> unat m)"
proof -
  have "LRU_rel (snd (LRUCache_Init m i LRUCache_new)) []"
    using LRU_rel_new by (simp add: LRUCache_Init_def LRU_rel_def LRU_inv_def)
  from lru_run_refines [OF this, of ops] obtain s where
    s: "lru_run ops (snd (LRUCache_Init m i LRUCache_new)) = Some (fst (lru_spec_run m i ops []), s)"
      "LRU_rel s (snd (lru_spec_run m i ops []))"
    by (auto simp: LRUCache_Init_def)
  moreover have "m \<noteq> 0 \<longrightarrow> length (lru_caches s) \<le> unat m"
    using s(2) lru_spec_run_bounded [of m "[]" i ops] inv_length length_LRU_abs
    by (auto simp: LRU_rel_def) (metis inv_length length_LRU_abs)
  ultimately show ?thesis by blast
qed

theorem LRU_refinement_witness:
  "\<exists>s. lru_run [OpPut [1] [10] 0, OpPut [2] [20] 1, OpGet [1] 2, OpPut [3] [30] 3, OpGet [2] 4]
      (snd (LRUCache_Init 2 0 LRUCache_new)) = Some ([Inl kOk, Inl kOk, Inr [10], Inl kOk, Inl kNotFound], s)"
  using LRU_refinement [of "[OpPut [1] [10] 0, OpPut [2] [20] 1, OpGet [1] 2, OpPut [3] [30] 3, OpGet [2] 4]" 2 0]
  by (auto simp: lru_put_def lru_get_def lru_drop_def lru_cut_def Let_def)

end
