(* ===== verification/Bit_Cask_Codec.thy ===== *)
theory Bit_Cask_Codec
  imports Coding_Int Hash_Fun
begin

unbundle bit_operations_syntax

text \<open>
  The records of the BitCask store (store/db/bit_cask): their encoding as a header of 32 bytes
  followed by key and value, and \<open>ReadData\<close>, which reads one record from a position of a file
  and verifies its checksum. A file is its sequence of bytes; the \<open>FILE\<close> position is explicit.
\<close>

section \<open>Records\<close>

abbreviation kBCInvalidFlag :: "32 word" where "kBCInvalidFlag \<equiv> 0"
abbreviation kBCExistFlag :: "32 word" where "kBCExistFlag \<equiv> 1"
abbreviation kBCDelFlag :: "32 word" where "kBCDelFlag \<equiv> 2"

definition kMaxDataSize :: nat where "kMaxDataSize = 10 * 1024 * 1024"
definition kMaxKeySize :: nat where "kMaxKeySize = 1024"

record DataValue =
  dv_crc :: "32 word"
  dv_del_flag :: "32 word"
  dv_time_sec :: "32 word"
  dv_time_nsec :: "32 word"
  dv_version :: "64 word"
  dv_key_size :: "32 word"
  dv_value_size :: "32 word"
  dv_key :: bytes
  dv_value :: bytes

definition DataValue_Clear :: DataValue where
  "DataValue_Clear = \<lparr>dv_crc = 0, dv_del_flag = kBCInvalidFlag, dv_time_sec = 0, dv_time_nsec = 0,
     dv_version = 0, dv_key_size = 0, dv_value_size = 0, dv_key = [], dv_value = []\<rparr>"

section \<open>Encoding\<close>

definition EncodeDataValueHead :: "DataValue \<Rightarrow> bytes" where
  "EncodeDataValueHead d =
     EncodeFixed32 (dv_value_size d) (EncodeFixed32 (dv_key_size d) (EncodeFixed64 (dv_version d)
       (EncodeFixed32 (dv_time_nsec d) (EncodeFixed32 (dv_time_sec d) (EncodeFixed32 (dv_del_flag d)
         (EncodeFixed32 (dv_crc d) []))))))"

definition DecodeDataValueHead :: "bytes \<Rightarrow> DataValue \<Rightarrow> DataValue res" where
  "DecodeDataValueHead str d =
     rbind (DecodeFixed32 (take 4 str)) (\<lambda>n. let d = d\<lparr>dv_crc := n\<rparr> in
     rbind (DecodeFixed32 (take 4 (drop 4 str))) (\<lambda>n. let d = d\<lparr>dv_del_flag := n\<rparr> in
     rbind (DecodeFixed32 (take 4 (drop 8 str))) (\<lambda>n. let d = d\<lparr>dv_time_sec := n\<rparr> in
     rbind (DecodeFixed32 (take 4 (drop 12 str))) (\<lambda>n. let d = d\<lparr>dv_time_nsec := n\<rparr> in
     rbind (DecodeFixed64 (take 8 (drop 16 str))) (\<lambda>n. let d = d\<lparr>dv_version := n\<rparr> in
     rbind (DecodeFixed32 (take 4 (drop 24 str))) (\<lambda>n. let d = d\<lparr>dv_key_size := n\<rparr> in
     rbind (DecodeFixed32 (take 4 (drop 28 str))) (\<lambda>n.
     Inr (d\<lparr>dv_value_size := n\<rparr>))))))))"

definition EncodeDataValue :: "DataValue \<Rightarrow> bytes" where
  "EncodeDataValue d = EncodeDataValueHead d @ dv_key d @ dv_value d"

text \<open>The substrings are cut off at the end of \<open>str\<close>; a start behind it throws (\<open>None\<close>).\<close>

definition DecodeDataValue :: "bytes \<Rightarrow> DataValue \<Rightarrow> DataValue res option" where
  "DecodeDataValue str d =
     (case DecodeDataValueHead str d of
        Inl e \<Rightarrow> Some (Inl e)
      | Inr d \<Rightarrow>
          let ks = unat (dv_key_size d); vs = unat (dv_value_size d) in
          if length str < 32 + ks then None
          else Some (Inr (d\<lparr>dv_key := take ks (drop 32 str), dv_value := take vs (drop (32 + ks) str)\<rparr>)))"

section \<open>Reading a record\<close>

text \<open>
  The result is the record and the position behind it. \<open>None\<close>: the data do not fit the
  buffer \<open>buf_\<close>, or the sum of the sizes wraps and bytes that were not read are used.
\<close>

definition ReadData :: "bytes \<Rightarrow> nat \<Rightarrow> (DataValue \<times> nat) res option" where
  "ReadData content pos =
     (let head = take 32 (drop pos content) in
      if length head \<noteq> 32 then Some (Inl kFileIsEnd)
      else case DecodeDataValueHead head DataValue_Clear of
          Inl e \<Rightarrow> Some (Inl e)
        | Inr d \<Rightarrow>
            let ks = unat (dv_key_size d); vs = unat (dv_value_size d);
                data_len = unat (dv_key_size d + dv_value_size d);
                got = take data_len (drop (pos + 32) content)
            in if kMaxDataSize + kMaxKeySize < length got then None
               else if length got \<noteq> data_len then Some (Inl kReadError)
               else if data_len < ks + vs then None
               else let d = d\<lparr>dv_key := take ks got, dv_value := take vs (drop ks got)\<rparr> in
                 if CRC32 (dv_value d) vs \<noteq> dv_crc d then Some (Inl kDataValueError)
                 else Some (Inr (d, pos + 32 + data_len)))"

lemma ReadData_progress: "ReadData content pos = Some (Inr (d, pos')) \<Longrightarrow> pos < pos' \<and> pos + 32 \<le> length content"
  by (auto simp: ReadData_def Let_def split: if_splits sum.splits)

text \<open>A record as \<open>SetValue\<close> builds it, of a size that the buffer holds.\<close>

definition dv_wf :: "DataValue \<Rightarrow> bool" where
  "dv_wf d \<longleftrightarrow> length (dv_key d) < kMaxKeySize \<and> length (dv_value d) \<le> kMaxDataSize \<and>
     unat (dv_key_size d) = length (dv_key d) \<and> unat (dv_value_size d) = length (dv_value d) \<and>
     dv_crc d = CRC32 (dv_value d) (length (dv_value d))"

lemma EncodeFixed_append:
  "EncodeFixed32 n out = out @ EncodeFixed32 n []" "EncodeFixed64 m out = out @ EncodeFixed64 m []"
  by (simp_all add: EncodeFixed32_def EncodeFixed64_def)

lemma length_head [simp]: "length (EncodeDataValueHead d) = 32"
  by (simp add: EncodeDataValueHead_def)

lemma DecodeFixed_exact:
  "DecodeFixed32 (EncodeFixed32 n []) = Inr n" "DecodeFixed64 (EncodeFixed64 m []) = Inr m"
  using DecodeFixed32_EncodeFixed32 [of n "[]"] DecodeFixed64_EncodeFixed64 [of m "[]"] by simp_all

lemma DecodeDataValueHead_Encode:
  "DecodeDataValueHead (EncodeDataValueHead d @ rest) d0 =
    Inr (d\<lparr>dv_key := dv_key d0, dv_value := dv_value d0\<rparr>)"
proof -
  let ?e = "\<lambda>n. EncodeFixed32 n []"
  have h: "EncodeDataValueHead d = ?e (dv_crc d) @ ?e (dv_del_flag d) @ ?e (dv_time_sec d) @ ?e (dv_time_nsec d)
      @ EncodeFixed64 (dv_version d) [] @ ?e (dv_key_size d) @ ?e (dv_value_size d)"
    unfolding EncodeDataValueHead_def by (simp add: EncodeFixed_append [of _ "_ @ _"] EncodeFixed_append [of _ "EncodeFixed32 _ _"] EncodeFixed32_def EncodeFixed64_def)
  show ?thesis
    unfolding h DecodeDataValueHead_def by (simp add: DecodeFixed_exact)
qed

lemma DecodeDataValue_Encode:
  "dv_wf d \<Longrightarrow> DecodeDataValue (EncodeDataValue d) d0 = Some (Inr d)"
  by (simp add: DecodeDataValue_def EncodeDataValue_def DecodeDataValueHead_Encode Let_def dv_wf_def)

text \<open>A record is read back wherever it stands in a file, when its checksum is that of its value.\<close>

lemma ReadData_checked:
  assumes "length (dv_key d) < kMaxKeySize" "length (dv_value d) \<le> kMaxDataSize"
    and "unat (dv_key_size d) = length (dv_key d)" "unat (dv_value_size d) = length (dv_value d)"
  shows "ReadData (pre @ EncodeDataValue d @ post) (length pre) =
    Some (if CRC32 (dv_value d) (length (dv_value d)) = dv_crc d
          then Inr (d, length pre + length (EncodeDataValue d)) else Inl kDataValueError)"
proof -
  have sum: "unat (dv_key_size d + dv_value_size d) = length (dv_key d) + length (dv_value d)"
    using assms unat_add_lem [of "dv_key_size d" "dv_value_size d", THEN iffD1]
    by (simp add: kMaxKeySize_def kMaxDataSize_def)
  have head: "take 32 (drop (length pre) (pre @ EncodeDataValue d @ post)) = EncodeDataValueHead d"
    by (simp add: EncodeDataValue_def)
  have data: "drop (length pre + 32) (pre @ EncodeDataValue d @ post) = dv_key d @ dv_value d @ post"
    by (simp add: EncodeDataValue_def)
  show ?thesis
    using assms DecodeDataValueHead_Encode [of d "[]" DataValue_Clear]
    unfolding ReadData_def head data
    by (simp add: Let_def sum DataValue_Clear_def EncodeDataValue_def)
qed

lemma ReadData_Encode:
  assumes "dv_wf d"
  shows "ReadData (pre @ EncodeDataValue d @ post) (length pre) =
    Some (Inr (d, length pre + length (EncodeDataValue d)))"
  using assms by (subst ReadData_checked) (simp_all add: dv_wf_def)

text \<open>A byte of the value that was changed in the file is detected.\<close>

lemma ReadData_changed_byte:
  assumes "dv_wf d" "i < length (dv_value d)" "b \<noteq> dv_value d ! i"
  shows "ReadData (pre @ (EncodeDataValue d)[32 + length (dv_key d) + i := b] @ post) (length pre) =
    Some (Inl kDataValueError)"
proof -
  let ?d = "d\<lparr>dv_value := (dv_value d)[i := b]\<rparr>"
  have "(EncodeDataValue d)[32 + length (dv_key d) + i := b] = EncodeDataValue ?d"
    by (simp add: EncodeDataValue_def EncodeDataValueHead_def [of ?d] EncodeDataValueHead_def [of d, symmetric] list_update_append)
  then show ?thesis
    using assms CRC32_changed_byte [OF assms(2,3)] by (simp add: ReadData_checked dv_wf_def)
qed

lemma ReadData_end:
  assumes "length content < pos + 32"
  shows "ReadData content pos = Some (Inl kFileIsEnd)"
proof -
  have "length (take 32 (drop pos content)) \<noteq> 32" using assms by simp
  then show ?thesis unfolding ReadData_def Let_def by (simp only: if_True simp_thms)
qed

text \<open>Appending to a file does not change what is read before its end.\<close>

lemma ReadData_Inr_iff:
  "ReadData content pos = Some (Inr (d, pos')) \<longleftrightarrow>
    pos + 32 \<le> length content \<and>
    (\<exists>d0. DecodeDataValueHead (take 32 (drop pos content)) DataValue_Clear = Inr d0 \<and>
      (let ks = unat (dv_key_size d0); vs = unat (dv_value_size d0);
           dl = unat (dv_key_size d0 + dv_value_size d0); got = take dl (drop (pos + 32) content)
       in length got = dl \<and> dl \<le> kMaxDataSize + kMaxKeySize \<and> ks + vs \<le> dl \<and>
          d = d0\<lparr>dv_key := take ks got, dv_value := take vs (drop ks got)\<rparr> \<and>
          CRC32 (dv_value d) vs = dv_crc d \<and> pos' = pos + 32 + dl))"
proof (cases "length (take 32 (drop pos content)) = 32")
  case True
  then have "pos + 32 \<le> length content" by simp
  then show ?thesis unfolding ReadData_def
    by (cases "DecodeDataValueHead (take 32 (drop pos content)) DataValue_Clear") (auto simp: Let_def)
next
  case False
  then have "length content < pos + 32" by simp
  then show ?thesis using ReadData_end [of content pos] by simp
qed

lemma ReadData_append:
  assumes "ReadData content pos = Some (Inr r)"
  shows "ReadData (content @ ext) pos = Some (Inr r)"
proof -
  obtain d pos' where r: "r = (d, pos')" by (cases r)
  have len: "pos + 32 \<le> length content" using assms ReadData_Inr_iff r by blast
  then have h: "take 32 (drop pos (content @ ext)) = take 32 (drop pos content)"
    and t: "length (take n (drop (pos + 32) content)) = n \<Longrightarrow>
      take n (drop (pos + 32) (content @ ext)) = take n (drop (pos + 32) content)" for n
    by simp_all
  show ?thesis using assms unfolding r ReadData_Inr_iff h Let_def
    by (elim conjE exE) (simp add: t)
qed

text \<open>A corrupted value is not returned.\<close>

lemma ReadData_crc:
  "ReadData content pos = Some (Inr (d, pos')) \<Longrightarrow> dv_crc d = CRC32 (dv_value d) (unat (dv_value_size d))"
  by (auto simp: ReadData_def Let_def split: if_splits sum.splits)

text \<open>A record whose data exceed \<open>buf_\<close> is written but cannot be read: the read overruns the buffer.\<close>

lemma ReadData_oversize:
  assumes "unat (dv_key_size d) = length (dv_key d)" "unat (dv_value_size d) = length (dv_value d)"
    and "length (dv_key d) + length (dv_value d) < 2 ^ 32"
    and "kMaxDataSize + kMaxKeySize < length (dv_key d) + length (dv_value d)"
  shows "ReadData (pre @ EncodeDataValue d @ post) (length pre) = None"
proof -
  have sum: "unat (dv_key_size d + dv_value_size d) = length (dv_key d) + length (dv_value d)"
    using assms unat_add_lem [of "dv_key_size d" "dv_value_size d", THEN iffD1] by simp
  have head: "take 32 (drop (length pre) (pre @ EncodeDataValue d @ post)) = EncodeDataValueHead d"
    by (simp add: EncodeDataValue_def)
  have data: "drop (length pre + 32) (pre @ EncodeDataValue d @ post) = dv_key d @ dv_value d @ post"
    by (simp add: EncodeDataValue_def)
  show ?thesis
    using assms DecodeDataValueHead_Encode [of d "[]" DataValue_Clear]
    unfolding ReadData_def head data by (simp add: Let_def sum)
qed

text \<open>C23: for a record as \<open>SetValue\<close> builds it (a key shorter than \<open>kMaxKeySize\<close>, a value of at most
  \<open>kMaxDataSize\<close> bytes, the sizes and the checksum of the value in its head): decoding yields what was
  encoded, and \<open>ReadData\<close> returns it from its position in any file, together with the position of the
  next record. When the bytes of the value in the file are replaced by others, as many, with another
  checksum, \<open>ReadData\<close> fails with \<open>kDataValueError\<close>; a change of any single byte of the value is such
  a replacement. (The checksum covers the value only, not the key.)\<close>
theorem BitCask_record_roundtrip:
  assumes "dv_wf d"
  shows "DecodeDataValue (EncodeDataValue d) d0 = Some (Inr d) \<and>
    ReadData (pre @ EncodeDataValue d @ post) (length pre) = Some (Inr (d, length pre + length (EncodeDataValue d))) \<and>
    (\<forall>v. length v = length (dv_value d) \<and> CRC32 v (length v) \<noteq> dv_crc d \<longrightarrow>
      ReadData (pre @ EncodeDataValue (d\<lparr>dv_value := v\<rparr>) @ post) (length pre) = Some (Inl kDataValueError)) \<and>
    (\<forall>i b. i < length (dv_value d) \<and> b \<noteq> dv_value d ! i \<longrightarrow>
      ReadData (pre @ (EncodeDataValue d)[32 + length (dv_key d) + i := b] @ post) (length pre) = Some (Inl kDataValueError))"
proof (intro conjI allI impI)
  show "DecodeDataValue (EncodeDataValue d) d0 = Some (Inr d)" by (rule DecodeDataValue_Encode [OF assms])
  show "ReadData (pre @ EncodeDataValue d @ post) (length pre) = Some (Inr (d, length pre + length (EncodeDataValue d)))"
    by (rule ReadData_Encode [OF assms])
next
  fix v :: bytes
  assume "length v = length (dv_value d) \<and> CRC32 v (length v) \<noteq> dv_crc d"
  then have v: "length v = length (dv_value d)" "CRC32 v (length (dv_value d)) \<noteq> dv_crc d" by metis+
  then show "ReadData (pre @ EncodeDataValue (d\<lparr>dv_value := v\<rparr>) @ post) (length pre) = Some (Inl kDataValueError)"
    using assms by (simp add: ReadData_checked dv_wf_def)
next
  fix i b
  assume "i < length (dv_value d) \<and> b \<noteq> dv_value d ! i"
  then show "ReadData (pre @ (EncodeDataValue d)[32 + length (dv_key d) + i := b] @ post) (length pre) =
      Some (Inl kDataValueError)"
    using ReadData_changed_byte [OF assms] by blast
qed

definition sample_record :: DataValue where
  "sample_record = DataValue_Clear\<lparr>dv_crc := CRC32 [5, 6] 2, dv_key_size := 2, dv_value_size := 2,
     dv_key := [1, 2], dv_value := [5, 6]\<rparr>"

theorem BitCask_record_roundtrip_witness:
  "ReadData ([7] @ EncodeDataValue sample_record @ []) (length [7 :: byte]) =
      Some (Inr (sample_record, length [7 :: byte] + length (EncodeDataValue sample_record))) \<and>
    ReadData ([7] @ (EncodeDataValue sample_record)[35 := 9] @ []) (length [7 :: byte]) = Some (Inl kDataValueError)"
proof -
  have two: "Suc (Suc 0) = 2" by simp
  have wf: "dv_wf sample_record"
    by (simp add: dv_wf_def sample_record_def DataValue_Clear_def kMaxKeySize_def kMaxDataSize_def two)
  have sizes: "length (dv_key sample_record) = 2" "1 < length (dv_value sample_record)" "9 \<noteq> dv_value sample_record ! 1"
    by (simp_all add: sample_record_def)
  then have at: "32 + length (dv_key sample_record) + 1 = 35" by simp
  note round = BitCask_record_roundtrip [OF wf, of undefined "[7]" "[]"]
  show ?thesis
  proof
    show "ReadData ([7] @ EncodeDataValue sample_record @ []) (length [7 :: byte]) =
        Some (Inr (sample_record, length [7 :: byte] + length (EncodeDataValue sample_record)))"
      using round by (elim conjE)
    show "ReadData ([7] @ (EncodeDataValue sample_record)[35 := 9] @ []) (length [7 :: byte]) = Some (Inl kDataValueError)"
      using round sizes unfolding at [symmetric] by (elim conjE allE) blast
  qed
qed

end
