(* ===== verification/Bit_Cask.thy ===== *)
theory Bit_Cask
  imports Bit_Cask_Codec Int_Funs "HOL-Library.AList" "HOL-Library.List_Lexorder"
begin

text \<open>
  The log-structured store of store/db/bit_cask: an index in memory from keys to the position of
  the newest record of the key, over append-only files of records. \<open>Put\<close> and \<open>Del\<close> append a
  record (with compare-and-set on a version), \<open>Get\<close> reads one, \<open>Init\<close> rebuilds the index from
  the files. The directory \<open>dir_path_\<close> is the association list of its regular files; an open
  \<open>FILE\<close> is the name of the file, since each file is opened once. Calls of the operating system
  succeed, except for \<open>fopen\<close> and \<open>stat\<close> on a file that does not exist; the clock is an argument.
  An \<open>fwrite\<close> on an \<open>a+\<close> stream appends also when the last operation on the stream was an \<open>fread\<close>.
  \<open>None\<close> is undefined behaviour of \<open>ReadData\<close>.
\<close>

section \<open>State\<close>

record Bucket =
  bk_fp :: bytes
  bk_del_flag :: "32 word"
  bk_key_size :: "32 word"
  bk_value_size :: "32 word"
  bk_data_pos :: nat
  bk_time_sec :: "32 word"
  bk_time_nsec :: "32 word"
  bk_version :: "64 word"

type_synonym index = "bytes \<rightharpoonup> Bucket"

record BitCask =
  bc_dir :: "(bytes \<times> bytes) list"
  bc_max_num :: "64 word"
  bc_used_cnt :: "64 word"
  bc_trx_id :: "64 word"
  bc_index :: index
  bc_data_suffix :: "64 word"
  bc_merge_suffix :: "64 word"
  bc_files :: "bytes set"

definition BitCask_new :: "(bytes \<times> bytes) list \<Rightarrow> BitCask" where
  "BitCask_new dir = \<lparr>bc_dir = dir, bc_max_num = 0, bc_used_cnt = 0, bc_trx_id = 0, bc_index = Map.empty,
     bc_data_suffix = 0, bc_merge_suffix = 0, bc_files = {}\<rparr>"

definition kSingleFileSize :: nat where "kSingleFileSize = 10 * 1024 * 1024"
definition kMaxKeysNum :: "64 word" where "kMaxKeysNum = 1024 * 1024"
definition kMaxFilesNum :: "64 word" where "kMaxFilesNum = 10 ^ 17 - 1"
definition kSourceDataFilePrefix :: bytes where "kSourceDataFilePrefix = [100, 97, 116, 97]"
definition kMergeDataFilePrefix :: bytes where
  "kMergeDataFilePrefix = [109, 101, 114, 103, 101, 95, 100, 97, 116, 97]"

section \<open>File names\<close>

text \<open>The format \<open>"%c%017llu"\<close> pads to 17 digits and prints all digits of a longer number.\<close>

definition GetFileName :: "bytes \<Rightarrow> 64 word \<Rightarrow> bytes" where
  "GetFileName pfx n = pfx @ c_dot # dec_digits (max 17 (dec_len (unat n))) (unat n)"

definition CheckIsFileFull :: "bytes \<Rightarrow> 64 word \<Rightarrow> BitCask \<Rightarrow> bool res" where
  "CheckIsFileFull pfx n s =
     (case map_of (bc_dir s) (GetFileName pfx n) of
        None \<Rightarrow> Inl kStatFailed
      | Some content \<Rightarrow> Inr (kSingleFileSize \<le> length content))"

section \<open>Reading the files\<close>

definition CheckValueIsNew :: "32 word \<Rightarrow> 32 word \<Rightarrow> 32 word \<Rightarrow> 32 word \<Rightarrow> bool" where
  "CheckValueIsNew first_sec first_nsec second_sec second_nsec \<longleftrightarrow>
     second_sec < first_sec \<or> (first_sec = second_sec \<and> second_nsec < first_nsec)"

definition CheckBucketIsNew :: "Bucket \<Rightarrow> Bucket \<Rightarrow> bool" where
  "CheckBucketIsNew b1 b2 \<longleftrightarrow>
     bk_time_sec b2 < bk_time_sec b1 \<or> (bk_time_sec b1 = bk_time_sec b2 \<and> bk_time_nsec b2 < bk_time_nsec b1)"

definition bucket_of :: "bytes \<Rightarrow> nat \<Rightarrow> DataValue \<Rightarrow> Bucket" where
  "bucket_of fp pos d = \<lparr>bk_fp = fp, bk_del_flag = dv_del_flag d, bk_key_size = dv_key_size d,
     bk_value_size = dv_value_size d, bk_data_pos = pos, bk_time_sec = dv_time_sec d,
     bk_time_nsec = dv_time_nsec d, bk_version = dv_version d\<rparr>"

definition index_record :: "bytes \<Rightarrow> Bucket \<Rightarrow> index \<times> 64 word \<Rightarrow> index \<times> 64 word" where
  "index_record key b = (\<lambda>(index, used_cnt).
     (case index key of
        Some old \<Rightarrow>
          if CheckBucketIsNew b old then
            (let used_cnt = (if bk_del_flag old = kBCDelFlag \<and> bk_del_flag b = kBCExistFlag then used_cnt + 1 else used_cnt);
                 used_cnt = (if bk_del_flag old = kBCExistFlag \<and> bk_del_flag b = kBCDelFlag then used_cnt - 1 else used_cnt)
             in (index(key \<mapsto> b), used_cnt))
          else (index, used_cnt)
      | None \<Rightarrow> (index(key \<mapsto> b), if bk_del_flag b = kBCExistFlag then used_cnt + 1 else used_cnt)))"

function ReadFile_loop :: "bytes \<Rightarrow> bytes \<Rightarrow> nat \<Rightarrow> index \<times> 64 word \<Rightarrow> (Code \<times> index \<times> 64 word) option" where
  "ReadFile_loop fp content cur_pos ix =
     (case ReadData content cur_pos of
        None \<Rightarrow> None
      | Some (Inl ret) \<Rightarrow> Some (if ret = kFileIsEnd then kOk else ret, ix)
      | Some (Inr (d, pos)) \<Rightarrow>
          ReadFile_loop fp content pos (index_record (dv_key d) (bucket_of fp cur_pos d) ix))"
  by pat_completeness auto
termination
  by (relation "measure (\<lambda>(fp, content, cur_pos, ix). length content - cur_pos)")
    (auto dest!: ReadData_progress)

declare ReadFile_loop.simps [simp del]

text \<open>The modes of \<open>fopen\<close>: \<open>"r"\<close> and \<open>"a+"\<close>, which creates a missing file.\<close>

datatype open_mode = ModeR | ModeAppend

definition OpenAndReadFile :: "bytes \<Rightarrow> open_mode \<Rightarrow> BitCask \<Rightarrow> (Code \<times> BitCask) option" where
  "OpenAndReadFile file_name mode s =
     (let read = (\<lambda>s content.
        let s = s\<lparr>bc_files := insert file_name (bc_files s)\<rparr> in
        case ReadFile_loop file_name content 0 (bc_index s, bc_used_cnt s) of
          None \<Rightarrow> None
        | Some (ret, index, used_cnt) \<Rightarrow> Some (ret, s\<lparr>bc_index := index, bc_used_cnt := used_cnt\<rparr>))
      in case map_of (bc_dir s) file_name of
          Some content \<Rightarrow> read s content
        | None \<Rightarrow>
            if mode = ModeR then Some (kOpenFileFailed, s)
            else read (s\<lparr>bc_dir := AList.update file_name [] (bc_dir s)\<rparr>) [])"

definition OpenNextFile :: "bytes \<Rightarrow> 64 word \<Rightarrow> BitCask \<Rightarrow> (Code \<times> BitCask) option" where
  "OpenNextFile pfx cur_suffix_num s =
     (let next_suffix_num = cur_suffix_num + 1 in
      if kMaxFilesNum \<le> next_suffix_num then Some (kFilesNumIsFull, s)
      else OpenAndReadFile (GetFileName pfx next_suffix_num) ModeAppend s)"

text \<open>The loop over the files' names; \<open>*cur_suffix_num\<close> is threaded, with the flag of the first file found.\<close>

fun OpenFiles_loop :: "bytes \<Rightarrow> bytes list \<Rightarrow> bool \<Rightarrow> 64 word \<Rightarrow> BitCask \<Rightarrow> (Code \<times> bool \<times> 64 word \<times> BitCask) option" where
  "OpenFiles_loop pfx [] first_file_found cur_suffix_num s = Some (kOk, first_file_found, cur_suffix_num, s)"
| "OpenFiles_loop pfx (name # names) first_file_found cur_suffix_num s =
     (case Strtok name c_dot [] of
        None \<Rightarrow> None
      | Some parts \<Rightarrow>
          if length parts \<noteq> 2 then Some (kInvalidBitCaskFileName, first_file_found, cur_suffix_num, s)
          else if parts ! 0 \<noteq> pfx then OpenFiles_loop pfx names first_file_found cur_suffix_num s
          else case GetUInt64 (parts ! 1) of
              Inl e \<Rightarrow> Some (e, first_file_found, cur_suffix_num, s)
            | Inr n \<Rightarrow>
                if first_file_found \<and> cur_suffix_num \<le> n
                then Some (kInvalidBitCaskFileName, first_file_found, cur_suffix_num, s)
                else
                  let mode = (if first_file_found then ModeR else ModeAppend);
                      cur_suffix_num = (if first_file_found then cur_suffix_num else n)
                  in case OpenAndReadFile name mode s of
                      None \<Rightarrow> None
                    | Some (ret, s) \<Rightarrow>
                        if ret \<noteq> kOk then Some (ret, True, cur_suffix_num, s)
                        else OpenFiles_loop pfx names True cur_suffix_num s)"

definition OpenAndReadFiles :: "bytes list \<Rightarrow> bytes \<Rightarrow> 64 word \<Rightarrow> BitCask \<Rightarrow> (Code \<times> 64 word \<times> BitCask) option" where
  "OpenAndReadFiles names pfx cur_suffix_num s =
     (case OpenFiles_loop pfx names False cur_suffix_num s of
        None \<Rightarrow> None
      | Some (ret, first_file_found, n, s) \<Rightarrow>
          if ret \<noteq> kOk then Some (ret, n, s)
          else if first_file_found then Some (kOk, n, s)
          else let n = 1 in
            map_option (\<lambda>(ret, s). (ret, n, s)) (OpenNextFile pfx (n - 1) s))"

definition BitCask_Init :: "bytes \<Rightarrow> BitCask \<Rightarrow> (Code \<times> BitCask) option" where
  "BitCask_Init dir_path s =
     (if dir_path = [] then Some (kInvalidParam, s)
      else
        let s = s\<lparr>bc_max_num := kMaxKeysNum\<rparr>;
            names = rev (sort (map fst (bc_dir s)))
        in case OpenAndReadFiles names kSourceDataFilePrefix (bc_data_suffix s) s of
            None \<Rightarrow> None
          | Some (ret, n, s) \<Rightarrow>
              let s = s\<lparr>bc_data_suffix := n\<rparr> in
              if ret \<noteq> kOk then Some (ret, s)
              else case OpenAndReadFiles names kMergeDataFilePrefix (bc_merge_suffix s) s of
                  None \<Rightarrow> None
                | Some (ret, n, s) \<Rightarrow> Some (ret, s\<lparr>bc_merge_suffix := n\<rparr>))"

section \<open>Operations\<close>

text \<open>The version of the new record, or the error that the compare-and-set gives.\<close>

definition check_version :: "Bucket option \<Rightarrow> 32 word \<Rightarrow> 64 word \<Rightarrow> 64 word res" where
  "check_version bucket flag version =
     (case bucket of
        None \<Rightarrow>
          if flag = kBCDelFlag then Inl kNotFound
          else if version \<noteq> -1 \<and> version \<noteq> 0 then Inl kCASFailed
          else Inr 1
      | Some b \<Rightarrow>
          if bk_del_flag b = kBCDelFlag then
            (if flag = kBCDelFlag then Inl kNotFound
             else if version \<noteq> -1 \<and> version \<noteq> 0 then Inl kCASFailed
             else Inr 1)
          else if version \<noteq> -1 \<and> version \<noteq> bk_version b then Inl kCASFailed
          else Inr (bk_version b + 1))"

text \<open>
  \<open>WriteData\<close> appends the record and yields the file's size before. The source calls \<open>fwrite\<close> on the
  stream, opened with \<open>a+\<close>, also after a \<open>Get\<close> has read from it with \<open>fread\<close>, without a call in between
  that positions or flushes it. The C standard leaves that undefined; the model follows glibc, where the
  stream switches from reading to appending.
\<close>

definition WriteData :: "DataValue \<Rightarrow> bytes \<Rightarrow> BitCask \<Rightarrow> (nat \<times> BitCask) res" where
  "WriteData d fp s =
     (case map_of (bc_dir s) fp of
        None \<Rightarrow> Inl kStatFailed
      | Some content \<Rightarrow>
          Inr (length content, s\<lparr>bc_dir := AList.update fp (content @ EncodeDataValue d) (bc_dir s)\<rparr>))"

definition append_record :: "DataValue \<Rightarrow> BitCask \<Rightarrow> Code \<times> BitCask" where
  "append_record d s =
     (let fp = GetFileName kSourceDataFilePrefix (bc_data_suffix s) in
      if fp \<notin> bc_files s then (kInvalidFileName, s)
      else case WriteData d fp s of
          Inl e \<Rightarrow> (e, s)
        | Inr (pos, s) \<Rightarrow>
            let b = bucket_of fp pos d; key = dv_key d in
            (case bc_index s key of
               None \<Rightarrow>
                 (kOk, s\<lparr>bc_index := (bc_index s)(key \<mapsto> b),
                        bc_used_cnt := (if dv_del_flag d = kBCExistFlag then bc_used_cnt s + 1 else bc_used_cnt s)\<rparr>)
             | Some old \<Rightarrow>
                 (kOk, s\<lparr>bc_index := (bc_index s)(key \<mapsto> b),
                        bc_used_cnt := (if bk_del_flag old = kBCDelFlag \<and> dv_del_flag d = kBCExistFlag
                                        then bc_used_cnt s + 1 else bc_used_cnt s)\<rparr>)))"

definition SetValue :: "bytes \<Rightarrow> bytes \<Rightarrow> 32 word \<Rightarrow> 64 word \<Rightarrow> 32 word \<times> 32 word \<Rightarrow> BitCask \<Rightarrow> (Code \<times> BitCask) option" where
  "SetValue key val flag version clock s =
     (if kMaxKeySize \<le> length key then Some (kKeySizeIsLarge, s)
      else case check_version (bc_index s key) flag version of
          Inl e \<Rightarrow> Some (e, s)
        | Inr new_version \<Rightarrow>
            if (case bc_index s key of None \<Rightarrow> False
                | Some b \<Rightarrow> \<not> CheckValueIsNew (fst clock) (snd clock) (bk_time_sec b) (bk_time_nsec b))
            then Some (kTimeWrong, s)
            else
              let d = \<lparr>dv_crc = CRC32 val (length val), dv_del_flag = flag, dv_time_sec = fst clock,
                       dv_time_nsec = snd clock, dv_version = new_version,
                       dv_key_size = word_of_nat (length key), dv_value_size = word_of_nat (length val),
                       dv_key = key, dv_value = val\<rparr>
              in case CheckIsFileFull kSourceDataFilePrefix (bc_data_suffix s) s of
                  Inl e \<Rightarrow> Some (e, s)
                | Inr full \<Rightarrow>
                    if \<not> full then Some (append_record d s)
                    else case OpenNextFile kSourceDataFilePrefix (bc_data_suffix s) s of
                        None \<Rightarrow> None
                      | Some (ret, s) \<Rightarrow>
                          if ret \<noteq> kOk then Some (ret, s)
                          else Some (append_record d (s\<lparr>bc_data_suffix := bc_data_suffix s + 1\<rparr>)))"

definition BitCask_Put :: "bytes \<Rightarrow> bytes \<Rightarrow> 64 word \<Rightarrow> 32 word \<times> 32 word \<Rightarrow> BitCask \<Rightarrow> (Code \<times> BitCask) option" where
  "BitCask_Put key val version clock s = SetValue key val kBCExistFlag version clock s"

definition BitCask_Del :: "bytes \<Rightarrow> 64 word \<Rightarrow> 32 word \<times> 32 word \<Rightarrow> BitCask \<Rightarrow> (Code \<times> BitCask) option" where
  "BitCask_Del key version clock s = SetValue key [] kBCDelFlag version clock s"

definition BitCask_Get :: "bytes \<Rightarrow> BitCask \<Rightarrow> (bytes \<times> 64 word) res option" where
  "BitCask_Get key s =
     (case bc_index s key of
        None \<Rightarrow> Some (Inl kNotFound)
      | Some b \<Rightarrow>
          if bk_del_flag b = kBCDelFlag then Some (Inl kNotFound)
          else case map_of (bc_dir s) (bk_fp b) of
              None \<Rightarrow> None
            | Some content \<Rightarrow>
                map_option (\<lambda>r. rbind r (\<lambda>(d, _). Inr (dv_value d, dv_version d)))
                  (ReadData content (bk_data_pos b)))"

definition BitCask_GetStatus :: "BitCask \<Rightarrow> 64 word \<times> 64 word \<times> 64 word" where
  "BitCask_GetStatus s = (bc_max_num s, bc_used_cnt s, bc_trx_id s)"

end
