(* ===== verification/Bit_Cask_Log.thy ===== *)
theory Bit_Cask_Log
  imports Bit_Cask
begin

text \<open>
  The files of the BitCask store as logs: the names \<open>GetFileName\<close> prints are parsed back and
  sorted in the order of their numbers, reading a file of records applies \<open>index_record\<close> to each
  of them, and an index is characterised by the newest record of each key.
\<close>

section \<open>Names of files\<close>

lemma length_dec_digits [simp]: "length (dec_digits k n) = k"
  by (induction k arbitrary: n) auto

lemma dec_digit_char: "n < 10 \<Longrightarrow> isdigit (c_0 + word_of_nat n) \<and> digit_val (c_0 + word_of_nat n) = n"
proof -
  assume "n < 10"
  then have "n \<in> set [0..<10]" by simp
  moreover have "\<forall>n \<in> set [0..<10]. isdigit (c_0 + word_of_nat n) \<and> digit_val (c_0 + word_of_nat n) = n"
    by (simp add: upt_rec isdigit_def digit_val_def)
  ultimately show ?thesis by blast
qed

lemma digits_dec_digits: "digits (dec_digits k n)"
  by (induction k arbitrary: n) (auto simp: dec_digit_char)

lemma dec_val_append: "dec_val acc (s @ t) = dec_val (dec_val acc s) t"
  by (induction s arbitrary: acc) (auto simp: dec_val.simps(2) simp del: dec_val_Cons)

lemma dec_val_dec_digits: "dec_val 0 (dec_digits k n) = n mod 10 ^ k"
  by (induction k arbitrary: n) (auto simp: dec_val_append dec_val.simps(2) dec_digit_char mod_mult2_eq)

lemma dec_len_pos: "0 < dec_len n" by (subst dec_len.simps) simp

lemma dec_len_bound: "n < 10 ^ dec_len n"
proof (induction n rule: dec_len.induct)
  case (1 n)
  show ?case
  proof (cases "n < 10")
    case False
    with 1 have "n div 10 < 10 ^ dec_len (n div 10)" by simp
    then have "n < 10 ^ dec_len (n div 10) * 10" by (simp add: div_less_iff_less_mult)
    then show ?thesis using False by (subst dec_len.simps) simp
  qed (subst dec_len.simps, simp)
qed

lemma dec_len_le: "n < 10 ^ k \<Longrightarrow> 0 < k \<Longrightarrow> dec_len n \<le> k"
proof (induction n arbitrary: k rule: dec_len.induct)
  case (1 n)
  show ?case
  proof (cases "n < 10")
    case False
    then obtain j where k: "k = Suc j" "0 < j" using 1(2,3) by (cases k) (auto, cases "k - 1", auto)
    then have "n div 10 < 10 ^ j" using 1(2) by (simp add: div_less_iff_less_mult mult.commute)
    then show ?thesis using 1(1) [OF False _ k(2)] k False by (subst dec_len.simps) simp
  qed (subst dec_len.simps, use 1(3) in simp)
qed

abbreviation in_range :: "64 word \<Rightarrow> bool" where "in_range n \<equiv> n < kMaxFilesNum"

lemma in_range_unat: "in_range n \<Longrightarrow> unat n < 10 ^ 17"
  by (simp add: kMaxFilesNum_def word_less_nat_alt)

lemma GetFileName_range: "in_range n \<Longrightarrow> GetFileName pfx n = pfx @ c_dot # dec_digits 17 (unat n)"
  using dec_len_le [OF in_range_unat, of n] by (simp add: GetFileName_def max_absorb1)

lemma GetUInt64_dec_digits: "n < 2 ^ 64 \<Longrightarrow> n < 10 ^ k \<Longrightarrow> 0 < k \<Longrightarrow> GetUInt64 (dec_digits k n) = Inr (word_of_nat n)"
proof -
  assume n: "n < 2 ^ 64" "n < 10 ^ k" "0 < k"
  have ne: "dec_digits k n \<noteq> []" using n by (metis length_dec_digits list.size(3) less_irrefl)
  show ?thesis
    using n strtoull_digits(1) [OF digits_dec_digits ne] c_str_digits(1) [OF digits_dec_digits, of k n] ne
    by (simp add: GetUInt64_def GetUInt64_base_def dec_val_dec_digits)
qed

lemma split_at_append: "d \<notin> set s \<Longrightarrow> split_at d acc (s @ t) = split_at d (acc @ s) t"
  by (induction s arbitrary: acc) auto

lemma digit_not_dot: "digits s \<Longrightarrow> c_dot \<notin> set s"
  by (induction s) (auto simp: isdigit_def)

definition good_prefix :: "bytes \<Rightarrow> bool" where
  "good_prefix p \<longleftrightarrow> c_dot \<notin> set p \<and> 0 \<notin> set p"

lemma Strtok_GetFileName:
  assumes "good_prefix p" "in_range n"
  shows "Strtok (GetFileName p n) c_dot [] = Some [p, dec_digits 17 (unat n)]"
proof -
  have "0 \<notin> set (dec_digits 17 (unat n))" using digits_dec_digits [of 17 "unat n"] char_digit_isdigit
    by (auto simp: list_all_iff digits_def)
  then have "c_str (GetFileName p n) = GetFileName p n"
    using assms by (auto simp: c_str_def good_prefix_def GetFileName_range intro!: takeWhile_eq_all_conv [THEN iffD2])
  then show ?thesis using assms digit_not_dot [OF digits_dec_digits, of 17 "unat n"]
    split_at_append [of c_dot "dec_digits 17 (unat n)" "[]" "[]"]
    by (simp add: Strtok_def GetFileName_range split_at_append good_prefix_def)
qed

lemma GetUInt64_suffix: "in_range n \<Longrightarrow> GetUInt64 (dec_digits 17 (unat n)) = Inr n"
  using GetUInt64_dec_digits [of "unat n" 17] in_range_unat [of n] by simp

lemma dotted_inj: "p @ c # xs = q @ c # ys \<Longrightarrow> length xs = length ys \<Longrightarrow> p = q \<and> xs = ys"
  by simp

lemma GetFileName_inj:
  assumes "GetFileName p m = GetFileName q n" "in_range m" "in_range n"
  shows "p = q \<and> m = n"
proof -
  have "p = q \<and> dec_digits 17 (unat m) = dec_digits 17 (unat n)"
    using assms(1) unfolding GetFileName_range [OF assms(2)] GetFileName_range [OF assms(3)]
    by (rule dotted_inj) (simp only: length_dec_digits)
  then show ?thesis using GetUInt64_suffix [OF assms(2)] GetUInt64_suffix [OF assms(3)]
    by (metis sum.inject(2))
qed

lemma list_less_snoc: "length xs = length ys \<Longrightarrow> (xs @ [a] < ys @ [b :: byte]) = (xs < ys \<or> xs = ys \<and> a < b)"
proof (induction xs ys rule: list_induct2)
  case (Cons x xs y ys)
  then show ?case by (simp only: append_Cons Cons_less_Cons list.inject) blast
qed (simp only: append_Nil Cons_less_Cons not_less_Nil simp_thms)

lemma digit_less: "m < 10 \<Longrightarrow> n < 10 \<Longrightarrow> ((c_0 + word_of_nat m :: byte) < c_0 + word_of_nat n) = (m < n)"
proof -
  assume "m < 10" "n < 10"
  then have "m \<in> set [0..<10]" "n \<in> set [0..<10]" by simp_all
  moreover have "\<forall>a \<in> set [0..<10]. \<forall>b \<in> set [0..<10]. ((c_0 + word_of_nat a :: byte) < c_0 + word_of_nat b) = (a < b)"
    by (simp add: upt_rec)
  ultimately show ?thesis by blast
qed

lemma dec_digits_inj: "m < 10 ^ k \<Longrightarrow> n < 10 ^ k \<Longrightarrow> dec_digits k m = dec_digits k n \<longleftrightarrow> m = n"
  by (metis dec_val_dec_digits mod_less)

lemma div_mod_less: "m < n \<longleftrightarrow> m div 10 < n div 10 \<or> m div 10 = n div 10 \<and> m mod 10 < (n mod 10 :: nat)"
proof -
  have "m = 10 * (m div 10) + m mod 10" "n = 10 * (n div 10) + n mod 10" "m mod 10 < 10" "n mod 10 < 10" by simp_all
  then show ?thesis by linarith
qed

lemma dec_digits_less: "m < 10 ^ k \<Longrightarrow> n < 10 ^ k \<Longrightarrow> dec_digits k m < dec_digits k n \<longleftrightarrow> m < n"
proof (induction k arbitrary: m n)
  case (Suc k)
  have d: "m div 10 < 10 ^ k" "n div 10 < 10 ^ k" using Suc.prems by (simp_all add: div_less_iff_less_mult mult.commute)
  have len: "length (dec_digits k (m div 10)) = length (dec_digits k (n div 10))" by simp
  have lt: "((c_0 + word_of_nat (m mod 10) :: byte) < c_0 + word_of_nat (n mod 10)) = (m mod 10 < n mod 10)"
    by (rule digit_less) simp_all
  show ?case
    unfolding dec_digits.simps list_less_snoc [OF len] Suc.IH [OF d] dec_digits_inj [OF d] lt
    by (rule div_mod_less [symmetric])
qed simp

lemma GetFileName_less:
  assumes "in_range m" "in_range n"
  shows "GetFileName p m < GetFileName p n \<longleftrightarrow> m < n"
proof -
  have "(p @ xs < p @ ys) = (xs < ys)" for xs ys :: bytes
    by (induction p) (simp_all only: append_Nil append_Cons Cons_less_Cons less_irrefl simp_thms)
  then show ?thesis using dec_digits_less [OF in_range_unat in_range_unat, OF assms]
    by (simp only: GetFileName_range [OF assms(1)] GetFileName_range [OF assms(2)] Cons_less_Cons
      word_less_nat_alt less_irrefl simp_thms)
qed

section \<open>Files of records\<close>

definition rec_ok :: "DataValue \<Rightarrow> bool" where
  "rec_ok d \<longleftrightarrow> dv_wf d \<and> (dv_del_flag d = kBCExistFlag \<or> dv_del_flag d = kBCDelFlag)"

abbreviation log_bytes :: "DataValue list \<Rightarrow> bytes" where
  "log_bytes ds \<equiv> concat (map EncodeDataValue ds)"

text \<open>The index entries that the records of a file stand for.\<close>

primrec entries :: "bytes \<Rightarrow> nat \<Rightarrow> DataValue list \<Rightarrow> (bytes \<times> Bucket) list" where
  "entries fp pos [] = []"
| "entries fp pos (d # ds) = (dv_key d, bucket_of fp pos d) # entries fp (pos + length (EncodeDataValue d)) ds"

lemma entries_append:
  "entries fp pos (ds @ es) = entries fp pos ds @ entries fp (pos + length (log_bytes ds)) es"
  by (induction ds arbitrary: pos) (simp_all add: add.assoc)

lemma entries_at:
  assumes "(k, b) \<in> set (entries fp (length pre) ds)"
  shows "\<exists>ds1 d ds2. ds = ds1 @ d # ds2 \<and> k = dv_key d \<and> b = bucket_of fp (length (pre @ log_bytes ds1)) d"
  using assms
proof (induction ds arbitrary: pre)
  case (Cons d ds)
  show ?case
  proof (cases "(k, b) = (dv_key d, bucket_of fp (length pre) d)")
    case True
    then show ?thesis by (intro exI [of _ "[]"] exI [of _ d] exI [of _ ds]) simp
  next
    case False
    then have "(k, b) \<in> set (entries fp (length (pre @ EncodeDataValue d)) ds)" using Cons.prems by auto
    from Cons.IH [OF this] obtain ds1 e ds2 where "ds = ds1 @ e # ds2" "k = dv_key e"
      "b = bucket_of fp (length ((pre @ EncodeDataValue d) @ log_bytes ds1)) e" by blast
    then show ?thesis by (intro exI [of _ "d # ds1"] exI [of _ e] exI [of _ ds2]) simp
  qed
qed simp

text \<open>Reading a file of records enters them one after the other.\<close>

abbreviation index_records :: "(bytes \<times> Bucket) list \<Rightarrow> index \<times> 64 word \<Rightarrow> index \<times> 64 word" where
  "index_records es ix \<equiv> fold (\<lambda>(k, b). index_record k b) es ix"

lemma ReadFile_loop_log:
  assumes "\<forall>d \<in> set ds. dv_wf d"
  shows "ReadFile_loop fp (pre @ log_bytes ds) (length pre) ix =
    Some (kOk, index_records (entries fp (length pre) ds) ix)"
  using assms
proof (induction ds arbitrary: pre ix)
  case Nil
  show ?case by (subst ReadFile_loop.simps) (simp add: ReadData_end)
next
  case (Cons d ds)
  have "ReadData (pre @ log_bytes (d # ds)) (length pre) = Some (Inr (d, length (pre @ EncodeDataValue d)))"
    using ReadData_Encode [of d pre "log_bytes ds"] Cons.prems by simp
  then show ?case
    using Cons.IH [of "pre @ EncodeDataValue d"] Cons.prems by (subst ReadFile_loop.simps) simp
qed

text \<open>The record of an entry is read back from the file.\<close>

lemma ReadData_entry:
  assumes "(k, b) \<in> set (entries fp 0 ds)" "\<forall>d \<in> set ds. dv_wf d"
  shows "\<exists>d pos. d \<in> set ds \<and> ReadData (log_bytes ds) (bk_data_pos b) = Some (Inr (d, pos)) \<and> k = dv_key d \<and>
    bk_fp b = fp \<and> bk_version b = dv_version d \<and> bk_del_flag b = dv_del_flag d"
proof -
  from assms(1) entries_at [of k b fp "[]" ds] obtain ds1 d ds2 where
    ds: "ds = ds1 @ d # ds2" "k = dv_key d" "b = bucket_of fp (length (log_bytes ds1)) d" by auto
  then have "dv_wf d" using assms(2) by simp
  from ReadData_Encode [OF this, of "log_bytes ds1" "log_bytes ds2"] show ?thesis
    using ds by (intro exI [of _ d]) (simp add: bucket_of_def)
qed

section \<open>The newest record of a key\<close>

definition btime :: "Bucket \<Rightarrow> nat" where
  "btime b = unat (bk_time_sec b) * 2 ^ 32 + unat (bk_time_nsec b)"

abbreviation ctime :: "32 word \<times> 32 word \<Rightarrow> nat" where
  "ctime t \<equiv> unat (fst t) * 2 ^ 32 + unat (snd t)"

lemma lex_less: "b < 4294967296 \<Longrightarrow> d < 4294967296 \<Longrightarrow>
    a < c \<or> (a = c \<and> b < d) \<longleftrightarrow> a * 4294967296 + b < c * 4294967296 + (d :: nat)"
  by linarith

lemma time_less: "(s1 :: 32 word) < s2 \<or> (s1 = s2 \<and> (n1 :: 32 word) < n2) \<longleftrightarrow> ctime (s1, n1) < ctime (s2, n2)"
  using lex_less [of "unat n1" "unat n2" "unat s1" "unat s2"] unsigned_less [of n1] unsigned_less [of n2]
  by (simp add: word_less_nat_alt word_unat_eq_iff [of s1 s2])

lemma CheckValueIsNew_time: "CheckValueIsNew s1 n1 s2 n2 \<longleftrightarrow> ctime (s2, n2) < ctime (s1, n1)"
  unfolding CheckValueIsNew_def time_less [symmetric] by auto

lemma CheckBucketIsNew_time: "CheckBucketIsNew b1 b2 \<longleftrightarrow> btime b2 < btime b1"
  using CheckValueIsNew_time [of "bk_time_sec b1" "bk_time_nsec b1" "bk_time_sec b2" "bk_time_nsec b2"]
  by (simp add: CheckBucketIsNew_def CheckValueIsNew_def btime_def)

definition newest :: "(bytes \<times> Bucket) set \<Rightarrow> index \<Rightarrow> bool" where
  "newest E index \<longleftrightarrow>
     (\<forall>k b. index k = None \<longrightarrow> (k, b) \<notin> E) \<and>
     (\<forall>k b. index k = Some b \<longrightarrow> (k, b) \<in> E \<and> (\<forall>b'. (k, b') \<in> E \<longrightarrow> btime b' \<le> btime b))"

lemma newest_None: "newest E i \<Longrightarrow> i k = None \<Longrightarrow> (k, b) \<notin> E"
  and newest_Some: "newest E i \<Longrightarrow> i k = Some b \<Longrightarrow> (k, b) \<in> E"
  and newest_le: "newest E i \<Longrightarrow> i k = Some b \<Longrightarrow> (k, b') \<in> E \<Longrightarrow> btime b' \<le> btime b"
  by (auto simp: newest_def)

lemma newestI:
  assumes "\<And>k b. i k = None \<Longrightarrow> (k, b) \<notin> E" "\<And>k b. i k = Some b \<Longrightarrow> (k, b) \<in> E"
    "\<And>k b b'. i k = Some b \<Longrightarrow> (k, b') \<in> E \<Longrightarrow> btime b' \<le> btime b"
  shows "newest E i"
  using assms by (simp add: newest_def)

definition times_distinct :: "(bytes \<times> Bucket) set \<Rightarrow> bool" where
  "times_distinct E \<longleftrightarrow> (\<forall>k b b'. (k, b) \<in> E \<longrightarrow> (k, b') \<in> E \<longrightarrow> btime b = btime b' \<longrightarrow> b = b')"

lemma newest_unique:
  assumes "newest E i" "newest E j" "times_distinct E"
  shows "i = j"
proof
  fix k
  show "i k = j k"
  proof (cases "i k")
    case None
    then show ?thesis using newest_None [OF assms(1) None] newest_Some [OF assms(2), of k] by (cases "j k") auto
  next
    case (Some b)
    note b = newest_Some [OF assms(1) Some]
    then obtain b' where b': "j k = Some b'" using newest_None [OF assms(2), of k b] by (cases "j k") auto
    have "btime b = btime b'"
      using newest_le [OF assms(2) b' b] newest_le [OF assms(1) Some newest_Some [OF assms(2) b']] by simp
    then have "b = b'" using assms(3) b newest_Some [OF assms(2) b'] unfolding times_distinct_def by blast
    then show ?thesis using Some b' by simp
  qed
qed

lemma newest_empty: "newest {} Map.empty" by (simp add: newest_def)

lemma newest_upd:
  assumes "newest E i" "\<And>b'. (k, b') \<in> E \<Longrightarrow> btime b' \<le> btime b"
  shows "newest (insert (k, b) E) (i(k \<mapsto> b))"
proof (rule newestI)
  fix j b1 assume "(i(k \<mapsto> b)) j = None"
  then show "(j, b1) \<notin> insert (k, b) E" using newest_None [OF assms(1), of j b1] by (auto split: if_splits)
next
  fix j b1 assume "(i(k \<mapsto> b)) j = Some b1"
  then show "(j, b1) \<in> insert (k, b) E" using newest_Some [OF assms(1), of j b1] by (auto split: if_splits)
next
  fix j b1 b2 assume "(i(k \<mapsto> b)) j = Some b1" "(j, b2) \<in> insert (k, b) E"
  then show "btime b2 \<le> btime b1"
    using assms(2) newest_le [OF assms(1), of j b1 b2] by (auto split: if_splits)
qed

lemma newest_keep:
  assumes "newest E i" "i k = Some old" "btime b \<le> btime old"
  shows "newest (insert (k, b) E) i"
proof (rule newestI)
  fix j b1 assume "i j = None"
  then show "(j, b1) \<notin> insert (k, b) E" using newest_None [OF assms(1), of j b1] assms(2) by auto
next
  fix j b1 assume "i j = Some b1"
  then show "(j, b1) \<in> insert (k, b) E" using newest_Some [OF assms(1), of j b1] by simp
next
  fix j b1 b2 assume "i j = Some b1" "(j, b2) \<in> insert (k, b) E"
  then show "btime b2 \<le> btime b1" using newest_le [OF assms(1), of j b1 b2] assms(2,3) by auto
qed

lemma newest_record:
  assumes "newest E (fst ix)"
  shows "newest (insert (k, b) E) (fst (index_record k b ix))"
proof -
  obtain i c where ix: "ix = (i, c)" by (cases ix)
  have i: "newest E i" using assms ix by simp
  show ?thesis
  proof (cases "i k")
    case None
    then show ?thesis using newest_upd [OF i, of k b] newest_None [OF i None] by (simp add: ix index_record_def)
  next
    case (Some old)
    have "(k, b') \<in> E \<Longrightarrow> btime old < btime b \<Longrightarrow> btime b' \<le> btime b" for b'
      using newest_le [OF i Some, of b'] by simp
    then show ?thesis
      using newest_upd [OF i, of k b] newest_keep [OF i Some, of b] Some
      by (simp add: ix index_record_def Let_def CheckBucketIsNew_time)
  qed
qed

lemma newest_records: "newest E (fst ix) \<Longrightarrow> newest (E \<union> set es) (fst (index_records es ix))"
proof (induction es arbitrary: E ix)
  case (Cons e es)
  obtain k b where e: "e = (k, b)" by (cases e)
  show ?case using Cons.IH [OF newest_record [OF Cons.prems, of k b]] by (simp add: e)
qed simp

lemma times_distinct_insert:
  assumes "times_distinct E" "\<forall>b'. (k, b') \<in> E \<longrightarrow> btime b' < btime b"
  shows "times_distinct (insert (k, b) E)"
  using assms unfolding times_distinct_def by (metis insert_iff less_irrefl prod.inject)

section \<open>The number of live keys\<close>

definition live_keys :: "index \<Rightarrow> bytes set" where
  "live_keys index = {k. \<exists>b. index k = Some b \<and> bk_del_flag b = kBCExistFlag}"

abbreviation flag_ok :: "Bucket \<Rightarrow> bool" where
  "flag_ok b \<equiv> bk_del_flag b = kBCExistFlag \<or> bk_del_flag b = kBCDelFlag"

definition counted :: "index \<times> 64 word \<Rightarrow> bool" where
  "counted ix \<longleftrightarrow> finite (live_keys (fst ix)) \<and> snd ix = of_nat (card (live_keys (fst ix))) \<and>
     (\<forall>k b. fst ix k = Some b \<longrightarrow> flag_ok b)"

lemma live_keys_upd:
  "live_keys (i(k \<mapsto> b)) = (if bk_del_flag b = kBCExistFlag then insert k (live_keys i) else live_keys i - {k})"
  by (auto simp: live_keys_def)

lemma counted_record:
  assumes "counted ix" "flag_ok b"
  shows "counted (index_record k b ix)"
proof -
  obtain i c where ix: "ix = (i, c)" by (cases ix)
  have fin: "finite (live_keys i)" and c: "c = of_nat (card (live_keys i))"
    and flags: "i j = Some b' \<Longrightarrow> flag_ok b'" for j b' using assms by (auto simp: counted_def ix)
  have flags': "(i(k \<mapsto> b)) j = Some b' \<Longrightarrow> flag_ok b'" for j b'
    using flags assms(2) by (auto split: if_splits)
  have pos: "k \<in> live_keys i \<Longrightarrow> of_nat (card (live_keys i - {k})) = (of_nat (card (live_keys i)) - 1 :: 64 word)"
    using fin card_gt_0_iff [of "live_keys i"] by (auto simp: of_nat_diff)
  have ins: "card (insert k (live_keys i)) = (if k \<in> live_keys i then card (live_keys i) else Suc (card (live_keys i)))"
    using fin by (simp add: insert_absorb)
  show ?thesis
  proof (cases "i k")
    case None
    then have "k \<notin> live_keys i" by (simp add: live_keys_def)
    with None fin c flags' assms(2) show ?thesis
      by (auto simp: counted_def ix index_record_def live_keys_upd ins)
  next
    case (Some old)
    then have live: "k \<in> live_keys i \<longleftrightarrow> bk_del_flag old = kBCExistFlag" by (simp add: live_keys_def)
    show ?thesis
    proof (cases "CheckBucketIsNew b old")
      case True
      with Some fin c flags' assms(2) live pos flags [OF Some] show ?thesis
        by (auto simp: counted_def ix index_record_def Let_def live_keys_upd ins)
    next
      case False
      with Some fin c flags show ?thesis by (auto simp: counted_def ix index_record_def)
    qed
  qed
qed

lemma counted_records:
  "counted ix \<Longrightarrow> \<forall>(k, b) \<in> set es. flag_ok b \<Longrightarrow> counted (index_records es ix)"
proof (induction es arbitrary: ix)
  case (Cons e es)
  then show ?case using counted_record [of ix "snd e" "fst e"] by (cases e) simp
qed simp

lemma counted_empty: "counted (Map.empty, 0)" by (simp add: counted_def live_keys_def)

lemma entries_flags: "\<forall>d \<in> set ds. rec_ok d \<Longrightarrow> \<forall>(k, b) \<in> set (entries fp pos ds). flag_ok b"
  by (induction ds arbitrary: pos) (auto simp: rec_ok_def bucket_of_def)

text \<open>An index and a count that stand for a set of entries.\<close>

definition indexes :: "(bytes \<times> Bucket) set \<Rightarrow> BitCask \<Rightarrow> bool" where
  "indexes E s \<longleftrightarrow> newest E (bc_index s) \<and> counted (bc_index s, bc_used_cnt s)"

end
