(* ===== verification/Bit_Cask_Spec.thy ===== *)
theory Bit_Cask_Spec
  imports Bit_Cask_Log
begin

text \<open>
  What the BitCask store promises: it is a map from keys to a value, a version and the time of the
  last write, with compare-and-set on the version, and closing and opening the store again leaves
  the map as it was. The specification is the functions \<open>cask_put\<close>, \<open>cask_del\<close>, \<open>cask_get\<close>; the
  refinement relation \<open>cask_rel\<close> ties the map to the files and the index.
\<close>

section \<open>Specification\<close>

datatype centry = Live bytes "64 word" nat | Dead nat

primrec etime :: "centry \<Rightarrow> nat" where
  "etime (Live v n t) = t"
| "etime (Dead t) = t"

type_synonym cmap = "bytes \<rightharpoonup> centry"

definition expected_version :: "centry option \<Rightarrow> 64 word" where
  "expected_version e = (case e of Some (Live _ n _) \<Rightarrow> n | _ \<Rightarrow> 0)"

definition is_live :: "centry option \<Rightarrow> bool" where
  "is_live e \<longleftrightarrow> (case e of Some (Live _ _ _) \<Rightarrow> True | _ \<Rightarrow> False)"

definition not_after :: "nat \<Rightarrow> centry option \<Rightarrow> bool" where
  "not_after t e \<longleftrightarrow> (case e of None \<Rightarrow> False | Some e \<Rightarrow> t \<le> etime e)"

type_synonym cask_out = "(bytes \<times> 64 word) option res"

definition cask_put :: "bytes \<Rightarrow> bytes \<Rightarrow> 64 word \<Rightarrow> nat \<Rightarrow> cmap \<Rightarrow> cask_out \<times> cmap" where
  "cask_put k v version t m =
     (if kMaxKeySize \<le> length k then (Inl kKeySizeIsLarge, m)
      else if version \<noteq> -1 \<and> version \<noteq> expected_version (m k) then (Inl kCASFailed, m)
      else if not_after t (m k) then (Inl kTimeWrong, m)
      else (Inr None, m(k \<mapsto> Live v (expected_version (m k) + 1) t)))"

definition cask_del :: "bytes \<Rightarrow> 64 word \<Rightarrow> nat \<Rightarrow> cmap \<Rightarrow> cask_out \<times> cmap" where
  "cask_del k version t m =
     (if kMaxKeySize \<le> length k then (Inl kKeySizeIsLarge, m)
      else if \<not> is_live (m k) then (Inl kNotFound, m)
      else if version \<noteq> -1 \<and> version \<noteq> expected_version (m k) then (Inl kCASFailed, m)
      else if not_after t (m k) then (Inl kTimeWrong, m)
      else (Inr None, m(k \<mapsto> Dead t)))"

definition cask_get :: "bytes \<Rightarrow> cmap \<Rightarrow> cask_out" where
  "cask_get k m = (case m k of Some (Live v n _) \<Rightarrow> Inr (Some (v, n)) | _ \<Rightarrow> Inl kNotFound)"

datatype cask_op =
    CPut bytes bytes "64 word" "32 word \<times> 32 word"
  | CDel bytes "64 word" "32 word \<times> 32 word"
  | CGet bytes
  | CReopen

fun cask_spec :: "cask_op \<Rightarrow> cmap \<Rightarrow> cask_out \<times> cmap" where
  "cask_spec (CPut k v version t) m = cask_put k v version (ctime t) m"
| "cask_spec (CDel k version t) m = cask_del k version (ctime t) m"
| "cask_spec (CGet k) m = (cask_get k m, m)"
| "cask_spec CReopen m = (Inr None, m)"

text \<open>The operations of the model with the same interface; \<open>CReopen\<close> is a new object on the same files.\<close>

definition code_out :: "Code \<times> BitCask \<Rightarrow> cask_out \<times> BitCask" where
  "code_out r = (if fst r = kOk then Inr None else Inl (fst r), snd r)"

fun cask_exec :: "bytes \<Rightarrow> cask_op \<Rightarrow> BitCask \<Rightarrow> (cask_out \<times> BitCask) option" where
  "cask_exec dir_path (CPut k v version t) s = map_option code_out (BitCask_Put k v version t s)"
| "cask_exec dir_path (CDel k version t) s = map_option code_out (BitCask_Del k version t s)"
| "cask_exec dir_path (CGet k) s =
     map_option (\<lambda>r. (case r of Inl e \<Rightarrow> Inl e | Inr x \<Rightarrow> Inr (Some x), s)) (BitCask_Get k s)"
| "cask_exec dir_path CReopen s = map_option code_out (BitCask_Init dir_path (BitCask_new (bc_dir s)))"

section \<open>Invariant\<close>

type_synonym logs = "bytes \<Rightarrow> DataValue list"

definition all_entries :: "(bytes \<rightharpoonup> bytes) \<Rightarrow> logs \<Rightarrow> (bytes \<times> Bucket) set" where
  "all_entries files R = (\<Union>n \<in> dom files. set (entries n 0 (R n)))"

definition files_ok :: "(bytes \<rightharpoonup> bytes) \<Rightarrow> logs \<Rightarrow> bool" where
  "files_ok files R \<longleftrightarrow> (\<forall>n c. files n = Some c \<longrightarrow> c = log_bytes (R n) \<and> (\<forall>d \<in> set (R n). rec_ok d))"

abbreviation data_name :: "64 word \<Rightarrow> bytes" where "data_name \<equiv> GetFileName kSourceDataFilePrefix"
abbreviation merge_name :: "64 word \<Rightarrow> bytes" where "merge_name \<equiv> GetFileName kMergeDataFilePrefix"

definition names_ok :: "bytes set \<Rightarrow> 64 word \<Rightarrow> 64 word \<Rightarrow> bool" where
  "names_ok N n m \<longleftrightarrow> in_range n \<and> in_range m \<and> data_name n \<in> N \<and> merge_name m \<in> N \<and>
     N \<subseteq> data_name ` {..n} \<union> merge_name ` {..m}"

definition cask_inv :: "BitCask \<Rightarrow> logs \<Rightarrow> bool" where
  "cask_inv s R \<longleftrightarrow>
     distinct (map fst (bc_dir s)) \<and> files_ok (map_of (bc_dir s)) R \<and>
     newest (all_entries (map_of (bc_dir s)) R) (bc_index s) \<and>
     times_distinct (all_entries (map_of (bc_dir s)) R) \<and>
     names_ok (dom (map_of (bc_dir s))) (bc_data_suffix s) (bc_merge_suffix s) \<and>
     data_name (bc_data_suffix s) \<in> bc_files s"

text \<open>The record of an index entry, and what it means for the key.\<close>

definition record_at :: "logs \<Rightarrow> bytes \<Rightarrow> Bucket \<Rightarrow> DataValue \<Rightarrow> bool" where
  "record_at R k b d \<longleftrightarrow> (\<exists>ds1 ds2. R (bk_fp b) = ds1 @ d # ds2 \<and> k = dv_key d \<and>
     b = bucket_of (bk_fp b) (length (log_bytes ds1)) d)"

definition entry_of :: "DataValue \<Rightarrow> centry" where
  "entry_of d = (let t = ctime (dv_time_sec d, dv_time_nsec d) in
     if dv_del_flag d = kBCDelFlag then Dead t else Live (dv_value d) (dv_version d) t)"

definition agrees :: "logs \<Rightarrow> index \<Rightarrow> cmap \<Rightarrow> bool" where
  "agrees R index m \<longleftrightarrow>
     (\<forall>k. index k = None \<longrightarrow> m k = None) \<and>
     (\<forall>k b. index k = Some b \<longrightarrow> (\<exists>d. record_at R k b d \<and> m k = Some (entry_of d)))"

definition cask_rel :: "BitCask \<Rightarrow> cmap \<Rightarrow> bool" where
  "cask_rel s m \<longleftrightarrow> (\<exists>R. cask_inv s R \<and> agrees R (bc_index s) m)"

lemma in_all_entries:
  "(k, b) \<in> all_entries files R \<Longrightarrow> bk_fp b \<in> dom files \<and> (\<exists>d. record_at R k b d)"
proof -
  assume "(k, b) \<in> all_entries files R"
  then obtain n where n: "n \<in> dom files" "(k, b) \<in> set (entries n (length ([] :: bytes)) (R n))" by (auto simp: all_entries_def)
  then obtain ds1 d ds2 where "R n = ds1 @ d # ds2" "k = dv_key d" "b = bucket_of n (length ([] @ log_bytes ds1)) d"
    using entries_at [OF n(2)] by blast
  then show ?thesis using n(1) unfolding record_at_def by (auto simp: bucket_of_def)
qed

section \<open>Writing\<close>

lemma all_entries_append:
  assumes "files fp = Some c" "c = log_bytes (R fp)"
  shows "all_entries (files(fp \<mapsto> c')) (R(fp := R fp @ [d])) =
    insert (dv_key d, bucket_of fp (length c) d) (all_entries files R)"
proof -
  have "dom (files(fp \<mapsto> c')) = dom files" using assms(1) by auto
  moreover have "entries n 0 ((R(fp := R fp @ [d])) n) =
      entries n 0 (R n) @ (if n = fp then [(dv_key d, bucket_of fp (length c) d)] else [])" for n
    by (simp add: entries_append assms(2))
  ultimately show ?thesis using assms(1) unfolding all_entries_def by (auto split: if_splits)
qed

lemma all_entries_new:
  assumes "fp \<notin> dom files"
  shows "all_entries (files(fp \<mapsto> [])) (R(fp := [])) = all_entries files R"
proof -
  have "n \<in> dom files \<Longrightarrow> n \<noteq> fp" for n using assms by auto
  then show ?thesis unfolding all_entries_def by simp
qed

lemma record_at_append: "record_at R k b e \<Longrightarrow> record_at (R(fp := R fp @ [d])) k b e"
  unfolding record_at_def by (auto; metis append_Cons append_assoc)

lemma record_at_new: "R fp = [] \<Longrightarrow> record_at R k b e \<Longrightarrow> record_at (R(fp := [])) k b e"
  unfolding record_at_def by auto

lemma files_ok_append:
  assumes "files_ok files R" "files fp = Some c" "rec_ok d"
  shows "files_ok (files(fp \<mapsto> c @ EncodeDataValue d)) (R(fp := R fp @ [d]))"
  unfolding files_ok_def
proof (intro allI impI)
  fix n c' assume n: "(files(fp \<mapsto> c @ EncodeDataValue d)) n = Some c'"
  show "c' = log_bytes ((R(fp := R fp @ [d])) n) \<and> (\<forall>e \<in> set ((R(fp := R fp @ [d])) n). rec_ok e)"
    using assms n unfolding files_ok_def by (cases "n = fp") auto
qed

text \<open>Appending a record that is newer than all records of its key.\<close>

lemma append_record_inv:
  assumes inv: "cask_inv s R" and d: "rec_ok d"
    and new: "\<And>b. (dv_key d, b) \<in> all_entries (map_of (bc_dir s)) R \<Longrightarrow> btime b < ctime (dv_time_sec d, dv_time_nsec d)"
  obtains b s' where "append_record d s = (kOk, s')" "bc_index s' = (bc_index s)(dv_key d \<mapsto> b)"
    "bc_data_suffix s' = bc_data_suffix s" "bk_fp b = data_name (bc_data_suffix s)"
    "cask_inv s' (R(bk_fp b := R (bk_fp b) @ [d]))" "record_at (R(bk_fp b := R (bk_fp b) @ [d])) (dv_key d) b d"
proof -
  let ?fp = "data_name (bc_data_suffix s)" and ?k = "dv_key d"
  let ?files = "map_of (bc_dir s)" and ?R = "R(?fp := R ?fp @ [d])"
  obtain c where c: "?files ?fp = Some c" using inv by (auto simp: cask_inv_def names_ok_def)
  then have log: "c = log_bytes (R ?fp)" using inv by (auto simp: cask_inv_def files_ok_def)
  let ?b = "bucket_of ?fp (length c) d"
  have time: "btime ?b = ctime (dv_time_sec d, dv_time_nsec d)" by (simp add: btime_def bucket_of_def)
  define s' where "s' = snd (append_record d s)"
  have s': "append_record d s = (kOk, s')" "bc_index s' = (bc_index s)(?k \<mapsto> ?b)"
    "bc_dir s' = AList.update ?fp (c @ EncodeDataValue d) (bc_dir s)" "bc_data_suffix s' = bc_data_suffix s"
    "bc_merge_suffix s' = bc_merge_suffix s" "bc_files s' = bc_files s"
    using inv c unfolding s'_def
    by (auto simp: append_record_def WriteData_def Let_def cask_inv_def split: option.splits)
  have files: "map_of (bc_dir s') = ?files(?fp \<mapsto> c @ EncodeDataValue d)" by (simp add: s' update_conv')
  have dom: "dom (map_of (bc_dir s')) = dom ?files" using c by (auto simp: files)
  have E: "all_entries (map_of (bc_dir s')) ?R = insert (?k, ?b) (all_entries ?files R)"
    unfolding files using c log by (rule all_entries_append)
  have "distinct (map fst (bc_dir s'))" using inv by (simp add: s'(3) cask_inv_def distinct_update)
  moreover have "files_ok (map_of (bc_dir s')) ?R"
    using inv c d unfolding files cask_inv_def by (intro files_ok_append) blast+
  moreover have "newest (all_entries (map_of (bc_dir s')) ?R) (bc_index s')"
    using inv new time unfolding E s'(2) by (intro newest_upd) (auto simp: cask_inv_def intro: less_imp_le)
  moreover have "times_distinct (all_entries (map_of (bc_dir s')) ?R)"
    using inv new time unfolding E by (intro times_distinct_insert) (auto simp: cask_inv_def)
  ultimately have "cask_inv s' ?R" using inv unfolding cask_inv_def dom s'(4-6) by blast
  moreover have "record_at ?R ?k ?b d"
    unfolding record_at_def by (intro exI [of _ "R ?fp"] exI [of _ "[]"]) (simp add: bucket_of_def log)
  ultimately show ?thesis using that [of s' ?b] s' by (simp add: bucket_of_def)
qed

lemma data_name_not_merge: "data_name m \<noteq> merge_name n"
  by (simp add: GetFileName_def kSourceDataFilePrefix_def kMergeDataFilePrefix_def)

text \<open>Starting the next data file.\<close>

lemma OpenNextFile_inv:
  assumes inv: "cask_inv s R" and range: "in_range (bc_data_suffix s + 1)" "bc_data_suffix s < bc_data_suffix s + 1"
  obtains s1 R1 where "OpenNextFile kSourceDataFilePrefix (bc_data_suffix s) s = Some (kOk, s1)"
    "bc_index s1 = bc_index s" "bc_data_suffix s1 = bc_data_suffix s"
    "cask_inv (s1\<lparr>bc_data_suffix := bc_data_suffix s + 1\<rparr>) R1"
    "all_entries (map_of (bc_dir s1)) R1 = all_entries (map_of (bc_dir s)) R"
    "\<And>k b e. bk_fp b \<in> dom (map_of (bc_dir s)) \<Longrightarrow> record_at R k b e \<Longrightarrow> record_at R1 k b e"
proof -
  let ?n = "bc_data_suffix s + 1" and ?files = "map_of (bc_dir s)"
  let ?fp = "data_name ?n"
  have old: "names_ok (dom ?files) (bc_data_suffix s) (bc_merge_suffix s)" using inv by (simp add: cask_inv_def)
  have "?fp \<noteq> data_name i" if "i \<le> bc_data_suffix s" for i
    using GetFileName_inj [of kSourceDataFilePrefix ?n kSourceDataFilePrefix i] range that old
    by (auto simp: names_ok_def)
  moreover have "?fp \<noteq> merge_name i" for i
    by (rule data_name_not_merge)
  ultimately have fresh: "?fp \<notin> dom ?files" using old by (force simp: names_ok_def)
  define s1 where "s1 = s\<lparr>bc_dir := AList.update ?fp [] (bc_dir s), bc_files := insert ?fp (bc_files s)\<rparr>"
  have loop: "ReadFile_loop fp [] 0 ix = Some (kOk, ix)" for fp ix
    using ReadFile_loop_log [of "[]" fp "[]" ix] by simp
  have ex: "OpenNextFile kSourceDataFilePrefix (bc_data_suffix s) s = Some (kOk, s1)"
    using fresh range by (simp add: OpenNextFile_def Let_def OpenAndReadFile_def domIff loop s1_def)
  have files: "map_of (bc_dir s1) = ?files(?fp \<mapsto> [])" by (simp add: s1_def update_conv')
  have E: "all_entries (map_of (bc_dir s1)) (R(?fp := [])) = all_entries ?files R"
    unfolding files by (rule all_entries_new [OF fresh])
  have names: "names_ok (dom (map_of (bc_dir s1))) ?n (bc_merge_suffix s)"
    using old range unfolding names_ok_def files by (auto intro: order_trans less_imp_le)
  have "cask_inv (s1\<lparr>bc_data_suffix := ?n\<rparr>) (R(?fp := []))"
    using inv names E unfolding cask_inv_def
    by (simp add: s1_def distinct_update) (simp add: files_ok_def update_conv')
  moreover have "record_at (R(?fp := [])) k b e" if "bk_fp b \<in> dom ?files" "record_at R k b e" for k b e
  proof -
    have "(R(?fp := [])) (bk_fp b) = R (bk_fp b)" using that(1) fresh by auto
    then show ?thesis using that(2) unfolding record_at_def by simp
  qed
  ultimately show ?thesis using that [OF ex, of "R(?fp := [])"] E by (simp add: s1_def)
qed

section \<open>The operations refine the specification\<close>

lemma agrees_write:
  assumes "agrees R i m" "record_at (R(fp := R fp @ [e])) k b d"
  shows "agrees (R(fp := R fp @ [e])) (i(k \<mapsto> b)) (m(k \<mapsto> entry_of d))"
  unfolding agrees_def
proof (intro conjI allI impI)
  fix j assume "(i(k \<mapsto> b)) j = None"
  then show "(m(k \<mapsto> entry_of d)) j = None" using assms(1) by (auto simp: agrees_def split: if_splits)
next
  fix j c assume j: "(i(k \<mapsto> b)) j = Some c"
  show "\<exists>x. record_at (R(fp := R fp @ [e])) j c x \<and> (m(k \<mapsto> entry_of d)) j = Some (entry_of x)"
  proof (cases "j = k")
    case False
    then have "i j = Some c" using j by simp
    then obtain x where "record_at R j c x" "m j = Some (entry_of x)" using assms(1) unfolding agrees_def by blast
    then show ?thesis using False record_at_append [of R j c x fp e] by auto
  qed (use assms(2) j in auto)
qed

lemma agrees_entry:
  assumes "agrees R i m" "i k = Some b"
  obtains d where "record_at R k b d" "m k = Some (entry_of d)" "bk_del_flag b = dv_del_flag d"
    "bk_version b = dv_version d" "btime b = ctime (dv_time_sec d, dv_time_nsec d)" "d \<in> set (R (bk_fp b))"
proof -
  obtain d where d: "record_at R k b d" "m k = Some (entry_of d)" using assms unfolding agrees_def by blast
  then obtain ds1 ds2 where "R (bk_fp b) = ds1 @ d # ds2" and b: "b = bucket_of (bk_fp b) (length (log_bytes ds1)) d"
    unfolding record_at_def by blast
  moreover have "bk_del_flag b = dv_del_flag d" "bk_version b = dv_version d"
    "btime b = ctime (dv_time_sec d, dv_time_nsec d)"
    by (subst b, simp add: bucket_of_def btime_def)+
  ultimately show ?thesis using that [of d] d by simp
qed

lemma cask_inv_file:
  assumes "cask_inv s R" "bc_index s k = Some b"
  shows "map_of (bc_dir s) (bk_fp b) = Some (log_bytes (R (bk_fp b)))" "\<forall>d \<in> set (R (bk_fp b)). rec_ok d"
proof -
  have "(k, b) \<in> all_entries (map_of (bc_dir s)) R" using assms newest_Some by (auto simp: cask_inv_def)
  then obtain c where "map_of (bc_dir s) (bk_fp b) = Some c" using in_all_entries by blast
  then show "map_of (bc_dir s) (bk_fp b) = Some (log_bytes (R (bk_fp b)))" "\<forall>d \<in> set (R (bk_fp b)). rec_ok d"
    using assms(1) unfolding cask_inv_def files_ok_def by blast+
qed

text \<open>The version check and the check of the time, in terms of the specification.\<close>

lemma check_version_spec:
  assumes "cask_inv s R" "agrees R (bc_index s) m"
  shows "check_version (bc_index s k) flag version =
    (if flag = kBCDelFlag \<and> \<not> is_live (m k) then Inl kNotFound
     else if version \<noteq> -1 \<and> version \<noteq> expected_version (m k) then Inl kCASFailed
     else Inr (expected_version (m k) + 1))"
proof (cases "bc_index s k")
  case None
  then have "m k = None" using assms(2) by (simp add: agrees_def)
  with None show ?thesis by (simp add: check_version_def is_live_def expected_version_def)
next
  case (Some b)
  obtain d where d: "m k = Some (entry_of d)" "bk_del_flag b = dv_del_flag d" "bk_version b = dv_version d"
    using agrees_entry [OF assms(2) Some] by metis
  show ?thesis
    by (simp add: Some d check_version_def is_live_def expected_version_def entry_of_def Let_def)
qed

lemma time_check_spec:
  assumes "agrees R (bc_index s) m"
  shows "(case bc_index s k of None \<Rightarrow> False
      | Some b \<Rightarrow> \<not> CheckValueIsNew (fst t) (snd t) (bk_time_sec b) (bk_time_nsec b)) = not_after (ctime t) (m k)"
proof (cases "bc_index s k")
  case None
  then have "m k = None" using assms by (simp add: agrees_def)
  with None show ?thesis by (simp add: not_after_def)
next
  case (Some b)
  obtain d where d: "m k = Some (entry_of d)" "btime b = ctime (dv_time_sec d, dv_time_nsec d)"
    using agrees_entry [OF assms Some] by metis
  have "ctime (bk_time_sec b, bk_time_nsec b) = btime b" by (simp add: btime_def)
  then have "CheckValueIsNew (fst t) (snd t) (bk_time_sec b) (bk_time_nsec b) \<longleftrightarrow> btime b < ctime t"
    unfolding CheckValueIsNew_time by simp
  then show ?thesis by (simp add: Some d not_after_def entry_of_def Let_def not_less)
qed

lemma not_after_new:
  assumes "cask_inv s R" "agrees R (bc_index s) m" "\<not> not_after t (m k)"
    "(k, b) \<in> all_entries (map_of (bc_dir s)) R"
  shows "btime b < t"
proof -
  have new: "newest (all_entries (map_of (bc_dir s)) R) (bc_index s)" using assms(1) by (simp add: cask_inv_def)
  then obtain b0 where b0: "bc_index s k = Some b0" using assms(4) newest_None by (cases "bc_index s k") auto
  obtain d where "m k = Some (entry_of d)" "btime b0 = ctime (dv_time_sec d, dv_time_nsec d)"
    using agrees_entry [OF assms(2) b0] by metis
  then have "btime b0 < t" using assms(3) by (auto simp: not_after_def entry_of_def Let_def split: if_splits)
  then show ?thesis using newest_le [OF new b0 assms(4)] by simp
qed

text \<open>The room left for data files.\<close>

abbreviation suffix_ok :: "BitCask \<Rightarrow> bool" where
  "suffix_ok s \<equiv> unat (bc_data_suffix s) + 1 < 10 ^ 17 - 1"

lemma next_suffix:
  assumes "suffix_ok s"
  shows "in_range (bc_data_suffix s + 1)" "bc_data_suffix s < bc_data_suffix s + 1"
    "unat (bc_data_suffix s + 1) = unat (bc_data_suffix s) + 1"
proof -
  show u: "unat (bc_data_suffix s + 1) = unat (bc_data_suffix s) + 1"
    using assms unat_add_lem [of "bc_data_suffix s" 1, THEN iffD1] by simp
  show "in_range (bc_data_suffix s + 1)" "bc_data_suffix s < bc_data_suffix s + 1"
    using assms unfolding word_less_nat_alt u by (simp_all add: kMaxFilesNum_def)
qed

lemma append_record_rel:
  assumes inv: "cask_inv s R" and agree: "agrees R (bc_index s) m" and d: "rec_ok d"
    and new: "\<not> not_after (ctime (dv_time_sec d, dv_time_nsec d)) (m (dv_key d))"
  obtains s' where "append_record d s = (kOk, s')" "cask_rel s' (m(dv_key d \<mapsto> entry_of d))"
    "bc_data_suffix s' = bc_data_suffix s"
proof -
  have "btime b < ctime (dv_time_sec d, dv_time_nsec d)"
    if "(dv_key d, b) \<in> all_entries (map_of (bc_dir s)) R" for b
    using not_after_new [OF inv agree new that] .
  from append_record_inv [OF inv d this] obtain b s' where s': "append_record d s = (kOk, s')"
    "bc_index s' = (bc_index s)(dv_key d \<mapsto> b)" "bc_data_suffix s' = bc_data_suffix s"
    "cask_inv s' (R(bk_fp b := R (bk_fp b) @ [d]))" "record_at (R(bk_fp b := R (bk_fp b) @ [d])) (dv_key d) b d"
    by metis
  have "cask_rel s' (m(dv_key d \<mapsto> entry_of d))"
    using s'(4) agrees_write [OF agree s'(5)] unfolding cask_rel_def s'(2) by blast
  with s' that show ?thesis by blast
qed

lemma SetValue_refines:
  assumes rel: "cask_rel s m" and room: "suffix_ok s" and flag: "flag = kBCExistFlag \<or> flag = kBCDelFlag"
    and len: "length val \<le> kMaxDataSize"
  obtains s' where
    "SetValue k val flag version t s = Some
      (if kMaxKeySize \<le> length k then (kKeySizeIsLarge, s)
       else if flag = kBCDelFlag \<and> \<not> is_live (m k) then (kNotFound, s)
       else if version \<noteq> -1 \<and> version \<noteq> expected_version (m k) then (kCASFailed, s)
       else if not_after (ctime t) (m k) then (kTimeWrong, s)
       else (kOk, s'))"
    "length k < kMaxKeySize \<Longrightarrow> \<not> not_after (ctime t) (m k) \<Longrightarrow>
      cask_rel s' (m(k \<mapsto> (if flag = kBCDelFlag then Dead (ctime t) else Live val (expected_version (m k) + 1) (ctime t))))"
    "unat (bc_data_suffix s') \<le> unat (bc_data_suffix s) + 1"
proof -
  obtain R where inv: "cask_inv s R" and agree: "agrees R (bc_index s) m" using rel by (auto simp: cask_rel_def)
  let ?d = "\<lparr>dv_crc = CRC32 val (length val), dv_del_flag = flag, dv_time_sec = fst t, dv_time_nsec = snd t,
     dv_version = expected_version (m k) + 1, dv_key_size = word_of_nat (length k),
     dv_value_size = word_of_nat (length val), dv_key = k, dv_value = val\<rparr>"
  let ?ok = "length k < kMaxKeySize \<and> \<not> not_after (ctime t) (m k)"
  obtain c where c: "map_of (bc_dir s) (data_name (bc_data_suffix s)) = Some c"
    using inv by (auto simp: cask_inv_def names_ok_def)
  then have full: "CheckIsFileFull kSourceDataFilePrefix (bc_data_suffix s) s = Inr (kSingleFileSize \<le> length c)"
    by (simp add: CheckIsFileFull_def)
  have ok: "rec_ok ?d" if "length k < kMaxKeySize"
    using that flag len unfolding rec_ok_def dv_wf_def
    by (simp add: unsigned_of_nat take_bit_nat_eq_self kMaxKeySize_def kMaxDataSize_def)
  have entry: "entry_of ?d = (if flag = kBCDelFlag then Dead (ctime t) else Live val (expected_version (m k) + 1) (ctime t))"
    by (simp add: entry_of_def)
  note set = SetValue_def [of k val flag version t s] check_version_spec [OF inv agree, of k flag version]
    time_check_spec [OF agree, where k = k and t = t] full
  show ?thesis
  proof (cases "?ok")
    case bad: False
    show ?thesis using bad that [of s] unfolding set by (auto simp: Let_def split: if_splits)
  next
    case good: True
    show ?thesis
    proof (cases "kSingleFileSize \<le> length c")
      case False
      from append_record_rel [OF inv agree ok, OF conjunct1 [OF good]] good obtain s' where
        "append_record ?d s = (kOk, s')" "cask_rel s' (m(k \<mapsto> entry_of ?d))" "bc_data_suffix s' = bc_data_suffix s"
        by auto
      with good False show ?thesis using that [of s'] unfolding set entry by (auto simp: Let_def)
    next
      case True
      obtain s1 R1 where s1: "OpenNextFile kSourceDataFilePrefix (bc_data_suffix s) s = Some (kOk, s1)"
        "bc_index s1 = bc_index s" "bc_data_suffix s1 = bc_data_suffix s"
        "cask_inv (s1\<lparr>bc_data_suffix := bc_data_suffix s + 1\<rparr>) R1"
        "\<And>k b e. bk_fp b \<in> dom (map_of (bc_dir s)) \<Longrightarrow> record_at R k b e \<Longrightarrow> record_at R1 k b e"
        using OpenNextFile_inv [OF inv next_suffix(1,2) [OF room]] by metis
      have "agrees R1 (bc_index s) m"
        using agree s1(5) cask_inv_file(1) [OF inv] unfolding agrees_def by (metis domI)
      from append_record_rel [OF s1(4) _ ok, of m, OF _ conjunct1 [OF good]] this good s1(2) obtain s' where
        "append_record ?d (s1\<lparr>bc_data_suffix := bc_data_suffix s + 1\<rparr>) = (kOk, s')"
        "cask_rel s' (m(k \<mapsto> entry_of ?d))" "bc_data_suffix s' = bc_data_suffix s + 1"
        by auto
      with good True s1 next_suffix(3) [OF room] show ?thesis
        using that [of s'] unfolding set entry by (auto simp: Let_def)
    qed
  qed
qed

section \<open>Opening the store again\<close>

definition own_files :: "bytes \<Rightarrow> bytes list \<Rightarrow> bytes list" where
  "own_files pfx names = filter (\<lambda>n. \<exists>m. in_range m \<and> n = GetFileName pfx m) names"

abbreviation log_entries :: "logs \<Rightarrow> bytes list \<Rightarrow> (bytes \<times> Bucket) set" where
  "log_entries R names \<equiv> (\<Union>n \<in> set names. set (entries n 0 (R n)))"

text \<open>What stays as it is while files are read.\<close>

definition same_dir :: "BitCask \<Rightarrow> BitCask \<Rightarrow> bool" where
  "same_dir s s' \<longleftrightarrow> bc_dir s' = bc_dir s \<and> bc_data_suffix s' = bc_data_suffix s \<and>
     bc_merge_suffix s' = bc_merge_suffix s"

lemma OpenAndReadFile_log:
  assumes "map_of (bc_dir s) name = Some (log_bytes (R name))" "\<forall>d \<in> set (R name). rec_ok d" "indexes E s"
  obtains s' where "OpenAndReadFile name mode s = Some (kOk, s')" "same_dir s s'"
    "bc_files s' = insert name (bc_files s)" "indexes (E \<union> set (entries name 0 (R name))) s'"
proof -
  let ?ix = "index_records (entries name 0 (R name)) (bc_index s, bc_used_cnt s)"
  have "ReadFile_loop name (log_bytes (R name)) 0 ix = Some (kOk, index_records (entries name 0 (R name)) ix)" for ix
    using ReadFile_loop_log [of "R name" name "[]" ix] assms(2) by (simp add: rec_ok_def)
  moreover have "newest (E \<union> set (entries name 0 (R name))) (fst ?ix)"
    using assms(3) by (intro newest_records) (simp add: indexes_def)
  moreover have "counted ?ix" using assms(2,3) by (intro counted_records entries_flags) (simp_all add: indexes_def)
  ultimately show ?thesis
    using assms(1) that [of "s\<lparr>bc_files := insert name (bc_files s), bc_index := fst ?ix, bc_used_cnt := snd ?ix\<rparr>"]
    by (cases ?ix) (simp add: OpenAndReadFile_def same_dir_def indexes_def)
qed

definition parsable :: "bytes \<Rightarrow> bool" where
  "parsable n \<longleftrightarrow> (\<exists>p m. good_prefix p \<and> in_range m \<and> n = GetFileName p m)"

lemma OpenFiles_loop_log:
  assumes "\<forall>n \<in> set names. map_of (bc_dir s) n = Some (log_bytes (R n)) \<and> (\<forall>d \<in> set (R n). rec_ok d) \<and> parsable n"
    and "sorted_wrt (>) names" "indexes E s"
    and "found \<longrightarrow> (\<forall>m. in_range m \<longrightarrow> GetFileName pfx m \<in> set names \<longrightarrow> m < cur)"
  shows "\<exists>cur' s'. OpenFiles_loop pfx names found cur s = Some (kOk, found \<or> own_files pfx names \<noteq> [], cur', s') \<and>
    (if found \<or> own_files pfx names = [] then cur' = cur else in_range cur' \<and> GetFileName pfx cur' = hd (own_files pfx names)) \<and>
    same_dir s s' \<and> bc_files s' = bc_files s \<union> set (own_files pfx names) \<and>
    indexes (E \<union> log_entries R (own_files pfx names)) s'"
  using assms
proof (induction names arbitrary: found cur s E)
  case Nil
  then show ?case by (simp add: own_files_def same_dir_def)
next
  case (Cons n names)
  from Cons.prems(1) obtain p m where n: "good_prefix p" "in_range m" "n = GetFileName p m" by (auto simp: parsable_def)
  have parts: "Strtok n c_dot [] = Some [p, dec_digits 17 (unat m)]" using Strtok_GetFileName [OF n(1,2)] n(3) by simp
  show ?case
  proof (cases "p = pfx")
    case False
    have own: "own_files pfx (n # names) = own_files pfx names"
      using False n GetFileName_inj [of p m pfx] by (auto simp: own_files_def)
    have skip: "OpenFiles_loop pfx (n # names) found cur s = OpenFiles_loop pfx names found cur s"
      using parts False by simp
    show ?thesis unfolding own skip by (rule Cons.IH) (use Cons.prems in auto)
  next
    case True
    have own: "own_files pfx (n # names) = n # own_files pfx names" using n True by (auto simp: own_files_def)
    have first: "\<not> (found \<and> cur \<le> m)" using Cons.prems(4) n True by auto
    obtain s1 where s1: "OpenAndReadFile n (if found then ModeR else ModeAppend) s = Some (kOk, s1)" "same_dir s s1"
      "bc_files s1 = insert n (bc_files s)" "indexes (E \<union> set (entries n 0 (R n))) s1"
      using OpenAndReadFile_log [of s n R E] Cons.prems(1,3) by auto
    let ?cur = "if found then cur else m"
    have "m' < ?cur" if "in_range m'" "GetFileName pfx m' \<in> set names" for m'
    proof -
      have "GetFileName pfx m' < n" using Cons.prems(2) that by simp
      then have "m' < m" using GetFileName_less [OF that(1) n(2)] n(3) True by simp
      then show ?thesis using Cons.prems(4) that by auto
    qed
    with Cons.IH [of s1 "E \<union> set (entries n 0 (R n))" True ?cur] Cons.prems(1,2) s1 obtain cur' s' where
      IH: "OpenFiles_loop pfx names True ?cur s1 = Some (kOk, True, cur', s')" "cur' = ?cur" "same_dir s1 s'"
      "bc_files s' = bc_files s1 \<union> set (own_files pfx names)"
      "indexes (E \<union> set (entries n 0 (R n)) \<union> log_entries R (own_files pfx names)) s'"
      by (auto simp: same_dir_def)
    have "OpenFiles_loop pfx (n # names) found cur s = Some (kOk, True, cur', s')"
      using parts True first s1(1) IH(1) GetUInt64_suffix [OF n(2)] by (simp add: Let_def)
    with IH(2-5) s1(2,3) n(2,3) True show ?thesis unfolding own
      by (auto simp: same_dir_def Un_assoc)
  qed
qed

lemma good_prefixes: "good_prefix kSourceDataFilePrefix" "good_prefix kMergeDataFilePrefix"
  by (simp_all add: good_prefix_def kSourceDataFilePrefix_def kMergeDataFilePrefix_def)

text \<open>The files of one kind are found, and the number of the first one is the largest.\<close>

lemma OpenAndReadFiles_log:
  assumes names: "\<forall>n \<in> set names. map_of (bc_dir s) n = Some (log_bytes (R n)) \<and> (\<forall>d \<in> set (R n). rec_ok d) \<and> parsable n"
    and sorted: "sorted_wrt (>) names" and new: "indexes E s"
    and last: "in_range lst" "GetFileName pfx lst \<in> set names"
    and le: "\<And>m. in_range m \<Longrightarrow> GetFileName pfx m \<in> set names \<Longrightarrow> m \<le> lst"
  obtains s' where "OpenAndReadFiles names pfx cur s = Some (kOk, lst, s')" "same_dir s s'"
    "bc_files s' = bc_files s \<union> set (own_files pfx names)"
    "indexes (E \<union> log_entries R (own_files pfx names)) s'"
proof -
  let ?own = "own_files pfx names"
  have mem: "GetFileName pfx lst \<in> set ?own" using last by (auto simp: own_files_def)
  then have ne: "?own \<noteq> []" by auto
  obtain cur' s' where loop: "OpenFiles_loop pfx names False cur s = Some (kOk, True, cur', s')"
    "in_range cur'" "GetFileName pfx cur' = hd ?own" "same_dir s s'"
    "bc_files s' = bc_files s \<union> set ?own" "indexes (E \<union> log_entries R ?own) s'"
    using OpenFiles_loop_log [OF names sorted new, of False pfx cur] ne by auto
  have "sorted_wrt (>) ?own" using sorted by (simp add: own_files_def sorted_wrt_filter)
  then have "GetFileName pfx lst \<le> hd ?own" using mem by (cases ?own) auto
  then have "\<not> cur' < lst" using GetFileName_less [OF loop(2) last(1), of pfx] loop(3) by (metis leD)
  moreover have "cur' \<le> lst" using le [OF loop(2)] ne loop(3) hd_in_set [of ?own] by (simp add: own_files_def)
  ultimately have "cur' = lst" by simp
  with loop that show ?thesis by (simp add: OpenAndReadFiles_def)
qed

lemma names_cases:
  assumes "names_ok N n m" "x \<in> N"
  obtains i where "x = data_name i" "i \<le> n" "in_range i" | i where "x = merge_name i" "i \<le> m" "in_range i"
proof -
  have "x \<in> data_name ` {..n} \<or> x \<in> merge_name ` {..m}" using assms by (auto simp: names_ok_def)
  then show ?thesis
  proof
    assume "x \<in> data_name ` {..n}"
    then obtain i where "x = data_name i" "i \<le> n" by auto
    moreover have "in_range i" using \<open>i \<le> n\<close> assms(1) unfolding names_ok_def by (meson le_less_trans)
    ultimately show ?thesis using that(1) by blast
  next
    assume "x \<in> merge_name ` {..m}"
    then obtain i where "x = merge_name i" "i \<le> m" by auto
    moreover have "in_range i" using \<open>i \<le> m\<close> assms(1) unfolding names_ok_def by (meson le_less_trans)
    ultimately show ?thesis using that(2) by blast
  qed
qed

lemma names_range:
  assumes ok: "names_ok N n m"
  shows "x \<in> N \<Longrightarrow> parsable x" "x \<in> N \<Longrightarrow> (\<exists>i. in_range i \<and> x = data_name i) \<or> (\<exists>i. in_range i \<and> x = merge_name i)"
    "in_range i \<Longrightarrow> data_name i \<in> N \<Longrightarrow> i \<le> n" "in_range i \<Longrightarrow> merge_name i \<in> N \<Longrightarrow> i \<le> m"
proof -
  assume x: "x \<in> N"
  show "parsable x" by (rule names_cases [OF ok x]) (use good_prefixes in \<open>unfold parsable_def, blast+\<close>)
  show "(\<exists>i. in_range i \<and> x = data_name i) \<or> (\<exists>i. in_range i \<and> x = merge_name i)"
    by (rule names_cases [OF ok x]) blast+
next
  assume i: "in_range i" "data_name i \<in> N"
  show "i \<le> n" by (rule names_cases [OF ok i(2)])
    (use i(1) GetFileName_inj [of kSourceDataFilePrefix i kSourceDataFilePrefix] data_name_not_merge in blast)+
next
  assume i: "in_range i" "merge_name i \<in> N"
  show "i \<le> m" by (rule names_cases [OF ok i(2)])
    (use i(1) GetFileName_inj [of kMergeDataFilePrefix i kMergeDataFilePrefix] data_name_not_merge [symmetric] in blast)+
qed

lemma Init_recovers:
  assumes inv: "cask_inv s R" and path: "dir_path \<noteq> []"
  obtains s' where "BitCask_Init dir_path (BitCask_new (bc_dir s)) = Some (kOk, s')" "cask_inv s' R"
    "bc_index s' = bc_index s" "same_dir s s'"
    "counted (bc_index s', bc_used_cnt s')"
proof -
  let ?files = "map_of (bc_dir s)" and ?names = "rev (sort (map fst (bc_dir s)))"
  define s0 where "s0 = BitCask_new (bc_dir s)\<lparr>bc_max_num := kMaxKeysNum\<rparr>"
  have set: "set ?names = dom ?files" by (simp add: dom_map_of_conv_image_fst)
  have ok: "names_ok (dom ?files) (bc_data_suffix s) (bc_merge_suffix s)" using inv by (simp add: cask_inv_def)
  then have range: "in_range (bc_data_suffix s)" "in_range (bc_merge_suffix s)"
    "data_name (bc_data_suffix s) \<in> dom ?files" "merge_name (bc_merge_suffix s) \<in> dom ?files"
    by (simp_all only: names_ok_def)
  have sorted: "sorted_wrt (>) ?names"
    using inv by (simp add: cask_inv_def sorted_wrt_rev strict_sorted_iff)
  have log: "\<forall>n \<in> set ?names. ?files n = Some (log_bytes (R n)) \<and> (\<forall>d \<in> set (R n). rec_ok d) \<and> parsable n"
    using inv names_range(1) [OF ok] unfolding set cask_inv_def files_ok_def by blast
  have dir0: "bc_dir s0 = bc_dir s" "bc_index s0 = Map.empty" "bc_used_cnt s0 = 0" by (simp_all add: s0_def BitCask_new_def)
  have log0: "\<forall>n \<in> set ?names. map_of (bc_dir s0) n = Some (log_bytes (R n)) \<and> (\<forall>d \<in> set (R n). rec_ok d) \<and> parsable n"
    using log by (simp only: dir0)
  let ?data = "own_files kSourceDataFilePrefix ?names" and ?merge = "own_files kMergeDataFilePrefix ?names"
  obtain s1 where s1: "OpenAndReadFiles ?names kSourceDataFilePrefix (bc_data_suffix s0) s0 = Some (kOk, bc_data_suffix s, s1)"
    "same_dir s0 s1" "bc_files s1 = bc_files s0 \<union> set ?data" "indexes ({} \<union> log_entries R ?data) s1"
  proof (rule OpenAndReadFiles_log [OF log0 sorted, where E = "{}" and lst = "bc_data_suffix s" and pfx = kSourceDataFilePrefix])
    show "indexes {} s0" unfolding indexes_def dir0 using newest_empty counted_empty by blast
  qed (use range names_range(3) [OF ok] in \<open>simp_all only: set\<close>)
  define s2 where "s2 = s1\<lparr>bc_data_suffix := bc_data_suffix s\<rparr>"
  have dir2: "bc_dir s2 = bc_dir s" using s1(2) dir0 by (simp add: s2_def same_dir_def)
  have log2: "\<forall>n \<in> set ?names. map_of (bc_dir s2) n = Some (log_bytes (R n)) \<and> (\<forall>d \<in> set (R n). rec_ok d) \<and> parsable n"
    using log by (simp only: dir2)
  obtain s3 where s3: "OpenAndReadFiles ?names kMergeDataFilePrefix (bc_merge_suffix s2) s2 = Some (kOk, bc_merge_suffix s, s3)"
    "same_dir s2 s3" "bc_files s3 = bc_files s2 \<union> set ?merge"
    "indexes (log_entries R ?data \<union> log_entries R ?merge) s3"
  proof (rule OpenAndReadFiles_log [OF log2 sorted, where E = "log_entries R ?data" and lst = "bc_merge_suffix s" and pfx = kMergeDataFilePrefix])
    show "indexes (log_entries R ?data) s2" using s1(4) by (simp add: s2_def indexes_def)
  qed (use range names_range(4) [OF ok] in \<open>simp_all only: set\<close>)
  define s' where "s' = s3\<lparr>bc_merge_suffix := bc_merge_suffix s\<rparr>"
  have init: "BitCask_Init dir_path (BitCask_new (bc_dir s)) = Some (kOk, s')"
    using path s1(1) s3(1) unfolding BitCask_Init_def s0_def [symmetric] s'_def
    by (simp add: Let_def dir0 s2_def)
  have "set ?data \<union> set ?merge = dom ?files"
    using names_range(2) [OF ok] set unfolding own_files_def by auto
  then have "log_entries R ?data \<union> log_entries R ?merge = all_entries ?files R"
    unfolding all_entries_def by (metis UN_Un)
  then have new: "newest (all_entries ?files R) (bc_index s')" using s3(4) by (simp add: s'_def indexes_def)
  have count: "counted (bc_index s', bc_used_cnt s')" using s3(4) by (simp add: s'_def indexes_def)
  have index: "bc_index s' = bc_index s"
    by (rule newest_unique [OF new]) (use inv in \<open>auto simp: cask_inv_def\<close>)
  have same: "same_dir s s'" using s3(2) dir2 by (simp add: same_dir_def s'_def s2_def)
  have "data_name (bc_data_suffix s) \<in> set ?names" using range(3) by (simp only: set)
  then have "data_name (bc_data_suffix s) \<in> set ?data" using range(1) unfolding own_files_def by auto
  then have "cask_inv s' R"
    using inv same new s1(3) s3(3) unfolding cask_inv_def same_dir_def by (auto simp: s'_def s2_def)
  with init index same count that show ?thesis by blast
qed

text \<open>An empty directory.\<close>

lemma Init_empty:
  assumes "dir_path \<noteq> []"
  obtains s where "BitCask_Init dir_path (BitCask_new []) = Some (kOk, s)" "cask_rel s Map.empty" "bc_data_suffix s = 1"
proof -
  have loop: "ReadFile_loop fp [] 0 ix = Some (kOk, ix)" for fp ix
    using ReadFile_loop_log [of "[]" fp "[]" ix] by simp
  define s where "s = \<lparr>bc_dir = [(data_name 1, []), (merge_name 1, [])], bc_max_num = kMaxKeysNum, bc_used_cnt = 0,
    bc_trx_id = 0, bc_index = Map.empty, bc_data_suffix = 1, bc_merge_suffix = 1, bc_files = {merge_name 1, data_name 1}\<rparr>"
  have one: "\<not> kMaxFilesNum \<le> 1" by (simp add: kMaxFilesNum_def word_le_nat_alt)
  have init: "BitCask_Init dir_path (BitCask_new []) = Some (kOk, s)"
    using assms one data_name_not_merge [of 1 1]
    by (simp add: BitCask_Init_def BitCask_new_def OpenAndReadFiles_def OpenNextFile_def OpenAndReadFile_def loop s_def)
  have "cask_inv s (\<lambda>_. [])"
    using one data_name_not_merge [of 1 1]
    unfolding cask_inv_def names_ok_def times_distinct_def
    by (auto simp: s_def files_ok_def all_entries_def newest_empty not_le)
  then have "cask_rel s Map.empty" unfolding cask_rel_def by (auto simp: agrees_def s_def)
  with init that show ?thesis by (simp add: s_def)
qed

section \<open>Runs\<close>

lemma Get_refines:
  assumes "cask_rel s m"
  shows "BitCask_Get k s = Some (case cask_get k m of Inl e \<Rightarrow> Inl e | Inr x \<Rightarrow> Inr (the x))"
proof -
  obtain R where inv: "cask_inv s R" and agree: "agrees R (bc_index s) m" using assms by (auto simp: cask_rel_def)
  show ?thesis
  proof (cases "bc_index s k")
    case None
    then have "m k = None" using agree by (simp add: agrees_def)
    with None show ?thesis by (simp add: BitCask_Get_def cask_get_def)
  next
    case (Some b)
    obtain d where d: "record_at R k b d" "m k = Some (entry_of d)" "bk_del_flag b = dv_del_flag d" "d \<in> set (R (bk_fp b))"
      using agrees_entry [OF agree Some] by metis
    note fl = cask_inv_file [OF inv Some]
    obtain ds1 ds2 where ds: "R (bk_fp b) = ds1 @ d # ds2" "b = bucket_of (bk_fp b) (length (log_bytes ds1)) d"
      using d(1) unfolding record_at_def by blast
    have pos: "bk_data_pos b = length (log_bytes ds1)" by (subst ds(2)) (simp add: bucket_of_def)
    have "dv_wf d" using fl(2) d(4) by (simp add: rec_ok_def)
    from ReadData_Encode [OF this, of "log_bytes ds1" "log_bytes ds2"]
    have "ReadData (log_bytes (R (bk_fp b))) (bk_data_pos b) = Some (Inr (d, bk_data_pos b + length (EncodeDataValue d)))"
      by (simp add: ds(1) pos)
    then show ?thesis by (simp add: BitCask_Get_def Some d fl(1) cask_get_def entry_of_def Let_def)
  qed
qed

definition op_small :: "cask_op \<Rightarrow> bool" where
  "op_small op \<longleftrightarrow> (case op of CPut k v version t \<Rightarrow> length v \<le> kMaxDataSize | _ \<Rightarrow> True)"

lemma cask_exec_refines:
  assumes rel: "cask_rel s m" and room: "suffix_ok s" and small: "op_small op" and path: "dir_path \<noteq> []"
  shows "\<exists>s'. cask_exec dir_path op s = Some (fst (cask_spec op m), s') \<and> cask_rel s' (snd (cask_spec op m)) \<and>
    unat (bc_data_suffix s') \<le> unat (bc_data_suffix s) + 1"
proof (cases op)
  case (CPut k v version t)
  then have "length v \<le> kMaxDataSize" using small by (simp add: op_small_def)
  from SetValue_refines [OF rel room disjI1 [OF refl] this, of k version t] obtain s' where
    set: "SetValue k v kBCExistFlag version t s = Some
      (if kMaxKeySize \<le> length k then (kKeySizeIsLarge, s)
       else if kBCExistFlag = kBCDelFlag \<and> \<not> is_live (m k) then (kNotFound, s)
       else if version \<noteq> -1 \<and> version \<noteq> expected_version (m k) then (kCASFailed, s)
       else if not_after (ctime t) (m k) then (kTimeWrong, s) else (kOk, s'))"
    and rel': "length k < kMaxKeySize \<Longrightarrow> \<not> not_after (ctime t) (m k) \<Longrightarrow>
      cask_rel s' (m(k \<mapsto> (if kBCExistFlag = kBCDelFlag then Dead (ctime t) else Live v (expected_version (m k) + 1) (ctime t))))"
    and suffix: "unat (bc_data_suffix s') \<le> unat (bc_data_suffix s) + 1" by blast
  show ?thesis unfolding CPut cask_exec.simps cask_spec.simps BitCask_Put_def set cask_put_def
    using rel rel' suffix by (simp add: code_out_def)
next
  case (CDel k version t)
  from SetValue_refines [OF rel room disjI2 [OF refl], of "[]" k version t] obtain s' where
    set: "SetValue k [] kBCDelFlag version t s = Some
      (if kMaxKeySize \<le> length k then (kKeySizeIsLarge, s)
       else if kBCDelFlag = kBCDelFlag \<and> \<not> is_live (m k) then (kNotFound, s)
       else if version \<noteq> -1 \<and> version \<noteq> expected_version (m k) then (kCASFailed, s)
       else if not_after (ctime t) (m k) then (kTimeWrong, s) else (kOk, s'))"
    and rel': "length k < kMaxKeySize \<Longrightarrow> \<not> not_after (ctime t) (m k) \<Longrightarrow>
      cask_rel s' (m(k \<mapsto> (if kBCDelFlag = kBCDelFlag then Dead (ctime t) else Live [] (expected_version (m k) + 1) (ctime t))))"
    and suffix: "unat (bc_data_suffix s') \<le> unat (bc_data_suffix s) + 1"
    by (metis le0 list.size(3))
  show ?thesis unfolding CDel cask_exec.simps cask_spec.simps BitCask_Del_def set cask_del_def
    using rel rel' suffix by (simp add: code_out_def)
next
  case (CGet k)
  then show ?thesis using rel Get_refines [OF rel, of k]
    by (auto simp: cask_get_def split: option.splits centry.splits)
next
  case CReopen
  obtain R where inv: "cask_inv s R" and agree: "agrees R (bc_index s) m" using rel by (auto simp: cask_rel_def)
  from Init_recovers [OF inv path] obtain s' where "BitCask_Init dir_path (BitCask_new (bc_dir s)) = Some (kOk, s')"
    "cask_inv s' R" "bc_index s' = bc_index s" "same_dir s s'" by metis
  with agree show ?thesis by (auto simp: CReopen code_out_def cask_rel_def same_dir_def)
qed

fun cask_run :: "bytes \<Rightarrow> cask_op list \<Rightarrow> BitCask \<Rightarrow> (cask_out list \<times> BitCask) option" where
  "cask_run dir_path [] s = Some ([], s)"
| "cask_run dir_path (op # ops) s =
     (case cask_exec dir_path op s of
        None \<Rightarrow> None
      | Some (out, s) \<Rightarrow> map_option (\<lambda>(outs, s). (out # outs, s)) (cask_run dir_path ops s))"

fun cask_spec_run :: "cask_op list \<Rightarrow> cmap \<Rightarrow> cask_out list \<times> cmap" where
  "cask_spec_run [] m = ([], m)"
| "cask_spec_run (op # ops) m =
     (let (out, m) = cask_spec op m; (outs, m) = cask_spec_run ops m in (out # outs, m))"

lemma cask_run_refines:
  assumes "cask_rel s m" "unat (bc_data_suffix s) + length ops < 10 ^ 17 - 1" "\<forall>op \<in> set ops. op_small op" "dir_path \<noteq> []"
  shows "\<exists>s'. cask_run dir_path ops s = Some (fst (cask_spec_run ops m), s') \<and> cask_rel s' (snd (cask_spec_run ops m))"
  using assms
proof (induction ops arbitrary: s m)
  case (Cons op ops)
  obtain s1 where s1: "cask_exec dir_path op s = Some (fst (cask_spec op m), s1)" "cask_rel s1 (snd (cask_spec op m))"
    "unat (bc_data_suffix s1) \<le> unat (bc_data_suffix s) + 1"
    using cask_exec_refines [of s m op dir_path] Cons.prems by auto
  with Cons.IH [OF s1(2)] Cons.prems show ?case by (auto simp: Let_def split: prod.splits)
qed simp

lemma live_keys_spec:
  assumes "cask_rel s m"
  shows "live_keys (bc_index s) = {k. is_live (m k)}"
proof -
  obtain R where inv: "cask_inv s R" and agree: "agrees R (bc_index s) m" using assms by (auto simp: cask_rel_def)
  have "(\<exists>b. bc_index s k = Some b \<and> bk_del_flag b = kBCExistFlag) \<longleftrightarrow> is_live (m k)" for k
  proof (cases "bc_index s k")
    case None
    then have "m k = None" using agree by (simp add: agrees_def)
    with None show ?thesis by (simp add: is_live_def)
  next
    case (Some b)
    obtain d where d: "m k = Some (entry_of d)" "bk_del_flag b = dv_del_flag d" "d \<in> set (R (bk_fp b))"
      using agrees_entry [OF agree Some] by metis
    then have "rec_ok d" using cask_inv_file(2) [OF inv Some] by blast
    then show ?thesis using Some d by (auto simp: is_live_def entry_of_def Let_def rec_ok_def)
  qed
  then show ?thesis by (auto simp: live_keys_def)
qed

lemma run_from_empty:
  assumes "dir_path \<noteq> []" "length ops < 10 ^ 16" "\<forall>op \<in> set ops. op_small op"
  obtains s0 s where "BitCask_Init dir_path (BitCask_new []) = Some (kOk, s0)"
    "cask_run dir_path ops s0 = Some (fst (cask_spec_run ops Map.empty), s)" "cask_rel s (snd (cask_spec_run ops Map.empty))"
proof -
  from Init_empty [OF assms(1)] obtain s0 where s0: "BitCask_Init dir_path (BitCask_new []) = Some (kOk, s0)"
    "cask_rel s0 Map.empty" "bc_data_suffix s0 = 1" by metis
  then have "unat (bc_data_suffix s0) + length ops < 10 ^ 17 - 1" using assms(2) by simp
  from cask_run_refines [OF s0(2) this assms(3,1)] s0(1) that show ?thesis by blast
qed

section \<open>Properties\<close>

text \<open>C21: the store is a map with versions: every sequence of fewer than \<open>10 ^ 16\<close> calls of \<open>Put\<close>, \<open>Del\<close>,
  \<open>Get\<close> and reopenings, in which no \<open>Put\<close> has a value above \<open>kMaxDataSize\<close> (10 MB), on a store created
  in an empty directory named by a non-empty path, returns the results of the specification, whatever
  clock values and versions the callers pass and however many files the records fill; within these
  bounds no read overruns the buffer \<open>buf_\<close> (a larger value is accepted by \<open>Put\<close>, which does not check
  it, and overruns the buffer when it is read). Versions count from 1 and start again after a deletion,
  and a write whose clock is not after the key's last write fails. The \<open>a+\<close> stream of the current file
  is taken to append after a read, as glibc's does.\<close>
theorem BitCask_refinement:
  assumes "dir_path \<noteq> []" "length ops < 10 ^ 16" "\<forall>op \<in> set ops. op_small op"
  shows "\<exists>s0 s. BitCask_Init dir_path (BitCask_new []) = Some (kOk, s0) \<and>
    cask_run dir_path ops s0 = Some (fst (cask_spec_run ops Map.empty), s)"
  by (rule run_from_empty [OF assms]) blast

theorem BitCask_refinement_witness:
  "\<exists>s0 s. BitCask_Init [46] (BitCask_new []) = Some (kOk, s0) \<and>
    cask_run [46] [CPut [1] [2, 3] 0 (5, 0), CPut [1] [4] 1 (5, 0), CPut [1] [4] 1 (5, 1), CReopen, CGet [1], CGet [2],
      CDel [1] (-1) (6, 0), CGet [1]] s0 =
      Some ([Inr None, Inl kTimeWrong, Inr None, Inr None, Inr (Some ([4], 2)), Inl kNotFound, Inr None, Inl kNotFound], s)"
  using BitCask_refinement [of "[46]" "[CPut [1] [2, 3] 0 (5, 0), CPut [1] [4] 1 (5, 0), CPut [1] [4] 1 (5, 1), CReopen,
      CGet [1], CGet [2], CDel [1] (-1) (6, 0), CGet [1]]"]
  by (simp add: op_small_def kMaxDataSize_def kMaxKeySize_def cask_put_def cask_get_def cask_del_def
    expected_version_def not_after_def is_live_def)

text \<open>C22: take a store reached by fewer than \<open>10 ^ 16\<close> calls of \<open>Put\<close>, \<open>Del\<close>, \<open>Get\<close> and reopenings in which
  no \<open>Put\<close> has a value above \<open>kMaxDataSize\<close>, from an empty directory named by a non-empty path. A new
  object on its files rebuilds exactly the index that the store had in memory, with the same current
  file, and its \<open>used_cnt\<close> is the number of keys that exist. (After a larger value the reopening would
  overrun \<open>buf_\<close>.)\<close>
theorem BitCask_recovery:
  assumes "dir_path \<noteq> []" "length ops < 10 ^ 16" "\<forall>op \<in> set ops. op_small op"
  shows "\<exists>s0 s s'. BitCask_Init dir_path (BitCask_new []) = Some (kOk, s0) \<and>
    cask_run dir_path ops s0 = Some (fst (cask_spec_run ops Map.empty), s) \<and>
    BitCask_Init dir_path (BitCask_new (bc_dir s)) = Some (kOk, s') \<and>
    bc_index s' = bc_index s \<and> bc_data_suffix s' = bc_data_suffix s \<and>
    bc_used_cnt s' = of_nat (card {k. is_live (snd (cask_spec_run ops Map.empty) k)})"
proof (rule run_from_empty [OF assms])
  fix s0 s
  let ?m = "snd (cask_spec_run ops Map.empty)"
  assume run: "BitCask_Init dir_path (BitCask_new []) = Some (kOk, s0)"
    "cask_run dir_path ops s0 = Some (fst (cask_spec_run ops Map.empty), s)" and rel: "cask_rel s ?m"
  then obtain R where inv: "cask_inv s R" by (auto simp: cask_rel_def)
  obtain s' where s': "BitCask_Init dir_path (BitCask_new (bc_dir s)) = Some (kOk, s')" "bc_index s' = bc_index s"
    "same_dir s s'" "counted (bc_index s', bc_used_cnt s')" using Init_recovers [OF inv assms(1)] by metis
  then have "bc_used_cnt s' = of_nat (card {k. is_live (?m k)})"
    using live_keys_spec [OF rel] by (simp add: counted_def)
  with run s' show ?thesis by (auto simp: same_dir_def)
qed

theorem BitCask_recovery_witness:
  "\<exists>s0 s s'. BitCask_Init [46] (BitCask_new []) = Some (kOk, s0) \<and>
    cask_run [46] [CPut [1] [2] 0 (5, 0), CPut [2] [] 0 (5, 0), CDel [1] 1 (7, 0)] s0 = Some ([Inr None, Inr None, Inr None], s) \<and>
    BitCask_Init [46] (BitCask_new (bc_dir s)) = Some (kOk, s') \<and> bc_index s' = bc_index s \<and>
    bc_data_suffix s' = bc_data_suffix s \<and> bc_used_cnt s' = 1"
proof -
  let ?ops = "[CPut [1] [2] 0 (5, 0), CPut [2] [] 0 (5, 0), CDel [1] 1 (7, 0)]"
  have run: "cask_spec_run ?ops Map.empty =
    ([Inr None, Inr None, Inr None], Map.empty([1] \<mapsto> Live [2] 1 (5 * 2 ^ 32), [2] \<mapsto> Live [] 1 (5 * 2 ^ 32), [1] \<mapsto> Dead (7 * 2 ^ 32)))"
    by (simp add: kMaxKeySize_def cask_put_def cask_del_def expected_version_def not_after_def is_live_def)
  have "{k. is_live ((Map.empty([1 :: byte] \<mapsto> Live [2] 1 (5 * 2 ^ 32), [2] \<mapsto> Live [] 1 (5 * 2 ^ 32), [1] \<mapsto> Dead (7 * 2 ^ 32))) k)} = {[2]}"
    by (auto simp: is_live_def split: if_splits)
  then show ?thesis
    using BitCask_recovery [of "[46]" ?ops] unfolding run by (simp add: op_small_def kMaxDataSize_def)
qed

text \<open>The count of a running store is not decreased by a deletion, so it differs from the recovered one.\<close>

lemma BitCask_used_cnt_drift:
  "\<exists>s0 s1 s2. BitCask_Init [46] (BitCask_new []) = Some (kOk, s0) \<and>
    BitCask_Put [1] [] (-1) (5, 0) s0 = Some (kOk, s1) \<and> BitCask_Del [1] (-1) (6, 0) s1 = Some (kOk, s2) \<and>
    bc_used_cnt s2 = 1 \<and> live_keys (bc_index s2) = {}"
proof -
  have loop: "ReadFile_loop fp [] 0 ix = Some (kOk, ix)" for fp ix
    using ReadFile_loop_log [of "[]" fp "[]" ix] by simp
  have one: "\<not> kMaxFilesNum \<le> 1" by (simp add: kMaxFilesNum_def word_le_nat_alt)
  note defs = BitCask_Init_def BitCask_new_def OpenAndReadFiles_def OpenNextFile_def OpenAndReadFile_def loop one
    data_name_not_merge
  show ?thesis
    by (simp add: defs BitCask_Put_def BitCask_Del_def SetValue_def check_version_def CheckIsFileFull_def
      kMaxKeySize_def kSingleFileSize_def append_record_def WriteData_def bucket_of_def CheckValueIsNew_def
      EncodeDataValue_def live_keys_def Let_def)
qed

end
