(* ===== verification/Mut_Buffer.thy ===== *)
theory Mut_Buffer
  imports CS_Prelude
begin

text \<open>
  The growing receive buffer of base/mutable_buffer: data are appended behind the unread part, which
  is moved to the front or into a larger block when the space behind it is too small, and skipped at
  the front. A block of memory is a list of cells, an uninitialised cell is \<open>None\<close>; sizes and offsets
  keep their 32 bits. A copy outside a block is undefined: \<open>None\<close>. Allocation succeeds.
\<close>

section \<open>First in, first out\<close>

text \<open>
  The contract of a byte queue, and what a client may conclude from it: whatever the order of its
  calls, the bytes it has taken out, followed by those still inside, are those it has put in.
\<close>

datatype queue_op = QAppend bytes | QSkip nat

locale byte_queue =
  fixes inv :: "'s \<Rightarrow> bool" and view :: "'s \<Rightarrow> bytes" and fits :: "bytes \<Rightarrow> bool" and keeps :: "nat \<Rightarrow> bool"
    and append_op :: "bytes \<Rightarrow> 's \<Rightarrow> (Code \<times> 's) option" and skip_op :: "nat \<Rightarrow> 's \<Rightarrow> 's"
  assumes append_law: "inv s \<Longrightarrow> fits data \<Longrightarrow> \<exists>c s'. append_op data s = Some (c, s') \<and> inv s' \<and>
      view s' = (if c = kOk then view s @ data else view s)"
    and skip_law: "inv s \<Longrightarrow> keeps n \<Longrightarrow> inv (skip_op n s) \<and> view (skip_op n s) = drop n (view s)"
begin

text \<open>A run yields the bytes accepted, the bytes taken out and the last state.\<close>

fun run :: "queue_op list \<Rightarrow> 's \<Rightarrow> (bytes \<times> bytes \<times> 's) option" where
  "run [] s = Some ([], [], s)"
| "run (QAppend data # ops) s =
     (case append_op data s of
        None \<Rightarrow> None
      | Some (c, s') \<Rightarrow>
          map_option (\<lambda>(put, got, s''). ((if c = kOk then data else []) @ put, got, s'')) (run ops s'))"
| "run (QSkip n # ops) s =
     map_option (\<lambda>(put, got, s''). (put, take n (view s) @ got, s'')) (run ops (skip_op n s))"

definition op_ok :: "queue_op \<Rightarrow> bool" where
  "op_ok op \<longleftrightarrow> (case op of QAppend data \<Rightarrow> fits data | QSkip n \<Rightarrow> keeps n)"

lemma fifo:
  assumes "inv s" "\<forall>op \<in> set ops. op_ok op"
  shows "\<exists>put got s'. run ops s = Some (put, got, s') \<and> inv s' \<and> got @ view s' = view s @ put"
  using assms
proof (induction ops arbitrary: s)
  case (Cons op ops)
  show ?case
  proof (cases op)
    case (QAppend data)
    then obtain c s1 where s1: "append_op data s = Some (c, s1)" "inv s1"
      "view s1 = (if c = kOk then view s @ data else view s)"
      using Cons.prems append_law [of s data] by (auto simp: op_ok_def)
    with Cons.IH [of s1] Cons.prems QAppend show ?thesis by auto
  next
    case (QSkip n)
    then have "inv (skip_op n s)" "view (skip_op n s) = drop n (view s)"
      using Cons.prems skip_law [of s n] by (auto simp: op_ok_def)
    then obtain put got s' where "run ops (skip_op n s) = Some (put, got, s')" "inv s'" "got @ view s' = drop n (view s) @ put"
      using Cons.IH [of "skip_op n s"] Cons.prems by auto
    with QSkip show ?thesis by (metis (no_types, lifting) append.assoc append_take_drop_id case_prod_conv option.simps(9) run.simps(3))
  qed
qed simp

end

section \<open>The buffer\<close>

type_synonym block = "byte option list"

record MutableBuffer =
  mb_buf :: "block option"
  mb_buf_size :: "32 word"
  mb_cur_buf_size :: "32 word"
  mb_offset :: "32 word"
  mb_min_buf_size :: "32 word"
  mb_max_buf_size :: "32 word"

definition MutableBuffer_new :: "32 word \<Rightarrow> 32 word \<Rightarrow> MutableBuffer" where
  "MutableBuffer_new min_size max_size = \<lparr>mb_buf = None, mb_buf_size = 0, mb_cur_buf_size = 0, mb_offset = 0,
     mb_min_buf_size = min_size, mb_max_buf_size = max_size\<rparr>"

definition malloc :: "32 word \<Rightarrow> block" where
  "malloc n = replicate (unat n) None"

definition copy_from :: "block \<Rightarrow> nat \<Rightarrow> nat \<Rightarrow> block option" where
  "copy_from src pos n = (if pos + n \<le> length src then Some (take n (drop pos src)) else None)"

definition copy_to :: "block \<Rightarrow> nat \<Rightarrow> block \<Rightarrow> block option" where
  "copy_to dst pos data =
     (if pos + length data \<le> length dst then Some (take pos dst @ data @ drop (pos + length data) dst) else None)"

definition MutableBuffer_Append :: "bytes \<Rightarrow> MutableBuffer \<Rightarrow> (Code \<times> MutableBuffer) option" where
  "MutableBuffer_Append data b =
     (let data_len = word_of_nat (length data) :: 32 word in
      if mb_max_buf_size b < mb_buf_size b + data_len then Some (kInvalidLength, b)
      else
        let b = (if mb_buf b = None then
               (let alloc_size = (if data_len < mb_min_buf_size b then mb_min_buf_size b else mb_min_buf_size b + data_len)
                in b\<lparr>mb_buf := Some (malloc alloc_size), mb_buf_size := alloc_size, mb_cur_buf_size := 0, mb_offset := 0\<rparr>)
             else b);
            buf = (case mb_buf b of None \<Rightarrow> [] | Some buf \<Rightarrow> buf);
            cur = unat (mb_cur_buf_size b); off = unat (mb_offset b);
            cells = map Some data
        in if data_len \<le> mb_buf_size b - mb_offset b - mb_cur_buf_size b then
             map_option (\<lambda>buf. (kOk, b\<lparr>mb_buf := Some buf, mb_cur_buf_size := mb_cur_buf_size b + data_len\<rparr>))
               (copy_to buf (off + cur) cells)
           else if data_len \<le> mb_buf_size b - mb_cur_buf_size b then
             Option.bind (copy_from buf off cur) (\<lambda>old.
             Option.bind (copy_to buf 0 old) (\<lambda>buf.
             map_option (\<lambda>buf. (kOk, b\<lparr>mb_buf := Some buf, mb_cur_buf_size := mb_cur_buf_size b + data_len, mb_offset := 0\<rparr>))
               (copy_to buf cur cells)))
           else
             let alloc_size = mb_min_buf_size b + mb_buf_size b + data_len; tmp_buf = malloc alloc_size in
             Option.bind (copy_from buf off cur) (\<lambda>old.
             Option.bind (copy_to tmp_buf 0 old) (\<lambda>tmp_buf.
             map_option (\<lambda>tmp_buf. (kOk, b\<lparr>mb_buf := Some tmp_buf, mb_buf_size := alloc_size,
                  mb_cur_buf_size := mb_cur_buf_size b + data_len, mb_offset := 0\<rparr>))
               (copy_to tmp_buf cur cells))))"

definition MutableBuffer_Skip :: "32 word \<Rightarrow> MutableBuffer \<Rightarrow> MutableBuffer" where
  "MutableBuffer_Skip skip_len b =
     (if mb_buf b = None then b
      else if mb_cur_buf_size b \<le> skip_len then
        (let b = (if mb_min_buf_size b < mb_buf_size b then b\<lparr>mb_buf := None, mb_buf_size := 0\<rparr> else b)
         in b\<lparr>mb_cur_buf_size := 0, mb_offset := 0\<rparr>)
      else b\<lparr>mb_offset := mb_offset b + skip_len, mb_cur_buf_size := mb_cur_buf_size b - skip_len\<rparr>)"

text \<open>\<open>RealDataPtr()\<close> with \<open>RealDataSize()\<close>: the unread cells.\<close>

definition RealDataSize :: "MutableBuffer \<Rightarrow> 32 word" where
  "RealDataSize b = mb_cur_buf_size b"

definition RealData :: "MutableBuffer \<Rightarrow> block" where
  "RealData b = (case mb_buf b of None \<Rightarrow> []
     | Some buf \<Rightarrow> take (unat (RealDataSize b)) (drop (unat (mb_offset b)) buf))"

section \<open>Invariant\<close>

definition MB_bytes :: "MutableBuffer \<Rightarrow> bytes" where
  "MB_bytes b = map (\<lambda>c. case c of None \<Rightarrow> 0 | Some x \<Rightarrow> x) (RealData b)"

definition MB_inv :: "32 word \<Rightarrow> 32 word \<Rightarrow> MutableBuffer \<Rightarrow> bool" where
  "MB_inv mn mx b \<longleftrightarrow> mb_min_buf_size b = mn \<and> mb_max_buf_size b = mx \<and>
     unat (mb_buf_size b) \<le> unat mn + unat mx \<and>
     (case mb_buf b of
        None \<Rightarrow> mb_buf_size b = 0 \<and> mb_cur_buf_size b = 0 \<and> mb_offset b = 0
      | Some buf \<Rightarrow> length buf = unat (mb_buf_size b) \<and>
          unat (mb_offset b) + unat (mb_cur_buf_size b) \<le> unat (mb_buf_size b)) \<and>
     None \<notin> set (RealData b)"

lemma copy_from_ok: "pos + n \<le> length src \<Longrightarrow> copy_from src pos n = Some (take n (drop pos src))"
  by (simp add: copy_from_def)

lemma copy_to_ok:
  assumes "pos + length data \<le> length dst"
  obtains dst' where "copy_to dst pos data = Some dst'" "length dst' = length dst"
    "take pos dst' = take pos dst" "take (length data) (drop pos dst') = data"
  using assms that [of "take pos dst @ data @ drop (pos + length data) dst"] by (simp add: copy_to_def)

lemma take_extend:
  "take n (drop off xs') = take n (drop off xs) \<Longrightarrow> off + n \<le> length xs' \<Longrightarrow>
    take (n + m) (drop off xs') = take n (drop off xs) @ take m (drop (off + n) xs')"
  by (simp only: take_add drop_drop add.commute [of n off])

text \<open>The first branch: there is room behind the data.\<close>

lemma append_behind:
  assumes "off + n + length cells \<le> length buf"
  obtains buf' where "copy_to buf (off + n) cells = Some buf'" "length buf' = length buf"
    "take (n + length cells) (drop off buf') = take n (drop off buf) @ cells"
proof -
  from copy_to_ok [OF assms] obtain buf' where b: "copy_to buf (off + n) cells = Some buf'" "length buf' = length buf"
    "take (off + n) buf' = take (off + n) buf" "take (length cells) (drop (off + n) buf') = cells" .
  have "take n (drop off buf') = take n (drop off buf)" using b(3) by (metis drop_take add_diff_cancel_left')
  from take_extend [OF this, of "length cells"] b assms have
    "take (n + length cells) (drop off buf') = take n (drop off buf) @ cells" by simp
  with b that show ?thesis by blast
qed

text \<open>The other branches: the data are copied to the front of a block first.\<close>

lemma append_moved:
  assumes "off + n \<le> length buf" "n + length cells \<le> length dst"
  obtains dst1 dst' where "copy_from buf off n = Some (take n (drop off buf))"
    "copy_to dst 0 (take n (drop off buf)) = Some dst1" "copy_to dst1 n cells = Some dst'"
    "length dst' = length dst" "take (n + length cells) dst' = take n (drop off buf) @ cells"
proof -
  have n: "length (take n (drop off buf)) = n" using assms(1) by simp
  obtain dst1 where 1: "copy_to dst 0 (take n (drop off buf)) = Some dst1" "length dst1 = length dst"
    "take n dst1 = take n (drop off buf)"
    using copy_to_ok [of 0 "take n (drop off buf)" dst] n assms(2) by auto
  from append_behind [of 0 n cells dst1] 1 assms(2) obtain dst' where "copy_to dst1 n cells = Some dst'"
    "length dst' = length dst" "take (n + length cells) dst' = take n (drop off buf) @ cells" by auto
  with 1 that copy_from_ok [OF assms(1)] show ?thesis by blast
qed

section \<open>Appending\<close>

definition fits_in :: "32 word \<Rightarrow> 32 word \<Rightarrow> bytes \<Rightarrow> bool" where
  "fits_in mn mx data \<longleftrightarrow> unat mn + unat mx + length data < 2 ^ 32"

lemma RealData_Some: "mb_buf b = Some buf \<Longrightarrow> RealData b = take (unat (mb_cur_buf_size b)) (drop (unat (mb_offset b)) buf)"
  by (simp add: RealData_def RealDataSize_def)

lemma Append_alloc:
  assumes "MB_inv mn mx b" "fits_in mn mx data" "\<not> mx < mb_buf_size b + word_of_nat (length data)" "mb_buf b \<noteq> None"
  shows "\<exists>b'. MutableBuffer_Append data b = Some (kOk, b') \<and> MB_inv mn mx b' \<and> RealData b' = RealData b @ map Some data"
proof -
  obtain buf where buf: "mb_buf b = Some buf" using assms(4) by auto
  let ?n = "word_of_nat (length data) :: 32 word" and ?off = "unat (mb_offset b)" and ?cur = "unat (mb_cur_buf_size b)"
  have n: "unat ?n = length data" using assms(2) by (simp add: fits_in_def unsigned_of_nat take_bit_nat_eq_self)
  have cfg: "mb_min_buf_size b = mn" "mb_max_buf_size b = mx" and len: "length buf = unat (mb_buf_size b)"
    and used: "?off + ?cur \<le> unat (mb_buf_size b)" and size: "unat (mb_buf_size b) \<le> unat mn + unat mx"
    and init: "None \<notin> set (RealData b)" using assms(1) buf by (auto simp: MB_inv_def)
  have sum: "unat (mb_buf_size b + ?n) = unat (mb_buf_size b) + length data"
    using unat_add_lem [of "mb_buf_size b" ?n, THEN iffD1] n size assms(2) by (simp add: fits_in_def)
  then have max: "unat (mb_buf_size b) + length data \<le> unat mx" using assms(3) by (simp add: not_less word_le_nat_alt)
  have cur: "unat (mb_cur_buf_size b + ?n) = ?cur + length data"
    using unat_add_lem [of "mb_cur_buf_size b" ?n, THEN iffD1] n size assms(2) used by (simp add: fits_in_def)
  have left: "?n \<le> mb_buf_size b - mb_offset b - mb_cur_buf_size b \<longleftrightarrow> ?off + ?cur + length data \<le> length buf"
    using used by (simp add: word_le_nat_alt n len unat_sub) linarith
  have room: "?n \<le> mb_buf_size b - mb_cur_buf_size b \<longleftrightarrow> ?cur + length data \<le> length buf"
    using used by (simp add: word_le_nat_alt n len unat_sub) linarith
  have data: "None \<notin> set (RealData b @ map Some data)" using init by auto
  note real = RealData_Some [OF buf]
  note app = MutableBuffer_Append_def [of data b] cfg assms(3)
  show ?thesis
  proof (cases "?off + ?cur + length data \<le> length buf")
    case True
    from append_behind [of ?off ?cur "map Some data" buf] True obtain buf' where
      b': "copy_to buf (?off + ?cur) (map Some data) = Some buf'" "length buf' = length buf"
      "take (?cur + length data) (drop ?off buf') = RealData b @ map Some data" unfolding real by auto
    let ?b = "b\<lparr>mb_buf := Some buf', mb_cur_buf_size := mb_cur_buf_size b + ?n\<rparr>"
    have "RealData ?b = RealData b @ map Some data" using b'(3) by (simp add: RealData_def RealDataSize_def cur)
    then show ?thesis using b' True cfg size len data
      by (intro exI [of _ ?b]) (simp add: app buf Let_def left MB_inv_def cur)
  next
    case behind: False
    show ?thesis
    proof (cases "?cur + length data \<le> length buf")
      case True
      from append_moved [of ?off ?cur buf "map Some data" buf] True used len obtain buf1 buf' where
        b': "copy_from buf ?off ?cur = Some (RealData b)" "copy_to buf 0 (RealData b) = Some buf1"
        "copy_to buf1 ?cur (map Some data) = Some buf'" "length buf' = length buf"
        "take (?cur + length data) buf' = RealData b @ map Some data" unfolding real by auto
      let ?b = "b\<lparr>mb_buf := Some buf', mb_cur_buf_size := mb_cur_buf_size b + ?n, mb_offset := 0\<rparr>"
      have "RealData ?b = RealData b @ map Some data" using b'(5) by (simp add: RealData_def RealDataSize_def cur)
      then show ?thesis using b' True behind cfg size len data
        by (intro exI [of _ ?b]) (simp add: app buf Let_def left room MB_inv_def cur)
    next
      case False
      let ?alloc = "mn + mb_buf_size b + ?n"
      have "unat (mn + mb_buf_size b) = unat mn + unat (mb_buf_size b)"
        using unat_add_lem [of mn "mb_buf_size b", THEN iffD1] max assms(2) by (simp add: fits_in_def)
      then have alloc: "unat ?alloc = unat mn + unat (mb_buf_size b) + length data"
        using unat_add_lem [of "mn + mb_buf_size b" ?n, THEN iffD1] n max assms(2) by (simp add: fits_in_def)
      have tmp: "length (malloc ?alloc) = unat ?alloc" by (simp add: malloc_def)
      from append_moved [of ?off ?cur buf "map Some data" "malloc ?alloc"] used len tmp alloc obtain buf1 buf' where
        b': "copy_from buf ?off ?cur = Some (RealData b)" "copy_to (malloc ?alloc) 0 (RealData b) = Some buf1"
        "copy_to buf1 ?cur (map Some data) = Some buf'" "length buf' = unat ?alloc"
        "take (?cur + length data) buf' = RealData b @ map Some data" unfolding real by auto
      let ?b = "b\<lparr>mb_buf := Some buf', mb_buf_size := ?alloc, mb_cur_buf_size := mb_cur_buf_size b + ?n, mb_offset := 0\<rparr>"
      have "RealData ?b = RealData b @ map Some data" using b'(5) by (simp add: RealData_def RealDataSize_def cur)
      then show ?thesis using b' False behind cfg max used alloc data
        by (intro exI [of _ ?b]) (simp add: app buf Let_def left room MB_inv_def cur)
    qed
  qed
qed

lemma Append_first:
  assumes "MB_inv mn mx b" "fits_in mn mx data" "\<not> mx < mb_buf_size b + word_of_nat (length data)" "mb_buf b = None"
  shows "\<exists>b'. MutableBuffer_Append data b = Some (kOk, b') \<and> MB_inv mn mx b' \<and> RealData b' = RealData b @ map Some data"
proof -
  let ?n = "word_of_nat (length data) :: 32 word"
  have n: "unat ?n = length data" using assms(2) by (simp add: fits_in_def unsigned_of_nat take_bit_nat_eq_self)
  have cfg: "mb_min_buf_size b = mn" "mb_max_buf_size b = mx" "mb_buf_size b = 0" "mb_cur_buf_size b = 0" "mb_offset b = 0"
    using assms(1,4) by (auto simp: MB_inv_def)
  have max: "length data \<le> unat mx" using assms(3) n by (simp add: cfg not_less word_le_nat_alt)
  let ?alloc = "if ?n < mn then mn else mn + ?n"
  have "unat (mn + ?n) = unat mn + length data"
    using unat_add_lem [of mn ?n, THEN iffD1] n assms(2) by (simp add: fits_in_def)
  then have alloc: "length data \<le> unat ?alloc" "unat ?alloc \<le> unat mn + unat mx"
    using max by (auto simp: word_less_nat_alt n)
  have tmp: "length (malloc ?alloc) = unat ?alloc" by (simp only: malloc_def length_replicate)
  from append_behind [of 0 0 "map Some data" "malloc ?alloc"] alloc(1) tmp obtain buf' where
    b': "copy_to (malloc ?alloc) 0 (map Some data) = Some buf'" "length buf' = unat ?alloc"
    "take (length data) buf' = map Some data" by auto
  let ?b = "b\<lparr>mb_buf := Some buf', mb_buf_size := ?alloc, mb_cur_buf_size := ?n, mb_offset := 0\<rparr>"
  have real: "RealData b = []" "RealData ?b = map Some data"
    using b'(3) assms(4) by (simp_all add: RealData_def RealDataSize_def n)
  have le: "?n \<le> ?alloc" using alloc(1) by (simp only: word_le_nat_alt n)
  have "MutableBuffer_Append data b = Some (kOk, ?b)"
    using assms(3,4) le b'(1) unfolding MutableBuffer_Append_def by (simp only: Let_def cfg) (simp add: cfg)
  moreover have "MB_inv mn mx ?b" using cfg alloc b'(2) real unfolding MB_inv_def by (auto simp: n)
  ultimately show ?thesis using real by auto
qed

lemma Append_ok:
  assumes "MB_inv mn mx b" "fits_in mn mx data"
  shows "\<exists>b'. MutableBuffer_Append data b = Some (if mx < mb_buf_size b + word_of_nat (length data) then kInvalidLength else kOk, b') \<and>
    MB_inv mn mx b' \<and>
    RealData b' = (if mx < mb_buf_size b + word_of_nat (length data) then RealData b else RealData b @ map Some data)"
proof (cases "mx < mb_buf_size b + word_of_nat (length data)")
  case True
  then have "MutableBuffer_Append data b = Some (kInvalidLength, b)"
    using assms(1) by (simp add: MutableBuffer_Append_def MB_inv_def)
  with True assms(1) show ?thesis by simp
next
  case False
  then show ?thesis using Append_first [OF assms False] Append_alloc [OF assms False] by (cases "mb_buf b = None") auto
qed

section \<open>Skipping\<close>

lemma Skip_ok:
  assumes "MB_inv mn mx b"
  shows "MB_inv mn mx (MutableBuffer_Skip n b) \<and> RealData (MutableBuffer_Skip n b) = drop (unat n) (RealData b)"
proof (cases "mb_buf b")
  case None
  then show ?thesis using assms by (simp add: MutableBuffer_Skip_def RealData_def)
next
  case (Some buf)
  let ?off = "unat (mb_offset b)" and ?cur = "unat (mb_cur_buf_size b)"
  have len: "length buf = unat (mb_buf_size b)" "?off + ?cur \<le> unat (mb_buf_size b)"
    and rest: "mb_min_buf_size b = mn" "mb_max_buf_size b = mx" "unat (mb_buf_size b) \<le> unat mn + unat mx"
    and init: "None \<notin> set (RealData b)" using assms Some by (auto simp: MB_inv_def)
  have real: "RealData b = take ?cur (drop ?off buf)" using Some by (rule RealData_Some)
  show ?thesis
  proof (cases "mb_cur_buf_size b \<le> n")
    case True
    then have "drop (unat n) (RealData b) = []" by (simp add: real word_le_nat_alt)
    then show ?thesis using True Some rest len
      by (auto simp: MutableBuffer_Skip_def MB_inv_def RealData_def RealDataSize_def Let_def)
  next
    case False
    then have n: "unat n < ?cur" by (simp add: word_le_nat_alt)
    have off: "unat (mb_offset b + n) = ?off + unat n"
      using unat_add_lem [of "mb_offset b" n, THEN iffD1] n len(2) unsigned_less [where 'a = nat, of "mb_buf_size b"] by simp
    have cur: "unat (mb_cur_buf_size b - n) = ?cur - unat n" using False by (intro unat_sub) simp
    let ?b = "b\<lparr>mb_offset := mb_offset b + n, mb_cur_buf_size := mb_cur_buf_size b - n\<rparr>"
    have "RealData ?b = drop (unat n) (RealData b)"
      using Some by (simp add: RealData_def RealDataSize_def off cur drop_take add.commute [of "unat n"])
    moreover from this have "None \<notin> set (RealData ?b)" using init by (auto dest: in_set_dropD)
    ultimately show ?thesis using False Some rest len n
      by (auto simp: MutableBuffer_Skip_def MB_inv_def off cur)
  qed
qed

section \<open>The buffer is a byte queue\<close>

abbreviation skip_nat :: "nat \<Rightarrow> MutableBuffer \<Rightarrow> MutableBuffer" where
  "skip_nat n \<equiv> MutableBuffer_Skip (word_of_nat n)"

interpretation mb: byte_queue "MB_inv mn mx" MB_bytes "fits_in mn mx" "\<lambda>n. n < 2 ^ 32" MutableBuffer_Append skip_nat
  for mn mx
proof
  fix b data
  assume "MB_inv mn mx b" "fits_in mn mx data"
  from Append_ok [OF this] show "\<exists>c b'. MutableBuffer_Append data b = Some (c, b') \<and> MB_inv mn mx b' \<and>
      MB_bytes b' = (if c = kOk then MB_bytes b @ data else MB_bytes b)"
    by (auto simp: MB_bytes_def split: if_splits) (auto simp: comp_def)
next
  fix b and n :: nat
  assume "MB_inv mn mx b" and n: "n < 2 ^ 32"
  then show "MB_inv mn mx (skip_nat n b) \<and> MB_bytes (skip_nat n b) = drop n (MB_bytes b)"
    using Skip_ok [of mn mx b "word_of_nat n"]
    by (simp add: MB_bytes_def drop_map unsigned_of_nat take_bit_nat_eq_self)
qed

lemma MB_inv_new: "MB_inv mn mx (MutableBuffer_new mn mx)"
  by (simp add: MB_inv_def MutableBuffer_new_def RealData_def)

text \<open>The limit is checked against the size of the block, not of the data: five more bytes are refused by
  a buffer that holds one byte and may hold eight.\<close>

lemma Append_limit_counts_block:
  "\<exists>b b'. MutableBuffer_Append [1] (MutableBuffer_new 4 8) = Some (kOk, b) \<and> RealDataSize b = 1 \<and>
    MutableBuffer_Append [1, 2, 3, 4, 5] b = Some (kInvalidLength, b')"
  by (simp add: MutableBuffer_Append_def MutableBuffer_new_def Let_def malloc_def copy_to_def RealDataSize_def word_less_nat_alt word_le_nat_alt)

text \<open>The sum of the limit check wraps: a length close to the 32-bit limit passes it and the copy overruns the block.\<close>

lemma Append_length_wraps:
  assumes "length data = 2 ^ 32 - 1"
  shows "\<exists>b. MutableBuffer_Append [1] (MutableBuffer_new 4 8) = Some (kOk, b) \<and> MutableBuffer_Append data b = None"
  using assms
  by (simp add: MutableBuffer_Append_def MutableBuffer_new_def Let_def malloc_def copy_to_def copy_from_def
      word_less_nat_alt word_le_nat_alt)

text \<open>C24: the buffer is a first-in first-out stream. For every sequence of calls, as long as the sizes stay
  within 32 bits, no call reads or writes outside a block, only initialised bytes are handed out, and
  the bytes skipped followed by the bytes still unread are the bytes of the accepted calls of
  \<open>Append\<close>, in order.\<close>
theorem MutableBuffer_fifo:
  assumes "\<forall>op \<in> set ops. case op of QAppend data \<Rightarrow> fits_in mn mx data | QSkip n \<Rightarrow> n < 2 ^ 32"
  shows "\<exists>put got b. mb.run ops (MutableBuffer_new mn mx) = Some (put, got, b) \<and> None \<notin> set (RealData b) \<and>
    got @ MB_bytes b = put"
proof -
  have "\<forall>op \<in> set ops. mb.op_ok mn mx op" using assms unfolding mb.op_ok_def .
  from mb.fifo [OF MB_inv_new this] show ?thesis
    by (auto simp: MB_inv_def) (simp add: MB_bytes_def MutableBuffer_new_def RealData_def)
qed

theorem MutableBuffer_fifo_witness:
  "\<exists>put got b. mb.run [QAppend [1, 2, 3], QSkip 2, QAppend [4], QSkip 1] (MutableBuffer_new 2 64) = Some (put, got, b) \<and>
    None \<notin> set (RealData b) \<and> got @ MB_bytes b = put"
  by (rule MutableBuffer_fifo [of _ 2 64]) (simp add: fits_in_def)

end
