(* ===== verification/Trie_Count.thy ===== *)
theory Trie_Count
  imports Util_Str "HOL-Library.Multiset" "HOL-Library.Sublist"
begin

text \<open>
  The trie of base/trie: words of lower-case letters with their numbers of occurrences. A node has
  26 children, the number of stored words that pass through it (\<open>frequency\<close>) and that end in it
  (\<open>full_word_frequency\<close>), both of 32 bits. Allocation succeeds. The trie is proved to be the multiset
  of the words put in and not taken out.
\<close>

section \<open>Model\<close>

datatype TrieItem = TrieItem (ti_index: "TrieItem option list") (ti_frequency: "32 word") (ti_full_word_frequency: "32 word")

definition TrieItem_Clear :: TrieItem where
  "TrieItem_Clear = TrieItem (replicate 26 None) 0 0"

definition letter_pos :: "byte \<Rightarrow> nat" where
  "letter_pos c = unat (c - c_a)"

fun put_item :: "bytes \<Rightarrow> TrieItem \<Rightarrow> TrieItem" where
  "put_item [] (TrieItem ix freq full) = TrieItem ix (freq + 1) (full + 1)"
| "put_item (c # key) (TrieItem ix freq full) =
     (let pos = letter_pos c; child = (case ix ! pos of None \<Rightarrow> TrieItem_Clear | Some t \<Rightarrow> t)
      in TrieItem (ix[pos := Some (put_item key child)]) (freq + 1) full)"

fun get_item :: "bytes \<Rightarrow> TrieItem \<Rightarrow> TrieItem option" where
  "get_item [] t = Some t"
| "get_item (c # key) (TrieItem ix freq full) =
     (case ix ! letter_pos c of None \<Rightarrow> None | Some t \<Rightarrow> get_item key t)"

fun del_item :: "bytes \<Rightarrow> TrieItem \<Rightarrow> TrieItem" where
  "del_item [] (TrieItem ix freq full) = TrieItem ix (freq - 1) (full - 1)"
| "del_item (c # key) (TrieItem ix freq full) =
     (let pos = letter_pos c
      in TrieItem (ix[pos := map_option (del_item key) (ix ! pos)]) (freq - 1) full)"

record Trie =
  trie_root :: "TrieItem option"
  trie_is_init :: bool

definition Trie_new :: Trie where
  "Trie_new = \<lparr>trie_root = None, trie_is_init = False\<rparr>"

definition Trie_Init :: "Trie \<Rightarrow> Code \<times> Trie" where
  "Trie_Init s = (kOk, s\<lparr>trie_root := Some TrieItem_Clear, trie_is_init := True\<rparr>)"

definition Trie_Put :: "bytes \<Rightarrow> Trie \<Rightarrow> Code \<times> Trie" where
  "Trie_Put key s =
     (if \<not> trie_is_init s then (kNotInit, s)
      else if \<not> CheckIsLowerCaseLetter key then (kNotAllLowerCaseLetter, s)
      else (kOk, s\<lparr>trie_root := map_option (put_item key) (trie_root s)\<rparr>))"

text \<open>The number that \<open>Get\<close> hands out is the \<open>frequency\<close> of the node.\<close>

definition Trie_Get :: "bytes \<Rightarrow> Trie \<Rightarrow> 32 word res" where
  "Trie_Get key s =
     (if \<not> trie_is_init s then Inl kNotInit
      else if \<not> CheckIsLowerCaseLetter key then Inl kNotAllLowerCaseLetter
      else case Option.bind (trie_root s) (get_item key) of
          None \<Rightarrow> Inl kNotFound
        | Some t \<Rightarrow> if ti_full_word_frequency t = 0 then Inl kNotFound else Inr (ti_frequency t))"

definition Trie_Del :: "bytes \<Rightarrow> Trie \<Rightarrow> Code \<times> Trie" where
  "Trie_Del key s =
     (if \<not> trie_is_init s then (kNotInit, s)
      else case Trie_Get key s of
          Inl e \<Rightarrow> (e, s)
        | Inr n \<Rightarrow> (kOk, s\<lparr>trie_root := map_option (del_item key) (trie_root s)\<rparr>))"

text \<open>\<open>ToString\<close> visits the children in the order of the letters.\<close>

lemma child_size [termination_simp]:
  "(i, Some t) \<in> set (zip ns ix) \<Longrightarrow> size t < Suc (size_list (size_option size) ix)"
proof -
  assume "(i, Some t) \<in> set (zip ns ix)"
  then have "Some t \<in> set ix" by (rule set_zip_rightD)
  from size_list_estimation [OF this, of "size t" "size_option size"] show ?thesis by simp
qed

fun item_words :: "bytes \<Rightarrow> TrieItem \<Rightarrow> bytes list" where
  "item_words pfx (TrieItem ix freq full) =
     concat (map (\<lambda>(i, child). case child of
         None \<Rightarrow> []
       | Some t \<Rightarrow>
           (let cur_str = pfx @ [word_of_nat i + c_a]
            in (if ti_full_word_frequency t \<noteq> 0 then [cur_str] else []) @ item_words cur_str t))
       (zip [0..<length ix] ix))"

text \<open>The text is appended to what the caller's string holds.\<close>

definition Trie_ToString :: "Trie \<Rightarrow> bytes \<Rightarrow> bytes res" where
  "Trie_ToString s info =
     (if \<not> trie_is_init s then Inl kNotInit
      else case trie_root s of
          None \<Rightarrow> Inl kInvalidParam
        | Some t \<Rightarrow> Inr (info @ concat (map (\<lambda>w. w @ [10]) (item_words [] t))))"

section \<open>Nodes and their numbers\<close>

abbreviation lower :: "bytes \<Rightarrow> bool" where "lower \<equiv> CheckIsLowerCaseLetter"

inductive item_ok :: "TrieItem \<Rightarrow> bool" where
  "length ix = 26 \<Longrightarrow> (\<And>t. Some t \<in> set ix \<Longrightarrow> item_ok t) \<Longrightarrow> item_ok (TrieItem ix freq full)"

inductive_cases item_okE: "item_ok (TrieItem ix freq full)"
inductive_simps item_ok_simps: "item_ok (TrieItem ix freq full)"

definition freq_at :: "TrieItem \<Rightarrow> bytes \<Rightarrow> 32 word" where
  "freq_at t w = (case get_item w t of None \<Rightarrow> 0 | Some n \<Rightarrow> ti_frequency n)"

definition full_at :: "TrieItem \<Rightarrow> bytes \<Rightarrow> 32 word" where
  "full_at t w = (case get_item w t of None \<Rightarrow> 0 | Some n \<Rightarrow> ti_full_word_frequency n)"

lemma lower_Cons: "lower (c # w) \<longleftrightarrow> c_a \<le> c \<and> c \<le> c_z \<and> lower w"
  by (auto simp: CheckIsLowerCaseLetter_def not_less)

lemma letter_pos_less: "c_a \<le> c \<Longrightarrow> c \<le> c_z \<Longrightarrow> letter_pos c < 26"
  by (simp add: letter_pos_def word_le_nat_alt unat_sub)

lemma letter_pos_inj: "letter_pos c = letter_pos d \<Longrightarrow> c = d"
  by (simp add: letter_pos_def word_unat_eq_iff [symmetric])

lemma item_ok_Clear: "item_ok TrieItem_Clear"
  unfolding TrieItem_Clear_def by (rule item_ok.intros) auto

lemma Clear_empty: "freq_at TrieItem_Clear w = 0" "full_at TrieItem_Clear w = 0" if "lower w"
  using that letter_pos_less
  by (cases w; auto simp: freq_at_def full_at_def TrieItem_Clear_def lower_Cons split: option.splits)+

lemma item_ok_put: "item_ok t \<Longrightarrow> lower w \<Longrightarrow> item_ok (put_item w t)"
proof (induction w t rule: put_item.induct)
  case (2 c key ix freq full)
  have len: "length ix = 26" and sub: "\<And>t. Some t \<in> set ix \<Longrightarrow> item_ok t" using 2(2) by (auto elim: item_okE)
  have "letter_pos c < 26" using 2(3) letter_pos_less by (simp add: lower_Cons)
  then have "item_ok (case ix ! letter_pos c of None \<Rightarrow> TrieItem_Clear | Some t \<Rightarrow> t)"
    using sub len item_ok_Clear by (auto split: option.splits) (metis nth_mem)
  with 2 have "item_ok (put_item key (case ix ! letter_pos c of None \<Rightarrow> TrieItem_Clear | Some t \<Rightarrow> t))"
    by (simp add: lower_Cons)
  then show ?case using len sub by (auto simp: Let_def item_ok_simps dest: set_update_subset_insert [THEN subsetD])
qed (auto simp: item_ok_simps)

lemma item_ok_del: "item_ok t \<Longrightarrow> lower w \<Longrightarrow> item_ok (del_item w t)"
proof (induction w t rule: del_item.induct)
  case (2 c key ix freq full)
  have len: "length ix = 26" and sub: "\<And>t. Some t \<in> set ix \<Longrightarrow> item_ok t" using 2(2) by (auto elim: item_okE)
  have pos: "letter_pos c < length ix" using 2(3) letter_pos_less len by (simp add: lower_Cons)
  have "item_ok u" if u: "map_option (del_item key) (ix ! letter_pos c) = Some u" for u
  proof -
    obtain t where t: "ix ! letter_pos c = Some t" "u = del_item key t" using u by (cases "ix ! letter_pos c") auto
    then have "item_ok t" using sub nth_mem [OF pos] by simp
    then show ?thesis using 2(1) t 2(3) by (auto simp: lower_Cons)
  qed
  then have "item_ok u" if "Some u \<in> set (ix[letter_pos c := map_option (del_item key) (ix ! letter_pos c)])" for u
    using set_update_subset_insert [THEN subsetD, OF that] sub by (metis insertE)
  then show ?case using len by (simp add: Let_def item_ok_simps)
qed (auto simp: item_ok_simps)

text \<open>Putting a word in and taking it out changes the numbers of its prefixes by one.\<close>

lemma item_child_ok:
  assumes "item_ok (TrieItem ix freq full)" "lower (c # w)"
  shows "letter_pos c < length ix" "ix ! letter_pos c = Some t \<Longrightarrow> item_ok t"
  using assms letter_pos_less nth_mem [of "letter_pos c" ix] by (auto simp: lower_Cons elim!: item_okE)

lemma at_Cons:
  "freq_at (TrieItem ix f n) (c # w) = (case ix ! letter_pos c of None \<Rightarrow> 0 | Some t \<Rightarrow> freq_at t w)"
  "full_at (TrieItem ix f n) (c # w) = (case ix ! letter_pos c of None \<Rightarrow> 0 | Some t \<Rightarrow> full_at t w)"
  "freq_at (TrieItem ix f n) [] = f" "full_at (TrieItem ix f n) [] = n"
  by (auto simp: freq_at_def full_at_def split: option.splits)

lemma put_item_at:
  assumes "item_ok t" "lower w" "lower v"
  shows "freq_at (put_item w t) v = freq_at t v + (if prefix v w then 1 else 0) \<and>
    full_at (put_item w t) v = full_at t v + (if v = w then 1 else 0)"
  using assms
proof (induction w t arbitrary: v rule: put_item.induct)
  case (1 ix freq full)
  then show ?case by (cases v) (auto simp: at_Cons)
next
  case (2 c key ix freq full)
  show ?case
  proof (cases v)
    case Nil
    then show ?thesis by (simp add: at_Cons Let_def)
  next
    case (Cons d u)
    have pos: "letter_pos c < length ix" using item_child_ok(1) 2(2,3) by blast
    let ?child = "case ix ! letter_pos c of None \<Rightarrow> TrieItem_Clear | Some t \<Rightarrow> t"
    have "item_ok ?child" using item_child_ok(2) [OF 2(2,3)] item_ok_Clear by (auto split: option.splits)
    then have IH: "freq_at (put_item key ?child) u = freq_at ?child u + (if prefix u key then 1 else 0) \<and>
        full_at (put_item key ?child) u = full_at ?child u + (if u = key then 1 else 0)"
      using 2(1,3,4) Cons by (simp add: lower_Cons)
    have "lower u" using 2(4) Cons by (simp add: lower_Cons)
    show ?thesis
    proof (cases "d = c")
      case True
      with IH pos Cons Clear_empty [OF \<open>lower u\<close>] show ?thesis
        by (auto simp: at_Cons Let_def split: option.splits)
    next
      case False
      then have "letter_pos d \<noteq> letter_pos c" using letter_pos_inj by blast
      with False Cons show ?thesis by (simp add: at_Cons Let_def)
    qed
  qed
qed

lemma del_item_at:
  assumes "item_ok t" "lower w" "lower v" "get_item w t \<noteq> None"
  shows "freq_at (del_item w t) v = freq_at t v - (if prefix v w then 1 else 0) \<and>
    full_at (del_item w t) v = full_at t v - (if v = w then 1 else 0)"
  using assms
proof (induction w t arbitrary: v rule: del_item.induct)
  case (1 ix freq full)
  then show ?case by (cases v) (auto simp: at_Cons)
next
  case (2 c key ix freq full)
  show ?case
  proof (cases v)
    case Nil
    then show ?thesis by (simp add: at_Cons Let_def)
  next
    case (Cons d u)
    have pos: "letter_pos c < length ix" using item_child_ok(1) 2(2,3) by blast
    obtain t where t: "ix ! letter_pos c = Some t" "get_item key t \<noteq> None"
      using 2(5) by (auto split: option.splits)
    have "item_ok t" using item_child_ok(2) [OF 2(2,3) t(1)] .
    then have IH: "freq_at (del_item key t) u = freq_at t u - (if prefix u key then 1 else 0) \<and>
        full_at (del_item key t) u = full_at t u - (if u = key then 1 else 0)"
      using 2(1,3,4) t Cons by (simp add: lower_Cons)
    show ?thesis
    proof (cases "d = c")
      case True
      with IH pos Cons t show ?thesis by (simp add: at_Cons Let_def)
    next
      case False
      then have "letter_pos d \<noteq> letter_pos c" using letter_pos_inj by blast
      with False Cons show ?thesis by (simp add: at_Cons Let_def)
    qed
  qed
qed

section \<open>The trie is a multiset of words\<close>

abbreviation prefixed :: "bytes \<Rightarrow> bytes multiset \<Rightarrow> nat" where
  "prefixed w M \<equiv> size (filter_mset (prefix w) M)"

definition trie_rel :: "Trie \<Rightarrow> bytes multiset \<Rightarrow> bool" where
  "trie_rel s M \<longleftrightarrow> trie_is_init s \<and> (\<exists>t. trie_root s = Some t \<and> item_ok t \<and>
     (\<forall>w. lower w \<longrightarrow> freq_at t w = of_nat (prefixed w M) \<and> full_at t w = of_nat (count M w)))"

definition trie_put :: "bytes \<Rightarrow> bytes multiset \<Rightarrow> Code \<times> bytes multiset" where
  "trie_put w M = (if lower w then (kOk, add_mset w M) else (kNotAllLowerCaseLetter, M))"

definition trie_get :: "bytes \<Rightarrow> bytes multiset \<Rightarrow> 32 word res" where
  "trie_get w M =
     (if \<not> lower w then Inl kNotAllLowerCaseLetter
      else if w \<notin># M then Inl kNotFound else Inr (of_nat (prefixed w M)))"

definition trie_del :: "bytes \<Rightarrow> bytes multiset \<Rightarrow> Code \<times> bytes multiset" where
  "trie_del w M =
     (if \<not> lower w then (kNotAllLowerCaseLetter, M)
      else if w \<notin># M then (kNotFound, M) else (kOk, M - {#w#}))"

lemma trie_rel_Init: "trie_rel (snd (Trie_Init s)) {#}"
  by (auto simp: trie_rel_def Trie_Init_def item_ok_Clear Clear_empty)

lemma Trie_Put_refines:
  assumes "trie_rel s M"
  shows "fst (Trie_Put w s) = fst (trie_put w M) \<and> trie_rel (snd (Trie_Put w s)) (snd (trie_put w M))"
  using assms put_item_at item_ok_put by (auto simp: trie_rel_def Trie_Put_def trie_put_def)

lemma full_at_zero:
  assumes "trie_rel s M" "lower w" "size M < 2 ^ 32"
  shows "\<exists>t. trie_root s = Some t \<and> (full_at t w = 0 \<longleftrightarrow> w \<notin># M)"
proof -
  obtain t where t: "trie_root s = Some t" "full_at t w = of_nat (count M w)" using assms(1,2) by (auto simp: trie_rel_def)
  have "count M w < 2 ^ 32" using count_le_size [of M w] assms(3) by simp
  then have "unat (full_at t w) = count M w" by (simp add: t(2) unsigned_of_nat take_bit_nat_eq_self)
  then show ?thesis using t(1) by (auto simp: unat_eq_zero [symmetric] count_eq_zero_iff [symmetric] simp del: count_eq_zero_iff)
qed

lemma Trie_Get_refines:
  assumes "trie_rel s M" "size M < 2 ^ 32"
  shows "Trie_Get w s = trie_get w M"
proof (cases "lower w")
  case True
  obtain t where t: "trie_root s = Some t" "full_at t w = 0 \<longleftrightarrow> w \<notin># M" using full_at_zero [OF assms(1) True assms(2)] by auto
  have freq: "freq_at t w = of_nat (prefixed w M)" and init: "trie_is_init s" using assms(1) True t(1) by (auto simp: trie_rel_def)
  show ?thesis using freq t True init
    by (cases "get_item w t") (simp_all add: Trie_Get_def trie_get_def freq_at_def full_at_def)
next
  case False
  then show ?thesis using assms(1) by (auto simp: Trie_Get_def trie_get_def trie_rel_def)
qed

lemma prefixed_remove:
  assumes "w \<in># M"
  shows "prefixed v (M - {#w#}) = prefixed v M - (if prefix v w then 1 else 0)"
    "prefix v w \<Longrightarrow> 0 < prefixed v M"
proof -
  obtain N where M: "M = add_mset w N" using assms by (meson mset_add)
  show "prefixed v (M - {#w#}) = prefixed v M - (if prefix v w then 1 else 0)" by (simp add: M)
  show "prefix v w \<Longrightarrow> 0 < prefixed v M" by (simp add: M)
qed

lemma Trie_Del_refines:
  assumes "trie_rel s M" "size M < 2 ^ 32"
  shows "fst (Trie_Del w s) = fst (trie_del w M) \<and> trie_rel (snd (Trie_Del w s)) (snd (trie_del w M))"
proof (cases "lower w \<and> w \<in># M")
  case False
  then show ?thesis using assms(1) Trie_Get_refines [OF assms, of w]
    by (auto simp: Trie_Del_def trie_del_def trie_get_def trie_rel_def)
next
  case True
  then obtain t where t: "trie_root s = Some t" "full_at t w \<noteq> 0" using full_at_zero [OF assms(1) _ assms(2), of w] by auto
  then have found: "get_item w t \<noteq> None" by (auto simp: full_at_def split: option.splits)
  have ok: "item_ok t" and at: "\<And>v. lower v \<Longrightarrow> freq_at t v = of_nat (prefixed v M) \<and> full_at t v = of_nat (count M v)"
    using assms(1) t(1) by (auto simp: trie_rel_def)
  have "Trie_Del w s = (kOk, s\<lparr>trie_root := Some (del_item w t)\<rparr>)"
    using Trie_Get_refines [OF assms, of w] True t(1) assms(1) by (simp add: Trie_Del_def trie_get_def trie_rel_def)
  moreover have "freq_at (del_item w t) v = of_nat (prefixed v (M - {#w#})) \<and> full_at (del_item w t) v = of_nat (count (M - {#w#}) v)"
    if v: "lower v" for v
    using del_item_at [OF ok _ v found] at [OF v] True prefixed_remove [of w M v]
    by (auto simp: of_nat_diff Suc_le_eq)
  moreover have "item_ok (del_item w t)" using item_ok_del ok True by blast
  ultimately show ?thesis using True assms(1) by (auto simp: trie_rel_def trie_del_def)
qed

section \<open>Listing\<close>

lemma item_words_lower:
  assumes "item_ok t" "w \<in> set (item_words pfx t)"
  shows "\<exists>v. w = pfx @ v \<and> v \<noteq> [] \<and> lower v \<and> full_at t v \<noteq> 0"
  using assms
proof (induction pfx t arbitrary: w rule: item_words.induct)
  case (1 pfx ix freq full)
  from 1(3) obtain i t where it: "(i, Some t) \<in> set (zip [0..<length ix] ix)"
    "w \<in> set ((if ti_full_word_frequency t \<noteq> 0 then [pfx @ [word_of_nat i + c_a]] else []) @ item_words (pfx @ [word_of_nat i + c_a]) t)"
    by (force simp: Let_def split: option.splits)
  have len: "length ix = 26" using 1(2) by (auto elim: item_okE)
  have i: "i < 26" "ix ! i = Some t" using it(1) len by (auto simp: set_zip)
  let ?c = "word_of_nat i + c_a"
  have c: "letter_pos ?c = i" "lower [?c]"
  proof -
    have "i \<in> set [0..<26]" using i(1) by simp
    moreover have "\<forall>i \<in> set [0..<26]. c_a \<le> (word_of_nat i + c_a :: byte) \<and> word_of_nat i + c_a \<le> c_z"
      by (simp add: upt_rec)
    ultimately show "lower [?c]" by (simp add: lower_Cons CheckIsLowerCaseLetter_def not_less)
    show "letter_pos ?c = i" using i(1) by (simp add: letter_pos_def unsigned_of_nat take_bit_nat_eq_self)
  qed
  have ok: "item_ok t" using 1(2) it(1) by (auto elim!: item_okE dest: set_zip_rightD)
  show ?case
  proof (cases "w \<in> set (item_words (pfx @ [?c]) t)")
    case True
    from 1(1) [OF it(1) refl refl refl ok] True obtain v where
      "w = (pfx @ [?c]) @ v" "v \<noteq> []" "lower v" "full_at t v \<noteq> 0" by blast
    with c i show ?thesis by (intro exI [of _ "?c # v"]) (simp add: at_Cons lower_Cons CheckIsLowerCaseLetter_def)
  next
    case False
    then have "w = pfx @ [?c]" "ti_full_word_frequency t \<noteq> 0" using it(2) by (auto split: if_splits)
    with c i show ?thesis by (intro exI [of _ "[?c]"]) (simp add: at_Cons full_at_def)
  qed
qed

lemma item_words_complete:
  assumes "item_ok t" "lower v" "v \<noteq> []" "full_at t v \<noteq> 0"
  shows "pfx @ v \<in> set (item_words pfx t)"
  using assms
proof (induction pfx t arbitrary: v rule: item_words.induct)
  case (1 pfx ix freq full)
  obtain c u where v: "v = c # u" using 1(4) by (cases v) auto
  obtain t where t: "ix ! letter_pos c = Some t" "full_at t u \<noteq> 0" using 1(5) v by (auto simp: at_Cons split: option.splits)
  have pos: "letter_pos c < length ix" "item_ok t" using item_child_ok 1(2,3) v t(1) by blast+
  have it: "(letter_pos c, Some t) \<in> set (zip [0..<length ix] ix)"
    using pos(1) t(1) by (auto simp: set_zip intro!: exI [of _ "letter_pos c"])
  have c: "word_of_nat (letter_pos c) + c_a = c" by (simp add: letter_pos_def)
  have "pfx @ v \<in> set ((if ti_full_word_frequency t \<noteq> 0 then [pfx @ [c]] else []) @ item_words (pfx @ [c]) t)"
  proof (cases "u = []")
    case True
    then show ?thesis using t(2) v by (auto simp: full_at_def)
  next
    case False
    have "(pfx @ [c]) @ u \<in> set (item_words (pfx @ [word_of_nat (letter_pos c) + c_a]) t)"
      using 1(1) [OF it refl refl refl pos(2) _ False t(2)] 1(3) v c by (simp add: lower_Cons)
    then show ?thesis using v c by simp
  qed
  then show ?case using it c by (force simp: Let_def)
qed

text \<open>The words come in the order of a dictionary, each once.\<close>

lemma sorted_wrt_concat:
  assumes "\<And>xs. xs \<in> set xss \<Longrightarrow> sorted_wrt R xs"
    and "sorted_wrt (\<lambda>xs ys. \<forall>x \<in> set xs. \<forall>y \<in> set ys. R x y) xss"
  shows "sorted_wrt R (concat xss)"
  using assms by (induction xss) (auto simp: sorted_wrt_append)

lemma letter_less:
  assumes "i < j" "j < 26"
  shows "word_of_nat i + c_a < (word_of_nat j + c_a :: byte)"
proof -
  have "unat (word_of_nat k + c_a :: byte) = k + 97" if "k < 26" for k
  proof -
    have k: "unat (word_of_nat k :: byte) = k" using that by (simp add: unsigned_of_nat take_bit_nat_eq_self)
    with that unat_add_lem [of "word_of_nat k" c_a, THEN iffD1] show ?thesis by simp
  qed
  with assms show ?thesis by (simp only: word_less_nat_alt)
qed

text \<open>What one child contributes.\<close>

definition child_words :: "bytes \<Rightarrow> nat \<times> TrieItem option \<Rightarrow> bytes list" where
  "child_words pfx = (\<lambda>(i, child). case child of
      None \<Rightarrow> []
    | Some t \<Rightarrow> (let cur_str = pfx @ [word_of_nat i + c_a]
        in (if ti_full_word_frequency t \<noteq> 0 then [cur_str] else []) @ item_words cur_str t))"

lemma child_words_prefix:
  assumes "\<And>t. child = Some t \<Longrightarrow> item_ok t" "w \<in> set (child_words pfx (i, child))"
  shows "\<exists>v. w = pfx @ (word_of_nat i + c_a) # v"
proof (cases child)
  case (Some t)
  let ?s = "pfx @ [word_of_nat i + c_a]"
  have "w = ?s \<or> w \<in> set (item_words ?s t)"
    using assms(2) Some by (auto simp: child_words_def Let_def split: if_splits)
  then show ?thesis
  proof
    assume "w \<in> set (item_words ?s t)"
    from item_words_lower [OF assms(1) [OF Some] this] show ?thesis by auto
  qed simp
qed (use assms(2) in \<open>simp add: child_words_def\<close>)

lemma child_words_sorted:
  assumes "item_ok t" "sorted_wrt ord_class.lexordp (item_words (pfx @ [word_of_nat i + c_a]) t)"
  shows "sorted_wrt ord_class.lexordp (child_words pfx (i, Some t))"
proof -
  let ?s = "pfx @ [word_of_nat i + c_a]"
  have "ord_class.lexordp ?s w" if h: "w \<in> set (item_words ?s t)" for w
  proof -
    obtain v where "w = ?s @ v" "v \<noteq> []" using item_words_lower [OF assms(1) h] by blast
    then show ?thesis using lexordp_append_rightI [of v ?s] by blast
  qed
  with assms(2) show ?thesis by (simp add: child_words_def Let_def)
qed

lemma child_words_less:
  assumes "\<And>t. x = Some t \<Longrightarrow> item_ok t" "\<And>t. y = Some t \<Longrightarrow> item_ok t" "i < j" "j < 26"
    and "v \<in> set (child_words pfx (i, x))" "w \<in> set (child_words pfx (j, y))"
  shows "ord_class.lexordp v w"
proof -
  obtain v' w' where vw: "v = pfx @ (word_of_nat i + c_a) # v'" "w = pfx @ (word_of_nat j + c_a) # w'"
    using child_words_prefix [OF assms(1,5)] child_words_prefix [OF assms(2,6)] by blast
  show ?thesis unfolding vw by (intro lexordp_append_leftI ord_class.lexordp.Cons letter_less assms)
qed

lemma item_words_sorted:
  "item_ok t \<Longrightarrow> sorted_wrt ord_class.lexordp (item_words pfx t)"
proof (induction pfx t rule: item_words.induct)
  case (1 pfx ix freq full)
  let ?zs = "zip [0..<length ix] ix"
  have len: "length ix = 26" using 1(2) by (auto elim: item_okE)
  have ok: "item_ok t" if "Some t \<in> set ix" for t using 1(2) that by (auto elim!: item_okE)
  have inner: "sorted_wrt ord_class.lexordp (child_words pfx (i, child))" if it: "(i, child) \<in> set ?zs" for i child
  proof (cases child)
    case (Some t)
    have "item_ok t" using ok it Some by (auto dest: set_zip_rightD)
    then show ?thesis
      unfolding Some by (intro child_words_sorted 1(1) [OF it [unfolded Some] refl refl refl])
  qed (simp add: child_words_def)
  have "sorted_wrt (\<lambda>xs ys. \<forall>x \<in> set xs. \<forall>y \<in> set ys. ord_class.lexordp x y) (map (child_words pfx) ?zs)"
    unfolding sorted_wrt_iff_nth_less
  proof (intro allI impI ballI)
    fix i j v w
    assume ij: "i < j" "j < length (map (child_words pfx) ?zs)"
      and "v \<in> set (map (child_words pfx) ?zs ! i)" "w \<in> set (map (child_words pfx) ?zs ! j)"
    then have "v \<in> set (child_words pfx (i, ix ! i))" "w \<in> set (child_words pfx (j, ix ! j))" "j < 26" "i < 26"
      using len by auto
    then show "ord_class.lexordp v w"
      using len ok ij(1) by (intro child_words_less [of "ix ! i" "ix ! j" i j v pfx w]) (metis nth_mem)+
  qed
  with inner have "sorted_wrt ord_class.lexordp (concat (map (child_words pfx) ?zs))"
    by (intro sorted_wrt_concat) auto
  then show ?case by (simp add: child_words_def)
qed

lemma item_words_stored:
  assumes "trie_rel s M" "size M < 2 ^ 32"
  shows "\<exists>ws. Trie_ToString s info = Inr (info @ concat (map (\<lambda>w. w @ [10]) ws)) \<and>
    set ws = {w. w \<in># M \<and> lower w \<and> w \<noteq> []} \<and> sorted_wrt ord_class.lexordp ws"
proof -
  obtain t where t: "trie_root s = Some t" "item_ok t" and init: "trie_is_init s" using assms(1) by (auto simp: trie_rel_def)
  have zero: "lower w \<Longrightarrow> full_at t w = 0 \<longleftrightarrow> w \<notin># M" for w using full_at_zero [OF assms(1) _ assms(2)] t(1) by auto
  have "set (item_words [] t) = {w. w \<in># M \<and> lower w \<and> w \<noteq> []}"
    using item_words_lower [OF t(2), of _ "[]"] item_words_complete [OF t(2), of _ "[]"] zero by fastforce
  then show ?thesis using t(1) init item_words_sorted [OF t(2)] by (auto simp: Trie_ToString_def)
qed

section \<open>Runs\<close>

datatype trie_op = TPut bytes | TDel bytes | TGet bytes

fun trie_exec :: "trie_op \<Rightarrow> Trie \<Rightarrow> 32 word res \<times> Trie" where
  "trie_exec (TPut w) s = (case Trie_Put w s of (c, s) \<Rightarrow> (if c = kOk then Inr 0 else Inl c, s))"
| "trie_exec (TDel w) s = (case Trie_Del w s of (c, s) \<Rightarrow> (if c = kOk then Inr 0 else Inl c, s))"
| "trie_exec (TGet w) s = (Trie_Get w s, s)"

fun trie_spec :: "trie_op \<Rightarrow> bytes multiset \<Rightarrow> 32 word res \<times> bytes multiset" where
  "trie_spec (TPut w) M = (case trie_put w M of (c, M) \<Rightarrow> (if c = kOk then Inr 0 else Inl c, M))"
| "trie_spec (TDel w) M = (case trie_del w M of (c, M) \<Rightarrow> (if c = kOk then Inr 0 else Inl c, M))"
| "trie_spec (TGet w) M = (trie_get w M, M)"

lemma trie_exec_refines:
  assumes "trie_rel s M" "size M < 2 ^ 32"
  shows "fst (trie_exec op s) = fst (trie_spec op M) \<and> trie_rel (snd (trie_exec op s)) (snd (trie_spec op M)) \<and>
    size (snd (trie_spec op M)) \<le> Suc (size M)"
proof (cases op)
  case (TPut w)
  then show ?thesis using Trie_Put_refines [OF assms(1), of w]
    by (cases "lower w") (auto simp: trie_put_def split: prod.splits)
next
  case (TDel w)
  then show ?thesis using Trie_Del_refines [OF assms, of w]
    by (cases "lower w"; cases "w \<in># M") (auto simp: trie_del_def size_Diff_singleton split: prod.splits)
next
  case (TGet w)
  then show ?thesis using Trie_Get_refines [OF assms] assms(1) by simp
qed

lemma trie_run_refines:
  assumes "trie_rel s M" "size M + length ops < 2 ^ 32"
  shows "fst (run_ops trie_exec ops s) = fst (run_ops trie_spec ops M) \<and>
    trie_rel (snd (run_ops trie_exec ops s)) (snd (run_ops trie_spec ops M)) \<and>
    size (snd (run_ops trie_spec ops M)) \<le> size M + length ops"
  using assms
proof (induction ops arbitrary: s M)
  case (Cons op ops)
  have one: "fst (trie_exec op s) = fst (trie_spec op M)" "trie_rel (snd (trie_exec op s)) (snd (trie_spec op M))"
    "size (snd (trie_spec op M)) \<le> Suc (size M)" using trie_exec_refines [OF Cons.prems(1), of op] Cons.prems(2) by auto
  from Cons.IH [OF one(2)] one Cons.prems(2) show ?case by (auto simp: Let_def split: prod.splits)
qed simp

text \<open>C25: after \<open>Init\<close>, every sequence of fewer than \<open>2 ^ 32\<close> calls of \<open>Put\<close>, \<open>Del\<close> and \<open>Get\<close>
  returns what a multiset of words gives (\<open>2 ^ 32\<close> insertions would wrap a 32-bit counter): words with
  other characters are refused, and \<open>Del\<close> and \<open>Get\<close> fail on a word that is not stored. Despite the name
  \<open>full_word_frequency\<close> of its output parameter in the header, \<open>Get\<close> yields the number of stored words
  that begin with its key, longer words included. \<open>ToString\<close> appends to its output the stored words
  except the empty one, each once and in lexicographic order.\<close>
theorem Trie_multiset:
  assumes "length ops < 2 ^ 32"
  shows "\<exists>outs s M ws. run_ops trie_exec ops (snd (Trie_Init Trie_new)) = (outs, s) \<and> run_ops trie_spec ops {#} = (outs, M) \<and>
    Trie_ToString s info = Inr (info @ concat (map (\<lambda>w. w @ [10]) ws)) \<and>
    set ws = {w. w \<in># M \<and> lower w \<and> w \<noteq> []} \<and> sorted_wrt ord_class.lexordp ws"
proof -
  obtain outs s outs' M where runs: "run_ops trie_exec ops (snd (Trie_Init Trie_new)) = (outs, s)" "run_ops trie_spec ops {#} = (outs', M)"
    by (metis surj_pair)
  with trie_run_refines [OF trie_rel_Init, of ops Trie_new] assms have "outs = outs'" "trie_rel s M" "size M < 2 ^ 32" by auto
  with runs item_words_stored [of s M info] show ?thesis by blast
qed

theorem Trie_multiset_witness:
  "\<exists>outs s M ws. run_ops trie_exec [TPut [97], TPut [97, 98], TGet [97], TDel [97, 99], TPut [65]] (snd (Trie_Init Trie_new)) = (outs, s) \<and>
    run_ops trie_spec [TPut [97], TPut [97, 98], TGet [97], TDel [97, 99], TPut [65]] {#} = (outs, M) \<and>
    Trie_ToString s [33] = Inr ([33] @ concat (map (\<lambda>w. w @ [10]) ws)) \<and>
    set ws = {w. w \<in># M \<and> lower w \<and> w \<noteq> []} \<and> sorted_wrt ord_class.lexordp ws"
  by (rule Trie_multiset) simp

text \<open>\<open>Get\<close> does not yield the number of occurrences of the full word.\<close>

lemma Trie_Get_counts_prefix:
  "fst (run_ops trie_exec [TPut [97], TPut [97, 98], TGet [97]] (snd (Trie_Init Trie_new))) = [Inr 0, Inr 0, Inr 2]"
proof -
  have "lower [97]" "lower [97, 98]" by (simp_all add: CheckIsLowerCaseLetter_def)
  then show ?thesis
    using trie_run_refines [OF trie_rel_Init, of "[TPut [97], TPut [97, 98], TGet [97]]" Trie_new]
    by (simp add: trie_put_def trie_get_def)
qed

end
