(* ===== verification/Elevator_Sched.thy ===== *)
theory Elevator_Sched
  imports CS_Prelude "HOL-Library.Multiset"
begin

text \<open>
  The six scheduling algorithms of base/elevator: first come first served, shortest seek first, SCAN,
  LOOK, C-SCAN and C-LOOK. Floors and distances are 32-bit words; a result is the order of service and
  the total distance. \<open>serve_order\<close> is cleared by every function, so the result is a value.
\<close>

section \<open>Model\<close>

type_synonym floor = "32 word"

record ElevatorResult =
  er_serve_order :: "floor list"
  er_total_distance :: "32 word"

datatype ElevatorDirection = ElevatorUp | ElevatorDown

definition AbsDiff :: "floor \<Rightarrow> floor \<Rightarrow> 32 word" where
  "AbsDiff a b = (if b < a then a - b else b - a)"

text \<open>The loop that adds up the distances of a list of stops.\<close>

fun travel :: "floor \<Rightarrow> floor list \<Rightarrow> 32 word" where
  "travel pos [] = 0"
| "travel pos (f # fs) = AbsDiff pos f + travel f fs"

definition ElevatorFCFS :: "floor \<Rightarrow> floor list \<Rightarrow> ElevatorResult" where
  "ElevatorFCFS current_floor requests =
     \<lparr>er_serve_order = requests, er_total_distance = travel current_floor requests\<rparr>"

text \<open>The inner loop of SSTF: the smallest distance and the index where it was found.\<close>

fun nearest :: "floor \<Rightarrow> floor list \<Rightarrow> bool list \<Rightarrow> nat list \<Rightarrow> 32 word \<times> nat \<Rightarrow> 32 word \<times> nat" where
  "nearest pos requests visited [] best = best"
| "nearest pos requests visited (i # is) (min_dist, nearest_idx) =
     nearest pos requests visited is
       (if visited ! i then (min_dist, nearest_idx)
        else if AbsDiff pos (requests ! i) < min_dist then (AbsDiff pos (requests ! i), i)
        else (min_dist, nearest_idx))"

fun SSTF_loop :: "nat \<Rightarrow> floor \<Rightarrow> floor list \<Rightarrow> bool list \<Rightarrow> floor list \<times> 32 word" where
  "SSTF_loop 0 pos requests visited = ([], 0)"
| "SSTF_loop (Suc k) pos requests visited =
     (let (min_dist, nearest_idx) = nearest pos requests visited [0..<length requests] (- 1, 0);
          (order, total) = SSTF_loop k (requests ! nearest_idx) requests (visited[nearest_idx := True])
      in (requests ! nearest_idx # order, min_dist + total))"

definition ElevatorSSTF :: "floor \<Rightarrow> floor list \<Rightarrow> ElevatorResult" where
  "ElevatorSSTF current_floor requests =
     (let (order, total) = SSTF_loop (length requests) current_floor requests (replicate (length requests) False)
      in \<lparr>er_serve_order = order, er_total_distance = total\<rparr>)"

text \<open>The requests below the current floor and the others, both ascending.\<close>

definition lower_part :: "floor \<Rightarrow> floor list \<Rightarrow> floor list" where
  "lower_part current_floor requests = filter (\<lambda>f. f < current_floor) (sort requests)"

definition upper_part :: "floor \<Rightarrow> floor list \<Rightarrow> floor list" where
  "upper_part current_floor requests = filter (\<lambda>f. \<not> f < current_floor) (sort requests)"

definition ElevatorSCAN :: "floor \<Rightarrow> ElevatorDirection \<Rightarrow> floor list \<Rightarrow> floor \<Rightarrow> ElevatorResult res" where
  "ElevatorSCAN current_floor direction requests max_floor =
     (if max_floor < current_floor then Inl kInvalidParam
      else
        let lower = lower_part current_floor requests; upper = upper_part current_floor requests;
            stops = (case direction of
                ElevatorUp \<Rightarrow> upper @ (if lower \<noteq> [] then max_floor # rev lower else [])
              | ElevatorDown \<Rightarrow> rev lower @ (if upper \<noteq> [] then 0 # upper else []))
        in Inr \<lparr>er_serve_order = filter (\<lambda>f. f \<in> set requests) stops, er_total_distance = travel current_floor stops\<rparr>)"

definition ElevatorLOOK :: "floor \<Rightarrow> ElevatorDirection \<Rightarrow> floor list \<Rightarrow> ElevatorResult" where
  "ElevatorLOOK current_floor direction requests =
     (let lower = lower_part current_floor requests; upper = upper_part current_floor requests;
          stops = (case direction of ElevatorUp \<Rightarrow> upper @ rev lower | ElevatorDown \<Rightarrow> rev lower @ upper)
      in \<lparr>er_serve_order = stops, er_total_distance = travel current_floor stops\<rparr>)"

text \<open>The position after a list of stops.\<close>

definition last_stop :: "floor \<Rightarrow> floor list \<Rightarrow> floor" where
  "last_stop pos fs = (if fs = [] then pos else last fs)"

definition ElevatorCSCAN :: "floor \<Rightarrow> ElevatorDirection \<Rightarrow> floor list \<Rightarrow> floor \<Rightarrow> ElevatorResult res" where
  "ElevatorCSCAN current_floor direction requests max_floor =
     (if max_floor < current_floor then Inl kInvalidParam
      else
        let lower = lower_part current_floor requests; upper = upper_part current_floor requests
        in Inr (case direction of
            ElevatorUp \<Rightarrow>
              \<lparr>er_serve_order = upper @ lower,
               er_total_distance = travel current_floor upper +
                 (if lower \<noteq> [] then AbsDiff (last_stop current_floor upper) max_floor + travel 0 lower else 0)\<rparr>
          | ElevatorDown \<Rightarrow>
              \<lparr>er_serve_order = rev lower @ rev upper,
               er_total_distance = travel current_floor (rev lower) +
                 (if upper \<noteq> [] then AbsDiff (last_stop current_floor (rev lower)) 0 + travel max_floor (rev upper) else 0)\<rparr>))"

definition ElevatorCLOOK :: "floor \<Rightarrow> ElevatorDirection \<Rightarrow> floor list \<Rightarrow> ElevatorResult" where
  "ElevatorCLOOK current_floor direction requests =
     (let lower = lower_part current_floor requests; upper = upper_part current_floor requests
      in case direction of
          ElevatorUp \<Rightarrow>
            \<lparr>er_serve_order = upper @ lower,
             er_total_distance = travel current_floor upper + (if lower \<noteq> [] then travel (lower ! 0) lower else 0)\<rparr>
        | ElevatorDown \<Rightarrow>
            \<lparr>er_serve_order = rev lower @ rev upper,
             er_total_distance = travel current_floor (rev lower) +
               (if upper \<noteq> [] then travel (upper ! (length upper - 1)) (rev upper) else 0)\<rparr>)"

section \<open>Every request is served once\<close>

lemma mset_parts: "mset (upper_part c rs) + mset (lower_part c rs) = mset rs"
  by (metis add.commute lower_part_def mset_filter mset_sort multiset_partition upper_part_def)

lemma parts_sorted: "sorted (lower_part c rs)" "sorted (upper_part c rs)"
  using sorted_filter [of "\<lambda>x. x" "sort rs"] by (simp_all add: lower_part_def upper_part_def)

lemma set_parts: "set (lower_part c rs) = {f \<in> set rs. f < c}" "set (upper_part c rs) = {f \<in> set rs. c \<le> f}"
  by (auto simp: lower_part_def upper_part_def)

lemma filter_all: "set xs \<subseteq> set rs \<Longrightarrow> filter (\<lambda>f. f \<in> set rs) xs = xs"
  by (auto simp: filter_id_conv)

lemma SCAN_order:
  assumes "\<not> max_floor < c" "case d of ElevatorUp \<Rightarrow> max_floor \<notin> set rs | ElevatorDown \<Rightarrow> 0 \<notin> set rs"
  shows "\<exists>r. ElevatorSCAN c d rs max_floor = Inr r \<and> er_serve_order r = er_serve_order (ElevatorLOOK c d rs)"
  using assms set_parts [of c rs] filter_all [of "upper_part c rs" rs] filter_all [of "lower_part c rs" rs]
    filter_all [of "rev (lower_part c rs)" rs]
  by (auto simp: ElevatorSCAN_def ElevatorLOOK_def Let_def split: ElevatorDirection.splits)

section \<open>Shortest seek first\<close>

lemma nearest_correct:
  assumes "\<forall>i \<in> set is. \<not> visited ! i \<longrightarrow> AbsDiff pos (requests ! i) < - 1 \<or> m < - 1"
    and "nearest pos requests visited is (m, k) = (m', k')"
  shows "m' \<le> m \<and> (\<forall>i \<in> set is. \<not> visited ! i \<longrightarrow> m' \<le> AbsDiff pos (requests ! i)) \<and>
    ((m', k') = (m, k) \<or> k' \<in> set is \<and> \<not> visited ! k' \<and> m' = AbsDiff pos (requests ! k'))"
  using assms
proof (induction "is" arbitrary: m k)
  case (Cons i "is")
  let ?d = "AbsDiff pos (requests ! i)"
  let ?m = "if visited ! i then m else if ?d < m then ?d else m" and ?k = "if visited ! i then k else if ?d < m then i else k"
  have step: "nearest pos requests visited is (?m, ?k) = (m', k')" using Cons.prems(2) by (simp split: if_splits)
  have "\<forall>i \<in> set is. \<not> visited ! i \<longrightarrow> AbsDiff pos (requests ! i) < - 1 \<or> ?m < - 1"
    using Cons.prems(1) by (auto split: if_splits dest: less_trans)
  from Cons.IH [OF this step] show ?case by (auto split: if_splits dest: order_trans less_imp_le)
qed simp

text \<open>The requests that are not visited yet.\<close>

definition remaining :: "floor list \<Rightarrow> bool list \<Rightarrow> floor multiset" where
  "remaining requests visited = mset (map fst (filter (\<lambda>(f, v). \<not> v) (zip requests visited)))"

lemma remaining_nth:
  assumes "length visited = length requests" "i < length requests" "\<not> visited ! i"
  shows "remaining requests visited = add_mset (requests ! i) (remaining requests (visited[i := True]))"
  using assms
proof (induction requests visited arbitrary: i rule: list_induct2')
  case (4 r rs v vs)
  then show ?case by (cases i) (auto simp: remaining_def)
qed (auto simp: remaining_def)

lemma in_remaining: "f \<in># remaining requests visited \<Longrightarrow> length visited = length requests \<Longrightarrow>
    \<exists>i < length requests. \<not> visited ! i \<and> requests ! i = f"
  by (auto simp: remaining_def set_zip)

lemma size_remaining_pos: "remaining requests visited \<noteq> {#} \<Longrightarrow> \<exists>f. f \<in># remaining requests visited"
  by (metis multiset_nonemptyE)

fun greedy :: "floor \<Rightarrow> floor multiset \<Rightarrow> floor list \<Rightarrow> bool" where
  "greedy pos M [] \<longleftrightarrow> M = {#}"
| "greedy pos M (f # fs) \<longleftrightarrow>
     f \<in># M \<and> (\<forall>g \<in># M. AbsDiff pos f \<le> AbsDiff pos g) \<and> greedy f (M - {#f#}) fs"

lemma greedy_mset: "greedy pos M fs \<Longrightarrow> mset fs = M"
  by (induction pos M fs rule: greedy.induct) (auto simp: insert_DiffM)

lemma unat_AbsDiff: "unat (AbsDiff a b) = (if unat b < unat a then unat a - unat b else unat b - unat a)"
proof (cases "b < a")
  case True
  then have "b \<le> a" by simp
  then have "unat (a - b) = unat a - unat b" "unat b \<le> unat a" by (simp_all add: unat_sub word_le_nat_alt)
  then show ?thesis using True by (simp add: AbsDiff_def)
next
  case False
  then have "a \<le> b" by simp
  then have "unat (b - a) = unat b - unat a" "unat a \<le> unat b" by (simp_all add: unat_sub word_le_nat_alt)
  then show ?thesis using False by (simp add: AbsDiff_def)
qed

lemma unat_minus_1: "unat (- 1 :: 32 word) = 4294967295"
  by (simp add: unsigned_minus_1_eq_mask mask_eq_exp_minus_1)

lemma AbsDiff_max: "AbsDiff a b < - 1 \<longleftrightarrow> \<not> (a = 0 \<and> b = - 1 \<or> a = - 1 \<and> b = 0)"
proof -
  have "unat a < 4294967296" "unat b < 4294967296"
    using unsigned_less [where 'a = nat, of a] unsigned_less [where 'a = nat, of b] by simp_all
  then have "(if unat b < unat a then unat a - unat b else unat b - unat a) < 4294967295 \<longleftrightarrow>
      \<not> (unat a = 0 \<and> unat b = 4294967295 \<or> unat a = 4294967295 \<and> unat b = 0)" by (cases "unat b < unat a") auto
  then show ?thesis by (simp only: word_less_nat_alt unat_AbsDiff unat_minus_1 word_unat_eq_iff unat_0)
qed

definition near_floors :: "floor set \<Rightarrow> bool" where
  "near_floors F \<longleftrightarrow> \<not> (0 \<in> F \<and> - 1 \<in> F)"

lemma SSTF_loop_greedy:
  assumes "length visited = length requests" "size (remaining requests visited) = k"
    and "near_floors (insert pos (set requests))"
  shows "greedy pos (remaining requests visited) (fst (SSTF_loop k pos requests visited)) \<and>
    snd (SSTF_loop k pos requests visited) = travel pos (fst (SSTF_loop k pos requests visited))"
  using assms
proof (induction k arbitrary: pos visited)
  case (Suc k)
  obtain m j where near: "nearest pos requests visited [0..<length requests] (- 1, 0) = (m, j)" by fastforce
  have small: "AbsDiff pos (requests ! i) < - 1" if "i < length requests" for i
    using Suc.prems(3) nth_mem [OF that] unfolding AbsDiff_max near_floors_def by auto
  have nc: "\<And>i. i < length requests \<Longrightarrow> \<not> visited ! i \<Longrightarrow> m \<le> AbsDiff pos (requests ! i)"
    "(m, j) = (- 1, 0) \<or> j < length requests \<and> \<not> visited ! j \<and> m = AbsDiff pos (requests ! j)"
    using nearest_correct [OF _ near] small by simp_all
  obtain f where "f \<in># remaining requests visited" using size_remaining_pos Suc.prems(2) by fastforce
  then obtain i where i: "i < length requests" "\<not> visited ! i" using in_remaining Suc.prems(1) by blast
  then have "m < - 1" using nc(1) small by (meson le_less_trans)
  then have j: "j < length requests" "\<not> visited ! j" "m = AbsDiff pos (requests ! j)" using nc(2) by (blast, blast, blast)
  let ?v = "visited[j := True]"
  have rem: "remaining requests visited = add_mset (requests ! j) (remaining requests ?v)"
    using remaining_nth Suc.prems(1) j by blast
  have "near_floors (insert (requests ! j) (set requests))" using Suc.prems(3) nth_mem [OF j(1)] by (auto simp: near_floors_def)
  then have IH: "greedy (requests ! j) (remaining requests ?v) (fst (SSTF_loop k (requests ! j) requests ?v)) \<and>
      snd (SSTF_loop k (requests ! j) requests ?v) = travel (requests ! j) (fst (SSTF_loop k (requests ! j) requests ?v))"
    using Suc.IH [of ?v "requests ! j"] Suc.prems(1,2) rem by simp
  have least: "AbsDiff pos (requests ! j) \<le> AbsDiff pos g" if "g \<in># remaining requests visited" for g
    using in_remaining [OF that Suc.prems(1)] nc(1) j(3) by auto
  show ?case using near IH rem least j(3) by (simp add: case_prod_beta Let_def)
qed (simp add: remaining_def)

section \<open>Distances\<close>

text \<open>The length of a path, without wrap-around.\<close>

fun path :: "nat \<Rightarrow> nat list \<Rightarrow> nat" where
  "path p [] = 0"
| "path p (f # fs) = (if f < p then p - f else f - p) + path f fs"

lemma unat_travel: "unat (travel p fs) = path (unat p) (map unat fs) mod 2 ^ 32"
  by (induction p fs rule: travel.induct) (simp_all add: unat_word_ariths unat_AbsDiff mod_add_right_eq)

lemma path_detour: "path p (xs @ ys) \<le> path p (xs @ z # ys)"
proof (induction xs arbitrary: p)
  case Nil
  show ?case by (cases ys) auto
qed auto

lemma path_up: "sorted (p # xs) \<Longrightarrow> (\<forall>x \<in> set (p # xs). x \<le> m) \<Longrightarrow> path p (xs @ m # ys) = (m - p) + path m ys"
  by (induction xs arbitrary: p) auto

lemma path_down: "sorted_wrt (\<ge>) (p # xs) \<Longrightarrow> (\<forall>x \<in> set (p # xs). m \<le> x) \<Longrightarrow> path p (xs @ m # ys) = (p - m) + path m ys"
  by (induction xs arbitrary: p) auto

lemma path_up_bound: "sorted (p # xs) \<Longrightarrow> \<forall>x \<in> set (p # xs). x \<le> m \<Longrightarrow> path p xs \<le> m - p"
proof (induction xs arbitrary: p)
  case (Cons x xs)
  then have "path x xs \<le> m - x" "p \<le> x" "x \<le> m" by simp_all
  then show ?case by simp
qed simp

lemma path_down_bound: "sorted_wrt (\<ge>) (p # xs) \<Longrightarrow> path p xs \<le> p"
proof (induction xs arbitrary: p)
  case (Cons x xs)
  then have "path x xs \<le> x" "x \<le> p" by simp_all
  then show ?case by (cases "x = p") simp_all
qed simp

section \<open>LOOK and SCAN\<close>

lemma sorted_map_unat: "sorted (map unat xs) \<longleftrightarrow> sorted (xs :: floor list)"
  by (simp add: sorted_wrt_map word_le_nat_alt [symmetric])

definition LOOK_stops :: "floor \<Rightarrow> ElevatorDirection \<Rightarrow> floor list \<Rightarrow> floor list \<times> floor list" where
  "LOOK_stops c d rs = (case d of ElevatorUp \<Rightarrow> (upper_part c rs, rev (lower_part c rs))
     | ElevatorDown \<Rightarrow> (rev (lower_part c rs), upper_part c rs))"

lemma LOOK_by_stops: "ElevatorLOOK c d rs =
    \<lparr>er_serve_order = fst (LOOK_stops c d rs) @ snd (LOOK_stops c d rs),
     er_total_distance = travel c (fst (LOOK_stops c d rs) @ snd (LOOK_stops c d rs))\<rparr>"
  by (simp add: ElevatorLOOK_def LOOK_stops_def Let_def split: ElevatorDirection.splits)

lemma SCAN_by_stops:
  assumes "\<not> m < c"
  shows "\<exists>r. ElevatorSCAN c d rs m = Inr r \<and> er_total_distance r = travel c (fst (LOOK_stops c d rs) @
    (if snd (LOOK_stops c d rs) \<noteq> [] then (case d of ElevatorUp \<Rightarrow> m | ElevatorDown \<Rightarrow> 0) # snd (LOOK_stops c d rs) else []))"
  using assms by (simp add: ElevatorSCAN_def LOOK_stops_def Let_def split: ElevatorDirection.splits)

text \<open>The path of SCAN is at most twice the height.\<close>

lemma SCAN_path_bound:
  assumes "c \<le> m" "\<forall>f \<in> set rs. f \<le> m"
  shows "path (unat c) (map unat (fst (LOOK_stops c d rs) @ (case d of ElevatorUp \<Rightarrow> m | ElevatorDown \<Rightarrow> 0) # snd (LOOK_stops c d rs)))
    \<le> 2 * unat m"
proof -
  let ?u = "map unat (upper_part c rs)" and ?l = "map unat (lower_part c rs)"
  have su: "sorted ?u" "sorted ?l" using parts_sorted [of c rs] by (simp_all only: sorted_map_unat)
  have in_u: "\<forall>x \<in> set ?u. unat c \<le> x \<and> x \<le> unat m" and in_l: "\<forall>x \<in> set ?l. x < unat c"
    using assms(2) by (auto simp: set_parts word_le_nat_alt word_less_nat_alt)
  have c: "unat c \<le> unat m" using assms(1) by (simp add: word_le_nat_alt)
  show ?thesis
  proof (cases d)
    case ElevatorUp
    have "path (unat c) (?u @ unat m # rev ?l) = (unat m - unat c) + path (unat m) (rev ?l)"
      by (rule path_up) (use su in_u c in auto)
    moreover have "path (unat m) (rev ?l) \<le> unat m"
      by (rule path_down_bound) (use su in_l c in \<open>auto simp: sorted_wrt_rev\<close>)
    ultimately show ?thesis by (simp add: ElevatorUp LOOK_stops_def rev_map)
  next
    case ElevatorDown
    have "path (unat c) (rev ?l @ 0 # ?u) = (unat c - 0) + path 0 ?u"
      by (rule path_down) (use su in_l in \<open>auto simp: sorted_wrt_rev\<close>)
    moreover have "path 0 ?u \<le> unat m - 0" by (rule path_up_bound) (use su in_u in auto)
    ultimately show ?thesis using c by (simp add: ElevatorDown LOOK_stops_def rev_map)
  qed
qed

section \<open>Properties\<close>

text \<open>C26: FCFS, LOOK and C-LOOK serve exactly the requests, each as often as it was made, FCFS in the
  order of arrival and the other two in a permutation. C-SCAN does so when the current floor is at most
  the maximal floor (otherwise it refuses the call). SCAN visits an end floor on the way: under the same
  condition, and when no request is for that end floor, it serves in the order of LOOK. SSTF is not
  among them: it is the subject of the next property.\<close>
theorem Elevator_serves_all:
  "er_serve_order (ElevatorFCFS c rs) = rs \<and>
   mset (er_serve_order (ElevatorLOOK c d rs)) = mset rs \<and>
   mset (er_serve_order (ElevatorCLOOK c d rs)) = mset rs \<and>
   (c \<le> m \<longrightarrow> (\<exists>r. ElevatorCSCAN c d rs m = Inr r \<and> mset (er_serve_order r) = mset rs)) \<and>
   (c \<le> m \<longrightarrow> (case d of ElevatorUp \<Rightarrow> m | ElevatorDown \<Rightarrow> 0) \<notin> set rs \<longrightarrow>
     (\<exists>r. ElevatorSCAN c d rs m = Inr r \<and> er_serve_order r = er_serve_order (ElevatorLOOK c d rs)))"
proof -
  have swap: "mset (lower_part c rs) + mset (upper_part c rs) = mset rs" using mset_parts by (simp add: add.commute)
  have look: "mset (er_serve_order (ElevatorLOOK c d rs)) = mset rs"
    by (cases d) (simp_all add: ElevatorLOOK_def Let_def mset_parts swap)
  have clook: "mset (er_serve_order (ElevatorCLOOK c d rs)) = mset rs"
    by (cases d) (simp_all add: ElevatorCLOOK_def Let_def mset_parts swap)
  have cscan: "c \<le> m \<Longrightarrow> \<exists>r. ElevatorCSCAN c d rs m = Inr r \<and> mset (er_serve_order r) = mset rs"
    by (cases d) (simp_all add: ElevatorCSCAN_def Let_def mset_parts swap not_less)
  show ?thesis using look clook cscan SCAN_order [where max_floor = m and c = c and d = d and rs = rs]
    by (auto simp: ElevatorFCFS_def not_less split: ElevatorDirection.splits)
qed

theorem Elevator_serves_all_witness:
  "\<exists>r. ElevatorSCAN 5 ElevatorUp [7, 2] 9 = Inr r \<and> er_serve_order r = er_serve_order (ElevatorLOOK 5 ElevatorUp [7, 2])"
  using Elevator_serves_all [of 5 "[7, 2]" ElevatorUp 9] by (simp add: word_le_nat_alt)

text \<open>C27: SSTF serves every request once and always goes to a request that is nearest to where the lift is;
  its distance is the length of that path (modulo the word size). The floors 0 and 2^32-1 must not
  both occur: their distance is the initial value of the search for the minimum.\<close>
theorem SSTF_greedy:
  assumes "near_floors (insert c (set rs))"
  shows "greedy c (mset rs) (er_serve_order (ElevatorSSTF c rs)) \<and>
    mset (er_serve_order (ElevatorSSTF c rs)) = mset rs \<and>
    er_total_distance (ElevatorSSTF c rs) = travel c (er_serve_order (ElevatorSSTF c rs))"
proof -
  have "zip rs (replicate (length rs) False) = map (\<lambda>r. (r, False)) rs" by (induction rs) auto
  then have rem: "remaining rs (replicate (length rs) False) = mset rs" by (simp add: remaining_def comp_def)
  from SSTF_loop_greedy [of "replicate (length rs) False" rs "length rs" c] assms
  have "greedy c (mset rs) (er_serve_order (ElevatorSSTF c rs)) \<and>
      er_total_distance (ElevatorSSTF c rs) = travel c (er_serve_order (ElevatorSSTF c rs))"
    by (simp add: rem ElevatorSSTF_def case_prod_beta Let_def)
  then show ?thesis using greedy_mset by blast
qed

theorem SSTF_greedy_witness: "greedy 10 (mset [14, 9, 30]) (er_serve_order (ElevatorSSTF 10 [14, 9, 30]))"
  using SSTF_greedy [of 10 "[14, 9, 30]"] by (simp add: near_floors_def)

text \<open>on floors up to the top one, LOOK never travels farther than SCAN, and neither distance wraps as
  long as twice the height fits into 32 bits.\<close>
theorem LOOK_not_longer_than_SCAN:
  assumes "c \<le> m" "\<forall>f \<in> set rs. f \<le> m" "unat m < 2 ^ 31"
  shows "\<exists>r. ElevatorSCAN c d rs m = Inr r \<and> er_total_distance (ElevatorLOOK c d rs) \<le> er_total_distance r \<and>
    unat (er_total_distance (ElevatorLOOK c d rs)) = path (unat c) (map unat (er_serve_order (ElevatorLOOK c d rs)))"
proof -
  let ?a = "fst (LOOK_stops c d rs)" and ?b = "snd (LOOK_stops c d rs)"
  let ?e = "case d of ElevatorUp \<Rightarrow> m | ElevatorDown \<Rightarrow> 0"
  let ?stops = "?a @ (if ?b \<noteq> [] then ?e # ?b else [])"
  obtain r where r: "ElevatorSCAN c d rs m = Inr r" "er_total_distance r = travel c ?stops"
    using SCAN_by_stops [of m c d rs] assms(1) by (auto simp: not_less)
  have longer: "path (unat c) (map unat (?a @ ?b)) \<le> path (unat c) (map unat (?a @ ?e # ?b))"
    using path_detour [of "unat c" "map unat ?a" "map unat ?b" "unat ?e"] by simp
  moreover have "path (unat c) (map unat (?a @ ?e # ?b)) \<le> 2 * unat m" by (rule SCAN_path_bound [OF assms(1,2)])
  ultimately have bound: "path (unat c) (map unat (?a @ ?b)) < 2 ^ 32" "path (unat c) (map unat (?a @ ?e # ?b)) < 2 ^ 32"
    using assms(3) by simp_all
  have look: "unat (er_total_distance (ElevatorLOOK c d rs)) = path (unat c) (map unat (?a @ ?b))"
    using bound(1) by (simp add: LOOK_by_stops unat_travel)
  have scan: "unat (er_total_distance r) = path (unat c) (map unat ?stops)"
    using bound by (cases "?b = []") (simp_all add: r(2) unat_travel)
  have "path (unat c) (map unat (?a @ ?b)) \<le> path (unat c) (map unat ?stops)"
    using longer by (cases "?b = []") simp_all
  then have "er_total_distance (ElevatorLOOK c d rs) \<le> er_total_distance r" by (simp add: word_le_nat_alt look scan)
  with r(1) look show ?thesis by (simp add: LOOK_by_stops)
qed

theorem LOOK_not_longer_than_SCAN_witness:
  "\<exists>r. ElevatorSCAN 5 ElevatorUp [7, 2] 9 = Inr r \<and>
    er_total_distance (ElevatorLOOK 5 ElevatorUp [7, 2]) \<le> er_total_distance r \<and>
    unat (er_total_distance (ElevatorLOOK 5 ElevatorUp [7, 2])) = path (unat (5 :: floor)) (map unat (er_serve_order (ElevatorLOOK 5 ElevatorUp [7, 2])))"
  by (rule LOOK_not_longer_than_SCAN) (simp_all add: word_le_nat_alt)

text \<open>SCAN lists a request for its end floor twice.\<close>

lemma SCAN_serves_end_twice:
  "\<exists>r. ElevatorSCAN 5 ElevatorUp [9, 2] 9 = Inr r \<and> er_serve_order r = [9, 9, 2]"
  by (simp add: ElevatorSCAN_def upper_part_def lower_part_def word_less_nat_alt word_le_nat_alt)

text \<open>SSTF serves a request again instead of one at the largest possible distance.\<close>

lemma SSTF_misses_far_floor:
  "er_serve_order (ElevatorSSTF 0 [0, - 1]) = [0, 0]"
  by (simp add: ElevatorSSTF_def upt_rec AbsDiff_def word_less_nat_alt unat_minus_1 Let_def)

end
