(* ===== verification/My_Heap.thy ===== *)
theory My_Heap
  imports "HOL-Library.Multiset"
begin

text \<open>
  The binary heaps of mystl/my_heap.h and the priority queue of mystl/my_priority_queue.h over them. A
  range of iterators is the first \<open>n\<close> elements of a list; the element type is a linear order, whose
  \<open><\<close> and \<open>>=\<close> are the operators the templates use.
\<close>

section \<open>Model\<close>

definition parent :: "nat \<Rightarrow> nat" where "parent i = (i - 1) div 2"

lemma parent_less: "0 < i \<Longrightarrow> parent i < i"
  by (simp add: parent_def)

definition my_swap :: "nat \<Rightarrow> nat \<Rightarrow> 'a list \<Rightarrow> 'a list" where
  "my_swap i j xs = xs[i := xs ! j, j := xs ! i]"

function push_loop :: "'a::linorder list \<Rightarrow> nat \<Rightarrow> 'a \<Rightarrow> 'a list" where
  "push_loop xs hole val =
     (if 0 < hole \<and> xs ! parent hole < val then push_loop (xs[hole := xs ! parent hole]) (parent hole) val
      else xs[hole := val])"
  by pat_completeness auto
termination by (relation "measure (\<lambda>(xs, hole, val). hole)") (auto simp: parent_less)

declare push_loop.simps [simp del]

text \<open>The value has been put at the end of the range before.\<close>

definition my_push_heap :: "nat \<Rightarrow> 'a::linorder list \<Rightarrow> 'a list" where
  "my_push_heap n xs = push_loop xs (n - 1) (xs ! (n - 1))"

function my_adjust_heap :: "'a::linorder list \<Rightarrow> nat \<Rightarrow> nat \<Rightarrow> 'a list" where
  "my_adjust_heap xs hole len =
     (let second = 2 * hole + 2 in
      if second < len then
        (let second = (if xs ! second < xs ! (second - 1) then second - 1 else second) in
         if xs ! second \<le> xs ! hole then xs
         else my_adjust_heap (my_swap hole second xs) second len)
      else if second = len \<and> xs ! hole < xs ! (second - 1) then my_swap hole (second - 1) xs
      else xs)"
  by pat_completeness auto
termination by (relation "measure (\<lambda>(xs, hole, len). len - hole)") (auto split: if_splits)

declare my_adjust_heap.simps [simp del]

definition my_pop_heap :: "nat \<Rightarrow> 'a::linorder list \<Rightarrow> 'a list" where
  "my_pop_heap n xs =
     (let val = xs ! (n - 1); xs = xs[n - 1 := xs ! 0]; xs = xs[0 := val] in my_adjust_heap xs 0 (n - 1))"

fun make_loop :: "'a::linorder list \<Rightarrow> nat \<Rightarrow> nat \<Rightarrow> 'a list" where
  "make_loop xs 0 len = my_adjust_heap xs 0 len"
| "make_loop xs (Suc p) len = make_loop (my_adjust_heap xs (Suc p) len) p len"

definition my_make_heap :: "nat \<Rightarrow> 'a::linorder list \<Rightarrow> 'a list" where
  "my_make_heap n xs = (if n < 2 then xs else make_loop xs ((n - 2) div 2) n)"

fun my_sort_heap :: "nat \<Rightarrow> 'a::linorder list \<Rightarrow> 'a list" where
  "my_sort_heap 0 xs = xs"
| "my_sort_heap (Suc n) xs = (if n = 0 then xs else my_sort_heap n (my_pop_heap (Suc n) xs))"

section \<open>Permutations\<close>

lemma length_my_swap [simp]: "length (my_swap i j xs) = length xs"
  by (simp add: my_swap_def)

lemma mset_my_swap [simp]: "i < length xs \<Longrightarrow> j < length xs \<Longrightarrow> mset (my_swap i j xs) = mset xs"
  by (simp add: my_swap_def mset_swap)

lemma my_swap_nth:
  "i < length xs \<Longrightarrow> j < length xs \<Longrightarrow> my_swap i j xs ! k = (if k = j then xs ! i else if k = i then xs ! j else xs ! k)"
  by (auto simp: my_swap_def nth_list_update)

text \<open>The steps of \<open>my_adjust_heap\<close>, with the larger child.\<close>

definition big_child :: "'a::linorder list \<Rightarrow> nat \<Rightarrow> nat" where
  "big_child xs hole = (if xs ! (2 * hole + 2) < xs ! (2 * hole + 1) then 2 * hole + 1 else 2 * hole + 2)"

lemma adjust_unfold:
  "my_adjust_heap xs hole len =
    (if 2 * hole + 2 < len then
       (if xs ! big_child xs hole \<le> xs ! hole then xs
        else my_adjust_heap (my_swap hole (big_child xs hole) xs) (big_child xs hole) len)
     else if 2 * hole + 2 = len \<and> xs ! hole < xs ! (2 * hole + 1) then my_swap hole (2 * hole + 1) xs
     else xs)"
  by (subst my_adjust_heap.simps) (auto simp: Let_def big_child_def)

lemma adjust_down:
  "2 * hole + 2 < len \<Longrightarrow> \<not> xs ! big_child xs hole \<le> xs ! hole \<Longrightarrow>
    my_adjust_heap xs hole len = my_adjust_heap (my_swap hole (big_child xs hole) xs) (big_child xs hole) len"
  by (subst adjust_unfold) simp

lemma adjust_stop: "2 * hole + 2 < len \<Longrightarrow> xs ! big_child xs hole \<le> xs ! hole \<Longrightarrow> my_adjust_heap xs hole len = xs"
  by (subst adjust_unfold) simp

lemma adjust_last: "2 * hole + 2 = len \<Longrightarrow>
    my_adjust_heap xs hole len = (if xs ! hole < xs ! (2 * hole + 1) then my_swap hole (2 * hole + 1) xs else xs)"
  by (subst adjust_unfold) simp

lemma adjust_leaf: "len < 2 * hole + 2 \<Longrightarrow> my_adjust_heap xs hole len = xs"
  by (subst adjust_unfold) simp

lemma big_child_bounds: "2 * hole + 2 < len \<Longrightarrow> hole < big_child xs hole \<and> big_child xs hole < len"
  by (simp add: big_child_def)

lemma big_child_max: "xs ! (2 * hole + 1) \<le> xs ! big_child xs hole" "xs ! (2 * hole + 2) \<le> xs ! big_child xs hole"
  by (auto simp: big_child_def)

text \<open>Induction along the way down.\<close>

lemma adjust_induct [case_names Down Stop Last Leaf]:
  assumes "\<And>xs hole. 2 * hole + 2 < len \<Longrightarrow> \<not> xs ! big_child xs hole \<le> xs ! hole \<Longrightarrow>
      P (my_swap hole (big_child xs hole) xs) (big_child xs hole) \<Longrightarrow> P xs hole"
    and "\<And>xs hole. 2 * hole + 2 < len \<Longrightarrow> xs ! big_child xs hole \<le> xs ! hole \<Longrightarrow> P xs hole"
    and "\<And>xs hole. 2 * hole + 2 = len \<Longrightarrow> P xs hole"
    and "\<And>xs hole. len < 2 * hole + 2 \<Longrightarrow> P xs hole"
  shows "P (xs :: 'a::linorder list) hole"
proof (induction "len - hole" arbitrary: xs hole rule: less_induct)
  case less
  show ?case
  proof (cases "2 * hole + 2 < len")
    case True
    then have "len - big_child xs hole < len - hole" using big_child_bounds [OF True, of xs] by linarith
    then show ?thesis using less assms(1,2) True by blast
  qed (use assms(3,4) in \<open>metis linorder_neqE_nat\<close>)
qed

lemma my_adjust_heap_mset:
  assumes "len \<le> length xs"
  shows "mset (my_adjust_heap xs hole len) = mset xs \<and> length (my_adjust_heap xs hole len) = length xs \<and>
    (\<forall>k. len \<le> k \<or> k < hole \<longrightarrow> my_adjust_heap xs hole len ! k = xs ! k)"
  using assms
proof (induction xs hole rule: adjust_induct [where len = len])
  case (Down xs hole)
  let ?ys = "my_swap hole (big_child xs hole) xs"
  note b = big_child_bounds [OF Down(1), of xs]
  then have in_range: "hole < length xs" "big_child xs hole < length xs" using Down(4) by simp_all
  have "mset (my_adjust_heap ?ys (big_child xs hole) len) = mset ?ys \<and>
      length (my_adjust_heap ?ys (big_child xs hole) len) = length ?ys \<and>
      (\<forall>k. len \<le> k \<or> k < big_child xs hole \<longrightarrow> my_adjust_heap ?ys (big_child xs hole) len ! k = ?ys ! k)"
    using Down(3,4) by simp
  moreover have "?ys ! k = xs ! k" if "len \<le> k \<or> k < hole" for k
    using that b by (auto simp: my_swap_nth [OF in_range])
  moreover have "k < hole \<Longrightarrow> k < big_child xs hole" for k using b by linarith
  ultimately show ?case unfolding adjust_down [OF Down(1,2)] using in_range by auto
next
  case (Last xs hole)
  then have "hole < length xs" "2 * hole + 1 < length xs" by simp_all
  then show ?case using Last(1) my_swap_nth [of hole xs "2 * hole + 1"]
    unfolding adjust_last [OF Last(1)] by (auto split: if_splits)
next
  case (Stop xs hole)
  then show ?case unfolding adjust_stop [OF Stop(1,2)] by simp
next
  case (Leaf xs hole)
  then show ?case unfolding adjust_leaf [OF Leaf(1)] by simp
qed

lemma push_loop_step:
  "0 < hole \<Longrightarrow> xs ! parent hole < val \<Longrightarrow> push_loop xs hole val = push_loop (xs[hole := xs ! parent hole]) (parent hole) val"
  "\<not> (0 < hole \<and> xs ! parent hole < val) \<Longrightarrow> push_loop xs hole val = xs[hole := val]"
  using push_loop.simps [of xs hole val] by (simp, simp, blast)

lemma mset_move:
  assumes "i < length xs" "j < length xs" "i \<noteq> j"
  shows "mset (xs[j := xs ! i, i := v]) = mset (xs[j := v])"
proof -
  have "my_swap i j (xs[j := v]) = xs[j := v, i := v, j := xs ! i]" using assms by (simp add: my_swap_def)
  also have "\<dots> = xs[j := xs ! i, i := v]" using assms by (metis list_update_overwrite list_update_swap)
  finally show ?thesis using mset_my_swap [of i "xs[j := v]" j] assms by simp
qed

lemma push_loop_mset:
  "hole < length xs \<Longrightarrow> mset (push_loop xs hole val) = mset (xs[hole := val]) \<and>
    length (push_loop xs hole val) = length xs \<and> (\<forall>k. hole < k \<longrightarrow> push_loop xs hole val ! k = xs ! k)"
proof (induction xs hole val rule: push_loop.induct)
  case (1 xs hole val)
  show ?case
  proof (cases "0 < hole \<and> xs ! parent hole < val")
    case True
    then have p: "parent hole < hole" by (simp add: parent_less)
    then show ?thesis using 1(1) [OF True] 1(2) True mset_move [of "parent hole" xs hole val]
      by (simp add: push_loop_step(1))
  qed (simp add: push_loop_step(2))
qed

section \<open>The heap property\<close>

definition heap_from :: "nat \<Rightarrow> nat \<Rightarrow> 'a::linorder list \<Rightarrow> bool" where
  "heap_from k n xs \<longleftrightarrow> (\<forall>i. 0 < i \<and> i < n \<and> k \<le> parent i \<longrightarrow> xs ! i \<le> xs ! parent i)"

abbreviation is_heap :: "nat \<Rightarrow> 'a::linorder list \<Rightarrow> bool" where "is_heap \<equiv> heap_from 0"

text \<open>A heap from \<open>k\<close> on, except that the element at \<open>h\<close> may be too small.\<close>

definition sinking :: "nat \<Rightarrow> nat \<Rightarrow> nat \<Rightarrow> 'a::linorder list \<Rightarrow> bool" where
  "sinking k h n xs \<longleftrightarrow>
     (\<forall>i. 0 < i \<and> i < n \<and> k \<le> parent i \<and> parent i \<noteq> h \<longrightarrow> xs ! i \<le> xs ! parent i) \<and>
     (\<forall>i. 0 < i \<and> i < n \<and> parent i = h \<and> k \<le> parent h \<and> 0 < h \<longrightarrow> xs ! i \<le> xs ! parent h)"

lemma children: "0 < i \<Longrightarrow> parent i = h \<longleftrightarrow> i = 2 * h + 1 \<or> i = 2 * h + 2"
  by (auto simp: parent_def)

lemma adjust_heap_from:
  assumes "sinking k hole len xs" "k \<le> hole" "len \<le> length xs"
  shows "heap_from k len (my_adjust_heap xs hole len)"
  using assms
proof (induction xs hole rule: adjust_induct [where len = len])
  case (Down xs hole)
  let ?b = "big_child xs hole" and ?xs = "my_swap hole (big_child xs hole) xs"
  note b = big_child_bounds [OF Down(1), of xs]
  have b': "?b = 2 * hole + 1 \<or> ?b = 2 * hole + 2" "parent ?b = hole" by (auto simp: big_child_def parent_def)
  have nth: "?xs ! j = (if j = ?b then xs ! hole else if j = hole then xs ! ?b else xs ! j)" for j
    using my_swap_nth [of hole xs ?b j] b Down(6) by simp
  have "sinking k ?b len ?xs"
    unfolding sinking_def
  proof (intro conjI allI impI; elim conjE)
    fix i assume i: "0 < i" "i < len" "k \<le> parent i" "parent i \<noteq> ?b"
    show "?xs ! i \<le> ?xs ! parent i"
    proof (cases "parent i = hole")
      case True
      then have "i = 2 * hole + 1 \<or> i = 2 * hole + 2" using children i(1) by blast
      then show ?thesis using True Down(2) big_child_max [of xs hole] b by (auto simp: nth)
    next
      case False
      then have le: "xs ! i \<le> xs ! parent i" using Down(4) i unfolding sinking_def by blast
      have "i \<noteq> ?b" using False b'(2) by auto
      moreover have "i = hole \<Longrightarrow> xs ! ?b \<le> xs ! parent hole"
        using Down(4) i b b' unfolding sinking_def by auto
      ultimately show ?thesis using False le i(4) by (auto simp: nth)
    qed
  next
    fix i assume i: "0 < i" "i < len" "parent i = ?b" "k \<le> parent ?b" "0 < ?b"
    then have "i \<noteq> ?b" "i \<noteq> hole" using b parent_less [of i] by auto
    moreover have "xs ! i \<le> xs ! ?b" using Down(4,5) i b unfolding sinking_def by auto
    ultimately show "?xs ! i \<le> ?xs ! parent ?b" using b by (simp add: nth b'(2))
  qed
  then show ?case using Down(3) Down(5,6) b by (simp add: adjust_down [OF Down(1,2)])
next
  case (Stop xs hole)
  have "xs ! i \<le> xs ! hole" if "0 < i" "parent i = hole" for i
    using that children [of i hole] Stop(2) big_child_max [of xs hole] by (auto intro: order_trans)
  then show ?case using Stop(3) unfolding adjust_stop [OF Stop(1,2)] sinking_def heap_from_def by metis
next
  case (Last xs hole)
  let ?c = "2 * hole + 1"
  let ?xs = "if xs ! hole < xs ! ?c then my_swap hole ?c xs else xs"
  have nth: "?xs ! j = (if xs ! hole < xs ! ?c \<and> j = ?c then xs ! hole else if xs ! hole < xs ! ?c \<and> j = hole then xs ! ?c else xs ! j)" for j
    using my_swap_nth [of hole xs ?c j] Last(1,4) by auto
  have "?xs ! i \<le> ?xs ! parent i" if i: "0 < i" "i < len" "k \<le> parent i" for i
  proof (cases "parent i = hole")
    case True
    then have "i = ?c" using children [OF i(1)] Last(1) i(2) by auto
    then show ?thesis using True unfolding nth by auto
  next
    case False
    then have le: "xs ! i \<le> xs ! parent i" using Last(2) i unfolding sinking_def by blast
    have "parent i \<noteq> ?c" "i \<noteq> ?c" using False Last(1) i(2) parent_less [OF i(1)] children [OF i(1), of hole] by auto
    moreover have "xs ! ?c \<le> xs ! parent hole" if "i = hole"
      using Last(1,2) i that children [of ?c hole] unfolding sinking_def by auto
    ultimately show ?thesis using False le unfolding nth by auto
  qed
  then show ?case unfolding adjust_last [OF Last(1)] heap_from_def by blast
next
  case (Leaf xs hole)
  have "parent i \<noteq> hole" if "0 < i" "i < len" for i using that Leaf(1) children [of i hole] by auto
  then show ?case using Leaf(2) unfolding adjust_leaf [OF Leaf(1)] sinking_def heap_from_def by blast
qed

text \<open>A heap with a hole, which waits for a value on its way up.\<close>

definition rising :: "nat \<Rightarrow> nat \<Rightarrow> 'a::linorder \<Rightarrow> 'a list \<Rightarrow> bool" where
  "rising n h val xs \<longleftrightarrow>
     (\<forall>i. 0 < i \<and> i < n \<and> i \<noteq> h \<and> parent i \<noteq> h \<longrightarrow> xs ! i \<le> xs ! parent i) \<and>
     (\<forall>i. 0 < i \<and> i < n \<and> parent i = h \<longrightarrow> xs ! i \<le> val \<and> (0 < h \<longrightarrow> xs ! i \<le> xs ! parent h))"

lemma push_loop_heap:
  assumes "rising n hole val xs" "hole < n" "n \<le> length xs"
  shows "is_heap n (push_loop xs hole val)"
  using assms
proof (induction xs hole val rule: push_loop.induct)
  case (1 xs hole val)
  show ?case
  proof (cases "0 < hole \<and> xs ! parent hole < val")
    case True
    let ?p = "parent hole" and ?xs = "xs[hole := xs ! parent hole]"
    have p: "?p < hole" "?p < n" using True parent_less [of hole] 1(3) by auto
    have nth: "?xs ! i = (if i = hole then xs ! ?p else xs ! i)" for i using 1(3,4) by simp
    have old: "xs ! i \<le> xs ! parent i" if "0 < i" "i < n" "i \<noteq> hole" "parent i \<noteq> hole" for i
      using 1(2) that unfolding rising_def by blast
    have sub: "xs ! i \<le> xs ! ?p" if "0 < i" "i < n" "parent i = hole" for i
      using 1(2) that True unfolding rising_def by blast
    have "rising n ?p val ?xs" unfolding rising_def
    proof (intro conjI allI impI; elim conjE)
      fix i assume i: "0 < i" "i < n" "i \<noteq> ?p" "parent i \<noteq> ?p"
      then have "i \<noteq> hole" by auto
      then show "?xs ! i \<le> ?xs ! parent i" using i old sub by (simp add: nth)
    next
      fix i assume i: "0 < i" "i < n" "parent i = ?p"
      have le: "?xs ! i \<le> xs ! ?p" using i p old [of i] by (auto simp: nth)
      then show "?xs ! i \<le> val" using True by (meson less_imp_le order_trans)
      assume "0 < ?p"
      then have "xs ! ?p \<le> xs ! parent ?p" "parent ?p \<noteq> hole" using old [of ?p] p parent_less [of ?p] by auto
      then show "?xs ! i \<le> ?xs ! parent ?p" using le by (simp add: nth)
    qed
    then show ?thesis using 1(1) [OF True] p(2) 1(4) by (simp add: push_loop_step(1) True)
  next
    case False
    have "xs[hole := val] ! i \<le> xs[hole := val] ! parent i" if i: "0 < i" "i < n" for i
    proof (cases "i = hole")
      case True
      then show ?thesis using False i parent_less [OF i(1)] 1(3,4) by auto
    next
      case other: False
      then show ?thesis using 1(2,3,4) i unfolding rising_def by (cases "parent i = hole") auto
    qed
    then show ?thesis by (simp add: push_loop_step(2) [OF False] heap_from_def)
  qed
qed

section \<open>The operations\<close>

lemma heap_root_max:
  assumes "is_heap n xs" "i < n"
  shows "xs ! i \<le> xs ! 0"
  using assms(2)
proof (induction i rule: less_induct)
  case (less i)
  show ?case
  proof (cases "i = 0")
    case False
    then have "xs ! i \<le> xs ! parent i" using assms(1) less.prems by (simp add: heap_from_def)
    also have "\<dots> \<le> xs ! 0" using less parent_less [of i] False by simp
    finally show ?thesis .
  qed simp
qed

lemma my_push_heap_correct:
  assumes "is_heap (n - 1) xs" "0 < n" "n \<le> length xs"
  shows "is_heap n (my_push_heap n xs)" "mset (my_push_heap n xs) = mset xs" "length (my_push_heap n xs) = length xs"
proof -
  have "rising n (n - 1) (xs ! (n - 1)) xs"
    using assms(1) parent_less unfolding rising_def heap_from_def
    by (metis One_nat_def Suc_pred assms(2) le0 less_SucE less_irrefl not_less_eq)
  then show "is_heap n (my_push_heap n xs)" using assms(2,3) by (simp add: my_push_heap_def push_loop_heap)
  show "mset (my_push_heap n xs) = mset xs" "length (my_push_heap n xs) = length xs"
    using push_loop_mset [of "n - 1" xs "xs ! (n - 1)"] assms(2,3) by (simp_all add: my_push_heap_def)
qed

lemma my_pop_heap_correct:
  assumes "is_heap n xs" "0 < n" "n \<le> length xs"
  shows "is_heap (n - 1) (my_pop_heap n xs)" "mset (my_pop_heap n xs) = mset xs" "my_pop_heap n xs ! (n - 1) = xs ! 0"
    "length (my_pop_heap n xs) = length xs" "n \<le> k \<Longrightarrow> my_pop_heap n xs ! k = xs ! k"
proof -
  let ?ys = "my_swap (n - 1) 0 xs"
  have pop: "my_pop_heap n xs = my_adjust_heap ?ys 0 (n - 1)"
    by (simp add: my_pop_heap_def Let_def my_swap_def)
  have nth: "?ys ! i = (if i = 0 then xs ! (n - 1) else if i = n - 1 then xs ! 0 else xs ! i)" for i
    by (rule my_swap_nth) (use assms(2,3) in auto)
  have "sinking 0 0 (n - 1) ?ys" unfolding sinking_def
  proof (intro conjI allI impI; elim conjE)
    fix i assume i: "0 < i" "i < n - 1" "parent i \<noteq> 0"
    then have "xs ! i \<le> xs ! parent i" using assms(1) by (simp add: heap_from_def)
    then show "?ys ! i \<le> ?ys ! parent i" using i parent_less [of i] unfolding nth by simp
  qed simp
  then show "is_heap (n - 1) (my_pop_heap n xs)" unfolding pop using assms(3) by (intro adjust_heap_from) simp_all
  have kept: "mset (my_pop_heap n xs) = mset ?ys \<and> length (my_pop_heap n xs) = length ?ys \<and>
      (\<forall>k. n - 1 \<le> k \<or> k < 0 \<longrightarrow> my_pop_heap n xs ! k = ?ys ! k)"
    unfolding pop by (rule my_adjust_heap_mset) (use assms(3) in simp)
  have lt: "n - 1 < length xs" "0 < length xs" using assms(2,3) by auto
  show "mset (my_pop_heap n xs) = mset xs" using kept mset_my_swap [OF lt] by (simp only: kept)
  show "length (my_pop_heap n xs) = length xs" using kept by (simp only: length_my_swap)
  have "my_pop_heap n xs ! (n - 1) = ?ys ! (n - 1)" using kept by blast
  then show "my_pop_heap n xs ! (n - 1) = xs ! 0" unfolding nth by (auto split: if_splits)
  assume "n \<le> k"
  then have "my_pop_heap n xs ! k = ?ys ! k" "k \<noteq> 0" "k \<noteq> n - 1" using kept assms(2) by auto
  then show "my_pop_heap n xs ! k = xs ! k" unfolding nth by simp
qed

lemma make_loop_correct:
  assumes "heap_from (Suc p) n xs" "n \<le> length xs"
  shows "is_heap n (make_loop xs p n) \<and> mset (make_loop xs p n) = mset xs \<and> length (make_loop xs p n) = length xs"
  using assms
proof (induction p arbitrary: xs)
  case 0
  have "sinking 0 0 n xs" using 0(1) by (auto simp: sinking_def heap_from_def)
  with 0(2) show ?case using adjust_heap_from my_adjust_heap_mset by fastforce
next
  case (Suc p)
  let ?ys = "my_adjust_heap xs (Suc p) n"
  have "sinking (Suc p) (Suc p) n xs"
    using Suc.prems(1) parent_less [of "Suc p"] by (auto simp: sinking_def heap_from_def)
  then have "heap_from (Suc p) n ?ys" using adjust_heap_from Suc.prems(2) by blast
  moreover have "mset ?ys = mset xs" "length ?ys = length xs" using my_adjust_heap_mset Suc.prems(2) by blast+
  ultimately show ?case using Suc.IH [of ?ys] Suc.prems(2) by simp
qed

lemma my_make_heap_correct:
  assumes "n \<le> length xs"
  shows "is_heap n (my_make_heap n xs)" "mset (my_make_heap n xs) = mset xs" "length (my_make_heap n xs) = length xs"
proof -
  have "parent i \<le> (n - 2) div 2" if "i < n" for i using that by (auto simp: parent_def)
  then have "heap_from (Suc ((n - 2) div 2)) n xs" unfolding heap_from_def by (meson le_trans not_less_eq_eq)
  from make_loop_correct [OF this assms]
  show "is_heap n (my_make_heap n xs)" "mset (my_make_heap n xs) = mset xs" "length (my_make_heap n xs) = length xs"
    by (auto simp: my_make_heap_def heap_from_def)
qed

lemma my_sort_heap_correct:
  assumes "is_heap n xs" "n \<le> length xs" "sorted (drop n xs)" "\<forall>x \<in> set (take n xs). \<forall>y \<in> set (drop n xs). x \<le> y"
  shows "sorted (my_sort_heap n xs) \<and> mset (my_sort_heap n xs) = mset xs"
  using assms
proof (induction n arbitrary: xs)
  case (Suc n)
  show ?case
  proof (cases "n = 0")
    case True
    with Suc.prems obtain x ys where "xs = x # ys" by (cases xs) auto
    with Suc.prems True show ?thesis by simp
  next
    case False
    let ?ys = "my_pop_heap (Suc n) xs"
    note pop = my_pop_heap_correct [OF Suc.prems(1) _ Suc.prems(2), simplified]
    have len: "n < length ?ys" using pop(4) Suc.prems(2) by simp
    have rest: "drop (Suc n) ?ys = drop (Suc n) xs"
      by (rule nth_equalityI) (use pop(4,5) in auto)
    then have dr: "drop n ?ys = xs ! 0 # drop (Suc n) xs" using len pop(3) by (metis Cons_nth_drop_Suc)
    have "mset (take n ?ys) + mset (drop n ?ys) = mset (take (Suc n) xs) + mset (drop (Suc n) xs)"
      using pop(2) by (metis append_take_drop_id mset_append)
    then have perm: "add_mset (xs ! 0) (mset (take n ?ys)) = mset (take (Suc n) xs)" by (simp add: dr)
    have top: "x \<le> xs ! 0" if "x \<in> set (take (Suc n) xs)" for x
      using that heap_root_max [OF Suc.prems(1)] by (auto simp: in_set_conv_nth)
    have sub: "set (take n ?ys) \<subseteq> set (take (Suc n) xs)" "xs ! 0 \<in> set (take (Suc n) xs)"
      using arg_cong [OF perm, of set_mset] by auto
    have "sorted (drop n ?ys)" using Suc.prems(3,4) sub(2) by (auto simp: dr)
    moreover have "\<forall>x \<in> set (take n ?ys). \<forall>y \<in> set (drop n ?ys). x \<le> y"
      using sub Suc.prems(4) top by (auto simp: dr)
    ultimately show ?thesis using Suc.IH [of ?ys] pop(1,2) len False by simp
  qed
qed simp

end
