(* ===== verification/Topn_Heap.thy ===== *)
theory Topn_Heap
  imports CS_Prelude My_Heap
begin

text \<open>
  Clients of heaps: the priority queue of mystl/my_priority_queue.h, built on the heap functions of
  the repository, and \<open>TopNHeap\<close> of base/topn_heap.h, built on the heap functions of the C++ library.
  The latter are parameters; the locale \<open>std_heap\<close> states what their documentation promises, and the
  functions of mystl/my_heap.h are proved to fulfil it.
\<close>

section \<open>The contract of the heap functions\<close>

locale std_heap =
  fixes push_heap pop_heap sort_heap :: "'a::linorder list \<Rightarrow> 'a list" and heap :: "'a list \<Rightarrow> bool"
  assumes heap_Nil: "heap []"
    and heap_front: "heap xs \<Longrightarrow> x \<in> set xs \<Longrightarrow> x \<le> hd xs"
    and push_law: "heap xs \<Longrightarrow> heap (push_heap (xs @ [x])) \<and> mset (push_heap (xs @ [x])) = add_mset x (mset xs)"
    and pop_law: "heap xs \<Longrightarrow> xs \<noteq> [] \<Longrightarrow>
      heap (butlast (pop_heap xs)) \<and> add_mset (hd xs) (mset (butlast (pop_heap xs))) = mset xs"
    and sort_law: "heap xs \<Longrightarrow> sorted (sort_heap xs) \<and> mset (sort_heap xs) = mset xs"

section \<open>The priority queue\<close>

definition pq_of :: "'a::linorder list \<Rightarrow> 'a list" where
  "pq_of xs = my_make_heap (length xs) xs"

definition pq_push :: "'a::linorder \<Rightarrow> 'a list \<Rightarrow> 'a list" where
  "pq_push x c = my_push_heap (length (c @ [x])) (c @ [x])"

text \<open>\<open>top\<close> and \<open>pop\<close> of an empty queue are undefined.\<close>

definition pq_top :: "'a::linorder list \<Rightarrow> 'a option" where
  "pq_top c = (if c = [] then None else Some (c ! 0))"

definition pq_pop :: "'a::linorder list \<Rightarrow> 'a list option" where
  "pq_pop c = (if c = [] then None else Some (butlast (my_pop_heap (length c) c)))"

abbreviation full_heap :: "'a::linorder list \<Rightarrow> bool" where "full_heap c \<equiv> is_heap (length c) c"

lemma is_heap_take: "is_heap n xs \<Longrightarrow> n \<le> length xs \<Longrightarrow> is_heap n (take n xs)"
  unfolding heap_from_def using parent_less by (metis less_trans nth_take)

lemma is_heap_append: "is_heap (length c) c \<Longrightarrow> is_heap (length c) (c @ ys)"
  unfolding heap_from_def using parent_less by (metis less_trans nth_append)

lemma my_pop_butlast:
  assumes "full_heap c" "c \<noteq> []"
  shows "full_heap (butlast (my_pop_heap (length c) c))"
    "add_mset (hd c) (mset (butlast (my_pop_heap (length c) c))) = mset c"
proof -
  let ?d = "my_pop_heap (length c) c"
  note pop = my_pop_heap_correct [OF assms(1) _ order_refl]
  have len: "length ?d = length c" "?d \<noteq> []" using pop(4) assms(2) by auto
  have bl: "butlast ?d = take (length c - 1) ?d" using len by (simp add: butlast_conv_take)
  show "full_heap (butlast ?d)"
    using is_heap_take [OF pop(1)] len assms(2) unfolding bl by simp
  have "last ?d = hd c" using pop(3) len assms(2) by (simp add: last_conv_nth hd_conv_nth)
  moreover have "mset ?d = add_mset (last ?d) (mset (butlast ?d))"
    using len(2) by (metis append_butlast_last_id mset.simps(2) union_code mset_append add_mset_add_single mset.simps(1))
  ultimately show "add_mset (hd c) (mset (butlast ?d)) = mset c" using pop(2) assms(2) by simp
qed

interpretation my_heap: std_heap "\<lambda>xs. my_push_heap (length xs) xs" "\<lambda>xs. my_pop_heap (length xs) xs"
    "\<lambda>xs. my_sort_heap (length xs) xs" full_heap
proof
  show "full_heap ([] :: 'a list)" by (simp add: heap_from_def)
next
  fix xs :: "'a list" and x
  assume "full_heap xs" "x \<in> set xs"
  then show "x \<le> hd xs" using heap_root_max by (metis hd_conv_nth in_set_conv_nth length_greater_0_conv length_pos_if_in_set)
next
  fix xs :: "'a list" and x
  assume "full_heap xs"
  then have h: "is_heap (length (xs @ [x]) - 1) (xs @ [x])" using is_heap_append by simp
  show "full_heap (my_push_heap (length (xs @ [x])) (xs @ [x])) \<and>
      mset (my_push_heap (length (xs @ [x])) (xs @ [x])) = add_mset x (mset xs)"
    using my_push_heap_correct [OF h] by simp
next
  fix xs :: "'a list"
  assume "full_heap xs" "xs \<noteq> []"
  then show "full_heap (butlast (my_pop_heap (length xs) xs)) \<and>
      add_mset (hd xs) (mset (butlast (my_pop_heap (length xs) xs))) = mset xs" using my_pop_butlast by blast
next
  fix xs :: "'a list"
  assume "full_heap xs"
  then show "sorted (my_sort_heap (length xs) xs) \<and> mset (my_sort_heap (length xs) xs) = mset xs"
    using my_sort_heap_correct [of "length xs" xs] by simp
qed

section \<open>The N best elements\<close>

text \<open>
  \<open>TopNHeap\<close> keeps at most \<open>top_num_\<close> elements; its comparison is \<open><\<close> of the element type. With
  \<open>top_num_\<close> = 0 the front of an empty vector is read: \<open>None\<close>.
\<close>

definition TopN_Insert :: "('a::linorder list \<Rightarrow> 'a list) \<Rightarrow> ('a list \<Rightarrow> 'a list) \<Rightarrow> 32 word \<Rightarrow> 'a \<Rightarrow> 'a list \<Rightarrow> 'a list option" where
  "TopN_Insert push_heap pop_heap top_num val buf =
     (if unat top_num \<le> length buf then
        (if buf = [] then None
         else if hd buf < val then Some buf
         else Some (push_heap (butlast (pop_heap buf) @ [val])))
      else Some (push_heap (buf @ [val])))"

fun TopN_Insert_all :: "('a::linorder list \<Rightarrow> 'a list) \<Rightarrow> ('a list \<Rightarrow> 'a list) \<Rightarrow> 32 word \<Rightarrow> 'a list \<Rightarrow> 'a list \<Rightarrow> 'a list option" where
  "TopN_Insert_all push_heap pop_heap top_num [] buf = Some buf"
| "TopN_Insert_all push_heap pop_heap top_num (v # vs) buf =
     Option.bind (TopN_Insert push_heap pop_heap top_num v buf) (TopN_Insert_all push_heap pop_heap top_num vs)"

text \<open>\<open>Pop\<close> appends the sorted elements to the result and clears the buffer.\<close>

definition TopN_Pop :: "('a::linorder list \<Rightarrow> 'a list) \<Rightarrow> 'a list \<Rightarrow> 'a list \<Rightarrow> 'a list \<times> 'a list" where
  "TopN_Pop sort_heap result buf = (result @ sort_heap buf, [])"

text \<open>\<open>least n V M\<close>: \<open>M\<close> consists of the \<open>n\<close> least elements of \<open>V\<close>.\<close>

definition least :: "nat \<Rightarrow> 'a::linorder multiset \<Rightarrow> 'a multiset \<Rightarrow> bool" where
  "least n V M \<longleftrightarrow> (\<exists>R. V = M + R \<and> size M = min n (size V) \<and> (\<forall>x \<in># M. \<forall>y \<in># R. x \<le> y))"

lemma least_sorted:
  assumes "least n (mset vs) (mset xs)" "sorted xs"
  shows "xs = take n (sort vs)"
proof -
  obtain R where R: "mset vs = mset xs + R" "length xs = min n (length vs)" "\<forall>x \<in> set xs. \<forall>y \<in># R. x \<le> y"
    using assms(1) unfolding least_def size_mset set_mset_mset by blast
  let ?ys = "sorted_list_of_multiset R"
  have sort: "sort vs = xs @ ?ys"
  proof (rule properties_for_sort)
    show "mset (xs @ ?ys) = mset vs" by (simp add: R(1))
    show "sorted (xs @ ?ys)" using assms(2) R(3) by (simp add: sorted_append)
  qed
  have size: "length vs = length xs + size R" using arg_cong [OF R(1), of size] by simp
  show ?thesis
  proof (cases "n \<le> length vs")
    case True
    then show ?thesis using R(2) by (simp add: sort min_absorb1)
  next
    case False
    then have all: "length xs = length vs" using R(2) by linarith
    then have "size R = 0" using size by linarith
    then show ?thesis using False all by (simp add: sort)
  qed
qed

context std_heap
begin

lemma Insert_least:
  assumes "heap buf" "least (unat n) V (mset buf)" "n \<noteq> 0"
  shows "\<exists>buf'. TopN_Insert push_heap pop_heap n v buf = Some buf' \<and> heap buf' \<and> least (unat n) (add_mset v V) (mset buf')"
proof -
  obtain R where R: "V = mset buf + R" "length buf = min (unat n) (size V)" "\<forall>x \<in> set buf. \<forall>y \<in># R. x \<le> y"
    using assms(2) unfolding least_def size_mset set_mset_mset by blast
  have n: "0 < unat n" using assms(3) by (simp add: unat_gt_0)
  show ?thesis
  proof (cases "unat n \<le> length buf")
    case False
    then have "size V \<le> length buf" using R(2) by linarith
    moreover have "size V = length buf + size R" by (simp add: R(1))
    ultimately have "size R = 0" by linarith
    then have "R = {#}" by simp
    then have "least (unat n) (add_mset v V) (add_mset v (mset buf))" using R(1,2) False unfolding least_def by (intro exI [of _ "{#}"]) simp
    then show ?thesis using push_law [OF assms(1), of v] False by (simp add: TopN_Insert_def)
  next
    case True
    then have ne: "buf \<noteq> []" and len: "length buf = unat n" "unat n \<le> size V" using R(2) n by auto
    show ?thesis
    proof (cases "hd buf < v")
      case less: True
      then have "x \<le> v" if "x \<in> set buf" for x using heap_front [OF assms(1) that] by simp
      then have "least (unat n) (add_mset v V) (mset buf)"
        unfolding least_def using R(1,3) len by (intro exI [of _ "add_mset v R"]) auto
      then show ?thesis using True less ne assms(1) by (simp add: TopN_Insert_def)
    next
      case False
      let ?rest = "butlast (pop_heap buf)"
      note pop = pop_law [OF assms(1) ne]
      have M: "mset buf = add_mset (hd buf) (mset ?rest)" using pop by simp
      then have sub: "set ?rest \<subseteq> set buf" by (metis set_mset_add_mset_insert set_mset_mset subset_insertI)
      have v: "v \<le> hd buf" "hd buf \<in> set buf" using False ne by auto
      have "least (unat n) (add_mset v V) (add_mset v (mset ?rest))"
        unfolding least_def
      proof (intro exI [of _ "add_mset (hd buf) R"] conjI ballI)
        show "add_mset v V = add_mset v (mset ?rest) + add_mset (hd buf) R" using R(1) M by simp
        have "size (mset buf) = Suc (size (mset ?rest))" using M by simp
        then show "size (add_mset v (mset ?rest)) = min (unat n) (size (add_mset v V))" using len by simp
        fix x y assume "x \<in># add_mset v (mset ?rest)" "y \<in># add_mset (hd buf) R"
        then show "x \<le> y" using v sub heap_front [OF assms(1)] R(3) by (auto intro: order_trans)
      qed
      then show ?thesis using push_law [of ?rest v] pop True False ne by (simp add: TopN_Insert_def)
    qed
  qed
qed

lemma Insert_all_least:
  assumes "heap buf" "least (unat n) V (mset buf)" "n \<noteq> 0"
  shows "\<exists>buf'. TopN_Insert_all push_heap pop_heap n vs buf = Some buf' \<and> heap buf' \<and> least (unat n) (V + mset vs) (mset buf')"
  using assms
proof (induction vs arbitrary: buf V)
  case (Cons v vs)
  from Insert_least [OF Cons.prems, of v] obtain b where b: "TopN_Insert push_heap pop_heap n v buf = Some b"
    "heap b" "least (unat n) (add_mset v V) (mset b)" by blast
  from Cons.IH [OF b(2,3) Cons.prems(3)] b(1) show ?case by simp
qed auto

lemma TopN_least:
  assumes "n \<noteq> 0"
  shows "\<exists>buf. TopN_Insert_all push_heap pop_heap n vs [] = Some buf \<and> TopN_Pop sort_heap result buf = (result @ take (unat n) (sort vs), [])"
proof -
  have "least (unat n) {#} (mset [])" by (simp add: least_def)
  from Insert_all_least [OF heap_Nil this assms, of vs] obtain buf where buf:
    "TopN_Insert_all push_heap pop_heap n vs [] = Some buf" "heap buf" "least (unat n) (mset vs) (mset buf)" by auto
  then have "sort_heap buf = take (unat n) (sort vs)" using sort_law least_sorted by metis
  with buf(1) show ?thesis by (simp add: TopN_Pop_def)
qed

end

section \<open>The greatest elements\<close>

text \<open>\<open>MaxTopNHeap\<close> compares with \<open>std::greater\<close>: the same heap over the reversed order.\<close>

datatype 'a desc = Desc (undesc: 'a)

instantiation desc :: (linorder) linorder
begin

definition less_eq_desc :: "'a desc \<Rightarrow> 'a desc \<Rightarrow> bool" where
  "less_eq_desc a b \<longleftrightarrow> undesc b \<le> undesc a"

definition less_desc :: "'a desc \<Rightarrow> 'a desc \<Rightarrow> bool" where
  "less_desc a b \<longleftrightarrow> undesc b < undesc a"

instance
proof
  fix a b :: "'a desc"
  assume "a \<le> b" "b \<le> a"
  then show "a = b" by (cases a; cases b) (simp add: less_eq_desc_def)
qed (auto simp: less_eq_desc_def less_desc_def)

end

lemma sort_desc: "sort (map Desc vs) = map Desc (rev (sort (vs :: 'a::linorder list)))"
proof (rule properties_for_sort)
  show "mset (map Desc (rev (sort vs))) = mset (map Desc vs)" by (simp add: mset_map)
  show "sorted (map Desc (rev (sort vs)))"
    by (simp add: sorted_wrt_map sorted_wrt_rev less_eq_desc_def)
qed

text \<open>A \<open>TopNHeap\<close> with a limit that is not 0, filled and popped.\<close>

definition MinTopN :: "('a::linorder list \<Rightarrow> 'a list) \<Rightarrow> ('a list \<Rightarrow> 'a list) \<Rightarrow> ('a list \<Rightarrow> 'a list) \<Rightarrow> 32 word \<Rightarrow> 'a list \<Rightarrow> 'a list option" where
  "MinTopN push_heap pop_heap sort_heap max_num vs =
     map_option (\<lambda>buf. fst (TopN_Pop sort_heap [] buf)) (TopN_Insert_all push_heap pop_heap max_num vs [])"

definition MaxTopN :: "('a::linorder desc list \<Rightarrow> 'a desc list) \<Rightarrow> ('a desc list \<Rightarrow> 'a desc list) \<Rightarrow> ('a desc list \<Rightarrow> 'a desc list) \<Rightarrow> 32 word \<Rightarrow> 'a list \<Rightarrow> 'a list option" where
  "MaxTopN push_heap pop_heap sort_heap max_num vs =
     map_option (map undesc) (MinTopN push_heap pop_heap sort_heap max_num (map Desc vs))"

lemma TopN_zero: "MinTopN push_heap pop_heap sort_heap 0 (v # vs) = None"
  by (simp add: MinTopN_def TopN_Insert_def)

section \<open>Properties\<close>

text \<open>C28: heap sort. \<open>my_make_heap\<close> rearranges any range into a heap with its greatest element first, and
  \<open>my_sort_heap\<close> on it yields the elements in ascending order.\<close>
theorem heap_sort_correct:
  "full_heap (my_make_heap (length xs) xs) \<and> mset (my_make_heap (length xs) xs) = mset xs \<and>
   my_sort_heap (length xs) (my_make_heap (length xs) xs) = sort xs"
proof -
  note make = my_make_heap_correct [of "length xs" xs, OF order_refl]
  let ?h = "my_make_heap (length xs) xs"
  have "sorted (my_sort_heap (length xs) ?h) \<and> mset (my_sort_heap (length xs) ?h) = mset ?h"
    using my_heap.sort_law [of ?h] make by simp
  then have "sort xs = my_sort_heap (length xs) ?h" using make(2) by (intro properties_for_sort) simp_all
  then show ?thesis using make by simp
qed

text \<open>C29: the priority queue holds the multiset of the pushed elements: built from a range, after a push and
  after a pop it is a heap again, \<open>top\<close> is the greatest element and \<open>pop\<close> removes exactly that one; both
  are undefined on the empty queue.\<close>
theorem priority_queue_correct:
  "full_heap (pq_of xs) \<and> mset (pq_of xs) = mset xs \<and>
   (full_heap c \<longrightarrow> full_heap (pq_push x c) \<and> mset (pq_push x c) = add_mset x (mset c)) \<and>
   (full_heap c \<longrightarrow> (case pq_pop c of
       None \<Rightarrow> c = [] \<and> pq_top c = None
     | Some d \<Rightarrow> full_heap d \<and> (\<exists>m. pq_top c = Some m \<and> mset c = add_mset m (mset d) \<and> (\<forall>y \<in> set c. y \<le> m))))"
proof -
  have "full_heap (pq_of xs) \<and> mset (pq_of xs) = mset xs"
    using my_make_heap_correct [of "length xs" xs] by (simp add: pq_of_def)
  moreover have "full_heap (pq_push x c) \<and> mset (pq_push x c) = add_mset x (mset c)" if "full_heap c"
    using my_heap.push_law [OF that, of x] by (simp add: pq_push_def)
  moreover have "case pq_pop c of None \<Rightarrow> c = [] \<and> pq_top c = None
      | Some d \<Rightarrow> full_heap d \<and> (\<exists>m. pq_top c = Some m \<and> mset c = add_mset m (mset d) \<and> (\<forall>y \<in> set c. y \<le> m))"
    if "full_heap c"
    using my_heap.pop_law [OF that] my_heap.heap_front [OF that] by (auto simp: pq_pop_def pq_top_def hd_conv_nth)
  ultimately show ?thesis by blast
qed

theorem priority_queue_correct_witness:
  "full_heap (pq_push 5 (pq_of [3, 9, 4 :: int])) \<and> mset (pq_push 5 (pq_of [3, 9, 4 :: int])) = {#5, 3, 9, 4#}"
  using priority_queue_correct [of "[3, 9, 4 :: int]" "pq_of [3, 9, 4 :: int]" 5] by simp

text \<open>C30: with heap functions that fulfil their contract and a limit that is not 0, \<open>MinTopNHeap\<close> returns the
  least elements of what was inserted, in ascending order, and \<open>MaxTopNHeap\<close> the greatest ones in
  descending order, with multiplicities.\<close>
theorem TopN_correct:
  assumes "std_heap push pop srt heap" "std_heap push' pop' srt' heap'" "n \<noteq> 0"
  shows "MinTopN push pop srt n vs = Some (take (unat n) (sort vs)) \<and>
    MaxTopN push' pop' srt' n vs = Some (take (unat n) (rev (sort vs)))"
  using std_heap.TopN_least [OF assms(1,3), of vs "[]"] std_heap.TopN_least [OF assms(2,3), of "map Desc vs" "[]"]
  by (auto simp: MinTopN_def MaxTopN_def sort_desc take_map comp_def)

theorem TopN_correct_witness:
  "MinTopN (\<lambda>xs. my_push_heap (length xs) xs) (\<lambda>xs. my_pop_heap (length xs) xs) (\<lambda>xs. my_sort_heap (length xs) xs) 2
     [5, 1, 4, 1 :: int] = Some [1, 1] \<and>
   MaxTopN (\<lambda>xs. my_push_heap (length xs) xs) (\<lambda>xs. my_pop_heap (length xs) xs) (\<lambda>xs. my_sort_heap (length xs) xs) 2
     [5, 1, 4, 1 :: int] = Some [5, 4]"
  using TopN_correct [OF my_heap.std_heap_axioms my_heap.std_heap_axioms, of 2 "[5, 1, 4, 1 :: int]"]
  by simp

end
