(* ===== verification/Std_Map.thy ===== *)
theory Std_Map
  imports CS_Prelude
begin

text \<open>
  std::map as the library code uses it: an association list in increasing order of its keys, so
  that iteration, \<open>begin\<close> and \<open>lower_bound\<close> have the order of the container. \<open>map_of\<close> is \<open>find\<close>.
\<close>

type_synonym ('k, 'v) smap = "('k \<times> 'v) list"

definition smap_ok :: "('k::linorder, 'v) smap \<Rightarrow> bool" where
  "smap_ok m \<longleftrightarrow> sorted_wrt (<) (map fst m)"

fun map_put :: "'k::linorder \<Rightarrow> 'v \<Rightarrow> ('k, 'v) smap \<Rightarrow> ('k, 'v) smap" where
  "map_put k v [] = [(k, v)]"
| "map_put k v ((k', v') # m) =
     (if k < k' then (k, v) # (k', v') # m else if k = k' then (k, v) # m else (k', v') # map_put k v m)"

definition map_erase :: "'k \<Rightarrow> ('k, 'v) smap \<Rightarrow> ('k, 'v) smap" where
  "map_erase k m = filter (\<lambda>(k', v). k' \<noteq> k) m"

definition lower_bound :: "'k::linorder \<Rightarrow> ('k, 'v) smap \<Rightarrow> ('k \<times> 'v) option" where
  "lower_bound k m = find (\<lambda>(k', v). k \<le> k') m"

lemma smap_ok_Nil [simp]: "smap_ok []" by (simp add: smap_ok_def)

lemma smap_ok_Cons: "smap_ok ((k, v) # m) \<longleftrightarrow> (\<forall>k' \<in> dom (map_of m). k < k') \<and> smap_ok m"
  by (auto simp: smap_ok_def dom_map_of_conv_image_fst)

lemma smap_ok_distinct: "smap_ok m \<Longrightarrow> distinct (map fst m)"
  by (induction m) (auto simp: smap_ok_def)

lemma map_of_put: "smap_ok m \<Longrightarrow> map_of (map_put k v m) = (map_of m)(k \<mapsto> v)"
proof (induction k v m rule: map_put.induct)
  case (2 k v k' v' m)
  then show ?case by (auto simp: smap_ok_Cons fun_eq_iff)
qed auto

lemma smap_ok_put: "smap_ok m \<Longrightarrow> smap_ok (map_put k v m)"
proof (induction k v m rule: map_put.induct)
  case (2 k v k' v' m)
  consider "k < k'" | "k = k'" | "k' < k" by fastforce
  then show ?case
  proof cases
    case 1
    then show ?thesis using 2 by (auto simp: smap_ok_Cons dest: bspec intro: less_trans)
  next
    case 3
    then have "smap_ok (map_put k v m)" "smap_ok m" using 2 by (auto simp: smap_ok_Cons)
    then show ?thesis using 2 3 by (auto simp: smap_ok_Cons map_of_put)
  qed (use 2 in \<open>auto simp: smap_ok_Cons\<close>)
qed (simp add: smap_ok_Cons)

lemma map_of_erase: "map_of (map_erase k m) = (map_of m)(k := None)"
  by (induction m) (auto simp: map_erase_def fun_eq_iff)

lemma smap_ok_erase: "smap_ok m \<Longrightarrow> smap_ok (map_erase k m)"
  by (auto simp: smap_ok_def map_erase_def sorted_wrt_map intro: sorted_wrt_filter)

lemma map_erase_append: "map_erase k (xs @ ys) = map_erase k xs @ map_erase k ys"
  by (simp add: map_erase_def)

lemma map_erase_absent: "k \<notin> fst ` set m \<Longrightarrow> map_erase k m = m"
  by (force simp: map_erase_def intro!: filter_True)

lemma map_erase_Cons: "map_erase k ((k, v) # m) = map_erase k m"
  by (simp add: map_erase_def)

lemma smap_in_set: "smap_ok m \<Longrightarrow> (k, v) \<in> set m \<longleftrightarrow> map_of m k = Some v"
  by (simp add: smap_ok_distinct)

lemma smap_hd_least: "smap_ok ((k, v) # m) \<Longrightarrow> q \<in> dom (map_of ((k, v) # m)) \<Longrightarrow> k \<le> q"
  by (auto simp: smap_ok_Cons dest!: bspec split: if_splits)

lemma lower_bound_Some:
  assumes "smap_ok m" "lower_bound k m = Some (p, v)"
  shows "map_of m p = Some v" "k \<le> p" "\<And>q. q \<in> dom (map_of m) \<Longrightarrow> k \<le> q \<Longrightarrow> p \<le> q"
proof -
  show "map_of m p = Some v" "k \<le> p"
    using assms by (auto simp: lower_bound_def find_Some_iff simp flip: smap_in_set dest: nth_mem)
  show "p \<le> q" if "q \<in> dom (map_of m)" "k \<le> q" for q
    using assms that
  proof (induction m)
    case (Cons x m)
    obtain k' v' where x: "x = (k', v')" by fastforce
    show ?case
    proof (cases "k \<le> k'")
      case True
      then have "p = k'" using Cons.prems(2) by (simp add: lower_bound_def x)
      then show ?thesis using smap_hd_least [of k' v' m q] Cons.prems(1,3) unfolding x by blast
    next
      case False
      then have "lower_bound k m = Some (p, v)" "smap_ok m" "q \<in> dom (map_of m)"
        using Cons.prems by (auto simp: lower_bound_def x smap_ok_Cons split: if_splits)
      then show ?thesis using Cons.IH Cons.prems(4) by simp
    qed
  qed simp
qed

lemma lower_bound_None: "lower_bound k m = None \<Longrightarrow> q \<in> dom (map_of m) \<Longrightarrow> q < k"
  by (auto simp: lower_bound_def find_None_iff not_le dest: map_of_SomeD)

lemma smap_eqI: "smap_ok m \<Longrightarrow> smap_ok m' \<Longrightarrow> map_of m = map_of m' \<Longrightarrow> m = m'"
proof (induction m arbitrary: m')
  case Nil
  then show ?case by (cases m') (auto simp: fun_eq_iff split: if_splits prod.splits)
next
  case (Cons x m)
  obtain k v where x: "x = (k, v)" by fastforce
  have dom: "dom (map_of m') = dom (map_of (x # m))" by (simp only: Cons.prems(3))
  then obtain k' v' n where m': "m' = (k', v') # n" by (cases m') (auto simp: x)
  have "k \<le> k'" using smap_hd_least [of k v m k'] Cons.prems(1) dom by (auto simp: x m')
  moreover have "k' \<le> k" using smap_hd_least [of k' v' n k] Cons.prems(2) dom by (auto simp: x m')
  ultimately have k: "k' = k" by simp
  have v: "v' = v" using fun_cong [OF Cons.prems(3), of k] by (simp add: x m' k)
  have out: "map_of m k = None" "map_of n k = None"
    using Cons.prems(1,2) by (force simp: x m' k smap_ok_Cons)+
  have "map_of m q = map_of n q" for q
    using fun_cong [OF Cons.prems(3), of q] out by (cases "q = k") (auto simp: x m' k)
  then have "m = n" using Cons by (auto simp: x m' smap_ok_Cons)
  then show ?case by (simp add: x m' k v)
qed

end
