(* ===== verification/Consistent_Hash.thy ===== *)
theory Consistent_Hash
  imports Std_Map Hash_Fun "HOL-Library.Product_Lexorder"
begin

text \<open>
  The hash ring of base/consistent_hash: servers with weights, each placed on the ring once per
  unit of weight at the Murmur hash of its address and a running number. The ring is shown to be
  determined by the set of servers, and a change of one server to leave alone every key that it
  does not serve.
\<close>

section \<open>Model\<close>

record VirtualNode =
  vn_ip :: "32 word"
  vn_port :: "16 word"
  vn_weight :: "32 word"

record ConsistentHash =
  ch_hash_ring :: "(32 word, VirtualNode) smap"
  ch_ips :: "(32 word \<times> 16 word, 32 word) smap"

definition kConsistentHashSeed :: "32 word" where "kConsistentHashSeed = 0x0523"

definition ConsistentHash_new :: ConsistentHash where
  "ConsistentHash_new = \<lparr>ch_hash_ring = [], ch_ips = []\<rparr>"

definition CheckIfReplace :: "VirtualNode \<Rightarrow> VirtualNode \<Rightarrow> bool" where
  "CheckIfReplace new old =
     (if vn_weight old < vn_weight new then True
      else if vn_weight new < vn_weight old then False
      else if vn_ip old < vn_ip new then True
      else if vn_ip new < vn_ip old then False
      else vn_port old < vn_port new)"

text \<open>The texts \<open>"%u:%u:%u"\<close>; 58 is the colon.\<close>

definition print_u :: "'a::len word \<Rightarrow> bytes" where
  "print_u w = dec_digits (dec_len (unat w)) (unat w)"

definition virtual_key :: "32 word \<times> 16 word \<Rightarrow> 32 word \<Rightarrow> bytes" where
  "virtual_key addr virtual_num = print_u (fst addr) @ 58 # print_u (snd addr) @ 58 # print_u virtual_num"

definition place_node :: "(32 word, VirtualNode) smap \<Rightarrow> 32 word \<Rightarrow> VirtualNode \<Rightarrow> (32 word, VirtualNode) smap" where
  "place_node ring hash_key new_node =
     (case map_of ring hash_key of
        Some old \<Rightarrow> if CheckIfReplace new_node old then map_put hash_key new_node ring else ring
      | None \<Rightarrow> map_put hash_key new_node ring)"

definition place_server :: "(32 word, VirtualNode) smap \<Rightarrow> (32 word \<times> 16 word) \<times> 32 word \<Rightarrow> (32 word, VirtualNode) smap" where
  "place_server ring = (\<lambda>(addr, weight).
     foldl (\<lambda>ring virtual_num.
         let hash_key = Murmur32 (virtual_key addr virtual_num) kConsistentHashSeed;
             new_node = \<lparr>vn_ip = fst addr, vn_port = snd addr, vn_weight = weight\<rparr>
         in place_node ring hash_key new_node)
       ring (map word_of_nat [0..<unat weight]))"

definition BalanceHashRing :: "ConsistentHash \<Rightarrow> Code \<times> ConsistentHash" where
  "BalanceHashRing c = (kOk, c\<lparr>ch_hash_ring := foldl place_server [] (ch_ips c)\<rparr>)"

definition ConsistentHash_Put :: "VirtualNode \<Rightarrow> ConsistentHash \<Rightarrow> Code \<times> ConsistentHash" where
  "ConsistentHash_Put node c =
     (let addr = (vn_ip node, vn_port node) in
      case map_of (ch_ips c) addr of
        Some weight \<Rightarrow>
          if weight = vn_weight node then (kOk, c)
          else BalanceHashRing (c\<lparr>ch_ips := map_put addr (vn_weight node) (ch_ips c)\<rparr>)
      | None \<Rightarrow> BalanceHashRing (c\<lparr>ch_ips := map_put addr (vn_weight node) (ch_ips c)\<rparr>))"

definition ConsistentHash_Del :: "VirtualNode \<Rightarrow> ConsistentHash \<Rightarrow> Code \<times> ConsistentHash" where
  "ConsistentHash_Del node c =
     (let addr = (vn_ip node, vn_port node);
          c = (if map_of (ch_ips c) addr \<noteq> None then c\<lparr>ch_ips := map_erase addr (ch_ips c)\<rparr> else c)
      in BalanceHashRing c)"

definition ConsistentHash_Get :: "bytes \<Rightarrow> ConsistentHash \<Rightarrow> VirtualNode res" where
  "ConsistentHash_Get key c =
     (if ch_hash_ring c = [] then Inl kRingEmpty
      else let hash_key = Murmur32 key kConsistentHashSeed in
        case lower_bound hash_key (ch_hash_ring c) of
          Some (pos, node) \<Rightarrow> Inr node
        | None \<Rightarrow> Inr (snd (hd (ch_hash_ring c))))"

definition ips_line :: "(32 word \<times> 16 word) \<times> 32 word \<Rightarrow> bytes" where
  "ips_line = (\<lambda>(addr, weight). print_u (fst addr) @ 58 # print_u (snd addr) @ 58 # print_u weight @ [10])"

definition ring_line :: "32 word \<times> VirtualNode \<Rightarrow> bytes" where
  "ring_line = (\<lambda>(pos, n). print_u pos @ [32, 61, 62, 60] @ print_u (vn_ip n) @ 58 # print_u (vn_port n) @ 58 #
     print_u (vn_weight n) @ [62, 10])"

text \<open>The two titles \<open>--------Ip info:----------------------\<close> and \<open>--------Hash Ringh info:-------------\<close>.\<close>

definition ips_title :: bytes where
  "ips_title =
   [45, 45, 45, 45, 45, 45, 45, 45, 73, 112, 32, 105, 110, 102, 111, 58, 45, 45, 45, 45, 45, 45, 45,
   45, 45, 45, 45, 45, 45, 45, 45, 45, 45, 45, 45, 45, 45, 45, 10]"

definition ring_title :: bytes where
  "ring_title =
   [10, 45, 45, 45, 45, 45, 45, 45, 45, 72, 97, 115, 104, 32, 82, 105, 110, 103, 104, 32, 105, 110,
   102, 111, 58, 45, 45, 45, 45, 45, 45, 45, 45, 45, 45, 45, 45, 45, 10]"

definition GetPrintInfo :: "ConsistentHash \<Rightarrow> bytes \<Rightarrow> bytes" where
  "GetPrintInfo c info =
     info @ ips_title @ concat (map ips_line (ch_ips c)) @ ring_title @ concat (map ring_line (ch_hash_ring c))"

section \<open>The ring as a function of the servers\<close>

text \<open>
  Who may stand at which place: the placements of a set of servers. The winner of a place is the
  largest by weight, address and port, which is what \<open>CheckIfReplace\<close> compares.
\<close>

definition node_id :: "VirtualNode \<Rightarrow> 32 word \<times> 16 word" where
  "node_id n = (vn_ip n, vn_port n)"

definition node_rank :: "VirtualNode \<Rightarrow> 32 word \<times> 32 word \<times> 16 word" where
  "node_rank n = (vn_weight n, vn_ip n, vn_port n)"

definition placements :: "(32 word \<times> 16 word \<rightharpoonup> 32 word) \<Rightarrow> (32 word \<times> VirtualNode) set" where
  "placements servers =
     {(Murmur32 (virtual_key addr v) kConsistentHashSeed, \<lparr>vn_ip = fst addr, vn_port = snd addr, vn_weight = w\<rparr>) |addr w v.
        servers addr = Some w \<and> v < w}"

definition best_at :: "(32 word \<times> VirtualNode) set \<Rightarrow> 32 word \<Rightarrow> VirtualNode option \<Rightarrow> bool" where
  "best_at S pos r \<longleftrightarrow>
     (case r of None \<Rightarrow> \<forall>n. (pos, n) \<notin> S
      | Some n \<Rightarrow> (pos, n) \<in> S \<and> (\<forall>n'. (pos, n') \<in> S \<longrightarrow> node_rank n' \<le> node_rank n))"

lemma CheckIfReplace_rank: "CheckIfReplace new old \<longleftrightarrow> node_rank old < node_rank new"
  by (auto simp: CheckIfReplace_def node_rank_def)

lemma node_rank_inject [simp]: "node_rank n = node_rank n' \<longleftrightarrow> n = n'"
  by (auto simp: node_rank_def)

definition ring_of :: "(32 word \<times> VirtualNode) set \<Rightarrow> (32 word, VirtualNode) smap \<Rightarrow> bool" where
  "ring_of S ring \<longleftrightarrow> smap_ok ring \<and> (\<forall>pos. best_at S pos (map_of ring pos))"

lemma best_at_unique: "best_at S pos r \<Longrightarrow> best_at S pos r' \<Longrightarrow> r = r'"
  by (cases r; cases r') (auto simp: best_at_def, metis node_rank_inject order_antisym)

lemma best_at_other: "best_at S pos r \<Longrightarrow> pos \<noteq> pos' \<Longrightarrow> best_at (insert (pos', n) S) pos r"
  by (auto simp: best_at_def split: option.splits)

lemma best_at_new: "best_at S pos None \<Longrightarrow> best_at (insert (pos, n) S) pos (Some n)"
  by (auto simp: best_at_def)

lemma best_at_old:
  assumes "best_at S pos (Some old)"
  shows "best_at (insert (pos, n) S) pos (Some (if node_rank old < node_rank n then n else old))"
  using assms by (auto simp: best_at_def intro: order_trans [OF _ less_imp_le])

lemma ring_of_unique: "ring_of S r \<Longrightarrow> ring_of S r' \<Longrightarrow> r = r'"
proof (rule smap_eqI)
  assume "ring_of S r" "ring_of S r'"
  then have "best_at S pos (map_of r pos)" "best_at S pos (map_of r' pos)" for pos by (auto simp: ring_of_def)
  then show "map_of r = map_of r'" by (intro ext best_at_unique)
qed (auto simp: ring_of_def)

lemma ring_of_Nil: "ring_of {} []"
  by (simp add: ring_of_def best_at_def)

lemma ring_of_place:
  assumes "ring_of S ring"
  shows "ring_of (insert (pos, n) S) (place_node ring pos n)"
proof -
  have ok: "smap_ok ring" and best: "\<And>p. best_at S p (map_of ring p)" using assms by (auto simp: ring_of_def)
  have "best_at (insert (pos, n) S) p (map_of (place_node ring pos n) p)" for p
  proof (cases "p = pos")
    case False
    then show ?thesis using best_at_other [OF best]
      by (auto simp: place_node_def map_of_put ok split: option.splits)
  next
    case True
    show ?thesis
    proof (cases "map_of ring pos")
      case None
      then show ?thesis using best [of pos] best_at_new True by (simp add: place_node_def map_of_put ok)
    next
      case (Some old)
      then show ?thesis using best [of pos] best_at_old [of S pos old n] True
        by (auto simp: place_node_def CheckIfReplace_rank map_of_put ok)
    qed
  qed
  moreover have "smap_ok (place_node ring pos n)"
    using ok by (auto simp: place_node_def smap_ok_put split: option.splits)
  ultimately show ?thesis by (simp add: ring_of_def)
qed

text \<open>The two loops are one loop over the list of placements.\<close>

definition server_places :: "(32 word \<times> 16 word) \<times> 32 word \<Rightarrow> (32 word \<times> VirtualNode) list" where
  "server_places = (\<lambda>(addr, w). map (\<lambda>v. (Murmur32 (virtual_key addr v) kConsistentHashSeed,
     \<lparr>vn_ip = fst addr, vn_port = snd addr, vn_weight = w\<rparr>)) (map word_of_nat [0..<unat w]))"

lemma place_server_places: "place_server ring s = foldl (\<lambda>r (pos, n). place_node r pos n) ring (server_places s)"
  by (cases s) (simp add: place_server_def server_places_def foldl_map Let_def)

lemma ring_of_places: "ring_of S ring \<Longrightarrow> ring_of (S \<union> set ps) (foldl (\<lambda>r (pos, n). place_node r pos n) ring ps)"
proof (induction ps arbitrary: S ring)
  case (Cons p ps)
  obtain pos n where p: "p = (pos, n)" by fastforce
  from Cons.IH [OF ring_of_place [OF Cons.prems, of pos n]] show ?case by (simp add: p insert_commute Un_insert_left)
qed simp

lemma ring_of_servers: "ring_of S ring \<Longrightarrow> ring_of (S \<union> (\<Union>s \<in> set m. set (server_places s))) (foldl place_server ring m)"
proof (induction m arbitrary: S ring)
  case (Cons s m)
  from Cons.IH [OF ring_of_places [OF Cons.prems, of "server_places s"]]
  show ?case by (simp add: place_server_places Un_assoc)
qed simp

lemma less_unat_range: "v < w \<longleftrightarrow> v \<in> word_of_nat ` {0..<unat w}" for v w :: "32 word"
proof
  assume "v < w"
  then show "v \<in> word_of_nat ` {0..<unat w}"
    by (intro image_eqI [of _ _ "unat v"]) (auto simp: word_less_nat_alt)
next
  assume "v \<in> word_of_nat ` {0..<unat w}"
  then show "v < w"
    by (auto simp: word_less_nat_alt unsigned_of_nat take_bit_nat_eq_self_iff
        intro: le_less_trans [OF take_bit_nat_less_eq_self])
qed

lemma places_of_servers: "smap_ok m \<Longrightarrow> (\<Union>s \<in> set m. set (server_places s)) = placements (map_of m)"
  unfolding placements_def server_places_def less_unat_range
  by (fastforce simp: smap_in_set)

lemma ring_of_Balance: "smap_ok (ch_ips c) \<Longrightarrow> ring_of (placements (map_of (ch_ips c))) (foldl place_server [] (ch_ips c))"
  using ring_of_servers [OF ring_of_Nil, of "ch_ips c"] places_of_servers by simp

text \<open>A reachable ring is the one of its servers, and its servers are those put in and not taken out.\<close>

definition ch_rel :: "ConsistentHash \<Rightarrow> (32 word \<times> 16 word \<rightharpoonup> 32 word) \<Rightarrow> bool" where
  "ch_rel c servers \<longleftrightarrow>
     smap_ok (ch_ips c) \<and> map_of (ch_ips c) = servers \<and> ring_of (placements servers) (ch_hash_ring c)"

lemma ch_rel_new: "ch_rel ConsistentHash_new Map.empty"
proof -
  have "placements Map.empty = {}" by (simp add: placements_def)
  then show ?thesis using ring_of_Nil by (simp add: ch_rel_def ConsistentHash_new_def)
qed

lemma ch_rel_Balance:
  assumes "smap_ok (ch_ips c)" "map_of (ch_ips c) = servers"
  shows "ch_rel (snd (BalanceHashRing c)) servers"
  using ring_of_Balance [OF assms(1)] assms by (simp add: ch_rel_def BalanceHashRing_def)

lemma CH_Put_refines:
  assumes "ch_rel c servers"
  shows "fst (ConsistentHash_Put n c) = kOk" "ch_rel (snd (ConsistentHash_Put n c)) (servers(node_id n \<mapsto> vn_weight n))"
proof -
  let ?c = "c\<lparr>ch_ips := map_put (node_id n) (vn_weight n) (ch_ips c)\<rparr>"
  have "ch_rel (snd (BalanceHashRing ?c)) (servers(node_id n \<mapsto> vn_weight n))"
    using assms by (intro ch_rel_Balance) (auto simp: ch_rel_def smap_ok_put map_of_put)
  moreover have "servers (node_id n) = Some (vn_weight n) \<Longrightarrow> servers(node_id n \<mapsto> vn_weight n) = servers" by (simp add: map_upd_triv)
  ultimately show "ch_rel (snd (ConsistentHash_Put n c)) (servers(node_id n \<mapsto> vn_weight n))"
    using assms by (auto simp: ConsistentHash_Put_def Let_def node_id_def ch_rel_def split: option.split)
  show "fst (ConsistentHash_Put n c) = kOk"
    by (auto simp: ConsistentHash_Put_def BalanceHashRing_def Let_def split: option.split)
qed

lemma CH_Del_refines:
  assumes "ch_rel c servers"
  shows "fst (ConsistentHash_Del n c) = kOk" "ch_rel (snd (ConsistentHash_Del n c)) (servers(node_id n := None))"
proof -
  show "fst (ConsistentHash_Del n c) = kOk" by (simp add: ConsistentHash_Del_def BalanceHashRing_def Let_def)
  have "servers (node_id n) = None \<Longrightarrow> servers(node_id n := None) = servers" by auto
  with assms show "ch_rel (snd (ConsistentHash_Del n c)) (servers(node_id n := None))"
    unfolding ConsistentHash_Del_def Let_def
    by (intro ch_rel_Balance) (auto simp: ch_rel_def node_id_def smap_ok_erase map_of_erase)
qed

section \<open>Clockwise search\<close>

text \<open>The distance on the ring is the difference of positions modulo $2^{32}$.\<close>

definition clockwise :: "32 word set \<Rightarrow> 32 word \<Rightarrow> 32 word \<Rightarrow> bool" where
  "clockwise P h p \<longleftrightarrow> p \<in> P \<and> (\<forall>q \<in> P. p - h \<le> q - h)"

lemma clockwise_unique: "clockwise P h p \<Longrightarrow> clockwise P h q \<Longrightarrow> p = q"
  by (metis clockwise_def order_antisym diff_add_cancel)

lemma clockwise_subset: "clockwise P h p \<Longrightarrow> Q \<subseteq> P \<Longrightarrow> p \<in> Q \<Longrightarrow> clockwise Q h p"
  by (auto simp: clockwise_def)

lemma word_diff_le_cases:
  fixes p q h :: "'a::len word"
  assumes "h \<le> p \<longrightarrow> h \<le> q \<longrightarrow> p \<le> q" "p < h \<longrightarrow> q < h \<and> p \<le> q"
  shows "p - h \<le> q - h"
proof -
  define N :: int where "N = 2 ^ LENGTH('a)"
  have val: "uint (x - h) = (if uint h \<le> uint x then uint x - uint h else uint x - uint h + N)" for x :: "'a word"
    by (auto simp: uint_sub_if_size word_le_def word_size N_def)
  have "uint p < N" "0 \<le> uint q" by (simp_all add: N_def)
  then show ?thesis
    using assms unfolding word_le_def word_less_def val by (auto simp: not_le) (use uint_ge_0 [of q] in linarith)
qed

lemma Get_clockwise:
  assumes "smap_ok (ch_hash_ring c)" "ch_hash_ring c \<noteq> []"
  obtains pos node where
    "clockwise (dom (map_of (ch_hash_ring c))) (Murmur32 key kConsistentHashSeed) pos"
    "map_of (ch_hash_ring c) pos = Some node" "ConsistentHash_Get key c = Inr node"
proof -
  let ?h = "Murmur32 key kConsistentHashSeed" and ?r = "ch_hash_ring c"
  show thesis
  proof (cases "lower_bound ?h ?r")
    case (Some x)
    obtain pos node where x: "x = (pos, node)" by fastforce
    note lb = lower_bound_Some [OF assms(1) Some [unfolded x]]
    have "clockwise (dom (map_of ?r)) ?h pos"
      using lb by (auto simp: clockwise_def intro!: word_diff_le_cases)
    then show thesis using that [of pos node] lb(1) assms(2) Some by (simp add: ConsistentHash_Get_def x)
  next
    case None
    obtain pos node m where r: "?r = (pos, node) # m" using assms(2) by (cases ?r) auto
    have least: "q < ?h \<and> pos \<le> q" if "q \<in> dom (map_of ?r)" for q
      using that lower_bound_None [OF None that] smap_hd_least [of pos node m q] assms(1) unfolding r by blast
    then have "pos < ?h" unfolding r by simp
    then have "clockwise (dom (map_of ?r)) ?h pos"
      using least by (auto simp: clockwise_def r intro!: word_diff_le_cases)
    then show thesis using that [of pos node] None assms(2) by (simp add: ConsistentHash_Get_def r)
  qed
qed

lemma ch_ring_dom: "ring_of S r \<Longrightarrow> dom (map_of r) = fst ` S"
  by (force simp: ring_of_def best_at_def image_iff split: option.splits)

lemma ring_at: "ring_of S r \<Longrightarrow> best_at S pos (map_of r pos)"
  by (simp add: ring_of_def)

lemma Get_spec:
  assumes "ch_rel c servers"
  shows "case ConsistentHash_Get key c of
      Inl e \<Rightarrow> e = kRingEmpty \<and> placements servers = {}
    | Inr n \<Rightarrow> \<exists>pos. clockwise (fst ` placements servers) (Murmur32 key kConsistentHashSeed) pos \<and>
        best_at (placements servers) pos (Some n)"
proof (cases "ch_hash_ring c = []")
  case True
  then have "fst ` placements servers = {}" using assms ch_ring_dom by (fastforce simp: ch_rel_def)
  then show ?thesis using True by (simp add: ConsistentHash_Get_def)
next
  case False
  have ring: "ring_of (placements servers) (ch_hash_ring c)" and ok: "smap_ok (ch_hash_ring c)"
    using assms by (auto simp: ch_rel_def ring_of_def)
  obtain pos node where
    "clockwise (dom (map_of (ch_hash_ring c))) (Murmur32 key kConsistentHashSeed) pos"
    "map_of (ch_hash_ring c) pos = Some node" "ConsistentHash_Get key c = Inr node"
    using Get_clockwise [OF ok False] .
  then show ?thesis using ch_ring_dom [OF ring] ring_at [OF ring, of pos] by auto
qed

lemma Get_Inr:
  assumes "ch_rel c servers" "ConsistentHash_Get key c = Inr n"
  obtains pos where "clockwise (fst ` placements servers) (Murmur32 key kConsistentHashSeed) pos"
    "best_at (placements servers) pos (Some n)"
  using Get_spec [OF assms(1), of key] assms(2) by auto

lemma Get_nonempty:
  assumes "ch_rel c servers" "placements servers \<noteq> {}"
  obtains n where "ConsistentHash_Get key c = Inr n"
  using Get_spec [OF assms(1), of key] assms(2) by (cases "ConsistentHash_Get key c") auto

lemma Get_Inr_eq:
  assumes "ch_rel c servers" "clockwise (fst ` placements servers) (Murmur32 key kConsistentHashSeed) pos"
    "best_at (placements servers) pos (Some n)"
  shows "ConsistentHash_Get key c = Inr n"
proof -
  have "placements servers \<noteq> {}" using assms(3) by (auto simp: best_at_def)
  then obtain m where m: "ConsistentHash_Get key c = Inr m" using Get_nonempty [OF assms(1)] by blast
  then obtain p where p: "clockwise (fst ` placements servers) (Murmur32 key kConsistentHashSeed) p"
      "best_at (placements servers) p (Some m)" using Get_Inr [OF assms(1)] by blast
  have "p = pos" using p(1) assms(2) by (rule clockwise_unique)
  then have "Some m = Some n" using best_at_unique p(2) assms(3) by blast
  then show ?thesis using m by simp
qed

lemma placements_iff:
  "(pos, n) \<in> placements servers \<longleftrightarrow> servers (node_id n) = Some (vn_weight n) \<and>
     (\<exists>v < vn_weight n. pos = Murmur32 (virtual_key (node_id n) v) kConsistentHashSeed)"
  by (cases n) (auto simp: placements_def node_id_def)

lemma placements_without: "placements (servers(a := None)) = {(pos, n) \<in> placements servers. node_id n \<noteq> a}"
  by (auto simp: placements_iff split: if_splits)

text \<open>Without a server, the keys of the others stay where they are.\<close>

lemma Get_without:
  assumes "ch_rel c servers" "ch_rel c' (servers(a := None))" "ConsistentHash_Get key c = Inr m" "node_id m \<noteq> a"
  shows "ConsistentHash_Get key c' = Inr m"
proof -
  let ?S = "placements servers" and ?S' = "placements (servers(a := None))"
  obtain pos where pos: "clockwise (fst ` ?S) (Murmur32 key kConsistentHashSeed) pos" "best_at ?S pos (Some m)"
    using Get_Inr [OF assms(1,3)] .
  have sub: "?S' \<subseteq> ?S" and mem: "(pos, m) \<in> ?S'" using pos(2) assms(4) by (auto simp: placements_without best_at_def)
  have "clockwise (fst ` ?S') (Murmur32 key kConsistentHashSeed) pos"
    using clockwise_subset [OF pos(1) image_mono [OF sub]] mem by force
  moreover have "best_at ?S' pos (Some m)" using pos(2) sub mem by (auto simp: best_at_def)
  ultimately show ?thesis by (rule Get_Inr_eq [OF assms(2)])
qed

section \<open>Runs\<close>

datatype ch_op = CPut VirtualNode | CDel VirtualNode

fun ch_exec :: "ch_op \<Rightarrow> ConsistentHash \<Rightarrow> Code \<times> ConsistentHash" where
  "ch_exec (CPut n) c = ConsistentHash_Put n c"
| "ch_exec (CDel n) c = ConsistentHash_Del n c"

fun ch_spec :: "ch_op \<Rightarrow> (32 word \<times> 16 word \<rightharpoonup> 32 word) \<Rightarrow> Code \<times> (32 word \<times> 16 word \<rightharpoonup> 32 word)" where
  "ch_spec (CPut n) servers = (kOk, servers(node_id n \<mapsto> vn_weight n))"
| "ch_spec (CDel n) servers = (kOk, servers(node_id n := None))"

interpretation ch: simulation ch_exec ch_spec ch_rel
proof
  fix c servers op
  assume rel: "ch_rel c servers"
  show "fst (ch_exec op c) = fst (ch_spec op servers)" by (cases op) (simp_all add: CH_Put_refines(1) [OF rel] CH_Del_refines(1) [OF rel])
  show "ch_rel (snd (ch_exec op c)) (snd (ch_spec op servers))"
    by (cases op) (simp_all add: CH_Put_refines(2) [OF rel] CH_Del_refines(2) [OF rel])
qed

definition ch_after :: "ch_op list \<Rightarrow> ConsistentHash" where
  "ch_after ops = snd (run_ops ch_exec ops ConsistentHash_new)"

definition servers_after :: "ch_op list \<Rightarrow> (32 word \<times> 16 word \<rightharpoonup> 32 word)" where
  "servers_after ops = snd (run_ops ch_spec ops Map.empty)"

lemma ch_rel_after: "ch_rel (ch_after ops) (servers_after ops)"
  unfolding ch_after_def servers_after_def using ch.run_simulates [OF ch_rel_new] by blast

text \<open>C31: After any sequence of \<open>Put\<close> and \<open>Del\<close> the ring of the consistent hash holds, at every position, the
  server that wins it by weight, address and port among those placed there, whatever the order of the
  operations; \<open>Get\<close> yields the winner of the position that is first clockwise (smallest difference modulo
  2 to the 32) from the hash of the key, and fails with kRingEmpty just when no server has a weight.\<close>

theorem ConsistentHash_ring:
  "(\<forall>pos. best_at (placements (servers_after ops)) pos (map_of (ch_hash_ring (ch_after ops)) pos)) \<and>
   (case ConsistentHash_Get key (ch_after ops) of
      Inl e \<Rightarrow> e = kRingEmpty \<and> placements (servers_after ops) = {}
    | Inr n \<Rightarrow> \<exists>pos. clockwise (fst ` placements (servers_after ops)) (Murmur32 key kConsistentHashSeed) pos \<and>
        best_at (placements (servers_after ops)) pos (Some n))"
  using Get_spec [OF ch_rel_after [of ops], of key] ch_rel_after [of ops] by (simp add: ch_rel_def ring_of_def)

text \<open>C32: A change of one server moves no other keys: a key served by another server is still served by it
  when the server is removed, and when it is added or its weight changes, the key either stays or moves to
  that server.\<close>

theorem ConsistentHash_stable:
  assumes "ConsistentHash_Get key (ch_after ops) = Inr m" "node_id m \<noteq> node_id n"
  shows "ConsistentHash_Get key (snd (ConsistentHash_Del n (ch_after ops))) = Inr m \<and>
    (let r = ConsistentHash_Get key (snd (ConsistentHash_Put n (ch_after ops))) in r = Inr m \<or> r = Inr n)"
proof -
  let ?c = "ch_after ops" and ?servers = "servers_after ops" and ?a = "node_id n"
  note rel = ch_rel_after [of ops]
  note del = Get_without [OF rel CH_Del_refines(2) [OF rel] assms]
  note put = CH_Put_refines(2) [OF rel, of n]
  have "?servers(?a := None) = (?servers(?a \<mapsto> vn_weight n))(?a := None)" by simp
  then have gone: "ch_rel (snd (ConsistentHash_Del n ?c)) ((?servers(?a \<mapsto> vn_weight n))(?a := None))"
    using CH_Del_refines(2) [OF rel, of n] by simp
  obtain pos where "(pos, m) \<in> placements ?servers" using Get_Inr [OF rel assms(1)] by (auto simp: best_at_def)
  then have "(pos, m) \<in> placements (?servers(?a \<mapsto> vn_weight n))" using assms(2) by (simp add: placements_iff)
  then obtain m' where m': "ConsistentHash_Get key (snd (ConsistentHash_Put n ?c)) = Inr m'"
    using Get_nonempty [OF put] by blast
  have "m' = m \<or> m' = n"
  proof (cases "node_id m' = ?a")
    case True
    obtain p where "(p, m') \<in> placements (?servers(?a \<mapsto> vn_weight n))" using Get_Inr [OF put m'] by (auto simp: best_at_def)
    then show ?thesis using True by (auto simp: placements_iff node_id_def)
  next
    case False
    then have "ConsistentHash_Get key (snd (ConsistentHash_Del n ?c)) = Inr m'" by (rule Get_without [OF put gone m'])
    then show ?thesis using del by simp
  qed
  then show ?thesis using del m' by (auto simp: Let_def)
qed

lemma Get_one_server:
  "ConsistentHash_Get key (ch_after [CPut \<lparr>vn_ip = 1, vn_port = 80, vn_weight = 1\<rparr>]) =
     Inr \<lparr>vn_ip = 1, vn_port = 80, vn_weight = 1\<rparr>"
  by (simp add: ch_after_def ConsistentHash_new_def ConsistentHash_Put_def ConsistentHash_Get_def BalanceHashRing_def
      place_server_def place_node_def lower_bound_def Let_def)

theorem ConsistentHash_stable_witness:
  "ConsistentHash_Get [97] (snd (ConsistentHash_Del \<lparr>vn_ip = 2, vn_port = 80, vn_weight = 3\<rparr>
       (ch_after [CPut \<lparr>vn_ip = 1, vn_port = 80, vn_weight = 1\<rparr>]))) = Inr \<lparr>vn_ip = 1, vn_port = 80, vn_weight = 1\<rparr>"
  using ConsistentHash_stable [OF Get_one_server [of "[97]"], of "\<lparr>vn_ip = 2, vn_port = 80, vn_weight = 3\<rparr>"]
  by (simp add: node_id_def)

end
