(* ===== verification/Skip_List.thy ===== *)
theory Skip_List
  imports Std_Map
begin

text \<open>
  The skip list of base/skip_list.h on an explicit heap: nodes with a column of links, found by
  address. A null, dangling or too short dereference is \<open>None\<close>, and so is a search that does not end.
  Keys are of a linear order, which the comparison functor of the template decides. The answers of
  \<open>rand()\<close> are an argument.
\<close>

section \<open>Model\<close>

type_synonym node_addr = nat

definition kMaxHeight :: nat where "kMaxHeight = 20"

record ('k, 'v) SkipNode =
  sn_key :: 'k
  sn_value :: 'v
  sn_height :: nat
  sn_next :: "node_addr option list"

type_synonym ('k, 'v) mem = "node_addr \<rightharpoonup> ('k, 'v) SkipNode"

record ('k, 'v) SkipList =
  sl_head :: "node_addr option"
  sl_max_height :: nat
  sl_is_init :: bool
  sl_mem :: "('k, 'v) mem"
  sl_fresh :: node_addr

definition SkipList_new :: "('k, 'v) SkipList" where
  "SkipList_new = \<lparr>sl_head = None, sl_max_height = 1, sl_is_init = False, sl_mem = Map.empty, sl_fresh = 0\<rparr>"

definition get_link :: "('k, 'v) mem \<Rightarrow> node_addr \<Rightarrow> nat \<Rightarrow> node_addr option option" where
  "get_link m a i = (case m a of None \<Rightarrow> None | Some n \<Rightarrow> if i < length (sn_next n) then Some (sn_next n ! i) else None)"

definition set_link :: "node_addr \<Rightarrow> nat \<Rightarrow> node_addr option \<Rightarrow> ('k, 'v) mem \<Rightarrow> ('k, 'v) mem option" where
  "set_link a i b m = (case m a of None \<Rightarrow> None
     | Some n \<Rightarrow> if i < length (sn_next n) then Some (m(a \<mapsto> n\<lparr>sn_next := (sn_next n)[i := b]\<rparr>)) else None)"

text \<open>\<open>GetDroppingRand\<close> of base/random.cc: the i-th call of \<open>rand()\<close> answers \<open>rands i\<close>.\<close>

function dropping_loop :: "nat \<Rightarrow> (nat \<Rightarrow> nat) \<Rightarrow> nat \<Rightarrow> nat" where
  "dropping_loop max_num rands num =
     (let factor = (if 0 < max_num div 4 then max_num div 4 else 1) in
      if max_num \<le> num \<or> rands num mod factor = 0 then num else dropping_loop max_num rands (num + 1))"
  by pat_completeness auto
termination by (relation "measure (\<lambda>(max_num, rands, num). max_num - num)") auto

declare dropping_loop.simps [simp del]

definition GetDroppingRand :: "nat \<Rightarrow> (nat \<Rightarrow> nat) \<Rightarrow> nat" where
  "GetDroppingRand max_num rands = dropping_loop max_num rands 1"

text \<open>
  The search of \<open>Put\<close> and \<open>Get\<close>: \<open>Inl\<close> the node with the key, or \<open>Inr\<close> the last node before it on every
  level (which only \<open>Put\<close> uses).
\<close>

partial_function (option) search_loop ::
  "('k::linorder, 'v) mem \<Rightarrow> 'k \<Rightarrow> nat \<Rightarrow> node_addr \<Rightarrow> node_addr option list \<Rightarrow> (node_addr + node_addr option list) option" where
  "search_loop m key level cur prevs =
     Option.bind (get_link m cur level) (\<lambda>nxt.
     case nxt of
       None \<Rightarrow>
         if level = 0 then Some (Inr (prevs[level := Some cur]))
         else search_loop m key (level - 1) cur (prevs[level := Some cur])
     | Some b \<Rightarrow> Option.bind (m b) (\<lambda>n.
         if key < sn_key n then
           if level = 0 then Some (Inr (prevs[level := Some cur]))
           else search_loop m key (level - 1) cur (prevs[level := Some cur])
         else if sn_key n = key then Some (Inl b)
         else search_loop m key level b prevs))"

text \<open>The search of \<open>Del\<close> stops before the node with the key on every level.\<close>

partial_function (option) before_loop ::
  "('k::linorder, 'v) mem \<Rightarrow> 'k \<Rightarrow> nat \<Rightarrow> node_addr \<Rightarrow> node_addr option list \<Rightarrow> node_addr option list option" where
  "before_loop m key level cur prevs =
     Option.bind (get_link m cur level) (\<lambda>nxt.
     case nxt of
       None \<Rightarrow>
         if level = 0 then Some (prevs[level := Some cur])
         else before_loop m key (level - 1) cur (prevs[level := Some cur])
     | Some b \<Rightarrow> Option.bind (m b) (\<lambda>n.
         if key \<le> sn_key n then
           if level = 0 then Some (prevs[level := Some cur])
           else before_loop m key (level - 1) cur (prevs[level := Some cur])
         else before_loop m key level b prevs))"

text \<open>The two loops of \<open>Put\<close> that link the new node, from the upper levels down.\<close>

primrec raise_loop :: "node_addr \<Rightarrow> node_addr \<Rightarrow> nat \<Rightarrow> nat \<Rightarrow> ('k, 'v) mem \<Rightarrow> ('k, 'v) mem option" where
  "raise_loop head new_node max_height 0 m = Some m"
| "raise_loop head new_node max_height (Suc i) m =
     (if max_height - 1 < i then
        Option.bind (set_link head i (Some new_node) m) (\<lambda>m.
        Option.bind (set_link new_node i None m) (raise_loop head new_node max_height i))
      else Some m)"

primrec link_loop :: "node_addr option list \<Rightarrow> node_addr \<Rightarrow> nat \<Rightarrow> ('k, 'v) mem \<Rightarrow> ('k, 'v) mem option" where
  "link_loop prevs new_node 0 m = Some m"
| "link_loop prevs new_node (Suc i) m =
     Option.bind (prevs ! i) (\<lambda>p.
     Option.bind (get_link m p i) (\<lambda>nxt.
     Option.bind (set_link new_node i nxt m) (\<lambda>m.
     Option.bind (set_link p i (Some new_node) m) (link_loop prevs new_node i))))"

definition set_height :: "node_addr \<Rightarrow> nat \<Rightarrow> ('k, 'v) mem \<Rightarrow> ('k, 'v) mem option" where
  "set_height a h m = (case m a of None \<Rightarrow> None | Some n \<Rightarrow> Some (m(a \<mapsto> n\<lparr>sn_height := h\<rparr>)))"

definition SkipList_Put :: "'k::linorder \<Rightarrow> 'v \<Rightarrow> (nat \<Rightarrow> nat) \<Rightarrow> ('k, 'v) SkipList \<Rightarrow> (Code \<times> ('k, 'v) SkipList) option" where
  "SkipList_Put key val rands s =
     (if \<not> sl_is_init s then Some (kNotInit, s)
      else Option.bind (sl_head s) (\<lambda>head.
        Option.bind (search_loop (sl_mem s) key (sl_max_height s - 1) head (replicate kMaxHeight None)) (\<lambda>r.
        case r of Inl _ \<Rightarrow> Some (kExist, s)
        | Inr prevs \<Rightarrow>
            let new_height = GetDroppingRand kMaxHeight rands;
                new_node = sl_fresh s;
                m = (sl_mem s)(new_node \<mapsto> \<lparr>sn_key = key, sn_value = val, sn_height = new_height, sn_next = replicate new_height None\<rparr>)
            in Option.bind
              (if sl_max_height s < new_height then
                 Option.bind (raise_loop head new_node (sl_max_height s) new_height m) (\<lambda>m.
                 Option.bind (set_height head new_height m) (\<lambda>m. Some (sl_max_height s, new_height, m)))
               else Some (new_height, sl_max_height s, m)) (\<lambda>(tmp_height, max_height, m).
              Option.bind (link_loop prevs new_node tmp_height m) (\<lambda>m.
              Some (kOk, s\<lparr>sl_mem := m, sl_max_height := max_height, sl_fresh := new_node + 1\<rparr>))))))"

definition SkipList_Get :: "'k::linorder \<Rightarrow> ('k, 'v) SkipList \<Rightarrow> 'v res option" where
  "SkipList_Get key s =
     (if \<not> sl_is_init s then Some (Inl kNotInit)
      else Option.bind (sl_head s) (\<lambda>head.
        Option.bind (search_loop (sl_mem s) key (sl_max_height s - 1) head (replicate kMaxHeight None)) (\<lambda>r.
        case r of Inl a \<Rightarrow> Option.bind (sl_mem s a) (\<lambda>n. Some (Inr (sn_value n)))
        | Inr _ \<Rightarrow> Some (Inl kNotFound))))"

primrec unlink_loop :: "node_addr option list \<Rightarrow> node_addr \<Rightarrow> nat \<Rightarrow> ('k, 'v) mem \<Rightarrow> ('k, 'v) mem option" where
  "unlink_loop prevs old 0 m = Some m"
| "unlink_loop prevs old (Suc i) m =
     Option.bind (prevs ! i) (\<lambda>p.
     Option.bind (get_link m old i) (\<lambda>nxt.
     Option.bind (set_link p i nxt m) (unlink_loop prevs old i)))"

text \<open>\<open>for (int i = max_height_ - 1; i >= 1; --i)\<close>\<close>

primrec shrink_loop :: "node_addr \<Rightarrow> nat \<Rightarrow> ('k, 'v) mem \<Rightarrow> ('k, 'v) mem option" where
  "shrink_loop head 0 m = Some m"
| "shrink_loop head (Suc i) m =
     Option.bind (get_link m head (Suc i)) (\<lambda>nxt.
     case nxt of
       None \<Rightarrow> Option.bind (m head) (\<lambda>h. Option.bind (set_height head (sn_height h - 1) m) (shrink_loop head i))
     | Some _ \<Rightarrow> Some m)"

definition SkipList_Del :: "'k::linorder \<Rightarrow> ('k, 'v) SkipList \<Rightarrow> (Code \<times> ('k, 'v) SkipList) option" where
  "SkipList_Del key s =
     (if \<not> sl_is_init s then Some (kNotInit, s)
      else Option.bind (sl_head s) (\<lambda>head.
        Option.bind (before_loop (sl_mem s) key (sl_max_height s - 1) head (replicate kMaxHeight None)) (\<lambda>prevs.
        Option.bind (prevs ! 0) (\<lambda>p.
        Option.bind (get_link (sl_mem s) p 0) (\<lambda>old.
        case old of None \<Rightarrow> Some (kNotFound, s)
        | Some old \<Rightarrow>
            Option.bind (sl_mem s old) (\<lambda>n.
            if key < sn_key n then Some (kNotFound, s)
            else
              Option.bind (unlink_loop prevs old (sn_height n) (sl_mem s)) (\<lambda>m.
              Option.bind ((m(old := None)) head) (\<lambda>h.
              if sl_max_height s \<noteq> sn_height h then None
              else
                Option.bind (shrink_loop head (sl_max_height s - 1) (m(old := None))) (\<lambda>m.
                Option.bind (m head) (\<lambda>h.
                Some (kOk, s\<lparr>sl_mem := m, sl_max_height := sn_height h\<rparr>)))))))))))"

text \<open>\<open>key0\<close> and \<open>val0\<close> are what the default constructors leave in the head.\<close>

definition SkipList_Init :: "'k \<Rightarrow> 'v \<Rightarrow> ('k, 'v) SkipList \<Rightarrow> Code \<times> ('k, 'v) SkipList" where
  "SkipList_Init key0 val0 s =
     (let head = sl_fresh s in
      (kOk, s\<lparr>sl_head := Some head, sl_is_init := True, sl_fresh := head + 1,
         sl_mem := (sl_mem s)(head \<mapsto> \<lparr>sn_key = key0, sn_value = val0, sn_height = sl_max_height s, sn_next = replicate kMaxHeight None\<rparr>)\<rparr>))"

partial_function (option) destroy_loop :: "node_addr option \<Rightarrow> ('k, 'v) mem \<Rightarrow> ('k, 'v) mem option" where
  "destroy_loop start m =
     (case start of None \<Rightarrow> Some m
      | Some cur \<Rightarrow> Option.bind (get_link m cur 0) (\<lambda>start. destroy_loop start (m(cur := None))))"

definition SkipList_Destroy :: "('k, 'v) SkipList \<Rightarrow> (Code \<times> ('k, 'v) SkipList) option" where
  "SkipList_Destroy s =
     (if sl_head s = None then Some (kOk, s)
      else Option.bind (destroy_loop (sl_head s) (sl_mem s)) (\<lambda>m. Some (kOk, s\<lparr>sl_mem := m\<rparr>)))"

text \<open>The iterator is the address of its node.\<close>

definition Iterator_SetFirst :: "('k, 'v) SkipList \<Rightarrow> node_addr option option" where
  "Iterator_SetFirst s = Option.bind (sl_head s) (\<lambda>head. get_link (sl_mem s) head 0)"

definition Iterator_GoNext :: "('k, 'v) SkipList \<Rightarrow> node_addr option \<Rightarrow> (Code \<times> node_addr option) option" where
  "Iterator_GoNext s cur_node =
     (case cur_node of None \<Rightarrow> Some (kInvalidParam, cur_node)
      | Some a \<Rightarrow> Option.bind (get_link (sl_mem s) a 0) (\<lambda>b. Some (kOk, b)))"

definition Iterator_GetKey :: "('k, 'v) SkipList \<Rightarrow> node_addr option \<Rightarrow> 'k res option" where
  "Iterator_GetKey s cur_node =
     (case cur_node of None \<Rightarrow> Some (Inl kInvalidParam) | Some a \<Rightarrow> Option.bind (sl_mem s a) (\<lambda>n. Some (Inr (sn_key n))))"

definition Iterator_GetValue :: "('k, 'v) SkipList \<Rightarrow> node_addr option \<Rightarrow> 'v res option" where
  "Iterator_GetValue s cur_node =
     (case cur_node of None \<Rightarrow> Some (Inl kInvalidParam) | Some a \<Rightarrow> Option.bind (sl_mem s a) (\<lambda>n. Some (Inr (sn_value n))))"

definition Iterator_GetHeight :: "('k, 'v) SkipList \<Rightarrow> node_addr option \<Rightarrow> nat res option" where
  "Iterator_GetHeight s cur_node =
     (case cur_node of None \<Rightarrow> Some (Inl kInvalidParam) | Some a \<Rightarrow> Option.bind (sl_mem s a) (\<lambda>n. Some (Inr (sn_height n))))"

section \<open>The chain of nodes\<close>

text \<open>
  The number of links of a node, and what it means that a list of addresses is linked: on every level
  a node points to the next one that reaches it.
\<close>

definition lvl :: "('k, 'v) mem \<Rightarrow> node_addr \<Rightarrow> nat" where
  "lvl m a = (case m a of None \<Rightarrow> 0 | Some n \<Rightarrow> length (sn_next n))"

fun linked :: "('k, 'v) mem \<Rightarrow> node_addr list \<Rightarrow> bool" where
  "linked m [] \<longleftrightarrow> True"
| "linked m (a # vs) \<longleftrightarrow> (\<forall>i < lvl m a. get_link m a i = Some (find (\<lambda>b. i < lvl m b) vs)) \<and> linked m vs"

lemma linked_next: "linked m (us @ a # vs) \<Longrightarrow> i < lvl m a \<Longrightarrow> get_link m a i = Some (find (\<lambda>b. i < lvl m b) vs)"
  by (induction us) auto

lemma linked_append: "linked m (us @ vs) \<Longrightarrow> linked m vs"
  by (induction us) auto

lemma linkedI:
  "(\<And>us a vs i. xs = us @ a # vs \<Longrightarrow> i < lvl m a \<Longrightarrow> get_link m a i = Some (find (\<lambda>b. i < lvl m b) vs)) \<Longrightarrow> linked m xs"
proof (induction xs)
  case (Cons x xs)
  show ?case using Cons.prems [of "[]"] Cons.IH Cons.prems [of "x # _"] by simp
qed simp

lemma find_append: "find P (xs @ ys) = (case find P xs of None \<Rightarrow> find P ys | Some x \<Rightarrow> Some x)"
  by (induction xs) auto

lemma find_split: "find P xs = Some x \<Longrightarrow> \<exists>us vs. xs = us @ x # vs \<and> P x \<and> (\<forall>u \<in> set us. \<not> P u)"
proof (induction xs)
  case (Cons y xs)
  show ?case
  proof (cases "P y")
    case True
    then have "y = x" using Cons.prems by simp
    then have "y # xs = [] @ x # xs" "P x" "\<forall>u \<in> set []. \<not> P u" using True by simp_all
    then show ?thesis by blast
  next
    case False
    then obtain us vs where "xs = us @ x # vs" "P x" "\<forall>u \<in> set us. \<not> P u" using Cons by auto
    then have "y # xs = (y # us) @ x # vs" "P x" "\<forall>u \<in> set (y # us). \<not> P u" using False by simp_all
    then show ?thesis by blast
  qed
qed simp

definition last_tall :: "('k, 'v) mem \<Rightarrow> nat \<Rightarrow> node_addr list \<Rightarrow> node_addr" where
  "last_tall m i xs = last (filter (\<lambda>a. i < lvl m a) xs)"

lemma last_tall_eq: "i < lvl m a \<Longrightarrow> find (\<lambda>b. i < lvl m b) vs = None \<Longrightarrow> last_tall m i (us @ a # vs) = a"
  by (simp add: last_tall_def find_None_iff filter_empty_conv)

text \<open>The chain cut at a key: the nodes before it and those from it on.\<close>

definition cut :: "('k::linorder, 'v) mem \<Rightarrow> 'k \<Rightarrow> node_addr \<Rightarrow> node_addr list \<Rightarrow> node_addr list \<Rightarrow> bool" where
  "cut m key head pre post \<longleftrightarrow>
     linked m (head # pre @ post) \<and>
     (\<forall>a \<in> set pre. \<exists>n. m a = Some n \<and> sn_key n < key \<and> sn_next n \<noteq> []) \<and>
     (\<forall>a \<in> set post. \<exists>n. m a = Some n \<and> key \<le> sn_key n \<and> sn_next n \<noteq> [])"

definition preds :: "('k, 'v) mem \<Rightarrow> node_addr list \<Rightarrow> nat \<Rightarrow> nat \<Rightarrow> node_addr option list \<Rightarrow> bool" where
  "preds m xs lo hi prevs \<longleftrightarrow> hi \<le> length prevs \<and> (\<forall>l. lo \<le> l \<and> l < hi \<longrightarrow> prevs ! l = Some (last_tall m l xs))"

lemma preds_step:
  "preds m xs (Suc l) hi prevs \<Longrightarrow> last_tall m l xs = a \<Longrightarrow> l < hi \<Longrightarrow> preds m xs l hi (prevs[l := Some a])"
  by (auto simp: preds_def nth_list_update le_Suc_eq Suc_le_eq)

text \<open>One step of either search: on to a node before the key, or stop on this level.\<close>

lemma search_step:
  assumes cut: "cut m key head pre post" and split: "head # pre = us @ cur # ws" and tall: "level < lvl m cur"
  obtains
    (Move) b us' ws' n where "get_link m cur level = Some (Some b)" "m b = Some n" "sn_key n < key"
      "head # pre = us' @ b # ws'" "level < lvl m b" "length ws' < length ws"
  | (Stop) "get_link m cur level = Some (find (\<lambda>b. level < lvl m b) post)" "last_tall m level (head # pre) = cur"
proof -
  have "linked m ((head # pre) @ post)" using cut by (simp add: cut_def)
  then have "linked m ((us @ cur # ws) @ post)" unfolding split .
  then have nxt: "get_link m cur level = Some (find (\<lambda>b. level < lvl m b) (ws @ post))"
    using linked_next [of m us cur "ws @ post"] tall by simp
  show thesis
  proof (cases "find (\<lambda>b. level < lvl m b) ws")
    case None
    then show thesis using Stop nxt last_tall_eq [OF tall None, of us] split by (simp add: find_append)
  next
    case (Some b)
    then obtain vs ws' where ws: "ws = vs @ b # ws'" "level < lvl m b" using find_split [OF Some] by blast
    have "b \<in> set pre" using split ws by (cases us) auto
    then obtain n where n: "m b = Some n" "sn_key n < key" using cut by (auto simp: cut_def)
    have "get_link m cur level = Some (Some b)" using nxt Some by (simp add: find_append)
    moreover have "head # pre = (us @ cur # vs) @ b # ws'" using split ws by simp
    moreover have "length ws' < length ws" using ws by simp
    ultimately show thesis using Move n ws(2) by blast
  qed
qed

lemma before_loop_preds:
  assumes "cut m key head pre post" "head # pre = us @ cur # ws" "level < lvl m cur"
    "preds m (head # pre) (Suc level) hi prevs" "level < hi"
  shows "\<exists>prevs'. before_loop m key level cur prevs = Some prevs' \<and> preds m (head # pre) 0 hi prevs'"
  using assms(2-)
proof (induction "level + length ws" arbitrary: level us cur ws prevs rule: less_induct)
  case less
  show ?case using assms(1) less.prems(1,2)
  proof (cases rule: search_step)
    case (Move b us' ws' n)
    then have "\<not> key \<le> sn_key n" by simp
    with Move have "before_loop m key level cur prevs = before_loop m key level b prevs"
      by (subst before_loop.simps) simp
    then show ?thesis using less.hyps [of level ws' us' b prevs] less.prems Move by simp
  next
    case Stop
    let ?r = "find (\<lambda>b. level < lvl m b) post" and ?prevs = "prevs[level := Some cur]"
    have ge: "key \<le> sn_key (the (m b)) \<and> m b \<noteq> None" if "?r = Some b" for b
      using assms(1) that by (fastforce simp: cut_def find_Some_iff dest: nth_mem)
    have preds: "preds m (head # pre) level hi ?prevs" using preds_step [OF less.prems(3) Stop(2) less.prems(4)] .
    have "before_loop m key level cur prevs =
        (if level = 0 then Some ?prevs else before_loop m key (level - 1) cur ?prevs)"
      using Stop(1) ge by (subst before_loop.simps) (cases ?r; force)
    then show ?thesis
      using less.hyps [of "level - 1" ws us cur ?prevs] preds less.prems by (cases level) auto
  qed
qed

lemma search_loop_preds:
  assumes "cut m key head pre post" "head # pre = us @ cur # ws" "level < lvl m cur"
    "preds m (head # pre) (Suc level) hi prevs" "level < hi"
  shows "(\<exists>a n. search_loop m key level cur prevs = Some (Inl a) \<and> a \<in> set post \<and> m a = Some n \<and> sn_key n = key) \<or>
    (\<exists>prevs'. search_loop m key level cur prevs = Some (Inr prevs') \<and> preds m (head # pre) 0 hi prevs' \<and>
      (case post of [] \<Rightarrow> True | b # _ \<Rightarrow> key < sn_key (the (m b))))"
  using assms(2-)
proof (induction "level + length ws" arbitrary: level us cur ws prevs rule: less_induct)
  case less
  show ?case using assms(1) less.prems(1,2)
  proof (cases rule: search_step)
    case (Move b us' ws' n)
    then have "search_loop m key level cur prevs = search_loop m key level b prevs"
      by (subst search_loop.simps) (auto simp: not_le)
    then show ?thesis using less.hyps [of level ws' us' b prevs] less.prems Move by simp
  next
    case Stop
    let ?r = "find (\<lambda>b. level < lvl m b) post" and ?prevs = "prevs[level := Some cur]"
    have ge: "b \<in> set post \<and> key \<le> sn_key (the (m b)) \<and> m b \<noteq> None" if "?r = Some b" for b
      using assms(1) that by (fastforce simp: cut_def find_Some_iff dest: nth_mem)
    show ?thesis
    proof (cases "\<exists>b. ?r = Some b \<and> sn_key (the (m b)) = key")
      case True
      then obtain b where b: "?r = Some b" "sn_key (the (m b)) = key" by blast
      then have "search_loop m key level cur prevs = Some (Inl b)"
        using Stop(1) ge by (subst search_loop.simps) force
      then show ?thesis using b ge by force
    next
      case False
      have "search_loop m key level cur prevs =
          (if level = 0 then Some (Inr ?prevs) else search_loop m key (level - 1) cur ?prevs)"
        using Stop(1) ge False by (subst search_loop.simps) (cases ?r; force)
      moreover have "preds m (head # pre) level hi ?prevs" using preds_step [OF less.prems(3) Stop(2) less.prems(4)] .
      moreover have "case post of [] \<Rightarrow> True | b # _ \<Rightarrow> key < sn_key (the (m b))" if "level = 0"
      proof (cases post)
        case (Cons b bs)
        then have "0 < lvl m b" using assms(1) by (auto simp: cut_def lvl_def)
        then show ?thesis using Cons that ge [of b] False by force
      qed simp
      ultimately show ?thesis
        using less.hyps [of "level - 1" ws us cur ?prevs] less.prems by (cases level) auto
    qed
  qed
qed

section \<open>Changing the links\<close>

text \<open>Two heaps with the same nodes up to their links.\<close>

definition shape :: "('k, 'v) mem \<Rightarrow> ('k, 'v) mem \<Rightarrow> bool" where
  "shape m m' \<longleftrightarrow> (\<forall>a. map_option (\<lambda>n. (sn_key n, sn_value n, sn_height n, length (sn_next n))) (m' a) =
     map_option (\<lambda>n. (sn_key n, sn_value n, sn_height n, length (sn_next n))) (m a))"

lemma shape_refl: "shape m m" by (simp add: shape_def)

lemma shape_trans: "shape m m' \<Longrightarrow> shape m' m'' \<Longrightarrow> shape m m''" by (simp add: shape_def)

lemma shape_Some:
  assumes "shape m m'" "m a = Some n"
  obtains n' where "m' a = Some n'" "sn_key n' = sn_key n" "sn_value n' = sn_value n" "sn_height n' = sn_height n"
    "length (sn_next n') = length (sn_next n)"
proof -
  have "map_option (\<lambda>n. (sn_key n, sn_value n, sn_height n, length (sn_next n))) (m' a) =
      Some (sn_key n, sn_value n, sn_height n, length (sn_next n))"
    using assms unfolding shape_def by simp
  then show thesis using that by auto
qed

lemma shape_None: "shape m m' \<Longrightarrow> m' a = None \<longleftrightarrow> m a = None"
  by (cases "m a"; cases "m' a") (auto simp: shape_def dest: spec [of _ a])

lemma shape_dom: "shape m m' \<Longrightarrow> dom m' = dom m"
  by (auto simp: dom_def shape_None)

lemma shape_lvl: "shape m m' \<Longrightarrow> lvl m' a = lvl m a"
proof (cases "m a")
  case None
  assume "shape m m'"
  then have "m' a = None" using None by (simp add: shape_None)
  then show ?thesis using None by (simp add: lvl_def)
next
  case (Some n)
  assume "shape m m'"
  then obtain n' where "m' a = Some n'" "length (sn_next n') = length (sn_next n)" using Some by (rule shape_Some)
  then show ?thesis using Some by (simp add: lvl_def)
qed

lemma set_link_ok:
  assumes "i < lvl m a"
  obtains m' where "set_link a i b m = Some m'" "shape m m'"
    "\<And>c j. get_link m' c j = (if c = a \<and> j = i then Some b else get_link m c j)"
proof -
  obtain n where n: "m a = Some n" "i < length (sn_next n)" using assms by (auto simp: lvl_def split: option.splits)
  let ?m = "m(a \<mapsto> n\<lparr>sn_next := (sn_next n)[i := b]\<rparr>)"
  show thesis
  proof (rule that [of ?m])
    show "set_link a i b m = Some ?m" using n by (simp add: set_link_def)
    show "shape m ?m" using n by (simp add: shape_def)
    show "get_link ?m c j = (if c = a \<and> j = i then Some b else get_link m c j)" for c j
      using n by (auto simp: get_link_def nth_list_update)
  qed
qed

lemma link_loop_ok:
  assumes "\<And>i. i < k \<Longrightarrow> prevs ! i = Some (p i) \<and> i < lvl m (p i) \<and> p i \<noteq> new" "k \<le> lvl m new"
  shows "\<exists>m'. link_loop prevs new k m = Some m' \<and> shape m m' \<and>
    (\<forall>c j. get_link m' c j =
      (if j < k \<and> c = new then get_link m (p j) j else if j < k \<and> c = p j then Some (Some new) else get_link m c j))"
  using assms
proof (induction k arbitrary: m)
  case (Suc k)
  have p: "prevs ! k = Some (p k)" "k < lvl m (p k)" "p k \<noteq> new" using Suc.prems(1) [of k] by simp_all
  obtain nx where nx: "get_link m (p k) k = Some nx"
    using p(2) by (auto simp: get_link_def lvl_def split: option.splits)
  have "k < lvl m new" using Suc.prems(2) by simp
  then obtain m1 where m1: "set_link new k nx m = Some m1" "shape m m1"
      "\<And>c j. get_link m1 c j = (if c = new \<and> j = k then Some nx else get_link m c j)" using set_link_ok by blast
  have "k < lvl m1 (p k)" using p(2) shape_lvl [OF m1(2)] by simp
  then obtain m2 where m2: "set_link (p k) k (Some new) m1 = Some m2" "shape m1 m2"
      "\<And>c j. get_link m2 c j = (if c = p k \<and> j = k then Some (Some new) else get_link m1 c j)" using set_link_ok by blast
  note sh = shape_trans [OF m1(2) m2(2)]
  have "\<exists>m'. link_loop prevs new k m2 = Some m' \<and> shape m2 m' \<and>
    (\<forall>c j. get_link m' c j =
      (if j < k \<and> c = new then get_link m2 (p j) j else if j < k \<and> c = p j then Some (Some new) else get_link m2 c j))"
    using Suc.prems by (intro Suc.IH) (simp_all add: shape_lvl [OF sh])
  then obtain m' where m': "link_loop prevs new k m2 = Some m'" "shape m2 m'"
      "\<And>c j. get_link m' c j =
      (if j < k \<and> c = new then get_link m2 (p j) j else if j < k \<and> c = p j then Some (Some new) else get_link m2 c j)"
    by blast
  have "link_loop prevs new (Suc k) m = Some m'" using p(1) nx m1(1) m2(1) m'(1) by simp
  moreover have "get_link m' c j =
      (if j < Suc k \<and> c = new then get_link m (p j) j else if j < Suc k \<and> c = p j then Some (Some new) else get_link m c j)" for c j
    using m1(3) m2(3) m'(3) nx p(3) by (auto simp: less_Suc_eq)
  ultimately show ?case using shape_trans [OF sh m'(2)] by blast
qed (simp add: shape_refl)

lemma raise_loop_ok:
  assumes "k \<le> lvl m head" "k \<le> lvl m new" "head \<noteq> new" "0 < h"
  shows "\<exists>m'. raise_loop head new h k m = Some m' \<and> shape m m' \<and>
    (\<forall>c j. get_link m' c j = (if h \<le> j \<and> j < k \<and> c = new then Some None
       else if h \<le> j \<and> j < k \<and> c = head then Some (Some new) else get_link m c j))"
  using assms(1,2)
proof (induction k arbitrary: m)
  case (Suc k)
  show ?case
  proof (cases "h \<le> k")
    case False
    then have "\<not> h - 1 < k" by linarith
    then have "raise_loop head new h (Suc k) m = Some m" by simp
    then show ?thesis using False by (auto simp: shape_refl less_Suc_eq)
  next
    case True
    have "k < lvl m head" using Suc.prems by simp
    then obtain m1 where m1: "set_link head k (Some new) m = Some m1" "shape m m1"
      "\<And>c j. get_link m1 c j = (if c = head \<and> j = k then Some (Some new) else get_link m c j)" using set_link_ok by blast
    have "k < lvl m1 new" using Suc.prems shape_lvl [OF m1(2)] by simp
    then obtain m2 where m2: "set_link new k None m1 = Some m2" "shape m1 m2"
      "\<And>c j. get_link m2 c j = (if c = new \<and> j = k then Some None else get_link m1 c j)" using set_link_ok by blast
    note sh = shape_trans [OF m1(2) m2(2)]
    have "\<exists>m'. raise_loop head new h k m2 = Some m' \<and> shape m2 m' \<and>
      (\<forall>c j. get_link m' c j = (if h \<le> j \<and> j < k \<and> c = new then Some None
         else if h \<le> j \<and> j < k \<and> c = head then Some (Some new) else get_link m2 c j))"
      using Suc.prems by (intro Suc.IH) (simp_all add: shape_lvl [OF sh])
    then obtain m' where m': "raise_loop head new h k m2 = Some m'" "shape m2 m'"
      "\<And>c j. get_link m' c j = (if h \<le> j \<and> j < k \<and> c = new then Some None
         else if h \<le> j \<and> j < k \<and> c = head then Some (Some new) else get_link m2 c j)" by blast
    have "h - 1 < k" using True assms(4) by linarith
    then have "raise_loop head new h (Suc k) m = Some m'" using m1(1) m2(1) m'(1) by simp
    moreover have "get_link m' c j = (if h \<le> j \<and> j < Suc k \<and> c = new then Some None
         else if h \<le> j \<and> j < Suc k \<and> c = head then Some (Some new) else get_link m c j)" for c j
      using m1(3) m2(3) m'(3) True assms(3) by (auto simp: less_Suc_eq)
    ultimately show ?thesis using shape_trans [OF sh m'(2)] by blast
  qed
qed (simp add: shape_refl)

lemma unlink_loop_ok:
  assumes "\<And>i. i < k \<Longrightarrow> prevs ! i = Some (p i) \<and> i < lvl m (p i) \<and> p i \<noteq> old" "k \<le> lvl m old"
  shows "\<exists>m'. unlink_loop prevs old k m = Some m' \<and> shape m m' \<and>
    (\<forall>c j. get_link m' c j = (if j < k \<and> c = p j then get_link m old j else get_link m c j))"
  using assms
proof (induction k arbitrary: m)
  case (Suc k)
  have p: "prevs ! k = Some (p k)" "k < lvl m (p k)" "p k \<noteq> old" using Suc.prems(1) [of k] by simp_all
  obtain nx where nx: "get_link m old k = Some nx"
    using Suc.prems(2) by (auto simp: get_link_def lvl_def split: option.splits)
  obtain m1 where m1: "set_link (p k) k nx m = Some m1" "shape m m1"
      "\<And>c j. get_link m1 c j = (if c = p k \<and> j = k then Some nx else get_link m c j)" using set_link_ok p(2) by blast
  have "\<exists>m'. unlink_loop prevs old k m1 = Some m' \<and> shape m1 m' \<and>
    (\<forall>c j. get_link m' c j = (if j < k \<and> c = p j then get_link m1 old j else get_link m1 c j))"
    using Suc.prems by (intro Suc.IH) (simp_all add: shape_lvl [OF m1(2)])
  then obtain m' where m': "unlink_loop prevs old k m1 = Some m'" "shape m1 m'"
      "\<And>c j. get_link m' c j = (if j < k \<and> c = p j then get_link m1 old j else get_link m1 c j)" by blast
  have "unlink_loop prevs old (Suc k) m = Some m'" using p(1) nx m1(1) m'(1) by simp
  moreover have "get_link m' c j = (if j < Suc k \<and> c = p j then get_link m old j else get_link m c j)" for c j
    using m1(3) m'(3) nx p(3) by (auto simp: less_Suc_eq)
  ultimately show ?case using shape_trans [OF m1(2) m'(2)] by blast
qed (simp add: shape_refl)

lemma shrink_loop_ok:
  assumes "m head = Some hn" "sn_height hn = Suc k" "k < length (sn_next hn)"
  shows "\<exists>h. shrink_loop head k m = Some (m(head \<mapsto> hn\<lparr>sn_height := h\<rparr>)) \<and> 1 \<le> h \<and> h \<le> Suc k \<and>
    (\<forall>i. h \<le> i \<and> i \<le> k \<longrightarrow> get_link m head i = Some None)"
  using assms
proof (induction k arbitrary: m hn)
  case 0
  then have "m = m(head \<mapsto> hn\<lparr>sn_height := 1\<rparr>)" by (auto simp: fun_eq_iff)
  then show ?case by (intro exI [of _ 1]) auto
next
  case (Suc k)
  have nx: "get_link m head (Suc k) = Some (sn_next hn ! Suc k)" using Suc.prems by (simp add: get_link_def)
  show ?case
  proof (cases "sn_next hn ! Suc k")
    case None
    let ?hn = "hn\<lparr>sn_height := Suc k\<rparr>" and ?m = "m(head \<mapsto> hn\<lparr>sn_height := Suc k\<rparr>)"
    have get: "get_link ?m c i = get_link m c i" for c i using Suc.prems(1) by (simp add: get_link_def)
    have "shrink_loop head (Suc k) m = shrink_loop head k ?m"
      using nx None Suc.prems by (simp add: set_height_def)
    moreover have "\<exists>h. shrink_loop head k ?m = Some (?m(head \<mapsto> ?hn\<lparr>sn_height := h\<rparr>)) \<and> 1 \<le> h \<and> h \<le> Suc k \<and>
        (\<forall>i. h \<le> i \<and> i \<le> k \<longrightarrow> get_link ?m head i = Some None)"
      using Suc.prems(3) by (intro Suc.IH) simp_all
    then obtain h where "shrink_loop head k ?m = Some (m(head \<mapsto> hn\<lparr>sn_height := h\<rparr>))" "1 \<le> h" "h \<le> Suc k"
        "\<forall>i. h \<le> i \<and> i \<le> k \<longrightarrow> get_link m head i = Some None"
      unfolding get by (auto simp del: fun_upd_apply)
    ultimately show ?thesis using nx None by (intro exI [of _ h]) (auto simp: le_Suc_eq)
  next
    case (Some b)
    have "m = m(head \<mapsto> hn\<lparr>sn_height := Suc (Suc k)\<rparr>)" using Suc.prems by (auto simp: fun_eq_iff)
    then show ?thesis using nx Some by (intro exI [of _ "Suc (Suc k)"]) auto
  qed
qed

section \<open>Linked lists after a change\<close>

lemma find_lvl_cong: "(\<And>a. a \<in> set xs \<Longrightarrow> lvl m' a = lvl m a) \<Longrightarrow> find (\<lambda>b. i < lvl m' b) xs = find (\<lambda>b. i < lvl m b) xs"
  by (rule find_cong) simp_all

lemma linked_cong:
  "(\<And>a. a \<in> set xs \<Longrightarrow> lvl m' a = lvl m a) \<Longrightarrow>
   (\<And>a i. a \<in> set xs \<Longrightarrow> i < lvl m a \<Longrightarrow> get_link m' a i = get_link m a i) \<Longrightarrow> linked m' xs = linked m xs"
proof (induction xs)
  case (Cons x xs)
  have "find (\<lambda>b. i < lvl m' b) xs = find (\<lambda>b. i < lvl m b) xs" for i using Cons.prems(1) by (intro find_lvl_cong) simp
  then show ?case using Cons by simp
qed simp

lemma linked_insert:
  assumes "linked m (xs @ post)" "\<And>a. a \<in> set (xs @ post) \<Longrightarrow> lvl m' a = lvl m a" "linked m' (new # post)"
    "\<And>us a ws j. xs = us @ a # ws \<Longrightarrow> j < lvl m a \<Longrightarrow> get_link m' a j =
       (if j < lvl m' new \<and> find (\<lambda>b. j < lvl m b) ws = None then Some (Some new) else get_link m a j)"
  shows "linked m' (xs @ new # post)"
  using assms(1,2,4)
proof (induction xs)
  case (Cons x xs)
  have find: "find (\<lambda>b. i < lvl m' b) ys = find (\<lambda>b. i < lvl m b) ys" if "set ys \<subseteq> set (xs @ post)" for i ys
    using Cons.prems(2) that by (intro find_lvl_cong) auto
  have "linked m' (xs @ new # post)"
    using Cons.IH Cons.prems(1,2) Cons.prems(3) [of "x # _"] by simp
  moreover have "get_link m' x i = Some (find (\<lambda>b. i < lvl m' b) (xs @ new # post))" if "i < lvl m' x" for i
    using Cons.prems(1,2) Cons.prems(3) [of "[]" x xs i] find [of xs] find [of post] that
    by (auto simp: find_append split: option.splits)
  ultimately show ?case by simp
qed (use assms(3) in simp)

lemma linked_remove:
  assumes "linked m (xs @ old # post)" "\<And>a. a \<in> set (xs @ post) \<Longrightarrow> lvl m' a = lvl m a" "linked m' post"
    "\<And>us a ws j. xs = us @ a # ws \<Longrightarrow> j < lvl m a \<Longrightarrow> get_link m' a j =
       (if j < lvl m old \<and> find (\<lambda>b. j < lvl m b) ws = None then get_link m old j else get_link m a j)"
  shows "linked m' (xs @ post)"
  using assms(1,2,4)
proof (induction xs)
  case (Cons x xs)
  have find: "find (\<lambda>b. i < lvl m' b) ys = find (\<lambda>b. i < lvl m b) ys" if "set ys \<subseteq> set (xs @ post)" for i ys
    using Cons.prems(2) that by (intro find_lvl_cong) auto
  have "linked m' (xs @ post)"
    using Cons.IH Cons.prems(1,2) Cons.prems(3) [of "x # _"] by simp
  moreover have "get_link m' x i = Some (find (\<lambda>b. i < lvl m' b) (xs @ post))" if "i < lvl m' x" for i
  proof -
    have "linked m (xs @ old # post)" using Cons.prems(1) by simp
    then have "get_link m old i = Some (find (\<lambda>b. i < lvl m b) post)" if "i < lvl m old" using linked_next that by blast
    then show ?thesis
      using Cons.prems(1,2) Cons.prems(3) [of "[]" x xs i] find [of xs] find [of post] that
      by (auto simp: find_append split: option.splits)
  qed
  ultimately show ?case by simp
qed (use assms(3) in simp)

text \<open>The last tall node is the one with none after it.\<close>

lemma last_tall_iff:
  assumes "distinct (us @ a # ws)" "j < lvl m a"
  shows "last_tall m j (us @ a # ws) = a \<longleftrightarrow> find (\<lambda>b. j < lvl m b) ws = None"
proof (cases "find (\<lambda>b. j < lvl m b) ws = None")
  case True
  then show ?thesis using last_tall_eq [OF assms(2)] by blast
next
  case False
  then have "filter (\<lambda>b. j < lvl m b) ws \<noteq> []" by (auto simp: find_None_iff filter_empty_conv)
  then have "last_tall m j (us @ a # ws) \<in> set ws"
    using last_in_set [of "filter (\<lambda>b. j < lvl m b) ws"] by (auto simp: last_tall_def)
  then show ?thesis using False assms(1) by auto
qed

lemma last_tall_in:
  assumes "j < lvl m head"
  shows "last_tall m j (head # pre) \<in> set (head # pre) \<and> j < lvl m (last_tall m j (head # pre))"
proof -
  have "filter (\<lambda>a. j < lvl m a) (head # pre) \<noteq> []" using assms by simp
  then have "last_tall m j (head # pre) \<in> set (filter (\<lambda>a. j < lvl m a) (head # pre))"
    unfolding last_tall_def by (rule last_in_set)
  then show ?thesis by (simp only: set_filter mem_Collect_eq)
qed

lemma last_tall_head: "(\<And>a. a \<in> set pre \<Longrightarrow> lvl m a \<le> j) \<Longrightarrow> j < lvl m head \<Longrightarrow> last_tall m j (head # pre) = head"
  using last_tall_eq [of j m head pre "[]"] by (force simp: find_None_iff)

lemma last_filter_split:
  "filter P xs \<noteq> [] \<Longrightarrow> \<exists>us ws. xs = us @ last (filter P xs) # ws \<and> find P ws = None"
proof (induction xs)
  case (Cons x xs)
  show ?case
  proof (cases "filter P xs = []")
    case True
    then have "x # xs = [] @ last (filter P (x # xs)) # xs" "find P xs = None"
      using Cons.prems by (auto simp: find_None_iff filter_empty_conv split: if_splits)
    then show ?thesis by blast
  next
    case False
    then obtain us ws where "xs = us @ last (filter P xs) # ws" "find P ws = None" using Cons.IH by blast
    then have "x # xs = (x # us) @ last (filter P (x # xs)) # ws" "find P ws = None" using False by auto
    then show ?thesis by blast
  qed
qed simp

lemma last_tall_next:
  assumes "linked m (head # pre @ post)" "j < lvl m head"
  shows "get_link m (last_tall m j (head # pre)) j = Some (find (\<lambda>b. j < lvl m b) post)"
proof -
  have "filter (\<lambda>a. j < lvl m a) (head # pre) \<noteq> []" using assms by simp
  then obtain us ws where eq: "head # pre = us @ last_tall m j (head # pre) # ws" and none: "find (\<lambda>b. j < lvl m b) ws = None"
    unfolding last_tall_def using last_filter_split by blast
  obtain a where a: "a = last_tall m j (head # pre)" by simp
  have "linked m ((head # pre) @ post)" using assms(1) by simp
  then have "linked m (us @ a # ws @ post)" unfolding eq [folded a] by simp
  then show ?thesis using linked_next [of m us a "ws @ post" j] last_tall_in [OF assms(2), of pre] none
    by (simp add: find_append a)
qed

section \<open>The invariant\<close>

text \<open>
  The nodes in order are \<open>ns\<close>: linked on every level, increasing in their keys, together with the head all
  there is on the heap.
\<close>

definition node_entry :: "('k, 'v) mem \<Rightarrow> node_addr \<Rightarrow> 'k \<times> 'v" where
  "node_entry m a = (sn_key (the (m a)), sn_value (the (m a)))"

definition node_ok :: "('k, 'v) mem \<Rightarrow> nat \<Rightarrow> node_addr \<Rightarrow> bool" where
  "node_ok m h a \<longleftrightarrow> (\<exists>n. m a = Some n \<and> sn_height n = length (sn_next n) \<and> 1 \<le> sn_height n \<and> sn_height n \<le> h)"

definition head_ok :: "('k, 'v) mem \<Rightarrow> nat \<Rightarrow> node_addr \<Rightarrow> bool" where
  "head_ok m h a \<longleftrightarrow> (\<exists>n. m a = Some n \<and> sn_height n = h \<and> length (sn_next n) = kMaxHeight \<and> 1 \<le> h \<and> h \<le> kMaxHeight)"

definition skip_inv :: "('k::linorder, 'v) SkipList \<Rightarrow> node_addr \<Rightarrow> node_addr list \<Rightarrow> bool" where
  "skip_inv s head ns \<longleftrightarrow>
     sl_is_init s \<and> sl_head s = Some head \<and> head_ok (sl_mem s) (sl_max_height s) head \<and>
     (\<forall>a \<in> set ns. node_ok (sl_mem s) (sl_max_height s) a) \<and>
     distinct (head # ns) \<and> dom (sl_mem s) = set (head # ns) \<and> (\<forall>a \<in> set (head # ns). a < sl_fresh s) \<and>
     linked (sl_mem s) (head # ns) \<and> smap_ok (map (node_entry (sl_mem s)) ns)"

definition skip_rel :: "('k::linorder, 'v) SkipList \<Rightarrow> ('k, 'v) smap \<Rightarrow> bool" where
  "skip_rel s M \<longleftrightarrow> (\<exists>head ns. skip_inv s head ns \<and> M = map (node_entry (sl_mem s)) ns)"

lemma head_lvl: "head_ok m h a \<Longrightarrow> lvl m a = kMaxHeight"
  by (auto simp: head_ok_def lvl_def)

lemma node_lvl: "node_ok m h a \<Longrightarrow> 1 \<le> lvl m a \<and> lvl m a \<le> h"
  by (auto simp: node_ok_def lvl_def)

lemma get_link_height: "m a = Some n \<Longrightarrow> get_link (m(a \<mapsto> n\<lparr>sn_height := h\<rparr>)) = get_link m"
  by (intro ext) (simp add: get_link_def)

lemma lvl_height: "m a = Some n \<Longrightarrow> lvl (m(a \<mapsto> n\<lparr>sn_height := h\<rparr>)) = lvl m"
  by (intro ext) (simp add: lvl_def)

lemma shape_height:
  assumes "shape m m'" "m a = Some n"
  obtains n' where "m' a = Some n'" "shape (m(a \<mapsto> n\<lparr>sn_height := h\<rparr>)) (m'(a \<mapsto> n'\<lparr>sn_height := h\<rparr>))"
proof -
  obtain n' where n': "m' a = Some n'" "sn_key n' = sn_key n" "sn_value n' = sn_value n"
      "length (sn_next n') = length (sn_next n)" using shape_Some [OF assms] by blast
  then have "shape (m(a \<mapsto> n\<lparr>sn_height := h\<rparr>)) (m'(a \<mapsto> n'\<lparr>sn_height := h\<rparr>))"
    using assms(1) by (simp add: shape_def)
  then show thesis using that n'(1) by blast
qed

lemma node_entry_fst: "fst (node_entry m a) = sn_key (the (m a))" by (simp add: node_entry_def)

lemma skip_cut:
  assumes "skip_inv s head ns"
  obtains pre post where "ns = pre @ post" "cut (sl_mem s) key head pre post"
proof -
  let ?m = "sl_mem s" and ?P = "\<lambda>a. sn_key (the (sl_mem s a)) < key"
  let ?pre = "takeWhile ?P ns" and ?post = "dropWhile ?P ns"
  have node: "\<exists>n. ?m a = Some n \<and> sn_next n \<noteq> []" if "a \<in> set ns" for a
    using assms that by (force simp: skip_inv_def node_ok_def)
  have "sorted_wrt (\<lambda>a b. sn_key (the (?m a)) < sn_key (the (?m b))) ns"
    using assms by (simp add: skip_inv_def smap_ok_def sorted_wrt_map node_entry_def)
  then have "sorted_wrt (\<lambda>a b. sn_key (the (?m a)) < sn_key (the (?m b))) (?pre @ ?post)" by simp
  then have sorted: "sorted_wrt (\<lambda>a b. sn_key (the (?m a)) < sn_key (the (?m b))) ?post"
    unfolding sorted_wrt_append by blast
  have ge: "key \<le> sn_key (the (?m a))" if "a \<in> set ?post" for a
  proof (cases ?post)
    case (Cons b bs)
    then have "\<not> ?P b" using hd_dropWhile [of ?P ns] by simp
    then show ?thesis using sorted that unfolding Cons by auto
  next
    case Nil
    then show ?thesis using that by (simp only: list.set empty_iff)
  qed
  have "\<exists>n. ?m a = Some n \<and> sn_key n < key \<and> sn_next n \<noteq> []" if "a \<in> set ?pre" for a
    using node [of a] set_takeWhileD [OF that] by force
  moreover have "\<exists>n. ?m a = Some n \<and> key \<le> sn_key n \<and> sn_next n \<noteq> []" if "a \<in> set ?post" for a
    using node [of a] ge [OF that] set_dropWhileD [OF that] by force
  ultimately have "cut ?m key head ?pre ?post" using assms by (simp add: cut_def skip_inv_def)
  then show thesis using that [of ?pre ?post] by simp
qed

lemma cut_entries:
  assumes "cut m key head pre post"
  shows "k \<in> dom (map_of (map (node_entry m) pre)) \<Longrightarrow> k < key" "k \<in> dom (map_of (map (node_entry m) post)) \<Longrightarrow> key \<le> k"
proof -
  show "k < key" if "k \<in> dom (map_of (map (node_entry m) pre))"
  proof -
    obtain a where a: "a \<in> set pre" "k = sn_key (the (m a))" using \<open>k \<in> dom (map_of (map (node_entry m) pre))\<close>
      by (auto simp: dom_map_of_conv_image_fst node_entry_def)
    then show ?thesis using assms by (auto simp: cut_def)
  qed
  show "key \<le> k" if "k \<in> dom (map_of (map (node_entry m) post))"
  proof -
    obtain a where a: "a \<in> set post" "k = sn_key (the (m a))" using \<open>k \<in> dom (map_of (map (node_entry m) post))\<close>
      by (auto simp: dom_map_of_conv_image_fst node_entry_def)
    then show ?thesis using assms by (auto simp: cut_def)
  qed
qed

lemma skip_start:
  assumes "skip_inv s head ns" "cut (sl_mem s) key head pre post"
  shows "sl_max_height s - 1 < lvl (sl_mem s) head" "Suc (sl_max_height s - 1) = sl_max_height s"
    "sl_max_height s \<le> kMaxHeight"
    "preds (sl_mem s) (head # pre) (Suc (sl_max_height s - 1)) (sl_max_height s) (replicate kMaxHeight None)"
  using assms(1) by (auto simp: skip_inv_def head_ok_def lvl_def preds_def)

lemma skip_search:
  assumes "skip_inv s head ns" "ns = pre @ post" "cut (sl_mem s) key head pre post"
  obtains
    (Found) a n where "search_loop (sl_mem s) key (sl_max_height s - 1) head (replicate kMaxHeight None) = Some (Inl a)"
      "sl_mem s a = Some n" "map_of (map (node_entry (sl_mem s)) ns) key = Some (sn_value n)"
  | (Absent) prevs where "search_loop (sl_mem s) key (sl_max_height s - 1) head (replicate kMaxHeight None) = Some (Inr prevs)"
      "preds (sl_mem s) (head # pre) 0 (sl_max_height s) prevs" "map_of (map (node_entry (sl_mem s)) ns) key = None"
      "\<And>k. k \<in> dom (map_of (map (node_entry (sl_mem s)) post)) \<Longrightarrow> key < k"
proof -
  let ?m = "sl_mem s"
  have sorted: "smap_ok (map (node_entry ?m) ns)" using assms(1) by (simp add: skip_inv_def)
  note start = skip_start [OF assms(1,3)]
  have "sl_max_height s - 1 < sl_max_height s" using start(2) by linarith
  note search_loop_preds [OF assms(3) append_Nil [symmetric] start(1,4) this]
  then show thesis
  proof (elim disjE exE conjE)
    fix a n
    assume a: "search_loop ?m key (sl_max_height s - 1) head (replicate kMaxHeight None) = Some (Inl a)"
      "a \<in> set post" "?m a = Some n" "sn_key n = key"
    then have "(key, sn_value n) \<in> set (map (node_entry ?m) ns)" using assms(2) by (force simp: node_entry_def)
    then show thesis using Found a smap_in_set [OF sorted] by blast
  next
    fix prevs
    assume p: "search_loop ?m key (sl_max_height s - 1) head (replicate kMaxHeight None) = Some (Inr prevs)"
      "preds ?m (head # pre) 0 (sl_max_height s) prevs"
      "case post of [] \<Rightarrow> True | b # _ \<Rightarrow> key < sn_key (the (?m b))"
    have gt: "key < k" if "k \<in> dom (map_of (map (node_entry ?m) post))" for k
    proof (cases post)
      case (Cons b bs)
      have "smap_ok (map (node_entry ?m) post)" using sorted assms(2) by (simp add: smap_ok_def sorted_wrt_append)
      then have "sn_key (the (?m b)) \<le> k" using that smap_hd_least [of "fst (node_entry ?m b)" "snd (node_entry ?m b)" "map (node_entry ?m) bs" k]
        by (simp add: Cons node_entry_def)
      then show ?thesis using p(3) Cons by simp
    qed (use that in simp)
    moreover have "map_of (map (node_entry ?m) ns) key = None"
    proof -
      have "key \<notin> dom (map_of (map (node_entry ?m) post))" "key \<notin> dom (map_of (map (node_entry ?m) pre))"
        using gt [of key] cut_entries(1) [OF assms(3), of key] by blast+
      then show ?thesis by (simp add: assms(2) domIff map_add_def)
    qed
    ultimately show thesis using Absent p by blast
  qed
qed

lemma SkipList_Get_refines:
  assumes "skip_rel s M"
  shows "SkipList_Get key s = Some (case map_of M key of None \<Rightarrow> Inl kNotFound | Some v \<Rightarrow> Inr v)"
proof -
  obtain head ns where inv: "skip_inv s head ns" and M: "M = map (node_entry (sl_mem s)) ns" using assms by (auto simp: skip_rel_def)
  then obtain pre post where ns: "ns = pre @ post" and cut: "cut (sl_mem s) key head pre post" using skip_cut by blast
  have init: "sl_is_init s" "sl_head s = Some head" using inv by (simp_all add: skip_inv_def)
  show ?thesis using inv ns cut
  proof (cases rule: skip_search)
    case (Found a n)
    then show ?thesis using init M by (simp add: SkipList_Get_def)
  next
    case (Absent prevs)
    then show ?thesis using init M by (simp add: SkipList_Get_def)
  qed
qed

section \<open>Insertion\<close>

lemma dropping_loop_range: "num \<le> max_num \<Longrightarrow> num \<le> dropping_loop max_num rands num \<and> dropping_loop max_num rands num \<le> max_num"
proof (induction max_num rands num rule: dropping_loop.induct)
  case (1 max_num rands num)
  then show ?case by (subst (1 2) dropping_loop.simps) (auto simp: Let_def)
qed

lemma GetDroppingRand_range: "1 \<le> max_num \<Longrightarrow> 1 \<le> GetDroppingRand max_num rands \<and> GetDroppingRand max_num rands \<le> max_num"
  unfolding GetDroppingRand_def by (rule dropping_loop_range)

text \<open>Both loops together: every level below the height of the new node gets it after its predecessor.\<close>

definition insert_links :: "node_addr \<Rightarrow> node_addr \<Rightarrow> nat \<Rightarrow> nat \<Rightarrow> node_addr option list \<Rightarrow> ('k, 'v) mem \<Rightarrow> (nat \<times> ('k, 'v) mem) option" where
  "insert_links head new_node maxh h prevs m =
     Option.bind
       (if maxh < h then
          Option.bind (raise_loop head new_node maxh h m) (\<lambda>m.
          Option.bind (set_height head h m) (\<lambda>m. Some (maxh, h, m)))
        else Some (h, maxh, m)) (\<lambda>(tmp_height, max_height, m).
       Option.bind (link_loop prevs new_node tmp_height m) (\<lambda>m. Some (max_height, m)))"

lemma insert_links_ok:
  assumes m: "m head = Some hn" "head \<noteq> new" "lvl m head = kMaxHeight" "lvl m new = h" "h \<le> kMaxHeight" "1 \<le> maxh"
    and p: "\<And>i. i < maxh \<Longrightarrow> prevs ! i = Some (p i) \<and> i < lvl m (p i) \<and> p i \<noteq> new"
    and up: "\<And>i. maxh \<le> i \<Longrightarrow> i < h \<Longrightarrow> p i = head \<and> get_link m head i = Some None"
    and hn: "sn_height hn = maxh"
  shows "\<exists>m'. insert_links head new maxh h prevs m = Some (max maxh h, m') \<and>
    shape (m(head \<mapsto> hn\<lparr>sn_height := max maxh h\<rparr>)) m' \<and>
    (\<forall>c j. get_link m' c j = (if j < h \<and> c = new then get_link m (p j) j
       else if j < h \<and> c = p j then Some (Some new) else get_link m c j))"
proof (cases "maxh < h")
  case False
  then have "m(head \<mapsto> hn\<lparr>sn_height := max maxh h\<rparr>) = m" using m(1) hn by (auto simp: fun_eq_iff)
  moreover have "\<exists>m'. link_loop prevs new h m = Some m' \<and> shape m m' \<and>
    (\<forall>c j. get_link m' c j = (if j < h \<and> c = new then get_link m (p j) j
       else if j < h \<and> c = p j then Some (Some new) else get_link m c j))"
    using False p m(4) by (intro link_loop_ok) auto
  ultimately show ?thesis using False by (auto simp: insert_links_def max_def)
next
  case True
  obtain m1 where m1: "raise_loop head new maxh h m = Some m1" "shape m m1"
      "\<And>c j. get_link m1 c j = (if maxh \<le> j \<and> j < h \<and> c = new then Some None
         else if maxh \<le> j \<and> j < h \<and> c = head then Some (Some new) else get_link m c j)"
    using raise_loop_ok [of h m head new maxh] m by auto
  obtain n1 where n1: "m1 head = Some n1" "shape (m(head \<mapsto> hn\<lparr>sn_height := h\<rparr>)) (m1(head \<mapsto> n1\<lparr>sn_height := h\<rparr>))"
    using shape_height [OF m1(2) m(1)] by blast
  let ?m2 = "m1(head \<mapsto> n1\<lparr>sn_height := h\<rparr>)"
  have lvl: "lvl ?m2 a = lvl m a" for a using lvl_height [of m1 head n1 h] n1(1) shape_lvl [OF m1(2)] by simp
  have get: "get_link ?m2 = get_link m1" using n1(1) by (rule get_link_height)
  have "\<exists>m'. link_loop prevs new maxh ?m2 = Some m' \<and> shape ?m2 m' \<and>
    (\<forall>c j. get_link m' c j = (if j < maxh \<and> c = new then get_link ?m2 (p j) j
       else if j < maxh \<and> c = p j then Some (Some new) else get_link ?m2 c j))"
    using True p m(4) by (intro link_loop_ok) (auto simp: lvl)
  then obtain m' where m': "link_loop prevs new maxh ?m2 = Some m'" "shape ?m2 m'"
      "\<And>c j. get_link m' c j = (if j < maxh \<and> c = new then get_link m1 (p j) j
         else if j < maxh \<and> c = p j then Some (Some new) else get_link m1 c j)"
    unfolding get by blast
  have "insert_links head new maxh h prevs m = Some (max maxh h, m')"
    using True m1(1) n1(1) m'(1) by (simp add: insert_links_def set_height_def max_def)
  moreover have "get_link m' c j = (if j < h \<and> c = new then get_link m (p j) j
       else if j < h \<and> c = p j then Some (Some new) else get_link m c j)" for c j
    using m'(3) m1(3) p up True m(2) by (auto simp: not_less)
  moreover have "shape (m(head \<mapsto> hn\<lparr>sn_height := max maxh h\<rparr>)) m'"
    using shape_trans [OF n1(2) m'(2)] True by (simp add: max_def)
  ultimately show ?thesis by blast
qed

lemma SkipList_Put_insert:
  assumes "sl_is_init s" "sl_head s = Some head"
    "search_loop (sl_mem s) key (sl_max_height s - 1) head (replicate kMaxHeight None) = Some (Inr prevs)"
  shows "SkipList_Put key val rands s =
    (let h = GetDroppingRand kMaxHeight rands; new = sl_fresh s in
     Option.bind (insert_links head new (sl_max_height s) h prevs
       ((sl_mem s)(new \<mapsto> \<lparr>sn_key = key, sn_value = val, sn_height = h, sn_next = replicate h None\<rparr>)))
       (\<lambda>(max_height, m). Some (kOk, s\<lparr>sl_mem := m, sl_max_height := max_height, sl_fresh := new + 1\<rparr>)))"
  using assms by (simp add: SkipList_Put_def insert_links_def Let_def bind_assoc split_beta)

lemma smap_put_append:
  assumes "\<And>x. x \<in> dom (map_of xs) \<Longrightarrow> x < k" "\<And>x. x \<in> dom (map_of ys) \<Longrightarrow> k < x"
  shows "map_put k v (xs @ ys) = xs @ (k, v) # ys"
  using assms(1)
proof (induction xs)
  case Nil
  then show ?case using assms(2) by (cases ys) fastforce+
next
  case (Cons x xs)
  obtain k' v' where x: "x = (k', v')" by fastforce
  have "k' \<in> dom (map_of (x # xs))" by (simp add: x)
  then have "k' < k" by (rule Cons.prems)
  moreover have "q < k" if "q \<in> dom (map_of xs)" for q using that by (intro Cons.prems) (auto simp: x domIff)
  then have "map_put k v (xs @ ys) = xs @ (k, v) # ys" by (rule Cons.IH)
  ultimately show ?case by (auto simp: x)
qed

lemma node_ok_mono: "node_ok m h a \<Longrightarrow> h \<le> h' \<Longrightarrow> m' a = m a \<Longrightarrow> node_ok m' h' a"
  by (auto simp: node_ok_def)

text \<open>The order of the addresses after an insertion.\<close>

lemma insert_inv:
  assumes inv: "skip_inv s head (pre @ post)" and cut: "cut (sl_mem s) key head pre post"
    and absent: "\<And>k. k \<in> dom (map_of (map (node_entry (sl_mem s)) post)) \<Longrightarrow> key < k"
    and h: "1 \<le> h" "h \<le> kMaxHeight" and new: "new = sl_fresh s"
    and m1: "m1 = (sl_mem s)(new \<mapsto> \<lparr>sn_key = key, sn_value = val, sn_height = h, sn_next = replicate h None\<rparr>)"
    and hn: "sl_mem s head = Some hn"
    and shape: "shape (m1(head \<mapsto> hn\<lparr>sn_height := max (sl_max_height s) h\<rparr>)) m'"
    and get: "\<And>c j. get_link m' c j = (if j < h \<and> c = new then get_link m1 (last_tall (sl_mem s) j (head # pre)) j
       else if j < h \<and> c = last_tall (sl_mem s) j (head # pre) then Some (Some new) else get_link m1 c j)"
  shows "skip_rel (s\<lparr>sl_mem := m', sl_max_height := max (sl_max_height s) h, sl_fresh := new + 1\<rparr>)
    (map_put key val (map (node_entry (sl_mem s)) (pre @ post)))"
proof -
  let ?m = "sl_mem s" and ?H = "max (sl_max_height s) h"
  let ?s = "s\<lparr>sl_mem := m', sl_max_height := ?H, sl_fresh := new + 1\<rparr>"
  have fresh: "new \<notin> set (head # pre @ post)" and dom: "dom ?m = set (head # pre @ post)"
    and dist: "distinct (head # pre @ post)" and linked: "linked ?m (head # pre @ post)"
    using inv by (auto simp: skip_inv_def new)
  have nh: "new \<noteq> head" using fresh by simp
  have lvl1: "lvl m1 a = (if a = new then h else lvl ?m a)" for a by (simp add: m1 lvl_def)
  have hn1: "m1 head = Some hn" using hn nh by (simp add: m1)
  have lvl: "lvl m' a = (if a = new then h else lvl ?m a)" for a
    using shape_lvl [OF shape] lvl_height [of m1 head hn ?H, OF hn1] lvl1 by simp
  have get1: "get_link m1 a j = get_link ?m a j" if "a \<noteq> new" for a j using that by (simp add: m1 get_link_def)
  have hlvl: "lvl ?m head = kMaxHeight" using inv by (auto simp: skip_inv_def head_lvl)
  have pred: "last_tall ?m j (head # pre) \<in> set (head # pre)" if "j < h" for j
    using last_tall_in [of j ?m head pre] that h(2) hlvl by simp
  have node_entry: "node_entry m' a = (if a = new then (key, val) else node_entry ?m a)" if "a = new \<or> a \<in> set (head # pre @ post)" for a
  proof -
    let ?m1 = "m1(head \<mapsto> hn\<lparr>sn_height := ?H\<rparr>)"
    have "a \<in> dom ?m1" using that dom by (auto simp: m1)
    then obtain n where n: "?m1 a = Some n" by blast
    then have "node_entry m' a = node_entry ?m1 a" using shape_Some [OF shape n] by (metis node_entry_def option.sel)
    then show ?thesis using that hn nh by (auto simp: m1 node_entry_def)
  qed
  have map: "map (node_entry m') (pre @ new # post) = map_put key val (map (node_entry ?m) (pre @ post))"
  proof -
    have "map (node_entry m') pre = map (node_entry ?m) pre" "map (node_entry m') post = map (node_entry ?m) post"
      using node_entry fresh by auto
    then show ?thesis
      using smap_put_append [of "map (node_entry ?m) pre" key "map (node_entry ?m) post" val] cut_entries(1) [OF cut] absent node_entry
      by simp
  qed
  have node: "node_ok m' ?H a" if a: "a \<in> set (pre @ new # post)" for a
  proof -
    let ?m1 = "m1(head \<mapsto> hn\<lparr>sn_height := ?H\<rparr>)"
    have "a \<noteq> head" using a dist nh by auto
    have "node_ok ?m1 ?H a"
    proof (cases "a = new")
      case True
      then show ?thesis using h(1) nh by (simp add: m1 node_ok_def)
    next
      case False
      then have "node_ok ?m (sl_max_height s) a" using a inv by (auto simp: skip_inv_def)
      then show ?thesis by (rule node_ok_mono) (use False \<open>a \<noteq> head\<close> in \<open>simp_all add: m1\<close>)
    qed
    then show ?thesis unfolding node_ok_def using shape_Some [OF shape] by (metis (no_types, lifting))
  qed
  have "head_ok (m1(head \<mapsto> hn\<lparr>sn_height := ?H\<rparr>)) ?H head"
    using inv hn h by (auto simp: head_ok_def skip_inv_def)
  then have head: "head_ok m' ?H head" unfolding head_ok_def using shape_Some [OF shape] by (metis (no_types, lifting))
  have links: "linked m' ((head # pre) @ new # post)"
  proof (rule linked_insert)
    show "linked ?m ((head # pre) @ post)" using linked by simp
    show "lvl m' a = lvl ?m a" if "a \<in> set ((head # pre) @ post)" for a using that fresh lvl by auto
    have "linked m' post = linked ?m post"
    proof (rule linked_cong)
      fix a assume a: "a \<in> set post"
      then show "lvl m' a = lvl ?m a" using fresh lvl by auto
      show "get_link m' a i = get_link ?m a i" for i
        using a fresh dist pred [of i] get [of a i] get1 [of a i] by auto
    qed
    moreover have "linked ?m post" using linked linked_append [of ?m "head # pre" post] by simp
    moreover have "get_link m' new i = Some (find (\<lambda>b. i < lvl m' b) post)" if "i < h" for i
    proof -
      have "find (\<lambda>b. i < lvl m' b) post = find (\<lambda>b. i < lvl ?m b) post" using fresh lvl by (intro find_lvl_cong) auto
      moreover have "last_tall ?m i (head # pre) \<noteq> new" using pred [OF that] fresh by auto
      ultimately show ?thesis
        using last_tall_next [OF linked, of i] that h(2) hlvl get [of new i] get1 by simp
    qed
    ultimately show "linked m' (new # post)" by (simp add: lvl)
    fix us a ws j
    assume split: "head # pre = us @ a # ws" and j: "j < lvl ?m a"
    have a: "a \<noteq> new" using split fresh by (metis append_Cons in_set_conv_decomp Un_iff set_append)
    have "distinct (us @ a # ws)" using dist unfolding split [symmetric] by simp
    from last_tall_iff [OF this j, folded split] show
      "get_link m' a j = (if j < lvl m' new \<and> find (\<lambda>b. j < lvl ?m b) ws = None then Some (Some new) else get_link ?m a j)"
      using get [of a j] get1 [OF a] a lvl by auto
  qed
  have "smap_ok (map (node_entry m') (pre @ new # post))"
    unfolding map using inv by (intro smap_ok_put) (simp add: skip_inv_def)
  moreover have "dom m' = insert new (set (head # pre @ post))"
    using shape_dom [OF shape] dom by (auto simp: m1)
  ultimately have "skip_inv ?s head (pre @ new # post)"
    using inv head node links fresh dist by (auto simp: skip_inv_def new less_Suc_eq)
  then show ?thesis unfolding skip_rel_def using map by (intro exI [of _ head] exI [of _ "pre @ new # post"]) simp
qed

definition skip_put :: "'k::linorder \<Rightarrow> 'v \<Rightarrow> ('k, 'v) smap \<Rightarrow> Code \<times> ('k, 'v) smap" where
  "skip_put key val M = (case map_of M key of None \<Rightarrow> (kOk, map_put key val M) | Some _ \<Rightarrow> (kExist, M))"

definition skip_del :: "'k \<Rightarrow> ('k, 'v) smap \<Rightarrow> Code \<times> ('k, 'v) smap" where
  "skip_del key M = (case map_of M key of None \<Rightarrow> (kNotFound, M) | Some _ \<Rightarrow> (kOk, map_erase key M))"

lemma SkipList_Put_refines:
  assumes "skip_rel s M"
  shows "\<exists>s'. SkipList_Put key val rands s = Some (fst (skip_put key val M), s') \<and> skip_rel s' (snd (skip_put key val M))"
proof -
  obtain head ns where inv: "skip_inv s head ns" and M: "M = map (node_entry (sl_mem s)) ns" using assms by (auto simp: skip_rel_def)
  then obtain pre post where ns: "ns = pre @ post" and cut: "cut (sl_mem s) key head pre post" using skip_cut by blast
  have init: "sl_is_init s" "sl_head s = Some head" using inv by (simp_all add: skip_inv_def)
  show ?thesis using inv ns cut
  proof (cases rule: skip_search)
    case (Found a n)
    then have "SkipList_Put key val rands s = Some (kExist, s)" using init by (simp add: SkipList_Put_def)
    then show ?thesis using Found M assms by (simp add: skip_put_def)
  next
    case (Absent prevs)
    define h new where "h = GetDroppingRand kMaxHeight rands" and new: "new = sl_fresh s"
    define m1 where m1: "m1 = (sl_mem s)(new \<mapsto> \<lparr>sn_key = key, sn_value = val, sn_height = h, sn_next = replicate h None\<rparr>)"
    let ?p = "\<lambda>i. last_tall (sl_mem s) i (head # pre)"
    have h: "1 \<le> h" "h \<le> kMaxHeight" using GetDroppingRand_range [of kMaxHeight rands] by (auto simp: h_def kMaxHeight_def)
    obtain hn where hn: "sl_mem s head = Some hn" "sn_height hn = sl_max_height s" "1 \<le> sl_max_height s" "sl_max_height s \<le> kMaxHeight"
      using inv by (auto simp: skip_inv_def head_ok_def)
    have fresh: "new \<notin> set (head # pre @ post)" and hlvl: "lvl (sl_mem s) head = kMaxHeight"
      using inv ns by (auto simp: skip_inv_def new head_lvl)
    have lvl1: "lvl m1 a = (if a = new then h else lvl (sl_mem s) a)" for a by (simp add: m1 lvl_def)
    have pred: "prevs ! i = Some (?p i) \<and> i < lvl m1 (?p i) \<and> ?p i \<noteq> new" if "i < sl_max_height s" for i
    proof -
      have "?p i \<in> set (head # pre)" "i < lvl (sl_mem s) (?p i)" using last_tall_in [of i "sl_mem s" head pre] that hn(4) hlvl by simp_all
      then have "?p i \<noteq> new" using fresh by auto
      then show ?thesis using Absent(2) that \<open>i < lvl (sl_mem s) (?p i)\<close> by (simp add: preds_def lvl1)
    qed
    have up: "?p i = head \<and> get_link m1 head i = Some None" if "sl_max_height s \<le> i" "i < h" for i
    proof -
      have low: "lvl (sl_mem s) a \<le> i" if "a \<in> set ns" for a
        using that \<open>sl_max_height s \<le> i\<close> inv node_lvl le_trans by (fastforce simp: skip_inv_def)
      have i: "i < lvl (sl_mem s) head" using that h hlvl by simp
      have "linked (sl_mem s) (head # ns)" using inv by (simp add: skip_inv_def)
      then have "get_link (sl_mem s) head i = Some (find (\<lambda>b. i < lvl (sl_mem s) b) ns)" using i by simp
      moreover have "find (\<lambda>b. i < lvl (sl_mem s) b) ns = None" using low by (fastforce simp: find_None_iff)
      moreover have "get_link m1 head i = get_link (sl_mem s) head i" using fresh by (simp add: m1 get_link_def)
      moreover have "?p i = head" using low ns i by (intro last_tall_head) auto
      ultimately show ?thesis by simp
    qed
    obtain m' where m': "insert_links head new (sl_max_height s) h prevs m1 = Some (max (sl_max_height s) h, m')"
      "shape (m1(head \<mapsto> hn\<lparr>sn_height := max (sl_max_height s) h\<rparr>)) m'"
      "\<And>c j. get_link m' c j = (if j < h \<and> c = new then get_link m1 (?p j) j
         else if j < h \<and> c = ?p j then Some (Some new) else get_link m1 c j)"
    proof -
      have "m1 head = Some hn" "head \<noteq> new" "lvl m1 head = kMaxHeight" "lvl m1 new = h"
        using hn(1) fresh hlvl lvl1 by (auto simp: m1)
      from insert_links_ok [OF this h(2) hn(3) pred up hn(2)] show thesis using that by blast
    qed
    have "SkipList_Put key val rands s = Some (kOk, s\<lparr>sl_mem := m', sl_max_height := max (sl_max_height s) h, sl_fresh := new + 1\<rparr>)"
      using SkipList_Put_insert [OF init Absent(1), of val rands] m'(1) by (simp add: h_def new m1 Let_def)
    moreover have "skip_rel (s\<lparr>sl_mem := m', sl_max_height := max (sl_max_height s) h, sl_fresh := new + 1\<rparr>)
        (map_put key val (map (node_entry (sl_mem s)) (pre @ post)))"
      using insert_inv [OF inv [unfolded ns] cut Absent(4) h new m1 hn(1) m'(2,3)] by blast
    moreover have "skip_put key val M = (kOk, map_put key val (map (node_entry (sl_mem s)) (pre @ post)))"
      using Absent(3) M ns by (simp only: skip_put_def option.case)
    ultimately show ?thesis by (metis fst_conv snd_conv)
  qed
qed

section \<open>Removal\<close>

lemma remove_inv:
  assumes inv: "skip_inv s head (pre @ old # post)" and cut: "cut (sl_mem s) key head pre (old # post)"
    and n: "sl_mem s old = Some n" "sn_key n = key"
    and shape: "shape (sl_mem s) m1"
    and get: "\<And>c j. get_link m1 c j = (if j < lvl (sl_mem s) old \<and> c = last_tall (sl_mem s) j (head # pre)
       then get_link (sl_mem s) old j else get_link (sl_mem s) c j)"
    and hn: "m1 head = Some hn" and h: "1 \<le> h" "h \<le> sl_max_height s"
      "\<And>i. h \<le> i \<Longrightarrow> i < sl_max_height s \<Longrightarrow> get_link m1 head i = Some None"
    and m': "m' = (m1(old := None))(head \<mapsto> hn\<lparr>sn_height := h\<rparr>)"
  shows "skip_rel (s\<lparr>sl_mem := m', sl_max_height := h\<rparr>)
    (map_erase key (map (node_entry (sl_mem s)) (pre @ old # post)))"
proof -
  let ?m = "sl_mem s" and ?s = "s\<lparr>sl_mem := m', sl_max_height := h\<rparr>"
  have dom: "dom ?m = set (head # pre @ old # post)" and dist: "distinct (head # pre @ old # post)"
    and linked: "linked ?m (head # pre @ old # post)" and sorted: "smap_ok (map (node_entry ?m) (pre @ old # post))"
    using inv by (auto simp: skip_inv_def)
  have hlvl: "lvl ?m head = kMaxHeight" and hok: "head_ok ?m (sl_max_height s) head" using inv by (auto simp: skip_inv_def head_lvl)
  have oldlvl: "lvl ?m old \<le> kMaxHeight" using inv node_lvl [of ?m "sl_max_height s" old] hok by (auto simp: skip_inv_def head_ok_def)
  have same: "m' a = m1 a" if "a \<in> set (pre @ post)" for a using that dist by (auto simp: m')
  have lvl: "lvl m' a = lvl ?m a" if "a \<in> set (head # pre @ post)" for a
    using that dist hn shape_lvl [OF shape, of a] by (auto simp: m' lvl_def)
  have get': "get_link m' a j = get_link m1 a j" if "a \<noteq> old" for a j using that hn by (simp add: m' get_link_def)
  have pred: "last_tall ?m j (head # pre) \<in> set (head # pre)" if "j < lvl ?m old" for j
    using last_tall_in [of j ?m head pre] that oldlvl hlvl by simp
  have node_entry: "node_entry m' a = node_entry ?m a" if "a \<in> set (pre @ post)" for a
  proof -
    have "a \<in> dom ?m" using that dom by auto
    then obtain n where "?m a = Some n" by blast
    then show ?thesis using shape_Some [OF shape] same [OF that] by (metis node_entry_def option.sel)
  qed
  have map: "map (node_entry m') (pre @ post) = map_erase key (map (node_entry ?m) (pre @ old # post))"
  proof -
    have "key \<notin> fst ` set (map (node_entry ?m) pre)" "key \<notin> fst ` set (map (node_entry ?m) post)"
      using smap_ok_distinct [OF sorted] n by (auto simp: node_entry_def image_iff)
    moreover have "node_entry ?m old = (key, sn_value n)" using n by (simp add: node_entry_def)
    ultimately have "map_erase key (map (node_entry ?m) (pre @ old # post)) = map (node_entry ?m) (pre @ post)"
      by (simp add: map_erase_append map_erase_absent map_erase_Cons)
    then show ?thesis using node_entry by simp
  qed
  have links: "linked m' ((head # pre) @ post)"
  proof (rule linked_remove)
    show "linked ?m ((head # pre) @ old # post)" using linked by simp
    show "lvl m' a = lvl ?m a" if "a \<in> set ((head # pre) @ post)" for a using that lvl by simp
    have "linked m' post = linked ?m post"
    proof (rule linked_cong)
      fix a assume a: "a \<in> set post"
      then show "lvl m' a = lvl ?m a" using lvl by simp
      show "get_link m' a i = get_link ?m a i" for i
      proof -
        have "a \<noteq> old" "a \<notin> set (head # pre)" using a dist by auto
        then show ?thesis using pred [of i] get [of a i] get' [of a i] by metis
      qed
    qed
    moreover have "linked ?m post" using linked linked_append [of ?m "head # pre @ [old]" post] by simp
    ultimately show "linked m' post" by simp
    fix us a ws j
    assume split: "head # pre = us @ a # ws" and j: "j < lvl ?m a"
    have "a \<in> set (head # pre)" by (simp add: split)
    then have a: "a \<noteq> old" using dist by auto
    have "distinct (head # pre)" using dist by simp
    then have "distinct (us @ a # ws)" unfolding split .
    from last_tall_iff [OF this j, folded split] show
      "get_link m' a j = (if j < lvl ?m old \<and> find (\<lambda>b. j < lvl ?m b) ws = None then get_link ?m old j else get_link ?m a j)"
      using get [of a j] get' [OF a] by auto
  qed
  obtain hn0 where hn0: "?m head = Some hn0" "length (sn_next hn0) = kMaxHeight" "sl_max_height s \<le> kMaxHeight"
    using hok by (auto simp: head_ok_def)
  have "length (sn_next hn) = kMaxHeight" using shape_Some [OF shape hn0(1)] hn hn0(2) by (metis option.sel)
  then have head: "head_ok m' h head" using hn0(3) h(1,2) by (simp add: m' head_ok_def)
  have node: "node_ok m' h a" if a: "a \<in> set (pre @ post)" for a
  proof -
    have "node_ok ?m (sl_max_height s) a" using a inv by (auto simp: skip_inv_def)
    then obtain n where n: "?m a = Some n" "sn_height n = length (sn_next n)" "1 \<le> sn_height n" "sn_height n \<le> sl_max_height s"
      by (auto simp: node_ok_def)
    have "lvl m' a \<le> h"
    proof (rule ccontr)
      assume "\<not> lvl m' a \<le> h"
      then have tall: "h < lvl m' a" and low: "h < sl_max_height s" using lvl [of a] a n by (auto simp: lvl_def)
      then have "get_link m' head h = Some None" using h(3) [of h] get' [of head] dist by simp
      moreover have "linked m' (head # pre @ post)" using links by simp
      moreover have "h < lvl m' head" using head_lvl [OF head] low hn0(3) by simp
      ultimately have "find (\<lambda>b. h < lvl m' b) (pre @ post) = None" by simp
      then show False using a tall by (auto simp: find_None_iff)
    qed
    moreover obtain n' where "m1 a = Some n'" "sn_height n' = sn_height n" "length (sn_next n') = length (sn_next n)"
      using shape_Some [OF shape n(1)] by blast
    ultimately show ?thesis using same [OF a] n(2,3) by (simp add: node_ok_def lvl_def)
  qed
  have "dom m' = set (head # pre @ post)"
    using shape_dom [OF shape] dom dist hn by (auto simp: m')
  then have "skip_inv ?s head (pre @ post)"
    using inv head node links dist map sorted smap_ok_erase [of "map (node_entry ?m) (pre @ old # post)" key]
    by (simp add: skip_inv_def)
  then show ?thesis unfolding skip_rel_def using map by (intro exI [of _ head] exI [of _ "pre @ post"]) simp
qed

lemma SkipList_Del_refines:
  assumes "skip_rel s M"
  shows "\<exists>s'. SkipList_Del key s = Some (fst (skip_del key M), s') \<and> skip_rel s' (snd (skip_del key M))"
proof -
  let ?m = "sl_mem s"
  obtain head ns where inv: "skip_inv s head ns" and M: "M = map (node_entry ?m) ns" using assms by (auto simp: skip_rel_def)
  then obtain pre post where ns: "ns = pre @ post" and cut: "cut ?m key head pre post" using skip_cut by blast
  let ?p = "\<lambda>i. last_tall ?m i (head # pre)"
  have init: "sl_is_init s" "sl_head s = Some head" using inv by (simp_all add: skip_inv_def)
  have linked: "linked ?m (head # pre @ post)" and sorted: "smap_ok M" using inv ns M by (simp_all add: skip_inv_def)
  note start = skip_start [OF inv cut]
  have "sl_max_height s - 1 < sl_max_height s" using start(2) by linarith
  then obtain prevs where prevs: "before_loop ?m key (sl_max_height s - 1) head (replicate kMaxHeight None) = Some prevs"
      "preds ?m (head # pre) 0 (sl_max_height s) prevs"
    using before_loop_preds [OF cut append_Nil [symmetric] start(1,4)] by blast
  have hlvl: "lvl ?m head = kMaxHeight" and hok: "head_ok ?m (sl_max_height s) head" using inv by (auto simp: skip_inv_def head_lvl)
  have "0 < sl_max_height s" using start(2) by linarith
  then have p0: "prevs ! 0 = Some (?p 0)" using prevs(2) by (simp add: preds_def)
  have tall: "0 < lvl ?m b" if "b \<in> set post" for b using that cut by (fastforce simp: cut_def lvl_def)
  have nxt: "get_link ?m (?p 0) 0 = Some (case post of [] \<Rightarrow> None | b # _ \<Rightarrow> Some b)"
    using last_tall_next [OF linked, of 0] hlvl tall by (cases post) (auto simp: kMaxHeight_def)
  have absent: "key \<notin> dom (map_of (map (node_entry ?m) pre))" using cut_entries(1) [OF cut, of key] by blast
  show ?thesis
  proof (cases post)
    case Nil
    then have "map_of M key = None" using absent M ns by (auto simp: domIff)
    moreover have "SkipList_Del key s = Some (kNotFound, s)" using init prevs(1) p0 nxt Nil by (simp add: SkipList_Del_def)
    ultimately show ?thesis using assms by (simp add: skip_del_def)
  next
    case (Cons old rest)
    then obtain n where n: "?m old = Some n" "key \<le> sn_key n" using cut by (auto simp: cut_def)
    show ?thesis
    proof (cases "key < sn_key n")
      case True
      have "key \<notin> dom (map_of (map (node_entry ?m) post))"
      proof
        assume key: "key \<in> dom (map_of (map (node_entry ?m) post))"
        have "smap_ok (map (node_entry ?m) post)" using sorted M ns by (simp add: smap_ok_def sorted_wrt_append)
        then have "sn_key n \<le> key"
          using smap_hd_least [of "fst (node_entry ?m old)" "snd (node_entry ?m old)" "map (node_entry ?m) rest" key] key n(1)
          by (simp add: Cons node_entry_def)
        with True show False by simp
      qed
      then have "map_of M key = None" using absent M ns by (simp add: domIff map_add_def)
      moreover have "SkipList_Del key s = Some (kNotFound, s)"
        using init prevs(1) p0 nxt Cons n True by (simp add: SkipList_Del_def)
      ultimately show ?thesis using assms by (simp add: skip_del_def)
    next
      case False
      then have key: "sn_key n = key" using n(2) by simp
      have node: "node_ok ?m (sl_max_height s) old" using inv ns Cons by (simp add: skip_inv_def)
      then have len: "sn_height n = lvl ?m old" "lvl ?m old \<le> sl_max_height s" using n(1) by (auto simp: node_ok_def lvl_def)
      have dist: "distinct (head # pre @ old # rest)" using inv ns Cons by (simp add: skip_inv_def)
      have pred: "prevs ! i = Some (?p i) \<and> i < lvl ?m (?p i) \<and> ?p i \<noteq> old" if "i < sn_height n" for i
      proof -
        have "?p i \<in> set (head # pre)" "i < lvl ?m (?p i)" using last_tall_in [of i ?m head pre] that len start(3) hlvl by simp_all
        then show ?thesis using prevs(2) that len dist by (auto simp: preds_def)
      qed
      obtain m1 where m1: "unlink_loop prevs old (sn_height n) ?m = Some m1" "shape ?m m1"
        "\<And>c j. get_link m1 c j = (if j < lvl ?m old \<and> c = ?p j then get_link ?m old j else get_link ?m c j)"
        using unlink_loop_ok [of "sn_height n" prevs ?p ?m old] pred len by auto
      obtain hn0 where hn0: "?m head = Some hn0" "sn_height hn0 = sl_max_height s" "length (sn_next hn0) = kMaxHeight"
        using hok by (auto simp: head_ok_def)
      obtain hn where hn: "m1 head = Some hn" "sn_height hn = sl_max_height s" "length (sn_next hn) = kMaxHeight"
        using shape_Some [OF m1(2) hn0(1)] hn0 by metis
      have out: "(m1(old := None)) head = Some hn" using hn(1) dist by simp
      obtain h where h: "shrink_loop head (sl_max_height s - 1) (m1(old := None)) = Some ((m1(old := None))(head \<mapsto> hn\<lparr>sn_height := h\<rparr>))"
        "1 \<le> h" "h \<le> sl_max_height s" "\<And>i. h \<le> i \<Longrightarrow> i < sl_max_height s \<Longrightarrow> get_link (m1(old := None)) head i = Some None"
      proof -
        have "sn_height hn = Suc (sl_max_height s - 1)" "sl_max_height s - 1 < length (sn_next hn)"
          using start(2,3) hn(2,3) by linarith+
        from shrink_loop_ok [of "m1(old := None)", OF out this] show thesis using that start(2) by force
      qed
      let ?m' = "(m1(old := None))(head \<mapsto> hn\<lparr>sn_height := h\<rparr>)"
      have "get_link m1 head i = Some None" if "h \<le> i" "i < sl_max_height s" for i
        using h(4) [OF that] dist by (simp add: get_link_def)
      then have "skip_rel (s\<lparr>sl_mem := ?m', sl_max_height := h\<rparr>) (map_erase key (map (node_entry ?m) (pre @ old # rest)))"
        using remove_inv [OF inv [unfolded ns Cons] cut [unfolded Cons] n(1) key m1(2,3) hn(1) h(2,3)] by blast
      moreover have "SkipList_Del key s = Some (kOk, s\<lparr>sl_mem := ?m', sl_max_height := h\<rparr>)"
        using init prevs(1) p0 nxt Cons n False m1(1) out hn(2) h(1) by (simp add: SkipList_Del_def)
      moreover have "map_of M key = Some (sn_value n)"
        using M ns Cons n(1) key by (intro smap_in_set [THEN iffD1, OF sorted]) (auto simp: node_entry_def)
      then have "skip_del key M = (kOk, map_erase key (map (node_entry ?m) (pre @ old # rest)))"
        using M ns Cons by (simp add: skip_del_def)
      ultimately show ?thesis by (metis fst_conv snd_conv)
    qed
  qed
qed

section \<open>Traversal and release\<close>

text \<open>The loop of a client: \<open>for (it.SetFirst(); it.Valid(); it.GoNext())\<close> over the keys and values.\<close>

partial_function (option) iterate_loop :: "('k, 'v) SkipList \<Rightarrow> node_addr option \<Rightarrow> ('k \<times> 'v) list option" where
  "iterate_loop s cur_node =
     (if cur_node = None then Some []
      else Option.bind (Iterator_GetKey s cur_node) (\<lambda>k. Option.bind (Iterator_GetValue s cur_node) (\<lambda>v.
        Option.bind (Iterator_GoNext s cur_node) (\<lambda>nxt. Option.bind (iterate_loop s (snd nxt)) (\<lambda>r.
        case (k, v) of (Inr k, Inr v) \<Rightarrow> Some ((k, v) # r) | _ \<Rightarrow> None)))))"

definition iterate :: "('k, 'v) SkipList \<Rightarrow> ('k \<times> 'v) list option" where
  "iterate s = Option.bind (Iterator_SetFirst s) (iterate_loop s)"

text \<open>On the lowest level every node is followed by the next one.\<close>

lemma linked_level0:
  assumes "linked m (a # vs)" "0 < lvl m a" "\<And>b. b \<in> set vs \<Longrightarrow> 0 < lvl m b"
  shows "get_link m a 0 = Some (case vs of [] \<Rightarrow> None | b # _ \<Rightarrow> Some b)"
  using assms by (cases vs) auto

lemma iterate_loop_entries:
  assumes "linked (sl_mem s) ns" "\<And>a. a \<in> set ns \<Longrightarrow> 0 < lvl (sl_mem s) a"
  shows "iterate_loop s (case ns of [] \<Rightarrow> None | a # _ \<Rightarrow> Some a) = Some (map (node_entry (sl_mem s)) ns)"
  using assms
proof (induction ns)
  case Nil
  then show ?case by (simp add: iterate_loop.simps)
next
  case (Cons a ns)
  obtain n where n: "sl_mem s a = Some n" using Cons.prems(2) [of a] by (auto simp: lvl_def split: option.splits)
  have "get_link (sl_mem s) a 0 = Some (case ns of [] \<Rightarrow> None | b # _ \<Rightarrow> Some b)"
    using Cons.prems by (intro linked_level0) simp_all
  moreover have "iterate_loop s (case ns of [] \<Rightarrow> None | b # _ \<Rightarrow> Some b) = Some (map (node_entry (sl_mem s)) ns)"
    using Cons.prems by (intro Cons.IH) simp_all
  ultimately show ?case
    using n by (simp add: iterate_loop.simps [of s "Some a"] Iterator_GetKey_def Iterator_GetValue_def Iterator_GoNext_def node_entry_def)
qed

lemma skip_level0:
  assumes "skip_inv s head ns"
  shows "linked (sl_mem s) (head # ns)" "\<And>a. a \<in> set (head # ns) \<Longrightarrow> 0 < lvl (sl_mem s) a"
    "get_link (sl_mem s) head 0 = Some (case ns of [] \<Rightarrow> None | b # _ \<Rightarrow> Some b)"
proof -
  show linked: "linked (sl_mem s) (head # ns)" using assms by (simp add: skip_inv_def)
  show pos: "0 < lvl (sl_mem s) a" if "a \<in> set (head # ns)" for a
  proof (cases "a = head")
    case True
    then show ?thesis using assms head_lvl [of "sl_mem s" "sl_max_height s" head] by (simp add: skip_inv_def kMaxHeight_def)
  next
    case False
    then show ?thesis using that assms node_lvl [of "sl_mem s" "sl_max_height s" a] by (force simp: skip_inv_def)
  qed
  show "get_link (sl_mem s) head 0 = Some (case ns of [] \<Rightarrow> None | b # _ \<Rightarrow> Some b)"
    using linked pos by (intro linked_level0) simp_all
qed

lemma iterate_refines: "skip_rel s M \<Longrightarrow> iterate s = Some M"
proof -
  assume "skip_rel s M"
  then obtain head ns where inv: "skip_inv s head ns" and M: "M = map (node_entry (sl_mem s)) ns" by (auto simp: skip_rel_def)
  note level0 = skip_level0 [OF inv]
  have "sl_head s = Some head" using inv by (simp add: skip_inv_def)
  moreover have "linked (sl_mem s) ns" using level0(1) by simp
  ultimately show ?thesis
    using level0(2,3) iterate_loop_entries [of s ns] M by (simp add: iterate_def Iterator_SetFirst_def)
qed

lemma destroy_loop_frees:
  assumes "linked m ns" "distinct ns" "\<And>a. a \<in> set ns \<Longrightarrow> 0 < lvl m a"
  shows "destroy_loop (case ns of [] \<Rightarrow> None | a # _ \<Rightarrow> Some a) m = Some (m |` (- set ns))"
  using assms
proof (induction ns arbitrary: m)
  case Nil
  then show ?case by (simp add: destroy_loop.simps)
next
  case (Cons a ns)
  let ?m = "m(a := None)"
  have next0: "get_link m a 0 = Some (case ns of [] \<Rightarrow> None | b # _ \<Rightarrow> Some b)"
    using Cons.prems by (intro linked_level0) simp_all
  have lvl: "lvl ?m b = lvl m b" and get: "get_link ?m b i = get_link m b i" if "b \<in> set ns" for b i
    using that Cons.prems(2) by (auto simp: lvl_def get_link_def)
  have "linked ?m ns = linked m ns" by (rule linked_cong) (simp_all add: lvl get)
  then have "destroy_loop (case ns of [] \<Rightarrow> None | a # _ \<Rightarrow> Some a) ?m = Some (?m |` (- set ns))"
    using Cons.prems lvl by (intro Cons.IH) (simp_all del: fun_upd_apply)
  moreover have "?m |` (- set ns) = m |` (- set (a # ns))" by (auto simp: restrict_map_def fun_eq_iff)
  ultimately show ?case using next0 by (simp add: destroy_loop.simps [of "Some a"])
qed

lemma Destroy_frees:
  assumes "skip_rel s M"
  shows "SkipList_Destroy s = Some (kOk, s\<lparr>sl_mem := Map.empty\<rparr>)"
proof -
  obtain head ns where inv: "skip_inv s head ns" using assms by (auto simp: skip_rel_def)
  have "dom (sl_mem s) = set (head # ns)" "sl_head s = Some head" "distinct (head # ns)" using inv by (simp_all add: skip_inv_def)
  moreover from this have "sl_mem s |` (- set (head # ns)) = Map.empty" by (auto simp: restrict_map_def fun_eq_iff)
  ultimately show ?thesis
    using destroy_loop_frees [of "sl_mem s" "head # ns"] skip_level0(1,2) [OF inv] by (simp add: SkipList_Destroy_def)
qed

text \<open>\<open>Destroy\<close> leaves the head pointer in place: the destructor, which calls it again, uses freed memory.\<close>

lemma Destroy_twice:
  assumes "skip_rel s M" "SkipList_Destroy s = Some (kOk, s')"
  shows "SkipList_Destroy s' = None"
proof -
  obtain head ns where "skip_inv s head ns" using assms(1) by (auto simp: skip_rel_def)
  then have "sl_head s = Some head" by (simp add: skip_inv_def)
  then show ?thesis using assms(2) unfolding Destroy_frees [OF assms(1)]
    by (auto simp: SkipList_Destroy_def destroy_loop.simps [of "Some head"] get_link_def)
qed

section \<open>Runs\<close>

datatype ('k, 'v) skip_op = SPut 'k 'v "nat \<Rightarrow> nat" | SGet 'k | SDel 'k | SList

datatype ('k, 'v) skip_out = SCode Code | SValue "'v res" | SEntries "('k \<times> 'v) list"

definition out_of :: "('r \<Rightarrow> 'o) \<Rightarrow> ('r \<times> 's) option \<Rightarrow> 's \<Rightarrow> 'o option \<times> 's" where
  "out_of f r s = (case r of None \<Rightarrow> (None, s) | Some (x, s) \<Rightarrow> (Some (f x), s))"

fun skip_exec :: "('k::linorder, 'v) skip_op \<Rightarrow> ('k, 'v) SkipList \<Rightarrow> ('k, 'v) skip_out option \<times> ('k, 'v) SkipList" where
  "skip_exec (SPut k v rands) s = out_of SCode (SkipList_Put k v rands s) s"
| "skip_exec (SGet k) s = (map_option SValue (SkipList_Get k s), s)"
| "skip_exec (SDel k) s = out_of SCode (SkipList_Del k s) s"
| "skip_exec SList s = (map_option SEntries (iterate s), s)"

fun skip_spec :: "('k::linorder, 'v) skip_op \<Rightarrow> ('k, 'v) smap \<Rightarrow> ('k, 'v) skip_out option \<times> ('k, 'v) smap" where
  "skip_spec (SPut k v rands) M = (Some (SCode (fst (skip_put k v M))), snd (skip_put k v M))"
| "skip_spec (SGet k) M = (Some (SValue (case map_of M k of None \<Rightarrow> Inl kNotFound | Some v \<Rightarrow> Inr v)), M)"
| "skip_spec (SDel k) M = (Some (SCode (fst (skip_del k M))), snd (skip_del k M))"
| "skip_spec SList M = (Some (SEntries M), M)"

interpretation skip: simulation skip_exec skip_spec skip_rel
proof -
  have "fst (skip_exec op s) = fst (skip_spec op M) \<and> skip_rel (snd (skip_exec op s)) (snd (skip_spec op M))"
    if rel: "skip_rel s M" for op and s :: "('k::linorder, 'v) SkipList" and M
  proof (cases op)
    case (SPut k v rands)
    then show ?thesis using SkipList_Put_refines [OF rel, of k v rands] by (auto simp: out_of_def)
  next
    case (SGet k)
    then show ?thesis using SkipList_Get_refines [OF rel, of k] rel by (auto split: option.splits)
  next
    case (SDel k)
    then show ?thesis using SkipList_Del_refines [OF rel, of k] by (auto simp: out_of_def)
  next
    case SList
    then show ?thesis using iterate_refines [OF rel] rel by simp
  qed
  then show "simulation skip_exec skip_spec (skip_rel :: ('k::linorder, 'v) SkipList \<Rightarrow> _)" by unfold_locales blast+
qed

lemma skip_rel_Init: "skip_rel (snd (SkipList_Init key0 val0 SkipList_new)) []"
  unfolding skip_rel_def
  by (intro exI [of _ 0] exI [of _ "[]"])
    (auto simp: skip_inv_def SkipList_Init_def SkipList_new_def head_ok_def kMaxHeight_def get_link_def lvl_def)

text \<open>C33: Any sequence of \<open>Put\<close>, \<open>Get\<close>, \<open>Del\<close> and traversals of an initialised skip list, with any random
  heights, returns what a sorted map returns: every search and every loop ends, no null, dangling or
  out-of-range link is followed, a second \<open>Put\<close> of a key fails with kExist, and a traversal yields the entries
  in the order of the keys. \<open>Destroy\<close> then frees every node.\<close>

theorem SkipList_refinement:
  "fst (run_ops skip_exec ops (snd (SkipList_Init key0 val0 SkipList_new))) = fst (run_ops skip_spec ops []) \<and>
   SkipList_Destroy (snd (run_ops skip_exec ops (snd (SkipList_Init key0 val0 SkipList_new)))) =
     Some (kOk, (snd (run_ops skip_exec ops (snd (SkipList_Init key0 val0 SkipList_new))))\<lparr>sl_mem := Map.empty\<rparr>)"
  using skip.run_simulates [OF skip_rel_Init, of ops key0 val0]
    Destroy_frees [of "snd (run_ops skip_exec ops (snd (SkipList_Init key0 val0 SkipList_new)))"] by blast

end
