(* ===== verification/My_Rb_Tree.thy ===== *)
theory My_Rb_Tree
  imports CS_Prelude "HOL-Library.Monad_Syntax"
begin

text \<open>
  The red-black tree of mystl/my_rb_tree.h on an explicit heap: nodes with a colour and links to
  parent and children, address 0 for the null pointer, and a header whose parent is the root and whose
  children are the least and the greatest node. Dereferencing null or freed memory is \<open>None\<close>, and so is a
  loop that does not end. The key of a value is a parameter, its order a linear one.
\<close>

section \<open>Nodes\<close>

type_synonym base_ptr = nat

abbreviation rb_red :: bool where "rb_red \<equiv> False"
abbreviation rb_black :: bool where "rb_black \<equiv> True"

record 'v rb_node =
  rb_color :: bool
  rb_parent :: base_ptr
  rb_left :: base_ptr
  rb_right :: base_ptr
  rb_value :: 'v

type_synonym 'v rb_heap = "base_ptr \<rightharpoonup> 'v rb_node"

definition rd :: "('v rb_node \<Rightarrow> 'a) \<Rightarrow> base_ptr \<Rightarrow> 'v rb_heap \<Rightarrow> 'a option" where
  "rd f a h = (if a = 0 then None else map_option f (h a))"

definition wr :: "('v rb_node \<Rightarrow> 'v rb_node) \<Rightarrow> base_ptr \<Rightarrow> 'v rb_heap \<Rightarrow> 'v rb_heap option" where
  "wr f a h = (if a = 0 then None else case h a of None \<Rightarrow> None | Some n \<Rightarrow> Some (h(a \<mapsto> f n)))"

definition set_color :: "base_ptr \<Rightarrow> bool \<Rightarrow> 'v rb_heap \<Rightarrow> 'v rb_heap option" where
  "set_color a c = wr (\<lambda>n. n\<lparr>rb_color := c\<rparr>) a"

definition set_parent :: "base_ptr \<Rightarrow> base_ptr \<Rightarrow> 'v rb_heap \<Rightarrow> 'v rb_heap option" where
  "set_parent a b = wr (\<lambda>n. n\<lparr>rb_parent := b\<rparr>) a"

definition set_left :: "base_ptr \<Rightarrow> base_ptr \<Rightarrow> 'v rb_heap \<Rightarrow> 'v rb_heap option" where
  "set_left a b = wr (\<lambda>n. n\<lparr>rb_left := b\<rparr>) a"

definition set_right :: "base_ptr \<Rightarrow> base_ptr \<Rightarrow> 'v rb_heap \<Rightarrow> 'v rb_heap option" where
  "set_right a b = wr (\<lambda>n. n\<lparr>rb_right := b\<rparr>) a"

section \<open>Iterators\<close>

partial_function (option) rb_minimum :: "base_ptr \<Rightarrow> 'v rb_heap \<Rightarrow> base_ptr option" where
  "rb_minimum x h = do { l \<leftarrow> rd rb_left x h; if l \<noteq> 0 then rb_minimum l h else Some x }"

partial_function (option) rb_maximum :: "base_ptr \<Rightarrow> 'v rb_heap \<Rightarrow> base_ptr option" where
  "rb_maximum x h = do { r \<leftarrow> rd rb_right x h; if r \<noteq> 0 then rb_maximum r h else Some x }"

text \<open>\<open>while (node == y->right) { node = y; y = node->parent; }\<close>\<close>

partial_function (option) climb_right :: "base_ptr \<Rightarrow> base_ptr \<Rightarrow> 'v rb_heap \<Rightarrow> (base_ptr \<times> base_ptr) option" where
  "climb_right node y h = do {
     r \<leftarrow> rd rb_right y h;
     if node = r then do { p \<leftarrow> rd rb_parent y h; climb_right y p h } else Some (node, y) }"

partial_function (option) climb_left :: "base_ptr \<Rightarrow> base_ptr \<Rightarrow> 'v rb_heap \<Rightarrow> (base_ptr \<times> base_ptr) option" where
  "climb_left node y h = do {
     l \<leftarrow> rd rb_left y h;
     if node = l then do { p \<leftarrow> rd rb_parent y h; climb_left y p h } else Some (node, y) }"

definition rb_increment :: "base_ptr \<Rightarrow> 'v rb_heap \<Rightarrow> base_ptr option" where
  "rb_increment node h = do {
     r \<leftarrow> rd rb_right node h;
     if r \<noteq> 0 then rb_minimum r h
     else do {
       p \<leftarrow> rd rb_parent node h;
       (node, y) \<leftarrow> climb_right node p h;
       r \<leftarrow> rd rb_right node h;
       Some (if r \<noteq> y then y else node) } }"

definition rb_decrement :: "base_ptr \<Rightarrow> 'v rb_heap \<Rightarrow> base_ptr option" where
  "rb_decrement node h = do {
     c \<leftarrow> rd rb_color node h;
     p \<leftarrow> rd rb_parent node h;
     pp \<leftarrow> (if c = rb_red then rd rb_parent p h else Some 0);
     if c = rb_red \<and> pp = node then rd rb_right node h
     else do {
       l \<leftarrow> rd rb_left node h;
       if l \<noteq> 0 then rb_maximum l h
       else do { (node, y) \<leftarrow> climb_left node p h; Some y } } }"

section \<open>Rotations and rebalancing\<close>

definition rb_rotate_left :: "base_ptr \<Rightarrow> base_ptr \<Rightarrow> 'v rb_heap \<Rightarrow> 'v rb_heap option" where
  "rb_rotate_left header x h = do {
     y \<leftarrow> rd rb_right x h;
     yl \<leftarrow> rd rb_left y h;
     h \<leftarrow> set_right x yl h;
     h \<leftarrow> (if yl \<noteq> 0 then set_parent yl x h else Some h);
     xp \<leftarrow> rd rb_parent x h;
     h \<leftarrow> set_parent y xp h;
     root \<leftarrow> rd rb_parent header h;
     h \<leftarrow> (if x = root then set_parent header y h
       else do { l \<leftarrow> rd rb_left xp h; if x = l then set_left xp y h else set_right xp y h });
     h \<leftarrow> set_left y x h;
     set_parent x y h }"

definition rb_rotate_right :: "base_ptr \<Rightarrow> base_ptr \<Rightarrow> 'v rb_heap \<Rightarrow> 'v rb_heap option" where
  "rb_rotate_right header x h = do {
     y \<leftarrow> rd rb_left x h;
     yr \<leftarrow> rd rb_right y h;
     h \<leftarrow> set_left x yr h;
     h \<leftarrow> (if yr \<noteq> 0 then set_parent yr x h else Some h);
     xp \<leftarrow> rd rb_parent x h;
     h \<leftarrow> set_parent y xp h;
     root \<leftarrow> rd rb_parent header h;
     h \<leftarrow> (if x = root then set_parent header y h
       else do { l \<leftarrow> rd rb_left xp h; if x = l then set_left xp y h else set_right xp y h });
     h \<leftarrow> set_right y x h;
     set_parent x y h }"

text \<open>
  One turn of the loop of \<open>__my_rb_tree_insert_rebalance\<close>, for a parent \<open>p\<close> that is the left and the right
  child of the grandparent \<open>g\<close>; the result is the node to go on from.
\<close>

definition insert_left :: "base_ptr \<Rightarrow> base_ptr \<Rightarrow> base_ptr \<Rightarrow> base_ptr \<Rightarrow> 'v rb_heap \<Rightarrow> (base_ptr \<times> 'v rb_heap) option" where
  "insert_left header x p g h = do {
     y \<leftarrow> rd rb_right g h;
     yc \<leftarrow> (if y \<noteq> 0 then rd rb_color y h else Some rb_black);
     if y \<noteq> 0 \<and> yc = rb_red then do {
       h \<leftarrow> set_color p rb_black h;
       h \<leftarrow> set_color y rb_black h;
       h \<leftarrow> set_color g rb_red h;
       Some (g, h) }
     else do {
       c \<leftarrow> rd rb_right p h;
       (x, h) \<leftarrow> (if x = c then do { h \<leftarrow> rb_rotate_left header p h; Some (p, h) } else Some (x, h));
       p \<leftarrow> rd rb_parent x h;
       h \<leftarrow> set_color p rb_black h;
       g \<leftarrow> rd rb_parent p h;
       h \<leftarrow> set_color g rb_red h;
       h \<leftarrow> rb_rotate_right header g h;
       Some (x, h) } }"

definition insert_right :: "base_ptr \<Rightarrow> base_ptr \<Rightarrow> base_ptr \<Rightarrow> base_ptr \<Rightarrow> 'v rb_heap \<Rightarrow> (base_ptr \<times> 'v rb_heap) option" where
  "insert_right header x p g h = do {
     y \<leftarrow> rd rb_left g h;
     yc \<leftarrow> (if y \<noteq> 0 then rd rb_color y h else Some rb_black);
     if y \<noteq> 0 \<and> yc = rb_red then do {
       h \<leftarrow> set_color p rb_black h;
       h \<leftarrow> set_color g rb_red h;
       h \<leftarrow> set_color y rb_black h;
       Some (g, h) }
     else do {
       c \<leftarrow> rd rb_left p h;
       (x, h) \<leftarrow> (if x = c then do { h \<leftarrow> rb_rotate_right header p h; Some (p, h) } else Some (x, h));
       p \<leftarrow> rd rb_parent x h;
       h \<leftarrow> set_color p rb_black h;
       g \<leftarrow> rd rb_parent p h;
       h \<leftarrow> set_color g rb_red h;
       h \<leftarrow> rb_rotate_left header g h;
       Some (x, h) } }"

partial_function (option) insert_fix :: "base_ptr \<Rightarrow> base_ptr \<Rightarrow> 'v rb_heap \<Rightarrow> 'v rb_heap option" where
  "insert_fix header x h = do {
     root \<leftarrow> rd rb_parent header h;
     p \<leftarrow> rd rb_parent x h;
     pc \<leftarrow> (if x \<noteq> root then rd rb_color p h else Some rb_black);
     if x = root \<or> pc \<noteq> rb_red then Some h
     else do {
       g \<leftarrow> rd rb_parent p h;
       gl \<leftarrow> rd rb_left g h;
       (x, h) \<leftarrow> (if p = gl then insert_left header x p g h else insert_right header x p g h);
       insert_fix header x h } }"

definition rb_insert_rebalance :: "base_ptr \<Rightarrow> base_ptr \<Rightarrow> 'v rb_heap \<Rightarrow> 'v rb_heap option" where
  "rb_insert_rebalance header x h = do {
     h \<leftarrow> set_color x rb_red h;
     h \<leftarrow> insert_fix header x h;
     root \<leftarrow> rd rb_parent header h;
     set_color root rb_black h }"

section \<open>The tree\<close>

record 'v my_rb_tree =
  rt_node_count :: nat
  rt_header :: base_ptr
  rt_heap :: "'v rb_heap"
  rt_fresh :: base_ptr

definition rb_root :: "'v my_rb_tree \<Rightarrow> base_ptr option" where
  "rb_root t = rd rb_parent (rt_header t) (rt_heap t)"

definition rb_begin :: "'v my_rb_tree \<Rightarrow> base_ptr option" where
  "rb_begin t = rd rb_left (rt_header t) (rt_heap t)"

definition rb_end :: "'v my_rb_tree \<Rightarrow> base_ptr" where
  "rb_end t = rt_header t"

text \<open>\<open>junk\<close> is the value that the unused field of the header has.\<close>

definition rb_init :: "'v \<Rightarrow> 'v my_rb_tree" where
  "rb_init junk = \<lparr>rt_node_count = 0, rt_header = 1,
     rt_heap = [1 \<mapsto> \<lparr>rb_color = rb_red, rb_parent = 0, rb_left = 1, rb_right = 1, rb_value = junk\<rparr>], rt_fresh = 2\<rparr>"

definition create_node :: "'v \<Rightarrow> 'v my_rb_tree \<Rightarrow> base_ptr \<times> 'v my_rb_tree" where
  "create_node v t = (rt_fresh t, t\<lparr>rt_fresh := rt_fresh t + 1,
     rt_heap := (rt_heap t)(rt_fresh t \<mapsto> \<lparr>rb_color = rb_red, rb_parent = 0, rb_left = 0, rb_right = 0, rb_value = v\<rparr>)\<rparr>)"

partial_function (option) rb_lower_bound :: "('v \<Rightarrow> 'k::linorder) \<Rightarrow> base_ptr \<Rightarrow> base_ptr \<Rightarrow> 'k \<Rightarrow> 'v rb_heap \<Rightarrow> base_ptr option" where
  "rb_lower_bound key x y k h =
     (if x \<noteq> 0 then do {
        v \<leftarrow> rd rb_value x h;
        if \<not> key v < k then do { l \<leftarrow> rd rb_left x h; rb_lower_bound key l x k h }
        else do { r \<leftarrow> rd rb_right x h; rb_lower_bound key r y k h } }
      else Some y)"

partial_function (option) rb_upper_bound :: "('v \<Rightarrow> 'k::linorder) \<Rightarrow> base_ptr \<Rightarrow> base_ptr \<Rightarrow> 'k \<Rightarrow> 'v rb_heap \<Rightarrow> base_ptr option" where
  "rb_upper_bound key x y k h =
     (if x \<noteq> 0 then do {
        v \<leftarrow> rd rb_value x h;
        if k < key v then do { l \<leftarrow> rd rb_left x h; rb_upper_bound key l x k h }
        else do { r \<leftarrow> rd rb_right x h; rb_upper_bound key r y k h } }
      else Some y)"

partial_function (option) equal_range_loop ::
  "('v \<Rightarrow> 'k::linorder) \<Rightarrow> base_ptr \<Rightarrow> base_ptr \<Rightarrow> 'k \<Rightarrow> 'v rb_heap \<Rightarrow> (base_ptr \<times> base_ptr) option" where
  "equal_range_loop key x y k h =
     (if x \<noteq> 0 then do {
        v \<leftarrow> rd rb_value x h;
        if k < key v then do { l \<leftarrow> rd rb_left x h; equal_range_loop key l x k h }
        else if key v < k then do { r \<leftarrow> rd rb_right x h; equal_range_loop key r y k h }
        else do {
          l \<leftarrow> rd rb_left x h;
          r \<leftarrow> rd rb_right x h;
          lo \<leftarrow> rb_lower_bound key l x k h;
          hi \<leftarrow> rb_upper_bound key r y k h;
          Some (lo, hi) } }
      else Some (y, y))"

definition rb_equal_range :: "('v \<Rightarrow> 'k::linorder) \<Rightarrow> 'k \<Rightarrow> 'v my_rb_tree \<Rightarrow> (base_ptr \<times> base_ptr) option" where
  "rb_equal_range key k t = do { x \<leftarrow> rb_root t; equal_range_loop key x (rt_header t) k (rt_heap t) }"

text \<open>\<open>my_distance\<close> on iterators of the tree.\<close>

partial_function (option) rb_distance :: "base_ptr \<Rightarrow> base_ptr \<Rightarrow> 'v rb_heap \<Rightarrow> nat option" where
  "rb_distance a b h =
     (if a = b then Some 0
      else do { nxt \<leftarrow> rb_increment a h; n \<leftarrow> rb_distance nxt b h; Some (n + 1) })"

definition rb_count :: "('v \<Rightarrow> 'k::linorder) \<Rightarrow> 'k \<Rightarrow> 'v my_rb_tree \<Rightarrow> nat option" where
  "rb_count key k t = do { (lo, hi) \<leftarrow> rb_equal_range key k t; rb_distance lo hi (rt_heap t) }"

definition rb_find :: "('v \<Rightarrow> 'k::linorder) \<Rightarrow> 'k \<Rightarrow> 'v my_rb_tree \<Rightarrow> base_ptr option" where
  "rb_find key k t = do {
     x \<leftarrow> rb_root t;
     j \<leftarrow> rb_lower_bound key x (rt_header t) k (rt_heap t);
     if j = rb_end t then Some (rb_end t)
     else do { v \<leftarrow> rd rb_value j (rt_heap t); Some (if k < key v then rb_end t else j) } }"

text \<open>\<open>__insert\<close> from the links on: the new node \<open>z\<close> becomes a child of \<open>y\<close>, and the header learns a new end.\<close>

definition link_node :: "bool \<Rightarrow> base_ptr \<Rightarrow> base_ptr \<Rightarrow> base_ptr \<Rightarrow> 'v rb_heap \<Rightarrow> 'v rb_heap option" where
  "link_node go_left header y z h = do {
     h \<leftarrow> (if go_left then do {
         h \<leftarrow> set_left y z h;
         leftmost \<leftarrow> rd rb_left header h;
         if y = header then do { h \<leftarrow> set_parent header z h; set_right header z h }
         else if y = leftmost then set_left header z h
         else Some h }
       else do {
         h \<leftarrow> set_right y z h;
         rightmost \<leftarrow> rd rb_right header h;
         if y = rightmost then set_right header z h else Some h });
     h \<leftarrow> set_parent z y h;
     h \<leftarrow> set_left z 0 h;
     set_right z 0 h }"

definition rb_insert :: "('v \<Rightarrow> 'k::linorder) \<Rightarrow> base_ptr \<Rightarrow> base_ptr \<Rightarrow> 'v \<Rightarrow> 'v my_rb_tree \<Rightarrow> (base_ptr \<times> 'v my_rb_tree) option" where
  "rb_insert key x y v t = do {
     go_left \<leftarrow> (if y = rt_header t \<or> x \<noteq> 0 then Some True else do { w \<leftarrow> rd rb_value y (rt_heap t); Some (key v < key w) });
     (z, t) \<leftarrow> Some (create_node v t);
     h \<leftarrow> link_node go_left (rt_header t) y z (rt_heap t);
     h \<leftarrow> rb_insert_rebalance (rt_header t) z h;
     Some (z, t\<lparr>rt_heap := h, rt_node_count := rt_node_count t + 1\<rparr>) }"

partial_function (option) insert_equal_loop :: "('v \<Rightarrow> 'k::linorder) \<Rightarrow> base_ptr \<Rightarrow> base_ptr \<Rightarrow> 'k \<Rightarrow> 'v rb_heap \<Rightarrow> base_ptr option" where
  "insert_equal_loop key x y k h =
     (if x \<noteq> 0 then do {
        w \<leftarrow> rd rb_value x h;
        nxt \<leftarrow> (if k < key w then rd rb_left x h else rd rb_right x h);
        insert_equal_loop key nxt x k h }
      else Some y)"

definition rb_insert_equal :: "('v \<Rightarrow> 'k::linorder) \<Rightarrow> 'v \<Rightarrow> 'v my_rb_tree \<Rightarrow> ((base_ptr \<times> bool) \<times> 'v my_rb_tree) option" where
  "rb_insert_equal key v t = do {
     x \<leftarrow> rb_root t;
     y \<leftarrow> insert_equal_loop key x (rt_header t) (key v) (rt_heap t);
     (z, t) \<leftarrow> rb_insert key 0 y v t;
     Some ((z, True), t) }"

partial_function (option) insert_unique_loop ::
  "('v \<Rightarrow> 'k::linorder) \<Rightarrow> base_ptr \<Rightarrow> base_ptr \<Rightarrow> bool \<Rightarrow> 'k \<Rightarrow> 'v rb_heap \<Rightarrow> (base_ptr \<times> bool) option" where
  "insert_unique_loop key x y cmp k h =
     (if x \<noteq> 0 then do {
        w \<leftarrow> rd rb_value x h;
        nxt \<leftarrow> (if k < key w then rd rb_left x h else rd rb_right x h);
        insert_unique_loop key nxt x (k < key w) k h }
      else Some (y, cmp))"

definition rb_insert_unique :: "('v \<Rightarrow> 'k::linorder) \<Rightarrow> 'v \<Rightarrow> 'v my_rb_tree \<Rightarrow> ((base_ptr \<times> bool) \<times> 'v my_rb_tree) option" where
  "rb_insert_unique key v t = do {
     x \<leftarrow> rb_root t;
     (y, cmp) \<leftarrow> insert_unique_loop key x (rt_header t) True (key v) (rt_heap t);
     b \<leftarrow> rb_begin t;
     if cmp \<and> y = b then do { (z, t) \<leftarrow> rb_insert key 0 y v t; Some ((z, True), t) }
     else do {
       j \<leftarrow> (if cmp then rb_decrement y (rt_heap t) else Some y);
       w \<leftarrow> rd rb_value j (rt_heap t);
       if key w < key v then do { (z, t) \<leftarrow> rb_insert key 0 y v t; Some ((z, True), t) }
       else Some ((j, False), t) } }"

text \<open>\<open>__erase\<close> frees the nodes below \<open>x\<close>: the right subtree by recursion, the left one by the loop.\<close>

partial_function (option) erase_all :: "base_ptr \<Rightarrow> 'v rb_heap \<Rightarrow> 'v rb_heap option" where
  "erase_all x h =
     (if x \<noteq> 0 then do {
        r \<leftarrow> rd rb_right x h;
        h \<leftarrow> erase_all r h;
        y \<leftarrow> rd rb_left x h;
        erase_all y (h(x := None)) }
      else Some h)"

definition rb_clear :: "'v my_rb_tree \<Rightarrow> 'v my_rb_tree option" where
  "rb_clear t = do {
     x \<leftarrow> rb_root t;
     h \<leftarrow> erase_all x (rt_heap t);
     h \<leftarrow> set_parent (rt_header t) 0 h;
     h \<leftarrow> set_left (rt_header t) (rt_header t) h;
     h \<leftarrow> set_right (rt_header t) (rt_header t) h;
     Some (t\<lparr>rt_heap := h, rt_node_count := 0\<rparr>) }"

section \<open>Removal\<close>

text \<open>
  \<open>__my_rb_tree_erase_reblance\<close> has two loops: one while \<open>x\<close> is null, and one up to a red node or the root.
  One turn of the first, with \<open>x\<close> the left and the right child of \<open>p\<close>; the result is the next \<open>x\<close>, or
  \<open>None\<close> when the function returns.
\<close>

definition null_left :: "base_ptr \<Rightarrow> base_ptr \<Rightarrow> base_ptr \<Rightarrow> 'v rb_heap \<Rightarrow> (base_ptr option \<times> 'v rb_heap) option" where
  "null_left header p w h = do {
     wc \<leftarrow> rd rb_color w h;
     (w, h) \<leftarrow> (if wc = rb_red then do {
         h \<leftarrow> set_color w rb_black h;
         h \<leftarrow> set_color p rb_red h;
         h \<leftarrow> rb_rotate_left header p h;
         w \<leftarrow> rd rb_right p h;
         Some (w, h) }
       else Some (w, h));
     wc \<leftarrow> rd rb_color w h;
     wl \<leftarrow> rd rb_left w h;
     wr \<leftarrow> rd rb_right w h;
     if wc = rb_black \<and> wl = 0 \<and> wr = 0 then do { h \<leftarrow> set_color w rb_red h; Some (Some p, h) }
     else do {
       near \<leftarrow> rd rb_left w h;
       (w, h) \<leftarrow> (if near \<noteq> 0 then do {
           h \<leftarrow> set_color near rb_black h;
           h \<leftarrow> set_color w rb_red h;
           h \<leftarrow> rb_rotate_right header w h;
           w \<leftarrow> rd rb_right p h;
           Some (w, h) }
         else Some (w, h));
       far \<leftarrow> rd rb_right w h;
       if far \<noteq> 0 then do {
         pc \<leftarrow> rd rb_color p h;
         h \<leftarrow> set_color w pc h;
         h \<leftarrow> set_color p rb_black h;
         h \<leftarrow> set_color far rb_black h;
         h \<leftarrow> rb_rotate_left header p h;
         Some (None, h) }
       else Some (Some 0, h) } }"

definition null_right :: "base_ptr \<Rightarrow> base_ptr \<Rightarrow> base_ptr \<Rightarrow> 'v rb_heap \<Rightarrow> (base_ptr option \<times> 'v rb_heap) option" where
  "null_right header p w h = do {
     wc \<leftarrow> rd rb_color w h;
     (w, h) \<leftarrow> (if wc = rb_red then do {
         h \<leftarrow> set_color w rb_black h;
         h \<leftarrow> set_color p rb_red h;
         h \<leftarrow> rb_rotate_right header p h;
         w \<leftarrow> rd rb_left p h;
         Some (w, h) }
       else Some (w, h));
     wc \<leftarrow> rd rb_color w h;
     wl \<leftarrow> rd rb_left w h;
     wr \<leftarrow> rd rb_right w h;
     if wc = rb_black \<and> wl = 0 \<and> wr = 0 then do { h \<leftarrow> set_color w rb_red h; Some (Some p, h) }
     else do {
       near \<leftarrow> rd rb_right w h;
       (w, h) \<leftarrow> (if near \<noteq> 0 then do {
           h \<leftarrow> set_color near rb_black h;
           h \<leftarrow> set_color w rb_red h;
           h \<leftarrow> rb_rotate_left header w h;
           w \<leftarrow> rd rb_left p h;
           Some (w, h) }
         else Some (w, h));
       far \<leftarrow> rd rb_left w h;
       if far \<noteq> 0 then do {
         pc \<leftarrow> rd rb_color p h;
         h \<leftarrow> set_color w pc h;
         h \<leftarrow> set_color p rb_black h;
         h \<leftarrow> set_color far rb_black h;
         h \<leftarrow> rb_rotate_right header p h;
         Some (None, h) }
       else Some (Some 0, h) } }"

partial_function (option) erase_fix_null :: "base_ptr \<Rightarrow> base_ptr \<Rightarrow> base_ptr \<Rightarrow> 'v rb_heap \<Rightarrow> (base_ptr option \<times> 'v rb_heap) option" where
  "erase_fix_null header x p h =
     (if x \<noteq> 0 then Some (Some x, h)
      else do {
        pl \<leftarrow> rd rb_left p h;
        pr \<leftarrow> rd rb_right p h;
        (r, h) \<leftarrow> (if pl = x then null_left header p pr h else if pr = x then null_right header p pl h else Some (Some x, h));
        case r of None \<Rightarrow> Some (None, h) | Some x \<Rightarrow> erase_fix_null header x p h })"

text \<open>One turn of the second loop.\<close>

definition fix_left :: "base_ptr \<Rightarrow> base_ptr \<Rightarrow> base_ptr \<Rightarrow> 'v rb_heap \<Rightarrow> (base_ptr \<times> 'v rb_heap) option" where
  "fix_left header x p h = do {
     w \<leftarrow> rd rb_right p h;
     wc \<leftarrow> rd rb_color w h;
     (w, h) \<leftarrow> (if wc = rb_red then do {
         h \<leftarrow> set_color w rb_black h;
         h \<leftarrow> set_color p rb_red h;
         h \<leftarrow> rb_rotate_left header p h;
         p \<leftarrow> rd rb_parent x h;
         w \<leftarrow> rd rb_right p h;
         Some (w, h) }
       else Some (w, h));
     wl \<leftarrow> rd rb_left w h;
     wr \<leftarrow> rd rb_right w h;
     wlc \<leftarrow> rd rb_color wl h;
     wrc \<leftarrow> (if wlc = rb_black then rd rb_color wr h else Some rb_red);
     if wlc = rb_black \<and> wrc = rb_black then do {
       h \<leftarrow> set_color w rb_red h;
       p \<leftarrow> rd rb_parent x h;
       Some (p, h) }
     else do {
       near \<leftarrow> rd rb_left w h;
       far \<leftarrow> rd rb_right w h;
       farc \<leftarrow> rd rb_color far h;
       (w, h) \<leftarrow> (if farc = rb_black then do {
           h \<leftarrow> set_color near rb_black h;
           h \<leftarrow> set_color w rb_red h;
           h \<leftarrow> rb_rotate_right header w h;
           p \<leftarrow> rd rb_parent x h;
           w \<leftarrow> rd rb_right p h;
           Some (w, h) }
         else Some (w, h));
       far \<leftarrow> rd rb_right w h;
       farc \<leftarrow> rd rb_color far h;
       if farc = rb_red then do {
         p \<leftarrow> rd rb_parent x h;
         pc \<leftarrow> rd rb_color p h;
         h \<leftarrow> set_color w pc h;
         h \<leftarrow> set_color p rb_black h;
         h \<leftarrow> set_color far rb_black h;
         h \<leftarrow> rb_rotate_left header p h;
         root \<leftarrow> rd rb_parent header h;
         Some (root, h) }
       else Some (x, h) } }"

definition fix_right :: "base_ptr \<Rightarrow> base_ptr \<Rightarrow> base_ptr \<Rightarrow> 'v rb_heap \<Rightarrow> (base_ptr \<times> 'v rb_heap) option" where
  "fix_right header x p h = do {
     w \<leftarrow> rd rb_left p h;
     wc \<leftarrow> rd rb_color w h;
     (w, h) \<leftarrow> (if wc = rb_red then do {
         h \<leftarrow> set_color w rb_black h;
         h \<leftarrow> set_color p rb_red h;
         h \<leftarrow> rb_rotate_right header p h;
         p \<leftarrow> rd rb_parent x h;
         w \<leftarrow> rd rb_left p h;
         Some (w, h) }
       else Some (w, h));
     wl \<leftarrow> rd rb_left w h;
     wr \<leftarrow> rd rb_right w h;
     wlc \<leftarrow> rd rb_color wl h;
     wrc \<leftarrow> (if wlc = rb_black then rd rb_color wr h else Some rb_red);
     if wlc = rb_black \<and> wrc = rb_black then do {
       h \<leftarrow> set_color w rb_red h;
       p \<leftarrow> rd rb_parent x h;
       Some (p, h) }
     else do {
       near \<leftarrow> rd rb_right w h;
       far \<leftarrow> rd rb_left w h;
       farc \<leftarrow> rd rb_color far h;
       (w, h) \<leftarrow> (if farc = rb_black then do {
           h \<leftarrow> set_color near rb_black h;
           h \<leftarrow> set_color w rb_red h;
           h \<leftarrow> rb_rotate_left header w h;
           p \<leftarrow> rd rb_parent x h;
           w \<leftarrow> rd rb_left p h;
           Some (w, h) }
         else Some (w, h));
       far \<leftarrow> rd rb_left w h;
       farc \<leftarrow> rd rb_color far h;
       if farc = rb_red then do {
         p \<leftarrow> rd rb_parent x h;
         pc \<leftarrow> rd rb_color p h;
         h \<leftarrow> set_color w pc h;
         h \<leftarrow> set_color p rb_black h;
         h \<leftarrow> set_color far rb_black h;
         h \<leftarrow> rb_rotate_right header p h;
         root \<leftarrow> rd rb_parent header h;
         Some (root, h) }
       else Some (x, h) } }"

partial_function (option) erase_fix :: "base_ptr \<Rightarrow> base_ptr \<Rightarrow> 'v rb_heap \<Rightarrow> (base_ptr \<times> 'v rb_heap) option" where
  "erase_fix header x h = do {
     root \<leftarrow> rd rb_parent header h;
     xc \<leftarrow> (if x \<noteq> root then rd rb_color x h else Some rb_red);
     if x = root \<or> xc \<noteq> rb_black then Some (x, h)
     else do {
       p \<leftarrow> rd rb_parent x h;
       pl \<leftarrow> rd rb_left p h;
       (x, h) \<leftarrow> (if x = pl then fix_left header x p h else fix_right header x p h);
       erase_fix header x h } }"

definition rb_erase_rebalance :: "base_ptr \<Rightarrow> base_ptr \<Rightarrow> base_ptr \<Rightarrow> 'v rb_heap \<Rightarrow> 'v rb_heap option" where
  "rb_erase_rebalance header x p h = do {
     (r, h) \<leftarrow> erase_fix_null header x p h;
     case r of None \<Rightarrow> Some h
     | Some x \<Rightarrow> do { (x, h) \<leftarrow> erase_fix header x h; set_color x rb_black h } }"

definition rb_erase :: "base_ptr \<Rightarrow> 'v my_rb_tree \<Rightarrow> 'v my_rb_tree option" where
  "rb_erase position t = do {
     h \<leftarrow> Some (rt_heap t);
     header \<leftarrow> Some (rt_header t);
     l \<leftarrow> rd rb_left position h;
     r \<leftarrow> rd rb_right position h;
     y \<leftarrow> (if l = 0 \<or> r = 0 then Some position else rb_increment position h);
     yl \<leftarrow> rd rb_left y h;
     x \<leftarrow> (if yl \<noteq> 0 then Some yl else rd rb_right y h);
     yp \<leftarrow> rd rb_parent y h;
     root \<leftarrow> rd rb_parent header h;
     if x = 0 \<and> y = root then do {
       h \<leftarrow> set_parent header 0 h;
       h \<leftarrow> set_left header header h;
       h \<leftarrow> set_right header header h;
       Some (t\<lparr>rt_heap := h(y := None), rt_node_count := rt_node_count t - 1\<rparr>) }
     else do {
       lm \<leftarrow> rd rb_left header h;
       rm \<leftarrow> rd rb_right header h;
       h \<leftarrow> (if x = 0 then
           (if y = lm then set_left header yp h else if y = rm then set_right header yp h else Some h)
         else set_parent x yp h);
       if y = root then do {
         h \<leftarrow> set_parent header x h;
         h \<leftarrow> set_left header x h;
         h \<leftarrow> set_right header x h;
         h \<leftarrow> set_color x rb_black h;
         Some (t\<lparr>rt_heap := h(y := None), rt_node_count := rt_node_count t - 1\<rparr>) }
       else do {
         ypl \<leftarrow> rd rb_left yp h;
         h \<leftarrow> (if y = ypl then do {
             h \<leftarrow> set_left yp x h;
             if x \<noteq> 0 \<and> yp = root then set_left header x h else Some h }
           else do {
             h \<leftarrow> set_right yp x h;
             if x \<noteq> 0 \<and> yp = root then set_right header x h else Some h });
         h \<leftarrow> (if y \<noteq> position then do { v \<leftarrow> rd rb_value y h; wr (\<lambda>n. n\<lparr>rb_value := v\<rparr>) position h } else Some h);
         yc \<leftarrow> rd rb_color y h;
         h \<leftarrow> (if yc = rb_black then do { p \<leftarrow> rd rb_parent y h; rb_erase_rebalance header x p h } else Some h);
         Some (t\<lparr>rt_heap := h(y := None), rt_node_count := rt_node_count t - 1\<rparr>) } } }"

text \<open>Erasing a range: the code never advances \<open>first\<close>.\<close>

partial_function (option) erase_range_loop :: "base_ptr \<Rightarrow> base_ptr \<Rightarrow> base_ptr \<Rightarrow> 'v my_rb_tree \<Rightarrow> 'v my_rb_tree option" where
  "erase_range_loop a tmp b t =
     (if a = b then Some t
      else do {
        tmp \<leftarrow> (if tmp \<noteq> b then rb_increment a (rt_heap t) else Some tmp);
        if tmp = b then rb_erase a t
        else do { t \<leftarrow> rb_erase a t; erase_range_loop a tmp b t } })"

definition rb_erase_range :: "base_ptr \<Rightarrow> base_ptr \<Rightarrow> 'v my_rb_tree \<Rightarrow> 'v my_rb_tree option" where
  "rb_erase_range a b t = do {
     lm \<leftarrow> rb_begin t;
     if a = lm \<and> b = rb_end t then rb_clear t
     else do { tmp \<leftarrow> rb_increment a (rt_heap t); erase_range_loop a tmp b t } }"

definition rb_erase_key :: "('v \<Rightarrow> 'k::linorder) \<Rightarrow> 'k \<Rightarrow> 'v my_rb_tree \<Rightarrow> (nat \<times> 'v my_rb_tree) option" where
  "rb_erase_key key k t = do {
     (lo, hi) \<leftarrow> rb_equal_range key k t;
     let old_size = rt_node_count t;
     t \<leftarrow> rb_erase_range lo hi t;
     Some (old_size - rt_node_count t, t) }"

lemmas [code] =
  rb_minimum.simps rb_maximum.simps climb_right.simps climb_left.simps insert_fix.simps
  rb_lower_bound.simps rb_upper_bound.simps equal_range_loop.simps rb_distance.simps
  insert_equal_loop.simps insert_unique_loop.simps erase_all.simps erase_fix_null.simps
  erase_fix.simps erase_range_loop.simps

end
