(* ===== verification/My_Rb_Insert.thy ===== *)
theory My_Rb_Insert
  imports My_Rb_Tree
begin

text \<open>
  Insertion into the red-black tree: the heap is read as a tree with a hole (a focus and the frames
  above it), rotations and the rebalancing loop are followed on it, and every insertion is shown to keep
  the order, the colours, the black height and the links of the header.
\<close>

section \<open>Trees on the heap\<close>

datatype 'v rbt = Lf | Nd base_ptr bool 'v "'v rbt" "'v rbt"

fun ptr :: "'v rbt \<Rightarrow> base_ptr" where
  "ptr Lf = 0"
| "ptr (Nd a c v l r) = a"

fun inord :: "'v rbt \<Rightarrow> (base_ptr \<times> 'v) list" where
  "inord Lf = []"
| "inord (Nd a c v l r) = inord l @ (a, v) # inord r"

fun tree_at :: "'v rb_heap \<Rightarrow> base_ptr \<Rightarrow> 'v rbt \<Rightarrow> bool" where
  "tree_at h p Lf \<longleftrightarrow> True"
| "tree_at h p (Nd a c v l r) \<longleftrightarrow>
     a \<noteq> 0 \<and> h a = Some \<lparr>rb_color = c, rb_parent = p, rb_left = ptr l, rb_right = ptr r, rb_value = v\<rparr> \<and>
     tree_at h a l \<and> tree_at h a r"

text \<open>A frame is a node without one child: which one is missing, address, colour, value, the other child.\<close>

datatype 'v frame = Fr bool base_ptr bool 'v "'v rbt"

fun up_ptr :: "base_ptr \<Rightarrow> 'v frame list \<Rightarrow> base_ptr" where
  "up_ptr hdr [] = hdr"
| "up_ptr hdr (Fr lft a c v s # k) = a"

fun ctx_at :: "'v rb_heap \<Rightarrow> base_ptr \<Rightarrow> 'v frame list \<Rightarrow> base_ptr \<Rightarrow> bool" where
  "ctx_at h hdr [] p \<longleftrightarrow> (case h hdr of None \<Rightarrow> False | Some n \<Rightarrow> rb_parent n = p)"
| "ctx_at h hdr (Fr lft a c v s # k) p \<longleftrightarrow>
     a \<noteq> 0 \<and> h a = Some \<lparr>rb_color = c, rb_parent = up_ptr hdr k, rb_left = (if lft then p else ptr s),
       rb_right = (if lft then ptr s else p), rb_value = v\<rparr> \<and> tree_at h a s \<and> ctx_at h hdr k a"

fun before_hole :: "'v frame list \<Rightarrow> (base_ptr \<times> 'v) list" where
  "before_hole [] = []"
| "before_hole (Fr lft a c v s # k) = before_hole k @ (if lft then [] else inord s @ [(a, v)])"

fun after_hole :: "'v frame list \<Rightarrow> (base_ptr \<times> 'v) list" where
  "after_hole [] = []"
| "after_hole (Fr lft a c v s # k) = (if lft then (a, v) # inord s else []) @ after_hole k"

fun fill :: "'v frame \<Rightarrow> 'v rbt \<Rightarrow> 'v rbt" where
  "fill (Fr lft a c v s) t = (if lft then Nd a c v t s else Nd a c v s t)"

definition focus :: "'v rb_heap \<Rightarrow> base_ptr \<Rightarrow> 'v frame list \<Rightarrow> 'v rbt \<Rightarrow> bool" where
  "focus h hdr k t \<longleftrightarrow> hdr \<noteq> 0 \<and> ctx_at h hdr k (ptr t) \<and> tree_at h (up_ptr hdr k) t \<and>
     distinct (hdr # map fst (before_hole k @ inord t @ after_hole k))"

lemma focus_up: "focus h hdr (f # k) t \<longleftrightarrow> focus h hdr k (fill f t)"
proof -
  obtain lft a c v s where f: "f = Fr lft a c v s" by (cases f)
  have "before_hole (f # k) @ inord t @ after_hole (f # k) = before_hole k @ inord (fill f t) @ after_hole k"
    by (simp add: f)
  then show ?thesis unfolding focus_def by (cases lft) (simp_all add: f conj_ac del: distinct.simps)
qed

text \<open>Nodes by sides: the child on the side of the flag is the near one.\<close>

definition node :: "bool \<Rightarrow> bool \<Rightarrow> base_ptr \<Rightarrow> base_ptr \<Rightarrow> base_ptr \<Rightarrow> 'v \<Rightarrow> 'v rb_node" where
  "node side c p near far v = \<lparr>rb_color = c, rb_parent = p, rb_left = (if side then near else far),
     rb_right = (if side then far else near), rb_value = v\<rparr>"

lemma ptr_fill [simp]: "ptr (fill (Fr side a c v s) t) = a" by simp

lemma tree_at_fill:
  "tree_at h p (fill (Fr side a c v s) t) \<longleftrightarrow> a \<noteq> 0 \<and> h a = Some (node side c p (ptr t) (ptr s) v) \<and> tree_at h a t \<and> tree_at h a s"
  by (auto simp: node_def)

lemma ctx_at_Fr:
  "ctx_at h hdr (Fr side a c v s # k) p \<longleftrightarrow>
     a \<noteq> 0 \<and> h a = Some (node side c (up_ptr hdr k) p (ptr s) v) \<and> tree_at h a s \<and> ctx_at h hdr k a"
  by (simp add: node_def)

lemma Nd_fill: "Nd a c v l r = fill (Fr True a c v r) l" by simp

declare fill.simps [simp del] tree_at.simps(2) [simp del] ctx_at.simps(2) [simp del]

section \<open>Addresses\<close>

definition addrs :: "'v rbt \<Rightarrow> base_ptr set" where
  "addrs t = fst ` set (inord t)"

definition ctx_addrs :: "'v frame list \<Rightarrow> base_ptr set" where
  "ctx_addrs k = fst ` set (before_hole k) \<union> fst ` set (after_hole k)"

lemma addrs_simps [simp]:
  "addrs Lf = {}" "addrs (Nd a c v l r) = insert a (addrs l \<union> addrs r)"
  "addrs (fill (Fr side a c v s) t) = insert a (addrs s \<union> addrs t)"
  by (auto simp: addrs_def fill.simps)

lemma ctx_addrs_Nil [simp]: "ctx_addrs [] = {}" by (simp add: ctx_addrs_def)

lemma ctx_addrs_Fr [simp]: "ctx_addrs (Fr side a c v s # k) = insert a (addrs s \<union> ctx_addrs k)"
  by (cases side) (simp_all add: ctx_addrs_def addrs_def image_Un Un_ac)

lemma tree_at_cong: "(\<And>a. a \<in> addrs t \<Longrightarrow> h' a = h a) \<Longrightarrow> tree_at h' p t = tree_at h p t"
  by (induction t arbitrary: p) (auto simp: tree_at.simps(2))

lemma ctx_at_cong: "(\<And>a. a \<in> ctx_addrs k \<Longrightarrow> h' a = h a) \<Longrightarrow> h' hdr = h hdr \<Longrightarrow> ctx_at h' hdr k p = ctx_at h hdr k p"
proof (induction k arbitrary: p)
  case (Cons f k)
  obtain side a c v s where f: "f = Fr side a c v s" by (cases f)
  have "tree_at h' a s = tree_at h a s" using Cons.prems by (intro tree_at_cong) (simp add: f)
  then show ?case using Cons by (simp add: f ctx_at_Fr)
qed simp

lemma tree_at_upd [simp]: "a \<notin> addrs t \<Longrightarrow> tree_at (h(a := x)) p t = tree_at h p t"
  by (rule tree_at_cong) auto

lemma ctx_at_upd [simp]: "a \<notin> ctx_addrs k \<Longrightarrow> a \<noteq> hdr \<Longrightarrow> ctx_at (h(a := x)) hdr k p = ctx_at h hdr k p"
  by (rule ctx_at_cong) auto

lemma ptr_zero: "tree_at h p t \<Longrightarrow> ptr t = 0 \<longleftrightarrow> t = Lf"
  by (cases t) (auto simp: tree_at.simps(2))

lemma ptr_addrs: "ptr t \<noteq> 0 \<Longrightarrow> ptr t \<in> addrs t"
  by (cases t) auto

lemma up_ptr_in: "up_ptr hdr k \<in> insert hdr (ctx_addrs k)"
  by (cases k; cases "hd k") auto

text \<open>What a focus says about the addresses.\<close>

lemma focus_disjoint:
  assumes "focus h hdr k t"
  shows "hdr \<noteq> 0" "hdr \<notin> ctx_addrs k" "hdr \<notin> addrs t" "ctx_addrs k \<inter> addrs t = {}"
  using assms by (auto simp: focus_def ctx_addrs_def addrs_def)

lemma fill_disjoint:
  "distinct (map fst (inord (fill (Fr side a c v s) t))) \<Longrightarrow> a \<notin> addrs s \<and> a \<notin> addrs t \<and> addrs s \<inter> addrs t = {}"
  by (cases side) (auto simp: fill.simps addrs_def)

lemma focus_distinct: "focus h hdr k t \<Longrightarrow> distinct (map fst (inord t)) \<and> distinct (map fst (before_hole k @ after_hole k))"
  by (auto simp: focus_def)

lemma focusI:
  assumes "focus h hdr k t" "map fst (inord t') = map fst (inord t)" "ctx_at h' hdr k (ptr t')" "tree_at h' (up_ptr hdr k) t'"
  shows "focus h' hdr k t'"
proof -
  have "map fst (before_hole k @ inord t' @ after_hole k) = map fst (before_hole k @ inord t @ after_hole k)"
    by (simp add: assms(2))
  then show ?thesis using assms(1,3,4) unfolding focus_def by metis
qed

text \<open>The header keeps everything but the root, and no memory is allocated or freed.\<close>

definition same_heap :: "base_ptr \<Rightarrow> 'v rb_heap \<Rightarrow> 'v rb_heap \<Rightarrow> bool" where
  "same_heap hdr h h' \<longleftrightarrow> dom h' = dom h \<and>
     map_option (\<lambda>n. n\<lparr>rb_parent := 0\<rparr>) (h' hdr) = map_option (\<lambda>n. n\<lparr>rb_parent := 0\<rparr>) (h hdr)"

lemma same_heap_refl: "same_heap hdr h h" by (simp add: same_heap_def)

lemma same_heap_trans: "same_heap hdr h h' \<Longrightarrow> same_heap hdr h' h'' \<Longrightarrow> same_heap hdr h h''"
  by (simp add: same_heap_def)

lemma same_heap_upd: "h a \<noteq> None \<Longrightarrow> a \<noteq> hdr \<Longrightarrow> same_heap hdr h (h(a \<mapsto> n))"
  by (auto simp: same_heap_def)

lemma ctx_header:
  "ctx_at h hdr k p \<Longrightarrow> \<exists>n. h hdr = Some n \<and> (if k = [] then rb_parent n = p else rb_parent n \<in> ctx_addrs k)"
proof (induction k arbitrary: p)
  case Nil
  then show ?case by (auto split: option.splits)
next
  case (Cons f k)
  obtain side a c v s where f: "f = Fr side a c v s" by (cases f)
  then have "ctx_at h hdr k a" using Cons.prems by (simp add: ctx_at_Fr)
  from Cons.IH [OF this] show ?case by (auto simp: f split: if_splits)
qed

section \<open>Rotation\<close>

text \<open>
  Both rotations at once: \<open>side\<close> says whether the code is the one for the left or its mirror image.
  \<open>child side\<close> is the link to the child on that side.
\<close>

definition child :: "bool \<Rightarrow> 'v rb_node \<Rightarrow> base_ptr" where
  "child side n = (if side then rb_left n else rb_right n)"

definition set_child :: "bool \<Rightarrow> base_ptr \<Rightarrow> base_ptr \<Rightarrow> 'v rb_heap \<Rightarrow> 'v rb_heap option" where
  "set_child side = (if side then set_left else set_right)"

definition relink :: "base_ptr \<Rightarrow> base_ptr \<Rightarrow> base_ptr \<Rightarrow> base_ptr \<Rightarrow> 'v rb_heap \<Rightarrow> 'v rb_heap option" where
  "relink header x xp y h = do {
     root \<leftarrow> rd rb_parent header h;
     if x = root then set_parent header y h
     else do { l \<leftarrow> rd rb_left xp h; if x = l then set_left xp y h else set_right xp y h } }"

definition rotate :: "bool \<Rightarrow> base_ptr \<Rightarrow> base_ptr \<Rightarrow> 'v rb_heap \<Rightarrow> 'v rb_heap option" where
  "rotate side header x h = do {
     y \<leftarrow> rd (child (\<not> side)) x h;
     z \<leftarrow> rd (child side) y h;
     h \<leftarrow> set_child (\<not> side) x z h;
     h \<leftarrow> (if z \<noteq> 0 then set_parent z x h else Some h);
     xp \<leftarrow> rd rb_parent x h;
     h \<leftarrow> set_parent y xp h;
     h \<leftarrow> relink header x xp y h;
     h \<leftarrow> set_child side y x h;
     set_parent x y h }"

lemma child_simps: "child True = rb_left" "child False = rb_right"
  by (auto simp: child_def)

lemma rb_rotate_left_side: "rb_rotate_left = rotate True"
  by (intro ext) (simp add: rb_rotate_left_def rotate_def relink_def child_simps set_child_def bind_assoc)

lemma rb_rotate_right_side: "rb_rotate_right = rotate False"
  by (intro ext) (simp add: rb_rotate_right_def rotate_def relink_def child_simps set_child_def bind_assoc)

lemma node_simps [simp]:
  "rb_color (node side c p n f v) = c" "rb_parent (node side c p n f v) = p" "rb_value (node side c p n f v) = v"
  "child side (node side c p n f v) = n" "child (\<not> side) (node side c p n f v) = f"
  by (simp_all add: node_def child_def)

lemma node_updates:
  "h a = Some (node side c p n f v) \<Longrightarrow> a \<noteq> 0 \<Longrightarrow> set_child side a x h = Some (h(a \<mapsto> node side c p x f v))"
  "h a = Some (node side c p n f v) \<Longrightarrow> a \<noteq> 0 \<Longrightarrow> set_child (\<not> side) a x h = Some (h(a \<mapsto> node side c p n x v))"
  "h a = Some (node side c p n f v) \<Longrightarrow> a \<noteq> 0 \<Longrightarrow> set_parent a q h = Some (h(a \<mapsto> node side c q n f v))"
  "h a = Some (node side c p n f v) \<Longrightarrow> a \<noteq> 0 \<Longrightarrow> set_color a c' h = Some (h(a \<mapsto> node side c' p n f v))"
  by (auto simp: set_child_def set_left_def set_right_def set_parent_def set_color_def wr_def node_def)

lemma rd_node: "h a = Some x \<Longrightarrow> a \<noteq> 0 \<Longrightarrow> rd f a h = Some (f x)"
  by (simp add: rd_def)

lemma wr_focus:
  assumes f: "focus h hdr k (fill (Fr side a c v s) t)"
    and g: "\<And>p n m. g (node side c p n m v) = node side c' p n m v'"
  shows "\<exists>h'. wr g a h = Some h' \<and> focus h' hdr k (fill (Fr side a c' v' s) t) \<and> same_heap hdr h h'"
proof -
  note dis = focus_disjoint [OF f] fill_disjoint [OF focus_distinct [OF f, THEN conjunct1]]
  have t: "ctx_at h hdr k a" "tree_at h (up_ptr hdr k) (fill (Fr side a c v s) t)" using f by (simp_all add: focus_def)
  let ?h = "h(a \<mapsto> node side c' (up_ptr hdr k) (ptr t) (ptr s) v')"
  have "wr g a h = Some ?h" using t(2) by (simp add: tree_at_fill wr_def g)
  moreover have "focus ?h hdr k (fill (Fr side a c' v' s) t)"
  proof (rule focusI [OF f])
    show "map fst (inord (fill (Fr side a c' v' s) t)) = map fst (inord (fill (Fr side a c v s) t))" by (simp add: fill.simps)
    show "ctx_at ?h hdr k (ptr (fill (Fr side a c' v' s) t))" using t(1) dis by auto
    show "tree_at ?h (up_ptr hdr k) (fill (Fr side a c' v' s) t)" using t(2) dis by (simp add: tree_at_fill)
  qed
  moreover have "same_heap hdr h ?h" using t(2) dis by (intro same_heap_upd) (auto simp: tree_at_fill)
  ultimately show ?thesis by blast
qed

lemma set_color_focus:
  "focus h hdr k (fill (Fr side a c v s) t) \<Longrightarrow>
   \<exists>h'. set_color a c' h = Some h' \<and> focus h' hdr k (fill (Fr side a c' v s) t) \<and> same_heap hdr h h'"
  unfolding set_color_def by (rule wr_focus) (simp_all add: node_def)

lemma set_value_focus:
  "focus h hdr k (fill (Fr side a c v s) t) \<Longrightarrow>
   \<exists>h'. wr (\<lambda>n. n\<lparr>rb_value := v'\<rparr>) a h = Some h' \<and> focus h' hdr k (fill (Fr side a c v' s) t) \<and> same_heap hdr h h'"
  by (rule wr_focus) (simp_all add: node_def)

lemma reparent:
  assumes "tree_at h p t" "distinct (map fst (inord t))"
  obtains h' where "(if ptr t \<noteq> 0 then set_parent (ptr t) q h else Some h) = Some h'" "tree_at h' q t"
    "\<And>a. a \<notin> addrs t \<Longrightarrow> h' a = h a" "dom h' = dom h"
proof (cases t)
  case Lf
  then show thesis using that by simp
next
  case (Nd a c v l r)
  then have a: "a \<noteq> 0" "h a = Some (node True c p (ptr l) (ptr r) v)" "tree_at h a l" "tree_at h a r"
    using assms(1) by (auto simp: tree_at.simps(2) node_def)
  let ?h = "h(a \<mapsto> node True c q (ptr l) (ptr r) v)"
  have "a \<notin> addrs l" "a \<notin> addrs r" using assms(2) Nd by (auto simp: addrs_def)
  then have "tree_at ?h a l" "tree_at ?h a r" using a by simp_all
  then have "tree_at ?h q t" using a(1) Nd by (simp add: tree_at.simps(2) node_def)
  moreover have "dom ?h = dom h" using a(2) by auto
  ultimately show thesis using that [of ?h] node_updates(3) [where h = h and a = a, OF a(2,1)] a(1) Nd by simp
qed

lemma relink_ok:
  assumes ctx: "ctx_at h hdr k x" and out: "hdr \<noteq> 0" "hdr \<notin> ctx_addrs k" "x \<notin> ctx_addrs k" "x \<noteq> 0"
    and dist: "distinct (map fst (before_hole k @ after_hole k))"
  obtains h' where "relink hdr x (up_ptr hdr k) y h = Some h'" "ctx_at h' hdr k y"
    "\<And>a. a \<noteq> up_ptr hdr k \<Longrightarrow> h' a = h a" "same_heap hdr h h'"
proof (cases k)
  case Nil
  then obtain n where n: "h hdr = Some n" "rb_parent n = x" using ctx by (auto split: option.splits)
  let ?h = "h(hdr \<mapsto> n\<lparr>rb_parent := y\<rparr>)"
  have "relink hdr x (up_ptr hdr k) y h = Some ?h" using n out(1) by (simp add: relink_def rd_node set_parent_def wr_def)
  moreover have "same_heap hdr h ?h" using n by (auto simp: same_heap_def)
  ultimately show thesis using that [of ?h] Nil by simp
next
  case (Cons f k')
  obtain side a c v s where f: "f = Fr side a c v s" by (cases f)
  have a: "a \<noteq> 0" "h a = Some (node side c (up_ptr hdr k') x (ptr s) v)" "tree_at h a s" "ctx_at h hdr k' a"
    using ctx by (simp_all add: Cons f ctx_at_Fr)
  obtain n where n: "h hdr = Some n" "rb_parent n \<in> ctx_addrs k"
    using ctx_header [OF ctx] Cons by auto
  let ?h = "h(a \<mapsto> node side c (up_ptr hdr k') y (ptr s) v)"
  have s: "a \<notin> addrs s" "a \<notin> ctx_addrs k'"
    using dist by (cases side; auto simp: Cons f addrs_def ctx_addrs_def)+
  then have "tree_at ?h a s" "ctx_at ?h hdr k' a"
    using a out(2) by (simp_all add: Cons f)
  then have "ctx_at ?h hdr k y" using a(1) by (simp add: Cons f ctx_at_Fr)
  moreover have "relink hdr x (up_ptr hdr k) y h = Some ?h"
  proof -
    have "x \<noteq> rb_parent n" using n(2) out(3) by auto
    moreover have "ptr s \<noteq> x" using out(3,4) by (cases s) (auto simp: Cons f)
    ultimately show ?thesis
      using n(1) a(1,2) out(1) node_updates(1,2) [of h a side] by (cases side) (auto simp: relink_def rd_node Cons f node_def set_child_def)
  qed
  moreover have "same_heap hdr h ?h" using a(2) out(2) by (auto simp: same_heap_def Cons f)
  ultimately show thesis using that [of ?h] by (simp add: Cons f)
qed

lemma rotate_focus:
  assumes "focus h hdr k (fill (Fr side x cx vx (fill (Fr side y cy vy c) b)) a)"
  shows "\<exists>h'. rotate side hdr x h = Some h' \<and> focus h' hdr k (fill (Fr side y cy vy c) (fill (Fr side x cx vx b) a)) \<and> same_heap hdr h h'"
proof -
  let ?P = "up_ptr hdr k" and ?t = "fill (Fr side x cx vx (fill (Fr side y cy vy c) b)) a"
  let ?t' = "fill (Fr side y cy vy c) (fill (Fr side x cx vx b) a)"
  have dt: "distinct (map fst (inord ?t))" and dk: "distinct (map fst (before_hole k @ after_hole k))"
    using focus_distinct [OF assms] by auto
  have "distinct (map fst (inord (fill (Fr side y cy vy c) b)))" using dt by (cases side) (simp_all add: fill.simps Int_Un_distrib)
  note dis = focus_disjoint [OF assms] fill_disjoint [OF dt] fill_disjoint [OF this]
  have sep: "hdr \<noteq> 0" "x \<noteq> y" "x \<noteq> hdr" "y \<noteq> hdr" "hdr \<notin> ctx_addrs k" "x \<notin> ctx_addrs k" "y \<notin> ctx_addrs k"
    "x \<notin> addrs a" "x \<notin> addrs b" "x \<notin> addrs c" "y \<notin> addrs a" "y \<notin> addrs b" "y \<notin> addrs c"
    "addrs a \<inter> addrs b = {}" "addrs b \<inter> addrs c = {}" "hdr \<notin> addrs a" "hdr \<notin> addrs b" "hdr \<notin> addrs c"
    "ctx_addrs k \<inter> addrs a = {}" "ctx_addrs k \<inter> addrs b = {}" "ctx_addrs k \<inter> addrs c = {}"
    using dis by auto
  have P: "?P \<noteq> x" "?P \<noteq> y" "?P \<notin> addrs a" "?P \<notin> addrs b" "?P \<notin> addrs c"
    using up_ptr_in [of hdr k] sep by auto
  have at: "x \<noteq> 0" "h x = Some (node side cx ?P (ptr a) y vx)" "tree_at h x a"
    "y \<noteq> 0" "h y = Some (node side cy x (ptr b) (ptr c) vy)" "tree_at h y b" "tree_at h y c" "ctx_at h hdr k x"
    using assms by (simp_all add: focus_def tree_at_fill)
  let ?h1 = "h(x \<mapsto> node side cx ?P (ptr a) (ptr b) vx)"
  have h1: "set_child (\<not> side) x (ptr b) h = Some ?h1" using at by (intro node_updates(2))
  have "tree_at ?h1 y b" using at sep by simp
  moreover have "distinct (map fst (inord b))" using dt by (cases side) (simp_all add: fill.simps)
  ultimately obtain h2 where h2: "(if ptr b \<noteq> 0 then set_parent (ptr b) x ?h1 else Some ?h1) = Some h2" "tree_at h2 x b"
    "\<And>z. z \<notin> addrs b \<Longrightarrow> h2 z = ?h1 z" "dom h2 = dom ?h1" using reparent by blast
  have x2: "h2 x = Some (node side cx ?P (ptr a) (ptr b) vx)" using h2(3) sep by simp
  have y2: "h2 y = Some (node side cy x (ptr b) (ptr c) vy)" using h2(3) sep at by simp
  let ?h3 = "h2(y \<mapsto> node side cy ?P (ptr b) (ptr c) vy)"
  have h3: "set_parent y ?P h2 = Some ?h3" using y2 at(4) by (rule node_updates(3))
  have keep: "?h3 z = h z" if "z \<in> insert hdr (ctx_addrs k)" for z
  proof -
    have "z \<notin> addrs b" "z \<noteq> x" "z \<noteq> y" using that sep by auto
    then show ?thesis using h2(3) by simp
  qed
  then have "ctx_at ?h3 hdr k x = ctx_at h hdr k x" by (intro ctx_at_cong) simp_all
  then have "ctx_at ?h3 hdr k x" using at by simp
  then obtain h4 where h4: "relink hdr x ?P y ?h3 = Some h4" "ctx_at h4 hdr k y" "\<And>z. z \<noteq> ?P \<Longrightarrow> h4 z = ?h3 z" "same_heap hdr ?h3 h4"
    using relink_ok [OF _ sep(1,5,6) at(1) dk] by blast
  have y4: "h4 y = Some (node side cy ?P (ptr b) (ptr c) vy)" using h4(3) P by simp
  have x4: "h4 x = Some (node side cx ?P (ptr a) (ptr b) vx)" using h4(3) P sep x2 by simp
  let ?h5 = "h4(y \<mapsto> node side cy ?P x (ptr c) vy)"
  let ?h6 = "?h5(x \<mapsto> node side cx y (ptr a) (ptr b) vx)"
  have h5: "set_child side y x h4 = Some ?h5" using y4 at(4) by (rule node_updates(1))
  have h6: "set_parent x y ?h5 = Some ?h6" using x4 at(1) sep(2) by (intro node_updates(3)) simp_all
  have "rotate side hdr x h = Some ?h6"
    using at(1,2,4,5) h1 h2(1) x2 h3 h4(1) h5 h6 by (simp add: rotate_def rd_node)
  moreover have "focus ?h6 hdr k ?t'"
  proof (rule focusI [OF assms])
    show "map fst (inord ?t') = map fst (inord ?t)" by (cases side) (simp_all add: fill.simps)
    show "ctx_at ?h6 hdr k (ptr ?t')" using h4(2) sep by simp
    have "?h6 z = h z" if "z \<in> addrs a \<union> addrs c" for z
    proof -
      have "z \<notin> addrs b" "z \<noteq> x" "z \<noteq> y" "z \<noteq> ?P" using that sep P by auto
      then show ?thesis using h4(3) h2(3) by simp
    qed
    then have "tree_at ?h6 x a = tree_at h x a" "tree_at ?h6 y c = tree_at h y c" by (intro tree_at_cong; simp)+
    moreover have "?h6 z = h2 z" if "z \<in> addrs b" for z
    proof -
      have "z \<noteq> x" "z \<noteq> y" "z \<noteq> ?P" using that sep P by auto
      then show ?thesis using h4(3) by simp
    qed
    then have "tree_at ?h6 x b = tree_at h2 x b" by (intro tree_at_cong)
    ultimately have "tree_at ?h6 x a" "tree_at ?h6 y c" "tree_at ?h6 x b" using at h2(2) by simp_all
    then show "tree_at ?h6 ?P ?t'" using at h2(2) sep by (simp add: tree_at_fill)
  qed
  moreover have "same_heap hdr h ?h6"
  proof -
    have "same_heap hdr h h2" using h2(3,4) sep at(2) by (auto simp: same_heap_def)
    moreover have "same_heap hdr h2 ?h3" using y2 sep(4) by (intro same_heap_upd) simp_all
    moreover have "same_heap hdr h4 ?h5" using y4 sep(4) by (intro same_heap_upd) simp_all
    moreover have "same_heap hdr ?h5 ?h6" using x4 sep(3) by (intro same_heap_upd) simp_all
    ultimately show ?thesis using h4(4) same_heap_trans by metis
  qed
  ultimately show ?thesis by blast
qed

section \<open>Colours and heights\<close>

fun plug :: "'v frame list \<Rightarrow> 'v rbt \<Rightarrow> 'v rbt" where
  "plug [] t = t"
| "plug (f # k) t = plug k (fill f t)"

lemma focus_append: "focus h hdr (ks @ k) t \<longleftrightarrow> focus h hdr k (plug ks t)"
  by (induction ks arbitrary: t) (simp_all add: focus_up)

lemma focus_plug: "focus h hdr k t \<longleftrightarrow> focus h hdr [] (plug k t)"
  by (induction k arbitrary: t) (simp_all add: focus_up)

lemma inord_plug: "inord (plug k t) = before_hole k @ inord t @ after_hole k"
proof (induction k arbitrary: t)
  case (Cons f k)
  then show ?case by (cases f) (simp add: fill.simps)
qed simp

fun col :: "'v rbt \<Rightarrow> bool" where
  "col Lf = rb_black"
| "col (Nd a c v l r) = c"

fun bheight :: "'v rbt \<Rightarrow> nat" where
  "bheight Lf = 0"
| "bheight (Nd a c v l r) = bheight l + (if c = rb_black then 1 else 0)"

fun invh :: "'v rbt \<Rightarrow> bool" where
  "invh Lf \<longleftrightarrow> True"
| "invh (Nd a c v l r) \<longleftrightarrow> invh l \<and> invh r \<and> bheight l = bheight r"

fun invc :: "'v rbt \<Rightarrow> bool" where
  "invc Lf \<longleftrightarrow> True"
| "invc (Nd a c v l r) \<longleftrightarrow> invc l \<and> invc r \<and> (c = rb_red \<longrightarrow> col l = rb_black \<and> col r = rb_black)"

lemma fill_flip: "fill (Fr side a c v s) t = fill (Fr (\<not> side) a c v t) s"
  by (simp add: fill.simps)

lemma fill_rb [simp]:
  "col (fill (Fr side a c v s) t) = c"
  "invh (fill (Fr side a c v s) t) \<longleftrightarrow> invh s \<and> invh t \<and> bheight s = bheight t"
  "invc (fill (Fr side a c v s) t) \<longleftrightarrow> invc s \<and> invc t \<and> (c = rb_red \<longrightarrow> col s = rb_black \<and> col t = rb_black)"
  "bheight s = bheight t \<Longrightarrow> bheight (fill (Fr side a c v s) t) = bheight t + (if c = rb_black then 1 else 0)"
  by (auto simp: fill.simps)

fun top_col :: "'v frame list \<Rightarrow> bool" where
  "top_col [] = rb_black"
| "top_col (Fr side a c v s # k) = c"

fun ctx_ok :: "'v frame list \<Rightarrow> nat \<Rightarrow> bool" where
  "ctx_ok [] n \<longleftrightarrow> True"
| "ctx_ok (Fr side a c v s # k) n \<longleftrightarrow>
     invc s \<and> invh s \<and> bheight s = n \<and> (c = rb_red \<longrightarrow> col s = rb_black \<and> k \<noteq> [] \<and> top_col k = rb_black) \<and>
     ctx_ok k (if c = rb_black then n + 1 else n)"

lemma plug_rb:
  "ctx_ok k (bheight t) \<Longrightarrow> invh t \<Longrightarrow> invc t \<Longrightarrow> col t = rb_black \<or> top_col k = rb_black \<Longrightarrow> invh (plug k t) \<and> invc (plug k t)"
proof (induction k arbitrary: t)
  case (Cons f k)
  obtain side a c v s where f: "f = Fr side a c v s" by (cases f)
  have "invh (plug k (fill f t)) \<and> invc (plug k (fill f t))"
    using Cons.prems by (intro Cons.IH) (auto simp: f)
  then show ?case by simp
qed simp

section \<open>Rebalancing after an insertion\<close>

definition insert_side :: "bool \<Rightarrow> base_ptr \<Rightarrow> base_ptr \<Rightarrow> base_ptr \<Rightarrow> base_ptr \<Rightarrow> 'v rb_heap \<Rightarrow> (base_ptr \<times> 'v rb_heap) option" where
  "insert_side side header x p g h = do {
     y \<leftarrow> rd (child (\<not> side)) g h;
     yc \<leftarrow> (if y \<noteq> 0 then rd rb_color y h else Some rb_black);
     if y \<noteq> 0 \<and> yc = rb_red then do {
       h \<leftarrow> set_color p rb_black h;
       h \<leftarrow> set_color (if side then y else g) (if side then rb_black else rb_red) h;
       h \<leftarrow> set_color (if side then g else y) (if side then rb_red else rb_black) h;
       Some (g, h) }
     else do {
       c \<leftarrow> rd (child (\<not> side)) p h;
       (x, h) \<leftarrow> (if x = c then do { h \<leftarrow> rotate side header p h; Some (p, h) } else Some (x, h));
       p \<leftarrow> rd rb_parent x h;
       h \<leftarrow> set_color p rb_black h;
       g \<leftarrow> rd rb_parent p h;
       h \<leftarrow> set_color g rb_red h;
       h \<leftarrow> rotate (\<not> side) header g h;
       Some (x, h) } }"

lemma insert_left_side: "insert_left = insert_side True"
  unfolding fun_eq_iff insert_left_def insert_side_def not_True_eq_False not_False_eq_True if_True if_False child_simps
    rb_rotate_left_side rb_rotate_right_side by blast

lemma insert_right_side: "insert_right = insert_side False"
  unfolding fun_eq_iff insert_right_def insert_side_def not_True_eq_False not_False_eq_True if_True if_False child_simps
    rb_rotate_left_side rb_rotate_right_side by blast

text \<open>Reading around the focus.\<close>

lemma focus_node:
  assumes "focus h hdr k (fill (Fr side a c v s) t)"
  shows "a \<noteq> 0" "rd rb_color a h = Some c" "rd rb_parent a h = Some (up_ptr hdr k)" "rd rb_value a h = Some v"
    "rd (child side) a h = Some (ptr t)" "rd (child (\<not> side)) a h = Some (ptr s)"
    "rd rb_left a h = Some (if side then ptr t else ptr s)" "rd rb_right a h = Some (if side then ptr s else ptr t)"
  using assms by (auto simp: focus_def tree_at_fill rd_node child_def node_def)

lemma focus_header:
  assumes "focus h hdr k t"
  shows "\<exists>r. rd rb_parent hdr h = Some r \<and> (if k = [] then r = ptr t else r \<in> ctx_addrs k \<and> r \<notin> addrs t)"
proof -
  obtain n where "h hdr = Some n" "if k = [] then rb_parent n = ptr t else rb_parent n \<in> ctx_addrs k"
    using ctx_header [of h hdr k "ptr t"] assms by (auto simp: focus_def)
  then show ?thesis using focus_disjoint(1,4) [OF assms] by (auto simp: rd_node)
qed

lemma focus_col: "focus h hdr k t \<Longrightarrow> ptr t \<noteq> 0 \<Longrightarrow> rd rb_color (ptr t) h = Some (col t)"
  by (cases t) (auto simp: focus_def tree_at.simps(2) rd_node)

lemma focus_parent: "focus h hdr k t \<Longrightarrow> ptr t \<noteq> 0 \<Longrightarrow> rd rb_parent (ptr t) h = Some (up_ptr hdr k)"
  by (cases t) (auto simp: focus_def tree_at.simps(2) rd_node)

lemma focus_sibling: "focus h hdr (Fr side a c v s # k) t \<longleftrightarrow> focus h hdr (Fr (\<not> side) a c v t # k) s"
  by (simp only: focus_up fill_flip [of side])

lemma insert_side_red:
  assumes "focus h hdr (Fr ps p rb_red vp s # Fr side g rb_black vg (Nd y rb_red vy yl yr) # k) t"
  shows "\<exists>h'. insert_side side hdr x p g h = Some (g, h') \<and> same_heap hdr h h' \<and>
    focus h' hdr k (fill (Fr side g rb_red vg (Nd y rb_black vy yl yr)) (fill (Fr ps p rb_black vp s) t))"
proof -
  let ?y = "\<lambda>c. fill (Fr True y c vy yr) yl" and ?p = "\<lambda>c. fill (Fr ps p c vp s) t"
  have fp: "focus h hdr (Fr side g rb_black vg (?y rb_red) # k) (?p rb_red)" using assms by (simp add: focus_up Nd_fill)
  then have f0: "focus h hdr k (fill (Fr side g rb_black vg (?y rb_red)) (?p rb_red))" by (simp only: focus_up)
  obtain h1 where h1: "set_color p rb_black h = Some h1" "same_heap hdr h h1"
    "focus h1 hdr (Fr side g rb_black vg (?y rb_red) # k) (?p rb_black)" using set_color_focus [OF fp, of rb_black] by blast
  have y: "rd (child (\<not> side)) g h = Some y" using focus_node(6) [OF f0] by simp
  have fy: "focus h hdr (Fr (\<not> side) g rb_black vg (?p rb_red) # k) (?y rb_red)" using fp by (rule focus_sibling [THEN iffD1])
  have yc: "y \<noteq> 0" "rd rb_color y h = Some rb_red" using focus_node(1,2) [OF fy] by simp_all
  show ?thesis
  proof (cases side)
    case True
    have "focus h1 hdr (Fr (\<not> side) g rb_black vg (?p rb_black) # k) (?y rb_red)" using h1(3) by (rule focus_sibling [THEN iffD1])
    from set_color_focus [OF this, of rb_black] obtain h2 where h2: "set_color y rb_black h1 = Some h2" "same_heap hdr h1 h2"
      "focus h2 hdr (Fr (\<not> side) g rb_black vg (?p rb_black) # k) (?y rb_black)" by blast
    from h2(3) have "focus h2 hdr (Fr side g rb_black vg (?y rb_black) # k) (?p rb_black)" by (rule focus_sibling [THEN iffD2])
    then have "focus h2 hdr k (fill (Fr side g rb_black vg (?y rb_black)) (?p rb_black))" by (simp only: focus_up)
    from set_color_focus [OF this, of rb_red] obtain h3 where h3: "set_color g rb_red h2 = Some h3" "same_heap hdr h2 h3"
      "focus h3 hdr k (fill (Fr side g rb_red vg (?y rb_black)) (?p rb_black))" by blast
    have "insert_side side hdr x p g h = Some (g, h3)"
      using y yc h1(1) h2(1) h3(1) True by (simp add: insert_side_def)
    then show ?thesis using h3(3) same_heap_trans h1(2) h2(2) h3(2) unfolding Nd_fill by blast
  next
    case False
    from h1(3) have "focus h1 hdr k (fill (Fr side g rb_black vg (?y rb_red)) (?p rb_black))" by (simp only: focus_up)
    from set_color_focus [OF this, of rb_red] obtain h2 where h2: "set_color g rb_red h1 = Some h2" "same_heap hdr h1 h2"
      "focus h2 hdr k (fill (Fr side g rb_red vg (?y rb_red)) (?p rb_black))" by blast
    from h2(3) have "focus h2 hdr (Fr side g rb_red vg (?y rb_red) # k) (?p rb_black)" by (simp only: focus_up)
    then have "focus h2 hdr (Fr (\<not> side) g rb_red vg (?p rb_black) # k) (?y rb_red)" by (rule focus_sibling [THEN iffD1])
    from set_color_focus [OF this, of rb_black] obtain h3 where h3: "set_color y rb_black h2 = Some h3" "same_heap hdr h2 h3"
      "focus h3 hdr (Fr (\<not> side) g rb_red vg (?p rb_black) # k) (?y rb_black)" by blast
    have "insert_side side hdr x p g h = Some (g, h3)"
      using y yc h1(1) h2(1) h3(1) False by (simp add: insert_side_def)
    moreover have "focus h3 hdr (Fr side g rb_red vg (?y rb_black) # k) (?p rb_black)" using h3(3) by (rule focus_sibling [THEN iffD2])
    then have "focus h3 hdr k (fill (Fr side g rb_red vg (?y rb_black)) (?p rb_black))" by (simp only: focus_up)
    ultimately show ?thesis using same_heap_trans h1(2) h2(2) h3(2) unfolding Nd_fill by blast
  qed
qed

text \<open>The turn with rotations ends with a black node above the focus.\<close>

lemma insert_side_black_outer:
  assumes "focus h hdr (Fr side p rb_red vp s # Fr side g rb_black vg u # k) t" "ptr t \<noteq> 0" "col u = rb_black"
  shows "\<exists>h'. insert_side side hdr (ptr t) p g h = Some (ptr t, h') \<and> same_heap hdr h h' \<and>
    focus h' hdr (Fr side p rb_black vp (fill (Fr (\<not> side) g rb_red vg s) u) # k) t"
proof -
  let ?p = "\<lambda>c. fill (Fr side p c vp s) t"
  have fp: "focus h hdr (Fr side g rb_black vg u # k) (?p rb_red)" using assms(1) by (simp only: focus_up)
  then have fg: "focus h hdr k (fill (Fr side g rb_black vg u) (?p rb_red))" by (simp only: focus_up)
  have fu: "focus h hdr (Fr (\<not> side) g rb_black vg (?p rb_red) # k) u" using fp by (rule focus_sibling [THEN iffD1])
  have y: "rd (child (\<not> side)) g h = Some (ptr u)" using focus_node(6) [OF fg] .
  have yc: "ptr u \<noteq> 0 \<Longrightarrow> rd rb_color (ptr u) h = Some rb_black" using focus_col [OF fu] assms(3) by simp
  have far: "rd (child (\<not> side)) p h = Some (ptr s)" using focus_node(6) [OF fp] .
  have ne: "ptr t \<noteq> ptr s"
  proof
    assume eq: "ptr t = ptr s"
    then have "ptr t \<in> addrs s" using assms(2) ptr_addrs by metis
    then show False using focus_disjoint(4) [OF assms(1)] ptr_addrs [OF assms(2)] by auto
  qed
  have tp: "rd rb_parent (ptr t) h = Some p" using focus_parent [OF assms(1,2)] by simp
  obtain h1 where h1: "set_color p rb_black h = Some h1" "same_heap hdr h h1"
    "focus h1 hdr (Fr side g rb_black vg u # k) (?p rb_black)" using set_color_focus [OF fp, of rb_black] by blast
  have pg: "rd rb_parent p h1 = Some g" using focus_node(3) [OF h1(3)] by simp
  have "focus h1 hdr k (fill (Fr side g rb_black vg u) (?p rb_black))" using h1(3) by (simp only: focus_up)
  from set_color_focus [OF this, of rb_red] obtain h2 where h2: "set_color g rb_red h1 = Some h2" "same_heap hdr h1 h2"
    "focus h2 hdr k (fill (Fr side g rb_red vg u) (?p rb_black))" by blast
  have "focus h2 hdr k (fill (Fr (\<not> side) g rb_red vg (fill (Fr (\<not> side) p rb_black vp t) s)) u)"
    using h2(3) unfolding fill_flip [of side g] fill_flip [of side p] .
  from rotate_focus [OF this] obtain h3 where h3: "rotate (\<not> side) hdr g h2 = Some h3" "same_heap hdr h2 h3"
    "focus h3 hdr k (fill (Fr (\<not> side) p rb_black vp t) (fill (Fr (\<not> side) g rb_red vg s) u))" by blast
  have "insert_side side hdr (ptr t) p g h = Some (ptr t, h3)"
    using y yc far ne tp h1(1) pg h2(1) h3(1) by (simp add: insert_side_def)
  moreover have "focus h3 hdr (Fr side p rb_black vp (fill (Fr (\<not> side) g rb_red vg s) u) # k) t"
    using h3(3) unfolding focus_up fill_flip [of side p] .
  ultimately show ?thesis using same_heap_trans h1(2) h2(2) h3(2) by blast
qed

lemma insert_side_black_inner:
  assumes "focus h hdr (Fr (\<not> side) p rb_red vp s # Fr side g rb_black vg u # k) (fill (Fr side x rb_red v f) n)" "col u = rb_black"
  shows "\<exists>h'. insert_side side hdr x p g h = Some (p, h') \<and> same_heap hdr h h' \<and>
    focus h' hdr (Fr side x rb_black v (fill (Fr (\<not> side) g rb_red vg f) u) # k) (fill (Fr side p rb_red vp n) s)"
proof -
  let ?x = "fill (Fr side x rb_red v f) n" and ?p = "fill (Fr side p rb_red vp n) s"
  have fp: "focus h hdr (Fr side g rb_black vg u # k) (fill (Fr side p rb_red vp ?x) s)"
    using assms(1) unfolding fill_flip [of side p] focus_up .
  then have fg: "focus h hdr k (fill (Fr side g rb_black vg u) (fill (Fr side p rb_red vp ?x) s))" by (simp only: focus_up)
  have fu: "focus h hdr (Fr (\<not> side) g rb_black vg (fill (Fr side p rb_red vp ?x) s) # k) u" using fp by (rule focus_sibling [THEN iffD1])
  have y: "rd (child (\<not> side)) g h = Some (ptr u)" using focus_node(6) [OF fg] .
  have yc: "ptr u \<noteq> 0 \<Longrightarrow> rd rb_color (ptr u) h = Some rb_black" using focus_col [OF fu] assms(2) by simp
  have far: "rd (child (\<not> side)) p h = Some x" using focus_node(6) [OF fp] by simp
  from rotate_focus [OF fp] obtain h0 where h0: "rotate side hdr p h = Some h0" "same_heap hdr h h0"
    "focus h0 hdr (Fr side g rb_black vg u # k) (fill (Fr side x rb_red v f) ?p)" by blast
  have "focus h0 hdr (Fr side x rb_red v f # Fr side g rb_black vg u # k) ?p" using h0(3) by (simp only: focus_up)
  from focus_node(3) [OF this] have px: "rd rb_parent p h0 = Some x" by simp
  obtain h1 where h1: "set_color x rb_black h0 = Some h1" "same_heap hdr h0 h1"
    "focus h1 hdr (Fr side g rb_black vg u # k) (fill (Fr side x rb_black v f) ?p)"
    using set_color_focus [OF h0(3), of rb_black] by blast
  have xg: "rd rb_parent x h1 = Some g" using focus_node(3) [OF h1(3)] by simp
  have "focus h1 hdr k (fill (Fr side g rb_black vg u) (fill (Fr side x rb_black v f) ?p))" using h1(3) by (simp only: focus_up)
  from set_color_focus [OF this, of rb_red] obtain h2 where h2: "set_color g rb_red h1 = Some h2" "same_heap hdr h1 h2"
    "focus h2 hdr k (fill (Fr side g rb_red vg u) (fill (Fr side x rb_black v f) ?p))" by blast
  have "focus h2 hdr k (fill (Fr (\<not> side) g rb_red vg (fill (Fr (\<not> side) x rb_black v ?p) f)) u)"
    using h2(3) unfolding fill_flip [of side g] fill_flip [of side x] .
  from rotate_focus [OF this] obtain h3 where h3: "rotate (\<not> side) hdr g h2 = Some h3" "same_heap hdr h2 h3"
    "focus h3 hdr k (fill (Fr (\<not> side) x rb_black v ?p) (fill (Fr (\<not> side) g rb_red vg f) u))" by blast
  have "insert_side side hdr x p g h = Some (p, h3)"
    using y yc far h0(1) px h1(1) xg h2(1) h3(1) by (simp add: insert_side_def)
  moreover have "focus h3 hdr (Fr side x rb_black v (fill (Fr (\<not> side) g rb_red vg f) u) # k) ?p"
    using h3(3) unfolding focus_up fill_flip [of side x] .
  ultimately show ?thesis using same_heap_trans h0(2) h1(2) h2(2) h3(2) by blast
qed

text \<open>The loop, one turn and the end.\<close>

lemma insert_fix_stop:
  assumes "focus h hdr k t" "ptr t \<noteq> 0" "top_col k = rb_black"
  shows "insert_fix hdr (ptr t) h = Some h"
proof -
  obtain r where r: "rd rb_parent hdr h = Some r" "k = [] \<Longrightarrow> r = ptr t" using focus_header [OF assms(1)] by (auto split: if_splits)
  have p: "rd rb_parent (ptr t) h = Some (up_ptr hdr k)" using focus_parent [OF assms(1,2)] .
  show ?thesis
  proof (cases k)
    case Nil
    then show ?thesis using r p by (simp add: insert_fix.simps)
  next
    case (Cons f k')
    obtain side a c v s where f: "f = Fr side a c v s" by (cases f)
    have "focus h hdr k' (fill (Fr side a c v s) t)" using assms(1) by (simp only: Cons f focus_up)
    from focus_node(2) [OF this] have "rd rb_color a h = Some rb_black" using assms(3) by (simp add: Cons f)
    then show ?thesis using r p by (simp add: insert_fix.simps Cons f)
  qed
qed

lemma insert_fix_turn:
  assumes "focus h hdr (Fr ps p rb_red vp s # Fr side g c vg u # k) t" "ptr t \<noteq> 0"
  shows "insert_fix hdr (ptr t) h = Option.bind (insert_side side hdr (ptr t) p g h) (\<lambda>(x, h). insert_fix hdr x h)"
proof -
  obtain r where r: "rd rb_parent hdr h = Some r" "r \<notin> addrs t" using focus_header [OF assms(1)] by auto
  then have ne: "ptr t \<noteq> r" using ptr_addrs [OF assms(2)] by auto
  have fp: "focus h hdr (Fr side g c vg u # k) (fill (Fr ps p rb_red vp s) t)" using assms(1) by (simp only: focus_up)
  then have fg: "focus h hdr k (fill (Fr side g c vg u) (fill (Fr ps p rb_red vp s) t))" by (simp only: focus_up)
  have x: "rd rb_parent (ptr t) h = Some p" using focus_parent [OF assms] by simp
  have pp: "rd rb_color p h = Some rb_red" "rd rb_parent p h = Some g" "p \<noteq> 0" using focus_node [OF fp] by simp_all
  have gl: "rd rb_left g h = Some (if side then p else ptr u)" using focus_node(7) [OF fg] by simp
  have "p \<noteq> ptr u"
  proof
    assume "p = ptr u"
    then have "p \<in> addrs u" using ptr_addrs [of u] pp(3) by simp
    moreover have "p \<notin> addrs u" using focus_disjoint(4) [OF fp] by auto
    ultimately show False by simp
  qed
  then show ?thesis
    using r(1) ne x pp(1,2) gl by (cases side) (simp_all add: insert_fix.simps [of hdr "ptr t"] insert_left_side insert_right_side)
qed

lemma inord_fill_col: "inord (fill (Fr side a c v s) t) = inord (fill (Fr side a c' v s) t)"
  by (simp add: fill.simps)

definition fixed :: "'v rb_heap \<Rightarrow> base_ptr \<Rightarrow> 'v rb_heap \<Rightarrow> (base_ptr \<times> 'v) list \<Rightarrow> bool" where
  "fixed h hdr h' xs \<longleftrightarrow> same_heap hdr h h' \<and> (\<exists>T. focus h' hdr [] T \<and> inord T = xs \<and> invh T \<and> invc T)"

lemma fixed_stop:
  assumes "focus h' hdr k t" "same_heap hdr h h'" "ctx_ok k (bheight t)" "invh t" "invc t" "col t = rb_black \<or> top_col k = rb_black"
  shows "fixed h hdr h' (inord (plug k t))"
  using assms plug_rb [OF assms(3-6)] focus_plug [of h' hdr k t] unfolding fixed_def by blast

lemma insert_fix_ok:
  assumes "focus h hdr k t" "ptr t \<noteq> 0" "col t = rb_red" "invh t" "invc t" "ctx_ok k (bheight t)"
  shows "\<exists>h'. insert_fix hdr (ptr t) h = Some h' \<and> fixed h hdr h' (inord (plug k t))"
  using assms
proof (induction "length k" arbitrary: h k t rule: less_induct)
  case less
  show ?case
  proof (cases "top_col k = rb_black")
    case True
    then show ?thesis using insert_fix_stop [OF less.prems(1,2)] fixed_stop [OF less.prems(1) same_heap_refl less.prems(6,4,5)] by blast
  next
    case False
    then obtain ps p vp s k1 where k: "k = Fr ps p rb_red vp s # k1" by (cases k rule: top_col.cases) auto
    then have "k1 \<noteq> []" "top_col k1 = rb_black" using less.prems(6) by auto
    then obtain side g vg u k2 where k1: "k1 = Fr side g rb_black vg u # k2" by (cases k1 rule: top_col.cases) auto
    let ?n = "bheight t"
    have ok: "invc s" "invh s" "bheight s = ?n" "col s = rb_black" "invc u" "invh u" "bheight u = ?n" "ctx_ok k2 (?n + 1)"
      using less.prems(6) by (simp_all add: k k1)
    note f = less.prems(1) [unfolded k k1]
    note turn = insert_fix_turn [OF f less.prems(2)]
    show ?thesis
    proof (cases "col u = rb_red")
      case True
      then obtain y vy yl yr where u: "u = Nd y rb_red vy yl yr" by (cases u) auto
      let ?t = "fill (Fr side g rb_red vg (Nd y rb_black vy yl yr)) (fill (Fr ps p rb_black vp s) t)"
      obtain h1 where h1: "insert_side side hdr (ptr t) p g h = Some (g, h1)" "same_heap hdr h h1" "focus h1 hdr k2 ?t"
        using insert_side_red [OF f [unfolded u], of "ptr t"] by blast
      have rb: "invh ?t" "invc ?t" "bheight ?t = ?n + 1"
        using ok less.prems(4,5) by (simp_all add: u)
      have g: "g \<noteq> 0" using focus_node(1) [OF h1(3)] .
      obtain h' where h': "insert_fix hdr g h1 = Some h'" "fixed h1 hdr h' (inord (plug k2 ?t))"
        using less.hyps [of k2 h1 ?t] h1(3) g rb ok(8) by (auto simp: k k1)
      have "inord (plug k2 ?t) = inord (plug k t)"
        by (cases side; cases ps) (simp_all add: inord_plug k k1 u fill.simps)
      then have "fixed h hdr h' (inord (plug k t))"
        using h'(2) same_heap_trans [OF h1(2)] by (auto simp: fixed_def)
      then show ?thesis using turn h1(1) h'(1) by simp
    next
      case False
      then have u: "col u = rb_black" by simp
      show ?thesis
      proof (cases "ps = side")
        case True
        let ?k = "Fr side p rb_black vp (fill (Fr (\<not> side) g rb_red vg s) u) # k2"
        obtain h1 where h1: "insert_side side hdr (ptr t) p g h = Some (ptr t, h1)" "same_heap hdr h h1" "focus h1 hdr ?k t"
          using insert_side_black_outer [OF f [unfolded True] less.prems(2) u] by blast
        have "fixed h hdr h1 (inord (plug ?k t))"
          using ok u less.prems(4,5) by (intro fixed_stop [OF h1(3,2)]) simp_all
        moreover have "inord (plug ?k t) = inord (plug k t)"
          by (cases side) (simp_all add: inord_plug k k1 True fill.simps)
        ultimately show ?thesis using turn h1(1) insert_fix_stop [OF h1(3) less.prems(2)] by simp
      next
        case False
        obtain x v l r where "t = Nd x rb_red v l r" using less.prems(2,3) by (cases t) auto
        then obtain f n where t: "t = fill (Fr side x rb_red v f) n" by (cases side) (auto simp: fill.simps)
        have ps: "ps = (\<not> side)" using False by simp
        let ?k = "Fr side x rb_black v (fill (Fr (\<not> side) g rb_red vg f) u) # k2" and ?t = "fill (Fr side p rb_red vp n) s"
        obtain h1 where h1: "insert_side side hdr x p g h = Some (p, h1)" "same_heap hdr h h1" "focus h1 hdr ?k ?t"
          using insert_side_black_inner [OF less.prems(1) [unfolded k k1 ps t] u] by blast
        have rb: "bheight f = ?n" "bheight n = ?n" "invh f" "invh n" "invc f" "invc n" "col f = rb_black" "col n = rb_black"
          using less.prems(4,5) by (auto simp: t)
        have "fixed h hdr h1 (inord (plug ?k ?t))"
          using ok u rb by (intro fixed_stop [OF h1(3,2)]) simp_all
        moreover have "inord (plug ?k ?t) = inord (plug k t)"
          by (cases side) (simp_all add: inord_plug k k1 ps t fill.simps)
        moreover have "p \<noteq> 0" using h1(3) by (auto simp: focus_def tree_at_fill)
        then have "insert_fix hdr p h1 = Some h1" using insert_fix_stop [OF h1(3)] by simp
        ultimately show ?thesis using turn h1(1) by (simp add: t)
      qed
    qed
  qed
qed

lemma rb_insert_rebalance_ok:
  assumes "focus h hdr k (Nd x c v Lf Lf)" "ctx_ok k 0"
  shows "\<exists>h'. rb_insert_rebalance hdr x h = Some h' \<and> same_heap hdr h h' \<and>
    (\<exists>T. focus h' hdr [] T \<and> inord T = before_hole k @ (x, v) # after_hole k \<and> invh T \<and> invc T \<and> col T = rb_black)"
proof -
  have "focus h hdr k (fill (Fr True x c v Lf) Lf)" using assms(1) unfolding Nd_fill .
  from set_color_focus [OF this, of rb_red]
  obtain h1 where h1: "set_color x rb_red h = Some h1" "same_heap hdr h h1" "focus h1 hdr k (fill (Fr True x rb_red v Lf) Lf)" by blast
  let ?t = "fill (Fr True x rb_red v Lf) Lf"
  have x: "x \<noteq> 0" using focus_node(1) [OF h1(3)] .
  have "\<exists>h'. insert_fix hdr (ptr ?t) h1 = Some h' \<and> fixed h1 hdr h' (inord (plug k ?t))"
  proof (rule insert_fix_ok [OF h1(3)])
    show "ptr ?t \<noteq> 0" using x by simp
    show "col ?t = rb_red" "invh ?t" "invc ?t" by simp_all
    have "bheight ?t = 0" by (simp add: fill.simps)
    then show "ctx_ok k (bheight ?t)" using assms(2) by metis
  qed
  then obtain h2 where h2: "insert_fix hdr x h1 = Some h2" "fixed h1 hdr h2 (inord (plug k ?t))"
    unfolding ptr_fill by blast
  have "inord (plug k ?t) = before_hole k @ (x, v) # after_hole k" by (simp add: inord_plug fill.simps)
  then obtain T where T: "same_heap hdr h1 h2" "focus h2 hdr [] T" "inord T = before_hole k @ (x, v) # after_hole k" "invh T" "invc T"
    using h2(2) unfolding fixed_def by metis
  then obtain a ca va l r where Nd: "T = Nd a ca va l r" by (cases T) simp_all
  have root: "rd rb_parent hdr h2 = Some a" using focus_header [OF T(2)] by (simp add: Nd)
  have "focus h2 hdr [] (fill (Fr True a ca va r) l)" using T(2) unfolding Nd Nd_fill .
  from set_color_focus [OF this, of rb_black]
  obtain h3 where h3: "set_color a rb_black h2 = Some h3" "same_heap hdr h2 h3" "focus h3 hdr [] (fill (Fr True a rb_black va r) l)" by blast
  have "rb_insert_rebalance hdr x h = Some h3" unfolding rb_insert_rebalance_def h1(1) Option.bind.bind_lunit h2(1) root h3(1) ..
  moreover have "same_heap hdr h h3" using same_heap_trans h1(2) T(1) h3(2) by blast
  moreover have "inord (fill (Fr True a rb_black va r) l) = before_hole k @ (x, v) # after_hole k"
    using T(3) by (simp add: Nd fill.simps)
  moreover have "invh (fill (Fr True a rb_black va r) l)" "invc (fill (Fr True a rb_black va r) l)" using T(4,5) by (simp_all add: Nd)
  moreover have "col (fill (Fr True a rb_black va r) l) = rb_black" by simp
  ultimately show ?thesis using h3(3) by metis
qed
end
