(* ===== verification/My_Rb_Map.thy ===== *)
theory My_Rb_Map
  imports My_Rb_Insert
begin

text \<open>
  The red-black tree as an ordered sequence of values: searches, both insertions and the iterators.
\<close>

section \<open>The place of a new value\<close>

fun hole :: "('v \<Rightarrow> 'k::linorder) \<Rightarrow> 'k \<Rightarrow> 'v frame list \<Rightarrow> 'v rbt \<Rightarrow> 'v frame list" where
  "hole key q k Lf = k"
| "hole key q k (Nd a c v l r) =
     (if q < key v then hole key q (Fr True a c v r # k) l else hole key q (Fr False a c v l # k) r)"

fun top_side :: "'v frame list \<Rightarrow> bool" where
  "top_side [] = True"
| "top_side (Fr side a c v s # k) = side"

abbreviation upto_key :: "('v \<Rightarrow> 'k::linorder) \<Rightarrow> 'k \<Rightarrow> base_ptr \<times> 'v \<Rightarrow> bool" where
  "upto_key key q x \<equiv> key (snd x) \<le> q"

definition in_order :: "('v \<Rightarrow> 'k::linorder) \<Rightarrow> (base_ptr \<times> 'v) list \<Rightarrow> bool" where
  "in_order key xs \<longleftrightarrow> sorted (map (\<lambda>x. key (snd x)) xs)"

lemma in_order_simps [simp]:
  "in_order key []"
  "in_order key (xs @ ys) \<longleftrightarrow> in_order key xs \<and> in_order key ys \<and> (\<forall>x \<in> set xs. \<forall>y \<in> set ys. key (snd x) \<le> key (snd y))"
  "in_order key (y # ys) \<longleftrightarrow> (\<forall>x \<in> set ys. key (snd y) \<le> key (snd x)) \<and> in_order key ys"
  by (auto simp: in_order_def sorted_append)

lemma hole_split:
  "in_order key (inord t) \<Longrightarrow>
   before_hole (hole key q k t) = before_hole k @ takeWhile (upto_key key q) (inord t) \<and>
   after_hole (hole key q k t) = dropWhile (upto_key key q) (inord t) @ after_hole k"
proof (induction t arbitrary: k)
  case (Nd a c v l r)
  have r: "in_order key (inord l)" "in_order key (inord r)" "\<And>x. x \<in> set (inord l) \<Longrightarrow> key (snd x) \<le> key v"
    using Nd.prems by auto
  show ?case
  proof (cases "q < key v")
    case True
    then show ?thesis using Nd.IH(1) [OF r(1)] by (simp add: takeWhile_tail dropWhile_append3)
  next
    case False
    then have "\<And>x. x \<in> set (inord l) \<Longrightarrow> upto_key key q x" using r(3) by force
    then show ?thesis using Nd.IH(2) [OF r(2)] False by (simp add: takeWhile_append2 dropWhile_append2)
  qed
qed simp

lemma hole_focus: "focus h hdr k t \<Longrightarrow> focus h hdr (hole key q k t) Lf"
proof (induction t arbitrary: k)
  case (Nd a c v l r)
  then have "focus h hdr (Fr True a c v r # k) l" "focus h hdr (Fr False a c v l # k) r"
    by (simp_all add: focus_up fill.simps)
  then show ?case using Nd.IH by simp
qed simp

lemma hole_ok:
  "ctx_ok k (bheight t) \<Longrightarrow> invh t \<Longrightarrow> invc t \<Longrightarrow> col t = rb_red \<longrightarrow> k \<noteq> [] \<and> top_col k = rb_black \<Longrightarrow>
   ctx_ok (hole key q k t) 0"
proof (induction t arbitrary: k)
  case (Nd a c v l r)
  have "ctx_ok (hole key q (Fr True a c v r # k) l) 0"
    using Nd.prems by (intro Nd.IH(1)) (auto split: if_splits)
  moreover have "ctx_ok (hole key q (Fr False a c v l # k) r) 0"
    using Nd.prems by (intro Nd.IH(2)) (auto split: if_splits)
  ultimately show ?case by simp
qed simp

lemma tree_at_reads:
  assumes "tree_at h p (Nd a c v l r)"
  shows "a \<noteq> 0" "rd rb_color a h = Some c" "rd rb_parent a h = Some p" "rd rb_left a h = Some (ptr l)"
    "rd rb_right a h = Some (ptr r)" "rd rb_value a h = Some v" "tree_at h a l" "tree_at h a r"
  using assms by (simp_all add: tree_at.simps(2) rd_node)

lemma insert_equal_loop_hole:
  "tree_at h p t \<Longrightarrow> insert_equal_loop key (ptr t) (up_ptr hdr k) q h = Some (up_ptr hdr (hole key q k t))"
proof (induction t arbitrary: p k)
  case (Nd a c v l r)
  note t = tree_at_reads [OF Nd.prems]
  show ?case using t(1,4-6) Nd.IH(1) [OF t(7), of "Fr True a c v r # k"] Nd.IH(2) [OF t(8), of "Fr False a c v l # k"]
    by (simp add: insert_equal_loop.simps [of key a])
qed (simp add: insert_equal_loop.simps)

lemma insert_unique_loop_hole:
  "tree_at h p t \<Longrightarrow> insert_unique_loop key (ptr t) (up_ptr hdr k) (top_side k) q h =
     Some (up_ptr hdr (hole key q k t), top_side (hole key q k t))"
proof (induction t arbitrary: p k)
  case (Nd a c v l r)
  note t = tree_at_reads [OF Nd.prems]
  show ?case using t(1,4-6) Nd.IH(1) [OF t(7), of "Fr True a c v r # k"] Nd.IH(2) [OF t(8), of "Fr False a c v l # k"]
    by (simp add: insert_unique_loop.simps [of key a])
qed (simp add: insert_unique_loop.simps)

section \<open>The invariant of the tree\<close>

definition ends :: "'v rb_heap \<Rightarrow> base_ptr \<Rightarrow> (base_ptr \<times> 'v) list \<Rightarrow> bool" where
  "ends h hdr xs \<longleftrightarrow> (case h hdr of None \<Rightarrow> False | Some n \<Rightarrow> rb_color n = rb_red \<and>
     rb_left n = (if xs = [] then hdr else fst (hd xs)) \<and> rb_right n = (if xs = [] then hdr else fst (last xs)))"

definition rb_links :: "'v my_rb_tree \<Rightarrow> 'v rbt \<Rightarrow> bool" where
  "rb_links t T \<longleftrightarrow> focus (rt_heap t) (rt_header t) [] T \<and> invh T \<and> invc T \<and> col T = rb_black \<and>
     dom (rt_heap t) = insert (rt_header t) (addrs T) \<and>
     (\<forall>a \<in> dom (rt_heap t). a < rt_fresh t) \<and> rt_node_count t = length (inord T)"

definition rb_at :: "'v my_rb_tree \<Rightarrow> 'v rbt \<Rightarrow> bool" where
  "rb_at t T \<longleftrightarrow> rb_links t T \<and> ends (rt_heap t) (rt_header t) (inord T)"

lemmas rb_at_defs = rb_at_def rb_links_def

lemma same_heap_ends:
  assumes "same_heap hdr h h'" "ends h hdr xs"
  shows "ends h' hdr xs"
proof -
  obtain n where n: "h hdr = Some n" using assms(2) by (auto simp: ends_def split: option.splits)
  then obtain n' where n': "h' hdr = Some n'" "n'\<lparr>rb_parent := 0\<rparr> = n\<lparr>rb_parent := 0\<rparr>"
    using assms(1) by (auto simp: same_heap_def)
  then have "rb_color n' = rb_color n" "rb_left n' = rb_left n" "rb_right n' = rb_right n"
    by (cases n; cases n'; simp)+
  then show ?thesis using assms(2) n n'(1) by (simp add: ends_def)
qed

lemma ctx_at_header_cong:
  "(\<And>a. a \<in> ctx_addrs k \<Longrightarrow> h' a = h a) \<Longrightarrow> map_option rb_parent (h' hdr) = map_option rb_parent (h hdr) \<Longrightarrow>
   ctx_at h' hdr k p = ctx_at h hdr k p"
proof (induction k arbitrary: p)
  case Nil
  then show ?case by (auto split: option.splits)
next
  case (Cons f k)
  obtain side a c v s where f: "f = Fr side a c v s" by (cases f)
  have "tree_at h' a s = tree_at h a s" using Cons.prems by (intro tree_at_cong) (simp add: f)
  then show ?case using Cons by (simp add: f ctx_at_Fr)
qed

lemma tree_at_dom: "tree_at h p t \<Longrightarrow> addrs t \<subseteq> dom h"
proof (induction t arbitrary: p)
  case (Nd a c v l r)
  note t = Nd.prems [unfolded tree_at.simps(2)]
  have "addrs l \<subseteq> dom h" "addrs r \<subseteq> dom h" using Nd.IH t by blast+
  then show ?case using t by (simp add: domIff)
qed simp

lemma ctx_at_dom: "ctx_at h hdr k p \<Longrightarrow> insert hdr (ctx_addrs k) \<subseteq> dom h"
proof (induction k arbitrary: p)
  case Nil
  then show ?case by (auto split: option.splits)
next
  case (Cons f k)
  obtain side a c v s where f: "f = Fr side a c v s" by (cases f)
  then show ?case using Cons.prems Cons.IH [of a] tree_at_dom [of h a s] by (auto simp: ctx_at_Fr)
qed

section \<open>Linking a new node\<close>

lemma focus_top:
  assumes "focus h hdr (Fr side a c w s # k) Lf"
  shows "h a = Some (node side c (up_ptr hdr k) 0 (ptr s) w)" "a \<noteq> 0" "a \<noteq> hdr" "a \<notin> addrs s" "a \<notin> ctx_addrs k"
    "hdr \<notin> addrs s" "hdr \<notin> ctx_addrs k" "tree_at h a s" "ctx_at h hdr k a" "hdr \<noteq> 0"
    "addrs s \<union> ctx_addrs k \<subseteq> dom h"
proof -
  have f: "focus h hdr k (fill (Fr side a c w s) Lf)" using assms by (simp only: focus_up)
  have c: "ctx_at h hdr (Fr side a c w s # k) 0" using assms by (simp add: focus_def)
  show "h a = Some (node side c (up_ptr hdr k) 0 (ptr s) w)" "a \<noteq> 0" "tree_at h a s" "ctx_at h hdr k a" "hdr \<noteq> 0"
    using c focus_disjoint(1) [OF f] by (simp_all add: ctx_at_Fr)
  show "a \<noteq> hdr" "hdr \<notin> addrs s" "hdr \<notin> ctx_addrs k" "a \<notin> ctx_addrs k"
    using focus_disjoint(2-4) [OF f] by auto
  show "a \<notin> addrs s" using fill_disjoint [OF focus_distinct [OF f, THEN conjunct1]] by simp
  show "addrs s \<union> ctx_addrs k \<subseteq> dom h" using ctx_at_dom [OF c] by auto
qed

lemma focus_extreme:
  assumes "focus h hdr k Lf" "ends h hdr (before_hole k @ after_hole k)" "k = Fr side a c w s # k2"
  shows "rd (child side) hdr h = Some a \<longleftrightarrow> (if side then before_hole k = [] else after_hole k = [])"
proof -
  obtain n where n: "h hdr = Some n" using assms(2) by (auto simp: ends_def split: option.splits)
  have d: "distinct (map fst (before_hole k @ after_hole k))" "hdr \<noteq> 0"
    using focus_distinct [OF assms(1)] focus_disjoint(1) [OF assms(1)] by auto
  show ?thesis
  proof (cases side)
    case True
    then have "rb_left n = fst (hd (before_hole k @ (a, w) # inord s @ after_hole k2))"
      using assms(2,3) n by (simp add: ends_def)
    then show ?thesis using d n True assms(3) by (cases "before_hole k") (auto simp: rd_node child_def)
  next
    case False
    then have "rb_right n = fst (last ((before_hole k2 @ inord s @ [(a, w)]) @ after_hole k))"
      using assms(2,3) n by (simp add: ends_def)
    then show ?thesis using d n False assms(3) by (cases "after_hole k" rule: rev_cases) (auto simp: rd_node child_def)
  qed
qed

definition new_node :: "base_ptr \<Rightarrow> 'v \<Rightarrow> 'v rb_node" where
  "new_node p v = \<lparr>rb_color = rb_red, rb_parent = p, rb_left = 0, rb_right = 0, rb_value = v\<rparr>"

text \<open>The focus after a node without children has been put at the hole, whatever was done to the ends.\<close>

lemma focus_new:
  assumes f: "focus h hdr (Fr side a c w s # k) Lf" and z: "z \<notin> dom h" "z \<noteq> 0"
    and h': "h' a = Some (node side c (up_ptr hdr k) z (ptr s) w)" "h' z = Some (new_node a v)"
    "map_option rb_parent (h' hdr) = map_option rb_parent (h hdr)" "\<And>b. b \<notin> {a, z, hdr} \<Longrightarrow> h' b = h b"
  shows "focus h' hdr (Fr side a c w s # k) (Nd z rb_red v Lf Lf)"
proof -
  let ?k = "Fr side a c w s # k"
  note t = focus_top [OF f]
  have zz: "z \<notin> addrs s" "z \<notin> ctx_addrs k" "z \<noteq> hdr" "z \<noteq> a"
    using t(11,1) z(1) ctx_at_dom [OF t(9)] by auto
  have "tree_at h' a s = tree_at h a s" using t zz by (intro tree_at_cong h'(4)) auto
  moreover have "ctx_at h' hdr k a = ctx_at h hdr k a" using t zz by (intro ctx_at_header_cong h'(3,4)) auto
  ultimately have "ctx_at h' hdr ?k z" using t h'(1) by (simp add: ctx_at_Fr)
  moreover have "tree_at h' a (Nd z rb_red v Lf Lf)" using z(2) h'(2) by (simp add: tree_at.simps(2) new_node_def)
  moreover have "distinct (hdr # map fst (before_hole ?k @ inord (Nd z rb_red v Lf Lf) @ after_hole ?k))"
  proof -
    have "z \<notin> fst ` set (before_hole ?k) \<union> fst ` set (after_hole ?k)"
      using zz by (simp add: ctx_addrs_def [symmetric] del: before_hole.simps after_hole.simps)
    moreover have "distinct (hdr # map fst (before_hole ?k @ after_hole ?k))" using f by (simp add: focus_def)
    ultimately show ?thesis using zz(3) by (simp del: before_hole.simps after_hole.simps)
  qed
  ultimately show ?thesis using t(10) by (simp add: focus_def)
qed

lemma link_ok:
  assumes f: "focus h hdr k Lf" and e: "ends h hdr (before_hole k @ after_hole k)" and z: "z \<notin> dom h" "z \<noteq> 0"
  obtains h' where "link_node (top_side k) hdr (up_ptr hdr k) z (h(z \<mapsto> new_node 0 v)) = Some h'"
    "focus h' hdr k (Nd z rb_red v Lf Lf)" "ends h' hdr (before_hole k @ (z, v) # after_hole k)" "dom h' = insert z (dom h)"
proof -
  obtain n where n: "h hdr = Some n" "rb_color n = rb_red" using e by (auto simp: ends_def split: option.splits)
  have hdr: "hdr \<noteq> 0" "z \<noteq> hdr" using focus_disjoint(1) [OF f] n z by auto
  show thesis
  proof (cases k)
    case Nil
    let ?h = "h(hdr \<mapsto> n\<lparr>rb_parent := z, rb_left := z, rb_right := z\<rparr>, z \<mapsto> new_node hdr v)"
    have "link_node (top_side k) hdr (up_ptr hdr k) z (h(z \<mapsto> new_node 0 v)) = Some ?h"
      using n hdr z
      by (simp add: Nil link_node_def set_left_def set_right_def set_parent_def wr_def rd_def new_node_def)
        (auto simp: fun_eq_iff)
    moreover have "focus ?h hdr k (Nd z rb_red v Lf Lf)"
      using hdr z by (simp add: Nil focus_def tree_at.simps(2) new_node_def)
    moreover have "ends ?h hdr (before_hole k @ (z, v) # after_hole k)" using n hdr by (simp add: Nil ends_def)
    moreover have "dom ?h = insert z (dom h)" using n by auto
    ultimately show thesis using that by blast
  next
    case (Cons fr k2)
    obtain side a c w s where k: "k = Fr side a c w s # k2" using Cons by (cases fr) simp
    note t = focus_top [OF f [unfolded k]]
    define E where "E \<longleftrightarrow> (if side then before_hole k = [] else after_hole k = [])"
    have ext: "rd (child side) hdr h = Some a \<longleftrightarrow> E" unfolding E_def using focus_extreme [OF f e k] .
    let ?n = "if E then (if side then n\<lparr>rb_left := z\<rparr> else n\<lparr>rb_right := z\<rparr>) else n"
    let ?h = "h(a \<mapsto> node side c (up_ptr hdr k2) z (ptr s) w, hdr \<mapsto> ?n, z \<mapsto> new_node a v)"
    have za: "z \<noteq> a" using t(1) z by auto
    have "link_node (top_side k) hdr (up_ptr hdr k) z (h(z \<mapsto> new_node 0 v)) = Some ?h"
      using n hdr z za t(1-3) ext
      by (cases side; cases E)
        (simp_all add: k link_node_def set_left_def set_right_def set_parent_def wr_def rd_def new_node_def node_def child_def fun_eq_iff)
    moreover have "focus ?h hdr k (Nd z rb_red v Lf Lf)"
      unfolding k using f [unfolded k] z by (rule focus_new) (use za hdr t(3) n in auto)
    moreover have "ends ?h hdr (before_hole k @ (z, v) # after_hole k)"
    proof -
      have B: "side \<Longrightarrow> after_hole k \<noteq> []" "\<not> side \<Longrightarrow> before_hole k \<noteq> []" by (simp_all add: k)
      show ?thesis using e n hdr B unfolding E_def ends_def
        by (cases "before_hole k = []"; cases "after_hole k = []"; cases side) auto
    qed
    moreover have "dom ?h = insert z (dom h)" using n(1) t(1) by auto
    ultimately show thesis using that by blast
  qed
qed

lemma up_ptr_header: "focus h hdr k Lf \<Longrightarrow> up_ptr hdr k = hdr \<longleftrightarrow> k = []"
  by (cases k; cases "hd k") (auto dest: focus_top(3))

lemma rb_insert_ok:
  assumes at: "rb_at t T" and f: "focus (rt_heap t) (rt_header t) k Lf" "ctx_ok k 0"
    and split: "before_hole k @ after_hole k = inord T"
    and side: "\<And>sd a c w s k2. k = Fr sd a c w s # k2 \<Longrightarrow> sd \<longleftrightarrow> key v < key w"
  obtains t' T' where "rb_insert key 0 (up_ptr (rt_header t) k) v t = Some (rt_fresh t, t')" "rb_at t' T'"
    "inord T' = before_hole k @ (rt_fresh t, v) # after_hole k" "rt_header t' = rt_header t"
proof -
  let ?h = "rt_heap t" and ?hdr = "rt_header t" and ?z = "rt_fresh t"
  have a: "ends ?h ?hdr (before_hole k @ after_hole k)" "dom ?h = insert ?hdr (addrs T)" "\<forall>a \<in> dom ?h. a < ?z"
    "rt_node_count t = length (inord T)" using at split by (simp_all add: rb_at_defs)
  have z: "?z \<notin> dom ?h" "?z \<noteq> 0" using a(2,3) by auto
  obtain h1 where h1: "link_node (top_side k) ?hdr (up_ptr ?hdr k) ?z (?h(?z \<mapsto> new_node 0 v)) = Some h1"
    "focus h1 ?hdr k (Nd ?z rb_red v Lf Lf)" "ends h1 ?hdr (before_hole k @ (?z, v) # after_hole k)" "dom h1 = insert ?z (dom ?h)"
    using link_ok [OF f(1) a(1) z] by blast
  obtain h2 T' where h2: "rb_insert_rebalance ?hdr ?z h1 = Some h2" "same_heap ?hdr h1 h2" "focus h2 ?hdr [] T'"
    "inord T' = before_hole k @ (?z, v) # after_hole k" "invh T'" "invc T'" "col T' = rb_black"
    using rb_insert_rebalance_ok [OF h1(2) f(2)] by blast
  let ?t = "t\<lparr>rt_heap := h2, rt_fresh := ?z + 1, rt_node_count := rt_node_count t + 1\<rparr>"
  have go: "(if up_ptr ?hdr k = ?hdr \<or> (0::nat) \<noteq> 0 then Some True
      else Option.bind (rd rb_value (up_ptr ?hdr k) ?h) (\<lambda>w. Some (key v < key w))) = Some (top_side k)"
  proof (cases k)
    case (Cons fr k2)
    obtain sd a c w s where k: "k = Fr sd a c w s # k2" using Cons by (cases fr) simp
    note t = focus_top [OF f(1) [unfolded k]]
    show ?thesis using t(1-3) side [OF k] by (simp add: k rd_node)
  qed simp
  have "rb_insert key 0 (up_ptr ?hdr k) v t = Some (?z, ?t)"
    unfolding rb_insert_def go using h1(1) h2(1) by (simp add: create_node_def new_node_def)
  moreover have "rb_at ?t T'"
  proof -
    have "inord T' = before_hole k @ (?z, v) # after_hole k" by (rule h2(4))
    then have "addrs T' = insert ?z (addrs T)" "length (inord T') = Suc (length (inord T))"
      by (auto simp: addrs_def split [symmetric])
    moreover have "dom h2 = dom h1" using h2(2) by (simp add: same_heap_def)
    moreover have "ends h2 ?hdr (inord T')" using same_heap_ends [OF h2(2) h1(3)] by (simp add: h2(4))
    ultimately show ?thesis using a(2-4) h1(4) h2(3,5-7) by (auto simp: rb_at_defs)
  qed
  ultimately show thesis using that h2(4) by simp
qed

end
