(* ===== verification/My_Rb_Iter.thy ===== *)
theory My_Rb_Iter
  imports My_Rb_Map
begin

text \<open>Iterators and searches of the red-black tree, in terms of the ordered list of its nodes.\<close>

section \<open>Positions\<close>

definition first_of :: "base_ptr \<Rightarrow> (base_ptr \<times> 'v) list \<Rightarrow> base_ptr" where
  "first_of y xs = (if xs = [] then y else fst (List.hd xs))"

lemma first_of_simps [simp]: "first_of y [] = y" "first_of y (x # xs) = fst x"
  "first_of y (xs @ ys) = first_of (first_of y ys) xs"
  by (auto simp: first_of_def)

lemma focus_at:
  "focus h hdr k t \<Longrightarrow> (a, v) \<in> set (inord t) \<Longrightarrow>
   \<exists>k' c l r. focus h hdr k' (Nd a c v l r) \<and> (k' = [] \<longrightarrow> k = [] \<and> c = col t) \<and>
     before_hole k' @ inord l @ (a, v) # inord r @ after_hole k' = before_hole k @ inord t @ after_hole k"
proof (induction t arbitrary: k)
  case (Nd b c w l r)
  consider "(a, v) = (b, w)" | "(a, v) \<in> set (inord l)" | "(a, v) \<in> set (inord r)" using Nd.prems(2) by auto
  then show ?case
  proof cases
    case 1
    then show ?thesis using Nd.prems(1) by (intro exI [of _ k] exI [of _ c] exI [of _ l] exI [of _ r]) simp
  next
    case 2
    have "focus h hdr (Fr True b c w r # k) l" using Nd.prems(1) by (simp add: focus_up fill.simps)
    from Nd.IH(1) [OF this 2] show ?thesis by fastforce
  next
    case 3
    have "focus h hdr (Fr False b c w l # k) r" using Nd.prems(1) by (simp add: focus_up fill.simps)
    from Nd.IH(2) [OF this 3] show ?thesis by fastforce
  qed
qed simp

lemma position:
  assumes "rb_at t T" "inord T = xs @ (a, v) # ys"
  obtains k c l r where "focus (rt_heap t) (rt_header t) k (Nd a c v l r)" "k = [] \<Longrightarrow> c = rb_black"
    "before_hole k @ inord l = xs" "inord r @ after_hole k = ys"
proof -
  have f: "focus (rt_heap t) (rt_header t) [] T" "col T = rb_black" using assms(1) by (simp_all add: rb_at_defs)
  obtain k c l r where k: "focus (rt_heap t) (rt_header t) k (Nd a c v l r)" "k = [] \<longrightarrow> c = col T"
    "(before_hole k @ inord l) @ (a, v) # (inord r @ after_hole k) = xs @ (a, v) # ys"
    using focus_at [OF f(1), of a v] assms(2) by auto
  have "distinct (map fst (xs @ (a, v) # ys))" using focus_distinct [OF f(1)] by (simp only: assms(2) [symmetric])
  then have "distinct (xs @ (a, v) # ys)" by (simp only: distinct_map)
  then have "(a, v) \<notin> set xs" "(a, v) \<notin> set ys" by auto
  moreover from \<open>distinct (xs @ (a, v) # ys)\<close> have "distinct ((before_hole k @ inord l) @ (a, v) # (inord r @ after_hole k))"
    by (simp only: k(3))
  then have "(a, v) \<notin> set (before_hole k @ inord l)" "(a, v) \<notin> set (inord r @ after_hole k)" by auto
  ultimately have "before_hole k @ inord l = xs \<and> inord r @ after_hole k = ys"
    using append_Cons_eq_iff [THEN iffD1, OF _ _ k(3)] by blast
  then show thesis using that k(1,2) f(2) by blast
qed

section \<open>Increment and decrement\<close>

lemma rb_minimum_ok:
  "tree_at h p t \<Longrightarrow> t \<noteq> Lf \<Longrightarrow> rb_minimum (ptr t) h = Some (fst (hd (inord t)))"
proof (induction t arbitrary: p)
  case (Nd a c v l r)
  note t = tree_at_reads [OF Nd.prems(1)]
  show ?case
  proof (cases "l = Lf")
    case False
    then have "ptr l \<noteq> 0" "inord l \<noteq> []" using ptr_zero [OF t(7)] by (auto, cases l, auto)
    then show ?thesis using Nd.IH(1) [OF t(7) False] t(4) by (simp add: rb_minimum.simps [of a])
  qed (use t in \<open>simp add: rb_minimum.simps [of a]\<close>)
qed simp

lemma rb_maximum_ok:
  "tree_at h p t \<Longrightarrow> t \<noteq> Lf \<Longrightarrow> rb_maximum (ptr t) h = Some (fst (last (inord t)))"
proof (induction t arbitrary: p)
  case (Nd a c v l r)
  note t = tree_at_reads [OF Nd.prems(1)]
  show ?case
  proof (cases "r = Lf")
    case False
    then have "ptr r \<noteq> 0" "inord r \<noteq> []" using ptr_zero [OF t(8)] by (auto, cases r, auto)
    then show ?thesis using Nd.IH(2) [OF t(8) False] t(5) by (simp add: rb_maximum.simps [of a])
  qed (use t in \<open>simp add: rb_maximum.simps [of a]\<close>)
qed simp

lemma focus_ne_sibling:
  assumes "focus h hdr (Fr side a c v s # k) t" "ptr t \<noteq> 0"
  shows "ptr t \<noteq> ptr s" "a \<noteq> 0" "a \<notin> addrs t" "rd (child side) a h = Some (ptr t)" "rd (child (\<not> side)) a h = Some (ptr s)"
    "rd rb_parent a h = Some (up_ptr hdr k)" "focus h hdr k (fill (Fr side a c v s) t)"
proof -
  show f: "focus h hdr k (fill (Fr side a c v s) t)" using assms(1) by (simp only: focus_up)
  show "ptr t \<noteq> ptr s"
  proof
    assume "ptr t = ptr s"
    then have "ptr t \<in> addrs s" using ptr_addrs [of s] assms(2) by simp
    then show False using focus_disjoint(4) [OF assms(1)] ptr_addrs [OF assms(2)] by auto
  qed
  show "a \<notin> addrs t" using focus_disjoint(4) [OF assms(1)] by auto
  show "a \<noteq> 0" "rd (child side) a h = Some (ptr t)" "rd (child (\<not> side)) a h = Some (ptr s)"
    "rd rb_parent a h = Some (up_ptr hdr k)" using focus_node [OF f] by simp_all
qed

lemma climb_left_ok:
  "focus h hdr k t \<Longrightarrow> ptr t \<noteq> 0 \<Longrightarrow> before_hole k \<noteq> [] \<Longrightarrow>
   \<exists>x. climb_left (ptr t) (up_ptr hdr k) h = Some (x, fst (last (before_hole k)))"
proof (induction k arbitrary: t)
  case (Cons f k)
  obtain side a c v s where f: "f = Fr side a c v s" by (cases f)
  note n = focus_ne_sibling [OF Cons.prems(1) [unfolded f] Cons.prems(2)]
  show ?case
  proof (cases side)
    case True
    then show ?thesis
      using Cons.IH [OF n(7)] Cons.prems(3) n(2,4,6) by (simp add: f climb_left.simps [of _ a] child_simps)
  next
    case False
    then show ?thesis using n(1,5) by (simp add: f climb_left.simps [of _ a] child_simps)
  qed
qed simp

lemma rb_decrement_at:
  assumes at: "rb_at t T" and split: "inord T = xs @ (a, v) # ys" and ne: "xs \<noteq> []"
  shows "rb_decrement a (rt_heap t) = Some (fst (last xs))"
proof -
  let ?h = "rt_heap t" and ?hdr = "rt_header t"
  obtain k c l r where k: "focus ?h ?hdr k (Nd a c v l r)" "k = [] \<Longrightarrow> c = rb_black" "before_hole k @ inord l = xs"
    using position [OF at split] by metis
  note t = tree_at_reads [of ?h "up_ptr ?hdr k" a c v l r]
  have ta: "tree_at ?h (up_ptr ?hdr k) (Nd a c v l r)" using k(1) by (simp add: focus_def)
  note t = tree_at_reads [OF ta]
  have red: "\<exists>pp. rd rb_parent (up_ptr ?hdr k) ?h = Some pp \<and> pp \<noteq> a" if "c = rb_red"
  proof -
    obtain f k2 where "k = f # k2" using k(2) \<open>c = rb_red\<close> by (cases k) auto
    then obtain sd b d w s where kk: "k = Fr sd b d w s # k2" by (cases f) auto
    have "rd rb_parent b ?h = Some (up_ptr ?hdr k2)" using focus_ne_sibling(6) [OF k(1) [unfolded kk]] t(1) by simp
    moreover have "up_ptr ?hdr k2 \<noteq> a" using up_ptr_in [of ?hdr k2] focus_disjoint [OF k(1)] by (auto simp: kk)
    ultimately show ?thesis by (simp add: kk)
  qed
  show ?thesis
  proof (cases "l = Lf")
    case True
    then have "before_hole k = xs" using k(3) by simp
    then obtain x where "climb_left a (up_ptr ?hdr k) ?h = Some (x, fst (last xs))"
      using climb_left_ok [OF k(1)] t(1) ne by auto
    then show ?thesis using t red True by (cases c) (auto simp: rb_decrement_def)
  next
    case False
    then have "ptr l \<noteq> 0" "inord l \<noteq> []" using ptr_zero [OF t(7)] by (auto, cases l, auto)
    moreover have "last xs = last (inord l)" using k(3) \<open>inord l \<noteq> []\<close> by (metis last_append)
    ultimately show ?thesis using rb_maximum_ok [OF t(7) False] t red by (cases c) (auto simp: rb_decrement_def)
  qed
qed

text \<open>\<open>__increment\<close> from a node without a right child.\<close>

definition climb_next :: "base_ptr \<Rightarrow> base_ptr \<Rightarrow> 'v rb_heap \<Rightarrow> base_ptr option" where
  "climb_next x y h = do { (x, y) \<leftarrow> climb_right x y h; r \<leftarrow> rd rb_right x h; Some (if r \<noteq> y then y else x) }"

lemma focus_right: "focus h hdr k t \<Longrightarrow> ptr t \<noteq> 0 \<Longrightarrow> \<exists>r. rd rb_right (ptr t) h = Some r \<and> (r = 0 \<or> r \<in> addrs t)"
proof (cases t)
  case (Nd a c v l r)
  assume "focus h hdr k t"
  then have "tree_at h (up_ptr hdr k) (Nd a c v l r)" by (simp add: focus_def Nd)
  note t = tree_at_reads [OF this]
  show ?thesis using t(1,5) ptr_addrs [of r] by (auto simp: Nd)
qed simp

lemma climb_next_ok:
  "focus h hdr k t \<Longrightarrow> ptr t \<noteq> 0 \<Longrightarrow> climb_next (ptr t) (up_ptr hdr k) h = Some (first_of hdr (after_hole k))"
proof (induction k arbitrary: t)
  case Nil
  obtain r where r: "rd rb_right (ptr t) h = Some r" "r \<noteq> hdr"
    using focus_right [OF Nil.prems] focus_disjoint(1,3) [OF Nil.prems(1)] by auto
  obtain n where n: "h hdr = Some n" "rb_parent n = ptr t" "hdr \<noteq> 0"
    using Nil.prems(1) by (auto simp: focus_def split: option.splits)
  show ?case
  proof (cases "ptr t = rb_right n")
    case True
    then have "climb_right (ptr t) hdr h = Some (hdr, ptr t)"
      using n r by (simp add: climb_right.simps [of _ hdr] climb_right.simps [of _ "rb_right n"] rd_node)
    then show ?thesis using n True by (simp add: climb_next_def rd_node)
  next
    case False
    then have "climb_right (ptr t) hdr h = Some (ptr t, hdr)" using n by (simp add: climb_right.simps [of _ hdr] rd_node)
    then show ?thesis using r by (simp add: climb_next_def)
  qed
next
  case (Cons f k)
  obtain side a c v s where f: "f = Fr side a c v s" by (cases f)
  note n = focus_ne_sibling [OF Cons.prems(1) [unfolded f] Cons.prems(2)]
  show ?case
  proof (cases side)
    case True
    then have "climb_right (ptr t) a h = Some (ptr t, a)" using n(1,5) by (simp add: climb_right.simps [of _ a] child_simps)
    moreover obtain r where "rd rb_right (ptr t) h = Some r" "r \<noteq> a" using focus_right [OF Cons.prems] n(2,3) by auto
    ultimately show ?thesis using True by (simp add: climb_next_def f)
  next
    case False
    then have "climb_right (ptr t) a h = climb_right a (up_ptr hdr k) h"
      using n(4,6) by (simp add: climb_right.simps [of _ a] child_simps)
    then show ?thesis using Cons.IH [OF n(7)] n(2) False by (simp add: climb_next_def f)
  qed
qed

lemma rb_increment_at:
  assumes at: "rb_at t T" and split: "inord T = xs @ (a, v) # ys"
  shows "rb_increment a (rt_heap t) = Some (first_of (rt_header t) ys)"
proof -
  let ?h = "rt_heap t" and ?hdr = "rt_header t"
  obtain k c l r where k: "focus ?h ?hdr k (Nd a c v l r)" "inord r @ after_hole k = ys"
    using position [OF at split] by metis
  have ta: "tree_at ?h (up_ptr ?hdr k) (Nd a c v l r)" using k(1) by (simp add: focus_def)
  note t = tree_at_reads [OF ta]
  show ?thesis
  proof (cases "r = Lf")
    case True
    then have "climb_next a (up_ptr ?hdr k) ?h = Some (first_of ?hdr ys)" using climb_next_ok [OF k(1)] t(1) k(2) by auto
    then show ?thesis using t(3,5) True by (simp add: rb_increment_def climb_next_def)
  next
    case False
    then have "ptr r \<noteq> 0" "inord r \<noteq> []" using ptr_zero [OF t(8)] by (auto, cases r, auto)
    then show ?thesis using rb_minimum_ok [OF t(8) False] t(5) k(2) by (auto simp: rb_increment_def first_of_def)
  qed
qed


lemma rb_decrement_first:
  assumes "rb_at t T" "T \<noteq> Lf"
  shows "rb_decrement (rt_header t) (rt_heap t) = Some (fst (last (inord T)))"
proof -
  obtain a c v l r where T: "T = Nd a c v l r" using assms(2) by (cases T) auto
  have at: "focus (rt_heap t) (rt_header t) [] T" "ends (rt_heap t) (rt_header t) (inord T)"
    using assms(1) by (simp_all add: rb_at_defs)
  obtain n where n: "rt_heap t (rt_header t) = Some n" "rb_color n = rb_red" "rb_right n = fst (last (inord T))"
    using at(2) by (auto simp: ends_def T split: option.splits)
  have "rb_parent n = a" "rt_header t \<noteq> 0" using at(1) n by (simp_all add: focus_def T)
  moreover have "rd rb_parent a (rt_heap t) = Some (rt_header t)" using focus_parent [OF at(1)] at(1) by (simp add: T focus_def tree_at.simps(2))
  ultimately show ?thesis using n by (simp add: rb_decrement_def rd_node)
qed

section \<open>Reading\<close>

lemma rb_at_value:
  assumes "rb_at t T" "(a, v) \<in> set (inord T)"
  shows "rd rb_value a (rt_heap t) = Some v" "a \<noteq> rt_header t"
proof -
  obtain k c l r where "focus (rt_heap t) (rt_header t) k (Nd a c v l r)"
    using focus_at [of "rt_heap t" "rt_header t" "[]" T a v] assms by (auto simp: rb_at_defs)
  then show "rd rb_value a (rt_heap t) = Some v" "a \<noteq> rt_header t"
    using focus_disjoint(3) by (auto simp: focus_def tree_at.simps(2) rd_node)
qed

lemma rb_at_header:
  assumes "rb_at t T"
  shows "rb_root t = Some (ptr T)" "rb_begin t = Some (first_of (rt_header t) (inord T))"
proof -
  obtain n where "rt_heap t (rt_header t) = Some n" "rb_parent n = ptr T" "rt_header t \<noteq> 0"
    "rb_left n = (if inord T = [] then rt_header t else fst (hd (inord T)))"
    using assms by (auto simp: rb_at_defs focus_def ends_def split: option.splits)
  then show "rb_root t = Some (ptr T)" "rb_begin t = Some (first_of (rt_header t) (inord T))"
    by (simp_all add: rb_root_def rb_begin_def rd_node first_of_def)
qed

lemma rb_distance_at:
  "rb_at t T \<Longrightarrow> inord T = xs @ ys @ zs \<Longrightarrow>
   rb_distance (first_of (rt_header t) (ys @ zs)) (first_of (rt_header t) zs) (rt_heap t) = Some (length ys)"
proof (induction ys arbitrary: xs)
  case (Cons y ys)
  obtain a v where y: "y = (a, v)" by (cases y)
  have "a \<noteq> first_of (rt_header t) zs"
  proof (cases zs)
    case Nil
    then show ?thesis using rb_at_value(2) [OF Cons.prems(1), of a v] Cons.prems(2) y by simp
  next
    case (Cons z zs')
    have "distinct (map fst (inord T))" using Cons.prems(1) focus_distinct unfolding rb_at_defs by blast
    then show ?thesis using Cons.prems(2) y Cons by auto
  qed
  moreover have "rb_increment a (rt_heap t) = Some (first_of (rt_header t) (ys @ zs))"
    using rb_increment_at [OF Cons.prems(1), of xs a v "ys @ zs"] Cons.prems(2) y by simp
  moreover have "rb_distance (first_of (rt_header t) (ys @ zs)) (first_of (rt_header t) zs) (rt_heap t) = Some (length ys)"
    using Cons.IH [OF Cons.prems(1), of "xs @ [y]"] Cons.prems(2) by simp
  ultimately show ?case by (simp add: y rb_distance.simps [of a])
qed (simp add: rb_distance.simps)

abbreviation below_key :: "('v \<Rightarrow> 'k::linorder) \<Rightarrow> 'k \<Rightarrow> base_ptr \<times> 'v \<Rightarrow> bool" where
  "below_key key q x \<equiv> key (snd x) < q"

lemma rb_lower_bound_ok:
  "tree_at h p t \<Longrightarrow> in_order key (inord t) \<Longrightarrow>
   rb_lower_bound key (ptr t) y q h = Some (first_of y (dropWhile (below_key key q) (inord t)))"
proof (induction t arbitrary: p y)
  case (Nd a c v l r)
  note t = tree_at_reads [OF Nd.prems(1)]
  have o: "in_order key (inord l)" "in_order key (inord r)" "\<And>x. x \<in> set (inord l) \<Longrightarrow> key (snd x) \<le> key v"
    using Nd.prems(2) by auto
  show ?case
  proof (cases "key v < q")
    case True
    then have "\<And>x. x \<in> set (inord l) \<Longrightarrow> below_key key q x" using o(3) by force
    then show ?thesis using t(1,5,6) Nd.IH(2) [OF t(8) o(2)] True by (simp add: rb_lower_bound.simps [of key a] dropWhile_append2)
  next
    case False
    then show ?thesis using t(1,4,6) Nd.IH(1) [OF t(7) o(1)] by (simp add: rb_lower_bound.simps [of key a] dropWhile_append3)
  qed
qed (simp add: rb_lower_bound.simps)

lemma rb_upper_bound_ok:
  "tree_at h p t \<Longrightarrow> in_order key (inord t) \<Longrightarrow>
   rb_upper_bound key (ptr t) y q h = Some (first_of y (dropWhile (upto_key key q) (inord t)))"
proof (induction t arbitrary: p y)
  case (Nd a c v l r)
  note t = tree_at_reads [OF Nd.prems(1)]
  have o: "in_order key (inord l)" "in_order key (inord r)" "\<And>x. x \<in> set (inord l) \<Longrightarrow> key (snd x) \<le> key v"
    using Nd.prems(2) by auto
  show ?case
  proof (cases "q < key v")
    case False
    then have "\<And>x. x \<in> set (inord l) \<Longrightarrow> upto_key key q x" "key v \<le> q" using o(3) by force+
    then show ?thesis using t(1,5,6) Nd.IH(2) [OF t(8) o(2)] False by (simp add: rb_upper_bound.simps [of key a] dropWhile_append2)
  next
    case True
    then show ?thesis using t(1,4,6) Nd.IH(1) [OF t(7) o(1)] by (simp add: rb_upper_bound.simps [of key a] dropWhile_append3)
  qed
qed (simp add: rb_upper_bound.simps)

lemma equal_range_loop_ok:
  "tree_at h p t \<Longrightarrow> in_order key (inord t) \<Longrightarrow>
   equal_range_loop key (ptr t) y q h =
     Some (first_of y (dropWhile (below_key key q) (inord t)), first_of y (dropWhile (upto_key key q) (inord t)))"
proof (induction t arbitrary: p y)
  case (Nd a c v l r)
  note t = tree_at_reads [OF Nd.prems(1)]
  have o: "in_order key (inord l)" "in_order key (inord r)" "\<And>x. x \<in> set (inord l) \<Longrightarrow> key (snd x) \<le> key v"
    using Nd.prems(2) by auto
  consider "q < key v" | "key v < q" | "key v = q" by fastforce
  then show ?case
  proof cases
    case 1
    then have "\<not> key v < q" by simp
    then show ?thesis using t(1,4,6) Nd.IH(1) [OF t(7) o(1)] 1 by (simp add: equal_range_loop.simps [of key a] dropWhile_append3)
  next
    case 2
    then have "\<And>x. x \<in> set (inord l) \<Longrightarrow> below_key key q x" "\<And>x. x \<in> set (inord l) \<Longrightarrow> upto_key key q x" "\<not> q < key v" "key v \<le> q"
      using o(3) by force+
    then show ?thesis using t(1,5,6) Nd.IH(2) [OF t(8) o(2)] 2 by (simp add: equal_range_loop.simps [of key a] dropWhile_append2)
  next
    case 3
    then have "\<And>x. x \<in> set (inord l) \<Longrightarrow> upto_key key q x" using o(3) by force
    then show ?thesis
      using t(1,4,5,6) rb_lower_bound_ok [OF t(7) o(1)] rb_upper_bound_ok [OF t(8) o(2)] 3
      by (simp add: equal_range_loop.simps [of key a] dropWhile_append2 dropWhile_append3)
  qed
qed (simp add: equal_range_loop.simps)

end
