(* ===== verification/My_Rb_Spec.thy ===== *)
theory My_Rb_Spec
  imports My_Rb_Iter
begin

text \<open>
  The red-black tree as a container: the operations refine a list of values in the order of their keys,
  and the height of the tree is logarithmic in their number.
\<close>

section \<open>The specification\<close>

definition ins_after :: "('v \<Rightarrow> 'k::linorder) \<Rightarrow> 'v \<Rightarrow> 'v list \<Rightarrow> 'v list" where
  "ins_after key v ws = takeWhile (\<lambda>w. key w \<le> key v) ws @ v # dropWhile (\<lambda>w. key w \<le> key v) ws"

definition ins_unique :: "('v \<Rightarrow> 'k::linorder) \<Rightarrow> 'v \<Rightarrow> 'v list \<Rightarrow> ('v \<times> bool) \<times> 'v list" where
  "ins_unique key v ws = (case find (\<lambda>w. key w = key v) (rev ws) of
     Some w \<Rightarrow> ((w, False), ws) | None \<Rightarrow> ((v, True), ins_after key v ws))"

definition rb_rel :: "('v \<Rightarrow> 'k::linorder) \<Rightarrow> 'v my_rb_tree \<Rightarrow> 'v list \<Rightarrow> bool" where
  "rb_rel key t ws \<longleftrightarrow> sorted (map key ws) \<and> (\<exists>T. rb_at t T \<and> map snd (inord T) = ws)"

lemma rb_relE:
  assumes "rb_rel key t ws"
  obtains T where "rb_at t T" "map snd (inord T) = ws" "in_order key (inord T)" "tree_at (rt_heap t) (rt_header t) T"
proof -
  obtain T where T: "rb_at t T" "map snd (inord T) = ws" "sorted (map key ws)" using assms by (auto simp: rb_rel_def)
  moreover have "map key (map snd (inord T)) = map (\<lambda>x. key (snd x)) (inord T)" by simp
  ultimately have "in_order key (inord T)" unfolding in_order_def by metis
  moreover have "tree_at (rt_heap t) (rt_header t) T" using T(1) by (simp add: rb_at_defs focus_def)
  ultimately show thesis using that T by blast
qed

lemma sorted_ins_after: "sorted (map key ws) \<Longrightarrow> sorted (map key (ins_after key v ws))"
proof (induction ws)
  case (Cons w ws)
  then show ?case by (auto simp: ins_after_def dest: set_takeWhileD set_dropWhileD)
qed (simp add: ins_after_def)

lemma map_snd_while:
  "map snd (takeWhile (upto_key key q) xs) = takeWhile (\<lambda>w. key w \<le> q) (map snd xs)"
  "map snd (dropWhile (upto_key key q) xs) = dropWhile (\<lambda>w. key w \<le> q) (map snd xs)"
  by (simp_all add: takeWhile_map dropWhile_map comp_def)

lemma in_order_above: "in_order key xs \<Longrightarrow> x \<in> set (dropWhile (upto_key key q) xs) \<Longrightarrow> q < key (snd x)"
proof (induction xs)
  case (Cons y xs)
  then show ?case by (cases "key (snd y) \<le> q") force+
qed simp

section \<open>Insertion\<close>

text \<open>Both insertions put the new node after the nodes whose key is not greater.\<close>

lemma insert_at_hole:
  assumes "rb_at t T" "in_order key (inord T)" "map snd (inord T) = ws" and k: "k = hole key (key v) [] T"
  obtains z t' where "rb_insert key 0 (up_ptr (rt_header t) k) v t = Some (z, t')" "rb_rel key t' (ins_after key v ws)"
    "rd rb_value z (rt_heap t') = Some v"
proof -
  let ?h = "rt_heap t" and ?hdr = "rt_header t" and ?q = "key v"
  have T: "focus ?h ?hdr [] T" "invh T" "invc T" "col T = rb_black" using assms(1) by (simp_all add: rb_at_defs)
  have f: "focus ?h ?hdr k Lf" "ctx_ok k 0"
    using hole_focus [OF T(1)] hole_ok [of "[]" T key ?q] T(2-4) by (simp_all add: k)
  have s: "before_hole k = takeWhile (upto_key key ?q) (inord T)" "after_hole k = dropWhile (upto_key key ?q) (inord T)"
    using hole_split [OF assms(2), of ?q "[]"] by (simp_all add: k)
  have side: "sd \<longleftrightarrow> key v < key w" if kk: "k = Fr sd a c w l # k2" for sd a c w l k2
  proof (cases sd)
    case True
    then have "(a, w) \<in> set (after_hole k)" by (simp add: kk)
    then show ?thesis using in_order_above [OF assms(2)] True by (auto simp: s(2))
  next
    case False
    then have "(a, w) \<in> set (before_hole k)" by (simp add: kk)
    then show ?thesis using False by (auto simp: s(1) dest: set_takeWhileD)
  qed
  obtain t' T' where t': "rb_insert key 0 (up_ptr ?hdr k) v t = Some (rt_fresh t, t')" "rb_at t' T'"
    "inord T' = before_hole k @ (rt_fresh t, v) # after_hole k"
  proof (rule rb_insert_ok [OF assms(1) f, of key v])
    show "before_hole k @ after_hole k = inord T" by (simp add: s)
  qed (use side in blast)+
  have "map snd (inord T') = ins_after key v ws"
    by (simp add: t'(3) s ins_after_def assms(3) map_snd_while flip: takeWhile_map dropWhile_map)
  moreover have "sorted (map key ws)" using assms(2) by (simp add: in_order_def comp_def flip: assms(3))
  ultimately have "rb_rel key t' (ins_after key v ws)" using t'(2) sorted_ins_after by (auto simp: rb_rel_def)
  moreover have "rd rb_value (rt_fresh t) (rt_heap t') = Some v" using rb_at_value(1) [OF t'(2)] by (simp add: t'(3))
  ultimately show thesis using that t'(1) by blast
qed

lemma rb_insert_equal_ok:
  assumes "rb_rel key t ws"
  shows "\<exists>z t'. rb_insert_equal key v t = Some ((z, True), t') \<and> rb_rel key t' (ins_after key v ws) \<and>
    rd rb_value z (rt_heap t') = Some v"
proof -
  obtain T where T: "rb_at t T" "map snd (inord T) = ws" "in_order key (inord T)" "tree_at (rt_heap t) (rt_header t) T"
    using rb_relE [OF assms] .
  obtain z t' where z: "rb_insert key 0 (up_ptr (rt_header t) (hole key (key v) [] T)) v t = Some (z, t')"
    "rb_rel key t' (ins_after key v ws)" "rd rb_value z (rt_heap t') = Some v"
    using insert_at_hole [OF T(1,3,2) refl] .
  then show ?thesis
    using insert_equal_loop_hole [OF T(4), of key "rt_header t" "[]" "key v"] rb_at_header(1) [OF T(1)]
    by (simp add: rb_insert_equal_def)
qed

lemma ins_unique_new: "\<forall>w \<in> set ws. key w \<noteq> key v \<Longrightarrow> ins_unique key v ws = ((v, True), ins_after key v ws)"
  by (simp add: ins_unique_def find_None_iff [THEN iffD2])

lemma ins_unique_old:
  assumes "ws = us @ w # rs" "key w = key v" "\<forall>w \<in> set rs. key w \<noteq> key v"
  shows "ins_unique key v ws = ((w, False), ws)"
proof -
  have "find (\<lambda>w. key w = key v) (rev rs @ w # rev us) = Some w"
    using assms(2,3) by (induction rs rule: rev_induct) auto
  then show ?thesis using assms(1) by (simp add: ins_unique_def)
qed

lemma rb_insert_unique_ok:
  assumes "rb_rel key t ws"
  shows "\<exists>z b w t'. rb_insert_unique key v t = Some ((z, b), t') \<and> rd rb_value z (rt_heap t') = Some w \<and>
    fst (ins_unique key v ws) = (w, b) \<and> rb_rel key t' (snd (ins_unique key v ws))"
proof -
  obtain T where T: "rb_at t T" "map snd (inord T) = ws" "in_order key (inord T)" "tree_at (rt_heap t) (rt_header t) T"
    using rb_relE [OF assms] .
  let ?h = "rt_heap t" and ?hdr = "rt_header t" and ?q = "key v"
  define k where "k = hole key ?q [] T"
  define A where "A = takeWhile (upto_key key ?q) (inord T)"
  define B where "B = dropWhile (upto_key key ?q) (inord T)"
  have AB: "inord T = A @ B" "before_hole k = A" "after_hole k = B" "\<forall>x \<in> set A. key (snd x) \<le> ?q" "\<forall>x \<in> set B. ?q < key (snd x)"
    using hole_split [OF T(3), of ?q "[]"] in_order_above [OF T(3)] by (auto simp: A_def B_def k_def dest: set_takeWhileD)
  have o: "in_order key A" using T(3) by (simp add: AB(1))
  have loop: "insert_unique_loop key (ptr T) ?hdr True ?q ?h = Some (up_ptr ?hdr k, top_side k)"
    using insert_unique_loop_hole [OF T(4), of key ?hdr "[]" ?q] by (simp add: k_def)
  note hd = rb_at_header [OF T(1)]
  have f: "focus ?h ?hdr k Lf" unfolding k_def using T(1) by (intro hole_focus) (simp add: rb_at_defs)
  obtain z t' where z: "rb_insert key 0 (up_ptr ?hdr k) v t = Some (z, t')" "rb_rel key t' (ins_after key v ws)"
    "rd rb_value z (rt_heap t') = Some v" using insert_at_hole [OF T(1,3,2) k_def] .
  show ?thesis
  proof (cases "A = []")
    case True
    have e: "inord T = after_hole k" "before_hole k = []" using AB(1-3) True by simp_all
    have "top_side k \<and> up_ptr ?hdr k = first_of ?hdr (inord T)"
    proof (cases k)
      case (Cons fr k2)
      then obtain sd a c w s where "k = Fr sd a c w s # k2" by (cases fr) simp
      then show ?thesis using e by (cases sd) simp_all
    qed (use e in simp)
    then have "rb_insert_unique key v t = Some ((z, True), t')" using loop hd z(1) by (simp add: rb_insert_unique_def)
    moreover have "\<forall>w \<in> set ws. key w \<noteq> ?q" using AB(1,5) True by (auto simp flip: T(2))
    ultimately show ?thesis using ins_unique_new z(2,3) by (metis fst_conv snd_conv)
  next
    case False
    then obtain A' j w where A: "A = A' @ [(j, w)]" by (metis rev_exhaust surj_pair)
    have k0: "k \<noteq> []" using AB(2) False by auto
    then obtain sd a c u s k2 where k: "k = Fr sd a c u s # k2" by (metis neq_Nil_conv frame.exhaust)
    have pos: "inord T = A' @ (j, w) # B" by (simp add: AB(1) A)
    have ne: "\<not> (sd \<and> a = first_of ?hdr (inord T))"
    proof
      assume "sd \<and> a = first_of ?hdr (inord T)"
      moreover from this have "B = (a, u) # inord s @ after_hole k2" using AB(3) by (simp add: k)
      moreover have "distinct (map fst (inord T))" using T(1) focus_distinct unfolding rb_at_defs by blast
      ultimately show False using AB(1) False by (cases A) auto
    qed
    have dec: "(if sd then rb_decrement a ?h else Some a) = Some j"
    proof (cases sd)
      case True
      then have "inord T = A @ (a, u) # (inord s @ after_hole k2)" using AB(1,3) by (simp add: k)
      from rb_decrement_at [OF T(1) this False] show ?thesis using True by (simp add: A)
    next
      case False
      then have "A = before_hole k2 @ inord s @ [(a, u)]" using AB(2) by (simp add: k)
      then show ?thesis using False A by (metis append.assoc append1_eq_conv fst_conv)
    qed
    have val: "rd rb_value j ?h = Some w" using rb_at_value(1) [OF T(1)] pos by simp
    have unf: "rb_insert_unique key v t =
        (if key w < ?q then Some ((z, True), t') else Some ((j, False), t))"
      using loop hd ne dec val z(1) by (auto simp: rb_insert_unique_def k)
    have ws: "ws = map snd A' @ w # map snd B" by (simp add: pos flip: T(2))
    have B: "\<forall>w \<in> set (map snd B). key w \<noteq> ?q" using AB(5) by auto
    show ?thesis
    proof (cases "key w < ?q")
      case True
      have "\<forall>x \<in> set A'. key (snd x) \<le> key w" using o by (simp add: A)
      then have "\<forall>w \<in> set ws. key w \<noteq> ?q" using True B by (fastforce simp: ws)
      then show ?thesis using unf True ins_unique_new z(2,3) by (metis fst_conv snd_conv)
    next
      case F: False
      then have "key w = ?q" using AB(4) by (simp add: A)
      from ins_unique_old [where key = key, OF ws this B] show ?thesis using unf F val assms by auto
    qed
  qed
qed

section \<open>Searches\<close>

lemma rb_lower_at:
  assumes "rb_at t T" "in_order key (inord T)"
  shows "rb_equal_range key q t = Some (first_of (rt_header t) (dropWhile (below_key key q) (inord T)),
      first_of (rt_header t) (dropWhile (upto_key key q) (inord T)))"
    "rb_lower_bound key (ptr T) (rt_header t) q (rt_heap t) = Some (first_of (rt_header t) (dropWhile (below_key key q) (inord T)))"
proof -
  have "tree_at (rt_heap t) (rt_header t) T" using assms(1) by (simp add: rb_at_defs focus_def)
  note l = equal_range_loop_ok [OF this assms(2)] rb_lower_bound_ok [OF this assms(2)]
  show "rb_equal_range key q t = Some (first_of (rt_header t) (dropWhile (below_key key q) (inord T)),
      first_of (rt_header t) (dropWhile (upto_key key q) (inord T)))"
    using l(1) rb_at_header(1) [OF assms(1)] by (simp add: rb_equal_range_def)
  show "rb_lower_bound key (ptr T) (rt_header t) q (rt_heap t) = Some (first_of (rt_header t) (dropWhile (below_key key q) (inord T)))"
    using l(2) .
qed

lemma in_order_middle:
  "in_order key xs \<Longrightarrow> dropWhile (below_key key q) xs = filter (\<lambda>x. key (snd x) = q) xs @ dropWhile (upto_key key q) xs"
proof (induction xs)
  case (Cons x xs)
  consider "key (snd x) < q" | "key (snd x) = q" | "q < key (snd x)" by fastforce
  then show ?case
  proof cases
    case 2
    then have "dropWhile (below_key key q) xs = xs" using Cons.prems by (cases xs) auto
    then show ?thesis using 2 Cons by auto
  next
    case 3
    then have "filter (\<lambda>x. key (snd x) = q) xs = []" using Cons.prems by (auto simp: filter_empty_conv)
    moreover have "\<not> key (snd x) \<le> q" "key (snd x) \<noteq> q" "\<not> key (snd x) < q" using 3 by auto
    ultimately show ?thesis by simp
  qed (use Cons in auto)
qed simp

lemma rb_count_ok:
  assumes "rb_rel key t ws"
  shows "rb_count key q t = Some (length (filter (\<lambda>w. key w = q) ws))"
proof -
  obtain T where T: "rb_at t T" "map snd (inord T) = ws" "in_order key (inord T)" using rb_relE [OF assms] by metis
  let ?M = "filter (\<lambda>x. key (snd x) = q) (inord T)" and ?C = "dropWhile (upto_key key q) (inord T)"
  have m: "dropWhile (below_key key q) (inord T) = ?M @ ?C" using in_order_middle [OF T(3)] .
  then have "inord T = takeWhile (below_key key q) (inord T) @ ?M @ ?C" by (metis takeWhile_dropWhile_id)
  from rb_distance_at [OF T(1) this] rb_lower_at(1) [OF T(1,3), of q] m
  have "rb_count key q t = Some (length ?M)" by (simp add: rb_count_def del: first_of_simps)
  also have "length ?M = length (filter (\<lambda>w. key w = q) ws)" by (simp add: filter_map comp_def flip: T(2))
  finally show ?thesis .
qed

text \<open>The value that an iterator of the tree stands for; \<open>None\<close> for the end.\<close>

definition rb_deref :: "base_ptr \<Rightarrow> 'v my_rb_tree \<Rightarrow> 'v option option" where
  "rb_deref a t = (if a = rb_end t then Some None else map_option Some (rd rb_value a (rt_heap t)))"

lemma rb_deref_first:
  assumes "rb_at t T" "inord T = xs @ ys"
  shows "rb_deref (first_of (rt_header t) ys) t = Some (case ys of [] \<Rightarrow> None | x # _ \<Rightarrow> Some (snd x))"
proof (cases ys)
  case (Cons y ys')
  then have "y \<in> set (inord T)" using assms(2) by simp
  then show ?thesis using rb_at_value [OF assms(1), of "fst y" "snd y"] Cons by (simp add: rb_deref_def rb_end_def)
qed (simp add: rb_deref_def rb_end_def)

lemma rb_find_ok:
  assumes "rb_rel key t ws"
  shows "\<exists>j. rb_find key q t = Some j \<and> rb_deref j t = Some (find (\<lambda>w. key w = q) ws)"
proof -
  obtain T where T: "rb_at t T" "map snd (inord T) = ws" "in_order key (inord T)" using rb_relE [OF assms] by metis
  let ?L = "dropWhile (below_key key q) (inord T)" and ?A = "takeWhile (below_key key q) (inord T)" and ?hdr = "rt_header t"
  have split: "inord T = ?A @ ?L" by simp
  have find: "find (\<lambda>w. key w = q) ws = (case ?L of [] \<Rightarrow> None | x # _ \<Rightarrow> if q < key (snd x) then None else Some (snd x))"
  proof -
    have A: "\<forall>w \<in> set (map snd ?A). key w \<noteq> q" by (auto dest: set_takeWhileD)
    have "find P (us @ vs) = find P vs" if "\<forall>u \<in> set us. \<not> P u" for P :: "'a \<Rightarrow> bool" and us vs using that by (induction us) auto
    from this [OF A, of "map snd ?L"] have "find (\<lambda>w. key w = q) ws = find (\<lambda>w. key w = q) (map snd ?L)"
      using T(2) by (metis map_append takeWhile_dropWhile_id)
    also have "\<dots> = (case ?L of [] \<Rightarrow> None | x # _ \<Rightarrow> if q < key (snd x) then None else Some (snd x))"
    proof (cases ?L)
      case (Cons x L)
      then have "\<not> key (snd x) < q" using hd_dropWhile [of "below_key key q" "inord T"] by auto
      moreover have "\<forall>y \<in> set L. key (snd x) \<le> key (snd y)" using T(3) split Cons in_order_simps(2,3) by metis
      ultimately have "find (\<lambda>w. key w = q) (map snd (x # L)) = (if q < key (snd x) then None else Some (snd x))"
        by (fastforce simp: find_None_iff)
      then show ?thesis using Cons by simp
    next
      case Nil
      show ?thesis unfolding Nil by simp
    qed
    finally show ?thesis .
  qed
  note d = rb_deref_first [OF T(1) split]
  show ?thesis
  proof (cases ?L)
    case Nil
    show ?thesis using rb_lower_at(2) [OF T(1,3), of q] rb_at_header(1) [OF T(1)] find unfolding Nil
      by (simp add: rb_find_def rb_end_def rb_deref_def)
  next
    case (Cons x L)
    then have "x \<in> set (inord T)" using split by (metis in_set_conv_decomp append.assoc append_Cons)
    then have x: "rd rb_value (fst x) (rt_heap t) = Some (snd x)" "fst x \<noteq> ?hdr" using rb_at_value [OF T(1), of "fst x" "snd x"] by simp_all
    then show ?thesis using rb_lower_at(2) [OF T(1,3), of q] rb_at_header(1) [OF T(1)] find Cons
      by (simp add: rb_find_def rb_end_def rb_deref_def)
  qed
qed

section \<open>Traversal\<close>

text \<open>\<open>for (it = begin(); it != end(); ++it)\<close> over the values.\<close>

partial_function (option) rb_values_from :: "base_ptr \<Rightarrow> 'v my_rb_tree \<Rightarrow> 'v list option" where
  "rb_values_from a t =
     (if a = rb_end t then Some []
      else do { v \<leftarrow> rd rb_value a (rt_heap t); nxt \<leftarrow> rb_increment a (rt_heap t); vs \<leftarrow> rb_values_from nxt t; Some (v # vs) })"

definition rb_values :: "'v my_rb_tree \<Rightarrow> 'v list option" where
  "rb_values t = do { b \<leftarrow> rb_begin t; rb_values_from b t }"

lemma rb_values_ok:
  assumes "rb_rel key t ws"
  shows "rb_values t = Some ws"
proof -
  obtain T where T: "rb_at t T" "map snd (inord T) = ws" using rb_relE [OF assms] by metis
  have "rb_values_from (first_of (rt_header t) ys) t = Some (map snd ys)" if "inord T = xs @ ys" for xs ys
    using that
  proof (induction ys arbitrary: xs)
    case (Cons y ys)
    obtain a v where y: "y = (a, v)" by (cases y)
    have "rb_increment a (rt_heap t) = Some (first_of (rt_header t) ys)"
      using rb_increment_at [OF T(1), of xs a v ys] Cons.prems y by simp
    moreover have "rd rb_value a (rt_heap t) = Some v" "a \<noteq> rt_header t" using rb_at_value [OF T(1), of a v] Cons.prems y by simp_all
    moreover have "rb_values_from (first_of (rt_header t) ys) t = Some (map snd ys)" using Cons.IH [of "xs @ [y]"] Cons.prems by simp
    ultimately show ?case by (simp add: y rb_values_from.simps [of a] rb_end_def)
  qed (simp add: rb_values_from.simps rb_end_def)
  from this [of "[]" "inord T"] show ?thesis using rb_at_header(2) [OF T(1)] T(2) by (simp add: rb_values_def)
qed

declare rb_values_from.simps [code]

section \<open>Clearing\<close>

lemma erase_all_ok:
  assumes "tree_at h p t" "distinct (map fst (inord t))"
  shows "\<exists>h'. erase_all (ptr t) h = Some h' \<and> (\<forall>a. h' a = (if a \<in> addrs t then None else h a))"
  using assms
proof (induction t arbitrary: h p)
  case (Nd a c v l r)
  note t = tree_at_reads [OF Nd.prems(1)]
  have d: "distinct (map fst (inord l))" "distinct (map fst (inord r))" "a \<notin> addrs l" "a \<notin> addrs r" "addrs l \<inter> addrs r = {}"
    using Nd.prems(2) by (auto simp: addrs_def)
  obtain h1 where h1: "erase_all (ptr r) h = Some h1" "\<forall>b. h1 b = (if b \<in> addrs r then None else h b)"
    using Nd.IH(2) [OF t(8) d(2)] by blast
  have "tree_at (h1(a := None)) a l = tree_at h a l" using h1(2) d(3-5) by (intro tree_at_cong) auto
  then obtain h2 where h2: "erase_all (ptr l) (h1(a := None)) = Some h2" "\<forall>b. h2 b = (if b \<in> addrs l then None else (h1(a := None)) b)"
    using Nd.IH(1) [OF _ d(1)] t(7) by blast
  have "h1 a = h a" using h1(2) d(4) by simp
  then have "rd rb_left a h1 = rd rb_left a h" by (simp add: rd_def)
  then have "erase_all a h = Some h2" using t(1,4,5) h1(1) h2(1) by (simp add: erase_all.simps [of a])
  moreover have "\<forall>b. h2 b = (if b \<in> addrs (Nd a c v l r) then None else h b)" using h1(2) h2(2) by auto
  ultimately show ?case by auto
qed (simp add: erase_all.simps)

lemma rb_clear_ok:
  assumes "rb_rel key t ws"
  shows "\<exists>t'. rb_clear t = Some t' \<and> rb_rel key t' [] \<and> dom (rt_heap t') = {rt_header t}"
proof -
  obtain T where T: "rb_at t T" using rb_relE [OF assms] by metis
  let ?h = "rt_heap t" and ?hdr = "rt_header t"
  have f: "focus ?h ?hdr [] T" "dom ?h = insert ?hdr (addrs T)" "?hdr < rt_fresh t" "ends ?h ?hdr (inord T)"
    using T by (auto simp: rb_at_defs)
  obtain n where n: "?h ?hdr = Some n" "rb_color n = rb_red" using f(4) by (auto simp: ends_def split: option.splits)
  have "tree_at ?h ?hdr T" "distinct (map fst (inord T))" using f(1) by (simp_all add: focus_def)
  from erase_all_ok [OF this] obtain h1 where
    h1: "erase_all (ptr T) ?h = Some h1" "\<forall>a. h1 a = (if a \<in> addrs T then None else ?h a)" by blast
  have "h1 = [?hdr \<mapsto> n]"
  proof
    show "h1 a = [?hdr \<mapsto> n] a" for a
      using h1(2) n(1) f(2) focus_disjoint(3) [OF f(1)] by (cases "a = ?hdr") (auto simp: domIff)
  qed
  moreover have "?hdr \<noteq> 0" using focus_disjoint(1) [OF f(1)] .
  ultimately have c: "rb_clear t = Some (t\<lparr>rt_heap := [?hdr \<mapsto> n\<lparr>rb_parent := 0, rb_left := ?hdr, rb_right := ?hdr\<rparr>], rt_node_count := 0\<rparr>)"
    using h1(1) rb_at_header(1) [OF T] by (simp add: rb_clear_def set_parent_def set_left_def set_right_def wr_def fun_upd_idem)
  show ?thesis unfolding c
    by (intro exI conjI, rule refl)
      (use n(2) f(3) \<open>?hdr \<noteq> 0\<close> in \<open>auto simp: rb_rel_def rb_at_defs focus_def ends_def intro!: exI [of _ Lf]\<close>)
qed

lemma rb_init_ok: "rb_rel key (rb_init junk) []"
  by (auto simp: rb_rel_def rb_at_defs rb_init_def focus_def ends_def intro!: exI [of _ Lf])

section \<open>Balance\<close>

fun rb_height :: "'v rbt \<Rightarrow> nat" where
  "rb_height Lf = 0"
| "rb_height (Nd a c v l r) = Suc (max (rb_height l) (rb_height r))"

lemma bheight_size: "invh t \<Longrightarrow> 2 ^ bheight t \<le> length (inord t) + 1"
proof (induction t)
  case (Nd a c v l r)
  then have "2 ^ bheight l \<le> length (inord l) + 1" "2 ^ bheight l \<le> length (inord r) + 1" by simp_all
  then show ?case by (cases c) simp_all
qed simp

lemma rb_height_bheight: "invc t \<Longrightarrow> invh t \<Longrightarrow> rb_height t \<le> 2 * bheight t + (if col t = rb_red then 1 else 0)"
  by (induction t) (auto split: if_splits)

lemma rb_height_log:
  assumes "rb_at t T"
  shows "2 ^ (rb_height T div 2) \<le> rt_node_count t + 1"
proof -
  have "rb_height T div 2 \<le> bheight T" "invh T" "rt_node_count t = length (inord T)"
    using assms rb_height_bheight [of T] by (auto simp: rb_at_defs)
  then show ?thesis using bheight_size [of T] by (metis order.trans one_le_numeral power_increasing)
qed

section \<open>Runs\<close>

datatype ('k, 'v) rb_op = TInsertUnique 'v | TInsertEqual 'v | TFind 'k | TCount 'k | TSize | TList | TClear

datatype 'v rb_out = TInserted 'v bool | TFound "'v option" | TNumber nat | TValues "'v list" | TDone

definition inserted :: "((base_ptr \<times> bool) \<times> 'v my_rb_tree) option \<Rightarrow> 'v my_rb_tree \<Rightarrow> 'v rb_out option \<times> 'v my_rb_tree" where
  "inserted r t = (case r of None \<Rightarrow> (None, t)
     | Some ((z, b), t') \<Rightarrow> (map_option (\<lambda>w. TInserted w b) (rd rb_value z (rt_heap t')), t'))"

fun rb_exec :: "('v \<Rightarrow> 'k::linorder) \<Rightarrow> ('k, 'v) rb_op \<Rightarrow> 'v my_rb_tree \<Rightarrow> 'v rb_out option \<times> 'v my_rb_tree" where
  "rb_exec key (TInsertUnique v) t = inserted (rb_insert_unique key v t) t"
| "rb_exec key (TInsertEqual v) t = inserted (rb_insert_equal key v t) t"
| "rb_exec key (TFind k) t = (map_option TFound (do { j \<leftarrow> rb_find key k t; rb_deref j t }), t)"
| "rb_exec key (TCount k) t = (map_option TNumber (rb_count key k t), t)"
| "rb_exec key TSize t = (Some (TNumber (rt_node_count t)), t)"
| "rb_exec key TList t = (map_option TValues (rb_values t), t)"
| "rb_exec key TClear t = (case rb_clear t of None \<Rightarrow> (None, t) | Some t' \<Rightarrow> (Some TDone, t'))"

fun rb_spec :: "('v \<Rightarrow> 'k::linorder) \<Rightarrow> ('k, 'v) rb_op \<Rightarrow> 'v list \<Rightarrow> 'v rb_out option \<times> 'v list" where
  "rb_spec key (TInsertUnique v) ws = (let ((w, b), ws') = ins_unique key v ws in (Some (TInserted w b), ws'))"
| "rb_spec key (TInsertEqual v) ws = (Some (TInserted v True), ins_after key v ws)"
| "rb_spec key (TFind k) ws = (Some (TFound (find (\<lambda>w. key w = k) ws)), ws)"
| "rb_spec key (TCount k) ws = (Some (TNumber (length (filter (\<lambda>w. key w = k) ws))), ws)"
| "rb_spec key TSize ws = (Some (TNumber (length ws)), ws)"
| "rb_spec key TList ws = (Some (TValues ws), ws)"
| "rb_spec key TClear ws = (Some TDone, [])"

lemma rb_step:
  assumes rel: "rb_rel key t ws"
  shows "fst (rb_exec key op t) = fst (rb_spec key op ws) \<and> rb_rel key (snd (rb_exec key op t)) (snd (rb_spec key op ws))"
proof (cases op)
  case (TInsertUnique v)
  then show ?thesis using rb_insert_unique_ok [OF rel, of v] by (auto simp: inserted_def split: prod.splits)
next
  case (TInsertEqual v)
  then show ?thesis using rb_insert_equal_ok [OF rel, of v] by (auto simp: inserted_def)
next
  case (TFind k)
  then show ?thesis using rb_find_ok [OF rel, of k] rel by auto
next
  case (TCount k)
  then show ?thesis using rb_count_ok [OF rel, of k] rel by simp
next
  case TSize
  have "rt_node_count t = length ws" using rel by (auto simp: rb_rel_def rb_at_defs)
  then show ?thesis using TSize rel by simp
next
  case TList
  then show ?thesis using rb_values_ok [OF rel] rel by simp
next
  case TClear
  then show ?thesis using rb_clear_ok [OF rel] by auto
qed

interpretation rbt: simulation "rb_exec key" "rb_spec key" "rb_rel key" for key :: "'v \<Rightarrow> 'k::linorder"
  by unfold_locales (simp_all add: rb_step)

text \<open>C34: Any sequence of insertions (\<open>insert_unique\<close> and \<open>insert_equal\<close>), \<open>find\<close>, \<open>count\<close>, \<open>size\<close>, \<open>clear\<close> and
  traversals from \<open>begin\<close> to \<open>end\<close> of a new red-black tree answers what a list of values in the order of their keys
  does: no null or freed node is read, every loop ends, an equal value goes after those already there, \<open>insert_unique\<close> of
  a key that is there returns the last such value and false, \<open>find\<close> the first one.\<close>

theorem RbTree_refinement:
  "fst (run_ops (rb_exec key) ops (rb_init junk)) = fst (run_ops (rb_spec key) ops [])"
  by (rule rbt.run_simulates [OF rb_init_ok, THEN conjunct1])

text \<open>C35: After every sequence of unique and equal insertions, searches, counts, sizes, listings and
  \<open>clear\<close> on an initialised tree (removals are not among them: the erasure of a first node can leave the
  header's first link dangling), the tree is a red-black tree with a black root, its nodes are in the order of
  their keys, the header's links are the root, the first and the last node, all other memory is free, and its height is at
  most about twice the logarithm of the number of nodes.\<close>

theorem RbTree_balanced:
  "\<exists>T. rb_at (snd (run_ops (rb_exec key) ops (rb_init junk))) T \<and> in_order key (inord T) \<and>
     2 ^ (rb_height T div 2) \<le> rt_node_count (snd (run_ops (rb_exec key) ops (rb_init junk))) + 1"
proof -
  have "rb_rel key (snd (run_ops (rb_exec key) ops (rb_init junk))) (snd (run_ops (rb_spec key) ops []))"
    by (rule rbt.run_simulates [OF rb_init_ok, THEN conjunct2])
  then show ?thesis using rb_relE rb_height_log by metis
qed

section \<open>Removal of the first node\<close>

definition rb_example :: "nat my_rb_tree option" where
  "rb_example = Some (snd (run_ops (rb_exec id) (map TInsertUnique [40, 20, 60, 10, 30, 50, 70, 15]) (rb_init 0)))"

text \<open>After the first of eight nodes is erased, \<open>begin\<close> still points to it: it has been freed.\<close>

lemma rb_erase_begin_dangling:
  "do { t \<leftarrow> rb_example; b \<leftarrow> rb_begin t; t' \<leftarrow> rb_erase b t; b' \<leftarrow> rb_begin t'; Some (b' = b \<and> rt_heap t' b' = None) } = Some True"
  by code_simp

text \<open>Erasing the range of three equal values reads the first iterator after its node was freed.\<close>

lemma rb_erase_key_dangling:
  "do { t \<leftarrow> Some (snd (run_ops (rb_exec fst) (map TInsertEqual [(2, 11), (2, 12), (2, 13), (3, 14)]) (rb_init (0 :: nat, 0 :: nat))));
     rb_erase_key fst 2 t } = None"
  by code_simp

end
