(* ===== verification/My_Rb_Erase.thy ===== *)
theory My_Rb_Erase
  imports My_Rb_Spec
begin

text \<open>
  Removal from the red-black tree: the turns of the two loops of \<open>__my_rb_tree_erase_reblance\<close> on the
  tree with a hole, splicing a node out, and the operations that erase a position and a key.
\<close>

section \<open>The turns by sides\<close>

definition step_red :: "bool \<Rightarrow> base_ptr \<Rightarrow> base_ptr \<Rightarrow> base_ptr \<Rightarrow> 'v rb_heap \<Rightarrow> 'v rb_heap option" where
  "step_red side header p w h = do { h \<leftarrow> set_color w rb_black h; h \<leftarrow> set_color p rb_red h; rotate side header p h }"

definition step_near :: "bool \<Rightarrow> base_ptr \<Rightarrow> base_ptr \<Rightarrow> base_ptr \<Rightarrow> 'v rb_heap \<Rightarrow> 'v rb_heap option" where
  "step_near side header w n h = do { h \<leftarrow> set_color n rb_black h; h \<leftarrow> set_color w rb_red h; rotate (\<not> side) header w h }"

definition step_far :: "bool \<Rightarrow> base_ptr \<Rightarrow> base_ptr \<Rightarrow> base_ptr \<Rightarrow> base_ptr \<Rightarrow> 'v rb_heap \<Rightarrow> 'v rb_heap option" where
  "step_far side header p w f h = do {
     pc \<leftarrow> rd rb_color p h; h \<leftarrow> set_color w pc h; h \<leftarrow> set_color p rb_black h; h \<leftarrow> set_color f rb_black h;
     rotate side header p h }"

definition null_black :: "bool \<Rightarrow> base_ptr \<Rightarrow> base_ptr \<Rightarrow> base_ptr \<Rightarrow> 'v rb_heap \<Rightarrow> (base_ptr option \<times> 'v rb_heap) option" where
  "null_black side header p w h = do {
     wc \<leftarrow> rd rb_color w h;
     wl \<leftarrow> rd rb_left w h;
     wr \<leftarrow> rd rb_right w h;
     if wc = rb_black \<and> wl = 0 \<and> wr = 0 then do { h \<leftarrow> set_color w rb_red h; Some (Some p, h) }
     else do {
       near \<leftarrow> rd (child side) w h;
       (w, h) \<leftarrow> (if near \<noteq> 0 then do { h \<leftarrow> step_near side header w near h; w \<leftarrow> rd (child (\<not> side)) p h; Some (w, h) }
         else Some (w, h));
       far \<leftarrow> rd (child (\<not> side)) w h;
       if far \<noteq> 0 then do { h \<leftarrow> step_far side header p w far h; Some (None, h) } else Some (Some 0, h) } }"

definition null_side :: "bool \<Rightarrow> base_ptr \<Rightarrow> base_ptr \<Rightarrow> base_ptr \<Rightarrow> 'v rb_heap \<Rightarrow> (base_ptr option \<times> 'v rb_heap) option" where
  "null_side side header p w h = do {
     wc \<leftarrow> rd rb_color w h;
     (w, h) \<leftarrow> (if wc = rb_red then do { h \<leftarrow> step_red side header p w h; w \<leftarrow> rd (child (\<not> side)) p h; Some (w, h) }
       else Some (w, h));
     null_black side header p w h }"

definition fix_black :: "bool \<Rightarrow> base_ptr \<Rightarrow> base_ptr \<Rightarrow> base_ptr \<Rightarrow> 'v rb_heap \<Rightarrow> (base_ptr \<times> 'v rb_heap) option" where
  "fix_black side header x w h = do {
     wl \<leftarrow> rd rb_left w h;
     wr \<leftarrow> rd rb_right w h;
     wlc \<leftarrow> rd rb_color wl h;
     wrc \<leftarrow> (if wlc = rb_black then rd rb_color wr h else Some rb_red);
     if wlc = rb_black \<and> wrc = rb_black then do { h \<leftarrow> set_color w rb_red h; p \<leftarrow> rd rb_parent x h; Some (p, h) }
     else do {
       near \<leftarrow> rd (child side) w h;
       far \<leftarrow> rd (child (\<not> side)) w h;
       farc \<leftarrow> rd rb_color far h;
       (w, h) \<leftarrow> (if farc = rb_black then do {
           h \<leftarrow> step_near side header w near h; p \<leftarrow> rd rb_parent x h; w \<leftarrow> rd (child (\<not> side)) p h; Some (w, h) }
         else Some (w, h));
       far \<leftarrow> rd (child (\<not> side)) w h;
       farc \<leftarrow> rd rb_color far h;
       if farc = rb_red then do {
         p \<leftarrow> rd rb_parent x h; h \<leftarrow> step_far side header p w far h; root \<leftarrow> rd rb_parent header h; Some (root, h) }
       else Some (x, h) } }"

definition fix_side :: "bool \<Rightarrow> base_ptr \<Rightarrow> base_ptr \<Rightarrow> base_ptr \<Rightarrow> 'v rb_heap \<Rightarrow> (base_ptr \<times> 'v rb_heap) option" where
  "fix_side side header x p h = do {
     w \<leftarrow> rd (child (\<not> side)) p h;
     wc \<leftarrow> rd rb_color w h;
     (w, h) \<leftarrow> (if wc = rb_red then do {
         h \<leftarrow> step_red side header p w h; p \<leftarrow> rd rb_parent x h; w \<leftarrow> rd (child (\<not> side)) p h; Some (w, h) }
       else Some (w, h));
     fix_black side header x w h }"

lemmas side_defs = step_red_def step_near_def step_far_def not_True_eq_False not_False_eq_True child_simps
  rb_rotate_left_side rb_rotate_right_side bind_assoc

lemma null_sides: "null_left = null_side True" "null_right = null_side False"
  unfolding fun_eq_iff null_left_def null_right_def null_side_def null_black_def side_defs by blast+

lemma fix_sides: "fix_left = fix_side True" "fix_right = fix_side False"
  unfolding fun_eq_iff fix_left_def fix_right_def fix_side_def fix_black_def side_defs by blast+

section \<open>The three steps on the tree\<close>

fun paint :: "bool \<Rightarrow> 'v rbt \<Rightarrow> 'v rbt" where
  "paint c Lf = Lf"
| "paint c (Nd a d v l r) = Nd a c v l r"

lemma paint_simps [simp]:
  "ptr (paint c t) = ptr t" "inord (paint c t) = inord t" "invh (paint c t) = invh t"
  "paint c (fill (Fr side a d v s) t) = fill (Fr side a c v s) t"
  by (cases t; simp add: fill.simps)+

lemma fill_not_Lf [simp]: "fill f t \<noteq> Lf"
  by (cases f) (simp add: fill.simps)

lemma set_color_tree:
  assumes "focus h hdr k t" "t \<noteq> Lf"
  shows "\<exists>h'. set_color (ptr t) c h = Some h' \<and> focus h' hdr k (paint c t) \<and> same_heap hdr h h'"
proof -
  obtain a d v l r where t: "t = fill (Fr True a d v r) l" using assms(2) by (cases t) (auto simp: fill.simps)
  show ?thesis using set_color_focus [OF assms(1) [unfolded t], of c] by (simp add: t)
qed

lemma set_color_top:
  assumes "focus h hdr (Fr side a d v s # k) t"
  shows "\<exists>h'. set_color a c h = Some h' \<and> focus h' hdr (Fr side a c v s # k) t \<and> same_heap hdr h h'"
  using set_color_focus [of h hdr k side a d v s t c] assms by (simp only: focus_up)

lemma set_color_sibling:
  assumes "focus h hdr (Fr side a d v s # k) t" "s \<noteq> Lf"
  shows "\<exists>h'. set_color (ptr s) c h = Some h' \<and> focus h' hdr (Fr side a d v (paint c s) # k) t \<and> same_heap hdr h h'"
proof -
  have "focus h hdr (Fr (\<not> side) a d v t # k) s" using assms(1) by (rule focus_sibling [THEN iffD1])
  from set_color_tree [OF this assms(2)] show ?thesis by (metis focus_sibling)
qed

lemma step_red_ok:
  assumes "focus h hdr (Fr side p c vp (fill (Fr side w d vw f) n) # k) t"
  shows "\<exists>h'. step_red side hdr p w h = Some h' \<and>
    focus h' hdr (Fr side p rb_red vp n # Fr side w rb_black vw f # k) t \<and> same_heap hdr h h'"
proof -
  obtain h1 where h1: "set_color w rb_black h = Some h1" "same_heap hdr h h1"
    "focus h1 hdr (Fr side p c vp (fill (Fr side w rb_black vw f) n) # k) t"
    using set_color_sibling [OF assms, of rb_black] by auto
  from set_color_top [OF h1(3), of rb_red] obtain h2 where h2: "set_color p rb_red h1 = Some h2" "same_heap hdr h1 h2"
    "focus h2 hdr (Fr side p rb_red vp (fill (Fr side w rb_black vw f) n) # k) t" by blast
  have "focus h2 hdr k (fill (Fr side p rb_red vp (fill (Fr side w rb_black vw f) n)) t)" using h2(3) by (simp only: focus_up)
  from rotate_focus [OF this] obtain h3 where h3: "rotate side hdr p h2 = Some h3" "same_heap hdr h2 h3"
    "focus h3 hdr k (fill (Fr side w rb_black vw f) (fill (Fr side p rb_red vp n) t))" by blast
  have "step_red side hdr p w h = Some h3" using h1(1) h2(1) h3(1) by (simp add: step_red_def)
  moreover have "focus h3 hdr (Fr side p rb_red vp n # Fr side w rb_black vw f # k) t" using h3(3) by (simp only: focus_up)
  ultimately show ?thesis using same_heap_trans h1(2) h2(2) h3(2) by blast
qed

lemma step_near_ok:
  assumes "focus h hdr (Fr side p c vp (fill (Fr side w cw vw f) (fill (Fr side n cn vn nf) nn)) # k) t"
  shows "\<exists>h'. step_near side hdr w n h = Some h' \<and> same_heap hdr h h' \<and>
    focus h' hdr (Fr side p c vp (fill (Fr side n rb_black vn (fill (Fr side w rb_red vw f) nf)) nn) # k) t"
proof -
  let ?K = "Fr (\<not> side) p c vp t # k"
  have "focus h hdr ?K (fill (Fr side w cw vw f) (fill (Fr side n cn vn nf) nn))" using assms by (rule focus_sibling [THEN iffD1])
  then have "focus h hdr (Fr side w cw vw f # ?K) (fill (Fr side n cn vn nf) nn)" by (rule focus_up [THEN iffD2])
  from set_color_focus [OF this, of rb_black] obtain h1 where h1: "set_color n rb_black h = Some h1" "same_heap hdr h h1"
    "focus h1 hdr (Fr side w cw vw f # ?K) (fill (Fr side n rb_black vn nf) nn)" by blast
  from set_color_top [OF h1(3), of rb_red] obtain h2 where h2: "set_color w rb_red h1 = Some h2" "same_heap hdr h1 h2"
    "focus h2 hdr (Fr side w rb_red vw f # ?K) (fill (Fr side n rb_black vn nf) nn)" by blast
  have "focus h2 hdr ?K (fill (Fr side w rb_red vw f) (fill (Fr side n rb_black vn nf) nn))" using h2(3) by (rule focus_up [THEN iffD1])
  then have "focus h2 hdr ?K (fill (Fr (\<not> side) w rb_red vw (fill (Fr (\<not> side) n rb_black vn nn) nf)) f)"
    unfolding fill_flip [of side w] fill_flip [of side n] .
  from rotate_focus [OF this] obtain h3 where h3: "rotate (\<not> side) hdr w h2 = Some h3" "same_heap hdr h2 h3"
    "focus h3 hdr ?K (fill (Fr (\<not> side) n rb_black vn nn) (fill (Fr (\<not> side) w rb_red vw nf) f))" by blast
  have "step_near side hdr w n h = Some h3" using h1(1) h2(1) h3(1) by (simp add: step_near_def)
  moreover have "focus h3 hdr ?K (fill (Fr side n rb_black vn (fill (Fr side w rb_red vw f) nf)) nn)"
    using h3(3) unfolding fill_flip [of side w] fill_flip [of side n] .
  then have "focus h3 hdr (Fr side p c vp (fill (Fr side n rb_black vn (fill (Fr side w rb_red vw f) nf)) nn) # k) t"
    by (rule focus_sibling [THEN iffD2])
  ultimately show ?thesis using same_heap_trans h1(2) h2(2) h3(2) by blast
qed

lemma step_far_ok:
  assumes "focus h hdr (Fr side p c vp (fill (Fr side w cw vw f) n) # k) t" "f \<noteq> Lf"
  shows "\<exists>h'. step_far side hdr p w (ptr f) h = Some h' \<and> same_heap hdr h h' \<and>
    focus h' hdr k (fill (Fr side w c vw (paint rb_black f)) (fill (Fr side p rb_black vp n) t))"
proof -
  let ?K = "Fr (\<not> side) p rb_black vp t # k"
  have pc: "rd rb_color p h = Some c" using focus_node(2) [OF focus_up [THEN iffD1, OF assms(1)]] .
  obtain h1 where h1: "set_color w c h = Some h1" "same_heap hdr h h1"
    "focus h1 hdr (Fr side p c vp (fill (Fr side w c vw f) n) # k) t" using set_color_sibling [OF assms(1), of c] by auto
  from set_color_top [OF h1(3), of rb_black] obtain h2 where h2: "set_color p rb_black h1 = Some h2" "same_heap hdr h1 h2"
    "focus h2 hdr (Fr side p rb_black vp (fill (Fr side w c vw f) n) # k) t" by blast
  have "focus h2 hdr ?K (fill (Fr side w c vw f) n)" using h2(3) by (rule focus_sibling [THEN iffD1])
  then have "focus h2 hdr (Fr side w c vw f # ?K) n" by (rule focus_up [THEN iffD2])
  from set_color_sibling [OF this assms(2), of rb_black] obtain h3 where h3: "set_color (ptr f) rb_black h2 = Some h3" "same_heap hdr h2 h3"
    "focus h3 hdr (Fr side w c vw (paint rb_black f) # ?K) n" by blast
  have "focus h3 hdr ?K (fill (Fr side w c vw (paint rb_black f)) n)" using h3(3) by (rule focus_up [THEN iffD1])
  then have "focus h3 hdr (Fr side p rb_black vp (fill (Fr side w c vw (paint rb_black f)) n) # k) t" by (rule focus_sibling [THEN iffD2])
  then have "focus h3 hdr k (fill (Fr side p rb_black vp (fill (Fr side w c vw (paint rb_black f)) n)) t)" by (rule focus_up [THEN iffD1])
  from rotate_focus [OF this] obtain h4 where h4: "rotate side hdr p h3 = Some h4" "same_heap hdr h3 h4"
    "focus h4 hdr k (fill (Fr side w c vw (paint rb_black f)) (fill (Fr side p rb_black vp n) t))" by blast
  have "step_far side hdr p w (ptr f) h = Some h4" using pc h1(1) h2(1) h3(1) h4(1) by (simp add: step_far_def)
  then show ?thesis using same_heap_trans h1(2) h2(2) h3(2) h4(2,3) by blast
qed

section \<open>The turns on the tree\<close>

lemma focus_sibling_node:
  assumes "focus h hdr (Fr side p c vp (fill (Fr side w cw vw f) n) # k) t"
  shows "w \<noteq> 0" "rd (child (\<not> side)) p h = Some w" "rd rb_color w h = Some cw" "rd (child side) w h = Some (ptr n)"
    "rd (child (\<not> side)) w h = Some (ptr f)" "rd rb_left w h = Some (if side then ptr n else ptr f)"
    "rd rb_right w h = Some (if side then ptr f else ptr n)" "n \<noteq> Lf \<Longrightarrow> ptr n \<noteq> 0 \<and> rd rb_color (ptr n) h = Some (col n)"
    "f \<noteq> Lf \<Longrightarrow> ptr f \<noteq> 0 \<and> rd rb_color (ptr f) h = Some (col f)" "n = Lf \<longleftrightarrow> ptr n = 0" "f = Lf \<longleftrightarrow> ptr f = 0"
proof -
  let ?K = "Fr (\<not> side) p c vp t # k"
  have w: "focus h hdr ?K (fill (Fr side w cw vw f) n)" using assms by (rule focus_sibling [THEN iffD1])
  show "w \<noteq> 0" "rd rb_color w h = Some cw" "rd (child side) w h = Some (ptr n)"
    "rd (child (\<not> side)) w h = Some (ptr f)" "rd rb_left w h = Some (if side then ptr n else ptr f)"
    "rd rb_right w h = Some (if side then ptr f else ptr n)" using focus_node [OF w] by simp_all
  show "rd (child (\<not> side)) p h = Some w" using focus_node(6) [OF focus_up [THEN iffD1, OF assms]] by simp
  have n: "focus h hdr (Fr side w cw vw f # ?K) n" using w by (rule focus_up [THEN iffD2])
  have f: "focus h hdr (Fr (\<not> side) w cw vw n # ?K) f" using n by (rule focus_sibling [THEN iffD1])
  from n have "tree_at h w n" by (simp add: focus_def)
  then show zn: "n = Lf \<longleftrightarrow> ptr n = 0" by (rule ptr_zero [symmetric])
  from f have "tree_at h w f" by (simp add: focus_def)
  then show zf: "f = Lf \<longleftrightarrow> ptr f = 0" by (rule ptr_zero [symmetric])
  show "ptr n \<noteq> 0 \<and> rd rb_color (ptr n) h = Some (col n)" if "n \<noteq> Lf" using that zn focus_col [OF n] by metis
  show "ptr f \<noteq> 0 \<and> rd rb_color (ptr f) h = Some (col f)" if "f \<noteq> Lf" using that zf focus_col [OF f] by metis
qed

text \<open>The black sibling in the first loop: \<open>x\<close> is null.\<close>

lemma null_black_push:
  assumes "focus h hdr (Fr side p c vp (fill (Fr side w rb_black vw Lf) Lf) # k) Lf"
  shows "\<exists>h'. null_black side hdr p w h = Some (Some p, h') \<and> same_heap hdr h h' \<and>
    focus h' hdr (Fr side p c vp (fill (Fr side w rb_red vw Lf) Lf) # k) Lf"
proof -
  note r = focus_sibling_node [OF assms]
  obtain h1 where h1: "set_color w rb_red h = Some h1" "same_heap hdr h h1"
    "focus h1 hdr (Fr side p c vp (fill (Fr side w rb_red vw Lf) Lf) # k) Lf" using set_color_sibling [OF assms, of rb_red] by auto
  have "null_black side hdr p w h = Some (Some p, h1)" using r(3,6,7) h1(1) by (simp add: null_black_def)
  then show ?thesis using h1(2,3) by blast
qed

lemma null_black_far:
  assumes "focus h hdr (Fr side p c vp (fill (Fr side w rb_black vw f) Lf) # k) Lf" "f \<noteq> Lf"
  shows "\<exists>h'. null_black side hdr p w h = Some (None, h') \<and> same_heap hdr h h' \<and>
    focus h' hdr k (fill (Fr side w c vw (paint rb_black f)) (fill (Fr side p rb_black vp Lf) Lf))"
proof -
  note r = focus_sibling_node [OF assms(1)]
  obtain h1 where h1: "step_far side hdr p w (ptr f) h = Some h1" "same_heap hdr h h1"
    "focus h1 hdr k (fill (Fr side w c vw (paint rb_black f)) (fill (Fr side p rb_black vp Lf) Lf))"
    using step_far_ok [OF assms] by blast
  have "ptr f \<noteq> 0" using r(9) assms(2) by blast
  then have "null_black side hdr p w h = Some (None, h1)"
    using r(3-7) h1(1) by (cases side) (simp_all add: null_black_def)
  then show ?thesis using h1(2,3) by blast
qed

lemma null_black_near:
  assumes "focus h hdr (Fr side p c vp (fill (Fr side w rb_black vw f) (fill (Fr side n cn vn nf) nn)) # k) Lf"
  shows "\<exists>h'. null_black side hdr p w h = Some (None, h') \<and> same_heap hdr h h' \<and>
    focus h' hdr k (fill (Fr side n c vn (fill (Fr side w rb_black vw f) nf)) (fill (Fr side p rb_black vp nn) Lf))"
proof -
  note r = focus_sibling_node [OF assms]
  obtain h1 where h1: "step_near side hdr w n h = Some h1" "same_heap hdr h h1"
    "focus h1 hdr (Fr side p c vp (fill (Fr side n rb_black vn (fill (Fr side w rb_red vw f) nf)) nn) # k) Lf"
    using step_near_ok [OF assms] by blast
  note r1 = focus_sibling_node [OF h1(3)]
  from step_far_ok [OF h1(3)] obtain h2 where h2: "step_far side hdr p n w h1 = Some h2" "same_heap hdr h1 h2"
    "focus h2 hdr k (fill (Fr side n c vn (fill (Fr side w rb_black vw f) nf)) (fill (Fr side p rb_black vp nn) Lf))" by auto
  have "n \<noteq> 0" using r(8) by simp
  then have "null_black side hdr p w h = Some (None, h2)"
    using r(1,3-7) h1(1) r1(2,5) h2(1) by (cases side) (simp_all add: null_black_def)
  then show ?thesis using h2(2,3) same_heap_trans h1(2) by blast
qed

text \<open>The black sibling in the second loop.\<close>

lemma fix_black_push:
  assumes "focus h hdr (Fr side p c vp (fill (Fr side w rb_black vw f) n) # k) t" "t \<noteq> Lf" "n \<noteq> Lf" "f \<noteq> Lf"
    and "col n = rb_black" "col f = rb_black"
  shows "\<exists>h'. fix_black side hdr (ptr t) w h = Some (p, h') \<and> same_heap hdr h h' \<and>
    focus h' hdr (Fr side p c vp (fill (Fr side w rb_red vw f) n) # k) t"
proof -
  note r = focus_sibling_node [OF assms(1)]
  obtain h1 where h1: "set_color w rb_red h = Some h1" "same_heap hdr h h1"
    "focus h1 hdr (Fr side p c vp (fill (Fr side w rb_red vw f) n) # k) t" using set_color_sibling [OF assms(1), of rb_red] by auto
  have "ptr t \<noteq> 0" using ptr_zero [of h1 _ t] h1(3) assms(2) unfolding focus_def by metis
  then have "rd rb_parent (ptr t) h1 = Some p" using focus_parent [OF h1(3)] by simp
  then have "fix_black side hdr (ptr t) w h = Some (p, h1)"
    using r(6,7) r(8) [OF assms(3)] r(9) [OF assms(4)] h1(1) assms(5,6) by (cases side) (simp_all add: fix_black_def)
  then show ?thesis using h1(2,3) by blast
qed

lemma fix_black_far:
  assumes "focus h hdr (Fr side p c vp (fill (Fr side w rb_black vw f) n) # k) t" "t \<noteq> Lf" "n \<noteq> Lf" "f \<noteq> Lf" "col f = rb_red"
  shows "\<exists>root h'. fix_black side hdr (ptr t) w h = Some (root, h') \<and> rd rb_parent hdr h' = Some root \<and> same_heap hdr h h' \<and>
    focus h' hdr k (fill (Fr side w c vw (paint rb_black f)) (fill (Fr side p rb_black vp n) t))"
proof -
  note r = focus_sibling_node [OF assms(1)]
  obtain h1 where h1: "step_far side hdr p w (ptr f) h = Some h1" "same_heap hdr h h1"
    "focus h1 hdr k (fill (Fr side w c vw (paint rb_black f)) (fill (Fr side p rb_black vp n) t))"
    using step_far_ok [OF assms(1,4)] by blast
  obtain root where root: "rd rb_parent hdr h1 = Some root" using focus_header [OF h1(3)] by blast
  have "ptr t \<noteq> 0" using ptr_zero [of h _ t] assms(1,2) unfolding focus_def by metis
  then have "rd rb_parent (ptr t) h = Some p" using focus_parent [OF assms(1)] by simp
  then have "fix_black side hdr (ptr t) w h = Some (root, h1)"
    using r(4-7) r(8) [OF assms(3)] r(9) [OF assms(4)] h1(1) root assms(5) by (cases side; cases "col n") (simp_all add: fix_black_def)
  then show ?thesis using root h1(2,3) by blast
qed

lemma fix_black_near:
  assumes "focus h hdr (Fr side p c vp (fill (Fr side w rb_black vw f) (fill (Fr side n rb_red vn nf) nn)) # k) t"
    "t \<noteq> Lf" "f \<noteq> Lf" "col f = rb_black"
  shows "\<exists>root h'. fix_black side hdr (ptr t) w h = Some (root, h') \<and> rd rb_parent hdr h' = Some root \<and> same_heap hdr h h' \<and>
    focus h' hdr k (fill (Fr side n c vn (fill (Fr side w rb_black vw f) nf)) (fill (Fr side p rb_black vp nn) t))"
proof -
  note r = focus_sibling_node [OF assms(1)]
  obtain h1 where h1: "step_near side hdr w n h = Some h1" "same_heap hdr h h1"
    "focus h1 hdr (Fr side p c vp (fill (Fr side n rb_black vn (fill (Fr side w rb_red vw f) nf)) nn) # k) t"
    using step_near_ok [OF assms(1)] by blast
  note r1 = focus_sibling_node [OF h1(3)]
  from step_far_ok [OF h1(3)] obtain h2 where h2: "step_far side hdr p n w h1 = Some h2" "same_heap hdr h1 h2"
    "focus h2 hdr k (fill (Fr side n c vn (fill (Fr side w rb_black vw f) nf)) (fill (Fr side p rb_black vp nn) t))" by auto
  obtain root where root: "rd rb_parent hdr h2 = Some root" using focus_header [OF h2(3)] by blast
  have "ptr t \<noteq> 0" using ptr_zero [of h1 _ t] h1(3) assms(2) unfolding focus_def by metis
  then have x: "rd rb_parent (ptr t) h1 = Some p" using focus_parent [OF h1(3)] by simp
  have "fix_black side hdr (ptr t) w h = Some (root, h2)"
    using r(4-8) r(9) [OF assms(3)] h1(1) x r1(2,5) r1(9) h2(1) root assms(4) by (cases side) (simp_all add: fix_black_def)
  then show ?thesis using root h2(2,3) same_heap_trans h1(2) by blast
qed

section \<open>The loops\<close>

fun invc2 :: "'v rbt \<Rightarrow> bool" where
  "invc2 Lf \<longleftrightarrow> True"
| "invc2 (Nd a c v l r) \<longleftrightarrow> invc l \<and> invc r"

lemma invc2_simps [simp]: "invc2 (fill (Fr side a c v s) t) \<longleftrightarrow> invc s \<and> invc t"
  by (auto simp: fill.simps)

lemma invc_invc2: "invc t \<longleftrightarrow> invc2 t \<and> (col t = rb_red \<longrightarrow> (\<forall>a c v l r. t = Nd a c v l r \<longrightarrow> col l = rb_black \<and> col r = rb_black))"
  by (cases t) auto

lemma paint_black [simp]:
  "invc (paint rb_black t) \<longleftrightarrow> invc2 t" "t \<noteq> Lf \<Longrightarrow> bheight (paint rb_black t) = bheight t + (if col t = rb_red then 1 else 0)"
  "t \<noteq> Lf \<Longrightarrow> col (paint rb_black t) = rb_black" "col (paint rb_black t) = rb_black"
  by (cases t; simp)+

lemma black_invc2: "col t = rb_black \<Longrightarrow> invc2 t \<Longrightarrow> invc t"
  by (cases t) auto

definition mended :: "'v rb_heap \<Rightarrow> base_ptr \<Rightarrow> 'v rb_heap \<Rightarrow> (base_ptr \<times> 'v) list \<Rightarrow> bool" where
  "mended h hdr h' xs \<longleftrightarrow> same_heap hdr h h' \<and> (\<exists>T. focus h' hdr [] T \<and> inord T = xs \<and> invh T \<and> invc T \<and> col T = rb_black)"

lemma mended_trans: "same_heap hdr h h1 \<Longrightarrow> mended h1 hdr h2 xs \<Longrightarrow> mended h hdr h2 xs"
  unfolding mended_def using same_heap_trans by blast

lemma plug_col: "ctx_ok k n \<Longrightarrow> k \<noteq> [] \<or> col t = rb_black \<Longrightarrow> col (plug k t) = rb_black"
proof (induction k arbitrary: n t)
  case (Cons f k)
  obtain side a c v s where f: "f = Fr side a c v s" by (cases f)
  have "ctx_ok k (if c = rb_black then n + 1 else n)" "k \<noteq> [] \<or> col (fill f t) = rb_black"
    using Cons.prems(1) by (auto simp: f)
  from Cons.IH [OF this] show ?case by simp
qed simp

lemma plug_not_Lf: "t \<noteq> Lf \<Longrightarrow> plug k t \<noteq> Lf"
  by (induction k arbitrary: t) simp_all

lemma mended_stop:
  assumes "focus h' hdr k t" "same_heap hdr h h'" "ctx_ok k (bheight t)" "invh t" "invc t"
    "col t = rb_black \<or> k \<noteq> [] \<and> top_col k = rb_black"
  shows "mended h hdr h' (inord (plug k t))"
proof -
  have "focus h' hdr [] (plug k t)" using assms(1) focus_plug by blast
  moreover have "invh (plug k t) \<and> invc (plug k t)" using plug_rb [OF assms(3-5)] assms(6) by blast
  moreover have "col (plug k t) = rb_black" using plug_col [OF assms(3)] assms(6) by blast
  ultimately show ?thesis using assms(2) unfolding mended_def by blast
qed

definition fix_end :: "base_ptr \<Rightarrow> base_ptr \<Rightarrow> 'v rb_heap \<Rightarrow> 'v rb_heap option" where
  "fix_end header x h = do { (x, h) \<leftarrow> erase_fix header x h; set_color x rb_black h }"

lemma fix_end_stop:
  assumes f: "focus h hdr k t" "t \<noteq> Lf" "k = [] \<or> col t = rb_red" and ok: "ctx_ok k (bheight t + 1)" "invh t" "invc2 t"
  shows "\<exists>h'. fix_end hdr (ptr t) h = Some h' \<and> mended h hdr h' (inord (plug k t))"
proof -
  obtain r where r: "rd rb_parent hdr h = Some r" "k = [] \<Longrightarrow> r = ptr t" using focus_header [OF f(1)] by (auto split: if_splits)
  have p: "ptr t \<noteq> 0" using f(1,2) ptr_zero [of h _ t] unfolding focus_def by blast
  have "erase_fix hdr (ptr t) h = Some (ptr t, h)"
    using r focus_col [OF f(1) p] f(3) by (cases "ptr t = r") (auto simp: erase_fix.simps)
  moreover obtain h' where h': "set_color (ptr t) rb_black h = Some h'" "focus h' hdr k (paint rb_black t)" "same_heap hdr h h'"
    using set_color_tree [OF f(1,2), of rb_black] by blast
  moreover have "mended h hdr h' (inord (plug k (paint rb_black t)))"
    using f(2,3) ok by (intro mended_stop [OF h'(2,3)]) auto
  moreover have "inord (plug k (paint rb_black t)) = inord (plug k t)" by (simp add: inord_plug)
  ultimately show ?thesis by (simp add: fix_end_def)
qed

lemma fix_end_root:
  assumes "focus h hdr [] T" "T \<noteq> Lf" "invh T" "invc T" "rd rb_parent hdr h = Some root"
  shows "\<exists>h'. fix_end hdr root h = Some h' \<and> mended h hdr h' (inord T)"
proof -
  have "root = ptr T" using focus_header [OF assms(1)] assms(5) by simp
  then show ?thesis using fix_end_stop [OF assms(1,2)] assms(3,4) by (simp add: invc_invc2)
qed

lemma fix_end_turn:
  assumes "focus h hdr (Fr side p c vp s # k) t" "t \<noteq> Lf" "col t = rb_black"
  shows "fix_end hdr (ptr t) h = Option.bind (fix_side side hdr (ptr t) p h) (\<lambda>(x, h). fix_end hdr x h)"
proof -
  have x: "ptr t \<noteq> 0" using assms(1,2) ptr_zero [of h _ t] unfolding focus_def by blast
  obtain r where r: "rd rb_parent hdr h = Some r" "r \<notin> addrs t" using focus_header [OF assms(1)] by auto
  then have "ptr t \<noteq> r" using ptr_addrs [OF x] by auto
  moreover have "rd rb_color (ptr t) h = Some rb_black" using focus_col [OF assms(1) x] assms(3) by simp
  moreover have "rd rb_parent (ptr t) h = Some p" using focus_parent [OF assms(1) x] by simp
  moreover note n = focus_ne_sibling [OF assms(1) x]
  have "rd rb_left p h = Some (if side then ptr t else ptr s)" using focus_node(7) [OF n(7)] .
  ultimately show ?thesis
    using r(1) n(1) by (cases side) (simp_all add: fix_end_def erase_fix.simps [of hdr "ptr t"] fix_sides bind_assoc split_def)
qed

lemma sided: "s \<noteq> Lf \<Longrightarrow> \<exists>w vw f n. s = fill (Fr side w (col s) vw f) n"
  by (cases s; cases side) (auto simp: fill.simps)

lemma not_Lf: "0 < bheight t \<Longrightarrow> t \<noteq> Lf" "col t = rb_red \<Longrightarrow> t \<noteq> Lf" by auto

text \<open>One turn with a black sibling: it ends with the root, or goes on from the parent.\<close>

definition turned :: "'v rb_heap \<Rightarrow> base_ptr \<Rightarrow> 'v frame list \<Rightarrow> base_ptr \<Rightarrow> bool \<Rightarrow> base_ptr \<Rightarrow> 'v rb_heap \<Rightarrow> (base_ptr \<times> 'v) list \<Rightarrow> bool" where
  "turned h hdr k p c x h' xs \<longleftrightarrow> same_heap hdr h h' \<and>
     ((\<exists>t. x = p \<and> ptr t = p \<and> t \<noteq> Lf \<and> col t = c \<and> focus h' hdr k t \<and> ctx_ok k (bheight t + 1) \<and> invh t \<and> invc2 t \<and> inord (plug k t) = xs) \<or>
      (\<exists>T. rd rb_parent hdr h' = Some x \<and> T \<noteq> Lf \<and> focus h' hdr [] T \<and> invh T \<and> invc T \<and> inord T = xs))"

lemma black_turn:
  assumes f: "focus h hdr (Fr side p c vp s # k) t" and t: "t \<noteq> Lf" "col t = rb_black" "invh t" "invc t"
    and ok: "ctx_ok (Fr side p c vp s # k) (bheight t + 1)" and s: "col s = rb_black"
  shows "\<exists>x h'. fix_black side hdr (ptr t) (ptr s) h = Some (x, h') \<and> turned h hdr k p c x h' (inord (plug (Fr side p c vp s # k) t))"
proof -
  have k: "invc s" "invh s" "bheight s = bheight t + 1" "c = rb_red \<Longrightarrow> k \<noteq> [] \<and> top_col k = rb_black"
    "ctx_ok k (if c = rb_black then bheight t + 2 else bheight t + 1)" using ok by (simp_all split: if_splits)
  obtain w vw fa n where w: "s = fill (Fr side w rb_black vw fa) n" using sided [OF not_Lf(1), of s side] k(3) s by auto
  have b: "0 < bheight t" using t(1,2) by (cases t) auto
  have nf: "bheight n = bheight t" "bheight fa = bheight t" "invh n" "invh fa" "invc n" "invc fa" using k(1-3) by (auto simp: w)
  then have L: "n \<noteq> Lf" "fa \<noteq> Lf" using b not_Lf(1) by metis+
  note f = f [unfolded w]
  have final: "turned h hdr k p c root h' (inord (plug (Fr side p c vp s # k) t))"
    if "same_heap hdr h h'" "rd rb_parent hdr h' = Some root" "focus h' hdr k u" "col u = c" "u \<noteq> Lf" "invh u" "invc2 u" "invc u"
      "bheight u = (if c = rb_black then bheight t + 2 else bheight t + 1)" "inord u = inord (fill (Fr side p c vp s) t)" for h' root u
  proof -
    have "focus h' hdr [] (plug k u)" using that(3) focus_plug by blast
    moreover have "invh (plug k u) \<and> invc (plug k u)" using plug_rb [of k u] that(4,6,8,9) k(4,5) by (cases c) auto
    moreover have "inord (plug k u) = inord (plug (Fr side p c vp s # k) t)" by (simp add: inord_plug that(10))
    ultimately show ?thesis using that(1,2) plug_not_Lf [OF that(5)] unfolding turned_def by blast
  qed
  consider (push) "col n = rb_black" "col fa = rb_black" | (far) "col fa = rb_red" | (near) "col n = rb_red" "col fa = rb_black" by auto
  then show ?thesis
  proof cases
    case push
    obtain h' where h': "fix_black side hdr (ptr t) w h = Some (p, h')" "same_heap hdr h h'"
      "focus h' hdr (Fr side p c vp (fill (Fr side w rb_red vw fa) n) # k) t"
      using fix_black_push [OF f t(1) L push] by blast
    let ?u = "fill (Fr side p c vp (fill (Fr side w rb_red vw fa) n)) t"
    have "focus h' hdr k ?u" using h'(3) by (rule focus_up [THEN iffD1])
    moreover have "bheight ?u = bheight t + (if c = rb_black then 1 else 0)" using nf by simp
    then have "ctx_ok k (bheight ?u + 1)" using k(5) by (cases c) simp_all
    moreover have "invh ?u" "invc2 ?u" using nf t push by simp_all
    moreover have "inord (plug k ?u) = inord (plug (Fr side p c vp s # k) t)" by (simp add: w inord_plug fill.simps)
    ultimately have "turned h hdr k p c p h' (inord (plug (Fr side p c vp s # k) t))"
      using h'(2) unfolding turned_def by (intro conjI disjI1 exI [of _ ?u]) simp_all
    then show ?thesis using h'(1) by (auto simp: w)
  next
    case far
    obtain root h' where h': "fix_black side hdr (ptr t) w h = Some (root, h')" "rd rb_parent hdr h' = Some root" "same_heap hdr h h'"
      "focus h' hdr k (fill (Fr side w c vw (paint rb_black fa)) (fill (Fr side p rb_black vp n) t))"
      using fix_black_far [OF f t(1) L far] by blast
    have "turned h hdr k p c root h' (inord (plug (Fr side p c vp s # k) t))"
      by (rule final [OF h'(3,2,4)]) (use nf t far L in \<open>simp_all add: w invc_invc2 [of fa] fill.simps\<close>)
    then show ?thesis using h'(1) by (auto simp: w)
  next
    case near
    obtain m vm nf' nn where n: "n = fill (Fr side m rb_red vm nf') nn" using sided [OF L(1), of side] near by auto
    obtain root h' where h': "fix_black side hdr (ptr t) w h = Some (root, h')" "rd rb_parent hdr h' = Some root" "same_heap hdr h h'"
      "focus h' hdr k (fill (Fr side m c vm (fill (Fr side w rb_black vw fa) nf')) (fill (Fr side p rb_black vp nn) t))"
      using fix_black_near [OF f [unfolded n] t(1) L(2) near(2)] by blast
    have "turned h hdr k p c root h' (inord (plug (Fr side p c vp s # k) t))"
      by (rule final [OF h'(3,2,4)]) (use nf t near in \<open>auto simp: w n fill.simps split: if_splits\<close>)
    then show ?thesis using h'(1) by (auto simp: w)
  qed
qed

lemma fix_end_ok:
  "focus h hdr k t \<Longrightarrow> t \<noteq> Lf \<Longrightarrow> ctx_ok k (bheight t + 1) \<Longrightarrow> invh t \<Longrightarrow> invc2 t \<Longrightarrow>
   \<exists>h'. fix_end hdr (ptr t) h = Some h' \<and> mended h hdr h' (inord (plug k t))"
proof (induction "length k" arbitrary: h k t rule: less_induct)
  case less
  show ?case
  proof (cases "k = [] \<or> col t = rb_red")
    case True
    then show ?thesis using fix_end_stop less.prems by blast
  next
    case False
    then obtain side p c vp s k2 where k: "k = Fr side p c vp s # k2" by (cases k rule: top_col.cases) auto
    have t: "col t = rb_black" "invc t" using False black_invc2 less.prems(5) by auto
    note turn = fix_end_turn [OF less.prems(1) [unfolded k] less.prems(2) t(1)]
    have after: "\<exists>h'. fix_end hdr x h1 = Some h' \<and> mended h hdr h' (inord (plug k t))"
      if "turned h0 hdr k0 p c' x h1 (inord (plug k t))" "same_heap hdr h h0" "k0 = k2 \<or> c' = rb_red" for h0 k0 c' x h1
    proof -
      have "\<exists>h'. fix_end hdr x h1 = Some h' \<and> mended h1 hdr h' (inord (plug k t))"
        using that(1) unfolding turned_def
      proof (elim conjE disjE exE)
        fix u assume u: "x = p" "ptr u = p" "u \<noteq> Lf" "col u = c'" "focus h1 hdr k0 u" "ctx_ok k0 (bheight u + 1)" "invh u" "invc2 u"
          "inord (plug k0 u) = inord (plug k t)"
        have "\<exists>h'. fix_end hdr (ptr u) h1 = Some h' \<and> mended h1 hdr h' (inord (plug k0 u))"
        proof (cases "c' = rb_red")
          case True
          then show ?thesis using fix_end_stop [OF u(5,3)] u(4,6-8) by blast
        next
          case False
          then show ?thesis using less.hyps [OF _ u(5,3,6-8)] that(3) by (simp add: k)
        qed
        then show ?thesis using u(1,2,9) by simp
      next
        fix T assume T: "rd rb_parent hdr h1 = Some x" "T \<noteq> Lf" "focus h1 hdr [] T" "invh T" "invc T" "inord T = inord (plug k t)"
        then show ?thesis using fix_end_root [OF T(3,2,4,5,1)] by simp
      qed
      moreover have "same_heap hdr h h1" using that(1,2) same_heap_trans unfolding turned_def by blast
      ultimately show ?thesis using mended_trans by blast
    qed
    have ok: "invc s" "invh s" "bheight s = bheight t + 1" "c = rb_red \<Longrightarrow> col s = rb_black" "ctx_ok k2 (if c = rb_black then bheight t + 2 else bheight t + 1)"
      using less.prems(3) by (simp_all add: k split: if_splits)
    obtain w vw fa n where w: "s = fill (Fr side w (col s) vw fa) n" using sided [OF not_Lf(1), of s side] ok(3) by auto
    have x: "ptr t \<noteq> 0" using less.prems(1,2) ptr_zero [of h _ t] unfolding focus_def by blast
    have sib: "rd (child (\<not> side)) p h = Some (ptr s)" "rd rb_color (ptr s) h = Some (col s)"
    proof -
      have "focus h hdr (Fr side p c vp (fill (Fr side w (col s) vw fa) n) # k2) t" using less.prems(1) w by (simp add: k)
      from focus_sibling_node(2,3) [OF this] show "rd (child (\<not> side)) p h = Some (ptr s)" "rd rb_color (ptr s) h = Some (col s)"
        using w by (metis ptr_fill)+
    qed
    show ?thesis
    proof (cases "col s = rb_black")
      case True
      obtain x h1 where h1: "fix_black side hdr (ptr t) (ptr s) h = Some (x, h1)" "turned h hdr k2 p c x h1 (inord (plug k t))"
        using black_turn [OF less.prems(1) [unfolded k] less.prems(2) t(1) less.prems(4) t(2) less.prems(3) [unfolded k] True] by (auto simp: k)
      have "fix_side side hdr (ptr t) p h = Some (x, h1)" using sib True h1(1) by (simp add: fix_side_def)
      then show ?thesis using turn after [OF h1(2) same_heap_refl] by simp
    next
      case False
      then have red: "col s = rb_red" "c = rb_black" using ok(4) by auto
      have w: "s = fill (Fr side w rb_red vw fa) n" using w False by simp
      have nf: "bheight n = bheight t + 1" "bheight fa = bheight t + 1" "invh n" "invh fa" "invc n" "invc fa" "col n = rb_black" "col fa = rb_black"
        using ok(1-3) by (auto simp: w)
      obtain h1 where h1: "step_red side hdr p w h = Some h1" "same_heap hdr h h1"
        "focus h1 hdr (Fr side p rb_red vp n # Fr side w rb_black vw fa # k2) t" using step_red_ok [OF less.prems(1) [unfolded k w]] by blast
      let ?k = "Fr side w rb_black vw fa # k2"
      have "ctx_ok (Fr side p rb_red vp n # ?k) (bheight t + 1)" using nf ok(5) red(2) by simp
      from black_turn [OF h1(3) less.prems(2) t(1) less.prems(4) t(2) this nf(7)] obtain x h2 where
        h2: "fix_black side hdr (ptr t) (ptr n) h1 = Some (x, h2)" "turned h1 hdr ?k p rb_red x h2 (inord (plug (Fr side p rb_red vp n # ?k) t))" by blast
      have same: "inord (plug (Fr side p rb_red vp n # ?k) t) = inord (plug k t)" by (cases side) (simp_all add: inord_plug k w fill.simps)
      have p: "rd rb_parent (ptr t) h1 = Some p" using focus_parent [OF h1(3) x] by simp
      have "focus h1 hdr ?k (fill (Fr side p rb_red vp n) t)" using h1(3) by (rule focus_up [THEN iffD1])
      then have pn: "rd (child (\<not> side)) p h1 = Some (ptr n)" by (rule focus_node(6))
      have "fix_side side hdr (ptr t) p h = Some (x, h2)" using sib red h1(1) p pn h2(1) by (simp add: fix_side_def w)
      moreover have "\<exists>h'. fix_end hdr x h2 = Some h' \<and> mended h hdr h' (inord (plug k t))"
        by (rule after [OF h2(2) [unfolded same] h1(2)]) simp
      ultimately show ?thesis using turn by simp
    qed
  qed
qed

text \<open>The first loop makes one turn.\<close>

definition null_turned :: "'v rb_heap \<Rightarrow> base_ptr \<Rightarrow> 'v frame list \<Rightarrow> base_ptr \<Rightarrow> base_ptr option \<Rightarrow> 'v rb_heap \<Rightarrow> (base_ptr \<times> 'v) list \<Rightarrow> bool" where
  "null_turned h hdr k p r h' xs \<longleftrightarrow>
     (case r of None \<Rightarrow> mended h hdr h' xs
      | Some x \<Rightarrow> x = p \<and> p \<noteq> 0 \<and> same_heap hdr h h' \<and>
          (\<exists>t. ptr t = p \<and> t \<noteq> Lf \<and> focus h' hdr k t \<and> ctx_ok k (bheight t + 1) \<and> invh t \<and> invc2 t \<and> inord (plug k t) = xs))"

lemma bheight_0: "invh t \<Longrightarrow> invc t \<Longrightarrow> bheight t = 0 \<Longrightarrow> t = Lf \<or> (\<exists>a v. t = Nd a rb_red v Lf Lf)"
proof (cases t)
  case (Nd a c v l r)
  moreover assume "invh t" "invc t" "bheight t = 0"
  ultimately have "c = rb_red" "bheight l = 0" "bheight r = 0" "col l = rb_black" "col r = rb_black" by (auto split: if_splits)
  then have "l = Lf" "r = Lf" by (cases l; simp; fail | cases r; simp; fail)+
  then show ?thesis using Nd \<open>c = rb_red\<close> by simp
qed simp

lemma null_black_turn:
  assumes f: "focus h hdr (Fr side p c vp s # k) Lf" and ok: "ctx_ok (Fr side p c vp s # k) 1" and s: "col s = rb_black"
  shows "\<exists>r h'. null_black side hdr p (ptr s) h = Some (r, h') \<and> null_turned h hdr k p r h' (inord (plug (Fr side p c vp s # k) Lf))"
proof -
  have k: "invc s" "invh s" "bheight s = 1" "c = rb_red \<Longrightarrow> k \<noteq> [] \<and> top_col k = rb_black" "ctx_ok k (if c = rb_black then Suc 1 else 1)"
    using ok by (simp_all split: if_splits)
  obtain w vw fa n where w: "s = fill (Fr side w rb_black vw fa) n" using sided [OF not_Lf(1), of s side] k(3) s by auto
  have nf: "bheight n = 0" "bheight fa = 0" "invh n" "invh fa" "invc n" "invc fa" using k(1-3) by (auto simp: w)
  note f = f [unfolded w]
  have p: "p \<noteq> 0" using f by (rule focus_top(2))
  have final: "null_turned h hdr k p None h' (inord (plug (Fr side p c vp s # k) Lf))"
    if "same_heap hdr h h'" "focus h' hdr k u" "col u = c" "invh u" "invc u"
      "bheight u = (if c = rb_black then Suc 1 else 1)" "inord u = inord (fill (Fr side p c vp s) Lf)" for h' u
  proof -
    have "mended h hdr h' (inord (plug k u))" using that(3-6) k(4,5) by (intro mended_stop [OF that(2,1)]) (auto split: if_splits)
    moreover have "inord (plug k u) = inord (plug (Fr side p c vp s # k) Lf)" by (simp add: inord_plug that(7))
    ultimately show ?thesis by (simp add: null_turned_def)
  qed
  consider (push) "n = Lf" "fa = Lf" | (far) a v where "n = Lf" "fa = Nd a rb_red v Lf Lf" | (near) m vm where "n = Nd m rb_red vm Lf Lf"
    using bheight_0 [OF nf(3,5,1)] bheight_0 [OF nf(4,6,2)] by auto
  then show ?thesis
  proof cases
    case push
    let ?u = "fill (Fr side p c vp (fill (Fr side w rb_red vw Lf) Lf)) Lf"
    obtain h' where h': "null_black side hdr p w h = Some (Some p, h')" "same_heap hdr h h'"
      "focus h' hdr (Fr side p c vp (fill (Fr side w rb_red vw Lf) Lf) # k) Lf" using null_black_push [OF f [unfolded push]] by blast
    have "focus h' hdr k ?u" using h'(3) by (rule focus_up [THEN iffD1])
    moreover have "ctx_ok k (bheight ?u + 1)" using k(5) by (cases c) simp_all
    moreover have "invh ?u" "invc2 ?u" by simp_all
    moreover have "inord (plug k ?u) = inord (plug (Fr side p c vp s # k) Lf)" by (simp add: w push inord_plug fill.simps)
    ultimately have "null_turned h hdr k p (Some p) h' (inord (plug (Fr side p c vp s # k) Lf))"
      using h'(2) p unfolding null_turned_def option.case by (intro conjI exI [of _ ?u]) simp_all
    then show ?thesis using h'(1) by (auto simp: w)
  next
    case far
    obtain h' where h': "null_black side hdr p w h = Some (None, h')" "same_heap hdr h h'"
      "focus h' hdr k (fill (Fr side w c vw (paint rb_black fa)) (fill (Fr side p rb_black vp Lf) Lf))"
      using null_black_far [OF f [unfolded far(1)]] far(2) by blast
    have "null_turned h hdr k p None h' (inord (plug (Fr side p c vp s # k) Lf))"
      by (rule final [OF h'(2,3)]) (use far in \<open>simp_all add: w fill.simps\<close>)
    then show ?thesis using h'(1) by (auto simp: w)
  next
    case near
    then have n: "n = fill (Fr side m rb_red vm Lf) Lf" by (simp add: fill.simps)
    obtain h' where h': "null_black side hdr p w h = Some (None, h')" "same_heap hdr h h'"
      "focus h' hdr k (fill (Fr side m c vm (fill (Fr side w rb_black vw fa) Lf)) (fill (Fr side p rb_black vp Lf) Lf))"
      using null_black_near [OF f [unfolded n]] by blast
    have "null_turned h hdr k p None h' (inord (plug (Fr side p c vp s # k) Lf))"
      by (rule final [OF h'(2,3)]) (use nf near in \<open>auto simp: w fill.simps split: if_splits\<close>)
    then show ?thesis using h'(1) by (auto simp: w)
  qed
qed

lemma erase_fix_null_turn:
  assumes "focus h hdr (Fr side p c vp s # k) Lf" "s \<noteq> Lf"
  shows "erase_fix_null hdr 0 p h = Option.bind (null_side side hdr p (ptr s) h)
     (\<lambda>(r, h). case r of None \<Rightarrow> Some (None, h) | Some x \<Rightarrow> erase_fix_null hdr x p h)"
proof -
  have f: "focus h hdr k (fill (Fr side p c vp s) Lf)" using assms(1) by (rule focus_up [THEN iffD1])
  have "tree_at h p s" using assms(1) by (rule focus_top(8))
  then have "ptr s \<noteq> 0" using ptr_zero assms(2) by blast
  then show ?thesis using focus_node(7,8) [OF f] by (cases side) (simp_all add: erase_fix_null.simps [of hdr 0] null_sides)
qed

lemma rb_erase_rebalance_null:
  assumes f: "focus h hdr (Fr side p c vp s # k) Lf" and ok: "ctx_ok (Fr side p c vp s # k) 1"
  shows "\<exists>h'. rb_erase_rebalance hdr 0 p h = Some h' \<and> mended h hdr h' (inord (plug (Fr side p c vp s # k) Lf))"
proof -
  let ?xs = "inord (plug (Fr side p c vp s # k) Lf)"
  have k: "invc s" "invh s" "bheight s = 1" "c = rb_red \<Longrightarrow> col s = rb_black" "ctx_ok k (if c = rb_black then Suc 1 else 1)"
    using ok by (simp_all split: if_splits)
  have sL: "s \<noteq> Lf" using k(3) by auto
  obtain w vw fa n where w: "s = fill (Fr side w (col s) vw fa) n" using sided [OF sL] by blast
  have sib: "rd rb_color (ptr s) h = Some (col s)"
  proof -
    have "focus h hdr (Fr side p c vp (fill (Fr side w (col s) vw fa) n) # k) Lf" using f w by simp
    from focus_sibling_node(3) [OF this] show ?thesis using w by (metis ptr_fill)
  qed
  have finish: "\<exists>h'. rb_erase_rebalance hdr 0 p h = Some h' \<and> mended h hdr h' ?xs"
    if "null_side side hdr p (ptr s) h = Some (r, h1)" "null_turned h0 hdr k0 p r h1 ?xs" "same_heap hdr h h0" for r h0 h1 k0
  proof -
    note r = that
    show ?thesis
  proof (cases r)
    case None
    then show ?thesis using r mended_trans erase_fix_null_turn [OF f sL]
      by (auto simp: null_turned_def rb_erase_rebalance_def)
  next
    case (Some x)
    then obtain t where t: "x = p" "p \<noteq> 0" "same_heap hdr h0 h1" "ptr t = p" "t \<noteq> Lf" "focus h1 hdr k0 t" "ctx_ok k0 (bheight t + 1)"
      "invh t" "invc2 t" "inord (plug k0 t) = ?xs" using r(2) unfolding null_turned_def by auto
    obtain h' where h': "fix_end hdr p h1 = Some h'" "mended h1 hdr h' ?xs" using fix_end_ok [OF t(6,5,7-9)] t(4,10) by auto
    have "erase_fix_null hdr 0 p h = Some (Some p, h1)"
      using r(1) Some t(1,2) by (simp add: erase_fix_null_turn [OF f sL] erase_fix_null.simps [of hdr p])
    then have "rb_erase_rebalance hdr 0 p h = Some h'" using h'(1) by (simp add: rb_erase_rebalance_def fix_end_def)
    then show ?thesis using h'(2) mended_trans same_heap_trans [OF r(3) t(3)] by blast
  qed
  qed
  show ?thesis
  proof (cases "col s = rb_black")
    case True
    obtain r h1 where h1: "null_black side hdr p (ptr s) h = Some (r, h1)" "null_turned h hdr k p r h1 ?xs"
      using null_black_turn [OF f ok True] by blast
    then have "null_side side hdr p (ptr s) h = Some (r, h1)" using sib True by (simp add: null_side_def)
    then show ?thesis using finish h1(2) same_heap_refl by blast
  next
    case False
    then have red: "col s = rb_red" "c = rb_black" using k(4) by auto
    have w: "s = fill (Fr side w rb_red vw fa) n" using w False by simp
    have nf: "bheight n = 1" "bheight fa = 1" "invh n" "invh fa" "invc n" "invc fa" "col n = rb_black" "col fa = rb_black"
      using k(1-3) by (auto simp: w)
    obtain h1 where h1: "step_red side hdr p w h = Some h1" "same_heap hdr h h1"
      "focus h1 hdr (Fr side p rb_red vp n # Fr side w rb_black vw fa # k) Lf" using step_red_ok [OF f [unfolded w]] by blast
    let ?k = "Fr side w rb_black vw fa # k"
    have "ctx_ok (Fr side p rb_red vp n # ?k) 1" using nf k(5) red(2) by simp
    from null_black_turn [OF h1(3) this nf(7)] obtain r h2 where
      h2: "null_black side hdr p (ptr n) h1 = Some (r, h2)" "null_turned h1 hdr ?k p r h2 (inord (plug (Fr side p rb_red vp n # ?k) Lf))" by blast
    have same: "inord (plug (Fr side p rb_red vp n # ?k) Lf) = ?xs" by (cases side) (simp_all add: inord_plug w fill.simps)
    have "focus h1 hdr ?k (fill (Fr side p rb_red vp n) Lf)" using h1(3) by (rule focus_up [THEN iffD1])
    then have pn: "rd (child (\<not> side)) p h1 = Some (ptr n)" by (rule focus_node(6))
    have "null_side side hdr p (ptr s) h = Some (r, h2)" using sib red h1(1) pn h2(1) by (simp add: null_side_def w)
    then show ?thesis using finish h2(2) [unfolded same] h1(2) by blast
  qed
qed

lemma rb_erase_rebalance_ok:
  assumes f: "focus h hdr (Fr side p c vp s # k) t" and ok: "ctx_ok (Fr side p c vp s # k) (bheight t + 1)" "invh t" "invc t"
  shows "\<exists>h'. rb_erase_rebalance hdr (ptr t) p h = Some h' \<and> mended h hdr h' (inord (plug (Fr side p c vp s # k) t))"
proof (cases "t = Lf")
  case True
  then show ?thesis using rb_erase_rebalance_null f ok(1) by simp
next
  case False
  then have "ptr t \<noteq> 0" using f ptr_zero [of h _ t] unfolding focus_def by blast
  then have "rb_erase_rebalance hdr (ptr t) p h = fix_end hdr (ptr t) h"
    by (simp add: rb_erase_rebalance_def erase_fix_null.simps fix_end_def)
  moreover have "invc2 t" using ok(3) by (cases t) simp_all
  ultimately show ?thesis using fix_end_ok [OF f False ok(1,2)] by simp
qed

section \<open>Splicing a node out\<close>

text \<open>What \<open>erase\<close> does to the links around a node \<open>y\<close> other than the root, with at most one child \<open>x\<close>.\<close>

definition splice :: "base_ptr \<Rightarrow> base_ptr \<Rightarrow> base_ptr \<Rightarrow> base_ptr \<Rightarrow> base_ptr \<Rightarrow> 'v rb_heap \<Rightarrow> 'v rb_heap option" where
  "splice header root y x yp h = do {
     lm \<leftarrow> rd rb_left header h;
     rm \<leftarrow> rd rb_right header h;
     h \<leftarrow> (if x = 0 then
         (if y = lm then set_left header yp h else if y = rm then set_right header yp h else Some h)
       else set_parent x yp h);
     ypl \<leftarrow> rd rb_left yp h;
     if y = ypl then do {
       h \<leftarrow> set_left yp x h;
       if x \<noteq> 0 \<and> yp = root then set_left header x h else Some h }
     else do {
       h \<leftarrow> set_right yp x h;
       if x \<noteq> 0 \<and> yp = root then set_right header x h else Some h } }"

definition only_child :: "'v rbt \<Rightarrow> 'v rbt \<Rightarrow> 'v rbt" where
  "only_child l r = (if l = Lf then r else l)"

lemma inord_only_child: "l = Lf \<or> r = Lf \<Longrightarrow> inord (only_child l r) = inord l @ inord r"
  by (auto simp: only_child_def)

lemma distinct_drop: "distinct (x # map fst (A @ (L @ q # R) @ B)) \<Longrightarrow> distinct (x # map fst (A @ (L @ R) @ B))"
  by auto

lemma focus_spliced:
  assumes f: "focus h hdr (Fr sd p c w b # k) (Nd y cy vy l r)" and one: "l = Lf \<or> r = Lf" "s = only_child l r"
    and h': "h' p = Some (node sd c (up_ptr hdr k) (ptr s) (ptr b) w)" "tree_at h' p s"
    "map_option rb_parent (h' hdr) = map_option rb_parent (h hdr)" "\<And>q. q \<notin> insert p (insert hdr (addrs s)) \<Longrightarrow> h' q = h q"
  shows "focus h' hdr (Fr sd p c w b # k) s"
proof -
  let ?k = "Fr sd p c w b # k" and ?y = "Nd y cy vy l r"
  have g: "focus h hdr k (fill (Fr sd p c w b) ?y)" using f by (rule focus_up [THEN iffD1])
  have sa: "addrs s \<subseteq> addrs ?y" using one by (auto simp: only_child_def)
  have pb: "p \<notin> addrs b" "addrs b \<inter> addrs ?y = {}" using fill_disjoint [OF focus_distinct [OF g, THEN conjunct1]] by blast+
  have hb: "hdr \<noteq> 0" "hdr \<notin> addrs b" "hdr \<notin> ctx_addrs k" "p \<notin> ctx_addrs k" "ctx_addrs k \<inter> addrs ?y = {}"
    using focus_disjoint [OF g] unfolding addrs_simps by blast+
  have t: "p \<noteq> 0" "tree_at h p b" "ctx_at h hdr k p" using f by (simp_all add: focus_def ctx_at_Fr)
  have "tree_at h' p b = tree_at h p b" using pb hb sa by (intro tree_at_cong h'(4)) blast
  moreover have "ctx_at h' hdr k p = ctx_at h hdr k p" using hb sa by (intro ctx_at_header_cong h'(3,4)) blast
  ultimately have c: "ctx_at h' hdr ?k (ptr s)" using t h'(1) by (simp add: ctx_at_Fr)
  have "distinct (hdr # map fst (before_hole ?k @ inord ?y @ after_hole ?k))" using f unfolding focus_def by blast
  then have "distinct (hdr # map fst (before_hole ?k @ inord s @ after_hole ?k))"
    unfolding one(2) inord_only_child [OF one(1)] inord.simps by (rule distinct_drop)
  then show ?thesis using c h'(2) hb(1) unfolding focus_def by simp
qed

lemma rb_erase_inner:
  assumes "h = rt_heap t" "hdr = rt_header t" "rd rb_left a h = Some la" "rd rb_right a h = Some ra"
    "(if la = 0 \<or> ra = 0 then Some a else rb_increment a h) = Some y" "rd rb_left y h = Some yl" "rd rb_right y h = Some yr"
    "x = (if yl \<noteq> 0 then yl else yr)" "rd rb_parent y h = Some yp" "rd rb_parent hdr h = Some root" "y \<noteq> root"
  shows "rb_erase a t = do {
     h \<leftarrow> splice hdr root y x yp h;
     h \<leftarrow> (if y \<noteq> a then do { v \<leftarrow> rd rb_value y h; wr (\<lambda>n. n\<lparr>rb_value := v\<rparr>) a h } else Some h);
     yc \<leftarrow> rd rb_color y h;
     h \<leftarrow> (if yc = rb_black then do { p \<leftarrow> rd rb_parent y h; rb_erase_rebalance hdr x p h } else Some h);
     Some (t\<lparr>rt_heap := h(y := None), rt_node_count := rt_node_count t - 1\<rparr>) }"
proof -
  have x: "(if yl \<noteq> 0 then Some yl else rd rb_right y h) = Some x" using assms(7,8) by simp
  show ?thesis
    by (simp only: rb_erase_def splice_def assms(1,2) [symmetric] assms(3-6,9,10) x Option.bind.bind_lunit assms(11) simp_thms if_False bind_assoc)
qed

lemma splice_heap:
  assumes f: "focus h hdr (Fr sd p c w b # k) (Nd y cy vy l r)" and one: "l = Lf \<or> r = Lf" "s = only_child l r"
    and n: "h hdr = Some n" and root: "rd rb_parent hdr h = Some root"
    and n': "n' = (if s = Lf then (if y = rb_left n then n\<lparr>rb_left := p\<rparr> else if y = rb_right n then n\<lparr>rb_right := p\<rparr> else n)
      else if k = [] then (if sd then n\<lparr>rb_left := ptr s\<rparr> else n\<lparr>rb_right := ptr s\<rparr>) else n)"
  shows "\<exists>h'. splice hdr root y (ptr s) p h = Some h' \<and> focus h' hdr (Fr sd p c w b # k) s \<and> dom h' = dom h \<and>
    h' y = h y \<and> h' hdr = Some n'"
proof -
  let ?k = "Fr sd p c w b # k" and ?y = "Nd y cy vy l r"
  have g: "focus h hdr k (fill (Fr sd p c w b) ?y)" using f by (rule focus_up [THEN iffD1])
  have y: "tree_at h p ?y" using f by (simp add: focus_def)
  note ty = tree_at_reads [OF y]
  have ts: "tree_at h y s" using ty(7,8) one by (auto simp: only_child_def)
  have dy: "distinct (map fst (inord ?y))" using focus_distinct [OF f] by blast
  then have ds: "distinct (map fst (inord s))" "y \<notin> addrs s" using one by (auto simp: only_child_def addrs_def)
  have sa: "addrs s \<subseteq> addrs ?y" using one by (auto simp: only_child_def)
  have p: "p \<noteq> 0" "h p = Some (node sd c (up_ptr hdr k) y (ptr b) w)" "p \<noteq> hdr" "p \<notin> addrs s" "y \<noteq> p" "y \<noteq> hdr" "hdr \<notin> addrs s" "hdr \<noteq> 0"
  proof -
    have "ctx_at h hdr ?k y" using f by (simp add: focus_def)
    then show "p \<noteq> 0" "h p = Some (node sd c (up_ptr hdr k) y (ptr b) w)" by (simp_all add: ctx_at_Fr)
    have "p \<notin> addrs ?y" "hdr \<noteq> p" "hdr \<notin> addrs ?y" using focus_disjoint(2-4) [OF f] unfolding ctx_addrs_Fr by blast+
    then show "p \<noteq> hdr" "p \<notin> addrs s" "y \<noteq> p" "y \<noteq> hdr" "hdr \<notin> addrs s" using sa by auto
    show "hdr \<noteq> 0" using focus_disjoint(1) [OF f] .
  qed
  have pr: "p = root \<longleftrightarrow> k = []"
  proof -
    have "if k = [] then root = p else root \<in> ctx_addrs k" using focus_header [OF g] root by (simp split: if_splits)
    moreover have "p \<notin> ctx_addrs k" using focus_disjoint(4) [OF g] unfolding addrs_simps by blast
    ultimately show ?thesis by (simp split: if_splits) blast
  qed
  have yb: "(y = (if sd then y else ptr b)) \<longleftrightarrow> sd"
    using focus_ne_sibling(1) [OF f] ty(1) by auto
  have s0: "ptr s = 0 \<longleftrightarrow> s = Lf" using ts by (rule ptr_zero)
  obtain h1 where h1: "(if ptr s \<noteq> 0 then set_parent (ptr s) p h else Some h) = Some h1" "tree_at h1 p s"
    "\<And>q. q \<notin> addrs s \<Longrightarrow> h1 q = h q" "dom h1 = dom h" using reparent [OF ts ds(1)] by blast
  let ?n1 = "if s = Lf then (if y = rb_left n then n\<lparr>rb_left := p\<rparr> else if y = rb_right n then n\<lparr>rb_right := p\<rparr> else n) else n"
  let ?h3 = "h1(p \<mapsto> node sd c (up_ptr hdr k) (ptr s) (ptr b) w, hdr \<mapsto> n')"
  have at1: "h1 p = h p" "h1 hdr = h hdr" "h1 y = h y" using h1(3) p ds(2) by simp_all
  have a: "(if ptr s = 0 then (if y = rb_left n then set_left hdr p h else if y = rb_right n then set_right hdr p h else Some h)
      else set_parent (ptr s) p h) = Some (h1(hdr \<mapsto> ?n1))"
  proof (cases "s = Lf")
    case True
    then have "h1 = h" using h1(1) by simp
    then show ?thesis using True n p(8)
      by (cases "y = rb_left n"; cases "y = rb_right n") (simp_all add: set_left_def set_right_def wr_def fun_upd_triv [of h hdr, unfolded n])
  next
    case False
    have "h1(hdr \<mapsto> n) = h1" using at1(2) n by (simp add: fun_upd_idem)
    then show ?thesis using False s0 h1(1) by simp
  qed
  let ?H = "h1(hdr \<mapsto> ?n1)" and ?p = "node sd c (up_ptr hdr k) (ptr s) (ptr b) w"
  have Hp: "?H p = Some (node sd c (up_ptr hdr k) y (ptr b) w)" using p(2,3) at1(1) by simp
  have b: "rd rb_left p ?H = Some (if sd then y else ptr b)" using Hp p(1) by (simp add: rd_node node_def)
  have "splice hdr root y (ptr s) p h = do {
      h \<leftarrow> set_child sd p (ptr s) ?H; if ptr s \<noteq> 0 \<and> p = root then set_child sd hdr (ptr s) h else Some h }"
    unfolding splice_def rd_node [where h = h and a = hdr, OF n p(8)] Option.bind.bind_lunit a b yb set_child_def by (cases sd) simp_all
  also have "set_child sd p (ptr s) ?H = Some (?H(p \<mapsto> ?p))" using node_updates(1) [where h = ?H and a = p, OF Hp p(1)] .
  also have "do { h \<leftarrow> Some (?H(p \<mapsto> ?p)); if ptr s \<noteq> 0 \<and> p = root then set_child sd hdr (ptr s) h else Some h } = Some ?h3"
  proof (cases "ptr s \<noteq> 0 \<and> p = root")
    case True
    then have nn: "n' = (if sd then n\<lparr>rb_left := ptr s\<rparr> else n\<lparr>rb_right := ptr s\<rparr>)" "?n1 = n" using n' s0 pr by auto
    have "set_child sd hdr (ptr s) (?H(p \<mapsto> ?p)) = Some (?H(p \<mapsto> ?p, hdr \<mapsto> n'))"
      using p(3,8) nn by (cases sd) (simp_all add: set_child_def set_left_def set_right_def wr_def)
    then show ?thesis using True p(3) by (simp add: fun_upd_twist)
  next
    case False
    then have "n' = ?n1" using n' s0 pr by auto
    then show ?thesis using False p(3) by (auto simp: fun_upd_twist)
  qed
  finally have "splice hdr root y (ptr s) p h = Some ?h3" .
  moreover have "focus ?h3 hdr ?k s"
  proof (rule focus_spliced [OF f one])
    show "?h3 p = Some (node sd c (up_ptr hdr k) (ptr s) (ptr b) w)" using p(3) by simp
    show "tree_at ?h3 p s" using h1(2) p(4,7) by simp
    show "map_option rb_parent (?h3 hdr) = map_option rb_parent (h hdr)" using n n' by simp
    show "?h3 q = h q" if "q \<notin> insert p (insert hdr (addrs s))" for q using that h1(3) by simp
  qed
  moreover have "dom ?h3 = dom h" using h1(4) p(2) n by auto
  moreover have "?h3 y = h y" using at1(3) p(5,6) by simp
  ultimately show ?thesis by auto
qed

lemma splice_ends:
  assumes f: "focus h hdr (Fr sd p c w b # k) (Nd y cy vy l r)" and one: "l = Lf \<or> r = Lf" "s = only_child l r"
    and leaf: "s = Lf \<or> (\<exists>x cx vx. s = Nd x cx vx Lf Lf)"
    and e: "ends h hdr (before_hole (Fr sd p c w b # k) @ inord (Nd y cy vy l r) @ after_hole (Fr sd p c w b # k))"
    and good: "s = Lf \<or> k = [] \<or> before_hole (Fr sd p c w b # k) @ inord l \<noteq> [] \<and> inord r @ after_hole (Fr sd p c w b # k) \<noteq> []"
    and n: "h hdr = Some n" "h' hdr = Some n'"
    and n': "n' = (if s = Lf then (if y = rb_left n then n\<lparr>rb_left := p\<rparr> else if y = rb_right n then n\<lparr>rb_right := p\<rparr> else n)
      else if k = [] then (if sd then n\<lparr>rb_left := ptr s\<rparr> else n\<lparr>rb_right := ptr s\<rparr>) else n)"
  shows "ends h' hdr (before_hole (Fr sd p c w b # k) @ inord s @ after_hole (Fr sd p c w b # k))"
proof -
  define xs where "xs = before_hole (Fr sd p c w b # k)"
  define zs where "zs = after_hole (Fr sd p c w b # k)"
  have side: "if sd then zs \<noteq> [] \<and> fst (hd zs) = p else xs \<noteq> [] \<and> fst (last xs) = p" by (simp add: xs_def zs_def)
  have d: "distinct (map fst (xs @ inord (Nd y cy vy l r) @ zs))"
    using f unfolding focus_def xs_def zs_def by (simp del: before_hole.simps after_hole.simps)
  have e: "rb_color n = rb_red" "rb_left n = fst (hd (xs @ inord (Nd y cy vy l r) @ zs))" "rb_right n = fst (last (xs @ inord (Nd y cy vy l r) @ zs))"
    using e n(1) unfolding ends_def xs_def [symmetric] zs_def [symmetric] by simp_all
  have ne: "xs @ inord s @ zs \<noteq> []" using side by (auto split: if_splits)
  have col: "rb_color n' = rb_red" using n' e(1) by simp
  have "rb_left n' = fst (hd (xs @ inord s @ zs)) \<and> rb_right n' = fst (last (xs @ inord s @ zs))"
  proof (cases "s = Lf")
    case True
    then have lr: "l = Lf" "r = Lf" using one by (auto simp: only_child_def split: if_splits)
    have l: "y = rb_left n \<longleftrightarrow> xs = []" using e(2) d by (cases xs) (auto simp: lr)
    have r: "y = rb_right n \<longleftrightarrow> zs = []" using e(3) d by (cases zs rule: rev_cases) (auto simp: lr)
    have "n' = (if xs = [] then n\<lparr>rb_left := p\<rparr> else if zs = [] then n\<lparr>rb_right := p\<rparr> else n)" using n' True l r by simp
    then show ?thesis using side e(2,3) by (cases "xs = []"; cases "zs = []") (auto simp: True lr split: if_splits)
  next
    case False
    then obtain x cx vx where x: "s = Nd x cx vx Lf Lf" using leaf by auto
    show ?thesis
    proof (cases "k = []")
      case True
      then have "if sd then xs = [] else zs = []" by (simp add: xs_def zs_def)
      then show ?thesis using side e(2,3) by (cases sd) (auto simp: n' x True)
    next
      case F: False
      then have n': "n' = n" using n' False by simp
      have g: "xs @ inord l \<noteq> []" "inord r @ zs \<noteq> []" using good False F by (simp_all add: xs_def zs_def)
      have s: "inord s = inord l @ inord r" unfolding one(2) by (rule inord_only_child [OF one(1)])
      have "hd ((xs @ inord l) @ q) = hd (xs @ inord l)" for q using g(1) by (rule hd_append2)
      from this [of "(y, vy) # inord r @ zs"] this [of "inord r @ zs"]
      have "hd (xs @ inord (Nd y cy vy l r) @ zs) = hd (xs @ inord s @ zs)" by (simp add: s)
      moreover have "last (q @ (inord r @ zs)) = last (inord r @ zs)" for q using g(2) by (rule last_appendR)
      from this [of "xs @ inord l @ [(y, vy)]"] this [of "xs @ inord l"]
      have "last (xs @ inord (Nd y cy vy l r) @ zs) = last (xs @ inord s @ zs)" by (simp add: s)
      ultimately show ?thesis using e(2,3) n' by simp
    qed
  qed
  moreover have E: "q \<noteq> [] \<Longrightarrow> rb_left n' = fst (hd q) \<and> rb_right n' = fst (last q) \<Longrightarrow> ends h' hdr q" for q :: "(base_ptr \<times> 'a) list"
    using n(2) col by (simp add: ends_def)
  ultimately show ?thesis unfolding xs_def [symmetric] zs_def [symmetric] by (intro E [OF ne])
qed

section \<open>Taking a tree apart\<close>

lemma tree_at_unique: "tree_at h p t \<Longrightarrow> tree_at h p' t' \<Longrightarrow> ptr t = ptr t' \<Longrightarrow> t = t'"
proof (induction t arbitrary: p p' t')
  case Lf
  then show ?case using ptr_zero [of h p' t'] by simp
next
  case (Nd a c v l r)
  obtain b d u l' r' where t': "t' = Nd b d u l' r'" using Nd.prems ptr_zero [of h p "Nd a c v l r"] by (cases t') auto
  have "a = b" using Nd.prems(3) by (simp add: t')
  then have "ptr l = ptr l'" "ptr r = ptr r'" "c = d" "v = u" using Nd.prems(1,2) by (simp_all add: t' tree_at.simps(2))
  moreover have "tree_at h a l" "tree_at h a r" "tree_at h b l'" "tree_at h b r'" using Nd.prems(1,2) by (simp_all add: t' tree_at.simps(2))
  ultimately show ?case using Nd.IH \<open>a = b\<close> t' by blast
qed

lemma focus_unique:
  assumes "focus h hdr [] T" "focus h hdr k t"
  shows "plug k t = T"
proof -
  have f: "focus h hdr [] (plug k t)" using assms(2) focus_plug by blast
  have "ptr (plug k t) = ptr T" using focus_header [OF f] focus_header [OF assms(1)] by auto
  moreover have "tree_at h hdr (plug k t)" "tree_at h hdr T" using f assms(1) by (simp_all add: focus_def)
  ultimately show ?thesis using tree_at_unique by blast
qed

lemma unplug_rb:
  "invh (plug k t) \<Longrightarrow> invc (plug k t) \<Longrightarrow> col (plug k t) = rb_black \<Longrightarrow>
   ctx_ok k (bheight t) \<and> invh t \<and> invc t \<and> (col t = rb_red \<longrightarrow> k \<noteq> [] \<and> top_col k = rb_black)"
proof (induction k arbitrary: t)
  case (Cons f k)
  obtain side a c v s where f: "f = Fr side a c v s" by (cases f)
  have *: "ctx_ok k (bheight (fill f t)) \<and> invh (fill f t) \<and> invc (fill f t) \<and> (col (fill f t) = rb_red \<longrightarrow> k \<noteq> [] \<and> top_col k = rb_black)"
    using Cons.prems by (intro Cons.IH) simp_all
  then have st: "invh s" "invh t" "bheight s = bheight t" "invc s" "invc t" "c = rb_red \<Longrightarrow> col s = rb_black \<and> col t = rb_black"
    by (auto simp: f)
  then have "bheight (fill f t) = (if c = rb_black then bheight t + 1 else bheight t)" by (simp add: f)
  then show ?case using * st by (auto simp: f split: if_splits)
qed simp

lemma plug_append: "plug (ks @ k) t = plug k (plug ks t)"
  by (induction ks arbitrary: t) simp_all

lemma hole_append:
  "before_hole (ks @ k) = before_hole k @ before_hole ks" "after_hole (ks @ k) = after_hole ks @ after_hole k"
proof -
  have "before_hole (ks @ k) = before_hole k @ before_hole ks \<and> after_hole (ks @ k) = after_hole ks @ after_hole k"
  proof (induction ks)
    case (Cons f ks)
    then show ?case by (cases f) simp
  qed simp
  then show "before_hole (ks @ k) = before_hole k @ before_hole ks" "after_hole (ks @ k) = after_hole ks @ after_hole k" by auto
qed

lemma leftmost_path: "t \<noteq> Lf \<Longrightarrow> \<exists>ks y cy vy r. t = plug ks (Nd y cy vy Lf r) \<and> before_hole ks = []"
proof (induction t)
  case (Nd a c v l r)
  show ?case
  proof (cases "l = Lf")
    case True
    then show ?thesis by (intro exI [of _ "[]"]) simp
  next
    case False
    then obtain ks y cy vy q where l: "l = plug ks (Nd y cy vy Lf q)" "before_hole ks = []" using Nd.IH(1) by blast
    then have "Nd a c v l r = plug (ks @ [Fr True a c v r]) (Nd y cy vy Lf q)" by (simp add: plug_append fill.simps)
    moreover have "before_hole (ks @ [Fr True a c v r]) = []" using l(2) by (simp add: hole_append)
    ultimately show ?thesis by blast
  qed
qed simp

lemma ctx_ok_value: "ctx_ok (ks @ Fr sd a c v l # k) n = ctx_ok (ks @ Fr sd a c v' l # k) n"
proof -
  have "top_col (ks @ Fr sd a c v l # k) = top_col (ks @ Fr sd a c v' l # k)" for ks :: "'a frame list"
    by (cases ks rule: top_col.cases) simp_all
  then show ?thesis
  proof (induction ks arbitrary: n)
    case (Cons f ks)
    then show ?case by (cases f) simp
  qed simp
qed

lemma ends_cong: "map fst xs = map fst ys \<Longrightarrow> ends h hdr xs = ends h hdr ys"
proof -
  assume e: "map fst xs = map fst ys"
  then have "xs = [] \<longleftrightarrow> ys = []" by auto
  moreover have "fst (hd xs) = fst (hd ys)" "fst (last xs) = fst (last ys)" if "ys \<noteq> []"
    using that e \<open>xs = [] \<longleftrightarrow> ys = []\<close> hd_map [of xs fst] hd_map [of ys fst] last_map [of xs fst] last_map [of ys fst] by auto
  ultimately show ?thesis by (auto simp: ends_def split: option.splits)
qed

lemma focus_free:
  assumes "focus h hdr k t" "y \<noteq> hdr" "y \<notin> ctx_addrs k" "y \<notin> addrs t"
  shows "focus (h(y := None)) hdr k t"
  using assms by (simp add: focus_def)

end
