(* ===== verification/My_Rb_Remove.thy ===== *)
theory My_Rb_Remove
  imports My_Rb_Erase
begin

text \<open>
  Erasing a position and a key of the red-black tree: the node goes, the tree stays a red-black tree in the order of
  its keys, and the header's links stay right unless the first or the last node was erased.
\<close>

section \<open>After the links\<close>

lemma erase_colour:
  assumes f: "focus h hdr (Fr sd p c w b # k) s" and ok: "ctx_ok (Fr sd p c w b # k) (bheight (Nd y cy vy l r))"
    and t: "invh (Nd y cy vy l r)" "invc (Nd y cy vy l r)" "cy = rb_red \<longrightarrow> c = rb_black"
    and one: "l = Lf \<or> r = Lf" "s = only_child l r"
  shows "\<exists>h'. (if cy = rb_black then rb_erase_rebalance hdr (ptr s) p h else Some h) = Some h' \<and>
    mended h hdr h' (before_hole (Fr sd p c w b # k) @ inord s @ after_hole (Fr sd p c w b # k))"
proof -
  have s: "invh s" "invc s" "bheight s = bheight l" "bheight l = bheight r" using t(1,2) one by (auto simp: only_child_def)
  have x: "inord (plug (Fr sd p c w b # k) s) = before_hole (Fr sd p c w b # k) @ inord s @ after_hole (Fr sd p c w b # k)"
    by (rule inord_plug)
  show ?thesis
  proof (cases cy)
    case True
    then have "ctx_ok (Fr sd p c w b # k) (bheight s + 1)" using ok s(3) by simp
    from rb_erase_rebalance_ok [OF f this s(1,2)] show ?thesis using True unfolding x by simp
  next
    case False
    then have "ctx_ok (Fr sd p c w b # k) (bheight s)" "c = rb_black" using ok s(3) t(3) by simp_all
    then have "mended h hdr h (inord (plug (Fr sd p c w b # k) s))" using s(1,2) by (intro mended_stop [OF f same_heap_refl]) simp_all
    then show ?thesis using False unfolding x by simp
  qed
qed

lemma only_child_leaf:
  assumes "invh (Nd y cy vy l r)" "invc (Nd y cy vy l r)" "l = Lf \<or> r = Lf"
  shows "only_child l r = Lf \<or> (\<exists>x vx. only_child l r = Nd x rb_red vx Lf Lf)"
proof -
  have "bheight l = 0" "bheight r = 0" "invh l" "invh r" "invc l" "invc r" using assms by auto
  then show ?thesis using bheight_0 [of l] bheight_0 [of r] by (auto simp: only_child_def)
qed

text \<open>What remains of the tree when the node \<open>y\<close> is freed at the end.\<close>

lemma freed:
  assumes at: "rb_links t T" and m: "mended h1 (rt_header t) h2 xs" "dom h1 = dom (rt_heap t)"
    and split: "map fst (inord T) = map fst us @ y # map fst vs" "map fst xs = map fst us @ map fst vs"
  shows "\<exists>T'. rb_links (t\<lparr>rt_heap := h2(y := None), rt_node_count := rt_node_count t - 1\<rparr>) T' \<and> inord T' = xs \<and>
    (ends h1 (rt_header t) xs \<longrightarrow> rb_at (t\<lparr>rt_heap := h2(y := None), rt_node_count := rt_node_count t - 1\<rparr>) T')"
proof -
  let ?hdr = "rt_header t"
  let ?t = "t\<lparr>rt_heap := h2(y := None), rt_node_count := rt_node_count t - 1\<rparr>"
  obtain T' where T': "same_heap ?hdr h1 h2" "focus h2 ?hdr [] T'" "inord T' = xs" "invh T'" "invc T'" "col T' = rb_black"
    using m(1) unfolding mended_def by blast
  have a: "focus (rt_heap t) ?hdr [] T" "dom (rt_heap t) = insert ?hdr (addrs T)" "\<forall>a \<in> dom (rt_heap t). a < rt_fresh t"
    "rt_node_count t = length (inord T)" using at by (simp_all add: rb_links_def)
  have d: "distinct (?hdr # map fst us @ y # map fst vs)" using a(1) split(1) by (simp add: focus_def)
  have ad: "addrs T = insert y (addrs T')" "y \<notin> addrs T'"
  proof -
    have "addrs T = set (map fst (inord T))" "addrs T' = set (map fst xs)" by (simp_all add: addrs_def T'(3))
    then show "addrs T = insert y (addrs T')" "y \<notin> addrs T'" using d by (auto simp: split)
  qed
  have "length (map fst (inord T)) = Suc (length (map fst xs))" by (simp add: split)
  then have len: "length (inord T) = Suc (length xs)" by simp
  have foc: "focus (h2(y := None)) ?hdr [] T'" using d ad by (intro focus_free [OF T'(2)]) auto
  have "dom h2 = dom h1" using T'(1) by (simp add: same_heap_def)
  then have "dom (h2(y := None)) = insert ?hdr (addrs T')" using m(2) a(2) ad d by auto
  moreover from this have "\<forall>a \<in> dom (h2(y := None)). a < rt_fresh t" using a(2,3) ad(1) by auto
  ultimately have links: "rb_links ?t T'" using foc T'(3-6) a(4) len unfolding rb_links_def by simp
  moreover have "rb_at ?t T'" if e: "ends h1 ?hdr xs"
  proof -
    have "ends h2 ?hdr xs" using same_heap_ends [OF T'(1) e] .
    then have "ends (h2(y := None)) ?hdr xs" using d by (simp add: ends_def)
    then show ?thesis using links T'(3) by (simp add: rb_at_def)
  qed
  ultimately show ?thesis using T'(3) by blast
qed

section \<open>Erasing the root\<close>

lemma rb_erase_root:
  assumes at: "rb_at t (Nd a c v l r)" and one: "l = Lf \<or> r = Lf"
  shows "\<exists>t' T'. rb_erase a t = Some t' \<and> rb_at t' T' \<and> inord T' = inord l @ inord r"
proof -
  let ?h = "rt_heap t" and ?hdr = "rt_header t"
  have f: "focus ?h ?hdr [] (Nd a c v l r)" "invh (Nd a c v l r)" "invc (Nd a c v l r)" "dom ?h = insert ?hdr (addrs (Nd a c v l r))"
    "\<forall>a \<in> dom ?h. a < rt_fresh t" "rt_node_count t = length (inord (Nd a c v l r))"
    using at unfolding rb_at_defs by blast+
  have ta: "tree_at ?h ?hdr (Nd a c v l r)" using f(1) by (simp add: focus_def)
  note t = tree_at_reads [OF ta]
  have root: "rd rb_parent ?hdr ?h = Some a" using focus_header [OF f(1)] by simp
  have hdr: "?hdr \<noteq> 0" "?hdr \<noteq> a" "?hdr \<notin> addrs l" "?hdr \<notin> addrs r" using focus_disjoint [OF f(1)] by auto
  have d: "a \<notin> addrs l" "a \<notin> addrs r" using focus_distinct [OF f(1)] by (auto simp: addrs_def)
  obtain n where n: "?h ?hdr = Some n" "rb_color n = rb_red" using at by (auto simp: rb_at_def ends_def split: option.splits)
  from only_child_leaf [OF f(2,3) one] show ?thesis
  proof
    assume "only_child l r = Lf"
    then have lr: "l = Lf" "r = Lf" using one by (auto simp: only_child_def split: if_splits)
    let ?n = "n\<lparr>rb_parent := 0, rb_left := ?hdr, rb_right := ?hdr\<rparr>"
    let ?t = "t\<lparr>rt_heap := ?h(?hdr \<mapsto> ?n, a := None), rt_node_count := rt_node_count t - 1\<rparr>"
    have "rb_erase a t = Some ?t"
      using t(3-5) root hdr(1) n by (simp add: rb_erase_def lr set_parent_def set_left_def set_right_def wr_def rd_node)
    moreover have "rb_at ?t Lf" unfolding rb_at_defs
      using f(4-6) n hdr(1,2) by (auto simp: lr focus_def ends_def)
    ultimately show ?thesis by (intro exI conjI) (auto simp: lr)
  next
    assume "\<exists>x vx. only_child l r = Nd x rb_red vx Lf Lf"
    then obtain x vx where x: "only_child l r = Nd x rb_red vx Lf Lf" by blast
    let ?n = "n\<lparr>rb_parent := x, rb_left := x, rb_right := x\<rparr>"
    let ?x = "\<lparr>rb_color = rb_black, rb_parent = ?hdr, rb_left = 0, rb_right = 0, rb_value = vx\<rparr>"
    let ?t = "t\<lparr>rt_heap := ?h(x \<mapsto> ?x, ?hdr \<mapsto> ?n, a := None), rt_node_count := rt_node_count t - 1\<rparr>"
    have tx: "tree_at ?h a (Nd x rb_red vx Lf Lf)" using t(7,8) x by (auto simp: only_child_def split: if_splits)
    note tx = tree_at_reads [OF tx] tx
    have lr: "l = Nd x rb_red vx Lf Lf \<and> r = Lf \<or> l = Lf \<and> r = Nd x rb_red vx Lf Lf" using x one by (auto simp: only_child_def split: if_splits)
    have ne: "x \<noteq> a" "x \<noteq> ?hdr" "x \<noteq> 0" using lr d hdr tx(1) by auto
    have hx: "?h x = Some \<lparr>rb_color = rb_red, rb_parent = a, rb_left = 0, rb_right = 0, rb_value = vx\<rparr>"
      using tx(9) by (simp add: tree_at.simps(2))
    have "rb_erase a t = Some ?t"
      using t(1,3-5) lr root hdr(1,2) n ne hx
      by (auto simp: rb_erase_def set_parent_def set_left_def set_right_def set_color_def wr_def rd_node fun_upd_twist)
    moreover have "rb_at ?t (Nd x rb_black vx Lf Lf)" unfolding rb_at_defs
      using f(4-6) n hdr(1,2) ne lr by (auto simp: focus_def ends_def tree_at.simps(2))
    moreover have "inord (Nd x rb_black vx Lf Lf) = inord l @ inord r" using lr by auto
    ultimately show ?thesis by blast
  qed
qed

section \<open>Erasing a position\<close>

lemma wr_other: "wr g a h = Some h' \<Longrightarrow> q \<noteq> a \<Longrightarrow> h' q = h q"
  by (auto simp: wr_def split: if_splits option.splits)

lemma up_ptr_append: "up_ptr hdr (ks @ Fr sd a c v l # k) = up_ptr hdr (ks @ Fr sd a c v' l # k)"
  by (cases ks; cases "hd ks") auto

lemma top_col_append: "top_col (ks @ Fr sd a c v l # k) = top_col (ks @ Fr sd a c v' l # k)"
  by (cases ks; cases "hd ks") auto

lemma rb_part:
  assumes "rb_at t T" "focus (rt_heap t) (rt_header t) k u"
  shows "plug k u = T" "ctx_ok k (bheight u)" "invh u" "invc u" "col u = rb_red \<longrightarrow> k \<noteq> [] \<and> top_col k = rb_black"
proof -
  have T: "focus (rt_heap t) (rt_header t) [] T" "invh T" "invc T" "col T = rb_black" using assms(1) by (simp_all add: rb_at_defs)
  show "plug k u = T" using focus_unique [OF T(1) assms(2)] .
  then show "ctx_ok k (bheight u)" "invh u" "invc u" "col u = rb_red \<longrightarrow> k \<noteq> [] \<and> top_col k = rb_black"
    using unplug_rb [of k u] T(2-4) by simp_all
qed

text \<open>The reads of \<open>erase\<close> at the node \<open>y\<close> that goes.\<close>

lemma erase_reads:
  assumes f: "focus h hdr (Fr sd p c w b # k) (Nd y cy vy l r)" and one: "l = Lf \<or> r = Lf"
  shows "rd rb_left y h = Some (ptr l)" "rd rb_right y h = Some (ptr r)" "rd rb_parent y h = Some p" "rd rb_color y h = Some cy"
    "rd rb_value y h = Some vy" "ptr (only_child l r) = (if ptr l \<noteq> 0 then ptr l else ptr r)"
    "\<exists>root. rd rb_parent hdr h = Some root \<and> y \<noteq> root"
proof -
  have y: "tree_at h p (Nd y cy vy l r)" using f by (simp add: focus_def)
  note t = tree_at_reads [OF y]
  show "rd rb_left y h = Some (ptr l)" "rd rb_right y h = Some (ptr r)" "rd rb_parent y h = Some p" "rd rb_color y h = Some cy"
    "rd rb_value y h = Some vy" using t by simp_all
  show "ptr (only_child l r) = (if ptr l \<noteq> 0 then ptr l else ptr r)"
    using ptr_zero [OF t(7)] one by (auto simp: only_child_def)
  show "\<exists>root. rd rb_parent hdr h = Some root \<and> y \<noteq> root" using focus_header [OF f] by auto
qed

lemma rb_erase_here:
  assumes at: "rb_at t T" and f: "focus (rt_heap t) (rt_header t) (Fr sd p cp w b # k) (Nd a c v l r)" and one: "l = Lf \<or> r = Lf"
    and xs: "before_hole (Fr sd p cp w b # k) @ inord l = xs" "inord r @ after_hole (Fr sd p cp w b # k) = ys"
  shows "\<exists>t' T'. rb_erase a t = Some t' \<and> rb_links t' T' \<and> inord T' = xs @ ys \<and> (xs \<noteq> [] \<and> ys \<noteq> [] \<longrightarrow> rb_at t' T')"
proof -
  let ?h = "rt_heap t" and ?hdr = "rt_header t" and ?K = "Fr sd p cp w b # k"
  define s where "s = only_child l r"
  note part = rb_part [OF at f]
  have T: "inord T = before_hole ?K @ inord (Nd a c v l r) @ after_hole ?K" using part(1) inord_plug [of ?K] by metis
  note reads = erase_reads [OF f one]
  obtain root where root: "rd rb_parent ?hdr ?h = Some root" "a \<noteq> root" using reads(7) by blast
  obtain n where n: "?h ?hdr = Some n" using at by (auto simp: rb_at_def ends_def split: option.splits)
  obtain h1 n' where h1: "splice ?hdr root a (ptr s) p ?h = Some h1" "focus h1 ?hdr ?K s" "dom h1 = dom ?h" "h1 a = ?h a" "h1 ?hdr = Some n'"
    and n': "n' = (if s = Lf then (if a = rb_left n then n\<lparr>rb_left := p\<rparr> else if a = rb_right n then n\<lparr>rb_right := p\<rparr> else n)
      else if k = [] then (if sd then n\<lparr>rb_left := ptr s\<rparr> else n\<lparr>rb_right := ptr s\<rparr>) else n)"
    using splice_heap [OF f one s_def n root(1) refl] by blast
  have a: "rd rb_color a h1 = Some c" "rd rb_parent a h1 = Some p" using reads(3,4) h1(4) by (simp_all add: rd_def split: if_splits)
  have cc: "c = rb_red \<longrightarrow> cp = rb_black" using part(5) by simp
  obtain h2 where h2: "(if c = rb_black then rb_erase_rebalance ?hdr (ptr s) p h1 else Some h1) = Some h2"
    "mended h1 ?hdr h2 (before_hole ?K @ inord s @ after_hole ?K)"
    using erase_colour [OF h1(2) part(2-4) cc one s_def] by blast
  have sp: "before_hole ?K @ inord s @ after_hole ?K = xs @ ys"
    unfolding s_def inord_only_child [OF one] using xs by (metis append.assoc)
  let ?t = "t\<lparr>rt_heap := h2(a := None), rt_node_count := rt_node_count t - 1\<rparr>"
  have "rb_erase a t = Some ?t"
    by (subst rb_erase_inner [OF refl refl reads(1,2) _ reads(1,2) reads(6) [folded s_def] reads(3) root])
      (use reads(6) one h1(1) a h2(1) ptr_zero [of ?h a l] ptr_zero [of ?h a r] in \<open>auto simp: s_def only_child_def\<close>)
  moreover have "map fst (inord T) = map fst xs @ a # map fst ys"
    unfolding T using xs by (simp del: before_hole.simps after_hole.simps add: xs [symmetric])
  then obtain T' where "rb_links ?t T'" "inord T' = xs @ ys" "ends h1 ?hdr (xs @ ys) \<longrightarrow> rb_at ?t T'"
    using freed [OF _ h2(2) [unfolded sp] h1(3), of T xs a ys] at by (auto simp: rb_at_def)
  moreover have "ends h1 ?hdr (xs @ ys)" if "xs \<noteq> []" "ys \<noteq> []"
  proof -
    have leaf: "s = Lf \<or> (\<exists>x cx vx. s = Nd x cx vx Lf Lf)" using only_child_leaf [OF part(3,4) one] by (auto simp: s_def)
    have e: "ends ?h ?hdr (before_hole ?K @ inord (Nd a c v l r) @ after_hole ?K)" using at unfolding rb_at_def T by blast
    have good: "s = Lf \<or> k = [] \<or> before_hole ?K @ inord l \<noteq> [] \<and> inord r @ after_hole ?K \<noteq> []" using that unfolding xs by blast
    from splice_ends [where h = ?h and h' = h1, OF f one s_def leaf e good n h1(5) n'] show ?thesis unfolding sp .
  qed
  ultimately show ?thesis by blast
qed

text \<open>With two children the next node goes and the position takes its value.\<close>

lemma rb_erase_next:
  assumes at: "rb_at t T" and f: "focus (rt_heap t) (rt_header t) k (Nd a c v l r)" and two: "l \<noteq> Lf" "r \<noteq> Lf"
    and xs: "before_hole k @ inord l = xs" "inord r @ after_hole k = ys"
  shows "\<exists>t' T'. rb_erase a t = Some t' \<and> map snd (inord T') = map snd (xs @ ys) \<and> rb_at t' T'"
proof -
  let ?h = "rt_heap t" and ?hdr = "rt_header t"
  obtain ks y cy vy q where path: "r = plug ks (Nd y cy vy Lf q)" "before_hole ks = []" using leftmost_path [OF two(2)] by blast
  define K where "K = ks @ Fr False a c v l # k"
  define K' where "K' = ks @ Fr False a c vy l # k"
  have fr: "focus ?h ?hdr (Fr False a c v l # k) r" using f by (simp add: focus_up fill.simps)
  then have fK: "focus ?h ?hdr K (Nd y cy vy Lf q)" unfolding K_def path(1) by (rule focus_append [THEN iffD2])
  obtain sd p cp w b k2 where K: "K = Fr sd p cp w b # k2" unfolding K_def by (cases ks; cases "hd ks") auto
  note fK' = fK [unfolded K]
  have up: "up_ptr ?hdr K' = p" "up_ptr ?hdr K = p" "top_col K' = top_col K"
    using K unfolding K_def K'_def by (simp_all add: up_ptr_append [of _ _ _ _ _ vy l k v] top_col_append [of _ _ _ _ vy l k v])
  obtain sd2 p2 cp2 w2 b2 k3 where K2: "K' = Fr sd2 p2 cp2 w2 b2 # k3" unfolding K'_def by (cases ks; cases "hd ks") auto
  have p2: "p2 = p" "cp2 = cp" using up K K2 by simp_all
  have one: "Lf = Lf \<or> q = Lf" by simp
  note part = rb_part [OF at fK]
  have bK: "before_hole K = xs @ [(a, v)]" "after_hole K = after_hole ks @ after_hole k"
    and bK': "before_hole K' = xs @ [(a, vy)]" "after_hole K' = after_hole ks @ after_hole k"
    using path(2) xs(1) unfolding K_def K'_def hole_append by simp_all
  have ys: "ys = (y, vy) # inord q @ after_hole ks @ after_hole k"
    using xs(2) path unfolding path(1) inord_plug by simp
  have T: "inord T = xs @ (a, v) # ys" using part(1) inord_plug [of K] bK ys by (metis append.assoc append_Cons append_Nil inord.simps)
  note reads = erase_reads [OF fK' one]
  have fa: "tree_at ?h (up_ptr ?hdr k) (Nd a c v l r)" using f by (simp add: focus_def)
  note ra = tree_at_reads [OF fa]
  have inc: "(if ptr l = 0 \<or> ptr r = 0 then Some a else rb_increment a ?h) = Some y"
    using rb_increment_at [OF at T] ptr_zero [OF ra(7)] ptr_zero [OF ra(8)] two by (simp add: ys)
  obtain root where root: "rd rb_parent ?hdr ?h = Some root" "y \<noteq> root" using reads(7) by blast
  obtain n where n: "?h ?hdr = Some n" using at by (auto simp: rb_at_def ends_def split: option.splits)
  have s: "q = only_child Lf q" by (simp add: only_child_def)
  obtain h1 n' where h1: "splice ?hdr root y (ptr q) p ?h = Some h1" "focus h1 ?hdr K q" "dom h1 = dom ?h" "h1 y = ?h y" "h1 ?hdr = Some n'"
    and n': "n' = (if q = Lf then (if y = rb_left n then n\<lparr>rb_left := p\<rparr> else if y = rb_right n then n\<lparr>rb_right := p\<rparr> else n)
      else if k2 = [] then (if sd then n\<lparr>rb_left := ptr q\<rparr> else n\<lparr>rb_right := ptr q\<rparr>) else n)"
    using splice_heap [OF fK' one s n root(1) refl] unfolding K by blast
  have "y \<notin> fst ` set xs" "a \<noteq> y" using focus_distinct [of ?h ?hdr "[]" T] at by (auto simp: rb_at_defs T ys)
  have "focus h1 ?hdr (Fr False a c v l # k) (plug ks q)" using h1(2) unfolding K_def by (rule focus_append [THEN iffD1])
  then have "focus h1 ?hdr k (fill (Fr False a c v l) (plug ks q))" by (rule focus_up [THEN iffD1])
  from set_value_focus [OF this, of vy] obtain h2 where h2: "wr (\<lambda>n. n\<lparr>rb_value := vy\<rparr>) a h1 = Some h2" "same_heap ?hdr h1 h2"
    "focus h2 ?hdr k (fill (Fr False a c vy l) (plug ks q))" by blast
  have "focus h2 ?hdr (Fr False a c vy l # k) (plug ks q)" using h2(3) by (rule focus_up [THEN iffD2])
  then have f2: "focus h2 ?hdr K' q" unfolding K'_def by (rule focus_append [THEN iffD2])
  have y2: "h2 y = ?h y" using wr_other [OF h2(1), of y] \<open>a \<noteq> y\<close> h1(4) by simp
  have yr: "rd rb_value y h1 = Some vy" "rd rb_color y h2 = Some cy" "rd rb_parent y h2 = Some p"
    using reads(3-5) h1(4) y2 by (simp_all add: rd_def split: if_splits)
  have ok: "ctx_ok K' (bheight (Nd y cy vy Lf q))" using part(2) unfolding K_def K'_def ctx_ok_value [of ks False a c vy l k _ v] .
  have cc: "cy = rb_red \<longrightarrow> cp2 = rb_black" using part(5) K p2(2) by simp
  obtain h3 where h3: "(if cy = rb_black then rb_erase_rebalance ?hdr (ptr q) p h2 else Some h2) = Some h3"
    "mended h2 ?hdr h3 (before_hole K' @ inord q @ after_hole K')"
    using erase_colour [OF f2 [unfolded K2] ok [unfolded K2] part(3,4) cc one s] unfolding p2(1) K2 by blast
  let ?t = "t\<lparr>rt_heap := h3(y := None), rt_node_count := rt_node_count t - 1\<rparr>"
  let ?xs = "before_hole K' @ inord q @ after_hole K'"
  have "ptr q = (if ptr (Lf :: 'a rbt) \<noteq> 0 then ptr (Lf :: 'a rbt) else ptr q)" by simp
  from rb_erase_inner [OF refl refl ra(4,5) inc reads(1,2) this reads(3) root]
  have "rb_erase a t = Some ?t"
    using h1(1) \<open>a \<noteq> y\<close> yr h2(1) h3(1) by (cases cy) simp_all
  moreover have "dom h2 = dom ?h" using h2(2) h1(3) by (simp add: same_heap_def)
  moreover have m: "map fst (inord T) = map fst (before_hole K') @ y # map fst (inord q @ after_hole K')"
    "map fst ?xs = map fst (before_hole K') @ map fst (inord q @ after_hole K')" by (simp_all add: T ys bK')
  ultimately obtain T' where T': "rb_erase a t = Some ?t" "inord T' = ?xs" "ends h2 ?hdr ?xs \<longrightarrow> rb_at ?t T'"
    using freed [OF _ h3(2) _ m] at unfolding rb_at_def by blast
  have "ends h2 ?hdr ?xs"
  proof -
    have leaf: "q = Lf \<or> (\<exists>x cx vx. q = Nd x cx vx Lf Lf)" using only_child_leaf [OF part(3,4) one] by (auto simp: only_child_def)
    have e: "ends ?h ?hdr (before_hole K @ inord (Nd y cy vy Lf q) @ after_hole K)"
      using at T by (simp add: rb_at_def bK ys)
    have good: "q = Lf \<or> k2 = [] \<or> before_hole K @ inord (Lf :: 'a rbt) \<noteq> [] \<and> inord q @ after_hole K \<noteq> []"
      by (cases q) (simp_all add: bK)
    have "ends h1 ?hdr (before_hole K @ inord q @ after_hole K)"
      using splice_ends [where h = ?h and h' = h1, OF fK' one s leaf e [unfolded K] good [unfolded K] n h1(5) n'] unfolding K .
    then have "ends h2 ?hdr (before_hole K @ inord q @ after_hole K)" using same_heap_ends [OF h2(2)] by blast
    moreover have "map fst (before_hole K @ inord q @ after_hole K) = map fst ?xs" by (simp add: bK bK')
    ultimately show ?thesis using ends_cong by blast
  qed
  moreover have "map snd ?xs = map snd (xs @ ys)" by (simp add: bK' ys)
  ultimately show ?thesis using T' by metis
qed

lemma rb_erase_at:
  assumes at: "rb_at t T" and split: "inord T = xs @ (a, v) # ys"
  shows "\<exists>t' T'. rb_erase a t = Some t' \<and> rb_links t' T' \<and> map snd (inord T') = map snd (xs @ ys) \<and>
    (xs \<noteq> [] \<and> ys \<noteq> [] \<longrightarrow> rb_at t' T')"
proof -
  obtain k c l r where k: "focus (rt_heap t) (rt_header t) k (Nd a c v l r)" "before_hole k @ inord l = xs" "inord r @ after_hole k = ys"
    using position [OF at split] by metis
  show ?thesis
  proof (cases "l = Lf \<or> r = Lf")
    case one: True
    show ?thesis
    proof (cases k)
      case Nil
      have "Nd a c v l r = T" using rb_part(1) [OF at k(1)] Nil by simp
      then obtain t' T' where "rb_erase a t = Some t'" "rb_at t' T'" "inord T' = inord l @ inord r"
        using rb_erase_root [OF _ one, of t a c v] at by blast
      moreover have "xs = inord l" "ys = inord r" using k(2,3) Nil by simp_all
      ultimately show ?thesis unfolding rb_at_def by metis
    next
      case (Cons f k2)
      then obtain sd p cp w b where "k = Fr sd p cp w b # k2" by (cases f) simp
      then have kk: "focus (rt_heap t) (rt_header t) (Fr sd p cp w b # k2) (Nd a c v l r)" "before_hole (Fr sd p cp w b # k2) @ inord l = xs"
        "inord r @ after_hole (Fr sd p cp w b # k2) = ys" using k by simp_all
      from rb_erase_here [OF at kk(1) one kk(2,3)] show ?thesis by metis
    qed
  next
    case False
    then have "l \<noteq> Lf" "r \<noteq> Lf" by simp_all
    from rb_erase_next [OF at k(1) this k(2,3)] show ?thesis unfolding rb_at_def by metis
  qed
qed

section \<open>Erasing a key\<close>

lemma rb_increment_end:
  assumes "rb_at t T" "inord T \<noteq> []"
  shows "\<exists>x. rb_increment (rt_header t) (rt_heap t) = Some x"
proof -
  obtain xs a v where T: "inord T = xs @ [(a, v)]" using assms(2) by (metis rev_exhaust surj_pair)
  obtain k c l r where f: "focus (rt_heap t) (rt_header t) k (Nd a c v l r)" using position [OF assms(1) T] by metis
  then have "tree_at (rt_heap t) (up_ptr (rt_header t) k) (Nd a c v l r)" by (simp add: focus_def)
  then have "\<exists>x. rb_minimum a (rt_heap t) = Some x" "a \<noteq> 0" using rb_minimum_ok tree_at_reads(1) by force+
  moreover have "rd rb_right (rt_header t) (rt_heap t) = Some a"
    using assms(1) focus_disjoint(1) by (fastforce simp: rb_at_defs ends_def T rd_def split: option.splits)
  ultimately show ?thesis by (auto simp: rb_increment_def)
qed

lemma rb_erase_key_absent:
  assumes rel: "rb_rel key t ws" and absent: "\<forall>w \<in> set ws. key w \<noteq> k"
  shows "\<exists>t'. rb_erase_key key k t = Some (0, t') \<and> rb_rel key t' ws"
proof -
  obtain T where T: "rb_at t T" "map snd (inord T) = ws" "in_order key (inord T)" using rb_relE [OF rel] by metis
  let ?C = "dropWhile (upto_key key k) (inord T)" and ?hdr = "rt_header t"
  have "filter (\<lambda>x. key (snd x) = k) (inord T) = []" using absent by (auto simp: filter_empty_conv simp flip: T(2))
  then have C: "dropWhile (below_key key k) (inord T) = ?C" using in_order_middle [OF T(3), of k] by simp
  then have range: "rb_equal_range key k t = Some (first_of ?hdr ?C, first_of ?hdr ?C)" using rb_lower_at(1) [OF T(1,3), of k] by simp
  have n: "rt_node_count t = length ws" using T by (auto simp: rb_at_defs)
  have split: "inord T = takeWhile (upto_key key k) (inord T) @ ?C" by simp
  show ?thesis
  proof (cases "inord T")
    case Nil
    then have "ws = []" using T(2) by simp
    obtain t' where t': "rb_clear t = Some t'" "rb_rel key t' []" using rb_clear_ok [OF rel] by blast
    have "rt_node_count t' = 0" using t'(2) by (auto simp: rb_rel_def rb_at_defs)
    moreover have "rb_erase_range (first_of ?hdr ?C) (first_of ?hdr ?C) t = Some t'"
      using rb_at_header(2) [OF T(1)] t'(1) Nil by (simp add: rb_erase_range_def rb_end_def)
    ultimately show ?thesis using range t'(2) n \<open>ws = []\<close> by (simp add: rb_erase_key_def)
  next
    case (Cons x xs)
    have "fst x \<noteq> ?hdr" using rb_at_value(2) [OF T(1), of "fst x" "snd x"] Cons by simp
    then have b: "rb_begin t = Some (fst x)" "fst x \<noteq> ?hdr" using rb_at_header(2) [OF T(1)] Cons by simp_all
    have "\<exists>y. rb_increment (first_of ?hdr ?C) (rt_heap t) = Some y"
    proof (cases ?C)
      case Nil
      then show ?thesis using rb_increment_end [OF T(1)] Cons by simp
    next
      case (Cons c C)
      then show ?thesis using rb_increment_at [OF T(1), of "takeWhile (upto_key key k) (inord T)" "fst c" "snd c" C] split by simp
    qed
    then obtain y where "rb_increment (first_of ?hdr ?C) (rt_heap t) = Some y" by blast
    then have "rb_erase_range (first_of ?hdr ?C) (first_of ?hdr ?C) t = Some t"
      using b by (simp add: rb_erase_range_def rb_end_def erase_range_loop.simps) metis
    then show ?thesis using range rel by (simp add: rb_erase_key_def)
  qed
qed

lemma rb_erase_key_inner:
  assumes rel: "rb_rel key t ws" and ws: "ws = us @ w # rs" "us \<noteq> []" "rs \<noteq> []" and uniq: "\<forall>x \<in> set us \<union> set rs. key x \<noteq> key w"
  shows "\<exists>t'. rb_erase_key key (key w) t = Some (1, t') \<and> rb_rel key t' (us @ rs)"
proof -
  obtain T where T: "rb_at t T" "map snd (inord T) = ws" "in_order key (inord T)" using rb_relE [OF rel] by metis
  let ?k = "key w" and ?hdr = "rt_header t"
  obtain A a C where split: "inord T = A @ (a, w) # C" "map snd A = us" "map snd C = rs"
    using T(2) unfolding ws by (auto simp: map_eq_append_conv map_eq_Cons_conv)
  have ne: "A \<noteq> []" "C \<noteq> []" using split(2,3) ws(2,3) by auto
  have ord: "\<forall>x \<in> set A. key (snd x) < ?k" "\<forall>x \<in> set C. ?k < key (snd x)"
  proof -
    have "key (snd x) \<noteq> ?k" if "x \<in> set A \<union> set C" for x using uniq that by (auto simp flip: split(2,3))
    then show "\<forall>x \<in> set A. key (snd x) < ?k" "\<forall>x \<in> set C. ?k < key (snd x)"
      using T(3) unfolding split(1) by (fastforce simp: less_le)+
  qed
  have lo: "dropWhile (below_key key ?k) (inord T) = (a, w) # C" using ord(1) by (simp add: split(1) dropWhile_append2)
  have hi: "dropWhile (upto_key key ?k) (inord T) = C"
  proof -
    have "dropWhile (upto_key key ?k) C = C" using ord(2) ne(2) by (cases C) auto
    moreover have "\<And>x. x \<in> set A \<Longrightarrow> upto_key key ?k x" using ord(1) by force
    ultimately show ?thesis by (simp add: split(1) dropWhile_append2)
  qed
  have range: "rb_equal_range key ?k t = Some (a, first_of ?hdr C)" using rb_lower_at(1) [OF T(1,3), of ?k] by (simp add: lo hi)
  obtain b B where A: "A = b # B" using ne(1) by (cases A) auto
  have d: "distinct (map fst (inord T))" using T(1) focus_distinct unfolding rb_at_defs by blast
  have lm: "rb_begin t = Some (fst b)" "fst b \<noteq> a" using rb_at_header(2) [OF T(1)] d by (auto simp: split(1) A)
  have "a \<noteq> first_of ?hdr C" using d ne(2) by (cases C) (auto simp: split(1))
  moreover have "rb_increment a (rt_heap t) = Some (first_of ?hdr C)" using rb_increment_at [OF T(1) split(1)] .
  moreover obtain t' T' where t': "rb_erase a t = Some t'" "rb_links t' T'" "map snd (inord T') = map snd (A @ C)" "rb_at t' T'"
    using rb_erase_at [OF T(1) split(1)] ne by blast
  ultimately have "rb_erase_range a (first_of ?hdr C) t = Some t'" using lm by (simp add: rb_erase_range_def erase_range_loop.simps)
  moreover have "rt_node_count t = Suc (rt_node_count t')"
  proof -
    have "length (map snd (inord T')) = length (map snd (A @ C))" by (simp only: t'(3))
    then show ?thesis using T(1) t'(2) by (simp add: rb_at_defs split(1))
  qed
  moreover have "rb_rel key t' (us @ rs)"
  proof -
    have "sorted (map key (us @ rs))" using rel by (auto simp: rb_rel_def ws sorted_append)
    then show ?thesis using t'(3,4) split(2,3) by (auto simp: rb_rel_def)
  qed
  ultimately show ?thesis using range by (simp add: rb_erase_key_def)
qed

text \<open>C36: Erasing a key that occurs at most once, neither first nor last, removes exactly its value and returns how often it
  occurred: the tree stays a red-black tree in the order of its keys with the right links of the header. The steps of
  both rebalancing loops are followed on the heap, and no null or freed node is read.\<close>

theorem RbTree_erase_key:
  assumes "rb_rel key t ws" "length (filter (\<lambda>w. key w = k) ws) \<le> 1" "ws \<noteq> [] \<longrightarrow> key (hd ws) \<noteq> k \<and> key (last ws) \<noteq> k"
  shows "\<exists>t'. rb_erase_key key k t = Some (length (filter (\<lambda>w. key w = k) ws), t') \<and> rb_rel key t' (filter (\<lambda>w. key w \<noteq> k) ws)"
proof (cases "\<forall>w \<in> set ws. key w \<noteq> k")
  case True
  then have "filter (\<lambda>w. key w = k) ws = []" "filter (\<lambda>w. key w \<noteq> k) ws = ws" by (auto simp: filter_empty_conv intro: filter_True)
  then show ?thesis using rb_erase_key_absent [OF assms(1) True] by simp
next
  case False
  then obtain us w rs where w: "ws = us @ w # rs" "key w = k" by (metis split_list)
  then have none: "filter (\<lambda>w. key w = k) us = []" "filter (\<lambda>w. key w = k) rs = []" using assms(2) by (auto simp: w(2))
  then have uniq: "\<forall>x \<in> set us \<union> set rs. key x \<noteq> key w" by (auto simp: filter_empty_conv w(2))
  then have "filter (\<lambda>w. key w \<noteq> k) us = us" "filter (\<lambda>w. key w \<noteq> k) rs = rs" using w(2) by (auto intro: filter_True)
  moreover have "us \<noteq> []" "rs \<noteq> []" using assms(3) w by auto
  ultimately show ?thesis using rb_erase_key_inner [OF assms(1) w(1) _ _ uniq] none w by simp
qed

definition rb_sample :: "(nat, nat) rb_op list" where
  "rb_sample = map TInsertUnique [40, 20, 60, 10, 30, 50, 70, 15]"

lemma RbTree_erase_key_witness:
  "\<exists>t'. rb_erase_key id 40 (snd (run_ops (rb_exec id) rb_sample (rb_init 0))) = Some (1, t') \<and> rb_rel id t' [10, 15, 20, 30, 50, 60, 70]"
proof -
  have spec: "snd (run_ops (rb_spec id) rb_sample []) = [10, 15, 20, 30, 40, 50, 60, 70]" by code_simp
  have "rb_rel id (snd (run_ops (rb_exec id) rb_sample (rb_init 0))) [10, 15, 20, 30, 40, 50, 60, 70]"
    unfolding spec [symmetric] by (rule rbt.run_simulates [OF rb_init_ok, THEN conjunct2])
  from RbTree_erase_key [OF this, of 40] show ?thesis by simp
qed

end
