(* ===== verification/Hash_Db.thy ===== *)
theory Hash_Db
  imports Coding_Int Hash_Fun "HOL-Library.Monad_Syntax"
begin

text \<open>
  The hash database (store/db/hash_db): an index file with a directory of \<open>HashDB_kMaxKeysNum\<close> chains of
  buckets, and a data file of records. Files are byte lists with explicit positions; a short read is the error
  kReadError, writes succeed. \<open>None\<close> is undefined behaviour (a record larger than \<open>buf_\<close>, a failed assertion) or a
  chain that does not end.
\<close>

section \<open>Files\<close>

definition file_read :: "nat \<Rightarrow> nat \<Rightarrow> bytes \<Rightarrow> bytes res" where
  "file_read pos n f = (if pos + n \<le> length f then Inr (take n (drop pos f)) else Inl kReadError)"

definition file_write :: "nat \<Rightarrow> bytes \<Rightarrow> bytes \<Rightarrow> bytes" where
  "file_write pos bs f = take pos (f @ replicate (pos - length f) 0) @ bs @ drop (pos + length bs) f"

section \<open>Records of the files\<close>

definition HashDB_kPreKeySize :: nat where "HashDB_kPreKeySize = 8"
definition HashDB_kMaxKeysNum :: nat where "HashDB_kMaxKeysNum = 1024 * 1024"
definition HashDB_kMaxDataSize :: nat where "HashDB_kMaxDataSize = 8 * 1024 * 1024"

record HashDB_Info =
  hi_max_num :: "32 word"
  hi_used_cnt :: "32 word"
  hi_trx_id :: "64 word"

record HashDB_Bucket =
  hb_version :: "64 word"
  hb_next_pos :: "64 word"
  hb_key_hash :: "32 word"
  hb_pre_key :: bytes
  hb_key_size :: "32 word"
  hb_value_size :: "32 word"
  hb_data_pos :: "64 word"

record HashDB_DataValue =
  hv_total_size :: "32 word"
  hv_key_size :: "32 word"
  hv_key :: bytes
  hv_value_size :: "32 word"
  hv_value :: bytes
  hv_version :: "64 word"
  hv_crc :: "32 word"

text \<open>\<open>sizeof(Info)\<close> and \<open>sizeof(Bucket)\<close>, packed.\<close>

definition sizeof_Info :: nat where "sizeof_Info = 16"
definition sizeof_Bucket :: nat where "sizeof_Bucket = 44"

definition HashDB_EncodeInfo :: "HashDB_Info \<Rightarrow> bytes" where
  "HashDB_EncodeInfo i = EncodeFixed32 (hi_max_num i) [] @ EncodeFixed32 (hi_used_cnt i) [] @ EncodeFixed64 (hi_trx_id i) []"

definition HashDB_DecodeInfo :: "bytes \<Rightarrow> HashDB_Info res" where
  "HashDB_DecodeInfo str =
     rbind (DecodeFixed32 (take 4 str)) (\<lambda>a.
     rbind (DecodeFixed32 (take 4 (drop 4 str))) (\<lambda>b.
     rbind (DecodeFixed64 (take 8 (drop 8 str))) (\<lambda>c.
     Inr \<lparr>hi_max_num = a, hi_used_cnt = b, hi_trx_id = c\<rparr>)))"

definition HashDB_EncodeBucket :: "HashDB_Bucket \<Rightarrow> bytes" where
  "HashDB_EncodeBucket b =
     EncodeFixed64 (hb_version b) [] @ EncodeFixed64 (hb_next_pos b) [] @ EncodeFixed32 (hb_key_hash b) [] @ hb_pre_key b @
     EncodeFixed32 (hb_key_size b) [] @ EncodeFixed32 (hb_value_size b) [] @ EncodeFixed64 (hb_data_pos b) []"

definition HashDB_DecodeBucket :: "bytes \<Rightarrow> HashDB_Bucket res" where
  "HashDB_DecodeBucket str =
     rbind (DecodeFixed64 (take 8 str)) (\<lambda>version.
     rbind (DecodeFixed64 (take 8 (drop 8 str))) (\<lambda>next_pos.
     rbind (DecodeFixed32 (take 4 (drop 16 str))) (\<lambda>key_hash.
     rbind (DecodeFixed32 (take 4 (drop 28 str))) (\<lambda>key_size.
     rbind (DecodeFixed32 (take 4 (drop 32 str))) (\<lambda>value_size.
     rbind (DecodeFixed64 (take 8 (drop 36 str))) (\<lambda>data_pos.
     Inr \<lparr>hb_version = version, hb_next_pos = next_pos, hb_key_hash = key_hash,
       hb_pre_key = take HashDB_kPreKeySize (drop 20 str), hb_key_size = key_size, hb_value_size = value_size, hb_data_pos = data_pos\<rparr>))))))"

definition HashDB_EncodeDataValue :: "HashDB_DataValue \<Rightarrow> bytes" where
  "HashDB_EncodeDataValue d =
     EncodeFixed32 (hv_total_size d) [] @ EncodeFixed32 (hv_key_size d) [] @ hv_key d @ EncodeFixed32 (hv_value_size d) [] @
     hv_value d @ EncodeFixed64 (hv_version d) [] @ EncodeFixed32 (hv_crc d) []"

text \<open>\<open>std::string(str, pos, n)\<close> is cut off at the end and throws (\<open>None\<close>) if it starts behind it.\<close>

definition str_sub :: "bytes \<Rightarrow> nat \<Rightarrow> nat \<Rightarrow> bytes option" where
  "str_sub str pos n = (if pos \<le> length str then Some (take n (drop pos str)) else None)"

definition HashDB_DecodeDataValue :: "bytes \<Rightarrow> HashDB_DataValue res option" where
  "HashDB_DecodeDataValue str =
     (case DecodeFixed32 (take 4 str) of Inl e \<Rightarrow> Some (Inl e) | Inr total_size \<Rightarrow> do {
      s \<leftarrow> str_sub str 4 4;
      case DecodeFixed32 s of Inl e \<Rightarrow> Some (Inl e) | Inr key_size \<Rightarrow> do {
      key \<leftarrow> str_sub str 8 (unat key_size);
      s \<leftarrow> str_sub str (8 + unat key_size) 4;
      case DecodeFixed32 s of Inl e \<Rightarrow> Some (Inl e) | Inr value_size \<Rightarrow> do {
      value \<leftarrow> str_sub str (12 + unat key_size) (unat value_size);
      s \<leftarrow> str_sub str (12 + unat key_size + unat value_size) 8;
      case DecodeFixed64 s of Inl e \<Rightarrow> Some (Inl e) | Inr version \<Rightarrow> do {
      s \<leftarrow> str_sub str (20 + unat key_size + unat value_size) 4;
      case DecodeFixed32 s of Inl e \<Rightarrow> Some (Inl e) | Inr crc \<Rightarrow>
      Some (Inr \<lparr>hv_total_size = total_size, hv_key_size = key_size, hv_key = key, hv_value_size = value_size,
        hv_value = value, hv_version = version, hv_crc = crc\<rparr>) }}}})"

section \<open>The database\<close>

record HashDB =
  hd_info :: HashDB_Info
  hd_index :: bytes
  hd_data :: bytes

definition hash_pos :: "32 word \<Rightarrow> nat" where
  "hash_pos crc_key = unat crc_key mod HashDB_kMaxKeysNum * 8 + sizeof_Info"

definition read_dir :: "nat \<Rightarrow> bytes \<Rightarrow> 64 word res" where
  "read_dir pos idx = rbind (file_read pos 8 idx) DecodeFixed64"

definition read_bucket :: "64 word \<Rightarrow> bytes \<Rightarrow> HashDB_Bucket res" where
  "read_bucket pos idx = rbind (file_read (unat pos) sizeof_Bucket idx) HashDB_DecodeBucket"

text \<open>The test of a bucket in the loops: the record if the bucket is the one of the key.\<close>

definition check_bucket :: "bytes \<Rightarrow> 32 word \<Rightarrow> HashDB_Bucket \<Rightarrow> bytes \<Rightarrow> HashDB_DataValue option res option" where
  "check_bucket key crc_key bkt dat =
     (let n = min HashDB_kPreKeySize (length key) in
      if crc_key = hb_key_hash bkt \<and> length key = unat (hb_key_size bkt) \<and> take n key = take n (hb_pre_key bkt) then
        let data_len = (24 + unat (hb_key_size bkt) + unat (hb_value_size bkt)) mod 2 ^ 32 in
        if HashDB_kMaxDataSize < min data_len (length dat - unat (hb_data_pos bkt)) then None
        else case file_read (unat (hb_data_pos bkt)) data_len dat of
          Inl e \<Rightarrow> Some (Inl e)
        | Inr buf \<Rightarrow> do {
            r \<leftarrow> HashDB_DecodeDataValue buf;
            case r of Inl e \<Rightarrow> Some (Inl e)
            | Inr dv \<Rightarrow>
                if length (hv_value dv) < unat (hv_value_size dv) then None
                else if hv_crc dv \<noteq> CRC32 (hv_value dv) (unat (hv_value_size dv)) then Some (Inl kDataValueError)
                else if hb_key_size bkt \<noteq> hv_key_size dv then None
                else Some (Inr (if key = take (length key) (hv_key dv) then Some dv else None)) }
      else Some (Inr None))"

partial_function (option) HashDB_get_loop :: "bytes \<Rightarrow> 32 word \<Rightarrow> 64 word \<Rightarrow> bytes \<Rightarrow> bytes \<Rightarrow> HashDB_DataValue res option" where
  "HashDB_get_loop key crc_key next_pos idx dat =
     (if next_pos = 0 then Some (Inl kNotFound)
      else case read_bucket next_pos idx of
        Inl e \<Rightarrow> Some (Inl e)
      | Inr bkt \<Rightarrow> do {
          r \<leftarrow> check_bucket key crc_key bkt dat;
          case r of
            Inl e \<Rightarrow> Some (Inl e)
          | Inr (Some dv) \<Rightarrow> Some (Inr dv)
          | Inr None \<Rightarrow> HashDB_get_loop key crc_key (hb_next_pos bkt) idx dat })"

definition HashDB_Get :: "bytes \<Rightarrow> HashDB \<Rightarrow> (bytes \<times> 64 word) res option" where
  "HashDB_Get key s =
     (let crc_key = CRC32 key (length key) in
      case read_dir (hash_pos crc_key) (hd_index s) of
        Inl e \<Rightarrow> Some (Inl e)
      | Inr next_pos \<Rightarrow> map_option (map_sum id (\<lambda>dv. (hv_value dv, hv_version dv)))
          (HashDB_get_loop key crc_key next_pos (hd_index s) (hd_data s)))"

text \<open>
  The search of \<open>Put\<close> and \<open>Del\<close>: the previous and the current bucket with their positions (0 before the
  first), and whether the current one is the key's. \<open>Put\<close> makes no use of the previous one.
\<close>

record HashDB_search =
  hs_is_exist :: bool
  hs_pre_pos :: "64 word"
  hs_pre_bkt :: HashDB_Bucket
  hs_cur_pos :: "64 word"
  hs_bkt :: HashDB_Bucket

partial_function (option) HashDB_search_loop ::
  "bytes \<Rightarrow> 32 word \<Rightarrow> 64 word \<Rightarrow> HashDB_search \<Rightarrow> bytes \<Rightarrow> bytes \<Rightarrow> HashDB_search res option" where
  "HashDB_search_loop key crc_key next_pos q idx dat =
     (if next_pos = 0 then Some (Inr q)
      else case read_bucket next_pos idx of
        Inl e \<Rightarrow> Some (Inl e)
      | Inr bkt \<Rightarrow> do {
          r \<leftarrow> check_bucket key crc_key bkt dat;
          let q' = \<lparr>hs_is_exist = False, hs_pre_pos = hs_cur_pos q, hs_pre_bkt = hs_bkt q, hs_cur_pos = next_pos, hs_bkt = bkt\<rparr>;
          case r of
            Inl e \<Rightarrow> Some (Inl e)
          | Inr (Some dv) \<Rightarrow> Some (Inr (q'\<lparr>hs_is_exist := True\<rparr>))
          | Inr None \<Rightarrow> HashDB_search_loop key crc_key (hb_next_pos bkt) q' idx dat })"

definition Bucket_Clear :: HashDB_Bucket where
  "Bucket_Clear = \<lparr>hb_version = 0, hb_next_pos = 0, hb_key_hash = 0, hb_pre_key = replicate HashDB_kPreKeySize 0,
     hb_key_size = 0, hb_value_size = 0, hb_data_pos = 0\<rparr>"

definition HashDB_search_key :: "bytes \<Rightarrow> HashDB \<Rightarrow> HashDB_search res option" where
  "HashDB_search_key key s =
     (let crc_key = CRC32 key (length key) in
      case read_dir (hash_pos crc_key) (hd_index s) of
        Inl e \<Rightarrow> Some (Inl e)
      | Inr next_pos \<Rightarrow> HashDB_search_loop key crc_key next_pos
          \<lparr>hs_is_exist = False, hs_pre_pos = 0, hs_pre_bkt = Bucket_Clear, hs_cur_pos = 0, hs_bkt = Bucket_Clear\<rparr> (hd_index s) (hd_data s))"

definition new_data :: "bytes \<Rightarrow> bytes \<Rightarrow> 64 word \<Rightarrow> HashDB_DataValue" where
  "new_data key value version = \<lparr>hv_total_size = of_nat (8 + length key + length value), hv_key_size = of_nat (length key),
     hv_key = key, hv_value_size = of_nat (length value), hv_value = value, hv_version = version,
     hv_crc = CRC32 value (unat (of_nat (length value) :: 32 word))\<rparr>"

definition write_info :: "HashDB_Info \<Rightarrow> bytes \<Rightarrow> bytes \<Rightarrow> HashDB" where
  "write_info info idx dat = \<lparr>hd_info = info, hd_index = file_write 0 (HashDB_EncodeInfo info) idx, hd_data = dat\<rparr>"

text \<open>The two branches of \<open>Put\<close>: a new version of a record that exists, a new bucket at the end of its chain.\<close>

definition put_exist :: "bytes \<Rightarrow> bytes \<Rightarrow> HashDB_search \<Rightarrow> HashDB \<Rightarrow> HashDB" where
  "put_exist key value q s =
     (let bkt = (hs_bkt q)\<lparr>hb_version := hb_version (hs_bkt q) + 1, hb_value_size := of_nat (length value),
            hb_data_pos := of_nat (length (hd_data s))\<rparr>;
          dat = file_write (length (hd_data s)) (HashDB_EncodeDataValue (new_data key value (hb_version bkt))) (hd_data s);
          idx = file_write (unat (hs_cur_pos q)) (HashDB_EncodeBucket bkt) (hd_index s)
      in write_info ((hd_info s)\<lparr>hi_trx_id := hi_trx_id (hd_info s) + 1\<rparr>) idx dat)"

definition put_new :: "bytes \<Rightarrow> bytes \<Rightarrow> HashDB_search \<Rightarrow> HashDB \<Rightarrow> HashDB" where
  "put_new key value q s =
     (let crc_key = CRC32 key (length key);
          hash_file_size = of_nat (length (hd_index s));
          bkt = Bucket_Clear\<lparr>hb_version := 1, hb_next_pos := 0, hb_key_hash := crc_key,
            hb_pre_key := (let n = min HashDB_kPreKeySize (length key) in take n key @ drop n (hb_pre_key Bucket_Clear)),
            hb_key_size := of_nat (length key), hb_value_size := of_nat (length value),
            hb_data_pos := of_nat (length (hd_data s))\<rparr>;
          dat = file_write (length (hd_data s)) (HashDB_EncodeDataValue (new_data key value 1)) (hd_data s);
          idx = file_write (length (hd_index s)) (HashDB_EncodeBucket bkt) (hd_index s);
          idx = (if hs_cur_pos q = 0 then file_write (hash_pos crc_key) (EncodeFixed64 hash_file_size []) idx
            else file_write (unat (hs_cur_pos q)) (HashDB_EncodeBucket ((hs_bkt q)\<lparr>hb_next_pos := hash_file_size\<rparr>)) idx)
      in write_info ((hd_info s)\<lparr>hi_used_cnt := hi_used_cnt (hd_info s) + 1, hi_trx_id := hi_trx_id (hd_info s) + 1\<rparr>) idx dat)"

definition HashDB_Put :: "bytes \<Rightarrow> bytes \<Rightarrow> 64 word \<Rightarrow> HashDB \<Rightarrow> (Code \<times> HashDB) option" where
  "HashDB_Put key value version s =
     (if HashDB_kMaxDataSize \<le> length value then Some (kValueSizeIsLarger, s)
      else do {
        r \<leftarrow> HashDB_search_key key s;
        case r of Inl e \<Rightarrow> Some (e, s)
        | Inr q \<Rightarrow>
            if hs_is_exist q \<and> version \<noteq> - 1 \<and> version \<noteq> hb_version (hs_bkt q) then Some (kCASFailed, s)
            else if \<not> hs_is_exist q \<and> version \<noteq> - 1 \<and> version \<noteq> 0 then Some (kCASFailed, s)
            else Some (kOk, if hs_is_exist q then put_exist key value q s else put_new key value q s) })"

definition HashDB_Del :: "bytes \<Rightarrow> 64 word \<Rightarrow> HashDB \<Rightarrow> (Code \<times> HashDB) option" where
  "HashDB_Del key version s = do {
     r \<leftarrow> HashDB_search_key key s;
     case r of Inl e \<Rightarrow> Some (e, s)
     | Inr q \<Rightarrow>
         if \<not> hs_is_exist q then Some (kNotFound, s)
         else if version \<noteq> - 1 \<and> version \<noteq> hb_version (hs_bkt q) then Some (kCASFailed, s)
         else
           let next_pos = hb_next_pos (hs_bkt q);
               idx = (if hs_pre_pos q = 0 then file_write (hash_pos (CRC32 key (length key))) (EncodeFixed64 next_pos []) (hd_index s)
                 else file_write (unat (hs_pre_pos q)) (HashDB_EncodeBucket ((hs_pre_bkt q)\<lparr>hb_next_pos := next_pos\<rparr>)) (hd_index s))
           in Some (kOk, write_info ((hd_info s)\<lparr>hi_used_cnt := hi_used_cnt (hd_info s) - 1, hi_trx_id := hi_trx_id (hd_info s) + 1\<rparr>) idx (hd_data s)) }"

text \<open>\<open>Init\<close> on the files of the directory, if they exist.\<close>

definition HashDB_InitIndex :: "bytes option \<Rightarrow> (HashDB_Info \<times> bytes) res option" where
  "HashDB_InitIndex index_file =
     (case index_file of
        None \<Rightarrow>
          let info = \<lparr>hi_max_num = of_nat HashDB_kMaxKeysNum, hi_used_cnt = 0, hi_trx_id = 0\<rparr>
          in Some (Inr (info, HashDB_EncodeInfo info @ replicate (8 * HashDB_kMaxKeysNum) 0))
      | Some idx \<Rightarrow>
          (case rbind (file_read 0 sizeof_Info idx) HashDB_DecodeInfo of
             Inl e \<Rightarrow> Some (Inl e)
           | Inr info \<Rightarrow> if hi_max_num info = 0 then None else Some (Inr (info, idx))))"

definition HashDB_Init :: "bytes option \<Rightarrow> bytes option \<Rightarrow> HashDB res option" where
  "HashDB_Init index_file data_file = do {
     r \<leftarrow> HashDB_InitIndex index_file;
     Some (rbind r (\<lambda>(info, idx). Inr \<lparr>hd_info = info, hd_index = idx, hd_data = (case data_file of None \<Rightarrow> [] | Some dat \<Rightarrow> dat)\<rparr>)) }"

section \<open>Status\<close>

text \<open>\<open>GetStatus\<close>: the counters, and how many chains have each length (32-bit counts).\<close>

record DBStatusInfo =
  si_max_num :: "32 word"
  si_used_cnt :: "32 word"
  si_trx_id :: "64 word"
  si_same_hash_status :: "32 word \<rightharpoonup> 32 word"

partial_function (option) chain_num :: "64 word \<Rightarrow> 32 word \<Rightarrow> bytes \<Rightarrow> 32 word res option" where
  "chain_num next_pos same_hash_num idx =
     (if next_pos = 0 then Some (Inr same_hash_num)
      else case read_bucket next_pos idx of
        Inl e \<Rightarrow> Some (Inl e)
      | Inr bkt \<Rightarrow> chain_num (hb_next_pos bkt) (same_hash_num + 1) idx)"

definition count_chain :: "32 word \<Rightarrow> (32 word \<rightharpoonup> 32 word) \<Rightarrow> 32 word \<rightharpoonup> 32 word" where
  "count_chain num m = (case m num of None \<Rightarrow> m(num \<mapsto> 1) | Some c \<Rightarrow> m(num \<mapsto> c + 1))"

fun status_loop :: "nat list \<Rightarrow> (32 word \<rightharpoonup> 32 word) \<Rightarrow> bytes \<Rightarrow> (32 word \<rightharpoonup> 32 word) res option" where
  "status_loop [] m idx = Some (Inr m)"
| "status_loop (i # is) m idx =
     (case read_dir (i * 8 + sizeof_Info) idx of
        Inl e \<Rightarrow> Some (Inl e)
      | Inr next_pos \<Rightarrow> do {
          r \<leftarrow> chain_num next_pos 0 idx;
          case r of Inl e \<Rightarrow> Some (Inl e) | Inr num \<Rightarrow> status_loop is (count_chain num m) idx })"

definition HashDB_GetStatus :: "(32 word \<rightharpoonup> 32 word) \<Rightarrow> HashDB \<Rightarrow> DBStatusInfo res option" where
  "HashDB_GetStatus status s =
     map_option (map_sum id (\<lambda>m. \<lparr>si_max_num = hi_max_num (hd_info s), si_used_cnt = hi_used_cnt (hd_info s),
       si_trx_id = hi_trx_id (hd_info s), si_same_hash_status = m\<rparr>)) (status_loop [0..<HashDB_kMaxKeysNum] status (hd_index s))"

end
