(* ===== verification/Hash_Db_Files.thy ===== *)
theory Hash_Db_Files
  imports Hash_Db
begin

text \<open>
  The files of the hash database: what is written is read back and nothing else changes, the codecs of
  the records, and the index file seen as header, directory and buckets.
\<close>

section \<open>Reads and writes\<close>

lemma length_file_write: "pos \<le> length f \<Longrightarrow> length (file_write pos bs f) = max (length f) (pos + length bs)"
  by (simp add: file_write_def)

lemma nth_file_write:
  "pos \<le> length f \<Longrightarrow> i < length (file_write pos bs f) \<Longrightarrow>
   file_write pos bs f ! i = (if pos \<le> i \<and> i < pos + length bs then bs ! (i - pos) else f ! i)"
  by (auto simp: length_file_write) (auto simp: file_write_def nth_append)

lemma file_read_write_same: "pos \<le> length f \<Longrightarrow> n = length bs \<Longrightarrow> file_read pos n (file_write pos bs f) = Inr bs"
  by (simp add: file_read_def length_file_write) (simp add: file_write_def)

lemma file_read_write_other:
  assumes "file_read q n f = Inr x" "pos \<le> length f" "q + n \<le> pos \<or> pos + length bs \<le> q"
  shows "file_read q n (file_write pos bs f) = Inr x"
proof -
  have x: "q + n \<le> length f" "x = take n (drop q f)" using assms(1) by (auto simp: file_read_def split: if_splits)
  then have len: "q + n \<le> length (file_write pos bs f)" using assms(2) by (simp add: length_file_write)
  have "take n (drop q (file_write pos bs f)) = take n (drop q f)"
  proof (rule nth_equalityI)
    show "length (take n (drop q (file_write pos bs f))) = length (take n (drop q f))" using x(1) len by simp
    show "take n (drop q (file_write pos bs f)) ! i = take n (drop q f) ! i" if "i < length (take n (drop q (file_write pos bs f)))" for i
      using that x(1) len assms(3) nth_file_write [OF assms(2), of "q + i" bs] by auto
  qed
  then show ?thesis using len x(2) by (simp add: file_read_def)
qed

lemma file_read_length: "file_read q n f = Inr x \<Longrightarrow> q + n \<le> length f \<and> length x = n"
  by (auto simp: file_read_def split: if_splits)

section \<open>Codecs\<close>

lemma fixed_append [simp]:
  "DecodeFixed32 (EncodeFixed32 a []) = Inr a" "DecodeFixed64 (EncodeFixed64 b []) = Inr b"
  using DecodeFixed32_EncodeFixed32 [of a "[]"] DecodeFixed64_EncodeFixed64 [of b "[]"] by simp_all

lemma length_EncodeInfo [simp]: "length (HashDB_EncodeInfo i) = 16"
  by (simp add: HashDB_EncodeInfo_def)

lemma DecodeInfo_Encode [simp]: "HashDB_DecodeInfo (HashDB_EncodeInfo i) = Inr i"
  by (simp add: HashDB_DecodeInfo_def HashDB_EncodeInfo_def)

lemma length_EncodeBucket [simp]: "length (hb_pre_key b) = 8 \<Longrightarrow> length (HashDB_EncodeBucket b) = 44"
  by (simp add: HashDB_EncodeBucket_def)

lemma DecodeBucket_Encode [simp]: "length (hb_pre_key b) = 8 \<Longrightarrow> HashDB_DecodeBucket (HashDB_EncodeBucket b) = Inr b"
  by (simp add: HashDB_DecodeBucket_def HashDB_EncodeBucket_def HashDB_kPreKeySize_def)

definition data_ok :: "HashDB_DataValue \<Rightarrow> bool" where
  "data_ok d \<longleftrightarrow> unat (hv_key_size d) = length (hv_key d) \<and> unat (hv_value_size d) = length (hv_value d)"

lemma length_EncodeData: "length (HashDB_EncodeDataValue d) = 24 + length (hv_key d) + length (hv_value d)"
  by (simp add: HashDB_EncodeDataValue_def)

lemma DecodeData_Encode: "data_ok d \<Longrightarrow> HashDB_DecodeDataValue (HashDB_EncodeDataValue d) = Some (Inr d)"
  by (simp add: HashDB_DecodeDataValue_def HashDB_EncodeDataValue_def data_ok_def str_sub_def)

section \<open>The index file\<close>

definition kBase :: nat where "kBase = sizeof_Info + 8 * HashDB_kMaxKeysNum"

definition bucket_pos :: "nat \<Rightarrow> bool" where
  "bucket_pos p \<longleftrightarrow> kBase \<le> p \<and> sizeof_Bucket dvd p - kBase"

definition index_rep :: "bytes \<Rightarrow> HashDB_Info \<Rightarrow> (nat \<Rightarrow> 64 word) \<Rightarrow> (nat \<rightharpoonup> HashDB_Bucket) \<Rightarrow> bool" where
  "index_rep idx info dir bks \<longleftrightarrow>
     bucket_pos (length idx) \<and> file_read 0 sizeof_Info idx = Inr (HashDB_EncodeInfo info) \<and>
     (\<forall>h < HashDB_kMaxKeysNum. file_read (h * 8 + sizeof_Info) 8 idx = Inr (EncodeFixed64 (dir h) [])) \<and>
     (\<forall>p b. bks p = Some b \<longrightarrow> bucket_pos p \<and> length (hb_pre_key b) = 8 \<and> file_read p sizeof_Bucket idx = Inr (HashDB_EncodeBucket b))"

lemmas sizes = sizeof_Info_def sizeof_Bucket_def kBase_def HashDB_kPreKeySize_def

lemma bucket_pos_far: "bucket_pos p \<Longrightarrow> bucket_pos q \<Longrightarrow> p < q \<Longrightarrow> p + 44 \<le> q"
proof -
  assume a: "bucket_pos p" "bucket_pos q" "p < q"
  then obtain i j where "p - kBase = 44 * i" "q - kBase = 44 * j" by (auto simp: bucket_pos_def sizeof_Bucket_def dvd_def)
  then have p: "p = kBase + 44 * i" "q = kBase + 44 * j" using a by (auto simp: bucket_pos_def)
  then have "i < j" using a(3) by simp
  then show ?thesis using p by simp
qed

lemma bucket_pos_next: "bucket_pos p \<Longrightarrow> bucket_pos (p + 44)"
proof -
  assume a: "bucket_pos p"
  then have "44 dvd (p - kBase) + 44" by (simp only: bucket_pos_def sizeof_Bucket_def dvd_add_triv_right_iff)
  moreover have "p + 44 - kBase = (p - kBase) + 44" using a by (simp add: bucket_pos_def)
  ultimately have "44 dvd p + 44 - kBase" by (simp only:)
  then show ?thesis using a by (simp add: bucket_pos_def sizeof_Bucket_def)
qed

lemma index_bucket_room: "index_rep idx info dir bks \<Longrightarrow> bks p = Some b \<Longrightarrow> p + 44 \<le> length idx"
  using file_read_length by (fastforce simp: index_rep_def sizeof_Bucket_def)

lemma read_dir_rep: "index_rep idx info dir bks \<Longrightarrow> read_dir (hash_pos c) idx = Inr (dir (unat c mod HashDB_kMaxKeysNum))"
  by (simp add: index_rep_def read_dir_def hash_pos_def HashDB_kMaxKeysNum_def)

lemma read_bucket_rep: "index_rep idx info dir bks \<Longrightarrow> bks (unat p) = Some b \<Longrightarrow> read_bucket p idx = Inr b"
  by (simp add: index_rep_def read_bucket_def)

lemma index_write_info:
  assumes "index_rep idx info dir bks"
  shows "index_rep (file_write 0 (HashDB_EncodeInfo info') idx) info' dir bks"
proof -
  have len: "16 \<le> length idx" using assms by (simp add: index_rep_def bucket_pos_def sizes)
  have other: "file_read q n (file_write 0 (HashDB_EncodeInfo info') idx) = Inr x" if "file_read q n idx = Inr x" "16 \<le> q" for q n x
    using that by (intro file_read_write_other) simp_all
  have "file_read (h * 8 + sizeof_Info) 8 (file_write 0 (HashDB_EncodeInfo info') idx) = Inr (EncodeFixed64 (dir h) [])" if "h < HashDB_kMaxKeysNum" for h
    using assms that by (intro other) (simp_all add: index_rep_def sizeof_Info_def)
  moreover have "file_read p sizeof_Bucket (file_write 0 (HashDB_EncodeInfo info') idx) = Inr (HashDB_EncodeBucket b)" if "bks p = Some b" for p b
  proof (rule other)
    show "file_read p sizeof_Bucket idx = Inr (HashDB_EncodeBucket b)" using assms that by (simp add: index_rep_def)
    have "bucket_pos p" using assms that by (simp add: index_rep_def)
    then show "16 \<le> p" by (simp add: bucket_pos_def sizes)
  qed
  moreover have "file_read 0 sizeof_Info (file_write 0 (HashDB_EncodeInfo info') idx) = Inr (HashDB_EncodeInfo info')"
    by (intro file_read_write_same) (simp_all add: sizes)
  ultimately show ?thesis using assms len by (simp add: index_rep_def length_file_write max_def)
qed

lemma index_write_dir:
  assumes "index_rep idx info dir bks" "h < HashDB_kMaxKeysNum"
  shows "index_rep (file_write (h * 8 + sizeof_Info) (EncodeFixed64 x []) idx) info (dir(h := x)) bks"
proof -
  let ?p = "h * 8 + sizeof_Info"
  have len: "?p + 8 \<le> length idx" using assms by (simp add: index_rep_def bucket_pos_def sizes)
  have other: "file_read q n (file_write ?p (EncodeFixed64 x []) idx) = Inr y" if "file_read q n idx = Inr y" "q + n \<le> ?p \<or> ?p + 8 \<le> q" for q n y
    using that len by (intro file_read_write_other) simp_all
  have dirs: "file_read (h' * 8 + sizeof_Info) 8 (file_write ?p (EncodeFixed64 x []) idx) = Inr (EncodeFixed64 ((dir(h := x)) h') [])"
    if "h' < HashDB_kMaxKeysNum" for h'
  proof (cases "h' = h")
    case True
    then show ?thesis using len by (simp add: file_read_write_same)
  next
    case False
    have "file_read (h' * 8 + sizeof_Info) 8 idx = Inr (EncodeFixed64 (dir h') [])" using assms(1) that by (simp add: index_rep_def)
    moreover have "h' * 8 + sizeof_Info + 8 \<le> ?p \<or> ?p + 8 \<le> h' * 8 + sizeof_Info" using False by linarith
    ultimately show ?thesis using False other by simp
  qed
  have bkts: "file_read p sizeof_Bucket (file_write ?p (EncodeFixed64 x []) idx) = Inr (HashDB_EncodeBucket b)"
    if "bks p = Some b" for p b
  proof -
    have "file_read p sizeof_Bucket idx = Inr (HashDB_EncodeBucket b)" "bucket_pos p" using assms(1) that by (simp_all add: index_rep_def)
    then show ?thesis using assms(2) by (intro other) (simp_all add: bucket_pos_def sizes)
  qed
  have "file_read 0 sizeof_Info (file_write ?p (EncodeFixed64 x []) idx) = Inr (HashDB_EncodeInfo info)"
    using assms(1) by (intro other) (simp_all add: index_rep_def sizes)
  then show ?thesis using assms(1) len dirs bkts unfolding index_rep_def by (simp add: length_file_write max_def)
qed

lemma index_write_bucket:
  assumes "index_rep idx info dir bks" "length (hb_pre_key b) = 8" "p = length idx \<or> bks p \<noteq> None"
  shows "index_rep (file_write p (HashDB_EncodeBucket b) idx) info dir (bks(p \<mapsto> b))"
    "length (file_write p (HashDB_EncodeBucket b) idx) = (if p = length idx then length idx + 44 else length idx)"
proof -
  have room: "p + 44 \<le> length idx" if "p \<noteq> length idx" using that assms(3) index_bucket_room [OF assms(1)] by auto
  have pos: "bucket_pos p" "p \<le> length idx" "p \<noteq> length idx \<Longrightarrow> p + 44 \<le> length idx"
  proof -
    show "bucket_pos p" using assms(1,3) by (cases "p = length idx") (auto simp: index_rep_def)
    show "p \<le> length idx" using room by linarith
  qed (use room in simp)
  show len: "length (file_write p (HashDB_EncodeBucket b) idx) = (if p = length idx then length idx + 44 else length idx)"
    using pos(2,3) assms(2) by (auto simp: length_file_write max_def)
  have other: "file_read q n (file_write p (HashDB_EncodeBucket b) idx) = Inr y" if "file_read q n idx = Inr y" "q + n \<le> p \<or> p + 44 \<le> q" for q n y
    using that pos(2) assms(2) by (intro file_read_write_other) simp_all
  have "bucket_pos (length idx)" using assms(1) by (simp add: index_rep_def)
  then have "bucket_pos (length (file_write p (HashDB_EncodeBucket b) idx))" using bucket_pos_next by (simp add: len)
  moreover have "file_read 0 sizeof_Info (file_write p (HashDB_EncodeBucket b) idx) = Inr (HashDB_EncodeInfo info)"
    using assms(1) pos(1) by (intro other) (simp_all add: index_rep_def bucket_pos_def sizes)
  moreover have "file_read (h * 8 + sizeof_Info) 8 (file_write p (HashDB_EncodeBucket b) idx) = Inr (EncodeFixed64 (dir h) [])" if "h < HashDB_kMaxKeysNum" for h
    using assms(1) pos(1) that by (intro other) (simp_all add: index_rep_def bucket_pos_def sizes)
  moreover have "bucket_pos q \<and> length (hb_pre_key c) = 8 \<and> file_read q sizeof_Bucket (file_write p (HashDB_EncodeBucket b) idx) = Inr (HashDB_EncodeBucket c)"
    if c: "(bks(p \<mapsto> b)) q = Some c" for q c
  proof (cases "q = p")
    case True
    then show ?thesis using c pos(1,2) assms(2) by (simp add: file_read_write_same sizeof_Bucket_def)
  next
    case False
    then have q: "bucket_pos q" "length (hb_pre_key c) = 8" "file_read q sizeof_Bucket idx = Inr (HashDB_EncodeBucket c)"
      using c assms(1) by (simp_all add: index_rep_def)
    have "q + 44 \<le> p \<or> p + 44 \<le> q" using bucket_pos_far [OF q(1) pos(1)] bucket_pos_far [OF pos(1) q(1)] False by linarith
    then show ?thesis using other [OF q(3)] q by (simp add: sizeof_Bucket_def)
  qed
  ultimately show "index_rep (file_write p (HashDB_EncodeBucket b) idx) info dir (bks(p \<mapsto> b))" unfolding index_rep_def by blast
qed

end
