(* ===== verification/Hash_Db_Spec.thy ===== *)
theory Hash_Db_Spec
  imports Hash_Db_Files
begin

text \<open>
  The hash database refines a map from keys to values with versions: the chains of buckets as lists of
  entries, the searches along them, and every operation on them.
\<close>

section \<open>Entries and chains\<close>

record hash_entry =
  he_pos :: nat
  he_key :: bytes
  he_value :: bytes
  he_version :: "64 word"
  he_dpos :: nat

definition crc_of :: "bytes \<Rightarrow> 32 word" where
  "crc_of key = CRC32 key (length key)"

definition slot :: "bytes \<Rightarrow> nat" where
  "slot key = unat (crc_of key) mod HashDB_kMaxKeysNum"

definition pre_key_of :: "bytes \<Rightarrow> bytes" where
  "pre_key_of key = take (min 8 (length key)) key @ drop (min 8 (length key)) (replicate 8 0)"

definition entry_bucket :: "hash_entry \<Rightarrow> nat \<Rightarrow> HashDB_Bucket" where
  "entry_bucket e nxt = \<lparr>hb_version = he_version e, hb_next_pos = of_nat nxt, hb_key_hash = crc_of (he_key e),
     hb_pre_key = pre_key_of (he_key e), hb_key_size = of_nat (length (he_key e)), hb_value_size = of_nat (length (he_value e)),
     hb_data_pos = of_nat (he_dpos e)\<rparr>"

definition data_of :: "hash_entry \<Rightarrow> HashDB_DataValue" where
  "data_of e = new_data (he_key e) (he_value e) (he_version e)"

definition entry_len :: "hash_entry \<Rightarrow> nat" where
  "entry_len e = 24 + length (he_key e) + length (he_value e)"

definition entry_ok :: "bytes \<Rightarrow> hash_entry \<Rightarrow> bool" where
  "entry_ok dat e \<longleftrightarrow> entry_len e \<le> HashDB_kMaxDataSize \<and>
     file_read (he_dpos e) (entry_len e) dat = Inr (HashDB_EncodeDataValue (data_of e))"

fun first_pos :: "hash_entry list \<Rightarrow> nat \<Rightarrow> nat" where
  "first_pos [] nxt = nxt"
| "first_pos (e # es) nxt = he_pos e"

fun seg :: "(nat \<rightharpoonup> HashDB_Bucket) \<Rightarrow> hash_entry list \<Rightarrow> nat \<Rightarrow> bool" where
  "seg bks [] nxt \<longleftrightarrow> True"
| "seg bks (e # es) nxt \<longleftrightarrow> bks (he_pos e) = Some (entry_bucket e (first_pos es nxt)) \<and> seg bks es nxt"

lemma first_pos_append: "first_pos (us @ vs) nxt = first_pos us (first_pos vs nxt)"
  by (cases us) simp_all

lemma seg_append: "seg bks (us @ vs) nxt \<longleftrightarrow> seg bks us (first_pos vs nxt) \<and> seg bks vs nxt"
  by (induction us) (auto simp: first_pos_append)

lemma seg_frame: "p \<notin> he_pos ` set es \<Longrightarrow> seg (bks(p \<mapsto> b)) es nxt = seg bks es nxt"
  by (induction es) auto

lemma seg_in: "seg bks es nxt \<Longrightarrow> e \<in> set es \<Longrightarrow> \<exists>n. bks (he_pos e) = Some (entry_bucket e n)"
  by (induction es) auto

lemma length_pre_key [simp]: "length (pre_key_of key) = 8"
  by (simp add: pre_key_of_def min_def)

lemma entry_bucket_simps [simp]:
  "length (hb_pre_key (entry_bucket e n)) = 8" "hb_version (entry_bucket e n) = he_version e" "hb_next_pos (entry_bucket e n) = of_nat n"
  "hb_key_hash (entry_bucket e n) = crc_of (he_key e)" "(entry_bucket e n)\<lparr>hb_next_pos := of_nat m\<rparr> = entry_bucket e m"
  by (simp_all add: entry_bucket_def)

section \<open>Records\<close>

lemma small_sizes:
  assumes "entry_len e \<le> HashDB_kMaxDataSize"
  shows "unat (of_nat (length (he_key e)) :: 32 word) = length (he_key e)" "unat (of_nat (length (he_value e)) :: 32 word) = length (he_value e)"
  using assms by (simp_all add: entry_len_def HashDB_kMaxDataSize_def unat_of_nat)

lemma data_of_simps [simp]:
  "hv_key (data_of e) = he_key e" "hv_value (data_of e) = he_value e" "hv_version (data_of e) = he_version e"
  by (simp_all add: data_of_def new_data_def)

lemma length_data_of: "length (HashDB_EncodeDataValue (data_of e)) = entry_len e"
  by (simp add: length_EncodeData entry_len_def)

lemma entry_ok_append: "entry_ok dat e \<Longrightarrow> entry_ok (file_write (length dat) bs dat) e"
proof -
  assume e: "entry_ok dat e"
  then have "he_dpos e + entry_len e \<le> length dat" using file_read_length by (auto simp: entry_ok_def)
  then show ?thesis using e file_read_write_other [of "he_dpos e" "entry_len e" dat _ "length dat"] by (simp add: entry_ok_def)
qed

lemma entry_ok_new:
  "he_dpos e = length dat \<Longrightarrow> entry_len e \<le> HashDB_kMaxDataSize \<Longrightarrow>
   entry_ok (file_write (length dat) (HashDB_EncodeDataValue (data_of e)) dat) e"
  by (simp add: entry_ok_def file_read_write_same length_data_of)

lemma check_bucket_ok:
  assumes "entry_ok dat e" "length dat < 2 ^ 64"
  shows "check_bucket key (crc_of key) (entry_bucket e nxt) dat = Some (Inr (if key = he_key e then Some (data_of e) else None))"
proof -
  have len: "entry_len e \<le> HashDB_kMaxDataSize" using assms(1) by (simp add: entry_ok_def)
  note ks = small_sizes [OF len]
  have d: "he_dpos e + entry_len e \<le> length dat" using assms(1) file_read_length by (auto simp: entry_ok_def)
  then have dp: "unat (of_nat (he_dpos e) :: 64 word) = he_dpos e" using assms(2) by (simp add: unat_of_nat)
  have dl: "(24 + length (he_key e) + length (he_value e)) mod 4294967296 = entry_len e"
    using len by (simp add: entry_len_def HashDB_kMaxDataSize_def)
  have ok: "data_ok (data_of e)" using ks by (simp add: data_ok_def data_of_def new_data_def)
  have read: "file_read (he_dpos e) (entry_len e) dat = Inr (HashDB_EncodeDataValue (data_of e))" using assms(1) by (simp add: entry_ok_def)
  have sz: "hv_value_size (data_of e) = of_nat (length (he_value e))" "hv_key_size (data_of e) = of_nat (length (he_key e))"
    "hv_crc (data_of e) = CRC32 (he_value e) (length (he_value e))" using ks by (simp_all add: data_of_def new_data_def)
  show ?thesis
  proof (cases "crc_of key = crc_of (he_key e) \<and> length key = length (he_key e) \<and>
      take (min HashDB_kPreKeySize (length key)) key = take (min HashDB_kPreKeySize (length key)) (pre_key_of (he_key e))")
    case True
    have "\<not> HashDB_kMaxDataSize < entry_len e" using len by simp
    then show ?thesis
      using True ks dp read sz DecodeData_Encode [OF ok]
      unfolding check_bucket_def Let_def entry_bucket_def by (auto simp: dl)
  next
    case False
    then have "key \<noteq> he_key e" by (auto simp: pre_key_of_def HashDB_kPreKeySize_def)
    moreover have "\<not> (crc_of key = hb_key_hash (entry_bucket e nxt) \<and> length key = unat (hb_key_size (entry_bucket e nxt)) \<and>
      take (min HashDB_kPreKeySize (length key)) key = take (min HashDB_kPreKeySize (length key)) (hb_pre_key (entry_bucket e nxt)))"
      using False ks by (simp add: entry_bucket_def)
    ultimately show ?thesis unfolding check_bucket_def Let_def by (simp only: if_False if_not_P simp_thms)
  qed
qed

section \<open>Searches\<close>

definition chain_reads :: "bytes \<Rightarrow> bytes \<Rightarrow> HashDB_Info \<Rightarrow> (nat \<Rightarrow> 64 word) \<Rightarrow> (nat \<rightharpoonup> HashDB_Bucket) \<Rightarrow> bool" where
  "chain_reads idx dat info dir bks \<longleftrightarrow> index_rep idx info dir bks \<and> length idx < 2 ^ 64 \<and> length dat < 2 ^ 64"

lemma pos_small:
  assumes "chain_reads idx dat info dir bks" "bks p = Some b"
  shows "unat (of_nat p :: 64 word) = p \<and> (of_nat p :: 64 word) \<noteq> 0 \<and> 0 < p"
proof -
  note rep = assms(1) [unfolded chain_reads_def, THEN conjunct1] and b = assms(2)
  have "p < length idx" using index_bucket_room [OF rep b] by simp
  then have u: "unat (of_nat p :: 64 word) = p" using assms(1) by (simp add: unat_of_nat chain_reads_def)
  have "bucket_pos p" using rep b by (simp add: index_rep_def)
  then have "0 < p" by (simp add: bucket_pos_def kBase_def sizeof_Info_def)
  then show ?thesis using u by (metis less_irrefl unat_0)
qed

lemma read_at: "chain_reads idx dat info dir bks \<Longrightarrow> bks p = Some b \<Longrightarrow> read_bucket (of_nat p) idx = Inr b"
  using read_bucket_rep [of idx info dir bks "of_nat p"] pos_small [of idx dat info dir bks p] by (simp add: chain_reads_def)

lemma get_loop_chain:
  assumes rd: "chain_reads idx dat info dir bks"
  shows "seg bks es 0 \<Longrightarrow> \<forall>e \<in> set es. entry_ok dat e \<Longrightarrow>
   HashDB_get_loop key (crc_of key) (of_nat (first_pos es 0)) idx dat =
     Some (case find (\<lambda>e. he_key e = key) es of None \<Rightarrow> Inl kNotFound | Some e \<Rightarrow> Inr (data_of e))"
proof (induction es)
  case Nil
  then show ?case by (simp add: HashDB_get_loop.simps)
next
  case (Cons e es)
  have b: "bks (he_pos e) = Some (entry_bucket e (first_pos es 0))" using Cons.prems(1) by simp
  have c: "check_bucket key (crc_of key) (entry_bucket e (first_pos es 0)) dat = Some (Inr (if key = he_key e then Some (data_of e) else None))"
    using Cons.prems(2) rd by (intro check_bucket_ok) (simp_all add: chain_reads_def)
  show ?case
    using pos_small [OF rd b] read_at [OF rd b] c Cons
    by (simp add: HashDB_get_loop.simps [of key "crc_of key" "of_nat (he_pos e)"])
qed

lemma search_loop_found:
  assumes rd: "chain_reads idx dat info dir bks"
  shows "seg bks (us @ e # vs) 0 \<Longrightarrow> \<forall>e \<in> set (us @ e # vs). entry_ok dat e \<Longrightarrow> \<forall>u \<in> set us. he_key u \<noteq> key \<Longrightarrow> he_key e = key \<Longrightarrow>
   HashDB_search_loop key (crc_of key) (of_nat (first_pos (us @ e # vs) 0)) q idx dat =
     Some (Inr \<lparr>hs_is_exist = True, hs_pre_pos = (if us = [] then hs_cur_pos q else of_nat (he_pos (last us))),
       hs_pre_bkt = (if us = [] then hs_bkt q else entry_bucket (last us) (he_pos e)), hs_cur_pos = of_nat (he_pos e),
       hs_bkt = entry_bucket e (first_pos vs 0)\<rparr>)"
proof (induction us arbitrary: q)
  case Nil
  have b: "bks (he_pos e) = Some (entry_bucket e (first_pos vs 0))" using Nil.prems(1) by simp
  have "check_bucket key (crc_of key) (entry_bucket e (first_pos vs 0)) dat = Some (Inr (Some (data_of e)))"
    using Nil.prems(2,4) rd check_bucket_ok by (auto simp: chain_reads_def)
  then show ?case using pos_small [OF rd b] read_at [OF rd b]
    by (simp add: HashDB_search_loop.simps [of key "crc_of key" "of_nat (he_pos e)"])
next
  case (Cons u us)
  have b: "bks (he_pos u) = Some (entry_bucket u (first_pos (us @ e # vs) 0))" using Cons.prems(1) by simp
  have c: "check_bucket key (crc_of key) (entry_bucket u (first_pos (us @ e # vs) 0)) dat = Some (Inr None)"
    using Cons.prems(2,3) rd check_bucket_ok by (auto simp: chain_reads_def)
  show ?case
    using pos_small [OF rd b] read_at [OF rd b] c Cons
    by (simp add: HashDB_search_loop.simps [of key "crc_of key" "of_nat (he_pos u)"])
qed

lemma search_loop_missing:
  assumes rd: "chain_reads idx dat info dir bks"
  shows "seg bks es 0 \<Longrightarrow> \<forall>e \<in> set es. entry_ok dat e \<and> he_key e \<noteq> key \<Longrightarrow> \<not> hs_is_exist q \<Longrightarrow>
   \<exists>q'. HashDB_search_loop key (crc_of key) (of_nat (first_pos es 0)) q idx dat = Some (Inr q') \<and> \<not> hs_is_exist q' \<and>
     hs_cur_pos q' = (if es = [] then hs_cur_pos q else of_nat (he_pos (last es))) \<and>
     (es \<noteq> [] \<longrightarrow> hs_bkt q' = entry_bucket (last es) 0)"
proof (induction es arbitrary: q)
  case Nil
  then show ?case by (simp add: HashDB_search_loop.simps)
next
  case (Cons e es)
  have b: "bks (he_pos e) = Some (entry_bucket e (first_pos es 0))" using Cons.prems(1) by simp
  have c: "check_bucket key (crc_of key) (entry_bucket e (first_pos es 0)) dat = Some (Inr None)"
    using Cons.prems(2) rd check_bucket_ok by (auto simp: chain_reads_def)
  let ?q = "\<lparr>hs_is_exist = False, hs_pre_pos = hs_cur_pos q, hs_pre_bkt = hs_bkt q, hs_cur_pos = of_nat (he_pos e), hs_bkt = entry_bucket e (first_pos es 0)\<rparr>"
  have "HashDB_search_loop key (crc_of key) (of_nat (he_pos e)) q idx dat =
    HashDB_search_loop key (crc_of key) (of_nat (first_pos es 0)) ?q idx dat"
    using pos_small [OF rd b] read_at [OF rd b] c by (simp add: HashDB_search_loop.simps [of key "crc_of key" "of_nat (he_pos e)"])
  moreover obtain q' where "HashDB_search_loop key (crc_of key) (of_nat (first_pos es 0)) ?q idx dat = Some (Inr q')" "\<not> hs_is_exist q'"
    "hs_cur_pos q' = (if es = [] then hs_cur_pos ?q else of_nat (he_pos (last es)))" "es \<noteq> [] \<longrightarrow> hs_bkt q' = entry_bucket (last es) 0"
    using Cons.IH [of ?q] Cons.prems by auto
  moreover have "es = [] \<Longrightarrow> q' = ?q" if "HashDB_search_loop key (crc_of key) (of_nat (first_pos es 0)) ?q idx dat = Some (Inr q')" for q'
    using that by (simp add: HashDB_search_loop.simps)
  ultimately show ?case by (cases "es = []") auto
qed

section \<open>The invariant\<close>

definition chains_ok :: "(nat \<Rightarrow> 64 word) \<Rightarrow> (nat \<rightharpoonup> HashDB_Bucket) \<Rightarrow> bytes \<Rightarrow> (nat \<Rightarrow> hash_entry list) \<Rightarrow> bool" where
  "chains_ok dir bks dat C \<longleftrightarrow> (\<forall>h < HashDB_kMaxKeysNum.
     dir h = of_nat (first_pos (C h) 0) \<and> seg bks (C h) 0 \<and> distinct (map he_key (C h)) \<and> distinct (map he_pos (C h)) \<and>
     (\<forall>e \<in> set (C h). entry_ok dat e \<and> slot (he_key e) = h))"

text \<open>\<open>n\<close> bounds the number of operations so far, and with it the sizes of the files.\<close>

definition hash_inv :: "HashDB \<Rightarrow> (nat \<Rightarrow> hash_entry list) \<Rightarrow> nat \<Rightarrow> bool" where
  "hash_inv s C n \<longleftrightarrow> hi_max_num (hd_info s) = of_nat HashDB_kMaxKeysNum \<and>
     length (hd_index s) \<le> kBase + 44 * n \<and> length (hd_data s) \<le> HashDB_kMaxDataSize * n \<and>
     (\<exists>dir bks. index_rep (hd_index s) (hd_info s) dir bks \<and> chains_ok dir bks (hd_data s) C)"

definition lookup :: "(nat \<Rightarrow> hash_entry list) \<Rightarrow> bytes \<Rightarrow> (bytes \<times> 64 word) option" where
  "lookup C key = map_option (\<lambda>e. (he_value e, he_version e)) (find (\<lambda>e. he_key e = key) (C (slot key)))"

lemma slot_less [simp]: "slot key < HashDB_kMaxKeysNum"
  by (simp add: slot_def HashDB_kMaxKeysNum_def)

lemma hash_inv_small: "hash_inv s C n \<Longrightarrow> n \<le> 2 ^ 32 \<Longrightarrow> length (hd_index s) < 2 ^ 64 \<and> length (hd_data s) < 2 ^ 64"
  by (auto simp: hash_inv_def kBase_def sizeof_Info_def HashDB_kMaxKeysNum_def HashDB_kMaxDataSize_def)

lemma hash_invE:
  assumes "hash_inv s C n" "n \<le> 2 ^ 32"
  obtains dir bks where "index_rep (hd_index s) (hd_info s) dir bks" "chains_ok dir bks (hd_data s) C"
    "chain_reads (hd_index s) (hd_data s) (hd_info s) dir bks"
proof -
  obtain dir bks where "index_rep (hd_index s) (hd_info s) dir bks" "chains_ok dir bks (hd_data s) C"
    using assms(1) unfolding hash_inv_def by blast
  moreover from this have "chain_reads (hd_index s) (hd_data s) (hd_info s) dir bks"
    using hash_inv_small [OF assms] by (simp add: chain_reads_def)
  ultimately show thesis using that by blast
qed

lemma chainE:
  assumes "chains_ok dir bks dat C" "h < HashDB_kMaxKeysNum"
  shows "dir h = of_nat (first_pos (C h) 0)" "seg bks (C h) 0" "distinct (map he_key (C h))" "distinct (map he_pos (C h))"
    "\<forall>e \<in> set (C h). entry_ok dat e" "\<forall>e \<in> set (C h). slot (he_key e) = h"
  using assms by (simp_all add: chains_ok_def)

text \<open>Buckets of different chains are different: the hash of the key is stored in them.\<close>

lemma chains_apart:
  assumes "chains_ok dir bks dat C" "h < HashDB_kMaxKeysNum" "h' < HashDB_kMaxKeysNum" "e \<in> set (C h)" "e' \<in> set (C h')" "he_pos e = he_pos e'"
  shows "h = h'"
proof -
  have sl: "slot (he_key e) = h" "slot (he_key e') = h'" using chainE(6) [OF assms(1,2)] chainE(6) [OF assms(1,3)] assms(4,5) by simp_all
  from seg_in [OF chainE(2) [OF assms(1,2)] assms(4)] obtain n where n: "bks (he_pos e) = Some (entry_bucket e n)" ..
  from seg_in [OF chainE(2) [OF assms(1,3)] assms(5)] obtain n' where n': "bks (he_pos e') = Some (entry_bucket e' n')" ..
  have "entry_bucket e n = entry_bucket e' n'" using n n' assms(6) by simp
  then have "hb_key_hash (entry_bucket e n) = hb_key_hash (entry_bucket e' n')" by (rule arg_cong)
  then have "slot (he_key e) = slot (he_key e')" by (simp add: slot_def)
  then show ?thesis by (simp add: sl)
qed

lemma search_found:
  assumes "hash_inv s C n" "n \<le> 2 ^ 32" "C (slot key) = us @ e # vs" "he_key e = key"
  shows "HashDB_search_key key s = Some (Inr \<lparr>hs_is_exist = True, hs_pre_pos = (if us = [] then 0 else of_nat (he_pos (last us))),
     hs_pre_bkt = (if us = [] then Bucket_Clear else entry_bucket (last us) (he_pos e)), hs_cur_pos = of_nat (he_pos e),
     hs_bkt = entry_bucket e (first_pos vs 0)\<rparr>)"
proof -
  obtain dir bks where inv: "index_rep (hd_index s) (hd_info s) dir bks" "chains_ok dir bks (hd_data s) C"
    "chain_reads (hd_index s) (hd_data s) (hd_info s) dir bks" using hash_invE [OF assms(1,2)] .
  note c = chainE [OF inv(2) slot_less, of key, unfolded assms(3)]
  have new: "\<forall>u \<in> set us. he_key u \<noteq> key"
  proof
    fix u assume "u \<in> set us"
    then have "he_key u \<in> he_key ` set us" by (rule imageI)
    moreover have "he_key e \<notin> he_key ` set us" using c(3) by simp
    ultimately show "he_key u \<noteq> key" using assms(4) by metis
  qed
  from search_loop_found [OF inv(3) c(2,5) new assms(4)] show ?thesis
    using read_dir_rep [OF inv(1), of "crc_of key"] c(1) by (simp add: HashDB_search_key_def crc_of_def [symmetric] slot_def [symmetric])
qed

lemma search_missing:
  assumes "hash_inv s C n" "n \<le> 2 ^ 32" "\<forall>e \<in> set (C (slot key)). he_key e \<noteq> key"
  shows "\<exists>q. HashDB_search_key key s = Some (Inr q) \<and> \<not> hs_is_exist q \<and>
     hs_cur_pos q = (if C (slot key) = [] then 0 else of_nat (he_pos (last (C (slot key))))) \<and>
     (C (slot key) \<noteq> [] \<longrightarrow> hs_bkt q = entry_bucket (last (C (slot key))) 0)"
proof -
  obtain dir bks where inv: "index_rep (hd_index s) (hd_info s) dir bks" "chains_ok dir bks (hd_data s) C"
    "chain_reads (hd_index s) (hd_data s) (hd_info s) dir bks" using hash_invE [OF assms(1,2)] .
  note c = chainE [OF inv(2) slot_less, of key]
  have "\<forall>e \<in> set (C (slot key)). entry_ok (hd_data s) e \<and> he_key e \<noteq> key" using c(5) assms(3) by blast
  from search_loop_missing [OF inv(3) c(2) this, of "\<lparr>hs_is_exist = False, hs_pre_pos = 0, hs_pre_bkt = Bucket_Clear, hs_cur_pos = 0, hs_bkt = Bucket_Clear\<rparr>"]
  show ?thesis using read_dir_rep [OF inv(1), of "crc_of key"] c(1)
    by (cases "C (slot key) = []") (simp_all add: HashDB_search_key_def crc_of_def [symmetric] slot_def [symmetric])
qed

lemma HashDB_Get_lookup:
  assumes "hash_inv s C n" "n \<le> 2 ^ 32"
  shows "HashDB_Get key s = Some (case lookup C key of None \<Rightarrow> Inl kNotFound | Some r \<Rightarrow> Inr r)"
proof -
  obtain dir bks where inv: "index_rep (hd_index s) (hd_info s) dir bks" "chains_ok dir bks (hd_data s) C"
    "chain_reads (hd_index s) (hd_data s) (hd_info s) dir bks" using hash_invE [OF assms] .
  note c = chainE [OF inv(2) slot_less, of key]
  from get_loop_chain [OF inv(3) c(2,5)] show ?thesis
    using read_dir_rep [OF inv(1), of "crc_of key"] c(1)
    by (simp add: HashDB_Get_def crc_of_def [symmetric] slot_def [symmetric] lookup_def split: option.splits)
qed

section \<open>Changing a chain\<close>

lemma seg_cong: "(\<And>e. e \<in> set es \<Longrightarrow> bks' (he_pos e) = bks (he_pos e)) \<Longrightarrow> seg bks' es nxt = seg bks es nxt"
  by (induction es) auto

lemma chains_update:
  assumes "chains_ok dir bks dat C" "h < HashDB_kMaxKeysNum"
    and new: "dir' h = of_nat (first_pos es 0)" "seg bks' es 0" "distinct (map he_key es)" "distinct (map he_pos es)"
      "\<And>e. e \<in> set es \<Longrightarrow> entry_ok dat' e \<and> slot (he_key e) = h"
    and frame: "\<And>h'. h' \<noteq> h \<Longrightarrow> dir' h' = dir h'" "\<And>h' e. h' < HashDB_kMaxKeysNum \<Longrightarrow> h' \<noteq> h \<Longrightarrow> e \<in> set (C h') \<Longrightarrow> bks' (he_pos e) = bks (he_pos e)"
      "\<And>e. entry_ok dat e \<Longrightarrow> entry_ok dat' e"
  shows "chains_ok dir' bks' dat' (C(h := es))"
proof -
  have "dir' h' = of_nat (first_pos (C h') 0) \<and> seg bks' (C h') 0 \<and> distinct (map he_key (C h')) \<and> distinct (map he_pos (C h')) \<and>
    (\<forall>e \<in> set (C h'). entry_ok dat' e \<and> slot (he_key e) = h')" if h': "h' < HashDB_kMaxKeysNum" "h' \<noteq> h" for h'
  proof -
    note c = chainE [OF assms(1) h'(1)]
    have "seg bks' (C h') 0 = seg bks (C h') 0" using frame(2) [OF h'] by (intro seg_cong)
    then show ?thesis using c frame(1,3) h'(2) by simp
  qed
  then show ?thesis using new unfolding chains_ok_def by simp
qed

lemma find_in_append: "find P (xs @ ys) = (case find P xs of None \<Rightarrow> find P ys | Some x \<Rightarrow> Some x)"
  by (induction xs) simp_all

lemma find_other: "\<not> P x \<Longrightarrow> find P (xs @ x # ys) = find P (xs @ ys)"
  by (cases "find P xs") (simp_all add: find_in_append)

lemma find_here: "P x \<Longrightarrow> \<forall>y \<in> set xs. \<not> P y \<Longrightarrow> find P (xs @ x # ys) = Some x"
  by (induction xs) simp_all

lemma lookup_update:
  assumes "\<And>k. slot k = h \<Longrightarrow> map_option (\<lambda>e. (he_value e, he_version e)) (find (\<lambda>e. he_key e = k) es) = M k"
    and "\<And>k. slot k \<noteq> h \<Longrightarrow> lookup C k = M k"
  shows "lookup (C(h := es)) = M"
  using assms by (auto simp: fun_eq_iff lookup_def)

text \<open>A new first bucket of a chain behind the prefix \<open>us\<close>: \<open>Put\<close> and \<open>Del\<close> relink the chain in the same way.\<close>

definition link_idx :: "nat \<Rightarrow> hash_entry list \<Rightarrow> nat \<Rightarrow> bytes \<Rightarrow> bytes" where
  "link_idx h us p idx = (if us = [] then file_write (h * 8 + sizeof_Info) (EncodeFixed64 (of_nat p) []) idx
     else file_write (he_pos (last us)) (HashDB_EncodeBucket (entry_bucket (last us) p)) idx)"

definition link_dir :: "nat \<Rightarrow> hash_entry list \<Rightarrow> nat \<Rightarrow> (nat \<Rightarrow> 64 word) \<Rightarrow> nat \<Rightarrow> 64 word" where
  "link_dir h us p dir = (if us = [] then dir(h := of_nat p) else dir)"

definition link_bks :: "hash_entry list \<Rightarrow> nat \<Rightarrow> (nat \<rightharpoonup> HashDB_Bucket) \<Rightarrow> nat \<rightharpoonup> HashDB_Bucket" where
  "link_bks us p bks = (if us = [] then bks else bks(he_pos (last us) \<mapsto> entry_bucket (last us) p))"

lemma link_index:
  assumes "index_rep idx info dir bks" "h < HashDB_kMaxKeysNum" "us \<noteq> [] \<longrightarrow> bks (he_pos (last us)) \<noteq> None"
  shows "index_rep (link_idx h us p idx) info (link_dir h us p dir) (link_bks us p bks) \<and> length (link_idx h us p idx) = length idx"
proof (cases "us = []")
  case True
  have "kBase \<le> length idx" using assms(1) by (simp add: index_rep_def bucket_pos_def)
  then have "h * 8 + sizeof_Info + 8 \<le> length idx" using assms(2) unfolding kBase_def by linarith
  then have "length (link_idx h us p idx) = length idx" using True by (simp add: link_idx_def length_file_write max_def)
  then show ?thesis using index_write_dir [OF assms(1,2), of "of_nat p"] True by (simp add: link_idx_def link_dir_def link_bks_def)
next
  case False
  then obtain b where b: "bks (he_pos (last us)) = Some b" using assms(3) by blast
  have "he_pos (last us) \<noteq> length idx" using index_bucket_room [OF assms(1) b] by simp
  then show ?thesis using index_write_bucket [OF assms(1), of "entry_bucket (last us) p" "he_pos (last us)"] b False
    by (simp add: link_idx_def link_dir_def link_bks_def)
qed

lemma seg_link:
  assumes "seg bks us n" "seg bks vs nxt" "distinct (map he_pos (us @ vs))"
  shows "seg (link_bks us (first_pos vs nxt) bks) (us @ vs) nxt"
proof (cases "us = []")
  case False
  then obtain us' l where L: "us = us' @ [l]" by (metis rev_exhaust)
  then have "seg bks us' (he_pos l)" using assms(1) by (simp add: seg_append)
  moreover have "he_pos l \<notin> he_pos ` set us'" "he_pos l \<notin> he_pos ` set vs" using assms(3) L by simp_all
  ultimately show ?thesis using assms(2) L by (simp add: link_bks_def seg_append seg_frame)
qed (use assms(2) in \<open>simp add: link_bks_def\<close>)

lemma link_first: "dir h = of_nat (first_pos (us @ ws) 0) \<Longrightarrow> link_dir h us (first_pos vs nxt) dir h = of_nat (first_pos (us @ vs) nxt)"
  by (cases us) (simp_all add: link_dir_def)

lemma link_frame:
  assumes "chains_ok dir bks dat C" "h' < HashDB_kMaxKeysNum" "h' \<noteq> slot key" "x \<in> set (C h')" "set us \<subseteq> set (C (slot key))"
  shows "link_bks us p bks' (he_pos x) = bks' (he_pos x)"
proof (cases "us = []")
  case False
  then have "last us \<in> set (C (slot key))" using assms(5) by auto
  then have "he_pos x \<noteq> he_pos (last us)" using chains_apart [OF assms(1,2) slot_less assms(4)] assms(3) by blast
  then show ?thesis by (simp add: link_bks_def)
qed (simp add: link_bks_def)

lemma hash_pos_slot: "hash_pos (CRC32 key (length key)) = slot key * 8 + sizeof_Info"
  by (simp add: hash_pos_def slot_def crc_of_def)

section \<open>A new bucket\<close>

definition new_entry :: "bytes \<Rightarrow> bytes \<Rightarrow> HashDB \<Rightarrow> hash_entry" where
  "new_entry key value s = \<lparr>he_pos = length (hd_index s), he_key = key, he_value = value, he_version = 1, he_dpos = length (hd_data s)\<rparr>"

definition new_index :: "hash_entry list \<Rightarrow> hash_entry \<Rightarrow> bytes \<Rightarrow> bytes" where
  "new_index us e idx = link_idx (slot (he_key e)) us (he_pos e) (file_write (length idx) (HashDB_EncodeBucket (entry_bucket e 0)) idx)"

definition data_append :: "hash_entry \<Rightarrow> bytes \<Rightarrow> bytes" where
  "data_append e dat = file_write (length dat) (HashDB_EncodeDataValue (data_of e)) dat"

lemma length_data_append: "length (data_append e dat) = length dat + entry_len e"
  by (simp add: data_append_def length_file_write length_data_of)

lemma new_entry_simps [simp]:
  "he_pos (new_entry key value s) = length (hd_index s)" "he_key (new_entry key value s) = key"
  "he_value (new_entry key value s) = value" "he_version (new_entry key value s) = 1" "he_dpos (new_entry key value s) = length (hd_data s)"
  by (simp_all add: new_entry_def)

lemma put_new_files:
  assumes "us \<noteq> [] \<longrightarrow> unat (of_nat (he_pos (last us)) :: 64 word) = he_pos (last us) \<and> (of_nat (he_pos (last us)) :: 64 word) \<noteq> 0"
    and q: "hs_cur_pos q = (if us = [] then 0 else of_nat (he_pos (last us)))" "us \<noteq> [] \<longrightarrow> hs_bkt q = entry_bucket (last us) 0"
  shows "put_new key value q s =
    write_info ((hd_info s)\<lparr>hi_used_cnt := hi_used_cnt (hd_info s) + 1, hi_trx_id := hi_trx_id (hd_info s) + 1\<rparr>)
      (new_index us (new_entry key value s) (hd_index s)) (data_append (new_entry key value s) (hd_data s))"
proof -
  have nb: "Bucket_Clear\<lparr>hb_version := 1, hb_next_pos := 0, hb_key_hash := CRC32 key (length key),
      hb_pre_key := (let n = min HashDB_kPreKeySize (length key) in take n key @ drop n (hb_pre_key Bucket_Clear)),
      hb_key_size := of_nat (length key), hb_value_size := of_nat (length value), hb_data_pos := of_nat (length (hd_data s))\<rparr> =
      entry_bucket (new_entry key value s) 0"
    by (simp add: entry_bucket_def crc_of_def pre_key_of_def Bucket_Clear_def HashDB_kPreKeySize_def Let_def)
  have nd: "new_data key value 1 = data_of (new_entry key value s)" by (simp add: data_of_def)
  show ?thesis
    using assms unfolding put_new_def Let_def nb [unfolded Let_def] nd hash_pos_slot
    by (cases "us = []") (simp_all add: new_index_def data_append_def link_idx_def)
qed

lemma new_index_rep:
  assumes "index_rep (hd_index s) info dir bks" "us \<noteq> [] \<longrightarrow> bks (he_pos (last us)) \<noteq> None"
  shows "index_rep (new_index us (new_entry key value s) (hd_index s)) info (link_dir (slot key) us (length (hd_index s)) dir)
      (link_bks us (length (hd_index s)) (bks(length (hd_index s) \<mapsto> entry_bucket (new_entry key value s) 0)))"
    "length (new_index us (new_entry key value s) (hd_index s)) = length (hd_index s) + 44"
proof -
  have w: "index_rep (file_write (length (hd_index s)) (HashDB_EncodeBucket (entry_bucket (new_entry key value s) 0)) (hd_index s)) info dir
      (bks(length (hd_index s) \<mapsto> entry_bucket (new_entry key value s) 0))"
    "length (file_write (length (hd_index s)) (HashDB_EncodeBucket (entry_bucket (new_entry key value s) 0)) (hd_index s)) = length (hd_index s) + 44"
    using index_write_bucket [OF assms(1), of "entry_bucket (new_entry key value s) 0" "length (hd_index s)"] by simp_all
  have "us \<noteq> [] \<longrightarrow> (bks(length (hd_index s) \<mapsto> entry_bucket (new_entry key value s) 0)) (he_pos (last us)) \<noteq> None" using assms(2) by simp
  from link_index [OF w(1) slot_less [of key] this, of "length (hd_index s)"] w(2)
  show "index_rep (new_index us (new_entry key value s) (hd_index s)) info (link_dir (slot key) us (length (hd_index s)) dir)
      (link_bks us (length (hd_index s)) (bks(length (hd_index s) \<mapsto> entry_bucket (new_entry key value s) 0)))"
    "length (new_index us (new_entry key value s) (hd_index s)) = length (hd_index s) + 44"
    by (simp_all add: new_index_def del: fun_upd_apply)
qed

lemma new_chains:
  assumes r: "index_rep (hd_index s) info dir bks" "chains_ok dir bks (hd_data s) C"
    and c: "\<forall>e \<in> set (C (slot key)). he_key e \<noteq> key" and len: "24 + length key + length value \<le> HashDB_kMaxDataSize"
  shows "chains_ok (link_dir (slot key) (C (slot key)) (length (hd_index s)) dir)
    (link_bks (C (slot key)) (length (hd_index s)) (bks(length (hd_index s) \<mapsto> entry_bucket (new_entry key value s) 0)))
    (data_append (new_entry key value s) (hd_data s)) (C(slot key := C (slot key) @ [new_entry key value s]))"
proof (rule chains_update [OF r(2) slot_less])
  let ?L = "C (slot key)" and ?p = "length (hd_index s)" and ?e = "new_entry key value s"
  note ch = chainE [OF r(2) slot_less, of key]
  have fresh: "?p \<notin> he_pos ` set (C h)" if h: "h < HashDB_kMaxKeysNum" for h
  proof
    assume "?p \<in> he_pos ` set (C h)"
    then obtain x where x: "x \<in> set (C h)" "he_pos x = ?p" by auto
    from seg_in [OF chainE(2) [OF r(2) h] x(1)] obtain m where "bks (he_pos x) = Some (entry_bucket x m)" ..
    then show False using index_bucket_room [OF r(1)] x(2) by fastforce
  qed
  show "link_dir (slot key) ?L ?p dir (slot key) = of_nat (first_pos (?L @ [?e]) 0)"
    using link_first [of dir "slot key" ?L "[]" "[?e]" 0] ch(1) by simp
  have dp: "distinct (map he_pos (?L @ [?e]))" using ch(4) fresh [of "slot key"] by simp
  show "distinct (map he_pos (?L @ [?e]))" by (rule dp)
  show "distinct (map he_key (?L @ [?e]))" using ch(3) c by auto
  have "seg (bks(?p \<mapsto> entry_bucket ?e 0)) ?L 0" using ch(2) fresh [of "slot key"] by (simp add: seg_frame)
  from seg_link [OF this _ dp, of 0] show "seg (link_bks ?L ?p (bks(?p \<mapsto> entry_bucket ?e 0))) (?L @ [?e]) 0" by simp
  have el: "entry_len ?e \<le> HashDB_kMaxDataSize" using len by (simp add: entry_len_def)
  show "entry_ok (data_append ?e (hd_data s)) x \<and> slot (he_key x) = slot key" if "x \<in> set (?L @ [?e])" for x
    using that ch(5,6) entry_ok_append entry_ok_new [of ?e "hd_data s"] el by (auto simp: data_append_def)
  show "link_dir (slot key) ?L ?p dir h' = dir h'" if "h' \<noteq> slot key" for h' using that by (simp add: link_dir_def)
  show "link_bks ?L ?p (bks(?p \<mapsto> entry_bucket ?e 0)) (he_pos x) = bks (he_pos x)"
    if h: "h' < HashDB_kMaxKeysNum" "h' \<noteq> slot key" "x \<in> set (C h')" for h' x
  proof -
    have "he_pos x \<noteq> ?p" using fresh [OF h(1)] h(3) by (metis imageI)
    then show ?thesis using link_frame [OF r(2) h subset_refl] by simp
  qed
  show "entry_ok (data_append ?e (hd_data s)) x" if "entry_ok (hd_data s) x" for x using that unfolding data_append_def by (rule entry_ok_append)
qed

lemma last_bucket:
  "seg bks us n \<Longrightarrow> us \<noteq> [] \<longrightarrow> bks (he_pos (last us)) \<noteq> None"
  using seg_in [of bks us n "last us"] by auto

lemma last_small:
  "chain_reads idx dat info dir bks \<Longrightarrow> seg bks us n \<Longrightarrow> us \<noteq> [] \<longrightarrow>
   unat (of_nat (he_pos (last us)) :: 64 word) = he_pos (last us) \<and> (of_nat (he_pos (last us)) :: 64 word) \<noteq> 0"
  using last_bucket [of bks us n] pos_small [of idx dat info dir bks] by auto

lemma write_info_inv:
  assumes "index_rep idx i dir bks" "chains_ok dir bks dat C" "hi_max_num info = of_nat HashDB_kMaxKeysNum"
    "length idx \<le> kBase + 44 * n" "length dat \<le> HashDB_kMaxDataSize * n"
  shows "hash_inv (write_info info idx dat) C n"
proof -
  have "16 \<le> length idx" using assms(1) by (simp add: index_rep_def bucket_pos_def sizes)
  then have "length (file_write 0 (HashDB_EncodeInfo info) idx) = length idx" by (simp add: length_file_write)
  then show ?thesis using assms index_write_info [OF assms(1), of info] unfolding hash_inv_def write_info_def by auto
qed

lemma put_new_inv:
  assumes inv: "hash_inv s C n" and n: "n < 2 ^ 32" and c: "\<forall>e \<in> set (C (slot key)). he_key e \<noteq> key"
    and len: "24 + length key + length value \<le> HashDB_kMaxDataSize"
    and q: "hs_cur_pos q = (if C (slot key) = [] then 0 else of_nat (he_pos (last (C (slot key)))))"
      "C (slot key) \<noteq> [] \<longrightarrow> hs_bkt q = entry_bucket (last (C (slot key))) 0"
  shows "\<exists>C'. hash_inv (put_new key value q s) C' (n + 1) \<and> lookup C' = (lookup C)(key \<mapsto> (value, 1)) \<and>
    hd_info (put_new key value q s) = (hd_info s)\<lparr>hi_used_cnt := hi_used_cnt (hd_info s) + 1, hi_trx_id := hi_trx_id (hd_info s) + 1\<rparr>"
proof -
  have n': "n \<le> 2 ^ 32" using n by simp
  obtain dir bks where r: "index_rep (hd_index s) (hd_info s) dir bks" "chains_ok dir bks (hd_data s) C"
    "chain_reads (hd_index s) (hd_data s) (hd_info s) dir bks" using hash_invE [OF inv n'] .
  let ?L = "C (slot key)" and ?e = "new_entry key value s"
  note sg = chainE(2) [OF r(2) slot_less, of key]
  note s' = put_new_files [OF last_small [OF r(3) sg] q, of key "value" s]
  note w = new_index_rep [OF r(1) last_bucket [OF sg], of key "value"]
  have "entry_len ?e \<le> HashDB_kMaxDataSize" using len by (simp add: entry_len_def)
  then have dl: "length (data_append ?e (hd_data s)) \<le> HashDB_kMaxDataSize * (n + 1)"
    using inv by (simp add: hash_inv_def length_data_append)
  have "hash_inv (put_new key value q s) (C(slot key := ?L @ [?e])) (n + 1)"
    unfolding s' using inv w(2) dl by (intro write_info_inv [OF w(1) new_chains [OF r(1,2) c len]]) (simp_all add: hash_inv_def)
  moreover have "lookup (C(slot key := ?L @ [?e])) = (lookup C)(key \<mapsto> (value, 1))"
  proof (rule lookup_update)
    fix k assume k: "slot k = slot key"
    have "find (\<lambda>e. he_key e = key) ?L = None" using c by (simp add: find_None_iff)
    then show "map_option (\<lambda>e. (he_value e, he_version e)) (find (\<lambda>e. he_key e = k) (?L @ [?e])) = ((lookup C)(key \<mapsto> (value, 1))) k"
      using k by (cases "k = key") (simp_all add: lookup_def find_in_append split: option.splits)
  qed auto
  ultimately show ?thesis by (intro exI [of _ "C(slot key := ?L @ [?e])"]) (simp add: s' write_info_def)
qed

section \<open>A new version\<close>

definition new_version :: "bytes \<Rightarrow> HashDB \<Rightarrow> hash_entry \<Rightarrow> hash_entry" where
  "new_version value s e = e\<lparr>he_value := value, he_version := he_version e + 1, he_dpos := length (hd_data s)\<rparr>"

lemma new_version_simps [simp]:
  "he_pos (new_version value s e) = he_pos e" "he_key (new_version value s e) = he_key e" "he_value (new_version value s e) = value"
  "he_version (new_version value s e) = he_version e + 1" "he_dpos (new_version value s e) = length (hd_data s)"
  by (simp_all add: new_version_def)

lemma put_exist_files:
  assumes "unat (of_nat (he_pos e) :: 64 word) = he_pos e" "hs_cur_pos q = of_nat (he_pos e)" "hs_bkt q = entry_bucket e nxt" "he_key e = key"
  shows "put_exist key value q s = write_info ((hd_info s)\<lparr>hi_trx_id := hi_trx_id (hd_info s) + 1\<rparr>)
    (file_write (he_pos e) (HashDB_EncodeBucket (entry_bucket (new_version value s e) nxt)) (hd_index s))
    (data_append (new_version value s e) (hd_data s))"
  unfolding put_exist_def Let_def assms(1-3) using assms(4) by (simp add: data_append_def data_of_def entry_bucket_def)

lemma exist_chains:
  assumes r: "chains_ok dir bks (hd_data s) C" and c: "C (slot key) = us @ e # vs" "he_key e = key"
    and len: "24 + length key + length value \<le> HashDB_kMaxDataSize"
  shows "chains_ok dir (bks(he_pos e \<mapsto> entry_bucket (new_version value s e) (first_pos vs 0)))
    (data_append (new_version value s e) (hd_data s)) (C(slot key := us @ new_version value s e # vs))"
proof (rule chains_update [OF r slot_less])
  let ?e = "new_version value s e"
  note ch = chainE [OF r slot_less, of key, unfolded c(1)]
  have "entry_len ?e \<le> HashDB_kMaxDataSize" using len c(2) by (simp add: entry_len_def)
  then have ok: "entry_ok (data_append ?e (hd_data s)) ?e" unfolding data_append_def by (intro entry_ok_new) simp_all
  show "dir (slot key) = of_nat (first_pos (us @ ?e # vs) 0)" using ch(1) by (simp add: first_pos_append)
  have "seg bks us (he_pos e)" "seg bks vs 0" using ch(2) by (simp_all add: seg_append)
  moreover have "he_pos e \<notin> he_pos ` set us" "he_pos e \<notin> he_pos ` set vs" using ch(4) by auto
  ultimately show "seg (bks(he_pos e \<mapsto> entry_bucket ?e (first_pos vs 0))) (us @ ?e # vs) 0" by (simp add: seg_append seg_frame)
  show "distinct (map he_key (us @ ?e # vs))" "distinct (map he_pos (us @ ?e # vs))" using ch(3,4) by simp_all
  show "entry_ok (data_append ?e (hd_data s)) x \<and> slot (he_key x) = slot key" if x: "x \<in> set (us @ ?e # vs)" for x
  proof (cases "x = ?e")
    case True
    then show ?thesis using ok c(2) by simp
  next
    case False
    then have "x \<in> set (us @ e # vs)" using x by auto
    then show ?thesis using ch(5,6) entry_ok_append unfolding data_append_def by blast
  qed
  show "(bks(he_pos e \<mapsto> entry_bucket ?e (first_pos vs 0))) (he_pos x) = bks (he_pos x)"
    if h: "h' < HashDB_kMaxKeysNum" "h' \<noteq> slot key" "x \<in> set (C h')" for h' x
  proof -
    have "e \<in> set (C (slot key))" by (simp add: c(1))
    then have "he_pos x \<noteq> he_pos e" using chains_apart [OF r h(1) slot_less h(3)] h(2) by blast
    then show ?thesis by simp
  qed
  show "entry_ok (data_append ?e (hd_data s)) x" if "entry_ok (hd_data s) x" for x using that unfolding data_append_def by (rule entry_ok_append)
qed simp

lemma find_chain:
  assumes "distinct (map he_key (us @ e # vs))" "he_key e = key"
  shows "find (\<lambda>x. he_key x = key) (us @ vs) = None" "find (\<lambda>x. he_key x = key) us = None"
proof -
  have "he_key e \<notin> he_key ` set (us @ vs)" using assms(1) by auto
  then have "\<forall>u \<in> set (us @ vs). he_key u \<noteq> key" using assms(2) by (metis imageI)
  then show "find (\<lambda>x. he_key x = key) (us @ vs) = None" "find (\<lambda>x. he_key x = key) us = None" by (auto simp: find_None_iff)
qed

lemma put_exist_inv:
  assumes inv: "hash_inv s C n" and n: "n < 2 ^ 32" and c: "C (slot key) = us @ e # vs" "he_key e = key"
    and len: "24 + length key + length value \<le> HashDB_kMaxDataSize"
    and q: "hs_cur_pos q = of_nat (he_pos e)" "hs_bkt q = entry_bucket e (first_pos vs 0)"
  shows "\<exists>C'. hash_inv (put_exist key value q s) C' (n + 1) \<and> lookup C' = (lookup C)(key \<mapsto> (value, he_version e + 1)) \<and>
    hd_info (put_exist key value q s) = (hd_info s)\<lparr>hi_trx_id := hi_trx_id (hd_info s) + 1\<rparr>"
proof -
  have n': "n \<le> 2 ^ 32" using n by simp
  obtain dir bks where r: "index_rep (hd_index s) (hd_info s) dir bks" "chains_ok dir bks (hd_data s) C"
    "chain_reads (hd_index s) (hd_data s) (hd_info s) dir bks" using hash_invE [OF inv n'] .
  note ch = chainE [OF r(2) slot_less, of key, unfolded c(1)]
  let ?e = "new_version value s e"
  have b: "bks (he_pos e) = Some (entry_bucket e (first_pos vs 0))" using ch(2) by (simp add: seg_append)
  have "unat (of_nat (he_pos e) :: 64 word) = he_pos e" using pos_small [OF r(3) b] by blast
  note s' = put_exist_files [OF this q c(2), of "value" s]
  have pe: "he_pos e \<noteq> length (hd_index s)" using index_bucket_room [OF r(1) b] by simp
  have w: "index_rep (file_write (he_pos e) (HashDB_EncodeBucket (entry_bucket ?e (first_pos vs 0))) (hd_index s)) (hd_info s) dir
      (bks(he_pos e \<mapsto> entry_bucket ?e (first_pos vs 0)))"
    "length (file_write (he_pos e) (HashDB_EncodeBucket (entry_bucket ?e (first_pos vs 0))) (hd_index s)) = length (hd_index s)"
    using index_write_bucket [OF r(1), of "entry_bucket ?e (first_pos vs 0)" "he_pos e"] b pe by simp_all
  have "entry_len ?e \<le> HashDB_kMaxDataSize" using len c(2) by (simp add: entry_len_def)
  then have dl: "length (data_append ?e (hd_data s)) \<le> HashDB_kMaxDataSize * (n + 1)" using inv by (simp add: hash_inv_def length_data_append)
  have "hash_inv (put_exist key value q s) (C(slot key := us @ ?e # vs)) (n + 1)"
    unfolding s' using inv w(2) dl by (intro write_info_inv [OF w(1) exist_chains [OF r(2) c len]]) (simp_all add: hash_inv_def)
  moreover have "lookup (C(slot key := us @ ?e # vs)) = (lookup C)(key \<mapsto> (value, he_version e + 1))"
  proof (rule lookup_update)
    fix k assume k: "slot k = slot key"
    show "map_option (\<lambda>e. (he_value e, he_version e)) (find (\<lambda>e. he_key e = k) (us @ ?e # vs)) =
      ((lookup C)(key \<mapsto> (value, he_version e + 1))) k"
      using k c find_chain(2) [OF ch(3) c(2)] find_other [of "\<lambda>e. he_key e = k" e us vs] find_other [of "\<lambda>e. he_key e = k" ?e us vs]
      by (cases "k = key") (simp_all add: lookup_def find_in_append)
  qed auto
  ultimately show ?thesis by (intro exI [of _ "C(slot key := us @ ?e # vs)"]) (simp add: s' write_info_def)
qed

section \<open>A deletion\<close>

lemma del_files:
  assumes s: "HashDB_search_key key s = Some (Inr \<lparr>hs_is_exist = True, hs_pre_pos = (if us = [] then 0 else of_nat (he_pos (last us))),
     hs_pre_bkt = (if us = [] then Bucket_Clear else entry_bucket (last us) (he_pos e)), hs_cur_pos = of_nat (he_pos e),
     hs_bkt = entry_bucket e nxt\<rparr>)"
    and us: "us \<noteq> [] \<longrightarrow> unat (of_nat (he_pos (last us)) :: 64 word) = he_pos (last us) \<and> (of_nat (he_pos (last us)) :: 64 word) \<noteq> 0"
    and v: "version = - 1 \<or> version = he_version e"
  shows "HashDB_Del key version s = Some (kOk,
    write_info ((hd_info s)\<lparr>hi_used_cnt := hi_used_cnt (hd_info s) - 1, hi_trx_id := hi_trx_id (hd_info s) + 1\<rparr>)
      (link_idx (slot key) us nxt (hd_index s)) (hd_data s))"
  using assms by (cases "us = []") (auto simp: HashDB_Del_def hash_pos_slot link_idx_def)

lemma del_inv:
  assumes inv: "hash_inv s C n" and n: "n < 2 ^ 32" and c: "C (slot key) = us @ e # vs" "he_key e = key" and v: "version = - 1 \<or> version = he_version e"
  shows "\<exists>C' s'. HashDB_Del key version s = Some (kOk, s') \<and> hash_inv s' C' (n + 1) \<and> lookup C' = (lookup C)(key := None) \<and>
    hd_info s' = (hd_info s)\<lparr>hi_used_cnt := hi_used_cnt (hd_info s) - 1, hi_trx_id := hi_trx_id (hd_info s) + 1\<rparr>"
proof -
  have n': "n \<le> 2 ^ 32" using n by simp
  obtain dir bks where r: "index_rep (hd_index s) (hd_info s) dir bks" "chains_ok dir bks (hd_data s) C"
    "chain_reads (hd_index s) (hd_data s) (hd_info s) dir bks" using hash_invE [OF inv n'] .
  note ch = chainE [OF r(2) slot_less, of key, unfolded c(1)]
  let ?h = "slot key" and ?dat = "hd_data s" and ?idx = "hd_index s" and ?nxt = "first_pos vs 0"
  have sg: "seg bks us (he_pos e)" "seg bks vs 0" using ch(2) by (simp_all add: seg_append)
  have w: "index_rep (link_idx ?h us ?nxt ?idx) (hd_info s) (link_dir ?h us ?nxt dir) (link_bks us ?nxt bks)"
    "length (link_idx ?h us ?nxt ?idx) = length ?idx" using link_index [OF r(1) slot_less last_bucket [OF sg(1)]] by simp_all
  have chains: "chains_ok (link_dir ?h us ?nxt dir) (link_bks us ?nxt bks) ?dat (C(?h := us @ vs))"
  proof (rule chains_update [OF r(2) slot_less])
    show "link_dir ?h us ?nxt dir ?h = of_nat (first_pos (us @ vs) 0)" using ch(1) by (rule link_first)
    show "seg (link_bks us ?nxt bks) (us @ vs) 0" using ch(4) by (intro seg_link [OF sg]) simp
    show "distinct (map he_key (us @ vs))" "distinct (map he_pos (us @ vs))" using ch(3,4) by simp_all
    show "entry_ok ?dat x \<and> slot (he_key x) = ?h" if "x \<in> set (us @ vs)" for x using that ch(5,6) by simp
    show "link_dir ?h us ?nxt dir h' = dir h'" if "h' \<noteq> ?h" for h' using that by (simp add: link_dir_def)
    show "link_bks us ?nxt bks (he_pos x) = bks (he_pos x)" if h: "h' < HashDB_kMaxKeysNum" "h' \<noteq> ?h" "x \<in> set (C h')" for h' x
      by (rule link_frame [OF r(2) h]) (auto simp: c(1))
  qed
  have "lookup (C(?h := us @ vs)) = (lookup C)(key := None)"
  proof (rule lookup_update)
    fix k assume k: "slot k = ?h"
    show "map_option (\<lambda>e. (he_value e, he_version e)) (find (\<lambda>e. he_key e = k) (us @ vs)) = ((lookup C)(key := None)) k"
      using k c find_chain(1) [OF ch(3) c(2)] find_other [of "\<lambda>e. he_key e = k" e us vs] by (cases "k = key") (simp_all add: lookup_def)
  qed auto
  moreover have "hash_inv (write_info ((hd_info s)\<lparr>hi_used_cnt := hi_used_cnt (hd_info s) - 1, hi_trx_id := hi_trx_id (hd_info s) + 1\<rparr>)
      (link_idx ?h us ?nxt ?idx) ?dat) (C(?h := us @ vs)) (n + 1)"
    using inv w(2) by (intro write_info_inv [OF w(1) chains]) (simp_all add: hash_inv_def)
  ultimately show ?thesis using del_files [OF search_found [OF inv n' c] last_small [OF r(3) sg(1)] v]
    by (intro exI [of _ "C(?h := us @ vs)"] exI) (auto simp: write_info_def)
qed

end
