(* ===== verification/Hash_Db_Run.thy ===== *)
theory Hash_Db_Run
  imports Hash_Db_Spec
begin

text \<open>
  The hash database as an object: any sequence of operations from an empty directory, closing and opening
  the files again in between, answers as a finite map from keys to values with versions does.
\<close>

section \<open>The map\<close>

type_synonym hash_state = "(bytes \<rightharpoonup> bytes \<times> 64 word) \<times> 64 word"

definition db_rep :: "HashDB \<Rightarrow> nat \<Rightarrow> hash_state \<Rightarrow> bool" where
  "db_rep s n = (\<lambda>(M, trx). \<exists>C. hash_inv s C n \<and> lookup C = M \<and> finite (dom M) \<and>
     hi_used_cnt (hd_info s) = of_nat (card (dom M)) \<and> hi_trx_id (hd_info s) = trx)"

definition spec_put :: "bytes \<Rightarrow> bytes \<Rightarrow> 64 word \<Rightarrow> hash_state \<Rightarrow> Code \<times> hash_state" where
  "spec_put key value version = (\<lambda>(M, trx).
     if HashDB_kMaxDataSize \<le> length value then (kValueSizeIsLarger, M, trx)
     else case M key of
       Some (old, ver) \<Rightarrow> if version = - 1 \<or> version = ver then (kOk, M(key \<mapsto> (value, ver + 1)), trx + 1) else (kCASFailed, M, trx)
     | None \<Rightarrow> if version = - 1 \<or> version = 0 then (kOk, M(key \<mapsto> (value, 1)), trx + 1) else (kCASFailed, M, trx))"

definition spec_del :: "bytes \<Rightarrow> 64 word \<Rightarrow> hash_state \<Rightarrow> Code \<times> hash_state" where
  "spec_del key version = (\<lambda>(M, trx).
     case M key of
       Some (old, ver) \<Rightarrow> if version = - 1 \<or> version = ver then (kOk, M(key := None), trx + 1) else (kCASFailed, M, trx)
     | None \<Rightarrow> (kNotFound, M, trx))"

definition spec_status :: "hash_state \<Rightarrow> DBStatusInfo" where
  "spec_status = (\<lambda>(M, trx). \<lparr>si_max_num = of_nat HashDB_kMaxKeysNum, si_used_cnt = of_nat (card (dom M)), si_trx_id = trx,
     si_same_hash_status = (\<lambda>num. let c = card {h. h < HashDB_kMaxKeysNum \<and> of_nat (card {k \<in> dom M. slot k = h}) = num}
       in if c = 0 then None else Some (of_nat c))\<rparr>)"

section \<open>One operation\<close>

lemma hash_inv_Suc: "hash_inv s C n \<Longrightarrow> hash_inv s C (n + 1)"
  by (auto simp: hash_inv_def)

lemma db_rep_Suc: "db_rep s n A \<Longrightarrow> db_rep s (n + 1) A"
  unfolding db_rep_def using hash_inv_Suc by (cases A) blast

lemma db_repI:
  "hash_inv s C n \<Longrightarrow> lookup C = M \<Longrightarrow> finite (dom M) \<Longrightarrow> hi_used_cnt (hd_info s) = of_nat (card (dom M)) \<Longrightarrow>
   hi_trx_id (hd_info s) = trx \<Longrightarrow> db_rep s n (M, trx)"
  unfolding db_rep_def by blast

lemma chain_cases:
  obtains (missing) "\<forall>e \<in> set (C (slot key)). he_key e \<noteq> key" "lookup C key = None"
  | (found) us e vs where "C (slot key) = us @ e # vs" "he_key e = key" "lookup C key = Some (he_value e, he_version e)"
proof (cases "\<forall>e \<in> set (C (slot key)). he_key e \<noteq> key")
  case True
  then have "find (\<lambda>e. he_key e = key) (C (slot key)) = None" by (auto simp: find_None_iff)
  then show thesis using missing True by (simp add: lookup_def)
next
  case False
  then obtain us e vs where e: "C (slot key) = us @ e # vs" "he_key e = key" "\<forall>u \<in> set us. he_key u \<noteq> key"
    using split_list_first_prop [of "C (slot key)" "\<lambda>e. he_key e = key"] by blast
  then have "lookup C key = Some (he_value e, he_version e)" by (simp add: lookup_def find_here)
  then show thesis using found e by blast
qed

lemma db_rep_used:
  assumes "finite (dom M)"
  shows "(of_nat (card (dom (M(key \<mapsto> v)))) :: 32 word) = of_nat (card (dom M)) + (if M key = None then 1 else 0)"
    "M key \<noteq> None \<Longrightarrow> (of_nat (card (dom (M(key := None)))) :: 32 word) = of_nat (card (dom M)) - 1"
proof -
  show "(of_nat (card (dom (M(key \<mapsto> v)))) :: 32 word) = of_nat (card (dom M)) + (if M key = None then 1 else 0)"
    using assms by (cases "M key") (simp_all add: domIff insert_absorb)
  assume "M key \<noteq> None"
  then have "key \<in> dom M" by blast
  then have "card (dom M) = Suc (card (dom M - {key}))" using assms by (metis card_Suc_Diff1)
  then show "(of_nat (card (dom (M(key := None)))) :: 32 word) = of_nat (card (dom M)) - 1" by simp
qed

lemma db_put:
  assumes "db_rep s n A" "n < 2 ^ 32" "HashDB_kMaxDataSize \<le> length value \<or> 24 + length key + length value \<le> HashDB_kMaxDataSize"
  shows "\<exists>s'. HashDB_Put key value version s = Some (fst (spec_put key value version A), s') \<and>
    db_rep s' (n + 1) (snd (spec_put key value version A))"
proof (cases "HashDB_kMaxDataSize \<le> length value")
  case True
  then show ?thesis using db_rep_Suc [OF assms(1)] by (cases A) (simp add: HashDB_Put_def spec_put_def)
next
  case small: False
  then have len: "24 + length key + length value \<le> HashDB_kMaxDataSize" using assms(3) by simp
  obtain M trx where A: "A = (M, trx)" by (cases A)
  obtain C where C: "hash_inv s C n" "lookup C = M" "finite (dom M)" "hi_used_cnt (hd_info s) = of_nat (card (dom M))"
    "hi_trx_id (hd_info s) = trx" using assms(1) A by (auto simp: db_rep_def)
  have n: "n \<le> 2 ^ 32" using assms(2) by simp
  show ?thesis
  proof (cases rule: chain_cases [of C key])
    case missing
    obtain q where q: "HashDB_search_key key s = Some (Inr q)" "\<not> hs_is_exist q"
      "hs_cur_pos q = (if C (slot key) = [] then 0 else of_nat (he_pos (last (C (slot key)))))"
      "C (slot key) \<noteq> [] \<longrightarrow> hs_bkt q = entry_bucket (last (C (slot key))) 0"
      using search_missing [OF C(1) n missing(1)] by blast
    obtain C' where C': "hash_inv (put_new key value q s) C' (n + 1)" "lookup C' = (lookup C)(key \<mapsto> (value, 1))"
      "hd_info (put_new key value q s) = (hd_info s)\<lparr>hi_used_cnt := hi_used_cnt (hd_info s) + 1, hi_trx_id := hi_trx_id (hd_info s) + 1\<rparr>"
      using put_new_inv [OF C(1) assms(2) missing(1) len q(3,4)] by blast
    have "db_rep (put_new key value q s) (n + 1) (M(key \<mapsto> (value, 1)), trx + 1)"
    proof (rule db_repI [OF C'(1)])
      show "lookup C' = M(key \<mapsto> (value, 1))" "finite (dom (M(key \<mapsto> (value, 1))))" using C'(2) C(2,3) by simp_all
    qed (use C'(3) C(2,4,5) missing(2) db_rep_used(1) [OF C(3), of key "(value, 1)"] in \<open>simp_all del: dom_fun_upd\<close>)
    then show ?thesis using db_rep_Suc [OF assms(1)] q(1,2) small missing(2) C(2) A by (auto simp: HashDB_Put_def spec_put_def)
  next
    case (found us e vs)
    let ?q = "\<lparr>hs_is_exist = True, hs_pre_pos = (if us = [] then 0 else of_nat (he_pos (last us))),
     hs_pre_bkt = (if us = [] then Bucket_Clear else entry_bucket (last us) (he_pos e)), hs_cur_pos = of_nat (he_pos e),
     hs_bkt = entry_bucket e (first_pos vs 0)\<rparr>"
    note q = search_found [OF C(1) n found(1,2)]
    obtain C' where C': "hash_inv (put_exist key value ?q s) C' (n + 1)" "lookup C' = (lookup C)(key \<mapsto> (value, he_version e + 1))"
      "hd_info (put_exist key value ?q s) = (hd_info s)\<lparr>hi_trx_id := hi_trx_id (hd_info s) + 1\<rparr>"
      using put_exist_inv [OF C(1) assms(2) found(1,2) len, of ?q] by auto
    have "db_rep (put_exist key value ?q s) (n + 1) (M(key \<mapsto> (value, he_version e + 1)), trx + 1)"
    proof (rule db_repI [OF C'(1)])
      show "lookup C' = M(key \<mapsto> (value, he_version e + 1))" "finite (dom (M(key \<mapsto> (value, he_version e + 1))))"
        using C'(2) C(2,3) by simp_all
    qed (use C'(3) C(2,4,5) found(3) db_rep_used(1) [OF C(3), of key "(value, he_version e + 1)"] in \<open>simp_all del: dom_fun_upd\<close>)
    then show ?thesis using db_rep_Suc [OF assms(1)] q small found(3) C(2) A by (auto simp: HashDB_Put_def spec_put_def)
  qed
qed

lemma db_del:
  assumes "db_rep s n A" "n < 2 ^ 32"
  shows "\<exists>s'. HashDB_Del key version s = Some (fst (spec_del key version A), s') \<and>
    db_rep s' (n + 1) (snd (spec_del key version A))"
proof -
  obtain M trx where A: "A = (M, trx)" by (cases A)
  obtain C where C: "hash_inv s C n" "lookup C = M" "finite (dom M)" "hi_used_cnt (hd_info s) = of_nat (card (dom M))"
    "hi_trx_id (hd_info s) = trx" using assms(1) A by (auto simp: db_rep_def)
  have n: "n \<le> 2 ^ 32" using assms(2) by simp
  show ?thesis
  proof (cases rule: chain_cases [of C key])
    case missing
    then obtain q where "HashDB_search_key key s = Some (Inr q)" "\<not> hs_is_exist q" using search_missing [OF C(1) n missing(1)] by blast
    then show ?thesis using db_rep_Suc [OF assms(1)] missing(2) C(2) A by (simp add: HashDB_Del_def spec_del_def)
  next
    case (found us e vs)
    show ?thesis
    proof (cases "version = - 1 \<or> version = he_version e")
      case True
      obtain C' s' where C': "HashDB_Del key version s = Some (kOk, s')" "hash_inv s' C' (n + 1)" "lookup C' = (lookup C)(key := None)"
        "hd_info s' = (hd_info s)\<lparr>hi_used_cnt := hi_used_cnt (hd_info s) - 1, hi_trx_id := hi_trx_id (hd_info s) + 1\<rparr>"
        using del_inv [OF C(1) assms(2) found(1,2) True] by blast
      have "db_rep s' (n + 1) (M(key := None), trx + 1)"
      proof (rule db_repI [OF C'(2)])
        show "lookup C' = M(key := None)" "finite (dom (M(key := None)))" using C'(3) C(2,3) by simp_all
      qed (use C'(4) C(2,4,5) found(3) db_rep_used(2) [OF C(3), of key] in \<open>simp_all del: dom_fun_upd\<close>)
      then show ?thesis using C'(1) found(3) C(2) A True by (auto simp: spec_del_def)
    next
      case False
      then show ?thesis using db_rep_Suc [OF assms(1)] search_found [OF C(1) n found(1,2)] found(3) C(2) A
        by (simp add: HashDB_Del_def spec_del_def)
    qed
  qed
qed

lemma db_get:
  assumes "db_rep s n (M, trx)" "n \<le> 2 ^ 32"
  shows "HashDB_Get key s = Some (case M key of None \<Rightarrow> Inl kNotFound | Some r \<Rightarrow> Inr r)"
  using assms HashDB_Get_lookup by (auto simp: db_rep_def)

section \<open>Opening\<close>

lemma db_reopen:
  assumes "db_rep s n A"
  shows "HashDB_Init (Some (hd_index s)) (Some (hd_data s)) = Some (Inr s)"
proof -
  obtain C where "hash_inv s C n" using assms by (auto simp: db_rep_def)
  then obtain dir bks where r: "index_rep (hd_index s) (hd_info s) dir bks" "hi_max_num (hd_info s) = of_nat HashDB_kMaxKeysNum"
    by (auto simp: hash_inv_def)
  then have "file_read 0 sizeof_Info (hd_index s) = Inr (HashDB_EncodeInfo (hd_info s))" by (simp add: index_rep_def)
  then show ?thesis using r(2) by (simp add: HashDB_Init_def HashDB_InitIndex_def HashDB_kMaxKeysNum_def)
qed

definition HashDB_empty :: HashDB where
  "HashDB_empty = (let info = \<lparr>hi_max_num = of_nat HashDB_kMaxKeysNum, hi_used_cnt = 0, hi_trx_id = 0\<rparr>
     in \<lparr>hd_info = info, hd_index = HashDB_EncodeInfo info @ replicate (8 * HashDB_kMaxKeysNum) 0, hd_data = []\<rparr>)"

lemma HashDB_Init_empty: "HashDB_Init None None = Some (Inr HashDB_empty)"
  by (simp add: HashDB_Init_def HashDB_InitIndex_def HashDB_empty_def Let_def)

lemma zero_dir: "EncodeFixed64 0 [] = replicate 8 0"
  by code_simp

lemma empty_dir:
  assumes "h < K"
  shows "file_read (h * 8 + 16) 8 (HashDB_EncodeInfo i @ replicate (8 * K) 0) = Inr (replicate 8 0)"
proof -
  have "h * 8 + 8 \<le> 8 * K" using assms by simp
  then show ?thesis by (simp add: file_read_def)
qed

lemma db_rep_empty: "db_rep HashDB_empty 0 (Map.empty, 0)"
proof -
  let ?info = "\<lparr>hi_max_num = of_nat HashDB_kMaxKeysNum, hi_used_cnt = 0, hi_trx_id = 0\<rparr>"
  have "index_rep (hd_index HashDB_empty) ?info (\<lambda>h. 0) Map.empty"
    unfolding index_rep_def HashDB_empty_def Let_def sizeof_Info_def
    by (simp add: empty_dir zero_dir bucket_pos_def kBase_def sizeof_Info_def) (simp add: file_read_def)
  moreover have "chains_ok (\<lambda>h. 0) Map.empty (hd_data HashDB_empty) (\<lambda>h. [])" by (simp add: chains_ok_def)
  moreover have "length (hd_index HashDB_empty) = kBase" by (simp add: HashDB_empty_def Let_def kBase_def sizeof_Info_def)
  ultimately have "hash_inv HashDB_empty (\<lambda>h. []) 0" unfolding hash_inv_def by (auto simp: HashDB_empty_def Let_def)
  moreover have "lookup (\<lambda>h. []) = Map.empty" by (simp add: fun_eq_iff lookup_def)
  ultimately show ?thesis unfolding db_rep_def by (auto simp: HashDB_empty_def Let_def)
qed

section \<open>Status\<close>

lemma chain_num_chain:
  assumes "chain_reads idx dat info dir bks"
  shows "seg bks es 0 \<Longrightarrow> chain_num (of_nat (first_pos es 0)) num idx = Some (Inr (num + of_nat (length es)))"
proof (induction es arbitrary: num)
  case Nil
  then show ?case by (simp add: chain_num.simps)
next
  case (Cons e es)
  have b: "bks (he_pos e) = Some (entry_bucket e (first_pos es 0))" using Cons.prems by simp
  show ?case
    using pos_small [OF assms b] read_at [OF assms b] Cons.IH [of "num + 1"] Cons.prems
    by (simp add: chain_num.simps [of "of_nat (he_pos e)"] add.assoc)
qed

lemma status_loop_chains:
  assumes "chain_reads idx dat info dir bks" "chains_ok dir bks dat C"
  shows "\<forall>h \<in> set hs. h < HashDB_kMaxKeysNum \<Longrightarrow> status_loop hs m idx = Some (Inr (fold (\<lambda>h. count_chain (of_nat (length (C h)))) hs m))"
proof (induction hs arbitrary: m)
  case (Cons h hs)
  have h: "h < HashDB_kMaxKeysNum" using Cons.prems by simp
  have "read_dir (h * 8 + sizeof_Info) idx = Inr (dir h)"
    using assms(1) h by (simp add: chain_reads_def index_rep_def read_dir_def)
  then show ?case using chainE(1,2) [OF assms(2) h] chain_num_chain [OF assms(1)] Cons by simp
qed simp

lemma count_chain_fold:
  "fold (\<lambda>h. count_chain (f h)) hs Map.empty = (\<lambda>num. let c = length (filter (\<lambda>h. f h = num) hs) in if c = 0 then None else Some (of_nat c))"
  by (induction hs rule: rev_induct) (auto simp: count_chain_def Let_def fun_eq_iff split: option.splits if_splits)

lemma chain_length:
  assumes "chains_ok dir bks dat C" "h < HashDB_kMaxKeysNum"
  shows "length (C h) = card {k \<in> dom (lookup C). slot k = h}"
proof -
  note c = chainE [OF assms]
  have "{k \<in> dom (lookup C). slot k = h} = set (map he_key (C h))"
  proof (intro set_eqI iffI)
    fix k assume "k \<in> {k \<in> dom (lookup C). slot k = h}"
    then show "k \<in> set (map he_key (C h))" by (cases rule: chain_cases [of C k]) auto
  next
    fix k assume "k \<in> set (map he_key (C h))"
    then obtain e where e: "e \<in> set (C h)" "k = he_key e" by auto
    then have "slot k = h" using c(6) by blast
    then show "k \<in> {k \<in> dom (lookup C). slot k = h}" using e by (cases rule: chain_cases [of C k]) auto
  qed
  then show ?thesis using distinct_card [OF c(3)] by simp
qed

lemma db_status:
  assumes "db_rep s n A" "n \<le> 2 ^ 32"
  shows "HashDB_GetStatus Map.empty s = Some (Inr (spec_status A))"
proof -
  obtain M trx where A: "A = (M, trx)" by (cases A)
  obtain C where C: "hash_inv s C n" "lookup C = M" "hi_used_cnt (hd_info s) = of_nat (card (dom M))"
    "hi_trx_id (hd_info s) = trx" using assms(1) A by (auto simp: db_rep_def)
  obtain dir bks where r: "chains_ok dir bks (hd_data s) C" "chain_reads (hd_index s) (hd_data s) (hd_info s) dir bks"
    using hash_invE [OF C(1) assms(2)] .
  have len: "length (filter (\<lambda>h. of_nat (length (C h)) = num) [0..<HashDB_kMaxKeysNum]) =
    card {h. h < HashDB_kMaxKeysNum \<and> of_nat (card {k \<in> dom M. slot k = h}) = num}" for num :: "32 word"
  proof -
    have "length (filter (\<lambda>h. of_nat (length (C h)) = num) [0..<HashDB_kMaxKeysNum]) = card {h. h < HashDB_kMaxKeysNum \<and> of_nat (length (C h)) = num}"
      by (subst distinct_card [symmetric]) (auto intro!: arg_cong [of _ _ card])
    also have "{h. h < HashDB_kMaxKeysNum \<and> of_nat (length (C h)) = num} = {h. h < HashDB_kMaxKeysNum \<and> of_nat (card {k \<in> dom M. slot k = h}) = num}"
      using chain_length [OF r(1)] C(2) by auto
    finally show ?thesis .
  qed
  have mx: "hi_max_num (hd_info s) = of_nat HashDB_kMaxKeysNum" using C(1) by (simp add: hash_inv_def)
  have "status_loop [0..<HashDB_kMaxKeysNum] Map.empty (hd_index s) =
    Some (Inr (fold (\<lambda>h. count_chain (of_nat (length (C h)))) [0..<HashDB_kMaxKeysNum] Map.empty))"
    using status_loop_chains [OF r(2,1)] by simp
  then show ?thesis unfolding HashDB_GetStatus_def spec_status_def count_chain_fold len A by (simp add: mx C(3,4))
qed

section \<open>Runs\<close>

datatype hash_op = HPut bytes bytes "64 word" | HGet bytes | HDel bytes "64 word" | HStatus | HReopen

datatype hash_out = OCode Code | OValue "(bytes \<times> 64 word) res" | OStatus "DBStatusInfo res"

fun hash_exec :: "hash_op \<Rightarrow> HashDB \<Rightarrow> (hash_out \<times> HashDB) option" where
  "hash_exec (HPut key value version) s = map_option (map_prod OCode id) (HashDB_Put key value version s)"
| "hash_exec (HGet key) s = map_option (\<lambda>r. (OValue r, s)) (HashDB_Get key s)"
| "hash_exec (HDel key version) s = map_option (map_prod OCode id) (HashDB_Del key version s)"
| "hash_exec HStatus s = map_option (\<lambda>r. (OStatus r, s)) (HashDB_GetStatus Map.empty s)"
| "hash_exec HReopen s = do {
     r \<leftarrow> HashDB_Init (Some (hd_index s)) (Some (hd_data s));
     Some (case r of Inl e \<Rightarrow> (OCode e, s) | Inr s' \<Rightarrow> (OCode kOk, s')) }"

fun hash_spec :: "hash_op \<Rightarrow> hash_state \<Rightarrow> hash_out \<times> hash_state" where
  "hash_spec (HPut key value version) A = map_prod OCode id (spec_put key value version A)"
| "hash_spec (HGet key) A = (OValue (case fst A key of None \<Rightarrow> Inl kNotFound | Some r \<Rightarrow> Inr r), A)"
| "hash_spec (HDel key version) A = map_prod OCode id (spec_del key version A)"
| "hash_spec HStatus A = (OStatus (Inr (spec_status A)), A)"
| "hash_spec HReopen A = (OCode kOk, A)"

fun hash_run :: "hash_op list \<Rightarrow> HashDB \<Rightarrow> (hash_out list \<times> HashDB) option" where
  "hash_run [] s = Some ([], s)"
| "hash_run (op # ops) s = do {
     (out, s) \<leftarrow> hash_exec op s;
     (outs, s) \<leftarrow> hash_run ops s;
     Some (out # outs, s) }"

text \<open>A record fits into the buffer that it is read back through.\<close>

fun hash_op_fits :: "hash_op \<Rightarrow> bool" where
  "hash_op_fits (HPut key value version) \<longleftrightarrow> HashDB_kMaxDataSize \<le> length value \<or> 24 + length key + length value \<le> HashDB_kMaxDataSize"
| "hash_op_fits op \<longleftrightarrow> True"

lemma hash_exec_step:
  assumes "db_rep s n A" "n < 2 ^ 32" "hash_op_fits op"
  shows "\<exists>s'. hash_exec op s = Some (fst (hash_spec op A), s') \<and> db_rep s' (n + 1) (snd (hash_spec op A))"
proof (cases op)
  case (HPut key val version)
  then show ?thesis using db_put [OF assms(1,2), of val key version] assms(3) by auto
next
  case (HGet key)
  then show ?thesis using db_get [of s n "fst A" "snd A" key] assms(1,2) db_rep_Suc [OF assms(1)] by simp
next
  case (HDel key version)
  then show ?thesis using db_del [OF assms(1,2), of key version] by auto
next
  case HStatus
  then show ?thesis using db_status [OF assms(1)] assms(2) db_rep_Suc [OF assms(1)] by simp
next
  case HReopen
  then show ?thesis using db_reopen [OF assms(1)] db_rep_Suc [OF assms(1)] by simp
qed

lemma hash_run_step:
  "db_rep s n A \<Longrightarrow> n + length ops \<le> 2 ^ 32 \<Longrightarrow> \<forall>op \<in> set ops. hash_op_fits op \<Longrightarrow>
   \<exists>s'. hash_run ops s = Some (fst (run_ops hash_spec ops A), s') \<and> db_rep s' (n + length ops) (snd (run_ops hash_spec ops A))"
proof (induction ops arbitrary: s n A)
  case (Cons op ops)
  obtain s' where s': "hash_exec op s = Some (fst (hash_spec op A), s')" "db_rep s' (n + 1) (snd (hash_spec op A))"
    using hash_exec_step [of s n A op] Cons.prems by auto
  obtain s'' where "hash_run ops s' = Some (fst (run_ops hash_spec ops (snd (hash_spec op A))), s'')"
    "db_rep s'' (n + 1 + length ops) (snd (run_ops hash_spec ops (snd (hash_spec op A))))"
    using Cons.IH [OF s'(2)] Cons.prems by auto
  then show ?case using s'(1) by (auto simp: Let_def split_beta)
qed simp

text \<open>C37: Every sequence of \<open>Put\<close>, \<open>Get\<close>, \<open>Del\<close>, \<open>GetStatus\<close> and reopening of the files, starting in an empty
  directory, returns (no chain loops, no buffer is overrun), with the outputs of the finite map from keys to
  values with versions: a compare-and-swap on the version, first version 1, kNotFound, kCASFailed and
  kValueSizeIsLarger in their cases, the number of live keys and of transactions, and for each length the number
  of directory slots with that many live keys. Records must fit into the 8 MB buffer, and there are at most
  2 to the 32 operations.\<close>

theorem HashDB_refinement:
  assumes "length ops \<le> 2 ^ 32" "\<forall>op \<in> set ops. hash_op_fits op"
  shows "\<exists>s0 s. HashDB_Init None None = Some (Inr s0) \<and> hash_run ops s0 = Some (fst (run_ops hash_spec ops (Map.empty, 0)), s)"
  using hash_run_step [OF db_rep_empty, of ops] assms HashDB_Init_empty by auto

theorem HashDB_refinement_witness:
  "\<exists>s0 s. HashDB_Init None None = Some (Inr s0) \<and>
    hash_run [HPut [1] [2, 3] (-1), HPut [1] [4] 7, HReopen, HPut [1] [4] 1, HGet [1], HGet [2], HDel [1] 1, HDel [1] 2, HGet [1]] s0 =
      Some ([OCode kOk, OCode kCASFailed, OCode kOk, OCode kOk, OValue (Inr ([4], 2)), OValue (Inl kNotFound), OCode kCASFailed,
        OCode kOk, OValue (Inl kNotFound)], s)"
  using HashDB_refinement [of "[HPut [1] [2, 3] (-1), HPut [1] [4] 7, HReopen, HPut [1] [4] 1, HGet [1], HGet [2], HDel [1] 1, HDel [1] 2, HGet [1]]"]
  by (simp add: HashDB_kMaxDataSize_def spec_put_def spec_del_def)

section \<open>A record that does not fit\<close>

lemma check_bucket_overrun:
  assumes "HashDB_kMaxDataSize < entry_len e" "entry_len e < 2 ^ 32" "he_dpos e + entry_len e \<le> length dat" "length dat < 2 ^ 64"
  shows "check_bucket (he_key e) (crc_of (he_key e)) (entry_bucket e nxt) dat = None"
proof -
  have ks: "unat (of_nat (length (he_key e)) :: 32 word) = length (he_key e)" "unat (of_nat (length (he_value e)) :: 32 word) = length (he_value e)"
    using assms(2) by (simp_all add: entry_len_def unat_of_nat)
  have dp: "unat (of_nat (he_dpos e) :: 64 word) = he_dpos e" using assms(3,4) by (simp add: unat_of_nat)
  have "(24 + length (he_key e) + length (he_value e)) mod 2 ^ 32 = entry_len e" using assms(2) by (simp add: entry_len_def)
  moreover have "HashDB_kMaxDataSize < min (entry_len e) (length dat - he_dpos e)" using assms(1,3) by simp
  moreover have "take (min HashDB_kPreKeySize (length (he_key e))) (he_key e) = take (min HashDB_kPreKeySize (length (he_key e))) (pre_key_of (he_key e))"
    by (simp add: pre_key_of_def HashDB_kPreKeySize_def)
  ultimately show ?thesis unfolding check_bucket_def Let_def entry_bucket_def by (simp add: ks dp)
qed

lemma empty_chain:
  assumes "chains_ok dir bks dat C" "lookup C = Map.empty"
  shows "C (slot key) = []"
proof (rule ccontr)
  assume "C (slot key) \<noteq> []"
  then have "hd (C (slot key)) \<in> set (C (slot key))" by simp
  moreover from this have "slot (he_key (hd (C (slot key)))) = slot key" using chainE(6) [OF assms(1) slot_less] by blast
  ultimately have "lookup C (he_key (hd (C (slot key)))) \<noteq> None" by (auto simp: lookup_def find_None_iff)
  then show False using assms(2) by simp
qed

text \<open>\<open>Put\<close> accepts a value just below the limit with a key that makes the record longer than \<open>buf_\<close>; the next
  \<open>Get\<close> (or \<open>Put\<close>) of the key reads past the end of the buffer.\<close>

theorem HashDB_Put_overrun:
  assumes "length value < HashDB_kMaxDataSize" "HashDB_kMaxDataSize < 24 + length key + length value" "length key < 2 ^ 31"
  shows "\<exists>s. HashDB_Put key value (- 1) HashDB_empty = Some (kOk, s) \<and> HashDB_Get key s = None"
proof -
  let ?e = "new_entry key value HashDB_empty"
  obtain C where C: "hash_inv HashDB_empty C 0" "lookup C = Map.empty" using db_rep_empty by (auto simp: db_rep_def)
  obtain dir bks where r: "index_rep (hd_index HashDB_empty) (hd_info HashDB_empty) dir bks" "chains_ok dir bks (hd_data HashDB_empty) C"
    "chain_reads (hd_index HashDB_empty) (hd_data HashDB_empty) (hd_info HashDB_empty) dir bks" using hash_invE [OF C(1)] by auto
  have nil: "C (slot key) = []" using r(2) C(2) by (rule empty_chain)
  obtain q where q: "HashDB_search_key key HashDB_empty = Some (Inr q)" "\<not> hs_is_exist q" "hs_cur_pos q = 0"
    using search_missing [OF C(1), of key] nil by auto
  let ?s = "put_new key value q HashDB_empty"
  have s': "?s = write_info ((hd_info HashDB_empty)\<lparr>hi_used_cnt := hi_used_cnt (hd_info HashDB_empty) + 1, hi_trx_id := hi_trx_id (hd_info HashDB_empty) + 1\<rparr>)
      (new_index [] ?e (hd_index HashDB_empty)) (data_append ?e (hd_data HashDB_empty))"
    using q(3) by (intro put_new_files) simp_all
  have w: "index_rep (new_index [] ?e (hd_index HashDB_empty)) (hd_info HashDB_empty) (dir(slot key := of_nat (he_pos ?e)))
      (bks(he_pos ?e \<mapsto> entry_bucket ?e 0))" "length (new_index [] ?e (hd_index HashDB_empty)) = length (hd_index HashDB_empty) + 44"
    using new_index_rep [OF r(1), of "[]" key "value"] by (simp_all add: link_dir_def link_bks_def del: fun_upd_apply)
  note wi = index_write_info [OF w(1), of "(hd_info HashDB_empty)\<lparr>hi_used_cnt := hi_used_cnt (hd_info HashDB_empty) + 1, hi_trx_id := hi_trx_id (hd_info HashDB_empty) + 1\<rparr>"]
  have rep: "index_rep (hd_index ?s) (hd_info ?s) (dir(slot key := of_nat (he_pos ?e))) (bks(he_pos ?e \<mapsto> entry_bucket ?e 0))"
    using wi unfolding s' by (simp add: write_info_def del: fun_upd_apply)
  have il: "length (hd_index HashDB_empty) = kBase" by (simp add: HashDB_empty_def Let_def kBase_def sizeof_Info_def)
  have el: "HashDB_kMaxDataSize < entry_len ?e" "entry_len ?e < 2 ^ 32"
    using assms by (simp_all add: entry_len_def HashDB_kMaxDataSize_def)
  have dl: "length (hd_data ?s) = entry_len ?e" unfolding s' by (simp add: write_info_def length_data_append HashDB_empty_def Let_def)
  have cb: "check_bucket key (crc_of key) (entry_bucket ?e 0) (hd_data ?s) = None"
    using check_bucket_overrun [OF el, of "hd_data ?s" 0] dl el(2) by (simp add: HashDB_empty_def Let_def)
  have "length (hd_index ?s) = kBase + 44" using w(2) il unfolding s' by (simp add: write_info_def length_file_write max_def kBase_def)
  then have rd: "chain_reads (hd_index ?s) (hd_data ?s) (hd_info ?s) (dir(slot key := of_nat (he_pos ?e))) (bks(he_pos ?e \<mapsto> entry_bucket ?e 0))"
    using rep dl el(2) by (simp add: chain_reads_def kBase_def sizeof_Info_def HashDB_kMaxKeysNum_def del: fun_upd_apply)
  have b: "(bks(he_pos ?e \<mapsto> entry_bucket ?e 0)) (he_pos ?e) = Some (entry_bucket ?e 0)" by simp
  have "read_dir (hash_pos (crc_of key)) (hd_index ?s) = Inr (of_nat (he_pos ?e))"
    using read_dir_rep [OF rep, of "crc_of key"] by (simp add: slot_def)
  then have "HashDB_Get key ?s = None"
    using pos_small [OF rd b] read_at [OF rd b] cb
    by (simp add: HashDB_Get_def crc_of_def [symmetric] HashDB_get_loop.simps [of key "crc_of key" "of_nat (he_pos ?e)"] del: fun_upd_apply new_entry_simps)
  moreover have "HashDB_Put key value (- 1) HashDB_empty = Some (kOk, ?s)" using q(1,2) assms(1) by (simp add: HashDB_Put_def)
  ultimately show ?thesis by blast
qed

theorem HashDB_Put_overrun_witness:
  "\<exists>s. HashDB_Put [1] (replicate (8 * 1024 * 1024 - 24) 0) (- 1) HashDB_empty = Some (kOk, s) \<and> HashDB_Get [1] s = None"
  by (rule HashDB_Put_overrun) (simp_all add: HashDB_kMaxDataSize_def)

end
