(* ===== verification/Simple_Reg.thy ===== *)
theory Simple_Reg
  imports CS_Prelude "HOL-Library.Monad_Syntax"
begin

text \<open>
  The regular expressions of base/simple_reg.cc: a compiler to a byte-coded automaton and its backtracking
  matcher. A node is an opcode and a 16-bit distance to the next node (backwards for \<open>kBack\<close>), followed by its
  operand. Every function is in \<open>res option\<close>: \<open>None\<close> is a read outside the automaton, a loop or recursion that
  does not end, or too little fuel of the recursive-descent parser.
\<close>

section \<open>Results\<close>

definition obind :: "'a res option \<Rightarrow> ('a \<Rightarrow> 'b res option) \<Rightarrow> 'b res option" where
  "obind m f = Option.bind m (\<lambda>r. case r of Inl e \<Rightarrow> Some (Inl e) | Inr x \<Rightarrow> f x)"

lemma obind_mono [partial_function_mono]:
  "mono_option B \<Longrightarrow> (\<And>y. mono_option (\<lambda>f. C y f)) \<Longrightarrow> mono_option (\<lambda>f. obind (B f) (\<lambda>y. C y f))"
  unfolding obind_def by (rule bind_mono) (auto intro: partial_function_mono simp: monotone_def fun_ord_def flat_ord_def split: sum.splits)

lemma obind_simps [simp]: "obind None f = None" "obind (Some (Inl e)) f = Some (Inl e)" "obind (Some (Inr x)) f = f x"
  by (simp_all add: obind_def)

section \<open>Nodes\<close>

definition kInvalid :: byte where "kInvalid = 0"
definition kEnd :: byte where "kEnd = 1"
definition kBOL :: byte where "kBOL = 2"
definition kEOL :: byte where "kEOL = 3"
definition kAny :: byte where "kAny = 4"
definition kAnyOf :: byte where "kAnyOf = 5"
definition kAnyExcept :: byte where "kAnyExcept = 6"
definition kBranch :: byte where "kBranch = 7"
definition kBack :: byte where "kBack = 8"
definition kNothing :: byte where "kNothing = 9"
definition kPrecise :: byte where "kPrecise = 10"
definition kParenStart :: byte where "kParenStart = 11"
definition kParenEnd :: byte where "kParenEnd = 12"

lemmas opcodes = kInvalid_def kEnd_def kBOL_def kEOL_def kAny_def kAnyOf_def kAnyExcept_def kBranch_def kBack_def
  kNothing_def kPrecise_def kParenStart_def kParenEnd_def

definition kStartValidPos :: nat where "kStartValidPos = 3"
definition kMaxRegNfaLen :: nat where "kMaxRegNfaLen = 65535"
definition kMaxParenNum :: nat where "kMaxParenNum = 20"

record RegExp =
  reg_str :: bytes
  reg_nfa :: bytes
  reg_parse_index :: nat
  paren_num :: nat
  just_check_bol :: bool

definition RegExp_new :: "bytes \<Rightarrow> RegExp" where
  "RegExp_new str = \<lparr>reg_str = str, reg_nfa = [], reg_parse_index = 0, paren_num = 0, just_check_bol = False\<rparr>"

definition reg_opcode :: "bytes \<Rightarrow> nat \<Rightarrow> byte" where
  "reg_opcode nfa p = (if p < length nfa then nfa ! p else 0)"

definition next16 :: "bytes \<Rightarrow> nat \<Rightarrow> nat" where
  "next16 nfa p = unat (nfa ! (p + 1)) + 256 * unat (nfa ! (p + 2))"

definition set_next16 :: "bytes \<Rightarrow> nat \<Rightarrow> nat \<Rightarrow> bytes" where
  "set_next16 nfa p d = nfa[p + 1 := of_nat d, p + 2 := of_nat (d div 256)]"

definition GetNextNodePos :: "nat \<Rightarrow> bytes \<Rightarrow> nat res" where
  "GetNextNodePos p nfa =
     (if length nfa \<le> p then Inl kInvalidRange
      else if length nfa < p + 3 then Inl kInvalidRange
      else if next16 nfa p = 0 then Inl kNoNextNode
      else if reg_opcode nfa p = kBack then (if p < next16 nfa p then Inl kInvalidRange else Inr (p - next16 nfa p))
      else if length nfa \<le> p + next16 nfa p then Inl kInvalidRange
      else Inr (p + next16 nfa p))"

definition GetOperandPos :: "nat \<Rightarrow> nat res" where
  "GetOperandPos p = (if p < kStartValidPos then Inl kInvalidParam else Inr (p + 3))"

partial_function (option) GetFirstEmptyNextNodePos :: "nat \<Rightarrow> bytes \<Rightarrow> nat option" where
  "GetFirstEmptyNextNodePos p nfa =
     (if length nfa < p + 3 then None
      else if next16 nfa p = 0 then Some p
      else if reg_opcode nfa p = kBack then (if p < next16 nfa p then None else GetFirstEmptyNextNodePos (p - next16 nfa p) nfa)
      else GetFirstEmptyNextNodePos (p + next16 nfa p) nfa)"

definition LinkNode :: "nat \<Rightarrow> nat \<Rightarrow> bytes \<Rightarrow> bytes res option" where
  "LinkNode first second nfa =
     (case GetFirstEmptyNextNodePos first nfa of
        None \<Rightarrow> None
      | Some e \<Rightarrow> Some (
          if length nfa \<le> e then Inl kInvalidRange
          else if length nfa \<le> second then Inl kInvalidRange
          else if reg_opcode nfa e = kBack then
            (if e < second then Inl kInvalidRange
             else if 65535 < e - second then Inl kInvalidLength
             else Inr (set_next16 nfa e (e - second)))
          else
            (if second < e then Inl kInvalidRange
             else if 65535 < second - e then Inl kInvalidLength
             else Inr (set_next16 nfa e (second - e)))))"

definition LinkOperandNode :: "nat \<Rightarrow> nat \<Rightarrow> bytes \<Rightarrow> bytes res option" where
  "LinkOperandNode first second nfa =
     (if length nfa \<le> first then None
      else if reg_opcode nfa first \<noteq> kBranch then Some (Inr nfa)
      else case GetOperandPos first of Inl e \<Rightarrow> Some (Inl e) | Inr operand_pos \<Rightarrow> LinkNode operand_pos second nfa)"

text \<open>The same on the automaton of the object.\<close>

definition on_nfa :: "(bytes \<Rightarrow> bytes res option) \<Rightarrow> RegExp \<Rightarrow> RegExp res option" where
  "on_nfa f s = obind (f (reg_nfa s)) (\<lambda>nfa. Some (Inr (s\<lparr>reg_nfa := nfa\<rparr>)))"

definition AppendNode :: "byte \<Rightarrow> RegExp \<Rightarrow> (nat \<times> RegExp) res option" where
  "AppendNode opcode s =
     (let nfa = reg_nfa s @ [opcode, 0, 0] in
      Some (if kMaxRegNfaLen \<le> length nfa then Inl kInvalidLength else Inr (length (reg_nfa s), s\<lparr>reg_nfa := nfa\<rparr>)))"

definition InsertNode :: "nat \<Rightarrow> byte \<Rightarrow> bytes \<Rightarrow> bytes res option" where
  "InsertNode p opcode nfa =
     (if p < kStartValidPos then Some (Inl kInvalidParam)
      else if length nfa < p then None
      else Some (Inr (take p nfa @ [opcode, 0, 0] @ drop p nfa)))"

definition AppendChar :: "byte \<Rightarrow> RegExp \<Rightarrow> RegExp" where
  "AppendChar ch s = s\<lparr>reg_nfa := reg_nfa s @ [ch]\<rparr>"

definition IsRepetitionOp :: "byte \<Rightarrow> bool" where
  "IsRepetitionOp ch \<longleftrightarrow> ch = 42 \<or> ch = 43 \<or> ch = 63"

section \<open>The compiler\<close>

text \<open>\<open>reg_str_[reg_parse_index_]\<close> with its guard: the terminating null byte at the end.\<close>

definition cur_char :: "RegExp \<Rightarrow> byte res option" where
  "cur_char s = Some (
     if length (reg_str s) < reg_parse_index s then Inl kInvalidRange
     else Inr (if reg_parse_index s < length (reg_str s) then reg_str s ! reg_parse_index s else 0))"

definition advance :: "RegExp \<Rightarrow> RegExp" where
  "advance s = s\<lparr>reg_parse_index := reg_parse_index s + 1\<rparr>"

text \<open>\<open>for (char in_ch = start_ch + 1; in_ch <= end_ch; ++in_ch) AppendChar(in_ch)\<close>, with a signed \<open>char\<close>.\<close>

partial_function (option) range_loop :: "byte \<Rightarrow> byte \<Rightarrow> RegExp \<Rightarrow> RegExp option" where
  "range_loop in_ch end_ch s = (if sint in_ch \<le> sint end_ch then range_loop (in_ch + 1) end_ch (AppendChar in_ch s) else Some s)"

partial_function (option) class_loop :: "byte \<Rightarrow> RegExp \<Rightarrow> (byte \<times> RegExp) res option" where
  "class_loop ch s =
     (if ch = 0 \<or> ch = 93 then Some (Inr (ch, s))
      else obind
        (if ch \<noteq> 45 then Some (Inr (AppendChar ch s))
         else obind (cur_char s) (\<lambda>end_ch.
           if end_ch = 93 \<or> end_ch = 0 then Some (Inr (AppendChar 45 s))
           else if reg_parse_index s < 2 then Some (Inl kInvalidRange)
           else
             let start_ch = reg_str s ! (reg_parse_index s - 2) in
             if sint end_ch < sint start_ch then Some (Inl kInvalidRange)
             else map_option (\<lambda>s. Inr (advance s)) (range_loop (start_ch + 1) end_ch s)))
        (\<lambda>s. obind (cur_char s) (\<lambda>ch. class_loop ch (advance s))))"

text \<open>\<open>case '['\<close> of \<open>ProcessChar\<close>.\<close>

definition process_class :: "RegExp \<Rightarrow> (nat \<times> RegExp) res option" where
  "process_class s =
     obind (cur_char s) (\<lambda>ch.
     obind (AppendNode (if ch = 94 then kAnyExcept else kAnyOf) s) (\<lambda>(cur, s).
     let s = (if ch = 94 then advance s else s) in
     obind (cur_char s) (\<lambda>ch.
     let s = (if ch = 93 \<or> ch = 45 then advance (AppendChar ch s) else s) in
     obind (cur_char s) (\<lambda>ch.
     obind (class_loop ch (advance s)) (\<lambda>(ch, s).
     if ch \<noteq> 93 then Some (Inl kInvalidInBracket) else Some (Inr (cur, AppendChar 0 s)))))))"

definition kMetaOperators :: "byte list" where
  "kMetaOperators = [94, 36, 40, 41, 91, 42, 43, 63, 124, 46, 92]"

definition strcspn_meta :: "bytes \<Rightarrow> nat" where
  "strcspn_meta str = length (takeWhile (\<lambda>c. c \<noteq> 0 \<and> c \<notin> set kMetaOperators) str)"

text \<open>\<open>default\<close> of \<open>ProcessChar\<close>, with the index back on the first character.\<close>

definition process_precise :: "RegExp \<Rightarrow> (nat \<times> RegExp) res option" where
  "process_precise s =
     (let len = strcspn_meta (drop (reg_parse_index s) (reg_str s));
          e = reg_parse_index s + len;
          len' = (if 1 < len \<and> e < length (reg_str s) \<and> IsRepetitionOp (reg_str s ! e) then len - 1 else len)
      in if len = 0 then Some (Inl kInvalidRegExp)
         else obind (AppendNode kPrecise s) (\<lambda>(cur, s).
           Some (Inr (cur, s\<lparr>reg_nfa := reg_nfa s @ take len' (drop (reg_parse_index s) (reg_str s)) @ [0],
             reg_parse_index := reg_parse_index s + len'\<rparr>))))"

text \<open>\<open>case '\\'\<close> of \<open>ProcessChar\<close>.\<close>

definition process_escape :: "RegExp \<Rightarrow> (nat \<times> RegExp) res option" where
  "process_escape s =
     obind (cur_char s) (\<lambda>ch.
     if ch = 0 then Some (Inl kInvalidRegEnd)
     else obind (AppendNode kPrecise s) (\<lambda>(cur, s). Some (Inr (cur, advance (AppendChar 0 (AppendChar ch s))))))"

text \<open>The three repetitions of \<open>ProcessBlock\<close>, behind the node of the block.\<close>

definition repeat_star :: "nat \<Rightarrow> RegExp \<Rightarrow> RegExp res option" where
  "repeat_star cur s =
     obind (on_nfa (InsertNode cur kBranch) s) (\<lambda>s.
     obind (AppendNode kBack s) (\<lambda>(back, s).
     obind (on_nfa (LinkOperandNode cur back) s) (\<lambda>s.
     obind (on_nfa (LinkOperandNode cur cur) s) (\<lambda>s.
     obind (AppendNode kBranch s) (\<lambda>(branch, s).
     obind (on_nfa (LinkNode cur branch) s) (\<lambda>s.
     obind (AppendNode kNothing s) (\<lambda>(nothing, s).
     on_nfa (LinkNode cur nothing) s)))))))"

definition repeat_plus :: "nat \<Rightarrow> RegExp \<Rightarrow> RegExp res option" where
  "repeat_plus cur s =
     obind (AppendNode kBranch s) (\<lambda>(cur_branch, s).
     obind (on_nfa (LinkNode cur cur_branch) s) (\<lambda>s.
     obind (AppendNode kBack s) (\<lambda>(back, s).
     obind (on_nfa (LinkNode back cur) s) (\<lambda>s.
     obind (AppendNode kBranch s) (\<lambda>(new_branch, s).
     obind (on_nfa (LinkNode cur_branch new_branch) s) (\<lambda>s.
     obind (AppendNode kNothing s) (\<lambda>(nothing, s).
     on_nfa (LinkNode new_branch nothing) s)))))))"

definition repeat_opt :: "nat \<Rightarrow> RegExp \<Rightarrow> RegExp res option" where
  "repeat_opt cur s =
     obind (on_nfa (InsertNode cur kBranch) s) (\<lambda>s.
     obind (AppendNode kBranch s) (\<lambda>(new_branch, s).
     obind (on_nfa (LinkNode cur new_branch) s) (\<lambda>s.
     obind (AppendNode kNothing s) (\<lambda>(nothing, s).
     obind (on_nfa (LinkNode cur nothing) s) (\<lambda>s.
     on_nfa (LinkOperandNode cur nothing) s)))))"

text \<open>The last loop of \<open>Compile\<close>; what \<open>LinkOperandNode\<close> returns is ignored.\<close>

partial_function (option) link_operands :: "nat \<Rightarrow> nat \<Rightarrow> bytes \<Rightarrow> bytes res option" where
  "link_operands cur end_pos nfa =
     (case GetNextNodePos cur nfa of
        Inl e \<Rightarrow> Some (if e = kNoNextNode then Inr nfa else Inl e)
      | Inr nxt \<Rightarrow> do {
          r \<leftarrow> LinkOperandNode cur end_pos nfa;
          link_operands nxt end_pos (case r of Inl e \<Rightarrow> nfa | Inr nfa' \<Rightarrow> nfa') })"

definition LinkNode_ignored :: "nat \<Rightarrow> nat \<Rightarrow> bytes \<Rightarrow> bytes res option" where
  "LinkNode_ignored first second nfa =
     map_option (\<lambda>r. case r of Inl e \<Rightarrow> Inr nfa | Inr nfa' \<Rightarrow> Inr nfa') (LinkNode first second nfa)"

text \<open>\<open>Compile\<close> behind its alternatives.\<close>

definition compile_end :: "bool \<Rightarrow> nat \<Rightarrow> RegExp \<Rightarrow> (nat \<times> RegExp) res option" where
  "compile_end paren cur s =
     obind (AppendNode (if paren then kParenEnd else kEnd) s) (\<lambda>(end_pos, s).
     obind (on_nfa (LinkNode_ignored cur end_pos) s) (\<lambda>s.
     obind (on_nfa (link_operands cur end_pos) s) (\<lambda>s.
     obind (cur_char s) (\<lambda>ch.
     if paren then (if ch \<noteq> 41 then Some (Inl kInvalidMetaOperator) else Some (Inr (cur, advance s)))
     else (if ch \<noteq> 0 then Some (Inl kInvalidRegEnd) else Some (Inr (cur, s)))))))"

fun RegExp_Compile :: "nat \<Rightarrow> bool \<Rightarrow> RegExp \<Rightarrow> (nat \<times> RegExp) res option"
  and alt_loop :: "nat \<Rightarrow> nat \<Rightarrow> RegExp \<Rightarrow> RegExp res option"
  and ProcessBaranch :: "nat \<Rightarrow> RegExp \<Rightarrow> (nat \<times> RegExp) res option"
  and block_loop :: "nat \<Rightarrow> nat \<Rightarrow> RegExp \<Rightarrow> (nat \<times> RegExp) res option"
  and ProcessBlock :: "nat \<Rightarrow> RegExp \<Rightarrow> (nat \<times> RegExp) res option"
  and ProcessChar :: "nat \<Rightarrow> RegExp \<Rightarrow> (nat \<times> RegExp) res option"
where
  "RegExp_Compile 0 paren s = None"
| "RegExp_Compile (Suc n) paren s =
     obind (if paren then
         let s = s\<lparr>paren_num := paren_num s + 1\<rparr> in
         if kMaxParenNum \<le> paren_num s then Some (Inl kParenNumExceed) else AppendNode kParenStart s
       else Some (Inr (0, s))) (\<lambda>(paren_pos, s).
     obind (ProcessBaranch n s) (\<lambda>(branch_pos, s).
     obind (if paren then on_nfa (LinkNode paren_pos branch_pos) s else Some (Inr s)) (\<lambda>s.
     let cur = (if paren then paren_pos else branch_pos) in
     obind (alt_loop n cur s) (compile_end paren cur))))"
| "alt_loop 0 cur s = None"
| "alt_loop (Suc n) cur s =
     obind (cur_char s) (\<lambda>ch.
     if ch \<noteq> 124 then Some (Inr s)
     else
       obind (ProcessBaranch n (advance s)) (\<lambda>(branch_pos, s).
       obind (on_nfa (LinkNode cur branch_pos) s) (\<lambda>s.
       alt_loop n cur s)))"
| "ProcessBaranch 0 s = None"
| "ProcessBaranch (Suc n) s =
     obind (AppendNode kBranch s) (\<lambda>(branch_pos, s).
     obind (block_loop n 0 s) (\<lambda>(pre, s).
     if pre = 0 then obind (AppendNode kNothing s) (\<lambda>(nothing, s). Some (Inr (branch_pos, s)))
     else Some (Inr (branch_pos, s))))"
| "block_loop 0 pre s = None"
| "block_loop (Suc n) pre s =
     obind (cur_char s) (\<lambda>ch.
     if ch = 0 \<or> ch = 124 \<or> ch = 41 then Some (Inr (pre, s))
     else
       obind (ProcessBlock n s) (\<lambda>(cur, s).
       obind (if pre \<noteq> 0 then on_nfa (LinkNode pre cur) s else Some (Inr s)) (\<lambda>s.
       block_loop n cur s)))"
| "ProcessBlock 0 s = None"
| "ProcessBlock (Suc n) s =
     obind (ProcessChar n s) (\<lambda>(cur, s).
     obind (cur_char s) (\<lambda>ch.
     if \<not> IsRepetitionOp ch then Some (Inr (cur, s))
     else
       obind (if ch = 42 then repeat_star cur s else if ch = 43 then repeat_plus cur s else repeat_opt cur s) (\<lambda>s.
       obind (cur_char (advance s)) (\<lambda>ch.
       if IsRepetitionOp ch then Some (Inl kInvalidRegExp) else Some (Inr (cur, advance s))))))"
| "ProcessChar 0 s = None"
| "ProcessChar (Suc n) s =
     obind (cur_char s) (\<lambda>ch.
     if ch = 94 then AppendNode kBOL (advance s)
     else if ch = 36 then AppendNode kEOL (advance s)
     else if ch = 46 then AppendNode kAny (advance s)
     else if ch = 91 then process_class (advance s)
     else if ch = 40 then RegExp_Compile n True (advance s)
     else if ch \<in> {41, 124, 42, 43, 63} then Some (Inl kInvalidMetaOperator)
     else if ch = 0 then Some (Inl kInvalidRegEnd)
     else if ch = 92 then process_escape (advance s)
     else process_precise s)"

definition CheckIfBOL :: "RegExp \<Rightarrow> RegExp res" where
  "CheckIfBOL s =
     (let nfa = reg_nfa s in
      if length nfa < kStartValidPos then Inl kNotInit
      else if reg_opcode nfa kStartValidPos = kBranch \<and> next16 nfa kStartValidPos \<noteq> 0 then
        let next_node_pos = kStartValidPos + next16 nfa kStartValidPos in
        if length nfa \<le> next_node_pos then Inl kInvalidRange
        else if reg_opcode nfa next_node_pos = kEnd then
          if length nfa \<le> kStartValidPos + 3 then Inl kInvalidRange
          else Inr (if reg_opcode nfa (kStartValidPos + 3) = kBOL then s\<lparr>just_check_bol := True\<rparr> else s)
        else Inr s
      else Inr s)"

text \<open>The parser makes at most five nested calls for a character.\<close>

definition RegExp_Init :: "RegExp \<Rightarrow> RegExp res option" where
  "RegExp_Init s =
     obind (AppendNode kInvalid s) (\<lambda>(p, s).
     obind (RegExp_Compile (5 * length (reg_str s) + 5) False s) (\<lambda>(p, s).
     Some (CheckIfBOL s)))"

section \<open>The matcher\<close>

text \<open>\<open>strchr\<close> and \<open>strlen\<close> on the operand: the bytes up to the first null byte.\<close>

definition operand_str :: "nat \<Rightarrow> bytes \<Rightarrow> bytes" where
  "operand_str p nfa = takeWhile (\<lambda>c. c \<noteq> 0) (drop p nfa)"

definition in_class :: "byte \<Rightarrow> nat \<Rightarrow> bytes \<Rightarrow> bool" where
  "in_class ch p nfa \<longleftrightarrow> ch = 0 \<or> ch \<in> set (operand_str p nfa)"

text \<open>
  \<open>Match\<close> at a node (\<open>alt = False\<close>) and its inner loop over the alternatives of a branch (\<open>alt = True\<close>). The nodes
  that only move are \<open>Inr\<close> of the new index.
\<close>

definition simple_step :: "bytes \<Rightarrow> nat \<Rightarrow> nat \<Rightarrow> bytes \<Rightarrow> nat res" where
  "simple_step str i p nfa =
     (let opc = reg_opcode nfa p in
      if opc = kBOL then (if i \<noteq> 0 then Inl kRegNotMatch else Inr i)
      else if opc = kEOL then (if i \<noteq> length str then Inl kRegNotMatch else Inr i)
      else if opc = kAny then (if length str < i then Inl kRegNotMatch else Inr (i + 1))
      else if opc = kAnyOf \<or> opc = kAnyExcept then
        if i = length str then Inl kRegNotMatch
        else rbind (GetOperandPos p) (\<lambda>o_pos.
          if length nfa < o_pos then Inl kInvalidRange
          else if length str < i then Inl kInvalidRange
          else if in_class (str ! i) o_pos nfa = (opc = kAnyOf) then Inr (i + 1)
          else Inl kRegNotMatch)
      else if opc = kPrecise then
        if i = length str then Inl kRegNotMatch
        else rbind (GetOperandPos p) (\<lambda>o_pos.
          if length nfa < o_pos then Inl kInvalidRange
          else if length str < i then Inl kInvalidRange
          else let w = operand_str o_pos nfa in
            if length str - i < length w then Inl kRegNotMatch
            else if take (length w) (drop i str) \<noteq> w then Inl kRegNotMatch
            else Inr (i + length w))
      else if opc = kNothing \<or> opc = kBack then Inr i
      else Inl kRegNotMatch)"

partial_function (option) RegExp_Match :: "bytes \<Rightarrow> bytes \<Rightarrow> bool \<Rightarrow> nat \<Rightarrow> nat \<Rightarrow> Code option" where
  "RegExp_Match str nfa alt i p =
     (if alt then
        (case GetOperandPos p of Inl e \<Rightarrow> Some e | Inr o_pos \<Rightarrow> do {
           ret \<leftarrow> RegExp_Match str nfa False i o_pos;
           if ret \<noteq> kRegNotMatch then Some ret
           else case GetNextNodePos p nfa of Inl e \<Rightarrow> Some e | Inr cur \<Rightarrow>
             (case GetNextNodePos cur nfa of Inl e \<Rightarrow> Some e | Inr nxt \<Rightarrow>
                if reg_opcode nfa nxt \<noteq> kBranch then
                  (case GetOperandPos cur of Inl e \<Rightarrow> Some e | Inr o_pos \<Rightarrow> RegExp_Match str nfa False i o_pos)
                else RegExp_Match str nfa True i cur) })
      else
        let nxt = GetNextNodePos p nfa; opc = reg_opcode nfa p in
        if (case nxt of Inl e \<Rightarrow> e \<noteq> kNoNextNode | Inr q \<Rightarrow> False) then Some (case nxt of Inl e \<Rightarrow> e | Inr q \<Rightarrow> kOk)
        else if opc = kParenStart \<or> opc = kParenEnd then
          (case nxt of Inl e \<Rightarrow> Some kInvalidRegNfa
           | Inr q \<Rightarrow> if q < kStartValidPos then Some kInvalidParam else RegExp_Match str nfa False i q)
        else if opc = kBranch then
          (case nxt of Inl e \<Rightarrow> Some kInvalidRegNfa
           | Inr q \<Rightarrow>
               if reg_opcode nfa q \<noteq> kBranch then
                 (case GetOperandPos p of Inl e \<Rightarrow> Some e | Inr o_pos \<Rightarrow> RegExp_Match str nfa False i o_pos)
               else RegExp_Match str nfa True i p)
        else if opc = kEnd then Some kOk
        else
          (case simple_step str i p nfa of Inl e \<Rightarrow> Some e
           | Inr j \<Rightarrow> (case nxt of Inl e \<Rightarrow> Some kRegNotMatch | Inr q \<Rightarrow> RegExp_Match str nfa False j q)))"

text \<open>The loop of \<open>Check\<close> over the start positions, with the result of the last one.\<close>

fun check_loop :: "nat list \<Rightarrow> Code \<Rightarrow> bytes \<Rightarrow> bytes \<Rightarrow> Code option" where
  "check_loop [] ret str nfa = Some ret"
| "check_loop (i # is) ret str nfa = do {
     ret \<leftarrow> RegExp_Match str nfa False i kStartValidPos;
     if ret = kRegNotMatch then check_loop is ret str nfa else Some ret }"

definition RegExp_Check :: "bytes \<Rightarrow> RegExp \<Rightarrow> Code option" where
  "RegExp_Check str s =
     (if just_check_bol s then RegExp_Match str (reg_nfa s) False 0 kStartValidPos
      else check_loop [0..<length str] kOk str (reg_nfa s))"

end
