(* ===== verification/Reg_Syntax.thy ===== *)
theory Reg_Syntax
  imports Simple_Reg
begin

text \<open>
  The syntax of the regular expressions as trees, with their text and their code: what the compiler of
  Simple_Reg emits for a tree, where the last link of the code is, and how the links are followed.
\<close>

section \<open>Trees\<close>

datatype rrep = Once | Star | Plus | Opt

datatype ratom = BOL | EOL | AnyChar | Class bool bytes | Chars bytes | Escape byte | Group ralts
  and ralts = One rseq | Or rseq ralts
  and rseq = Empty | Seq ratom rrep rseq

text \<open>
  The text of a tree. The text of a class is what stands between the brackets, without the caret of a
  negated class.
\<close>

fun print_rep :: "rrep \<Rightarrow> bytes" where
  "print_rep Once = []"
| "print_rep Star = [42]"
| "print_rep Plus = [43]"
| "print_rep Opt = [63]"

primrec print_atom :: "ratom \<Rightarrow> bytes" and print_alts :: "ralts \<Rightarrow> bytes" and print_seq :: "rseq \<Rightarrow> bytes" where
  "print_atom BOL = [94]"
| "print_atom EOL = [36]"
| "print_atom AnyChar = [46]"
| "print_atom (Class neg t) = [91] @ (if neg then [94] else []) @ t @ [93]"
| "print_atom (Chars w) = w"
| "print_atom (Escape c) = [92, c]"
| "print_atom (Group a) = [40] @ print_alts a @ [41]"
| "print_alts (One s) = print_seq s"
| "print_alts (Or s a) = print_seq s @ [124] @ print_alts a"
| "print_seq Empty = []"
| "print_seq (Seq a r s) = print_atom a @ print_rep r @ print_seq s"

text \<open>The characters of a class: a first bracket or hyphen is a character, other hyphens are ranges.\<close>

definition chars_between :: "byte \<Rightarrow> byte \<Rightarrow> bytes" where
  "chars_between a b = map (\<lambda>k. word_of_int k) [sint a + 1..sint b]"

fun class_items :: "byte \<Rightarrow> bytes \<Rightarrow> bytes" where
  "class_items prev [] = []"
| "class_items prev (c # cs) =
     (if c \<noteq> 45 then c # class_items c cs
      else case cs of [] \<Rightarrow> [45] | e # cs' \<Rightarrow> chars_between prev e @ class_items e cs')"

definition class_chars :: "bytes \<Rightarrow> bytes" where
  "class_chars t = (case t of c # cs \<Rightarrow> if c = 93 \<or> c = 45 then c # class_items c cs else class_items 0 t | [] \<Rightarrow> [])"

text \<open>Trees that the compiler can yield: a repetition applies to one character.\<close>

definition plain :: "byte \<Rightarrow> bool" where
  "plain c \<longleftrightarrow> c \<noteq> 0 \<and> c \<notin> set kMetaOperators"

definition wf_class :: "bool \<Rightarrow> bytes \<Rightarrow> bool" where
  "wf_class neg t \<longleftrightarrow> t \<noteq> [] \<and> 0 \<notin> set t \<and> 93 \<notin> set (tl t) \<and> (\<not> neg \<longrightarrow> hd t \<noteq> 94)"

primrec wf_atom :: "ratom \<Rightarrow> bool" and wf_alts :: "ralts \<Rightarrow> bool" and wf_seq :: "rseq \<Rightarrow> bool" where
  "wf_atom BOL \<longleftrightarrow> True"
| "wf_atom EOL \<longleftrightarrow> True"
| "wf_atom AnyChar \<longleftrightarrow> True"
| "wf_atom (Class neg t) \<longleftrightarrow> wf_class neg t"
| "wf_atom (Chars w) \<longleftrightarrow> w \<noteq> [] \<and> (\<forall>c \<in> set w. plain c)"
| "wf_atom (Escape c) \<longleftrightarrow> c \<noteq> 0"
| "wf_atom (Group a) \<longleftrightarrow> wf_alts a"
| "wf_alts (One s) \<longleftrightarrow> wf_seq s"
| "wf_alts (Or s a) \<longleftrightarrow> wf_seq s \<and> wf_alts a"
| "wf_seq Empty \<longleftrightarrow> True"
| "wf_seq (Seq a r s) \<longleftrightarrow> wf_atom a \<and> (r \<noteq> Once \<longrightarrow> (\<forall>w. a = Chars w \<longrightarrow> length w = 1)) \<and> wf_seq s"

section \<open>Code\<close>

definition reg_node :: "byte \<Rightarrow> nat \<Rightarrow> bytes" where
  "reg_node opc d = [opc, of_nat d, of_nat (d div 256)]"

lemma length_reg_node [simp]: "length (reg_node opc d) = 3"
  by (simp add: reg_node_def)

text \<open>Length and position of the last node, by the repetition of an atom and for the rest.\<close>

fun rep_len :: "rrep \<Rightarrow> nat \<Rightarrow> nat" where
  "rep_len Once l = l"
| "rep_len Star l = l + 12"
| "rep_len Plus l = l + 12"
| "rep_len Opt l = l + 9"

fun rep_tail :: "rrep \<Rightarrow> nat \<Rightarrow> nat \<Rightarrow> nat" where
  "rep_tail Once l t = t"
| "rep_tail Star l t = l + 9"
| "rep_tail Plus l t = l + 9"
| "rep_tail Opt l t = l + 6"

primrec len_atom :: "ratom \<Rightarrow> nat" and len_alts :: "ralts \<Rightarrow> nat" and len_seq :: "rseq \<Rightarrow> nat" where
  "len_atom BOL = 3"
| "len_atom EOL = 3"
| "len_atom AnyChar = 3"
| "len_atom (Class neg t) = 4 + length (class_chars t)"
| "len_atom (Chars w) = 4 + length w"
| "len_atom (Escape c) = 5"
| "len_atom (Group a) = 6 + len_alts a"
| "len_alts (One s) = 3 + len_seq s"
| "len_alts (Or s a) = 3 + len_seq s + len_alts a"
| "len_seq Empty = 3"
| "len_seq (Seq a r s) = (if s = Empty then rep_len r (len_atom a) else rep_len r (len_atom a) + len_seq s)"

primrec tail_atom :: "ratom \<Rightarrow> nat" where
  "tail_atom BOL = 0"
| "tail_atom EOL = 0"
| "tail_atom AnyChar = 0"
| "tail_atom (Class neg t) = 0"
| "tail_atom (Chars w) = 0"
| "tail_atom (Escape c) = 0"
| "tail_atom (Group a) = 3 + len_alts a"

abbreviation len_piece :: "ratom \<Rightarrow> rrep \<Rightarrow> nat" where "len_piece a r \<equiv> rep_len r (len_atom a)"
abbreviation tail_piece :: "ratom \<Rightarrow> rrep \<Rightarrow> nat" where "tail_piece a r \<equiv> rep_tail r (len_atom a) (tail_atom a)"

primrec tail_seq :: "rseq \<Rightarrow> nat" where
  "tail_seq Empty = 0"
| "tail_seq (Seq a r s) = (if s = Empty then tail_piece a r else len_piece a r + tail_seq s)"

text \<open>The code of an atom with a repetition around the code of the atom, given for each last link.\<close>

fun emit_rep :: "rrep \<Rightarrow> nat \<Rightarrow> nat \<Rightarrow> (nat \<Rightarrow> bytes) \<Rightarrow> nat \<Rightarrow> bytes" where
  "emit_rep Once l t e d = e d"
| "emit_rep Star l t e d = reg_node kBranch (l + 6) @ e (l - t) @ reg_node kBack (l + 3) @ reg_node kBranch 3 @ reg_node kNothing d"
| "emit_rep Plus l t e d = e (l - t) @ reg_node kBranch 6 @ reg_node kBack (l + 3) @ reg_node kBranch 3 @ reg_node kNothing d"
| "emit_rep Opt l t e d = reg_node kBranch (l + 3) @ e (l + 3 - t) @ reg_node kBranch 3 @ reg_node kNothing d"

primrec emit_atom :: "ratom \<Rightarrow> nat \<Rightarrow> bytes" and emit_alts :: "ralts \<Rightarrow> bytes" and emit_seq :: "rseq \<Rightarrow> nat \<Rightarrow> bytes" where
  "emit_atom BOL = (\<lambda>d. reg_node kBOL d)"
| "emit_atom EOL = (\<lambda>d. reg_node kEOL d)"
| "emit_atom AnyChar = (\<lambda>d. reg_node kAny d)"
| "emit_atom (Class neg t) = (\<lambda>d. reg_node (if neg then kAnyExcept else kAnyOf) d @ class_chars t @ [0])"
| "emit_atom (Chars w) = (\<lambda>d. reg_node kPrecise d @ w @ [0])"
| "emit_atom (Escape c) = (\<lambda>d. reg_node kPrecise d @ [c, 0])"
| "emit_atom (Group a) = (\<lambda>d. reg_node kParenStart 3 @ emit_alts a @ reg_node kParenEnd d)"
| "emit_alts (One s) = reg_node kBranch (3 + len_seq s) @ emit_seq s (len_seq s - tail_seq s)"
| "emit_alts (Or s a) = reg_node kBranch (3 + len_seq s) @ emit_seq s (len_seq s - tail_seq s + len_alts a) @ emit_alts a"
| "emit_seq Empty = (\<lambda>d. reg_node kNothing d)"
| "emit_seq (Seq a r s) = (\<lambda>d.
     if s = Empty then emit_rep r (len_atom a) (tail_atom a) (emit_atom a) d
     else emit_rep r (len_atom a) (tail_atom a) (emit_atom a) (len_piece a r - tail_piece a r) @ emit_seq s d)"

abbreviation emit_piece :: "ratom \<Rightarrow> rrep \<Rightarrow> nat \<Rightarrow> bytes" where
  "emit_piece a r \<equiv> emit_rep r (len_atom a) (tail_atom a) (emit_atom a)"

lemma rseq_cases_induct: "P Empty \<Longrightarrow> (\<And>a r s. P s \<Longrightarrow> P (Seq a r s)) \<Longrightarrow> P s"
  by (rule rseq.induct [of "\<lambda>_. True" "\<lambda>_. True" P]) simp_all

lemma ralts_cases_induct: "(\<And>s. P (One s)) \<Longrightarrow> (\<And>s a. P a \<Longrightarrow> P (Or s a)) \<Longrightarrow> P a"
  by (rule ralts.induct [of "\<lambda>_. True" P "\<lambda>_. True"]) simp_all

lemma length_emit_rep: "(\<And>d. length (e d) = l) \<Longrightarrow> length (emit_rep r l t e d) = rep_len r l"
  by (cases r) simp_all

lemma length_emit_all:
  "\<forall>d. length (emit_atom a d) = len_atom a" "length (emit_alts b) = len_alts b" "\<forall>d. length (emit_seq s d) = len_seq s"
  by (induction a and b and s rule: ratom.induct ralts.induct rseq.induct) (auto simp: length_emit_rep)

lemma length_emit [simp]:
  "length (emit_atom a d) = len_atom a" "length (emit_alts b) = len_alts b" "length (emit_seq s d) = len_seq s"
  using length_emit_all by blast+

lemma length_emit_piece [simp]: "length (emit_piece a r d) = len_piece a r"
  by (simp add: length_emit_rep)

lemma tail_len_atom: "tail_atom a + 3 \<le> len_atom a"
  by (cases a) simp_all

lemma tail_len_piece: "tail_piece a r + 3 \<le> len_piece a r"
  using tail_len_atom [of a] by (cases r) simp_all

lemma tail_len_seq: "tail_seq s + 3 \<le> len_seq s"
  by (induction s rule: rseq_cases_induct) (auto simp: tail_len_piece)

section \<open>Reading code\<close>

definition code_at :: "bytes \<Rightarrow> nat \<Rightarrow> bytes \<Rightarrow> bool" where
  "code_at nfa p c \<longleftrightarrow> p + length c \<le> length nfa \<and> take (length c) (drop p nfa) = c"

lemma code_at_append: "code_at nfa p (c @ c') \<longleftrightarrow> code_at nfa p c \<and> code_at nfa (p + length c) c'"
proof -
  have "take (length c + length c') (drop p nfa) = take (length c) (drop p nfa) @ take (length c') (drop (p + length c) nfa)"
    by (simp add: take_add add.commute)
  then show ?thesis
    by (auto simp: code_at_def append_eq_append_conv)
qed

lemma code_at_self: "code_at (pre @ c @ post) (length pre) c"
  by (simp add: code_at_def)

lemma code_at_node:
  assumes "code_at nfa p (reg_node opc d)" "d < 65536"
  shows "reg_opcode nfa p = opc" "next16 nfa p = d" "p + 3 \<le> length nfa"
proof -
  have n: "p + 3 \<le> length nfa" "take 3 (drop p nfa) = reg_node opc d" using assms(1) by (simp_all add: code_at_def)
  then have i: "nfa ! (p + k) = reg_node opc d ! k" if "k < 3" for k using that by (metis add_leE nth_drop nth_take)
  from i [of 0] i [of 1] i [of 2] have c: "nfa ! p = opc" "nfa ! (p + 1) = of_nat d" "nfa ! (p + 2) = of_nat (d div 256)"
    by (simp_all add: reg_node_def)
  show "reg_opcode nfa p = opc" using c(1) n(1) by (simp add: reg_opcode_def)
  have "d div 256 < 256" using assms(2) by simp
  then show "next16 nfa p = d" using c(2,3) by (simp add: next16_def unat_of_nat)
  show "p + 3 \<le> length nfa" by (rule n(1))
qed

lemma first_empty_node:
  "code_at nfa p (reg_node opc d) \<Longrightarrow> d < 65536 \<Longrightarrow> opc \<noteq> kBack \<Longrightarrow>
   GetFirstEmptyNextNodePos p nfa = (if d = 0 then Some p else GetFirstEmptyNextNodePos (p + d) nfa)"
  using code_at_node [of nfa p opc d] by (simp add: GetFirstEmptyNextNodePos.simps [of p])

lemma next_node:
  "code_at nfa p (reg_node opc d) \<Longrightarrow> d < 65536 \<Longrightarrow> opc \<noteq> kBack \<Longrightarrow>
   GetNextNodePos p nfa = (if d = 0 then Inl kNoNextNode else if length nfa \<le> p + d then Inl kInvalidRange else Inr (p + d))"
  using code_at_node [of nfa p opc d] by (auto simp: GetNextNodePos_def)

lemma next_back:
  "code_at nfa p (reg_node kBack d) \<Longrightarrow> 0 < d \<Longrightarrow> d < 65536 \<Longrightarrow> d \<le> p \<Longrightarrow> GetNextNodePos p nfa = Inr (p - d)"
  using code_at_node [of nfa p kBack d] by (auto simp: GetNextNodePos_def)

section \<open>Following the links of code\<close>

text \<open>The links lead from the first node of emitted code to its last one, whatever that one links to.\<close>

lemma op_distinct [simp]:
  "kBranch \<noteq> kBack" "kNothing \<noteq> kBack" "kBOL \<noteq> kBack" "kEOL \<noteq> kBack" "kAny \<noteq> kBack" "kAnyOf \<noteq> kBack" "kAnyExcept \<noteq> kBack"
  "kPrecise \<noteq> kBack" "kParenStart \<noteq> kBack" "kParenEnd \<noteq> kBack" "kEnd \<noteq> kBack"
  by (simp_all add: opcodes)

lemma first_empty_alts:
  "code_at nfa p (emit_alts a) \<Longrightarrow> len_alts a < 65536 \<Longrightarrow>
   GetFirstEmptyNextNodePos p nfa = GetFirstEmptyNextNodePos (p + len_alts a) nfa"
proof (induction a arbitrary: p rule: ralts_cases_induct)
  case (1 s)
  then show ?case using first_empty_node [of nfa p kBranch "3 + len_seq s"] by (simp add: code_at_append)
next
  case (2 s a)
  then have c: "code_at nfa p (reg_node kBranch (3 + len_seq s))" "code_at nfa (p + (3 + len_seq s)) (emit_alts a)"
    by (simp_all add: code_at_append add.assoc)
  show ?case using first_empty_node [OF c(1)] 2(1) [OF c(2)] 2(3) by (simp add: add.assoc)
qed

text \<open>The last node itself, with its link.\<close>

definition reg_link_node :: "bytes \<Rightarrow> nat \<Rightarrow> nat \<Rightarrow> bool" where
  "reg_link_node nfa t d \<longleftrightarrow> (\<exists>opc. opc \<noteq> kBack \<and> code_at nfa t (reg_node opc d))"

lemma reg_link_nodeI: "code_at nfa t (reg_node opc d) \<Longrightarrow> opc \<noteq> kBack \<Longrightarrow> reg_link_node nfa t d"
  unfolding reg_link_node_def by blast

definition reg_linked :: "(nat \<Rightarrow> bytes) \<Rightarrow> nat \<Rightarrow> bool" where
  "reg_linked e t \<longleftrightarrow> (\<exists>l opc r. opc \<noteq> kBack \<and> length l = t \<and> e = (\<lambda>d. l @ reg_node opc d @ r))"

lemma reg_linkedI: "opc \<noteq> kBack \<Longrightarrow> length l = t \<Longrightarrow> (\<And>d. e d = l @ reg_node opc d @ r) \<Longrightarrow> reg_linked e t"
  unfolding reg_linked_def by blast

lemma reg_linked_append: "reg_linked e t \<Longrightarrow> n = length c + t \<Longrightarrow> reg_linked (\<lambda>d. c @ e d) n"
  unfolding reg_linked_def by (metis append.assoc length_append)

lemma linked_node [simp]: "opc \<noteq> kBack \<Longrightarrow> reg_linked (reg_node opc) 0"
  by (rule reg_linkedI [where l = "[]" and r = "[]"]) simp_all

lemma linked_code: "reg_linked e t \<Longrightarrow> code_at nfa p (e d) \<Longrightarrow> reg_link_node nfa (p + t) d"
  unfolding reg_linked_def by (auto simp: code_at_append intro: reg_link_nodeI)

lemma linked_atom: "reg_linked (emit_atom a) (tail_atom a)"
proof (cases a)
  case (Class neg t)
  then show ?thesis by (intro reg_linkedI [where l = "[]" and r = "class_chars t @ [0]" and opc = "if neg then kAnyExcept else kAnyOf"]) simp_all
next
  case (Chars w)
  then show ?thesis by (intro reg_linkedI [where l = "[]" and r = "w @ [0]" and opc = kPrecise]) simp_all
next
  case (Escape c)
  then show ?thesis by (intro reg_linkedI [where l = "[]" and r = "[c, 0]" and opc = kPrecise]) simp_all
next
  case (Group b)
  then show ?thesis by (intro reg_linkedI [where l = "reg_node kParenStart 3 @ emit_alts b" and r = "[]" and opc = kParenEnd]) simp_all
qed simp_all

lemma linked_piece: "reg_linked (emit_piece a r) (tail_piece a r)"
proof (cases r)
  case Once
  then have "emit_piece a r = emit_atom a" by (simp add: fun_eq_iff)
  then show ?thesis using linked_atom Once by simp
next
  case Star
  then have "emit_piece a r = (\<lambda>d. (reg_node kBranch (len_atom a + 6) @ emit_atom a (len_atom a - tail_atom a) @ reg_node kBack (len_atom a + 3) @
    reg_node kBranch 3) @ reg_node kNothing d)" by (simp add: fun_eq_iff)
  then show ?thesis using Star by (simp only:) (rule reg_linked_append, simp_all)
next
  case Plus
  then have "emit_piece a r = (\<lambda>d. (emit_atom a (len_atom a - tail_atom a) @ reg_node kBranch 6 @ reg_node kBack (len_atom a + 3) @
    reg_node kBranch 3) @ reg_node kNothing d)" by (simp add: fun_eq_iff)
  then show ?thesis using Plus by (simp only:) (rule reg_linked_append, simp_all)
next
  case Opt
  then have "emit_piece a r = (\<lambda>d. (reg_node kBranch (len_atom a + 3) @ emit_atom a (len_atom a + 3 - tail_atom a) @
    reg_node kBranch 3) @ reg_node kNothing d)" by (simp add: fun_eq_iff)
  then show ?thesis using Opt by (simp only:) (rule reg_linked_append, simp_all)
qed

lemma linked_seq: "reg_linked (emit_seq s) (tail_seq s)"
proof (induction s rule: rseq_cases_induct)
  case (2 a r s)
  show ?case
  proof (cases "s = Empty")
    case True
    then have "emit_seq (Seq a r s) = emit_piece a r" by (simp add: fun_eq_iff)
    then show ?thesis using linked_piece True by simp
  next
    case False
    then have "emit_seq (Seq a r s) = (\<lambda>d. emit_piece a r (len_piece a r - tail_piece a r) @ emit_seq s d)" by (simp add: fun_eq_iff)
    then show ?thesis using False 2 by (simp only:) (rule reg_linked_append, simp_all)
  qed
qed simp

lemmas link_node_atom = linked_code [OF linked_atom]
lemmas link_node_piece = linked_code [OF linked_piece]
lemmas link_node_seq = linked_code [OF linked_seq]

lemma first_empty_link:
  assumes "GetFirstEmptyNextNodePos p nfa = GetFirstEmptyNextNodePos t nfa" "reg_link_node nfa t d" "d < 65536"
  shows "GetFirstEmptyNextNodePos p nfa = (if d = 0 then Some t else GetFirstEmptyNextNodePos (t + d) nfa)"
  using assms(1,3) assms(2) [unfolded reg_link_node_def] first_empty_node by metis

lemma first_empty_atom:
  assumes "code_at nfa p (emit_atom a d)" "len_atom a < 65536"
  shows "GetFirstEmptyNextNodePos p nfa = GetFirstEmptyNextNodePos (p + tail_atom a) nfa"
proof (cases a)
  case (Group b)
  then have c: "code_at nfa p (reg_node kParenStart 3)" "code_at nfa (p + 3) (emit_alts b)" using assms(1) by (simp_all add: code_at_append)
  show ?thesis using first_empty_node [OF c(1)] first_empty_alts [OF c(2)] assms(2) Group by (simp add: add.assoc)
qed simp_all

lemma first_empty_piece:
  assumes "code_at nfa p (emit_piece a r d)" "len_piece a r < 65536"
  shows "GetFirstEmptyNextNodePos p nfa = GetFirstEmptyNextNodePos (p + tail_piece a r) nfa"
proof (cases r)
  case Once
  then show ?thesis using assms first_empty_atom by simp
next
  case Star
  then have c: "code_at nfa p (reg_node kBranch (len_atom a + 6))" "code_at nfa (p + len_atom a + 6) (reg_node kBranch 3)"
    using assms(1) by (simp_all add: code_at_append algebra_simps)
  show ?thesis using first_empty_node [OF c(1)] first_empty_node [OF c(2)] assms(2) Star by (simp add: algebra_simps)
next
  case Plus
  then have c: "code_at nfa p (emit_atom a (len_atom a - tail_atom a))" "code_at nfa (p + len_atom a) (reg_node kBranch 6)"
    "code_at nfa (p + len_atom a + 6) (reg_node kBranch 3)" using assms(1) by (simp_all add: code_at_append algebra_simps)
  have l: "len_atom a < 65536" "len_atom a - tail_atom a < 65536" "len_atom a - tail_atom a \<noteq> 0"
    using assms(2) Plus tail_len_atom [of a] by simp_all
  show ?thesis
    using first_empty_link [OF first_empty_atom [OF c(1) l(1)] link_node_atom [OF c(1)] l(2)] first_empty_node [OF c(2)] first_empty_node [OF c(3)]
      l(3) tail_len_atom [of a] Plus by (simp add: algebra_simps)
next
  case Opt
  then have c: "code_at nfa p (reg_node kBranch (len_atom a + 3))" "code_at nfa (p + len_atom a + 3) (reg_node kBranch 3)"
    using assms(1) by (simp_all add: code_at_append algebra_simps)
  show ?thesis using first_empty_node [OF c(1)] first_empty_node [OF c(2)] assms(2) Opt by (simp add: algebra_simps)
qed

lemma first_empty_seq:
  "code_at nfa p (emit_seq s d) \<Longrightarrow> len_seq s < 65536 \<Longrightarrow>
   GetFirstEmptyNextNodePos p nfa = GetFirstEmptyNextNodePos (p + tail_seq s) nfa"
proof (induction s arbitrary: p rule: rseq_cases_induct)
  case (2 a r s)
  show ?case
  proof (cases "s = Empty")
    case True
    then show ?thesis using 2 first_empty_piece by simp
  next
    case False
    then have c: "code_at nfa p (emit_piece a r (len_piece a r - tail_piece a r))" "code_at nfa (p + len_piece a r) (emit_seq s d)"
      using 2(2) by (simp_all add: code_at_append)
    have l: "len_piece a r < 65536" "len_piece a r - tail_piece a r < 65536" "len_piece a r - tail_piece a r \<noteq> 0"
      using 2(3) False tail_len_piece [of r a] by simp_all
    show ?thesis
      using first_empty_link [OF first_empty_piece [OF c(1) l(1)] link_node_piece [OF c(1)] l(2)] 2(1) [OF c(2)] l(3) 2(3) False
        tail_len_piece [of r a] by (simp add: algebra_simps)
  qed
qed simp

end
