(* ===== verification/Reg_Link.thy ===== *)
theory Reg_Link
  imports Reg_Syntax
begin

text \<open>
  Rules for what the functions of the compiler yield when they yield a result, and what linking does to emitted
  code: the links and the three repetitions.
\<close>

section \<open>Results of the compiler\<close>

text \<open>A run yields only results with \<open>P\<close>, and yields something when \<open>T\<close>.\<close>

definition run_ok :: "bool \<Rightarrow> 'a res option \<Rightarrow> ('a \<Rightarrow> bool) \<Rightarrow> bool" where
  "run_ok T m P \<longleftrightarrow> (T \<longrightarrow> m \<noteq> None) \<and> (\<forall>x. m = Some (Inr x) \<longrightarrow> P x)"

lemma run_ok_err [simp]: "run_ok T (Some (Inl e)) P"
  by (simp add: run_ok_def)

lemma run_ok_ret [simp]: "run_ok T (Some (Inr x)) P = P x"
  by (simp add: run_ok_def)

lemma run_ok_bind: "run_ok T m Q \<Longrightarrow> (\<And>x. Q x \<Longrightarrow> run_ok T (f x) P) \<Longrightarrow> run_ok T (obind m f) P"
  unfolding run_ok_def obind_def by (cases m) (auto split: sum.splits)

lemma run_ok_mono: "run_ok T m P \<Longrightarrow> (T' \<Longrightarrow> T) \<Longrightarrow> (\<And>x. P x \<Longrightarrow> Q x) \<Longrightarrow> run_ok T' m Q"
  unfolding run_ok_def by blast

lemma run_ok_if: "(b \<Longrightarrow> run_ok T m P) \<Longrightarrow> (\<not> b \<Longrightarrow> run_ok T m' P) \<Longrightarrow> run_ok T (if b then m else m') P"
  by simp

lemma run_ok_on_nfa:
  "run_ok T (f (reg_nfa s)) (\<lambda>nfa. P (s\<lparr>reg_nfa := nfa\<rparr>)) \<Longrightarrow> run_ok T (on_nfa f s) P"
  unfolding on_nfa_def by (rule run_ok_bind) simp_all

lemma run_ok_AppendNode:
  "(length (reg_nfa s) + 3 < 65535 \<Longrightarrow> P (length (reg_nfa s), s\<lparr>reg_nfa := reg_nfa s @ reg_node opc 0\<rparr>)) \<Longrightarrow> run_ok T (AppendNode opc s) P"
  by (simp add: AppendNode_def kMaxRegNfaLen_def reg_node_def Let_def)

section \<open>Linking\<close>

lemma list_update_at:
  "(pre @ x # y # z # post)[length pre + 1 := a, length pre + 2 := b] = pre @ x # a # b # post"
  by (simp add: list_update_append)

lemma set_next_node: "set_next16 (pre @ reg_node opc d0 @ post) (length pre) d = pre @ reg_node opc d @ post"
  using list_update_at [of pre opc "of_nat d0" "of_nat (d0 div 256)" post "of_nat d" "of_nat (d div 256)"]
  by (simp add: set_next16_def reg_node_def)

text \<open>Code \<open>e d\<close> of length \<open>l\<close> whose links lead to its node at \<open>t\<close>, which links to the distance \<open>d\<close>.\<close>

definition fragment :: "(nat \<Rightarrow> bytes) \<Rightarrow> nat \<Rightarrow> nat \<Rightarrow> bool" where
  "fragment e t l \<longleftrightarrow> reg_linked e t \<and> (\<forall>d. length (e d) = l) \<and> t + 3 \<le> l \<and>
     (\<forall>nfa p d. code_at nfa p (e d) \<longrightarrow> l < 65536 \<longrightarrow> GetFirstEmptyNextNodePos p nfa = GetFirstEmptyNextNodePos (p + t) nfa)"

lemma fragment_atom: "fragment (emit_atom a) (tail_atom a) (len_atom a)"
  using linked_atom tail_len_atom first_empty_atom by (simp add: fragment_def)

lemma fragment_piece: "fragment (emit_piece a r) (tail_piece a r) (len_piece a r)"
  using linked_piece tail_len_piece first_empty_piece by (simp add: fragment_def)

lemma fragment_seq: "fragment (emit_seq s) (tail_seq s) (len_seq s)"
  using linked_seq tail_len_seq first_empty_seq by (simp add: fragment_def)

lemma fragment_node: "opc \<noteq> kBack \<Longrightarrow> fragment (reg_node opc) 0 3"
  by (simp add: fragment_def)

lemma LinkNode_emit:
  assumes e: "reg_linked e t" and nfa: "nfa = pre @ e 0 @ post" and f: "GetFirstEmptyNextNodePos first nfa = GetFirstEmptyNextNodePos (length pre + t) nfa"
    and s: "length pre + t \<le> second" "second < length nfa"
  shows "LinkNode first second nfa = Some (if 65535 < second - (length pre + t) then Inl kInvalidLength
    else Inr (pre @ e (second - (length pre + t)) @ post))"
proof -
  obtain l opc r where e: "opc \<noteq> kBack" "length l = t" "e = (\<lambda>d. l @ reg_node opc d @ r)" using e unfolding reg_linked_def by blast
  have n: "nfa = (pre @ l) @ reg_node opc 0 @ (r @ post)" using nfa e(3) by simp
  then have c: "code_at nfa (length pre + t) (reg_node opc 0)" using code_at_self [of "pre @ l" "reg_node opc 0" "r @ post"] e(2) by simp
  then have "GetFirstEmptyNextNodePos first nfa = Some (length pre + t)" using f first_empty_node [OF c] e(1) by simp
  moreover have "set_next16 nfa (length pre + t) d = pre @ e d @ post" for d
    using set_next_node [of "pre @ l" opc 0 "r @ post" d] n e(2,3) by simp
  ultimately show ?thesis using s code_at_node [OF c] e(1) by (simp add: LinkNode_def)
qed

lemma LinkNode_fragment:
  assumes e: "fragment e t l" "l < 65536" and s: "length pre + t \<le> second" "second < length pre + l + length post"
  shows "LinkNode (length pre) second (pre @ e 0 @ post) = Some (if 65535 < second - (length pre + t) then Inl kInvalidLength
    else Inr (pre @ e (second - (length pre + t)) @ post))"
proof (rule LinkNode_emit)
  show "reg_linked e t" using e(1) by (simp add: fragment_def)
  show "GetFirstEmptyNextNodePos (length pre) (pre @ e 0 @ post) = GetFirstEmptyNextNodePos (length pre + t) (pre @ e 0 @ post)"
    using e code_at_self [of pre "e 0" post] unfolding fragment_def by blast
  show "second < length (pre @ e 0 @ post)" using e(1) s(2) by (simp add: fragment_def)
qed (use s in simp_all)

lemma LinkNode_exact:
  assumes "fragment e t l" "l < 65536" "second = length pre + t + d" "second < length pre + l + length post" "d < 65536"
  shows "LinkNode (length pre) second (pre @ e 0 @ post) = Some (Inr (pre @ e d @ post))"
proof -
  have "length pre + t \<le> second" "second - (length pre + t) = d" "\<not> 65535 < d" using assms(3,5) by simp_all
  then show ?thesis using LinkNode_fragment [OF assms(1,2) _ assms(4)] by simp
qed

lemma LinkNode_back:
  assumes nfa: "nfa = pre @ reg_node kBack 0 @ post" and f: "GetFirstEmptyNextNodePos first nfa = GetFirstEmptyNextNodePos (length pre) nfa"
    and s: "second \<le> length pre"
  shows "LinkNode first second nfa = Some (if 65535 < length pre - second then Inl kInvalidLength
    else Inr (pre @ reg_node kBack (length pre - second) @ post))"
proof -
  have c: "code_at nfa (length pre) (reg_node kBack 0)" using nfa code_at_self by simp
  have "GetFirstEmptyNextNodePos first nfa = Some (length pre)"
    using f code_at_node [OF c] by (simp add: GetFirstEmptyNextNodePos.simps [of "length pre"])
  then show ?thesis using s code_at_node [OF c] set_next_node [of pre kBack 0 post] nfa by (simp add: LinkNode_def)
qed

lemma LinkOperandNode_branch:
  "code_at nfa p (reg_node kBranch d) \<Longrightarrow> d < 65536 \<Longrightarrow> 3 \<le> p \<Longrightarrow> LinkOperandNode p second nfa = LinkNode (p + 3) second nfa"
  using code_at_node [of nfa p kBranch d] by (simp add: LinkOperandNode_def GetOperandPos_def kStartValidPos_def)

lemma InsertNode_at:
  "3 \<le> length pre \<Longrightarrow> InsertNode (length pre) opc (pre @ post) = Some (Inr (pre @ reg_node opc 0 @ post))"
  by (simp add: InsertNode_def kStartValidPos_def reg_node_def)

lemma LinkOperandNode_fragment:
  assumes "fragment e t l" "l < 65536" "d < 65536" "3 \<le> length pre" "length pre + 3 + t \<le> second" "second < length pre + 3 + l + length post"
  shows "LinkOperandNode (length pre) second (pre @ reg_node kBranch d @ e 0 @ post) =
    Some (if 65535 < second - (length pre + 3 + t) then Inl kInvalidLength
      else Inr (pre @ reg_node kBranch d @ e (second - (length pre + 3 + t)) @ post))"
  using LinkOperandNode_branch [OF code_at_self [of pre "reg_node kBranch d" "e 0 @ post"] assms(3,4), of second]
    LinkNode_fragment [OF assms(1,2), of "pre @ reg_node kBranch d" second post] assms(5,6) by simp

section \<open>Repetitions\<close>

lemma AppendNode_eq:
  "AppendNode opc s = Some (if 65535 \<le> length (reg_nfa s) + 3 then Inl kInvalidLength
     else Inr (length (reg_nfa s), s\<lparr>reg_nfa := reg_nfa s @ reg_node opc 0\<rparr>))"
  by (simp add: AppendNode_def kMaxRegNfaLen_def reg_node_def Let_def)

text \<open>A repetition yields the code, or the automaton gets too long.\<close>

lemma repeat_star_code:
  assumes s: "reg_nfa s = pre @ emit_atom a 0" "3 \<le> length pre"
  shows "repeat_star (length pre) s \<in> {Some (Inl kInvalidLength), Some (Inr (s\<lparr>reg_nfa := pre @ emit_piece a Star 0\<rparr>))}"
proof (cases "65535 \<le> length pre + len_atom a + 6")
  case True
  then show ?thesis using InsertNode_at [OF s(2), of kBranch "emit_atom a 0"] s(1)
    by (simp add: repeat_star_def on_nfa_def AppendNode_eq)
next
  case False
  let ?l = "len_atom a" and ?t = "tail_atom a" and ?p = "length pre"
  note tl = tail_len_atom [of a]
  let ?loop = "emit_atom a (?l - ?t) @ reg_node kBack (?l + 3)"
  have i: "InsertNode ?p kBranch (pre @ emit_atom a 0) = Some (Inr (pre @ reg_node kBranch 0 @ emit_atom a 0))"
    by (rule InsertNode_at [OF s(2)])
  have l1: "LinkOperandNode ?p (?p + (3 + ?l)) (pre @ reg_node kBranch 0 @ emit_atom a 0 @ reg_node kBack 0) =
      Some (Inr (pre @ reg_node kBranch 0 @ emit_atom a (?l - ?t) @ reg_node kBack 0))"
    using LinkOperandNode_fragment [OF fragment_atom, where d = 0 and pre = pre and post = "reg_node kBack 0"] s(2) tl False by simp
  have l2: "LinkOperandNode ?p ?p (pre @ reg_node kBranch 0 @ emit_atom a (?l - ?t) @ reg_node kBack 0) =
      Some (Inr (pre @ reg_node kBranch 0 @ ?loop))"
  proof -
    let ?n = "pre @ reg_node kBranch 0 @ emit_atom a (?l - ?t) @ reg_node kBack 0"
    have c: "code_at ?n ?p (reg_node kBranch 0)" "code_at ?n (?p + 3) (emit_atom a (?l - ?t))"
      using code_at_self [of pre "reg_node kBranch 0"] code_at_self [of "pre @ reg_node kBranch 0" "emit_atom a (?l - ?t)"] by simp_all
    have "GetFirstEmptyNextNodePos (?p + 3) ?n = GetFirstEmptyNextNodePos (?p + 3 + ?t + (?l - ?t)) ?n"
      using first_empty_link [OF first_empty_atom [OF c(2)] link_node_atom [OF c(2)]] False tl by simp
    then have f: "GetFirstEmptyNextNodePos (?p + 3) ?n = GetFirstEmptyNextNodePos (length (pre @ reg_node kBranch 0 @ emit_atom a (?l - ?t))) ?n"
      using tl by (simp add: algebra_simps)
    have "LinkNode (?p + 3) ?p ?n = Some (Inr (pre @ reg_node kBranch 0 @ ?loop))"
      using LinkNode_back [OF _ f, of "[]" ?p] False by (simp add: algebra_simps)
    then show ?thesis using LinkOperandNode_branch [OF c(1)] s(2) by simp
  qed
  have l3: "LinkNode ?p (?p + (3 + (?l + 3))) (pre @ reg_node kBranch 0 @ ?loop @ reg_node kBranch 0) =
      Some (Inr (pre @ reg_node kBranch (?l + 6) @ ?loop @ reg_node kBranch 0))"
    using LinkNode_fragment [OF fragment_node [of kBranch], of pre "?p + (3 + (?l + 3))" "?loop @ reg_node kBranch 0"] False
    by (simp add: algebra_simps)
  have l4: "LinkNode ?p (?p + (3 + (?l + (3 + 3)))) (pre @ reg_node kBranch (?l + 6) @ ?loop @ reg_node kBranch 0 @ reg_node kNothing 0) =
      Some (Inr (pre @ reg_node kBranch (?l + 6) @ ?loop @ reg_node kBranch 3 @ reg_node kNothing 0))"
  proof -
    let ?n = "pre @ reg_node kBranch (?l + 6) @ ?loop @ reg_node kBranch 0 @ reg_node kNothing 0"
    have c: "code_at ?n ?p (reg_node kBranch (?l + 6))" by (rule code_at_self)
    have "GetFirstEmptyNextNodePos ?p ?n = GetFirstEmptyNextNodePos (length (pre @ reg_node kBranch (?l + 6) @ ?loop) + 0) ?n"
      using first_empty_node [OF c] False by (simp add: algebra_simps)
    from LinkNode_emit [OF linked_node _ this, of kBranch] show ?thesis by simp
  qed
  show ?thesis using False s(1) i l1 l2 l3 l4 by (auto simp: repeat_star_def on_nfa_def AppendNode_eq)
qed

lemma repeat_plus_code:
  assumes s: "reg_nfa s = pre @ emit_atom a 0" "3 \<le> length pre"
  shows "repeat_plus (length pre) s \<in> {Some (Inl kInvalidLength), Some (Inr (s\<lparr>reg_nfa := pre @ emit_piece a Plus 0\<rparr>))}"
proof (cases "65535 \<le> length pre + len_atom a + 6")
  case True
  have l: "LinkNode (length pre) (length pre + len_atom a) (pre @ emit_atom a 0 @ reg_node kBranch 0) =
      Some (Inr (pre @ emit_atom a (len_atom a - tail_atom a) @ reg_node kBranch 0))" if "length pre + len_atom a + 3 < 65535"
    using LinkNode_fragment [OF fragment_atom, of a pre "length pre + len_atom a" "reg_node kBranch 0"] that tail_len_atom [of a] by simp
  show ?thesis using True s(1) l by (auto simp: repeat_plus_def on_nfa_def AppendNode_eq)
next
  case False
  let ?l = "len_atom a" and ?t = "tail_atom a" and ?p = "length pre"
  note tl = tail_len_atom [of a]
  let ?a = "emit_atom a (?l - ?t)"
  have l1: "LinkNode ?p (?p + ?l) (pre @ emit_atom a 0 @ reg_node kBranch 0) = Some (Inr (pre @ ?a @ reg_node kBranch 0))"
    using LinkNode_fragment [OF fragment_atom, of a pre "?p + ?l" "reg_node kBranch 0"] False tl by simp
  have l2: "LinkNode (?p + (?l + 3)) ?p (pre @ ?a @ reg_node kBranch 0 @ reg_node kBack 0) =
      Some (Inr (pre @ ?a @ reg_node kBranch 0 @ reg_node kBack (?l + 3)))"
    using LinkNode_back [OF _ refl, of _ "pre @ ?a @ reg_node kBranch 0" "[]" ?p] False by (simp add: algebra_simps)
  have l3: "LinkNode (?p + ?l) (?p + (?l + (3 + 3))) (pre @ ?a @ reg_node kBranch 0 @ reg_node kBack (?l + 3) @ reg_node kBranch 0) =
      Some (Inr (pre @ ?a @ reg_node kBranch 6 @ reg_node kBack (?l + 3) @ reg_node kBranch 0))"
    using LinkNode_fragment [OF fragment_node [of kBranch], of "pre @ ?a" "?p + (?l + (3 + 3))" "reg_node kBack (?l + 3) @ reg_node kBranch 0"] by simp
  have l4: "LinkNode (?p + (?l + (3 + 3))) (?p + (?l + (3 + (3 + 3))))
      (pre @ ?a @ reg_node kBranch 6 @ reg_node kBack (?l + 3) @ reg_node kBranch 0 @ reg_node kNothing 0) =
      Some (Inr (pre @ ?a @ reg_node kBranch 6 @ reg_node kBack (?l + 3) @ reg_node kBranch 3 @ reg_node kNothing 0))"
    using LinkNode_fragment [OF fragment_node [of kBranch], of "pre @ ?a @ reg_node kBranch 6 @ reg_node kBack (?l + 3)"
      "?p + (?l + (3 + (3 + 3)))" "reg_node kNothing 0"] by simp
  show ?thesis using False s(1) l1 l2 l3 l4 by (auto simp: repeat_plus_def on_nfa_def AppendNode_eq)
qed

lemma repeat_opt_code:
  assumes s: "reg_nfa s = pre @ emit_atom a 0" "3 \<le> length pre"
  shows "repeat_opt (length pre) s \<in> {Some (Inl kInvalidLength), Some (Inr (s\<lparr>reg_nfa := pre @ emit_piece a Opt 0\<rparr>))}"
proof (cases "65535 \<le> length pre + len_atom a + 6")
  case True
  then show ?thesis using InsertNode_at [OF s(2), of kBranch "emit_atom a 0"] s(1)
    by (simp add: repeat_opt_def on_nfa_def AppendNode_eq)
next
  case False
  let ?l = "len_atom a" and ?t = "tail_atom a" and ?p = "length pre"
  note tl = tail_len_atom [of a]
  have i: "InsertNode ?p kBranch (pre @ emit_atom a 0) = Some (Inr (pre @ reg_node kBranch 0 @ emit_atom a 0))"
    by (rule InsertNode_at [OF s(2)])
  have l1: "LinkNode ?p (?p + (3 + ?l)) (pre @ reg_node kBranch 0 @ emit_atom a 0 @ reg_node kBranch 0) =
      Some (Inr (pre @ reg_node kBranch (?l + 3) @ emit_atom a 0 @ reg_node kBranch 0))"
    using LinkNode_fragment [OF fragment_node [of kBranch], of pre "?p + (3 + ?l)" "emit_atom a 0 @ reg_node kBranch 0"] False
    by (simp add: algebra_simps)
  have l2: "LinkNode ?p (?p + (3 + (?l + 3))) (pre @ reg_node kBranch (?l + 3) @ emit_atom a 0 @ reg_node kBranch 0 @ reg_node kNothing 0) =
      Some (Inr (pre @ reg_node kBranch (?l + 3) @ emit_atom a 0 @ reg_node kBranch 3 @ reg_node kNothing 0))"
  proof -
    let ?n = "pre @ reg_node kBranch (?l + 3) @ emit_atom a 0 @ reg_node kBranch 0 @ reg_node kNothing 0"
    have c: "code_at ?n ?p (reg_node kBranch (?l + 3))" by (rule code_at_self)
    have "GetFirstEmptyNextNodePos ?p ?n = GetFirstEmptyNextNodePos (length (pre @ reg_node kBranch (?l + 3) @ emit_atom a 0) + 0) ?n"
      using first_empty_node [OF c] False by (simp add: algebra_simps)
    from LinkNode_emit [OF linked_node _ this, of kBranch] show ?thesis by simp
  qed
  have l3: "LinkOperandNode ?p (?p + (3 + (?l + 3))) (pre @ reg_node kBranch (?l + 3) @ emit_atom a 0 @ reg_node kBranch 3 @ reg_node kNothing 0) =
      Some (Inr (pre @ reg_node kBranch (?l + 3) @ emit_atom a (?l + 3 - ?t) @ reg_node kBranch 3 @ reg_node kNothing 0))"
    using LinkOperandNode_fragment [OF fragment_atom, where d = "?l + 3" and pre = pre and post = "reg_node kBranch 3 @ reg_node kNothing 0"]
      s(2) tl False by (simp add: algebra_simps)
  show ?thesis using False s(1) i l1 l2 l3 by (auto simp: repeat_opt_def on_nfa_def AppendNode_eq)
qed

end
