(* ===== verification/Reg_Lex.thy ===== *)
theory Reg_Lex
  imports Reg_Link
begin

text \<open>
  What the compiler reads: the state moves over a part of the text, and what the functions for one block
  (classes, escapes, runs of plain characters) read and emit.
\<close>

section \<open>Moving over the text\<close>

definition rest :: "RegExp \<Rightarrow> bytes" where
  "rest s = drop (reg_parse_index s) (reg_str s)"

definition hd0 :: "bytes \<Rightarrow> byte" where
  "hd0 t = (case t of [] \<Rightarrow> 0 | c # cs \<Rightarrow> c)"

definition moved :: "RegExp \<Rightarrow> RegExp \<Rightarrow> bytes \<Rightarrow> bool" where
  "moved s s' t \<longleftrightarrow> reg_str s' = reg_str s \<and> just_check_bol s' = just_check_bol s \<and>
     reg_parse_index s' = reg_parse_index s + length t \<and> rest s = t @ rest s' \<and> reg_parse_index s' \<le> length (reg_str s')"

lemma moved_refl: "reg_parse_index s \<le> length (reg_str s) \<Longrightarrow> moved s s []"
  by (simp add: moved_def)

lemma moved_trans: "moved s s1 t1 \<Longrightarrow> moved s1 s2 t2 \<Longrightarrow> moved s s2 (t1 @ t2)"
  unfolding moved_def by (elim conjE, intro conjI) simp_all

lemma moved_upd [simp]:
  "moved s (s'\<lparr>reg_nfa := n\<rparr>) t = moved s s' t" "moved (s\<lparr>reg_nfa := n\<rparr>) s' t = moved s s' t"
  "moved s (s'\<lparr>paren_num := k\<rparr>) t = moved s s' t" "moved (s\<lparr>paren_num := k\<rparr>) s' t = moved s s' t"
  by (simp_all add: moved_def rest_def)

lemma rest_upd [simp]: "rest (s\<lparr>reg_nfa := n\<rparr>) = rest s" "rest (s\<lparr>paren_num := k\<rparr>) = rest s"
  by (simp_all add: rest_def)

lemma moved_index: "moved s s' t \<Longrightarrow> reg_parse_index s' \<le> length (reg_str s') \<and> reg_str s' = reg_str s"
  unfolding moved_def by blast

lemma moved_rest: "moved s s' t \<Longrightarrow> rest s = t @ rest s'"
  by (simp add: moved_def)

lemma cur_char_rest: "reg_parse_index s \<le> length (reg_str s) \<Longrightarrow> cur_char s = Some (Inr (hd0 (rest s)))"
  by (auto simp: cur_char_def hd0_def rest_def Cons_nth_drop_Suc [symmetric] split: list.splits)

lemma moved_advance:
  assumes "reg_parse_index s \<le> length (reg_str s)" "hd0 (rest s) = c" "c \<noteq> 0"
  shows "moved s (advance s) [c]"
proof -
  have l: "reg_parse_index s < length (reg_str s)"
  proof (rule ccontr)
    assume "\<not> reg_parse_index s < length (reg_str s)"
    then show False using assms by (simp add: rest_def hd0_def)
  qed
  then have "rest s = reg_str s ! reg_parse_index s # drop (Suc (reg_parse_index s)) (reg_str s)"
    by (simp add: rest_def Cons_nth_drop_Suc)
  then show ?thesis using assms(2) l by (simp add: moved_def advance_def rest_def hd0_def)
qed

lemma advance_upd [simp]:
  "reg_nfa (advance s) = reg_nfa s" "reg_nfa (AppendChar c s) = reg_nfa s @ [c]" "rest (AppendChar c s) = rest s"
  "moved (AppendChar c s) s' t = moved s s' t" "moved s (AppendChar c s') t = moved s s' t"
  by (simp_all add: advance_def AppendChar_def rest_def)

lemma AppendChar_index [simp]: "reg_parse_index (AppendChar c s) = reg_parse_index s" "reg_str (AppendChar c s) = reg_str s"
  by (simp_all add: AppendChar_def)

lemma advance_str [simp]: "reg_str (advance s) = reg_str s" "reg_parse_index (advance s) = reg_parse_index s + 1"
  by (simp_all add: advance_def)

section \<open>Ranges\<close>

lemma sint_add1: "sint (c :: byte) < 127 \<Longrightarrow> sint (c + 1) = sint c + 1"
  using sint_range_size [of c] by (simp add: sint_word_ariths signed_take_bit_int_eq_self word_size)

lemma range_loop_chars:
  assumes "sint e < 127"
  shows "sint c \<le> sint e + 1 \<Longrightarrow> range_loop c e s = Some (s\<lparr>reg_nfa := reg_nfa s @ map word_of_int [sint c..sint e]\<rparr>)"
proof (induction "nat (sint e + 1 - sint c)" arbitrary: c s)
  case 0
  then show ?case by (simp add: range_loop.simps)
next
  case (Suc n)
  then have le: "sint c \<le> sint e" by linarith
  then have c1: "sint (c + 1) = sint c + 1" using assms by (intro sint_add1) simp
  then have "range_loop (c + 1) e (AppendChar c s) =
      Some ((AppendChar c s)\<lparr>reg_nfa := reg_nfa (AppendChar c s) @ map word_of_int [sint (c + 1)..sint e]\<rparr>)"
    using Suc(2) Suc(3) le by (intro Suc(1)) linarith+
  moreover have "[sint c..sint e] = sint c # [sint c + 1..sint e]" using le by (simp add: upto_rec1)
  ultimately show ?case using le c1 by (simp add: range_loop.simps [of c] AppendChar_def)
qed

text \<open>With the largest \<open>char\<close> as its end the loop of a range does not stop: the index wraps around.\<close>

lemma range_loop_max: "range_loop c 127 s = None"
proof (cases "range_loop c 127 s")
  case (Some y)
  have "(127 :: byte) = 127 \<longrightarrow> False"
  proof (rule range_loop.raw_induct [OF _ Some, where P = "\<lambda>c e s y. e = 127 \<longrightarrow> False"], intro impI)
    fix f c e s y
    assume IH: "\<And>c e s y. f c e s = Some y \<Longrightarrow> e = 127 \<longrightarrow> False"
      and body: "(if sint c \<le> sint e then f (c + 1) e (AppendChar c s) else Some s) = Some y" and e: "e = (127 :: byte)"
    have "sint c \<le> sint e" using sint_range_size [of c] e by (simp add: word_size)
    then have "f (c + 1) e (AppendChar c s) = Some y" using body by simp
    from IH [OF this] e show False by simp
  qed
  then show ?thesis by simp
qed

section \<open>Classes\<close>

lemma rest_subset: "x \<in> set (rest s) \<Longrightarrow> x \<in> set (reg_str s)"
  by (auto simp: rest_def dest: in_set_dropD)

lemma rest_split: "hd0 (rest s) \<noteq> 0 \<Longrightarrow> reg_parse_index s \<le> length (reg_str s) \<Longrightarrow> rest s = hd0 (rest s) # rest (advance s)"
  using moved_rest [OF moved_advance [of s]] by simp

lemma prev_advance: "hd0 (rest s) = c \<Longrightarrow> c \<noteq> 0 \<Longrightarrow> reg_parse_index s \<le> length (reg_str s) \<Longrightarrow> reg_str s ! reg_parse_index s = c"
  by (auto simp: rest_def hd0_def Cons_nth_drop_Suc [symmetric] split: list.splits) (metis list.sel(1) nth_via_drop)

lemma class_step:
  assumes "ch \<noteq> 0" "ch \<noteq> 93"
  shows "class_loop ch s = obind
        (if ch \<noteq> 45 then Some (Inr (AppendChar ch s))
         else obind (cur_char s) (\<lambda>end_ch.
           if end_ch = 93 \<or> end_ch = 0 then Some (Inr (AppendChar 45 s))
           else if reg_parse_index s < 2 then Some (Inl kInvalidRange)
           else
             let start_ch = reg_str s ! (reg_parse_index s - 2) in
             if sint end_ch < sint start_ch then Some (Inl kInvalidRange)
             else map_option (\<lambda>s. Inr (advance s)) (range_loop (start_ch + 1) end_ch s)))
        (\<lambda>s. obind (cur_char s) (\<lambda>ch. class_loop ch (advance s)))"
  using assms by (subst class_loop.simps) simp

lemma sint_le_127: "sint (c :: byte) \<le> 127"
  using sint_range_size [of c] by (simp add: word_size)

lemma sint_127:
  assumes "c \<noteq> (127 :: byte)"
  shows "sint c < 127"
proof -
  have "sint c \<noteq> 127"
  proof
    assume "sint c = 127"
    then have "sint c = sint (127 :: byte)" by simp
    then show False using assms signed_word_eqI by blast
  qed
  then show ?thesis using sint_le_127 [of c] by linarith
qed

text \<open>The loop of a class, with the character it has read, from the position of that character.\<close>

definition class_post :: "RegExp \<Rightarrow> byte \<Rightarrow> byte \<times> RegExp \<Rightarrow> bool" where
  "class_post s prev = (\<lambda>(ch, s'). ch = 93 \<longrightarrow> (\<exists>t. 93 \<notin> set t \<and> 0 \<notin> set t \<and> moved s s' (t @ [93]) \<and>
     reg_nfa s' = reg_nfa s @ class_items prev t \<and> paren_num s' = paren_num s))"

lemma class_post_step:
  assumes "class_post s1 q r" and m: "moved s s1 w" "93 \<notin> set w" "0 \<notin> set w" "reg_nfa s1 = reg_nfa s @ code" "paren_num s1 = paren_num s"
    and items: "\<And>t r. 93 \<notin> set t \<Longrightarrow> 0 \<notin> set t \<Longrightarrow> rest s1 = t @ 93 # r \<Longrightarrow> class_items prev (w @ t) = code @ class_items q t"
  shows "class_post s prev r"
proof (cases r)
  case (Pair ch s')
  have "\<exists>t. 93 \<notin> set t \<and> 0 \<notin> set t \<and> moved s s' (t @ [93]) \<and> reg_nfa s' = reg_nfa s @ class_items prev t \<and> paren_num s' = paren_num s"
    if c: "ch = 93"
  proof -
  obtain t where t: "93 \<notin> set t" "0 \<notin> set t" "moved s1 s' (t @ [93])" "reg_nfa s' = reg_nfa s1 @ class_items q t" "paren_num s' = paren_num s1"
    using assms(1) Pair c by (auto simp: class_post_def)
  have "class_items prev (w @ t) = code @ class_items q t" using items [OF t(1,2)] moved_rest [OF t(3)] by simp
  then show ?thesis using t m moved_trans [OF m(1) t(3)] by (intro exI [of _ "w @ t"]) simp
  qed
  then show ?thesis using Pair by (simp add: class_post_def)
qed

lemma class_post_end: "reg_parse_index s \<le> length (reg_str s) \<Longrightarrow> class_post s prev (hd0 (rest s), advance s)"
  using moved_advance [of s 93] by (auto simp: class_post_def advance_def intro!: exI [of _ "[]"])

lemma class_loop_code:
  "reg_parse_index s \<le> length (reg_str s) \<Longrightarrow> 1 \<le> reg_parse_index s \<Longrightarrow>
   run_ok (127 \<notin> set (reg_str s)) (class_loop (hd0 (rest s)) (advance s)) (class_post s (reg_str s ! (reg_parse_index s - 1)))"
proof (induction "length (rest s)" arbitrary: s rule: less_induct)
  case less
  let ?c = "hd0 (rest s)" and ?T = "127 \<notin> set (reg_str s)" and ?prev = "reg_str s ! (reg_parse_index s - 1)"
  show ?case
  proof (cases "?c = 0 \<or> ?c = 93")
    case True
    then have "class_loop ?c (advance s) = Some (Inr (?c, advance s))" by (subst class_loop.simps) simp
    then show ?thesis using class_post_end [OF less(2)] by simp
  next
    case False
    then have m: "moved s (advance s) [?c]" by (intro moved_advance [OF less(2)]) simp_all
    note i1 = moved_index [OF m, THEN conjunct1]
    have at: "reg_str s ! reg_parse_index s = ?c" using prev_advance [of s] less(2) False by simp
    have next_char: "run_ok ?T (obind (cur_char s1) (\<lambda>ch. class_loop ch (advance s1))) (class_post s ?prev)"
      if m1: "moved s s1 w" "w \<noteq> []" "93 \<notin> set w" "0 \<notin> set w" "reg_nfa s1 = reg_nfa s @ code" "paren_num s1 = paren_num s"
        and items: "\<And>t r. 93 \<notin> set t \<Longrightarrow> 0 \<notin> set t \<Longrightarrow> rest s1 = t @ 93 # r \<Longrightarrow>
          class_items ?prev (w @ t) = code @ class_items (reg_str s ! (reg_parse_index s1 - 1)) t" for s1 w code
    proof -
      have l: "length (rest s1) < length (rest s)" using moved_rest [OF m1(1)] m1(2) by simp
      have "1 \<le> reg_parse_index s1" using m1(1,2) by (cases w) (simp_all add: moved_def)
      from less(1) [OF l conjunct1 [OF moved_index [OF m1(1)]] this]
      have "run_ok ?T (class_loop (hd0 (rest s1)) (advance s1)) (class_post s1 (reg_str s ! (reg_parse_index s1 - 1)))"
        using moved_index [OF m1(1)] by simp
      then show ?thesis
        using cur_char_rest moved_index [OF m1(1)] class_post_step [OF _ m1(1,3-6) items] by (auto elim!: run_ok_mono)
    qed
    show ?thesis
    proof (cases "?c = 45")
      case plain: False
      have "run_ok ?T (obind (cur_char (AppendChar ?c (advance s))) (\<lambda>ch. class_loop ch (advance (AppendChar ?c (advance s))))) (class_post s ?prev)"
        by (rule next_char [where w = "[?c]" and code = "[?c]"]) (use m False at plain in \<open>simp_all add: AppendChar_def advance_def\<close>)
      then show ?thesis using False plain by (subst class_step) simp_all
    next
      case hyphen: True
      let ?e = "hd0 (rest (advance s))"
      have cc: "cur_char (advance s) = Some (Inr ?e)" using i1 by (rule cur_char_rest)
      show ?thesis
      proof (cases "?e = 93 \<or> ?e = 0")
        case True
        have nil: "t = []" if "93 \<notin> set t" "0 \<notin> set t" "rest (advance s) = t @ 93 # r" for t r
          using that True by (cases t) (auto simp: hd0_def)
        have "run_ok ?T (obind (cur_char (AppendChar 45 (advance s))) (\<lambda>ch. class_loop ch (advance (AppendChar 45 (advance s))))) (class_post s ?prev)"
        proof (rule next_char [where w = "[45]" and code = "[45]"])
          show "class_items ?prev ([45] @ t) = [45] @ class_items (reg_str s ! (reg_parse_index (AppendChar 45 (advance s)) - 1)) t"
            if "93 \<notin> set t" "0 \<notin> set t" "rest (AppendChar 45 (advance s)) = t @ 93 # r" for t r using nil [of t r] that by simp
        qed (use m hyphen in \<open>simp_all add: AppendChar_def advance_def\<close>)
        then show ?thesis using True hyphen cc by (subst class_step) simp_all
      next
        case range: False
        let ?prev' = "reg_str (advance s) ! (reg_parse_index (advance s) - 2)"
        have prev: "?prev' = ?prev" by simp
        have m2: "moved s (advance (advance s)) [45, ?e]"
          using moved_trans [OF m moved_advance [OF i1 refl]] range hyphen by simp
        have ate: "reg_str s ! (reg_parse_index s + 1) = ?e" using prev_advance [of "advance s"] i1 range by simp
        show ?thesis
        proof (cases "sint ?e < sint ?prev")
          case True
          then show ?thesis using range hyphen cc less(3) by (subst class_step) (simp_all add: Let_def)
        next
          case le: False
          show ?thesis
          proof (cases "?e = 127")
            case True
            have "?e \<in> set ([45, ?e] @ rest (advance (advance s)))" by simp
            then have "?e \<in> set (rest s)" by (simp only: moved_rest [OF m2])
            then have "?e \<in> set (reg_str s)" by (rule rest_subset)
            then show ?thesis using True range hyphen cc less(3) le range_loop_max by (subst class_step) (simp_all add: Let_def run_ok_def)
          next
            case ne: False
            let ?s1 = "advance ((advance s)\<lparr>reg_nfa := reg_nfa s @ chars_between ?prev ?e\<rparr>)"
            have p1: "sint (?prev + 1) = sint ?prev + 1" using le sint_127 [OF ne] by (intro sint_add1) simp
            have "range_loop (?prev + 1) ?e (advance s) = Some ((advance s)\<lparr>reg_nfa := reg_nfa s @ chars_between ?prev ?e\<rparr>)"
              using range_loop_chars [OF sint_127 [OF ne], of "?prev + 1" "advance s"] le p1 by (simp add: chars_between_def)
            moreover have "run_ok ?T (obind (cur_char ?s1) (\<lambda>ch. class_loop ch (advance ?s1))) (class_post s ?prev)"
            proof (rule next_char [where w = "[45, ?e]" and code = "chars_between ?prev ?e"])
              show "class_items ?prev ([45, ?e] @ t) = chars_between ?prev ?e @ class_items (reg_str s ! (reg_parse_index ?s1 - 1)) t" for t
                using ate by simp
              show "moved s ?s1 [45, ?e]" using m2 by (simp add: advance_def moved_def rest_def)
            qed (use range in \<open>simp_all add: advance_def\<close>)
            ultimately show ?thesis using range hyphen cc less(3) le prev by (subst class_step) (simp_all add: Let_def)
          qed
        qed
      qed
    qed
  qed
qed

section \<open>Atoms\<close>

text \<open>The function for one atom, called in state \<open>s\<close>: its text has been read and its code appended.\<close>

definition atom_post :: "RegExp \<Rightarrow> nat \<times> RegExp \<Rightarrow> bool" where
  "atom_post s = (\<lambda>(cur, s'). cur = length (reg_nfa s) \<and> cur + 3 < 65535 \<and>
     (\<exists>a. wf_atom a \<and> moved s s' (print_atom a) \<and> reg_nfa s' = reg_nfa s @ emit_atom a 0 \<and>
       (\<forall>w. a = Chars w \<longrightarrow> 1 < length w \<longrightarrow> \<not> IsRepetitionOp (hd0 (rest s')))))"

lemma atom_postI:
  "cur = length (reg_nfa s) \<Longrightarrow> cur + 3 < 65535 \<Longrightarrow> wf_atom a \<Longrightarrow> moved s s' (print_atom a) \<Longrightarrow> reg_nfa s' = reg_nfa s @ emit_atom a 0 \<Longrightarrow>
   (\<forall>w. a = Chars w \<longrightarrow> 1 < length w \<longrightarrow> \<not> IsRepetitionOp (hd0 (rest s'))) \<Longrightarrow> atom_post s (cur, s')"
  unfolding atom_post_def by blast

lemma run_ok_append_then:
  "(length (reg_nfa s) + 3 < 65535 \<Longrightarrow> run_ok T (f (length (reg_nfa s), s\<lparr>reg_nfa := reg_nfa s @ reg_node opc 0\<rparr>)) P) \<Longrightarrow>
   run_ok T (obind (AppendNode opc s) f) P"
  by (simp add: AppendNode_eq)

text \<open>A class behind its bracket: the caret, the first character, the loop.\<close>

lemma class_tail:
  assumes i: "reg_parse_index s \<le> length (reg_str s)" "1 \<le> reg_parse_index s"
    and post: "\<And>t s'. 93 \<notin> set (tl t) \<Longrightarrow> 0 \<notin> set t \<Longrightarrow> t \<noteq> [] \<Longrightarrow> hd t = hd0 (rest s) \<Longrightarrow> moved s s' (t @ [93]) \<Longrightarrow>
      reg_nfa s' = reg_nfa s @ class_chars t \<Longrightarrow> P (cur, AppendChar 0 s')"
  shows "run_ok (127 \<notin> set (reg_str s)) (obind (cur_char s) (\<lambda>ch.
     let s = (if ch = 93 \<or> ch = 45 then advance (AppendChar ch s) else s) in
     obind (cur_char s) (\<lambda>ch.
     obind (class_loop ch (advance s)) (\<lambda>(ch, s).
     if ch \<noteq> 93 then Some (Inl kInvalidInBracket) else Some (Inr (cur, AppendChar 0 s)))))) P"
proof -
  let ?c = "hd0 (rest s)"
  have loop: "run_ok (127 \<notin> set (reg_str s)) (obind (cur_char s1) (\<lambda>ch.
     obind (class_loop ch (advance s1)) (\<lambda>(ch, s).
     if ch \<noteq> 93 then Some (Inl kInvalidInBracket) else Some (Inr (cur, AppendChar 0 s))))) P"
    if m: "moved s s1 w" "reg_nfa s1 = reg_nfa s @ code"
      and ext: "\<And>t r. 93 \<notin> set t \<Longrightarrow> 0 \<notin> set t \<Longrightarrow> rest s = w @ t @ 93 # r \<Longrightarrow>
        w @ t \<noteq> [] \<and> 93 \<notin> set (tl (w @ t)) \<and> 0 \<notin> set (w @ t) \<and> hd (w @ t) = ?c \<and>
        class_chars (w @ t) = code @ class_items (reg_str s ! (reg_parse_index s1 - 1)) t" for s1 w code
  proof -
    have i1: "reg_parse_index s1 \<le> length (reg_str s1)" "1 \<le> reg_parse_index s1" "reg_str s1 = reg_str s"
      using m(1) i(2) unfolding moved_def by auto
    have "run_ok (127 \<notin> set (reg_str s)) (class_loop (hd0 (rest s1)) (advance s1)) (class_post s1 (reg_str s ! (reg_parse_index s1 - 1)))"
      using class_loop_code [OF i1(1,2)] i1(3) by simp
    moreover have "run_ok (127 \<notin> set (reg_str s)) (case r of (ch, s) \<Rightarrow> if ch \<noteq> 93 then Some (Inl kInvalidInBracket) else Some (Inr (cur, AppendChar 0 s))) P"
      if r: "class_post s1 (reg_str s ! (reg_parse_index s1 - 1)) r" for r
    proof (cases r)
      case (Pair ch s')
      show ?thesis
      proof (cases "ch = 93")
        case True
        then obtain t where t: "93 \<notin> set t" "0 \<notin> set t" "moved s1 s' (t @ [93])"
          "reg_nfa s' = reg_nfa s1 @ class_items (reg_str s ! (reg_parse_index s1 - 1)) t" using r Pair by (auto simp: class_post_def)
        have mv: "moved s s' ((w @ t) @ [93])" using moved_trans [OF m(1) t(3)] by simp
        have "rest s = w @ t @ 93 # rest s'" using moved_rest [OF mv] by simp
        from ext [OF t(1,2) this] have "P (cur, AppendChar 0 s')" using t(4) m(2) by (intro post [OF _ _ _ _ mv]) simp_all
        then show ?thesis using True Pair by simp
      qed (simp add: Pair)
    qed
    ultimately show ?thesis using cur_char_rest [OF i1(1)] by (simp add: run_ok_bind)
  qed
  show ?thesis
  proof (cases "?c = 93 \<or> ?c = 45")
    case True
    then have nz: "?c \<noteq> 0" by auto
    have "moved s (advance (AppendChar ?c s)) [?c]" using moved_advance [OF i(1) refl nz] by (simp add: advance_def AppendChar_def moved_def rest_def)
    from loop [OF this, of "[?c]"] show ?thesis
      using True nz prev_advance [OF refl nz i(1)] cur_char_rest [OF i(1)] by (simp add: class_chars_def advance_def AppendChar_def)
  next
    case False
    have "t \<noteq> [] \<and> 93 \<notin> set (tl t) \<and> 0 \<notin> set t \<and> hd t = ?c \<and> class_chars t = class_items (reg_str s ! (reg_parse_index s - 1)) t"
      if "93 \<notin> set t" "0 \<notin> set t" "rest s = t @ 93 # r" for t r
      using that False by (cases t) (auto simp: hd0_def class_chars_def)
    from loop [OF moved_refl [OF i(1)], of "[]"] this show ?thesis using False cur_char_rest [OF i(1)] by simp
  qed
qed

lemma process_class_ok:
  assumes i: "reg_parse_index s \<le> length (reg_str s)" and m: "moved s0 s [91]" "reg_nfa s = reg_nfa s0" "3 \<le> length (reg_nfa s0)"
  shows "run_ok (127 \<notin> set (reg_str s)) (process_class s) (atom_post s0)"
proof -
  let ?c = "hd0 (rest s)"
  have i1: "1 \<le> reg_parse_index s" using m(1) unfolding moved_def by simp
  show ?thesis
  proof (cases "65535 \<le> length (reg_nfa s) + 3")
    case True
    then show ?thesis by (simp add: process_class_def cur_char_rest [OF i] AppendNode_eq)
  next
    case len: False
    let ?s1 = "s\<lparr>reg_nfa := reg_nfa s @ reg_node (if ?c = 94 then kAnyExcept else kAnyOf) 0\<rparr>"
    define s2 where "s2 = (if ?c = 94 then advance ?s1 else ?s1)"
    have mv: "moved s s2 (if ?c = 94 then [94] else [])" "reg_nfa s2 = reg_nfa s @ reg_node (if ?c = 94 then kAnyExcept else kAnyOf) 0"
      using moved_advance [OF i, of 94] moved_refl [OF i] by (auto simp: moved_def advance_def rest_def s2_def)
    have i2: "reg_parse_index s2 \<le> length (reg_str s2)" "1 \<le> reg_parse_index s2" "reg_str s2 = reg_str s"
      using mv(1) i1 unfolding moved_def by auto
    have "?c \<noteq> 94 \<Longrightarrow> rest s2 = rest s" by (simp add: s2_def)
    then have fin: "atom_post s0 (length (reg_nfa s), AppendChar 0 s')"
      if t: "93 \<notin> set (tl t)" "0 \<notin> set t" "t \<noteq> []" "hd t = hd0 (rest s2)" "moved s2 s' (t @ [93])" "reg_nfa s' = reg_nfa s2 @ class_chars t" for t s'
    proof (intro atom_postI [where a = "Class (?c = 94) t"])
      show "wf_atom (Class (?c = 94) t)" using t \<open>?c \<noteq> 94 \<Longrightarrow> rest s2 = rest s\<close> by (auto simp: wf_class_def)
      have "moved s0 s' ([91] @ (if ?c = 94 then [94] else []) @ (t @ [93]))"
        by (rule moved_trans [OF m(1)], rule moved_trans [OF mv(1) t(5)])
      then show "moved s0 (AppendChar 0 s') (print_atom (Class (?c = 94) t))" by (simp split: if_splits)
    qed (use len m t(6) mv(2) in \<open>auto simp: AppendChar_def\<close>)
    have "process_class s = obind (cur_char s2) (\<lambda>ch.
     let s = (if ch = 93 \<or> ch = 45 then advance (AppendChar ch s2) else s2) in
     obind (cur_char s) (\<lambda>ch.
     obind (class_loop ch (advance s)) (\<lambda>(ch, s).
     if ch \<noteq> 93 then Some (Inl kInvalidInBracket) else Some (Inr (length (reg_nfa s0), AppendChar 0 s)))))"
      using len m(2) unfolding s2_def
      by (cases "?c = 94") (simp_all add: process_class_def cur_char_rest [OF i] AppendNode_eq Let_def cong: if_cong)
    then show ?thesis using class_tail [OF i2(1,2), of "atom_post s0" "length (reg_nfa s0)"] fin m(2) i2(3) by simp
  qed
qed

section \<open>Plain characters and escapes\<close>

lemma process_escape_ok:
  assumes i: "reg_parse_index s \<le> length (reg_str s)" and m: "moved s0 s [92]" "reg_nfa s = reg_nfa s0"
  shows "run_ok T (process_escape s) (atom_post s0)"
proof (cases "hd0 (rest s) = 0 \<or> 65535 \<le> length (reg_nfa s) + 3")
  case True
  then show ?thesis by (auto simp: process_escape_def cur_char_rest [OF i] AppendNode_eq)
next
  case False
  let ?c = "hd0 (rest s)"
  have "moved s0 (advance s) [92, ?c]" using moved_trans [OF m(1) moved_advance [OF i refl]] False by simp
  then have "atom_post s0 (length (reg_nfa s), advance (AppendChar 0 (AppendChar ?c (s\<lparr>reg_nfa := reg_nfa s @ reg_node kPrecise 0\<rparr>))))"
    using False m(2) by (intro atom_postI [where a = "Escape ?c"]) (auto simp: advance_def AppendChar_def moved_def rest_def)
  then show ?thesis using False by (simp add: process_escape_def cur_char_rest [OF i] AppendNode_eq)
qed

lemma rep_meta: "IsRepetitionOp c \<Longrightarrow> \<not> plain c"
  by (auto simp: IsRepetitionOp_def plain_def kMetaOperators_def)

lemma process_precise_ok:
  assumes i: "reg_parse_index s \<le> length (reg_str s)" and p: "plain (hd0 (rest s))"
  shows "run_ok T (process_precise s) (atom_post s)"
proof (cases "65535 \<le> length (reg_nfa s) + 3")
  case True
  then show ?thesis by (simp add: process_precise_def AppendNode_eq Let_def)
next
  case len: False
  let ?w = "takeWhile plain (rest s)"
  let ?n = "length ?w" and ?e = "reg_parse_index s + length ?w"
  have n: "strcspn_meta (rest s) = ?n" by (simp add: strcspn_meta_def plain_def [abs_def])
  obtain c cs where "rest s = c # cs" using p by (cases "rest s") (auto simp: hd0_def plain_def)
  then have w: "?w \<noteq> []" using p by (simp add: hd0_def)
  define k where "k = (if 1 < ?n \<and> ?e < length (reg_str s) \<and> IsRepetitionOp (reg_str s ! ?e) then ?n - 1 else ?n)"
  have k: "0 < k" "k \<le> ?n" using w by (auto simp: k_def)
  let ?s' = "s\<lparr>reg_nfa := reg_nfa s @ reg_node kPrecise 0 @ take k (rest s) @ [0], reg_parse_index := reg_parse_index s + k\<rparr>"
  have tk: "take k (rest s) = take k ?w" using k(2) by (metis takeWhile_eq_take take_take min.absorb1)
  have le: "?n \<le> length (rest s)" by (rule length_takeWhile_le)
  have mv: "moved s ?s' (take k (rest s))"
  proof -
    have "k \<le> length (rest s)" using k(2) le by (rule order_trans)
    moreover have "rest ?s' = drop k (rest s)" by (simp add: rest_def add.commute)
    ultimately show ?thesis using i by (simp add: moved_def) (simp add: rest_def)
  qed
  have "\<not> IsRepetitionOp (hd0 (rest ?s'))" if k1: "1 < k"
  proof (cases "1 < ?n \<and> ?e < length (reg_str s) \<and> IsRepetitionOp (reg_str s ! ?e)")
    case True
    then have kn: "k = ?n - 1" by (simp add: k_def)
    then have kl: "k < ?n" using k by simp
    have "rest ?s' = drop k (rest s)" by (simp add: rest_def add.commute)
    moreover have "k < length (rest s)" using kl le by simp
    ultimately have "hd0 (rest ?s') = rest s ! k" by (simp add: hd0_def Cons_nth_drop_Suc [symmetric] del: drop_drop)
    also have "\<dots> = ?w ! k" using kl by (simp add: takeWhile_nth)
    finally have "plain (hd0 (rest ?s'))" using kl nth_mem set_takeWhileD by metis
    then show ?thesis using rep_meta by blast
  next
    case False
    then have "k = ?n" by (auto simp: k_def)
    then have "rest ?s' = drop ?e (reg_str s)" by (simp add: rest_def add.commute)
    then show ?thesis using False \<open>k = ?n\<close> k1
      by (cases "?e < length (reg_str s)") (auto simp: hd0_def IsRepetitionOp_def Cons_nth_drop_Suc [symmetric])
  qed
  then have "atom_post s (length (reg_nfa s), ?s')"
    using len k tk mv w
    by (intro atom_postI [where a = "Chars (take k (rest s))"]) (auto dest: set_takeWhileD in_set_takeD)
  then show ?thesis using len w k n by (simp add: process_precise_def AppendNode_eq Let_def rest_def [symmetric] k_def)
qed

end
