(* ===== verification/Reg_Compile.thy ===== *)
theory Reg_Compile
  imports Reg_Lex
begin

text \<open>
  The compiler: whatever it accepts is the text of a tree, and the automaton is the code of that tree. It always
  returns, except for a range that ends in the largest \<open>char\<close>.
\<close>

section \<open>Alternatives under construction\<close>

text \<open>The operands are still open; the last branch links to \<open>d\<close>.\<close>

primrec alts_code :: "ralts \<Rightarrow> nat \<Rightarrow> bytes" where
  "alts_code (One s) = (\<lambda>d. reg_node kBranch d @ emit_seq s 0)"
| "alts_code (Or s a) = (\<lambda>d. reg_node kBranch (3 + len_seq s) @ emit_seq s 0 @ alts_code a d)"

primrec last_branch :: "ralts \<Rightarrow> nat" where
  "last_branch (One s) = 0"
| "last_branch (Or s a) = 3 + len_seq s + last_branch a"

primrec snoc_alts :: "ralts \<Rightarrow> rseq \<Rightarrow> ralts" where
  "snoc_alts (One s) q = Or s (One q)"
| "snoc_alts (Or s a) q = Or s (snoc_alts a q)"

lemma length_alts_code [simp]: "length (alts_code a d) = len_alts a"
  by (induction a rule: ralts_cases_induct) simp_all

lemma last_branch_le: "last_branch a + 3 \<le> len_alts a"
  by (induction a rule: ralts_cases_induct) simp_all

lemma snoc_alts_simps:
  "alts_code (snoc_alts a q) 0 = alts_code a (len_alts a - last_branch a) @ reg_node kBranch 0 @ emit_seq q 0"
  "print_alts (snoc_alts a q) = print_alts a @ [124] @ print_seq q" "wf_alts (snoc_alts a q) = (wf_alts a \<and> wf_seq q)"
  using last_branch_le [of a] by (induction a rule: ralts_cases_induct) (auto simp: Nat.add_diff_assoc2)

lemma linked_alts: "reg_linked (alts_code a) (last_branch a)"
proof (induction a rule: ralts_cases_induct)
  case (1 s)
  show ?case by (rule reg_linkedI [where l = "[]" and opc = kBranch and r = "emit_seq s 0"]) simp_all
next
  case (2 s a)
  have "alts_code (Or s a) = (\<lambda>d. (reg_node kBranch (3 + len_seq s) @ emit_seq s 0) @ alts_code a d)" by (simp add: fun_eq_iff)
  then show ?case using 2 by (simp only:) (rule reg_linked_append, simp_all)
qed

lemma first_empty_alts_code:
  "code_at nfa p (alts_code a d) \<Longrightarrow> len_alts a < 65536 \<Longrightarrow>
   GetFirstEmptyNextNodePos p nfa = GetFirstEmptyNextNodePos (p + last_branch a) nfa"
proof (induction a arbitrary: p rule: ralts_cases_induct)
  case (2 s a)
  then have c: "code_at nfa p (reg_node kBranch (3 + len_seq s))" "code_at nfa (p + (3 + len_seq s)) (alts_code a d)"
    by (simp_all add: code_at_append add.assoc)
  show ?case using first_empty_node [OF c(1)] 2(1) [OF c(2)] 2(3) by (simp add: add.assoc)
qed simp

lemma fragment_alts: "fragment (alts_code a) (last_branch a) (len_alts a)"
  using linked_alts last_branch_le first_empty_alts_code by (simp add: fragment_def)

text \<open>With the node of the bracket in front.\<close>

lemma fragment_after:
  assumes "fragment e t l" "opc \<noteq> kBack"
  shows "fragment (\<lambda>d. reg_node opc 3 @ e d) (3 + t) (3 + l)"
proof -
  have "GetFirstEmptyNextNodePos p nfa = GetFirstEmptyNextNodePos (p + (3 + t)) nfa"
    if "code_at nfa p (reg_node opc 3 @ e d)" "3 + l < 65536" for nfa p d
  proof -
    have c: "code_at nfa p (reg_node opc 3)" "code_at nfa (p + 3) (e d)" using that(1) by (simp_all add: code_at_append)
    have "GetFirstEmptyNextNodePos (p + 3) nfa = GetFirstEmptyNextNodePos (p + 3 + t) nfa"
      using assms(1) c(2) that(2) unfolding fragment_def by (meson add_leE less_or_eq_imp_le linorder_not_less order_le_less_trans le_add2)
    then show ?thesis using first_empty_node [OF c(1)] assms(2) by (simp add: add.assoc)
  qed
  then show ?thesis using assms unfolding fragment_def by (auto intro: reg_linked_append)
qed

definition alts_head :: "bool \<Rightarrow> bytes" where
  "alts_head paren = (if paren then reg_node kParenStart 3 else [])"

lemma fragment_head:
  "fragment (\<lambda>d. alts_head paren @ alts_code a d) (length (alts_head paren) + last_branch a) (length (alts_head paren) + len_alts a)"
  using fragment_alts fragment_after [OF fragment_alts, of kParenStart] by (simp add: alts_head_def)

section \<open>Closing the alternatives\<close>

lemma LinkOperandNode_seq:
  assumes "second - (length pre + 3 + tail_seq s) = d" "len_seq s + 3 < 65536" "3 \<le> length pre" "length pre + 3 + tail_seq s \<le> second"
    "second < length pre + 3 + len_seq s + length post" "d \<le> 65535"
  shows "LinkOperandNode (length pre) second (pre @ reg_node kBranch (3 + len_seq s) @ emit_seq s 0 @ post) =
    Some (Inr (pre @ reg_node kBranch (3 + len_seq s) @ emit_seq s d @ post))"
proof -
  have l: "len_seq s < 65536" "3 + len_seq s < 65536" "\<not> 65535 < d" using assms by simp_all
  show ?thesis using LinkOperandNode_fragment [OF fragment_seq l(1,2) assms(3-5)] l(3) unfolding assms(1) by simp
qed

lemma link_operands_alts:
  "\<lbrakk>3 \<le> length pre; length pre + len_alts a + 3 < 65535; opc \<noteq> kBranch; opc \<noteq> kBack\<rbrakk> \<Longrightarrow>
   link_operands (length pre) (length pre + len_alts a) (pre @ alts_code a (len_alts a - last_branch a) @ reg_node opc 0) =
   Some (Inr (pre @ emit_alts a @ reg_node opc 0))"
proof (induction a arbitrary: pre rule: ralts_cases_induct)
  case (1 s)
  let ?n = "pre @ reg_node kBranch (3 + len_seq s) @ emit_seq s 0 @ reg_node opc 0"
  let ?n' = "pre @ reg_node kBranch (3 + len_seq s) @ emit_seq s (len_seq s - tail_seq s) @ reg_node opc 0"
  have c: "code_at ?n (length pre) (reg_node kBranch (3 + len_seq s))" by (rule code_at_self)
  have n: "GetNextNodePos (length pre) ?n = Inr (length pre + (3 + len_seq s))" using next_node [OF c] 1 by simp
  have l: "LinkOperandNode (length pre) (length pre + (3 + len_seq s)) ?n = Some (Inr ?n')"
  proof (rule LinkOperandNode_seq)
    show "length pre + (3 + len_seq s) - (length pre + 3 + tail_seq s) = len_seq s - tail_seq s" by simp
  qed (use 1 tail_len_seq [of s] in simp_all)
  have c': "code_at ?n' (length pre + (3 + len_seq s)) (reg_node opc 0)"
    using code_at_self [of "pre @ reg_node kBranch (3 + len_seq s) @ emit_seq s (len_seq s - tail_seq s)" "reg_node opc 0" "[]"] by simp
  have "link_operands (length pre + (3 + len_seq s)) (length pre + (3 + len_seq s)) ?n' = Some (Inr ?n')"
    using next_node [OF c'] 1 by (simp add: link_operands.simps [of "length pre + (3 + len_seq s)"])
  then show ?case using n l by (simp add: link_operands.simps [of "length pre"])
next
  case (2 s a)
  let ?t = "alts_code a (len_alts a - last_branch a) @ reg_node opc 0"
  let ?d = "len_seq s - tail_seq s + len_alts a"
  let ?n = "pre @ reg_node kBranch (3 + len_seq s) @ emit_seq s 0 @ ?t"
  let ?n' = "pre @ reg_node kBranch (3 + len_seq s) @ emit_seq s ?d @ ?t"
  let ?e = "length pre + (3 + len_seq s + len_alts a)"
  have c: "code_at ?n (length pre) (reg_node kBranch (3 + len_seq s))" by (rule code_at_self)
  have n: "GetNextNodePos (length pre) ?n = Inr (length pre + (3 + len_seq s))" using next_node [OF c] 2 by simp
  have l: "LinkOperandNode (length pre) ?e ?n = Some (Inr ?n')"
  proof (rule LinkOperandNode_seq)
    show "?e - (length pre + 3 + tail_seq s) = ?d" using tail_len_seq [of s] by simp
  qed (use 2(2-) tail_len_seq [of s] in simp_all)
  have "link_operands (length pre + (3 + len_seq s)) ?e ?n' =
    Some (Inr (pre @ reg_node kBranch (3 + len_seq s) @ emit_seq s ?d @ emit_alts a @ reg_node opc 0))"
    using 2(1) [of "pre @ reg_node kBranch (3 + len_seq s) @ emit_seq s ?d"] 2(2-) by (simp add: add.assoc)
  then show ?case using n l last_branch_le [of a]
    by (simp add: link_operands.simps [of "length pre"])
qed

lemma link_operands_code:
  assumes "3 \<le> length pre" "length pre + length (alts_head paren) + len_alts a + 3 < 65535" "opc \<noteq> kBranch" "opc \<noteq> kBack"
  shows "link_operands (length pre) (length pre + (length (alts_head paren) + len_alts a))
      (pre @ alts_head paren @ alts_code a (len_alts a - last_branch a) @ reg_node opc 0) =
    Some (Inr (pre @ alts_head paren @ emit_alts a @ reg_node opc 0))"
proof (cases paren)
  case True
  let ?n = "pre @ reg_node kParenStart 3 @ alts_code a (len_alts a - last_branch a) @ reg_node opc 0"
  have c: "code_at ?n (length pre) (reg_node kParenStart 3)" by (rule code_at_self)
  have n: "GetNextNodePos (length pre) ?n = Inr (length pre + 3)" using next_node [OF c] by simp
  have l: "LinkOperandNode (length pre) e ?n = Some (Inr ?n)" for e
    using code_at_node [OF c] by (simp add: LinkOperandNode_def opcodes)
  show ?thesis
    using link_operands_alts [of "pre @ reg_node kParenStart 3" a opc] assms True n l
    by (simp add: link_operands.simps [of "length pre"] alts_head_def add.assoc)
next
  case False
  then show ?thesis using link_operands_alts [of pre a opc] assms by (simp add: alts_head_def)
qed

section \<open>The parser\<close>

text \<open>Enough fuel for the rest of the text, and no range up to the largest \<open>char\<close>.\<close>

definition fueled :: "nat \<Rightarrow> nat \<Rightarrow> RegExp \<Rightarrow> bool" where
  "fueled n k s \<longleftrightarrow> 127 \<notin> set (reg_str s) \<and> 5 * length (rest s) + k \<le> n"

definition ready :: "RegExp \<Rightarrow> bool" where
  "ready s \<longleftrightarrow> reg_parse_index s \<le> length (reg_str s) \<and> 3 \<le> length (reg_nfa s)"

definition piece_post :: "RegExp \<Rightarrow> nat \<times> RegExp \<Rightarrow> bool" where
  "piece_post s = (\<lambda>(cur, s'). cur = length (reg_nfa s) \<and> cur + 3 < 65535 \<and>
     (\<exists>a r. wf_atom a \<and> (r \<noteq> Once \<longrightarrow> (\<forall>w. a = Chars w \<longrightarrow> length w = 1)) \<and> moved s s' (print_atom a @ print_rep r) \<and>
       reg_nfa s' = reg_nfa s @ emit_piece a r 0))"

definition loop_post :: "bytes \<Rightarrow> ratom \<Rightarrow> rrep \<Rightarrow> RegExp \<Rightarrow> nat \<times> RegExp \<Rightarrow> bool" where
  "loop_post pre a r s = (\<lambda>(pos, s'). pos \<noteq> 0 \<and>
     (\<exists>q. wf_seq q \<and> moved s s' (print_seq q) \<and> reg_nfa s' = pre @ emit_seq (Seq a r q) 0))"

definition branch_post :: "RegExp \<Rightarrow> nat \<times> RegExp \<Rightarrow> bool" where
  "branch_post s = (\<lambda>(cur, s'). cur = length (reg_nfa s) \<and> cur + 3 < 65535 \<and>
     (\<exists>q. wf_seq q \<and> moved s s' (print_seq q) \<and> reg_nfa s' = reg_nfa s @ reg_node kBranch 0 @ emit_seq q 0))"

definition alts_post :: "bytes \<Rightarrow> ralts \<Rightarrow> RegExp \<Rightarrow> RegExp \<Rightarrow> bool" where
  "alts_post pre a s s' \<longleftrightarrow> (\<exists>b t. wf_alts b \<and> print_alts b = print_alts a @ t \<and> moved s s' t \<and> reg_nfa s' = pre @ alts_code b 0)"

definition compile_post :: "bool \<Rightarrow> RegExp \<Rightarrow> nat \<times> RegExp \<Rightarrow> bool" where
  "compile_post paren s = (\<lambda>(cur, s'). cur = length (reg_nfa s) \<and> cur + 3 < 65535 \<and>
     (\<exists>a. wf_alts a \<and>
       (if paren then moved s s' (print_alts a @ [41]) \<and> reg_nfa s' = reg_nfa s @ emit_atom (Group a) 0
        else moved s s' (print_alts a) \<and> hd0 (rest s') = 0 \<and> reg_nfa s' = reg_nfa s @ emit_alts a @ reg_node kEnd 0 \<and> length (reg_nfa s') < 65535)))"

lemma advance_nfa: "advance (s\<lparr>reg_nfa := n\<rparr>) = (advance s)\<lparr>reg_nfa := n\<rparr>"
  by (simp add: advance_def)

lemma ready_moved: "moved s s' t \<Longrightarrow> 3 \<le> length (reg_nfa s') \<Longrightarrow> ready s'"
  by (metis ready_def moved_index)

lemma fueled_moved: "moved s s' t \<Longrightarrow> fueled n k s \<Longrightarrow> k' + m \<le> k + 5 * length t \<Longrightarrow> n \<le> n' + m \<Longrightarrow> fueled n' k' s'"
  using moved_rest [of s s' t] moved_index [of s s' t] by (simp add: fueled_def)

lemma fueled_upd [simp]: "fueled n k (s\<lparr>reg_nfa := x\<rparr>) = fueled n k s" "fueled n k (s\<lparr>paren_num := y\<rparr>) = fueled n k s"
  by (simp_all add: fueled_def)

text \<open>\<open>ProcessChar\<close> over \<open>Compile\<close>.\<close>

lemma ProcessChar_step:
  assumes IH: "\<And>s. ready s \<Longrightarrow> run_ok (fueled n 5 s) (RegExp_Compile n True s) (compile_post True s)" and s: "ready s"
  shows "run_ok (fueled (Suc n) 1 s) (ProcessChar (Suc n) s) (atom_post s)"
proof -
  let ?c = "hd0 (rest s)" and ?T = "fueled (Suc n) 1 s"
  have i: "reg_parse_index s \<le> length (reg_str s)" "3 \<le> length (reg_nfa s)" using s by (simp_all add: ready_def)
  note cc = cur_char_rest [OF i(1)]
  have adv: "moved s (advance s) [?c]" if "?c \<noteq> 0" using moved_advance [OF i(1) refl that] .
  have node: "run_ok ?T (AppendNode opc (advance s)) (atom_post s)"
    if "?c \<noteq> 0" "wf_atom a" "print_atom a = [?c]" "emit_atom a 0 = reg_node opc 0" "\<forall>w. a \<noteq> Chars w" for a opc
    using adv [OF that(1)] that by (auto simp: AppendNode_eq intro!: atom_postI [where a = a])
  consider "?c = 94" | "?c = 36" | "?c = 46" | "?c = 91" | "?c = 40" | "?c \<in> {41, 124, 42, 43, 63}" | "?c = 0" | "?c = 92" | "plain ?c"
    by (auto simp: plain_def kMetaOperators_def)
  then show ?thesis
  proof cases
    case 1
    then show ?thesis using node [of BOL kBOL] cc by simp
  next
    case 2
    then show ?thesis using node [of EOL kEOL] cc by simp
  next
    case 3
    then show ?thesis using node [of AnyChar kAny] cc by simp
  next
    case 4
    then have m: "moved s (advance s) [91]" using adv by simp
    have "run_ok ?T (process_class (advance s)) (atom_post s)"
      by (rule run_ok_mono [OF process_class_ok [OF conjunct1 [OF moved_index [OF m]] m]])
        (use i moved_index [OF m] in \<open>simp_all add: fueled_def\<close>)
    then show ?thesis using 4 cc by simp
  next
    case 5
    then have m: "moved s (advance s) [40]" using adv by simp
    have "run_ok (fueled n 5 (advance s)) (RegExp_Compile n True (advance s)) (compile_post True (advance s))"
      using ready_moved [OF m] i(2) by (intro IH) simp
    then have "run_ok ?T (RegExp_Compile n True (advance s)) (atom_post s)"
    proof (rule run_ok_mono)
      show "fueled n 5 (advance s)" if ?T using fueled_moved [OF m that, of 5 1 n] by simp
      show "atom_post s r" if r: "compile_post True (advance s) r" for r
      proof (cases r)
        case (Pair cur s')
        then obtain a where "wf_alts a" "moved (advance s) s' (print_alts a @ [41])" "reg_nfa s' = reg_nfa s @ emit_atom (Group a) 0"
          "cur = length (reg_nfa s)" "cur + 3 < 65535" using r by (auto simp: compile_post_def)
        then show ?thesis using moved_trans [OF m, of s' "print_alts a @ [41]"] Pair by (simp only:) (rule atom_postI [where a = "Group a"], simp_all)
      qed
    qed
    then show ?thesis using 5 cc by simp
  next
    case 6
    then show ?thesis using cc by auto
  next
    case 7
    then show ?thesis using cc by simp
  next
    case 8
    then have m: "moved s (advance s) [92]" using adv by simp
    have "run_ok ?T (process_escape (advance s)) (atom_post s)"
      by (rule process_escape_ok [OF conjunct1 [OF moved_index [OF m]] m]) simp
    then show ?thesis using 8 cc by simp
  next
    case 9
    then have "?c \<notin> {0, 94, 36, 40, 41, 91, 42, 43, 63, 124, 46, 92}" by (auto simp: plain_def kMetaOperators_def)
    then show ?thesis using process_precise_ok [OF i(1) 9] cc by simp
  qed
qed

text \<open>\<open>ProcessBlock\<close>: an atom and its repetition.\<close>

lemma repeat_code:
  assumes "reg_nfa s = pre @ emit_atom a 0" "3 \<le> length pre" "r \<noteq> Once"
  shows "(if r = Star then repeat_star (length pre) s else if r = Plus then repeat_plus (length pre) s else repeat_opt (length pre) s)
    \<in> {Some (Inl kInvalidLength), Some (Inr (s\<lparr>reg_nfa := pre @ emit_piece a r 0\<rparr>))}"
  using repeat_star_code [OF assms(1,2)] repeat_plus_code [OF assms(1,2)] repeat_opt_code [OF assms(1,2)] assms(3) by (cases r) auto

lemma ProcessBlock_step:
  assumes IH: "\<And>s. ready s \<Longrightarrow> run_ok (fueled n 1 s) (ProcessChar n s) (atom_post s)" and s: "ready s"
  shows "run_ok (fueled (Suc n) 2 s) (ProcessBlock (Suc n) s) (piece_post s)"
proof -
  let ?T = "fueled (Suc n) 2 s"
  have char: "run_ok ?T (ProcessChar n s) (atom_post s)" using IH [OF s] by (rule run_ok_mono) (simp_all add: fueled_def)
  show ?thesis
    unfolding ProcessBlock.simps
  proof (rule run_ok_bind [OF char], clarify)
    fix cur s1 assume "atom_post s (cur, s1)"
    then obtain a where a: "wf_atom a" "moved s s1 (print_atom a)" "cur = length (reg_nfa s)" "cur + 3 < 65535"
      "reg_nfa s1 = reg_nfa s @ emit_atom a 0" "\<forall>w. a = Chars w \<longrightarrow> 1 < length w \<longrightarrow> \<not> IsRepetitionOp (hd0 (rest s1))"
      by (auto simp: atom_post_def)
    let ?c = "hd0 (rest s1)"
    have i1: "reg_parse_index s1 \<le> length (reg_str s1)" using moved_index [OF a(2)] by blast
    note cc = cur_char_rest [OF i1]
    show "run_ok ?T (obind (cur_char s1) (\<lambda>ch.
     if \<not> IsRepetitionOp ch then Some (Inr (cur, s1))
     else
       obind (if ch = 42 then repeat_star cur s1 else if ch = 43 then repeat_plus cur s1 else repeat_opt cur s1) (\<lambda>s.
       obind (cur_char (advance s)) (\<lambda>ch.
       if IsRepetitionOp ch then Some (Inl kInvalidRegExp) else Some (Inr (cur, advance s)))))) (piece_post s)"
    proof (cases "IsRepetitionOp ?c")
      case False
      have "piece_post s (cur, s1)" unfolding piece_post_def prod.case using a
        by (intro conjI exI [of _ a] exI [of _ Once]) simp_all
      then show ?thesis using cc False by simp
    next
      case True
      define r where "r = (if ?c = 42 then Star else if ?c = 43 then Plus else Opt)"
      have r: "r \<noteq> Once" "print_rep r = [?c]" "?c \<noteq> 0" using True by (auto simp: r_def IsRepetitionOp_def)
      have one: "\<forall>w. a = Chars w \<longrightarrow> length w = 1"
      proof (intro allI impI)
        fix w assume w: "a = Chars w"
        then have "w \<noteq> []" "\<not> 1 < length w" using a(1,6) True by auto
        then show "length w = 1" by (cases w) auto
      qed
      let ?s2 = "s1\<lparr>reg_nfa := reg_nfa s @ emit_piece a r 0\<rparr>"
      have m2: "moved s (advance ?s2) (print_atom a @ print_rep r)"
        using moved_trans [OF a(2) moved_advance [OF i1 refl r(3)]] r(2) by (simp add: advance_nfa)
      have post: "piece_post s (cur, advance ?s2)" unfolding piece_post_def prod.case using a(1,3,4) r(1) one m2
        by (intro conjI exI [of _ a] exI [of _ r]) simp_all
      have "(if ?c = 42 then repeat_star cur s1 else if ?c = 43 then repeat_plus cur s1 else repeat_opt cur s1)
          \<in> {Some (Inl kInvalidLength), Some (Inr ?s2)}"
        using repeat_code [OF a(5) _ r(1)] s a(3) by (simp add: r_def ready_def split: if_splits)
      then show ?thesis using cc True post cur_char_rest [OF conjunct1 [OF moved_index [OF m2]]] by auto
    qed
  qed
qed

text \<open>\<open>block_loop\<close>: with a piece before it, whose last link is open.\<close>

lemma block_loop_step:
  assumes IH: "\<And>s. ready s \<Longrightarrow> run_ok (fueled n 2 s) (ProcessBlock n s) (piece_post s)"
    and loop: "\<And>s pre a r. ready s \<Longrightarrow> 3 \<le> length pre \<Longrightarrow> reg_nfa s = pre @ emit_piece a r 0 \<Longrightarrow>
      run_ok (fueled n 3 s) (block_loop n (length pre) s) (loop_post pre a r s)"
    and s: "ready s" "3 \<le> length pre" "reg_nfa s = pre @ emit_piece a r 0"
  shows "run_ok (fueled (Suc n) 3 s) (block_loop (Suc n) (length pre) s) (loop_post pre a r s)"
proof -
  let ?T = "fueled (Suc n) 3 s" and ?c = "hd0 (rest s)"
  have i: "reg_parse_index s \<le> length (reg_str s)" using s by (simp add: ready_def)
  note cc = cur_char_rest [OF i]
  show ?thesis
  proof (cases "?c = 0 \<or> ?c = 124 \<or> ?c = 41")
    case True
    have "loop_post pre a r s (length pre, s)" unfolding loop_post_def prod.case using s(2,3) moved_refl [OF i]
      by (auto intro!: exI [of _ Empty])
    then show ?thesis using True cc by auto
  next
    case False
    have piece: "run_ok ?T (ProcessBlock n s) (piece_post s)" using IH [OF s(1)] by (rule run_ok_mono) (simp_all add: fueled_def)
    have "run_ok ?T (obind (ProcessBlock n s) (\<lambda>(cur, s).
       obind (if length pre \<noteq> 0 then on_nfa (LinkNode (length pre) cur) s else Some (Inr s)) (\<lambda>s. block_loop n cur s))) (loop_post pre a r s)"
    proof (rule run_ok_bind [OF piece], clarify)
      fix cur s1 assume "piece_post s (cur, s1)"
      then obtain b q where b: "wf_atom b" "q \<noteq> Once \<longrightarrow> (\<forall>w. b = Chars w \<longrightarrow> length w = 1)" "moved s s1 (print_atom b @ print_rep q)"
        "cur = length (reg_nfa s)" "cur + 3 < 65535" "reg_nfa s1 = reg_nfa s @ emit_piece b q 0" by (auto simp: piece_post_def)
      have cur: "cur = length pre + len_piece a r" using b(4) s(3) by simp
      have ne: "print_atom b \<noteq> []" using b(1) by (cases b) auto
      let ?n = "(pre @ emit_piece a r (len_piece a r - tail_piece a r)) @ emit_piece b q 0"
      let ?s2 = "s1\<lparr>reg_nfa := ?n\<rparr>"
      have link: "LinkNode (length pre) cur (reg_nfa s1) = Some (Inr ?n)"
      proof -
        have "LinkNode (length pre) cur (pre @ emit_piece a r 0 @ emit_piece b q 0) =
          Some (Inr (pre @ emit_piece a r (len_piece a r - tail_piece a r) @ emit_piece b q 0))"
          by (rule LinkNode_exact [OF fragment_piece [of r a]]) (use b(5) cur tail_len_piece [of r a] tail_len_piece [of q b] in simp_all)
        then show ?thesis using b(6) s(3) by simp
      qed
      let ?pre = "pre @ emit_piece a r (len_piece a r - tail_piece a r)"
      have len: "length ?pre = cur" using cur by simp
      have m2: "moved s ?s2 (print_atom b @ print_rep q)" using b(3) by simp
      have r2: "ready ?s2" by (rule ready_moved [OF m2]) (use s(2) in simp)
      have "run_ok (fueled n 3 ?s2) (block_loop n (length ?pre) ?s2) (loop_post ?pre b q ?s2)"
        by (rule loop [OF r2]) (use s(2) in simp_all)
      then have "run_ok ?T (block_loop n cur ?s2) (loop_post pre a r s)"
        unfolding len
      proof (rule run_ok_mono)
        have "1 \<le> length (print_atom b)" using ne by (cases "print_atom b") simp_all
        then show "fueled n 3 ?s2" if ?T using fueled_moved [OF m2 that, of 3 1 n] by simp
        fix x assume x: "loop_post (pre @ emit_piece a r (len_piece a r - tail_piece a r)) b q ?s2 x"
        obtain pos s' where x': "x = (pos, s')" by (cases x)
        from x obtain t where t: "pos \<noteq> 0" "wf_seq t" "moved ?s2 s' (print_seq t)"
          "reg_nfa s' = (pre @ emit_piece a r (len_piece a r - tail_piece a r)) @ emit_seq (Seq b q t) 0" by (auto simp: loop_post_def x')
        have "moved s s' (print_seq (Seq b q t))" using moved_trans [OF m2 t(3)] by simp
        moreover have "reg_nfa s' = pre @ emit_seq (Seq a r (Seq b q t)) 0" using t(4) by simp
        moreover have "wf_seq (Seq b q t)" using t(2) b(1,2) by simp
        ultimately show "loop_post pre a r s x" using t(1) unfolding loop_post_def x' prod.case by blast
      qed
      then show "run_ok ?T (obind (if length pre \<noteq> 0 then on_nfa (LinkNode (length pre) cur) s1 else Some (Inr s1)) (block_loop n cur)) (loop_post pre a r s)"
        unfolding on_nfa_def link using s(2) by auto
    qed
    then show ?thesis using False cc by simp
  qed
qed

text \<open>\<open>ProcessBaranch\<close> and the loop over its blocks from the start.\<close>

lemma block_loop_start:
  assumes IH: "\<And>s. ready s \<Longrightarrow> run_ok (fueled n 2 s) (ProcessBlock n s) (piece_post s)"
    and loop: "\<And>s pre a r. ready s \<Longrightarrow> 3 \<le> length pre \<Longrightarrow> reg_nfa s = pre @ emit_piece a r 0 \<Longrightarrow>
      run_ok (fueled n 3 s) (block_loop n (length pre) s) (loop_post pre a r s)"
    and s: "ready s"
  shows "run_ok (fueled (Suc n) 3 s) (block_loop (Suc n) 0 s) (\<lambda>(pos, s'). \<exists>q. wf_seq q \<and> moved s s' (print_seq q) \<and>
    (if pos = 0 then q = Empty \<and> reg_nfa s' = reg_nfa s else reg_nfa s' = reg_nfa s @ emit_seq q 0))"
    (is "run_ok ?T _ ?P")
proof -
  let ?c = "hd0 (rest s)"
  have i: "reg_parse_index s \<le> length (reg_str s)" "3 \<le> length (reg_nfa s)" using s by (simp_all add: ready_def)
  note cc = cur_char_rest [OF i(1)]
  show ?thesis
  proof (cases "?c = 0 \<or> ?c = 124 \<or> ?c = 41")
    case True
    have "?P (0, s)" using moved_refl [OF i(1)] by (auto intro!: exI [of _ Empty])
    then show ?thesis using True cc by auto
  next
    case False
    have piece: "run_ok ?T (ProcessBlock n s) (piece_post s)" using IH [OF s] by (rule run_ok_mono) (simp_all add: fueled_def)
    have "run_ok ?T (obind (ProcessBlock n s) (\<lambda>(cur, s). block_loop n cur s)) ?P"
    proof (rule run_ok_bind [OF piece], clarify)
      fix cur s1 assume "piece_post s (cur, s1)"
      then obtain b q where b: "wf_atom b" "q \<noteq> Once \<longrightarrow> (\<forall>w. b = Chars w \<longrightarrow> length w = 1)" "moved s s1 (print_atom b @ print_rep q)"
        "cur = length (reg_nfa s)" "reg_nfa s1 = reg_nfa s @ emit_piece b q 0" by (auto simp: piece_post_def)
      have "print_atom b \<noteq> []" using b(1) by (cases b) auto
      then have ne: "1 \<le> length (print_atom b)" by (cases "print_atom b") simp_all
      have r1: "ready s1" by (rule ready_moved [OF b(3)]) (use i(2) b(5) in simp)
      have "run_ok (fueled n 3 s1) (block_loop n cur s1) (loop_post (reg_nfa s) b q s1)" unfolding b(4) using loop [OF r1 i(2) b(5)] .
      then show "run_ok ?T (block_loop n cur s1) ?P"
      proof (rule run_ok_mono)
        show "fueled n 3 s1" if ?T using fueled_moved [OF b(3) that, of 3 1 n] ne by simp
        fix x assume x: "loop_post (reg_nfa s) b q s1 x"
        obtain pos s' where x': "x = (pos, s')" by (cases x)
        from x obtain t where t: "pos \<noteq> 0" "wf_seq t" "moved s1 s' (print_seq t)" "reg_nfa s' = reg_nfa s @ emit_seq (Seq b q t) 0"
          by (auto simp: loop_post_def x')
        have "moved s s' (print_seq (Seq b q t))" using moved_trans [OF b(3) t(3)] by simp
        moreover have "wf_seq (Seq b q t)" using t(2) b(1,2) by simp
        ultimately show "?P x" unfolding x' prod.case using t(1,4) by (simp only: if_False) blast
      qed
    qed
    then show ?thesis using False cc by simp
  qed
qed

lemma ProcessBaranch_step:
  assumes IH: "\<And>s. ready s \<Longrightarrow> run_ok (fueled n 3 s) (block_loop n 0 s) (\<lambda>(pos, s'). \<exists>q. wf_seq q \<and> moved s s' (print_seq q) \<and>
      (if pos = 0 then q = Empty \<and> reg_nfa s' = reg_nfa s else reg_nfa s' = reg_nfa s @ emit_seq q 0))"
    and s: "ready s"
  shows "run_ok (fueled (Suc n) 4 s) (ProcessBaranch (Suc n) s) (branch_post s)"
  unfolding ProcessBaranch.simps
proof (rule run_ok_append_then, unfold prod.case)
  let ?s1 = "s\<lparr>reg_nfa := reg_nfa s @ reg_node kBranch 0\<rparr>" and ?T = "fueled (Suc n) 4 s"
  assume len: "length (reg_nfa s) + 3 < 65535"
  have "ready ?s1" using s by (simp add: ready_def)
  from IH [OF this] have loop: "run_ok ?T (block_loop n 0 ?s1) (\<lambda>(pos, s'). \<exists>q. wf_seq q \<and> moved s s' (print_seq q) \<and>
      (if pos = 0 then q = Empty \<and> reg_nfa s' = reg_nfa s @ reg_node kBranch 0 else reg_nfa s' = reg_nfa s @ reg_node kBranch 0 @ emit_seq q 0))"
    by (rule run_ok_mono) (auto simp: fueled_def split: if_splits)
  show "run_ok ?T (obind (block_loop n 0 ?s1) (\<lambda>(pre, sa).
     if pre = 0 then obind (AppendNode kNothing sa) (\<lambda>(nothing, sb). Some (Inr (length (reg_nfa s), sb)))
     else Some (Inr (length (reg_nfa s), sa)))) (branch_post s)"
  proof (rule run_ok_bind [OF loop], clarify)
    fix pos s2 q assume q: "wf_seq q" "moved s s2 (print_seq q)"
      "if pos = 0 then q = Empty \<and> reg_nfa s2 = reg_nfa s @ reg_node kBranch 0 else reg_nfa s2 = reg_nfa s @ reg_node kBranch 0 @ emit_seq q 0"
    show "run_ok ?T (if pos = 0 then obind (AppendNode kNothing s2) (\<lambda>(nothing, sb). Some (Inr (length (reg_nfa s), sb)))
     else Some (Inr (length (reg_nfa s), s2))) (branch_post s)"
    proof (cases "pos = 0")
      case True
      then have "branch_post s (length (reg_nfa s), s2\<lparr>reg_nfa := reg_nfa s2 @ reg_node kNothing 0\<rparr>)"
        using q len by (auto simp: branch_post_def intro!: exI [of _ Empty])
      then show ?thesis using True by (auto intro: run_ok_append_then)
    next
      case False
      then have "branch_post s (length (reg_nfa s), s2)" using q len by (auto simp: branch_post_def)
      then show ?thesis using False by simp
    qed
  qed
qed

text \<open>\<open>alt_loop\<close>: the alternatives read so far are in the automaton, behind \<open>alts_head\<close>.\<close>

lemma alt_loop_step:
  assumes IH: "\<And>s. ready s \<Longrightarrow> run_ok (fueled n 4 s) (ProcessBaranch n s) (branch_post s)"
    and loop: "\<And>s pre a. ready s \<Longrightarrow> wf_alts a \<Longrightarrow> reg_nfa s = pre @ alts_head paren @ alts_code a 0 \<Longrightarrow>
      run_ok (fueled n 4 s) (alt_loop n (length pre) s) (alts_post (pre @ alts_head paren) a s)"
    and s: "ready s" "wf_alts a" "reg_nfa s = pre @ alts_head paren @ alts_code a 0"
  shows "run_ok (fueled (Suc n) 4 s) (alt_loop (Suc n) (length pre) s) (alts_post (pre @ alts_head paren) a s)"
proof -
  let ?T = "fueled (Suc n) 4 s" and ?c = "hd0 (rest s)" and ?h = "alts_head paren"
  have i: "reg_parse_index s \<le> length (reg_str s)" "3 \<le> length (reg_nfa s)" using s by (simp_all add: ready_def)
  note cc = cur_char_rest [OF i(1)]
  show ?thesis
  proof (cases "?c = 124")
    case False
    have "alts_post (pre @ ?h) a s s" unfolding alts_post_def using s moved_refl [OF i(1)]
      by (intro exI [of _ a] exI [of _ "[]"]) simp
    then show ?thesis using False cc by simp
  next
    case True
    then have m: "moved s (advance s) [124]" using moved_advance [OF i(1)] by simp
    have r0: "ready (advance s)" by (rule ready_moved [OF m]) (use i(2) in simp)
    have branch: "run_ok ?T (ProcessBaranch n (advance s)) (branch_post (advance s))"
      using IH [OF r0]
    proof (rule run_ok_mono)
      show "fueled n 4 (advance s)" if ?T using fueled_moved [OF m that, of 4 1 n] by simp
    qed
    have "run_ok ?T (obind (ProcessBaranch n (advance s)) (\<lambda>(branch_pos, s).
       obind (on_nfa (LinkNode (length pre) branch_pos) s) (alt_loop n (length pre)))) (alts_post (pre @ ?h) a s)"
    proof (rule run_ok_bind [OF branch], clarify)
      fix br s1 assume "branch_post (advance s) (br, s1)"
      then obtain q where q: "br = length (reg_nfa s)" "br + 3 < 65535" "wf_seq q" "moved (advance s) s1 (print_seq q)"
        "reg_nfa s1 = reg_nfa s @ reg_node kBranch 0 @ emit_seq q 0" by (auto simp: branch_post_def)
      let ?d = "len_alts a - last_branch a"
      let ?n = "pre @ ?h @ alts_code (snoc_alts a q) 0"
      let ?s2 = "s1\<lparr>reg_nfa := ?n\<rparr>"
      have br: "br = length pre + (length ?h + len_alts a)" using q(1) s(3) by simp
      have "LinkNode (length pre) br (pre @ (?h @ alts_code a 0) @ reg_node kBranch 0 @ emit_seq q 0) =
        Some (Inr (pre @ (?h @ alts_code a ?d) @ reg_node kBranch 0 @ emit_seq q 0))"
        by (rule LinkNode_exact [OF fragment_head]) (use q(2) br last_branch_le [of a] in simp_all)
      then have link: "LinkNode (length pre) br (reg_nfa s1) = Some (Inr ?n)" using q(5) s(3) by (simp add: snoc_alts_simps)
      have m2: "moved s ?s2 ([124] @ print_seq q)" using moved_trans [OF m q(4)] by simp
      have "ready ?s2" by (rule ready_moved [OF m2]) (use i(2) s(3) in \<open>simp add: snoc_alts_simps\<close>)
      then have "run_ok (fueled n 4 ?s2) (alt_loop n (length pre) ?s2) (alts_post (pre @ ?h) (snoc_alts a q) ?s2)"
        by (rule loop) (use s(2) q(3) in \<open>simp_all add: snoc_alts_simps\<close>)
      then have "run_ok ?T (alt_loop n (length pre) ?s2) (alts_post (pre @ ?h) a s)"
      proof (rule run_ok_mono)
        show "fueled n 4 ?s2" if ?T using fueled_moved [OF m2 that, of 4 1 n] by simp
        show "alts_post (pre @ ?h) a s s'" if s': "alts_post (pre @ ?h) (snoc_alts a q) ?s2 s'" for s'
        proof -
          obtain b t where b: "wf_alts b" "print_alts b = print_alts (snoc_alts a q) @ t" "moved ?s2 s' t" "reg_nfa s' = (pre @ ?h) @ alts_code b 0"
            using s' unfolding alts_post_def by blast
          have "print_alts b = print_alts a @ (([124] @ print_seq q) @ t)" using b(2) by (simp add: snoc_alts_simps)
          then show ?thesis using b(1,4) moved_trans [OF m2 b(3)] unfolding alts_post_def by blast
        qed
      qed
      then show "run_ok ?T (obind (on_nfa (LinkNode (length pre) br) s1) (alt_loop n (length pre))) (alts_post (pre @ ?h) a s)"
        unfolding on_nfa_def link by simp
    qed
    then show ?thesis using True cc by simp
  qed
qed

text \<open>\<open>Compile\<close> behind its first branch.\<close>

lemma compile_end_ok:
  assumes s: "ready s" "reg_nfa s = pre @ alts_head paren @ alts_code a 0" "wf_alts a" "3 \<le> length pre"
  shows "run_ok T (compile_end paren (length pre) s) (\<lambda>(cur, s'). cur = length pre \<and>
       (if paren then moved s s' [41] \<and> reg_nfa s' = pre @ emit_atom (Group a) 0
        else moved s s' [] \<and> hd0 (rest s') = 0 \<and> reg_nfa s' = pre @ emit_alts a @ reg_node kEnd 0 \<and> length (reg_nfa s') < 65535))"
    (is "run_ok T ?m ?P")
proof (cases "65535 \<le> length (reg_nfa s) + 3")
  case True
  then show ?thesis by (simp add: compile_end_def AppendNode_eq)
next
  case False
  let ?h = "alts_head paren" and ?opc = "if paren then kParenEnd else kEnd"
  let ?s1 = "s\<lparr>reg_nfa := reg_nfa s @ reg_node ?opc 0\<rparr>"
  have len: "length (reg_nfa s) + 3 < 65535" using False by simp
  let ?e = "length pre + (length ?h + len_alts a)"
  have e: "length (reg_nfa s) = ?e" using s(2) by simp
  have opc: "?opc \<noteq> kBranch" "?opc \<noteq> kBack" by (simp_all add: opcodes)
  let ?n1 = "pre @ ?h @ alts_code a (len_alts a - last_branch a) @ reg_node ?opc 0"
  let ?n2 = "pre @ ?h @ emit_alts a @ reg_node ?opc 0"
  have "LinkNode (length pre) ?e (pre @ (?h @ alts_code a 0) @ reg_node ?opc 0) =
    Some (Inr (pre @ (?h @ alts_code a (len_alts a - last_branch a)) @ reg_node ?opc 0))"
    by (rule LinkNode_exact [OF fragment_head]) (use len e last_branch_le [of a] in simp_all)
  then have l1: "LinkNode_ignored (length pre) (length (reg_nfa s)) (reg_nfa ?s1) = Some (Inr ?n1)"
    unfolding e by (simp add: LinkNode_ignored_def s(2))
  have l2: "link_operands (length pre) (length (reg_nfa s)) ?n1 = Some (Inr ?n2)"
    unfolding e by (rule link_operands_code [OF s(4) _ opc]) (use len e in simp)
  let ?s2 = "s\<lparr>reg_nfa := ?n2\<rparr>"
  have i: "reg_parse_index s \<le> length (reg_str s)" using s by (simp add: ready_def)
  then have cc: "cur_char ?s2 = Some (Inr (hd0 (rest s)))" using cur_char_rest [of ?s2] by simp
  have "run_ok T (obind (cur_char ?s2) (\<lambda>ch.
     if paren then (if ch \<noteq> 41 then Some (Inl kInvalidMetaOperator) else Some (Inr (length pre, advance ?s2)))
     else (if ch \<noteq> 0 then Some (Inl kInvalidRegEnd) else Some (Inr (length pre, ?s2))))) ?P"
  proof (cases paren)
    case True
    then show ?thesis using cc moved_advance [OF i, of 41] by (simp add: advance_nfa alts_head_def)
  next
    case False
    then show ?thesis using cc moved_refl [OF i] len e by (simp add: alts_head_def)
  qed
  moreover have "?m = obind (cur_char ?s2) (\<lambda>ch.
     if paren then (if ch \<noteq> 41 then Some (Inl kInvalidMetaOperator) else Some (Inr (length pre, advance ?s2)))
     else (if ch \<noteq> 0 then Some (Inl kInvalidRegEnd) else Some (Inr (length pre, ?s2))))"
    using len l1 l2 by (simp add: compile_end_def AppendNode_eq on_nfa_def)
  ultimately show ?thesis by (simp only:)
qed

lemma Compile_rest:
  assumes IH: "\<And>s. ready s \<Longrightarrow> run_ok (fueled n 4 s) (ProcessBaranch n s) (branch_post s)"
    and loop: "\<And>s pre a. ready s \<Longrightarrow> wf_alts a \<Longrightarrow> reg_nfa s = pre @ alts_head paren @ alts_code a 0 \<Longrightarrow>
      run_ok (fueled n 4 s) (alt_loop n (length pre) s) (alts_post (pre @ alts_head paren) a s)"
    and s1: "moved s s1 []" "ready s" "reg_nfa s1 = reg_nfa s @ (if paren then reg_node kParenStart 0 else [])"
    and pre: "pre = reg_nfa s"
  shows "run_ok (fueled (Suc n) 5 s) (obind (ProcessBaranch n s1) (\<lambda>(branch_pos, s).
     obind (if paren then on_nfa (LinkNode (length pre) branch_pos) s else Some (Inr s)) (\<lambda>s.
     let cur = (if paren then length pre else branch_pos) in obind (alt_loop n cur s) (compile_end paren cur)))) (compile_post paren s)"
proof -
  let ?T = "fueled (Suc n) 5 s" and ?h = "alts_head paren"
  have p3: "3 \<le> length pre" using s1(2) pre by (simp add: ready_def)
  have r1: "ready s1" by (rule ready_moved [OF s1(1)]) (use p3 pre s1(3) in simp)
  have branch: "run_ok ?T (ProcessBaranch n s1) (branch_post s1)"
    using IH [OF r1] by (rule run_ok_mono) (use fueled_moved [OF s1(1), of "Suc n" 5 4 1 n] in simp_all)
  show ?thesis
  proof (rule run_ok_bind [OF branch], clarify)
    fix br s2 assume "branch_post s1 (br, s2)"
    then obtain q where q: "br = length (reg_nfa s1)" "br + 3 < 65535" "wf_seq q" "moved s1 s2 (print_seq q)"
      "reg_nfa s2 = reg_nfa s1 @ reg_node kBranch 0 @ emit_seq q 0" by (auto simp: branch_post_def)
    let ?s3 = "s2\<lparr>reg_nfa := pre @ ?h @ alts_code (One q) 0\<rparr>"
    have link: "(if paren then on_nfa (LinkNode (length pre) br) s2 else Some (Inr s2)) = Some (Inr ?s3)"
    proof (cases paren)
      case True
      have "LinkNode (length pre) br (pre @ reg_node kParenStart 0 @ reg_node kBranch 0 @ emit_seq q 0) =
        Some (Inr (pre @ reg_node kParenStart 3 @ reg_node kBranch 0 @ emit_seq q 0))"
        by (rule LinkNode_exact [OF fragment_node]) (use q(1,2) s1(3) True pre in simp_all)
      then show ?thesis using True q(5) s1(3) pre by (simp add: on_nfa_def alts_head_def)
    next
      case False
      then show ?thesis using q(5) s1(3) pre by (simp add: alts_head_def)
    qed
    have cur: "(if paren then length pre else br) = length pre" using q(1) s1(3) pre by simp
    have lt: "length pre + 3 < 65535" using q(1,2) s1(3) pre by (simp split: if_splits)
    have m3: "moved s ?s3 (print_seq q)" using moved_trans [OF s1(1) q(4)] by simp
    have r3: "ready ?s3" by (rule ready_moved [OF m3]) (use p3 in simp)
    have "run_ok (fueled n 4 ?s3) (alt_loop n (length pre) ?s3) (alts_post (pre @ ?h) (One q) ?s3)"
      by (rule loop [OF r3]) (use q(3) in simp_all)
    then have alts: "run_ok ?T (alt_loop n (length pre) ?s3) (alts_post (pre @ ?h) (One q) ?s3)"
      by (rule run_ok_mono) (use fueled_moved [OF m3, of "Suc n" 5 4 1 n] in simp_all)
    have "run_ok ?T (obind (alt_loop n (length pre) ?s3) (compile_end paren (length pre))) (compile_post paren s)"
    proof (rule run_ok_bind [OF alts])
      fix s4 assume "alts_post (pre @ ?h) (One q) ?s3 s4"
      then obtain b t where b: "wf_alts b" "print_alts b = print_seq q @ t" "moved ?s3 s4 t" "reg_nfa s4 = (pre @ ?h) @ alts_code b 0"
        unfolding alts_post_def by (metis print_alts.simps(1))
      have m4: "moved s s4 (print_alts b)" using moved_trans [OF m3 b(3)] b(2) by simp
      have r4: "ready s4" by (rule ready_moved [OF m4]) (use p3 b(4) in simp)
      have "run_ok ?T (compile_end paren (length pre) s4) (\<lambda>(cur, s'). cur = length pre \<and>
       (if paren then moved s4 s' [41] \<and> reg_nfa s' = pre @ emit_atom (Group b) 0
        else moved s4 s' [] \<and> hd0 (rest s') = 0 \<and> reg_nfa s' = pre @ emit_alts b @ reg_node kEnd 0 \<and> length (reg_nfa s') < 65535))"
        by (rule compile_end_ok [OF r4 _ b(1) p3]) (use b(4) in simp)
      then show "run_ok ?T (compile_end paren (length pre) s4) (compile_post paren s)"
      proof (rule run_ok_mono, goal_cases)
        case (2 x)
        obtain c s' where x: "x = (c, s')" by (cases x)
        have "moved s s' (print_alts b)" if "moved s4 s' []" using moved_trans [OF m4 that] by simp
        moreover have "moved s s' (print_alts b @ [41])" if "moved s4 s' [41]" using moved_trans [OF m4 that] .
        ultimately show ?case using 2 lt pre b(1) unfolding compile_post_def x prod.case
          by (intro conjI exI [of _ b]) (auto simp del: emit_atom.simps print_alts.simps split: if_splits)
      qed
    qed
    then show "run_ok ?T (obind (if paren then on_nfa (LinkNode (length pre) br) s2 else Some (Inr s2)) (\<lambda>s.
     let cur = (if paren then length pre else br) in obind (alt_loop n cur s) (compile_end paren cur))) (compile_post paren s)"
      unfolding link cur Let_def obind_simps .
  qed
qed

lemma Compile_step:
  assumes IH: "\<And>s. ready s \<Longrightarrow> run_ok (fueled n 4 s) (ProcessBaranch n s) (branch_post s)"
    and loop: "\<And>s pre a. ready s \<Longrightarrow> wf_alts a \<Longrightarrow> reg_nfa s = pre @ alts_head paren @ alts_code a 0 \<Longrightarrow>
      run_ok (fueled n 4 s) (alt_loop n (length pre) s) (alts_post (pre @ alts_head paren) a s)"
    and s: "ready s"
  shows "run_ok (fueled (Suc n) 5 s) (RegExp_Compile (Suc n) paren s) (compile_post paren s)"
proof (cases paren)
  case False
  have "moved s s []" using s by (intro moved_refl) (simp add: ready_def)
  from Compile_rest [OF IH loop this s _ refl] False show ?thesis by simp
next
  case True
  let ?s0 = "s\<lparr>paren_num := paren_num s + 1\<rparr>"
  let ?s1 = "?s0\<lparr>reg_nfa := reg_nfa s @ reg_node kParenStart 0\<rparr>"
  have "moved s ?s1 []" using s moved_refl [of s] by (simp add: ready_def)
  from Compile_rest [OF IH loop this s _ refl] True show ?thesis by (simp add: AppendNode_eq Let_def)
qed

theorem parser_ok:
  "(\<forall>s paren. ready s \<longrightarrow> run_ok (fueled n 5 s) (RegExp_Compile n paren s) (compile_post paren s)) \<and>
   (\<forall>s pre a paren. ready s \<longrightarrow> wf_alts a \<longrightarrow> reg_nfa s = pre @ alts_head paren @ alts_code a 0 \<longrightarrow>
      run_ok (fueled n 4 s) (alt_loop n (length pre) s) (alts_post (pre @ alts_head paren) a s)) \<and>
   (\<forall>s. ready s \<longrightarrow> run_ok (fueled n 4 s) (ProcessBaranch n s) (branch_post s)) \<and>
   (\<forall>s pre a r. ready s \<longrightarrow> 3 \<le> length pre \<longrightarrow> reg_nfa s = pre @ emit_piece a r 0 \<longrightarrow>
      run_ok (fueled n 3 s) (block_loop n (length pre) s) (loop_post pre a r s)) \<and>
   (\<forall>s. ready s \<longrightarrow> run_ok (fueled n 3 s) (block_loop n 0 s) (\<lambda>(pos, s'). \<exists>q. wf_seq q \<and> moved s s' (print_seq q) \<and>
      (if pos = 0 then q = Empty \<and> reg_nfa s' = reg_nfa s else reg_nfa s' = reg_nfa s @ emit_seq q 0))) \<and>
   (\<forall>s. ready s \<longrightarrow> run_ok (fueled n 2 s) (ProcessBlock n s) (piece_post s)) \<and>
   (\<forall>s. ready s \<longrightarrow> run_ok (fueled n 1 s) (ProcessChar n s) (atom_post s))"
proof (induction n)
  case 0
  then show ?case by (simp add: run_ok_def fueled_def)
next
  case (Suc n)
  then have c: "\<And>s paren. ready s \<Longrightarrow> run_ok (fueled n 5 s) (RegExp_Compile n paren s) (compile_post paren s)"
    and al: "\<And>s pre a paren. ready s \<Longrightarrow> wf_alts a \<Longrightarrow> reg_nfa s = pre @ alts_head paren @ alts_code a 0 \<Longrightarrow>
      run_ok (fueled n 4 s) (alt_loop n (length pre) s) (alts_post (pre @ alts_head paren) a s)"
    and br: "\<And>s. ready s \<Longrightarrow> run_ok (fueled n 4 s) (ProcessBaranch n s) (branch_post s)"
    and bl: "\<And>s pre a r. ready s \<Longrightarrow> 3 \<le> length pre \<Longrightarrow> reg_nfa s = pre @ emit_piece a r 0 \<Longrightarrow>
      run_ok (fueled n 3 s) (block_loop n (length pre) s) (loop_post pre a r s)"
    and b0: "\<And>s. ready s \<Longrightarrow> run_ok (fueled n 3 s) (block_loop n 0 s) (\<lambda>(pos, s'). \<exists>q. wf_seq q \<and> moved s s' (print_seq q) \<and>
      (if pos = 0 then q = Empty \<and> reg_nfa s' = reg_nfa s else reg_nfa s' = reg_nfa s @ emit_seq q 0))"
    and pb: "\<And>s. ready s \<Longrightarrow> run_ok (fueled n 2 s) (ProcessBlock n s) (piece_post s)"
    and pc: "\<And>s. ready s \<Longrightarrow> run_ok (fueled n 1 s) (ProcessChar n s) (atom_post s)" by blast+
  have "\<And>s paren. ready s \<Longrightarrow> run_ok (fueled (Suc n) 5 s) (RegExp_Compile (Suc n) paren s) (compile_post paren s)"
    by (rule Compile_step [OF br al])
  moreover have "\<And>s pre a paren. ready s \<Longrightarrow> wf_alts a \<Longrightarrow> reg_nfa s = pre @ alts_head paren @ alts_code a 0 \<Longrightarrow>
      run_ok (fueled (Suc n) 4 s) (alt_loop (Suc n) (length pre) s) (alts_post (pre @ alts_head paren) a s)"
    by (rule alt_loop_step [OF br al])
  moreover note ProcessBaranch_step [OF b0] block_loop_step [OF pb bl] block_loop_start [OF pb bl] ProcessBlock_step [OF pc]
    ProcessChar_step [OF c]
  ultimately show ?case by blast
qed

end
