(* ===== verification/Reg_Match.thy ===== *)
theory Reg_Match
  imports Reg_Compile
begin

text \<open>
  The matcher of Simple_Reg on compiled code: which pairs of positions of the subject a tree matches, and that
  \<open>Match\<close> on the code of the tree finds a pair exactly when there is one.
\<close>

section \<open>The language of a tree\<close>

text \<open>
  The pairs (start, end) of the substrings an atom matches. A dot also matches \<^emph>\<open>behind\<close> the last character,
  and a null character is in every class, as the code has it.
\<close>

fun rep_rel :: "rrep \<Rightarrow> (nat \<times> nat) set \<Rightarrow> (nat \<times> nat) set" where
  "rep_rel Once R = R"
| "rep_rel Star R = R\<^sup>*"
| "rep_rel Plus R = R O R\<^sup>*"
| "rep_rel Opt R = R \<union> Id"

definition class_has :: "bytes \<Rightarrow> byte \<Rightarrow> bool" where
  "class_has t c \<longleftrightarrow> c = 0 \<or> c \<in> set (takeWhile (\<lambda>c. c \<noteq> 0) (class_chars t))"

definition word_rel :: "bytes \<Rightarrow> bytes \<Rightarrow> (nat \<times> nat) set" where
  "word_rel str w = {(i, j). j = i + length w \<and> j \<le> length str \<and> take (length w) (drop i str) = w}"

primrec m_atom :: "bytes \<Rightarrow> ratom \<Rightarrow> (nat \<times> nat) set" and m_alts :: "bytes \<Rightarrow> ralts \<Rightarrow> (nat \<times> nat) set"
  and m_seq :: "bytes \<Rightarrow> rseq \<Rightarrow> (nat \<times> nat) set" where
  "m_atom str BOL = {(0, 0)}"
| "m_atom str EOL = {(length str, length str)}"
| "m_atom str AnyChar = {(i, j). j = i + 1 \<and> i \<le> length str}"
| "m_atom str (Class neg t) = {(i, j). j = i + 1 \<and> i < length str \<and> class_has t (str ! i) \<noteq> neg}"
| "m_atom str (Chars w) = word_rel str w"
| "m_atom str (Escape c) = word_rel str [c]"
| "m_atom str (Group a) = m_alts str a"
| "m_alts str (One s) = m_seq str s"
| "m_alts str (Or s a) = m_seq str s \<union> m_alts str a"
| "m_seq str Empty = Id"
| "m_seq str (Seq a r s) = rep_rel r (m_atom str a) O m_seq str s"

text \<open>Atoms that may match the empty string, and trees whose loops have no such body.\<close>

primrec null_atom :: "ratom \<Rightarrow> bool" and null_alts :: "ralts \<Rightarrow> bool" and null_seq :: "rseq \<Rightarrow> bool" where
  "null_atom BOL \<longleftrightarrow> True"
| "null_atom EOL \<longleftrightarrow> True"
| "null_atom AnyChar \<longleftrightarrow> False"
| "null_atom (Class neg t) \<longleftrightarrow> False"
| "null_atom (Chars w) \<longleftrightarrow> w = []"
| "null_atom (Escape c) \<longleftrightarrow> False"
| "null_atom (Group a) \<longleftrightarrow> null_alts a"
| "null_alts (One s) \<longleftrightarrow> null_seq s"
| "null_alts (Or s a) \<longleftrightarrow> null_seq s \<or> null_alts a"
| "null_seq Empty \<longleftrightarrow> True"
| "null_seq (Seq a r s) \<longleftrightarrow> (null_atom a \<or> r = Star \<or> r = Opt) \<and> null_seq s"

primrec safe_atom :: "ratom \<Rightarrow> bool" and safe_alts :: "ralts \<Rightarrow> bool" and safe_seq :: "rseq \<Rightarrow> bool" where
  "safe_atom BOL \<longleftrightarrow> True"
| "safe_atom EOL \<longleftrightarrow> True"
| "safe_atom AnyChar \<longleftrightarrow> True"
| "safe_atom (Class neg t) \<longleftrightarrow> True"
| "safe_atom (Chars w) \<longleftrightarrow> True"
| "safe_atom (Escape c) \<longleftrightarrow> True"
| "safe_atom (Group a) \<longleftrightarrow> safe_alts a"
| "safe_alts (One s) \<longleftrightarrow> safe_seq s"
| "safe_alts (Or s a) \<longleftrightarrow> safe_seq s \<and> safe_alts a"
| "safe_seq Empty \<longleftrightarrow> True"
| "safe_seq (Seq a r s) \<longleftrightarrow> safe_atom a \<and> (r = Star \<or> r = Plus \<longrightarrow> \<not> null_atom a) \<and> safe_seq s"

primrec dot_atom :: "ratom \<Rightarrow> bool" and dot_alts :: "ralts \<Rightarrow> bool" and dot_seq :: "rseq \<Rightarrow> bool" where
  "dot_atom BOL \<longleftrightarrow> False"
| "dot_atom EOL \<longleftrightarrow> False"
| "dot_atom AnyChar \<longleftrightarrow> True"
| "dot_atom (Class neg t) \<longleftrightarrow> False"
| "dot_atom (Chars w) \<longleftrightarrow> False"
| "dot_atom (Escape c) \<longleftrightarrow> False"
| "dot_atom (Group a) \<longleftrightarrow> dot_alts a"
| "dot_alts (One s) \<longleftrightarrow> dot_seq s"
| "dot_alts (Or s a) \<longleftrightarrow> dot_seq s \<or> dot_alts a"
| "dot_seq Empty \<longleftrightarrow> False"
| "dot_seq (Seq a r s) \<longleftrightarrow> dot_atom a \<or> dot_seq s"

section \<open>Matches move forward\<close>

text \<open>A match moves forward, at most one position behind the end, and there only by a dot.\<close>

definition forward :: "nat \<Rightarrow> bool \<Rightarrow> (nat \<times> nat) set \<Rightarrow> bool" where
  "forward n D R \<longleftrightarrow> (\<forall>(i, j) \<in> R. i \<le> j \<and> (i < j \<longrightarrow> j \<le> n + 1) \<and> (n < j \<longrightarrow> n < i \<or> D))"

lemma forwardI: "(\<And>i j. (i, j) \<in> R \<Longrightarrow> i \<le> j \<and> (i < j \<longrightarrow> j \<le> n + 1) \<and> (n < j \<longrightarrow> n < i \<or> D)) \<Longrightarrow> forward n D R"
  unfolding forward_def by blast

lemma forwardD: "forward n D R \<Longrightarrow> (i, j) \<in> R \<Longrightarrow> i \<le> j \<and> (i < j \<longrightarrow> j \<le> n + 1) \<and> (n < j \<longrightarrow> n < i \<or> D)"
  unfolding forward_def by blast

lemma forward_Id [simp]: "forward n D Id"
  by (rule forwardI) auto

lemma forward_Un: "forward n D (R \<union> S) \<longleftrightarrow> forward n D R \<and> forward n D S"
  unfolding forward_def by blast

lemma forward_comp: "forward n D R \<Longrightarrow> forward n D S \<Longrightarrow> forward n D (R O S)"
proof (rule forwardI, elim relcompEpair)
  fix i j k assume "forward n D R" "forward n D S" "(i, k) \<in> R" "(k, j) \<in> S"
  then show "i \<le> j \<and> (i < j \<longrightarrow> j \<le> n + 1) \<and> (n < j \<longrightarrow> n < i \<or> D)"
    using forwardD [of n D R i k] forwardD [of n D S k j] by (cases "k = j") auto
qed

lemma forward_star: "forward n D R \<Longrightarrow> forward n D (R\<^sup>*)"
proof (rule forwardI)
  fix i j assume f: "forward n D R" and "(i, j) \<in> R\<^sup>*"
  from this(2) show "i \<le> j \<and> (i < j \<longrightarrow> j \<le> n + 1) \<and> (n < j \<longrightarrow> n < i \<or> D)"
  proof (induction rule: rtrancl_induct)
    case (step k j)
    then show ?case using forwardD [OF f step(2)] by (cases "k = j") auto
  qed simp
qed

lemma forward_rep: "forward n D R \<Longrightarrow> forward n D (rep_rel r R)"
  by (cases r) (simp_all add: forward_star forward_comp forward_Un)

lemma forward_word: "forward (length str) D (word_rel str w)"
  by (rule forwardI) (auto simp: word_rel_def)

lemma forward_all:
  "dot_atom a \<longrightarrow> D \<Longrightarrow> forward (length str) D (m_atom str a)"
  "dot_alts b \<longrightarrow> D \<Longrightarrow> forward (length str) D (m_alts str b)"
  "dot_seq s \<longrightarrow> D \<Longrightarrow> forward (length str) D (m_seq str s)"
proof (induction a and b and s rule: ratom.induct ralts.induct rseq.induct)
  case AnyChar
  then show ?case by (intro forwardI) auto
next
  case (Class neg t)
  then show ?case by (intro forwardI) auto
qed (simp_all add: forward_word forward_Un forward_rep forward_comp, simp_all add: forward_def)

text \<open>Without \<open>null\<close> it moves.\<close>

lemma rep_rel_eq: "(i, i) \<in> rep_rel r R \<Longrightarrow> r = Once \<or> r = Plus \<Longrightarrow> forward n D R \<Longrightarrow> (i, i) \<in> R"
proof -
  assume r: "(i, i) \<in> rep_rel r R" "r = Once \<or> r = Plus" and f: "forward n D R"
  show "(i, i) \<in> R"
  proof (cases "r = Once")
    case False
    with r obtain k where k: "(i, k) \<in> R" "(k, i) \<in> R\<^sup>*" by auto
    then have "k = i" using forwardD [OF f k(1)] forwardD [OF forward_star [OF f] k(2)] by simp
    with k(1) show ?thesis by simp
  qed (use r in simp)
qed

lemma null_all: "(i, i) \<in> m_atom str a \<Longrightarrow> null_atom a" "(i, i) \<in> m_alts str b \<Longrightarrow> null_alts b" "(i, i) \<in> m_seq str s \<Longrightarrow> null_seq s"
proof (induction a and b and s arbitrary: i and i and i rule: ratom.induct ralts.induct rseq.induct)
  case (Seq a r s)
  from Seq.prems obtain k where k: "(i, k) \<in> rep_rel r (m_atom str a)" "(k, i) \<in> m_seq str s" by auto
  note f = forward_all(1) [of a True str, simplified] forward_all(3) [of s True str, simplified]
  have "k = i" using forwardD [OF forward_rep [OF f(1)] k(1)] forwardD [OF f(2) k(2)] by simp
  with k have k: "(i, i) \<in> rep_rel r (m_atom str a)" "(i, i) \<in> m_seq str s" by simp_all
  have "null_atom a \<or> r = Star \<or> r = Opt"
    using rep_rel_eq [OF k(1) _ f(1)] Seq.IH(1) by (cases r) simp_all
  then show ?case using Seq.IH(2) [OF k(2)] by simp
qed (auto simp: word_rel_def)

section \<open>Results of the matcher\<close>

text \<open>
  \<open>good n D R i c K\<close>: the result \<open>c\<close> of a match at \<open>i\<close> that goes on with \<open>K\<close> at the end of a match of \<open>R\<close>.
\<close>

definition fine :: "Code option \<Rightarrow> bool" where
  "fine c \<longleftrightarrow> c = Some kOk \<or> c = Some kRegNotMatch \<or> c = Some kInvalidRange"

definition good :: "nat \<Rightarrow> bool \<Rightarrow> (nat \<times> nat) set \<Rightarrow> nat \<Rightarrow> Code option \<Rightarrow> (nat \<Rightarrow> Code option) \<Rightarrow> bool" where
  "good n D R i c K \<longleftrightarrow> ((\<forall>j. (i, j) \<in> R \<longrightarrow> fine (K j)) \<longrightarrow> fine c \<and>
     (c = Some kOk \<longrightarrow> (\<exists>j. (i, j) \<in> R \<and> K j = Some kOk)) \<and>
     (c = Some kRegNotMatch \<longrightarrow> (\<forall>j. (i, j) \<in> R \<longrightarrow> K j = Some kRegNotMatch)) \<and>
     (c = Some kInvalidRange \<longrightarrow> n < i \<or> D \<or> (\<exists>j. (i, j) \<in> R \<and> K j = Some kInvalidRange)))"

definition orelse :: "Code option \<Rightarrow> Code option \<Rightarrow> Code option" where
  "orelse c c' = do { ret \<leftarrow> c; if ret \<noteq> kRegNotMatch then Some ret else c' }"

lemma good_Id: "good n D Id i (K i) K"
  by (simp add: good_def)

lemma good_step: "(\<And>k. (i, k) \<in> R \<longleftrightarrow> k = j) \<Longrightarrow> good n D R i (K j) K"
  by (simp add: good_def)

lemma good_fail: "(\<And>k. (i, k) \<notin> R) \<Longrightarrow> good n D R i (Some kRegNotMatch) K"
  by (simp add: good_def fine_def)

lemma good_error: "n < i \<Longrightarrow> (\<And>k. (i, k) \<notin> R) \<Longrightarrow> good n D R i (Some kInvalidRange) K"
  by (simp add: good_def fine_def)

lemma good_comp:
  assumes f: "forward n D R" and c: "good n D R i c K1" and K: "\<And>k. (i, k) \<in> R \<Longrightarrow> good n D S k (K1 k) K"
  shows "good n D (R O S) i c K"
  unfolding good_def
proof (intro impI)
  assume K': "\<forall>j. (i, j) \<in> R O S \<longrightarrow> fine (K j)"
  then have k: "fine (K1 k) \<and> (K1 k = Some kOk \<longrightarrow> (\<exists>j. (k, j) \<in> S \<and> K j = Some kOk)) \<and>
     (K1 k = Some kRegNotMatch \<longrightarrow> (\<forall>j. (k, j) \<in> S \<longrightarrow> K j = Some kRegNotMatch)) \<and>
     (K1 k = Some kInvalidRange \<longrightarrow> n < k \<or> D \<or> (\<exists>j. (k, j) \<in> S \<and> K j = Some kInvalidRange))" if h: "(i, k) \<in> R" for k
    using K [OF h] h unfolding good_def by blast
  then have c': "fine c \<and>
     (c = Some kOk \<longrightarrow> (\<exists>j. (i, j) \<in> R \<and> K1 j = Some kOk)) \<and>
     (c = Some kRegNotMatch \<longrightarrow> (\<forall>j. (i, j) \<in> R \<longrightarrow> K1 j = Some kRegNotMatch)) \<and>
     (c = Some kInvalidRange \<longrightarrow> n < i \<or> D \<or> (\<exists>j. (i, j) \<in> R \<and> K1 j = Some kInvalidRange))"
    using c unfolding good_def by blast
  then show "fine c \<and> (c = Some kOk \<longrightarrow> (\<exists>j. (i, j) \<in> R O S \<and> K j = Some kOk)) \<and>
     (c = Some kRegNotMatch \<longrightarrow> (\<forall>j. (i, j) \<in> R O S \<longrightarrow> K j = Some kRegNotMatch)) \<and>
     (c = Some kInvalidRange \<longrightarrow> n < i \<or> D \<or> (\<exists>j. (i, j) \<in> R O S \<and> K j = Some kInvalidRange))"
  proof (intro conjI impI)
    assume a: "c = Some kOk"
    then show "\<exists>j. (i, j) \<in> R O S \<and> K j = Some kOk" using c' k by (meson relcomp.intros)
  next
    assume a: "c = Some kRegNotMatch"
    show "\<forall>j. (i, j) \<in> R O S \<longrightarrow> K j = Some kRegNotMatch" using c' a k by (meson relcompEpair)
  next
    assume a: "c = Some kInvalidRange"
    with c' have "n < i \<or> D \<or> (\<exists>j. (i, j) \<in> R \<and> K1 j = Some kInvalidRange)" by blast
    then show "n < i \<or> D \<or> (\<exists>j. (i, j) \<in> R O S \<and> K j = Some kInvalidRange)"
    proof (elim disjE exE conjE)
      fix k assume h: "(i, k) \<in> R" "K1 k = Some kInvalidRange"
      then have "n < k \<or> D \<or> (\<exists>j. (k, j) \<in> S \<and> K j = Some kInvalidRange)" using k by blast
      then show ?thesis using forwardD [OF f h(1)] h(1) by (meson relcomp.intros)
    qed blast+
  qed (use c' in blast)
qed

lemma good_orelse:
  assumes c: "good n D R i c K" "good n D S i c' K"
  shows "good n D (R \<union> S) i (orelse c c') K"
  unfolding good_def
proof (intro impI)
  assume "\<forall>j. (i, j) \<in> R \<union> S \<longrightarrow> fine (K j)"
  then have a: "\<forall>j. (i, j) \<in> R \<longrightarrow> fine (K j)" "\<forall>j. (i, j) \<in> S \<longrightarrow> fine (K j)" by blast+
  from c(1) a(1) have g: "fine c" "c = Some kOk \<Longrightarrow> \<exists>j. (i, j) \<in> R \<and> K j = Some kOk"
    "c = Some kRegNotMatch \<Longrightarrow> \<forall>j. (i, j) \<in> R \<longrightarrow> K j = Some kRegNotMatch"
    "c = Some kInvalidRange \<Longrightarrow> n < i \<or> D \<or> (\<exists>j. (i, j) \<in> R \<and> K j = Some kInvalidRange)" unfolding good_def by blast+
  from c(2) a(2) have g': "fine c'" "c' = Some kOk \<Longrightarrow> \<exists>j. (i, j) \<in> S \<and> K j = Some kOk"
    "c' = Some kRegNotMatch \<Longrightarrow> \<forall>j. (i, j) \<in> S \<longrightarrow> K j = Some kRegNotMatch"
    "c' = Some kInvalidRange \<Longrightarrow> n < i \<or> D \<or> (\<exists>j. (i, j) \<in> S \<and> K j = Some kInvalidRange)" unfolding good_def by blast+
  show "fine (orelse c c') \<and> (orelse c c' = Some kOk \<longrightarrow> (\<exists>j. (i, j) \<in> R \<union> S \<and> K j = Some kOk)) \<and>
     (orelse c c' = Some kRegNotMatch \<longrightarrow> (\<forall>j. (i, j) \<in> R \<union> S \<longrightarrow> K j = Some kRegNotMatch)) \<and>
     (orelse c c' = Some kInvalidRange \<longrightarrow> n < i \<or> D \<or> (\<exists>j. (i, j) \<in> R \<union> S \<and> K j = Some kInvalidRange))"
  proof (cases "c = Some kRegNotMatch")
    case True
    then have e: "orelse c c' = c'" by (simp add: orelse_def)
    have n: "\<forall>j. (i, j) \<in> R \<union> S \<longrightarrow> K j = Some kRegNotMatch" if "c' = Some kRegNotMatch"
      using g(3) [OF True] g'(3) [OF that] by blast
    have k: "\<exists>j. (i, j) \<in> R \<union> S \<and> K j = Some kOk" if "c' = Some kOk" using g'(2) [OF that] by blast
    have r: "n < i \<or> D \<or> (\<exists>j. (i, j) \<in> R \<union> S \<and> K j = Some kInvalidRange)" if "c' = Some kInvalidRange"
      using g'(4) [OF that] by blast
    show ?thesis unfolding e by (intro conjI impI g'(1)) (erule k n r)+
  next
    case False
    then have e: "orelse c c' = c" using g(1) by (auto simp: orelse_def fine_def)
    have k: "\<exists>j. (i, j) \<in> R \<union> S \<and> K j = Some kOk" if "c = Some kOk" using g(2) [OF that] by blast
    have r: "n < i \<or> D \<or> (\<exists>j. (i, j) \<in> R \<union> S \<and> K j = Some kInvalidRange)" if "c = Some kInvalidRange"
      using g(4) [OF that] by blast
    show ?thesis unfolding e by (intro conjI impI g(1)) (erule k r notE [OF False])+
  qed
qed

lemma good_eq: "good n D R i c K \<Longrightarrow> R = S \<Longrightarrow> good n D S i c K"
  by simp

text \<open>Loops, on the distance to the end.\<close>

lemma good_star:
  assumes f: "forward n D R" "\<And>i. (i, i) \<notin> R"
    and M: "\<And>i. M i = orelse (A i) (K i)" and A: "\<And>i. good n D R i (A i) M"
  shows "good n D (R\<^sup>*) i (M i) K"
proof (induction "n + 2 - i" arbitrary: i rule: less_induct)
  case less
  have "good n D (R O R\<^sup>*) i (A i) K"
  proof (rule good_comp [OF f(1) A])
    fix k assume k: "(i, k) \<in> R"
    then have "k \<noteq> i" using f(2) by blast
    then have "i < k" "k \<le> n + 1" using forwardD [OF f(1) k] by simp_all
    then show "good n D (R\<^sup>*) k (M k) K" using less by simp
  qed
  from good_orelse [OF this good_Id [of n D i K]] show ?case
    unfolding M [of i] by (rule good_eq) (unfold r_comp_rtrancl_eq, subst Un_commute, rule rtrancl_unfold [symmetric])
qed

lemma good_plus:
  assumes f: "forward n D R" "\<And>i. (i, i) \<notin> R"
    and B: "\<And>i. B i = orelse (M i) (K i)" and M: "\<And>i. good n D R i (M i) B"
  shows "good n D (R O R\<^sup>*) i (M i) K"
  by (rule good_comp [OF f(1) M]) (rule good_star [OF f B M])

end
