(* ===== verification/Reg_Correct.thy ===== *)
theory Reg_Correct
  imports Reg_Match
begin

text \<open>
  \<open>Match\<close> on compiled code: from the nodes to the whole automaton, and what \<open>Init\<close> and \<open>Check\<close> promise together.
\<close>

section \<open>Single nodes\<close>

lemma op_neq [simp]:
  "kBranch \<noteq> kParenStart" "kBranch \<noteq> kParenEnd" "kParenStart \<noteq> kBranch" "kParenEnd \<noteq> kBranch" "kEnd \<noteq> kBranch" "kNothing \<noteq> kBranch"
  "kEnd \<noteq> kParenStart" "kEnd \<noteq> kParenEnd" "kBranch \<noteq> kEnd"
  by (simp_all add: opcodes)

definition inner_op :: "byte \<Rightarrow> bool" where
  "inner_op opc \<longleftrightarrow> opc \<noteq> kParenStart \<and> opc \<noteq> kParenEnd \<and> opc \<noteq> kBranch \<and> opc \<noteq> kEnd"

lemma inner_op_simps [simp]:
  "inner_op kBOL" "inner_op kEOL" "inner_op kAny" "inner_op kAnyOf" "inner_op kAnyExcept" "inner_op kPrecise" "inner_op kNothing" "inner_op kBack"
  by (simp_all add: inner_op_def opcodes)

lemma Match_paren:
  assumes "reg_opcode nfa p = kParenStart \<or> reg_opcode nfa p = kParenEnd" "GetNextNodePos p nfa = Inr q" "3 \<le> q"
  shows "RegExp_Match str nfa False i p = RegExp_Match str nfa False i q"
  using assms by (simp add: RegExp_Match.simps [of str nfa False i p] kStartValidPos_def)

lemma Match_branch:
  assumes "reg_opcode nfa p = kBranch" "GetNextNodePos p nfa = Inr q" "3 \<le> p"
  shows "RegExp_Match str nfa False i p =
    (if reg_opcode nfa q = kBranch then RegExp_Match str nfa True i p else RegExp_Match str nfa False i (p + 3))"
  using assms by (simp add: RegExp_Match.simps [of str nfa False i p] GetOperandPos_def kStartValidPos_def)

lemma Match_alt:
  assumes "3 \<le> p" "GetNextNodePos p nfa = Inr cur" "3 \<le> cur" "GetNextNodePos cur nfa = Inr nxt"
  shows "RegExp_Match str nfa True i p = orelse (RegExp_Match str nfa False i (p + 3))
    (if reg_opcode nfa nxt = kBranch then RegExp_Match str nfa True i cur else RegExp_Match str nfa False i (cur + 3))"
  using assms by (simp add: RegExp_Match.simps [of str nfa True i p] GetOperandPos_def kStartValidPos_def orelse_def cong: if_cong)

lemma Match_inner:
  assumes "inner_op (reg_opcode nfa p)" "GetNextNodePos p nfa = Inr q"
  shows "RegExp_Match str nfa False i p =
    (case simple_step str i p nfa of Inl e \<Rightarrow> Some e | Inr j \<Rightarrow> RegExp_Match str nfa False j q)"
  using assms by (simp add: RegExp_Match.simps [of str nfa False i p] inner_op_def cong: sum.case_cong)

lemma Match_end: "reg_opcode nfa p = kEnd \<Longrightarrow> GetNextNodePos p nfa = Inl kNoNextNode \<Longrightarrow> RegExp_Match str nfa False i p = Some kOk"
  by (simp add: RegExp_Match.simps [of str nfa False i p])

text \<open>Nodes of code that are linked to a node of the automaton.\<close>

definition joined :: "bytes \<Rightarrow> nat \<Rightarrow> nat \<Rightarrow> bool" where
  "joined nfa p d \<longleftrightarrow> 3 \<le> p \<and> 0 < d \<and> d < 65536 \<and> p + d < length nfa"

lemma next_joined: "code_at nfa p (reg_node opc d) \<Longrightarrow> opc \<noteq> kBack \<Longrightarrow> joined nfa p d \<Longrightarrow> GetNextNodePos p nfa = Inr (p + d)"
  using next_node [of nfa p opc d] by (simp add: joined_def)

lemma opcode_at: "code_at nfa p (reg_node opc d) \<Longrightarrow> d < 65536 \<Longrightarrow> reg_opcode nfa p = opc"
  by (rule code_at_node)

lemma Match_Nothing:
  assumes "code_at nfa p (reg_node kNothing d)" "joined nfa p d"
  shows "RegExp_Match str nfa False i p = RegExp_Match str nfa False i (p + d)"
proof -
  have o: "reg_opcode nfa p = kNothing" using assms opcode_at by (simp add: joined_def)
  then have "simple_step str i p nfa = Inr i" by (simp add: simple_step_def opcodes)
  with Match_inner [OF _ next_joined [OF assms(1) _ assms(2)], of str i] show ?thesis by (simp add: o)
qed

lemma Match_Back:
  assumes "code_at nfa p (reg_node kBack d)" "0 < d" "d < 65536" "d \<le> p"
  shows "RegExp_Match str nfa False i p = RegExp_Match str nfa False i (p - d)"
proof -
  have o: "reg_opcode nfa p = kBack" using assms opcode_at by simp
  then have "simple_step str i p nfa = Inr i" by (simp add: simple_step_def opcodes)
  with Match_inner [OF _ next_back [OF assms], of str i] show ?thesis by (simp add: o)
qed

text \<open>Two branches, the second one with a node that is not a branch behind it.\<close>

lemma Match_two:
  assumes "code_at nfa p (reg_node kBranch d)" "joined nfa p d" "code_at nfa (p + d) (reg_node kBranch 3)" "joined nfa (p + d) 3"
    "code_at nfa (p + d + 3) (reg_node kNothing d')" "d' < 65536"
  shows "RegExp_Match str nfa False i p = orelse (RegExp_Match str nfa False i (p + 3)) (RegExp_Match str nfa False i (p + d + 3))"
proof -
  have o: "reg_opcode nfa p = kBranch" "reg_opcode nfa (p + d) = kBranch" "reg_opcode nfa (p + d + 3) = kNothing" "3 \<le> p"
    using assms opcode_at by (simp_all add: joined_def)
  note n = next_joined [OF assms(1) _ assms(2)] next_joined [OF assms(3) _ assms(4)]
  show ?thesis using Match_branch [OF o(1) n(1) o(4), of str i] Match_alt [OF o(4) n(1) _ n(2), of str i] o by simp
qed

section \<open>Atoms\<close>

lemma code_str:
  "code_at nfa p (w @ [0]) \<Longrightarrow> operand_str p nfa = takeWhile (\<lambda>c. c \<noteq> 0) w"
proof -
  assume "code_at nfa p (w @ [0])"
  then have "take (length w + 1) (drop p nfa) = w @ [0]" by (simp add: code_at_def)
  then obtain t where "drop p nfa = (w @ [0]) @ t" by (metis append_take_drop_id)
  then show ?thesis by (auto simp: operand_str_def takeWhile_append intro: sym [OF takeWhile_eq_all_conv [THEN iffD2]])
qed

abbreviation follow :: "bytes \<Rightarrow> bytes \<Rightarrow> nat \<Rightarrow> nat \<Rightarrow> Code option" where
  "follow str nfa q \<equiv> (\<lambda>j. RegExp_Match str nfa False j q)"

lemma good_inner:
  assumes s: "simple_step str i p nfa = (if P i then Inr (f i) else if Q i then Inl kInvalidRange else Inl kRegNotMatch)"
    and c: "code_at nfa p (reg_node opc d)" "inner_op opc" "opc \<noteq> kBack" "joined nfa p d"
    and Q: "Q i \<Longrightarrow> length str < i" and R: "R = {(i, j). P i \<and> j = f i}"
  shows "good (length str) D R i (RegExp_Match str nfa False i p) (follow str nfa (p + d))"
proof -
  have "reg_opcode nfa p = opc" using c opcode_at by (simp add: joined_def)
  with Match_inner [OF _ next_joined [OF c(1,3,4)], of str i] c(2)
  have m: "RegExp_Match str nfa False i p = (case simple_step str i p nfa of Inl e \<Rightarrow> Some e | Inr j \<Rightarrow> RegExp_Match str nfa False j (p + d))"
    by simp
  show ?thesis
  proof (cases "P i")
    case True
    with m s have "RegExp_Match str nfa False i p = follow str nfa (p + d) (f i)" by simp
    then show ?thesis using good_step [of i R "f i" "length str" D "follow str nfa (p + d)"] True by (simp add: R)
  next
    case False
    then have "RegExp_Match str nfa False i p = Some kRegNotMatch \<or> length str < i \<and> RegExp_Match str nfa False i p = Some kInvalidRange"
      using m s Q by auto
    then show ?thesis using False good_fail [of i R] good_error [of "length str" i R] by (auto simp: R)
  qed
qed

lemma good_word:
  assumes c: "code_at nfa p (reg_node kPrecise d @ w @ [0])" "joined nfa p d" and w: "w \<noteq> []" "0 \<notin> set w"
  shows "good (length str) D (word_rel str w) i (RegExp_Match str nfa False i p) (follow str nfa (p + d))"
proof -
  have c': "code_at nfa p (reg_node kPrecise d)" "code_at nfa (p + 3) (w @ [0])" using c(1) by (simp_all add: code_at_append)
  have o: "operand_str (p + 3) nfa = w" "p + 3 \<le> length nfa" using code_str [OF c'(2)] w(2) c'(2)
    by (auto simp: takeWhile_eq_all_conv code_at_def)
  have p: "reg_opcode nfa p = kPrecise" "3 \<le> p" using c' c(2) opcode_at by (simp_all add: joined_def)
  have l: "0 < length w" using w(1) by simp
  have "simple_step str i p nfa = (if i + length w \<le> length str \<and> take (length w) (drop i str) = w then Inr (i + length w)
      else if length str < i then Inl kInvalidRange else Inl kRegNotMatch)"
    using o p l by (auto simp: simple_step_def opcodes GetOperandPos_def kStartValidPos_def Let_def)
  then show ?thesis
    by (rule good_inner [OF _ c'(1) _ _ c(2), where P = "\<lambda>i. i + length w \<le> length str \<and> take (length w) (drop i str) = w"
        and f = "\<lambda>i. i + length w" and Q = "\<lambda>i. length str < i"]) (auto simp: word_rel_def)
qed

lemma good_class:
  assumes c: "code_at nfa p (reg_node (if neg then kAnyExcept else kAnyOf) d @ class_chars t @ [0])" "joined nfa p d"
  shows "good (length str) D (m_atom str (Class neg t)) i (RegExp_Match str nfa False i p) (follow str nfa (p + d))"
proof -
  let ?o = "if neg then kAnyExcept else kAnyOf"
  have c': "code_at nfa p (reg_node ?o d)" "code_at nfa (p + 3) (class_chars t @ [0])" using c(1) by (simp_all add: code_at_append)
  have o: "operand_str (p + 3) nfa = takeWhile (\<lambda>c. c \<noteq> 0) (class_chars t)" "p + 3 \<le> length nfa"
    using code_str [OF c'(2)] c'(2) by (simp_all add: code_at_def)
  then have i: "in_class ch (p + 3) nfa = class_has t ch" for ch by (simp add: in_class_def class_has_def)
  have p: "reg_opcode nfa p = ?o" "3 \<le> p" using opcode_at [OF c'(1)] c(2) by (simp_all add: joined_def)
  have "simple_step str i p nfa = (if i < length str \<and> class_has t (str ! i) \<noteq> neg then Inr (i + 1)
      else if length str < i then Inl kInvalidRange else Inl kRegNotMatch)"
    using o(2) p by (auto simp: simple_step_def opcodes GetOperandPos_def kStartValidPos_def Let_def i)
  then show ?thesis
    by (rule good_inner [OF _ c'(1) _ _ c(2), where P = "\<lambda>i. i < length str \<and> class_has t (str ! i) \<noteq> neg"
        and f = "\<lambda>i. i + 1" and Q = "\<lambda>i. length str < i"]) auto
qed

lemma good_BOL:
  assumes c: "code_at nfa p (reg_node kBOL d)" "joined nfa p d"
  shows "good (length str) D (m_atom str BOL) i (RegExp_Match str nfa False i p) (follow str nfa (p + d))"
proof -
  have "simple_step str i p nfa = (if i = 0 then Inr i else if False then Inl kInvalidRange else Inl kRegNotMatch)"
    using opcode_at [OF c(1)] c(2) by (simp add: simple_step_def opcodes joined_def)
  then show ?thesis
    by (rule good_inner [OF _ c(1) _ _ c(2), where P = "\<lambda>i. i = 0" and f = "\<lambda>i. i" and Q = "\<lambda>_. False"]) auto
qed

lemma good_EOL:
  assumes c: "code_at nfa p (reg_node kEOL d)" "joined nfa p d"
  shows "good (length str) D (m_atom str EOL) i (RegExp_Match str nfa False i p) (follow str nfa (p + d))"
proof -
  have "simple_step str i p nfa = (if i = length str then Inr i else if False then Inl kInvalidRange else Inl kRegNotMatch)"
    using opcode_at [OF c(1)] c(2) by (simp add: simple_step_def opcodes joined_def)
  then show ?thesis
    by (rule good_inner [OF _ c(1) _ _ c(2), where P = "\<lambda>i. i = length str" and f = "\<lambda>i. i" and Q = "\<lambda>_. False"]) auto
qed

lemma good_Any:
  assumes c: "code_at nfa p (reg_node kAny d)" "joined nfa p d"
  shows "good (length str) D (m_atom str AnyChar) i (RegExp_Match str nfa False i p) (follow str nfa (p + d))"
proof -
  have "simple_step str i p nfa = (if i \<le> length str then Inr (i + 1) else if False then Inl kInvalidRange else Inl kRegNotMatch)"
    using opcode_at [OF c(1)] c(2) by (simp add: simple_step_def opcodes joined_def)
  then show ?thesis
    by (rule good_inner [OF _ c(1) _ _ c(2), where P = "\<lambda>i. i \<le> length str" and f = "\<lambda>i. i + 1" and Q = "\<lambda>_. False"]) auto
qed

section \<open>Trees\<close>

text \<open>\<open>sound e t R\<close>: code with its last link at \<open>t\<close> matches \<open>R\<close>, wherever it stands and whatever follows.\<close>

definition sound :: "bytes \<Rightarrow> bool \<Rightarrow> (nat \<Rightarrow> bytes) \<Rightarrow> nat \<Rightarrow> (nat \<times> nat) set \<Rightarrow> bool" where
  "sound str D e t R \<longleftrightarrow> (\<forall>nfa p d i. length nfa < 65536 \<longrightarrow> code_at nfa p (e d) \<longrightarrow> 3 \<le> p \<longrightarrow> joined nfa (p + t) d \<longrightarrow>
     good (length str) D R i (RegExp_Match str nfa False i p) (follow str nfa (p + t + d)))"

lemma soundI:
  "(\<And>nfa p d i. length nfa < 65536 \<Longrightarrow> code_at nfa p (e d) \<Longrightarrow> 3 \<le> p \<Longrightarrow> joined nfa (p + t) d \<Longrightarrow>
     good (length str) D R i (RegExp_Match str nfa False i p) (follow str nfa (p + t + d))) \<Longrightarrow> sound str D e t R"
  unfolding sound_def by blast

lemma soundD:
  "sound str D e t R \<Longrightarrow> length nfa < 65536 \<Longrightarrow> code_at nfa p (e d) \<Longrightarrow> 3 \<le> p \<Longrightarrow> joined nfa (p + t) d \<Longrightarrow> q = p + t + d \<Longrightarrow>
     good (length str) D R i (RegExp_Match str nfa False i p) (follow str nfa q)"
  unfolding sound_def by blast

lemma good_follow: "good n D R i c K \<Longrightarrow> (\<And>j. K j = K' j) \<Longrightarrow> good n D R i c K'"
  by (simp add: good_def)

lemma sound_rep:
  assumes e: "sound str D e t R" "\<And>d. length (e d) = l" "t + 3 \<le> l"
    and f: "forward (length str) D R" "r = Star \<or> r = Plus \<Longrightarrow> \<forall>i. (i, i) \<notin> R"
  shows "sound str D (emit_rep r l t e) (rep_tail r l t) (rep_rel r R)"
proof (rule soundI)
  fix nfa p d i
  assume n: "length nfa < 65536" "3 \<le> p" and c: "code_at nfa p (emit_rep r l t e d)" and j: "joined nfa (p + rep_tail r l t) d"
  let ?M = "\<lambda>p i. RegExp_Match str nfa False i p" and ?q = "p + rep_tail r l t + d"
  show "good (length str) D (rep_rel r R) i (?M p i) (?M ?q)"
  proof (cases r)
    case Once
    then show ?thesis using soundD [OF e(1) n(1) _ n(2), of d] c j by simp
  next
    case Star
    then have c: "code_at nfa p (reg_node kBranch (l + 6))" "code_at nfa (p + 3) (e (l - t))" "code_at nfa (p + l + 3) (reg_node kBack (l + 3))"
      "code_at nfa (p + (l + 6)) (reg_node kBranch 3)" "code_at nfa (p + (l + 6) + 3) (reg_node kNothing d)"
      using c e(2) by (simp_all add: code_at_append algebra_simps)
    have j: "joined nfa p (l + 6)" "joined nfa (p + (l + 6)) 3" "joined nfa (p + 3 + t) (l - t)" "joined nfa (p + (l + 6) + 3) d"
      using j n e(3) Star by (auto simp: joined_def)
    have M: "?M p i = orelse (?M (p + 3) i) (?M ?q i)" for i
      using Match_two [OF c(1) j(1) c(4) j(2) c(5), of str i] Match_Nothing [OF c(5) j(4), of str i] j(4) Star
      by (simp add: joined_def algebra_simps)
    have B: "?M (p + l + 3) i = ?M p i" for i using Match_Back [OF c(3), of str i] j n by (simp add: joined_def)
    have A: "good (length str) D R i (?M (p + 3) i) (?M p)" for i
      by (rule good_follow [OF soundD [OF e(1) n(1) c(2) _ j(3), of "p + l + 3"] B]) (use e(3) in simp_all)
    show ?thesis using good_star [OF f(1) _ M A] f(2) Star by simp
  next
    case Plus
    then have c: "code_at nfa p (e (l - t))" "code_at nfa (p + l) (reg_node kBranch 6)" "code_at nfa (p + l + 3) (reg_node kBack (l + 3))"
      "code_at nfa (p + l + 6) (reg_node kBranch 3)" "code_at nfa (p + l + 6 + 3) (reg_node kNothing d)"
      using c e(2) by (simp_all add: code_at_append algebra_simps)
    have j: "joined nfa (p + l) 6" "joined nfa (p + l + 6) 3" "joined nfa (p + t) (l - t)" "joined nfa (p + l + 6 + 3) d"
      using j n e(3) Plus by (auto simp: joined_def)
    have M: "?M (p + l) i = orelse (?M p i) (?M ?q i)" for i
      using Match_two [OF c(2) j(1) c(4) j(2) c(5), of str i] Match_Nothing [OF c(5) j(4), of str i] j(1,4) Plus
        Match_Back [OF c(3), of str i] n by (simp add: joined_def algebra_simps)
    have A: "good (length str) D R i (?M p i) (?M (p + l))" for i
      by (rule soundD [OF e(1) n(1) c(1) n(2) j(3)]) (use e(3) in simp)
    show ?thesis using good_plus [OF f(1) _ M A] f(2) Plus by simp
  next
    case Opt
    then have c: "code_at nfa p (reg_node kBranch (l + 3))" "code_at nfa (p + 3) (e (l + 3 - t))" 
      "code_at nfa (p + (l + 3)) (reg_node kBranch 3)" "code_at nfa (p + (l + 3) + 3) (reg_node kNothing d)"
      using c e(2) by (simp_all add: code_at_append algebra_simps)
    have j: "joined nfa p (l + 3)" "joined nfa (p + (l + 3)) 3" "joined nfa (p + 3 + t) (l + 3 - t)" "joined nfa (p + (l + 3) + 3) d"
      using j n e(3) Opt by (auto simp: joined_def)
    have N: "?M (p + (l + 3) + 3) i = ?M ?q i" for i
      using Match_Nothing [OF c(4) j(4), of str i] Opt by (simp add: algebra_simps)
    have M: "?M p i = orelse (?M (p + 3) i) (?M ?q i)" for i
      using Match_two [OF c(1) j(1) c(3) j(2) c(4), of str i] j(4) N by (simp add: joined_def)
    have A: "good (length str) D R i (?M (p + 3) i) (?M ?q)"
      by (rule good_follow [OF soundD [OF e(1) n(1) c(2) _ j(3) refl]]) (use e(3) N in \<open>simp_all add: algebra_simps\<close>)
    show ?thesis using good_orelse [OF A good_Id [of "length str" D i "?M ?q"]] Opt by (simp add: M [of i])
  qed
qed

text \<open>The loop over alternatives.\<close>

definition alts_run :: "bytes \<Rightarrow> bytes \<Rightarrow> ralts \<Rightarrow> nat \<Rightarrow> nat \<Rightarrow> Code option" where
  "alts_run str nfa a i p = RegExp_Match str nfa (case a of One s \<Rightarrow> False | Or s b \<Rightarrow> True) i (case a of One s \<Rightarrow> p + 3 | Or s b \<Rightarrow> p)"

lemma first_branch:
  assumes "code_at nfa p (emit_alts a)"
  obtains d where "code_at nfa p (reg_node kBranch d)" "3 \<le> d" "d \<le> len_alts a" "case a of One s \<Rightarrow> d = len_alts a | Or s b \<Rightarrow> d + len_alts b = len_alts a"
  using assms that by (cases a) (auto simp: code_at_append)

definition alts_at :: "bytes \<Rightarrow> nat \<Rightarrow> ralts \<Rightarrow> bool" where
  "alts_at nfa p a \<longleftrightarrow> length nfa < 65536 \<and> code_at nfa p (emit_alts a) \<and> 3 \<le> p \<and> p + len_alts a < length nfa \<and>
     reg_opcode nfa (p + len_alts a) \<noteq> kBranch"

lemma alts_at_Or: "alts_at nfa p (Or s b) \<Longrightarrow> alts_at nfa (p + (3 + len_seq s)) b"
  by (simp add: alts_at_def code_at_append algebra_simps)

lemma alts_at_first: "alts_at nfa p a \<Longrightarrow> reg_opcode nfa p = kBranch \<and>
    GetNextNodePos p nfa = Inr (case a of One s \<Rightarrow> p + len_alts a | Or s b \<Rightarrow> p + (3 + len_seq s))"
proof -
  assume a: "alts_at nfa p a"
  then obtain d where d: "code_at nfa p (reg_node kBranch d)" "3 \<le> d" "d \<le> len_alts a"
    "case a of One s \<Rightarrow> d = len_alts a | Or s b \<Rightarrow> d + len_alts b = len_alts a" using first_branch unfolding alts_at_def by blast
  have j: "joined nfa p d" using a d by (simp add: alts_at_def joined_def)
  have "p + d = (case a of One s \<Rightarrow> p + len_alts a | Or s b \<Rightarrow> p + (3 + len_seq s))" using d(4) by (cases a) simp_all
  then show ?thesis using next_joined [OF d(1) _ j] opcode_at [OF d(1)] j by (simp add: joined_def)
qed

lemma Match_alts: "alts_at nfa p a \<Longrightarrow> RegExp_Match str nfa False i p = alts_run str nfa a i p"
proof -
  assume a: "alts_at nfa p a"
  then have p: "3 \<le> p" by (simp add: alts_at_def)
  show ?thesis
  proof (cases a)
    case (One s)
    then show ?thesis using alts_at_first [OF a] a Match_branch [of nfa p _ str i] p by (simp add: alts_run_def alts_at_def)
  next
    case (Or s b)
    then show ?thesis using alts_at_first [OF a] alts_at_first [of nfa "p + (3 + len_seq s)" b] alts_at_Or [of nfa p s b] a
      Match_branch [of nfa p _ str i] p by (simp add: alts_run_def)
  qed
qed

lemma alts_run_Or:
  assumes a: "alts_at nfa p (Or s b)"
  shows "alts_run str nfa (Or s b) i p = orelse (RegExp_Match str nfa False i (p + 3)) (alts_run str nfa b i (p + (3 + len_seq s)))"
proof -
  let ?c = "p + (3 + len_seq s)"
  have p: "3 \<le> p" using a by (simp add: alts_at_def)
  note b = alts_at_Or [OF a] and f = alts_at_first [OF a] alts_at_first [OF alts_at_Or [OF a]]
  show ?thesis
  proof (cases b)
    case (One t)
    then have "reg_opcode nfa (?c + len_alts b) \<noteq> kBranch" using b by (simp add: alts_at_def)
    then show ?thesis using f One Match_alt [OF p, of nfa ?c "?c + len_alts b" str i] by (simp add: alts_run_def)
  next
    case (Or t b')
    then have "reg_opcode nfa (?c + (3 + len_seq t)) = kBranch" using alts_at_first [OF alts_at_Or] b by blast
    then show ?thesis using f Or Match_alt [OF p, of nfa ?c "?c + (3 + len_seq t)" str i] by (simp add: alts_run_def)
  qed
qed

definition sound_alts :: "bytes \<Rightarrow> bool \<Rightarrow> ralts \<Rightarrow> bool" where
  "sound_alts str D a \<longleftrightarrow> (\<forall>nfa p i. alts_at nfa p a \<longrightarrow>
     good (length str) D (m_alts str a) i (RegExp_Match str nfa False i p) (follow str nfa (p + len_alts a)))"

lemma sound_seq_at:
  assumes s: "sound str D (emit_seq s) (tail_seq s) (m_seq str s)" and a: "code_at nfa (p + 3) (emit_seq s (len_seq s - tail_seq s + k))"
    and l: "length nfa < 65536" "p + 3 + len_seq s + k < length nfa"
  shows "good (length str) D (m_seq str s) i (RegExp_Match str nfa False i (p + 3)) (follow str nfa (p + 3 + len_seq s + k))"
  by (rule soundD [OF s l(1) a]) (use l tail_len_seq [of s] in \<open>auto simp: joined_def\<close>)

lemma sound_group: "sound_alts str D a \<Longrightarrow> sound str D (emit_atom (Group a)) (tail_atom (Group a)) (m_atom str (Group a))"
proof (rule soundI)
  fix nfa p d i
  assume s: "sound_alts str D a" and l: "length nfa < 65536" "3 \<le> p" and c: "code_at nfa p (emit_atom (Group a) d)"
    and j: "joined nfa (p + tail_atom (Group a)) d"
  let ?e = "p + 3 + len_alts a"
  have c: "code_at nfa p (reg_node kParenStart 3)" "code_at nfa (p + 3) (emit_alts a)" "code_at nfa ?e (reg_node kParenEnd d)"
    using c by (simp_all add: code_at_append algebra_simps)
  have j: "joined nfa p 3" "joined nfa ?e d" using j l by (simp_all add: joined_def algebra_simps)
  then have o: "reg_opcode nfa p = kParenStart" "reg_opcode nfa ?e = kParenEnd" using opcode_at c by (auto simp: joined_def)
  have a: "alts_at nfa (p + 3) a" using c(2) l j o(2) by (simp add: alts_at_def joined_def)
  have "RegExp_Match str nfa False i p = RegExp_Match str nfa False i (p + 3)"
    by (rule Match_paren [OF _ next_joined [OF c(1) _ j(1)]]) (use o in simp_all)
  moreover have "follow str nfa ?e k = follow str nfa (?e + d) k" for k
    by (rule Match_paren [OF _ next_joined [OF c(3) _ j(2)]]) (use o in simp_all)
  moreover have "good (length str) D (m_alts str a) i (RegExp_Match str nfa False i (p + 3)) (follow str nfa ?e)"
    using s a unfolding sound_alts_def by blast
  ultimately show "good (length str) D (m_atom str (Group a)) i (RegExp_Match str nfa False i p)
      (follow str nfa (p + tail_atom (Group a) + d))" by (simp add: algebra_simps)
qed

lemma sound_One: "sound str D (emit_seq s) (tail_seq s) (m_seq str s) \<Longrightarrow> sound_alts str D (One s)"
  unfolding sound_alts_def
proof (intro allI impI)
  fix nfa p i assume s: "sound str D (emit_seq s) (tail_seq s) (m_seq str s)" and a: "alts_at nfa p (One s)"
  have "good (length str) D (m_seq str s) i (RegExp_Match str nfa False i (p + 3)) (follow str nfa (p + 3 + len_seq s + 0))"
    by (rule sound_seq_at [OF s]) (use a in \<open>simp_all add: alts_at_def code_at_append algebra_simps\<close>)
  then show "good (length str) D (m_alts str (One s)) i (RegExp_Match str nfa False i p) (follow str nfa (p + len_alts (One s)))"
    using Match_alts [OF a] by (simp add: alts_run_def algebra_simps)
qed

lemma sound_Or:
  "sound str D (emit_seq s) (tail_seq s) (m_seq str s) \<Longrightarrow> sound_alts str D b \<Longrightarrow> sound_alts str D (Or s b)"
  unfolding sound_alts_def [of _ _ "Or s b"]
proof (intro allI impI)
  fix nfa p i assume s: "sound str D (emit_seq s) (tail_seq s) (m_seq str s)" "sound_alts str D b" and a: "alts_at nfa p (Or s b)"
  let ?c = "p + (3 + len_seq s)"
  have "good (length str) D (m_seq str s) i (RegExp_Match str nfa False i (p + 3)) (follow str nfa (p + 3 + len_seq s + len_alts b))"
    by (rule sound_seq_at [OF s(1)]) (use a in \<open>simp_all add: alts_at_def code_at_append algebra_simps\<close>)
  moreover have "good (length str) D (m_alts str b) i (RegExp_Match str nfa False i ?c) (follow str nfa (?c + len_alts b))"
    using s(2) alts_at_Or [OF a] unfolding sound_alts_def by blast
  ultimately have "good (length str) D (m_seq str s \<union> m_alts str b) i
      (orelse (RegExp_Match str nfa False i (p + 3)) (RegExp_Match str nfa False i ?c)) (follow str nfa (?c + len_alts b))"
    by (intro good_orelse) (simp_all add: algebra_simps)
  then show "good (length str) D (m_alts str (Or s b)) i (RegExp_Match str nfa False i p) (follow str nfa (p + len_alts (Or s b)))"
    using Match_alts [OF a] Match_alts [OF alts_at_Or [OF a]] alts_run_Or [OF a] by (simp add: algebra_simps)
qed

lemma sound_then:
  assumes e: "sound str D e t R" "\<And>d. length (e d) = l" "t + 3 \<le> l" and s: "sound str D (emit_seq s) (tail_seq s) S"
    and f: "forward (length str) D R"
  shows "sound str D (\<lambda>d. e (l - t) @ emit_seq s d) (l + tail_seq s) (R O S)"
proof (rule soundI)
  fix nfa p d i
  assume l: "length nfa < 65536" "3 \<le> p" and c: "code_at nfa p (e (l - t) @ emit_seq s d)" and j: "joined nfa (p + (l + tail_seq s)) d"
  from c have c: "code_at nfa p (e (l - t))" "code_at nfa (p + l) (emit_seq s d)" using e(2) by (simp_all add: code_at_append)
  have "joined nfa (p + t) (l - t)" using l e(3) j by (auto simp: joined_def)
  then have "good (length str) D R i (RegExp_Match str nfa False i p) (follow str nfa (p + l))"
    by (rule soundD [OF e(1) l(1) c(1) l(2)]) (use e(3) in simp)
  moreover have "good (length str) D S k (RegExp_Match str nfa False k (p + l)) (follow str nfa (p + (l + tail_seq s) + d))" for k
    by (rule soundD [OF s l(1) c(2)]) (use l(2) j in \<open>simp_all add: algebra_simps\<close>)
  ultimately show "good (length str) D (R O S) i (RegExp_Match str nfa False i p) (follow str nfa (p + (l + tail_seq s) + d))"
    by (rule good_comp [OF f])
qed

lemma sound_all:
  "wf_atom a \<Longrightarrow> safe_atom a \<Longrightarrow> (dot_atom a \<longrightarrow> D) \<Longrightarrow> sound str D (emit_atom a) (tail_atom a) (m_atom str a)"
  "wf_alts b \<Longrightarrow> safe_alts b \<Longrightarrow> (dot_alts b \<longrightarrow> D) \<Longrightarrow> sound_alts str D b"
  "wf_seq s \<Longrightarrow> safe_seq s \<Longrightarrow> (dot_seq s \<longrightarrow> D) \<Longrightarrow> sound str D (emit_seq s) (tail_seq s) (m_seq str s)"
proof (induction a and b and s rule: ratom.induct ralts.induct rseq.induct)
  case BOL
  then show ?case by (intro soundI) (use good_BOL in simp)
next
  case EOL
  then show ?case by (intro soundI) (use good_EOL in simp)
next
  case AnyChar
  then show ?case by (intro soundI) (use good_Any in simp)
next
  case (Class neg t)
  then show ?case by (intro soundI) (use good_class in simp)
next
  case (Chars w)
  then have "w \<noteq> []" "0 \<notin> set w" by (auto simp: plain_def)
  then show ?case by (intro soundI) (use good_word in simp)
next
  case (Escape c)
  then show ?case by (intro soundI) (use good_word [where w = "[c]"] in simp)
next
  case (Group a)
  then show ?case using sound_group [of str D a] by simp
next
  case (One s)
  then show ?case using sound_One by simp
next
  case (Or s b)
  then show ?case using sound_Or by simp
next
  case Empty
  have "good (length str) D Id i (RegExp_Match str nfa False i p) (follow str nfa (p + d))"
    if "code_at nfa p (reg_node kNothing d)" "joined nfa p d" for nfa p d i
    unfolding Match_Nothing [OF that] by (rule good_Id)
  then show ?case by (intro soundI) simp
next
  case (Seq a r s)
  then have a: "sound str D (emit_atom a) (tail_atom a) (m_atom str a)" and f: "forward (length str) D (m_atom str a)"
    using forward_all(1) [of a D str] by simp_all
  have p: "sound str D (emit_piece a r) (tail_piece a r) (rep_rel r (m_atom str a))"
    by (rule sound_rep [OF a _ tail_len_atom f]) (use Seq.prems(2) null_all(1) in auto)
  show ?case
  proof (cases "s = Empty")
    case True
    then show ?thesis using p by simp
  next
    case False
    then show ?thesis using sound_then [OF p _ tail_len_piece Seq.IH(2) forward_rep [OF f]] Seq.prems by simp
  qed
qed

section \<open>The whole automaton\<close>

definition compiled :: "ralts \<Rightarrow> bytes" where
  "compiled a = reg_node kInvalid 0 @ emit_alts a @ reg_node kEnd 0"

definition anchored :: "ralts \<Rightarrow> bool" where
  "anchored a \<longleftrightarrow> (case a of One s \<Rightarrow> (case s of Seq b r t \<Rightarrow> b = BOL \<and> (r = Once \<or> r = Plus) | Empty \<Rightarrow> False) | Or s b \<Rightarrow> False)"

lemma compiled_at:
  assumes "length (compiled a) < 65536"
  shows "alts_at (compiled a) 3 a" "GetNextNodePos (3 + len_alts a) (compiled a) = Inl kNoNextNode" "reg_opcode (compiled a) (3 + len_alts a) = kEnd"
proof -
  have c: "code_at (compiled a) 3 (emit_alts a)" "code_at (compiled a) (3 + len_alts a) (reg_node kEnd 0)"
    using code_at_self [of "reg_node kInvalid 0" "emit_alts a" "reg_node kEnd 0"]
      code_at_self [of "reg_node kInvalid 0 @ emit_alts a" "reg_node kEnd 0" "[]"] by (simp_all add: compiled_def)
  show "GetNextNodePos (3 + len_alts a) (compiled a) = Inl kNoNextNode" using next_node [OF c(2)] by simp
  show o: "reg_opcode (compiled a) (3 + len_alts a) = kEnd" using opcode_at [OF c(2)] by simp
  show "alts_at (compiled a) 3 a" using assms c(1) o by (simp add: alts_at_def compiled_def)
qed

lemma Match_compiled:
  assumes "wf_alts a" "safe_alts a" "length (compiled a) < 65536"
  shows "good (length str) (dot_alts a) (m_alts str a) i (RegExp_Match str (compiled a) False i 3) (\<lambda>j. Some kOk)"
proof -
  note c = compiled_at [OF assms(3)]
  have "good (length str) (dot_alts a) (m_alts str a) i (RegExp_Match str (compiled a) False i 3) (follow str (compiled a) (3 + len_alts a))"
    using sound_all(2) [OF assms(1,2)] c(1) unfolding sound_alts_def by blast
  then show ?thesis by (rule good_follow) (rule Match_end [OF c(3,2)])
qed

lemma first_opcode: "code_at nfa p (emit_seq s d) \<Longrightarrow> wf_seq s \<Longrightarrow> reg_opcode nfa p = kBOL \<longleftrightarrow> anchored (One s)"
proof -
  assume c: "code_at nfa p (emit_seq s d)"
  have n: "emit_seq s d = c # t \<Longrightarrow> reg_opcode nfa p = c" for c t
  proof -
    assume "emit_seq s d = c # t"
    then have "take (Suc (length t)) (drop p nfa) = c # t" using \<open>code_at nfa p (emit_seq s d)\<close> by (simp add: code_at_def)
    then have "drop p nfa ! 0 = c" "drop p nfa \<noteq> []" by (cases "drop p nfa"; simp)+
    then show ?thesis by (simp add: reg_opcode_def)
  qed
  show ?thesis
  proof (cases s)
    case Empty
    then have "emit_seq s d = kNothing # tl (reg_node kNothing d)" by (simp add: reg_node_def)
    from n [OF this] show ?thesis using Empty by (simp add: anchored_def opcodes)
  next
    case (Seq a r t)
    have "\<exists>c u. emit_seq s d = c # u \<and> (c = kBOL \<longleftrightarrow> a = BOL \<and> (r = Once \<or> r = Plus))"
      unfolding Seq by (cases a; cases r) (simp_all add: reg_node_def opcodes)
    then show ?thesis using n Seq by (auto simp: anchored_def)
  qed
qed

lemma CheckIfBOL_compiled:
  assumes "reg_nfa s = compiled a" "length (compiled a) < 65536" "wf_alts a"
  shows "CheckIfBOL s = Inr (s\<lparr>just_check_bol := just_check_bol s \<or> anchored a\<rparr>)"
proof -
  note c = compiled_at [OF assms(2)]
  have f: "reg_opcode (compiled a) 3 = kBranch" "GetNextNodePos 3 (compiled a) = Inr (case a of One s \<Rightarrow> 3 + len_alts a | Or s b \<Rightarrow> 3 + (3 + len_seq s))"
    using alts_at_first [OF c(1)] by simp_all
  then have n: "next16 (compiled a) 3 = (case a of One s \<Rightarrow> len_alts a | Or s b \<Rightarrow> 3 + len_seq s)"
    by (auto simp: GetNextNodePos_def split: if_splits ralts.splits)
  have l: "length (compiled a) = 3 + len_alts a + 3" by (simp add: compiled_def)
  show ?thesis
  proof (cases a)
    case (One q)
    then have q: "code_at (compiled a) 6 (emit_seq q (len_seq q - tail_seq q))" using c(1) by (simp add: alts_at_def code_at_append)
    have "wf_seq q" using assms(3) One by simp
    then show ?thesis using first_opcode [OF q] n f(1) l One assms(1) c(3)
      by (simp add: CheckIfBOL_def kStartValidPos_def Let_def)
  next
    case (Or q b)
    have "reg_opcode (compiled a) (3 + (3 + len_seq q)) = kBranch" using alts_at_first [OF alts_at_Or] c(1) Or by blast
    then show ?thesis using n f(1) l Or assms(1) by (simp add: CheckIfBOL_def kStartValidPos_def Let_def anchored_def)
  qed
qed

lemma print_no_null:
  "wf_atom a \<Longrightarrow> 0 \<notin> set (print_atom a)" "wf_alts b \<Longrightarrow> 0 \<notin> set (print_alts b)" "wf_seq s \<Longrightarrow> 0 \<notin> set (print_seq s)"
proof (induction a and b and s rule: ratom.induct ralts.induct rseq.induct)
  case (Class neg t)
  then show ?case by (auto simp: wf_class_def)
next
  case (Seq a r s)
  then show ?case by (cases r) auto
qed (auto simp: plain_def)

definition init_post :: "bytes \<Rightarrow> RegExp \<Rightarrow> bool" where
  "init_post re s \<longleftrightarrow> (\<exists>a. wf_alts a \<and> print_alts a = takeWhile (\<lambda>c. c \<noteq> 0) re \<and> reg_nfa s = compiled a \<and>
     length (compiled a) < 65535 \<and> just_check_bol s = anchored a)"

lemma run_ok_compile:
  assumes c: "run_ok T m (compile_post False s0)" and s0: "reg_nfa s0 = reg_node kInvalid 0" "rest s0 = re" "\<not> just_check_bol s0"
  shows "run_ok T (obind m (\<lambda>(p, s). Some (CheckIfBOL s))) (init_post re)"
proof (rule run_ok_bind [OF c], unfold split_paired_all prod.case)
  fix p s assume "compile_post False s0 (p, s)"
  then obtain a where a: "wf_alts a" "moved s0 s (print_alts a)" "hd0 (rest s) = 0" "reg_nfa s = compiled a" "length (reg_nfa s) < 65535"
    unfolding compile_post_def compiled_def [symmetric] s0(1) prod.case if_False append_assoc by (elim conjE exE) rule
  have "re = print_alts a @ rest s" using moved_rest [OF a(2)] s0(2) by simp
  moreover have "takeWhile (\<lambda>c. c \<noteq> 0) (rest s) = []" using a(3) by (cases "rest s") (simp_all add: hd0_def)
  moreover have "takeWhile (\<lambda>c. c \<noteq> 0) (print_alts a @ t) = print_alts a @ takeWhile (\<lambda>c. c \<noteq> 0) t" for t
    using print_no_null(2) [OF a(1)] by (intro takeWhile_append2) auto
  ultimately have "print_alts a = takeWhile (\<lambda>c. c \<noteq> 0) re" by simp
  moreover have "\<not> just_check_bol s" using a(2) s0(3) by (simp add: moved_def)
  ultimately have "init_post re (s\<lparr>just_check_bol := just_check_bol s \<or> anchored a\<rparr>)"
    using a(1,4,5) unfolding init_post_def by (intro exI [of _ a]) simp
  moreover have "length (compiled a) < 65536" using a(4,5) by simp
  ultimately show "run_ok T (Some (CheckIfBOL s)) (init_post re)"
    by (simp add: CheckIfBOL_compiled [OF a(4) _ a(1)])
qed

lemma Init_run: "run_ok (127 \<notin> set re) (RegExp_Init (RegExp_new re)) (init_post re)"
proof -
  define s where "s = (RegExp_new re)\<lparr>reg_nfa := reg_node kInvalid 0\<rparr>"
  define f where "f = 5 * length re + 5"
  have r: "reg_str s = re" "rest s = re" "ready s" "\<not> just_check_bol s" "reg_nfa s = reg_node kInvalid 0"
    by (simp_all add: s_def rest_def ready_def RegExp_new_def)
  have "run_ok (fueled f 5 s) (RegExp_Compile f False s) (compile_post False s)" using parser_ok [of f] r(3) by blast
  then have "run_ok (127 \<notin> set re) (RegExp_Compile f False s) (compile_post False s)"
    by (rule run_ok_mono) (simp_all add: fueled_def r f_def)
  from run_ok_compile [OF this r(5,2,4)]
  have "run_ok (127 \<notin> set re) (obind (RegExp_Compile f False s) (\<lambda>(p, s). Some (CheckIfBOL s))) (init_post re)" .
  moreover have "AppendNode kInvalid (RegExp_new re) = Some (Inr (0, s))"
    by (simp add: s_def AppendNode_def RegExp_new_def kMaxRegNfaLen_def reg_node_def)
  ultimately show ?thesis unfolding RegExp_Init_def by (simp add: r(1) f_def [symmetric])
qed

text \<open>\<open>Check\<close> tries the positions in order.\<close>

lemma check_loop_good:
  assumes g: "\<And>i. i \<in> set is \<Longrightarrow> i \<le> n \<and> good n D R i (RegExp_Match str nfa False i kStartValidPos) (\<lambda>j. Some kOk)"
    and r: "ret = kRegNotMatch"
  shows "\<exists>c. check_loop is ret str nfa = Some c \<and> (c = kOk \<and> (\<exists>i \<in> set is. \<exists>j. (i, j) \<in> R) \<or>
    c = kRegNotMatch \<and> \<not> (\<exists>i \<in> set is. \<exists>j. (i, j) \<in> R) \<or> c = kInvalidRange \<and> D)"
  using assms
proof (induction "is" arbitrary: ret)
  case (Cons i "is")
  let ?m = "RegExp_Match str nfa False i kStartValidPos"
  have m: "fine ?m \<and> (?m = Some kOk \<longrightarrow> (\<exists>j. (i, j) \<in> R)) \<and> (?m = Some kRegNotMatch \<longrightarrow> (\<forall>j. (i, j) \<notin> R)) \<and> (?m = Some kInvalidRange \<longrightarrow> D)"
    using Cons.prems(1) [of i] by (auto simp: good_def fine_def)
  show ?case
  proof (cases "?m = Some kRegNotMatch")
    case True
    then show ?thesis using Cons m by auto
  next
    case False
    then show ?thesis using m by (auto simp: fine_def)
  qed
qed simp

lemma anchored_start: "anchored a \<Longrightarrow> (i, j) \<in> m_alts str a \<Longrightarrow> i = 0"
  by (auto simp: anchored_def split: ralts.splits rseq.splits)

lemma Check_compiled:
  assumes a: "wf_alts a" "safe_alts a" "reg_nfa s = compiled a" "length (compiled a) < 65535" "just_check_bol s = anchored a" and str: "str \<noteq> []"
  shows "\<exists>c. RegExp_Check str s = Some c \<and> (c = kOk \<and> (\<exists>i < length str. \<exists>j. (i, j) \<in> m_alts str a) \<or>
    c = kRegNotMatch \<and> \<not> (\<exists>i < length str. \<exists>j. (i, j) \<in> m_alts str a) \<or> c = kInvalidRange \<and> dot_alts a)"
proof -
  let ?R = "m_alts str a" and ?n = "length str"
  have g: "good ?n (dot_alts a) ?R i (RegExp_Match str (reg_nfa s) False i kStartValidPos) (\<lambda>j. Some kOk)" for i
    unfolding a(3) kStartValidPos_def by (rule Match_compiled [OF a(1,2)]) (use a(4) in simp)
  show ?thesis
  proof (cases "just_check_bol s")
    case True
    then have start: "(\<exists>i < ?n. \<exists>j. (i, j) \<in> ?R) \<longleftrightarrow> (\<exists>j. (0, j) \<in> ?R)" using anchored_start a(5) str by blast
    then show ?thesis using True g [of 0] unfolding RegExp_Check_def good_def fine_def by auto
  next
    case False
    obtain m where m: "?n = Suc m" using str by (cases str) simp_all
    have "RegExp_Check str s = check_loop [0..<?n] kRegNotMatch str (reg_nfa s)"
      using False unfolding RegExp_Check_def m upt_rec [of 0 "Suc m"] by simp
    then show ?thesis using check_loop_good [of "[0..<?n]" ?n "dot_alts a" ?R str "reg_nfa s" kRegNotMatch] g by auto
  qed
qed

end
