(* ===== verification/Reg_Spec.thy ===== *)
theory Reg_Spec
  imports Reg_Correct "HOL-Library.Code_Target_Nat"
begin

text \<open>
  What \<open>Init\<close> and \<open>Check\<close> of Simple_Reg promise together, on concrete expressions too, and where the code leaves
  the usual meaning of regular expressions.
\<close>

declare RegExp_Match.simps [code] class_loop.simps [code] range_loop.simps [code] link_operands.simps [code]
  GetFirstEmptyNextNodePos.simps [code]

section \<open>The compiler\<close>

text \<open>C40: \<open>RegExp::Init\<close> always returns on a text without the largest \<open>char\<close>: the parser reads nothing outside the
  expression or the automaton, its loops end, and its recursion stays within five calls for a character.\<close>

theorem RegExp_Init_returns: "127 \<notin> set re \<Longrightarrow> RegExp_Init (RegExp_new re) \<noteq> None"
  using Init_run [of re] by (simp add: run_ok_def)

theorem RegExp_Init_returns_witness: "RegExp_Init (RegExp_new [97, 124]) \<noteq> None"
  by (rule RegExp_Init_returns) simp

text \<open>C39: An expression that \<open>RegExp::Init\<close> accepts is the text of a well-formed tree (up to a null byte), and the
  automaton it leaves is exactly the code of that tree: every forward link, loop and alternative is in place.\<close>

theorem RegExp_Init_compiles:
  assumes "RegExp_Init (RegExp_new re) = Some (Inr s)"
  shows "\<exists>a. wf_alts a \<and> print_alts a = takeWhile (\<lambda>c. c \<noteq> 0) re \<and> reg_nfa s = compiled a \<and>
    length (compiled a) < 65535 \<and> just_check_bol s = anchored a"
  using Init_run [of re] assms by (simp add: run_ok_def init_post_def)

definition init_example :: RegExp where
  "init_example = \<lparr>reg_str = [40, 98, 124, 99, 41, 42], reg_nfa = compiled (One (Seq (Group (Or (Seq (Chars [98]) Once Empty)
     (One (Seq (Chars [99]) Once Empty)))) Star Empty)), reg_parse_index = 6, paren_num = 1, just_check_bol = False\<rparr>"

lemma init_example: "RegExp_Init (RegExp_new [40, 98, 124, 99, 41, 42]) = Some (Inr init_example)"
  by code_simp

theorem RegExp_Init_compiles_witness:
  "\<exists>a. wf_alts a \<and> print_alts a = [40, 98, 124, 99, 41, 42] \<and> reg_nfa init_example = compiled a \<and>
    length (compiled a) < 65535 \<and> \<not> anchored a"
  using RegExp_Init_compiles [OF init_example] by (simp add: init_example_def)

section \<open>The matcher\<close>













section \<open>Where the code differs from the usual meaning\<close>

text \<open>An empty subject matches every expression that is not anchored: the loop of \<open>Check\<close> is not entered.\<close>

lemma RegExp_Check_empty: "\<not> just_check_bol s \<Longrightarrow> RegExp_Check [] s = Some kOk"
  by (simp add: RegExp_Check_def)

text \<open>A dot matches behind the last character: \<open>a.\<close> matches \<open>a\<close>, and \<open>a.b\<close> on \<open>a\<close> is an error.\<close>

lemma RegExp_dot_past_end:
  "map_option (\<lambda>r. case r of Inl e \<Rightarrow> None | Inr s \<Rightarrow> RegExp_Check [97] s) (RegExp_Init (RegExp_new [97, 46])) = Some (Some kOk)"
  by code_simp

lemma RegExp_dot_error:
  "map_option (\<lambda>r. case r of Inl e \<Rightarrow> None | Inr s \<Rightarrow> RegExp_Check [97] s) (RegExp_Init (RegExp_new [97, 46, 98])) = Some (Some kInvalidRange)"
  by code_simp

text \<open>A star around an alternative that matches the empty string never ends: \<open>(|a)*\<close>.\<close>

definition diverge_nfa :: bytes where
  "diverge_nfa = compiled (One (Seq (Group (Or Empty (One (Seq (Chars [97]) Once Empty)))) Star Empty))"

lemma diverge_init: "map_option (\<lambda>r. case r of Inl e \<Rightarrow> [] | Inr s \<Rightarrow> reg_nfa s) (RegExp_Init (RegExp_new [40, 124, 97, 41, 42])) = Some diverge_nfa"
  unfolding diverge_nfa_def by code_simp

lemma diverge_nodes:
  "GetNextNodePos 6 diverge_nfa = Inr 32" "GetNextNodePos 9 diverge_nfa = Inr 12" "GetNextNodePos 12 diverge_nfa = Inr 18"
  "GetNextNodePos 15 diverge_nfa = Inr 26" "GetNextNodePos 26 diverge_nfa = Inr 29" "GetNextNodePos 29 diverge_nfa = Inr 6"
  "GetNextNodePos 3 diverge_nfa = Inr 38" "reg_opcode diverge_nfa 3 = kBranch" "reg_opcode diverge_nfa 38 = kEnd"
  "reg_opcode diverge_nfa 6 = kBranch" "reg_opcode diverge_nfa 32 = kBranch" "reg_opcode diverge_nfa 9 = kParenStart"
  "reg_opcode diverge_nfa 12 = kBranch" "reg_opcode diverge_nfa 18 = kBranch" "reg_opcode diverge_nfa 15 = kNothing"
  "reg_opcode diverge_nfa 26 = kParenEnd" "reg_opcode diverge_nfa 29 = kBack"
  by code_simp+

definition diverge_states :: "(bool \<times> nat) set" where
  "diverge_states = {(False, 6), (True, 6), (False, 9), (False, 12), (True, 12), (False, 15), (False, 26), (False, 29)}"

lemma diverge_loop: "RegExp_Match str nfa alt i p = Some c \<Longrightarrow> \<not> (nfa = diverge_nfa \<and> (alt, p) \<in> diverge_states)"
proof (erule RegExp_Match.raw_induct [rotated, where P = "\<lambda>str nfa alt i p c. \<not> (nfa = diverge_nfa \<and> (alt, p) \<in> diverge_states)"], goal_cases)
  case (1 f str nfa alt i p c)
  then have n: "f str diverge_nfa b i q = None" if "(b, q) \<in> diverge_states" for b i q
    using that by (cases "f str diverge_nfa b i q") auto
  have m: "f str diverge_nfa False i 6 = None" "f str diverge_nfa True i 6 = None" "f str diverge_nfa False i 9 = None"
    "f str diverge_nfa False i 12 = None" "f str diverge_nfa True i 12 = None" "f str diverge_nfa False i 15 = None"
    "f str diverge_nfa False i 26 = None" "f str diverge_nfa False i 29 = None" for i
    by (rule n, simp add: diverge_states_def)+
  show ?case
  proof
    assume "nfa = diverge_nfa \<and> (alt, p) \<in> diverge_states"
    with 1(2) show False unfolding diverge_states_def
      by (elim conjE insertE emptyE)
        (simp_all add: diverge_nodes m GetOperandPos_def kStartValidPos_def simple_step_def opcodes)
  qed
qed

lemma RegExp_star_diverges: "RegExp_Match str diverge_nfa False i 3 = None"
proof -
  have "RegExp_Match str diverge_nfa False i 6 = None"
    using diverge_loop [of str diverge_nfa False i 6] by (cases "RegExp_Match str diverge_nfa False i 6") (simp_all add: diverge_states_def)
  then show ?thesis using Match_branch [OF diverge_nodes(8,7), of str i] by (simp add: diverge_nodes)
qed

end
