(* ===== verification/Stl_Copy.thy ===== *)
theory Stl_Copy
  imports My_Heap
begin

text \<open>
  \<open>my_copy\<close> and \<open>my_copy_backward\<close> of mystl/my_stl_algobase.h on random access iterators: the source and the
  destination are ranges of one array, given by positions. Both choose the direction of the loop by a search for
  the destination in the source range, so overlapping ranges are copied as by \<open>memmove\<close>.
\<close>

section \<open>The code\<close>

text \<open>Is a position in the range? The code compares it with every iterator of the range.\<close>

fun range_has :: "nat \<Rightarrow> nat \<Rightarrow> nat \<Rightarrow> bool" where
  "range_has first 0 p \<longleftrightarrow> False"
| "range_has first (Suc n) p \<longleftrightarrow> first = p \<or> range_has (Suc first) n p"

fun copy_forward :: "nat \<Rightarrow> nat \<Rightarrow> nat \<Rightarrow> 'a list \<Rightarrow> 'a list" where
  "copy_forward 0 first result xs = xs"
| "copy_forward (Suc n) first result xs = copy_forward n (Suc first) (Suc result) (xs[result := xs ! first])"

text \<open>From the ends of both ranges, given by the positions behind their last elements.\<close>

fun copy_back :: "nat \<Rightarrow> nat \<Rightarrow> nat \<Rightarrow> 'a list \<Rightarrow> 'a list" where
  "copy_back 0 lst result_last xs = xs"
| "copy_back (Suc n) lst result_last xs = copy_back n (lst - 1) (result_last - 1) (xs[result_last - 1 := xs ! (lst - 1)])"

definition my_copy_d :: "nat \<Rightarrow> nat \<Rightarrow> nat \<Rightarrow> 'a list \<Rightarrow> nat \<times> 'a list" where
  "my_copy_d first lst result xs =
     (let n = lst - first in
      (result + n, if range_has first n result then copy_back n lst (result + n) xs else copy_forward n first result xs))"

definition my_copy_backward_d :: "nat \<Rightarrow> nat \<Rightarrow> nat \<Rightarrow> 'a list \<Rightarrow> (nat \<times> 'a list) option" where
  "my_copy_backward_d first lst result xs =
     (let n = lst - first in
      if n = 0 then None
      else if \<not> range_has first n result then Some (result - n, copy_back n lst result xs)
      else Some (result - n, snd (my_copy_d first lst (result - n) xs)))"

section \<open>Both move the range at once\<close>

text \<open>What \<open>memmove\<close> does: the \<open>n\<close> elements from \<open>s\<close> on are at \<open>r\<close> afterwards.\<close>

definition moved_range :: "nat \<Rightarrow> nat \<Rightarrow> nat \<Rightarrow> 'a list \<Rightarrow> 'a list" where
  "moved_range s n r xs = map (\<lambda>k. if r \<le> k \<and> k < r + n then xs ! (s + (k - r)) else xs ! k) [0..<length xs]"

lemma length_moved_range [simp]: "length (moved_range s n r xs) = length xs"
  by (simp add: moved_range_def)

lemma moved_range_nth: "k < length xs \<Longrightarrow> moved_range s n r xs ! k = (if r \<le> k \<and> k < r + n then xs ! (s + (k - r)) else xs ! k)"
  by (simp add: moved_range_def)

lemma range_has_iff: "range_has first n p \<longleftrightarrow> first \<le> p \<and> p < first + n"
proof (induction n arbitrary: first)
  case (Suc n)
  then show ?case unfolding range_has.simps by arith
qed simp

lemma length_copy [simp]: "length (copy_forward n s r xs) = length xs" "length (copy_back n l e xs) = length xs"
  by (induction n arbitrary: s r l e xs) simp_all

lemma copy_forward_moved:
  assumes "s + n \<le> length xs" "r + n \<le> length xs" "r \<le> s \<or> s + n \<le> r"
  shows "copy_forward n s r xs = moved_range s n r xs"
  using assms
proof (induction n arbitrary: s r xs)
  case 0
  then show ?case by (intro nth_equalityI) (auto simp: moved_range_nth)
next
  case (Suc n)
  then have "copy_forward n (Suc s) (Suc r) (xs[r := xs ! s]) = moved_range (Suc s) n (Suc r) (xs[r := xs ! s])"
    by (intro Suc.IH) auto
  also have "\<dots> = moved_range s (Suc n) r xs"
  proof (intro nth_equalityI, goal_cases)
    case (2 k)
    then have "k < length xs" by simp
    then show ?case using Suc.prems by (cases "k = r") (auto simp: moved_range_nth nth_list_update Suc_diff_Suc)
  qed simp
  finally show ?case by simp
qed

lemma copy_back_moved:
  assumes "s + n \<le> length xs" "r + n \<le> length xs" "s \<le> r \<or> r + n \<le> s"
  shows "copy_back n (s + n) (r + n) xs = moved_range s n r xs"
  using assms
proof (induction n arbitrary: xs)
  case 0
  then show ?case by (intro nth_equalityI) (auto simp: moved_range_nth)
next
  case (Suc n)
  then have "copy_back n (s + n) (r + n) (xs[r + n := xs ! (s + n)]) = moved_range s n r (xs[r + n := xs ! (s + n)])"
    by (intro Suc.IH) auto
  also have "\<dots> = moved_range s (Suc n) r xs"
  proof (intro nth_equalityI, goal_cases)
    case (2 k)
    then have "k < length xs" by simp
    then show ?case using Suc.prems by (cases "k = r + n") (auto simp: moved_range_nth nth_list_update)
  qed simp
  finally show ?case by simp
qed

text \<open>\<open>my_copy\<close> and \<open>my_copy_backward\<close> on overlapping ranges: however source and destination overlap, the
  destination holds the old contents of the source afterwards, the rest of the array is unchanged, and the iterator
  returned is the end (the start) of the destination.\<close>

theorem my_copy_moves:
  assumes "first < lst" "lst \<le> length xs" "result + (lst - first) \<le> length xs"
  shows "my_copy_d first lst result xs = (result + (lst - first), moved_range first (lst - first) result xs) \<and>
    my_copy_backward_d first lst (result + (lst - first)) xs = Some (result, moved_range first (lst - first) result xs)"
proof -
  obtain n where n: "lst = first + n" "0 < n" using assms(1) less_imp_add_positive by blast
  have b: "copy_back n (first + n) (result + n) xs = moved_range first n result xs" if "first \<le> result \<or> result + n \<le> first"
    by (rule copy_back_moved) (use that assms n in simp_all)
  have f: "copy_forward n first result xs = moved_range first n result xs" if "\<not> (first < result \<and> result < first + n)"
    by (rule copy_forward_moved) (use that assms n in auto)
  have c: "my_copy_d first lst result xs = (result + (lst - first), moved_range first (lst - first) result xs)"
    using n b f by (auto simp: my_copy_d_def range_has_iff Let_def)
  moreover have "my_copy_backward_d first lst (result + (lst - first)) xs = Some (result, moved_range first (lst - first) result xs)"
    using n b c by (auto simp: my_copy_backward_d_def range_has_iff Let_def)
  ultimately show ?thesis by blast
qed

theorem my_copy_moves_witness:
  "my_copy_d 0 3 1 [1, 2, 3, 4 :: nat] = (4, [1, 1, 2, 3]) \<and> my_copy_backward_d 0 3 4 [1, 2, 3, 4 :: nat] = Some (1, [1, 1, 2, 3])"
  using my_copy_moves [of 0 3 "[1, 2, 3, 4 :: nat]" 1] by (simp add: moved_range_def upt_rec)

end
