(* ===== verification/Stl_Sort.thy ===== *)
theory Stl_Sort
  imports Stl_Copy "HOL-Library.Monad_Syntax"
begin

text \<open>
  The sorting functions of mystl/my_stl_algobase.h: insertion sort, the unguarded partition, introsort with its
  final insertion sort, \<open>my_partial_sort\<close> and \<open>my_nth_element\<close>. A range of iterators is a pair of positions in a
  list. \<open>None\<close> is a read before the first or behind the last element of the list: the unguarded loops do not
  look at the bounds of their range.
\<close>

section \<open>Insertion sort\<close>

text \<open>\<open>lst\<close> is the position of the hole.\<close>

fun my_unguarded_linear_insert :: "nat \<Rightarrow> 'a::linorder \<Rightarrow> 'a list \<Rightarrow> 'a list option" where
  "my_unguarded_linear_insert 0 v xs = None"
| "my_unguarded_linear_insert (Suc n) v xs =
     (if v < xs ! n then my_unguarded_linear_insert n v (xs[Suc n := xs ! n]) else Some (xs[Suc n := v]))"

definition my_linear_insert :: "nat \<Rightarrow> nat \<Rightarrow> 'a::linorder list \<Rightarrow> 'a list option" where
  "my_linear_insert first lst xs =
     (let v = xs ! lst in
      if v < xs ! first then map_option (\<lambda>(_, ys). ys[first := v]) (my_copy_backward_d first lst (lst + 1) xs)
      else my_unguarded_linear_insert lst v xs)"

fun insertion_loop :: "nat \<Rightarrow> nat list \<Rightarrow> 'a::linorder list \<Rightarrow> 'a list option" where
  "insertion_loop first [] xs = Some xs"
| "insertion_loop first (i # is) xs = do { ys \<leftarrow> my_linear_insert first i xs; insertion_loop first is ys }"

definition my_insertion_sort :: "nat \<Rightarrow> nat \<Rightarrow> 'a::linorder list \<Rightarrow> 'a list option" where
  "my_insertion_sort first lst xs = (if first = lst then Some xs else insertion_loop first [first + 1..<lst] xs)"

fun unguarded_insertion_loop :: "nat list \<Rightarrow> 'a::linorder list \<Rightarrow> 'a list option" where
  "unguarded_insertion_loop [] xs = Some xs"
| "unguarded_insertion_loop (i # is) xs = do { ys \<leftarrow> my_unguarded_linear_insert i (xs ! i) xs; unguarded_insertion_loop is ys }"

definition my_unguarded_insertion_sort :: "nat \<Rightarrow> nat \<Rightarrow> 'a::linorder list \<Rightarrow> 'a list option" where
  "my_unguarded_insertion_sort first lst xs = unguarded_insertion_loop [first..<lst] xs"

definition my_stl_threshold :: nat where "my_stl_threshold = 16"

definition my_final_insertion_sort :: "nat \<Rightarrow> nat \<Rightarrow> 'a::linorder list \<Rightarrow> 'a list option" where
  "my_final_insertion_sort first lst xs =
     (if my_stl_threshold < lst - first then do {
        ys \<leftarrow> my_insertion_sort first (first + my_stl_threshold) xs;
        my_unguarded_insertion_sort (first + my_stl_threshold) lst ys }
      else my_insertion_sort first lst xs)"

section \<open>Ranges\<close>

definition sorted_range :: "nat \<Rightarrow> nat \<Rightarrow> 'a::linorder list \<Rightarrow> bool" where
  "sorted_range a b xs \<longleftrightarrow> (\<forall>i j. a \<le> i \<and> i \<le> j \<and> j < b \<longrightarrow> xs ! i \<le> xs ! j)"

text \<open>Only the range from \<open>a\<close> to \<open>b\<close> is permuted.\<close>

definition permuted :: "nat \<Rightarrow> nat \<Rightarrow> 'a list \<Rightarrow> 'a list \<Rightarrow> bool" where
  "permuted a b xs ys \<longleftrightarrow> length ys = length xs \<and> mset ys = mset xs \<and> (\<forall>k < length xs. k < a \<or> b \<le> k \<longrightarrow> ys ! k = xs ! k)"

lemma permuted_refl [simp]: "permuted a b xs xs"
  by (simp add: permuted_def)

lemma permuted_trans: "permuted a b xs ys \<Longrightarrow> permuted a b ys zs \<Longrightarrow> permuted a b xs zs"
  by (simp add: permuted_def)

lemma permuted_mono: "permuted a b xs ys \<Longrightarrow> a' \<le> a \<Longrightarrow> b \<le> b' \<Longrightarrow> permuted a' b' xs ys"
  by (simp add: permuted_def)

lemma permuted_length: "permuted a b xs ys \<Longrightarrow> length ys = length xs"
  by (simp add: permuted_def)

lemma permuted_swap: "a \<le> i \<Longrightarrow> i < b \<Longrightarrow> a \<le> j \<Longrightarrow> j < b \<Longrightarrow> b \<le> length xs \<Longrightarrow> permuted a b xs (my_swap i j xs)"
  by (auto simp: permuted_def my_swap_nth)

lemma segment_map: "b \<le> length xs \<Longrightarrow> drop a (take b xs) = map ((!) xs) [a..<b]"
  by (intro nth_equalityI) simp_all

lemma segment_set: "b \<le> length xs \<Longrightarrow> set (drop a (take b xs)) = (!) xs ` {a..<b}"
  by (simp add: segment_map)

lemma permuted_segment:
  assumes p: "permuted a b xs ys" and b: "a \<le> b" "b \<le> length xs"
  shows "mset (drop a (take b ys)) = mset (drop a (take b xs))"
proof -
  have l: "length ys = length xs" using p by (rule permuted_length)
  have t: "take a ys = take a xs" using p l b by (intro nth_equalityI) (auto simp: permuted_def)
  have d: "drop b ys = drop b xs" using p l b by (intro nth_equalityI) (auto simp: permuted_def)
  have s: "mset zs = mset (take a zs) + mset (drop a (take b zs)) + mset (drop b zs)" for zs :: "'a list"
  proof -
    have "mset zs = mset (take b zs) + mset (drop b zs)" by (metis append_take_drop_id mset_append)
    moreover have "mset (take b zs) = mset (take a (take b zs)) + mset (drop a (take b zs))" by (metis append_take_drop_id mset_append)
    ultimately show ?thesis using b(1) by (simp add: min_absorb1)
  qed
  have "mset ys = mset xs" using p by (simp add: permuted_def)
  then show ?thesis using s [of ys] s [of xs] by (simp add: t d)
qed

lemma permuted_ex:
  assumes h: "permuted a b xs ys" "b \<le> length xs" "a \<le> k" "k < b"
  shows "\<exists>j. a \<le> j \<and> j < b \<and> ys ! k = xs ! j"
proof -
  have "set (drop a (take b ys)) = set (drop a (take b xs))"
    by (rule mset_eq_setD, rule permuted_segment [OF h(1) _ h(2)]) (use h in simp)
  then have "(!) ys ` {a..<b} = (!) xs ` {a..<b}" using h permuted_length [OF h(1)] by (simp add: segment_set)
  moreover have "ys ! k \<in> (!) ys ` {a..<b}" using h by simp
  ultimately show ?thesis by auto
qed

lemma permuted_all:
  "permuted a b xs ys \<Longrightarrow> b \<le> length xs \<Longrightarrow> (\<And>k. a \<le> k \<Longrightarrow> k < b \<Longrightarrow> P (xs ! k)) \<Longrightarrow> a \<le> k \<Longrightarrow> k < b \<Longrightarrow> P (ys ! k)"
  using permuted_ex [of a b xs ys k] by auto

lemma permuted_outside: "permuted a b xs ys \<Longrightarrow> k < length xs \<Longrightarrow> k < a \<or> b \<le> k \<Longrightarrow> ys ! k = xs ! k"
  unfolding permuted_def by blast

section \<open>Insertion into a sorted range\<close>

definition insert_at :: "nat \<Rightarrow> nat \<Rightarrow> 'a \<Rightarrow> 'a list \<Rightarrow> 'a list" where
  "insert_at p i v xs = take p xs @ v # take (i - p) (drop p xs) @ drop (Suc i) xs"

lemma insert_at_length [simp]: "p \<le> i \<Longrightarrow> i < length xs \<Longrightarrow> length (insert_at p i v xs) = length xs"
  by (simp add: insert_at_def)

lemma insert_at_nth:
  "p \<le> i \<Longrightarrow> i < length xs \<Longrightarrow> k < length xs \<Longrightarrow>
   insert_at p i v xs ! k = (if k < p then xs ! k else if k = p then v else if k \<le> i then xs ! (k - 1) else xs ! k)"
  by (auto simp: insert_at_def nth_append nth_Cons' min_def)

lemma insert_at_mset: "p \<le> i \<Longrightarrow> i < length xs \<Longrightarrow> v = xs ! i \<Longrightarrow> mset (insert_at p i v xs) = mset xs"
proof -
  assume h: "p \<le> i" "i < length xs" "v = xs ! i"
  have "take i xs = take p xs @ take (i - p) (drop p xs)" using take_add [of p "i - p" xs] h(1) by simp
  moreover have "xs = take i xs @ xs ! i # drop (Suc i) xs" by (rule id_take_nth_drop [OF h(2)])
  ultimately have "mset xs = mset (take p xs @ take (i - p) (drop p xs) @ xs ! i # drop (Suc i) xs)" by (metis append_assoc)
  then show ?thesis by (simp add: insert_at_def h(3))
qed

lemma insert_at_sorted:
  assumes "sorted_range a i xs" "a \<le> p" "p \<le> i" "i < length xs" "p = a \<or> xs ! (p - 1) \<le> v" "\<And>k. p \<le> k \<Longrightarrow> k < i \<Longrightarrow> v \<le> xs ! k"
  shows "sorted_range a (Suc i) (insert_at p i v xs)"
  unfolding sorted_range_def
proof (intro allI impI)
  fix k j assume h: "a \<le> k \<and> k \<le> j \<and> j < Suc i"
  have s: "xs ! k \<le> xs ! j" if "a \<le> k" "k \<le> j" "j < i" for k j using assms(1) that unfolding sorted_range_def by blast
  have lo: "xs ! k \<le> v" if "a \<le> k" "k < p" for k
  proof -
    have "xs ! k \<le> xs ! (p - 1)" using that assms(3) by (intro s) auto
    then show ?thesis using assms(5) that by auto
  qed
  have n: "insert_at p i v xs ! k = (if k < p then xs ! k else if k = p then v else xs ! (k - 1))" if "k \<le> i" for k
    using insert_at_nth [OF assms(3,4), of k v] that assms(4) by simp
  have hi: "v \<le> xs ! (j - 1)" if "p < j" using assms(6) [of "j - 1"] that h by auto
  show "insert_at p i v xs ! k \<le> insert_at p i v xs ! j"
  proof (cases "j < p")
    case True
    then show ?thesis using h assms(3) by (simp add: n s)
  next
    case j: False
    show ?thesis
    proof (cases "k < p")
      case True
      show ?thesis
      proof (cases "j = p")
        case False
        then have "xs ! k \<le> xs ! (j - 1)" using lo [of k] hi True j h by (meson linorder_neqE_nat order_trans)
        then show ?thesis using True False j h by (simp add: n)
      qed (use True lo h in \<open>simp add: n\<close>)
    next
      case False
      show ?thesis
      proof (cases "k = p")
        case True
        then show ?thesis using h hi j by (cases "j = p") (simp_all add: n)
      next
        case k: False
        have "xs ! (k - 1) \<le> xs ! (j - 1)" using False k h assms(2) by (intro s) auto
        then show ?thesis using False k h j by (simp add: n)
      qed
    qed
  qed
qed

lemma unguarded_insert_at:
  assumes "i < length xs" "\<exists>k < i. xs ! k \<le> v"
  shows "\<exists>p. 0 < p \<and> p \<le> i \<and> xs ! (p - 1) \<le> v \<and> (\<forall>k. p \<le> k \<and> k < i \<longrightarrow> v < xs ! k) \<and>
    my_unguarded_linear_insert i v xs = Some (insert_at p i v xs)"
  using assms
proof (induction i arbitrary: xs)
  case (Suc n)
  show ?case
  proof (cases "v < xs ! n")
    case False
    have "insert_at (Suc n) (Suc n) v xs = xs[Suc n := v]" using Suc.prems(1) by (simp add: insert_at_def upd_conv_take_nth_drop)
    then show ?thesis using False by (intro exI [of _ "Suc n"]) auto
  next
    case True
    let ?ys = "xs[Suc n := xs ! n]"
    obtain k where k: "k < n" "xs ! k \<le> v" using Suc.prems(2) True by (metis leD less_Suc_eq)
    have "\<exists>p. 0 < p \<and> p \<le> n \<and> ?ys ! (p - 1) \<le> v \<and> (\<forall>k. p \<le> k \<and> k < n \<longrightarrow> v < ?ys ! k) \<and>
      my_unguarded_linear_insert n v ?ys = Some (insert_at p n v ?ys)"
      by (rule Suc.IH) (use Suc.prems(1) k in \<open>auto intro!: exI [of _ k]\<close>)
    then obtain p where p: "0 < p" "p \<le> n" "?ys ! (p - 1) \<le> v" "\<forall>k. p \<le> k \<and> k < n \<longrightarrow> v < ?ys ! k"
      "my_unguarded_linear_insert n v ?ys = Some (insert_at p n v ?ys)" by blast
    have "insert_at p n v ?ys = insert_at p (Suc n) v xs"
      using Suc.prems(1) p(2) by (intro nth_equalityI) (auto simp: insert_at_nth nth_list_update le_Suc_eq)
    then show ?thesis using p True by (intro exI [of _ p]) (auto simp: less_Suc_eq)
  qed
qed simp

lemma insert_at_permuted: "a \<le> p \<Longrightarrow> p \<le> i \<Longrightarrow> i < length xs \<Longrightarrow> permuted a (Suc i) xs (insert_at p i (xs ! i) xs)"
  by (auto simp: permuted_def insert_at_mset insert_at_nth)

text \<open>One step of the insertion sort: the range from \<open>a\<close> to \<open>i\<close> is sorted already.\<close>

lemma unguarded_insert_step:
  assumes "i < length xs" "a < i" "sorted_range a i xs" "xs ! a \<le> xs ! i"
  shows "\<exists>ys. my_unguarded_linear_insert i (xs ! i) xs = Some ys \<and> permuted a (Suc i) xs ys \<and> sorted_range a (Suc i) ys"
proof -
  from unguarded_insert_at [of i xs "xs ! i"] assms(1,2,4) obtain p where p: "0 < p" "p \<le> i" "xs ! (p - 1) \<le> xs ! i"
    "\<forall>k. p \<le> k \<and> k < i \<longrightarrow> xs ! i < xs ! k" "my_unguarded_linear_insert i (xs ! i) xs = Some (insert_at p i (xs ! i) xs)" by blast
  have "a < p" using p(4) assms(2,4) by (metis leD not_le)
  then have "permuted a (Suc i) xs (insert_at p i (xs ! i) xs)" by (intro insert_at_permuted) (use p(2) assms(1) in simp_all)
  moreover have "sorted_range a (Suc i) (insert_at p i (xs ! i) xs)"
    using assms(1) p(2-4) \<open>a < p\<close> by (intro insert_at_sorted [OF assms(3)]) (auto intro: less_imp_le)
  ultimately show ?thesis using p(5) by blast
qed

lemma linear_insert_step:
  assumes "i < length xs" "a < i" "sorted_range a i xs"
  shows "\<exists>ys. my_linear_insert a i xs = Some ys \<and> permuted a (Suc i) xs ys \<and> sorted_range a (Suc i) ys"
proof (cases "xs ! i < xs ! a")
  case False
  then show ?thesis using unguarded_insert_step [OF assms] by (simp add: my_linear_insert_def)
next
  case True
  have "my_copy_backward_d a i (i + 1) xs = Some (a + 1, moved_range a (i - a) (a + 1) xs)"
    using my_copy_moves [of a i xs "a + 1"] assms(1,2) by simp
  moreover have "(moved_range a (i - a) (a + 1) xs)[a := xs ! i] = insert_at a i (xs ! i) xs"
    using assms(1,2) by (intro nth_equalityI) (auto simp: moved_range_nth insert_at_nth nth_list_update)
  ultimately have m: "my_linear_insert a i xs = Some (insert_at a i (xs ! i) xs)" using True by (simp add: my_linear_insert_def)
  have "xs ! i \<le> xs ! k" if "a \<le> k" "k < i" for k
    using assms(3) that True unfolding sorted_range_def by (meson less_imp_le order_refl order_trans)
  then have "sorted_range a (Suc i) (insert_at a i (xs ! i) xs)" using assms by (intro insert_at_sorted) auto
  moreover have "permuted a (Suc i) xs (insert_at a i (xs ! i) xs)" using assms by (intro insert_at_permuted) auto
  ultimately show ?thesis using m by blast
qed

lemma insertion_loop_sorts:
  "a < i \<Longrightarrow> i \<le> b \<Longrightarrow> b \<le> length xs \<Longrightarrow> sorted_range a i xs \<Longrightarrow>
   \<exists>ys. insertion_loop a [i..<b] xs = Some ys \<and> permuted a b xs ys \<and> sorted_range a b ys"
proof (induction "b - i" arbitrary: i xs)
  case 0
  then show ?case by simp
next
  case (Suc n)
  then have i: "i < b" "[i..<b] = i # [Suc i..<b]" by (simp_all add: upt_conv_Cons)
  obtain ys where ys: "my_linear_insert a i xs = Some ys" "permuted a (Suc i) xs ys" "sorted_range a (Suc i) ys"
    using linear_insert_step [of i xs a] Suc.prems i(1) by auto
  have "n = b - Suc i" using Suc.hyps(2) by simp
  then obtain zs where "insertion_loop a [Suc i..<b] ys = Some zs" "permuted a b ys zs" "sorted_range a b zs"
    using Suc.hyps(1) [of "Suc i" ys] Suc.prems ys(2,3) i(1) permuted_length [OF ys(2)] by auto
  then show ?case using ys i(1) permuted_trans [OF permuted_mono [OF ys(2), of a b]] by (auto simp: i(2))
qed

lemma insertion_sort_sorts:
  "a \<le> b \<Longrightarrow> b \<le> length xs \<Longrightarrow> \<exists>ys. my_insertion_sort a b xs = Some ys \<and> permuted a b xs ys \<and> sorted_range a b ys"
proof (cases "a = b")
  case False
  assume "a \<le> b" "b \<le> length xs"
  moreover have "sorted_range a (Suc a) xs" by (auto simp: sorted_range_def le_less_Suc_eq)
  ultimately show ?thesis using insertion_loop_sorts [of a "Suc a" b xs] False by (simp add: my_insertion_sort_def)
qed (auto simp: my_insertion_sort_def sorted_range_def)

lemma unguarded_loop_sorts:
  "a < i \<Longrightarrow> i \<le> b \<Longrightarrow> b \<le> length xs \<Longrightarrow> sorted_range a i xs \<Longrightarrow> (\<And>k. i \<le> k \<Longrightarrow> k < b \<Longrightarrow> xs ! a \<le> xs ! k) \<Longrightarrow>
   \<exists>ys. unguarded_insertion_loop [i..<b] xs = Some ys \<and> permuted a b xs ys \<and> sorted_range a b ys"
proof (induction "b - i" arbitrary: i xs)
  case 0
  then show ?case by simp
next
  case (Suc n)
  then have i: "i < b" "[i..<b] = i # [Suc i..<b]" by (simp_all add: upt_conv_Cons)
  obtain ys where ys: "my_unguarded_linear_insert i (xs ! i) xs = Some ys" "permuted a (Suc i) xs ys" "sorted_range a (Suc i) ys"
    using unguarded_insert_step [of i xs a] Suc.prems i(1) by auto
  have le: "ys ! a \<le> xs ! a"
  proof -
    have "permuted a (Suc i) ys xs" using ys(2) by (simp add: permuted_def)
    then obtain j where "a \<le> j" "j < Suc i" "xs ! a = ys ! j"
      using permuted_ex [of a "Suc i" ys xs a] Suc.prems(1,3) i(1) permuted_length [OF ys(2)] by auto
    then show ?thesis using ys(3) unfolding sorted_range_def by auto
  qed
  have "ys ! a \<le> ys ! k" if "Suc i \<le> k" "k < b" for k
  proof -
    have "ys ! k = xs ! k" using permuted_outside [OF ys(2)] that Suc.prems(3) by simp
    then show ?thesis using le Suc.prems(5) that by (metis Suc_leD order_trans)
  qed
  moreover have "n = b - Suc i" using Suc.hyps(2) by simp
  ultimately obtain zs where "unguarded_insertion_loop [Suc i..<b] ys = Some zs" "permuted a b ys zs" "sorted_range a b zs"
    using Suc.hyps(1) [of "Suc i" ys] Suc.prems ys(2,3) i(1) permuted_length [OF ys(2)] by auto
  then show ?case using ys i(1) permuted_trans [OF permuted_mono [OF ys(2), of a b]] by (auto simp: i(2))
qed

text \<open>Elements far enough apart are in order: what introsort leaves to the final insertion sort.\<close>

definition roughly :: "nat \<Rightarrow> nat \<Rightarrow> 'a::linorder list \<Rightarrow> bool" where
  "roughly a b xs \<longleftrightarrow> (\<forall>i j. a \<le> i \<and> i + my_stl_threshold \<le> j \<and> j < b \<longrightarrow> xs ! i \<le> xs ! j)"

lemma final_insertion_sort_sorts:
  assumes "a \<le> b" "b \<le> length xs" "roughly a b xs"
  shows "\<exists>ys. my_final_insertion_sort a b xs = Some ys \<and> permuted a b xs ys \<and> sorted_range a b ys"
proof (cases "my_stl_threshold < b - a")
  case False
  then show ?thesis using insertion_sort_sorts [OF assms(1,2)] by (simp add: my_final_insertion_sort_def)
next
  case True
  let ?m = "a + my_stl_threshold"
  have m: "a < ?m" "?m < b" using True by (simp_all add: my_stl_threshold_def)
  obtain ys where ys: "my_insertion_sort a ?m xs = Some ys" "permuted a ?m xs ys" "sorted_range a ?m ys"
    using insertion_sort_sorts [of a ?m xs] m assms(2) by auto
  have l: "length ys = length xs" by (rule permuted_length [OF ys(2)])
  have "ys ! a \<le> ys ! k" if k: "?m \<le> k" "k < b" for k
  proof -
    have e: "ys ! k = xs ! k" using permuted_outside [OF ys(2)] k assms(2) by simp
    have "permuted a ?m ys xs" using ys(2) by (simp add: permuted_def)
    then obtain j where j: "a \<le> j" "j < ?m" "xs ! a = ys ! j" using permuted_ex [of a ?m ys xs a] m assms(2) l by auto
    have "ys ! a \<le> xs ! a" using ys(3) j unfolding sorted_range_def by auto
    also have "xs ! a \<le> xs ! k" using assms(3) k unfolding roughly_def by auto
    finally show ?thesis using e by simp
  qed
  then obtain zs where zs: "unguarded_insertion_loop [?m..<b] ys = Some zs" "permuted a b ys zs" "sorted_range a b zs"
    using unguarded_loop_sorts [of a ?m b ys] m assms(2) l ys(3) by auto
  then show ?thesis using True ys(1) permuted_trans [OF permuted_mono [OF ys(2), of a b]] m
    by (auto simp: my_final_insertion_sort_def my_unguarded_insertion_sort_def)
qed

end
