(* ===== verification/Stl_Introsort.thy ===== *)
theory Stl_Introsort
  imports Stl_Sort
begin

text \<open>
  \<open>my_sort\<close> of mystl/my_stl_algobase.h: quicksort with a bound on its depth, heap sort beyond it, and an insertion
  sort at the end; \<open>my_partial_sort\<close> and \<open>my_nth_element\<close>, which share its parts.
\<close>

section \<open>The code\<close>

definition my_median :: "'a::linorder \<Rightarrow> 'a \<Rightarrow> 'a \<Rightarrow> 'a" where
  "my_median a b c =
     (if a < b then (if b < c then b else if a < c then c else a)
      else (if a < c then a else if b < c then c else b))"

text \<open>The two scans of the partition: the list ends them only by a read outside.\<close>

function scan_up :: "'a::linorder list \<Rightarrow> 'a \<Rightarrow> nat \<Rightarrow> nat option" where
  "scan_up xs pivot i = (if length xs \<le> i then None else if xs ! i < pivot then scan_up xs pivot (i + 1) else Some i)"
  by pat_completeness auto
termination by (relation "measure (\<lambda>(xs, pivot, i). length xs - i)") auto

fun scan_down :: "'a::linorder list \<Rightarrow> 'a \<Rightarrow> nat \<Rightarrow> nat option" where
  "scan_down xs pivot 0 = None"
| "scan_down xs pivot (Suc j) = (if length xs \<le> j then None else if pivot < xs ! j then scan_down xs pivot j else Some j)"

text \<open>\<open>lst\<close> is decremented before its element is read: \<open>scan_down\<close> starts with the position behind.\<close>

partial_function (option) my_unguarded_partition :: "nat \<Rightarrow> nat \<Rightarrow> 'a::linorder \<Rightarrow> 'a list \<Rightarrow> (nat \<times> 'a list) option" where
  "my_unguarded_partition first lst pivot xs = do {
     f \<leftarrow> scan_up xs pivot first;
     l \<leftarrow> scan_down xs pivot lst;
     if \<not> f < l then Some (f, xs) else my_unguarded_partition (f + 1) l pivot (my_swap f l xs) }"

text \<open>\<open>__my_pop_heap\<close> with the element \<open>i\<close> behind the heap of the first \<open>m\<close>.\<close>

definition pop_into :: "nat \<Rightarrow> nat \<Rightarrow> 'a::linorder list \<Rightarrow> 'a list" where
  "pop_into m i xs = my_adjust_heap (xs[i := xs ! 0, 0 := xs ! i]) 0 m"

fun partial_loop :: "nat \<Rightarrow> nat list \<Rightarrow> 'a::linorder list \<Rightarrow> 'a list" where
  "partial_loop m [] xs = xs"
| "partial_loop m (i # is) xs = partial_loop m is (if xs ! i < xs ! 0 then pop_into m i xs else xs)"

definition partial_sort_range :: "nat \<Rightarrow> 'a::linorder list \<Rightarrow> 'a list" where
  "partial_sort_range m xs = my_sort_heap m (partial_loop m [m..<length xs] (my_make_heap m xs))"

definition my_partial_sort :: "nat \<Rightarrow> nat \<Rightarrow> nat \<Rightarrow> 'a::linorder list \<Rightarrow> 'a list" where
  "my_partial_sort first middle lst xs =
     take first xs @ partial_sort_range (middle - first) (drop first (take lst xs)) @ drop lst xs"

function my_lg :: "nat \<Rightarrow> nat" where
  "my_lg n = (if 1 < n then my_lg (n div 2) + 1 else 0)"
  by pat_completeness auto
termination by (relation "measure id") auto

declare my_lg.simps [simp del] scan_up.simps [simp del]

text \<open>The loop goes on with the left part, the recursive call sorts the right one.\<close>

fun my_introsort_loop :: "nat \<Rightarrow> nat \<Rightarrow> nat \<Rightarrow> 'a::linorder list \<Rightarrow> 'a list option" where
  "my_introsort_loop 0 first lst xs =
     (if my_stl_threshold < lst - first then Some (my_partial_sort first lst lst xs) else Some xs)"
| "my_introsort_loop (Suc depth_limit) first lst xs =
     (if my_stl_threshold < lst - first then do {
        (cur, ys) \<leftarrow> my_unguarded_partition first lst
          (my_median (xs ! first) (xs ! (first + (lst - first) div 2)) (xs ! (lst - 1))) xs;
        zs \<leftarrow> my_introsort_loop depth_limit cur lst ys;
        my_introsort_loop depth_limit first cur zs }
      else Some xs)"

definition my_sort :: "'a::linorder list \<Rightarrow> 'a list option" where
  "my_sort xs =
     (if xs \<noteq> [] then do {
        ys \<leftarrow> my_introsort_loop (my_lg (length xs) * 2) 0 (length xs) xs;
        my_final_insertion_sort 0 (length xs) ys }
      else Some xs)"

partial_function (option) my_nth_element :: "nat \<Rightarrow> nat \<Rightarrow> nat \<Rightarrow> 'a::linorder list \<Rightarrow> 'a list option" where
  "my_nth_element first nt lst xs =
     (if 3 < lst - first then do {
        (cut, ys) \<leftarrow> my_unguarded_partition first lst
          (my_median (xs ! first) (xs ! (first + (lst - first) div 2)) (xs ! (lst - 1))) xs;
        if cut \<le> nt then my_nth_element cut nt lst ys else my_nth_element first nt cut ys }
      else my_insertion_sort first lst xs)"

section \<open>The unguarded partition\<close>

lemma scan_up_stops:
  "i \<le> k \<Longrightarrow> k < length xs \<Longrightarrow> pivot \<le> xs ! k \<Longrightarrow>
   \<exists>j. scan_up xs pivot i = Some j \<and> i \<le> j \<and> j \<le> k \<and> pivot \<le> xs ! j \<and> (\<forall>m. i \<le> m \<and> m < j \<longrightarrow> xs ! m < pivot)"
proof (induction "k - i" arbitrary: i)
  case 0
  then show ?case by (subst scan_up.simps) auto
next
  case (Suc n)
  show ?case
  proof (cases "xs ! i < pivot")
    case False
    then show ?thesis using Suc.prems by (subst scan_up.simps) auto
  next
    case True
    then have "i \<noteq> k" "n = k - (i + 1)" using Suc.hyps(2) Suc.prems(3) True by auto
    then obtain j where "scan_up xs pivot (i + 1) = Some j" "i + 1 \<le> j" "j \<le> k" "pivot \<le> xs ! j" "\<forall>m. i + 1 \<le> m \<and> m < j \<longrightarrow> xs ! m < pivot"
      using Suc.hyps(1) [of "i + 1"] Suc.prems by auto
    moreover have "xs ! m < pivot" if "i \<le> m" "m < j" for m using that True calculation(5) by (cases "m = i") auto
    moreover have "scan_up xs pivot i = scan_up xs pivot (i + 1)" using True Suc.prems by (subst scan_up.simps) simp
    ultimately show ?thesis by (intro exI [of _ j]) auto
  qed
qed

lemma scan_down_stops:
  "k < l \<Longrightarrow> l \<le> length xs \<Longrightarrow> xs ! k \<le> pivot \<Longrightarrow>
   \<exists>j. scan_down xs pivot l = Some j \<and> k \<le> j \<and> j < l \<and> xs ! j \<le> pivot \<and> (\<forall>m. j < m \<and> m < l \<longrightarrow> pivot < xs ! m)"
proof (induction l)
  case (Suc l)
  show ?case
  proof (cases "pivot < xs ! l")
    case False
    then show ?thesis using Suc.prems by auto
  next
    case True
    then have "k \<noteq> l" using Suc.prems(3) by auto
    then show ?thesis using True Suc by (auto simp: less_Suc_eq)
  qed
qed simp

lemma partition_loop:
  assumes "a \<le> f" "l \<le> b" "b \<le> length xs" "\<And>k. a \<le> k \<Longrightarrow> k < f \<Longrightarrow> xs ! k \<le> p" "\<And>k. l \<le> k \<Longrightarrow> k < b \<Longrightarrow> p \<le> xs ! k"
    and "f \<le> u" "u < b" "p \<le> xs ! u" and "a \<le> d" "d < l" "xs ! d \<le> p"
  shows "\<exists>cur ys. my_unguarded_partition f l p xs = Some (cur, ys) \<and> permuted a b xs ys \<and> f \<le> cur \<and> cur < b \<and>
    (\<forall>k. a \<le> k \<and> k < cur \<longrightarrow> ys ! k \<le> p) \<and> (\<forall>k. cur \<le> k \<and> k < b \<longrightarrow> p \<le> ys ! k) \<and> (f < d \<longrightarrow> f < cur)"
  using assms
proof (induction l arbitrary: f u d xs rule: less_induct)
  case (less l)
  note pr = less.prems
  obtain i where i: "scan_up xs p f = Some i" "f \<le> i" "i \<le> u" "p \<le> xs ! i" "\<forall>m. f \<le> m \<and> m < i \<longrightarrow> xs ! m < p"
    using scan_up_stops [of f u xs p] pr by auto
  obtain j where j: "scan_down xs p l = Some j" "d \<le> j" "j < l" "xs ! j \<le> p" "\<forall>m. j < m \<and> m < l \<longrightarrow> p < xs ! m"
    using scan_down_stops [of d l xs p] pr by auto
  have lo: "xs ! k \<le> p" if "a \<le> k" "k < i" for k using pr(4) i(5) that by (meson less_imp_le not_less)
  have hi: "p \<le> xs ! k" if "j < k" "k < b" for k using pr(5) j(5) that by (meson less_imp_le not_less)
  show ?case
  proof (cases "i < j")
    case False
    then have "p \<le> xs ! k" if "i \<le> k" "k < b" for k using hi [of k] i(4) that by (cases "k = i") auto
    moreover have "i < b" using i(3) pr(7) by simp
    moreover have "f < i" if "f < d" using that j(2) False by simp
    ultimately show ?thesis using i(1,2) j(1) lo False by (subst my_unguarded_partition.simps) auto
  next
    case True
    let ?ys = "my_swap i j xs"
    have b: "i < length xs" "j < length xs" "a \<le> i" "j < b" using True j(3) i(2) pr(1-3) by simp_all
    have n: "?ys ! k = (if k = j then xs ! i else if k = i then xs ! j else xs ! k)" for k using my_swap_nth [OF b(1,2)] .
    have "\<exists>cur zs. my_unguarded_partition (i + 1) j p ?ys = Some (cur, zs) \<and> permuted a b ?ys zs \<and> i + 1 \<le> cur \<and> cur < b \<and>
      (\<forall>k. a \<le> k \<and> k < cur \<longrightarrow> zs ! k \<le> p) \<and> (\<forall>k. cur \<le> k \<and> k < b \<longrightarrow> p \<le> zs ! k) \<and> (i + 1 < i \<longrightarrow> i + 1 < cur)"
    proof (rule less.IH [OF j(3)])
      show "?ys ! k \<le> p" if "a \<le> k" "k < i + 1" for k using that True lo j(4) by (auto simp: n less_Suc_eq)
      show "p \<le> ?ys ! k" if "j \<le> k" "k < b" for k using that True hi i(4) by (auto simp: n order_le_less)
      show "p \<le> ?ys ! j" "?ys ! i \<le> p" using True i(4) j(4) by (simp_all add: n)
    qed (use True b pr(1-3) j(3) in auto)
    then obtain cur zs where c: "my_unguarded_partition (i + 1) j p ?ys = Some (cur, zs)" "permuted a b ?ys zs" "i + 1 \<le> cur" "cur < b"
      "\<forall>k. a \<le> k \<and> k < cur \<longrightarrow> zs ! k \<le> p" "\<forall>k. cur \<le> k \<and> k < b \<longrightarrow> p \<le> zs ! k" by blast
    have "permuted a b xs zs" by (rule permuted_trans [OF permuted_swap c(2)]) (use True b pr(3) in auto)
    moreover have "my_unguarded_partition f l p xs = Some (cur, zs)" using c(1) i(1) j(1) True by (subst my_unguarded_partition.simps) simp
    moreover have "f < cur" using i(2) c(3) by simp
    ultimately show ?thesis using c(4-6) by auto
  qed
qed

text \<open>The pivot is a median of three elements of the range, so both scans are stopped inside, and both parts are not empty.\<close>

lemma median_two:
  "(x \<le> my_median x y z \<and> y \<le> my_median x y z) \<or> (x \<le> my_median x y z \<and> z \<le> my_median x y z) \<or> (y \<le> my_median x y z \<and> z \<le> my_median x y z)"
  "my_median x y z \<in> {x, y, z}"
  by (auto simp: my_median_def)

lemma partition_median:
  assumes "2 < b - a" "b \<le> length xs"
  defines "p \<equiv> my_median (xs ! a) (xs ! (a + (b - a) div 2)) (xs ! (b - 1))"
  shows "\<exists>cur ys. my_unguarded_partition a b p xs = Some (cur, ys) \<and> permuted a b xs ys \<and> a < cur \<and> cur < b \<and>
    (\<forall>k. a \<le> k \<and> k < cur \<longrightarrow> ys ! k \<le> p) \<and> (\<forall>k. cur \<le> k \<and> k < b \<longrightarrow> p \<le> ys ! k)"
proof -
  let ?m = "a + (b - a) div 2"
  have m: "a < ?m" "?m < b" "a < b - 1" "b - 1 < b" "a < b" using assms(1) by auto
  have "p = xs ! a \<or> p = xs ! ?m \<or> p = xs ! (b - 1)" using median_two(2) [of "xs ! a" "xs ! ?m" "xs ! (b - 1)"] by (simp add: p_def)
  then obtain u where u: "a \<le> u" "u < b" "p \<le> xs ! u" using m by (metis less_imp_le order_refl)
  obtain d where d: "a < d" "d < b" "xs ! d \<le> p" using median_two(1) [of "xs ! a" "xs ! ?m" "xs ! (b - 1)"] m unfolding p_def by blast
  have "\<exists>cur ys. my_unguarded_partition a b p xs = Some (cur, ys) \<and> permuted a b xs ys \<and> a \<le> cur \<and> cur < b \<and>
    (\<forall>k. a \<le> k \<and> k < cur \<longrightarrow> ys ! k \<le> p) \<and> (\<forall>k. cur \<le> k \<and> k < b \<longrightarrow> p \<le> ys ! k) \<and> (a < d \<longrightarrow> a < cur)"
    by (rule partition_loop [where u = u]) (use u d assms(2) in auto)
  then show ?thesis using d(1) by blast
qed

section \<open>Partial sort\<close>

lemma pop_into_correct:
  assumes h: "is_heap m xs" and i: "0 < m" "m \<le> i" "i < length xs"
  shows "is_heap m (pop_into m i xs)" "mset (pop_into m i xs) = mset xs" "length (pop_into m i xs) = length xs"
    and "\<And>k. m \<le> k \<Longrightarrow> k < length xs \<Longrightarrow> pop_into m i xs ! k = (if k = i then xs ! 0 else xs ! k)"
proof -
  let ?ys = "xs[i := xs ! 0, 0 := xs ! i]"
  have s: "?ys = my_swap i 0 xs" using i by (simp add: my_swap_def list_update_swap)
  have l0: "0 < length xs" using i by auto
  have k: "sinking 0 0 m ?ys"
  proof -
    have c: "xs ! c \<le> xs ! parent c" if "0 < c" "c < m" for c using h that by (simp add: heap_from_def)
    have n: "?ys ! c = xs ! c" if "0 < c" "c < m" for c using that i by simp
    have "?ys ! d \<le> ?ys ! parent d" if "0 < d" "d < m" "parent d \<noteq> 0" for d
      using n [OF that(1,2)] n [of "parent d"] c [OF that(1,2)] that parent_less [of d] by simp
    then show ?thesis unfolding sinking_def by simp
  qed
  show "is_heap m (pop_into m i xs)" unfolding pop_into_def by (rule adjust_heap_from [OF k]) (use i in simp_all)
  have a: "m \<le> length ?ys" using i by simp
  note r = my_adjust_heap_mset [OF a, of 0]
  show "mset (pop_into m i xs) = mset xs" "length (pop_into m i xs) = length xs"
    using r mset_my_swap [OF i(3) l0] unfolding pop_into_def s by simp_all
  show "pop_into m i xs ! k = (if k = i then xs ! 0 else xs ! k)" if "m \<le> k" "k < length xs" for k
    using r that i unfolding pop_into_def by auto
qed

lemma pop_into_max:
  assumes h: "is_heap m xs" and i: "0 < m" "m \<le> i" "i < length xs" "xs ! i < xs ! 0"
  shows "pop_into m i xs ! 0 \<le> xs ! 0"
proof -
  let ?ys = "xs[i := xs ! 0, 0 := xs ! i]"
  have a: "m \<le> length ?ys" using i by simp
  have "permuted 0 m ?ys (pop_into m i xs)"
    using my_adjust_heap_mset [OF a, of 0] unfolding permuted_def pop_into_def by blast
  then obtain c where c: "c < m" "pop_into m i xs ! 0 = ?ys ! c" using permuted_ex [of 0 m ?ys "pop_into m i xs" 0] i a by auto
  show ?thesis
  proof (cases "c = 0")
    case True
    have "0 < length xs" using i by auto
    then show ?thesis using c(2) i True by simp
  next
    case False
    then show ?thesis using c i heap_root_max [OF h c(1)] by simp
  qed
qed

lemma partial_loop_correct:
  assumes "is_heap m xs" "0 < m" "m \<le> i" "i \<le> n" "n = length xs" "\<And>k. m \<le> k \<Longrightarrow> k < i \<Longrightarrow> xs ! 0 \<le> xs ! k"
  shows "is_heap m (partial_loop m [i..<n] xs) \<and> mset (partial_loop m [i..<n] xs) = mset xs \<and> length (partial_loop m [i..<n] xs) = n \<and>
    (\<forall>k. m \<le> k \<and> k < n \<longrightarrow> partial_loop m [i..<n] xs ! 0 \<le> partial_loop m [i..<n] xs ! k)"
  using assms
proof (induction "n - i" arbitrary: i xs)
  case 0
  then show ?case by simp
next
  case (Suc d)
  then have e: "[i..<n] = i # [Suc i..<n]" "i < length xs" "d = n - Suc i" by (simp_all add: upt_conv_Cons)
  let ?ys = "if xs ! i < xs ! 0 then pop_into m i xs else xs"
  note p = pop_into_correct [OF Suc.prems(1-3) e(2)]
  have "?ys ! 0 \<le> ?ys ! k" if k: "m \<le> k" "k < Suc i" for k
  proof (cases "xs ! i < xs ! 0")
    case True
    have "pop_into m i xs ! 0 \<le> xs ! 0" by (rule pop_into_max [OF Suc.prems(1-3) e(2) True])
    moreover have "xs ! 0 \<le> pop_into m i xs ! k" using p(4) [of k] k e(2) Suc.prems(6) [of k] by (cases "k = i") auto
    ultimately show ?thesis using True by auto
  next
    case False
    then show ?thesis using Suc.prems(6) [of k] k by (cases "k = i") auto
  qed
  moreover have "is_heap m ?ys" "mset ?ys = mset xs" "length ?ys = n" using p(1-3) Suc.prems(1,5) by simp_all
  ultimately show ?case using Suc.hyps(1) [of "Suc i" ?ys] e Suc.prems(2-5) by (simp only: partial_loop.simps) simp
qed

lemma sort_heap_range:
  "is_heap n xs \<Longrightarrow> n \<le> b \<Longrightarrow> b \<le> length xs \<Longrightarrow> sorted_range n b xs \<Longrightarrow> (\<And>i k. i < n \<Longrightarrow> n \<le> k \<Longrightarrow> k < b \<Longrightarrow> xs ! i \<le> xs ! k) \<Longrightarrow>
   sorted_range 0 b (my_sort_heap n xs) \<and> permuted 0 n xs (my_sort_heap n xs)"
proof (induction n arbitrary: xs)
  case (Suc n)
  show ?case
  proof (cases "n = 0")
    case True
    have "xs ! i \<le> xs ! j" if "i \<le> j" "j < b" for i j
      using that Suc.prems(4,5) True unfolding sorted_range_def by (cases "i = 0"; cases "j = 0") auto
    then show ?thesis using True by (simp add: sorted_range_def)
  next
    case False
    let ?ys = "my_pop_heap (Suc n) xs"
    have n: "0 < Suc n" "Suc n \<le> length xs" using Suc.prems(2,3) by simp_all
    note p = my_pop_heap_correct [OF Suc.prems(1) n]
    have perm: "permuted 0 (Suc n) xs ?ys" using p(2,4,5) unfolding permuted_def by auto
    have max: "?ys ! i \<le> xs ! 0" if i: "i < Suc n" for i
    proof -
      obtain j where "j < Suc n" "?ys ! i = xs ! j" using permuted_ex [OF perm n(2) _ i] by auto
      then show ?thesis using heap_root_max [OF Suc.prems(1)] by simp
    qed
    have up: "xs ! 0 \<le> ?ys ! k" if "n \<le> k" "k < b" for k
      using that p(3) p(5) [of k] Suc.prems(5) [of 0 k] by (cases "k = n") auto
    have "sorted_range n b ?ys" unfolding sorted_range_def
    proof (intro allI impI)
      fix i j assume h: "n \<le> i \<and> i \<le> j \<and> j < b"
      show "?ys ! i \<le> ?ys ! j"
      proof (cases "i = n")
        case True
        then show ?thesis using p(3) up [of j] h by auto
      next
        case False
        then show ?thesis using p(5) [of i] p(5) [of j] h Suc.prems(4) unfolding sorted_range_def by auto
      qed
    qed
    moreover have "?ys ! i \<le> ?ys ! k" if "i < n" "n \<le> k" "k < b" for i k using max [of i] up [of k] that by auto
    ultimately have r: "sorted_range 0 b (my_sort_heap n ?ys) \<and> permuted 0 n ?ys (my_sort_heap n ?ys)"
      using Suc.IH [of ?ys] p(1,4) Suc.prems(2,3) by simp
    then have "permuted 0 (Suc n) xs (my_sort_heap n ?ys)" using permuted_trans [OF perm permuted_mono [of 0 n ?ys _ 0 "Suc n"]] by simp
    then show ?thesis using r False by simp
  qed
qed (simp add: sorted_range_def)

lemma partial_sort_range_correct:
  assumes m: "0 < m" "m \<le> length xs"
  shows "mset (partial_sort_range m xs) = mset xs \<and> length (partial_sort_range m xs) = length xs \<and>
    sorted_range 0 m (partial_sort_range m xs) \<and>
    (\<forall>i k. i < m \<and> m \<le> k \<and> k < length xs \<longrightarrow> partial_sort_range m xs ! i \<le> partial_sort_range m xs ! k)"
proof -
  let ?h = "my_make_heap m xs" and ?n = "length xs"
  let ?p = "partial_loop m [m..<?n] ?h"
  note h = my_make_heap_correct [OF m(2)]
  have p: "is_heap m ?p" "mset ?p = mset xs" "length ?p = ?n" "\<And>k. m \<le> k \<Longrightarrow> k < ?n \<Longrightarrow> ?p ! 0 \<le> ?p ! k"
    using partial_loop_correct [OF h(1) m(1) order_refl m(2)] h(2,3) by simp_all
  have e: "partial_sort_range m xs = my_sort_heap m ?p" by (simp add: partial_sort_range_def)
  have s: "sorted_range 0 m (my_sort_heap m ?p)" "permuted 0 m ?p (my_sort_heap m ?p)"
  proof -
    have "sorted_range m m ?p" by (auto simp: sorted_range_def)
    then show "sorted_range 0 m (my_sort_heap m ?p)" "permuted 0 m ?p (my_sort_heap m ?p)"
      using sort_heap_range [OF p(1) order_refl] m p(3) by simp_all
  qed
  have "my_sort_heap m ?p ! i \<le> my_sort_heap m ?p ! k" if h: "i < m" "m \<le> k" "k < ?n" for i k
  proof -
    obtain j where j: "j < m" "my_sort_heap m ?p ! i = ?p ! j" using permuted_ex [OF s(2), of i] h(1) m(2) p(3) by auto
    have "?p ! j \<le> ?p ! 0" by (rule heap_root_max [OF p(1) j(1)])
    then show ?thesis using j(2) p(4) [OF h(2,3)] permuted_outside [OF s(2), of k] h p(3) by auto
  qed
  then show ?thesis using s p(2,3) unfolding e by (auto simp: permuted_def)
qed

lemma my_partial_sort_correct:
  assumes "a < c" "c \<le> b" "b \<le> length xs"
  shows "permuted a b xs (my_partial_sort a c b xs) \<and> sorted_range a c (my_partial_sort a c b xs) \<and>
    (\<forall>i k. a \<le> i \<and> i < c \<and> c \<le> k \<and> k < b \<longrightarrow> my_partial_sort a c b xs ! i \<le> my_partial_sort a c b xs ! k)"
proof -
  let ?s = "drop a (take b xs)"
  let ?r = "partial_sort_range (c - a) ?s"
  have l: "length ?s = b - a" "0 < c - a" "c - a \<le> length ?s" using assms by simp_all
  note r = partial_sort_range_correct [OF l(2,3)]
  have n: "my_partial_sort a c b xs ! k = (if a \<le> k \<and> k < b then ?r ! (k - a) else xs ! k)" if "k < length xs" for k
    using r l(1) assms that by (auto simp: my_partial_sort_def nth_append min_def)
  have "mset (my_partial_sort a c b xs) = mset (take a xs) + mset ?s + mset (drop b xs)" using r by (simp add: my_partial_sort_def)
  also have "\<dots> = mset (take a (take b xs) @ drop a (take b xs)) + mset (drop b xs)" using assms by (simp add: min_def del: append_take_drop_id)
  also have "\<dots> = mset xs" by (metis append_take_drop_id mset_append)
  finally have m: "mset (my_partial_sort a c b xs) = mset xs" .
  then have "permuted a b xs (my_partial_sort a c b xs)" using n by (auto simp: permuted_def dest: mset_eq_length)
  moreover have "sorted_range a c (my_partial_sort a c b xs)" using r n assms unfolding sorted_range_def by (auto simp: diff_le_mono diff_less_mono)
  moreover have "my_partial_sort a c b xs ! i \<le> my_partial_sort a c b xs ! k" if "a \<le> i" "i < c" "c \<le> k" "k < b" for i k
    using r n that assms l(1) by (auto simp: diff_le_mono diff_less_mono)
  ultimately show ?thesis by blast
qed

section \<open>Sort\<close>

lemma introsort_roughly:
  "a \<le> b \<Longrightarrow> b \<le> length xs \<Longrightarrow> \<exists>ys. my_introsort_loop d a b xs = Some ys \<and> permuted a b xs ys \<and> roughly a b ys"
proof (induction d arbitrary: a b xs)
  case 0
  show ?case
  proof (cases "my_stl_threshold < b - a")
    case True
    then have "a < b" by simp
    then show ?thesis using my_partial_sort_correct [of a b b xs] True 0 by (auto simp: sorted_range_def roughly_def)
  qed (auto simp: roughly_def)
next
  case (Suc d)
  show ?case
  proof (cases "my_stl_threshold < b - a")
    case False
    then show ?thesis by (auto simp: roughly_def)
  next
    case True
    define p where "p = my_median (xs ! a) (xs ! (a + (b - a) div 2)) (xs ! (b - 1))"
    have "2 < b - a" using True by (simp add: my_stl_threshold_def)
    from partition_median [OF this Suc.prems(2)] obtain cur ys where c: "my_unguarded_partition a b p xs = Some (cur, ys)"
      "permuted a b xs ys" "a < cur" "cur < b" "\<And>k. a \<le> k \<Longrightarrow> k < cur \<Longrightarrow> ys ! k \<le> p" "\<And>k. cur \<le> k \<Longrightarrow> k < b \<Longrightarrow> p \<le> ys ! k"
      unfolding p_def by blast
    have l: "length ys = length xs" by (rule permuted_length [OF c(2)])
    obtain zs where z: "my_introsort_loop d cur b ys = Some zs" "permuted cur b ys zs" "roughly cur b zs"
      using Suc.IH [of cur b ys] c(4) l Suc.prems(2) by auto
    have lz: "length zs = length xs" using permuted_length [OF z(2)] l by simp
    obtain ws where w: "my_introsort_loop d a cur zs = Some ws" "permuted a cur zs ws" "roughly a cur ws"
      using Suc.IH [of a cur zs] c(3,4) lz Suc.prems(2) by auto
    have left: "ws ! k \<le> p" if k: "a \<le> k" "k < cur" for k
    proof (rule permuted_all [OF w(2) _ _ k])
      show "cur \<le> length zs" using c(4) lz Suc.prems(2) by simp
      show "zs ! j \<le> p" if "a \<le> j" "j < cur" for j
        using permuted_outside [OF z(2), of j] c(4,5) that l Suc.prems(2) by auto
    qed
    have keep: "ws ! k = zs ! k" if "cur \<le> k" "k < b" for k
      using permuted_outside [OF w(2), of k] that lz Suc.prems(2) by auto
    have right: "p \<le> ws ! k" if k: "cur \<le> k" "k < b" for k
    proof -
      have "p \<le> zs ! k" by (rule permuted_all [OF z(2) _ _ k]) (use c(6) l Suc.prems(2) in auto)
      then show ?thesis using keep k by simp
    qed
    have "roughly a b ws" unfolding roughly_def
    proof (intro allI impI)
      fix i j assume h: "a \<le> i \<and> i + my_stl_threshold \<le> j \<and> j < b"
      consider "j < cur" | "i < cur" "cur \<le> j" | "cur \<le> i" by linarith
      then show "ws ! i \<le> ws ! j"
      proof cases
        case 1
        then show ?thesis using w(3) h unfolding roughly_def by blast
      next
        case 2
        then show ?thesis using left [of i] right [of j] h by simp
      next
        case 3
        then show ?thesis using z(3) h keep [of i] keep [of j] unfolding roughly_def by auto
      qed
    qed
    moreover have "permuted a b xs ws"
      using permuted_trans [OF c(2) permuted_trans [OF permuted_mono [OF z(2)] permuted_mono [OF w(2)]]] c(3,4) by simp
    ultimately show ?thesis using c(1) z(1) w(1) True by (simp add: p_def)
  qed
qed

text \<open>C6: \<open>my_sort\<close> sorts every array over a linear order: whether the quicksort loop runs to its end or its depth
  bound hands a part over to heap sort, the loops without a bound check (of the partition and of the last insertion sort) stay
  inside the range, everything ends, and the result is the sorted permutation of the input.\<close>

theorem my_sort_sorts: "\<exists>ys. my_sort xs = Some ys \<and> sorted ys \<and> mset ys = mset xs"
proof (cases "xs = []")
  case False
  obtain ys where y: "my_introsort_loop (my_lg (length xs) * 2) 0 (length xs) xs = Some ys" "permuted 0 (length xs) xs ys" "roughly 0 (length xs) ys"
    using introsort_roughly [of 0 "length xs" xs] by blast
  have l: "length ys = length xs" by (rule permuted_length [OF y(2)])
  obtain zs where z: "my_final_insertion_sort 0 (length xs) ys = Some zs" "permuted 0 (length xs) ys zs" "sorted_range 0 (length xs) zs"
    using final_insertion_sort_sorts [of 0 "length xs" ys] y(3) l by auto
  have "sorted zs" using z(3) permuted_length [OF z(2)] l by (simp add: sorted_iff_nth_mono sorted_range_def)
  moreover have "mset zs = mset xs" using z(2) y(2) by (simp add: permuted_def)
  ultimately show ?thesis using y(1) z(1) False by (simp add: my_sort_def)
qed (simp add: my_sort_def)

text \<open>\<open>my_nth_element\<close> always ends (every partition leaves two smaller, non-empty parts) and puts the element
  that belongs at a position there, with no larger one before and no smaller one behind it.\<close>

theorem my_nth_element_selects:
  assumes "first \<le> nt" "nt < lst" "lst \<le> length xs"
  shows "\<exists>ys. my_nth_element first nt lst xs = Some ys \<and> permuted first lst xs ys \<and>
    (\<forall>k. first \<le> k \<and> k < nt \<longrightarrow> ys ! k \<le> ys ! nt) \<and> (\<forall>k. nt < k \<and> k < lst \<longrightarrow> ys ! nt \<le> ys ! k)"
  using assms
proof (induction "lst - first" arbitrary: first lst xs rule: less_induct)
  case less
  note pr = less.prems
  let ?a = first and ?b = lst
  show ?case
  proof (cases "3 < lst - first")
    case False
    then have "my_nth_element ?a nt ?b xs = my_insertion_sort ?a ?b xs" by (subst my_nth_element.simps) simp
    then show ?thesis using insertion_sort_sorts [of ?a ?b xs] pr by (auto simp: sorted_range_def)
  next
    case True
    define p where "p = my_median (xs ! ?a) (xs ! (?a + (?b - ?a) div 2)) (xs ! (?b - 1))"
    have "2 < ?b - ?a" using True by simp
    from partition_median [OF this pr(3)] obtain cut ys where c: "my_unguarded_partition ?a ?b p xs = Some (cut, ys)"
      "permuted ?a ?b xs ys" "?a < cut" "cut < ?b" "\<And>k. ?a \<le> k \<Longrightarrow> k < cut \<Longrightarrow> ys ! k \<le> p" "\<And>k. cut \<le> k \<Longrightarrow> k < ?b \<Longrightarrow> p \<le> ys ! k"
      unfolding p_def by blast
    have l: "length ys = length xs" by (rule permuted_length [OF c(2)])
    have step: "my_nth_element ?a nt ?b xs = (if cut \<le> nt then my_nth_element cut nt ?b ys else my_nth_element ?a nt cut ys)"
      using True c(1) by (subst my_nth_element.simps) (simp add: p_def)
    show ?thesis
    proof (cases "cut \<le> nt")
      case le: True
      have "?b - cut < ?b - ?a" using c(3,4) by arith
      then obtain zs where z: "my_nth_element cut nt ?b ys = Some zs" "permuted cut ?b ys zs" "\<forall>k. cut \<le> k \<and> k < nt \<longrightarrow> zs ! k \<le> zs ! nt"
        "\<forall>k. nt < k \<and> k < ?b \<longrightarrow> zs ! nt \<le> zs ! k"
        using less.hyps [of ?b cut ys] le pr l by auto
      have "p \<le> zs ! nt" by (rule permuted_all [OF z(2) _ _ le pr(2)]) (use c(6) l pr(3) in auto)
      moreover have "zs ! k \<le> p" if "?a \<le> k" "k < cut" for k
        using permuted_outside [OF z(2), of k] c(4,5) that l pr(3) by auto
      ultimately have "zs ! k \<le> zs ! nt" if "?a \<le> k" "k < nt" for k using z(3) that by (cases "k < cut") (auto intro: order_trans)
      moreover have "permuted ?a ?b xs zs" using permuted_trans [OF c(2) permuted_mono [OF z(2)]] c(3) by simp
      ultimately show ?thesis using step le z(1,4) by auto
    next
      case gt: False
      have "cut - ?a < ?b - ?a" using c(3,4) by arith
      then obtain zs where z: "my_nth_element ?a nt cut ys = Some zs" "permuted ?a cut ys zs" "\<forall>k. ?a \<le> k \<and> k < nt \<longrightarrow> zs ! k \<le> zs ! nt"
        "\<forall>k. nt < k \<and> k < cut \<longrightarrow> zs ! nt \<le> zs ! k"
        using less.hyps [of cut ?a ys] c(4) gt pr l by auto
      have "zs ! nt \<le> p" by (rule permuted_all [OF z(2) _ _ pr(1)]) (use c(4,5) gt l pr(3) in auto)
      moreover have "p \<le> zs ! k" if "cut \<le> k" "k < ?b" for k
        using permuted_outside [OF z(2), of k] c(6) that l pr(3) by auto
      ultimately have "zs ! nt \<le> zs ! k" if "nt < k" "k < ?b" for k using z(4) that by (cases "k < cut") (auto intro: order_trans)
      moreover have "permuted ?a ?b xs zs" using permuted_trans [OF c(2) permuted_mono [OF z(2)]] c(4) by simp
      ultimately show ?thesis using step gt z(1,3) by auto
    qed
  qed
qed

theorem my_nth_element_selects_witness:
  "\<exists>ys. my_nth_element 0 2 5 [5, 3, 1, 4, 2 :: nat] = Some ys \<and> permuted 0 5 [5, 3, 1, 4, 2] ys \<and>
    (\<forall>k. 0 \<le> k \<and> k < 2 \<longrightarrow> ys ! k \<le> ys ! 2) \<and> (\<forall>k. 2 < k \<and> k < 5 \<longrightarrow> ys ! 2 \<le> ys ! k)"
  by (rule my_nth_element_selects) simp_all

end
