(* ===== verification/Stl_Rotate.thy ===== *)
theory Stl_Rotate
  imports Stl_Introsort
begin

text \<open>
  \<open>my_reverse\<close>, the three versions of \<open>my_rotate\<close>, and \<open>my_partition\<close> of mystl/my_stl_algo.h, on a range of
  positions of a list.
\<close>

section \<open>Reversal\<close>

function my_reverse_bidirectional :: "nat \<Rightarrow> nat \<Rightarrow> 'a list \<Rightarrow> 'a list" where
  "my_reverse_bidirectional first lst xs =
     (if lst \<le> first then xs
      else if first = lst - 1 then xs
      else my_reverse_bidirectional (first + 1) (lst - 1) (my_swap first (lst - 1) xs))"
  by pat_completeness auto
termination by (relation "measure (\<lambda>(first, lst, xs). lst - first)") auto

function my_reverse_random :: "nat \<Rightarrow> nat \<Rightarrow> 'a list \<Rightarrow> 'a list" where
  "my_reverse_random first lst xs =
     (if first < lst then my_reverse_random (first + 1) (lst - 1) (my_swap first (lst - 1) xs) else xs)"
  by pat_completeness auto
termination by (relation "measure (\<lambda>(first, lst, xs). lst - first)") auto

declare my_reverse_bidirectional.simps [simp del] my_reverse_random.simps [simp del]

lemma swap_middle: "my_swap (length us) (Suc (length us + length vs)) (us @ a # vs @ b # ws) = us @ b # vs @ a # ws"
  by (simp add: my_swap_def nth_append list_update_append)

lemma reverse_random_middle: "my_reverse_random (length us) (length us + length vs) (us @ vs @ ws) = us @ rev vs @ ws"
proof (induction "length vs" arbitrary: us vs ws rule: less_induct)
  case less
  show ?case
  proof (cases vs)
    case Nil
    then show ?thesis by (simp add: my_reverse_random.simps)
  next
    case (Cons a vs')
    show ?thesis
    proof (cases vs' rule: rev_cases)
      case Nil
      then show ?thesis using Cons by (simp add: my_reverse_random.simps my_swap_def)
    next
      case (snoc ts b)
      have "my_reverse_random (length us) (length us + length vs) (us @ vs @ ws) =
        my_reverse_random (length us + 1) (length us + 1 + length ts) (us @ b # ts @ a # ws)"
        using swap_middle [of us ts a b ws] Cons snoc by (subst my_reverse_random.simps) (simp add: algebra_simps)
      also have "\<dots> = us @ b # rev ts @ a # ws" using less [of ts "us @ [b]" "a # ws"] Cons snoc by simp
      finally show ?thesis using Cons snoc by simp
    qed
  qed
qed

lemma reverse_same: "my_reverse_bidirectional first lst xs = my_reverse_random first lst xs"
proof (induction first lst xs rule: my_reverse_random.induct)
  case (1 first lst xs)
  have e: "my_swap first first xs = xs" by (simp add: my_swap_def)
  show ?case
  proof (cases "first = lst - 1")
    case True
    then show ?thesis using e by (subst my_reverse_bidirectional.simps, subst my_reverse_random.simps, subst my_reverse_random.simps) simp
  next
    case False
    then show ?thesis using 1 by (subst my_reverse_bidirectional.simps, subst my_reverse_random.simps) simp
  qed
qed

text \<open>Both versions of \<open>my_reverse\<close> reverse their range and leave the rest of the sequence alone.\<close>

theorem my_reverse_correct:
  "my_reverse_random (length us) (length us + length vs) (us @ vs @ ws) = us @ rev vs @ ws \<and>
   my_reverse_bidirectional (length us) (length us + length vs) (us @ vs @ ws) = us @ rev vs @ ws"
  by (simp add: reverse_same reverse_random_middle)

section \<open>Rotation\<close>

text \<open>The forward version: \<open>None\<close> is a step outside the list.\<close>

function rotate_forward :: "nat \<Rightarrow> nat \<Rightarrow> nat \<Rightarrow> nat \<Rightarrow> 'a list \<Rightarrow> 'a list option" where
  "rotate_forward first i middle lst xs =
     (if length xs \<le> first \<or> length xs \<le> i then None
      else let ys = my_swap first i xs; first = first + 1; i = i + 1 in
        if first = middle then (if i = lst then Some ys else rotate_forward first i i lst ys)
        else if i = lst then rotate_forward first middle middle lst ys
        else rotate_forward first i middle lst ys)"
  by pat_completeness auto
termination by (relation "measure (\<lambda>(first, i, middle, lst, xs). length xs - first)") auto

definition rotate_bidirectional :: "nat \<Rightarrow> nat \<Rightarrow> nat \<Rightarrow> 'a list \<Rightarrow> 'a list" where
  "rotate_bidirectional first middle lst xs =
     my_reverse_bidirectional first lst (my_reverse_bidirectional middle lst (my_reverse_bidirectional first middle xs))"

function my_gcd :: "nat \<Rightarrow> nat \<Rightarrow> nat" where
  "my_gcd m n = (if n \<noteq> 0 then my_gcd n (m mod n) else m)"
  by pat_completeness auto
termination by (relation "measure snd") auto

text \<open>One cycle: every element moves to the position its successor leaves.\<close>

definition cycle_next :: "nat \<Rightarrow> nat \<Rightarrow> nat \<Rightarrow> nat \<Rightarrow> nat" where
  "cycle_next first lst shift ptr2 = (if shift < lst - ptr2 then ptr2 + shift else first + (shift - (lst - ptr2)))"

partial_function (option) cycle_loop :: "nat \<Rightarrow> nat \<Rightarrow> nat \<Rightarrow> nat \<Rightarrow> 'a \<Rightarrow> nat \<Rightarrow> nat \<Rightarrow> 'a list \<Rightarrow> 'a list option" where
  "cycle_loop first lst initial shift v ptr1 ptr2 xs =
     (if ptr2 \<noteq> initial
      then cycle_loop first lst initial shift v ptr2 (cycle_next first lst shift ptr2) (xs[ptr1 := xs ! ptr2])
      else Some (xs[ptr1 := v]))"

definition rotate_cycle :: "nat \<Rightarrow> nat \<Rightarrow> nat \<Rightarrow> nat \<Rightarrow> 'a list \<Rightarrow> 'a list option" where
  "rotate_cycle first lst initial shift xs = cycle_loop first lst initial shift (xs ! initial) initial (initial + shift) xs"

fun cycles :: "nat \<Rightarrow> nat \<Rightarrow> nat \<Rightarrow> nat \<Rightarrow> 'a list \<Rightarrow> 'a list option" where
  "cycles 0 first lst shift xs = Some xs"
| "cycles (Suc n) first lst shift xs = Option.bind (rotate_cycle first lst (first + n) shift xs) (cycles n first lst shift)"

definition rotate_random :: "nat \<Rightarrow> nat \<Rightarrow> nat \<Rightarrow> 'a list \<Rightarrow> 'a list option" where
  "rotate_random first middle lst xs = cycles (my_gcd (lst - first) (middle - first)) first lst (middle - first) xs"

text \<open>\<open>my_rotate\<close> with each of them.\<close>

definition my_rotate :: "(nat \<Rightarrow> nat \<Rightarrow> nat \<Rightarrow> 'a list \<Rightarrow> 'a list option) \<Rightarrow> nat \<Rightarrow> nat \<Rightarrow> nat \<Rightarrow> 'a list \<Rightarrow> 'a list option" where
  "my_rotate impl first middle lst xs = (if first = middle \<or> middle = lst then Some xs else impl first middle lst xs)"

declare rotate_forward.simps [simp del] my_gcd.simps [simp del]

text \<open>The forward version, between \<open>first\<close>, \<open>middle\<close>, \<open>i\<close> and \<open>lst\<close>.\<close>

lemma rotate_forward_middle:
  assumes "A \<noteq> []" "E \<noteq> []"
  shows "rotate_forward (length pre) (length pre + length A + length D) (length pre + length A) (length pre + length A + length D + length E)
     (pre @ A @ D @ E @ post) = Some (pre @ E @ D @ A @ post)"
  using assms
proof (induction "length A + length D + length E" arbitrary: pre A D E rule: less_induct)
  case less
  obtain a A' where A: "A = a # A'" using less.prems(1) by (cases A) simp_all
  obtain e E' where E: "E = e # E'" using less.prems(2) by (cases E) simp_all
  let ?p = "pre @ [e]" and ?D = "D @ [a]"
  have sw: "my_swap (length pre) (length pre + length A + length D) (pre @ A @ D @ E @ post) = ?p @ A' @ ?D @ E' @ post"
    using swap_middle [of pre "A' @ D" a e "E' @ post"] A E by (simp add: add.assoc)
  have step: "rotate_forward (length pre) (length pre + length A + length D) (length pre + length A) (length pre + length A + length D + length E)
     (pre @ A @ D @ E @ post) =
    (if A' = [] then (if E' = [] then Some (?p @ A' @ ?D @ E' @ post)
        else rotate_forward (length ?p) (length ?p + length A' + length ?D) (length ?p + length A' + length ?D) (length ?p + length A' + length ?D + length E') (?p @ A' @ ?D @ E' @ post))
     else if E' = [] then rotate_forward (length ?p) (length ?p + length A') (length ?p + length A') (length ?p + length A' + length ?D + length E') (?p @ A' @ ?D @ E' @ post)
     else rotate_forward (length ?p) (length ?p + length A' + length ?D) (length ?p + length A') (length ?p + length A' + length ?D + length E') (?p @ A' @ ?D @ E' @ post))"
    by (subst rotate_forward.simps, unfold Let_def sw) (simp add: A E)
  consider "A' = []" "E' = []" | "A' = []" "E' \<noteq> []" | "A' \<noteq> []" "E' = []" | "A' \<noteq> []" "E' \<noteq> []" by blast
  then show ?case
  proof cases
    case 1
    then show ?thesis unfolding step using A E by simp
  next
    case 2
    have "rotate_forward (length ?p) (length ?p + length ?D + length []) (length ?p + length ?D) (length ?p + length ?D + length [] + length E') (?p @ ?D @ [] @ E' @ post) =
      Some (?p @ E' @ [] @ ?D @ post)" using less.hyps [of "?D" "[]" E' "?p"] 2 A E by simp
    then show ?thesis unfolding step using 2 A E by simp
  next
    case 3
    have "rotate_forward (length ?p) (length ?p + length A' + length []) (length ?p + length A') (length ?p + length A' + length [] + length ?D) (?p @ A' @ [] @ ?D @ post) =
      Some (?p @ ?D @ [] @ A' @ post)" using less.hyps [of A' "[]" "?D" "?p"] 3 A E by simp
    then show ?thesis unfolding step using 3 A E by simp
  next
    case 4
    have "rotate_forward (length ?p) (length ?p + length A' + length ?D) (length ?p + length A') (length ?p + length A' + length ?D + length E') (?p @ A' @ ?D @ E' @ post) =
      Some (?p @ E' @ ?D @ A' @ post)" using less.hyps [of A' "?D" E' "?p"] 4 A E by simp
    then show ?thesis unfolding step using 4 A E by simp
  qed
qed

text \<open>The version on cycles. The positions of a cycle, from the initial one on.\<close>

lemma my_gcd_gcd: "my_gcd m n = gcd m n"
proof (induction m n rule: my_gcd.induct)
  case (1 m n)
  then show ?case by (subst my_gcd.simps) (simp add: gcd_red_nat [symmetric])
qed

definition cycle_pos :: "nat \<Rightarrow> nat \<Rightarrow> nat \<Rightarrow> nat \<Rightarrow> nat \<Rightarrow> nat" where
  "cycle_pos f N s k t = f + (k + t * s) mod N"

definition period :: "nat \<Rightarrow> nat \<Rightarrow> nat" where
  "period N s = (LEAST t. 0 < t \<and> N dvd t * s)"

lemma next_pos: "0 < s \<Longrightarrow> s < N \<Longrightarrow> q < N \<Longrightarrow> cycle_next f (f + N) s (f + q) = f + (q + s) mod N"
  by (auto simp: cycle_next_def mod_if)

lemma step_mod: "((k + t * s) mod N + s) mod N = (k + Suc t * s) mod (N :: nat)"
proof -
  have "k + Suc t * s = k + t * s + s" by simp
  then show ?thesis by (simp only: mod_add_left_eq)
qed

lemma next_cycle: "0 < s \<Longrightarrow> s < N \<Longrightarrow> cycle_next f (f + N) s (cycle_pos f N s k t) = cycle_pos f N s k (Suc t)"
proof -
  assume h: "0 < s" "s < N"
  note step_mod [of k t s N]
  then show ?thesis using next_pos [OF h, of "(k + t * s) mod N" f] h by (simp add: cycle_pos_def)
qed

lemma period: "0 < N \<Longrightarrow> 0 < period N s \<and> N dvd period N s * s"
  unfolding period_def using LeastI [of "\<lambda>t. 0 < t \<and> N dvd t * s" N] by simp

lemma period_least: "0 < t \<Longrightarrow> N dvd t * s \<Longrightarrow> period N s \<le> t"
  unfolding period_def by (rule Least_le) simp

lemma pos_inj:
  assumes "t < u" "u < period N s + t"
  shows "cycle_pos f N s k t \<noteq> cycle_pos f N s k u"
proof
  assume "cycle_pos f N s k t = cycle_pos f N s k u"
  then have e: "(k + u * s) mod N = (k + t * s) mod N" by (simp add: cycle_pos_def)
  have "k + t * s \<le> k + u * s" using assms(1) by simp
  then have "N dvd (k + u * s) - (k + t * s)" using e by (simp only: mod_eq_dvd_iff_nat)
  then have "N dvd (u - t) * s" by (simp add: diff_mult_distrib)
  from period_least [OF _ this] show False using assms by simp
qed

lemma pos_period: "0 < N \<Longrightarrow> cycle_pos f N s k (u + period N s * m) = cycle_pos f N s k u"
proof -
  assume "0 < N"
  then obtain c where "period N s * s = N * c" using period [of N s] by blast
  then have "(u + period N s * m) * s = u * s + N * (c * m)" by (simp add: algebra_simps)
  then have "k + (u + period N s * m) * s = (k + u * s) + N * (c * m)" by simp
  then show ?thesis unfolding cycle_pos_def by (metis mod_mult_self2)
qed

lemma pos_less: "0 < N \<Longrightarrow> \<exists>v < period N s. cycle_pos f N s k u = cycle_pos f N s k v"
  using period [of N s] pos_period [of N f s k "u mod period N s" "u div period N s"] by (intro exI [of _ "u mod period N s"]) simp

lemma cycle_loop_moves:
  assumes "t < period N s" "f + N \<le> length xs" "k < N" "0 < s" "s < N"
  shows "\<exists>zs. cycle_loop f (f + N) (f + k) s v (cycle_pos f N s k t) (cycle_pos f N s k (Suc t)) xs = Some zs \<and> length zs = length xs \<and>
    (\<forall>u. t \<le> u \<and> u < period N s \<longrightarrow> zs ! cycle_pos f N s k u = (if Suc u = period N s then v else xs ! cycle_pos f N s k (Suc u))) \<and>
    (\<forall>p < length xs. (\<forall>u. t \<le> u \<and> u < period N s \<longrightarrow> p \<noteq> cycle_pos f N s k u) \<longrightarrow> zs ! p = xs ! p)"
  using assms(1-3)
proof (induction "period N s - t" arbitrary: t xs)
  case 0
  then show ?case by simp
next
  case (Suc n)
  let ?P = "cycle_pos f N s k" and ?T = "period N s"
  have N: "0 < N" using assms(4,5) by simp
  have b: "?P u < length xs" for u
  proof -
    have "(k + u * s) mod N < N" using N by simp
    then show ?thesis using Suc.prems(2) unfolding cycle_pos_def by linarith
  qed
  have k0: "f + k = ?P 0" using Suc.prems(3) by (simp add: cycle_pos_def)
  show ?case
  proof (cases "Suc t = ?T")
    case True
    have "?P ?T = ?P 0" using pos_period [OF N, of f s k 0 1] by simp
    then have c: "cycle_loop f (f + N) (f + k) s v (?P t) (?P (Suc t)) xs = Some (xs[?P t := v])"
      by (subst cycle_loop.simps) (simp add: k0 True)
    have u: "u = t" if "t \<le> u" "u < ?T" for u using that True by simp
    have "xs[?P t := v] ! ?P u = (if Suc u = ?T then v else xs ! ?P (Suc u))" if "t \<le> u" "u < ?T" for u
      using u [OF that] True b by simp
    moreover have "xs[?P t := v] ! p = xs ! p" if "\<forall>u. t \<le> u \<and> u < ?T \<longrightarrow> p \<noteq> ?P u" for p
      using that Suc.prems(1) by (metis nth_list_update_neq order_refl)
    ultimately show ?thesis using c by (intro exI [of _ "xs[?P t := v]"]) simp
  next
    case False
    let ?ys = "xs[?P t := xs ! ?P (Suc t)]"
    have ne: "?P (Suc t) \<noteq> ?P 0" using pos_inj [of 0 "Suc t" N s f k] False Suc.prems(1) by auto
    have "n = ?T - Suc t" "Suc t < ?T" using Suc.hyps(2) False Suc.prems(1) by auto
    then obtain zs where z: "cycle_loop f (f + N) (f + k) s v (?P (Suc t)) (?P (Suc (Suc t))) ?ys = Some zs" "length zs = length ?ys"
      "\<forall>u. Suc t \<le> u \<and> u < ?T \<longrightarrow> zs ! ?P u = (if Suc u = ?T then v else ?ys ! ?P (Suc u))"
      "\<forall>p < length ?ys. (\<forall>u. Suc t \<le> u \<and> u < ?T \<longrightarrow> p \<noteq> ?P u) \<longrightarrow> zs ! p = ?ys ! p"
      using Suc.hyps(1) [of "Suc t" ?ys] Suc.prems by auto
    have other: "?P u \<noteq> ?P t" if "t < u" "u < ?T" for u using pos_inj [of t u N s f k] that by auto
    have "cycle_loop f (f + N) (f + k) s v (?P t) (?P (Suc t)) xs = Some zs"
      using z(1) ne by (subst cycle_loop.simps) (simp add: k0 next_cycle assms(4,5))
    moreover have "zs ! ?P u = (if Suc u = ?T then v else xs ! ?P (Suc u))" if u: "t \<le> u" "u < ?T" for u
    proof (cases "u = t")
      case True
      then have "zs ! ?P t = ?ys ! ?P t" using z(4) b [of t] other by (metis Suc_le_eq length_list_update)
      then show ?thesis using True False b by simp
    next
      case F: False
      then have "zs ! ?P u = (if Suc u = ?T then v else ?ys ! ?P (Suc u))" using z(3) u by simp
      moreover have "?P (Suc u) \<noteq> ?P t" if "Suc u \<noteq> ?T" using other [of "Suc u"] that u by simp
      ultimately show ?thesis by (metis nth_list_update_neq)
    qed
    moreover have "zs ! p = xs ! p" if p: "p < length xs" "\<forall>u. t \<le> u \<and> u < ?T \<longrightarrow> p \<noteq> ?P u" for p
    proof -
      have "zs ! p = ?ys ! p" using z(4) p by simp
      moreover have "p \<noteq> ?P t" using p(2) Suc.prems(1) by blast
      ultimately show ?thesis by simp
    qed
    ultimately show ?thesis using z(2) by simp
  qed
qed

text \<open>The cycles are the classes modulo the greatest common divisor.\<close>

lemma pos_class: "(k :: nat) < gcd N s \<Longrightarrow> (k + t * s) mod N mod gcd N s = k"
proof -
  assume k: "k < gcd N s"
  have "gcd N s dvd t * s" by (rule dvd_mult) simp
  then obtain c where "t * s = gcd N s * c" by (rule dvdE)
  then have "(k + t * s) mod gcd N s = k" using k by simp
  then show ?thesis by (simp add: mod_mod_cancel)
qed

lemma class_pos:
  assumes "q < N" "q mod gcd N s = k" "0 < s"
  shows "\<exists>t. f + q = cycle_pos f N s k t"
proof -
  obtain x y where x: "s * x = N * y + gcd s N" using bezout_nat [of s N] assms(3) by auto
  define m where "m = q div gcd N s"
  have q: "q = k + m * gcd N s" using assms(2) unfolding m_def by (metis add.commute div_mult_mod_eq)
  have "k + (m * x) * s = k + m * (s * x)" by (simp add: algebra_simps)
  also have "\<dots> = q + N * (m * y)" unfolding x q by (simp add: algebra_simps gcd.commute)
  finally have "(k + (m * x) * s) mod N = q" using assms(1) by simp
  then show ?thesis by (intro exI [of _ "m * x"]) (simp add: cycle_pos_def)
qed

lemma rotate_cycle_class:
  assumes "k < gcd N s" "f + N \<le> length xs" "0 < s" "s < N"
  shows "\<exists>zs. rotate_cycle f (f + N) (f + k) s xs = Some zs \<and> length zs = length xs \<and>
    (\<forall>p < length xs. zs ! p = (if f \<le> p \<and> p < f + N \<and> (p - f) mod gcd N s = k then xs ! (f + (p - f + s) mod N) else xs ! p))"
proof -
  let ?P = "cycle_pos f N s k" and ?T = "period N s" and ?g = "gcd N s"
  have N: "0 < N" using assms(3,4) by simp
  have "?g dvd N - s" by (rule dvd_diff_nat) simp_all
  then have "?g \<le> N - s" using assms(4) by (simp add: dvd_imp_le)
  then have k: "k + s < N" using assms(1,4) by simp
  then have p0: "?P 0 = f + k" "?P 1 = f + k + s" by (simp_all add: cycle_pos_def)
  obtain zs where z: "cycle_loop f (f + N) (f + k) s (xs ! ?P 0) (?P 0) (?P 1) xs = Some zs" "length zs = length xs"
    "\<forall>u. u < ?T \<longrightarrow> zs ! ?P u = (if Suc u = ?T then xs ! ?P 0 else xs ! ?P (Suc u))"
    "\<forall>p < length xs. (\<forall>u. u < ?T \<longrightarrow> p \<noteq> ?P u) \<longrightarrow> zs ! p = xs ! p"
    using cycle_loop_moves [of 0 N s f xs k "xs ! ?P 0"] period [OF N, of s] assms k by auto
  have "?P ?T = ?P 0" using pos_period [OF N, of f s k 0 1] by simp
  then have step: "zs ! ?P u = xs ! ?P (Suc u)" if "u < ?T" for u using z(3) that by auto
  have "zs ! p = (if f \<le> p \<and> p < f + N \<and> (p - f) mod ?g = k then xs ! (f + (p - f + s) mod N) else xs ! p)" if p: "p < length xs" for p
  proof (cases "f \<le> p \<and> p < f + N \<and> (p - f) mod ?g = k")
    case True
    then have "p - f < N" "(p - f) mod ?g = k" by arith+
    then obtain t where "f + (p - f) = ?P t" using class_pos [of "p - f" N s k f] assms(3) by blast
    then obtain u where u: "u < ?T" "p = ?P u" using True pos_less [OF N, of s f k t] by auto
    have "?P (Suc u) = f + (p - f + s) mod N"
      using u(2) step_mod [of k u s N] by (simp only: cycle_pos_def add_diff_cancel_left')
    then show ?thesis using step [OF u(1)] u(2) True by simp
  next
    case False
    have "p \<noteq> ?P u" for u
    proof
      assume "p = ?P u"
      then have "f \<le> p" "p < f + N" "(p - f) mod ?g = k" using N pos_class [OF assms(1), of u] by (simp_all add: cycle_pos_def)
      then show False using False by blast
    qed
    then show ?thesis using z(4) p False by auto
  qed
  moreover have "rotate_cycle f (f + N) (f + k) s xs = Some zs" using z(1) unfolding p0 by (simp add: rotate_cycle_def)
  ultimately show ?thesis using z(2) by blast
qed

lemma cycles_classes:
  assumes "n \<le> gcd N s" "f + N \<le> length xs" "0 < s" "s < N"
  shows "\<exists>zs. cycles n f (f + N) s xs = Some zs \<and> length zs = length xs \<and>
    (\<forall>p < length xs. zs ! p = (if f \<le> p \<and> p < f + N \<and> (p - f) mod gcd N s < n then xs ! (f + (p - f + s) mod N) else xs ! p))"
  using assms(1,2)
proof (induction n arbitrary: xs)
  case (Suc n)
  let ?g = "gcd N s"
  obtain ys where y: "rotate_cycle f (f + N) (f + n) s xs = Some ys" "length ys = length xs"
    "\<forall>p < length xs. ys ! p = (if f \<le> p \<and> p < f + N \<and> (p - f) mod ?g = n then xs ! (f + (p - f + s) mod N) else xs ! p)"
    using rotate_cycle_class [of n N s f xs] Suc.prems assms(3,4) by auto
  obtain zs where z: "cycles n f (f + N) s ys = Some zs" "length zs = length ys"
    "\<forall>p < length ys. zs ! p = (if f \<le> p \<and> p < f + N \<and> (p - f) mod ?g < n then ys ! (f + (p - f + s) mod N) else ys ! p)"
    using Suc.IH [of ys] Suc.prems y(2) by auto
  have "zs ! p = (if f \<le> p \<and> p < f + N \<and> (p - f) mod ?g < Suc n then xs ! (f + (p - f + s) mod N) else xs ! p)" if p: "p < length xs" for p
  proof (cases "f \<le> p \<and> p < f + N \<and> (p - f) mod ?g < n")
    case True
    let ?q = "(p - f + s) mod N"
    have "(p - f + s) mod ?g = (p - f) mod ?g" by (metis gcd_dvd2 mod_add_right_eq add_0_right dvd_imp_mod_0)
    then have "?q mod ?g = (p - f) mod ?g" by (simp add: mod_mod_cancel)
    moreover have q: "?q < N" using assms(4) by simp
    ultimately have "(f + ?q - f) mod ?g \<noteq> n" using True by (metis add_diff_cancel_left' nat_neq_iff)
    moreover have "f + ?q < length xs" using q Suc.prems(2) by linarith
    ultimately have "ys ! (f + ?q) = xs ! (f + ?q)" using y(3) by presburger
    then show ?thesis using True z(3) y(2) p by simp
  next
    case False
    then have "zs ! p = ys ! p" using z(3) y(2) p by auto
    then show ?thesis using y(3) p False by (auto simp: less_Suc_eq)
  qed
  then show ?case using y(1,2) z(1,2) by simp
qed simp

text \<open>The three versions of \<open>my_rotate\<close> agree: by swaps in one pass, by three reversals and by the cycles of a
  shift modulo the length, each exchanges the two parts of the range and ends; the rest of the sequence stays.\<close>

theorem my_rotate_correct:
  fixes pre A B post :: "'a list"
  defines "xs \<equiv> pre @ A @ B @ post" and "first \<equiv> length pre" and "middle \<equiv> length pre + length A" and "lst \<equiv> length pre + length A + length B"
  shows "my_rotate (\<lambda>first middle. rotate_forward first middle middle) first middle lst xs = Some (pre @ B @ A @ post) \<and>
    my_rotate (\<lambda>first middle lst xs. Some (rotate_bidirectional first middle lst xs)) first middle lst xs = Some (pre @ B @ A @ post) \<and>
    my_rotate rotate_random first middle lst xs = Some (pre @ B @ A @ post)"
proof (cases "A = [] \<or> B = []")
  case True
  then show ?thesis by (auto simp: my_rotate_def xs_def first_def middle_def lst_def)
next
  case False
  let ?N = "length A + length B" and ?s = "length A"
  have g: "first \<noteq> middle" "middle \<noteq> lst" using False by (simp_all add: first_def middle_def lst_def)
  have f: "rotate_forward first middle middle lst xs = Some (pre @ B @ A @ post)"
    using rotate_forward_middle [of A B pre "[]" post] False by (simp add: xs_def first_def middle_def lst_def)
  have r1: "my_reverse_random first middle xs = pre @ rev A @ B @ post"
    using reverse_random_middle [of pre A "B @ post"] by (simp add: xs_def first_def middle_def)
  have r2: "my_reverse_random middle lst (pre @ rev A @ B @ post) = pre @ rev A @ rev B @ post"
    using reverse_random_middle [of "pre @ rev A" B post] by (simp add: middle_def lst_def)
  have r3: "my_reverse_random first lst (pre @ rev A @ rev B @ post) = pre @ B @ A @ post"
    using reverse_random_middle [of pre "rev A @ rev B" post] by (simp add: first_def lst_def add.assoc)
  have b: "rotate_bidirectional first middle lst xs = pre @ B @ A @ post"
    by (simp add: rotate_bidirectional_def reverse_same r1 r2 r3)
  have len: "first + ?N \<le> length xs" "0 < ?s" "?s < ?N" using False by (simp_all add: first_def xs_def)
  obtain zs where z: "cycles (gcd ?N ?s) first (first + ?N) ?s xs = Some zs" "length zs = length xs"
    "\<forall>p < length xs. zs ! p = (if first \<le> p \<and> p < first + ?N \<and> (p - first) mod gcd ?N ?s < gcd ?N ?s
       then xs ! (first + (p - first + ?s) mod ?N) else xs ! p)"
    using cycles_classes [OF order_refl len] by auto
  have "zs = pre @ B @ A @ post"
  proof (rule nth_equalityI)
    show "length zs = length (pre @ B @ A @ post)" using z(2) by (simp add: xs_def)
    fix p assume p: "p < length zs"
    then have n: "zs ! p = (if first \<le> p \<and> p < first + ?N then xs ! (first + (p - first + ?s) mod ?N) else xs ! p)"
      using z(2,3) len(2) by auto
    consider "p < first" | "first \<le> p" "p < first + length B" | "first + length B \<le> p" "p < first + ?N" | "first + ?N \<le> p" by linarith
    then show "zs ! p = (pre @ B @ A @ post) ! p"
    proof cases
      case 2
      define d where "d = p - first"
      then have d: "p = first + d" "d < length B" using 2 by simp_all
      then have "zs ! p = xs ! (first + (d + ?s))" using n by simp
      also have "\<dots> = (pre @ B @ A @ post) ! p" using d by (simp add: xs_def first_def nth_append)
      finally show ?thesis .
    next
      case 3
      define d where "d = p - first - length B"
      then have d: "p = first + (length B + d)" "d < length A" using 3 by auto
      have "(length B + d + ?s) mod ?N = d" using d(2) by (simp add: mod_if)
      then have "zs ! p = xs ! (first + d)" using n d by simp
      also have "\<dots> = (pre @ B @ A @ post) ! p" using d by (simp add: xs_def first_def nth_append)
      finally show ?thesis .
    next
      case 4
      define d where "d = p - first - ?N"
      then have "p = first + (length A + (length B + d))" using 4 by simp
      then show ?thesis using n by (simp add: xs_def first_def nth_append)
    qed (simp add: n xs_def first_def nth_append)
  qed
  then have "rotate_random first middle lst xs = Some (pre @ B @ A @ post)"
    using z(1) by (simp add: rotate_random_def my_gcd_gcd first_def middle_def lst_def add.assoc)
  then show ?thesis using f b g by (simp add: my_rotate_def)
qed

end
