(* ===== verification/Stl_Perm.thy ===== *)
theory Stl_Perm
  imports Stl_Rotate
begin

text \<open>
  \<open>my_next_permutation\<close>, \<open>my_prev_permutation\<close> and \<open>my_lexicographical_compare\<close> of mystl/my_stl_algobase.h, and
  \<open>my_partition\<close> of mystl/my_stl_algo.h. The order is a parameter, as for the overloads with a comparison.
\<close>

section \<open>The code\<close>

fun my_lexicographical_compare :: "('a \<Rightarrow> 'a \<Rightarrow> bool) \<Rightarrow> 'a list \<Rightarrow> 'a list \<Rightarrow> bool" where
  "my_lexicographical_compare lt (x # xs) (y # ys) =
     (if lt x y then True else if lt y x then False else my_lexicographical_compare lt xs ys)"
| "my_lexicographical_compare lt [] ys \<longleftrightarrow> ys \<noteq> []"
| "my_lexicographical_compare lt (x # xs) [] \<longleftrightarrow> False"

text \<open>\<open>while (!(*i < *--j)) {}\<close> from the end: \<open>None\<close> runs over the start of the range.\<close>

fun scan_back :: "('a \<Rightarrow> bool) \<Rightarrow> 'a list \<Rightarrow> nat \<Rightarrow> nat option" where
  "scan_back P xs 0 = None"
| "scan_back P xs (Suc j) = (if P (xs ! j) then Some j else scan_back P xs j)"

text \<open>The loop with \<open>i\<close> at the position given, before \<open>--i\<close>.\<close>

fun perm_loop :: "('a \<Rightarrow> 'a \<Rightarrow> bool) \<Rightarrow> nat \<Rightarrow> 'a list \<Rightarrow> (bool \<times> 'a list) option" where
  "perm_loop lt 0 xs = None"
| "perm_loop lt (Suc i) xs =
     (if lt (xs ! i) (xs ! Suc i) then do {
        j \<leftarrow> scan_back (lt (xs ! i)) xs (length xs);
        Some (True, my_reverse_bidirectional (Suc i) (length xs) (my_swap i j xs)) }
      else if i = 0 then Some (False, my_reverse_bidirectional 0 (length xs) xs)
      else perm_loop lt i xs)"

definition my_next_permutation :: "'a::linorder list \<Rightarrow> (bool \<times> 'a list) option" where
  "my_next_permutation xs = (if length xs < 2 then Some (False, xs) else perm_loop (<) (length xs - 1) xs)"

definition my_prev_permutation :: "'a::linorder list \<Rightarrow> (bool \<times> 'a list) option" where
  "my_prev_permutation xs = (if length xs < 2 then Some (False, xs) else perm_loop (>) (length xs - 1) xs)"

section \<open>The next permutation\<close>

definition strict_linear :: "('a \<Rightarrow> 'a \<Rightarrow> bool) \<Rightarrow> bool" where
  "strict_linear lt \<longleftrightarrow> (\<forall>x. \<not> lt x x) \<and> (\<forall>x y z. lt x y \<longrightarrow> lt y z \<longrightarrow> lt x z) \<and> (\<forall>x y. lt x y \<or> x = y \<or> lt y x)"

lemma strict_linear_order [simp]: "strict_linear ((<) :: 'a::linorder \<Rightarrow> _)" "strict_linear ((>) :: 'a::linorder \<Rightarrow> _)"
  by (auto simp: strict_linear_def)

abbreviation falling :: "('a \<Rightarrow> 'a \<Rightarrow> bool) \<Rightarrow> 'a list \<Rightarrow> bool" where
  "falling lt \<equiv> sorted_wrt (\<lambda>x y. \<not> lt x y)"

lemma lex_Cons: "strict_linear lt \<Longrightarrow>
    my_lexicographical_compare lt (x # xs) (y # ys) \<longleftrightarrow> lt x y \<or> x = y \<and> my_lexicographical_compare lt xs ys"
  unfolding strict_linear_def by auto

lemma mset_Cons_cases: "mset zs = mset (x # xs) \<Longrightarrow> \<exists>z zs'. zs = z # zs'"
  by (cases zs) simp_all

lemma falling_max:
  assumes lt: "strict_linear lt"
  shows "falling lt s \<Longrightarrow> mset t = mset s \<Longrightarrow> \<not> my_lexicographical_compare lt s t"
proof (induction s arbitrary: t)
  case (Cons x s)
  obtain y t' where t: "t = y # t'" using mset_Cons_cases [OF Cons.prems(2)] by blast
  have "y \<in> set (x # s)" using Cons.prems(2) t by (metis list.set_intros(1) mset_eq_setD)
  then have "\<not> lt x y" using Cons.prems(1) lt by (auto simp: strict_linear_def)
  moreover have "\<not> my_lexicographical_compare lt s t'" if "x = y" using Cons that t by simp
  ultimately show ?case unfolding t lex_Cons [OF lt] by blast
qed simp

lemma rising_min:
  assumes lt: "strict_linear lt"
  shows "sorted_wrt (\<lambda>x y. \<not> lt y x) r \<Longrightarrow> mset t = mset r \<Longrightarrow> t = r \<or> my_lexicographical_compare lt r t"
proof (induction r arbitrary: t)
  case (Cons x r)
  obtain y t' where t: "t = y # t'" using mset_Cons_cases [OF Cons.prems(2)] by blast
  have "y \<in> set (x # r)" using Cons.prems(2) t by (metis list.set_intros(1) mset_eq_setD)
  then have "\<not> lt y x" using Cons.prems(1) lt by (auto simp: strict_linear_def)
  then have "lt x y \<or> x = y" using lt unfolding strict_linear_def by blast
  moreover have "t' = r \<or> my_lexicographical_compare lt r t'" if "x = y" using Cons that t by simp
  ultimately show ?case unfolding t lex_Cons [OF lt] by blast
qed simp

text \<open>A fall behind \<open>a\<close>, with \<open>y\<close> the last element above \<open>a\<close>.\<close>

lemma next_above:
  assumes lt: "strict_linear lt" "lt a y"
  shows "my_lexicographical_compare lt (p @ a # s) (p @ y # r)"
  using assms by (induction p) (auto simp: lex_Cons)

lemma next_least:
  assumes lt: "strict_linear lt" and s: "falling lt (s1 @ y # s2)" "lt a y" "\<forall>z \<in> set s2. \<not> lt a z"
    and z: "mset zs = mset (p @ a # s1 @ y # s2)" "my_lexicographical_compare lt (p @ a # s1 @ y # s2) zs"
  shows "zs = p @ y # rev (s1 @ a # s2) \<or> my_lexicographical_compare lt (p @ y # rev (s1 @ a # s2)) zs"
  using z
proof (induction p arbitrary: zs)
  case Nil
  obtain z zs' where zs: "zs = z # zs'" using mset_Cons_cases [of zs a "s1 @ y # s2"] Nil.prems(1) by auto
  have tr: "lt x w" if "lt x v" "lt v w" for x v w using lt that unfolding strict_linear_def by blast
  have irr: "\<not> lt x x" for x using lt unfolding strict_linear_def by blast
  from Nil.prems(2) consider "lt a z" | "a = z" "my_lexicographical_compare lt (s1 @ y # s2) zs'"
    unfolding zs append.simps lex_Cons [OF lt] by blast
  then show ?case
  proof cases
    case 1
    have "z \<in> set (a # s1 @ y # s2)" using Nil.prems(1) zs by (metis append_Nil list.set_intros(1) mset_eq_setD)
    then have "z \<in> set s1 \<or> z = y" using 1 irr s(3) by auto
    then have "\<not> lt z y" using s(1) irr by (auto simp: sorted_wrt_append)
    then have "lt y z \<or> y = z" using lt unfolding strict_linear_def by blast
    then show ?thesis
    proof
      assume "y = z"
      then have m: "mset zs' = mset (rev (s1 @ a # s2))" using Nil.prems(1) zs by simp
      have "\<not> lt x a" if "x \<in> set s1" for x using s(1,2) that tr [of x a y] by (auto simp: sorted_wrt_append)
      then have "falling lt (s1 @ a # s2)" using s(1,3) by (auto simp: sorted_wrt_append)
      then have "sorted_wrt (\<lambda>x y. \<not> lt y x) (rev (s1 @ a # s2))" by (simp only: sorted_wrt_rev)
      from rising_min [OF lt this m] show ?thesis unfolding zs append_Nil lex_Cons [OF lt] using \<open>y = z\<close> by blast
    qed (simp add: zs lex_Cons [OF lt])
  next
    case 2
    then have "mset zs' = mset (s1 @ y # s2)" using Nil.prems(1) zs by simp
    with falling_max [OF lt s(1)] 2(2) show ?thesis by blast
  qed
next
  case (Cons q p)
  obtain z zs' where zs: "zs = z # zs'" using mset_Cons_cases [of zs q "p @ a # s1 @ y # s2"] Cons.prems(1) by auto
  show ?case
  proof (cases "q = z")
    case True
    have irr: "\<not> lt z z" using lt unfolding strict_linear_def by blast
    have "my_lexicographical_compare lt (p @ a # s1 @ y # s2) zs'" using Cons.prems(2) True irr unfolding zs append.simps lex_Cons [OF lt] by blast
    moreover have "mset zs' = mset (p @ a # s1 @ y # s2)" using Cons.prems(1) True zs by simp
    ultimately show ?thesis using Cons.IH [of zs'] True zs irr by (auto simp: lex_Cons [OF lt])
  next
    case False
    then show ?thesis using Cons.prems(2) unfolding zs append.simps lex_Cons [OF lt] by blast
  qed
qed

lemma scan_back_at: "j < l \<Longrightarrow> P (xs ! j) \<Longrightarrow> (\<And>m. j < m \<Longrightarrow> m < l \<Longrightarrow> \<not> P (xs ! m)) \<Longrightarrow> scan_back P xs l = Some j"
  by (induction l) (auto simp: less_Suc_eq)

lemma perm_found:
  assumes "lt a y" "lt a (hd (s1 @ [y]))" "\<forall>z \<in> set s2. \<not> lt a z"
  shows "perm_loop lt (Suc (length p)) (p @ a # s1 @ y # s2) = Some (True, p @ y # rev (s1 @ a # s2))"
proof -
  let ?xs = "p @ a # s1 @ y # s2" and ?j = "Suc (length p + length s1)"
  have n: "?xs ! length p = a" "?xs ! Suc (length p) = hd (s1 @ [y])" "?xs ! ?j = y"
    by (cases s1; simp add: nth_append)+
  have "scan_back (lt a) ?xs (length ?xs) = Some ?j"
  proof (rule scan_back_at)
    show "\<not> lt a (?xs ! m)" if "?j < m" "m < length ?xs" for m
    proof -
      define k where "k = m - Suc ?j"
      then have "m = Suc ?j + k" "k < length s2" using that by auto
      then have "?xs ! m = s2 ! k" by (simp add: nth_append)
      then show ?thesis using assms(3) \<open>k < length s2\<close> by simp
    qed
  qed (use assms(1) n in simp_all)
  moreover have "my_swap (length p) ?j ?xs = p @ y # s1 @ a # s2" by (rule swap_middle)
  moreover have "my_reverse_bidirectional (Suc (length p)) (length ?xs) (p @ y # s1 @ a # s2) = p @ y # rev (s1 @ a # s2)"
    using reverse_random_middle [of "p @ [y]" "s1 @ a # s2" "[]"] by (simp add: reverse_same)
  ultimately show ?thesis using assms(2) n by simp
qed

lemma last_above: "P (hd s) \<Longrightarrow> s \<noteq> [] \<Longrightarrow> \<exists>s1 y s2. s = s1 @ y # s2 \<and> P y \<and> P (hd (s1 @ [y])) \<and> (\<forall>z \<in> set s2. \<not> P z)"
  using split_list_last_prop [of s P] by (metis hd_append2 hd_in_set list.sel(1) self_append_conv2 append.left_neutral)

definition perm_post :: "('a \<Rightarrow> 'a \<Rightarrow> bool) \<Rightarrow> 'a list \<Rightarrow> bool \<Rightarrow> 'a list \<Rightarrow> bool" where
  "perm_post lt xs b ys \<longleftrightarrow> mset ys = mset xs \<and>
     (if b then my_lexicographical_compare lt xs ys \<and>
        (\<forall>zs. mset zs = mset xs \<and> my_lexicographical_compare lt xs zs \<longrightarrow> zs = ys \<or> my_lexicographical_compare lt ys zs)
      else falling lt xs \<and> ys = rev xs)"

lemma perm_loop_correct:
  assumes lt: "strict_linear lt"
  shows "i < length xs \<Longrightarrow> 0 < i \<Longrightarrow> falling lt (drop i xs) \<Longrightarrow> \<exists>b ys. perm_loop lt i xs = Some (b, ys) \<and> perm_post lt xs b ys"
proof (induction i)
  case (Suc i)
  let ?n = "length xs"
  have d: "drop i xs = xs ! i # drop (Suc i) xs" "drop (Suc i) xs = xs ! Suc i # drop (Suc (Suc i)) xs"
    using Suc.prems(1) by (simp_all add: Cons_nth_drop_Suc)
  show ?case
  proof (cases "lt (xs ! i) (xs ! Suc i)")
    case False
    have "\<not> lt (xs ! i) y" if "y \<in> set (drop (Suc i) xs)" for y
    proof
      assume "lt (xs ! i) y"
      moreover have "y = xs ! Suc i \<or> \<not> lt (xs ! Suc i) y" using Suc.prems(3) that unfolding d(2) by auto
      ultimately show False using False lt unfolding strict_linear_def by blast
    qed
    then have f: "falling lt (drop i xs)" using Suc.prems(3) unfolding d(1) by auto
    show ?thesis
    proof (cases "i = 0")
      case True
      have "my_reverse_bidirectional 0 ?n xs = rev xs" using reverse_random_middle [of "[]" xs "[]"] by (simp add: reverse_same)
      then show ?thesis using True False f by (auto simp: perm_post_def)
    next
      case i: False
      then show ?thesis using Suc f False by auto
    qed
  next
    case True
    let ?a = "xs ! i" and ?p = "take i xs" and ?s = "drop (Suc i) xs"
    have "lt ?a (hd ?s)" "?s \<noteq> []" using True Suc.prems(1) by (simp_all add: hd_drop_conv_nth)
    from last_above [of "lt ?a" ?s, OF this] obtain s1 y s2 where s: "?s = s1 @ y # s2" "lt ?a y" "lt ?a (hd (s1 @ [y]))" "\<forall>z \<in> set s2. \<not> lt ?a z"
      by blast
    have xs: "?p @ ?a # s1 @ y # s2 = xs" using id_take_nth_drop [of i xs] Suc.prems(1) s(1) by simp
    have l: "length ?p = i" using Suc.prems(1) by simp
    let ?r = "?p @ y # rev (s1 @ ?a # s2)"
    have e: "perm_loop lt (Suc i) xs = Some (True, ?r)" using perm_found [of lt ?a y s1 s2 ?p, OF s(2-4)] unfolding xs l .
    have f: "falling lt (s1 @ y # s2)" using Suc.prems(3) unfolding s(1) .
    have "mset ?r = mset (?p @ ?a # s1 @ y # s2)" by (simp del: append_take_drop_id)
    then have "mset ?r = mset xs" unfolding xs .
    moreover have "my_lexicographical_compare lt xs ?r"
      using next_above [of lt ?a y ?p "s1 @ y # s2" "rev (s1 @ ?a # s2)", OF lt s(2)] unfolding xs by blast
    moreover have "zs = ?r \<or> my_lexicographical_compare lt ?r zs" if "mset zs = mset xs" "my_lexicographical_compare lt xs zs" for zs
      using next_least [of lt s1 y s2 ?a zs ?p, OF lt f s(2,4)] that unfolding xs by blast
    ultimately have "perm_post lt xs True ?r" unfolding perm_post_def by simp
    then show ?thesis using e by blast
  qed
qed simp

lemma short_permutation:
  "length xs < 2 \<Longrightarrow> falling lt xs \<and> rev xs = xs"
  by (cases xs; cases "tl xs") auto

lemma permutation_correct:
  "strict_linear lt \<Longrightarrow> \<exists>b ys. (if length xs < 2 then Some (False, xs) else perm_loop lt (length xs - 1) xs) = Some (b, ys) \<and> perm_post lt xs b ys"
proof (cases "length xs < 2")
  case False
  assume lt: "strict_linear lt"
  have "length (drop (length xs - 1) xs) < 2" by simp
  then have "falling lt (drop (length xs - 1) xs)" using short_permutation by blast
  then show ?thesis using perm_loop_correct [OF lt, of "length xs - 1" xs] False by auto
qed (use short_permutation [of xs lt] in \<open>auto simp: perm_post_def\<close>)

text \<open>\<open>my_next_permutation\<close> returns true with the least permutation above its input in the order of
  \<open>my_lexicographical_compare\<close>, or false with the sorted sequence when the input is the last permutation;
  \<open>my_prev_permutation\<close> does the same downwards. Neither runs over the start of the range.\<close>

theorem my_permutation_correct:
  "\<exists>b ys b' ys'. my_next_permutation xs = Some (b, ys) \<and> mset ys = mset xs \<and>
     (if b then my_lexicographical_compare (<) xs ys \<and>
        (\<forall>zs. mset zs = mset xs \<and> my_lexicographical_compare (<) xs zs \<longrightarrow> zs = ys \<or> my_lexicographical_compare (<) ys zs)
      else sorted ys \<and> (\<forall>zs. mset zs = mset xs \<longrightarrow> \<not> my_lexicographical_compare (<) xs zs)) \<and>
   my_prev_permutation xs = Some (b', ys') \<and> mset ys' = mset xs \<and>
     (if b' then my_lexicographical_compare (>) xs ys' \<and>
        (\<forall>zs. mset zs = mset xs \<and> my_lexicographical_compare (>) xs zs \<longrightarrow> zs = ys' \<or> my_lexicographical_compare (>) ys' zs)
      else sorted (rev ys') \<and> (\<forall>zs. mset zs = mset xs \<longrightarrow> \<not> my_lexicographical_compare (>) xs zs))"
proof -
  obtain b ys where n: "my_next_permutation xs = Some (b, ys)" "perm_post (<) xs b ys"
    unfolding my_next_permutation_def using permutation_correct [of "(<)" xs] by auto
  obtain b' ys' where p: "my_prev_permutation xs = Some (b', ys')" "perm_post (>) xs b' ys'"
    unfolding my_prev_permutation_def using permutation_correct [of "(>)" xs] by auto
  have s: "sorted (rev xs)" if "falling (<) xs" using that by (simp add: sorted_wrt_rev not_less)
  have r: "sorted xs" if "falling (>) xs" using that by (simp add: not_less)
  have m: "\<not> my_lexicographical_compare (<) xs zs" if "falling (<) xs" "mset zs = mset xs" for zs
    by (rule falling_max [OF _ that]) simp
  have m': "\<not> my_lexicographical_compare (>) xs zs" if "falling (>) xs" "mset zs = mset xs" for zs
    by (rule falling_max [OF _ that]) simp
  show ?thesis
    by (rule exI [of _ b], rule exI [of _ ys], rule exI [of _ b'], rule exI [of _ ys'])
      (use n p in \<open>cases b; cases b'; simp add: perm_post_def s r m m'\<close>)
qed

theorem my_permutation_correct_witness:
  "\<exists>b ys b' ys'. my_next_permutation [1, 3, 2 :: nat] = Some (b, ys) \<and> mset ys = mset [1, 3, 2] \<and>
     (if b then my_lexicographical_compare (<) [1, 3, 2] ys \<and>
        (\<forall>zs. mset zs = mset [1, 3, 2 :: nat] \<and> my_lexicographical_compare (<) [1, 3, 2] zs \<longrightarrow> zs = ys \<or> my_lexicographical_compare (<) ys zs)
      else sorted ys \<and> (\<forall>zs. mset zs = mset [1, 3, 2 :: nat] \<longrightarrow> \<not> my_lexicographical_compare (<) [1, 3, 2] zs)) \<and>
   my_prev_permutation [1, 3, 2 :: nat] = Some (b', ys') \<and> mset ys' = mset [1, 3, 2] \<and>
     (if b' then my_lexicographical_compare (>) [1, 3, 2] ys' \<and>
        (\<forall>zs. mset zs = mset [1, 3, 2 :: nat] \<and> my_lexicographical_compare (>) [1, 3, 2] zs \<longrightarrow> zs = ys' \<or> my_lexicographical_compare (>) ys' zs)
      else sorted (rev ys') \<and> (\<forall>zs. mset zs = mset [1, 3, 2 :: nat] \<longrightarrow> \<not> my_lexicographical_compare (>) [1, 3, 2] zs))"
  by (rule my_permutation_correct)

section \<open>Partition\<close>

text \<open>\<open>my_partition\<close> with its two inner loops.\<close>

function part_up :: "('a \<Rightarrow> bool) \<Rightarrow> nat \<Rightarrow> nat \<Rightarrow> 'a list \<Rightarrow> nat" where
  "part_up P first lst xs = (if first < lst \<and> P (xs ! first) then part_up P (first + 1) lst xs else first)"
  by pat_completeness auto
termination by (relation "measure (\<lambda>(P, first, lst, xs). lst - first)") auto

function part_down :: "('a \<Rightarrow> bool) \<Rightarrow> nat \<Rightarrow> nat \<Rightarrow> 'a list \<Rightarrow> nat" where
  "part_down P first lst xs = (if first < lst \<and> \<not> P (xs ! lst) then part_down P first (lst - 1) xs else lst)"
  by pat_completeness auto
termination by (relation "measure (\<lambda>(P, first, lst, xs). lst)") auto

declare part_up.simps [simp del] part_down.simps [simp del]

lemma part_up_bounds: "first \<le> lst \<Longrightarrow> first \<le> part_up P first lst xs \<and> part_up P first lst xs \<le> lst \<and>
    (\<forall>k. first \<le> k \<and> k < part_up P first lst xs \<longrightarrow> P (xs ! k)) \<and> (part_up P first lst xs < lst \<longrightarrow> \<not> P (xs ! part_up P first lst xs))"
proof (induction P first lst xs rule: part_up.induct)
  case (1 P first lst xs)
  show ?case
  proof (cases "first < lst \<and> P (xs ! first)")
    case True
    then have e: "part_up P first lst xs = part_up P (first + 1) lst xs" by (subst part_up.simps) simp
    have h: "first + 1 \<le> lst" using True by simp
    have "P (xs ! k)" if "first \<le> k" "k < part_up P (first + 1) lst xs" for k
      using 1(1) [OF True h] that True by (cases "k = first") auto
    then show ?thesis using 1(1) [OF True h] unfolding e by auto
  next
    case False
    then have "part_up P first lst xs = first" by (subst part_up.simps) (simp only: if_False)
    then show ?thesis using False 1(2) by auto
  qed
qed

lemma part_down_bounds: "first \<le> lst \<Longrightarrow> first \<le> part_down P first lst xs \<and> part_down P first lst xs \<le> lst \<and>
    (\<forall>k. part_down P first lst xs < k \<and> k \<le> lst \<longrightarrow> \<not> P (xs ! k)) \<and> (first < part_down P first lst xs \<longrightarrow> P (xs ! part_down P first lst xs))"
proof (induction P first lst xs rule: part_down.induct)
  case (1 P first lst xs)
  show ?case
  proof (cases "first < lst \<and> \<not> P (xs ! lst)")
    case True
    then have e: "part_down P first lst xs = part_down P first (lst - 1) xs" by (subst part_down.simps) simp
    have h: "first \<le> lst - 1" using True by linarith
    have "\<not> P (xs ! k)" if "part_down P first (lst - 1) xs < k" "k \<le> lst" for k
      using 1(1) [OF True h] that True by (cases "k = lst") auto
    then show ?thesis using 1(1) [OF True h] True unfolding e by auto
  next
    case False
    then have "part_down P first lst xs = lst" by (subst part_down.simps) (simp only: if_False)
    then show ?thesis using False 1(2) by auto
  qed
qed

function my_partition :: "('a \<Rightarrow> bool) \<Rightarrow> nat \<Rightarrow> nat \<Rightarrow> 'a list \<Rightarrow> nat \<times> 'a list" where
  "my_partition P first lst xs =
     (let f = part_up P first lst xs in
      if lst \<le> f then (f, xs)
      else let l = part_down P f (lst - 1) xs in
        if l \<le> f then (f, xs) else my_partition P (f + 1) l (my_swap f l xs))"
  by pat_completeness auto
termination
proof (relation "measure (\<lambda>(P, first, lst, xs). lst)", goal_cases)
  case (2 P first lst xs f l)
  then have "l \<le> lst - 1" using part_down_bounds [of f "lst - 1" P xs] by simp
  then show ?case using 2 by auto
qed simp

declare my_partition.simps [simp del]

text \<open>\<open>my_partition\<close> ends and splits its range at the iterator it returns: the predicate holds before it and
  fails from there on, and the elements are a permutation of the old ones, those outside the range untouched.\<close>

theorem my_partition_splits:
  assumes "first \<le> lst" "lst \<le> length xs"
  shows "case my_partition P first lst xs of (m, ys) \<Rightarrow> first \<le> m \<and> m \<le> lst \<and> permuted first lst xs ys \<and>
    (\<forall>k. first \<le> k \<and> k < m \<longrightarrow> P (ys ! k)) \<and> (\<forall>k. m \<le> k \<and> k < lst \<longrightarrow> \<not> P (ys ! k))"
  using assms
proof (induction P first lst xs rule: my_partition.induct)
  case (1 P first lst xs)
  let ?f = "part_up P first lst xs"
  let ?l = "part_down P ?f (lst - 1) xs"
  note u = part_up_bounds [OF 1(2), of P xs]
  show ?case
  proof (cases "lst \<le> ?f")
    case True
    then have "my_partition P first lst xs = (?f, xs)" by (subst my_partition.simps) simp
    then show ?thesis using u True by auto
  next
    case f: False
    then have "?f \<le> lst - 1" by linarith
    note d = part_down_bounds [OF this, of P xs]
    have up: "\<not> P (xs ! k)" if "?l < k" "k < lst" for k using d that by auto
    show ?thesis
    proof (cases "?l \<le> ?f")
      case True
      then have e: "my_partition P first lst xs = (?f, xs)" using f by (subst my_partition.simps) (simp add: Let_def)
      have "\<not> P (xs ! k)" if "?f \<le> k" "k < lst" for k using up [of k] u f that d True by (cases "k = ?f") auto
      then show ?thesis using u f unfolding e by auto
    next
      case l: False
      let ?ys = "my_swap ?f ?l xs"
      have b: "?f < length xs" "?l < length xs" "first \<le> ?f" "?l < lst" using u d f 1(3) by auto
      have n: "?ys ! k = (if k = ?l then xs ! ?f else if k = ?f then xs ! ?l else xs ! k)" for k using my_swap_nth [OF b(1,2)] .
      have e: "my_partition P first lst xs = my_partition P (?f + 1) ?l ?ys" using f l by (subst my_partition.simps) (simp add: Let_def)
      obtain m zs where z: "my_partition P (?f + 1) ?l ?ys = (m, zs)" by (cases "my_partition P (?f + 1) ?l ?ys")
      have IH: "?f + 1 \<le> m" "m \<le> ?l" "permuted (?f + 1) ?l ?ys zs" "\<forall>k. ?f + 1 \<le> k \<and> k < m \<longrightarrow> P (zs ! k)"
        "\<forall>k. m \<le> k \<and> k < ?l \<longrightarrow> \<not> P (zs ! k)"
        using 1(1) [OF refl f refl l] l b(2) z by simp_all
      have keep: "zs ! k = ?ys ! k" if "k \<le> ?f \<or> ?l \<le> k" "k < length xs" for k
        using permuted_outside [OF IH(3), of k] that by auto
      have "P (zs ! k)" if "first \<le> k" "k < m" for k
      proof (cases "k \<le> ?f")
        case True
        have "P (?ys ! k)" unfolding n using u d l that True by (cases "k = ?f") auto
        then show ?thesis using keep [of k] True b l by simp
      qed (use IH(4) that in simp)
      moreover have "\<not> P (zs ! k)" if "m \<le> k" "k < lst" for k
      proof (cases "?l \<le> k")
        case True
        have "\<not> P (?ys ! k)" unfolding n using up [of k] u f l that True by auto
        then show ?thesis using keep [of k] True that 1(3) by simp
      qed (use IH(5) that in simp)
      moreover have "permuted first lst xs zs"
        by (rule permuted_trans [OF permuted_swap permuted_mono [OF IH(3)]]) (use b l 1(3) in auto)
      ultimately show ?thesis using IH(1,2) b unfolding e z by auto
    qed
  qed
qed

theorem my_partition_splits_witness:
  "case my_partition (\<lambda>x. x < 3) 0 4 [4, 1, 3, 2 :: nat] of (m, ys) \<Rightarrow> 0 \<le> m \<and> m \<le> 4 \<and> permuted 0 4 [4, 1, 3, 2] ys \<and>
    (\<forall>k. 0 \<le> k \<and> k < m \<longrightarrow> ys ! k < 3) \<and> (\<forall>k. m \<le> k \<and> k < 4 \<longrightarrow> \<not> ys ! k < 3)"
  by (rule my_partition_splits) simp_all

end
