(* ===== verification/Stl_Set.thy ===== *)
theory Stl_Set
  imports Stl_Perm
begin

text \<open>
  The algorithms of mystl/my_stl_algo.h on sorted ranges (set operations, \<open>my_merge\<close>, \<open>my_includes\<close>) and the
  binary searches of mystl/my_stl_algobase.h. An input range is the list of what is left of it, the result of an
  algorithm with an output iterator the list of the elements written. The order is a parameter, as for the
  overloads with a comparison.
\<close>

section \<open>The code\<close>

fun my_set_union :: "('a \<Rightarrow> 'a \<Rightarrow> bool) \<Rightarrow> 'a list \<Rightarrow> 'a list \<Rightarrow> 'a list" where
  "my_set_union lt (x # xs) (y # ys) =
     (if lt x y then x # my_set_union lt xs (y # ys)
      else if lt y x then y # my_set_union lt (x # xs) ys
      else x # my_set_union lt xs ys)"
| "my_set_union lt xs ys = xs @ ys"

fun my_set_intersection :: "('a \<Rightarrow> 'a \<Rightarrow> bool) \<Rightarrow> 'a list \<Rightarrow> 'a list \<Rightarrow> 'a list" where
  "my_set_intersection lt (x # xs) (y # ys) =
     (if lt x y then my_set_intersection lt xs (y # ys)
      else if lt y x then my_set_intersection lt (x # xs) ys
      else x # my_set_intersection lt xs ys)"
| "my_set_intersection lt xs ys = []"

fun my_set_difference :: "('a \<Rightarrow> 'a \<Rightarrow> bool) \<Rightarrow> 'a list \<Rightarrow> 'a list \<Rightarrow> 'a list" where
  "my_set_difference lt (x # xs) (y # ys) =
     (if lt x y then x # my_set_difference lt xs (y # ys)
      else if lt y x then my_set_difference lt (x # xs) ys
      else my_set_difference lt xs ys)"
| "my_set_difference lt xs ys = xs"

fun my_set_symmetric_difference :: "('a \<Rightarrow> 'a \<Rightarrow> bool) \<Rightarrow> 'a list \<Rightarrow> 'a list \<Rightarrow> 'a list" where
  "my_set_symmetric_difference lt (x # xs) (y # ys) =
     (if lt x y then x # my_set_symmetric_difference lt xs (y # ys)
      else if lt y x then y # my_set_symmetric_difference lt (x # xs) ys
      else my_set_symmetric_difference lt xs ys)"
| "my_set_symmetric_difference lt xs ys = ys @ xs"

fun my_merge :: "('a \<Rightarrow> 'a \<Rightarrow> bool) \<Rightarrow> 'a list \<Rightarrow> 'a list \<Rightarrow> 'a list" where
  "my_merge lt (x # xs) (y # ys) = (if lt y x then y # my_merge lt (x # xs) ys else x # my_merge lt xs (y # ys))"
| "my_merge lt xs ys = ys @ xs"

fun my_includes :: "('a \<Rightarrow> 'a \<Rightarrow> bool) \<Rightarrow> 'a list \<Rightarrow> 'a list \<Rightarrow> bool" where
  "my_includes lt (x # xs) (y # ys) = (if lt y x then False else if lt x y then False else my_includes lt xs ys)"
| "my_includes lt xs ys \<longleftrightarrow> ys = []"

text \<open>The binary searches, on positions: \<open>first\<close> and the length that is left.\<close>

function lower_loop :: "('a \<Rightarrow> 'a \<Rightarrow> bool) \<Rightarrow> 'a list \<Rightarrow> 'a \<Rightarrow> nat \<Rightarrow> nat \<Rightarrow> nat" where
  "lower_loop lt xs v first len =
     (if 0 < len then
        let half = len div 2; middle = first + half in
        if lt (xs ! middle) v then lower_loop lt xs v (middle + 1) (len - half - 1) else lower_loop lt xs v first half
      else first)"
  by pat_completeness auto
termination by (relation "measure (\<lambda>(lt, xs, v, first, len). len)") auto

function upper_loop :: "('a \<Rightarrow> 'a \<Rightarrow> bool) \<Rightarrow> 'a list \<Rightarrow> 'a \<Rightarrow> nat \<Rightarrow> nat \<Rightarrow> nat" where
  "upper_loop lt xs v first len =
     (if 0 < len then
        let half = len div 2; middle = first + half in
        if lt v (xs ! middle) then upper_loop lt xs v first half else upper_loop lt xs v (middle + 1) (len - half - 1)
      else first)"
  by pat_completeness auto
termination by (relation "measure (\<lambda>(lt, xs, v, first, len). len)") auto

function equal_loop :: "('a \<Rightarrow> 'a \<Rightarrow> bool) \<Rightarrow> 'a list \<Rightarrow> 'a \<Rightarrow> nat \<Rightarrow> nat \<Rightarrow> nat \<times> nat" where
  "equal_loop lt xs v first len =
     (if 0 < len then
        let half = len div 2; middle = first + half in
        if lt (xs ! middle) v then equal_loop lt xs v (middle + 1) (len - half - 1)
        else if lt v (xs ! middle) then equal_loop lt xs v first half
        else (lower_loop lt xs v first (middle - first), upper_loop lt xs v (middle + 1) (first + len - (middle + 1)))
      else (first, first))"
  by pat_completeness auto
termination by (relation "measure (\<lambda>(lt, xs, v, first, len). len)") auto

declare lower_loop.simps [simp del] upper_loop.simps [simp del] equal_loop.simps [simp del]

definition my_lower_bound :: "('a \<Rightarrow> 'a \<Rightarrow> bool) \<Rightarrow> nat \<Rightarrow> nat \<Rightarrow> 'a list \<Rightarrow> 'a \<Rightarrow> nat" where
  "my_lower_bound lt first lst xs v = lower_loop lt xs v first (lst - first)"

definition my_upper_bound :: "('a \<Rightarrow> 'a \<Rightarrow> bool) \<Rightarrow> nat \<Rightarrow> nat \<Rightarrow> 'a list \<Rightarrow> 'a \<Rightarrow> nat" where
  "my_upper_bound lt first lst xs v = upper_loop lt xs v first (lst - first)"

definition my_equal_range :: "('a \<Rightarrow> 'a \<Rightarrow> bool) \<Rightarrow> nat \<Rightarrow> nat \<Rightarrow> 'a list \<Rightarrow> 'a \<Rightarrow> nat \<times> nat" where
  "my_equal_range lt first lst xs v = equal_loop lt xs v first (lst - first)"

definition my_binary_search :: "('a \<Rightarrow> 'a \<Rightarrow> bool) \<Rightarrow> nat \<Rightarrow> nat \<Rightarrow> 'a list \<Rightarrow> 'a \<Rightarrow> bool" where
  "my_binary_search lt first lst xs v = (let i = my_lower_bound lt first lst xs v in i \<noteq> lst \<and> \<not> lt v (xs ! i))"

section \<open>Set operations\<close>

lemma my_set_union_mset:
  fixes xs ys :: "'a::linorder list"
  shows "sorted xs \<Longrightarrow> sorted ys \<Longrightarrow> mset (my_set_union (<) xs ys) = mset xs \<union># mset ys"
proof (induction "(<) :: 'a \<Rightarrow> 'a \<Rightarrow> bool" xs ys rule: my_set_union.induct)
  case (1 x xs y ys)
  consider "x < y" | "y < x" | "x = y" by (rule linorder_cases)
  then show ?case
  proof cases
    case 1
    then have "x \<notin># mset (y # ys)" using "1.prems" by auto
    then show ?thesis using 1 "1.hyps"(1) "1.prems" by (simp add: sup_union_left1)
  next
    case 2
    then have "y \<notin># mset (x # xs)" using "1.prems" by auto
    then show ?thesis using 2 "1.hyps"(2) "1.prems" by (simp add: order_less_not_sym sup_union_right1)
  next
    case 3
    then show ?thesis using "1.hyps"(3) "1.prems" by (simp add: sup_union_left2)
  qed
qed simp_all

lemma my_set_intersection_mset:
  fixes xs ys :: "'a::linorder list"
  shows "sorted xs \<Longrightarrow> sorted ys \<Longrightarrow> mset (my_set_intersection (<) xs ys) = mset xs \<inter># mset ys"
proof (induction "(<) :: 'a \<Rightarrow> 'a \<Rightarrow> bool" xs ys rule: my_set_intersection.induct)
  case (1 x xs y ys)
  consider "x < y" | "y < x" | "x = y" by (rule linorder_cases)
  then show ?case
  proof cases
    case 1
    then have "x \<notin># mset (y # ys)" using "1.prems" by auto
    then show ?thesis using 1 "1.hyps"(1) "1.prems" by (simp add: inter_add_left1)
  next
    case 2
    then have "y \<notin># mset (x # xs)" using "1.prems" by auto
    then show ?thesis using 2 "1.hyps"(2) "1.prems" by (simp add: order_less_not_sym inter_add_right1)
  next
    case 3
    then show ?thesis using "1.hyps"(3) "1.prems" by (simp add: inter_add_left2)
  qed
qed simp_all

lemma my_set_difference_mset:
  fixes xs ys :: "'a::linorder list"
  shows "sorted xs \<Longrightarrow> sorted ys \<Longrightarrow> mset (my_set_difference (<) xs ys) = mset xs - mset ys"
proof (induction "(<) :: 'a \<Rightarrow> 'a \<Rightarrow> bool" xs ys rule: my_set_difference.induct)
  case (1 x xs y ys)
  consider "x < y" | "y < x" | "x = y" by (rule linorder_cases)
  then show ?case
  proof cases
    case 1
    then have "x \<notin># mset (y # ys)" using "1.prems" by auto
    then show ?thesis using 1 "1.hyps"(1) "1.prems" by (simp add: diff_add_mset_swap)
  next
    case 2
    then have "y \<notin># mset (x # xs)" using "1.prems" by auto
    then show ?thesis using 2 "1.hyps"(2) "1.prems" by (simp add: order_less_not_sym)
  next
    case 3
    then show ?thesis using "1.hyps"(3) "1.prems" by (simp)
  qed
qed simp_all

lemma my_set_symmetric_difference_mset:
  fixes xs ys :: "'a::linorder list"
  shows "sorted xs \<Longrightarrow> sorted ys \<Longrightarrow> mset (my_set_symmetric_difference (<) xs ys) = (mset xs - mset ys) + (mset ys - mset xs)"
proof (induction "(<) :: 'a \<Rightarrow> 'a \<Rightarrow> bool" xs ys rule: my_set_symmetric_difference.induct)
  case (1 x xs y ys)
  consider "x < y" | "y < x" | "x = y" by (rule linorder_cases)
  then show ?case
  proof cases
    case 1
    then have "x \<notin># mset (y # ys)" using "1.prems" by auto
    then show ?thesis using 1 "1.hyps"(1) "1.prems" by (simp)
  next
    case 2
    then have "y \<notin># mset (x # xs)" using "1.prems" by auto
    then show ?thesis using 2 "1.hyps"(2) "1.prems" by (simp add: order_less_not_sym)
  next
    case 3
    then show ?thesis using "1.hyps"(3) "1.prems" by (simp)
  qed
qed simp_all

lemma my_merge_mset: "mset (my_merge lt xs ys) = mset xs + mset ys"
  by (induction lt xs ys rule: my_merge.induct) simp_all

lemma sorted_before:
  fixes x y :: "'a::linorder"
  assumes "sorted (x # xs)" "sorted (y # ys)" "x \<le> y" "sorted zs" "set zs \<subseteq> set (x # xs) \<union> set (y # ys)"
  shows "sorted (x # zs)"
proof -
  have "\<forall>z \<in> set (x # xs) \<union> set (y # ys). x \<le> z" using assms(1-3) by (auto intro: order_trans)
  with assms(4,5) show ?thesis by auto
qed

lemma my_set_union_subset: "set (my_set_union lt xs ys) \<subseteq> set xs \<union> set ys"
  by (induction lt xs ys rule: my_set_union.induct) auto

lemma my_set_union_sorted:
  fixes xs ys :: "'a::linorder list"
  shows "sorted xs \<Longrightarrow> sorted ys \<Longrightarrow> sorted (my_set_union (<) xs ys)"
proof (induction "(<) :: 'a \<Rightarrow> 'a \<Rightarrow> bool" xs ys rule: my_set_union.induct)
  case (1 x xs y ys)
  consider "x < y" | "y < x" | "x = y" by (rule linorder_cases)
  then show ?case
  proof cases
    case 1
    have "sorted (my_set_union (<) xs (y # ys))" using "1.hyps"(1) "1.prems" 1 by auto
    then have "sorted (x # my_set_union (<) xs (y # ys))"
      using my_set_union_subset [of "(<)" "xs" "y # ys"] 1 by (intro sorted_before [OF "1.prems"]) auto
    then show ?thesis using 1 by (simp)
  next
    case 2
    have "sorted (my_set_union (<) (x # xs) ys)" using "1.hyps"(2) "1.prems" 2 by auto
    then have "sorted (y # my_set_union (<) (x # xs) ys)"
      using my_set_union_subset [of "(<)" "x # xs" "ys"] 2 by (intro sorted_before [OF "1.prems"(2,1)]) auto
    then show ?thesis using 2 by (simp add: order_less_not_sym)
  next
    case 3
    have "sorted (my_set_union (<) xs ys)" using "1.hyps"(3) "1.prems" 3 by auto
    then have "sorted (x # my_set_union (<) xs ys)"
      using my_set_union_subset [of "(<)" "xs" "ys"] 3 by (intro sorted_before [OF "1.prems"]) auto
    then show ?thesis using 3 by (simp)
  qed
qed simp_all

lemma my_set_intersection_subset: "set (my_set_intersection lt xs ys) \<subseteq> set xs \<union> set ys"
  by (induction lt xs ys rule: my_set_intersection.induct) auto

lemma my_set_intersection_sorted:
  fixes xs ys :: "'a::linorder list"
  shows "sorted xs \<Longrightarrow> sorted ys \<Longrightarrow> sorted (my_set_intersection (<) xs ys)"
proof (induction "(<) :: 'a \<Rightarrow> 'a \<Rightarrow> bool" xs ys rule: my_set_intersection.induct)
  case (1 x xs y ys)
  consider "x < y" | "y < x" | "x = y" by (rule linorder_cases)
  then show ?case
  proof cases
    case 1
    then show ?thesis using "1.hyps"(1) "1.prems" by (simp)
  next
    case 2
    then show ?thesis using "1.hyps"(2) "1.prems" by (simp add: order_less_not_sym)
  next
    case 3
    have "sorted (my_set_intersection (<) xs ys)" using "1.hyps"(3) "1.prems" 3 by auto
    then have "sorted (x # my_set_intersection (<) xs ys)"
      using my_set_intersection_subset [of "(<)" "xs" "ys"] 3 by (intro sorted_before [OF "1.prems"]) auto
    then show ?thesis using 3 by (simp)
  qed
qed simp_all

lemma my_set_difference_subset: "set (my_set_difference lt xs ys) \<subseteq> set xs \<union> set ys"
  by (induction lt xs ys rule: my_set_difference.induct) auto

lemma my_set_difference_sorted:
  fixes xs ys :: "'a::linorder list"
  shows "sorted xs \<Longrightarrow> sorted ys \<Longrightarrow> sorted (my_set_difference (<) xs ys)"
proof (induction "(<) :: 'a \<Rightarrow> 'a \<Rightarrow> bool" xs ys rule: my_set_difference.induct)
  case (1 x xs y ys)
  consider "x < y" | "y < x" | "x = y" by (rule linorder_cases)
  then show ?case
  proof cases
    case 1
    have "sorted (my_set_difference (<) xs (y # ys))" using "1.hyps"(1) "1.prems" 1 by auto
    then have "sorted (x # my_set_difference (<) xs (y # ys))"
      using my_set_difference_subset [of "(<)" "xs" "y # ys"] 1 by (intro sorted_before [OF "1.prems"]) auto
    then show ?thesis using 1 by (simp)
  next
    case 2
    then show ?thesis using "1.hyps"(2) "1.prems" by (simp add: order_less_not_sym)
  next
    case 3
    then show ?thesis using "1.hyps"(3) "1.prems" by (simp)
  qed
qed simp_all

lemma my_set_symmetric_difference_subset: "set (my_set_symmetric_difference lt xs ys) \<subseteq> set xs \<union> set ys"
  by (induction lt xs ys rule: my_set_symmetric_difference.induct) auto

lemma my_set_symmetric_difference_sorted:
  fixes xs ys :: "'a::linorder list"
  shows "sorted xs \<Longrightarrow> sorted ys \<Longrightarrow> sorted (my_set_symmetric_difference (<) xs ys)"
proof (induction "(<) :: 'a \<Rightarrow> 'a \<Rightarrow> bool" xs ys rule: my_set_symmetric_difference.induct)
  case (1 x xs y ys)
  consider "x < y" | "y < x" | "x = y" by (rule linorder_cases)
  then show ?case
  proof cases
    case 1
    have "sorted (my_set_symmetric_difference (<) xs (y # ys))" using "1.hyps"(1) "1.prems" 1 by auto
    then have "sorted (x # my_set_symmetric_difference (<) xs (y # ys))"
      using my_set_symmetric_difference_subset [of "(<)" "xs" "y # ys"] 1 by (intro sorted_before [OF "1.prems"]) auto
    then show ?thesis using 1 by (simp)
  next
    case 2
    have "sorted (my_set_symmetric_difference (<) (x # xs) ys)" using "1.hyps"(2) "1.prems" 2 by auto
    then have "sorted (y # my_set_symmetric_difference (<) (x # xs) ys)"
      using my_set_symmetric_difference_subset [of "(<)" "x # xs" "ys"] 2 by (intro sorted_before [OF "1.prems"(2,1)]) auto
    then show ?thesis using 2 by (simp add: order_less_not_sym)
  next
    case 3
    then show ?thesis using "1.hyps"(3) "1.prems" by (simp)
  qed
qed simp_all

lemma my_merge_subset: "set (my_merge lt xs ys) \<subseteq> set xs \<union> set ys"
  by (induction lt xs ys rule: my_merge.induct) auto

lemma my_merge_sorted:
  fixes xs ys :: "'a::linorder list"
  shows "sorted xs \<Longrightarrow> sorted ys \<Longrightarrow> sorted (my_merge (<) xs ys)"
proof (induction "(<) :: 'a \<Rightarrow> 'a \<Rightarrow> bool" xs ys rule: my_merge.induct)
  case (1 x xs y ys)
  show ?case
  proof (cases "y < x")
    case True
    have "sorted (my_merge (<) (x # xs) ys)" using "1.hyps"(1) "1.prems" True by auto
    then have "sorted (y # my_merge (<) (x # xs) ys)"
      using my_merge_subset [of "(<)" "x # xs" ys] True by (intro sorted_before [OF "1.prems"(2,1)]) auto
    then show ?thesis using True by simp
  next
    case False
    have "sorted (my_merge (<) xs (y # ys))" using "1.hyps"(2) "1.prems" False by auto
    then have "sorted (x # my_merge (<) xs (y # ys))"
      using my_merge_subset [of "(<)" xs "y # ys"] False by (intro sorted_before [OF "1.prems"]) auto
    then show ?thesis using False by simp
  qed
qed simp_all

section \<open>Inclusion\<close>

text \<open>The test gives up at the first element that differs: it only accepts a range that is the beginning of the other.\<close>

lemma my_includes_prefix:
  fixes xs ys :: "'a::linorder list"
  shows "my_includes (<) xs ys \<longleftrightarrow> (\<exists>zs. xs = ys @ zs)"
proof (induction "(<) :: 'a \<Rightarrow> 'a \<Rightarrow> bool" xs ys rule: my_includes.induct)
  case (1 x xs y ys)
  consider "x < y" | "y < x" | "x = y" by (rule linorder_cases)
  then show ?case using 1 by cases (auto simp: order_less_not_sym)
qed auto

lemma my_includes_misses: "\<not> my_includes (<) [1, 2, 3 :: nat] [2, 3]"
  by simp

section \<open>Binary search\<close>

text \<open>The position that splits a range into what satisfies \<open>P\<close> and the rest.\<close>

definition splits_at :: "('a \<Rightarrow> bool) \<Rightarrow> nat \<Rightarrow> nat \<Rightarrow> 'a list \<Rightarrow> nat \<Rightarrow> bool" where
  "splits_at P a b xs i \<longleftrightarrow> a \<le> i \<and> i \<le> b \<and> (\<forall>k. a \<le> k \<and> k < i \<longrightarrow> P (xs ! k)) \<and> (\<forall>k. i \<le> k \<and> k < b \<longrightarrow> \<not> P (xs ! k))"

lemma splits_at_right:
  assumes "splits_at P (m + 1) b xs i" "\<And>k. a \<le> k \<Longrightarrow> k \<le> m \<Longrightarrow> P (xs ! k)" "a \<le> m"
  shows "splits_at P a b xs i"
  using assms by (auto simp: splits_at_def) (metis Suc_eq_plus1 not_less_eq_eq)

lemma splits_at_left:
  assumes "splits_at P a m xs i" "\<And>k. m \<le> k \<Longrightarrow> k < b \<Longrightarrow> \<not> P (xs ! k)" "m \<le> b"
  shows "splits_at P a b xs i"
  using assms by (auto simp: splits_at_def) (metis not_le_imp_less)

lemma sorted_range_sub: "sorted_range a b xs \<Longrightarrow> a \<le> c \<Longrightarrow> d \<le> b \<Longrightarrow> sorted_range c d xs"
  unfolding sorted_range_def by auto

lemma lower_loop_splits:
  fixes xs :: "'a::linorder list"
  shows "sorted_range first (first + len) xs \<Longrightarrow> splits_at (\<lambda>x. x < v) first (first + len) xs (lower_loop (<) xs v first len)"
proof (induction len arbitrary: first rule: less_induct)
  case (less len)
  show ?case
  proof (cases "len = 0")
    case True
    then show ?thesis by (subst lower_loop.simps) (auto simp: splits_at_def)
  next
    case False
    define m where "m = first + len div 2"
    have m: "first \<le> m" "m < first + len" "m + 1 + (len - len div 2 - 1) = first + len" "len - len div 2 - 1 < len" "len div 2 < len"
      using False by (auto simp: m_def)
    have le: "xs ! i \<le> xs ! j" if "first \<le> i" "i \<le> j" "j < first + len" for i j
      using less.prems that unfolding sorted_range_def by blast
    show ?thesis
    proof (cases "xs ! m < v")
      case True
      then have e: "lower_loop (<) xs v first len = lower_loop (<) xs v (m + 1) (len - len div 2 - 1)"
        using False by (subst lower_loop.simps) (simp add: m_def Let_def)
      have "splits_at (\<lambda>x. x < v) (m + 1) (first + len) xs (lower_loop (<) xs v first len)"
        using less.IH [OF m(4), of "m + 1"] sorted_range_sub [OF less.prems, of "m + 1" "first + len"] m(1) unfolding e m(3) by simp
      then show ?thesis by (rule splits_at_right) (use le [of _ m] True m in \<open>auto intro: le_less_trans\<close>)
    next
      case ge: False
      then have e: "lower_loop (<) xs v first len = lower_loop (<) xs v first (len div 2)"
        using False by (subst lower_loop.simps) (simp add: m_def Let_def)
      have "splits_at (\<lambda>x. x < v) first m xs (lower_loop (<) xs v first len)"
        using less.IH [OF m(5), of first] sorted_range_sub [OF less.prems, of first m] m(2) unfolding e by (simp add: m_def)
      then show ?thesis by (rule splits_at_left) (use le [of m] ge m in \<open>auto dest: le_less_trans\<close>)
    qed
  qed
qed

lemma upper_loop_splits:
  fixes xs :: "'a::linorder list"
  shows "sorted_range first (first + len) xs \<Longrightarrow> splits_at (\<lambda>x. x \<le> v) first (first + len) xs (upper_loop (<) xs v first len)"
proof (induction len arbitrary: first rule: less_induct)
  case (less len)
  show ?case
  proof (cases "len = 0")
    case True
    then show ?thesis by (subst upper_loop.simps) (auto simp: splits_at_def)
  next
    case False
    define m where "m = first + len div 2"
    have m: "first \<le> m" "m < first + len" "m + 1 + (len - len div 2 - 1) = first + len" "len - len div 2 - 1 < len" "len div 2 < len"
      using False by (auto simp: m_def)
    have le: "xs ! i \<le> xs ! j" if "first \<le> i" "i \<le> j" "j < first + len" for i j
      using less.prems that unfolding sorted_range_def by blast
    show ?thesis
    proof (cases "v < xs ! m")
      case True
      then have e: "upper_loop (<) xs v first len = upper_loop (<) xs v first (len div 2)"
        using False by (subst upper_loop.simps) (simp add: m_def Let_def)
      have "splits_at (\<lambda>x. x \<le> v) first m xs (upper_loop (<) xs v first len)"
        using less.IH [OF m(5), of first] sorted_range_sub [OF less.prems, of first m] m(2) unfolding e by (simp add: m_def)
      then show ?thesis by (rule splits_at_left) (use le [of m] True m in \<open>auto simp: not_le intro: less_le_trans\<close>)
    next
      case ge: False
      then have e: "upper_loop (<) xs v first len = upper_loop (<) xs v (m + 1) (len - len div 2 - 1)"
        using False by (subst upper_loop.simps) (simp add: m_def Let_def)
      have "splits_at (\<lambda>x. x \<le> v) (m + 1) (first + len) xs (upper_loop (<) xs v first len)"
        using less.IH [OF m(4), of "m + 1"] sorted_range_sub [OF less.prems, of "m + 1" "first + len"] m(1) unfolding e m(3) by simp
      then show ?thesis by (rule splits_at_right) (use le [of _ m] ge m in \<open>auto simp: not_less intro: order_trans\<close>)
    qed
  qed
qed

lemma splits_at_unique: "splits_at P a b xs i \<Longrightarrow> splits_at P a b xs j \<Longrightarrow> i = j"
proof (rule ccontr)
  assume h: "splits_at P a b xs i" "splits_at P a b xs j" "i \<noteq> j"
  then consider "i < j" | "j < i" by linarith
  then show False
  proof cases
    case 1
    then have "P (xs ! i)" "\<not> P (xs ! i)" using h(1,2) unfolding splits_at_def by auto
    then show False by contradiction
  next
    case 2
    then have "P (xs ! j)" "\<not> P (xs ! j)" using h(1,2) unfolding splits_at_def by auto
    then show False by contradiction
  qed
qed

text \<open>\<open>my_equal_range\<close> narrows the range before it searches its ends: they are the same as for the whole range.\<close>

lemma equal_loop_splits:
  fixes xs :: "'a::linorder list"
  shows "sorted_range first (first + len) xs \<Longrightarrow>
    splits_at (\<lambda>x. x < v) first (first + len) xs (fst (equal_loop (<) xs v first len)) \<and>
    splits_at (\<lambda>x. x \<le> v) first (first + len) xs (snd (equal_loop (<) xs v first len))"
proof (induction len arbitrary: first rule: less_induct)
  case (less len)
  show ?case
  proof (cases "len = 0")
    case True
    then have "equal_loop (<) xs v first len = (first, first)" by (subst equal_loop.simps) simp
    then show ?thesis using True by (auto simp: splits_at_def)
  next
    case False
    define m where "m = first + len div 2"
    have m: "first \<le> m" "m < first + len" "m + 1 + (len - len div 2 - 1) = first + len" "len - len div 2 - 1 < len" "len div 2 < len"
      using False by (auto simp: m_def)
    have le: "xs ! i \<le> xs ! j" if "first \<le> i" "i \<le> j" "j < first + len" for i j
      using less.prems that unfolding sorted_range_def by blast
    consider "xs ! m < v" | "v < xs ! m" | "xs ! m = v" using linorder_less_linear by blast
    then show ?thesis
    proof cases
      case 1
      then have e: "equal_loop (<) xs v first len = equal_loop (<) xs v (m + 1) (len - len div 2 - 1)"
        using False by (subst equal_loop.simps) (simp add: m_def Let_def)
      have IH: "splits_at (\<lambda>x. x < v) (m + 1) (first + len) xs (fst (equal_loop (<) xs v first len)) \<and>
        splits_at (\<lambda>x. x \<le> v) (m + 1) (first + len) xs (snd (equal_loop (<) xs v first len))"
        using less.IH [OF m(4), of "m + 1"] sorted_range_sub [OF less.prems, of "m + 1" "first + len"] m(1) unfolding e m(3) by simp
      have lt: "xs ! k < v" if "first \<le> k" "k \<le> m" for k using le [OF that m(2)] 1 by simp
      show ?thesis
        by (intro conjI splits_at_right [OF IH [THEN conjunct1]] splits_at_right [OF IH [THEN conjunct2]] lt m(1) order_less_imp_le [OF lt])
    next
      case 2
      then have "\<not> xs ! m < v" by simp
      with 2 have e: "equal_loop (<) xs v first len = equal_loop (<) xs v first (len div 2)"
        using False by (subst equal_loop.simps) (simp add: m_def Let_def)
      have IH: "splits_at (\<lambda>x. x < v) first m xs (fst (equal_loop (<) xs v first len)) \<and>
        splits_at (\<lambda>x. x \<le> v) first m xs (snd (equal_loop (<) xs v first len))"
        using less.IH [OF m(5), of first] sorted_range_sub [OF less.prems, of first m] m(2) unfolding e by (simp add: m_def)
      have gt: "v < xs ! k" if "m \<le> k" "k < first + len" for k using le [OF m(1) that] 2 by simp
      have "\<not> xs ! k < v" "\<not> xs ! k \<le> v" if "m \<le> k" "k < first + len" for k using gt [OF that] by auto
      then show ?thesis
        using splits_at_left [OF IH [THEN conjunct1], of "first + len"] splits_at_left [OF IH [THEN conjunct2], of "first + len"] m(2)
        by auto
    next
      case 3
      then have e: "equal_loop (<) xs v first len =
          (lower_loop (<) xs v first (m - first), upper_loop (<) xs v (m + 1) (first + len - (m + 1)))"
        using False by (subst equal_loop.simps) (simp add: m_def Let_def)
      have l: "first + (m - first) = m" "m + 1 + (first + len - (m + 1)) = first + len" using m(1,2) by simp_all
      have "splits_at (\<lambda>x. x < v) first m xs (lower_loop (<) xs v first (m - first))"
        using lower_loop_splits [of first "m - first" xs v] sorted_range_sub [OF less.prems, of first m] m(2) unfolding l by simp
      then have "splits_at (\<lambda>x. x < v) first (first + len) xs (lower_loop (<) xs v first (m - first))"
        by (rule splits_at_left) (use le [OF m(1)] 3 m(2) in \<open>auto simp: not_less\<close>)
      moreover have "splits_at (\<lambda>x. x \<le> v) (m + 1) (first + len) xs (upper_loop (<) xs v (m + 1) (first + len - (m + 1)))"
        using upper_loop_splits [of "m + 1" "first + len - (m + 1)" xs v] sorted_range_sub [OF less.prems, of "m + 1" "first + len"] m(1)
        unfolding l by simp
      then have "splits_at (\<lambda>x. x \<le> v) first (first + len) xs (upper_loop (<) xs v (m + 1) (first + len - (m + 1)))"
        by (rule splits_at_right) (use le [of _ m] 3 m(1,2) in auto)
      ultimately show ?thesis unfolding e by simp
    qed
  qed
qed

text \<open>On a sorted range, the binary searches find where the values less than (not greater than) the one sought
  end; \<open>my_equal_range\<close> yields these two positions, and \<open>my_binary_search\<close> says whether the value is in the range.\<close>
theorem my_binary_searches:
  fixes xs :: "'a::linorder list"
  assumes "sorted_range first lst xs" "first \<le> lst"
  shows "splits_at (\<lambda>x. x < v) first lst xs (my_lower_bound (<) first lst xs v) \<and>
    splits_at (\<lambda>x. x \<le> v) first lst xs (my_upper_bound (<) first lst xs v) \<and>
    my_equal_range (<) first lst xs v = (my_lower_bound (<) first lst xs v, my_upper_bound (<) first lst xs v) \<and>
    (my_binary_search (<) first lst xs v \<longleftrightarrow> (\<exists>k. first \<le> k \<and> k < lst \<and> xs ! k = v))"
proof -
  have l: "first + (lst - first) = lst" using assms(2) by simp
  have lo: "splits_at (\<lambda>x. x < v) first lst xs (my_lower_bound (<) first lst xs v)"
    and up: "splits_at (\<lambda>x. x \<le> v) first lst xs (my_upper_bound (<) first lst xs v)"
    and eq: "splits_at (\<lambda>x. x < v) first lst xs (fst (my_equal_range (<) first lst xs v))"
      "splits_at (\<lambda>x. x \<le> v) first lst xs (snd (my_equal_range (<) first lst xs v))"
    using lower_loop_splits [of first "lst - first" xs v] upper_loop_splits [of first "lst - first" xs v]
      equal_loop_splits [of first "lst - first" xs v] assms(1)
    unfolding l my_lower_bound_def my_upper_bound_def my_equal_range_def by simp_all
  have both: "my_equal_range (<) first lst xs v = (my_lower_bound (<) first lst xs v, my_upper_bound (<) first lst xs v)"
    using splits_at_unique [OF eq(1) lo] splits_at_unique [OF eq(2) up] by (simp add: prod_eq_iff)
  define i where "i = my_lower_bound (<) first lst xs v"
  have i: "first \<le> i" "i \<le> lst" "\<And>k. first \<le> k \<Longrightarrow> k < i \<Longrightarrow> xs ! k < v" "\<And>k. i \<le> k \<Longrightarrow> k < lst \<Longrightarrow> v \<le> xs ! k"
    using lo unfolding splits_at_def i_def [symmetric] by (auto simp: not_less)
  have "my_binary_search (<) first lst xs v \<longleftrightarrow> (\<exists>k. first \<le> k \<and> k < lst \<and> xs ! k = v)"
  proof
    assume "my_binary_search (<) first lst xs v"
    then have "i \<noteq> lst" "\<not> v < xs ! i" by (simp_all add: my_binary_search_def i_def Let_def)
    then show "\<exists>k. first \<le> k \<and> k < lst \<and> xs ! k = v" using i(1,2) i(4) [of i] by (intro exI [of _ i]) auto
  next
    assume "\<exists>k. first \<le> k \<and> k < lst \<and> xs ! k = v"
    then obtain k where k: "first \<le> k" "k < lst" "xs ! k = v" by blast
    then have "i \<le> k" using i(3) [of k] by (metis less_irrefl not_le_imp_less)
    moreover have "xs ! i \<le> xs ! k" using assms(1) i(1) \<open>i \<le> k\<close> k(2) unfolding sorted_range_def by blast
    ultimately show "my_binary_search (<) first lst xs v"
      using k by (auto simp: my_binary_search_def i_def [symmetric] Let_def)
  qed
  with lo up both show ?thesis by blast
qed

theorem my_binary_searches_witness:
  "my_binary_search (<) 0 4 [2, 4, 4, 7 :: nat] 4 \<and> \<not> my_binary_search (<) 0 4 [2, 4, 4, 7 :: nat] 9"
proof -
  have "sorted [2, 4, 4, 7 :: nat]" by simp
  then have "sorted_range 0 4 [2, 4, 4, 7 :: nat]"
    unfolding sorted_range_def sorted_iff_nth_mono by simp
  note search = my_binary_searches [OF this le0, THEN conjunct2, THEN conjunct2, THEN conjunct2]
  have "(\<exists>k. 0 \<le> k \<and> k < 4 \<and> [2, 4, 4, 7 :: nat] ! k = v) \<longleftrightarrow> v \<in> set [2, 4, 4, 7]" for v
    unfolding in_set_conv_nth by (simp add: numeral_eq_Suc)
  with search show ?thesis by simp
qed

text \<open>On sorted ranges, the set operations write the sorted union, intersection, difference and symmetric
  difference of the two multisets, and \<open>my_merge\<close> their sorted sum.\<close>
theorem my_set_operations:
  fixes xs ys :: "'a::linorder list"
  assumes "sorted xs" "sorted ys"
  shows "mset (my_set_union (<) xs ys) = mset xs \<union># mset ys \<and> sorted (my_set_union (<) xs ys) \<and>
    mset (my_set_intersection (<) xs ys) = mset xs \<inter># mset ys \<and> sorted (my_set_intersection (<) xs ys) \<and>
    mset (my_set_difference (<) xs ys) = mset xs - mset ys \<and> sorted (my_set_difference (<) xs ys) \<and>
    mset (my_set_symmetric_difference (<) xs ys) = (mset xs - mset ys) + (mset ys - mset xs) \<and>
    sorted (my_set_symmetric_difference (<) xs ys) \<and>
    mset (my_merge (<) xs ys) = mset xs + mset ys \<and> sorted (my_merge (<) xs ys)"
  using assms by (simp add: my_set_union_mset my_set_union_sorted my_set_intersection_mset my_set_intersection_sorted
      my_set_difference_mset my_set_difference_sorted my_set_symmetric_difference_mset my_set_symmetric_difference_sorted
      my_merge_mset my_merge_sorted)

theorem my_set_operations_witness:
  "sorted (my_set_union (<) [1, 1, 3] [1, 2 :: nat]) \<and> mset (my_set_union (<) [1, 1, 3] [1, 2 :: nat]) = {#1, 1, 3#} \<union># {#1, 2#}"
  using my_set_operations [of "[1, 1, 3]" "[1, 2 :: nat]"] by simp

end
