(* ===== verification/Stl_Seq.thy ===== *)
theory Stl_Seq
  imports Stl_Perm
begin

text \<open>
  Algorithms of mystl/my_stl_algo.h, my_stl_algobase.h and my_stl_numeric.h on one sequence: searches, removal of
  elements in place, and powers by repeated squaring. A range of an array is given by two positions.
\<close>

section \<open>Searches\<close>

function my_find_if :: "('a \<Rightarrow> bool) \<Rightarrow> nat \<Rightarrow> nat \<Rightarrow> 'a list \<Rightarrow> nat" where
  "my_find_if pred first lst xs =
     (if first < lst \<and> \<not> pred (xs ! first) then my_find_if pred (first + 1) lst xs else first)"
  by pat_completeness auto
termination by (relation "measure (\<lambda>(pred, first, lst, xs). lst - first)") auto

function count_loop :: "('a \<Rightarrow> bool) \<Rightarrow> nat \<Rightarrow> nat \<Rightarrow> 'a list \<Rightarrow> nat \<Rightarrow> nat" where
  "count_loop pred first lst xs n =
     (if first < lst then count_loop pred (first + 1) lst xs (if pred (xs ! first) then n + 1 else n) else n)"
  by pat_completeness auto
termination by (relation "measure (\<lambda>(pred, first, lst, xs, n). lst - first)") auto

definition my_count_if :: "('a \<Rightarrow> bool) \<Rightarrow> nat \<Rightarrow> nat \<Rightarrow> 'a list \<Rightarrow> nat" where
  "my_count_if pred first lst xs = count_loop pred first lst xs 0"

text \<open>The predicate gets the later element first.\<close>

function adjacent_loop :: "('a \<Rightarrow> 'a \<Rightarrow> bool) \<Rightarrow> nat \<Rightarrow> nat \<Rightarrow> 'a list \<Rightarrow> nat" where
  "adjacent_loop pred first lst xs =
     (if first + 1 < lst
      then (if pred (xs ! (first + 1)) (xs ! first) then first else adjacent_loop pred (first + 1) lst xs)
      else lst)"
  by pat_completeness auto
termination by (relation "measure (\<lambda>(pred, first, lst, xs). lst - first)") auto

definition my_adjacent_find :: "('a \<Rightarrow> 'a \<Rightarrow> bool) \<Rightarrow> nat \<Rightarrow> nat \<Rightarrow> 'a list \<Rightarrow> nat" where
  "my_adjacent_find pred first lst xs = (if first = lst then lst else adjacent_loop pred first lst xs)"

function max_loop :: "('a \<Rightarrow> 'a \<Rightarrow> bool) \<Rightarrow> nat \<Rightarrow> nat \<Rightarrow> nat \<Rightarrow> 'a list \<Rightarrow> nat" where
  "max_loop lt result first lst xs =
     (if first < lst then max_loop lt (if lt (xs ! result) (xs ! first) then first else result) (first + 1) lst xs else result)"
  by pat_completeness auto
termination by (relation "measure (\<lambda>(lt, result, first, lst, xs). lst - first)") auto

definition my_max_element :: "('a \<Rightarrow> 'a \<Rightarrow> bool) \<Rightarrow> nat \<Rightarrow> nat \<Rightarrow> 'a list \<Rightarrow> nat" where
  "my_max_element lt first lst xs = (if first = lst then lst else max_loop lt first (first + 1) lst xs)"

text \<open>\<open>my_min_element\<close> compares the same elements the other way round.\<close>

definition my_min_element :: "('a \<Rightarrow> 'a \<Rightarrow> bool) \<Rightarrow> nat \<Rightarrow> nat \<Rightarrow> 'a list \<Rightarrow> nat" where
  "my_min_element lt first lst xs = (if first = lst then lst else max_loop (\<lambda>x y. lt y x) first (first + 1) lst xs)"

declare my_find_if.simps [simp del] count_loop.simps [simp del] adjacent_loop.simps [simp del] max_loop.simps [simp del]

text \<open>
  \<open>my_search\<close> of the range \<open>ys\<close> in \<open>xs\<close>: \<open>first1\<close> is the position tried, \<open>d1\<close> what is left from there.
  \<open>None\<close> is a read behind the end of \<open>xs\<close>.
\<close>

partial_function (option) search_from :: "('a \<Rightarrow> 'a \<Rightarrow> bool) \<Rightarrow> 'a list \<Rightarrow> 'a list \<Rightarrow> nat \<Rightarrow> nat \<Rightarrow> nat \<Rightarrow> nat \<Rightarrow> nat option" where
  "search_from eq xs ys first1 d1 current1 current2 =
     (if current2 = length ys then Some first1
      else if length xs \<le> current1 then None
      else if eq (xs ! current1) (ys ! current2) then search_from eq xs ys first1 d1 (current1 + 1) (current2 + 1)
      else if d1 = length ys then Some (length xs)
      else search_from eq xs ys (first1 + 1) (d1 - 1) (first1 + 1) 0)"

definition my_search :: "('a \<Rightarrow> 'a \<Rightarrow> bool) \<Rightarrow> 'a list \<Rightarrow> 'a list \<Rightarrow> nat option" where
  "my_search eq xs ys =
     (if length xs < length ys then Some (length xs) else search_from eq xs ys 0 (length xs) 0 0)"

text \<open>\<open>my_equal\<close> never advances its second iterator; \<open>None\<close> is a read from an empty second range.\<close>

fun my_equal :: "('a \<Rightarrow> 'a \<Rightarrow> bool) \<Rightarrow> 'a list \<Rightarrow> 'a list \<Rightarrow> bool option" where
  "my_equal eq [] ys = Some True"
| "my_equal eq (x # xs) [] = None"
| "my_equal eq (x # xs) (y # ys) = (if \<not> eq x y then Some False else my_equal eq xs (y # ys))"

section \<open>Changes in place\<close>

function my_remove_copy_if :: "('a \<Rightarrow> bool) \<Rightarrow> nat \<Rightarrow> nat \<Rightarrow> nat \<Rightarrow> 'a list \<Rightarrow> nat \<times> 'a list" where
  "my_remove_copy_if pred first lst result xs =
     (if first < lst
      then (if \<not> pred (xs ! first) then my_remove_copy_if pred (first + 1) lst (result + 1) (xs[result := xs ! first])
            else my_remove_copy_if pred (first + 1) lst result xs)
      else (result, xs))"
  by pat_completeness auto
termination by (relation "measure (\<lambda>(pred, first, lst, result, xs). lst - first)") auto

definition my_remove_if :: "('a \<Rightarrow> bool) \<Rightarrow> nat \<Rightarrow> nat \<Rightarrow> 'a list \<Rightarrow> nat \<times> 'a list" where
  "my_remove_if pred first lst xs =
     (let first = my_find_if pred first lst xs in
      if first = lst then (first, xs) else my_remove_copy_if pred (first + 1) lst first xs)"

function unique_loop :: "('a \<Rightarrow> 'a \<Rightarrow> bool) \<Rightarrow> nat \<Rightarrow> nat \<Rightarrow> nat \<Rightarrow> 'a list \<Rightarrow> nat \<times> 'a list" where
  "unique_loop eq first lst result xs =
     (if first + 1 < lst
      then (if \<not> eq (xs ! result) (xs ! (first + 1))
            then unique_loop eq (first + 1) lst (result + 1) (xs[result + 1 := xs ! (first + 1)])
            else unique_loop eq (first + 1) lst result xs)
      else (result + 1, xs))"
  by pat_completeness auto
termination by (relation "measure (\<lambda>(eq, first, lst, result, xs). lst - first)") auto

definition my_unique_copy :: "('a \<Rightarrow> 'a \<Rightarrow> bool) \<Rightarrow> nat \<Rightarrow> nat \<Rightarrow> nat \<Rightarrow> 'a list \<Rightarrow> nat \<times> 'a list" where
  "my_unique_copy eq first lst result xs =
     (if first = lst then (result, xs) else unique_loop eq first lst result (xs[result := xs ! first]))"

definition my_unique :: "('a \<Rightarrow> 'a \<Rightarrow> bool) \<Rightarrow> nat \<Rightarrow> nat \<Rightarrow> 'a list \<Rightarrow> nat \<times> 'a list" where
  "my_unique eq first lst xs =
     (let first = my_adjacent_find eq first lst xs in my_unique_copy eq first lst first xs)"

function my_replace_if :: "('a \<Rightarrow> bool) \<Rightarrow> 'a \<Rightarrow> nat \<Rightarrow> nat \<Rightarrow> 'a list \<Rightarrow> 'a list" where
  "my_replace_if pred new_value first lst xs =
     (if first < lst then my_replace_if pred new_value (first + 1) lst (if pred (xs ! first) then xs[first := new_value] else xs)
      else xs)"
  by pat_completeness auto
termination by (relation "measure (\<lambda>(pred, new_value, first, lst, xs). lst - first)") auto

declare my_remove_copy_if.simps [simp del] unique_loop.simps [simp del] my_replace_if.simps [simp del]

section \<open>Powers\<close>

text \<open>\<open>my_power\<close>: the even steps before the first odd one, and the loop that multiplies.\<close>

function power_even :: "('a \<Rightarrow> 'a \<Rightarrow> 'a) \<Rightarrow> 'a \<Rightarrow> nat \<Rightarrow> 'a \<times> nat" where
  "power_even oper x n = (if even n \<and> n \<noteq> 0 then power_even oper (oper x x) (n div 2) else (x, n))"
  by pat_completeness auto
termination by (relation "measure (\<lambda>(oper, x, n). n)") auto

function power_loop :: "('a \<Rightarrow> 'a \<Rightarrow> 'a) \<Rightarrow> 'a \<Rightarrow> 'a \<Rightarrow> nat \<Rightarrow> 'a" where
  "power_loop oper x result n =
     (if n \<noteq> 0 then let x = oper x x in power_loop oper x (if odd n then oper result x else result) (n div 2) else result)"
  by pat_completeness auto
termination by (relation "measure (\<lambda>(oper, x, result, n). n)") auto

declare power_even.simps [simp del] power_loop.simps [simp del]

definition my_power :: "('a \<Rightarrow> 'a \<Rightarrow> 'a) \<Rightarrow> 'a \<Rightarrow> 'a \<Rightarrow> nat \<Rightarrow> 'a" where
  "my_power oper identity_element x n =
     (if n = 0 then identity_element
      else case power_even oper x n of (x, n) \<Rightarrow> power_loop oper x x (n div 2))"

section \<open>What the searches find\<close>

lemma nth_here [simp]: "(us @ v # ws) ! length us = v" by simp

lemma find_if_range:
  "my_find_if P (length us) (length us + length vs) (us @ vs @ ws) = length us + length (takeWhile (\<lambda>x. \<not> P x) vs)"
proof (induction vs arbitrary: us)
  case Nil
  show ?case by (subst my_find_if.simps) simp
next
  case (Cons v vs)
  from Cons.IH [of "us @ [v]"] show ?case by (subst my_find_if.simps) simp
qed

lemma count_loop_range:
  "count_loop P (length us) (length us + length vs) (us @ vs @ ws) n = n + length (filter P vs)"
proof (induction vs arbitrary: us n)
  case Nil
  show ?case by (subst count_loop.simps) simp
next
  case (Cons v vs)
  from Cons.IH [of "us @ [v]"] show ?case by (subst count_loop.simps) simp
qed

lemma max_loop_max:
  assumes lt: "strict_linear lt"
  shows "a \<le> r \<Longrightarrow> r < i \<Longrightarrow> i \<le> b \<Longrightarrow> (\<And>k. a \<le> k \<Longrightarrow> k < i \<Longrightarrow> \<not> lt (xs ! r) (xs ! k)) \<Longrightarrow>
    (\<And>k. a \<le> k \<Longrightarrow> k < r \<Longrightarrow> lt (xs ! k) (xs ! r)) \<Longrightarrow>
    a \<le> max_loop lt r i b xs \<and> max_loop lt r i b xs < b \<and>
    (\<forall>k. a \<le> k \<and> k < b \<longrightarrow> \<not> lt (xs ! max_loop lt r i b xs) (xs ! k)) \<and>
    (\<forall>k. a \<le> k \<and> k < max_loop lt r i b xs \<longrightarrow> lt (xs ! k) (xs ! max_loop lt r i b xs))"
proof (induction "b - i" arbitrary: r i)
  case 0
  then have "max_loop lt r i b xs = r" by (subst max_loop.simps) simp
  with 0 show ?case by auto
next
  case (Suc n)
  have ib: "i < b" using Suc.hyps(2) by simp
  show ?case
  proof (cases "lt (xs ! r) (xs ! i)")
    case True
    have e: "max_loop lt r i b xs = max_loop lt i (i + 1) b xs" using True ib by (subst max_loop.simps) simp
    show ?thesis unfolding e
    proof (rule Suc.hyps(1))
      show "\<not> lt (xs ! i) (xs ! k)" if "a \<le> k" "k < i + 1" for k
        using that Suc.prems(4) [of k] True lt unfolding strict_linear_def by (cases "k = i") (auto simp: less_Suc_eq)
      show "lt (xs ! k) (xs ! i)" if "a \<le> k" "k < i" for k
        using Suc.prems(4) [OF that] True lt unfolding strict_linear_def by metis
    qed (use Suc.prems Suc.hyps(2) in auto)
  next
    case False
    have e: "max_loop lt r i b xs = max_loop lt r (i + 1) b xs" using False ib by (subst max_loop.simps) simp
    show ?thesis unfolding e
    proof (rule Suc.hyps(1))
      show "\<not> lt (xs ! r) (xs ! k)" if "a \<le> k" "k < i + 1" for k
        using that Suc.prems(4) [of k] False by (cases "k = i") (auto simp: less_Suc_eq)
    qed (use Suc.prems Suc.hyps(2) in auto)
  qed
qed

text \<open>The first of the largest elements.\<close>

lemma my_max_element_first:
  fixes xs :: "'a::linorder list"
  assumes "a < b"
  shows "a \<le> my_max_element (<) a b xs \<and> my_max_element (<) a b xs < b \<and>
    (\<forall>k. a \<le> k \<and> k < b \<longrightarrow> xs ! k \<le> xs ! my_max_element (<) a b xs) \<and>
    (\<forall>k. a \<le> k \<and> k < my_max_element (<) a b xs \<longrightarrow> xs ! k < xs ! my_max_element (<) a b xs)"
  using assms max_loop_max [OF strict_linear_order(1), of a a "a + 1" b xs]
  by (auto simp: my_max_element_def less_Suc_eq not_less)

lemma my_min_element_first:
  fixes xs :: "'a::linorder list"
  assumes "a < b"
  shows "a \<le> my_min_element (<) a b xs \<and> my_min_element (<) a b xs < b \<and>
    (\<forall>k. a \<le> k \<and> k < b \<longrightarrow> xs ! my_min_element (<) a b xs \<le> xs ! k) \<and>
    (\<forall>k. a \<le> k \<and> k < my_min_element (<) a b xs \<longrightarrow> xs ! my_min_element (<) a b xs < xs ! k)"
  using assms max_loop_max [OF strict_linear_order(2), of a a "a + 1" b xs]
  by (auto simp: my_min_element_def less_Suc_eq not_less)

section \<open>Search of a range\<close>

definition matches_at :: "'a list \<Rightarrow> 'a list \<Rightarrow> nat \<Rightarrow> bool" where
  "matches_at xs ys i \<longleftrightarrow> i + length ys \<le> length xs \<and> (\<forall>k < length ys. xs ! (i + k) = ys ! k)"

lemma search_from_inner:
  assumes "first + length ys \<le> length xs"
  shows "c \<le> length ys \<Longrightarrow> \<forall>k < c. xs ! (first + k) = ys ! k \<Longrightarrow>
    search_from (=) xs ys first d (first + c) c =
      (if matches_at xs ys first then Some first
       else if d = length ys then Some (length xs)
       else search_from (=) xs ys (first + 1) (d - 1) (first + 1) 0)"
proof (induction "length ys - c" arbitrary: c)
  case 0
  then have "matches_at xs ys first" using assms by (simp add: matches_at_def)
  then show ?case using 0 by (subst search_from.simps) simp
next
  case (Suc n)
  show ?case
  proof (cases "xs ! (first + c) = ys ! c")
    case True
    have "search_from (=) xs ys first d (first + c) c = search_from (=) xs ys first d (first + (c + 1)) (c + 1)"
    proof -
      have "c \<noteq> length ys" "\<not> length xs \<le> first + c" using Suc.hyps(2) assms by auto
      with True show ?thesis by (subst search_from.simps) simp
    qed
    moreover have "\<forall>k < c + 1. xs ! (first + k) = ys ! k" using Suc.prems(2) True by (simp add: less_Suc_eq)
    ultimately show ?thesis using Suc.hyps(1) [of "c + 1"] Suc.hyps(2) by simp
  next
    case False
    have c: "c < length ys" using Suc.hyps(2) by simp
    with False have "\<not> matches_at xs ys first" by (auto simp: matches_at_def)
    then show ?thesis using False c assms by (subst search_from.simps) simp
  qed
qed

lemma search_from_first:
  "first + d = length xs \<Longrightarrow> length ys \<le> d \<Longrightarrow> \<exists>p. search_from (=) xs ys first d first 0 = Some p \<and>
    (first \<le> p \<and> matches_at xs ys p \<and> (\<forall>i. first \<le> i \<and> i < p \<longrightarrow> \<not> matches_at xs ys i) \<or>
     p = length xs \<and> (\<forall>i \<ge> first. \<not> matches_at xs ys i))"
proof (induction d arbitrary: first)
  case 0
  then have "matches_at xs ys first" by (simp add: matches_at_def)
  then show ?case using search_from_inner [of first ys xs 0 0] 0 by auto
next
  case (Suc d)
  have s: "search_from (=) xs ys first (Suc d) first 0 = (if matches_at xs ys first then Some first
       else if Suc d = length ys then Some (length xs) else search_from (=) xs ys (first + 1) d (first + 1) 0)"
    using search_from_inner [of first ys xs 0 "Suc d"] Suc.prems by simp
  consider "matches_at xs ys first" | "\<not> matches_at xs ys first" "Suc d = length ys" | "\<not> matches_at xs ys first" "length ys \<le> d"
    using Suc.prems(2) by linarith
  then show ?case
  proof cases
    case 1
    then show ?thesis using s by auto
  next
    case 2
    have "\<not> matches_at xs ys i" if "first \<le> i" for i
      using that 2 Suc.prems(1) by (cases "i = first") (auto simp: matches_at_def)
    then show ?thesis using s 2 by auto
  next
    case 3
    from Suc.IH [of "first + 1"] Suc.prems(1) 3(2) obtain p where p: "search_from (=) xs ys (first + 1) d (first + 1) 0 = Some p"
      "first + 1 \<le> p \<and> matches_at xs ys p \<and> (\<forall>i. first + 1 \<le> i \<and> i < p \<longrightarrow> \<not> matches_at xs ys i) \<or>
       p = length xs \<and> (\<forall>i \<ge> first + 1. \<not> matches_at xs ys i)" by auto
    have s': "search_from (=) xs ys first (Suc d) first 0 = Some p" using s 3 p(1) by auto
    from p(2) show ?thesis
    proof
      assume h: "first + 1 \<le> p \<and> matches_at xs ys p \<and> (\<forall>i. first + 1 \<le> i \<and> i < p \<longrightarrow> \<not> matches_at xs ys i)"
      have "\<not> matches_at xs ys i" if "first \<le> i" "i < p" for i using that h 3(1) by (cases "i = first") auto
      then show ?thesis using s' h by auto
    next
      assume h: "p = length xs \<and> (\<forall>i \<ge> first + 1. \<not> matches_at xs ys i)"
      have "\<not> matches_at xs ys i" if "first \<le> i" for i using that h 3(1) by (cases "i = first") auto
      then show ?thesis using s' h by auto
    qed
  qed
qed

text \<open>\<open>my_search\<close> reads nothing outside and returns the first occurrence, or the end when there is none.\<close>

theorem my_search_first:
  "\<exists>p. my_search (=) xs ys = Some p \<and>
    (matches_at xs ys p \<and> (\<forall>i < p. \<not> matches_at xs ys i) \<or> p = length xs \<and> (\<forall>i. \<not> matches_at xs ys i))"
proof (cases "length xs < length ys")
  case True
  then show ?thesis by (simp add: my_search_def matches_at_def)
next
  case False
  then show ?thesis using search_from_first [of 0 "length xs" xs ys] by (auto simp: my_search_def)
qed

text \<open>\<open>my_equal\<close> compares every element with the first one of the other range.\<close>

lemma my_equal_constant: "my_equal (=) xs (y # ys) = Some (\<forall>x \<in> set xs. x = y)"
  by (induction xs) auto

lemma my_equal_wrong: "my_equal (=) [1, 2 :: nat] [1, 2] = Some False" "my_equal (=) [1, 1 :: nat] [1, 2] = Some True"
  by simp_all

section \<open>What the changes leave\<close>

lemma update_here [simp]: "(us @ v # ws)[length us := w] = us @ w # ws"
  by (simp add: list_update_append)

text \<open>Between the elements kept so far and those still to be read there is a gap.\<close>

lemma remove_copy_range:
  "\<exists>junk. my_remove_copy_if P (length us + length gap) (length us + length gap + length vs) (length us) (us @ gap @ vs @ ws) =
      (length us + length (filter (\<lambda>x. \<not> P x) vs), us @ filter (\<lambda>x. \<not> P x) vs @ junk @ ws) \<and>
    length (filter (\<lambda>x. \<not> P x) vs) + length junk = length gap + length vs"
proof (induction vs arbitrary: us gap)
  case Nil
  show ?case by (subst my_remove_copy_if.simps) simp
next
  case (Cons v vs)
  have here: "(us @ gap @ v # vs @ ws) ! (length us + length gap) = v"
    using nth_here [of "us @ gap" v "vs @ ws"] by simp
  show ?case
  proof (cases "P v")
    case True
    have "my_remove_copy_if P (length us + length gap) (length us + length gap + length (v # vs)) (length us) (us @ gap @ (v # vs) @ ws) =
        my_remove_copy_if P (length us + length (gap @ [v])) (length us + length (gap @ [v]) + length vs) (length us) (us @ (gap @ [v]) @ vs @ ws)"
      using True here by (subst my_remove_copy_if.simps) simp
    then show ?thesis using Cons.IH [of us "gap @ [v]"] True by simp
  next
    case False
    define gap' where "gap' = (case gap of [] \<Rightarrow> [] | g # gs \<Rightarrow> gs @ [v])"
    have g: "length gap' = length gap" "(us @ gap @ v # vs @ ws)[length us := v] = (us @ [v]) @ gap' @ vs @ ws"
      by (cases gap; simp add: gap'_def)+
    have "my_remove_copy_if P (length us + length gap) (length us + length gap + length (v # vs)) (length us) (us @ gap @ (v # vs) @ ws) =
        my_remove_copy_if P (length (us @ [v]) + length gap') (length (us @ [v]) + length gap' + length vs) (length (us @ [v])) ((us @ [v]) @ gap' @ vs @ ws)"
      using False here g by (subst my_remove_copy_if.simps) simp
    then show ?thesis using Cons.IH [of "us @ [v]" gap'] False g(1) by auto
  qed
qed

text \<open>\<open>my_remove_if\<close> moves what stays to the front, in order, and returns its end.\<close>

theorem my_remove_if_filters:
  "\<exists>junk. my_remove_if P (length us) (length us + length vs) (us @ vs @ ws) =
      (length us + length (filter (\<lambda>x. \<not> P x) vs), us @ filter (\<lambda>x. \<not> P x) vs @ junk @ ws) \<and>
    length (filter (\<lambda>x. \<not> P x) vs) + length junk = length vs"
proof -
  define A where "A = takeWhile (\<lambda>x. \<not> P x) vs"
  have f: "my_find_if P (length us) (length us + length vs) (us @ vs @ ws) = length us + length A"
    unfolding A_def by (rule find_if_range)
  have A: "filter (\<lambda>x. \<not> P x) A = A" unfolding A_def by (induction vs) auto
  show ?thesis
  proof (cases "A = vs")
    case True
    then show ?thesis using f A by (simp add: my_remove_if_def)
  next
    case False
    have "vs = A @ dropWhile (\<lambda>x. \<not> P x) vs" by (simp add: A_def)
    with False obtain v B where d: "dropWhile (\<lambda>x. \<not> P x) vs = v # B"
      by (cases "dropWhile (\<lambda>x. \<not> P x) vs") auto
    then have v: "vs = A @ v # B" "P v" unfolding dropWhile_eq_Cons_conv A_def by simp_all
    have "my_remove_if P (length us) (length us + length vs) (us @ vs @ ws) =
        my_remove_copy_if P (length (us @ A) + length [v]) (length (us @ A) + length [v] + length B) (length (us @ A)) ((us @ A) @ [v] @ B @ ws)"
      using f False v by (simp add: my_remove_if_def Let_def add.assoc)
    then show ?thesis using remove_copy_range [of P "us @ A" "[v]" B ws] v A by auto
  qed
qed

lemma unique_loop_range:
  "\<exists>junk. unique_loop (=) (length us + length gap) (Suc (length us + length gap + length vs)) (length us) (us @ c # gap @ vs @ ws) =
      (length us + length (remdups_adj (c # vs)), us @ remdups_adj (c # vs) @ junk @ ws) \<and>
    length (remdups_adj (c # vs)) + length junk = Suc (length gap + length vs)"
proof (induction vs arbitrary: us gap c)
  case Nil
  show ?case by (subst unique_loop.simps) simp
next
  case (Cons v vs)
  have here: "(us @ c # gap @ v # vs @ ws) ! Suc (length us + length gap) = v"
    using nth_here [of "us @ c # gap" v "vs @ ws"] by simp
  show ?case
  proof (cases "c = v")
    case True
    have "unique_loop (=) (length us + length gap) (Suc (length us + length gap + length (v # vs))) (length us) (us @ c # gap @ (v # vs) @ ws) =
        unique_loop (=) (length us + length (gap @ [v])) (Suc (length us + length (gap @ [v]) + length vs)) (length us) (us @ c # (gap @ [v]) @ vs @ ws)"
      using True here by (subst unique_loop.simps) simp
    then show ?thesis using Cons.IH [of us "gap @ [v]" c] True by simp
  next
    case False
    define gap' where "gap' = (case gap of [] \<Rightarrow> [] | g # gs \<Rightarrow> gs @ [v])"
    have g: "length gap' = length gap" "(us @ c # gap @ v # vs @ ws)[Suc (length us) := v] = (us @ [c]) @ v # gap' @ vs @ ws"
      using update_here [of "us @ [c]" _ _ v] by (cases gap; simp add: gap'_def)+
    have "unique_loop (=) (length us + length gap) (Suc (length us + length gap + length (v # vs))) (length us) (us @ c # gap @ (v # vs) @ ws) =
        unique_loop (=) (length (us @ [c]) + length gap') (Suc (length (us @ [c]) + length gap' + length vs)) (length (us @ [c])) ((us @ [c]) @ v # gap' @ vs @ ws)"
      using False here g by (subst unique_loop.simps) simp
    then show ?thesis using Cons.IH [of "us @ [c]" gap' v] False g(1) by auto
  qed
qed

lemma unique_from_adjacent:
  "\<exists>junk. (let f = adjacent_loop (=) (length us) (length us + length (c # vs)) (us @ (c # vs) @ ws)
      in my_unique_copy (=) f (length us + length (c # vs)) f (us @ (c # vs) @ ws)) =
      (length us + length (remdups_adj (c # vs)), us @ remdups_adj (c # vs) @ junk @ ws) \<and>
    length (remdups_adj (c # vs)) + length junk = length (c # vs)"
proof (induction vs arbitrary: us c)
  case Nil
  show ?case by (subst adjacent_loop.simps) (simp add: my_unique_copy_def)
next
  case (Cons v vs)
  have here: "(us @ c # v # vs @ ws) ! Suc (length us) = v" using nth_here [of "us @ [c]" v "vs @ ws"] by simp
  show ?case
  proof (cases "c = v")
    case True
    have "adjacent_loop (=) (length us) (length us + length (c # v # vs)) (us @ (c # v # vs) @ ws) = length us"
      using True here by (subst adjacent_loop.simps) simp
    then show ?thesis using unique_loop_range [of us "[]" "v # vs" c ws] by (simp add: my_unique_copy_def Let_def del: remdups_adj.simps)
  next
    case False
    have "adjacent_loop (=) (length us) (length us + length (c # v # vs)) (us @ (c # v # vs) @ ws) =
        adjacent_loop (=) (length (us @ [c])) (length (us @ [c]) + length (v # vs)) ((us @ [c]) @ (v # vs) @ ws)"
      using False here by (subst adjacent_loop.simps) simp
    then show ?thesis using Cons.IH [of "us @ [c]" v] False by (simp add: Let_def)
  qed
qed

text \<open>\<open>my_unique\<close> keeps the first of every group of equal neighbours.\<close>

theorem my_unique_remdups:
  "\<exists>junk. my_unique (=) (length us) (length us + length vs) (us @ vs @ ws) =
      (length us + length (remdups_adj vs), us @ remdups_adj vs @ junk @ ws) \<and>
    length (remdups_adj vs) + length junk = length vs"
proof (cases vs)
  case Nil
  then show ?thesis by (simp add: my_unique_def my_adjacent_find_def my_unique_copy_def)
next
  case (Cons c rest)
  show ?thesis using unique_from_adjacent [of us c rest ws] unfolding Cons
    by (simp add: my_unique_def my_adjacent_find_def Let_def)
qed

lemma my_replace_if_maps:
  "my_replace_if P w (length us) (length us + length vs) (us @ vs @ ws) = us @ map (\<lambda>x. if P x then w else x) vs @ ws"
proof (induction vs arbitrary: us)
  case Nil
  show ?case by (subst my_replace_if.simps) simp
next
  case (Cons v vs)
  from Cons.IH [of "us @ [if P v then w else v]"] show ?case by (cases "P v"; subst my_replace_if.simps) simp_all
qed

section \<open>What the power is\<close>

lemma power_even_correct:
  fixes x :: "'a::monoid_mult"
  shows "power_even (*) x n = (y, m) \<Longrightarrow> n \<noteq> 0 \<Longrightarrow> odd m \<and> y ^ m = x ^ n"
proof (induction n arbitrary: x rule: less_induct)
  case (less n)
  show ?case
  proof (cases "even n")
    case True
    then have half: "power_even (*) (x * x) (n div 2) = (y, m)" "n div 2 \<noteq> 0" "n div 2 < n"
      using less.prems by (auto simp: power_even.simps [of _ x n])
    have "(x * x) ^ (n div 2) = x ^ n" using True by (simp flip: power2_eq_square power_mult)
    then show ?thesis using less.IH [OF half(3,1,2)] by simp
  next
    case False
    then show ?thesis using less.prems by (simp add: power_even.simps)
  qed
qed

lemma power_loop_correct:
  fixes x :: "'a::monoid_mult"
  shows "power_loop (*) x result n = result * x ^ (2 * n)"
proof (induction n arbitrary: x result rule: less_induct)
  case (less n)
  show ?case
  proof (cases "n = 0")
    case False
    define r where "r = (if odd n then result * (x * x) else result)"
    have "power_loop (*) x result n = power_loop (*) (x * x) r (n div 2)"
      using False by (subst power_loop.simps) (simp add: r_def Let_def)
    also have "\<dots> = r * (x * x) ^ (2 * (n div 2))" using False less.IH by simp
    also have "\<dots> = result * (x * x) ^ n"
    proof (cases "odd n")
      case True
      then have "n = Suc (2 * (n div 2))" by presburger
      then have "(x * x) ^ n = (x * x) * (x * x) ^ (2 * (n div 2))" by (metis power_Suc)
      then show ?thesis using True by (simp add: r_def mult.assoc)
    qed (simp add: r_def)
    also have "(x * x) ^ n = x ^ (2 * n)" by (simp flip: power2_eq_square power_mult)
    finally show ?thesis .
  qed (subst power_loop.simps, simp)
qed

text \<open>\<open>my_power\<close> is the power, in every monoid.\<close>

theorem my_power_correct:
  fixes x :: "'a::monoid_mult"
  shows "my_power (*) 1 x n = x ^ n"
proof (cases "n = 0")
  case False
  obtain y m where ym: "power_even (*) x n = (y, m)" by fastforce
  have "odd m" "y ^ m = x ^ n" using power_even_correct [OF ym False] by simp_all
  moreover have "m = Suc (2 * (m div 2))" using \<open>odd m\<close> by presburger
  ultimately have "y * y ^ (2 * (m div 2)) = x ^ n" by (metis power_Suc)
  then show ?thesis using False by (simp add: my_power_def ym power_loop_correct)
qed (simp add: my_power_def)

end
