(* ===== verification/Spec2Isabelle.thy ===== *)
theory Spec2Isabelle
  imports Coding_Int Coding_Text Coding_Base Coding_Match Coding_Chunk Hash_Fun Util_Str Util_Num Big_Int Int_Funs
    Bit_Arr Bloom_Filter Lru_Cache Bit_Cask_Spec Mut_Buffer Trie_Count Elevator_Sched Topn_Heap
    Consistent_Hash Skip_List My_Rb_Remove Hash_Db_Run Reg_Spec Stl_Introsort Stl_Set Stl_Seq
begin

text \<open>
  A verification development for csutil, a C++ library: base utilities (src/base), a
  re-implementation of parts of the C++ containers (src/mystl), storage (src/store: an LRU cache,
  a tree cache, the BitCask log store, a hash database) and, on top, network services (src/sock,
  src/http, src/cs, src/ftp, src/agent). The services are glue over sockets, threads and generated
  code; what is modelled here is the code that computes: codecs, arithmetic, search, hashing,
  containers and the two storage engines.

  Conventions (CS_Prelude). A char or uint8_t is a \<open>byte = 8 word\<close>, a std::string a list of bytes,
  uint32_t and uint64_t are words of their width, so every sum and shift wraps where the code's
  does; \<open>int\<close> and \<open>nat\<close> appear where the code has size_t values bounded by an existing container or
  where a theorem speaks of values. A function that returns a Code and writes its result through a
  pointer returns \<open>'a res = Code + 'a\<close>; null-pointer checks have no counterpart. A computation the
  C++ standard leaves undefined (a shift by the width, an index out of bounds, a loop that never
  ends) is \<open>None\<close> in functions of type \<open>_ option\<close>. Objects are records, threaded explicitly; a lock
  is not modelled, an operation under one is one step.

  Theories and the code they model.

  \<^item> Coding_Int: the fixed, variable-length and zig-zag integer codecs of base/coding.cc.
    Coding_Text: percent and hexadecimal encoding there and in base/util.cc. Coding_Base: Base64,
    Base32 and the geo-hash alphabet. Coding_Match: BruteForce, RK, KMP with its table, BM,
    GetHighlighting. Coding_Chunk: the order-preserving MemcomparableEncode and SplitUTF8. Shown:
    round trips on all inputs, agreement of BruteForce and RK with the first occurrence, where the
    tables of KMP and BM leave their bounds, order preservation.

  \<^item> Hash_Fun (base/hash.cc): BKDR, CRC-32, Murmur32. CRC32 is proved equal to division of
    polynomials over the two-element field, bit by bit; the table is the one of the source.

  \<^item> Util_Str, Util_Num (base/util.cc), Big_Int, Int_Funs (base/int.cc): trimming, splitting,
    recognition of numbers, reversal and rotation; addition, subtraction and multiplication of
    decimal strings, proved against the integers; parsing over strtoull, GCD and LCM, bit
    reversal, the maximal segment sum.

  \<^item> Bit_Arr (base/bit_arr.cc), Bloom_Filter (base/bloom_filter.cc). The locale \<open>byte_bits\<close> states
    what a vector of bits promises; every run of the bit array is that of a map from indices to booleans
    that exists once \<open>Init\<close> has succeeded, and the filter is proved free of false negatives and equal to
    the set of its bit positions.

  \<^item> Lru_Cache (store/cache/lru_cache/src/lru_cache.cc): the doubly linked list and the index are a
    heap of nodes with addresses; the invariant \<open>lru_inv\<close> says that the list threads exactly the
    indexed nodes. Every operation refines the cache as a list of keys, values and times.

  \<^item> Bit_Cask_Codec (the record format), Bit_Cask (the store: directory of files, index, writes with
    compare-and-set of versions, reopening), Bit_Cask_Log (file names, the log as the list of its
    records, the newest record of a key), Bit_Cask_Spec (the abstract map, the invariant \<open>cask_inv\<close>,
    refinement of every operation, recovery after reopening), all of
    store/db/bit_cask/src/bit_cask_db.cc and .h. The results on the store hold for runs of fewer than
    \<open>10 ^ 16\<close> operations, so that the file numbers do not run out, and for values of at most 10 MB: a
    longer one is accepted and overruns a buffer when it is read. A write after a read on the same stream
    without a call that positions it, as the source has it, is taken to append (the C standard leaves it
    undefined, glibc does so). The clock is an argument of the operations. The
    loops over files run on the finite directory and the finite file, so they need no fuel.

  \<^item> Mut_Buffer (base/mutable_buffer.cc): the receive buffer, an instance of the locale \<open>byte_queue\<close>.
    Trie_Count (base/trie.cc): the counting trie refines a multiset of words over fewer than \<open>2 ^ 32\<close>
    calls, and lists the words in lexicographic order. Elevator_Sched
    (base/elevator.cc): six disk-arm schedules with their distances.

  \<^item> My_Heap (mystl/my_heap.h): push, pop, adjust, make and sort heap on lists. Topn_Heap
    (mystl/my_priority_queue.h, base/topn_heap.h): the locale \<open>std_heap\<close> is what the heap functions of
    the C++ library promise; TopNHeap is verified over it and my_heap.h is proved to be an instance.

  \<^item> Consistent_Hash (base/consistent_hash.cc): the ring is a function of the servers and their
    weights, \<open>Get\<close> is the nearest position clockwise, and changing one server moves no key between
    the others. Skip_List (base/skip_list.h, GetDroppingRand of base/random.cc): nodes on a heap with one
    link per level; the invariant \<open>skip_inv\<close> says that every node points on every level to the next one
    that reaches it, and all operations refine the sorted map of Std_Map, the model of std::map.

  \<^item> My_Rb_Tree (mystl/my_rb_tree.h): nodes on a heap, address 0 for null, a header with the root, the first
    and the last node; None for reading null or freed memory and for a loop that does not end.
    My_Rb_Insert reads the heap as a tree with a hole (\<open>focus\<close>: the subtree at the hole and the frames above it),
    proves the rotations once for both sides and follows the loop of the insertion. My_Rb_Map adds the
    invariant \<open>rb_at\<close> (colours, black height, order, links of the header, no other memory) and the insertions,
    My_Rb_Iter the iterators and searches, My_Rb_Spec the refinement of an ordered list by any run of the
    operations without removal, and the height. My_Rb_Erase follows the two loops of the removal, My_Rb_Remove proves what
    erasing a position and a key does; that the first node can be left behind the header is shown on an example.

  \<^item> Hash_Db (store/db/hash_db): index file and data file as byte lists, the operations as they seek, read and
    write. Hash_Db_Files: reads after writes, the codecs, the index file as header, directory and buckets.
    Hash_Db_Spec: chains of buckets as lists of entries, the invariant \<open>hash_inv\<close>, every operation on it.
    Hash_Db_Run: any run of operations refines a map from keys to values with versions; a record longer than
    the buffer, which \<open>Put\<close> accepts, is shown to overrun it.

  \<^item> Simple_Reg (base/simple_reg.cc): regular expressions, compiled by recursive descent to a byte-coded
    automaton and matched by backtracking. Reg_Syntax: trees, their text and their code. Reg_Link: the linking
    functions patch the last open link of a piece of code. Reg_Lex, Reg_Compile: every parsing function reads the
    text of a tree and emits its code. Reg_Match: the pairs of positions a tree matches. Reg_Correct: \<open>Match\<close> on the
    code of a tree finds a pair exactly when there is one. Reg_Spec: what \<open>Init\<close> and \<open>Check\<close> promise, in the
    reading of the code (dots match behind the end, the null character is in every class) and, for
    expressions without dots on subjects without null characters, in the usual meaning; and where the code
    leaves it. The fuel of the parser is five calls for a character, proved enough.

  \<^item> Stl_Copy, Stl_Sort, Stl_Introsort (mystl/my_stl_algobase.h): an array is a list, an iterator a position.
    Copies between overlapping ranges move as \<open>memmove\<close> does; \<open>my_sort\<close> leaves every element at most 16 places
    from home (\<open>roughly\<close>), which makes the insertion sort without bound checks safe. Stl_Rotate, Stl_Perm
    (mystl/my_stl_algo.h, my_stl_algobase.h): the three rotations agree (the third one follows the cycles of a shift, as many as the
    greatest common divisor), the next permutation is the least larger one, partition splits. Stl_Set: set
    operations on sorted ranges as multisets, binary searches as the positions that split a range. Stl_Seq
    (also mystl/my_stl_numeric.h): searches, removal of elements in place, powers by squaring.

  Fuel and termination. Recursive functions carry termination proofs; loops that may not end
  (BuildNext_loop, KMP_loop, BM_loop, expire_loop, DecodeVar_loop) are \<open>partial_function (option)\<close> or option-valued with a proof
  of when they return.

  Not modelled: system and library wrappers (files, sockets, event loops, threads, OpenSSL,
  compression, curl, POSIX regular expressions), generated protobuf classes and the services over
  them, logging, raw-memory allocators, code on floating point numbers (geo hash, kd-tree,
  nearest neighbours, control loops), programs and tests. Allocation never fails. What remains to be
  done: the hash table of src/mystl, the tree cache and
  the HTTP parser.
\<close>

end
